(* ===== verification/Prelude.thy ===== *)
theory Prelude
  imports Main "HOL-Library.Word"
begin

text \<open>
  Shared vocabulary of the development: machine-integer synonyms, the ways an operation of
  the program can fail, the sequencing operator for fallible operations, the C string
  primitives (NUL-terminated text), and generic lemmas on lists that are overwritten in
  place. Nothing here models a line of the program by itself; the components do.

  A fallible operation returns \<open>failure + 'a\<close>: \<open>Inl (Throw e)\<close> is a C++ exception that
  leaves the operation, \<open>Inl (Undefined u)\<close> is undefined behaviour of the C++ abstract
  machine (an access outside an object, a dereferenced null pointer, ...), \<open>Inl (Assert t)\<close> is
  a failed \<open>assert\<close>, and \<open>Inr x\<close> is a normal return.
\<close>

subsection \<open>Machine integers\<close>

type_synonym u8 = "8 word"
type_synonym u32 = "32 word"
type_synonym u64 = "64 word"

abbreviation INT_MAX :: nat where
  "INT_MAX \<equiv> 2147483647"

subsection \<open>Failures and sequencing\<close>

datatype ub =
    OutOfBounds
  | NullDeref
  | UseAfterFree
  | Uninitialised
  | SignedOverflow
  | MismatchedDelete
  | OverlappingCopy
  | BadPrintf

text \<open>The error codes of the network library; \<open>SysError\<close> is any other \<open>errno\<close> value.\<close>

datatype errc =
    Eof
  | NotFound
  | OperationAborted
  | WouldBlock
  | TryAgain
  | Interrupted
  | BadDescriptor
  | AlreadyOpen
  | InProgress
  | SysError int

type_synonym error_code = "errc option"

datatype exn =
    FormatError string
  | SystemError string int
  | FlexFatal string
  | LengthError string
  | BadArrayLength
  | AsioError errc string

datatype failure = Throw exn | Undefined ub | Assert string

type_synonym 'a res = "failure + 'a"

definition ebind :: "('e + 'a) \<Rightarrow> ('a \<Rightarrow> 'e + 'b) \<Rightarrow> 'e + 'b" where
  "ebind m f = (case m of Inl e \<Rightarrow> Inl e | Inr x \<Rightarrow> f x)"

lemma ebind_simps [simp]:
  "ebind (Inl e) f = Inl e"
  "ebind (Inr x) f = f x"
  by (simp_all add: ebind_def)

lemma ebind_cong [fundef_cong]:
  "m = m' \<Longrightarrow> (\<And>x. m' = Inr x \<Longrightarrow> f x = g x) \<Longrightarrow> ebind m f = ebind m' g"
  by (cases m') (auto simp: ebind_def)

lemma ebind_Inr_iff: "ebind m f = Inr y \<longleftrightarrow> (\<exists>x. m = Inr x \<and> f x = Inr y)"
  by (cases m) auto

lemma ebind_Inl_iff: "ebind m f = Inl e \<longleftrightarrow> m = Inl e \<or> (\<exists>x. m = Inr x \<and> f x = Inl e)"
  by (cases m) auto

lemma ebind_assoc: "ebind (ebind m f) g = ebind m (\<lambda>x. ebind (f x) g)"
  by (cases m) auto

lemma ebind_InrE:
  assumes "ebind m f = Inr y"
  obtains x where "m = Inr x" and "f x = Inr y"
  using assms by (cases m) auto

text \<open>Sequencing when the outer option is \<open>None\<close> for a computation that ran out of fuel.\<close>

definition obind :: "('e + 'a) option \<Rightarrow> ('a \<Rightarrow> ('e + 'b) option) \<Rightarrow> ('e + 'b) option" where
  "obind m f = (case m of None \<Rightarrow> None | Some (Inl e) \<Rightarrow> Some (Inl e) | Some (Inr x) \<Rightarrow> f x)"

lemma obind_simps [simp]:
  "obind None f = None"
  "obind (Some (Inl e)) f = Some (Inl e)"
  "obind (Some (Inr x)) f = f x"
  by (simp_all add: obind_def)

lemma obind_cong [fundef_cong]:
  "m = m' \<Longrightarrow> (\<And>x. m' = Some (Inr x) \<Longrightarrow> f x = g x) \<Longrightarrow> obind m f = obind m' g"
  by (auto simp: obind_def split: option.splits sum.splits)

definition guard :: "bool \<Rightarrow> 'e \<Rightarrow> 'e + unit" where
  "guard b e = (if b then Inr () else Inl e)"

lemma guard_simps [simp]:
  "guard True e = Inr ()"
  "guard False e = Inl e"
  by (simp_all add: guard_def)

lemma guard_Inr_iff [simp]: "guard b e = Inr u \<longleftrightarrow> b"
  by (simp add: guard_def)

subsection \<open>Characters and C strings\<close>

abbreviation NUL :: char where
  "NUL \<equiv> CHR 0x00"

abbreviation CR :: char where
  "CR \<equiv> CHR 0x0D"

abbreviation LF :: char where
  "LF \<equiv> CHR 0x0A"

definition code :: "char \<Rightarrow> nat" where
  "code c = of_char c"

definition chr :: "nat \<Rightarrow> char" where
  "chr n = char_of n"

lemma code_chr: "code (chr n) = n mod 256"
  by (simp add: code_def chr_def)

lemma chr_code [simp]: "chr (code c) = c"
  by (simp add: code_def chr_def)

lemma code_inj: "code c = code d \<Longrightarrow> c = d"
  by (metis chr_code)

definition is_digit_char :: "char \<Rightarrow> bool" where
  "is_digit_char c \<longleftrightarrow> 48 \<le> code c \<and> code c \<le> 57"

definition digit_char :: "nat \<Rightarrow> char" where
  "digit_char d = chr (48 + d)"

lemma code_digit_char: "d < 10 \<Longrightarrow> code (digit_char d) = 48 + d"
  by (simp add: digit_char_def code_chr)

lemma is_digit_digit_char [simp]: "d < 10 \<Longrightarrow> is_digit_char (digit_char d)"
  by (simp add: is_digit_char_def code_digit_char)

text \<open>\<open>strlen\<close> over the memory a pointer addresses, and the text up to the terminator.\<close>

definition c_text :: "string \<Rightarrow> string" where
  "c_text m = takeWhile (\<lambda>c. c \<noteq> NUL) m"

definition strlen :: "string \<Rightarrow> nat" where
  "strlen m = length (c_text m)"

lemma c_text_id: "NUL \<notin> set s \<Longrightarrow> c_text s = s"
  by (simp add: c_text_def takeWhile_eq_all_conv) metis

lemma strlen_id: "NUL \<notin> set s \<Longrightarrow> strlen s = length s"
  by (simp add: strlen_def c_text_id)

lemma strlen_le: "strlen s \<le> length s"
  by (simp add: strlen_def c_text_def length_takeWhile_le)

subsection \<open>Overwriting a stretch of a list\<close>

definition overwrite :: "nat \<Rightarrow> 'a list \<Rightarrow> 'a list \<Rightarrow> 'a list" where
  "overwrite i xs ys = take i ys @ xs @ drop (i + length xs) ys"

lemma length_overwrite [simp]:
  "i + length xs \<le> length ys \<Longrightarrow> length (overwrite i xs ys) = length ys"
  by (simp add: overwrite_def)

lemma overwrite_block:
  "i = length pre \<Longrightarrow> length xs = length blk \<Longrightarrow>
   overwrite i xs (pre @ blk @ post) = pre @ xs @ post"
  by (simp add: overwrite_def)

lemma overwrite_shift:
  "i + length xs \<le> length blk \<Longrightarrow>
   overwrite (length pre + i) xs (pre @ blk @ post) = pre @ overwrite i xs blk @ post"
  by (simp add: overwrite_def)

lemma overwrite_single: "i < length ys \<Longrightarrow> overwrite i [x] ys = ys[i := x]"
  by (simp add: overwrite_def upd_conv_take_nth_drop)

lemma overwrite_0_all: "length xs = length ys \<Longrightarrow> overwrite 0 xs ys = xs"
  by (simp add: overwrite_def)

lemma overwrite_Nil [simp]: "overwrite i [] ys = ys"
  by (simp add: overwrite_def)

lemma take_overwrite_prefix: "i \<le> length ys \<Longrightarrow> take i (overwrite i xs ys) = take i ys"
  by (simp add: overwrite_def)

lemma replicate_Suc_append: "replicate (Suc n) x = replicate n x @ [x]"
  by (metis replicate_append_same replicate_Suc)

lemma length_Suc_Suc_rev: "length xs = Suc (Suc n) \<Longrightarrow> \<exists>ys c d. xs = ys @ [c, d] \<and> length ys = n"
  by (auto simp: length_Suc_conv_rev)

lemma unat_ucast_up:
  "LENGTH('a::len) \<le> LENGTH('b::len) \<Longrightarrow> unat (ucast (w :: 'a word) :: 'b word) = unat w"
proof -
  assume le: "LENGTH('a) \<le> LENGTH('b)"
  have "unat w < 2 ^ LENGTH('a)" by (rule unsigned_less)
  also have "(2::nat) ^ LENGTH('a) \<le> 2 ^ LENGTH('b)" using le by simp
  finally show ?thesis by (simp add: unsigned_ucast_eq take_bit_nat_eq_self)
qed

text \<open>Negation in the unsigned type of the same width gives the absolute value, the least value included.\<close>

lemma uint_neg_abs: "sint (w::'a::len word) < 0 \<Longrightarrow> uint (0 - w) = - sint w"
proof -
  assume neg: "sint w < 0"
  have "uint (0 - w) = uint (word_of_int (- sint w) :: 'a word)" by simp
  also have "\<dots> = take_bit LENGTH('a) (- sint w)" by (rule uint_word_of_int_eq)
  finally have "uint (0 - w) = take_bit LENGTH('a) (- sint w)" .
  moreover have "- sint w < 2 ^ LENGTH('a)"
  proof -
    have "- (2 ^ (LENGTH('a) - 1)) \<le> sint w" by (rule sint_ge)
    moreover have "(2::int) ^ (LENGTH('a) - 1) < 2 ^ LENGTH('a)" by simp
    ultimately show ?thesis by linarith
  qed
  ultimately show ?thesis using neg by (simp add: take_bit_int_eq_self)
qed

lemma uint_nonneg: "0 \<le> sint (w::'a::len word) \<Longrightarrow> uint w = sint w"
proof -
  assume "0 \<le> sint w"
  have "w = word_of_int (sint w)" by simp
  have "uint w = take_bit LENGTH('a) (sint w)" by (rule uint_sint)
  moreover have "sint w < 2 ^ LENGTH('a)"
  proof -
    have "sint w < 2 ^ (LENGTH('a) - 1)" by (rule sint_lt)
    moreover have "(2::int) ^ (LENGTH('a) - 1) < 2 ^ LENGTH('a)" by simp
    ultimately show ?thesis by linarith
  qed
  ultimately show ?thesis using \<open>0 \<le> sint w\<close> by (simp add: take_bit_int_eq_self)
qed
lemma unat_abs:
  "unat (if sint w < 0 then 0 - w else w) = nat \<bar>sint (w::'a::len word)\<bar>"
proof (cases "sint w < 0")
  case True
  have "unat (0 - w) = nat (uint (0 - w))" by (rule unat_eq_nat_uint)
  with True uint_neg_abs [OF True] show ?thesis by (simp only: if_True abs_of_neg)
next
  case False
  then have "uint w = sint w" by (intro uint_nonneg) simp
  with False show ?thesis by (simp only: unat_eq_nat_uint if_False)
qed
lemma sint_scast_up: "LENGTH('a::len) \<le> LENGTH('b::len) \<Longrightarrow> sint (scast (w::'a word) :: 'b word) = sint w"
  by (rule sint_up_scast) (simp add: is_up)
subsection \<open>Raw memory behind a pointer\<close>

text \<open>
  A stretch of memory is a list of cells; a cell is \<open>None\<close> until it has been written. A
  pointer into it is an integer offset. A write outside the stretch is undefined behaviour.
\<close>

type_synonym 'a mem = "'a option list"

definition mwrite :: "int \<Rightarrow> 'a option list \<Rightarrow> 'a mem \<Rightarrow> 'a mem res" where
  "mwrite p xs m =
     (if xs = [] then Inr m
      else if 0 \<le> p \<and> nat p + length xs \<le> length m then Inr (overwrite (nat p) xs m)
      else Inl (Undefined OutOfBounds))"

definition mstore :: "int \<Rightarrow> 'a \<Rightarrow> 'a mem \<Rightarrow> 'a mem res" where
  "mstore p x m = mwrite p [Some x] m"

definition mload :: "int \<Rightarrow> 'a mem \<Rightarrow> 'a res" where
  "mload p m =
     (if 0 \<le> p \<and> nat p < length m
      then (case m ! nat p of None \<Rightarrow> Inl (Undefined Uninitialised) | Some x \<Rightarrow> Inr x)
      else Inl (Undefined OutOfBounds))"

text \<open>\<open>std::fill_n\<close> and \<open>std::copy\<close> into such a stretch.\<close>

definition fill_n :: "int \<Rightarrow> nat \<Rightarrow> 'a \<Rightarrow> 'a mem \<Rightarrow> 'a mem res" where
  "fill_n p n x m = mwrite p (replicate n (Some x)) m"

definition copy_in :: "'a list \<Rightarrow> int \<Rightarrow> 'a mem \<Rightarrow> 'a mem res" where
  "copy_in xs p m = mwrite p (map Some xs) m"

lemma mwrite_Nil [simp]: "mwrite p [] m = Inr m"
  by (simp add: mwrite_def)

lemma mwrite_at:
  assumes "i + length xs \<le> length blk" and "p = int (length pre) + int i"
  shows "mwrite p xs (pre @ blk @ post) = Inr (pre @ overwrite i xs blk @ post)"
  using assms overwrite_shift [OF assms(1), of pre post]
  by (simp add: mwrite_def nat_add_distrib)

lemma mwrite_piece:
  assumes "p = int (length pre)" and "length xs = length blk"
  shows "mwrite p xs (pre @ blk @ post) = Inr (pre @ xs @ post)"
  using assms mwrite_at [of 0 xs blk p pre post] by (simp add: overwrite_0_all)

lemma mstore_piece:
  assumes "p = int (length pre)"
  shows "mstore p x (pre @ c # post) = Inr (pre @ Some x # post)"
  using mwrite_piece [OF assms, of "[Some x]" "[c]" post] by (simp add: mstore_def)

lemma mwrite_length: "mwrite p xs m = Inr m' \<Longrightarrow> length m' = length m"
  by (auto simp: mwrite_def split: if_splits)

subsection \<open>Decimal notation\<close>

fun dec_string :: "nat \<Rightarrow> string" where
  "dec_string n =
     (if n < 10 then [digit_char n] else dec_string (n div 10) @ [digit_char (n mod 10)])"

declare dec_string.simps [simp del]

fun dec_value :: "nat \<Rightarrow> string \<Rightarrow> nat" where
  "dec_value acc [] = acc"
| "dec_value acc (c # cs) = dec_value (acc * 10 + (code c - 48)) cs"

lemmas dec_string_eval = dec_string.simps digit_char_def chr_def char_of_def bit_Suc_0_iff

lemma dec_value_append: "dec_value acc (xs @ ys) = dec_value (dec_value acc xs) ys"
  by (induction xs arbitrary: acc) auto

lemma dec_value_dec_string: "dec_value 0 (dec_string n) = n"
proof (induction n rule: dec_string.induct)
  case (1 n)
  then show ?case
    by (subst dec_string.simps) (auto simp: dec_value_append code_digit_char)
qed

lemma dec_string_digits: "\<forall>c \<in> set (dec_string n). is_digit_char c"
proof (induction n rule: dec_string.induct)
  case (1 n)
  then show ?case by (subst dec_string.simps) auto
qed

lemma dec_string_nonempty: "dec_string n \<noteq> []"
  by (subst dec_string.simps) simp

lemma dec_string_length:
  "10 ^ k \<le> n \<Longrightarrow> n < 10 ^ Suc k \<Longrightarrow> length (dec_string n) = Suc k"
proof (induction k arbitrary: n)
  case 0
  then show ?case by (subst dec_string.simps) simp
next
  case (Suc k)
  have "10 ^ k \<le> n div 10" and "n div 10 < 10 ^ Suc k" using Suc.prems by simp_all
  then have "length (dec_string (n div 10)) = Suc k" by (rule Suc.IH)
  moreover have "\<not> n < 10"
  proof -
    have "1 \<le> (10::nat) ^ k" by simp
    with Suc.prems(1) show ?thesis unfolding power_Suc by linarith
  qed
  ultimately show ?case by (subst dec_string.simps) simp
qed

lemma dec_string_small: "n < 10 \<Longrightarrow> dec_string n = [digit_char n]"
  by (subst dec_string.simps) simp

lemma dec_string_two:
  "10 \<le> n \<Longrightarrow> n < 100 \<Longrightarrow> dec_string n = [digit_char (n div 10), digit_char (n mod 10)]"
  by (subst dec_string.simps) (simp add: dec_string_small)

lemma dec_string_split2:
  "100 \<le> n \<Longrightarrow> dec_string n = dec_string (n div 100) @
     [digit_char (n mod 100 div 10), digit_char (n mod 100 mod 10)]"
proof -
  assume n: "100 \<le> n"
  have a: "dec_string n = dec_string (n div 10) @ [digit_char (n mod 10)]"
    using n by (subst dec_string.simps) simp
  have "\<not> n div 10 < 10" using n by linarith
  then have b: "dec_string (n div 10) = dec_string (n div 10 div 10) @ [digit_char (n div 10 mod 10)]"
    by (subst dec_string.simps) simp
  have c: "n div 10 div 10 = n div 100" by (simp add: div_mult2_eq [symmetric])
  have d: "n mod 100 div 10 = n div 10 mod 10"
    using mod_mult2_eq [of n 10 10] by simp
  have e: "n mod 100 mod 10 = n mod 10"
    by (simp add: mod_mod_cancel)
  show ?thesis by (simp only: a b c d e append_assoc append.simps)
qed

lemma dec_string_length_le: "0 < k \<Longrightarrow> n < 10 ^ k \<Longrightarrow> length (dec_string n) \<le> k"
proof (induction k arbitrary: n)
  case (Suc k)
  show ?case
  proof (cases "n < 10")
    case False
    with Suc.prems have k: "0 < k" by (cases k) auto
    have "n div 10 < 10 ^ k" using Suc.prems(2) by simp
    with Suc.IH [OF k] have "length (dec_string (n div 10)) \<le> k" by blast
    with False show ?thesis by (subst dec_string.simps) simp
  qed (simp add: dec_string_small)
qed simp

text \<open>Decimal notation with a leading minus sign.\<close>

definition signed_dec :: "int \<Rightarrow> string" where
  "signed_dec z = (if z < 0 then CHR ''-'' # dec_string (nat (- z)) else dec_string (nat z))"

end
