(* ===== verification/Fmt_Array.thy ===== *)
theory Fmt_Array
  imports Prelude
begin

text \<open>
  \<open>fmt::internal::Array<T, SIZE>\<close> of src/format.h: a growable array for plain data whose
  first \<open>SIZE\<close> elements live in the object itself. The model keeps the object's four
  members: \<open>a_size\<close>, \<open>a_capacity\<close>, the pointer \<open>a_ptr\<close> (\<open>None\<close> when it points at the
  inline storage \<open>a_data\<close>, \<open>Some m\<close> when it points at a heap block with contents \<open>m\<close>) and
  \<open>a_data\<close> itself. A cell holds \<open>None\<close> until it is written (\<open>new T[n]\<close> and the inline
  array are not initialised), so a write through \<open>a_ptr\<close> is checked against the storage that
  really exists and a read of an unwritten cell is visible.

  The lemmas show that, under the class invariant, every operation but \<open>append_arr\<close> stays inside
  its storage and acts on the contents like the list operation it stands for; they state
  exactly when \<open>append_arr\<close> leaves its storage, and what a move leaves behind. The locale
  \<open>growable\<close> is the interface the writer is proved against; it is interpreted on the
  \<open>Array\<close> model at the end.
\<close>

subsection \<open>The object\<close>

record 'a arr =
  a_size :: nat
  a_capacity :: nat
  a_ptr :: "'a option list option"
  a_data :: "'a option list"

definition new_array :: "nat \<Rightarrow> 'a arr" where
  "new_array SIZE = \<lparr>a_size = 0, a_capacity = SIZE, a_ptr = None, a_data = replicate SIZE None\<rparr>"

text \<open>The cells \<open>a_ptr\<close> addresses, and a store through it.\<close>

definition storage :: "'a arr \<Rightarrow> 'a option list" where
  "storage a = (case a_ptr a of None \<Rightarrow> a_data a | Some m \<Rightarrow> m)"

definition set_storage :: "'a option list \<Rightarrow> 'a arr \<Rightarrow> 'a arr" where
  "set_storage m a = (case a_ptr a of None \<Rightarrow> a\<lparr>a_data := m\<rparr> | Some _ \<Rightarrow> a\<lparr>a_ptr := Some m\<rparr>)"

definition with_storage :: "('a mem \<Rightarrow> 'a mem res) \<Rightarrow> 'a arr \<Rightarrow> 'a arr res" where
  "with_storage f a = ebind (f (storage a)) (\<lambda>m. Inr (set_storage m a))"

definition on_storage :: "('a mem \<Rightarrow> ('r \<times> 'a mem) res) \<Rightarrow> 'a arr \<Rightarrow> ('r \<times> 'a arr) res" where
  "on_storage f a = ebind (f (storage a)) (\<lambda>(p, m). Inr (p, set_storage m a))"

definition poke_cells :: "int \<Rightarrow> 'a option list \<Rightarrow> 'a arr \<Rightarrow> 'a arr res" where
  "poke_cells i xs a = with_storage (mwrite i xs) a"

definition poke :: "int \<Rightarrow> 'a \<Rightarrow> 'a arr \<Rightarrow> 'a arr res" where
  "poke i x a = poke_cells i [Some x] a"

subsection \<open>Member functions\<close>

definition Grow :: "nat \<Rightarrow> 'a arr \<Rightarrow> 'a arr res" where
  "Grow n a =
     (let cap = max n (a_capacity a + a_capacity a div 2);
          p = replicate cap None
      in if a_size a \<le> length (storage a) \<and> a_size a \<le> cap
         then Inr (a\<lparr>a_capacity := cap, a_ptr := Some (overwrite 0 (take (a_size a) (storage a)) p)\<rparr>)
         else Inl (Undefined OutOfBounds))"

definition resize :: "nat \<Rightarrow> 'a arr \<Rightarrow> 'a arr res" where
  "resize new_size a =
     ebind (if new_size > a_capacity a then Grow new_size a else Inr a)
       (\<lambda>a. Inr (a\<lparr>a_size := new_size\<rparr>))"

definition reserve :: "nat \<Rightarrow> 'a arr \<Rightarrow> 'a arr res" where
  "reserve capacity a = (if capacity > a_capacity a then Grow capacity a else Inr a)"

definition clear :: "'a arr \<Rightarrow> 'a arr" where
  "clear a = a\<lparr>a_size := 0\<rparr>"

definition push_back :: "'a \<Rightarrow> 'a arr \<Rightarrow> 'a arr res" where
  "push_back value a =
     ebind (if a_size a = a_capacity a then Grow (a_size a + 1) a else Inr a)
       (\<lambda>a. ebind (poke (int (a_size a)) value a) (\<lambda>a. Inr (a\<lparr>a_size := a_size a + 1\<rparr>)))"

definition append_arr :: "'a list \<Rightarrow> 'a arr \<Rightarrow> 'a arr res" where
  "append_arr xs a =
     (let num_elements = length xs
      in ebind (if a_size a + num_elements > a_capacity a then Grow num_elements a else Inr a)
           (\<lambda>a. ebind (poke_cells (int (a_size a)) (map Some xs) a)
             (\<lambda>a. Inr (a\<lparr>a_size := a_size a + num_elements\<rparr>))))"

text \<open>
  \<open>Move(other)\<close>: the pair is (this object, the moved-from object). The inline case copies
  \<open>a_size\<close> elements into this object's \<open>a_data\<close>; the heap case steals the block and points
  \<open>other\<close> back at its inline array, leaving its \<open>a_size\<close> and \<open>a_capacity\<close> as they were.
\<close>

definition Move :: "'a arr \<Rightarrow> 'a arr \<Rightarrow> ('a arr \<times> 'a arr) res" where
  "Move this other =
     (case a_ptr other of
        None \<Rightarrow>
          (if a_size other \<le> length (a_data other) \<and> a_size other \<le> length (a_data this)
           then Inr (this\<lparr>a_size := a_size other, a_capacity := a_capacity other, a_ptr := None,
                          a_data := overwrite 0 (take (a_size other) (a_data other)) (a_data this)\<rparr>,
                     other)
           else Inl (Undefined OutOfBounds))
      | Some m \<Rightarrow>
          Inr (this\<lparr>a_size := a_size other, a_capacity := a_capacity other, a_ptr := Some m\<rparr>,
               other\<lparr>a_ptr := None\<rparr>))"

definition move_construct :: "nat \<Rightarrow> 'a arr \<Rightarrow> ('a arr \<times> 'a arr) res" where
  "move_construct SIZE other = Move (new_array SIZE) other"

text \<open>Move assignment frees this object's block first (which no result shows) and then moves.\<close>

definition move_assign :: "'a arr \<Rightarrow> 'a arr \<Rightarrow> ('a arr \<times> 'a arr) res" where
  "move_assign this other = Move this other"

subsection \<open>Class invariant and abstraction\<close>

definition arr_ok :: "'a arr \<Rightarrow> bool" where
  "arr_ok a \<longleftrightarrow> a_capacity a = length (storage a) \<and> a_size a \<le> a_capacity a"

definition cells :: "'a arr \<Rightarrow> 'a option list" where
  "cells a = take (a_size a) (storage a)"

lemma length_cells [simp]: "arr_ok a \<Longrightarrow> length (cells a) = a_size a"
  by (simp add: arr_ok_def cells_def)

lemma storage_set_storage [simp]: "storage (set_storage m a) = m"
  by (simp add: storage_def set_storage_def split: option.splits)

lemma set_storage_same [simp]: "set_storage (storage a) a = a"
  by (simp add: storage_def set_storage_def split: option.splits)

lemmas poke_cells_unfold = poke_cells_def with_storage_def mwrite_def

lemma set_storage_fields [simp]:
  "a_size (set_storage m a) = a_size a"
  "a_capacity (set_storage m a) = a_capacity a"
  by (simp_all add: set_storage_def split: option.splits)

lemma storage_size_update [simp]: "storage (a\<lparr>a_size := n\<rparr>) = storage a"
  by (simp add: storage_def split: option.splits)

lemma cells_size_update: "cells (a\<lparr>a_size := n\<rparr>) = take n (storage a)"
  by (simp add: cells_def)

lemma arr_ok_new_array [simp]: "arr_ok (new_array n)"
  by (simp add: arr_ok_def new_array_def storage_def)

lemma cells_new_array [simp]: "cells (new_array n) = []"
  by (simp add: cells_def new_array_def)

lemma Grow_ok:
  assumes "arr_ok a"
  obtains a' where "Grow n a = Inr a'" and "arr_ok a'" and "cells a' = cells a"
    and "a_size a' = a_size a" and "a_capacity a' = max n (a_capacity a + a_capacity a div 2)"
    and "drop (a_size a) (storage a') = replicate (a_capacity a' - a_size a) None"
proof -
  let ?cap = "max n (a_capacity a + a_capacity a div 2)"
  let ?m = "overwrite 0 (take (a_size a) (storage a)) (replicate ?cap None)"
  let ?a = "a\<lparr>a_capacity := ?cap, a_ptr := Some ?m\<rparr>"
  have le: "a_size a \<le> ?cap" and len: "a_size a \<le> length (storage a)"
    using assms by (auto simp: arr_ok_def)
  have st: "storage ?a = take (a_size a) (storage a) @ replicate (?cap - a_size a) None"
    using le len by (simp add: storage_def overwrite_def)
  show ?thesis
  proof (rule that [of ?a])
    show "Grow n a = Inr ?a" using le len by (simp add: Grow_def Let_def)
    show "arr_ok ?a" using le len st by (simp add: arr_ok_def)
    show "cells ?a = cells a" using le len st by (simp add: cells_def)
    show "drop (a_size a) (storage ?a) = replicate (a_capacity ?a - a_size a) None"
      using len st by simp
  qed simp_all
qed

lemma grow_if_ok:
  assumes "arr_ok a"
  obtains a' where "(if b then Grow n a else Inr a) = Inr a'" and "arr_ok a'"
    and "cells a' = cells a" and "a_size a' = a_size a"
    and "a_capacity a' = (if b then max n (a_capacity a + a_capacity a div 2) else a_capacity a)"
proof (cases b)
  case True
  obtain a' where "Grow n a = Inr a'" "arr_ok a'" "cells a' = cells a" "a_size a' = a_size a"
    "a_capacity a' = max n (a_capacity a + a_capacity a div 2)"
    using assms by (rule Grow_ok)
  with True show ?thesis by (intro that [of a']) simp_all
next
  case False
  with assms show ?thesis by (intro that [of a]) simp_all
qed

subsection \<open>Behaviour of the operations\<close>

lemma reserve_ok:
  assumes "arr_ok a"
  obtains a' where "reserve n a = Inr a'" and "arr_ok a'" and "cells a' = cells a"
    and "a_size a' = a_size a" and "n \<le> a_capacity a'" and "a_capacity a \<le> a_capacity a'"
proof -
  obtain a' where "(if n > a_capacity a then Grow n a else Inr a) = Inr a'" "arr_ok a'"
    "cells a' = cells a" "a_size a' = a_size a"
    "a_capacity a' = (if n > a_capacity a then max n (a_capacity a + a_capacity a div 2)
                      else a_capacity a)"
    using assms by (rule grow_if_ok)
  then show ?thesis by (intro that [of a']) (auto simp: reserve_def)
qed

text \<open>Growing the size opens a block of cells after the old contents.\<close>

lemma resize_grow_ok:
  assumes "arr_ok a"
  obtains a' gap where "resize (a_size a + n) a = Inr a'" and "arr_ok a'"
    and "cells a' = cells a @ gap" and "length gap = n" and "a_size a' = a_size a + n"
proof -
  let ?n = "a_size a + n"
  obtain b where b: "(if ?n > a_capacity a then Grow ?n a else Inr a) = Inr b" "arr_ok b"
    "cells b = cells a" "a_size b = a_size a"
    "a_capacity b = (if ?n > a_capacity a then max ?n (a_capacity a + a_capacity a div 2)
                     else a_capacity a)"
    using assms by (rule grow_if_ok)
  have len: "?n \<le> length (storage b)" using b(2,5) unfolding arr_ok_def by (auto split: if_splits)
  show ?thesis
  proof (rule that [of "b\<lparr>a_size := ?n\<rparr>" "take n (drop (a_size a) (storage b))"])
    show "resize ?n a = Inr (b\<lparr>a_size := ?n\<rparr>)" using b(1) by (simp add: resize_def)
    show "arr_ok (b\<lparr>a_size := ?n\<rparr>)" using b(2) len by (simp add: arr_ok_def)
    show "cells (b\<lparr>a_size := ?n\<rparr>) = cells a @ take n (drop (a_size a) (storage b))"
      using b(3,4) by (simp add: cells_def take_add)
    show "length (take n (drop (a_size a) (storage b))) = n" using len by simp
  qed simp
qed

text \<open>A write inside the contents changes exactly the addressed cells.\<close>

lemma poke_cells_inside:
  assumes "arr_ok a" and "i + length xs \<le> a_size a"
  obtains a' where "poke_cells (int i) xs a = Inr a'" and "arr_ok a'"
    and "cells a' = overwrite i xs (cells a)" and "a_size a' = a_size a"
    and "a_capacity a' = a_capacity a"
proof (cases "xs = []")
  case True
  with assms show ?thesis by (intro that [of a]) (simp_all add: poke_cells_unfold)
next
  case False
  let ?a = "set_storage (overwrite i xs (storage a)) a"
  have len: "i + length xs \<le> length (storage a)" and sz: "a_size a \<le> length (storage a)"
    using assms by (auto simp: arr_ok_def)
  show ?thesis
  proof (rule that [of ?a])
    show "poke_cells (int i) xs a = Inr ?a" using False len by (simp add: poke_cells_unfold)
    show "arr_ok ?a" using assms(1) len by (simp add: arr_ok_def)
    have "i < a_size a" using False assms(2) by (cases xs) auto
    then show "cells ?a = overwrite i xs (cells a)"
      using assms(2) len sz
      by (auto simp: cells_def overwrite_def min_def take_drop add.commute)
  qed simp_all
qed

lemma push_back_ok:
  assumes "arr_ok a"
  obtains a' where "push_back x a = Inr a'" and "arr_ok a'" and "cells a' = cells a @ [Some x]"
proof -
  obtain b where b: "(if a_size a = a_capacity a then Grow (a_size a + 1) a else Inr a) = Inr b"
    "arr_ok b" "cells b = cells a" "a_size b = a_size a"
    "a_capacity b = (if a_size a = a_capacity a
       then max (a_size a + 1) (a_capacity a + a_capacity a div 2) else a_capacity a)"
    using assms by (rule grow_if_ok)
  have len: "a_size a < length (storage b)"
    using b(2,5) assms unfolding arr_ok_def by (auto split: if_splits)
  let ?c = "set_storage ((storage b)[a_size a := Some x]) b"
  have "poke (int (a_size b)) x b = Inr ?c"
    using len b(4) by (simp add: poke_def poke_cells_unfold overwrite_single)
  then have "push_back x a = Inr (?c\<lparr>a_size := a_size a + 1\<rparr>)"
    using b(1,4) by (simp add: push_back_def)
  moreover have "arr_ok (?c\<lparr>a_size := a_size a + 1\<rparr>)"
    using b(2) len by (simp add: arr_ok_def)
  moreover have "cells (?c\<lparr>a_size := a_size a + 1\<rparr>) = cells a @ [Some x]"
    using len b(3,4) by (simp add: cells_size_update cells_def take_Suc_conv_app_nth)
  ultimately show ?thesis by (rule that)
qed

lemma append_arr_cases:
  assumes "arr_ok a"
  shows "if a_size a + length xs \<le> max (length xs) (a_capacity a + a_capacity a div 2)
         then \<exists>a'. append_arr xs a = Inr a' \<and> arr_ok a' \<and> cells a' = cells a @ map Some xs
         else append_arr xs a = Inl (Undefined OutOfBounds)"
proof -
  let ?cap = "max (length xs) (a_capacity a + a_capacity a div 2)"
  obtain b where b: "(if a_size a + length xs > a_capacity a then Grow (length xs) a else Inr a) = Inr b"
    "arr_ok b" "cells b = cells a" "a_size b = a_size a"
    "a_capacity b = (if a_size a + length xs > a_capacity a then ?cap else a_capacity a)"
    using assms by (rule grow_if_ok)
  have len: "length (storage b) = a_capacity b" using b(2) by (simp add: arr_ok_def)
  show ?thesis
  proof (cases "a_size a + length xs \<le> ?cap")
    case True
    have fits: "a_size a + length xs \<le> length (storage b)"
      using True b(5) len by (auto split: if_splits)
    let ?c = "set_storage (overwrite (a_size a) (map Some xs) (storage b)) b"
    let ?d = "(if xs = [] then b else ?c)\<lparr>a_size := a_size a + length xs\<rparr>"
    have "poke_cells (int (a_size b)) (map Some xs) b = Inr (if xs = [] then b else ?c)"
      using fits b(4) by (simp add: poke_cells_unfold)
    then have "append_arr xs a = Inr ?d" using b(1,4) by (simp add: append_arr_def)
    moreover have "arr_ok ?d" using b(2) fits len by (auto simp: arr_ok_def)
    moreover have "cells ?d = cells a @ map Some xs"
      using fits b(3,4) assms by (auto simp: cells_size_update cells_def overwrite_def arr_ok_def)
    ultimately show ?thesis using True by auto
  next
    case False
    then have "a_size a + length xs > a_capacity a" and ne: "xs \<noteq> []"
      using assms by (auto simp: arr_ok_def)
    then have "\<not> a_size a + length xs \<le> length (storage b)"
      using False b(5) len by simp
    then have "poke_cells (int (a_size b)) (map Some xs) b = Inl (Undefined OutOfBounds)"
      using ne b(4) by (simp add: poke_cells_unfold)
    then show ?thesis using False b(1) by (simp add: append_arr_def)
  qed
qed

text \<open>
  C10. \<open>append\<close> grows to \<open>num_elements\<close>, not to \<open>size_ + num_elements\<close>. It therefore appends
  correctly (staying in its storage and keeping the invariant) exactly when the new size fits
  in the larger of the appended length and one and a half times the old capacity; in every
  other case it writes outside its storage.
\<close>

theorem append_arr_iff:
  assumes "arr_ok a"
  shows "if a_size a + length xs \<le> max (length xs) (a_capacity a + a_capacity a div 2)
         then \<exists>a'. append_arr xs a = Inr a' \<and> arr_ok a' \<and> cells a' = cells a @ map Some xs
         else append_arr xs a = Inl (Undefined OutOfBounds)"
  by (rule append_arr_cases [OF assms])

text \<open>
  The move constructor hands the contents over unchanged, but when the source had grown
  onto the heap it leaves the source with its old size and capacity over its inline storage:
  the next \<open>push_back\<close> on it writes outside that storage.
\<close>

theorem move_construct_contents:
  assumes "arr_ok other" and "a_ptr other = None \<longrightarrow> length (a_data other) \<le> SIZE"
  shows "\<exists>this other'. move_construct SIZE other = Inr (this, other') \<and> cells this = cells other
           \<and> a_size other' = a_size other \<and> a_capacity other' = a_capacity other \<and> a_ptr other' = None
           \<and> (a_ptr other \<noteq> None \<longrightarrow> length (a_data other) \<le> a_size other \<longrightarrow>
                a_size other < a_capacity other \<longrightarrow>
                push_back x other' = Inl (Undefined OutOfBounds))"
proof (cases "a_ptr other")
  case None
  let ?me = "new_array SIZE\<lparr>a_size := a_size other, a_capacity := a_capacity other, a_ptr := None,
      a_data := overwrite 0 (take (a_size other) (a_data other)) (replicate SIZE None)\<rparr>"
  have le: "a_size other \<le> length (a_data other)" "a_size other \<le> SIZE"
    using assms None by (auto simp: arr_ok_def storage_def)
  then have "move_construct SIZE other = Inr (?me, other)"
    using None by (simp add: move_construct_def Move_def new_array_def)
  moreover have "cells ?me = cells other"
    using None le by (simp add: cells_def storage_def overwrite_def)
  ultimately show ?thesis using None by simp
next
  case (Some m)
  let ?me = "new_array SIZE\<lparr>a_size := a_size other, a_capacity := a_capacity other, a_ptr := Some m\<rparr>"
  have "move_construct SIZE other = Inr (?me, other\<lparr>a_ptr := None\<rparr>)"
    using Some by (simp add: move_construct_def Move_def)
  moreover have "cells ?me = cells other" using Some by (simp add: cells_def storage_def)
  moreover have "push_back x (other\<lparr>a_ptr := None\<rparr>) = Inl (Undefined OutOfBounds)"
    if "length (a_data other) \<le> a_size other" "a_size other < a_capacity other"
    using that by (simp add: push_back_def poke_def poke_cells_unfold storage_def)
  ultimately show ?thesis using Some by simp
qed

text \<open>An array of two inline elements holding three, moved and then pushed to.\<close>

definition grown_example :: "nat arr" where
  "grown_example = \<lparr>a_size = 3, a_capacity = 4, a_ptr = Some [Some 1, Some 2, Some 3, None],
     a_data = [Some 1, Some 2]\<rparr>"

theorem move_construct_contents_witness:
  "\<exists>this other'. move_construct 2 grown_example = Inr (this, other') \<and> cells this = cells grown_example
     \<and> push_back (4::nat) other' = Inl (Undefined OutOfBounds)"
proof -
  have ok: "arr_ok grown_example" by (simp add: arr_ok_def grown_example_def storage_def)
  have ptr: "a_ptr grown_example = None \<longrightarrow> length (a_data grown_example) \<le> 2"
    by (simp add: grown_example_def)
  show ?thesis
    using move_construct_contents [OF ok ptr, of 4] by (auto simp: grown_example_def)
qed

theorem append_arr_iff_witness:
  "append_arr [1, 2, 3 :: nat] (\<lparr>a_size = 2, a_capacity = 2, a_ptr = None, a_data = [Some 8, Some 9]\<rparr>)
     = Inl (Undefined OutOfBounds)"
  using append_arr_iff [of "\<lparr>a_size = 2, a_capacity = 2, a_ptr = None, a_data = [Some 8, Some 9]\<rparr>"
      "[1, 2, 3 :: nat]"]
  by (simp add: arr_ok_def storage_def)

subsection \<open>The interface of a growing output area\<close>

text \<open>
  What the code that formats into a buffer relies on: \<open>grow n\<close> opens \<open>n\<close> new cells behind the
  output, and \<open>edit f\<close> lets a routine \<open>f\<close> work on the memory that holds the output (and
  possibly more cells behind it), provided it rewrites some of the output's cells in place.
\<close>

locale growable =
  fixes ok :: "'b \<Rightarrow> bool"
    and out :: "'b \<Rightarrow> 'c mem"
    and grow :: "nat \<Rightarrow> 'b \<Rightarrow> 'b res"
    and edit :: "('c mem \<Rightarrow> (int \<times> 'c mem) res) \<Rightarrow> 'b \<Rightarrow> (int \<times> 'b) res"
  assumes grow_law: "ok b \<Longrightarrow>
      \<exists>b' gap. grow n b = Inr b' \<and> ok b' \<and> out b' = out b @ gap \<and> length gap = n"
    and edit_law: "ok b \<Longrightarrow> out b = pre @ blk @ post \<Longrightarrow> length xs = length blk \<Longrightarrow>
      (\<And>rest. f (pre @ blk @ post @ rest) = Inr (p, pre @ xs @ post @ rest)) \<Longrightarrow>
      \<exists>b'. edit f b = Inr (p, b') \<and> ok b' \<and> out b' = pre @ xs @ post"
begin

lemma grow_edit:
  assumes "ok b" and "length xs = n"
    and "\<And>gap rest. length gap = n \<Longrightarrow> f (out b @ gap @ rest) = Inr (p, out b @ xs @ rest)"
  obtains b1 b2 where "grow n b = Inr b1" and "ok b1" and "edit f b1 = Inr (p, b2)" and "ok b2"
    and "out b2 = out b @ xs"
proof -
  obtain b1 gap where b1: "grow n b = Inr b1" "ok b1" "out b1 = out b @ gap" "length gap = n"
    using grow_law [OF assms(1)] by blast
  have "\<exists>b2. edit f b1 = Inr (p, b2) \<and> ok b2 \<and> out b2 = out b @ xs @ []"
    using b1 assms(2,3) by (intro edit_law [where blk = gap]) simp_all
  with b1 that show ?thesis by auto
qed

text \<open>A routine that works inside the output that is already there.\<close>

lemma edit_inside:
  assumes "ok b" and "out b = pre @ blk @ post" and "length xs = length blk"
    and "\<And>rest. f (pre @ blk @ post @ rest) = Inr (p, pre @ xs @ post @ rest)"
  obtains b' where "edit f b = Inr (p, b')" and "ok b'" and "out b' = pre @ xs @ post"
  using edit_law [OF assms(1,2,3), of f p] assms(4) by blast

end

lemma storage_cells: "arr_ok a \<Longrightarrow> storage a = cells a @ drop (a_size a) (storage a)"
  by (simp add: cells_def)

interpretation arr_buf: growable arr_ok cells "\<lambda>n a. resize (a_size a + n) a" on_storage
proof
  fix b :: "'a arr" and n
  assume "arr_ok b"
  then show "\<exists>b' gap. resize (a_size b + n) b = Inr b' \<and> arr_ok b' \<and> cells b' = cells b @ gap \<and> length gap = n"
    by (blast elim: resize_grow_ok)
next
  fix b :: "'a arr" and pre blk post xs :: "'a mem" and p :: int
    and f :: "'a mem \<Rightarrow> (int \<times> 'a mem) res"
  assume ok: "arr_ok b" and out: "cells b = pre @ blk @ post" and len: "length xs = length blk"
    and f: "\<And>rest. f (pre @ blk @ post @ rest) = Inr (p, pre @ xs @ post @ rest)"
  let ?m = "pre @ xs @ post @ drop (a_size b) (storage b)"
  have "storage b = pre @ blk @ post @ drop (a_size b) (storage b)"
    using storage_cells [OF ok] out by simp
  then have "f (storage b) = Inr (p, ?m)" using f [of "drop (a_size b) (storage b)"] by simp
  then have edit: "on_storage f b = Inr (p, set_storage ?m b)" by (simp add: on_storage_def)
  have size: "a_size b = length pre + length blk + length post"
    using length_cells [OF ok] out by simp
  have "length (storage b) = a_size b + length (drop (a_size b) (storage b))"
    using ok by (simp add: arr_ok_def)
  then have "arr_ok (set_storage ?m b)" using ok size len by (simp add: arr_ok_def)
  moreover have "cells (set_storage ?m b) = pre @ xs @ post"
    using size len by (simp add: cells_def)
  ultimately show "\<exists>b'. on_storage f b = Inr (p, b') \<and> arr_ok b' \<and> cells b' = pre @ xs @ post"
    using edit by blast
qed

end
