(* ===== verification/Fmt_Digits.thy ===== *)
theory Fmt_Digits
  imports Prelude
begin

unbundle bit_operations_syntax

text \<open>
  The integer-to-decimal routines of src/format.h and src/format.cc: the tables
  \<open>POWERS_OF_10_32\<close>, \<open>POWERS_OF_10_64\<close> and \<open>DIGITS\<close>, the three versions of \<open>CountDigits\<close>,
  \<open>internal::FormatDecimal\<close>, the stand-alone class \<open>fmt::FormatInt\<close> and \<open>fmt::FormatDec\<close>.
  \<open>unsigned\<close> and \<open>int\<close> are 32 bits, \<open>long\<close> and \<open>long long\<close> 64 bits (LP64).

  The lemmas show that the bit-twiddling digit counts index their tables inside the bounds and
  agree with the length of the decimal notation, that \<open>FormatDecimal\<close> fills exactly the
  cells it is given with that notation, and what the two fast formatters print for every
  value of their argument type.
\<close>

subsection \<open>Tables\<close>

definition FMT_POWERS_OF_10 :: "'a::len word \<Rightarrow> 'a word list" where
  "FMT_POWERS_OF_10 factor =
     [factor * 10, factor * 100, factor * 1000, factor * 10000, factor * 100000,
      factor * 1000000, factor * 10000000, factor * 100000000, factor * 1000000000]"

definition POWERS_OF_10_32 :: "u32 list" where
  "POWERS_OF_10_32 = 0 # FMT_POWERS_OF_10 1"

definition POWERS_OF_10_64 :: "u64 list" where
  "POWERS_OF_10_64 =
     0 # FMT_POWERS_OF_10 1 @ FMT_POWERS_OF_10 1000000000 @ [1000000000 * 1000000000 * 10]"

definition DIGITS :: string where
  "DIGITS =
     ''0001020304050607080910111213141516171819'' @
     ''2021222324252627282930313233343536373839'' @
     ''4041424344454647484950515253545556575859'' @
     ''6061626364656667686970717273747576777879'' @
     ''8081828384858687888990919293949596979899''"

subsection \<open>Counting digits\<close>

text \<open>\<open>__builtin_clz\<close> and \<open>__builtin_clzll\<close>: the leading zero bits of a nonzero word.\<close>

fun bit_length :: "nat \<Rightarrow> nat" where
  "bit_length n = (if n = 0 then 0 else Suc (bit_length (n div 2)))"

declare bit_length.simps [simp del]

definition clz :: "'a::len word \<Rightarrow> nat" where
  "clz w = LENGTH('a) - bit_length (unat w)"

definition CountDigits64 :: "u64 \<Rightarrow> nat" where
  "CountDigits64 n =
     (let t = drop_bit 12 ((64 - clz (n OR 1)) * 1233)
      in t - (if n < POWERS_OF_10_64 ! t then 1 else 0) + 1)"

definition CountDigits32 :: "u32 \<Rightarrow> nat" where
  "CountDigits32 n =
     (let t = drop_bit 12 ((32 - clz (n OR 1)) * 1233)
      in t - (if n < POWERS_OF_10_32 ! t then 1 else 0) + 1)"

text \<open>The version for compilers without \<open>__builtin_clz\<close>, a loop over groups of four digits.\<close>

function CountDigits_slow_loop :: "nat \<Rightarrow> nat \<Rightarrow> nat" where
  "CountDigits_slow_loop count n =
     (if n < 10 then count
      else if n < 100 then count + 1
      else if n < 1000 then count + 2
      else if n < 10000 then count + 3
      else CountDigits_slow_loop (count + 4) (n div 10000))"
  by pat_completeness auto
termination
  by (relation "measure (\<lambda>(count, n). n)") auto

declare CountDigits_slow_loop.simps [simp del]

definition CountDigits_slow :: "u64 \<Rightarrow> nat" where
  "CountDigits_slow n = CountDigits_slow_loop 1 (unat n)"

text \<open>
  \<open>IntTraits<T>::MainType\<close>: the 32-bit overload for types of at most 32 digits, else the
  64-bit one. \<open>value\<close> is the argument already converted to the unsigned \<open>MainType\<close>.
\<close>

definition CountDigits :: "'a::len word \<Rightarrow> nat" where
  "CountDigits n =
     (if LENGTH('a) \<le> 32 then CountDigits32 (ucast n) else CountDigits64 (ucast n))"

subsection \<open>FormatDecimal\<close>

text \<open>
  The loop works on \<open>value\<close> (of an unsigned type, so its quotients and remainders are those of
  the natural number it denotes) and the cell offset \<open>num_digits\<close> relative to \<open>buffer\<close>.
\<close>

function FormatDecimal_loop :: "int \<Rightarrow> nat \<Rightarrow> int \<Rightarrow> char mem \<Rightarrow> char mem res" where
  "FormatDecimal_loop buffer val num_digits m =
     (if val \<ge> 100 then
        (let index = (val mod 100) * 2
         in ebind (mstore (buffer + num_digits) (DIGITS ! (index + 1)) m) (\<lambda>m.
            ebind (mstore (buffer + num_digits - 1) (DIGITS ! index) m) (\<lambda>m.
            FormatDecimal_loop buffer (val div 100) (num_digits - 2) m)))
      else if val < 10 then mstore buffer (chr (48 + val)) m
      else
        (let index = val * 2
         in ebind (mstore (buffer + 1) (DIGITS ! (index + 1)) m)
              (\<lambda>m. mstore buffer (DIGITS ! index) m)))"
  by pat_completeness auto
termination
  by (relation "measure (\<lambda>(buffer, val, num_digits, m). val)") auto

declare FormatDecimal_loop.simps [simp del]

definition FormatDecimal :: "int \<Rightarrow> nat \<Rightarrow> nat \<Rightarrow> char mem \<Rightarrow> char mem res" where
  "FormatDecimal buffer val num_digits m = FormatDecimal_loop buffer val (int num_digits - 1) m"

subsection \<open>The class FormatInt\<close>

definition FI_BUFFER_SIZE :: nat where
  "FI_BUFFER_SIZE = 19 + 3"

record fast_int =
  fi_buffer :: "char mem"
  fi_str :: int

function FI_FormatDecimal_loop :: "nat \<Rightarrow> int \<Rightarrow> char mem \<Rightarrow> (int \<times> char mem) res" where
  "FI_FormatDecimal_loop val buffer_end m =
     (if val \<ge> 100 then
        (let index = (val mod 100) * 2
         in ebind (mstore (buffer_end - 1) (DIGITS ! (index + 1)) m) (\<lambda>m.
            ebind (mstore (buffer_end - 2) (DIGITS ! index) m) (\<lambda>m.
            FI_FormatDecimal_loop (val div 100) (buffer_end - 2) m)))
      else if val < 10 then
        ebind (mstore (buffer_end - 1) (chr (48 + val)) m) (\<lambda>m. Inr (buffer_end - 1, m))
      else
        (let index = val * 2
         in ebind (mstore (buffer_end - 1) (DIGITS ! (index + 1)) m) (\<lambda>m.
            ebind (mstore (buffer_end - 2) (DIGITS ! index) m) (\<lambda>m.
            Inr (buffer_end - 2, m)))))"
  by pat_completeness auto
termination
  by (relation "measure (\<lambda>(val, buffer_end, m). val)") auto

declare FI_FormatDecimal_loop.simps [simp del]

definition FI_FormatDecimal :: "u64 \<Rightarrow> fast_int res" where
  "FI_FormatDecimal val =
     ebind (FI_FormatDecimal_loop (unat val) (int FI_BUFFER_SIZE - 1) (replicate FI_BUFFER_SIZE None))
       (\<lambda>(p, m). Inr \<lparr>fi_buffer = m, fi_str = p\<rparr>)"

text \<open>
  \<open>abs_value = 0 - value\<close> is computed in the signed type, so it overflows for the least
  \<open>long long\<close>.
\<close>

definition FI_FormatSigned :: "u64 \<Rightarrow> fast_int res" where
  "FI_FormatSigned val =
     (let negative = sint val < 0
      in ebind (if negative
                then (if sint val = - (2 ^ 63) then Inl (Undefined SignedOverflow) else Inr (0 - val))
                else Inr val)
           (\<lambda>abs_value. ebind (FI_FormatDecimal abs_value)
             (\<lambda>f. if negative
                  then ebind (mstore (fi_str f - 1) (CHR ''-'') (fi_buffer f))
                         (\<lambda>m. Inr \<lparr>fi_buffer = m, fi_str = fi_str f - 1\<rparr>)
                  else Inr f)))"

text \<open>The six constructors.\<close>

datatype int_arg =
  ArgInt u32 | ArgLong u64 | ArgLongLong u64 | ArgUnsigned u32 | ArgULong u64 | ArgULongLong u64

fun FormatInt_new :: "int_arg \<Rightarrow> fast_int res" where
  "FormatInt_new (ArgInt v) = FI_FormatSigned (scast v)"
| "FormatInt_new (ArgLong v) = FI_FormatSigned v"
| "FormatInt_new (ArgLongLong v) = FI_FormatSigned v"
| "FormatInt_new (ArgUnsigned v) = FI_FormatDecimal (ucast v)"
| "FormatInt_new (ArgULong v) = FI_FormatDecimal v"
| "FormatInt_new (ArgULongLong v) = FI_FormatDecimal v"

definition FI_size :: "fast_int \<Rightarrow> int" where
  "FI_size f = int FI_BUFFER_SIZE - fi_str f - 1"

definition FI_str :: "fast_int \<Rightarrow> char option list" where
  "FI_str f = take (nat (FI_size f)) (drop (nat (fi_str f)) (fi_buffer f))"

definition FI_c_str :: "fast_int \<Rightarrow> (int \<times> fast_int) res" where
  "FI_c_str f = ebind (mstore (int FI_BUFFER_SIZE - 1) NUL (fi_buffer f))
                  (\<lambda>m. Inr (fi_str f, f\<lparr>fi_buffer := m\<rparr>))"

subsection \<open>FormatDec\<close>

text \<open>
  \<open>is_signed\<close> says whether \<open>T\<close> is a signed type; the result is the advanced \<open>buffer\<close> pointer and
  the memory. \<open>abs_value\<close> has the unsigned type of \<open>T\<close>'s width, where negation wraps.
\<close>

definition IsNegative :: "bool \<Rightarrow> 'a::len word \<Rightarrow> bool" where
  "IsNegative is_signed val \<longleftrightarrow> is_signed \<and> sint val < 0"

definition FormatDec_abs :: "int \<Rightarrow> 'a::len word \<Rightarrow> char mem \<Rightarrow> (int \<times> char mem) res" where
  "FormatDec_abs buffer abs_value m =
     (if abs_value < 100 then
        (if abs_value < 10 then
           ebind (mstore buffer (chr (48 + unat abs_value)) m) (\<lambda>m. Inr (buffer + 1, m))
         else
           (let index = unat (abs_value * 2)
            in ebind (mstore buffer (DIGITS ! index) m) (\<lambda>m.
               ebind (mstore (buffer + 1) (DIGITS ! (index + 1)) m) (\<lambda>m. Inr (buffer + 2, m)))))
      else
        (let num_digits = CountDigits abs_value
         in ebind (FormatDecimal buffer (unat abs_value) num_digits m)
              (\<lambda>m. Inr (buffer + int num_digits, m))))"

definition FormatDec :: "bool \<Rightarrow> int \<Rightarrow> 'a::len word \<Rightarrow> char mem \<Rightarrow> (int \<times> char mem) res" where
  "FormatDec is_signed buffer val m =
     (if IsNegative is_signed val
      then ebind (mstore buffer (CHR ''-'') m) (\<lambda>m. FormatDec_abs (buffer + 1) (0 - val) m)
      else FormatDec_abs buffer val m)"

subsection \<open>The digit counts are right\<close>

lemma bit_length_0 [simp]: "bit_length 0 = 0"
  by (subst bit_length.simps) simp

lemma bit_length_bounds: "0 < n \<Longrightarrow> 2 ^ (bit_length n - 1) \<le> n \<and> n < 2 ^ bit_length n \<and> 0 < bit_length n"
proof (induction n rule: bit_length.induct)
  case (1 n)
  have step: "bit_length n = Suc (bit_length (n div 2))" using 1(2) by (subst bit_length.simps) simp
  show ?case
  proof (cases "n div 2 = 0")
    case True
    with 1(2) have "n = 1" by linarith
    with step show ?thesis by simp
  next
    case False
    with 1 have IH: "2 ^ (bit_length (n div 2) - 1) \<le> n div 2" "n div 2 < 2 ^ bit_length (n div 2)"
      "0 < bit_length (n div 2)" by auto
    define k where "k = bit_length (n div 2) - 1"
    have k: "bit_length (n div 2) = Suc k" using IH(3) by (simp add: k_def)
    have "2 ^ k \<le> n div 2" and "n div 2 < 2 * 2 ^ k" using IH(1,2) by (simp_all add: k)
    then have "2 * 2 ^ k \<le> n" and "n < 2 * (2 * 2 ^ k)" by linarith+
    then show ?thesis by (simp add: step k)
  qed
qed

lemma pow2_less_D: "(2::nat) ^ a < 2 ^ b \<Longrightarrow> a < b"
  by (rule power_less_imp_less_exp [of 2]) simp_all

lemma bit_length_unique:
  assumes "2 ^ k \<le> n" and "n < 2 ^ Suc k"
  shows "bit_length n = Suc k"
proof -
  have n: "0 < n" using assms(1) by (metis gr0I not_le zero_less_numeral zero_less_power)
  note b = bit_length_bounds [OF n]
  have "(2::nat) ^ k < 2 ^ bit_length n" and "(2::nat) ^ (bit_length n - 1) < 2 ^ Suc k"
    using assms b by linarith+
  then have "k < bit_length n \<and> bit_length n - 1 < Suc k"
    by (blast intro: pow2_less_D)
  with b show ?thesis by linarith
qed

lemma bit_length_or_1: "bit_length (n OR 1) = (if n = 0 then 1 else bit_length n)"
proof (cases "n = 0")
  case True
  then show ?thesis by (simp add: bit_length.simps)
next
  case False
  then obtain k where k: "bit_length n = Suc k" and lo: "2 ^ k \<le> n" and hi: "n < 2 ^ Suc k"
    using bit_length_bounds [of n] by (cases "bit_length n") auto
  have "n OR 1 < 2 ^ Suc k"
  proof (cases "even n")
    case True
    then have "odd (n + 1)" by simp
    moreover have "even ((2::nat) ^ Suc k)" by simp
    ultimately have "n + 1 \<noteq> 2 ^ Suc k" by metis
    with hi have "n + 1 < 2 ^ Suc k" by linarith
    with True show ?thesis by (simp only: or_one_eq) simp
  next
    case False
    with hi show ?thesis by (simp only: or_one_eq) simp
  qed
  moreover have "2 ^ k \<le> n OR 1" using lo by (simp only: or_one_eq)
  ultimately have "bit_length (n OR 1) = Suc k" by (intro bit_length_unique)
  with False k show ?thesis by simp
qed

text \<open>What the multiplication by 1233 and the shift by 12 compute for each bit length.\<close>

lemma log10_estimate:
  assumes "1 \<le> b" and "b \<le> 64"
  defines "t \<equiv> b * 1233 div 4096"
  shows "t < 20" and "10 ^ (t - 1) \<le> (2::nat) ^ (b - 1)" and "2 ^ b \<le> (10::nat) ^ Suc t"
proof -
  have "list_all (\<lambda>b. b * 1233 div 4096 < 20 \<and> 10 ^ (b * 1233 div 4096 - 1) \<le> (2::nat) ^ (b - 1)
          \<and> 2 ^ b \<le> (10::nat) ^ Suc (b * 1233 div 4096)) [1..<65]"
    by (simp add: upt_rec)
  then have "b * 1233 div 4096 < 20 \<and> 10 ^ (b * 1233 div 4096 - 1) \<le> (2::nat) ^ (b - 1)
          \<and> 2 ^ b \<le> (10::nat) ^ Suc (b * 1233 div 4096)"
    using assms(1,2) by (simp add: list_all_iff)
  then show "t < 20" "10 ^ (t - 1) \<le> (2::nat) ^ (b - 1)" "2 ^ b \<le> (10::nat) ^ Suc t"
    by (simp_all add: t_def)
qed

lemma bit_length_le:
  assumes "n < 2 ^ k"
  shows "bit_length n \<le> k"
proof (cases "n = 0")
  case False
  then have "0 < n" by simp
  note b = bit_length_bounds [OF this]
  from b have "0 < bit_length n" by blast
  from b have "2 ^ (bit_length n - 1) \<le> n" by blast
  with assms have "(2::nat) ^ (bit_length n - 1) < 2 ^ k" by linarith
  then have "bit_length n - 1 < k" by (rule pow2_less_D)
  with \<open>0 < bit_length n\<close> show ?thesis by linarith
qed simp

lemma digits_by_bits:
  fixes n :: nat
  assumes "n < 2 ^ 64"
  defines "t \<equiv> bit_length (n OR 1) * 1233 div 4096"
  shows "t < 20" and "n < 2 ^ 32 \<Longrightarrow> t < 10"
    and "t - (if n < (if t = 0 then 0 else 10 ^ t) then 1 else 0) + 1 = length (dec_string n)"
proof -
  have "t < 20 \<and> (n < 2 ^ 32 \<longrightarrow> t < 10) \<and>
    t - (if n < (if t = 0 then 0 else 10 ^ t) then 1 else 0) + 1 = length (dec_string n)"
  proof (cases "n = 0")
    case True
    then have "t = 0" unfolding t_def bit_length_or_1 by simp
    with True show ?thesis by (simp add: dec_string_small)
  next
    case False
    define b where "b = bit_length n"
    have t: "t = b * 1233 div 4096" using False unfolding t_def bit_length_or_1 b_def by simp
    have lo: "2 ^ (b - 1) \<le> n" and hi: "n < 2 ^ b" and b1: "1 \<le> b"
      using bit_length_bounds [of n] False by (auto simp: b_def)
    have b64: "b \<le> 64" using assms(1) by (simp add: b_def bit_length_le)
    have b32: "n < 2 ^ 32 \<longrightarrow> b \<le> 32" by (simp add: b_def bit_length_le)
    note est = log10_estimate [OF b1 b64]
    have lo': "10 ^ (t - 1) \<le> n" using order_trans [OF est(2) lo] by (simp only: t)
    have hi': "n < 10 ^ Suc t" using less_le_trans [OF hi est(3)] by (simp only: t)
    have "t - (if n < (if t = 0 then 0 else 10 ^ t) then 1 else 0) + 1 = length (dec_string n)"
    proof (cases t)
      case 0
      with lo' hi' show ?thesis using dec_string_length [of 0 n] by simp
    next
      case (Suc k)
      show ?thesis
      proof (cases "n < 10 ^ t")
        case True
        with lo' Suc show ?thesis using dec_string_length [of k n] by simp
      next
        case False
        with hi' Suc show ?thesis using dec_string_length [of t n] by simp
      qed
    qed
    moreover have "n < 2 ^ 32 \<longrightarrow> t < 10" using b32 t by auto
    ultimately show ?thesis using est(1) t by simp
  qed
  then show "t < 20" and "n < 2 ^ 32 \<Longrightarrow> t < 10"
    and "t - (if n < (if t = 0 then 0 else 10 ^ t) then 1 else 0) + 1 = length (dec_string n)"
    by blast+
qed

lemma POWERS_64_nth: "t < 20 \<Longrightarrow> unat (POWERS_OF_10_64 ! t) = (if t = 0 then 0 else 10 ^ t)"
proof -
  assume t: "t < 20"
  have "list_all (\<lambda>t. unat (POWERS_OF_10_64 ! t) = (if t = 0 then 0 else 10 ^ t)) [0..<20]"
    by (simp add: upt_rec POWERS_OF_10_64_def FMT_POWERS_OF_10_def)
  with t show ?thesis by (simp add: list_all_iff)
qed

lemma POWERS_32_nth: "t < 10 \<Longrightarrow> unat (POWERS_OF_10_32 ! t) = (if t = 0 then 0 else 10 ^ t)"
proof -
  assume t: "t < 10"
  have "list_all (\<lambda>t. unat (POWERS_OF_10_32 ! t) = (if t = 0 then 0 else 10 ^ t)) [0..<10]"
    by (simp add: upt_rec POWERS_OF_10_32_def FMT_POWERS_OF_10_def)
  with t show ?thesis by (simp add: list_all_iff)
qed

lemma POWERS_lengths: "length POWERS_OF_10_64 = 20" "length POWERS_OF_10_32 = 10"
  by (simp_all add: POWERS_OF_10_64_def POWERS_OF_10_32_def FMT_POWERS_OF_10_def)

lemma unat_lt_64: "unat (n::u64) < 2 ^ 64"
  using unsigned_less [of n] by simp

lemma unat_lt_32: "unat (n::u32) < 2 ^ 32"
  using unsigned_less [of n] by simp

lemma clz_or_1_64: "64 - clz (n OR 1 :: u64) = bit_length (unat n OR 1)"
proof -
  have "unat (n OR 1) = unat n OR 1" by (simp add: unsigned_or_eq)
  moreover have "bit_length (unat (n OR 1)) \<le> 64" by (intro bit_length_le unat_lt_64)
  ultimately show ?thesis by (simp add: clz_def)
qed

lemma clz_or_1_32: "32 - clz (n OR 1 :: u32) = bit_length (unat n OR 1)"
proof -
  have "unat (n OR 1) = unat n OR 1" by (simp add: unsigned_or_eq)
  moreover have "bit_length (unat (n OR 1)) \<le> 32" by (intro bit_length_le unat_lt_32)
  ultimately show ?thesis by (simp add: clz_def)
qed

lemma drop_bit_12: "drop_bit 12 (n::nat) = n div 4096"
  by (simp add: drop_bit_eq_div)

lemma CountDigits64_dec: "CountDigits64 n = length (dec_string (unat n))"
proof -
  define t where "t = bit_length (unat n OR 1) * 1233 div 4096"
  have t: "t < 20" and len: "t - (if unat n < (if t = 0 then 0 else 10 ^ t) then 1 else 0) + 1
      = length (dec_string (unat n))"
    using digits_by_bits [OF unat_lt_64 [of n]] unfolding t_def by blast+
  have "(n < POWERS_OF_10_64 ! t) = (unat n < (if t = 0 then 0 else 10 ^ t))"
    using POWERS_64_nth [OF t(1)] by (simp add: word_less_nat_alt)
  moreover have "drop_bit 12 ((64 - clz (n OR 1)) * 1233) = t"
    by (simp only: clz_or_1_64 drop_bit_12 t_def)
  ultimately show ?thesis using len by (simp only: CountDigits64_def Let_def)
qed

lemma CountDigits32_dec: "CountDigits32 n = length (dec_string (unat n))"
proof -
  define t where "t = bit_length (unat n OR 1) * 1233 div 4096"
  have lt: "unat n < 2 ^ 64" using unat_lt_32 [of n] by simp
  have t: "t < 10" and len: "t - (if unat n < (if t = 0 then 0 else 10 ^ t) then 1 else 0) + 1
      = length (dec_string (unat n))"
    using digits_by_bits [OF lt] unat_lt_32 [of n] unfolding t_def by blast+
  have "(n < POWERS_OF_10_32 ! t) = (unat n < (if t = 0 then 0 else 10 ^ t))"
    using POWERS_32_nth [OF t(1)] by (simp add: word_less_nat_alt)
  moreover have "drop_bit 12 ((32 - clz (n OR 1)) * 1233) = t"
    by (simp only: clz_or_1_32 drop_bit_12 t_def)
  ultimately show ?thesis using len by (simp only: CountDigits32_def Let_def)
qed

lemma CountDigits_slow_loop_dec: "CountDigits_slow_loop count n + 1 = count + length (dec_string n)"
proof (induction count n rule: CountDigits_slow_loop.induct)
  case (1 count n)
  consider "n < 10" | "10 \<le> n" "n < 100" | "100 \<le> n" "n < 1000" | "1000 \<le> n" "n < 10000" | "10000 \<le> n"
    by linarith
  then show ?case
  proof cases
    case 1
    then show ?thesis by (subst CountDigits_slow_loop.simps) (simp add: dec_string_small)
  next
    case 2
    then show ?thesis by (subst CountDigits_slow_loop.simps) (simp add: dec_string_two)
  next
    case 3
    then show ?thesis
      using dec_string_length [of 2 n] by (subst CountDigits_slow_loop.simps) simp
  next
    case 4
    then show ?thesis
      using dec_string_length [of 3 n] by (subst CountDigits_slow_loop.simps) simp
  next
    case 5
    have "n div 100 \<ge> 100" using 5 by linarith
    then have "length (dec_string n) = length (dec_string (n div 10000)) + 4"
      using dec_string_split2 [of n] dec_string_split2 [of "n div 100"] 5
      by (simp add: div_mult2_eq [symmetric])
    with 5 "1.IH" show ?thesis by (subst CountDigits_slow_loop.simps) simp
  qed
qed

lemma CountDigits_dec:
  assumes "LENGTH('a) \<le> 64"
  shows "CountDigits (n :: 'a::len word) = length (dec_string (unat n))"
proof (cases "LENGTH('a) \<le> 32")
  case True
  then have "unat (ucast n :: u32) = unat n" by (simp add: unat_ucast_up)
  with True show ?thesis by (simp add: CountDigits_def CountDigits32_dec)
next
  case False
  have "unat (ucast n :: u64) = unat n" using assms by (simp add: unat_ucast_up)
  with False show ?thesis by (simp add: CountDigits_def CountDigits64_dec)
qed

text \<open>
  The three versions of \<open>CountDigits\<close> agree on every argument, with each other and with the
  length of the decimal notation, and the two table versions index their tables in range.
\<close>

theorem CountDigits_versions_agree:
  fixes n :: u64 and k :: u32
  shows "CountDigits64 n = length (dec_string (unat n)) \<and> CountDigits_slow n = CountDigits64 n
    \<and> CountDigits32 k = length (dec_string (unat k)) \<and> CountDigits64 (ucast k) = CountDigits32 k
    \<and> drop_bit 12 ((64 - clz (n OR 1)) * 1233) < length POWERS_OF_10_64
    \<and> drop_bit 12 ((32 - clz (k OR 1)) * 1233) < length POWERS_OF_10_32"
proof -
  have "CountDigits_slow n = CountDigits64 n"
    using CountDigits_slow_loop_dec [of 1 "unat n"] by (simp add: CountDigits_slow_def CountDigits64_dec)
  moreover have "CountDigits64 (ucast k) = CountDigits32 k"
    by (simp add: CountDigits64_dec CountDigits32_dec unat_ucast_up)
  moreover have "drop_bit 12 ((64 - clz (n OR 1)) * 1233) < length POWERS_OF_10_64"
    using digits_by_bits(1) [OF unat_lt_64 [of n]]
    by (simp only: clz_or_1_64 drop_bit_12 POWERS_lengths)
  moreover have lt64: "unat k < 2 ^ 64" using unat_lt_32 [of k] by simp
  have "drop_bit 12 ((32 - clz (k OR 1)) * 1233) < length POWERS_OF_10_32"
    using digits_by_bits(2) [OF lt64 unat_lt_32 [of k]]
    by (simp only: clz_or_1_32 drop_bit_12 POWERS_lengths)
  ultimately show ?thesis by (simp add: CountDigits64_dec CountDigits32_dec)
qed

subsection \<open>FormatDecimal writes the decimal notation\<close>

lemma DIGITS_nth:
  assumes "k < 100"
  shows "DIGITS ! (k * 2) = digit_char (k div 10)" and "DIGITS ! (k * 2 + 1) = digit_char (k mod 10)"
proof -
  have "list_all (\<lambda>k. DIGITS ! (k * 2) = digit_char (k div 10) \<and> DIGITS ! (k * 2 + 1) = digit_char (k mod 10)) [0..<100]"
    by code_simp
  with assms show "DIGITS ! (k * 2) = digit_char (k div 10)" "DIGITS ! (k * 2 + 1) = digit_char (k mod 10)"
    by (simp_all add: list_all_iff)
qed

lemma FormatDecimal_loop_writes:
  assumes "length blk = length (dec_string val)" and "buffer = int (length pre)"
    and "num_digits = int (length blk) - 1"
  shows "FormatDecimal_loop buffer val num_digits (pre @ blk @ post)
         = Inr (pre @ map Some (dec_string val) @ post)"
  using assms
proof (induction val arbitrary: blk post num_digits rule: less_induct)
  case (less val)
  consider "val < 10" | "10 \<le> val" "val < 100" | "100 \<le> val" by linarith
  then show ?case
  proof cases
    case 1
    then obtain c where "blk = [c]"
      using less.prems(1) by (auto simp: dec_string_small length_Suc_conv)
    with 1 less.prems show ?thesis
      by (subst FormatDecimal_loop.simps) (simp add: mstore_piece dec_string_small digit_char_def)
  next
    case 2
    then obtain c d where blk: "blk = [c, d]"
      using less.prems(1) by (auto simp: dec_string_two length_Suc_conv)
    have "mstore (buffer + 1) x (pre @ c # d # post) = Inr (pre @ c # Some x # post)" for x
      using mstore_piece [of "buffer + 1" "pre @ [c]" x d post] less.prems(2) by simp
    moreover have "mstore buffer y (pre @ c # Some x # post) = Inr (pre @ Some y # Some x # post)" for x y
      using mstore_piece [of buffer pre y c "Some x # post"] less.prems(2) by simp
    ultimately show ?thesis using 2 blk DIGITS_nth [of val]
      by (subst FormatDecimal_loop.simps) (simp add: Let_def dec_string_two)
  next
    case 3
    have "length blk = Suc (Suc (length (dec_string (val div 100))))"
      using less.prems(1) 3 by (simp add: dec_string_split2)
    then obtain blk' c d where blk: "blk = blk' @ [c, d]" and len: "length blk' = length (dec_string (val div 100))"
      using length_Suc_Suc_rev by blast
    let ?x = "DIGITS ! (val mod 100 * 2 + 1)" and ?y = "DIGITS ! (val mod 100 * 2)"
    have w1: "mstore (buffer + num_digits) ?x (pre @ blk @ post) = Inr (pre @ blk' @ c # Some ?x # post)"
      using mstore_piece [of "buffer + num_digits" "pre @ blk' @ [c]" ?x d post] less.prems(2,3) blk by simp
    have w2: "mstore (buffer + num_digits - 1) ?y (pre @ blk' @ c # Some ?x # post)
        = Inr (pre @ blk' @ Some ?y # Some ?x # post)"
      using mstore_piece [of "buffer + num_digits - 1" "pre @ blk'" ?y c "Some ?x # post"] less.prems(2,3) blk by simp
    have rec: "FormatDecimal_loop buffer (val div 100) (num_digits - 2) (pre @ blk' @ Some ?y # Some ?x # post)
        = Inr (pre @ map Some (dec_string (val div 100)) @ Some ?y # Some ?x # post)"
      using less.prems(2,3) blk len 3 by (intro less.IH) auto
    have "FormatDecimal_loop buffer val num_digits (pre @ blk @ post) =
        Inr (pre @ map Some (dec_string (val div 100)) @ Some ?y # Some ?x # post)"
      using 3 by (subst FormatDecimal_loop.simps) (simp only: Let_def w1 w2 rec ebind_simps if_True)
    with 3 DIGITS_nth [of "val mod 100"] show ?thesis by (simp add: dec_string_split2)
  qed
qed

text \<open>
  Given exactly as many cells as the notation has digits, \<open>FormatDecimal\<close> fills all of them
  with the decimal notation of the value and touches nothing around them; read back as a
  number they give the value.
\<close>

theorem FormatDecimal_writes_decimal:
  assumes "length blk = CountDigits64 val" and "length pre = start"
  shows "FormatDecimal (int start) (unat val) (CountDigits64 val) (pre @ blk @ post)
           = Inr (pre @ map Some (dec_string (unat val)) @ post)
         \<and> dec_value 0 (dec_string (unat val)) = unat val"
  using assms FormatDecimal_loop_writes [of blk "unat val" "int start" pre "int (length blk) - 1" post]
  by (simp add: FormatDecimal_def CountDigits64_dec dec_value_dec_string)

theorem FormatDecimal_writes_decimal_witness:
  "FormatDecimal 1 1234567 7 (None # replicate 7 None @ [None])
     = Inr (None # map Some ''1234567'' @ [None])"
proof -
  have "dec_string 1234567 = ''1234567''" by (simp add: dec_string_eval)
  moreover have c: "CountDigits64 1234567 = 7" by (simp add: CountDigits64_dec calculation)
  ultimately show ?thesis
    using FormatDecimal_writes_decimal [of "replicate 7 None" 1234567 "[None]" 1 "[None]"]
    by simp
qed

subsection \<open>What the fast formatters print\<close>

lemma FI_FormatDecimal_loop_writes:
  assumes "length blk = length (dec_string val)" and "buffer_end = int (length pre + length blk)"
  shows "FI_FormatDecimal_loop val buffer_end (pre @ blk @ post)
         = Inr (int (length pre), pre @ map Some (dec_string val) @ post)"
  using assms
proof (induction val arbitrary: blk post buffer_end rule: less_induct)
  case (less val)
  have store1: "mstore (buffer_end - 1) x (pre @ (bs @ [d]) @ post) = Inr (pre @ bs @ Some x # post)"
    if "blk = bs @ [d]" for bs x and d :: "char option"
    using that less.prems(2) mstore_piece [of "buffer_end - 1" "pre @ bs" x d post] by simp
  have store2: "mstore (buffer_end - 2) y (pre @ bs @ c # Some x # post) = Inr (pre @ bs @ Some y # Some x # post)"
    if "blk = bs @ [c, d]" for bs x y and c d :: "char option"
    using that less.prems(2) mstore_piece [of "buffer_end - 2" "pre @ bs" y c "Some x # post"] by simp
  consider "val < 10" | "10 \<le> val" "val < 100" | "100 \<le> val" by linarith
  then show ?case
  proof cases
    case 1
    then obtain c where "blk = [] @ [c]"
      using less.prems(1) by (auto simp: dec_string_small length_Suc_conv)
    with 1 less.prems store1 [OF this] show ?thesis
      by (subst FI_FormatDecimal_loop.simps) (simp add: dec_string_small digit_char_def)
  next
    case 2
    then obtain c d where blk: "blk = [] @ [c, d]"
      using less.prems(1) by (auto simp: dec_string_two length_Suc_conv)
    then have "blk = [c] @ [d]" by simp
    with 2 blk less.prems(2) store1 [OF this] store2 [OF blk] DIGITS_nth [of val] show ?thesis
      by (subst FI_FormatDecimal_loop.simps) (simp add: Let_def dec_string_two)
  next
    case 3
    have "length blk = Suc (Suc (length (dec_string (val div 100))))"
      using less.prems(1) 3 by (simp add: dec_string_split2)
    then obtain bs c d where blk: "blk = bs @ [c, d]" and len: "length bs = length (dec_string (val div 100))"
      using length_Suc_Suc_rev by blast
    then have blk': "blk = (bs @ [c]) @ [d]" by simp
    let ?x = "DIGITS ! (val mod 100 * 2 + 1)" and ?y = "DIGITS ! (val mod 100 * 2)"
    have rec: "FI_FormatDecimal_loop (val div 100) (buffer_end - 2) (pre @ bs @ Some ?y # Some ?x # post)
        = Inr (int (length pre), pre @ map Some (dec_string (val div 100)) @ Some ?y # Some ?x # post)"
      using less.prems(2) blk len 3 by (intro less.IH) auto
    have w1: "mstore (buffer_end - 1) ?x (pre @ blk @ post) = Inr (pre @ bs @ c # Some ?x # post)"
      using store1 [OF blk'] blk by simp
    have "FI_FormatDecimal_loop val buffer_end (pre @ blk @ post) =
        Inr (int (length pre), pre @ map Some (dec_string (val div 100)) @ Some ?y # Some ?x # post)"
      using 3 by (subst FI_FormatDecimal_loop.simps)
        (simp only: Let_def w1 store2 [OF blk] rec ebind_simps if_True)
    with 3 DIGITS_nth [of "val mod 100"] show ?thesis by (simp add: dec_string_split2)
  qed
qed

lemma dec_string_u64_length: "length (dec_string (unat (v :: u64))) \<le> 20"
  by (rule dec_string_length_le) (use unat_lt_64 [of v] in simp_all)

text \<open>The object after formatting: unused cells, the text, the cell kept for the terminator.\<close>

definition fast_int_of :: "string \<Rightarrow> fast_int" where
  "fast_int_of t = \<lparr>fi_buffer = replicate (21 - length t) None @ map Some t @ [None],
                    fi_str = int (21 - length t)\<rparr>"

lemma FI_FormatDecimal_result: "FI_FormatDecimal v = Inr (fast_int_of (dec_string (unat v)))"
proof -
  let ?d = "dec_string (unat v)"
  have le: "length ?d \<le> 21" using dec_string_u64_length [of v] by simp
  then have "22 = (21 - length ?d) + Suc (length ?d)" by simp
  then have split: "replicate 22 (None :: char option)
      = replicate (21 - length ?d) None @ replicate (length ?d) None @ [None]"
    by (metis replicate_add replicate_Suc_append)
  show ?thesis
    using FI_FormatDecimal_loop_writes
        [of "replicate (length ?d) None" "unat v" 21 "replicate (21 - length ?d) None" "[None]"] le
    by (simp add: FI_FormatDecimal_def FI_BUFFER_SIZE_def split fast_int_of_def)
qed

lemma FI_FormatSigned_result:
  "FI_FormatSigned v = (if sint v = - (2 ^ 63) then Inl (Undefined SignedOverflow)
                        else Inr (fast_int_of (signed_dec (sint v))))"
proof (cases "sint v < 0 \<and> sint v \<noteq> - (2 ^ 63)")
  case True
  let ?d = "dec_string (nat (- sint v))"
  have abs: "unat (0 - v) = nat (- sint v)" using True unat_abs [of v] by simp
  have le: "length ?d \<le> 20" using dec_string_u64_length [of "0 - v"] by (simp only: abs)
  then have "21 - length ?d = Suc (20 - length ?d)" by simp
  then have split: "replicate (21 - length ?d) (None :: char option) = replicate (20 - length ?d) None @ [None]"
    by (simp only: replicate_Suc_append)
  have "mstore (int (21 - length ?d) - 1) (CHR ''-'') (fi_buffer (fast_int_of ?d))
        = Inr (fi_buffer (fast_int_of (CHR ''-'' # ?d)))"
    using le mstore_piece [of "int (21 - length ?d) - 1" "replicate (20 - length ?d) None" "CHR ''-''" None
        "map Some ?d @ [None]"]
    by (simp add: fast_int_of_def split)
  moreover have "FI_FormatDecimal (0 - v) = Inr (fast_int_of ?d)"
    by (simp only: FI_FormatDecimal_result abs)
  ultimately show ?thesis using True le
    by (simp add: FI_FormatSigned_def Let_def signed_dec_def fast_int_of_def)
next
  case False
  show ?thesis
  proof (cases "sint v < 0")
    case True
    with False show ?thesis by (simp add: FI_FormatSigned_def Let_def)
  next
    case nonneg: False
    then have "unat v = nat (sint v)" using unat_abs [of v] by simp
    with nonneg show ?thesis by (simp add: FI_FormatSigned_def FI_FormatDecimal_result signed_dec_def)
  qed
qed

fun int_arg_value :: "int_arg \<Rightarrow> int" where
  "int_arg_value (ArgInt v) = sint v"
| "int_arg_value (ArgLong v) = sint v"
| "int_arg_value (ArgLongLong v) = sint v"
| "int_arg_value (ArgUnsigned v) = uint v"
| "int_arg_value (ArgULong v) = uint v"
| "int_arg_value (ArgULongLong v) = uint v"

lemma signed_dec_uint: "signed_dec (uint (w :: 'a::len word)) = dec_string (unat w)"
proof -
  have "\<not> uint w < 0" by (simp add: not_less)
  then show ?thesis by (simp add: signed_dec_def)
qed

lemma signed_dec_sint_length: "length (signed_dec (sint (v :: u64))) \<le> 21"
proof -
  have "nat \<bar>sint v\<bar> < 10 ^ 20"
    using unat_abs [of v] unat_lt_64 [of v] unat_lt_64 [of "0 - v"] by (auto split: if_splits)
  then show ?thesis using dec_string_length_le [of 20 "nat \<bar>sint v\<bar>"] by (auto simp: signed_dec_def)
qed

lemma sint_int_arg: "sint (scast (v :: u32) :: u64) = sint v"
  by (rule sint_scast_up) simp

lemma unat_unsigned_arg: "unat (ucast (v :: u32) :: u64) = unat v"
  by (rule unat_ucast_up) simp

lemma int_arg_length: "length (signed_dec (int_arg_value a)) \<le> 21"
proof (cases a)
  case (ArgInt v)
  then show ?thesis using signed_dec_sint_length [of "scast v"] by (simp add: sint_int_arg)
next
  case (ArgUnsigned v)
  then show ?thesis
    using dec_string_u64_length [of "ucast v"] by (simp add: signed_dec_uint unat_unsigned_arg)
next
  case (ArgULong v)
  then show ?thesis using dec_string_u64_length [of v] by (simp add: signed_dec_uint)
next
  case (ArgULongLong v)
  then show ?thesis using dec_string_u64_length [of v] by (simp add: signed_dec_uint)
qed (simp_all add: signed_dec_sint_length)

lemma uint_not_least: "uint (v :: 'a::len word) \<noteq> - (2 ^ 63)"
proof -
  have "0 \<le> uint v" by simp
  then show ?thesis by (metis neg_0_le_iff_le not_le zero_less_numeral zero_less_power)
qed

lemma FormatInt_new_result:
  "FormatInt_new a = (if int_arg_value a = - (2 ^ 63) then Inl (Undefined SignedOverflow)
                      else Inr (fast_int_of (signed_dec (int_arg_value a))))"
  by (cases a)
    (simp_all add: FI_FormatSigned_result FI_FormatDecimal_result sint_int_arg unat_unsigned_arg
      signed_dec_uint uint_not_least [simplified])

lemma FI_str_fast_int_of: "length t \<le> 21 \<Longrightarrow> FI_str (fast_int_of t) = map Some t"
  by (simp add: FI_str_def FI_size_def fast_int_of_def FI_BUFFER_SIZE_def)

text \<open>
  \<open>fmt::FormatInt\<close> prints the decimal notation of every argument of every one of its six
  constructors, within its 22-character buffer, with one exception: the least 64-bit signed
  value, whose negation it computes in the signed type (undefined behaviour).
\<close>

theorem FormatInt_prints:
  "if int_arg_value a = - (2 ^ 63) then FormatInt_new a = Inl (Undefined SignedOverflow)
   else \<exists>f. FormatInt_new a = Inr f \<and> FI_str f = map Some (signed_dec (int_arg_value a))
         \<and> FI_size f = int (length (signed_dec (int_arg_value a)))
         \<and> length (signed_dec (int_arg_value a)) < FI_BUFFER_SIZE"
  using int_arg_length [of a]
  by (auto simp: FormatInt_new_result FI_str_fast_int_of FI_BUFFER_SIZE_def)
    (simp add: FI_size_def fast_int_of_def FI_BUFFER_SIZE_def)

subsection \<open>FormatDec\<close>

lemma small_word_numerals:
  assumes "8 \<le> LENGTH('a)"
  shows "(w :: 'a::len word) < 100 \<longleftrightarrow> unat w < 100" and "w < 10 \<longleftrightarrow> unat w < 10"
    and "unat w < 100 \<Longrightarrow> unat (w * 2) = unat w * 2"
proof -
  have big: "(256::nat) \<le> 2 ^ LENGTH('a)"
    using power_increasing [OF assms, of "2::nat"] by simp
  then have "unat (100 :: 'a word) = 100" "unat (10 :: 'a word) = 10" and two: "unat (2 :: 'a word) = 2"
    using assms by (simp_all add: unsigned_numeral take_bit_nat_eq_self)
  then show "w < 100 \<longleftrightarrow> unat w < 100" "w < 10 \<longleftrightarrow> unat w < 10"
    by (simp_all add: word_less_nat_alt)
  assume "unat w < 100"
  with big two show "unat (w * 2) = unat w * 2"
    by (simp add: unat_word_ariths)
qed

lemma FormatDec_abs_writes:
  fixes w :: "'a::len word"
  assumes "8 \<le> LENGTH('a)" and "LENGTH('a) \<le> 64"
    and "length blk = length (dec_string (unat w))" and "buffer = int (length pre)"
  shows "FormatDec_abs buffer w (pre @ blk @ post)
         = Inr (buffer + int (length blk), pre @ map Some (dec_string (unat w)) @ post)"
proof -
  note small = small_word_numerals [OF assms(1), of w]
  consider "unat w < 10" | "10 \<le> unat w" "unat w < 100" | "100 \<le> unat w" by linarith
  then show ?thesis
  proof cases
    case 1
    then obtain c where "blk = [c]" using assms(3) by (auto simp: dec_string_small length_Suc_conv)
    with 1 assms(4) small show ?thesis
      by (simp add: FormatDec_abs_def mstore_piece dec_string_small digit_char_def)
  next
    case 2
    then obtain c d where blk: "blk = [c, d]"
      using assms(3) by (auto simp: dec_string_two length_Suc_conv)
    have "mstore (buffer + 1) x (pre @ c # d # post) = Inr (pre @ c # Some x # post)" for x c
      using mstore_piece [of "buffer + 1" "pre @ [c]" x d post] assms(4) by simp
    moreover have "mstore buffer y (pre @ c # d # post) = Inr (pre @ Some y # d # post)" for y
      using mstore_piece [of buffer pre y c "d # post"] assms(4) by simp
    ultimately show ?thesis using 2 blk small DIGITS_nth [of "unat w"]
      by (simp add: FormatDec_abs_def Let_def dec_string_two)
  next
    case 3
    have "FormatDecimal buffer (unat w) (length blk) (pre @ blk @ post)
        = Inr (pre @ map Some (dec_string (unat w)) @ post)"
      using assms(3,4) by (simp add: FormatDecimal_def FormatDecimal_loop_writes)
    with 3 assms small show ?thesis by (simp add: FormatDec_abs_def CountDigits_dec)
  qed
qed

text \<open>
  \<open>fmt::FormatDec\<close> writes the signed decimal notation at \<open>buffer\<close>, advances \<open>buffer\<close> past
  it and writes nothing else, for every value of the 32- and 64-bit types, the least ones
  included.
\<close>

theorem FormatDec_writes_decimal:
  fixes v :: "'a::len word"
  assumes "LENGTH('a) = 32 \<or> LENGTH('a) = 64"
    and "t = (if is_signed then signed_dec (sint v) else dec_string (unat v))"
    and "length blk = length t"
  shows "FormatDec is_signed (int (length pre)) v (pre @ blk @ post)
         = Inr (int (length pre + length t), pre @ map Some t @ post)"
proof (cases "IsNegative is_signed v")
  case True
  let ?d = "dec_string (nat (- sint v))"
  have t: "t = CHR ''-'' # ?d" using True assms(2) by (simp add: IsNegative_def signed_dec_def)
  then obtain c bs where blk: "blk = c # bs" "length bs = length ?d"
    using assms(3) by (cases blk) auto
  have abs: "unat (- v) = nat (- sint v)" using True unat_abs [of v] by (simp add: IsNegative_def)
  have "FormatDec_abs (int (length pre) + 1) (0 - v) ((pre @ [Some (CHR ''-'')]) @ bs @ post)
      = Inr (int (length pre) + 1 + int (length bs), (pre @ [Some (CHR ''-'')]) @ map Some ?d @ post)"
    using assms(1) blk(2) FormatDec_abs_writes [of bs "0 - v" "int (length pre) + 1" "pre @ [Some (CHR ''-'')]" post]
    by (auto simp: abs)
  moreover have "mstore (int (length pre)) (CHR ''-'') (pre @ c # bs @ post)
      = Inr (pre @ Some (CHR ''-'') # bs @ post)"
    by (rule mstore_piece) simp
  ultimately show ?thesis using True blk t by (simp add: FormatDec_def)
next
  case False
  have "t = dec_string (unat v)"
    using False assms(2) unat_abs [of v] by (auto simp: IsNegative_def signed_dec_def)
  then show ?thesis
    using False assms(1,3) FormatDec_abs_writes [of blk v "int (length pre)" pre post]
    by (auto simp: FormatDec_def)
qed

theorem FormatDec_writes_decimal_witness:
  "FormatDec True 1 (- 2147483648 :: u32) (None # replicate 11 None @ [None])
     = Inr (12, None # map Some ''-2147483648'' @ [None])"
proof -
  have t: "(if True then signed_dec (sint (- 2147483648 :: u32)) else dec_string (unat (- 2147483648 :: u32)))
      = ''-2147483648''"
    by (simp add: signed_dec_def dec_string_eval)
  show ?thesis
    using FormatDec_writes_decimal [where v = "- 2147483648 :: u32" and is_signed = True
        and blk = "replicate 11 None" and pre = "[None]" and post = "[None]", OF _ refl]
    unfolding t by simp
qed

end
