(* ===== verification/Fmt_Spec.thy ===== *)
theory Fmt_Spec
  imports Prelude
begin

unbundle bit_operations_syntax

text \<open>
  The data types of src/format.h that describe how something is formatted: alignments and
  flags, the format specifiers (\<open>WidthSpec\<close>, \<open>AlignSpec\<close>, \<open>FormatSpec\<close>, \<open>TypeSpec<TYPE>\<close>,
  \<open>AlignTypeSpec<TYPE>\<close>), the wrappers \<open>bin\<close>, \<open>oct\<close>, \<open>hex\<close>, \<open>hexu\<close> and \<open>pad\<close>, string
  references, and the message of an unknown format code. \<open>wchar_t\<close> has 32 bits.
  C++ inheritance between the specifiers is record extension.
\<close>

subsection \<open>Alignments, flags, specifiers\<close>

datatype Alignment = ALIGN_DEFAULT | ALIGN_LEFT | ALIGN_RIGHT | ALIGN_CENTER | ALIGN_NUMERIC

definition SIGN_FLAG :: u32 where "SIGN_FLAG = 1"
definition PLUS_FLAG :: u32 where "PLUS_FLAG = 2"
definition HASH_FLAG :: u32 where "HASH_FLAG = 4"

record WidthSpec =
  sp_width :: u32
  sp_fill :: u32

record AlignSpec = WidthSpec +
  sp_align :: Alignment

record FormatSpec = AlignSpec +
  sp_flags :: u32
  sp_type :: char

definition new_FormatSpec :: FormatSpec where
  "new_FormatSpec = \<lparr>sp_width = 0, sp_fill = 32, sp_align = ALIGN_DEFAULT, sp_flags = 0, sp_type = NUL\<rparr>"

text \<open>\<open>static_cast<char>(fill)\<close>, and the conversion of a \<open>char\<close> (signed) to \<open>wchar_t\<close>.\<close>

definition char_of_wchar :: "u32 \<Rightarrow> char" where
  "char_of_wchar w = chr (unat w)"

definition wchar_of_char :: "char \<Rightarrow> u32" where
  "wchar_of_char c = word_of_int (if code c < 128 then int (code c) else int (code c) - 256)"

definition fs_sign_flag :: "FormatSpec \<Rightarrow> bool" where
  "fs_sign_flag s \<longleftrightarrow> sp_flags s AND SIGN_FLAG \<noteq> 0"

definition fs_plus_flag :: "FormatSpec \<Rightarrow> bool" where
  "fs_plus_flag s \<longleftrightarrow> sp_flags s AND PLUS_FLAG \<noteq> 0"

definition fs_hash_flag :: "FormatSpec \<Rightarrow> bool" where
  "fs_hash_flag s \<longleftrightarrow> sp_flags s AND HASH_FLAG \<noteq> 0"

text \<open>The three kinds of specifier \<open>FormatInt\<close> is instantiated with, and their accessors.\<close>

datatype int_spec = TypeSpec char | AlignTypeSpec char AlignSpec | FullSpec FormatSpec

fun is_width :: "int_spec \<Rightarrow> nat" where
  "is_width (TypeSpec t) = 0"
| "is_width (AlignTypeSpec t s) = unat (sp_width s)"
| "is_width (FullSpec s) = unat (sp_width s)"

fun is_fill :: "int_spec \<Rightarrow> u32" where
  "is_fill (TypeSpec t) = 32"
| "is_fill (AlignTypeSpec t s) = sp_fill s"
| "is_fill (FullSpec s) = sp_fill s"

fun is_align :: "int_spec \<Rightarrow> Alignment" where
  "is_align (TypeSpec t) = ALIGN_DEFAULT"
| "is_align (AlignTypeSpec t s) = sp_align s"
| "is_align (FullSpec s) = sp_align s"

fun is_sign_flag :: "int_spec \<Rightarrow> bool" where
  "is_sign_flag (FullSpec s) = fs_sign_flag s"
| "is_sign_flag _ = False"

fun is_plus_flag :: "int_spec \<Rightarrow> bool" where
  "is_plus_flag (FullSpec s) = fs_plus_flag s"
| "is_plus_flag _ = False"

fun is_hash_flag :: "int_spec \<Rightarrow> bool" where
  "is_hash_flag (FullSpec s) = fs_hash_flag s"
| "is_hash_flag _ = False"

fun is_type :: "int_spec \<Rightarrow> char" where
  "is_type (TypeSpec t) = t"
| "is_type (AlignTypeSpec t s) = t"
| "is_type (FullSpec s) = sp_type s"

text \<open>A value with its specifier (\<open>IntFormatSpec\<close>), a string with its (\<open>StrFormatSpec\<close>).\<close>

record 'v IntFormatSpec =
  if_value :: 'v
  if_spec :: int_spec

record StrFormatSpec =
  sf_str :: string
  sf_spec :: AlignSpec

definition plain_spec :: "'v \<Rightarrow> 'v IntFormatSpec" where
  "plain_spec v = \<lparr>if_value = v, if_spec = TypeSpec NUL\<rparr>"

definition bin :: "'v \<Rightarrow> 'v IntFormatSpec" where
  "bin v = \<lparr>if_value = v, if_spec = TypeSpec (CHR ''b'')\<rparr>"

definition oct :: "'v \<Rightarrow> 'v IntFormatSpec" where
  "oct v = \<lparr>if_value = v, if_spec = TypeSpec (CHR ''o'')\<rparr>"

definition hex :: "'v \<Rightarrow> 'v IntFormatSpec" where
  "hex v = \<lparr>if_value = v, if_spec = TypeSpec (CHR ''x'')\<rparr>"

definition hexu :: "'v \<Rightarrow> 'v IntFormatSpec" where
  "hexu v = \<lparr>if_value = v, if_spec = TypeSpec (CHR ''X'')\<rparr>"

definition pad :: "'v IntFormatSpec \<Rightarrow> u32 \<Rightarrow> char \<Rightarrow> 'v IntFormatSpec" where
  "pad f width fill =
     f\<lparr>if_spec := AlignTypeSpec (is_type (if_spec f))
         \<lparr>sp_width = width, sp_fill = wchar_of_char fill, sp_align = ALIGN_DEFAULT\<rparr>\<rparr>"

definition pad_str :: "string \<Rightarrow> u32 \<Rightarrow> char \<Rightarrow> StrFormatSpec" where
  "pad_str str width fill =
     \<lparr>sf_str = str, sf_spec = \<lparr>sp_width = width, sp_fill = wchar_of_char fill, sp_align = ALIGN_DEFAULT\<rparr>\<rparr>"

lemma unat_u32_less: "unat (w :: u32) < 4294967296"
  using unsigned_less [of w] by simp

lemma is_width_bound: "is_width spec < 2 ^ 64"
proof (cases spec)
  case (AlignTypeSpec t s)
  with unat_u32_less [of "sp_width s"] show ?thesis by simp
next
  case (FullSpec s)
  with unat_u32_less [of "sp_width s"] show ?thesis by simp
qed simp

lemma char_of_wchar_of_char [simp]: "char_of_wchar (wchar_of_char c) = c"
proof -
  have lt: "code c < 256" by (simp add: code_def)
  have "unat (wchar_of_char c) = (if code c < 128 then code c else 2 ^ 32 - 256 + code c)"
  proof (cases "code c < 128")
    case True
    then have "int (code c) mod 2 ^ 32 = int (code c)" by (intro mod_pos_pos_trivial) simp_all
    then have "uint (wchar_of_char c) = int (code c)"
      unfolding wchar_of_char_def uint_word_of_int using True by simp
    with True show ?thesis by (simp add: unat_eq_nat_uint del: nat_uint_eq)
  next
    case False
    have "(int (code c) - 256) mod 2 ^ 32 = (int (code c) - 256 + 2 ^ 32) mod 2 ^ 32"
      by (rule mod_add_self2 [symmetric])
    also have "\<dots> = int (code c) - 256 + 2 ^ 32" using lt by (intro mod_pos_pos_trivial) simp_all
    finally have "(int (code c) - 256) mod 2 ^ 32 = int (code c) - 256 + 2 ^ 32" .
    moreover have "uint (wchar_of_char c) = (int (code c) - 256) mod 2 ^ 32"
      unfolding wchar_of_char_def uint_word_of_int using False by simp
    ultimately have "uint (wchar_of_char c) = int (code c) - 256 + 2 ^ 32" by simp
    with False show ?thesis by (simp add: unat_eq_nat_uint del: nat_uint_eq)
  qed
  moreover have "(2 ^ 32 - 256 + code c) mod 256 = code c"
  proof -
    have "2 ^ 32 - 256 + code c = code c + 256 * 16777215" by simp
    also have "\<dots> mod 256 = code c mod 256" by (rule mod_mult_self2)
    finally show ?thesis using lt by simp
  qed
  ultimately have "unat (wchar_of_char c) mod 256 = code c" using lt by simp
  then have "code (char_of_wchar (wchar_of_char c)) = code c"
    by (simp add: char_of_wchar_def code_chr)
  then show ?thesis by (rule code_inj)
qed

subsection \<open>String references\<close>

text \<open>
  \<open>BasicStringRef\<close>: the memory behind \<open>data_\<close> (\<open>None\<close> for a null pointer; a terminator follows
  the listed characters) and the cached size, where 0 means not yet computed.
\<close>

record StringRef =
  sr_data :: "string option"
  sr_size :: nat

definition StringRef_of_c_str :: "string option \<Rightarrow> nat \<Rightarrow> StringRef" where
  "StringRef_of_c_str s n = \<lparr>sr_data = s, sr_size = n\<rparr>"

definition StringRef_of_string :: "string \<Rightarrow> StringRef" where
  "StringRef_of_string s = \<lparr>sr_data = Some s, sr_size = length s\<rparr>"

definition StringRef_size :: "StringRef \<Rightarrow> (nat \<times> StringRef) res" where
  "StringRef_size r =
     (if sr_size r = 0
      then (case sr_data r of
              None \<Rightarrow> Inl (Undefined NullDeref)
            | Some m \<Rightarrow> Inr (strlen m, r\<lparr>sr_size := strlen m\<rparr>))
      else Inr (sr_size r, r))"

text \<open>Reading \<open>n\<close> characters from memory that ends in a terminator.\<close>

definition read_chars :: "string option \<Rightarrow> nat \<Rightarrow> string res" where
  "read_chars p n =
     (case p of
        None \<Rightarrow> (if n = 0 then Inr [] else Inl (Undefined NullDeref))
      | Some m \<Rightarrow> (if n \<le> length m + 1 then Inr (take n (m @ [NUL])) else Inl (Undefined OutOfBounds)))"

definition StringRef_str :: "StringRef \<Rightarrow> string res" where
  "StringRef_str r = ebind (StringRef_size r) (\<lambda>(n, r). read_chars (sr_data r) n)"

lemma StringRef_str_string:
  "NUL \<notin> set s \<Longrightarrow> StringRef_str (StringRef_of_string s) = Inr s"
  by (simp add: StringRef_str_def StringRef_size_def StringRef_of_string_def read_chars_def strlen_id)

lemma StringRef_str_c_str:
  "StringRef_str (StringRef_of_c_str (Some m) 0) = Inr (c_text m)"
proof -
  have "take (strlen m) (m @ [NUL]) = c_text m"
    using strlen_le [of m] takeWhile_eq_take [of "\<lambda>c. c \<noteq> NUL" m]
    by (simp only: strlen_def c_text_def take_append) simp
  then show ?thesis using strlen_le [of m]
    by (simp add: StringRef_str_def StringRef_size_def StringRef_of_c_str_def read_chars_def)
qed

subsection \<open>Unknown format codes\<close>

text \<open>
  \<open>ReportUnknownType\<close>: a printable code is quoted as it is, another one as the two-digit
  hexadecimal of the \<open>char\<close> (signed on this platform) converted to \<open>unsigned\<close>.
\<close>

definition isprint :: "char \<Rightarrow> bool" where
  "isprint c \<longleftrightarrow> 32 \<le> code c \<and> code c \<le> 126"

definition hex_digit :: "nat \<Rightarrow> char" where
  "hex_digit d = ''0123456789abcdef'' ! d"

definition hex_of_code :: "char \<Rightarrow> string" where
  "hex_of_code c =
     (if code c < 128 then '''' else ''ffffff'') @ [hex_digit (code c div 16), hex_digit (code c mod 16)]"

definition ReportUnknownType :: "char \<Rightarrow> string \<Rightarrow> failure" where
  "ReportUnknownType c type =
     Throw (FormatError
       (if isprint c then ''unknown format code '' @ [CHR 0x27, c, CHR 0x27] @ '' for '' @ type
        else ''unknown format code '' @ [CHR 0x27, CHR 0x5C, CHR ''x''] @ hex_of_code c @ [CHR 0x27] @ '' for '' @ type))"

end
