(* ===== verification/Fmt_Writer.thy ===== *)
theory Fmt_Writer
  imports Fmt_Array Fmt_Digits Fmt_Spec
begin

unbundle bit_operations_syntax

text \<open>
  \<open>fmt::BasicWriter<char>\<close> of src/format.h and src/format.cc without its floating-point part:
  \<open>GrowBuffer\<close>, \<open>FillPadding\<close>, the two overloads of \<open>PrepareFilledBuffer\<close>, \<open>FormatInt\<close>,
  \<open>FormatString\<close>, the \<open>operator<<\<close> family, \<open>Write\<close>, \<open>c_str\<close>, \<open>str\<close> and \<open>Clear\<close>. A writer is its
  buffer, an \<open>Array<char, 500>\<close>; a \<open>CharPtr\<close> is an offset into the buffer's storage, and each
  store through one is a checked write.

  \<open>int_layout\<close> and \<open>str_layout\<close> say what padding and alignment promise as plain list
  expressions; the refinement theorems show that the pointer code appends exactly that text,
  leaves every cell of it initialised and never writes outside the block it has grown.
\<close>

subsection \<open>Growing and filling\<close>

type_synonym writer = "char arr"

definition INLINE_BUFFER_SIZE :: nat where
  "INLINE_BUFFER_SIZE = 500"

definition new_writer :: writer where
  "new_writer = new_array INLINE_BUFFER_SIZE"

definition GrowBuffer :: "nat \<Rightarrow> writer \<Rightarrow> (int \<times> writer) res" where
  "GrowBuffer n w = ebind (resize (a_size w + n) w) (\<lambda>w'. Inr (int (a_size w), w'))"

text \<open>\<open>padding\<close> is computed in \<open>size_t\<close>, where a negative difference wraps.\<close>

definition FillPadding :: "int \<Rightarrow> nat \<Rightarrow> nat \<Rightarrow> u32 \<Rightarrow> char mem \<Rightarrow> (int \<times> char mem) res" where
  "FillPadding buffer total_size content_size fill m =
     (let padding = (total_size + 2 ^ 64 - content_size) mod 2 ^ 64;
          left_padding = padding div 2;
          fill_char = char_of_wchar fill;
          content = buffer + int left_padding
      in ebind (fill_n buffer left_padding fill_char m) (\<lambda>m.
         ebind (fill_n (content + int content_size) (padding - left_padding) fill_char m) (\<lambda>m.
         Inr (content, m))))"

text \<open>The body of \<open>PrepareFilledBuffer\<close> once the buffer has been grown by \<open>width\<close> at \<open>p\<close>.\<close>

definition fill_block ::
  "int \<Rightarrow> nat \<Rightarrow> nat \<Rightarrow> u32 \<Rightarrow> Alignment \<Rightarrow> char \<Rightarrow> char mem \<Rightarrow> (int \<times> char mem) res" where
  "fill_block p width sz wfill align sign m =
     (let end = p + int width; fill = char_of_wchar wfill
      in if align = ALIGN_LEFT then
           ebind (mstore p sign m) (\<lambda>m.
           ebind (fill_n (p + int sz) (nat (end - (p + int sz))) fill m) (\<lambda>m.
           Inr (p + int sz - 1, m)))
         else if align = ALIGN_CENTER then
           ebind (FillPadding p width sz (wchar_of_char fill) m) (\<lambda>(p, m).
           ebind (mstore p sign m) (\<lambda>m. Inr (p + int sz - 1, m)))
         else if align = ALIGN_NUMERIC then
           (if sign \<noteq> NUL then
              ebind (mstore p sign m) (\<lambda>m.
              ebind (fill_n (p + 1) (nat (end - (int sz - 1) - (p + 1))) fill m) (\<lambda>m.
              Inr (end - 1, m)))
            else
              ebind (fill_n p (nat (end - int sz - p)) fill m) (\<lambda>m. Inr (end - 1, m)))
         else
           ebind (mstore (end - int sz) sign m) (\<lambda>m.
           ebind (fill_n p (nat (end - int sz - p)) fill m) (\<lambda>m. Inr (end - 1, m))))"

definition PrepareFilledBuffer_empty :: "nat \<Rightarrow> char \<Rightarrow> writer \<Rightarrow> (int \<times> writer) res" where
  "PrepareFilledBuffer_empty sz sign w =
     ebind (GrowBuffer sz w) (\<lambda>(p, w).
     ebind (with_storage (mstore p sign) w) (\<lambda>w. Inr (p + int sz - 1, w)))"

definition PrepareFilledBuffer_align ::
  "nat \<Rightarrow> nat \<Rightarrow> u32 \<Rightarrow> Alignment \<Rightarrow> char \<Rightarrow> writer \<Rightarrow> (int \<times> writer) res" where
  "PrepareFilledBuffer_align sz width fill align sign w =
     (if width \<le> sz then
        ebind (GrowBuffer sz w) (\<lambda>(p, w).
        ebind (with_storage (mstore p sign) w) (\<lambda>w. Inr (p + int sz - 1, w)))
      else
        ebind (GrowBuffer width w) (\<lambda>(p, w).
        on_storage (fill_block p width sz fill align sign) w))"

text \<open>Overload resolution on the kind of specifier.\<close>

fun PrepareFilledBuffer :: "nat \<Rightarrow> int_spec \<Rightarrow> char \<Rightarrow> writer \<Rightarrow> (int \<times> writer) res" where
  "PrepareFilledBuffer sz (TypeSpec t) sign w = PrepareFilledBuffer_empty sz sign w"
| "PrepareFilledBuffer sz (AlignTypeSpec t s) sign w =
     PrepareFilledBuffer_align sz (unat (sp_width s)) (sp_fill s) (sp_align s) sign w"
| "PrepareFilledBuffer sz (FullSpec s) sign w =
     PrepareFilledBuffer_align sz (unat (sp_width s)) (sp_fill s) (sp_align s) sign w"

subsection \<open>FormatInt\<close>

text \<open>
  The three digit loops differ in their shift and digit function: hexadecimal (4 bits, lower or
  upper case), binary (1 bit) and octal (3 bits). \<open>n\<close> is the unsigned value as a number.
\<close>

datatype radix = RHex bool | RBin | ROct

fun radix_shift :: "radix \<Rightarrow> nat" where
  "radix_shift (RHex u) = 4"
| "radix_shift RBin = 1"
| "radix_shift ROct = 3"

fun radix_digit :: "radix \<Rightarrow> nat \<Rightarrow> char" where
  "radix_digit (RHex u) n = (if u then ''0123456789ABCDEF'' else ''0123456789abcdef'') ! (n AND 0xf)"
| "radix_digit RBin n = chr (48 + (n AND 1))"
| "radix_digit ROct n = chr (48 + (n AND 7))"

function count_radix :: "radix \<Rightarrow> nat \<Rightarrow> nat \<Rightarrow> nat" where
  "count_radix r n sz =
     (let n' = drop_bit (radix_shift r) n
      in if n' \<noteq> 0 then count_radix r n' (sz + 1) else sz + 1)"
  by pat_completeness auto
termination
proof (relation "measure (\<lambda>(r, n, sz). n)")
  fix r :: radix and n sz x :: nat
  assume "x = drop_bit (radix_shift r) n" and "x \<noteq> 0"
  then show "((r, x, sz + 1), (r, n, sz)) \<in> measure (\<lambda>(r, n, sz). n)"
    by (cases r) (auto simp: drop_bit_eq_div)
qed simp

declare count_radix.simps [simp del]

function put_radix :: "radix \<Rightarrow> int \<Rightarrow> nat \<Rightarrow> char mem \<Rightarrow> (int \<times> char mem) res" where
  "put_radix r p n m =
     ebind (mstore p (radix_digit r n) m) (\<lambda>m.
       let n' = drop_bit (radix_shift r) n
       in if n' \<noteq> 0 then put_radix r (p - 1) n' m else Inr (p - 1, m))"
  by pat_completeness auto
termination
proof (relation "measure (\<lambda>(r, p, n, m). n)")
  fix r :: radix and p n m x xa
  assume "xa = drop_bit (radix_shift r) n" and "xa \<noteq> (0::nat)"
  then show "((r, p - 1, xa, x), (r, p, n, m)) \<in> measure (\<lambda>(r, p, n, m). n)"
    by (cases r) (auto simp: drop_bit_eq_div)
qed simp

declare put_radix.simps [simp del]

text \<open>The prefix written in front of the digits: two characters, or one for octal.\<close>

fun put_prefix :: "radix \<Rightarrow> char \<Rightarrow> int \<Rightarrow> char mem \<Rightarrow> (int \<times> char mem) res" where
  "put_prefix ROct type p m = ebind (mstore p (CHR ''0'') m) (\<lambda>m. Inr (p, m))"
| "put_prefix r type p m =
     ebind (mstore p type m) (\<lambda>m. ebind (mstore (p - 1) (CHR ''0'') m) (\<lambda>m. Inr (p - 1, m)))"

fun prefix_size :: "radix \<Rightarrow> nat" where
  "prefix_size ROct = 1"
| "prefix_size r = 2"

definition FormatInt_radix :: "radix \<Rightarrow> nat \<Rightarrow> nat \<Rightarrow> char \<Rightarrow> int_spec \<Rightarrow> writer \<Rightarrow> writer res" where
  "FormatInt_radix r abs_value sz sign spec w =
     (let print_prefix = is_hash_flag spec;
          sz = count_radix r abs_value (if print_prefix then sz + prefix_size r else sz)
      in ebind (PrepareFilledBuffer sz spec sign w) (\<lambda>(p, w).
         ebind (on_storage (\<lambda>m.
             ebind (put_radix r p abs_value m) (\<lambda>(p, m).
             if print_prefix then put_prefix r (is_type spec) p m else Inr (p, m))) w)
           (\<lambda>(p, w). Inr w)))"

definition FormatInt :: "bool \<Rightarrow> 'a::len word \<Rightarrow> int_spec \<Rightarrow> writer \<Rightarrow> writer res" where
  "FormatInt is_signed val spec w =
     (let (sz, sign, abs_value) =
        (if IsNegative is_signed val then (1, CHR ''-'', 0 - val)
         else if is_sign_flag spec then (1, if is_plus_flag spec then CHR ''+'' else CHR '' '', val)
         else (0, NUL, val));
        type = is_type spec
      in if type = NUL \<or> type = CHR ''d'' then
           (let num_digits = CountDigits abs_value
            in ebind (PrepareFilledBuffer (sz + num_digits) spec sign w) (\<lambda>(p, w).
               with_storage (FormatDecimal (p + 1 - int num_digits) (unat abs_value) num_digits) w))
         else if type = CHR ''x'' \<or> type = CHR ''X'' then
           FormatInt_radix (RHex (type = CHR ''X'')) (unat abs_value) sz sign spec w
         else if type = CHR ''b'' \<or> type = CHR ''B'' then
           FormatInt_radix RBin (unat abs_value) sz sign spec w
         else if type = CHR ''o'' then
           FormatInt_radix ROct (unat abs_value) sz sign spec w
         else Inl (ReportUnknownType type ''integer''))"

subsection \<open>FormatString and the stream operators\<close>

definition put_string :: "string \<Rightarrow> AlignSpec \<Rightarrow> int \<Rightarrow> char mem \<Rightarrow> (int \<times> char mem) res" where
  "put_string s spec out m =
     (let sz = length s; fill = char_of_wchar (sp_fill spec); width = unat (sp_width spec)
      in ebind
           (if width > sz then
              (if sp_align spec = ALIGN_RIGHT then
                 ebind (fill_n out (width - sz) fill m) (\<lambda>m. Inr (out + int (width - sz), m))
               else if sp_align spec = ALIGN_CENTER then
                 FillPadding out width sz (wchar_of_char fill) m
               else
                 ebind (fill_n (out + int sz) (width - sz) fill m) (\<lambda>m. Inr (out, m)))
            else Inr (out, m))
           (\<lambda>(out, m). ebind (copy_in s out m) (\<lambda>m. Inr (out, m))))"

definition FormatString :: "string \<Rightarrow> AlignSpec \<Rightarrow> writer \<Rightarrow> (int \<times> writer) res" where
  "FormatString s spec w =
     ebind (GrowBuffer (if unat (sp_width spec) > length s then unat (sp_width spec) else length s) w)
       (\<lambda>(out, w). on_storage (put_string s spec out) w)"

text \<open>\<open>operator<<\<close> for integers, specifiers, characters and strings.\<close>

definition put_int :: "bool \<Rightarrow> 'a::len word \<Rightarrow> writer \<Rightarrow> writer res" where
  "put_int is_signed val w = FormatInt is_signed val (if_spec (plain_spec val)) w"

definition put_int_spec :: "bool \<Rightarrow> 'a::len word IntFormatSpec \<Rightarrow> writer \<Rightarrow> writer res" where
  "put_int_spec is_signed f w = FormatInt is_signed (if_value f) (if_spec f) w"

definition put_char :: "char \<Rightarrow> writer \<Rightarrow> writer res" where
  "put_char c w = ebind (GrowBuffer 1 w) (\<lambda>(p, w). with_storage (mstore p c) w)"

definition put_ref :: "StringRef \<Rightarrow> writer \<Rightarrow> writer res" where
  "put_ref r w =
     ebind (StringRef_size r) (\<lambda>(n, r).
     ebind (GrowBuffer n w) (\<lambda>(p, w).
     ebind (read_chars (sr_data r) n) (\<lambda>s. with_storage (copy_in s p) w)))"

definition put_str_spec :: "StrFormatSpec \<Rightarrow> writer \<Rightarrow> writer res" where
  "put_str_spec f w = ebind (FormatString (c_text (sf_str f)) (sf_spec f) w) (\<lambda>(p, w). Inr w)"

definition Write :: "string \<Rightarrow> FormatSpec \<Rightarrow> writer \<Rightarrow> writer res" where
  "Write s spec w = ebind (FormatString s (AlignSpec.truncate spec) w) (\<lambda>(p, w). Inr w)"

definition Clear :: "writer \<Rightarrow> writer" where
  "Clear w = clear w"

definition writer_size :: "writer \<Rightarrow> nat" where
  "writer_size w = a_size w"

text \<open>The characters of the output; \<open>c_str\<close> also stores a terminator behind them.\<close>

definition read_cells :: "char mem \<Rightarrow> string res" where
  "read_cells cs = (if None \<in> set cs then Inl (Undefined Uninitialised) else Inr (map the cs))"

definition writer_str :: "writer \<Rightarrow> string res" where
  "writer_str w = read_cells (cells w)"

definition writer_c_str :: "writer \<Rightarrow> (string \<times> writer) res" where
  "writer_c_str w =
     ebind (reserve (a_size w + 1) w) (\<lambda>w'.
     ebind (with_storage (mstore (int (a_size w)) NUL) w') (\<lambda>w''.
     ebind (read_cells (cells w'')) (\<lambda>s. Inr (c_text s, w''))))"

subsection \<open>What padding promises\<close>

definition int_layout :: "nat \<Rightarrow> char \<Rightarrow> Alignment \<Rightarrow> string \<Rightarrow> string \<Rightarrow> string" where
  "int_layout width fill align sg body =
     (let n = length sg + length body; k = width - n
      in if width \<le> n then sg @ body
         else case align of
             ALIGN_LEFT \<Rightarrow> sg @ body @ replicate k fill
           | ALIGN_CENTER \<Rightarrow> replicate (k div 2) fill @ sg @ body @ replicate (k - k div 2) fill
           | ALIGN_NUMERIC \<Rightarrow> sg @ replicate k fill @ body
           | _ \<Rightarrow> replicate k fill @ sg @ body)"

definition str_layout :: "AlignSpec \<Rightarrow> string \<Rightarrow> string" where
  "str_layout spec s =
     (let k = unat (sp_width spec) - length s; fill = char_of_wchar (sp_fill spec)
      in if sp_align spec = ALIGN_RIGHT then replicate k fill @ s
         else if sp_align spec = ALIGN_CENTER then replicate (k div 2) fill @ s @ replicate (k - k div 2) fill
         else s @ replicate k fill)"

text \<open>How much of the padding of a string stands to its left.\<close>

definition str_left :: "AlignSpec \<Rightarrow> nat \<Rightarrow> nat" where
  "str_left spec n =
     (let k = unat (sp_width spec) - n
      in if sp_align spec = ALIGN_RIGHT then k else if sp_align spec = ALIGN_CENTER then k div 2 else 0)"

definition sign_text :: "char \<Rightarrow> string" where
  "sign_text c = (if c = NUL then [] else [c])"

lemma sign_text_simps [simp]:
  "sign_text NUL = []"
  "c \<noteq> NUL \<Longrightarrow> sign_text c = [c]"
  by (simp_all add: sign_text_def)

lemma length_sign_text [simp]: "length (sign_text c) = (if c = NUL then 0 else 1)"
  by (simp add: sign_text_def)

subsection \<open>The block routines\<close>

lemma fill_n_piece:
  "p = int (length pre) \<Longrightarrow> length blk = n \<Longrightarrow>
   fill_n p n x (pre @ blk @ post) = Inr (pre @ map Some (replicate n x) @ post)"
  using mwrite_piece [of p pre "replicate n (Some x)" blk post] by (simp add: fill_n_def)

lemma copy_in_piece:
  "p = int (length pre) \<Longrightarrow> length blk = length xs \<Longrightarrow>
   copy_in xs p (pre @ blk @ post) = Inr (pre @ map Some xs @ post)"
  using mwrite_piece [of p pre "map Some xs" blk post] by (simp add: copy_in_def)

text \<open>A block split into three pieces of given lengths.\<close>

lemma split3:
  assumes "length xs = a + b + c"
  obtains x y z where "xs = x @ y @ z" and "length x = a" and "length y = b" and "length z = c"
proof (rule that [of "take a xs" "take b (drop a xs)" "drop (a + b) xs"])
  show "xs = take a xs @ take b (drop a xs) @ drop (a + b) xs"
    by (metis append_take_drop_id drop_drop add.commute)
qed (use assms in simp_all)

lemma FillPadding_pieces:
  assumes "tot < 2 ^ 64" and "content \<le> tot" and "k = tot - content"
    and "length x = k div 2" and "length y = content" and "length z = k - k div 2"
  shows "FillPadding (int (length pre)) tot content fill (pre @ (x @ y @ z) @ post)
    = Inr (int (length pre + k div 2),
           pre @ (map Some (replicate (k div 2) (char_of_wchar fill)) @ y
             @ map Some (replicate (k - k div 2) (char_of_wchar fill))) @ post)"
proof -
  let ?c = "char_of_wchar fill"
  have pad: "(tot + 2 ^ 64 - content) mod 2 ^ 64 = k"
  proof -
    have "tot + 2 ^ 64 - content = k + 2 ^ 64" and "k < 2 ^ 64" using assms(1-3) by simp_all
    then show ?thesis by simp
  qed
  have "fill_n (int (length pre)) (k div 2) ?c (pre @ x @ (y @ z @ post))
      = Inr (pre @ map Some (replicate (k div 2) ?c) @ (y @ z @ post))"
    by (rule fill_n_piece) (simp_all add: assms)
  moreover have "fill_n (int (length pre) + int (k div 2) + int content) (k - k div 2) ?c
        ((pre @ map Some (replicate (k div 2) ?c) @ y) @ z @ post)
      = Inr ((pre @ map Some (replicate (k div 2) ?c) @ y) @ map Some (replicate (k - k div 2) ?c) @ post)"
    by (rule fill_n_piece) (simp_all add: assms)
  ultimately show ?thesis
    unfolding FillPadding_def Let_def pad by simp
qed

text \<open>
  After \<open>fill_block\<close> the grown block is a filled left part, a hole for the content and a filled
  right part; \<open>Some sign\<close> already stands at the front of the hole (or, with numeric alignment,
  in front of the fill), and the returned pointer is the last cell of the hole.
\<close>

definition holes :: "char \<Rightarrow> nat \<Rightarrow> string \<Rightarrow> char mem \<Rightarrow> string \<Rightarrow> (string \<Rightarrow> string) \<Rightarrow> bool" where
  "holes sign sz l hole r layout \<longleftrightarrow>
     (\<forall>body. length (sign_text sign) + length body = sz \<longrightarrow>
        length body \<le> length hole \<and>
        map Some l @ take (length hole - length body) hole @ map Some body @ map Some r
          = map Some (layout body))"

lemma holes_front:
  assumes "length y = sz" and "1 \<le> sz"
    and "\<And>body. length (sign_text sign) + length body = sz \<Longrightarrow> layout body = l @ sign_text sign @ body @ r"
  shows "holes sign sz l (Some sign # tl y) r layout"
proof -
  have "take (length y - length body) (Some sign # tl y) = map Some (sign_text sign)"
    if "length (sign_text sign) + length body = length y" for body
  proof (cases "sign = NUL")
    case True
    with that show ?thesis by (simp add: sign_text_def)
  next
    case False
    with that have "length y - length body = 1" by simp
    with False show ?thesis by (simp add: sign_text_def)
  qed
  moreover have "length (Some sign # tl y) = length y" using assms(1,2) by (cases y) auto
  ultimately show ?thesis using assms(1,3) unfolding holes_def by auto
qed

lemma mstore_front:
  assumes "p = int (length pre)" and "y \<noteq> []"
  shows "mstore p c (pre @ y @ post) = Inr (pre @ (Some c # tl y) @ post)"
  using assms mstore_piece [of p pre c "hd y" "tl y @ post"] by (cases y) simp_all

definition block_ok :: "Alignment \<Rightarrow> char \<Rightarrow> nat \<Rightarrow> nat \<Rightarrow> u32 \<Rightarrow> char mem \<Rightarrow> bool" where
  "block_ok align sign width sz wfill gap \<longleftrightarrow>
     (\<exists>l hole r. length l + length hole + length r = width
        \<and> holes sign sz l hole r (int_layout width (char_of_wchar wfill) align (sign_text sign))
        \<and> (\<forall>pre rest. fill_block (int (length pre)) width sz wfill align sign (pre @ gap @ rest)
             = Inr (int (length pre + length l + length hole) - 1,
                    pre @ (map Some l @ hole @ map Some r) @ rest)))"

lemma block_okI:
  assumes "length l + length hole + length r = width"
    and "holes sign sz l hole r (int_layout width (char_of_wchar wfill) align (sign_text sign))"
    and "\<And>pre rest. fill_block (int (length pre)) width sz wfill align sign (pre @ gap @ rest)
           = Inr (int (length pre + length l + length hole) - 1,
                  pre @ map Some l @ hole @ map Some r @ rest)"
  shows "block_ok align sign width sz wfill gap"
  using assms unfolding block_ok_def by (intro exI [of _ l] exI [of _ hole] exI [of _ r]) simp

lemma int_layout_wide:
  assumes "length sg + length body = sz" and "width = sz + k" and "0 < k"
  shows "int_layout width f align sg body =
      (case align of
         ALIGN_LEFT \<Rightarrow> sg @ body @ replicate k f
       | ALIGN_CENTER \<Rightarrow> replicate (k div 2) f @ sg @ body @ replicate (k - k div 2) f
       | ALIGN_NUMERIC \<Rightarrow> sg @ replicate k f @ body
       | _ \<Rightarrow> replicate k f @ sg @ body)"
  using assms by (auto simp: int_layout_def Let_def split: Alignment.split)

lemma block_ok_left:
  assumes "width = sz + k" and "0 < k" and "1 \<le> sz" and "length gap = width"
  shows "block_ok ALIGN_LEFT sign width sz wfill gap"
proof -
  define f where "f = char_of_wchar wfill"
  obtain x y z where g: "gap = x @ y @ z" "length x = 0" "length y = sz" "length z = k"
    using assms by (auto intro: split3 [of gap 0 sz k])
  have ne: "y \<noteq> []" using g assms(3) by auto
  show ?thesis
  proof (rule block_okI [of "[]" "Some sign # tl y" "replicate k f"])
    fix pre rest :: "char mem"
    have "fill_n (int (length pre) + int sz) k f ((pre @ (Some sign # tl y)) @ z @ rest)
        = Inr ((pre @ (Some sign # tl y)) @ map Some (replicate k f) @ rest)"
      by (rule fill_n_piece) (use g assms(3) in auto)
    moreover have "mstore (int (length pre)) sign (pre @ y @ z @ rest)
        = Inr (pre @ (Some sign # tl y) @ z @ rest)"
      by (rule mstore_front) (simp_all add: ne)
    ultimately show "fill_block (int (length pre)) width sz wfill ALIGN_LEFT sign (pre @ gap @ rest)
        = Inr (int (length pre + length [] + length (Some sign # tl y)) - 1,
               pre @ map Some [] @ (Some sign # tl y) @ map Some (replicate k f) @ rest)"
      using assms g by (simp add: fill_block_def Let_def f_def)
  qed (use g assms in \<open>auto simp: f_def int_layout_wide intro!: holes_front\<close>)
qed

lemma block_ok_center:
  assumes "width = sz + k" and "0 < k" and "1 \<le> sz" and "length gap = width" and "width < 2 ^ 64"
  shows "block_ok ALIGN_CENTER sign width sz wfill gap"
proof -
  define f where "f = char_of_wchar wfill"
  obtain x y z where g: "gap = x @ y @ z" "length x = k div 2" "length y = sz" "length z = k - k div 2"
    using assms by (auto intro: split3 [of gap "k div 2" sz "k - k div 2"])
  have ne: "y \<noteq> []" using g assms(3) by auto
  have le: "sz \<le> width" and kk: "k = width - sz" using assms(1) by simp_all
  let ?l = "replicate (k div 2) f" and ?r = "replicate (k - k div 2) f"
  show ?thesis
  proof (rule block_okI [of ?l "Some sign # tl y" ?r])
    fix pre rest :: "char mem"
    have pad: "FillPadding (int (length pre)) width sz (wchar_of_char f) (pre @ gap @ rest)
       = Inr (int (length pre + k div 2), (pre @ map Some ?l) @ y @ (map Some ?r @ rest))"
      unfolding g(1)
      using FillPadding_pieces [OF assms(5) le kk g(2) g(3) g(4), of pre "wchar_of_char f" rest]
      by (simp only: char_of_wchar_of_char append_assoc)
    have sto: "mstore (int (length pre + k div 2)) sign ((pre @ map Some ?l) @ y @ (map Some ?r @ rest))
        = Inr ((pre @ map Some ?l) @ (Some sign # tl y) @ (map Some ?r @ rest))"
      by (rule mstore_front) (simp_all add: ne)
    have len: "length (Some sign # tl y) = sz" using g(3) assms(3) by simp
    have "fill_block (int (length pre)) width sz wfill ALIGN_CENTER sign (pre @ gap @ rest)
        = Inr (int (length pre + k div 2) + int sz - 1, (pre @ map Some ?l) @ (Some sign # tl y) @ (map Some ?r @ rest))"
      by (simp only: fill_block_def Let_def f_def [symmetric] pad sto ebind_simps prod.case
          Alignment.distinct if_False if_True simp_thms)
    then show "fill_block (int (length pre)) width sz wfill ALIGN_CENTER sign (pre @ gap @ rest)
        = Inr (int (length pre + length ?l + length (Some sign # tl y)) - 1,
               pre @ map Some ?l @ (Some sign # tl y) @ map Some ?r @ rest)"
      unfolding len by simp
  next
    have "k div 2 + (k - k div 2) = k" by simp
    then show "length ?l + length (Some sign # tl y) + length ?r = width"
      using g(3) assms(1,3) by simp
    show "holes sign sz ?l (Some sign # tl y) ?r
        (int_layout width (char_of_wchar wfill) ALIGN_CENTER (sign_text sign))"
      by (rule holes_front [OF g(3) assms(3)]) (simp add: int_layout_wide [OF _ assms(1,2)] f_def)
  qed
qed

lemma block_ok_numeric_sign:
  assumes "width = sz + k" and "0 < k" and "1 \<le> sz" and "length gap = width" and "sign \<noteq> NUL"
  shows "block_ok ALIGN_NUMERIC sign width sz wfill gap"
proof -
  define f where "f = char_of_wchar wfill"
  obtain x y z where g: "gap = x @ y @ z" "length x = 1" "length y = k" "length z = sz - 1"
    using assms by (auto intro: split3 [of gap 1 k "sz - 1"])
  then obtain a where a: "x = [a]" by (auto simp: length_Suc_conv)
  show ?thesis
  proof (rule block_okI [of "sign # replicate k f" z "[]"])
    fix pre rest :: "char mem"
    have "fill_n (int (length pre) + 1) k f ((pre @ [Some sign]) @ y @ z @ rest)
        = Inr ((pre @ [Some sign]) @ map Some (replicate k f) @ z @ rest)"
      by (rule fill_n_piece) (use g in simp_all)
    moreover have "mstore (int (length pre)) sign (pre @ a # y @ z @ rest)
        = Inr (pre @ Some sign # y @ z @ rest)"
      by (rule mstore_piece) simp
    ultimately show "fill_block (int (length pre)) width sz wfill ALIGN_NUMERIC sign (pre @ gap @ rest)
        = Inr (int (length pre + length (sign # replicate k f) + length z) - 1,
               pre @ map Some (sign # replicate k f) @ z @ map Some [] @ rest)"
      using assms g a by (simp add: fill_block_def Let_def f_def of_nat_diff)
  qed (use g assms in \<open>auto simp: f_def int_layout_wide holes_def sign_text_def\<close>)
qed

lemma block_ok_numeric_plain:
  assumes "width = sz + k" and "0 < k" and "1 \<le> sz" and "length gap = width" and "sign = NUL"
  shows "block_ok ALIGN_NUMERIC sign width sz wfill gap"
proof -
  define f where "f = char_of_wchar wfill"
  obtain x y z where g: "gap = x @ y @ z" "length x = 0" "length y = k" "length z = sz"
    using assms by (auto intro: split3 [of gap 0 k sz])
  show ?thesis
  proof (rule block_okI [of "replicate k f" z "[]"])
    fix pre rest :: "char mem"
    show "fill_block (int (length pre)) width sz wfill ALIGN_NUMERIC sign (pre @ gap @ rest)
        = Inr (int (length pre + length (replicate k f) + length z) - 1,
               pre @ map Some (replicate k f) @ z @ map Some [] @ rest)"
      using assms g fill_n_piece [of "int (length pre)" pre y k f "z @ rest"]
      by (simp add: fill_block_def Let_def f_def)
  qed (use g assms in \<open>auto simp: f_def int_layout_wide holes_def sign_text_def\<close>)
qed

lemma block_ok_right:
  assumes "width = sz + k" and "0 < k" and "1 \<le> sz" and "length gap = width"
    and "align = ALIGN_DEFAULT \<or> align = ALIGN_RIGHT"
  shows "block_ok align sign width sz wfill gap"
proof -
  define f where "f = char_of_wchar wfill"
  obtain x y z where g: "gap = x @ y @ z" "length x = 0" "length y = k" "length z = sz"
    using assms by (auto intro: split3 [of gap 0 k sz])
  have ne: "z \<noteq> []" using g assms(3) by auto
  show ?thesis
  proof (rule block_okI [of "replicate k f" "Some sign # tl z" "[]"])
    fix pre rest :: "char mem"
    have "mstore (int (length pre) + int k) sign ((pre @ y) @ z @ rest)
        = Inr ((pre @ y) @ (Some sign # tl z) @ rest)"
      by (rule mstore_front) (use ne g in simp_all)
    moreover have "fill_n (int (length pre)) k f (pre @ y @ (Some sign # tl z) @ rest)
        = Inr (pre @ map Some (replicate k f) @ (Some sign # tl z) @ rest)"
      by (rule fill_n_piece) (use g in simp_all)
    ultimately show "fill_block (int (length pre)) width sz wfill align sign (pre @ gap @ rest)
        = Inr (int (length pre + length (replicate k f) + length (Some sign # tl z)) - 1,
               pre @ map Some (replicate k f) @ (Some sign # tl z) @ map Some [] @ rest)"
      using assms g by (auto simp: fill_block_def Let_def f_def)
  qed (use g assms in \<open>auto simp: f_def int_layout_wide intro!: holes_front\<close>)
qed

lemma fill_block_ok:
  assumes "sz < width" and "width < 2 ^ 64" and "1 \<le> sz" and "length gap = width"
  shows "block_ok align sign width sz wfill gap"
proof -
  have wk: "width = sz + (width - sz)" "0 < width - sz" using assms(1) by auto
  note c = wk assms(3,4)
  show ?thesis
  proof (cases align)
    case ALIGN_NUMERIC
    then show ?thesis
      by (cases "sign = NUL") (auto intro: block_ok_numeric_sign [OF c] block_ok_numeric_plain [OF c])
  qed (auto intro: block_ok_left [OF c] block_ok_center [OF c assms(2)] block_ok_right [OF c])
qed

subsection \<open>The writer's operations through the buffer interface\<close>

definition spec_layout :: "int_spec \<Rightarrow> string \<Rightarrow> string \<Rightarrow> string" where
  "spec_layout spec = int_layout (is_width spec) (char_of_wchar (is_fill spec)) (is_align spec)"

lemma with_storage_on_storage:
  "with_storage g w = ebind (on_storage (\<lambda>m. ebind (g m) (\<lambda>m. Inr (0 :: int, m))) w) (\<lambda>(p, w). Inr w)"
  by (cases "g (storage w)") (simp_all add: with_storage_def on_storage_def)

lemma with_storage_inside:
  assumes "arr_ok w" and "cells w = pre @ blk @ post" and "length xs = length blk"
    and "\<And>rest. f (pre @ blk @ post @ rest) = Inr (pre @ xs @ post @ rest)"
  obtains w' where "with_storage f w = Inr w'" and "arr_ok w'" and "cells w' = pre @ xs @ post"
proof -
  let ?f = "\<lambda>m. ebind (f m) (\<lambda>m. Inr (0 :: int, m))"
  obtain w' where "on_storage ?f w = Inr (0, w')" "arr_ok w'" "cells w' = pre @ xs @ post"
    using arr_buf.edit_inside [OF assms(1-3), of ?f 0] assms(4) by auto
  then show ?thesis by (intro that [of w']) (simp_all add: with_storage_on_storage)
qed

lemma GrowBuffer_ok:
  assumes "arr_ok w"
  obtains w' gap where "GrowBuffer n w = Inr (int (length (cells w)), w')" and "arr_ok w'"
    and "cells w' = cells w @ gap" and "length gap = n"
  using arr_buf.grow_law [OF assms, of n] assms by (auto simp: GrowBuffer_def)

lemma PrepareFilledBuffer_cases:
  "PrepareFilledBuffer sz spec sign w =
     (if is_width spec \<le> sz then
        ebind (GrowBuffer sz w) (\<lambda>(p, w).
        ebind (with_storage (mstore p sign) w) (\<lambda>w. Inr (p + int sz - 1, w)))
      else
        ebind (GrowBuffer (is_width spec) w) (\<lambda>(p, w).
        on_storage (fill_block p (is_width spec) sz (is_fill spec) (is_align spec) sign) w))"
  by (cases spec) (simp_all add: PrepareFilledBuffer_empty_def PrepareFilledBuffer_align_def)

lemma PrepareFilledBuffer_hole:
  assumes "arr_ok w" and "1 \<le> sz"
  obtains w' l hole r
  where "PrepareFilledBuffer sz spec sign w = Inr (int (length (cells w) + length l + length hole) - 1, w')"
    and "arr_ok w'" and "cells w' = cells w @ map Some l @ hole @ map Some r"
    and "holes sign sz l hole r (spec_layout spec (sign_text sign))"
proof (cases "is_width spec \<le> sz")
  case True
  obtain w1 gap where w1: "GrowBuffer sz w = Inr (int (length (cells w)), w1)" "arr_ok w1"
    "cells w1 = cells w @ gap" "length gap = sz"
    using assms(1) by (rule GrowBuffer_ok)
  have ne: "gap \<noteq> []" using w1(4) assms(2) by auto
  obtain w2 where w2: "with_storage (mstore (int (length (cells w))) sign) w1 = Inr w2" "arr_ok w2"
    "cells w2 = cells w @ (Some sign # tl gap) @ []"
    by (rule with_storage_inside [of w1 "cells w" gap "[]" "Some sign # tl gap" "mstore (int (length (cells w))) sign"])
      (use w1 ne assms(2) in \<open>simp_all add: mstore_front\<close>)
  have "holes sign sz [] (Some sign # tl gap) [] (spec_layout spec (sign_text sign))"
    by (rule holes_front [OF w1(4) assms(2)]) (use True in \<open>simp add: spec_layout_def int_layout_def\<close>)
  with True w1 w2 ne show ?thesis
    by (intro that [of "[]" "Some sign # tl gap" w2 "[]"])
      (use assms(2) in \<open>simp_all add: PrepareFilledBuffer_cases of_nat_diff\<close>)
next
  case False
  let ?n = "is_width spec"
  obtain w1 gap where w1: "GrowBuffer ?n w = Inr (int (length (cells w)), w1)" "arr_ok w1"
    "cells w1 = cells w @ gap" "length gap = ?n"
    using assms(1) by (rule GrowBuffer_ok)
  have "block_ok (is_align spec) sign ?n sz (is_fill spec) gap"
    using False is_width_bound assms(2) w1(4) by (intro fill_block_ok) simp_all
  then obtain l hole r where b: "length l + length hole + length r = ?n"
    "holes sign sz l hole r (spec_layout spec (sign_text sign))"
    "\<And>pre rest. fill_block (int (length pre)) ?n sz (is_fill spec) (is_align spec) sign (pre @ gap @ rest)
       = Inr (int (length pre + length l + length hole) - 1, pre @ (map Some l @ hole @ map Some r) @ rest)"
    unfolding block_ok_def spec_layout_def by blast
  let ?f = "fill_block (int (length (cells w))) ?n sz (is_fill spec) (is_align spec) sign"
  let ?p = "int (length (cells w) + length l + length hole) - 1"
  have out: "cells w1 = cells w @ gap @ []" using w1(3) by simp
  have "\<exists>w2. on_storage ?f w1 = Inr (?p, w2) \<and> arr_ok w2
      \<and> cells w2 = cells w @ (map Some l @ hole @ map Some r) @ []"
  proof (rule arr_buf.edit_law [OF w1(2) out])
    show "length (map Some l @ hole @ map Some r) = length gap" using b(1) w1(4) by simp
    show "?f (cells w @ gap @ [] @ rest) = Inr (?p, cells w @ (map Some l @ hole @ map Some r) @ [] @ rest)" for rest
      unfolding append_Nil by (rule b(3))
  qed
  then obtain w2 where w2: "on_storage ?f w1 = Inr (?p, w2)" "arr_ok w2"
    "cells w2 = cells w @ (map Some l @ hole @ map Some r) @ []" by blast
  with False w1 b(2) show ?thesis
    by (intro that [of l hole w2 r]) (simp_all add: PrepareFilledBuffer_cases)
qed

text \<open>
  A routine \<open>f p\<close> that, started at the last cell of a stretch as long as \<open>body\<close>, fills that
  stretch with \<open>body\<close>, completes what \<open>PrepareFilledBuffer\<close> began.
\<close>

definition writes_back :: "(int \<Rightarrow> char mem \<Rightarrow> (int \<times> char mem) res) \<Rightarrow> string \<Rightarrow> bool" where
  "writes_back f body \<longleftrightarrow>
     (\<forall>pre. \<exists>q. \<forall>blk post. length blk = length body \<longrightarrow>
        f (int (length pre + length body) - 1) (pre @ blk @ post) = Inr (q, pre @ map Some body @ post))"

lemma prepare_then_write:
  assumes "arr_ok w" and "1 \<le> sz" and "length (sign_text sign) + length body = sz"
    and "writes_back f body"
  obtains p w1 q w2 where "PrepareFilledBuffer sz spec sign w = Inr (p, w1)"
    and "on_storage (f p) w1 = Inr (q, w2)" and "arr_ok w2"
    and "cells w2 = cells w @ map Some (spec_layout spec (sign_text sign) body)"
proof -
  obtain w1 l hole r where w1:
    "PrepareFilledBuffer sz spec sign w = Inr (int (length (cells w) + length l + length hole) - 1, w1)"
    "arr_ok w1" "cells w1 = cells w @ map Some l @ hole @ map Some r"
    "holes sign sz l hole r (spec_layout spec (sign_text sign))"
    using assms(1,2) by (rule PrepareFilledBuffer_hole)
  have len: "length body \<le> length hole"
    and lay: "map Some l @ take (length hole - length body) hole @ map Some body @ map Some r
      = map Some (spec_layout spec (sign_text sign) body)"
    using w1(4) assms(3) by (auto simp: holes_def)
  define pre where "pre = cells w @ map Some l @ take (length hole - length body) hole"
  define blk where "blk = drop (length hole - length body) hole"
  have out: "cells w1 = pre @ blk @ map Some r" and blk: "length blk = length body"
    using w1(3) len by (simp_all add: pre_def blk_def)
  obtain q where q: "\<And>post. f (int (length pre + length body) - 1) (pre @ blk @ post)
      = Inr (q, pre @ map Some body @ post)"
    using assms(4) blk unfolding writes_back_def by blast
  have p: "int (length (cells w) + length l + length hole) - 1 = int (length pre + length body) - 1"
    using len by (simp add: pre_def)
  have "\<exists>w2. on_storage (f (int (length pre + length body) - 1)) w1 = Inr (q, w2) \<and> arr_ok w2
      \<and> cells w2 = pre @ map Some body @ map Some r"
    by (rule arr_buf.edit_law [OF w1(2) out]) (simp_all only: blk length_map q)
  then obtain w2 where w2: "on_storage (f (int (length pre + length body) - 1)) w1 = Inr (q, w2)"
    "arr_ok w2" "cells w2 = pre @ map Some body @ map Some r" by blast
  show ?thesis
  proof (rule that [OF _ w2(1,2)])
    show "PrepareFilledBuffer sz spec sign w = Inr (int (length pre + length body) - 1, w1)"
      using w1(1) unfolding p .
    show "cells w2 = cells w @ map Some (spec_layout spec (sign_text sign) body)"
      using w2(3) lay by (simp only: pre_def append_assoc)
  qed
qed

subsection \<open>Digits in the power-of-two bases\<close>

function radix_string :: "radix \<Rightarrow> nat \<Rightarrow> string" where
  "radix_string r n =
     (let n' = drop_bit (radix_shift r) n
      in if n' \<noteq> 0 then radix_string r n' @ [radix_digit r n] else [radix_digit r n])"
  by pat_completeness auto
termination
proof (relation "measure (\<lambda>(r, n). n)")
  fix r :: radix and n x :: nat
  assume "x = drop_bit (radix_shift r) n" and "x \<noteq> 0"
  then show "((r, x), (r, n)) \<in> measure (\<lambda>(r, n). n)"
    by (cases r) (auto simp: drop_bit_eq_div)
qed simp

declare radix_string.simps [simp del]

lemma count_radix_length: "count_radix r n sz = sz + length (radix_string r n)"
proof (induction r n sz rule: count_radix.induct)
  case (1 r n sz)
  then show ?case
    by (subst count_radix.simps, subst radix_string.simps) (simp add: Let_def)
qed

lemma radix_string_length_pos: "0 < length (radix_string r n)"
  by (subst radix_string.simps) (simp add: Let_def)

lemma put_radix_writes:
  assumes "length blk = length (radix_string r n)" and "p = int (length pre + length blk) - 1"
  shows "put_radix r p n (pre @ blk @ post)
         = Inr (int (length pre) - 1, pre @ map Some (radix_string r n) @ post)"
  using assms
proof (induction r n arbitrary: blk post p rule: radix_string.induct)
  case (1 r n)
  define n' where "n' = drop_bit (radix_shift r) n"
  obtain bs c where blk: "blk = bs @ [c]"
    using 1(2) radix_string_length_pos [of r n] by (cases blk rule: rev_cases) auto
  have w: "mstore p (radix_digit r n) (pre @ blk @ post)
      = Inr (pre @ bs @ Some (radix_digit r n) # post)"
    using mstore_piece [of p "pre @ bs" "radix_digit r n" c post] 1(3) blk by simp
  show ?case
  proof (cases "n' = 0")
    case True
    then have "radix_string r n = [radix_digit r n]"
      by (subst radix_string.simps) (simp add: n'_def)
    with True w blk 1(2,3) show ?thesis
      by (subst put_radix.simps) (simp add: n'_def [symmetric])
  next
    case False
    then have rs: "radix_string r n = radix_string r n' @ [radix_digit r n]"
      by (subst radix_string.simps) (simp add: n'_def)
    have "put_radix r (p - 1) n' (pre @ bs @ Some (radix_digit r n) # post)
        = Inr (int (length pre) - 1, pre @ map Some (radix_string r n') @ Some (radix_digit r n) # post)"
      using 1(2,3) blk rs False by (intro 1(1)) (simp_all add: n'_def)
    with False w rs show ?thesis
      by (subst put_radix.simps) (simp add: n'_def [symmetric])
  qed
qed

definition digit_value :: "char \<Rightarrow> nat" where
  "digit_value c = (if code c < 58 then code c - 48 else if code c < 71 then code c - 55 else code c - 87)"

fun radix_value :: "nat \<Rightarrow> nat \<Rightarrow> string \<Rightarrow> nat" where
  "radix_value base acc [] = acc"
| "radix_value base acc (c # cs) = radix_value base (acc * base + digit_value c) cs"

lemma radix_value_append: "radix_value b acc (xs @ ys) = radix_value b (radix_value b acc xs) ys"
  by (induction xs arbitrary: acc) auto

lemma radix_digit_value: "digit_value (radix_digit r n) = n mod 2 ^ radix_shift r"
proof (cases r)
  case (RHex u)
  have "list_all (\<lambda>k. digit_value (''0123456789ABCDEF'' ! k) = k \<and> digit_value (''0123456789abcdef'' ! k) = k) [0..<16]"
    by code_simp
  then have "digit_value (''0123456789ABCDEF'' ! (n mod 16)) = n mod 16 \<and> digit_value (''0123456789abcdef'' ! (n mod 16)) = n mod 16"
    by (simp only: list_all_iff set_upt) simp
  moreover have "n AND 15 = take_bit 4 n" by (simp add: take_bit_eq_mask mask_eq_exp_minus_1)
  then have "n AND 15 = n mod 16" by (simp add: take_bit_eq_mod)
  ultimately show ?thesis using RHex by simp
next
  case RBin
  then show ?thesis by (simp add: and_one_eq digit_value_def code_chr)
next
  case ROct
  have "n AND 7 = take_bit 3 n" by (simp add: take_bit_eq_mask mask_eq_exp_minus_1)
  then have "n AND 7 = n mod 8" by (simp add: take_bit_eq_mod)
  then show ?thesis using ROct by (simp add: digit_value_def code_chr)
qed

lemma radix_string_value: "radix_value (2 ^ radix_shift r) 0 (radix_string r n) = n"
proof (induction r n rule: radix_string.induct)
  case (1 r n)
  show ?case
  proof (cases "drop_bit (radix_shift r) n = 0")
    case True
    then have "n mod 2 ^ radix_shift r = n" by (simp add: drop_bit_eq_div div_eq_0_iff)
    with True show ?thesis by (subst radix_string.simps) (simp add: radix_digit_value)
  next
    case False
    with 1 have "radix_value (2 ^ radix_shift r) 0 (radix_string r (drop_bit (radix_shift r) n)) = drop_bit (radix_shift r) n"
      by simp
    with False div_mult_mod_eq [of n "2 ^ radix_shift r"] show ?thesis
      by (subst radix_string.simps) (simp add: radix_value_append radix_digit_value drop_bit_eq_div)
  qed
qed

subsection \<open>FormatInt appends the laid-out number\<close>

definition int_sign :: "bool \<Rightarrow> 'a::len word \<Rightarrow> int_spec \<Rightarrow> char" where
  "int_sign is_signed v spec =
     (if IsNegative is_signed v then CHR ''-''
      else if is_sign_flag spec then (if is_plus_flag spec then CHR ''+'' else CHR '' '') else NUL)"

fun radix_prefix :: "radix \<Rightarrow> char \<Rightarrow> string" where
  "radix_prefix ROct type = ''0''"
| "radix_prefix r type = [CHR ''0'', type]"

definition type_radix :: "char \<Rightarrow> radix option" where
  "type_radix type =
     (if type = CHR ''x'' \<or> type = CHR ''X'' then Some (RHex (type = CHR ''X''))
      else if type = CHR ''b'' \<or> type = CHR ''B'' then Some RBin
      else if type = CHR ''o'' then Some ROct else None)"

definition int_body :: "int_spec \<Rightarrow> nat \<Rightarrow> string option" where
  "int_body spec n =
     (if is_type spec = NUL \<or> is_type spec = CHR ''d'' then Some (dec_string n)
      else map_option (\<lambda>r. (if is_hash_flag spec then radix_prefix r (is_type spec) else []) @ radix_string r n)
             (type_radix (is_type spec)))"

definition int_value :: "bool \<Rightarrow> 'a::len word \<Rightarrow> int" where
  "int_value is_signed v = (if is_signed then sint v else uint v)"

lemma abs_value_nat:
  "unat (if IsNegative is_signed v then 0 - v else v) = nat \<bar>int_value is_signed v\<bar>"
proof (cases is_signed)
  case True
  then show ?thesis using unat_abs [of v] by (simp add: IsNegative_def int_value_def)
next
  case False
  then show ?thesis by (simp add: IsNegative_def int_value_def)
qed

lemma put_prefix_writes:
  assumes "length bs = length (radix_prefix r type)"
  shows "put_prefix r type (int (length pre + length bs) - 1) (pre @ bs @ post)
    = Inr (int (length pre), pre @ map Some (radix_prefix r type) @ post)"
proof (cases "r = ROct")
  case True
  with assms obtain c where "bs = [c]" by (auto simp: length_Suc_conv)
  with True show ?thesis by (simp add: mstore_piece)
next
  case False
  with assms obtain c d where bs: "bs = [c, d]" by (cases r) (auto simp: length_Suc_conv)
  have "mstore (1 + int (length pre)) type ((pre @ [c]) @ d # post) = Inr ((pre @ [c]) @ Some type # post)"
    by (rule mstore_piece) simp
  moreover have "mstore (int (length pre)) (CHR ''0'') (pre @ c # Some type # post)
      = Inr (pre @ Some (CHR ''0'') # Some type # post)"
    by (rule mstore_piece) simp
  ultimately show ?thesis using False bs by (cases r) simp_all
qed

lemma length_radix_prefix: "length (radix_prefix r type) = prefix_size r"
  by (cases r) simp_all

lemma radix_writes_back:
  "writes_back (\<lambda>p m. ebind (put_radix r p n m) (\<lambda>(p, m). if b then put_prefix r type p m else Inr (p, m)))
     ((if b then radix_prefix r type else []) @ radix_string r n)"
proof -
  let ?pf = "if b then radix_prefix r type else []"
  let ?f = "\<lambda>p m. ebind (put_radix r p n m) (\<lambda>(p, m). if b then put_prefix r type p m else Inr (p, m))"
  have "?f (int (length pre + length (?pf @ radix_string r n)) - 1) (pre @ blk @ post)
        = Inr (if b then int (length pre) else int (length pre) - 1,
               pre @ map Some (?pf @ radix_string r n) @ post)"
    if len: "length blk = length (?pf @ radix_string r n)" for pre blk post
  proof -
    define bs where "bs = take (length ?pf) blk"
    define ds where "ds = drop (length ?pf) blk"
    have blk: "blk = bs @ ds" "length bs = length ?pf" "length ds = length (radix_string r n)"
      using len by (simp_all add: bs_def ds_def)
    have "put_radix r (int (length pre + length (?pf @ radix_string r n)) - 1) n ((pre @ bs) @ ds @ post)
        = Inr (int (length (pre @ bs)) - 1, (pre @ bs) @ map Some (radix_string r n) @ post)"
      by (rule put_radix_writes) (simp_all add: blk)
    then show ?thesis
      using blk put_prefix_writes [of bs r type pre "map Some (radix_string r n) @ post"]
      by (cases b) simp_all
  qed
  then show ?thesis unfolding writes_back_def by blast
qed

lemma FormatInt_radix_ok:
  assumes "arr_ok w"
  shows "\<exists>w'. FormatInt_radix r n (length (sign_text sign)) sign spec w = Inr w' \<and> arr_ok w'
    \<and> cells w' = cells w @ map Some (spec_layout spec (sign_text sign)
        ((if is_hash_flag spec then radix_prefix r (is_type spec) else []) @ radix_string r n))"
proof -
  let ?body = "(if is_hash_flag spec then radix_prefix r (is_type spec) else []) @ radix_string r n"
  let ?sz = "count_radix r n (if is_hash_flag spec then length (sign_text sign) + prefix_size r
                              else length (sign_text sign))"
  have sz: "length (sign_text sign) + length ?body = ?sz"
    by (simp add: count_radix_length length_radix_prefix del: length_sign_text)
  have "1 \<le> length (radix_string r n)" using radix_string_length_pos [of r n] by linarith
  then have pos: "1 \<le> ?sz" unfolding count_radix_length by (rule trans_le_add2)
  obtain p w1 q w2 where "PrepareFilledBuffer ?sz spec sign w = Inr (p, w1)"
    "on_storage (\<lambda>m. ebind (put_radix r p n m) (\<lambda>(p, m).
        if is_hash_flag spec then put_prefix r (is_type spec) p m else Inr (p, m))) w1 = Inr (q, w2)"
    "arr_ok w2" "cells w2 = cells w @ map Some (spec_layout spec (sign_text sign) ?body)"
    by (rule prepare_then_write [OF assms pos sz radix_writes_back])
  then show ?thesis by (simp add: FormatInt_radix_def Let_def del: length_sign_text)
qed

lemma FormatInt_dec_ok:
  assumes "arr_ok w" and "num = length (dec_string n)"
  shows "\<exists>w'. ebind (PrepareFilledBuffer (length (sign_text sign) + num) spec sign w) (\<lambda>(p, w).
             with_storage (FormatDecimal (p + 1 - int num) n num) w) = Inr w' \<and> arr_ok w'
    \<and> cells w' = cells w @ map Some (spec_layout spec (sign_text sign) (dec_string n))"
proof -
  let ?f = "\<lambda>p m. ebind (FormatDecimal (p + 1 - int num) n num m) (\<lambda>m. Inr (0 :: int, m))"
  have "?f (int (length pre + length (dec_string n)) - 1) (pre @ blk @ post)
      = Inr (0, pre @ map Some (dec_string n) @ post)"
    if "length blk = length (dec_string n)" for pre blk post
    using that assms(2) FormatDecimal_loop_writes [of blk n "int (length pre)" pre "int num - 1" post]
    by (simp add: FormatDecimal_def)
  then have wb: "writes_back ?f (dec_string n)" unfolding writes_back_def by blast
  have pos: "1 \<le> length (sign_text sign) + num"
    using assms(2) dec_string_nonempty [of n] by (cases "dec_string n") simp_all
  have sz: "length (sign_text sign) + length (dec_string n) = length (sign_text sign) + num"
    by (simp only: assms(2))
  obtain p w1 q w2 where "PrepareFilledBuffer (length (sign_text sign) + num) spec sign w = Inr (p, w1)"
    "on_storage (?f p) w1 = Inr (q, w2)" "arr_ok w2"
    "cells w2 = cells w @ map Some (spec_layout spec (sign_text sign) (dec_string n))"
    by (rule prepare_then_write [OF assms(1) pos sz wb])
  then show ?thesis by (simp add: with_storage_on_storage del: length_sign_text)
qed

lemma FormatInt_ok:
  fixes v :: "'a::len word"
  assumes "arr_ok w" and "LENGTH('a) \<le> 64"
  shows "(case int_body spec (nat \<bar>int_value is_signed v\<bar>) of
            None \<Rightarrow> FormatInt is_signed v spec w = Inl (ReportUnknownType (is_type spec) ''integer'')
          | Some body \<Rightarrow> \<exists>w'. FormatInt is_signed v spec w = Inr w' \<and> arr_ok w'
              \<and> cells w' = cells w @ map Some (spec_layout spec (sign_text (int_sign is_signed v spec)) body))"
proof -
  let ?n = "nat \<bar>int_value is_signed v\<bar>" and ?s = "int_sign is_signed v spec"
  let ?abs = "if IsNegative is_signed v then 0 - v else v"
  have body: "FormatInt is_signed v spec w =
     (if is_type spec = NUL \<or> is_type spec = CHR ''d'' then
        ebind (PrepareFilledBuffer (length (sign_text ?s) + CountDigits ?abs) spec ?s w) (\<lambda>(p, w).
           with_storage (FormatDecimal (p + 1 - int (CountDigits ?abs)) ?n (CountDigits ?abs)) w)
      else case type_radix (is_type spec) of
          Some r \<Rightarrow> FormatInt_radix r ?n (length (sign_text ?s)) ?s spec w
        | None \<Rightarrow> Inl (ReportUnknownType (is_type spec) ''integer''))"
    unfolding abs_value_nat [symmetric]
    by (auto simp: FormatInt_def Let_def int_sign_def type_radix_def)
  have num: "CountDigits ?abs = length (dec_string ?n)"
    using CountDigits_dec [OF assms(2), of ?abs] by (simp only: abs_value_nat)
  show ?thesis
    using FormatInt_dec_ok [OF assms(1) num, of ?s spec] FormatInt_radix_ok [OF assms(1), of _ ?n ?s spec]
    by (auto simp: body int_body_def split: option.splits)
qed

text \<open>
  C9. \<open>FormatInt\<close> on a value of any of the integer argument types and any specifier: it
  appends exactly the sign, prefix and digits of the number, laid out in the requested width
  with the requested fill and alignment, leaves what was in the buffer alone and every new cell
  initialised; it throws only for an unknown format code.
\<close>

theorem FormatInt_refines:
  fixes v :: "'a::len word"
  assumes "arr_ok w" and "LENGTH('a) \<le> 64"
  shows "(case int_body spec (nat \<bar>int_value is_signed v\<bar>) of
            None \<Rightarrow> FormatInt is_signed v spec w = Inl (ReportUnknownType (is_type spec) ''integer'')
          | Some body \<Rightarrow> \<exists>w'. FormatInt is_signed v spec w = Inr w' \<and> arr_ok w'
              \<and> cells w' = cells w @ map Some (spec_layout spec (sign_text (int_sign is_signed v spec)) body))"
  by (rule FormatInt_ok [OF assms])

lemma arr_ok_new_writer [simp]: "arr_ok new_writer"
  by (simp add: new_writer_def)

lemma cells_new_writer [simp]: "cells new_writer = []"
  by (simp add: new_writer_def)

lemma char_of_wchar_0 [simp]: "char_of_wchar 48 = CHR ''0''"
  by (simp add: char_of_wchar_def chr_def char_of_def bit_Suc_0_iff)

lemma char_of_wchar_star [simp]: "char_of_wchar 42 = CHR ''*''"
  by (simp add: char_of_wchar_def chr_def char_of_def bit_Suc_0_iff)

lemma replicate_2_3: "replicate 2 x = [x, x]" "replicate 3 x = [x, x, x]"
  by (simp_all add: numeral_2_eq_2 numeral_3_eq_3)

theorem FormatInt_refines_witness:
  "\<exists>w'. FormatInt True (- 42 :: u32)
      (FullSpec \<lparr>sp_width = 8, sp_fill = 48, sp_align = ALIGN_NUMERIC, sp_flags = HASH_FLAG, sp_type = CHR ''x''\<rparr>)
      new_writer = Inr w' \<and> arr_ok w' \<and> cells w' = map Some ''-0000x2a''"
proof -
  let ?spec = "FullSpec \<lparr>sp_width = 8, sp_fill = 48, sp_align = ALIGN_NUMERIC, sp_flags = HASH_FLAG, sp_type = CHR ''x''\<rparr>"
  have "radix_string (RHex False) 42 = ''2a''"
    by (simp add: radix_string.simps drop_bit_eq_div)
  then have body: "int_body ?spec (nat \<bar>int_value True (- 42 :: u32)\<bar>) = Some ''0x2a''"
    by (simp add: int_body_def int_value_def type_radix_def fs_hash_flag_def HASH_FLAG_def)
  have lay: "spec_layout ?spec (sign_text (int_sign True (- 42 :: u32) ?spec)) ''0x2a'' = ''-0000x2a''"
    by (simp add: spec_layout_def int_layout_def int_sign_def IsNegative_def replicate_2_3)
  show ?thesis
    using FormatInt_refines [of new_writer True "- 42 :: u32" ?spec] body lay by simp
qed

text \<open>
  Reading back what \<open>FormatInt\<close> prints in base 16, 8 or 2 gives the value that was printed.
\<close>

theorem FormatInt_radix_roundtrip:
  fixes v :: "'a::len word"
  assumes "LENGTH('a) \<le> 64" and "type_radix t = Some r"
  shows "\<exists>w' s. FormatInt False v (TypeSpec t) new_writer = Inr w' \<and> writer_str w' = Inr s
           \<and> radix_value (2 ^ radix_shift r) 0 s = unat v"
proof -
  have "t \<noteq> NUL" and "t \<noteq> CHR ''d''" using assms(2) by (auto simp: type_radix_def)
  then have "int_body (TypeSpec t) (nat \<bar>int_value False v\<bar>) = Some (radix_string r (unat v))"
    using assms(2) by (simp add: int_body_def int_value_def)
  then obtain w' where w': "FormatInt False v (TypeSpec t) new_writer = Inr w'"
    "cells w' = map Some (radix_string r (unat v))"
    using FormatInt_ok [OF arr_ok_new_writer assms(1), where spec = "TypeSpec t" and is_signed = False and v = v]
    by (auto simp: int_sign_def IsNegative_def spec_layout_def int_layout_def)
  then have "writer_str w' = Inr (radix_string r (unat v))"
    by (simp add: writer_str_def read_cells_def comp_def image_iff)
  with w'(1) radix_string_value [of r "unat v"] show ?thesis by blast
qed

theorem FormatInt_radix_roundtrip_witness:
  "\<exists>w' s. FormatInt False (51966 :: u32) (TypeSpec (CHR ''x'')) new_writer = Inr w'
     \<and> writer_str w' = Inr s \<and> radix_value 16 0 s = 51966"
  using FormatInt_radix_roundtrip [of "CHR ''x''" "RHex False" "51966 :: u32"]
  by (simp add: type_radix_def)

subsection \<open>Strings\<close>

lemma put_string_writes:
  assumes "length gap = max (unat (sp_width spec)) (length s)"
  shows "put_string s spec (int (length pre)) (pre @ gap @ rest)
    = Inr (int (length pre + str_left spec (length s)), pre @ map Some (str_layout spec s) @ rest)"
proof -
  define f where "f = char_of_wchar (sp_fill spec)"
  define k where "k = unat (sp_width spec) - length s"
  have w64: "unat (sp_width spec) < 2 ^ 64" using unat_u32_less [of "sp_width spec"] by simp
  consider "k = 0" | "0 < k" "sp_align spec = ALIGN_RIGHT" | "0 < k" "sp_align spec = ALIGN_CENTER"
    | "0 < k" "sp_align spec \<noteq> ALIGN_RIGHT" "sp_align spec \<noteq> ALIGN_CENTER" by auto
  then show ?thesis
  proof cases
    case 1
    have "put_string s spec (int (length pre)) (pre @ gap @ rest)
        = Inr (int (length pre), pre @ map Some s @ rest)"
      using 1 assms copy_in_piece [of "int (length pre)" pre gap s rest]
      by (simp add: put_string_def Let_def k_def)
    moreover have "str_layout spec s = s" using 1 by (simp add: str_layout_def Let_def k_def)
    ultimately show ?thesis using 1 by (simp add: str_left_def Let_def k_def)
  next
    case 2
    obtain x y z where g: "gap = x @ y @ z" "length x = k" "length y = length s" "length z = 0"
      using assms 2(1) by (auto intro: split3 [of gap k "length s" 0] simp: k_def)
    have "put_string s spec (int (length pre)) (pre @ gap @ rest)
        = Inr (int (length pre + k), pre @ map Some (replicate k f @ s) @ rest)"
    proof -
      have gt: "length s < unat (sp_width spec)" using 2(1) by (simp add: k_def)
      have fill: "fill_n (int (length pre)) k f (pre @ gap @ rest)
          = Inr ((pre @ map Some (replicate k f)) @ y @ rest)"
        using g fill_n_piece [of "int (length pre)" pre x k f "y @ rest"] by simp
      have copy: "copy_in s (int (length pre) + int k) ((pre @ map Some (replicate k f)) @ y @ rest)
          = Inr ((pre @ map Some (replicate k f)) @ map Some s @ rest)"
        by (rule copy_in_piece) (simp_all add: g(3))
      show ?thesis
        using copy
        by (simp only: put_string_def Let_def gt 2(2) f_def [symmetric] k_def [symmetric] fill
            ebind_simps prod.case if_True) simp
    qed
    moreover have "str_layout spec s = replicate k f @ s" using 2 by (simp add: str_layout_def Let_def k_def f_def)
    moreover have "str_left spec (length s) = k" using 2 by (simp add: str_left_def Let_def k_def)
    ultimately show ?thesis by (simp only:)
  next
    case 3
    let ?l = "replicate (k div 2) f" and ?r = "replicate (k - k div 2) f"
    have "length gap = k div 2 + length s + (k - k div 2)" using assms 3(1) by (simp add: k_def)
    then obtain x y z where g: "gap = x @ y @ z" "length x = k div 2" "length y = length s" "length z = k - k div 2"
      by (rule split3)
    have le: "length s \<le> unat (sp_width spec)" using 3(1) by (simp add: k_def)
    have pad: "FillPadding (int (length pre)) (unat (sp_width spec)) (length s) (wchar_of_char f) (pre @ gap @ rest)
        = Inr (int (length pre + k div 2), (pre @ map Some ?l) @ y @ (map Some ?r @ rest))"
      unfolding g(1)
      using FillPadding_pieces [OF w64 le k_def g(2) g(3) g(4), of pre "wchar_of_char f" rest]
      by (simp only: char_of_wchar_of_char append_assoc)
    have cp: "copy_in s (int (length pre + k div 2)) ((pre @ map Some ?l) @ y @ (map Some ?r @ rest))
        = Inr ((pre @ map Some ?l) @ map Some s @ (map Some ?r @ rest))"
      by (rule copy_in_piece) (simp_all add: g(3))
    have gt: "(length s < unat (sp_width spec)) = True" using 3(1) by (simp add: k_def)
    have "put_string s spec (int (length pre)) (pre @ gap @ rest)
        = Inr (int (length pre + k div 2), (pre @ map Some ?l) @ map Some s @ (map Some ?r @ rest))"
      by (simp only: put_string_def Let_def gt 3(2) f_def [symmetric] pad cp ebind_simps prod.case
          Alignment.distinct if_True if_False simp_thms)
    moreover have "str_layout spec s = ?l @ s @ ?r"
      using 3 by (simp add: str_layout_def Let_def k_def f_def)
    moreover have "str_left spec (length s) = k div 2" using 3 by (simp add: str_left_def Let_def k_def)
    ultimately show ?thesis by (simp only: map_append append_assoc)
  next
    case 4
    obtain x y z where g: "gap = x @ y @ z" "length x = length s" "length y = k" "length z = 0"
      using assms 4(1) by (auto intro: split3 [of gap "length s" k 0] simp: k_def)
    have "put_string s spec (int (length pre)) (pre @ gap @ rest)
        = Inr (int (length pre), pre @ map Some (s @ replicate k f) @ rest)"
      using 4 g fill_n_piece [of "int (length pre + length s)" "pre @ x" y k f rest]
        copy_in_piece [of "int (length pre)" pre x s "map Some (replicate k f) @ rest"]
      by (simp add: put_string_def Let_def k_def f_def)
    moreover have "str_layout spec s = s @ replicate k f" using 4 by (simp add: str_layout_def Let_def k_def f_def)
    ultimately show ?thesis using 4 by (simp add: str_left_def Let_def k_def)
  qed
qed

lemma str_layout_split:
  "str_layout spec s = replicate (str_left spec (length s)) (char_of_wchar (sp_fill spec)) @ s
     @ replicate (unat (sp_width spec) - length s - str_left spec (length s)) (char_of_wchar (sp_fill spec))"
  by (simp add: str_layout_def str_left_def Let_def)

lemma FormatString_ok:
  assumes "arr_ok w"
  obtains w' where "FormatString s spec w = Inr (int (length (cells w) + str_left spec (length s)), w')"
    and "arr_ok w'" and "cells w' = cells w @ map Some (str_layout spec s)"
proof -
  let ?n = "if unat (sp_width spec) > length s then unat (sp_width spec) else length s"
  let ?q = "int (length (cells w) + str_left spec (length s))"
  obtain w1 gap where w1: "GrowBuffer ?n w = Inr (int (length (cells w)), w1)" "arr_ok w1"
    "cells w1 = cells w @ gap" "length gap = ?n"
    using assms by (rule GrowBuffer_ok)
  then have gap: "length gap = max (unat (sp_width spec)) (length s)" by simp
  have out: "cells w1 = cells w @ gap @ []" using w1(3) by simp
  have len: "length (map Some (str_layout spec s)) = length gap"
    using gap by (auto simp: str_layout_def Let_def)
  have "\<exists>w2. on_storage (put_string s spec (int (length (cells w)))) w1 = Inr (?q, w2) \<and> arr_ok w2
      \<and> cells w2 = cells w @ map Some (str_layout spec s) @ []"
    by (rule arr_buf.edit_law [OF w1(2) out len]) (simp add: put_string_writes [OF gap] del: of_nat_add)
  then show ?thesis using w1(1) by (auto simp: FormatString_def intro: that)
qed

text \<open>
  \<open>FormatString\<close> appends the string padded to the requested width (to the left only with
  right alignment, on both sides when centred, else to the right) and returns a pointer to the
  first character of the string inside the padding.
\<close>

theorem FormatString_refines:
  assumes "arr_ok w"
  shows "\<exists>p w'. FormatString s spec w = Inr (p, w') \<and> arr_ok w'
           \<and> cells w' = cells w @ map Some (str_layout spec s)
           \<and> take (length s) (drop (nat p) (cells w')) = map Some s"
proof -
  obtain w' where w': "FormatString s spec w = Inr (int (length (cells w) + str_left spec (length s)), w')"
    "arr_ok w'" "cells w' = cells w @ map Some (str_layout spec s)"
    using assms by (rule FormatString_ok)
  have "take (length s) (drop (length (cells w) + str_left spec (length s)) (cells w')) = map Some s"
    unfolding w'(3) str_layout_split by simp
  with w' show ?thesis by (metis nat_int)
qed

theorem FormatString_refines_witness:
  "\<exists>p w'. FormatString ''abc'' \<lparr>sp_width = 8, sp_fill = 42, sp_align = ALIGN_CENTER\<rparr> new_writer = Inr (p, w')
     \<and> cells w' = map Some ''**abc***''"
proof -
  have "str_layout \<lparr>sp_width = 8, sp_fill = 42, sp_align = ALIGN_CENTER\<rparr> ''abc'' = ''**abc***''"
    by (simp add: str_layout_def Let_def replicate_2_3)
  with FormatString_refines [OF arr_ok_new_writer, of "''abc''" "\<lparr>sp_width = 8, sp_fill = 42, sp_align = ALIGN_CENTER\<rparr>"]
  show ?thesis by auto
qed

subsection \<open>Characters, string references, terminated text\<close>

lemma grow_copy_ok:
  assumes "arr_ok w" and "length s = n"
  obtains w1 w2 where "GrowBuffer n w = Inr (int (length (cells w)), w1)"
    and "with_storage (copy_in s (int (length (cells w)))) w1 = Inr w2" and "arr_ok w2"
    and "cells w2 = cells w @ map Some s"
proof -
  obtain w1 gap where w1: "GrowBuffer n w = Inr (int (length (cells w)), w1)" "arr_ok w1"
    "cells w1 = cells w @ gap" "length gap = n"
    using assms(1) by (rule GrowBuffer_ok)
  have out: "cells w1 = cells w @ gap @ []" using w1(3) by simp
  have len: "length (map Some s) = length gap" using w1(4) assms(2) by simp
  obtain w2 where "with_storage (copy_in s (int (length (cells w)))) w1 = Inr w2" "arr_ok w2"
    "cells w2 = cells w @ map Some s @ []"
    using with_storage_inside [OF w1(2) out len, of "copy_in s (int (length (cells w)))"]
      copy_in_piece [of _ "cells w" gap s] w1(4) assms(2) by auto
  with w1 show ?thesis by (intro that) simp_all
qed

lemma put_char_ok:
  assumes "arr_ok w"
  obtains w' where "put_char c w = Inr w'" and "arr_ok w'" and "cells w' = cells w @ [Some c]"
proof -
  obtain w1 w2 where w: "GrowBuffer 1 w = Inr (int (length (cells w)), w1)"
    "with_storage (copy_in [c] (int (length (cells w)))) w1 = Inr w2" "arr_ok w2"
    "cells w2 = cells w @ map Some [c]"
    using grow_copy_ok [OF assms, of "[c]" 1] by auto
  have "copy_in [c] = (\<lambda>p. mstore p c)" by (simp add: copy_in_def mstore_def fun_eq_iff)
  with w show ?thesis by (intro that [of w2]) (simp_all add: put_char_def)
qed

lemma put_ref_ok:
  assumes "arr_ok w" and "StringRef_str r = Inr s"
  obtains w' where "put_ref r w = Inr w'" and "arr_ok w'" and "cells w' = cells w @ map Some s"
proof -
  obtain n r' where r: "StringRef_size r = Inr (n, r')" "read_chars (sr_data r') n = Inr s"
    using assms(2) by (auto simp: StringRef_str_def ebind_Inr_iff)
  then have "length s = n" by (auto simp: read_chars_def split: option.splits if_splits)
  then obtain w1 w2 where w: "GrowBuffer n w = Inr (int (length (cells w)), w1)"
    "with_storage (copy_in s (int (length (cells w)))) w1 = Inr w2" "arr_ok w2"
    "cells w2 = cells w @ map Some s"
    using grow_copy_ok [OF assms(1), of s n] by auto
  with r show ?thesis by (intro that [of w2]) (simp_all add: put_ref_def)
qed

lemma read_cells_Some [simp]: "read_cells (map Some s) = Inr s"
  by (simp add: read_cells_def comp_def image_iff)

lemma writer_c_str_ok:
  assumes "arr_ok w" and "cells w = map Some s"
  shows "\<exists>w'. writer_c_str w = Inr (c_text s, w') \<and> arr_ok w' \<and> cells w' = map Some s
           \<and> storage w' ! length s = Some NUL"
proof -
  obtain w1 where w1: "reserve (a_size w + 1) w = Inr w1" "arr_ok w1" "cells w1 = cells w"
    "a_size w1 = a_size w" "a_size w + 1 \<le> a_capacity w1"
    using assms(1) by (rule reserve_ok)
  have len: "a_size w = length s" using length_cells [OF assms(1)] assms(2) by simp
  have cap: "length s < length (storage w1)" using w1(2,5) len by (simp add: arr_ok_def)
  let ?m = "(storage w1)[length s := Some NUL]"
  have store: "mstore (int (length s)) NUL (storage w1) = Inr ?m"
    using cap by (simp add: mstore_def mwrite_def overwrite_single)
  have c: "cells (set_storage ?m w1) = map Some s"
    using w1(3,4) assms(2) len by (simp add: cells_def)
  have "arr_ok (set_storage ?m w1)" using w1(2) by (simp add: arr_ok_def)
  moreover have "writer_c_str w = Inr (c_text s, set_storage ?m w1)"
    using w1(1) store c len by (simp add: writer_c_str_def with_storage_def)
  ultimately show ?thesis using c cap by simp
qed

text \<open>
  \<open>c_str\<close> on a writer whose cells are all initialised returns the text up to its first NUL
  and leaves the writer's contents as they were: the terminator goes behind the contents, into
  a cell the buffer has or is grown by.
\<close>

theorem writer_c_str_text:
  assumes "arr_ok w" and "cells w = map Some s"
  shows "\<exists>w'. writer_c_str w = Inr (c_text s, w') \<and> arr_ok w' \<and> cells w' = map Some s
           \<and> storage w' ! length s = Some NUL"
  using assms by (rule writer_c_str_ok)

theorem writer_c_str_text_witness:
  "\<exists>w'. writer_c_str \<lparr>a_size = 2, a_capacity = 2, a_ptr = None, a_data = map Some ''ok''\<rparr> = Inr (''ok'', w')
     \<and> storage w' ! 2 = Some NUL"
proof -
  let ?w = "\<lparr>a_size = 2, a_capacity = 2, a_ptr = None, a_data = map Some ''ok''\<rparr>"
  have "arr_ok ?w" and "cells ?w = map Some ''ok''"
    by (simp_all add: arr_ok_def cells_def storage_def)
  from writer_c_str_text [OF this] show ?thesis by (auto simp: c_text_def numeral_2_eq_2)
qed

end
