(* ===== verification/Fmt_Double.thy ===== *)
theory Fmt_Double
  imports Fmt_Writer
begin

unbundle bit_operations_syntax

text \<open>
  The floating-point part of \<open>fmt::BasicWriter<char>\<close> (src/format.cc, \<open>FormatDouble\<close> and
  \<open>CharTraits<char>::FormatFloat\<close>). The argument type is a type variable; its primitive
  operations (sign bit, negation, comparison with itself, infinity test) and the digits that
  \<open>printf\<close> produces for it are the record \<open>fp\<close>. What \<open>snprintf\<close> does around the digits (parsing
  the conversion specification the code has built, taking \<open>*\<close> arguments, padding with spaces,
  truncating to the buffer, reporting the full length) is written out.

  The retry loop around \<open>snprintf\<close> has no bound in the code, so it runs on fuel; two rounds are
  enough whenever the conversion succeeds, and it never returns when the conversion always fails.
\<close>

subsection \<open>The C library\<close>

record 'd fp =
  fp_signbit :: "'d \<Rightarrow> bool"
  fp_neg :: "'d \<Rightarrow> 'd"
  fp_ne_self :: "'d \<Rightarrow> bool"
  fp_isinf :: "'d \<Rightarrow> bool"
  fp_conv :: "bool \<Rightarrow> int option \<Rightarrow> bool \<Rightarrow> char \<Rightarrow> 'd \<Rightarrow> string option"

text \<open>
  A conversion specification: the \<open>#\<close> and \<open>-\<close> flags, a \<open>*\<close> width, a \<open>.*\<close> precision, the \<open>L\<close>
  modifier and the conversion character. A negative width argument means left alignment, a
  negative precision argument no precision.
\<close>

definition eat :: "char \<Rightarrow> string \<Rightarrow> bool \<times> string" where
  "eat c s = (case s of [] \<Rightarrow> (False, s) | d # s' \<Rightarrow> if d = c then (True, s') else (False, s))"

definition star_arg :: "bool \<Rightarrow> int list \<Rightarrow> (int option \<times> int list) option" where
  "star_arg b args =
     (if b then (case args of [] \<Rightarrow> None | a # args' \<Rightarrow> Some (Some a, args')) else Some (None, args))"

definition spaces :: "nat \<Rightarrow> string" where
  "spaces n = replicate n (CHR '' '')"

definition printf_pad :: "bool \<Rightarrow> nat \<Rightarrow> string \<Rightarrow> string" where
  "printf_pad left width s = (if left then s @ spaces (width - length s) else spaces (width - length s) @ s)"

definition is_float_conv :: "char \<Rightarrow> bool" where
  "is_float_conv c \<longleftrightarrow> c \<in> set ''eEfFgG''"

text \<open>The outer option is \<open>None\<close> for a format and arguments that do not fit together.\<close>

definition printf_text :: "'d fp \<Rightarrow> string \<Rightarrow> int list \<Rightarrow> 'd \<Rightarrow> string option option" where
  "printf_text F fmt args value =
     (let (pct, s) = eat (CHR ''%'') fmt;
          (alt, s) = eat (CHR ''#'') s;
          (left, s) = eat (CHR ''-'') s;
          (wstar, s) = eat (CHR ''*'') s;
          (dot, s) = eat (CHR ''.'') s;
          (pstar, s) = (if dot then eat (CHR ''*'') s else (False, s));
          (long, s) = eat (CHR ''L'') s
      in case star_arg wstar args of
           None \<Rightarrow> None
         | Some (width, args) \<Rightarrow>
           (case star_arg pstar args of
              None \<Rightarrow> None
            | Some (prec, args) \<Rightarrow>
              (case s of
                 [conv] \<Rightarrow>
                   (if pct \<and> (dot \<longrightarrow> pstar) \<and> args = [] \<and> is_float_conv conv
                    then Some (map_option
                           (printf_pad (left \<or> (case width of Some w \<Rightarrow> w < 0 | None \<Rightarrow> False))
                                       (case width of Some w \<Rightarrow> nat \<bar>w\<bar> | None \<Rightarrow> 0))
                           (fp_conv F alt (case prec of Some p \<Rightarrow> if p < 0 then None else Some p | None \<Rightarrow> None)
                              long conv value))
                    else None)
               | _ \<Rightarrow> None)))"

text \<open>
  \<open>snprintf\<close> writes at most \<open>size - 1\<close> characters and a terminator, and returns the length of the
  whole text, or a negative number when the conversion fails or the length is not an \<open>int\<close>.
\<close>

definition snprintf_out :: "string option \<Rightarrow> int \<Rightarrow> nat \<Rightarrow> char mem \<Rightarrow> (int \<times> char mem) res" where
  "snprintf_out r buffer n m =
     (case r of
        None \<Rightarrow> Inr (-1, m)
      | Some t \<Rightarrow>
          if length t > INT_MAX then Inr (-1, m)
          else if n = 0 then Inr (int (length t), m)
          else ebind (mwrite buffer (map Some (take (n - 1) t) @ [Some NUL]) m)
                 (\<lambda>m. Inr (int (length t), m)))"

definition snprintf ::
  "'d fp \<Rightarrow> int \<Rightarrow> nat \<Rightarrow> string \<Rightarrow> int list \<Rightarrow> 'd \<Rightarrow> char mem \<Rightarrow> (int \<times> char mem) res" where
  "snprintf F buffer n format args value m =
     (case printf_text F format args value of
        None \<Rightarrow> Inl (Undefined BadPrintf)
      | Some r \<Rightarrow> snprintf_out r buffer n m)"

text \<open>
  \<open>std::copy\<close> of plain characters inside one buffer: its contract excludes a destination that
  lies in the source range.
\<close>

definition std_copy :: "int \<Rightarrow> int \<Rightarrow> int \<Rightarrow> 'a mem \<Rightarrow> 'a mem res" where
  "std_copy p q r m =
     (if q \<le> p then Inr m
      else if p \<le> r \<and> r < q then Inl (Undefined OverlappingCopy)
      else if 0 \<le> p \<and> nat q \<le> length m
           then mwrite r (take (nat (q - p)) (drop (nat p) m)) m
      else Inl (Undefined OutOfBounds))"

subsection \<open>FormatDouble\<close>

definition FormatFloat ::
  "'d fp \<Rightarrow> int \<Rightarrow> nat \<Rightarrow> string \<Rightarrow> u32 \<Rightarrow> int \<Rightarrow> 'd \<Rightarrow> char mem \<Rightarrow> (int \<times> char mem) res" where
  "FormatFloat F buffer n format width precision value m =
     (if width = 0 then
        (if precision < 0 then snprintf F buffer n format [] value m
         else snprintf F buffer n format [precision] value m)
      else
        (if precision < 0 then snprintf F buffer n format [sint width] value m
         else snprintf F buffer n format [sint width, precision] value m))"

definition double_type :: "char \<Rightarrow> (char \<times> bool) res" where
  "double_type type =
     (if type = NUL then Inr (CHR ''g'', False)
      else if type \<in> set ''efg'' then Inr (type, False)
      else if type \<in> set ''FEG'' then Inr (type, True)
      else Inl (ReportUnknownType type ''double''))"

definition MAX_FORMAT_SIZE :: nat where
  "MAX_FORMAT_SIZE = 10"

text \<open>The format string (with the width the \<open>*\<close> stands for), built in an array of fixed size.\<close>

definition build_format :: "bool \<Rightarrow> FormatSpec \<Rightarrow> u32 \<Rightarrow> int \<Rightarrow> char \<Rightarrow> (string \<times> u32) res" where
  "build_format is_long spec width precision type =
     (let centre = (sp_align spec = ALIGN_CENTER);
          format = ''%'' @ (if fs_hash_flag spec then ''#'' else '''')
            @ (if centre then ''''
               else (if sp_align spec = ALIGN_LEFT then ''-'' else '''') @ (if width \<noteq> 0 then ''*'' else ''''))
            @ (if precision \<ge> 0 then ''.*'' else '''')
            @ (if is_long then ''L'' else '''') @ [type]
      in if length format + 1 \<le> MAX_FORMAT_SIZE then Inr (format, if centre then 0 else width)
         else Inl (Undefined OutOfBounds))"

text \<open>The sign goes in front of the text, or the fill does when the sign has to wait.\<close>

definition place_sign :: "Alignment \<Rightarrow> char \<Rightarrow> char \<Rightarrow> int \<Rightarrow> char mem \<Rightarrow> (char \<times> char mem) res" where
  "place_sign align fill sign start m =
     (if align \<noteq> ALIGN_RIGHT \<and> align \<noteq> ALIGN_DEFAULT then
        ebind (mstore (start - 1) sign m) (\<lambda>m. Inr (NUL, m))
      else
        ebind (mload start m) (\<lambda>c.
        if c \<noteq> CHR '' '' then ebind (mstore (start - 1) sign m) (\<lambda>m. Inr (NUL, m))
        else ebind (mstore (start - 1) fill m) (\<lambda>m. Inr (sign, m))))"

function fill_spaces :: "char \<Rightarrow> int \<Rightarrow> char mem \<Rightarrow> (int \<times> char mem) res" where
  "fill_spaces fill start m =
     ebind (mload start m) (\<lambda>c.
     if c = CHR '' '' then ebind (mstore start fill m) (\<lambda>m. fill_spaces fill (start + 1) m)
     else Inr (start, m))"
  by pat_completeness auto
termination
proof (relation "measure (\<lambda>(f, p, m). nat (int (length m) - p))")
  fix fill :: char and start :: int and m x and y :: "char mem"
  assume "mload start m = Inr x" and "mstore start fill m = Inr y"
  then show "((fill, start + 1, y), (fill, start, m)) \<in> measure (\<lambda>(f, p, m). nat (int (length m) - p))"
    using mwrite_length [of start "[Some fill]" m y]
    by (auto simp: mload_def mstore_def split: if_splits)
qed simp

declare fill_spaces.simps [simp del]

text \<open>What follows a call of \<open>snprintf\<close> whose text (of length \<open>n\<close>, at \<open>start\<close>) fits.\<close>

definition FormatDouble_finish :: "FormatSpec \<Rightarrow> char \<Rightarrow> int \<Rightarrow> nat \<Rightarrow> writer \<Rightarrow> writer res" where
  "FormatDouble_finish spec sign start n w =
     (let fill = char_of_wchar (sp_fill spec); width = unat (sp_width spec)
      in ebind
           (if sign \<noteq> NUL then
              ebind (on_storage (place_sign (sp_align spec) fill sign start) w) (\<lambda>(sign, w).
              Inr (sign, n + 1, w))
            else Inr (sign, n, w)) (\<lambda>(sign, n, w).
         if sp_align spec = ALIGN_CENTER \<and> width > n then
           ebind (GrowBuffer width w) (\<lambda>(p, w).
           ebind (with_storage (std_copy p (p + int n) (p + int ((width - n) div 2))) w) (\<lambda>w.
           ebind (on_storage (FillPadding p width n (wchar_of_char fill)) w) (\<lambda>(p, w). Inr w)))
         else
           ebind
             (if sp_fill spec \<noteq> 32 \<or> sign \<noteq> NUL then
                with_storage (\<lambda>m.
                  ebind (fill_spaces fill start m) (\<lambda>(start, m).
                  if sign \<noteq> NUL then mstore (start - 1) sign m else Inr m)) w
              else Inr w) (\<lambda>w.
           ebind (GrowBuffer n w) (\<lambda>(p, w). Inr w))))"

text \<open>The \<open>for (;;)\<close> around \<open>snprintf\<close>; \<open>None\<close> when the fuel runs out.\<close>

fun FormatDouble_loop ::
  "nat \<Rightarrow> 'd fp \<Rightarrow> 'd \<Rightarrow> FormatSpec \<Rightarrow> int \<Rightarrow> string \<Rightarrow> u32 \<Rightarrow> char \<Rightarrow> nat \<Rightarrow> writer \<Rightarrow> writer res option" where
  "FormatDouble_loop 0 F value spec precision format width sign offset w = None"
| "FormatDouble_loop (Suc fuel) F value spec precision format width sign offset w =
     (case on_storage (FormatFloat F (int offset) (a_capacity w - offset) format width precision value) w of
        Inl e \<Rightarrow> Some (Inl e)
      | Inr (n, w) \<Rightarrow>
          if n \<ge> 0 \<and> offset + nat n < a_capacity w
          then Some (FormatDouble_finish spec sign (int offset) (nat n) w)
          else (case reserve (if n \<ge> 0 then offset + nat n + 1 else a_capacity w + 1) w of
                  Inl e \<Rightarrow> Some (Inl e)
                | Inr w \<Rightarrow> FormatDouble_loop fuel F value spec precision format width sign offset w))"

definition put_special :: "string \<Rightarrow> char \<Rightarrow> FormatSpec \<Rightarrow> writer \<Rightarrow> writer res" where
  "put_special name sign spec w =
     ebind (FormatString (if sign = NUL then name else CHR '' '' # name) (AlignSpec.truncate spec) w)
       (\<lambda>(out, w). if sign \<noteq> NUL then with_storage (mstore out sign) w else Inr w)"

definition FormatDouble ::
  "nat \<Rightarrow> 'd fp \<Rightarrow> bool \<Rightarrow> 'd \<Rightarrow> FormatSpec \<Rightarrow> int \<Rightarrow> writer \<Rightarrow> writer res option" where
  "FormatDouble fuel F is_long value spec precision w =
     (case double_type (sp_type spec) of
        Inl e \<Rightarrow> Some (Inl e)
      | Inr (type, upper) \<Rightarrow>
        (let (sign, value) =
           (if fp_signbit F value then (CHR ''-'', fp_neg F value)
            else if fs_sign_flag spec then (if fs_plus_flag spec then CHR ''+'' else CHR '' '', value)
            else (NUL, value))
         in if fp_ne_self F value then
              Some (put_special (if upper then ''NAN'' else ''nan'') sign spec w)
            else if fp_isinf F value then
              Some (put_special (if upper then ''INF'' else ''inf'') sign spec w)
            else
              (case (if sign \<noteq> NUL then reserve (a_size w + max (unat (sp_width spec)) 1) w else Inr w) of
                 Inl e \<Rightarrow> Some (Inl e)
               | Inr w \<Rightarrow>
                 (let offset = a_size w + (if sign \<noteq> NUL then 1 else 0);
                      width = (if sign \<noteq> NUL \<and> sp_width spec > 0 then sp_width spec - 1 else sp_width spec)
                  in case build_format is_long spec width precision type of
                       Inl e \<Rightarrow> Some (Inl e)
                     | Inr (format, width_for_sprintf) \<Rightarrow>
                         FormatDouble_loop fuel F value spec precision format width_for_sprintf
                           sign offset w))))"

text \<open>\<open>operator<<\<close> for \<open>double\<close> and \<open>long double\<close>.\<close>

definition put_double :: "nat \<Rightarrow> 'd fp \<Rightarrow> bool \<Rightarrow> 'd \<Rightarrow> writer \<Rightarrow> writer res option" where
  "put_double fuel F is_long value w = FormatDouble fuel F is_long value new_FormatSpec (-1) w"

subsection \<open>NaN and infinity\<close>

lemma put_special_ok:
  assumes "arr_ok w"
  obtains w' where "put_special name sign spec w = Inr w'" and "arr_ok w'"
    and "cells w' = cells w @ map Some (str_layout (AlignSpec.truncate spec) (sign_text sign @ name))"
proof (cases "sign = NUL")
  case True
  obtain w1 p where "FormatString name (AlignSpec.truncate spec) w = Inr (p, w1)" "arr_ok w1"
    "cells w1 = cells w @ map Some (str_layout (AlignSpec.truncate spec) name)"
    using assms by (rule FormatString_ok)
  with True show ?thesis by (intro that [of w1]) (simp_all add: put_special_def)
next
  case False
  let ?sp = "AlignSpec.truncate spec" and ?s = "CHR '' '' # name"
  let ?a = "str_left ?sp (length ?s)" and ?f = "char_of_wchar (sp_fill ?sp)"
  let ?b = "unat (sp_width ?sp) - length ?s - ?a"
  let ?pre = "cells w @ map Some (replicate ?a ?f)" and ?post = "map Some (name @ replicate ?b ?f)"
  obtain w1 where w1: "FormatString ?s ?sp w = Inr (int (length (cells w) + ?a), w1)" "arr_ok w1"
    "cells w1 = cells w @ map Some (str_layout ?sp ?s)"
    using assms by (rule FormatString_ok)
  have out: "cells w1 = ?pre @ [Some (CHR '' '')] @ ?post" unfolding w1(3) str_layout_split by simp
  obtain w2 where w2: "with_storage (mstore (int (length (cells w) + ?a)) sign) w1 = Inr w2" "arr_ok w2"
    "cells w2 = ?pre @ [Some sign] @ ?post"
    by (rule with_storage_inside [OF w1(2) out, of "[Some sign]" "mstore (int (length (cells w) + ?a)) sign"])
      (use mstore_piece [of "int (length (cells w) + ?a)" ?pre sign] in \<open>simp_all add: del: of_nat_add\<close>)
  have "str_layout ?sp (sign # name) = replicate ?a ?f @ sign # name @ replicate ?b ?f"
    by (simp add: str_layout_split)
  with w1 w2 False show ?thesis by (intro that [of w2]) (simp_all add: put_special_def)
qed

text \<open>The sign a value is printed with, and the value that is then converted.\<close>

definition double_sign :: "'d fp \<Rightarrow> 'd \<Rightarrow> FormatSpec \<Rightarrow> char" where
  "double_sign F value spec =
     (if fp_signbit F value then CHR ''-''
      else if fs_sign_flag spec then if fs_plus_flag spec then CHR ''+'' else CHR '' '' else NUL)"

definition double_abs :: "'d fp \<Rightarrow> 'd \<Rightarrow> 'd" where
  "double_abs F value = (if fp_signbit F value then fp_neg F value else value)"

lemma FormatDouble_unfold:
  "FormatDouble fuel F is_long value spec precision w =
     (case double_type (sp_type spec) of
        Inl e \<Rightarrow> Some (Inl e)
      | Inr (type, upper) \<Rightarrow>
        (let sign = double_sign F value spec; value = double_abs F value
         in if fp_ne_self F value then
              Some (put_special (if upper then ''NAN'' else ''nan'') sign spec w)
            else if fp_isinf F value then
              Some (put_special (if upper then ''INF'' else ''inf'') sign spec w)
            else
              (case (if sign \<noteq> NUL then reserve (a_size w + max (unat (sp_width spec)) 1) w else Inr w) of
                 Inl e \<Rightarrow> Some (Inl e)
               | Inr w \<Rightarrow>
                 (let offset = a_size w + (if sign \<noteq> NUL then 1 else 0);
                      width = (if sign \<noteq> NUL \<and> sp_width spec > 0 then sp_width spec - 1 else sp_width spec)
                  in case build_format is_long spec width precision type of
                       Inl e \<Rightarrow> Some (Inl e)
                     | Inr (format, width_for_sprintf) \<Rightarrow>
                         FormatDouble_loop fuel F value spec precision format width_for_sprintf
                           sign offset w))))"
  by (simp add: FormatDouble_def double_sign_def double_abs_def Let_def split: sum.split prod.split)

text \<open>Numbers for the witnesses: an integer stands for itself with one decimal.\<close>

definition tenths :: "int fp" where
  "tenths = \<lparr>fp_signbit = (\<lambda>x. x < 0), fp_neg = uminus, fp_ne_self = (\<lambda>x. False), fp_isinf = (\<lambda>x. 1000 < x),
     fp_conv = (\<lambda>alt prec long c x. if prec = Some 99 then None else Some (signed_dec x @ ''.0''))\<rparr>"

text \<open>
  NaN and infinity are printed as the sign and a fixed word (in capitals for the capital
  format codes), padded and aligned like a string, whatever the precision and without touching
  the C library; an unknown format code throws instead.
\<close>

theorem FormatDouble_special:
  assumes "arr_ok w" and "fp_ne_self F (double_abs F value) \<or> fp_isinf F (double_abs F value)"
  shows "case double_type (sp_type spec) of
      Inl e \<Rightarrow> FormatDouble fuel F is_long value spec precision w = Some (Inl e)
    | Inr (type, upper) \<Rightarrow> (\<exists>w'. FormatDouble fuel F is_long value spec precision w = Some (Inr w') \<and> arr_ok w'
        \<and> cells w' = cells w @ map Some (str_layout (AlignSpec.truncate spec)
             (sign_text (double_sign F value spec)
              @ (if fp_ne_self F (double_abs F value) then if upper then ''NAN'' else ''nan''
                 else if upper then ''INF'' else ''inf''))))"
proof (cases "double_type (sp_type spec)")
  case (Inr tu)
  obtain type upper where tu: "tu = (type, upper)" by (cases tu)
  let ?name = "if fp_ne_self F (double_abs F value) then if upper then ''NAN'' else ''nan''
                 else if upper then ''INF'' else ''inf''"
  obtain w' where "put_special ?name (double_sign F value spec) spec w = Inr w'" "arr_ok w'"
    "cells w' = cells w @ map Some (str_layout (AlignSpec.truncate spec)
       (sign_text (double_sign F value spec) @ ?name))"
    using assms(1) by (rule put_special_ok)
  then show ?thesis
    using assms(2) by (auto simp: FormatDouble_unfold Let_def Inr tu split: if_splits)
qed (simp add: FormatDouble_unfold)

theorem FormatDouble_special_witness:
  "\<exists>w'. FormatDouble 0 tenths False 2000 \<lparr>sp_width = 5, sp_fill = 42, sp_align = ALIGN_RIGHT,
      sp_flags = SIGN_FLAG + PLUS_FLAG, sp_type = CHR ''G''\<rparr> 3 new_writer = Some (Inr w')
     \<and> cells w' = map Some ''*+INF''"
proof -
  let ?spec = "\<lparr>sp_width = 5, sp_fill = 42, sp_align = ALIGN_RIGHT, sp_flags = SIGN_FLAG + PLUS_FLAG, sp_type = CHR ''G''\<rparr>"
  have inf: "fp_ne_self tenths (double_abs tenths 2000) \<or> fp_isinf tenths (double_abs tenths 2000)"
    and nan: "\<not> fp_ne_self tenths (double_abs tenths 2000)"
    by (simp_all add: tenths_def double_abs_def)
  have sign: "double_sign tenths 2000 ?spec = CHR ''+''"
    by (simp add: double_sign_def tenths_def fs_sign_flag_def fs_plus_flag_def SIGN_FLAG_def PLUS_FLAG_def)
  have lay: "str_layout (AlignSpec.truncate ?spec) ''+INF'' = ''*+INF''"
    by (simp add: str_layout_def Let_def AlignSpec.truncate_def)
  show ?thesis
    using FormatDouble_special [OF arr_ok_new_writer inf, where spec = ?spec and fuel = 0 and is_long = False and precision = 3] lay
    by (auto simp: double_type_def sign nan)
qed

subsection \<open>Placing sign and fill around the text of snprintf\<close>

lemma mload_piece: "p = int (length pre) \<Longrightarrow> mload p (pre @ Some x # post) = Inr x"
  by (simp add: mload_def)

lemma fill_spaces_run:
  "x \<noteq> CHR '' '' \<Longrightarrow>
   fill_spaces f (int (length pre)) (pre @ replicate k (Some (CHR '' '')) @ Some x # rest)
     = Inr (int (length pre + k), pre @ replicate k (Some f) @ Some x # rest)"
proof (induction k arbitrary: pre)
  case 0
  then show ?case by (subst fill_spaces.simps) (simp add: mload_piece)
next
  case (Suc k)
  have "fill_spaces f (int (length pre)) (pre @ replicate (Suc k) (Some (CHR '' '')) @ Some x # rest)
      = fill_spaces f (int (length (pre @ [Some f])))
          ((pre @ [Some f]) @ replicate k (Some (CHR '' '')) @ Some x # rest)"
    by (subst fill_spaces.simps) (simp add: mload_piece mstore_piece add.commute)
  also have "\<dots> = Inr (int (length (pre @ [Some f]) + k),
      (pre @ [Some f]) @ replicate k (Some f) @ Some x # rest)"
    using Suc by blast
  finally show ?case by simp
qed

lemma GrowBuffer_fits:
  "arr_ok w \<Longrightarrow> a_size w + n \<le> a_capacity w \<Longrightarrow>
   GrowBuffer n w = Inr (int (a_size w), w\<lparr>a_size := a_size w + n\<rparr>)"
  by (simp add: GrowBuffer_def resize_def)

definition double_cells :: "Alignment \<Rightarrow> char \<Rightarrow> char \<Rightarrow> nat \<Rightarrow> string \<Rightarrow> string" where
  "double_cells align sign f k body =
     (if align = ALIGN_RIGHT \<or> align = ALIGN_DEFAULT then replicate k f @ sign_text sign @ body
      else sign_text sign @ replicate k f @ body)"

lemma place_sign_result:
  assumes "d \<noteq> CHR '' ''" and "sign \<noteq> NUL"
  shows "place_sign align f sign (int (length base) + 1)
      (base @ x # replicate k (Some (CHR '' '')) @ Some d # rest)
    = (if (align = ALIGN_RIGHT \<or> align = ALIGN_DEFAULT) \<and> 0 < k
       then Inr (sign, base @ Some f # replicate k (Some (CHR '' '')) @ Some d # rest)
       else Inr (NUL, base @ Some sign # replicate k (Some (CHR '' '')) @ Some d # rest))"
proof -
  have load: "mload (int (length base) + 1) (base @ x # replicate k (Some (CHR '' '')) @ Some d # rest)
      = Inr (if 0 < k then CHR '' '' else d)"
  proof (cases k)
    case 0
    then show ?thesis using mload_piece [of "int (length base) + 1" "base @ [x]" d rest] by simp
  next
    case (Suc j)
    then show ?thesis
      using mload_piece [of "int (length base) + 1" "base @ [x]" "CHR '' ''"
          "replicate j (Some (CHR '' '')) @ Some d # rest"] by simp
  qed
  show ?thesis using assms load by (auto simp: place_sign_def mstore_piece)
qed

lemma finish_fill:
  assumes "d \<noteq> CHR '' ''" and "sign \<noteq> NUL \<Longrightarrow> 0 < k"
  shows "ebind (fill_spaces f (int (length pre)) (pre @ replicate k (Some (CHR '' '')) @ Some d # rest))
      (\<lambda>(start, m). if sign \<noteq> NUL then mstore (start - 1) sign m else Inr m)
    = Inr (pre @ map Some (if sign = NUL then replicate k f else replicate (k - 1) f @ [sign]) @ Some d # rest)"
proof (cases "sign = NUL")
  case False
  with assms(2) obtain j where k: "k = Suc j" by (cases k) auto
  have "pre @ replicate k (Some f) @ Some d # rest = (pre @ replicate j (Some f)) @ Some f # Some d # rest"
    by (simp add: k replicate_append_same [symmetric])
  then have "mstore (int (length pre + k) - 1) sign (pre @ replicate k (Some f) @ Some d # rest)
      = Inr ((pre @ replicate j (Some f)) @ Some sign # Some d # rest)"
    using mstore_piece [of "int (length pre + k) - 1" "pre @ replicate j (Some f)" sign "Some f" "Some d # rest"]
    by (simp add: k)
  then have "mstore (int (length pre + k) - 1) sign (pre @ replicate k (Some f) @ Some d # rest)
      = Inr (pre @ map Some (replicate (k - 1) f @ [sign]) @ Some d # rest)" by (simp add: k)
  with False show ?thesis
    by (simp only: fill_spaces_run [OF assms(1)] ebind_simps prod.case not_False_eq_True if_True if_False)
qed (simp add: fill_spaces_run [OF assms(1)])

lemma FormatDouble_finish_ok:
  assumes ok: "arr_ok w" and sz: "a_size w = length base"
    and st: "storage w = base @ (if sign = NUL then [] else [x])
        @ replicate k (Some (CHR '' '')) @ Some d # map Some ds @ rest"
    and rest: "rest \<noteq> []" and d: "d \<noteq> CHR '' ''" and n: "n = k + Suc (length ds)"
    and narrow: "sp_align spec = ALIGN_CENTER \<Longrightarrow>
        unat (sp_width spec) \<le> n + (if sign = NUL then 0 else 1)"
  shows "\<exists>w'. FormatDouble_finish spec sign (int (length base) + (if sign = NUL then 0 else 1)) n w = Inr w'
    \<and> arr_ok w' \<and> cells w' = base @ map Some (double_cells (sp_align spec) sign
         (char_of_wchar (sp_fill spec)) k (d # ds))"
proof -
  let ?f = "char_of_wchar (sp_fill spec)" and ?a = "sp_align spec"
  let ?late = "(?a = ALIGN_RIGHT \<or> ?a = ALIGN_DEFAULT) \<and> 0 < k \<and> sign \<noteq> NUL"
  define sign1 where "sign1 = (if ?late then sign else NUL)"
  define pre where "pre = base @ (if sign = NUL then [] else if ?late then [Some ?f] else [Some sign])"
  define n1 where "n1 = (if sign = NUL then n else n + 1)"
  define w1 where "w1 = set_storage (pre @ replicate k (Some (CHR '' '')) @ Some d # map Some ds @ rest) w"
  define start where "start = int (length base) + (if sign = NUL then 0 else 1)"
  have len: "length (storage w1) = length (storage w)" unfolding w1_def st pre_def by simp
  have ok1: "arr_ok w1" and sz1: "a_size w1 = length base"
    using ok sz len unfolding arr_ok_def w1_def by simp_all
  have step1: "(if sign \<noteq> NUL then
        ebind (on_storage (place_sign ?a ?f sign start) w) (\<lambda>(sign, w). Inr (sign, n + 1, w))
      else Inr (sign, n, w)) = Inr (sign1, n1, w1)"
  proof (cases "sign = NUL")
    case True
    then show ?thesis using set_storage_same [of w]
      by (simp add: sign1_def n1_def w1_def pre_def st)
  next
    case False
    then have st': "storage w = base @ x # replicate k (Some (CHR '' '')) @ Some d # map Some ds @ rest"
      using st by simp
    show ?thesis using False
      by (auto simp: on_storage_def st' place_sign_result [OF d False] start_def sign1_def n1_def w1_def pre_def)
  qed
  let ?mid = "if sign1 = NUL then replicate k ?f else replicate (k - 1) ?f @ [sign1]"
  define w2 where "w2 = set_storage (pre @ map Some ?mid @ Some d # map Some ds @ rest) w1"
  have start: "start = int (length pre)" by (simp add: start_def pre_def)
  have mid: "length ?mid = k" unfolding sign1_def by auto
  have space: "sp_fill spec = 32 \<Longrightarrow> ?f = CHR '' ''"
    by (simp add: char_of_wchar_def chr_def char_of_def bit_Suc_0_iff)
  have step2: "(if sp_fill spec \<noteq> 32 \<or> sign1 \<noteq> NUL then
        with_storage (\<lambda>m. ebind (fill_spaces ?f start m) (\<lambda>(start, m).
          if sign1 \<noteq> NUL then mstore (start - 1) sign1 m else Inr m)) w1
      else Inr w1) = Inr w2"
  proof (cases "sp_fill spec \<noteq> 32 \<or> sign1 \<noteq> NUL")
    case True
    have "sign1 \<noteq> NUL \<Longrightarrow> 0 < k" by (auto simp: sign1_def split: if_splits)
    note fill = finish_fill [OF d this, where f = ?f and pre = pre and rest = "map Some ds @ rest"]
    from True show ?thesis
      by (simp add: with_storage_def start w1_def w2_def fill del: map_append)
  next
    case False
    then show ?thesis using space by (simp add: w2_def w1_def set_storage_def split: option.splits)
  qed
  have ok2: "arr_ok w2" and sz2: "a_size w2 = length base"
    using ok1 sz1 mid unfolding arr_ok_def w2_def by (simp_all add: w1_def)
  have n1: "length base + n1 = length (pre @ map Some ?mid @ Some d # map Some ds)"
    using mid by (auto simp: n1_def n pre_def)
  have fits: "a_size w2 + n1 \<le> a_capacity w2"
  proof -
    have "length (storage w2) = length base + n1 + length rest"
      unfolding n1 w2_def storage_set_storage by simp
    with ok2 show ?thesis unfolding sz2 arr_ok_def by simp
  qed
  have "FormatDouble_finish spec sign start n w = Inr (w2\<lparr>a_size := length base + n1\<rparr>)"
  proof -
    have "\<not> (?a = ALIGN_CENTER \<and> unat (sp_width spec) > n1)" using narrow by (auto simp: n1_def)
    then show ?thesis
      unfolding FormatDouble_finish_def Let_def step1 ebind_simps prod.case
      by (simp only: if_False step2 ebind_simps GrowBuffer_fits [OF ok2 fits] prod.case sz2)
  qed
  moreover have "arr_ok (w2\<lparr>a_size := length base + n1\<rparr>)"
    using ok2 fits by (simp add: arr_ok_def sz2)
  moreover have "cells (w2\<lparr>a_size := length base + n1\<rparr>) = pre @ map Some ?mid @ Some d # map Some ds"
    unfolding cells_size_update n1 w2_def storage_set_storage by simp
  moreover have "\<dots> = base @ map Some (double_cells ?a sign ?f k (d # ds))"
    by (cases k) (auto simp: pre_def sign1_def double_cells_def replicate_append_same sign_text_def)
  ultimately show ?thesis unfolding start_def by auto
qed

subsection \<open>The format string and the retry loop\<close>

text \<open>The text \<open>snprintf\<close> makes of the format string the code builds.\<close>

definition double_text ::
  "'d fp \<Rightarrow> bool \<Rightarrow> FormatSpec \<Rightarrow> u32 \<Rightarrow> int \<Rightarrow> char \<Rightarrow> 'd \<Rightarrow> string option" where
  "double_text F is_long spec width precision type value =
     map_option (printf_pad (sp_align spec = ALIGN_LEFT) (if sp_align spec = ALIGN_CENTER then 0 else unat width))
       (fp_conv F (fs_hash_flag spec) (if precision < 0 then None else Some precision) is_long type value)"

lemma sint_small_width: "unat (width :: u32) \<le> INT_MAX \<Longrightarrow> sint width = int (unat width)"
proof -
  assume "unat width \<le> INT_MAX"
  then have "uint width < 2 ^ 31" by (simp add: unat_eq_nat_uint del: nat_uint_eq)
  moreover have "- (2 ^ 31) \<le> uint width" by (rule order_trans [OF _ uint_ge_0]) simp
  ultimately have "sint width = uint width"
    unfolding sint_uint by (intro signed_take_bit_int_eq_self) simp_all
  then show ?thesis by simp
qed

lemma printf_pad_0: "printf_pad left 0 = (\<lambda>s. s)"
  by (simp add: printf_pad_def spaces_def fun_eq_iff)

lemma build_format_text:
  assumes "is_float_conv type" and "unat width \<le> INT_MAX"
  shows "\<exists>fmt wd. build_format is_long spec width precision type = Inr (fmt, wd)
    \<and> (\<forall>p n m. FormatFloat F p n fmt wd precision value m
          = snprintf_out (double_text F is_long spec width precision type value) p n m)"
proof -
  have t: "type \<noteq> CHR ''#''" "type \<noteq> CHR ''-''" "type \<noteq> CHR ''*''" "type \<noteq> CHR ''.''" "type \<noteq> CHR ''L''"
    using assms(1) by (auto simp: is_float_conv_def)
  have w: "sint width = int (unat width)" "\<not> sint width < 0" "nat \<bar>sint width\<bar> = unat width"
    using sint_small_width [OF assms(2)] by simp_all
  note eval = build_format_def FormatFloat_def snprintf_def double_text_def printf_text_def eat_def
    star_arg_def MAX_FORMAT_SIZE_def Let_def t w printf_pad_0 assms(1)
  show ?thesis
  proof (cases "sp_align spec = ALIGN_CENTER \<or> width = 0")
    case True
    then show ?thesis
      by (cases "fs_hash_flag spec"; cases "precision < 0"; cases is_long; cases "sp_align spec = ALIGN_LEFT")
        (auto simp: eval)
  next
    case False
    then show ?thesis
      by (cases "fs_hash_flag spec"; cases "precision < 0"; cases is_long; cases "sp_align spec = ALIGN_LEFT")
        (auto simp: eval)
  qed
qed

lemma snprintf_out_writes:
  assumes "arr_ok w" and "offset \<le> a_capacity w" and "length t \<le> INT_MAX"
  shows "\<exists>m. on_storage (snprintf_out (Some t) (int offset) (a_capacity w - offset)) w
        = Inr (int (length t), set_storage m w)
      \<and> length m = a_capacity w \<and> take offset m = take offset (storage w)
      \<and> (offset + length t < a_capacity w \<longrightarrow>
           (\<exists>rest. m = take offset (storage w) @ map Some t @ Some NUL # rest))"
proof (cases "a_capacity w - offset")
  case 0
  then show ?thesis using assms by (intro exI [of _ "storage w"])
      (simp add: on_storage_def snprintf_out_def arr_ok_def)
next
  case (Suc n)
  let ?xs = "map Some (take n t) @ [Some NUL]"
  let ?m = "overwrite offset ?xs (storage w)"
  have len: "length (storage w) = a_capacity w" using assms(1) by (simp add: arr_ok_def)
  have fits: "offset + length ?xs \<le> length (storage w)" using Suc len by simp
  have "on_storage (snprintf_out (Some t) (int offset) (a_capacity w - offset)) w
      = Inr (int (length t), set_storage ?m w)"
    using assms(3) Suc fits by (simp add: on_storage_def snprintf_out_def mwrite_def)
  moreover have "length ?m = a_capacity w" using fits len by (simp only: length_overwrite)
  moreover have "take offset ?m = take offset (storage w)"
    using assms(2) len by (intro take_overwrite_prefix) simp
  moreover have "offset + length t < a_capacity w \<Longrightarrow> take n t = t" using Suc by simp
  ultimately show ?thesis by (intro exI [of _ ?m]) (auto simp: overwrite_def)
qed

lemma FormatDouble_loop_ok:
  assumes ok: "arr_ok w" and offset: "a_size w \<le> offset" "offset \<le> a_capacity w"
    and out: "\<And>p n m. FormatFloat F p n fmt wd precision value m = snprintf_out (Some t) p n m"
    and len: "length t \<le> INT_MAX"
  shows "\<exists>w2 gap rest. FormatDouble_loop (Suc (Suc fuel)) F value spec precision fmt wd sign offset w
      = Some (FormatDouble_finish spec sign (int offset) (length t) w2)
    \<and> arr_ok w2 \<and> a_size w2 = a_size w \<and> length gap = offset - a_size w
    \<and> storage w2 = cells w @ gap @ map Some t @ Some NUL # rest"
proof -
  have out': "FormatFloat F p n fmt wd precision value = snprintf_out (Some t) p n" for p n
    by (simp add: out fun_eq_iff)
  have one_round: "\<exists>w2 gap rest. FormatDouble_loop (Suc f) F value spec precision fmt wd sign offset v
      = Some (FormatDouble_finish spec sign (int offset) (length t) w2)
    \<and> arr_ok w2 \<and> a_size w2 = a_size w \<and> length gap = offset - a_size w
    \<and> storage w2 = cells w @ gap @ map Some t @ Some NUL # rest"
    if v: "arr_ok v" "cells v = cells w" "a_size v = a_size w" "offset + length t < a_capacity v" for v f
  proof -
    obtain m rest where m: "on_storage (snprintf_out (Some t) (int offset) (a_capacity v - offset)) v
        = Inr (int (length t), set_storage m v)" "length m = a_capacity v"
      "m = take offset (storage v) @ map Some t @ Some NUL # rest"
      using snprintf_out_writes [OF v(1) _ len, of offset] v(4) by auto
    have "take offset (storage v) = cells w @ take (offset - a_size w) (drop (a_size w) (storage v))"
      using v(2,3) offset(1) unfolding cells_def by (metis le_add_diff_inverse take_add)
    then have st: "m = cells w @ take (offset - a_size w) (drop (a_size w) (storage v)) @ map Some t @ Some NUL # rest"
      using m(3) by simp
    have "length (take (offset - a_size w) (drop (a_size w) (storage v))) = offset - a_size w"
      using v by (simp add: arr_ok_def)
    moreover have "arr_ok (set_storage m v)" using v(1) m(2) by (simp add: arr_ok_def)
    moreover have "FormatDouble_loop (Suc f) F value spec precision fmt wd sign offset v
        = Some (FormatDouble_finish spec sign (int offset) (length t) (set_storage m v))"
      using v(4) by (simp add: out' m(1))
    ultimately show ?thesis
      by (intro exI [of _ "set_storage m v"] exI [of _ "take (offset - a_size w) (drop (a_size w) (storage v))"]
          exI [of _ rest] conjI) (simp_all only: st [symmetric] storage_set_storage set_storage_fields v(3))
  qed
  show ?thesis
  proof (cases "offset + length t < a_capacity w")
    case True
    then show ?thesis using ok by (intro one_round) simp_all
  next
    case False
    obtain m where m: "on_storage (snprintf_out (Some t) (int offset) (a_capacity w - offset)) w
        = Inr (int (length t), set_storage m w)" "length m = a_capacity w"
      "take offset m = take offset (storage w)"
      using snprintf_out_writes [OF ok offset(2) len] by auto
    let ?w1 = "set_storage m w"
    have ok1: "arr_ok ?w1" using ok m(2) by (simp add: arr_ok_def)
    have "cells ?w1 = take (a_size w) (take offset m)" using offset(1) by (simp add: cells_def min_def)
    then have c1: "cells ?w1 = cells w" using offset(1) by (simp add: m(3) cells_def min_def)
    obtain v where v: "reserve (offset + length t + 1) ?w1 = Inr v" "arr_ok v" "cells v = cells ?w1"
      "a_size v = a_size ?w1" "offset + length t + 1 \<le> a_capacity v"
      using ok1 by (rule reserve_ok)
    have "FormatDouble_loop (Suc (Suc fuel)) F value spec precision fmt wd sign offset w
        = FormatDouble_loop (Suc fuel) F value spec precision fmt wd sign offset v"
      using False v(1) by (subst FormatDouble_loop.simps) (simp add: out' m(1))
    then show ?thesis using one_round [of v fuel] v c1 by simp
  qed
qed

subsection \<open>Finite values\<close>

text \<open>
  The layout of a finite value whose digits are \<open>body\<close>: the layout of integers, except that a
  left-aligned value is followed by spaces whatever the fill character is.
\<close>

definition double_layout :: "FormatSpec \<Rightarrow> string \<Rightarrow> string \<Rightarrow> string" where
  "double_layout spec sg body =
     int_layout (unat (sp_width spec))
       (if sp_align spec = ALIGN_LEFT then CHR '' '' else char_of_wchar (sp_fill spec))
       (sp_align spec) sg body"

lemma double_cells_layout:
  assumes "k = (if sp_align spec = ALIGN_LEFT \<or> sp_align spec = ALIGN_CENTER then 0
      else unat (sp_width spec) - length (sign_text sign) - length body)"
    and "sp_align spec = ALIGN_CENTER \<Longrightarrow> unat (sp_width spec) \<le> length (sign_text sign) + length body"
    and "j = (if sp_align spec = ALIGN_LEFT then unat (sp_width spec) - length (sign_text sign) - length body else 0)"
  shows "double_cells (sp_align spec) sign (char_of_wchar (sp_fill spec)) k (body @ spaces j)
    = double_layout spec (sign_text sign) body"
proof -
  have "unat (sp_width spec) - (length (sign_text sign) + length body)
      = unat (sp_width spec) - length (sign_text sign) - length body" by simp
  then show ?thesis using assms
    by (cases "sp_align spec") (auto simp: double_cells_def double_layout_def int_layout_def Let_def spaces_def
        simp del: length_sign_text)
qed

definition sprintf_width :: "char \<Rightarrow> FormatSpec \<Rightarrow> u32" where
  "sprintf_width sign spec = (if sign \<noteq> NUL \<and> sp_width spec > 0 then sp_width spec - 1 else sp_width spec)"

lemma unat_sprintf_width: "unat (sprintf_width sign spec) = unat (sp_width spec) - length (sign_text sign)"
proof (cases "sign \<noteq> NUL \<and> sp_width spec > 0")
  case True
  then have "sp_width spec \<noteq> 0" by auto
  then have "unat (sp_width spec - 1) = unat (sp_width spec) - 1" by (rule unat_minus_one)
  with True show ?thesis by (simp add: sprintf_width_def)
qed (auto simp: sprintf_width_def word_gt_0)

lemma FormatDouble_finite_ok:
  assumes ok: "arr_ok w" and type: "double_type (sp_type spec) = Inr (type, upper)"
    and fin: "\<not> fp_ne_self F (double_abs F value)" "\<not> fp_isinf F (double_abs F value)"
    and width: "unat (sp_width spec) \<le> INT_MAX"
    and conv: "fp_conv F (fs_hash_flag spec) (if precision < 0 then None else Some precision) is_long type
        (double_abs F value) = Some (d # ds)"
    and body: "d \<noteq> CHR '' ''" "length (d # ds) \<le> INT_MAX"
    and narrow: "sp_align spec = ALIGN_CENTER \<Longrightarrow>
        unat (sp_width spec) \<le> length (sign_text (double_sign F value spec)) + length (d # ds)"
  shows "\<exists>w'. FormatDouble (Suc (Suc fuel)) F is_long value spec precision w = Some (Inr w') \<and> arr_ok w'
    \<and> cells w' = cells w @ map Some (double_layout spec (sign_text (double_sign F value spec)) (d # ds))"
proof -
  define sign where "sign = double_sign F value spec"
  let ?width = "sprintf_width sign spec" and ?W = "unat (sp_width spec) - length (sign_text sign)"
  let ?a = "sp_align spec"
  define k where "k = (if ?a = ALIGN_LEFT \<or> ?a = ALIGN_CENTER then 0 else ?W - length (d # ds))"
  define j where "j = (if ?a = ALIGN_LEFT then ?W - length (d # ds) else 0)"
  define t where "t = spaces k @ (d # ds) @ spaces j"
  have is_conv: "is_float_conv type"
    using type by (auto simp: double_type_def is_float_conv_def split: if_splits)
  have uw: "unat ?width \<le> INT_MAX" using width by (simp only: unat_sprintf_width)
  have dtext: "double_text F is_long spec ?width precision type (double_abs F value) = Some t"
    by (simp add: double_text_def conv printf_pad_def t_def k_def j_def spaces_def unat_sprintf_width
        del: length_sign_text)
  obtain fmt wd where fmt: "build_format is_long spec ?width precision type = Inr (fmt, wd)"
    "\<And>p n m. FormatFloat F p n fmt wd precision (double_abs F value) m = snprintf_out (Some t) p n m"
    using build_format_text [OF is_conv uw, of is_long spec precision F "double_abs F value"] dtext by auto
  have len: "length t \<le> INT_MAX"
    using body(2) width by (auto simp: t_def k_def j_def spaces_def simp del: length_sign_text)
  obtain v where v: "(if sign \<noteq> NUL then reserve (a_size w + max (unat (sp_width spec)) 1) w else Inr w) = Inr v"
    "arr_ok v" "cells v = cells w" "a_size v = a_size w" "a_size w + (if sign = NUL then 0 else 1) \<le> a_capacity v"
  proof (cases "sign = NUL")
    case True
    with ok show ?thesis by (intro that [of w]) (simp_all add: arr_ok_def)
  next
    case False
    obtain v where "reserve (a_size w + max (unat (sp_width spec)) 1) w = Inr v" "arr_ok v"
      "cells v = cells w" "a_size v = a_size w" "a_size w + max (unat (sp_width spec)) 1 \<le> a_capacity v"
      using ok by (rule reserve_ok)
    with False show ?thesis by (intro that [of v]) simp_all
  qed
  let ?off = "a_size w + (if sign = NUL then 0 else 1)"
  obtain w2 gap rest where w2: "FormatDouble_loop (Suc (Suc fuel)) F (double_abs F value) spec precision fmt wd sign ?off v
      = Some (FormatDouble_finish spec sign (int ?off) (length t) w2)"
    "arr_ok w2" "a_size w2 = a_size w" "length gap = ?off - a_size w"
    "storage w2 = cells w @ gap @ map Some t @ Some NUL # rest"
    using FormatDouble_loop_ok [OF v(2) _ v(5) [folded v(4)] fmt(2) len, of fuel spec sign] v(3,4) by auto
  obtain x where gap: "gap = (if sign = NUL then [] else [x])"
    using w2(4) by (cases "sign = NUL") (auto simp: length_Suc_conv)
  have base: "a_size w2 = length (cells w)" using w2(3) ok by simp
  have st: "storage w2 = cells w @ (if sign = NUL then [] else [x]) @ replicate k (Some (CHR '' ''))
      @ Some d # map Some (ds @ spaces j) @ Some NUL # rest"
    using w2(5) gap by (simp add: t_def spaces_def)
  have n: "length t = k + Suc (length (ds @ spaces j))" by (simp add: t_def spaces_def)
  have off: "int ?off = int (length (cells w)) + (if sign = NUL then 0 else 1)" using ok by simp
  have narrow': "?a = ALIGN_CENTER \<Longrightarrow> unat (sp_width spec) \<le> length t + (if sign = NUL then 0 else 1)"
    using narrow unfolding sign_def [symmetric] n by (auto split: if_splits)
  obtain w' where w': "FormatDouble_finish spec sign (int ?off) (length t) w2 = Inr w'" "arr_ok w'"
    "cells w' = cells w @ map Some (double_cells ?a sign (char_of_wchar (sp_fill spec)) k (d # ds @ spaces j))"
    using FormatDouble_finish_ok [OF w2(2) base st _ body(1) n narrow'] unfolding off by auto
  have "double_cells ?a sign (char_of_wchar (sp_fill spec)) k ((d # ds) @ spaces j)
      = double_layout spec (sign_text sign) (d # ds)"
    using narrow unfolding sign_def [symmetric] by (intro double_cells_layout) (simp_all only: k_def j_def)
  moreover have "FormatDouble (Suc (Suc fuel)) F is_long value spec precision w
      = FormatDouble_loop (Suc (Suc fuel)) F (double_abs F value) spec precision fmt wd sign ?off v"
    using fin v fmt(1)
    by (auto simp: FormatDouble_unfold type Let_def sign_def [symmetric] sprintf_width_def
        simp del: FormatDouble_loop.simps split: if_splits)
  ultimately show ?thesis using w2(1) w' by (simp add: sign_def [symmetric])
qed

lemma FormatDouble_loop_diverges:
  assumes "\<And>p n m. FormatFloat F p n fmt wd precision value m = Inr (-1, m)"
  shows "arr_ok w \<Longrightarrow> FormatDouble_loop fuel F value spec precision fmt wd sign offset w = None"
proof (induction fuel arbitrary: w)
  case (Suc fuel)
  obtain v where v: "reserve (a_capacity w + 1) w = Inr v" "arr_ok v"
    using Suc.prems by (rule reserve_ok)
  with Suc.IH [OF v(2)] show ?case by (simp add: assms on_storage_def)
qed simp

text \<open>
  If the conversion of a finite value fails every time (a negative result of \<open>snprintf\<close>, as
  it gives for a text longer than an \<open>int\<close> can count), \<open>FormatDouble\<close> does not return: every round
  only asks for one more cell.
\<close>

theorem FormatDouble_diverges:
  assumes "arr_ok w" and "double_type (sp_type spec) = Inr (type, upper)"
    and "\<not> fp_ne_self F (double_abs F value)" and "\<not> fp_isinf F (double_abs F value)"
    and "unat (sp_width spec) \<le> INT_MAX"
    and "fp_conv F (fs_hash_flag spec) (if precision < 0 then None else Some precision) is_long type
        (double_abs F value) = None"
  shows "FormatDouble fuel F is_long value spec precision w = None"
proof -
  define sign where "sign = double_sign F value spec"
  have is_conv: "is_float_conv type"
    using assms(2) by (auto simp: double_type_def is_float_conv_def split: if_splits)
  have uw: "unat (sprintf_width sign spec) \<le> INT_MAX"
    using assms(5) by (simp only: unat_sprintf_width)
  obtain fmt wd where fmt: "build_format is_long spec (sprintf_width sign spec) precision type = Inr (fmt, wd)"
    "\<And>p n m. FormatFloat F p n fmt wd precision (double_abs F value) m = Inr (-1, m)"
    using build_format_text [OF is_conv uw, of is_long spec precision F "double_abs F value"] assms(6)
    by (auto simp: double_text_def snprintf_out_def)
  obtain v where v: "(if sign \<noteq> NUL then reserve (a_size w + max (unat (sp_width spec)) 1) w else Inr w) = Inr v"
    "arr_ok v"
    using assms(1) by (cases "sign = NUL") (auto elim: reserve_ok)
  show ?thesis
    using assms(2-4) v fmt(1) FormatDouble_loop_diverges [OF fmt(2) v(2)]
    by (auto simp: FormatDouble_unfold Let_def sign_def [symmetric] sprintf_width_def split: if_splits)
qed

theorem FormatDouble_diverges_witness:
  "FormatDouble 7 tenths False 4 new_FormatSpec 99 new_writer = None"
  by (rule FormatDouble_diverges [where type = "CHR ''g''" and upper = False])
    (simp_all add: new_FormatSpec_def double_type_def tenths_def double_abs_def)

subsection \<open>Centred values\<close>

lemma std_copy_forward:
  assumes "length a = n" and "length (a @ b) = l" and "length y = n" and "0 < n"
  shows "std_copy (int (length pre)) (int (length pre) + int n) (int (length pre) + int l)
      (pre @ (a @ b) @ y @ post) = Inr (pre @ (a @ b) @ a @ post)"
proof -
  have "mwrite (int (length pre) + int l) a ((pre @ (a @ b)) @ y @ post) = Inr ((pre @ (a @ b)) @ a @ post)"
    by (rule mwrite_piece) (use assms in simp_all)
  moreover have "n \<le> l" using assms(1,2) by simp
  ultimately show ?thesis using assms by (simp add: std_copy_def nat_add_distrib)
qed

text \<open>Growing by \<open>W\<close> shows the text behind the contents, unless the array has to move.\<close>

lemma GrowBuffer_exposes:
  assumes ok: "arr_ok w" and n: "n < W"
    and st: "take n (drop (a_size w) (storage w)) = map Some body"
    and txt'_def: "txt' = (if a_size w + W \<le> a_capacity w then map Some body else replicate n None)"
  obtains w1 gap where "GrowBuffer W w = Inr (int (length (cells w)), w1)" and "arr_ok w1"
    and "cells w1 = cells w @ gap" and "length gap = W" and "take n gap = txt'"
proof (cases "a_size w + W \<le> a_capacity w")
  case True
  have "cells (w\<lparr>a_size := a_size w + W\<rparr>) = cells w @ take W (drop (a_size w) (storage w))"
    unfolding cells_size_update by (simp add: cells_def take_add)
  moreover have "arr_ok (w\<lparr>a_size := a_size w + W\<rparr>)" using ok True by (simp add: arr_ok_def)
  moreover have "take n (take W (drop (a_size w) (storage w))) = txt'"
    using st n True by (simp add: txt'_def min_def)
  ultimately show ?thesis
    using GrowBuffer_fits [OF ok True] ok True
    by (intro that [of "w\<lparr>a_size := a_size w + W\<rparr>" "take W (drop (a_size w) (storage w))"])
      (simp_all add: arr_ok_def)
next
  case False
  obtain v where v: "Grow (a_size w + W) w = Inr v" "arr_ok v" "cells v = cells w" "a_size v = a_size w"
    "a_capacity v = max (a_size w + W) (a_capacity w + a_capacity w div 2)"
    "drop (a_size w) (storage v) = replicate (a_capacity v - a_size w) None"
    using ok by (rule Grow_ok)
  let ?w1 = "v\<lparr>a_size := a_size w + W\<rparr>"
  have cap: "a_size w + W \<le> a_capacity v" unfolding v(5) by (rule max.cobounded1)
  have "take (a_size w + W) (storage v) = cells w @ replicate W None"
  proof -
    have "take W (replicate (a_capacity v - a_size w) None) = (replicate W None :: char mem)"
      using cap by (simp add: min_def)
    then show ?thesis using v(3,4,6) by (simp add: take_add cells_def)
  qed
  then have "cells ?w1 = cells w @ replicate W None" by (simp add: cells_size_update)
  moreover have "arr_ok ?w1" using v(2) cap by (simp add: arr_ok_def)
  moreover have "GrowBuffer W w = Inr (int (length (cells w)), ?w1)"
    using False v(1) ok by (simp add: GrowBuffer_def resize_def)
  ultimately show ?thesis
    using False n by (intro that [of ?w1 "replicate W None"]) (simp_all add: txt'_def min_def)
qed

lemma FormatDouble_finish_center:
  assumes ok: "arr_ok w" and n: "0 < n" "n < W" "n \<le> (W - n) div 2"
    and W: "W = unat (sp_width spec)" "sp_align spec = ALIGN_CENTER"
    and st: "take n (drop (a_size w) (storage w)) = map Some body" and body: "length body = n"
    and sz: "a_size w + n \<le> a_capacity w"
  shows "\<exists>w'. FormatDouble_finish spec NUL start n w = Inr w' \<and> arr_ok w'
    \<and> cells w' = cells w @ map Some (replicate ((W - n) div 2) (char_of_wchar (sp_fill spec)))
        @ (if a_size w + W \<le> a_capacity w then map Some body else replicate n None)
        @ map Some (replicate (W - n - (W - n) div 2) (char_of_wchar (sp_fill spec)))"
proof -
  let ?f = "char_of_wchar (sp_fill spec)" and ?l = "(W - n) div 2" and ?r = "W - n - (W - n) div 2"
  define txt' where "txt' = (if a_size w + W \<le> a_capacity w then map Some body else replicate n None)"
  obtain w1 gap where w1: "GrowBuffer W w = Inr (int (length (cells w)), w1)" "arr_ok w1"
    "cells w1 = cells w @ gap" "length gap = W" "take n gap = txt'"
    using ok n(2) st txt'_def by (rule GrowBuffer_exposes)
  have lt: "length txt' = n" by (simp add: txt'_def body)
  define b where "b = take (?l - n) (drop n gap)"
  define y where "y = take n (drop ?l gap)"
  define z where "z = drop (?l + n) gap"
  have W2: "W = ?l + n + ?r" using n(2) by simp
  have lens: "length (txt' @ b) = ?l" "length y = n" "length z = ?r"
    using w1(4) n lt by (simp_all add: b_def y_def z_def)
  have gap: "gap = (txt' @ b) @ y @ z"
  proof -
    have "gap = take n gap @ take (?l - n) (drop n gap) @ drop (?l - n) (drop n gap)"
      by (metis append_take_drop_id)
    moreover have "drop (?l - n) (drop n gap) = drop ?l gap" using n(3) by simp
    moreover have "drop ?l gap = y @ z" unfolding y_def z_def by (metis add.commute append_take_drop_id drop_drop)
    ultimately show ?thesis using w1(5) by (simp add: b_def)
  qed
  let ?pre = "cells w"
  have copy: "std_copy (int (length ?pre)) (int (length ?pre) + int n) (int (length ?pre) + int ?l)
      (?pre @ ((txt' @ b) @ y @ z) @ rest) = Inr (?pre @ ((txt' @ b) @ txt' @ z) @ rest)" for rest
    using std_copy_forward [OF lt lens(1,2) n(1), of ?pre "z @ rest"] by simp
  have out1: "cells w1 = ?pre @ ((txt' @ b) @ y @ z) @ []" using w1(3) gap by simp
  obtain w2 where w2: "with_storage (std_copy (int (length ?pre)) (int (length ?pre) + int n)
        (int (length ?pre) + int ?l)) w1 = Inr w2" "arr_ok w2"
    "cells w2 = ?pre @ ((txt' @ b) @ txt' @ z) @ []"
    using with_storage_inside [OF w1(2) out1, of "(txt' @ b) @ txt' @ z"] copy lens lt by auto
  have tot: "W < 2 ^ 64" using W(1) unat_u32_less [of "sp_width spec"] by simp
  have fill: "FillPadding (int (length ?pre)) W n (wchar_of_char ?f) (?pre @ ((txt' @ b) @ txt' @ z) @ rest)
      = Inr (int (length ?pre + ?l), ?pre @ (map Some (replicate ?l ?f) @ txt' @ map Some (replicate ?r ?f)) @ rest)" for rest
    using FillPadding_pieces [OF tot less_imp_le [OF n(2)] refl lens(1) lt lens(3), of ?pre "wchar_of_char ?f" rest]
    by (simp only: char_of_wchar_of_char)
  have len3: "length (map Some (replicate ?l ?f) @ txt' @ map Some (replicate ?r ?f)) = length ((txt' @ b) @ txt' @ z)"
    using lens lt by simp
  have "\<exists>w3. on_storage (FillPadding (int (length ?pre)) W n (wchar_of_char ?f)) w2
      = Inr (int (length ?pre + ?l), w3) \<and> arr_ok w3
      \<and> cells w3 = ?pre @ (map Some (replicate ?l ?f) @ txt' @ map Some (replicate ?r ?f)) @ []"
    by (rule arr_buf.edit_law [OF w2(2,3) len3]) (simp only: append_Nil fill)
  then obtain w3 where w3: "on_storage (FillPadding (int (length ?pre)) W n (wchar_of_char ?f)) w2
      = Inr (int (length ?pre + ?l), w3)" "arr_ok w3"
      "cells w3 = ?pre @ (map Some (replicate ?l ?f) @ txt' @ map Some (replicate ?r ?f)) @ []" by blast
  have "FormatDouble_finish spec NUL start n w = Inr w3"
    using n(2) by (simp add: FormatDouble_finish_def Let_def W(2) W(1) [symmetric] w1(1) w2(1) w3(1) del: of_nat_add)
  with w3(2,3) show ?thesis unfolding txt'_def by auto
qed

lemma FormatDouble_finish_overlap:
  assumes ok: "arr_ok w" and n: "0 < n" "n < unat (sp_width spec)" "(unat (sp_width spec) - n) div 2 < n"
    and "sp_align spec = ALIGN_CENTER"
  shows "FormatDouble_finish spec NUL start n w = Inl (Undefined OverlappingCopy)"
proof -
  obtain w1 gap where "GrowBuffer (unat (sp_width spec)) w = Inr (int (length (cells w)), w1)"
    using ok by (rule GrowBuffer_ok)
  with assms show ?thesis
    by (simp add: FormatDouble_finish_def Let_def with_storage_def std_copy_def del: unat_gt_0)
qed

text \<open>
  Centring an unsigned value: the digits are written first and then copied into place. When
  they are longer than the padding on their left the copy overlaps its source, which the contract of
  \<open>std::copy\<close> excludes. Otherwise the centred text is appended, but only if the buffer already had
  room for the whole width: if it has to grow in between, the digits (which are behind the
  recorded size) are left in the old memory and the output contains cells that were never written.
\<close>

theorem FormatDouble_center:
  assumes ok: "arr_ok w" and type: "double_type (sp_type spec) = Inr (type, upper)"
    and fin: "\<not> fp_ne_self F (double_abs F value)" "\<not> fp_isinf F (double_abs F value)"
    and width: "unat (sp_width spec) \<le> INT_MAX"
    and conv: "fp_conv F (fs_hash_flag spec) (if precision < 0 then None else Some precision) is_long type
        (double_abs F value) = Some body"
    and body: "0 < length body" "length body < unat (sp_width spec)" "a_size w + length body < a_capacity w"
    and center: "sp_align spec = ALIGN_CENTER" and sign: "double_sign F value spec = NUL"
  shows "if (unat (sp_width spec) - length body) div 2 < length body
    then FormatDouble (Suc fuel) F is_long value spec precision w = Some (Inl (Undefined OverlappingCopy))
    else \<exists>w'. FormatDouble (Suc fuel) F is_long value spec precision w = Some (Inr w') \<and> arr_ok w'
      \<and> (if a_size w + unat (sp_width spec) \<le> a_capacity w
         then cells w' = cells w @ map Some (double_layout spec [] body)
         else writer_str w' = Inl (Undefined Uninitialised))"
proof -
  let ?W = "unat (sp_width spec)" and ?n = "length body"
  have is_conv: "is_float_conv type"
    using type by (auto simp: double_type_def is_float_conv_def split: if_splits)
  obtain fmt wd where fmt: "build_format is_long spec (sp_width spec) precision type = Inr (fmt, wd)"
    "\<And>p n. FormatFloat F p n fmt wd precision (double_abs F value) = snprintf_out (Some body) p n"
    using build_format_text [OF is_conv width, of is_long spec precision F "double_abs F value"]
    by (auto simp: double_text_def conv center printf_pad_0 fun_eq_iff)
  have len: "?n \<le> INT_MAX" using body(2) width by linarith
  obtain m rest where m: "on_storage (snprintf_out (Some body) (int (a_size w)) (a_capacity w - a_size w)) w
        = Inr (int ?n, set_storage m w)" "length m = a_capacity w"
      "m = take (a_size w) (storage w) @ map Some body @ Some NUL # rest"
    using snprintf_out_writes [OF ok _ len, of "a_size w"] body(3) by auto
  let ?w = "set_storage m w"
  have ok1: "arr_ok ?w" using ok m(2) by (simp add: arr_ok_def)
  have sz: "length (take (a_size w) (storage w)) = a_size w" using ok by (simp add: arr_ok_def)
  have c1: "cells ?w = cells w" using sz by (simp add: cells_def m(3))
  have st: "take ?n (drop (a_size ?w) (storage ?w)) = map Some body" using sz by (simp add: m(3))
  have run: "FormatDouble (Suc fuel) F is_long value spec precision w
      = Some (FormatDouble_finish spec NUL (int (a_size w)) ?n ?w)"
    using fin body(3) by (simp add: FormatDouble_unfold type sign Let_def fmt m(1))
  show ?thesis
  proof (cases "(?W - ?n) div 2 < ?n")
    case True
    then show ?thesis using FormatDouble_finish_overlap [OF ok1 body(1,2) True center] run by simp
  next
    case False
    then obtain w' where w': "FormatDouble_finish spec NUL (int (a_size w)) ?n ?w = Inr w'" "arr_ok w'"
      "cells w' = cells w @ map Some (replicate ((?W - ?n) div 2) (char_of_wchar (sp_fill spec)))
        @ (if a_size w + ?W \<le> a_capacity w then map Some body else replicate ?n None)
        @ map Some (replicate (?W - ?n - (?W - ?n) div 2) (char_of_wchar (sp_fill spec)))"
      using FormatDouble_finish_center [OF ok1 body(1,2) _ refl center st refl, of "int (a_size w)"] body(3) c1 by auto
    have "double_layout spec [] body = replicate ((?W - ?n) div 2) (char_of_wchar (sp_fill spec)) @ body
        @ replicate (?W - ?n - (?W - ?n) div 2) (char_of_wchar (sp_fill spec))"
      using body(2) center by (simp add: double_layout_def int_layout_def Let_def)
    then show ?thesis using False run w' body(1) by (auto simp: writer_str_def read_cells_def)
  qed
qed

theorem FormatDouble_center_witness:
  "FormatDouble 1 tenths False 4 \<lparr>sp_width = 6, sp_fill = 42, sp_align = ALIGN_CENTER, sp_flags = 0,
      sp_type = CHR ''f''\<rparr> (-1) new_writer = Some (Inl (Undefined OverlappingCopy))"
proof -
  let ?spec = "\<lparr>sp_width = 6, sp_fill = 42, sp_align = ALIGN_CENTER, sp_flags = 0, sp_type = CHR ''f''\<rparr>"
  have conv: "fp_conv tenths (fs_hash_flag ?spec) (if (-1::int) < 0 then None else Some (-1)) False (CHR ''f'')
      (double_abs tenths 4) = Some ''4.0''"
    by (simp add: tenths_def double_abs_def signed_dec_def dec_string_eval)
  have type: "double_type (sp_type ?spec) = Inr (CHR ''f'', False)" by (simp add: double_type_def)
  have fin: "\<not> fp_ne_self tenths (double_abs tenths 4)" "\<not> fp_isinf tenths (double_abs tenths 4)"
    by (simp_all add: tenths_def double_abs_def)
  have sign: "double_sign tenths 4 ?spec = NUL"
    by (simp add: double_sign_def tenths_def fs_sign_flag_def)
  have width: "unat (sp_width ?spec) \<le> INT_MAX" by simp
  show ?thesis
    using FormatDouble_center [OF arr_ok_new_writer type fin width conv _ _ _ _ sign, of 0]
    by (simp add: new_writer_def new_array_def INLINE_BUFFER_SIZE_def)
qed

subsection \<open>Finite values\<close>

text \<open>
  C11. A finite value that is not to be centred in a width greater than its text is printed as its sign and the digits of
  the C library, laid out in the width like an integer (numeric alignment puts the fill between sign and digits),
  whatever the free space of the buffer; two rounds of the retry loop are enough. Left alignment pads
  with spaces even if another fill character was asked for. A value without a sign that is to be centred in a greater width
  is a different matter: if the digits are longer than the padding on their left the copy overlaps its source, and
  otherwise the text is right only if the buffer had room for the whole width before; it is unreadable if the buffer has to grow.
\<close>

theorem FormatDouble_finite:
  assumes "arr_ok w" and "double_type (sp_type spec) = Inr (type, upper)"
    and "\<not> fp_ne_self F (double_abs F value)" and "\<not> fp_isinf F (double_abs F value)"
    and "unat (sp_width spec) \<le> INT_MAX"
    and "fp_conv F (fs_hash_flag spec) (if precision < 0 then None else Some precision) is_long type
        (double_abs F value) = Some (d # ds)"
    and "d \<noteq> CHR '' ''" and "length (d # ds) \<le> INT_MAX"
  defines "W \<equiv> unat (sp_width spec)" and "sg \<equiv> sign_text (double_sign F value spec)" and "n \<equiv> length (d # ds)"
  shows "(sp_align spec \<noteq> ALIGN_CENTER \<or> W \<le> length sg + n \<longrightarrow>
      (\<exists>w'. FormatDouble (Suc (Suc fuel)) F is_long value spec precision w = Some (Inr w') \<and> arr_ok w'
        \<and> cells w' = cells w @ map Some (double_layout spec sg (d # ds))))
    \<and> (sp_align spec = ALIGN_CENTER \<and> n < W \<and> double_sign F value spec = NUL \<and> a_size w + n < a_capacity w \<longrightarrow>
      (if (W - n) div 2 < n
       then FormatDouble (Suc fuel) F is_long value spec precision w = Some (Inl (Undefined OverlappingCopy))
       else \<exists>w'. FormatDouble (Suc fuel) F is_long value spec precision w = Some (Inr w') \<and> arr_ok w'
         \<and> (if a_size w + W \<le> a_capacity w then cells w' = cells w @ map Some (double_layout spec [] (d # ds))
            else writer_str w' = Inl (Undefined Uninitialised))))"
proof (intro conjI impI)
  assume "sp_align spec \<noteq> ALIGN_CENTER \<or> W \<le> length sg + n"
  then show "\<exists>w'. FormatDouble (Suc (Suc fuel)) F is_long value spec precision w = Some (Inr w') \<and> arr_ok w'
        \<and> cells w' = cells w @ map Some (double_layout spec sg (d # ds))"
    unfolding W_def sg_def n_def by (intro FormatDouble_finite_ok [OF assms(1-8)]) blast
next
  assume c: "sp_align spec = ALIGN_CENTER \<and> n < W \<and> double_sign F value spec = NUL \<and> a_size w + n < a_capacity w"
  then show "if (W - n) div 2 < n
       then FormatDouble (Suc fuel) F is_long value spec precision w = Some (Inl (Undefined OverlappingCopy))
       else \<exists>w'. FormatDouble (Suc fuel) F is_long value spec precision w = Some (Inr w') \<and> arr_ok w'
         \<and> (if a_size w + W \<le> a_capacity w then cells w' = cells w @ map Some (double_layout spec [] (d # ds))
            else writer_str w' = Inl (Undefined Uninitialised))"
    unfolding W_def n_def by (intro FormatDouble_center [OF assms(1-6)]) simp_all
qed

theorem FormatDouble_finite_witness:
  "\<exists>w'. FormatDouble (Suc (Suc 0)) tenths False (- 4) \<lparr>sp_width = 6, sp_fill = 42, sp_align = ALIGN_RIGHT, sp_flags = 0,
      sp_type = CHR ''f''\<rparr> (-1) new_writer = Some (Inr w') \<and> cells w' = map Some ''**-4.0''"
proof -
  let ?spec = "\<lparr>sp_width = 6, sp_fill = 42, sp_align = ALIGN_RIGHT, sp_flags = 0, sp_type = CHR ''f''\<rparr>"
  have conv: "fp_conv tenths (fs_hash_flag ?spec) (if (-1::int) < 0 then None else Some (-1)) False (CHR ''f'')
      (double_abs tenths (- 4)) = Some (CHR ''4'' # ''.0'')"
    by (simp add: tenths_def double_abs_def signed_dec_def dec_string_eval)
  have type: "double_type (sp_type ?spec) = Inr (CHR ''f'', False)" by (simp add: double_type_def)
  have fin: "\<not> fp_ne_self tenths (double_abs tenths (- 4))" "\<not> fp_isinf tenths (double_abs tenths (- 4))"
    by (simp_all add: tenths_def double_abs_def)
  have sign: "double_sign tenths (- 4) ?spec = CHR ''-''" by (simp add: double_sign_def tenths_def)
  have lay: "double_layout ?spec (sign_text (CHR ''-'')) (CHR ''4'' # ''.0'') = ''**-4.0''"
    by (simp add: double_layout_def int_layout_def Let_def replicate_2_3)
  have width: "unat (sp_width ?spec) \<le> INT_MAX" by simp
  show ?thesis
    using FormatDouble_finite [OF arr_ok_new_writer type fin width conv, of 0] lay by (simp add: sign) blast
qed

end
