(* ===== verification/Fmt_Parser.thy ===== *)
theory Fmt_Parser
  imports Fmt_Double
begin

unbundle bit_operations_syntax

text \<open>
  Format arguments (\<open>ArgInfo\<close> and the \<open>BasicArg\<close> constructors of src/format.h) and the format
  string parser \<open>BasicWriter<char>::FormatParser\<close> (src/format.cc): \<open>ReportError\<close>, \<open>ParseUInt\<close>,
  \<open>ParseArgIndex\<close>, \<open>CheckSign\<close> and \<open>Format\<close>, the last one cut at its own comments into one
  definition per part of a replacement field.

  The pointer \<open>s\<close> into the format string is the rest of the string from there on, and \<open>*s\<close> is
  \<open>peek s\<close>, which is NUL at the end. The members of the parser object that change,
  \<open>num_open_braces_\<close> and \<open>next_arg_index_\<close>, are passed along.

  \<open>arg_layout\<close> says which text an argument stands for, without buffers. \<open>format_text\<close> separates the
  parser from the buffer: it parses as \<open>Format\<close> does and puts texts together; what the parser makes of
  a format is proved below for templates, and in Fmt_Field for fields with specifiers.
\<close>

subsection \<open>Format arguments\<close>

text \<open>
  The tagged union: the tag \<open>T\<close> is the constructor \<open>A_T\<close>. \<open>A_STRING\<close> has the memory behind the pointer
  (\<open>None\<close> for a null pointer) and the cached size; \<open>A_CUSTOM\<close> the formatting function applied to
  the value. No constructor of a narrow argument makes a \<open>A_WSTRING\<close>.
\<close>

datatype ('d, 'l) ArgInfo =
    A_INT u32 | A_UINT u32 | A_LONG u64 | A_ULONG u64 | A_LONG_LONG u64 | A_ULONG_LONG u64
  | A_DOUBLE 'd | A_LONG_DOUBLE 'l
  | A_CHAR u32 | A_STRING "string option" nat | A_WSTRING | A_POINTER u64
  | A_CUSTOM "FormatSpec \<Rightarrow> writer \<Rightarrow> writer res"

fun is_numeric :: "('d, 'l) ArgInfo \<Rightarrow> bool" where
  "is_numeric (A_CHAR v) = False"
| "is_numeric (A_STRING p n) = False"
| "is_numeric A_WSTRING = False"
| "is_numeric (A_POINTER v) = False"
| "is_numeric (A_CUSTOM f) = False"
| "is_numeric _ = True"

fun is_unsigned_arg :: "('d, 'l) ArgInfo \<Rightarrow> bool" where
  "is_unsigned_arg (A_UINT v) = True"
| "is_unsigned_arg (A_ULONG v) = True"
| "is_unsigned_arg (A_ULONG_LONG v) = True"
| "is_unsigned_arg _ = False"

definition arg_short :: "16 word \<Rightarrow> ('d, 'l) ArgInfo" where "arg_short v = A_INT (scast v)"
definition arg_ushort :: "16 word \<Rightarrow> ('d, 'l) ArgInfo" where "arg_ushort v = A_UINT (ucast v)"
definition arg_char :: "char \<Rightarrow> ('d, 'l) ArgInfo" where "arg_char c = A_CHAR (wchar_of_char c)"
definition arg_c_str :: "string option \<Rightarrow> ('d, 'l) ArgInfo" where "arg_c_str p = A_STRING p 0"
definition arg_string :: "string \<Rightarrow> ('d, 'l) ArgInfo" where "arg_string s = A_STRING (Some s) (length s)"

definition arg_ref :: "StringRef \<Rightarrow> ('d, 'l) ArgInfo res" where
  "arg_ref r = ebind (StringRef_size r) (\<lambda>(n, r). Inr (A_STRING (sr_data r) n))"

text \<open>\<open>Format(w, spec, value)\<close>, the default for a custom type: \<open>os\<close> is what \<open>operator<<\<close> prints.\<close>

definition Format_default :: "('t \<Rightarrow> string) \<Rightarrow> 't \<Rightarrow> FormatSpec \<Rightarrow> writer \<Rightarrow> writer res" where
  "Format_default os value spec w = Write (os value) spec w"

definition FormatCustomArg :: "('t \<Rightarrow> string) \<Rightarrow> 't \<Rightarrow> FormatSpec \<Rightarrow> writer \<Rightarrow> writer res" where
  "FormatCustomArg os arg spec w = Format_default os arg spec w"

subsection \<open>Errors\<close>

definition quoted :: "char \<Rightarrow> string" where
  "quoted c = [CHR 0x27, c, CHR 0x27]"

definition unmatched_open :: failure where
  "unmatched_open = Throw (FormatError (''unmatched '' @ quoted (CHR ''{'') @ '' in format''))"

definition unmatched_close :: failure where
  "unmatched_close = Throw (FormatError (''unmatched '' @ quoted (CHR ''}'') @ '' in format''))"

definition peek :: "string \<Rightarrow> char" where
  "peek s = (case s of [] \<Rightarrow> NUL | c # _ \<Rightarrow> c)"

lemma peek_simps [simp]: "peek [] = NUL" "peek (c # s) = c"
  by (simp_all add: peek_def)

fun ReportError :: "int \<Rightarrow> string \<Rightarrow> string \<Rightarrow> failure" where
  "ReportError num_open_braces [] message = unmatched_open"
| "ReportError num_open_braces (c # s) message =
     (if c = CHR ''{'' then ReportError (num_open_braces + 1) s message
      else if c = CHR ''}'' then
        (if num_open_braces - 1 = 0 then Throw (FormatError message)
         else ReportError (num_open_braces - 1) s message)
      else ReportError num_open_braces s message)"

subsection \<open>Numbers, indices, signs\<close>

fun ParseUInt_loop :: "int \<Rightarrow> u32 \<Rightarrow> string \<Rightarrow> (u32 \<times> string) res" where
  "ParseUInt_loop braces value [] = Inr (value, [])"
| "ParseUInt_loop braces value (c # s) =
     (if is_digit_char c then
        (let new_value = value * 10 + of_nat (code c - 48)
         in if new_value < value then Inl (ReportError braces s ''number is too big in format'')
            else ParseUInt_loop braces new_value s)
      else Inr (value, c # s))"

definition ParseUInt :: "int \<Rightarrow> string \<Rightarrow> (u32 \<times> string) res" where
  "ParseUInt braces s =
     (if is_digit_char (peek s) then ParseUInt_loop braces 0 s else Inl (Assert ''digit''))"

text \<open>Returns the argument, the rest of the string and the new \<open>next_arg_index_\<close>.\<close>

definition ParseArgIndex ::
  "('d, 'l) ArgInfo list \<Rightarrow> int \<Rightarrow> int \<Rightarrow> string \<Rightarrow> (('d, 'l) ArgInfo \<times> string \<times> int) res" where
  "ParseArgIndex args braces next_arg s =
     ebind
       (if \<not> is_digit_char (peek s) then
          (if peek s \<noteq> CHR ''}'' \<and> peek s \<noteq> CHR '':'' then
             Inl (ReportError braces s ''invalid argument index in format string'')
           else if next_arg < 0 then
             Inl (ReportError braces s ''cannot switch from manual to automatic argument indexing'')
           else Inr (nat next_arg, s, next_arg + 1))
        else if next_arg > 0 then
          Inl (ReportError braces s ''cannot switch from automatic to manual argument indexing'')
        else ebind (ParseUInt braces s) (\<lambda>(v, s). Inr (unat v, s, -1)))
       (\<lambda>(arg_index, s, next_arg).
          if arg_index \<ge> length args then
            Inl (ReportError braces s ''argument index is out of range in format'')
          else Inr (args ! arg_index, s, next_arg))"

definition CheckSign :: "int \<Rightarrow> ('d, 'l) ArgInfo \<Rightarrow> string \<Rightarrow> string res" where
  "CheckSign braces arg s =
     (if \<not> is_numeric arg then
        Inl (ReportError braces s (''format specifier '' @ quoted (peek s) @ '' requires numeric argument''))
      else if is_unsigned_arg arg then
        Inl (ReportError braces s (''format specifier '' @ quoted (peek s) @ '' requires signed argument''))
      else Inr (tl s))"

subsection \<open>The parts of a replacement field\<close>

definition align_of_char :: "char \<Rightarrow> Alignment" where
  "align_of_char c =
     (if c = CHR ''<'' then ALIGN_LEFT else if c = CHR ''>'' then ALIGN_RIGHT
      else if c = CHR ''='' then ALIGN_NUMERIC else if c = CHR ''^'' then ALIGN_CENTER
      else ALIGN_DEFAULT)"

definition check_numeric_align ::
  "int \<Rightarrow> ('d, 'l) ArgInfo \<Rightarrow> FormatSpec \<Rightarrow> string \<Rightarrow> (FormatSpec \<times> string) res" where
  "check_numeric_align braces arg spec s =
     (if sp_align spec = ALIGN_NUMERIC \<and> \<not> is_numeric arg then
        Inl (ReportError braces s (''format specifier '' @ quoted (CHR ''='') @ '' requires numeric argument''))
      else Inr (spec, s))"

text \<open>Fill and alignment: the character behind the next one is looked at first.\<close>

definition ParseAlign ::
  "int \<Rightarrow> ('d, 'l) ArgInfo \<Rightarrow> FormatSpec \<Rightarrow> string \<Rightarrow> (FormatSpec \<times> string) res" where
  "ParseAlign braces arg spec s =
     (case s of
        [] \<Rightarrow> Inr (spec, s)
      | c # s1 \<Rightarrow>
        (if align_of_char (peek s1) \<noteq> ALIGN_DEFAULT then
           (let spec = spec\<lparr>sp_align := align_of_char (peek s1)\<rparr>
            in if c = CHR ''}'' then Inr (spec, s)
               else if c = CHR ''{'' then
                 Inl (ReportError braces s (''invalid fill character '' @ quoted (CHR ''{'')))
               else check_numeric_align braces arg (spec\<lparr>sp_fill := wchar_of_char c\<rparr>) (tl s1))
         else if align_of_char c \<noteq> ALIGN_DEFAULT then
           check_numeric_align braces arg (spec\<lparr>sp_align := align_of_char c\<rparr>) s1
         else Inr (spec\<lparr>sp_align := ALIGN_DEFAULT\<rparr>, s)))"

definition ParseSign ::
  "int \<Rightarrow> ('d, 'l) ArgInfo \<Rightarrow> FormatSpec \<Rightarrow> string \<Rightarrow> (FormatSpec \<times> string) res" where
  "ParseSign braces arg spec s =
     (if peek s = CHR ''+'' then
        ebind (CheckSign braces arg s) (\<lambda>s.
        Inr (spec\<lparr>sp_flags := sp_flags spec OR (SIGN_FLAG OR PLUS_FLAG)\<rparr>, s))
      else if peek s = CHR ''-'' then
        ebind (CheckSign braces arg s) (\<lambda>s. Inr (spec, s))
      else if peek s = CHR '' '' then
        ebind (CheckSign braces arg s) (\<lambda>s. Inr (spec\<lparr>sp_flags := sp_flags spec OR SIGN_FLAG\<rparr>, s))
      else Inr (spec, s))"

definition ParseHash ::
  "int \<Rightarrow> ('d, 'l) ArgInfo \<Rightarrow> FormatSpec \<Rightarrow> string \<Rightarrow> (FormatSpec \<times> string) res" where
  "ParseHash braces arg spec s =
     (if peek s = CHR ''#'' then
        (if \<not> is_numeric arg then
           Inl (ReportError braces s (''format specifier '' @ quoted (CHR ''#'') @ '' requires numeric argument''))
         else Inr (spec\<lparr>sp_flags := sp_flags spec OR HASH_FLAG\<rparr>, tl s))
      else Inr (spec, s))"

definition ParseWidth ::
  "int \<Rightarrow> ('d, 'l) ArgInfo \<Rightarrow> FormatSpec \<Rightarrow> string \<Rightarrow> (FormatSpec \<times> string) res" where
  "ParseWidth braces arg spec s =
     (if is_digit_char (peek s) then
        ebind
          (if peek s = CHR ''0'' then
             (if \<not> is_numeric arg then
                Inl (ReportError braces s (''format specifier '' @ quoted (CHR ''0'') @ '' requires numeric argument''))
              else Inr (spec\<lparr>sp_align := ALIGN_NUMERIC, sp_fill := 48\<rparr>))
           else Inr spec) (\<lambda>spec.
        ebind (ParseUInt braces s) (\<lambda>(value, s).
        if unat value > INT_MAX then Inl (ReportError braces s ''number is too big in format'')
        else Inr (spec\<lparr>sp_width := value\<rparr>, s)))
      else Inr (spec, s))"

text \<open>The value of a \<open>{...}\<close> precision argument, as an \<open>unsigned long long\<close>.\<close>

fun precision_value :: "int \<Rightarrow> string \<Rightarrow> ('d, 'l) ArgInfo \<Rightarrow> nat res" where
  "precision_value braces s (A_INT v) =
     (if sint v < 0 then Inl (ReportError braces s ''negative precision in format'') else Inr (unat v))"
| "precision_value braces s (A_UINT v) = Inr (unat v)"
| "precision_value braces s (A_LONG v) =
     (if sint v < 0 then Inl (ReportError braces s ''negative precision in format'') else Inr (unat v))"
| "precision_value braces s (A_ULONG v) = Inr (unat v)"
| "precision_value braces s (A_LONG_LONG v) =
     (if sint v < 0 then Inl (ReportError braces s ''negative precision in format'') else Inr (unat v))"
| "precision_value braces s (A_ULONG_LONG v) = Inr (unat v)"
| "precision_value braces s _ = Inl (ReportError braces s ''precision is not integer'')"

fun is_float_arg :: "('d, 'l) ArgInfo \<Rightarrow> bool" where
  "is_float_arg (A_DOUBLE v) = True"
| "is_float_arg (A_LONG_DOUBLE v) = True"
| "is_float_arg _ = False"

definition ParsePrecision ::
  "('d, 'l) ArgInfo list \<Rightarrow> int \<Rightarrow> int \<Rightarrow> ('d, 'l) ArgInfo \<Rightarrow> string \<Rightarrow> (int \<times> string \<times> int) res" where
  "ParsePrecision args braces next_arg arg s =
     (if peek s = CHR ''.'' then
        ebind
          (let s = tl s
           in if is_digit_char (peek s) then
                ebind (ParseUInt braces s) (\<lambda>(value, s).
                if unat value > INT_MAX then Inl (ReportError braces s ''number is too big in format'')
                else Inr (int (unat value), s, next_arg))
              else if peek s = CHR ''{'' then
                ebind (ParseArgIndex args (braces + 1) next_arg (tl s)) (\<lambda>(precision_arg, s, next_arg).
                ebind (precision_value (braces + 1) s precision_arg) (\<lambda>value.
                if value > INT_MAX then Inl (ReportError (braces + 1) s ''number is too big in format'')
                else if peek s \<noteq> CHR ''}'' then Inl unmatched_open
                else Inr (int value, tl s, next_arg)))
              else Inl (ReportError braces s ''missing precision in format'')) (\<lambda>(precision, s, next_arg).
        if \<not> is_float_arg arg then
          Inl (ReportError braces s ''precision specifier requires floating-point argument'')
        else Inr (precision, s, next_arg))
      else Inr (-1, s, next_arg))"

definition ParseType :: "FormatSpec \<Rightarrow> string \<Rightarrow> FormatSpec \<times> string" where
  "ParseType spec s =
     (if peek s \<noteq> CHR ''}'' \<and> peek s \<noteq> NUL then (spec\<lparr>sp_type := peek s\<rparr>, tl s) else (spec, s))"

text \<open>A whole field, from behind its opening brace to behind its closing one.\<close>

definition ParseField ::
  "('d, 'l) ArgInfo list \<Rightarrow> int \<Rightarrow> string
     \<Rightarrow> (('d, 'l) ArgInfo \<times> FormatSpec \<times> int \<times> string \<times> int) res" where
  "ParseField args next_arg s =
     ebind (ParseArgIndex args 1 next_arg s) (\<lambda>(arg, s, next_arg).
     ebind
       (if peek s = CHR '':'' then
          ebind (ParseAlign 1 arg new_FormatSpec (tl s)) (\<lambda>(spec, s).
          ebind (ParseSign 1 arg spec s) (\<lambda>(spec, s).
          ebind (ParseHash 1 arg spec s) (\<lambda>(spec, s).
          ebind (ParseWidth 1 arg spec s) (\<lambda>(spec, s).
          ebind (ParsePrecision args 1 next_arg arg s) (\<lambda>(precision, s, next_arg).
          Inr (ParseType spec s, precision, next_arg))))))
        else Inr ((new_FormatSpec, s), -1, next_arg)) (\<lambda>((spec, s), precision, next_arg).
     if peek s \<noteq> CHR ''}'' then Inl unmatched_open
     else Inr (arg, spec, precision, tl s, next_arg)))"

subsection \<open>Formatting one argument\<close>

text \<open>What formatting needs of the C library for the two floating-point types, and the fuel.\<close>

record ('d, 'l) fmt_env =
  env_double :: "'d fp"
  env_long :: "'l fp"
  env_fuel :: nat

definition put_character :: "char \<Rightarrow> FormatSpec \<Rightarrow> int \<Rightarrow> char mem \<Rightarrow> (int \<times> char mem) res" where
  "put_character c spec out m =
     (let width = unat (sp_width spec); fill = char_of_wchar (sp_fill spec)
      in ebind
           (if width > 1 then
              (if sp_align spec = ALIGN_RIGHT then
                 ebind (fill_n out (width - 1) fill m) (\<lambda>m. Inr (out + int (width - 1), m))
               else if sp_align spec = ALIGN_CENTER then
                 FillPadding out width 1 (wchar_of_char fill) m
               else ebind (fill_n (out + 1) (width - 1) fill m) (\<lambda>m. Inr (out, m)))
            else Inr (out, m)) (\<lambda>(out, m).
         ebind (mstore out c m) (\<lambda>m. Inr (out, m))))"

definition FormatChar :: "u32 \<Rightarrow> FormatSpec \<Rightarrow> writer \<Rightarrow> writer res" where
  "FormatChar v spec w =
     (if sp_type spec \<noteq> NUL \<and> sp_type spec \<noteq> CHR ''c'' then Inl (ReportUnknownType (sp_type spec) ''char'')
      else ebind (GrowBuffer (if unat (sp_width spec) > 1 then unat (sp_width spec) else 1) w) (\<lambda>(out, w).
           ebind (on_storage (put_character (char_of_wchar v) spec out) w) (\<lambda>(out, w). Inr w)))"

definition FormatStringArg :: "string option \<Rightarrow> nat \<Rightarrow> FormatSpec \<Rightarrow> writer \<Rightarrow> writer res" where
  "FormatStringArg str n spec w =
     (if sp_type spec \<noteq> NUL \<and> sp_type spec \<noteq> CHR ''s'' then Inl (ReportUnknownType (sp_type spec) ''string'')
      else
        ebind
          (if n = 0 then
             (case str of
                None \<Rightarrow> Inl (Throw (FormatError ''string pointer is null''))
              | Some m \<Rightarrow> Inr (if peek m \<noteq> NUL then strlen m else 0))
           else Inr n) (\<lambda>n.
        ebind (read_chars str n) (\<lambda>s.
        ebind (FormatString s (AlignSpec.truncate spec) w) (\<lambda>(p, w). Inr w))))"

fun FormatArg ::
  "('d, 'l) fmt_env \<Rightarrow> ('d, 'l) ArgInfo \<Rightarrow> FormatSpec \<Rightarrow> int \<Rightarrow> writer \<Rightarrow> writer res option" where
  "FormatArg E (A_INT v) spec precision w = Some (FormatInt True v (FullSpec spec) w)"
| "FormatArg E (A_UINT v) spec precision w = Some (FormatInt False v (FullSpec spec) w)"
| "FormatArg E (A_LONG v) spec precision w = Some (FormatInt True v (FullSpec spec) w)"
| "FormatArg E (A_ULONG v) spec precision w = Some (FormatInt False v (FullSpec spec) w)"
| "FormatArg E (A_LONG_LONG v) spec precision w = Some (FormatInt True v (FullSpec spec) w)"
| "FormatArg E (A_ULONG_LONG v) spec precision w = Some (FormatInt False v (FullSpec spec) w)"
| "FormatArg E (A_DOUBLE v) spec precision w =
     FormatDouble (env_fuel E) (env_double E) False v spec precision w"
| "FormatArg E (A_LONG_DOUBLE v) spec precision w =
     FormatDouble (env_fuel E) (env_long E) True v spec precision w"
| "FormatArg E (A_CHAR v) spec precision w = Some (FormatChar v spec w)"
| "FormatArg E (A_STRING str n) spec precision w = Some (FormatStringArg str n spec w)"
| "FormatArg E (A_POINTER v) spec precision w =
     Some (if sp_type spec \<noteq> NUL \<and> sp_type spec \<noteq> CHR ''p'' then
             Inl (ReportUnknownType (sp_type spec) ''pointer'')
           else FormatInt False v (FullSpec (spec\<lparr>sp_flags := HASH_FLAG, sp_type := CHR ''x''\<rparr>)) w)"
| "FormatArg E (A_CUSTOM f) spec precision w =
     Some (if sp_type spec \<noteq> NUL then Inl (ReportUnknownType (sp_type spec) ''object'') else f spec w)"
| "FormatArg E A_WSTRING spec precision w = Some (Inl (Assert ''false''))"

subsection \<open>Progress of the parser\<close>

lemma ParseUInt_loop_shrinks: "ParseUInt_loop b v s = Inr (v', s') \<Longrightarrow> length s' \<le> length s"
  by (induction b v s rule: ParseUInt_loop.induct) (fastforce simp: Let_def split: if_splits)+

lemma ParseUInt_shrinks: "ParseUInt b s = Inr (v, s') \<Longrightarrow> length s' \<le> length s"
  by (auto simp: ParseUInt_def split: if_splits dest: ParseUInt_loop_shrinks)

lemma ParseArgIndex_shrinks: "ParseArgIndex args b i s = Inr (a, s', i') \<Longrightarrow> length s' \<le> length s"
  by (auto simp: ParseArgIndex_def ebind_Inr_iff split: if_splits dest: ParseUInt_shrinks)

lemma CheckSign_shrinks: "CheckSign b arg s = Inr s' \<Longrightarrow> length s' \<le> length s"
  by (auto simp: CheckSign_def split: if_splits)

lemma ParseAlign_shrinks: "ParseAlign b arg spec s = Inr (spec', s') \<Longrightarrow> length s' \<le> length s"
  by (auto simp: ParseAlign_def check_numeric_align_def Let_def split: list.splits if_splits)

lemma ParseSign_shrinks: "ParseSign b arg spec s = Inr (spec', s') \<Longrightarrow> length s' \<le> length s"
  by (auto simp: ParseSign_def ebind_Inr_iff split: if_splits dest: CheckSign_shrinks)

lemma ParseHash_shrinks: "ParseHash b arg spec s = Inr (spec', s') \<Longrightarrow> length s' \<le> length s"
  by (auto simp: ParseHash_def split: if_splits)

lemma ParseWidth_shrinks: "ParseWidth b arg spec s = Inr (spec', s') \<Longrightarrow> length s' \<le> length s"
  by (auto simp: ParseWidth_def ebind_Inr_iff split: if_splits dest: ParseUInt_shrinks)

lemma ParsePrecision_shrinks:
  "ParsePrecision args b i arg s = Inr (p, s', i') \<Longrightarrow> length s' \<le> length s"
  by (fastforce simp: ParsePrecision_def ebind_Inr_iff Let_def split: if_splits
      dest: ParseUInt_shrinks ParseArgIndex_shrinks)

lemma ParseType_shrinks: "ParseType spec s = (spec', s') \<Longrightarrow> length s' \<le> length s"
  by (auto simp: ParseType_def split: if_splits)

lemmas field_shrinks = ParseArgIndex_shrinks ParseAlign_shrinks ParseSign_shrinks ParseHash_shrinks
  ParseWidth_shrinks ParsePrecision_shrinks ParseType_shrinks

lemma ParseField_shrinks:
  "ParseField args i s = Inr (arg, spec, precision, s', i') \<Longrightarrow> length s' \<le> length s"
  by (fastforce simp: ParseField_def ebind_Inr_iff split: if_splits dest: field_shrinks)

subsection \<open>The format loop\<close>

text \<open>\<open>lit\<close> is the text from \<open>start\<close> up to \<open>s\<close>, not yet written.\<close>

function Format_loop ::
  "('d, 'l) fmt_env \<Rightarrow> ('d, 'l) ArgInfo list \<Rightarrow> int \<Rightarrow> string \<Rightarrow> string \<Rightarrow> writer \<Rightarrow> writer res option" where
  "Format_loop E args next_arg lit [] w = Some (append_arr lit w)"
| "Format_loop E args next_arg lit (c # s) w =
     (if c \<noteq> CHR ''{'' \<and> c \<noteq> CHR ''}'' then Format_loop E args next_arg (lit @ [c]) s w
      else if peek s = c then
        obind (Some (append_arr (lit @ [c]) w)) (\<lambda>w. Format_loop E args next_arg [] (tl s) w)
      else if c = CHR ''}'' then Some (Inl unmatched_close)
      else
        obind (Some (append_arr lit w)) (\<lambda>w.
        obind (Some (ParseField args next_arg s)) (\<lambda>(arg, spec, precision, s, next_arg).
        obind (FormatArg E arg spec precision w) (\<lambda>w. Format_loop E args next_arg [] s w))))"
  by pat_completeness auto
termination
  by (relation "measure (\<lambda>(E, args, i, lit, s, w). length s)")
    (auto dest: ParseField_shrinks simp: less_Suc_eq_le le_SucI)

text \<open>\<open>VFormat\<close> and \<open>FormatParser::Format\<close>: the format is read up to its terminator.\<close>

definition Format ::
  "('d, 'l) fmt_env \<Rightarrow> string \<Rightarrow> ('d, 'l) ArgInfo list \<Rightarrow> writer \<Rightarrow> writer res option" where
  "Format E format args w = Format_loop E args 0 [] (c_text format) w"

definition VFormat ::
  "('d, 'l) fmt_env \<Rightarrow> StringRef \<Rightarrow> ('d, 'l) ArgInfo list \<Rightarrow> writer \<Rightarrow> writer res option" where
  "VFormat E format args w =
     (case sr_data format of
        None \<Rightarrow> Some (Inl (Undefined NullDeref))
      | Some m \<Rightarrow> Format E m args w)"

subsection \<open>Numbers\<close>

lemma dec_value_mono: "acc \<le> dec_value acc ds"
proof (induction ds arbitrary: acc)
  case (Cons d ds)
  have "acc \<le> acc * 10 + (code d - 48)" by simp
  with Cons [of "acc * 10 + (code d - 48)"] show ?case by simp
qed simp

lemma ParseUInt_loop_stop: "\<not> is_digit_char (peek rest) \<Longrightarrow> ParseUInt_loop b v rest = Inr (v, rest)"
  by (cases rest) auto

lemma ParseUInt_loop_result:
  assumes "\<forall>d \<in> set ds. is_digit_char d" and "\<not> is_digit_char (peek rest)"
    and "ParseUInt_loop b (of_nat a) (ds @ rest) = Inr (v, s)"
  shows "v = of_nat (dec_value a ds) \<and> s = rest"
  using assms(1,3)
proof (induction ds arbitrary: a)
  case Nil
  then show ?case using ParseUInt_loop_stop [OF assms(2)] by simp
next
  case (Cons d ds)
  have step: "(of_nat a :: u32) * 10 + of_nat (code d - 48) = of_nat (a * 10 + (code d - 48))" by simp
  have "ParseUInt_loop b (of_nat (a * 10 + (code d - 48))) (ds @ rest) = Inr (v, s)"
    using Cons.prems unfolding append.simps ParseUInt_loop.simps Let_def step by (auto split: if_splits)
  with Cons.IH [OF _ this] Cons.prems(1) show ?case by simp
qed

lemma unat_u32_of_nat: "n < 2 ^ 32 \<Longrightarrow> unat (of_nat n :: u32) = n"
  by (simp add: unat_of_nat)

lemma ParseUInt_loop_in_range:
  assumes "\<forall>d \<in> set ds. is_digit_char d" and "\<not> is_digit_char (peek rest)"
    and "dec_value a ds < 2 ^ 32"
  shows "ParseUInt_loop b (of_nat a) (ds @ rest) = Inr (of_nat (dec_value a ds), rest)"
  using assms(1,3)
proof (induction ds arbitrary: a)
  case Nil
  then show ?case using ParseUInt_loop_stop [OF assms(2)] by simp
next
  case (Cons d ds)
  let ?n = "a * 10 + (code d - 48)"
  have step: "(of_nat a :: u32) * 10 + of_nat (code d - 48) = of_nat ?n" by simp
  have "?n \<le> dec_value ?n ds" by (rule dec_value_mono)
  then have n: "?n < 2 ^ 32" using Cons.prems(2) by simp
  then have a: "a < 2 ^ 32" by simp
  have "\<not> of_nat ?n < (of_nat a :: u32)"
    unfolding word_less_nat_alt unat_u32_of_nat [OF n] unat_u32_of_nat [OF a] by simp
  then have "ParseUInt_loop b (of_nat a) ((d # ds) @ rest) = ParseUInt_loop b (of_nat ?n) (ds @ rest)"
    using Cons.prems(1) unfolding append.simps ParseUInt_loop.simps Let_def step by simp
  also have "\<dots> = Inr (of_nat (dec_value ?n ds), rest)" using Cons.IH [of ?n] Cons.prems by simp
  finally show ?case by simp
qed

lemma ParseUInt_in_range:
  assumes "ds \<noteq> []" and "\<forall>d \<in> set ds. is_digit_char d" and "\<not> is_digit_char (peek rest)"
    and "dec_value 0 ds < 2 ^ 32"
  shows "ParseUInt b (ds @ rest) = Inr (of_nat (dec_value 0 ds), rest)"
  using ParseUInt_loop_in_range [OF assms(2-4), of b] assms(1,2)
  by (cases ds) (simp_all add: ParseUInt_def del: ParseUInt_loop.simps)

text \<open>
  \<open>ParseUInt\<close> reads exactly the leading digits. A number that fits an \<open>unsigned\<close> is read
  correctly. For a larger one the wrap-around test may or may not notice: whenever a number is
  returned it is the digits' value modulo \<open>2 ^ 32\<close>.
\<close>

theorem ParseUInt_value:
  assumes "ds \<noteq> []" and "\<forall>d \<in> set ds. is_digit_char d" and "\<not> is_digit_char (peek rest)"
  shows "(dec_value 0 ds < 2 ^ 32 \<longrightarrow>
            (\<exists>v. ParseUInt braces (ds @ rest) = Inr (v, rest) \<and> unat v = dec_value 0 ds))
    \<and> (\<forall>v s. ParseUInt braces (ds @ rest) = Inr (v, s) \<longrightarrow> s = rest \<and> unat v = dec_value 0 ds mod 2 ^ 32)"
proof (intro conjI impI allI)
  assume lt: "dec_value 0 ds < 2 ^ 32"
  then have "unat (of_nat (dec_value 0 ds) :: u32) = dec_value 0 ds" by (simp add: unat_of_nat)
  with ParseUInt_in_range [OF assms lt]
  show "\<exists>v. ParseUInt braces (ds @ rest) = Inr (v, rest) \<and> unat v = dec_value 0 ds" by blast
next
  fix v s
  assume "ParseUInt braces (ds @ rest) = Inr (v, s)"
  then have "ParseUInt_loop braces (of_nat 0) (ds @ rest) = Inr (v, s)"
    by (simp add: ParseUInt_def split: if_splits)
  with ParseUInt_loop_result [OF assms(2,3)] have "v = of_nat (dec_value 0 ds)" "s = rest" by blast+
  then show "s = rest" and "unat v = dec_value 0 ds mod 2 ^ 32" by (simp_all add: unat_of_nat)
qed

text \<open>Five thousand million is one of the numbers the test misses.\<close>

theorem ParseUInt_value_witness:
  "\<exists>v. ParseUInt 1 (''4294967295'' @ ''}'') = Inr (v, ''}'') \<and> unat v = 4294967295"
proof -
  have "dec_value 0 ''4294967295'' = 4294967295" by (simp add: code_def)
  with ParseUInt_value [of "''4294967295''" "''}''" 1] show ?thesis
    by (simp add: is_digit_char_def code_def)
qed

lemma ParseUInt_misses_wrap: "ParseUInt 1 ''5000000000}'' = Inr (705032704, ''}'')"
  by (simp add: ParseUInt_def is_digit_char_def code_def Let_def)

subsection \<open>Capacity never shrinks\<close>

lemma capacity_Grow: "Grow n w = Inr w' \<Longrightarrow> a_capacity w \<le> a_capacity w'"
  by (auto simp: Grow_def Let_def split: if_splits)

lemma capacity_resize: "resize n w = Inr w' \<Longrightarrow> a_capacity w \<le> a_capacity w'"
  by (auto simp: resize_def ebind_Inr_iff split: if_splits dest: capacity_Grow)

lemma capacity_with_storage: "with_storage f w = Inr w' \<Longrightarrow> a_capacity w' = a_capacity w"
  by (auto simp: with_storage_def ebind_Inr_iff)

lemma capacity_on_storage: "on_storage f w = Inr (p, w') \<Longrightarrow> a_capacity w' = a_capacity w"
  by (auto simp: on_storage_def ebind_Inr_iff)

lemma capacity_GrowBuffer: "GrowBuffer n w = Inr (p, w') \<Longrightarrow> a_capacity w \<le> a_capacity w'"
  by (auto simp: GrowBuffer_def ebind_Inr_iff dest: capacity_resize)

lemmas capacity_steps = capacity_GrowBuffer capacity_with_storage capacity_on_storage

lemma capacity_PrepareFilledBuffer:
  "PrepareFilledBuffer n spec sign w = Inr (p, w') \<Longrightarrow> a_capacity w \<le> a_capacity w'"
  by (cases spec) (auto simp: PrepareFilledBuffer_empty_def PrepareFilledBuffer_align_def ebind_Inr_iff
      split: if_splits dest!: capacity_steps)

lemma capacity_FormatInt_radix:
  "FormatInt_radix r n sz sign spec w = Inr w' \<Longrightarrow> a_capacity w \<le> a_capacity w'"
  unfolding FormatInt_radix_def Let_def
  by (elim ebind_InrE) (fastforce elim: ebind_InrE split: prod.splits
      dest!: capacity_PrepareFilledBuffer capacity_on_storage)

lemma capacity_FormatInt: "FormatInt is_signed v spec w = Inr w' \<Longrightarrow> a_capacity w \<le> a_capacity w'"
  unfolding FormatInt_def Let_def
  by (auto simp: ebind_Inr_iff split: if_splits
      dest!: capacity_FormatInt_radix capacity_PrepareFilledBuffer capacity_with_storage)

lemma capacity_FormatString: "FormatString str spec w = Inr (p, w') \<Longrightarrow> a_capacity w \<le> a_capacity w'"
  unfolding FormatString_def by (auto simp: ebind_Inr_iff dest!: capacity_GrowBuffer capacity_on_storage)

lemma capacity_append: "append_arr lit w = Inr w' \<Longrightarrow> a_capacity w \<le> a_capacity w'"
  by (auto simp: append_arr_def Let_def poke_cells_def ebind_Inr_iff split: if_splits
      dest!: capacity_Grow capacity_with_storage)

subsection \<open>What an argument stands for\<close>

definition int_text :: "bool \<Rightarrow> 'a::len word \<Rightarrow> FormatSpec \<Rightarrow> string res" where
  "int_text is_signed v spec =
     (case int_body (FullSpec spec) (nat \<bar>int_value is_signed v\<bar>) of
        None \<Rightarrow> Inl (ReportUnknownType (sp_type spec) ''integer'')
      | Some body \<Rightarrow> Inr (spec_layout (FullSpec spec) (sign_text (int_sign is_signed v (FullSpec spec))) body))"

fun arg_layout :: "('d, 'l) ArgInfo \<Rightarrow> FormatSpec \<Rightarrow> string res" where
  "arg_layout (A_INT v) spec = int_text True v spec"
| "arg_layout (A_UINT v) spec = int_text False v spec"
| "arg_layout (A_LONG v) spec = int_text True v spec"
| "arg_layout (A_ULONG v) spec = int_text False v spec"
| "arg_layout (A_LONG_LONG v) spec = int_text True v spec"
| "arg_layout (A_ULONG_LONG v) spec = int_text False v spec"
| "arg_layout (A_CHAR v) spec =
     (if sp_type spec \<in> {NUL, CHR ''c''} then Inr (str_layout (AlignSpec.truncate spec) [char_of_wchar v])
      else Inl (ReportUnknownType (sp_type spec) ''char''))"
| "arg_layout (A_STRING str n) spec =
     (if sp_type spec \<in> {NUL, CHR ''s''} then
        (case str of
           None \<Rightarrow> if n = 0 then Inl (Throw (FormatError ''string pointer is null'')) else Inl (Undefined NullDeref)
         | Some m \<Rightarrow> ebind (read_chars str (if n = 0 then strlen m else n)) (\<lambda>s.
                     Inr (str_layout (AlignSpec.truncate spec) s)))
      else Inl (ReportUnknownType (sp_type spec) ''string''))"
| "arg_layout (A_POINTER v) spec =
     (if sp_type spec \<in> {NUL, CHR ''p''}
      then int_text False v (spec\<lparr>sp_flags := HASH_FLAG, sp_type := CHR ''x''\<rparr>)
      else Inl (ReportUnknownType (sp_type spec) ''pointer''))"
| "arg_layout _ spec = Inl (Assert ''no plain argument'')"

fun is_plain :: "('d, 'l) ArgInfo \<Rightarrow> bool" where
  "is_plain (A_DOUBLE v) = False"
| "is_plain (A_LONG_DOUBLE v) = False"
| "is_plain (A_CUSTOM f) = False"
| "is_plain A_WSTRING = False"
| "is_plain _ = True"

text \<open>A routine appends a text, or fails the way the text says.\<close>

definition appends :: "writer \<Rightarrow> string res \<Rightarrow> writer res \<Rightarrow> bool" where
  "appends w t r =
     (case t of
        Inl e \<Rightarrow> r = Inl e
      | Inr s \<Rightarrow> (\<exists>w'. r = Inr w' \<and> arr_ok w' \<and> cells w' = cells w @ map Some s \<and> a_capacity w \<le> a_capacity w'))"

lemma appends_int:
  fixes v :: "'a::len word"
  assumes "arr_ok w" and "LENGTH('a) \<le> 64"
  shows "appends w (int_text is_signed v spec) (FormatInt is_signed v (FullSpec spec) w)"
  using FormatInt_ok [OF assms, where spec = "FullSpec spec" and is_signed = is_signed and v = v]
  by (auto simp: appends_def int_text_def split: option.splits dest: capacity_FormatInt)

lemma put_character_string: "put_character c spec = put_string [c] (AlignSpec.truncate spec)"
  by (simp add: put_character_def put_string_def AlignSpec.truncate_def Let_def copy_in_def mstore_def fun_eq_iff)

lemma appends_string:
  assumes "arr_ok w"
  shows "appends w (Inr (str_layout (AlignSpec.truncate spec) s))
    (ebind (FormatString s (AlignSpec.truncate spec) w) (\<lambda>(p, w). Inr w))"
proof -
  obtain w' where "FormatString s (AlignSpec.truncate spec) w
      = Inr (int (length (cells w) + str_left (AlignSpec.truncate spec) (length s)), w')"
    "arr_ok w'" "cells w' = cells w @ map Some (str_layout (AlignSpec.truncate spec) s)"
    using assms by (rule FormatString_ok)
  then show ?thesis by (auto simp: appends_def dest: capacity_FormatString)
qed

lemma appends_char:
  assumes "arr_ok w"
  shows "appends w (arg_layout (A_CHAR v) spec) (FormatChar v spec w)"
proof -
  have "sp_width (AlignSpec.truncate spec) = sp_width spec" by (simp add: AlignSpec.truncate_def)
  then have "ebind (GrowBuffer (if unat (sp_width spec) > 1 then unat (sp_width spec) else 1) w) (\<lambda>(out, w).
           ebind (on_storage (put_character (char_of_wchar v) spec out) w) (\<lambda>(out, w). Inr w))
      = ebind (FormatString [char_of_wchar v] (AlignSpec.truncate spec) w) (\<lambda>(p, w). Inr w)"
    by (auto simp: FormatString_def put_character_string ebind_assoc split_def)
  with appends_string [OF assms, of spec "[char_of_wchar v]"] show ?thesis
    by (simp add: FormatChar_def appends_def)
qed

lemma appends_string_arg:
  assumes "arr_ok w"
  shows "appends w (arg_layout (A_STRING str n) spec) (FormatStringArg str n spec w)"
proof (cases str)
  case None
  then show ?thesis by (simp add: FormatStringArg_def appends_def read_chars_def)
next
  case (Some m)
  have len: "(if peek m \<noteq> NUL then strlen m else 0) = strlen m"
    by (cases m) (simp_all add: strlen_def c_text_def)
  show ?thesis
  proof (cases "read_chars str (if n = 0 then strlen m else n)")
    case (Inl e)
    then show ?thesis using Some len by (auto simp: FormatStringArg_def appends_def split: if_splits)
  next
    case (Inr s)
    then show ?thesis using Some len appends_string [OF assms, of spec s]
      by (auto simp: FormatStringArg_def appends_def split: if_splits)
  qed
qed

lemma FormatArg_ok:
  assumes "arr_ok w" and "is_plain arg"
  shows "\<exists>r. FormatArg E arg spec precision w = Some r \<and> appends w (arg_layout arg spec) r"
proof (cases arg)
  case (A_CHAR v)
  with appends_char [OF assms(1), of v spec] show ?thesis by (simp del: arg_layout.simps)
next
  case (A_STRING str n)
  with appends_string_arg [OF assms(1), of str n spec] show ?thesis by (simp del: arg_layout.simps)
next
  case (A_POINTER v)
  show ?thesis
  proof (cases "sp_type spec \<in> {NUL, CHR ''p''}")
    case True
    with A_POINTER appends_int [OF assms(1), of False v "spec\<lparr>sp_flags := HASH_FLAG, sp_type := CHR ''x''\<rparr>"]
    show ?thesis by auto
  next
    case False
    then show ?thesis by (simp add: A_POINTER appends_def)
  qed
qed (use assms(2) in \<open>simp_all add: appends_int [OF assms(1)]\<close>)

text \<open>
  An argument of any type but the floating-point and custom ones is formatted to exactly the
  text its type, value and specifier stand for: a number in its base, sign, prefix, width, fill
  and alignment; a character or string padded; a pointer as prefixed hexadecimal. A format code
  that does not suit the type throws, and so does a null string pointer. Nothing else happens.
\<close>

theorem FormatArg_refines:
  assumes "arr_ok w" and "is_plain arg"
  shows "case arg_layout arg spec of
      Inl e \<Rightarrow> FormatArg E arg spec precision w = Some (Inl e)
    | Inr s \<Rightarrow> (\<exists>w'. FormatArg E arg spec precision w = Some (Inr w') \<and> arr_ok w'
        \<and> cells w' = cells w @ map Some s)"
proof -
  obtain r where "FormatArg E arg spec precision w = Some r" "appends w (arg_layout arg spec) r"
    using FormatArg_ok [OF assms] by blast
  then show ?thesis by (auto simp: appends_def split: sum.splits)
qed

definition tenths_env :: "(int, int) fmt_env" where
  "tenths_env = \<lparr>env_double = tenths, env_long = tenths, env_fuel = 2\<rparr>"

theorem FormatArg_refines_witness:
  "FormatArg tenths_env (A_STRING None 0) new_FormatSpec (-1) new_writer
     = Some (Inl (Throw (FormatError ''string pointer is null'')))"
  using FormatArg_refines [OF arr_ok_new_writer, where arg = "A_STRING None 0" and spec = new_FormatSpec
      and E = tenths_env and precision = "-1"]
  by (simp add: new_FormatSpec_def)

subsection \<open>The parser without the buffer\<close>

function format_text :: "('d, 'l) ArgInfo list \<Rightarrow> int \<Rightarrow> string \<Rightarrow> string res" where
  "format_text args i [] = Inr []"
| "format_text args i (c # s) =
     (if c \<noteq> CHR ''{'' \<and> c \<noteq> CHR ''}'' then ebind (format_text args i s) (\<lambda>t. Inr (c # t))
      else if peek s = c then ebind (format_text args i (tl s)) (\<lambda>t. Inr (c # t))
      else if c = CHR ''}'' then Inl unmatched_close
      else ebind (ParseField args i s) (\<lambda>(arg, spec, precision, s, i).
           ebind (arg_layout arg spec) (\<lambda>t. ebind (format_text args i s) (\<lambda>t'. Inr (t @ t')))))"
  by pat_completeness auto
termination
  by (relation "measure (\<lambda>(args, i, s). length s)")
    (auto dest: ParseField_shrinks simp: less_Suc_eq_le le_SucI)

lemma ParseArgIndex_arg: "ParseArgIndex args b i s = Inr (arg, s', i') \<Longrightarrow> arg \<in> set args"
  by (auto simp: ParseArgIndex_def ebind_Inr_iff split: if_splits)

lemma ParseField_arg: "ParseField args i s = Inr (arg, spec, precision, s', i') \<Longrightarrow> arg \<in> set args"
  by (auto simp: ParseField_def ebind_Inr_iff split: if_splits dest: ParseArgIndex_arg)

lemma ebind_Inr_id: "ebind m (\<lambda>t. Inr t) = m"
  by (cases m) simp_all

lemma appends_append:
  assumes "arr_ok w" and "2 * length lit \<le> a_capacity w"
  shows "appends w (Inr lit) (append_arr lit w)"
proof -
  have "a_size w \<le> a_capacity w" using assms(1) by (simp add: arr_ok_def)
  then have "a_size w + length lit \<le> max (length lit) (a_capacity w + a_capacity w div 2)"
    using assms(2) by linarith
  then show ?thesis
    using append_arr_cases [OF assms(1), of lit] by (auto simp: appends_def dest: capacity_append)
qed

text \<open>One text after another.\<close>

lemma appends_obind:
  assumes "appends w t r"
    and "\<And>s w'. t = Inr s \<Longrightarrow> r = Inr w' \<Longrightarrow> arr_ok w' \<Longrightarrow> a_capacity w \<le> a_capacity w' \<Longrightarrow>
      \<exists>r'. f w' = Some r' \<and> appends w' u r'"
  shows "\<exists>r'. obind (Some r) f = Some r' \<and> appends w (ebind t (\<lambda>s. ebind u (\<lambda>s'. Inr (s @ s')))) r'"
proof (cases t)
  case (Inl e)
  with assms(1) show ?thesis by (simp add: appends_def)
next
  case (Inr s)
  with assms(1) obtain w' where w': "r = Inr w'" "arr_ok w'" "cells w' = cells w @ map Some s"
    "a_capacity w \<le> a_capacity w'" by (auto simp: appends_def)
  then obtain r' where "f w' = Some r'" "appends w' u r'" using assms(2) Inr by blast
  with w' Inr show ?thesis by (auto simp: appends_def split: sum.splits)
qed

lemma Format_loop_ok:
  "\<forall>arg \<in> set args. is_plain arg \<Longrightarrow> arr_ok w \<Longrightarrow> 2 * (length lit + length s) \<le> a_capacity w \<Longrightarrow>
    \<exists>r. Format_loop E args i lit s w = Some r
      \<and> appends w (ebind (format_text args i s) (\<lambda>t. Inr (lit @ t))) r"
proof (induction args i s arbitrary: lit w rule: format_text.induct)
  case (1 args i)
  then show ?case by (simp add: appends_append)
next
  case (2 args i c s)
  note IH = 2(1) 2(2) 2(3) and plain = 2(4) and ok = 2(5) and room = 2(6)
  have tl: "length (tl s) \<le> length s" by simp
  consider "c \<noteq> CHR ''{'' \<and> c \<noteq> CHR ''}''"
    | "\<not> (c \<noteq> CHR ''{'' \<and> c \<noteq> CHR ''}'')" "peek s = c"
    | "c = CHR ''}''" "peek s \<noteq> c" | "c = CHR ''{''" "peek s \<noteq> c" by blast
  then show ?case
  proof cases
    case 1
    then show ?thesis using 1 IH(1) [of w "lit @ [c]"] plain ok room by (simp add: ebind_assoc)
  next
    case 2
    have "\<exists>r'. obind (Some (append_arr (lit @ [c]) w)) (\<lambda>w. Format_loop E args i [] (tl s) w) = Some r'
        \<and> appends w (ebind (Inr (lit @ [c])) (\<lambda>t. ebind (format_text args i (tl s)) (\<lambda>t'. Inr (t @ t')))) r'"
    proof (rule appends_obind)
      show "appends w (Inr (lit @ [c])) (append_arr (lit @ [c]) w)"
        by (rule appends_append [OF ok]) (use room in simp)
      fix w' :: writer
      assume "arr_ok w'" "a_capacity w \<le> a_capacity w'"
      then show "\<exists>r'. Format_loop E args i [] (tl s) w' = Some r' \<and> appends w' (format_text args i (tl s)) r'"
        using IH(2) [OF 2 plain, of w' "[]"] room tl by (simp add: ebind_Inr_id)
    qed
    with 2 show ?thesis by (auto simp: ebind_assoc)
  next
    case 3
    then show ?thesis by (simp add: appends_def)
  next
    case 4
    show ?thesis
    proof (cases "ParseField args i s")
      case (Inl e)
      with 4 appends_append [OF ok, of lit] room show ?thesis by (auto simp: appends_def)
    next
      case (Inr x)
      obtain arg spec precision s' i' where "x = (arg, spec, precision, s', i')" by (cases x)
      with Inr have x: "ParseField args i s = Inr (arg, spec, precision, s', i')" by simp
      have shorter: "length s' \<le> length s" using x by (rule ParseField_shrinks)
      have arg: "is_plain arg" using plain ParseField_arg [OF x] by blast
      let ?rest = "\<lambda>w. Format_loop E args i' [] s' w"
      have field: "\<exists>r. obind (FormatArg E arg spec precision v) ?rest = Some r
          \<and> appends v (ebind (arg_layout arg spec) (\<lambda>t. ebind (format_text args i' s') (\<lambda>t'. Inr (t @ t')))) r"
        if v: "arr_ok v" "a_capacity w \<le> a_capacity v" for v
      proof -
        obtain r where r: "FormatArg E arg spec precision v = Some r" "appends v (arg_layout arg spec) r"
          using FormatArg_ok [OF v(1) arg] by blast
        show ?thesis unfolding r(1)
        proof (rule appends_obind [OF r(2)])
          fix t and v' :: writer
          assume "arg_layout arg spec = Inr t" "arr_ok v'" "a_capacity v \<le> a_capacity v'"
          then show "\<exists>r'. ?rest v' = Some r' \<and> appends v' (format_text args i' s') r'"
            using IH(3) [OF _ _ _ x refl refl refl refl _ plain, of t v' "[]"] 4 v(2) room shorter
            by (simp add: ebind_Inr_id)
        qed
      qed
      have "\<exists>r. obind (Some (append_arr lit w)) (\<lambda>w. obind (FormatArg E arg spec precision w) ?rest) = Some r
          \<and> appends w (ebind (Inr lit) (\<lambda>t. ebind (ebind (arg_layout arg spec)
               (\<lambda>t. ebind (format_text args i' s') (\<lambda>t'. Inr (t @ t')))) (\<lambda>t'. Inr (t @ t')))) r"
        by (rule appends_obind [OF appends_append [OF ok]]) (use room field in simp_all)
      with 4 show ?thesis by (simp add: x)
    qed
  qed
qed

lemma new_writer_capacity: "a_capacity new_writer = 500"
  by (simp add: new_writer_def new_array_def INLINE_BUFFER_SIZE_def)

subsection \<open>Templates\<close>

text \<open>A template is literal text (with its braces doubled in the format) and numbered fields.\<close>

datatype piece = Lit string | Field nat

fun escape :: "string \<Rightarrow> string" where
  "escape [] = []"
| "escape (c # s) = (if c = CHR ''{'' \<or> c = CHR ''}'' then [c, c] else [c]) @ escape s"

fun render :: "piece list \<Rightarrow> string" where
  "render [] = []"
| "render (Lit s # ps) = escape s @ render ps"
| "render (Field k # ps) = CHR ''{'' # dec_string k @ CHR ''}'' # render ps"

text \<open>The same with the indices left out.\<close>

fun render_auto :: "piece list \<Rightarrow> string" where
  "render_auto [] = []"
| "render_auto (Lit s # ps) = escape s @ render_auto ps"
| "render_auto (Field k # ps) = CHR ''{'' # CHR ''}'' # render_auto ps"

fun field_indices :: "piece list \<Rightarrow> nat list" where
  "field_indices [] = []"
| "field_indices (Lit s # ps) = field_indices ps"
| "field_indices (Field k # ps) = k # field_indices ps"

fun template_text :: "('d, 'l) ArgInfo list \<Rightarrow> piece list \<Rightarrow> string res" where
  "template_text args [] = Inr []"
| "template_text args (Lit s # ps) = ebind (template_text args ps) (\<lambda>t. Inr (s @ t))"
| "template_text args (Field k # ps) =
     ebind (arg_layout (args ! k) new_FormatSpec) (\<lambda>t. ebind (template_text args ps) (\<lambda>t'. Inr (t @ t')))"

lemma format_text_escape:
  "format_text args i (escape s @ r) = ebind (format_text args i r) (\<lambda>t. Inr (s @ t))"
  by (induction s) (auto simp: ebind_assoc ebind_Inr_id)

lemma not_digit_close [simp]: "\<not> is_digit_char (CHR ''}'')"
  by (simp add: is_digit_char_def code_def)

lemma peek_dec_string: "is_digit_char (peek (dec_string k @ r))"
  using dec_string_digits [of k] dec_string_nonempty [of k] by (cases "dec_string k") auto

lemma ParseField_index:
  assumes "k < length args" and "k < 2 ^ 32" and "i \<le> 0"
  shows "ParseField args i (dec_string k @ CHR ''}'' # r) = Inr (args ! k, new_FormatSpec, -1, r, -1)"
proof -
  have "ParseUInt 1 (dec_string k @ CHR ''}'' # r) = Inr (of_nat k, CHR ''}'' # r)"
    using ParseUInt_in_range [OF dec_string_nonempty dec_string_digits, of "CHR ''}'' # r" k 1] assms(2)
    by (simp add: dec_value_dec_string)
  then show ?thesis using assms
    by (simp add: ParseField_def ParseArgIndex_def peek_dec_string unat_u32_of_nat)
qed

lemma ParseField_auto:
  assumes "k < length args"
  shows "ParseField args (int k) (CHR ''}'' # r) = Inr (args ! k, new_FormatSpec, -1, r, int (Suc k))"
  using assms by (simp add: ParseField_def ParseArgIndex_def)

lemma dec_string_Cons: "\<exists>d ds. dec_string k = d # ds \<and> d \<noteq> CHR ''{''"
  using dec_string_digits [of k] dec_string_nonempty [of k]
  by (cases "dec_string k") (auto simp: is_digit_char_def code_def)

lemma format_text_render:
  assumes "length args \<le> 2 ^ 32"
  shows "i \<le> 0 \<Longrightarrow> \<forall>k \<in> set (field_indices ps). k < length args \<Longrightarrow>
    format_text args i (render ps) = template_text args ps"
proof (induction ps arbitrary: i rule: render.induct)
  case (3 k ps)
  obtain d ds where d: "dec_string k = d # ds" "d \<noteq> CHR ''{''" using dec_string_Cons by blast
  have "ParseField args i (d # ds @ CHR ''}'' # render ps) = Inr (args ! k, new_FormatSpec, -1, render ps, -1)"
    using ParseField_index [of k args i "render ps"] 3(2,3) assms d by simp
  with 3 d show ?case by simp
qed (simp_all add: format_text_escape)

lemma format_text_render_auto:
  "field_indices ps = [n..<length args] \<Longrightarrow> n \<le> length args \<Longrightarrow>
    format_text args (int n) (render_auto ps) = template_text args ps"
proof (induction ps arbitrary: n rule: render_auto.induct)
  case (3 k ps)
  have "[n..<length args] = k # field_indices ps" using 3(2) by simp
  then have n: "n < length args" "k = n" "field_indices ps = [Suc n..<length args]"
    by (auto simp: upt_eq_Cons_conv)
  have "format_text args (int (Suc n)) (render_auto ps) = template_text args ps"
    using 3(1) [OF n(3)] n(1) by simp
  then show ?case using ParseField_auto [OF n(1), of "render_auto ps"] n(2) by simp
qed (simp_all add: format_text_escape)

lemma escape_no_NUL: "NUL \<notin> set s \<Longrightarrow> NUL \<notin> set (escape s)"
  by (induction s) auto

lemma dec_string_no_NUL: "NUL \<notin> set (dec_string k)"
  using dec_string_digits [of k] by (auto simp: is_digit_char_def code_def)

lemma render_no_NUL: "\<forall>s. Lit s \<in> set ps \<longrightarrow> NUL \<notin> set s \<Longrightarrow> NUL \<notin> set (render ps)"
  by (induction ps rule: render.induct) (auto simp: escape_no_NUL dec_string_no_NUL)

lemma render_auto_no_NUL: "\<forall>s. Lit s \<in> set ps \<longrightarrow> NUL \<notin> set s \<Longrightarrow> NUL \<notin> set (render_auto ps)"
  by (induction ps rule: render_auto.induct) (auto simp: escape_no_NUL)

lemma Format_template_ok:
  assumes "arr_ok w" and "\<forall>arg \<in> set args. is_plain arg" and "format_text args 0 fmt = Inr t"
    and "NUL \<notin> set fmt" and "2 * length fmt \<le> a_capacity w"
  shows "\<exists>w'. Format E fmt args w = Some (Inr w') \<and> arr_ok w' \<and> cells w' = cells w @ map Some t"
proof -
  obtain r where "Format_loop E args 0 [] fmt w = Some r"
    "appends w (ebind (format_text args 0 fmt) (\<lambda>t. Inr ([] @ t))) r"
    using Format_loop_ok [OF assms(2,1), of "[]" fmt E 0] assms(5) by auto
  then show ?thesis using assms(3,4) by (auto simp: Format_def appends_def c_text_id)
qed


lemma arg_layout_c_str:
  "arg_layout (arg_c_str (Some m)) new_FormatSpec = Inr (c_text m)"
proof -
  have "read_chars (Some m) (strlen m) = Inr (c_text m)"
    using StringRef_str_c_str [of m]
    by (simp add: StringRef_str_def StringRef_size_def StringRef_of_c_str_def)
  then show ?thesis
    by (simp add: arg_c_str_def new_FormatSpec_def str_layout_def AlignSpec.truncate_def Let_def)
qed


subsection \<open>Unmatched braces\<close>

lemma ReportError_no_close: "CHR ''}'' \<notin> set s \<Longrightarrow> ReportError b s message = unmatched_open"
  by (induction b s message rule: ReportError.induct) auto

text \<open>The outcome of a step on text without a closing brace.\<close>

definition unclosed :: "('r \<Rightarrow> string) \<Rightarrow> 'r res \<Rightarrow> bool" where
  "unclosed rest r = (case r of Inl e \<Rightarrow> e = unmatched_open | Inr x \<Rightarrow> CHR ''}'' \<notin> set (rest x))"

lemma unclosed_simps [simp]:
  "unclosed rest (Inl e) \<longleftrightarrow> e = unmatched_open"
  "unclosed rest (Inr x) \<longleftrightarrow> CHR ''}'' \<notin> set (rest x)"
  by (simp_all add: unclosed_def)

lemma unclosed_ebind:
  "unclosed rest m \<Longrightarrow> (\<And>x. CHR ''}'' \<notin> set (rest x) \<Longrightarrow> unclosed rest' (f x)) \<Longrightarrow> unclosed rest' (ebind m f)"
  by (cases m) simp_all

lemma no_close_tl: "CHR ''}'' \<notin> set s \<Longrightarrow> CHR ''}'' \<notin> set (tl s)"
  by (cases s) simp_all

lemmas no_close = ReportError_no_close no_close_tl

lemma unclosed_ParseUInt: "CHR ''}'' \<notin> set s \<Longrightarrow> is_digit_char (peek s) \<Longrightarrow> unclosed snd (ParseUInt b s)"
proof -
  have "CHR ''}'' \<notin> set s \<Longrightarrow> unclosed snd (ParseUInt_loop b v s)" for v
    by (induction b v s rule: ParseUInt_loop.induct) (auto simp: Let_def ReportError_no_close)
  then show "CHR ''}'' \<notin> set s \<Longrightarrow> is_digit_char (peek s) \<Longrightarrow> unclosed snd (ParseUInt b s)"
    by (simp add: ParseUInt_def)
qed

lemma unclosed_ParseArgIndex: "CHR ''}'' \<notin> set s \<Longrightarrow> unclosed (fst \<circ> snd) (ParseArgIndex args b i s)"
  unfolding ParseArgIndex_def
  by (rule unclosed_ebind [where rest = "fst \<circ> snd"])
    (auto simp: no_close split_def intro!: unclosed_ebind [where rest = snd] unclosed_ParseUInt)

lemma unclosed_CheckSign: "CHR ''}'' \<notin> set s \<Longrightarrow> unclosed (\<lambda>s. s) (CheckSign b arg s)"
  by (simp add: CheckSign_def no_close)

lemma unclosed_ParseAlign: "CHR ''}'' \<notin> set s \<Longrightarrow> unclosed snd (ParseAlign b arg spec s)"
  by (auto simp: ParseAlign_def check_numeric_align_def Let_def no_close split: list.splits)

lemma unclosed_ParseSign: "CHR ''}'' \<notin> set s \<Longrightarrow> unclosed snd (ParseSign b arg spec s)"
  by (auto simp: ParseSign_def intro!: unclosed_ebind [OF unclosed_CheckSign])

lemma unclosed_ParseHash: "CHR ''}'' \<notin> set s \<Longrightarrow> unclosed snd (ParseHash b arg spec s)"
  by (simp add: ParseHash_def no_close)

lemma unclosed_ParseWidth:
  assumes "CHR ''}'' \<notin> set s"
  shows "unclosed snd (ParseWidth b arg spec s)"
proof -
  have number: "unclosed snd (ebind (ParseUInt b s) (\<lambda>(value, s).
      if unat value > INT_MAX then Inl (ReportError b s ''number is too big in format'')
      else Inr (spec\<lparr>sp_width := value\<rparr>, s)))" if "is_digit_char (peek s)" for spec
    by (rule unclosed_ebind [OF unclosed_ParseUInt [OF assms that]]) (auto simp: no_close split_def)
  show ?thesis
    using number assms unfolding ParseWidth_def by (auto simp: no_close)
qed

lemma unclosed_precision_value:
  "CHR ''}'' \<notin> set s \<Longrightarrow> unclosed (\<lambda>_. s) (precision_value b s arg)"
  by (cases arg) (simp_all add: no_close)

lemma unclosed_ParsePrecision: "CHR ''}'' \<notin> set s \<Longrightarrow> unclosed (fst \<circ> snd) (ParsePrecision args b i arg s)"
  unfolding ParsePrecision_def Let_def
  by (auto simp: no_close split_def
      intro!: unclosed_ebind [where rest = "fst \<circ> snd"] unclosed_ebind [OF unclosed_ParseUInt]
        unclosed_ebind [OF unclosed_ParseArgIndex] unclosed_ebind [OF unclosed_precision_value])

lemma unclosed_ParseType: "CHR ''}'' \<notin> set s \<Longrightarrow> CHR ''}'' \<notin> set (snd (ParseType spec s))"
  by (simp add: ParseType_def no_close)

text \<open>
  An unmatched opening brace overrides every other error: if no closing brace follows, a field
  fails with the message for the unmatched brace, whatever else is wrong with it.
\<close>

theorem ParseField_unmatched:
  assumes "CHR ''}'' \<notin> set s"
  shows "ParseField args i s = Inl (Throw (FormatError (''unmatched '' @ quoted (CHR ''{'') @ '' in format'')))"
proof -
  have peek: "CHR ''}'' \<notin> set t \<Longrightarrow> peek t \<noteq> CHR ''}''" for t by (cases t) auto
  have "unclosed (\<lambda>_. ''}'') (ParseField args i s)"
    unfolding ParseField_def
    by (rule unclosed_ebind [OF unclosed_ParseArgIndex [OF assms]])
      (auto simp: peek no_close unclosed_ParseType split_def
        intro!: unclosed_ebind [where rest = "\<lambda>x. snd (fst x)"] unclosed_ebind [OF unclosed_ParseAlign]
          unclosed_ebind [OF unclosed_ParseSign] unclosed_ebind [OF unclosed_ParseHash]
          unclosed_ebind [OF unclosed_ParseWidth] unclosed_ebind [OF unclosed_ParsePrecision])
  then show ?thesis by (auto simp: unclosed_def unmatched_open_def split: sum.splits)
qed

theorem ParseField_unmatched_witness:
  "ParseField [A_STRING None 0 :: (int, int) ArgInfo] 0 ''7:+.x'' =
     Inl (Throw (FormatError (''unmatched '' @ quoted (CHR ''{'') @ '' in format'')))"
  by (rule ParseField_unmatched) simp

end
