(* ===== verification/Fmt_Formatter.thy ===== *)
theory Fmt_Formatter
  imports Fmt_Parser
begin

text \<open>
  The objects that collect format arguments and the sinks that take the output (src/format.h,
  src/format.cc): \<open>BasicFormatter\<close> and \<open>Formatter\<close> with their argument actions, \<open>NullSink\<close>,
  \<open>FileSink\<close>, \<open>ANSITerminalSink\<close>, \<open>SystemErrorSink\<close>, \<open>StrError\<close>, \<open>FormatSystemErrorMessage\<close>,
  \<open>ReportError\<close> and the variadic \<open>Print\<close>. The C library calls they make (\<open>fwrite\<close>, \<open>fputs\<close>,
  \<open>strerror_r\<close>) act on an explicit file and on a table of messages.
\<close>

subsection \<open>Collecting arguments\<close>

definition NUM_INLINE_ARGS :: nat where
  "NUM_INLINE_ARGS = 10"

record ('d, 'l) BasicFormatter =
  bf_args :: "('d, 'l) ArgInfo arr"
  bf_format :: "string option"

definition new_formatter :: "string option \<Rightarrow> ('d, 'l) BasicFormatter" where
  "new_formatter format = \<lparr>bf_args = new_array NUM_INLINE_ARGS, bf_format = format\<rparr>"

definition feed :: "('d, 'l) ArgInfo \<Rightarrow> ('d, 'l) BasicFormatter \<Rightarrow> ('d, 'l) BasicFormatter res" where
  "feed arg f = ebind (push_back arg (bf_args f)) (\<lambda>a. Inr (f\<lparr>bf_args := a\<rparr>))"

definition TakeFormatString :: "('d, 'l) BasicFormatter \<Rightarrow> string option \<times> ('d, 'l) BasicFormatter" where
  "TakeFormatString f = (bf_format f, f\<lparr>bf_format := None\<rparr>)"

definition copy_formatter ::
  "('d, 'l) BasicFormatter \<Rightarrow> ('d, 'l) BasicFormatter \<times> ('d, 'l) BasicFormatter" where
  "copy_formatter f = (new_formatter (bf_format f), f\<lparr>bf_format := None\<rparr>)"

text \<open>The format pointer is cleared before formatting starts, so also when formatting throws.\<close>

definition CompleteFormatting ::
  "('d, 'l) fmt_env \<Rightarrow> ('d, 'l) BasicFormatter \<Rightarrow> writer \<Rightarrow> ('d, 'l) BasicFormatter \<times> writer res option" where
  "CompleteFormatting E f w =
     (case bf_format f of
        None \<Rightarrow> (f, Some (Inr w))
      | Some format \<Rightarrow>
          (f\<lparr>bf_format := None\<rparr>,
           if None \<in> set (cells (bf_args f)) then Some (Inl (Undefined Uninitialised))
           else Format E format (map the (cells (bf_args f))) w))"

text \<open>
  The argument objects of one expression call back when they are destroyed, and the destructor
  of the formatter completes as well: a number of calls in a row, up to the first that throws.
\<close>

fun complete_times ::
  "nat \<Rightarrow> ('d, 'l) fmt_env \<Rightarrow> ('d, 'l) BasicFormatter \<Rightarrow> writer \<Rightarrow> ('d, 'l) BasicFormatter \<times> writer res option" where
  "complete_times 0 E f w = (f, Some (Inr w))"
| "complete_times (Suc n) E f w =
     (case CompleteFormatting E f w of
        (f, Some (Inr w)) \<Rightarrow> complete_times n E f w
      | r \<Rightarrow> r)"

fun feed_all :: "('d, 'l) ArgInfo list \<Rightarrow> ('d, 'l) BasicFormatter \<Rightarrow> ('d, 'l) BasicFormatter res" where
  "feed_all [] f = Inr f"
| "feed_all (arg # args) f = ebind (feed arg f) (feed_all args)"

definition formatter_ok :: "('d, 'l) BasicFormatter \<Rightarrow> bool" where
  "formatter_ok f \<longleftrightarrow> arr_ok (bf_args f) \<and> None \<notin> set (cells (bf_args f))"

lemma formatter_ok_new [simp]: "formatter_ok (new_formatter format)"
  by (simp add: formatter_ok_def new_formatter_def)

lemma feed_all_ok:
  "formatter_ok f \<Longrightarrow> \<exists>f'. feed_all args f = Inr f' \<and> formatter_ok f' \<and> bf_format f' = bf_format f
     \<and> cells (bf_args f') = cells (bf_args f) @ map Some args"
proof (induction args arbitrary: f)
  case (Cons arg args)
  obtain a where a: "push_back arg (bf_args f) = Inr a" "arr_ok a" "cells a = cells (bf_args f) @ [Some arg]"
    using Cons.prems unfolding formatter_ok_def by (auto elim: push_back_ok)
  then have "formatter_ok (f\<lparr>bf_args := a\<rparr>)" using Cons.prems by (simp add: formatter_ok_def)
  from Cons.IH [OF this] a show ?case by (simp add: feed_def)
qed simp

lemma CompleteFormatting_again: "bf_format f = None \<Longrightarrow> CompleteFormatting E f w = (f, Some (Inr w))"
  by (simp add: CompleteFormatting_def)

lemma complete_times_done: "bf_format f = None \<Longrightarrow> complete_times n E f w = (f, Some (Inr w))"
  by (induction n) (simp_all add: CompleteFormatting_again)

text \<open>
  However many arguments are fed and however many argument destructors call back before the
  formatter itself is destroyed, the format is run exactly once, on all the arguments in the order
  they were fed; when it throws, it is not run again.
\<close>

theorem formatter_runs_once:
  "\<exists>f. feed_all args (new_formatter (Some format)) = Inr f
     \<and> snd (complete_times (Suc n) E f w) = Format E format args w
     \<and> bf_format (fst (complete_times (Suc n) E f w)) = None"
proof -
  obtain f where f: "feed_all args (new_formatter (Some format)) = Inr f" "formatter_ok f"
    "bf_format f = Some format" "cells (bf_args f) = map Some args"
    using feed_all_ok [OF formatter_ok_new, of args "Some format"]
    by (auto simp: new_formatter_def)
  have "CompleteFormatting E f w = (f\<lparr>bf_format := None\<rparr>, Format E format args w)"
    using f(3,4) by (auto simp: CompleteFormatting_def comp_def)
  then show ?thesis using f(1)
    by (auto simp: complete_times_done split: option.split sum.split)
qed

subsection \<open>The messages of the system\<close>

text \<open>
  \<open>strerror_r\<close>: the GNU version returns a pointer to its own string (\<open>True\<close>) or to the buffer,
  into which it has put as much of the text as fits; the POSIX version returns a status, sets
  \<open>errno\<close> and fills the buffer.
\<close>

datatype strerror = Gnu "int \<Rightarrow> bool \<times> string" | Posix "int \<Rightarrow> nat \<Rightarrow> int \<times> int \<times> string"

definition ERANGE :: int where
  "ERANGE = 34"

text \<open>The status and the text the out parameter \<open>buffer\<close> points at.\<close>

fun StrError :: "strerror \<Rightarrow> int \<Rightarrow> nat \<Rightarrow> int \<times> string" where
  "StrError (Gnu f) error_code buffer_size =
     (let (static, message) = f error_code
      in if static then (0, message)
         else (let buffer = c_text (take (buffer_size - 1) message)
               in (if strlen buffer = buffer_size - 1 then ERANGE else 0, buffer)))"
| "StrError (Posix f) error_code buffer_size =
     (let (result, errno, message) = f error_code buffer_size
      in (if result = -1 then errno else result, c_text (take (buffer_size - 1) message)))"

text \<open>The loop doubles the buffer (\<open>n\<close> is its size) while the message may be truncated.\<close>

fun system_message :: "nat \<Rightarrow> strerror \<Rightarrow> int \<Rightarrow> nat \<Rightarrow> string option option" where
  "system_message 0 S error_code n = None"
| "system_message (Suc fuel) S error_code n =
     (let (result, message) = StrError S error_code n
      in if result = 0 then Some (Some message)
         else if result \<noteq> ERANGE then Some None
         else system_message fuel S error_code (n * 2))"

definition FormatSystemErrorMessage ::
  "nat \<Rightarrow> strerror \<Rightarrow> u32 \<Rightarrow> StringRef \<Rightarrow> writer \<Rightarrow> writer res option" where
  "FormatSystemErrorMessage fuel S error_code message out =
     (case system_message fuel S (sint error_code) INLINE_BUFFER_SIZE of
        None \<Rightarrow> None
      | Some None \<Rightarrow> Some
          (ebind (put_ref message out) (\<lambda>out.
           ebind (put_ref (StringRef_of_c_str (Some '': error code = '') 0) out) (\<lambda>out.
           put_int True error_code out)))
      | Some (Some m) \<Rightarrow> Some
          (ebind (put_ref message out) (\<lambda>out.
           ebind (put_ref (StringRef_of_c_str (Some '': '') 0) out) (\<lambda>out.
           put_ref (StringRef_of_c_str (Some m) 0) out))))"

text \<open>What the loop returns: the table's text, cut at a NUL.\<close>

definition strerror_text :: "(int \<Rightarrow> bool \<times> string) \<Rightarrow> int \<Rightarrow> string" where
  "strerror_text f error_code =
     (if fst (f error_code) then snd (f error_code) else c_text (snd (f error_code)))"

lemma c_text_take: "c_text (take n s) = take n (c_text s)"
  by (induction s arbitrary: n) (auto simp: c_text_def take_Cons split: nat.split)

lemma c_text_c_text [simp]: "c_text (c_text s) = c_text s"
  by (simp add: c_text_def)

lemma system_message_gnu:
  assumes "length (snd (f error_code)) + 1 < n * 2 ^ fuel" and "0 < n"
  shows "system_message (Suc fuel) (Gnu f) error_code n = Some (Some (strerror_text f error_code))"
  using assms
proof (induction fuel arbitrary: n)
  case 0
  obtain static m where m: "f error_code = (static, m)" by (cases "f error_code")
  have "length (c_text m) \<le> length m" by (simp add: c_text_def length_takeWhile_le)
  then have "length (c_text m) < n - 1" using 0 m by simp
  then show ?case
    using m by (simp add: Let_def c_text_take strlen_def strerror_text_def)
next
  case (Suc fuel)
  obtain static m where m: "f error_code = (static, m)" by (cases "f error_code")
  have rec: "system_message (Suc fuel) (Gnu f) error_code (n * 2) = Some (Some (strerror_text f error_code))"
    using Suc.IH [of "n * 2"] Suc.prems by (simp add: mult.assoc)
  show ?case
  proof (cases "static \<or> length (c_text m) < n - 1")
    case True
    then show ?thesis using m by (auto simp: Let_def c_text_take strlen_def strerror_text_def)
  next
    case False
    then have "StrError (Gnu f) error_code n = (ERANGE, take (n - 1) (c_text m))"
      using m by (simp add: Let_def c_text_take strlen_def)
    then show ?thesis
      using rec by (subst system_message.simps) (simp add: ERANGE_def)
  qed
qed

lemma put_refs_ok:
  assumes "arr_ok w" and "StringRef_str r1 = Inr s1" and "StringRef_str r2 = Inr s2"
  obtains w1 w2 where "put_ref r1 w = Inr w1" and "put_ref r2 w1 = Inr w2" and "arr_ok w2"
    and "cells w2 = cells w @ map Some (s1 @ s2)"
proof -
  obtain w1 where w1: "put_ref r1 w = Inr w1" "arr_ok w1" "cells w1 = cells w @ map Some s1"
    using assms(1,2) by (rule put_ref_ok)
  obtain w2 where w2: "put_ref r2 w1 = Inr w2" "arr_ok w2" "cells w2 = cells w1 @ map Some s2"
    using w1(2) assms(3) by (rule put_ref_ok)
  show ?thesis by (rule that [OF w1(1) w2(1,2)]) (simp add: w1(3) w2(3))
qed

lemma FormatSystemErrorMessage_ok:
  assumes "arr_ok out" and "StringRef_str message = Inr s" and "NUL \<notin> set (snd (f (sint error_code)))"
    and "length (snd (f (sint error_code))) + 1 < 500 * 2 ^ fuel"
  shows "\<exists>out'. FormatSystemErrorMessage (Suc fuel) (Gnu f) error_code message out = Some (Inr out')
    \<and> arr_ok out' \<and> cells out' = cells out @ map Some (s @ '': '' @ snd (f (sint error_code)))"
proof -
  let ?m = "snd (f (sint error_code))"
  have m: "strerror_text f (sint error_code) = ?m"
    using assms(3) by (simp add: strerror_text_def c_text_id)
  have sys: "system_message (Suc fuel) (Gnu f) (sint error_code) INLINE_BUFFER_SIZE = Some (Some ?m)"
    using system_message_gnu [of f "sint error_code" 500 fuel] assms(4) m
    by (simp add: INLINE_BUFFER_SIZE_def del: system_message.simps)
  have colon: "StringRef_str (StringRef_of_c_str (Some '': '') 0) = Inr '': ''"
    by (simp only: StringRef_str_c_str) (simp add: c_text_def)
  have msg: "StringRef_str (StringRef_of_c_str (Some ?m) 0) = Inr ?m"
    using assms(3) by (simp only: StringRef_str_c_str) (simp add: c_text_id)
  obtain w1 w2 where w: "put_ref message out = Inr w1"
    "put_ref (StringRef_of_c_str (Some '': '') 0) w1 = Inr w2" "arr_ok w2"
    "cells w2 = cells out @ map Some (s @ '': '')"
    using assms(1,2) colon by (rule put_refs_ok)
  obtain w3 where "put_ref (StringRef_of_c_str (Some ?m) 0) w2 = Inr w3" "arr_ok w3"
    "cells w3 = cells w2 @ map Some ?m"
    using w(3) msg by (rule put_ref_ok)
  then show ?thesis using w by (simp add: FormatSystemErrorMessage_def sys del: system_message.simps)
qed

text \<open>
  \<open>FormatSystemErrorMessage\<close> over the GNU \<open>strerror_r\<close> always ends, having appended the
  caller's message, a colon and the whole system message, however long that is: the buffer is
  doubled until nothing can have been cut off.
\<close>

theorem FormatSystemErrorMessage_gnu:
  assumes "arr_ok out" and "StringRef_str message = Inr s" and "NUL \<notin> set (snd (f (sint error_code)))"
    and "length (snd (f (sint error_code))) + 1 < 500 * 2 ^ fuel"
  shows "\<exists>out'. FormatSystemErrorMessage (Suc fuel) (Gnu f) error_code message out = Some (Inr out')
    \<and> arr_ok out' \<and> cells out' = cells out @ map Some (s @ '': '' @ snd (f (sint error_code)))"
  using assms by (rule FormatSystemErrorMessage_ok)

theorem FormatSystemErrorMessage_gnu_witness:
  "\<exists>out'. FormatSystemErrorMessage 1 (Gnu (\<lambda>e. (e = 2, ''No such file''))) 2
       (StringRef_of_string ''open'') new_writer = Some (Inr out')
     \<and> cells out' = map Some ''open: No such file''"
proof -
  have "StringRef_str (StringRef_of_string ''open'') = Inr ''open''"
    by (rule StringRef_str_string) simp
  from FormatSystemErrorMessage_gnu [OF arr_ok_new_writer this,
      of "\<lambda>e. (e = 2, ''No such file'')" 2 0]
  show ?thesis by (auto simp del: FormatSystemErrorMessage_def)
qed

subsection \<open>Sinks\<close>

text \<open>
  A \<open>FILE\<close>: what it has received, how many more characters it will take (\<open>None\<close> for any
  number), and the \<open>errno\<close> a refused write leaves behind.
\<close>

record cfile =
  f_out :: string
  f_room :: "nat option"
  f_errno :: u32

definition file_take :: "string \<Rightarrow> cfile \<Rightarrow> nat \<times> cfile" where
  "file_take s f =
     (let k = (case f_room f of None \<Rightarrow> length s | Some r \<Rightarrow> min r (length s))
      in (k, f\<lparr>f_out := f_out f @ take k s, f_room := map_option (\<lambda>r. r - k) (f_room f)\<rparr>))"

text \<open>\<open>fwrite\<close> returns the number of complete items of \<open>size\<close> characters it has written.\<close>

definition fwrite :: "string \<Rightarrow> nat \<Rightarrow> nat \<Rightarrow> cfile \<Rightarrow> nat \<times> cfile" where
  "fwrite data sz nmemb f =
     (if sz = 0 \<or> nmemb = 0 then (0, f)
      else let (k, f) = file_take (take (sz * nmemb) data) f in (k div sz, f))"

definition fputs :: "string \<Rightarrow> cfile \<Rightarrow> cfile" where
  "fputs s f = snd (file_take s f)"

text \<open>\<open>NullSink\<close>, and \<open>SystemErrorSink\<close>, which throws whatever it is given.\<close>

definition NullSink :: "writer \<Rightarrow> 'io \<Rightarrow> 'io res" where
  "NullSink w io = Inr io"

definition SystemErrorSink :: "nat \<Rightarrow> strerror \<Rightarrow> u32 \<Rightarrow> writer \<Rightarrow> failure option" where
  "SystemErrorSink fuel S error_code w =
     (case writer_c_str w of
        Inl e \<Rightarrow> Some e
      | Inr (s, _) \<Rightarrow>
        (case FormatSystemErrorMessage fuel S error_code (StringRef_of_c_str (Some s) 0) new_writer of
           None \<Rightarrow> None
         | Some (Inl e) \<Rightarrow> Some e
         | Some (Inr message) \<Rightarrow>
             Some (case writer_c_str message of
                     Inl e \<Rightarrow> e
                   | Inr (t, _) \<Rightarrow> Throw (SystemError t (sint error_code)))))"

text \<open>
  \<open>ThrowSystemError(code, format)\<close> without arguments, as \<open>FileSink\<close> uses it: the temporary
  formatter completes and hands its output to the sink.
\<close>

definition ThrowSystemError ::
  "('d, 'l) fmt_env \<Rightarrow> nat \<Rightarrow> strerror \<Rightarrow> u32 \<Rightarrow> string \<Rightarrow> failure option" where
  "ThrowSystemError E fuel S error_code format =
     (case snd (CompleteFormatting E (new_formatter (Some format)) new_writer) of
        None \<Rightarrow> None
      | Some (Inl e) \<Rightarrow> Some e
      | Some (Inr w) \<Rightarrow> SystemErrorSink fuel S error_code w)"

definition FileSink ::
  "('d, 'l) fmt_env \<Rightarrow> nat \<Rightarrow> strerror \<Rightarrow> writer \<Rightarrow> cfile \<Rightarrow> cfile res option" where
  "FileSink E fuel S w f =
     (case writer_str w of
        Inl e \<Rightarrow> Some (Inl e)
      | Inr s \<Rightarrow>
        (let (n, f) = fwrite s (writer_size w) 1 f
         in if n = 0 then map_option Inl (ThrowSystemError E fuel S (f_errno f) ''cannot write to file'')
            else Some (Inr f)))"

datatype Color = BLACK | RED | GREEN | YELLOW | BLUE | MAGENTA | CYAN | WHITE

fun color_code :: "Color \<Rightarrow> nat" where
  "color_code BLACK = 0" | "color_code RED = 1" | "color_code GREEN = 2" | "color_code YELLOW = 3"
| "color_code BLUE = 4" | "color_code MAGENTA = 5" | "color_code CYAN = 6" | "color_code WHITE = 7"

definition ESC :: char where
  "ESC = CHR 0x1B"

definition RESET_COLOR :: string where
  "RESET_COLOR = ESC # ''[0m''"

definition ANSITerminalSink :: "Color \<Rightarrow> writer \<Rightarrow> cfile \<Rightarrow> cfile res" where
  "ANSITerminalSink color w f =
     (let escape = (ESC # ''[30m'')[3 := chr (48 + color_code color)]
      in ebind (writer_str w) (\<lambda>s.
         Inr (fputs RESET_COLOR (snd (fwrite s 1 (writer_size w) (fputs escape f))))))"

text \<open>The destructor of \<open>Formatter<Sink>\<close>: nothing for an object that was moved from.\<close>

definition end_formatter ::
  "('d, 'l) fmt_env \<Rightarrow> bool \<Rightarrow> ('d, 'l) BasicFormatter \<Rightarrow> (writer \<Rightarrow> 'io \<Rightarrow> 'io res option) \<Rightarrow> writer \<Rightarrow> 'io
     \<Rightarrow> 'io res option" where
  "end_formatter E inactive f sink w io =
     (if inactive then Some (Inr io)
      else obind (snd (CompleteFormatting E f w)) (\<lambda>w. sink w io))"

text \<open>The variadic \<open>Print\<close>, and \<open>ReportError\<close>, which swallows every exception.\<close>

definition Print :: "('d, 'l) fmt_env \<Rightarrow> string \<Rightarrow> ('d, 'l) ArgInfo list \<Rightarrow> cfile \<Rightarrow> cfile res option" where
  "Print E format args f =
     obind (Format E format args new_writer) (\<lambda>w.
     Some (ebind (writer_str w) (\<lambda>s. Inr (snd (fwrite s 1 (writer_size w) f)))))"

definition ReportSystemError :: "nat \<Rightarrow> strerror \<Rightarrow> u32 \<Rightarrow> StringRef \<Rightarrow> cfile \<Rightarrow> cfile option" where
  "ReportSystemError fuel S error_code message stderr =
     (case FormatSystemErrorMessage fuel S error_code message new_writer of
        None \<Rightarrow> None
      | Some (Inl e) \<Rightarrow> Some stderr
      | Some (Inr w) \<Rightarrow>
        Some (case writer_str w of
                Inl e \<Rightarrow> stderr
              | Inr s \<Rightarrow> fputs [LF] (snd (fwrite s (writer_size w) 1 stderr))))"

lemma file_take_all:
  "case f_room f of None \<Rightarrow> True | Some r \<Rightarrow> length s \<le> r \<Longrightarrow>
   file_take s f = (length s, f\<lparr>f_out := f_out f @ s, f_room := map_option (\<lambda>r. r - length s) (f_room f)\<rparr>)"
  by (auto simp: file_take_def Let_def split: option.splits)

text \<open>
  \<open>FileSink\<close> on a file with enough room: a non-empty output is written in full, but an empty
  one is reported as a failed write, with whatever \<open>errno\<close> holds, because \<open>fwrite\<close> of an item of
  size zero returns zero.
\<close>

theorem FileSink_result:
  assumes "arr_ok w" and "cells w = map Some s" and "f_room f = None"
  shows "FileSink E fuel S w f =
    (if s = [] then map_option Inl (ThrowSystemError E fuel S (f_errno f) ''cannot write to file'')
     else Some (Inr (f\<lparr>f_out := f_out f @ s\<rparr>)))"
proof -
  have "writer_size w = length s" using length_cells [OF assms(1)] assms(2) by (simp add: writer_size_def)
  moreover have "f\<lparr>f_out := f_out f @ s, f_room := None\<rparr> = f\<lparr>f_out := f_out f @ s\<rparr>"
    using assms(3) by simp
  ultimately show ?thesis
    using assms(2,3) by (simp add: FileSink_def fwrite_def file_take_def writer_str_def)
qed

theorem FileSink_result_witness:
  "FileSink tenths_env 1 (Gnu (\<lambda>e. (True, ''Success''))) new_writer \<lparr>f_out = '''', f_room = None, f_errno = 0\<rparr>
     = Some (Inl (Throw (SystemError ''cannot write to file: Success'' 0)))"
proof -
  let ?S = "Gnu (\<lambda>e. (True, ''Success''))" and ?fmt = "''cannot write to file''"
  obtain r where r: "Format_loop tenths_env [] 0 [] ?fmt new_writer = Some r"
    "appends new_writer (ebind (format_text ([] :: (int, int) ArgInfo list) 0 ?fmt) (\<lambda>t. Inr ([] @ t))) r"
    using Format_loop_ok [of "[]" new_writer "[]" ?fmt tenths_env 0] by (auto simp: new_writer_capacity)
  then obtain w where w: "Format tenths_env ?fmt [] new_writer = Some (Inr w)" "arr_ok w"
    "cells w = map Some ?fmt"
    by (auto simp: Format_def c_text_def appends_def)
  obtain w1 where w1: "writer_c_str w = Inr (?fmt, w1)"
    using writer_c_str_ok [OF w(2,3)] by (auto simp: c_text_def)
  have fmt_ref: "StringRef_str (StringRef_of_c_str (Some ?fmt) 0) = Inr ?fmt"
    by (simp only: StringRef_str_c_str) (simp add: c_text_def)
  obtain m where m: "FormatSystemErrorMessage 1 ?S 0 (StringRef_of_c_str (Some ?fmt) 0) new_writer = Some (Inr m)"
    "arr_ok m" "cells m = map Some ''cannot write to file: Success''"
    using FormatSystemErrorMessage_ok [OF arr_ok_new_writer fmt_ref, of "\<lambda>e. (True, ''Success'')" 0 0] by auto
  obtain m1 where m1: "writer_c_str m = Inr (''cannot write to file: Success'', m1)"
    using writer_c_str_ok [OF m(2,3)] by (auto simp: c_text_def)
  have sink: "SystemErrorSink 1 ?S 0 w = Some (Throw (SystemError ''cannot write to file: Success'' 0))"
    by (simp only: SystemErrorSink_def w1 m m1 sum.case option.case prod.case) simp
  have "snd (CompleteFormatting tenths_env (new_formatter (Some ?fmt)) new_writer) = Some (Inr w)"
    by (simp add: CompleteFormatting_def new_formatter_def w(1))
  then have "ThrowSystemError tenths_env 1 ?S 0 ?fmt
      = Some (Throw (SystemError ''cannot write to file: Success'' 0))"
    using sink by (simp add: ThrowSystemError_def)
  then show ?thesis
    using FileSink_result [OF arr_ok_new_writer, of "[]" "\<lparr>f_out = '''', f_room = None, f_errno = 0\<rparr>" tenths_env 1 ?S]
    by simp
qed

text \<open>
  \<open>ANSITerminalSink\<close> brackets the output with the escape sequence that selects the colour and
  the one that resets it, for every colour of the enumeration and also when the output is empty.
\<close>

theorem ANSITerminalSink_output:
  assumes "arr_ok w" and "cells w = map Some s" and "f_room f = None"
  shows "\<exists>f'. ANSITerminalSink color w f = Inr f'
    \<and> f_out f' = f_out f @ ESC # ''[3'' @ dec_string (color_code color) @ ''m'' @ s @ ESC # ''[0m''"
proof -
  have size: "writer_size w = length s"
    using length_cells [OF assms(1)] assms(2) by (simp add: writer_size_def)
  have digit: "dec_string (color_code color) = [chr (48 + color_code color)]"
    by (cases color) (simp_all add: dec_string_small digit_char_def)
  show ?thesis using assms(2,3) size digit
    by (cases "s = []") (simp_all add: ANSITerminalSink_def Let_def fputs_def fwrite_def file_take_def
        writer_str_def RESET_COLOR_def read_cells_def)
qed

theorem ANSITerminalSink_output_witness:
  "\<exists>f'. ANSITerminalSink RED new_writer \<lparr>f_out = '''', f_room = None, f_errno = 0\<rparr> = Inr f'
    \<and> f_out f' = ESC # ''[31m'' @ ESC # ''[0m''"
proof -
  have "dec_string 1 = ''1''" by (simp add: dec_string_eval)
  with ANSITerminalSink_output [OF arr_ok_new_writer, of "[]" "\<lparr>f_out = '''', f_room = None, f_errno = 0\<rparr>" RED]
  show ?thesis by simp
qed

end
