(* ===== verification/Fmt_Field.thy ===== *)
theory Fmt_Field
  imports Fmt_Parser
begin

text \<open>
  The grammar of replacement fields, written down as a generator: a field is described by its parts, \<open>spec_text\<close> spells
  it and \<open>field_spec\<close> and \<open>field_problem\<close> say what it means for an argument, neither of them with the parser's
  functions. \<open>Format\<close> on any format spelled this way appends the text the parts stand for, or throws the first
  problem of the first field that has one. A precision that is itself an argument is not in this grammar.
\<close>

subsection \<open>Fields\<close>

text \<open>The kinds of arguments a field distinguishes.\<close>

datatype arg_kind = Signed_number | Unsigned_number | Real_number | No_number

fun kind_of :: "('d, 'l) ArgInfo \<Rightarrow> arg_kind" where
  "kind_of (A_INT v) = Signed_number"
| "kind_of (A_LONG v) = Signed_number"
| "kind_of (A_LONG_LONG v) = Signed_number"
| "kind_of (A_UINT v) = Unsigned_number"
| "kind_of (A_ULONG v) = Unsigned_number"
| "kind_of (A_ULONG_LONG v) = Unsigned_number"
| "kind_of (A_DOUBLE v) = Real_number"
| "kind_of (A_LONG_DOUBLE v) = Real_number"
| "kind_of (A_CHAR v) = No_number"
| "kind_of (A_STRING s n) = No_number"
| "kind_of A_WSTRING = No_number"
| "kind_of (A_POINTER v) = No_number"
| "kind_of (A_CUSTOM f) = No_number"

datatype sign_part = Plus | Minus | Blank

record field =
  fd_index :: "nat option"
  fd_align :: "(char option \<times> Alignment) option"
  fd_sign :: "sign_part option"
  fd_hash :: bool
  fd_zero :: bool
  fd_width :: "nat option"
  fd_precision :: "nat option"
  fd_type :: "char option"

fun align_char :: "Alignment \<Rightarrow> char" where
  "align_char ALIGN_LEFT = CHR ''<''"
| "align_char ALIGN_RIGHT = CHR ''>''"
| "align_char ALIGN_CENTER = CHR ''^''"
| "align_char ALIGN_NUMERIC = CHR ''=''"
| "align_char ALIGN_DEFAULT = NUL"

fun sign_char :: "sign_part \<Rightarrow> char" where
  "sign_char Plus = CHR ''+''"
| "sign_char Minus = CHR ''-''"
| "sign_char Blank = CHR '' ''"

definition opt_text :: "('a \<Rightarrow> string) \<Rightarrow> 'a option \<Rightarrow> string" where
  "opt_text f x = (case x of None \<Rightarrow> [] | Some a \<Rightarrow> f a)"

definition align_text :: "field \<Rightarrow> string" where
  "align_text f = opt_text (\<lambda>(fill, a). opt_text (\<lambda>c. [c]) fill @ [align_char a]) (fd_align f)"

definition sign_part_text :: "field \<Rightarrow> string" where
  "sign_part_text f = opt_text (\<lambda>s. [sign_char s]) (fd_sign f)"

definition hash_text :: "field \<Rightarrow> string" where
  "hash_text f = (if fd_hash f then ''#'' else [])"

definition width_text :: "field \<Rightarrow> string" where
  "width_text f = (if fd_zero f then ''0'' else []) @ opt_text dec_string (fd_width f)"

definition precision_text :: "field \<Rightarrow> string" where
  "precision_text f = opt_text (\<lambda>n. CHR ''.'' # dec_string n) (fd_precision f)"

definition type_text :: "field \<Rightarrow> string" where
  "type_text f = opt_text (\<lambda>c. [c]) (fd_type f)"

definition spec_text :: "field \<Rightarrow> string" where
  "spec_text f = align_text f @ sign_part_text f @ hash_text f @ width_text f @ precision_text f @ type_text f"

text \<open>A field from behind its opening brace to its closing one.\<close>

definition field_text :: "field \<Rightarrow> string" where
  "field_text f = opt_text dec_string (fd_index f) @ (if spec_text f = [] then [] else CHR '':'' # spec_text f) @ ''}''"

definition is_letter :: "char \<Rightarrow> bool" where
  "is_letter c \<longleftrightarrow> 65 \<le> code c \<and> code c \<le> 90 \<or> 97 \<le> code c \<and> code c \<le> 122"

text \<open>A width is positive, since a leading 0 is the flag; numbers fit an \<open>unsigned\<close>; types are letters.\<close>

definition field_ok :: "field \<Rightarrow> bool" where
  "field_ok f \<longleftrightarrow> (\<forall>k. fd_index f = Some k \<longrightarrow> k < 2 ^ 32)
     \<and> (\<forall>fill a. fd_align f = Some (fill, a) \<longrightarrow> a \<noteq> ALIGN_DEFAULT \<and> fill \<notin> {Some (CHR ''{''), Some (CHR ''}''), Some NUL})
     \<and> (\<forall>n. fd_width f = Some n \<longrightarrow> n < 2 ^ 32 \<and> (n = 0 \<longrightarrow> fd_zero f))
     \<and> (\<forall>n. fd_precision f = Some n \<longrightarrow> n < 2 ^ 32) \<and> (\<forall>c. fd_type f = Some c \<longrightarrow> is_letter c)"

subsection \<open>What a field means\<close>

text \<open>The flag 0 sets fill and alignment whatever was given for them.\<close>

definition field_spec :: "field \<Rightarrow> FormatSpec" where
  "field_spec f =
     \<lparr>sp_width = (case fd_width f of None \<Rightarrow> 0 | Some n \<Rightarrow> of_nat n),
      sp_fill = (if fd_zero f then 48 else case fd_align f of Some (Some c, a) \<Rightarrow> wchar_of_char c | _ \<Rightarrow> 32),
      sp_align = (if fd_zero f then ALIGN_NUMERIC else case fd_align f of Some (fill, a) \<Rightarrow> a | None \<Rightarrow> ALIGN_DEFAULT),
      sp_flags = (case fd_sign f of Some Plus \<Rightarrow> 3 | Some Blank \<Rightarrow> 1 | _ \<Rightarrow> 0) + (if fd_hash f then 4 else 0),
      sp_type = (case fd_type f of None \<Rightarrow> NUL | Some c \<Rightarrow> c)\<rparr>"

definition needs :: "char \<Rightarrow> string \<Rightarrow> string" where
  "needs c kind = ''format specifier '' @ quoted c @ '' requires '' @ kind @ '' argument''"

text \<open>The problems, in the order in which they are looked for.\<close>

definition exceeds :: "nat option \<Rightarrow> bool" where
  "exceeds n = (case n of None \<Rightarrow> False | Some n \<Rightarrow> INT_MAX < n)"

definition spec_problem :: "arg_kind \<Rightarrow> field \<Rightarrow> string option" where
  "spec_problem kind f =
     (if map_option snd (fd_align f) = Some ALIGN_NUMERIC \<and> kind = No_number then Some (needs (CHR ''='') ''numeric'')
      else if fd_sign f \<noteq> None \<and> kind = No_number then Some (needs (sign_char (the (fd_sign f))) ''numeric'')
      else if fd_sign f \<noteq> None \<and> kind = Unsigned_number then Some (needs (sign_char (the (fd_sign f))) ''signed'')
      else if fd_hash f \<and> kind = No_number then Some (needs (CHR ''#'') ''numeric'')
      else if fd_zero f \<and> kind = No_number then Some (needs (CHR ''0'') ''numeric'')
      else if exceeds (fd_width f) then Some ''number is too big in format''
      else if exceeds (fd_precision f) then Some ''number is too big in format''
      else if fd_precision f \<noteq> None \<and> kind \<noteq> Real_number then Some ''precision specifier requires floating-point argument''
      else None)"

text \<open>
  How arguments are numbered: not yet settled, automatically with the number of the next one, or by the fields.
\<close>

datatype numbering = Fresh | Counting nat | Numbered

fun choose_arg :: "numbering \<Rightarrow> nat option \<Rightarrow> string + (nat \<times> numbering)" where
  "choose_arg Fresh None = Inr (0, Counting 1)"
| "choose_arg (Counting n) None = Inr (n, Counting (Suc n))"
| "choose_arg Numbered None = Inl ''cannot switch from manual to automatic argument indexing''"
| "choose_arg (Counting n) (Some k) = Inl ''cannot switch from automatic to manual argument indexing''"
| "choose_arg _ (Some k) = Inr (k, Numbered)"

definition field_problem :: "('d, 'l) ArgInfo list \<Rightarrow> nat \<Rightarrow> field \<Rightarrow> string option" where
  "field_problem args k f =
     (if length args \<le> k then Some ''argument index is out of range in format'' else spec_problem (kind_of (args ! k)) f)"

subsection \<open>Formats\<close>

datatype fpiece = Text string | Repl field

fun spell :: "fpiece list \<Rightarrow> string" where
  "spell [] = []"
| "spell (Text s # ps) = escape s @ spell ps"
| "spell (Repl f # ps) = CHR ''{'' # field_text f @ spell ps"

fun piece_ok :: "fpiece \<Rightarrow> bool" where
  "piece_ok (Text s) = (NUL \<notin> set s)"
| "piece_ok (Repl f) = field_ok f"

fun meaning :: "('d, 'l) ArgInfo list \<Rightarrow> numbering \<Rightarrow> fpiece list \<Rightarrow> string res" where
  "meaning args m [] = Inr []"
| "meaning args m (Text s # ps) = ebind (meaning args m ps) (\<lambda>t. Inr (s @ t))"
| "meaning args m (Repl f # ps) =
     (case choose_arg m (fd_index f) of
        Inl e \<Rightarrow> Inl (Throw (FormatError e))
      | Inr (k, m') \<Rightarrow>
          (case field_problem args k f of
             Some e \<Rightarrow> Inl (Throw (FormatError e))
           | None \<Rightarrow> ebind (arg_layout (args ! k) (field_spec f)) (\<lambda>t. ebind (meaning args m' ps) (\<lambda>t'. Inr (t @ t')))))"

subsection \<open>The parser on a field\<close>

lemma is_numeric_kind: "is_numeric arg \<longleftrightarrow> kind_of arg \<noteq> No_number"
  by (cases arg) simp_all

lemma is_unsigned_kind: "is_unsigned_arg arg \<longleftrightarrow> kind_of arg = Unsigned_number"
  by (cases arg) simp_all

lemma is_float_kind: "is_float_arg arg \<longleftrightarrow> kind_of arg = Real_number"
  by (cases arg) simp_all

text \<open>Errors are reported as they are, because the field has its closing brace.\<close>

definition closes :: "string \<Rightarrow> bool" where
  "closes s \<longleftrightarrow> (\<exists>u r. s = u @ CHR ''}'' # r \<and> CHR ''{'' \<notin> set u \<and> CHR ''}'' \<notin> set u)"

lemma closes_brace [simp]: "closes (CHR ''}'' # r)"
  unfolding closes_def by (rule exI [of _ "[]"]) simp

lemma closes_append: "closes s \<Longrightarrow> CHR ''{'' \<notin> set v \<Longrightarrow> CHR ''}'' \<notin> set v \<Longrightarrow> closes (v @ s)"
  unfolding closes_def by (metis UnE append.assoc set_append)

lemma report_closes: "closes s \<Longrightarrow> ReportError 1 s m = Throw (FormatError m)"
proof -
  assume "closes s"
  then obtain u r where u: "s = u @ CHR ''}'' # r" "CHR ''{'' \<notin> set u" "CHR ''}'' \<notin> set u" by (auto simp: closes_def)
  show ?thesis unfolding u(1) using u(2,3) by (induction u) auto
qed

definition spec_char :: "char \<Rightarrow> bool" where
  "spec_char c \<longleftrightarrow> is_letter c \<or> is_digit_char c \<or> c \<in> set ''+- #.''"

lemma spec_char_simps [simp]: "\<not> spec_char (CHR ''{'')" "\<not> spec_char (CHR ''}'')"
  by (simp_all add: spec_char_def is_letter_def is_digit_char_def code_def)

lemma spec_char_align: "spec_char c \<Longrightarrow> align_of_char c = ALIGN_DEFAULT"
  by (auto simp: spec_char_def align_of_char_def is_letter_def is_digit_char_def code_def)

lemma letter_simps [simp]:
  "\<not> is_letter (CHR ''}'')" "\<not> is_letter (CHR ''.'')" "\<not> is_letter (CHR ''#'')" "\<not> is_letter (CHR ''+'')"
  "\<not> is_letter (CHR ''-'')" "\<not> is_letter (CHR '' '')" "\<not> is_letter NUL"
  by (simp_all add: is_letter_def code_def)

lemma letter_not_digit: "is_letter c \<Longrightarrow> \<not> is_digit_char c"
  by (auto simp: is_letter_def is_digit_char_def code_def)

lemma digit_simps [simp]:
  "\<not> is_digit_char (CHR ''.'')" "\<not> is_digit_char (CHR ''#'')" "\<not> is_digit_char (CHR ''+'')" "\<not> is_digit_char (CHR ''-'')"
  "\<not> is_digit_char (CHR '' '')" "\<not> is_digit_char (CHR '':'')" "is_digit_char (CHR ''0'')"
  by (simp_all add: is_digit_char_def code_def)

text \<open>What may stand at the head of each part.\<close>

lemma peek_type:
  assumes "field_ok f"
  shows "\<not> is_digit_char (peek (type_text f @ CHR ''}'' # r))" "peek (type_text f @ CHR ''}'' # r) \<noteq> CHR ''.''"
    "peek (type_text f @ CHR ''}'' # r) \<notin> {CHR ''#'', CHR ''+'', CHR ''-'', CHR '' ''}"
  using assms letter_not_digit by (auto simp: type_text_def opt_text_def field_ok_def split: option.splits)

lemma peek_precision:
  assumes "field_ok f"
  shows "\<not> is_digit_char (peek (precision_text f @ type_text f @ CHR ''}'' # r))"
    "peek (precision_text f @ type_text f @ CHR ''}'' # r) \<notin> {CHR ''#'', CHR ''+'', CHR ''-'', CHR '' ''}"
  using peek_type [OF assms, of r] by (auto simp: precision_text_def opt_text_def split: option.split)

lemma digit_sym: "is_digit_char c \<Longrightarrow> c \<notin> {CHR ''#'', CHR ''+'', CHR ''-'', CHR '' ''}"
  by (auto simp: is_digit_char_def code_def)

lemma peek_width:
  assumes "field_ok f"
  shows "peek (width_text f @ precision_text f @ type_text f @ CHR ''}'' # r) \<notin> {CHR ''#'', CHR ''+'', CHR ''-'', CHR '' ''}"
proof (cases "fd_zero f")
  case False
  then show ?thesis using peek_precision(2) [OF assms, of r] digit_sym [OF peek_dec_string]
    by (cases "fd_width f") (simp_all add: width_text_def opt_text_def)
qed (simp add: width_text_def)

lemma peek_hash:
  assumes "field_ok f"
  shows "peek (hash_text f @ width_text f @ precision_text f @ type_text f @ CHR ''}'' # r) \<notin> {CHR ''+'', CHR ''-'', CHR '' ''}"
  using peek_width [OF assms, of r] by (simp add: hash_text_def)

definition all_spec :: "string \<Rightarrow> bool" where
  "all_spec s \<longleftrightarrow> (\<forall>c \<in> set s. spec_char c)"

lemma all_spec_simps [simp]: "all_spec []" "all_spec (c # s) \<longleftrightarrow> spec_char c \<and> all_spec s" "all_spec (s @ t) \<longleftrightarrow> all_spec s \<and> all_spec t"
  by (auto simp: all_spec_def)

lemma all_spec_dec [simp]: "all_spec (dec_string n)"
  using dec_string_digits [of n] by (auto simp: all_spec_def spec_char_def)

lemma parts_spec:
  assumes "field_ok f"
  shows "all_spec (sign_part_text f)" "all_spec (hash_text f)" "all_spec (width_text f)" "all_spec (precision_text f)" "all_spec (type_text f)"
proof -
  have "spec_char (sign_char x)" for x by (cases x) (simp_all add: spec_char_def)
  then show "all_spec (sign_part_text f)" by (simp add: sign_part_text_def opt_text_def split: option.split)
qed (use assms in \<open>auto simp: hash_text_def width_text_def precision_text_def type_text_def opt_text_def field_ok_def
    spec_char_def split: option.split\<close>)

lemma closes_spec: "all_spec u \<Longrightarrow> closes s \<Longrightarrow> closes (u @ s)"
  by (rule closes_append) (auto simp: all_spec_def)

lemma align_char_back: "a \<noteq> ALIGN_DEFAULT \<Longrightarrow> align_of_char (align_char a) = a"
  by (cases a) (simp_all add: align_of_char_def)

text \<open>Two characters of a field that has no alignment are no alignment characters.\<close>

lemma no_align_spec: "all_spec u \<Longrightarrow> u \<noteq> [] \<Longrightarrow>
    align_of_char (peek (u @ CHR ''}'' # r)) = ALIGN_DEFAULT \<and> align_of_char (peek (tl (u @ CHR ''}'' # r))) = ALIGN_DEFAULT"
proof -
  have b: "align_of_char (CHR ''}'') = ALIGN_DEFAULT" by (simp add: align_of_char_def)
  assume "all_spec u" "u \<noteq> []"
  then show ?thesis using b by (cases u; cases "tl u") (auto simp: spec_char_align)
qed

lemma no_align_head: "all_spec u \<Longrightarrow> align_of_char (peek (u @ CHR ''}'' # r)) = ALIGN_DEFAULT"
  by (cases u) (simp_all add: spec_char_align, simp add: align_of_char_def)

subsection \<open>The parser on the parts\<close>

definition align_spec :: "field \<Rightarrow> FormatSpec" where
  "align_spec f = new_FormatSpec
     \<lparr>sp_align := (case fd_align f of Some (fill, a) \<Rightarrow> a | None \<Rightarrow> ALIGN_DEFAULT),
      sp_fill := (case fd_align f of Some (Some c, a) \<Rightarrow> wchar_of_char c | _ \<Rightarrow> 32)\<rparr>"

lemma parse_align:
  assumes ok: "field_ok f" and u: "all_spec u" "u \<noteq> [] \<or> fd_align f \<noteq> None"
  shows "ParseAlign 1 arg new_FormatSpec (align_text f @ u @ CHR ''}'' # r) =
    (if map_option snd (fd_align f) = Some ALIGN_NUMERIC \<and> kind_of arg = No_number
     then Inl (Throw (FormatError (needs (CHR ''='') ''numeric'')))
     else Inr (align_spec f, u @ CHR ''}'' # r))"
proof (cases "fd_align f")
  case None
  then have "align_of_char (peek (u @ CHR ''}'' # r)) = ALIGN_DEFAULT \<and> align_of_char (peek (tl (u @ CHR ''}'' # r))) = ALIGN_DEFAULT"
    using u no_align_spec by blast
  moreover have "new_FormatSpec\<lparr>sp_align := ALIGN_DEFAULT\<rparr> = align_spec f" by (simp add: None align_spec_def new_FormatSpec_def)
  ultimately show ?thesis using None
    by (cases "u @ CHR ''}'' # r") (simp_all add: align_text_def opt_text_def ParseAlign_def)
next
  case (Some fa)
  obtain fill a where fa: "fa = (fill, a)" by (cases fa)
  have a: "a \<noteq> ALIGN_DEFAULT" and fill: "fill \<notin> {Some (CHR ''{''), Some (CHR ''}''), Some NUL}"
    using ok Some fa by (auto simp: field_ok_def)
  have head: "align_of_char (peek (u @ CHR ''}'' # r)) = ALIGN_DEFAULT" by (rule no_align_head [OF u(1)])
  have rep: "ReportError 1 (u @ CHR ''}'' # r) m = Throw (FormatError m)" for m
    by (rule report_closes) (rule closes_spec [OF u(1) closes_brace])
  show ?thesis
  proof (cases fill)
    case None
    then show ?thesis using Some fa a head
      by (auto simp: align_text_def opt_text_def ParseAlign_def align_char_back check_numeric_align_def is_numeric_kind rep
          needs_def align_spec_def new_FormatSpec_def)
  next
    case (Some c)
    then have "c \<noteq> CHR ''{''" "c \<noteq> CHR ''}''" using fill by auto
    then show ?thesis using \<open>fd_align f = Some fa\<close> Some fa a
      by (auto simp: align_text_def opt_text_def ParseAlign_def align_char_back check_numeric_align_def is_numeric_kind rep
          needs_def align_spec_def new_FormatSpec_def Let_def)
  qed
qed

definition sign_flags :: "field \<Rightarrow> u32" where
  "sign_flags f = (case fd_sign f of Some Plus \<Rightarrow> 3 | Some Blank \<Rightarrow> 1 | _ \<Rightarrow> 0)"

lemma parse_sign:
  assumes s: "closes s" "peek s \<notin> {CHR ''+'', CHR ''-'', CHR '' ''}"
  shows "ParseSign 1 arg spec (sign_part_text f @ s) =
    (if fd_sign f \<noteq> None \<and> kind_of arg = No_number then Inl (Throw (FormatError (needs (sign_char (the (fd_sign f))) ''numeric'')))
     else if fd_sign f \<noteq> None \<and> kind_of arg = Unsigned_number
     then Inl (Throw (FormatError (needs (sign_char (the (fd_sign f))) ''signed'')))
     else Inr (spec\<lparr>sp_flags := sp_flags spec OR sign_flags f\<rparr>, s))"
proof (cases "fd_sign f")
  case None
  then show ?thesis using s(2) by (simp add: sign_part_text_def opt_text_def ParseSign_def sign_flags_def)
next
  case (Some x)
  have "closes (sign_char x # s)" using closes_append [OF s(1), of "[sign_char x]"] by (cases x) simp_all
  note rep = report_closes [OF this]
  show ?thesis using Some
    by (cases x)
      (use rep in \<open>auto simp: sign_part_text_def opt_text_def ParseSign_def CheckSign_def is_numeric_kind is_unsigned_kind needs_def
        sign_flags_def SIGN_FLAG_def PLUS_FLAG_def\<close>)
qed

lemma parse_hash:
  assumes s: "closes s" "peek s \<noteq> CHR ''#''"
  shows "ParseHash 1 arg spec (hash_text f @ s) =
    (if fd_hash f \<and> kind_of arg = No_number then Inl (Throw (FormatError (needs (CHR ''#'') ''numeric'')))
     else Inr (spec\<lparr>sp_flags := sp_flags spec OR (if fd_hash f then 4 else 0)\<rparr>, s))"
proof -
  have "closes (CHR ''#'' # s)" using closes_append [OF s(1), of "''#''"] by simp
  note rep = report_closes [OF this]
  show ?thesis using s(2) rep by (auto simp: hash_text_def ParseHash_def is_numeric_kind needs_def HASH_FLAG_def)
qed

lemma ParseUInt_dec:
  assumes "n < 2 ^ 32" and "\<not> is_digit_char (peek s)"
  shows "ParseUInt b (dec_string n @ s) = Inr (of_nat n, s)"
  using ParseUInt_in_range [OF dec_string_nonempty dec_string_digits assms(2), of n b] assms(1)
  by (simp add: dec_value_dec_string)

lemma ParseUInt_zero_dec:
  assumes "n < 2 ^ 32" and "\<not> is_digit_char (peek s)"
  shows "ParseUInt b (CHR ''0'' # dec_string n @ s) = Inr (of_nat n, s)"
  using ParseUInt_in_range [of "CHR ''0'' # dec_string n" s b] dec_string_digits [of n] assms
  by (simp add: dec_value_dec_string code_def)

lemma ParseUInt_zero: "\<not> is_digit_char (peek s) \<Longrightarrow> ParseUInt b (CHR ''0'' # s) = Inr (0, s)"
  using ParseUInt_in_range [of "''0''" s b] by (simp add: code_def)

lemma dec_string_head: "0 < n \<Longrightarrow> peek (dec_string n @ s) \<noteq> CHR ''0''"
proof (induction n arbitrary: s rule: dec_string.induct)
  case (1 n)
  show ?case
  proof (cases "n < 10")
    case True
    then have "digit_char n \<noteq> CHR ''0''"
      using 1(2) arg_cong [of "digit_char n" "CHR ''0''" code] code_digit_char [of n] by (auto simp: code_def)
    then show ?thesis using True by (simp add: dec_string_small)
  next
    case False
    then show ?thesis using 1(1) [of "[digit_char (n mod 10)] @ s"] by (subst dec_string.simps) simp
  qed
qed

definition width_spec :: "field \<Rightarrow> FormatSpec \<Rightarrow> FormatSpec" where
  "width_spec f spec =
     (let spec = (if fd_zero f then spec\<lparr>sp_align := ALIGN_NUMERIC, sp_fill := 48\<rparr> else spec)
      in spec\<lparr>sp_width := (case fd_width f of None \<Rightarrow> 0 | Some n \<Rightarrow> of_nat n)\<rparr>)"

lemma unat_width: "n < 2 ^ 32 \<Longrightarrow> unat (of_nat n :: u32) = n"
  by (rule unat_u32_of_nat)

lemma parse_width:
  assumes ok: "field_ok f" and s: "closes s" "\<not> is_digit_char (peek s)" and w: "sp_width spec = 0"
  shows "ParseWidth 1 arg spec (width_text f @ s) =
    (if fd_zero f \<and> kind_of arg = No_number then Inl (Throw (FormatError (needs (CHR ''0'') ''numeric'')))
     else if exceeds (fd_width f) then Inl (Throw (FormatError ''number is too big in format''))
     else Inr (width_spec f spec, s))"
proof -
  have n: "unat (of_nat n :: u32) = n" if "fd_width f = Some n" for n
    using ok that unat_width [of n] by (simp add: field_ok_def)
  have small: "n < 4294967296" if "fd_width f = Some n" for n
    using ok that by (simp add: field_ok_def)
  note defs = ParseWidth_def width_text_def opt_text_def exceeds_def width_spec_def needs_def is_numeric_kind Let_def
  show ?thesis
  proof (cases "fd_zero f")
    case True
    have c: "closes (width_text f @ s)" by (rule closes_spec [OF parts_spec(3) [OF ok] s(1)])
    show ?thesis
    proof (cases "fd_width f")
      case None
      then show ?thesis using True report_closes [OF c] ParseUInt_zero [OF s(2)]
        by (auto simp: defs)
    next
      case (Some k)
      then have "ParseUInt 1 (CHR ''0'' # dec_string k @ s) = Inr (of_nat k, s)"
        using ParseUInt_zero_dec [OF _ s(2)] small by simp
      then show ?thesis using True Some report_closes [OF c] report_closes [OF s(1)] n [OF Some]
        by (auto simp: defs)
    qed
  next
    case False
    show ?thesis
    proof (cases "fd_width f")
      case None
      then have "width_spec f spec = spec" using False w by (cases spec) (simp add: width_spec_def)
      then show ?thesis using False None s(2) by (simp add: defs)
    next
      case (Some k)
      then have "0 < k" using ok False by (auto simp: field_ok_def)
      then have "peek (dec_string k @ s) \<noteq> CHR ''0''" by (rule dec_string_head)
      moreover have "ParseUInt 1 (dec_string k @ s) = Inr (of_nat k, s)" using ParseUInt_dec [OF _ s(2)] small Some by simp
      ultimately show ?thesis using False Some report_closes [OF s(1)] n [OF Some] peek_dec_string [of k s]
        by (auto simp: defs)
    qed
  qed
qed

lemma parse_precision:
  assumes ok: "field_ok f" and s: "closes s" "\<not> is_digit_char (peek s)" "peek s \<noteq> CHR ''.''"
  shows "ParsePrecision args 1 i arg (precision_text f @ s) =
    (if exceeds (fd_precision f) then Inl (Throw (FormatError ''number is too big in format''))
     else if fd_precision f \<noteq> None \<and> kind_of arg \<noteq> Real_number
     then Inl (Throw (FormatError ''precision specifier requires floating-point argument''))
     else Inr (case fd_precision f of None \<Rightarrow> -1 | Some n \<Rightarrow> int n, s, i))"
proof (cases "fd_precision f")
  case None
  then show ?thesis using s by (simp add: ParsePrecision_def precision_text_def opt_text_def exceeds_def)
next
  case (Some n)
  then have n: "n < 2 ^ 32" using ok by (simp add: field_ok_def)
  then have u: "ParseUInt 1 (dec_string n @ s) = Inr (of_nat n, s)" "unat (of_nat n :: u32) = n"
    using ParseUInt_dec [OF n s(2)] unat_width [OF n] by simp_all
  show ?thesis using Some u report_closes [OF s(1)] peek_dec_string [of n s]
    by (auto simp: ParsePrecision_def precision_text_def opt_text_def exceeds_def is_float_kind)
qed

lemma parse_type:
  assumes "field_ok f" and "sp_type spec = NUL"
  shows "ParseType spec (type_text f @ CHR ''}'' # r) =
    (spec\<lparr>sp_type := (case fd_type f of None \<Rightarrow> NUL | Some c \<Rightarrow> c)\<rparr>, CHR ''}'' # r)"
proof (cases "fd_type f")
  case None
  then show ?thesis using assms(2) by (cases spec) (simp add: ParseType_def type_text_def opt_text_def)
next
  case (Some c)
  then have "is_letter c" using assms(1) by (simp add: field_ok_def)
  then have "c \<noteq> CHR ''}''" "c \<noteq> NUL" by auto
  then show ?thesis using Some by (simp add: ParseType_def type_text_def opt_text_def)
qed

subsection \<open>The parser on a field\<close>

lemma parse_spec:
  fixes args :: "('d, 'l) ArgInfo list" and r :: string
  assumes ok: "field_ok f" and ne: "spec_text f \<noteq> []"
  defines "t \<equiv> CHR ''}'' # r"
  shows "ebind (ParseAlign 1 arg new_FormatSpec (spec_text f @ t)) (\<lambda>(spec, s).
          ebind (ParseSign 1 arg spec s) (\<lambda>(spec, s).
          ebind (ParseHash 1 arg spec s) (\<lambda>(spec, s).
          ebind (ParseWidth 1 arg spec s) (\<lambda>(spec, s).
          ebind (ParsePrecision args 1 i arg s) (\<lambda>(precision, s, next_arg).
          Inr (ParseType spec s, precision, next_arg))))))
    = (case spec_problem (kind_of arg) f of
         Some e \<Rightarrow> Inl (Throw (FormatError e))
       | None \<Rightarrow> Inr ((field_spec f, t), case fd_precision f of None \<Rightarrow> -1 | Some n \<Rightarrow> int n, i))"
proof -
  define t5 where "t5 = type_text f @ t"
  define t4 where "t4 = precision_text f @ t5"
  define t3 where "t3 = width_text f @ t4"
  define t2 where "t2 = hash_text f @ t3"
  define u where "u = sign_part_text f @ hash_text f @ width_text f @ precision_text f @ type_text f"
  have parts: "spec_text f @ t = align_text f @ u @ t" "u @ t = sign_part_text f @ t2"
    by (simp_all add: spec_text_def u_def t2_def t3_def t4_def t5_def)
  have u: "all_spec u" "u \<noteq> [] \<or> fd_align f \<noteq> None"
    using parts_spec [OF ok] ne by (auto simp: u_def spec_text_def align_text_def opt_text_def split: option.splits)
  have c: "closes t5" "closes t4" "closes t3" "closes t2"
    unfolding t2_def t3_def t4_def t5_def t_def by (intro closes_spec parts_spec [OF ok] closes_brace)+
  have pk2: "peek t2 \<notin> {CHR ''+'', CHR ''-'', CHR '' ''}" using peek_hash [OF ok, of r] by (simp add: t2_def t3_def t4_def t5_def t_def)
  have pk3: "peek t3 \<noteq> CHR ''#''" using peek_width [OF ok, of r] by (simp add: t3_def t4_def t5_def t_def)
  have pk4: "\<not> is_digit_char (peek t4)" using peek_precision(1) [OF ok, of r] by (simp add: t4_def t5_def t_def)
  have pk5: "\<not> is_digit_char (peek t5)" "peek t5 \<noteq> CHR ''.''" using peek_type [OF ok, of r] by (simp_all add: t5_def t_def)
  let ?s1 = "align_spec f"
  let ?s2 = "?s1\<lparr>sp_flags := sp_flags ?s1 OR sign_flags f\<rparr>"
  let ?s3 = "?s2\<lparr>sp_flags := sp_flags ?s2 OR (if fd_hash f then 4 else 0)\<rparr>"
  let ?s4 = "width_spec f ?s3"
  note steps = parse_align [OF ok u, of arg r, folded t_def] parse_sign [OF c(4) pk2, of arg ?s1 f] parse_hash [OF c(3) pk3, of arg ?s2 f]
    parse_width [OF ok c(2) pk4, of ?s3 arg] parse_precision [OF ok c(1) pk5, of args i arg]
    parse_type [OF ok, of ?s4 r, folded t_def]
  have w: "sp_width ?s3 = 0" "sp_type ?s4 = NUL"
    by (simp_all add: align_spec_def new_FormatSpec_def width_spec_def Let_def)
  have spec: "?s4\<lparr>sp_type := (case fd_type f of None \<Rightarrow> NUL | Some c \<Rightarrow> c)\<rparr> = field_spec f"
    by (auto simp: width_spec_def align_spec_def new_FormatSpec_def field_spec_def sign_flags_def Let_def split: option.split sign_part.split)
  have a: "ParseAlign 1 arg new_FormatSpec (spec_text f @ t) =
    (if map_option snd (fd_align f) = Some ALIGN_NUMERIC \<and> kind_of arg = No_number
     then Inl (Throw (FormatError (needs (CHR ''='') ''numeric''))) else Inr (?s1, sign_part_text f @ t2))"
    using steps(1) unfolding parts(1) parts(2) [symmetric] .
  have b: "ParseWidth 1 arg ?s3 t3 =
    (if fd_zero f \<and> kind_of arg = No_number then Inl (Throw (FormatError (needs (CHR ''0'') ''numeric'')))
     else if exceeds (fd_width f) then Inl (Throw (FormatError ''number is too big in format''))
     else Inr (?s4, t4))"
    unfolding t3_def using steps(4) w(1) by blast
  have d: "ParseType ?s4 t5 = (field_spec f, t)" unfolding t5_def using steps(6) w(2) spec by simp
  have e: "ParseSign 1 arg ?s1 (sign_part_text f @ t2) =
    (if fd_sign f \<noteq> None \<and> kind_of arg = No_number then Inl (Throw (FormatError (needs (sign_char (the (fd_sign f))) ''numeric'')))
     else if fd_sign f \<noteq> None \<and> kind_of arg = Unsigned_number
     then Inl (Throw (FormatError (needs (sign_char (the (fd_sign f))) ''signed'')))
     else Inr (?s2, t2))"
    by (rule steps(2))
  have g: "ParseHash 1 arg ?s2 t2 =
    (if fd_hash f \<and> kind_of arg = No_number then Inl (Throw (FormatError (needs (CHR ''#'') ''numeric''))) else Inr (?s3, t3))"
    using steps(3) unfolding t2_def .
  have h: "ParsePrecision args 1 i arg t4 =
    (if exceeds (fd_precision f) then Inl (Throw (FormatError ''number is too big in format''))
     else if fd_precision f \<noteq> None \<and> kind_of arg \<noteq> Real_number
     then Inl (Throw (FormatError ''precision specifier requires floating-point argument''))
     else Inr (case fd_precision f of None \<Rightarrow> -1 | Some n \<Rightarrow> int n, t5, i))"
    using steps(5) unfolding t4_def .
  define s1 s2 s3 s4 where "s1 = ?s1" and "s2 = ?s2" and "s3 = ?s3" and "s4 = ?s4"
  note all = a [folded s1_def] e [folded s2_def, folded s1_def] g [folded s3_def, folded s2_def] b [folded s4_def, folded s3_def] h d [folded s4_def]
  show ?thesis by (simp add: all spec_problem_def)
qed

text \<open>A field without specifiers.\<close>

lemma no_spec_text: "spec_text f = [] \<Longrightarrow> fd_align f = None \<and> fd_sign f = None \<and> \<not> fd_hash f \<and> \<not> fd_zero f
    \<and> fd_width f = None \<and> fd_precision f = None \<and> fd_type f = None"
  by (auto simp: spec_text_def align_text_def sign_part_text_def hash_text_def width_text_def precision_text_def type_text_def
      opt_text_def dec_string_nonempty split: option.splits if_splits)

lemma no_spec_field: "spec_text f = [] \<Longrightarrow> field_spec f = new_FormatSpec \<and> spec_problem kind f = None \<and> fd_precision f = None"
  using no_spec_text [of f] by (simp add: field_spec_def new_FormatSpec_def spec_problem_def exceeds_def)

lemma brace_align: "a \<noteq> ALIGN_DEFAULT \<Longrightarrow> align_char a \<noteq> CHR ''{'' \<and> align_char a \<noteq> CHR ''}''"
  by (cases a) simp_all

lemma spec_text_braces:
  assumes "field_ok f"
  shows "CHR ''{'' \<notin> set (spec_text f) \<and> CHR ''}'' \<notin> set (spec_text f)"
proof -
  have "all_spec u \<Longrightarrow> CHR ''{'' \<notin> set u \<and> CHR ''}'' \<notin> set u" for u by (auto simp: all_spec_def)
  note parts = parts_spec [OF assms, THEN this]
  have "CHR ''{'' \<notin> set (align_text f) \<and> CHR ''}'' \<notin> set (align_text f)"
  proof (cases "fd_align f")
    case (Some fa)
    obtain fill a where fa: "fa = (fill, a)" by (cases fa)
    then have "fill \<noteq> Some (CHR ''{'')" "fill \<noteq> Some (CHR ''}'')" "a \<noteq> ALIGN_DEFAULT" using assms Some by (simp_all add: field_ok_def)
    then show ?thesis using Some fa brace_align [of a] by (cases fill) (auto simp: align_text_def opt_text_def)
  qed (simp add: align_text_def opt_text_def)
  then show ?thesis using parts by (simp add: spec_text_def)
qed

definition after_index :: "field \<Rightarrow> string" where
  "after_index f = (if spec_text f = [] then [] else CHR '':'' # spec_text f)"

lemma field_text_index: "field_text f @ r = opt_text dec_string (fd_index f) @ after_index f @ CHR ''}'' # r"
  by (simp add: field_text_def after_index_def)

lemma after_index_closes: "field_ok f \<Longrightarrow> closes (after_index f @ CHR ''}'' # r)"
  by (rule closes_append) (use spec_text_braces in \<open>auto simp: after_index_def\<close>)

lemma peek_after_index: "peek (after_index f @ CHR ''}'' # r) \<in> {CHR ''}'', CHR '':''}"
  by (simp add: after_index_def)

fun next_of :: "numbering \<Rightarrow> int" where
  "next_of Fresh = 0"
| "next_of (Counting n) = int n"
| "next_of Numbered = -1"

fun numbering_ok :: "numbering \<Rightarrow> bool" where
  "numbering_ok (Counting n) = (0 < n)"
| "numbering_ok m = True"

lemma choose_arg_ok: "choose_arg m k = Inr (k', m') \<Longrightarrow> numbering_ok m'"
  by (cases m; cases k) auto

lemma parse_index:
  assumes ok: "field_ok f" and m: "numbering_ok m"
  shows "ParseArgIndex args 1 (next_of m) (field_text f @ r) =
    (case choose_arg m (fd_index f) of
       Inl e \<Rightarrow> Inl (Throw (FormatError e))
     | Inr (k, m') \<Rightarrow> (if length args \<le> k then Inl (Throw (FormatError ''argument index is out of range in format''))
                      else Inr (args ! k, after_index f @ CHR ''}'' # r, next_of m')))"
proof -
  define t where "t = after_index f @ CHR ''}'' # r"
  have c: "closes t" unfolding t_def by (rule after_index_closes [OF ok])
  have p: "peek t = CHR ''}'' \<or> peek t = CHR '':''" using peek_after_index [of f r] by (simp add: t_def)
  then have d: "\<not> is_digit_char (peek t)" by auto
  show ?thesis
  proof (cases "fd_index f")
    case None
    then have "field_text f @ r = t" by (simp add: field_text_index opt_text_def t_def)
    moreover have "ParseArgIndex args 1 (next_of m) t =
      (case choose_arg m None of
         Inl e \<Rightarrow> Inl (Throw (FormatError e))
       | Inr (k, m') \<Rightarrow> (if length args \<le> k then Inl (Throw (FormatError ''argument index is out of range in format''))
                        else Inr (args ! k, t, next_of m')))"
      using p d report_closes [OF c] m by (cases m) (auto simp: ParseArgIndex_def)
    ultimately show ?thesis using None unfolding t_def by simp
  next
    case (Some k)
    have n: "ParseUInt 1 (dec_string k @ t) = Inr (of_nat k, t)" "unat (of_nat k :: u32) = k"
      using ok Some ParseUInt_dec [OF _ d] unat_width by (simp_all add: field_ok_def)
    have ck: "closes (dec_string k @ t)" by (rule closes_spec [OF all_spec_dec c])
    have "ParseArgIndex args 1 (next_of m) (dec_string k @ t) =
      (case choose_arg m (Some k) of
         Inl e \<Rightarrow> Inl (Throw (FormatError e))
       | Inr (k, m') \<Rightarrow> (if length args \<le> k then Inl (Throw (FormatError ''argument index is out of range in format''))
                        else Inr (args ! k, t, next_of m')))"
      using report_closes [OF c] report_closes [OF ck] m n peek_dec_string [of k t] by (cases m) (auto simp: ParseArgIndex_def)
    then show ?thesis using Some unfolding t_def by (simp add: field_text_index opt_text_def)
  qed
qed

lemma parse_field:
  fixes args :: "('d, 'l) ArgInfo list"
  assumes ok: "field_ok f" and m: "numbering_ok m"
  shows "ParseField args (next_of m) (field_text f @ r) =
    (case choose_arg m (fd_index f) of
       Inl e \<Rightarrow> Inl (Throw (FormatError e))
     | Inr (k, m') \<Rightarrow>
         (case field_problem args k f of
            Some e \<Rightarrow> Inl (Throw (FormatError e))
          | None \<Rightarrow> Inr (args ! k, field_spec f, case fd_precision f of None \<Rightarrow> -1 | Some n \<Rightarrow> int n, r, next_of m')))"
proof (cases "choose_arg m (fd_index f)")
  case (Inl e)
  then show ?thesis by (simp add: ParseField_def parse_index [OF assms])
next
  case (Inr km)
  obtain k m' where km: "km = (k, m')" by (cases km)
  show ?thesis
  proof (cases "length args \<le> k \<or> spec_text f = []")
    case True
    then show ?thesis using Inr km no_spec_field [of f]
      by (auto simp: ParseField_def parse_index [OF assms] field_problem_def after_index_def)
  next
    case False
    then have "after_index f @ CHR ''}'' # r = CHR '':'' # spec_text f @ CHR ''}'' # r" by (simp add: after_index_def)
    then show ?thesis
      using Inr km False parse_spec [OF ok, where arg = "args ! k" and r = r and args = args and i = "next_of m'"]
      by (simp add: ParseField_def parse_index [OF assms] field_problem_def split: option.split)
  qed
qed

subsection \<open>Whole formats\<close>

lemma field_text_open: "peek (field_text f @ r) \<noteq> CHR ''{''"
proof (cases "fd_index f")
  case None
  then show ?thesis using peek_after_index [of f r] by (auto simp: field_text_index opt_text_def)
next
  case (Some k)
  then show ?thesis using peek_dec_string [of k "after_index f @ CHR ''}'' # r"]
    by (auto simp: field_text_index opt_text_def is_digit_char_def code_def)
qed

lemma format_text_spell:
  "numbering_ok m \<Longrightarrow> \<forall>p \<in> set ps. piece_ok p \<Longrightarrow>
    \<exists>i. format_text args (next_of m) (spell ps @ r) = ebind (meaning args m ps) (\<lambda>t. ebind (format_text args i r) (\<lambda>t'. Inr (t @ t')))"
proof (induction args m ps rule: meaning.induct)
  case (1 args m)
  then show ?case by (auto simp: ebind_Inr_id)
next
  case (2 args m s ps)
  then obtain i where "format_text args (next_of m) (spell ps @ r)
      = ebind (meaning args m ps) (\<lambda>t. ebind (format_text args i r) (\<lambda>t'. Inr (t @ t')))" by auto
  then show ?case by (intro exI [of _ i]) (simp add: format_text_escape ebind_assoc)
next
  case (3 args m f ps)
  have f: "field_ok f" using 3(3) by simp
  note field = parse_field [OF f 3(2), of args "spell ps @ r"]
  show ?case
  proof (cases "choose_arg m (fd_index f)")
    case (Inl e)
    then show ?thesis using field field_text_open by simp
  next
    case (Inr km)
    obtain k m' where km: "km = (k, m')" by (cases km)
    show ?thesis
    proof (cases "field_problem args k f")
      case (Some e)
      then show ?thesis using Inr km field field_text_open by simp
    next
      case None
      show ?thesis
      proof (cases "arg_layout (args ! k) (field_spec f)")
        case (Inl e)
        then show ?thesis using \<open>choose_arg m (fd_index f) = Inr km\<close> km None field field_text_open by simp
      next
        case (Inr t)
        note c = \<open>choose_arg m (fd_index f) = Inr km\<close>
        have "numbering_ok m'" using choose_arg_ok c km by simp
        then obtain i where "format_text args (next_of m') (spell ps @ r)
            = ebind (meaning args m' ps) (\<lambda>t. ebind (format_text args i r) (\<lambda>t'. Inr (t @ t')))"
          using 3(1) [OF c km [symmetric] None Inr] 3(3) by auto
        then show ?thesis using c km None Inr field field_text_open
          by (intro exI [of _ i]) (simp add: ebind_assoc)
      qed
    qed
  qed
qed

lemma all_spec_NUL: "all_spec u \<Longrightarrow> NUL \<notin> set u"
  by (auto simp: all_spec_def spec_char_def is_digit_char_def code_def)

lemma field_text_NUL:
  assumes "field_ok f"
  shows "NUL \<notin> set (field_text f)"
proof -
  have a: "NUL \<noteq> align_char a" if "a \<noteq> ALIGN_DEFAULT" for a using that by (cases a) simp_all
  have "NUL \<notin> set (align_text f)"
  proof (cases "fd_align f")
    case (Some fa)
    obtain fill a where fa: "fa = (fill, a)" by (cases fa)
    then have "fill \<noteq> Some NUL" "a \<noteq> ALIGN_DEFAULT" using assms Some by (simp_all add: field_ok_def)
    then show ?thesis using Some fa a [of a] by (cases fill) (auto simp: align_text_def opt_text_def)
  qed (simp add: align_text_def opt_text_def)
  then show ?thesis using parts_spec [OF assms, THEN all_spec_NUL] dec_string_no_NUL
    by (auto simp: field_text_def spec_text_def opt_text_def split: option.splits if_splits)
qed

lemma spell_NUL: "\<forall>p \<in> set ps. piece_ok p \<Longrightarrow> NUL \<notin> set (spell ps)"
  by (induction ps rule: spell.induct) (auto simp: escape_no_NUL field_text_NUL)



end
