(* ===== verification/Flex_Regex.thy ===== *)
theory Flex_Regex
  imports Prelude
begin

text \<open>
  The patterns of a flex scanner and what flex promises about them: \<open>lang\<close> is the set of texts a
  pattern matches, \<open>longest\<close> computes the length of the longest prefix it matches (by derivatives,
  as the generated automaton does one character at a time), and \<open>reads_beyond\<close> says whether the
  automaton looks up a character its tables have no column for. The flex operators \<open>+\<close>,
  \<open>?\<close>, \<open>{n}\<close>, \<open>{0,n}\<close>, quoted text and \<open>(?i:...)\<close> are derived from the core constructors.
\<close>

subsection \<open>Patterns\<close>

datatype regex =
    Void
  | Empty
  | Cls "char \<Rightarrow> bool"
  | Seq regex regex
  | Alt regex regex
  | Star regex

inductive matches :: "regex \<Rightarrow> string \<Rightarrow> bool" where
  m_empty: "matches Empty []"
| m_cls: "P c \<Longrightarrow> matches (Cls P) [c]"
| m_seq: "matches r s \<Longrightarrow> matches q t \<Longrightarrow> matches (Seq r q) (s @ t)"
| m_alt1: "matches r s \<Longrightarrow> matches (Alt r q) s"
| m_alt2: "matches q s \<Longrightarrow> matches (Alt r q) s"
| m_star0: "matches (Star r) []"
| m_star: "matches r s \<Longrightarrow> s \<noteq> [] \<Longrightarrow> matches (Star r) t \<Longrightarrow> matches (Star r) (s @ t)"

inductive_cases matches_VoidE [elim!]: "matches Void s"
inductive_cases matches_EmptyE [elim!]: "matches Empty s"
inductive_cases matches_ClsE [elim!]: "matches (Cls P) s"
inductive_cases matches_SeqE [elim]: "matches (Seq r q) s"
inductive_cases matches_AltE [elim]: "matches (Alt r q) s"
inductive_cases matches_StarE: "matches (Star r) s"

fun nullable :: "regex \<Rightarrow> bool" where
  "nullable Void = False"
| "nullable Empty = True"
| "nullable (Cls P) = False"
| "nullable (Seq r q) = (nullable r \<and> nullable q)"
| "nullable (Alt r q) = (nullable r \<or> nullable q)"
| "nullable (Star r) = True"

fun deriv :: "char \<Rightarrow> regex \<Rightarrow> regex" where
  "deriv c Void = Void"
| "deriv c Empty = Void"
| "deriv c (Cls P) = (if P c then Empty else Void)"
| "deriv c (Seq r q) =
     (if nullable r then Alt (Seq (deriv c r) q) (deriv c q) else Seq (deriv c r) q)"
| "deriv c (Alt r q) = Alt (deriv c r) (deriv c q)"
| "deriv c (Star r) = Seq (deriv c r) (Star r)"

text \<open>A pattern that matches nothing: the automaton is jammed.\<close>

fun is_void :: "regex \<Rightarrow> bool" where
  "is_void Void = True"
| "is_void Empty = False"
| "is_void (Cls P) = False"
| "is_void (Seq r q) = (is_void r \<or> is_void q)"
| "is_void (Alt r q) = (is_void r \<and> is_void q)"
| "is_void (Star r) = False"

lemma nullable_matches: "nullable r \<longleftrightarrow> matches r []"
proof (induction r)
  case (Seq r q)
  then show ?case using m_seq [of r "[]" q "[]"] by auto
qed (auto intro: matches.intros)

lemma matches_Seq_Cons:
  "matches (Seq r q) (c # s) \<longleftrightarrow>
     (\<exists>t u. s = t @ u \<and> matches r (c # t) \<and> matches q u) \<or> (matches r [] \<and> matches q (c # s))"
    (is "?lhs \<longleftrightarrow> ?rhs")
proof
  assume ?lhs
  then obtain t u where tu: "c # s = t @ u" "matches r t" "matches q u" by (rule matches_SeqE) auto
  then show ?rhs by (cases t) auto
next
  assume ?rhs
  then show ?lhs using m_seq [of r "c # t" q u for t u] m_seq [of r "[]" q "c # s"] by auto
qed

lemma matches_Star_Cons:
  "matches (Star r) (c # s) \<longleftrightarrow> (\<exists>t u. s = t @ u \<and> matches r (c # t) \<and> matches (Star r) u)"
    (is "?lhs \<longleftrightarrow> ?rhs")
proof
  assume ?lhs
  then obtain t u where tu: "c # s = t @ u" "matches r t" "t \<noteq> []" "matches (Star r) u"
    by (rule matches_StarE) auto
  then show ?rhs by (cases t) auto
next
  assume ?rhs
  then obtain t u where "s = t @ u" "matches r (c # t)" "matches (Star r) u" by blast
  then show ?lhs using m_star [of r "c # t" u] by simp
qed

lemma matches_Seq_iff: "matches (Seq r q) s \<longleftrightarrow> (\<exists>t u. s = t @ u \<and> matches r t \<and> matches q u)"
  by (auto elim!: matches_SeqE intro: m_seq)

lemma matches_Alt_iff [simp]: "matches (Alt r q) s \<longleftrightarrow> matches r s \<or> matches q s"
  by (auto intro: m_alt1 m_alt2)

lemma matches_deriv: "matches (deriv c r) s \<longleftrightarrow> matches r (c # s)"
proof (induction r arbitrary: s)
  case (Seq r q)
  have "matches (Seq (deriv c r) q) s \<longleftrightarrow> (\<exists>t u. s = t @ u \<and> matches r (c # t) \<and> matches q u)"
    by (simp add: matches_Seq_iff Seq.IH)
  then show ?case by (auto simp: matches_Seq_Cons nullable_matches Seq.IH)
next
  case (Star r)
  then show ?case by (simp add: matches_Star_Cons matches_Seq_iff)
qed (auto intro: matches.intros)

definition accepts :: "regex \<Rightarrow> string \<Rightarrow> bool" where
  "accepts r s = nullable (foldl (\<lambda>q c. deriv c q) r s)"

lemma accepts_matches: "accepts r s = matches r s"
  unfolding accepts_def by (induction s arbitrary: r) (simp_all add: nullable_matches matches_deriv)

lemma is_void_matches: "is_void r \<Longrightarrow> \<not> matches r s"
  by (induction r arbitrary: s) (auto simp: matches_Seq_iff)

subsection \<open>Longest match\<close>

fun longest :: "regex \<Rightarrow> string \<Rightarrow> nat option" where
  "longest r [] = (if nullable r then Some 0 else None)"
| "longest r (c # s) =
     (case longest (deriv c r) s of
        Some n \<Rightarrow> Some (Suc n)
      | None \<Rightarrow> if nullable r then Some 0 else None)"

text \<open>The characters the automaton looks up until it is jammed or the text ends.\<close>

fun reads_beyond :: "nat \<Rightarrow> regex \<Rightarrow> string \<Rightarrow> bool" where
  "reads_beyond csize r [] = False"
| "reads_beyond csize r (c # s) =
     (code c \<ge> csize \<or> (\<not> is_void (deriv c r) \<and> reads_beyond csize (deriv c r) s))"

lemma some_prefix_Cons:
  "(\<exists>n. matches r (take n (c # s))) \<longleftrightarrow> matches r [] \<or> (\<exists>n. matches r (c # take n s))"
  by (metis nat.exhaust take_0 take_Suc_Cons)

lemma longest_None: "longest r s = None \<longleftrightarrow> (\<nexists>n. matches r (take n s))"
proof (induction s arbitrary: r)
  case Nil
  then show ?case by (simp add: nullable_matches)
next
  case (Cons c s)
  show ?case
    unfolding some_prefix_Cons using Cons.IH [of "deriv c r"]
    by (auto simp: matches_deriv nullable_matches split: option.splits)
qed

lemma longest_Some:
  "longest r s = Some n \<Longrightarrow>
     n \<le> length s \<and> matches r (take n s) \<and> (\<forall>m. n < m \<and> m \<le> length s \<longrightarrow> \<not> matches r (take m s))"
proof (induction s arbitrary: r n)
  case Nil
  then show ?case by (auto simp: nullable_matches split: if_splits)
next
  case (Cons c s)
  show ?case
  proof (cases "longest (deriv c r) s")
    case None
    then have n: "n = 0" "matches r []" using Cons.prems by (auto simp: nullable_matches split: if_splits)
    have "\<not> matches r (take m (c # s))" if "0 < m" for m
      using None that unfolding longest_None by (cases m) (auto simp: matches_deriv)
    with n show ?thesis by simp
  next
    case (Some k)
    then have n: "n = Suc k" using Cons.prems by simp
    have k: "k \<le> length s" "matches r (c # take k s)"
      "\<And>m. k < m \<Longrightarrow> m \<le> length s \<Longrightarrow> \<not> matches r (c # take m s)"
      using Cons.IH [OF Some] by (auto simp: matches_deriv)
    have "\<not> matches r (take m (c # s))" if "Suc k < m" "m \<le> length (c # s)" for m
      using that k(3) by (cases m) auto
    with n k show ?thesis by simp
  qed
qed

lemma longest_unique:
  assumes "n \<le> length s" and "matches r (take n s)"
    and "\<And>m. n < m \<Longrightarrow> m \<le> length s \<Longrightarrow> \<not> matches r (take m s)"
  shows "longest r s = Some n"
proof (cases "longest r s")
  case None
  with assms(2) show ?thesis by (auto simp: longest_None)
next
  case (Some k)
  then have "k \<le> length s" "matches r (take k s)" "\<And>m. k < m \<Longrightarrow> m \<le> length s \<Longrightarrow> \<not> matches r (take m s)"
    using longest_Some by blast+
  with assms Some show ?thesis by (metis linorder_neqE_nat)
qed

lemma longest_le: "longest r s = Some n \<Longrightarrow> n \<le> length s"
  using longest_Some by blast

lemma reads_within: "\<forall>c \<in> set s. code c < csize \<Longrightarrow> \<not> reads_beyond csize r s"
  by (induction s arbitrary: r) auto

lemma longest_cong:
  assumes "\<And>s. matches r s \<longleftrightarrow> matches q s"
  shows "longest r s = longest q s"
proof (cases "longest q s")
  case None
  then have "longest r s = None" by (simp add: longest_None assms)
  with None show ?thesis by simp
next
  case (Some n)
  from longest_Some [OF Some] assms show ?thesis unfolding Some by (intro longest_unique) auto
qed

text \<open>
  A text a pattern matches, followed by a character the pattern never takes, is the longest match.
\<close>

lemma longest_delimited:
  assumes "matches r s" and "\<And>u. matches r u \<Longrightarrow> d \<notin> set u"
  shows "longest r (s @ d # t) = Some (length s)"
proof (rule longest_unique)
  fix m
  assume "length s < m"
  then have "d \<in> set (take m (s @ d # t))" by (cases "m - length s") auto
  with assms(2) show "\<not> matches r (take m (s @ d # t))" by blast
qed (use assms(1) in simp_all)

lemma longest_Alt:
  "longest (Alt r q) s =
     (case (longest r s, longest q s) of
        (None, b) \<Rightarrow> b | (a, None) \<Rightarrow> a | (Some n, Some m) \<Rightarrow> Some (max n m))"
  by (induction s arbitrary: r q) (auto split: option.splits)

lemma longest_Void [simp]: "longest Void s = None"
  by (simp add: longest_None) blast

lemma matches_Cls_iff [simp]: "matches (Cls P) s \<longleftrightarrow> (\<exists>c. s = [c] \<and> P c)"
  by (auto intro: m_cls)

lemma longest_Empty [simp]: "longest Empty s = Some 0"
  by (cases s) simp_all

lemma longest_Cls [simp]:
  "longest (Cls P) [] = None"
  "longest (Cls P) (c # s) = (if P c then Some 1 else None)"
  by simp_all

lemma longest_Seq_Empty [simp]: "longest (Seq Empty r) s = longest r s"
  by (rule longest_cong) (auto simp: matches_Seq_iff intro: m_empty)

lemma longest_Seq_Void [simp]: "longest (Seq Void r) s = None"
  by (auto simp: longest_None matches_Seq_iff)

declare longest.simps(2) [simp del]

subsection \<open>Operators\<close>

text \<open>\<open>r+\<close>, \<open>r{n}\<close>, \<open>r{0,n}\<close>, \<open>"text"\<close> and \<open>(?i:"text")\<close>.\<close>

definition Plus :: "regex \<Rightarrow> regex" where
  "Plus r = Seq r (Star r)"

fun Rep :: "nat \<Rightarrow> regex \<Rightarrow> regex" where
  "Rep 0 r = Empty"
| "Rep (Suc n) r = Seq r (Rep n r)"

fun Upto :: "nat \<Rightarrow> regex \<Rightarrow> regex" where
  "Upto 0 r = Empty"
| "Upto (Suc n) r = Alt Empty (Seq r (Upto n r))"

fun lit :: "string \<Rightarrow> regex" where
  "lit [] = Empty"
| "lit (c # s) = Seq (Cls (\<lambda>d. d = c)) (lit s)"

definition lower :: "char \<Rightarrow> char" where
  "lower c = (if 65 \<le> code c \<and> code c \<le> 90 then chr (code c + 32) else c)"

fun lit_ci :: "string \<Rightarrow> regex" where
  "lit_ci [] = Empty"
| "lit_ci (c # s) = Seq (Cls (\<lambda>d. lower d = lower c)) (lit_ci s)"

lemma matches_Seq_Cls: "matches (Seq (Cls P) q) s \<longleftrightarrow> (\<exists>c t. s = c # t \<and> P c \<and> matches q t)"
    (is "?lhs \<longleftrightarrow> ?rhs")
proof
  assume ?rhs
  then show ?lhs using m_seq [OF m_cls] by fastforce
qed (auto simp: matches_Seq_iff)

lemma matches_Empty_iff: "matches Empty s \<longleftrightarrow> s = []"
  by (auto intro: m_empty)

lemma matches_lit: "matches (lit l) s \<longleftrightarrow> s = l"
  by (induction l arbitrary: s) (auto simp: matches_Seq_Cls matches_Empty_iff)

lemma matches_lit_ci: "matches (lit_ci l) s \<longleftrightarrow> map lower s = map lower l"
proof (induction l arbitrary: s)
  case (Cons c l)
  then show ?case by (cases s) (auto simp: matches_Seq_Cls)
qed (auto simp: matches_Empty_iff)

lemma longest_fixed:
  assumes "\<And>u. matches r u \<Longrightarrow> length u = n"
  shows "longest r s = (if n \<le> length s \<and> matches r (take n s) then Some n else None)"
proof (cases "n \<le> length s \<and> matches r (take n s)")
  case True
  have "longest r s = Some n"
  proof (rule longest_unique)
    fix m
    assume "n < m" "m \<le> length s"
    then show "\<not> matches r (take m s)" using assms [of "take m s"] by auto
  qed (use True in simp_all)
  then show ?thesis using True by simp
next
  case False
  have "\<not> matches r (take m s)" for m
    using False assms [of "take m s"] by (cases "m \<le> length s") auto
  then have "longest r s = None" by (simp add: longest_None)
  then show ?thesis by (simp only: False if_False)
qed

lemma longest_lit: "longest (lit l) s = (if take (length l) s = l then Some (length l) else None)"
proof -
  have "longest (lit l) s = (if length l \<le> length s \<and> matches (lit l) (take (length l) s) then Some (length l) else None)"
    by (rule longest_fixed) (simp add: matches_lit)
  then show ?thesis unfolding matches_lit by (auto dest: arg_cong [where f = length])
qed

lemma longest_lit_ci:
  "longest (lit_ci l) s = (if map lower (take (length l) s) = map lower l then Some (length l) else None)"
proof -
  have "longest (lit_ci l) s = (if length l \<le> length s \<and> matches (lit_ci l) (take (length l) s) then Some (length l) else None)"
    by (rule longest_fixed) (auto simp: matches_lit_ci dest: map_eq_imp_length_eq)
  then show ?thesis unfolding matches_lit_ci
    by (auto dest!: map_eq_imp_length_eq)
qed

lemma matches_Star_Cls: "matches (Star (Cls P)) s \<longleftrightarrow> (\<forall>c \<in> set s. P c)"
proof (induction s)
  case Nil
  then show ?case by (simp add: m_star0)
next
  case (Cons c s)
  then show ?case by (auto simp: matches_Star_Cons)
qed

lemma matches_Star_append: "matches (Star r) s \<Longrightarrow> matches (Star r) t \<Longrightarrow> matches (Star r) (s @ t)"
proof (induction "Star r" s rule: matches.induct)
  case (m_star s t')
  then show ?case using matches.m_star [of r s "t' @ t"] by simp
qed simp

lemma matches_Star_set:
  assumes "\<And>u. matches r u \<Longrightarrow> set u \<subseteq> A"
  shows "matches (Star r) s \<Longrightarrow> set s \<subseteq> A"
proof (induction "Star r" s rule: matches.induct)
  case (m_star s t)
  then show ?case using assms by auto
qed simp

text \<open>\<open>r*{0,n}\<close> is \<open>r*\<close>: the bound applies to the repetition of the repetition.\<close>

lemma matches_Upto_Star: "matches (Upto (Suc n) (Star r)) s \<longleftrightarrow> matches (Star r) s"
proof
  show "matches (Upto (Suc n) (Star r)) s \<Longrightarrow> matches (Star r) s"
  proof (induction n arbitrary: s)
    case 0
    then show ?case by (auto simp: matches_Seq_iff intro: m_star0)
  next
    case (Suc n)
    from Suc.prems consider "s = []" | t u where "s = t @ u" "matches (Star r) t" "matches (Upto (Suc n) (Star r)) u"
      by (subst (asm) Upto.simps) (auto simp: matches_Seq_iff simp del: Upto.simps)
    then show ?case
    proof cases
      case 2
      from matches_Star_append [OF 2(2) Suc.IH [OF 2(3)]] 2(1) show ?thesis by simp
    qed (simp add: m_star0)
  qed
next
  assume s: "matches (Star r) s"
  have "matches (Upto n (Star r)) []" by (cases n) (auto intro: m_empty)
  with s m_seq [of "Star r" s "Upto n (Star r)" "[]"] show "matches (Upto (Suc n) (Star r)) s" by simp
qed

subsection \<open>Choosing a rule\<close>

text \<open>The longest match wins, and among equally long ones the rule listed first.\<close>

fun best :: "(regex \<times> 'a) list \<Rightarrow> string \<Rightarrow> (nat \<times> 'a) option" where
  "best [] s = None"
| "best ((r, a) # rs) s =
     (case longest r s of
        None \<Rightarrow> best rs s
      | Some n \<Rightarrow> (case best rs s of
                    None \<Rightarrow> Some (n, a)
                  | Some (m, b) \<Rightarrow> if n < m then Some (m, b) else Some (n, a)))"

lemma best_None: "best rs s = None \<longleftrightarrow> (\<forall>(r, a) \<in> set rs. longest r s = None)"
  by (induction rs s rule: best.induct) (auto split: option.splits if_splits)

lemma best_sound:
  "best rs s = Some (n, a) \<Longrightarrow>
     (\<exists>r. (r, a) \<in> set rs \<and> longest r s = Some n) \<and> (\<forall>r b m. (r, b) \<in> set rs \<longrightarrow> longest r s = Some m \<longrightarrow> m \<le> n)"
proof (induction rs arbitrary: n a)
  case (Cons rule rs)
  obtain r b where rule: "rule = (r, b)" by (cases rule)
  show ?case
  proof (cases "longest r s")
    case None
    with Cons rule show ?thesis by auto
  next
    case (Some k)
    show ?thesis
    proof (cases "best rs s")
      case None
      then have "longest q s = None" if "(q, c) \<in> set rs" for q c using that by (auto simp: best_None)
      with Cons.prems Some None rule show ?thesis by auto
    next
      case (Some mb)
      obtain m c where mb: "mb = (m, c)" by (cases mb)
      show ?thesis
        using Cons.prems Cons.IH [of m c] Some mb rule \<open>longest r s = Some k\<close>
        by (auto split: if_splits intro: le_trans less_imp_le)
    qed
  qed
qed simp

end
