(* ===== verification/Irc_Lexer.thy ===== *)
theory Irc_Lexer
  imports Flex_Regex
begin

text \<open>
  The message scanner src/irc-client.l and the message types of src/irc-client.h. Every pattern
  definition, every rule and every action of the file is here, run with the semantics of flex:
  longest match, first rule on a tie, the default rule that echoes one character, the start
  condition stack, \<open>strndup\<close> and \<open>free\<close> counted by \<open>lx_live\<close>, and the fixed array of 14 parameters.

  One run of \<open>yylex\<close> scans one message of the server (the text up to and including its line end).
  A callback that is invoked is recorded in \<open>lx_sent\<close>. \<open>csize\<close> is the character range of the
  generated tables: the build runs \<open>flex -f\<close>, which makes a 7-bit scanner (128) unless flex itself
  was configured otherwise (256); a character outside it indexes outside the tables.
\<close>

subsection \<open>Messages\<close>

record cq_irc_message =
  msg_host :: "string option"
  msg_user :: "string option"
  msg_source :: "string option"
  msg_params :: "string list"
  msg_trailing :: "string option"

definition empty_message :: cq_irc_message where
  "empty_message = \<lparr>msg_host = None, msg_user = None, msg_source = None, msg_params = [], msg_trailing = None\<rparr>"

definition MAX_PARAMS :: nat where
  "MAX_PARAMS = 14"

datatype event = Welcome | Ping | Privmsg | Notice | Error | Unknown

subsection \<open>Patterns\<close>

definition is_alpha :: "char \<Rightarrow> bool" where
  "is_alpha c \<longleftrightarrow> 65 \<le> code c \<and> code c \<le> 90 \<or> 97 \<le> code c \<and> code c \<le> 122"

definition is_alnum :: "char \<Rightarrow> bool" where
  "is_alnum c \<longleftrightarrow> is_alpha c \<or> is_digit_char c"

definition is_special :: "char \<Rightarrow> bool" where
  "is_special c \<longleftrightarrow> 91 \<le> code c \<and> code c \<le> 96 \<or> 123 \<le> code c \<and> code c \<le> 125"

definition p_command :: regex where
  "p_command = Alt (Plus (Cls is_alpha)) (Rep 3 (Cls is_digit_char))"

definition p_nickname :: regex where
  "p_nickname = Seq (Alt (Cls is_alpha) (Cls is_special))
     (Upto 8 (Star (Alt (Cls is_alnum) (Alt (Cls is_special) (lit ''-'')))))"

definition p_shortname :: regex where
  "p_shortname = Seq (Cls is_alnum) (Seq (Star (Alt (Cls is_alnum) (lit ''-''))) (Star (Cls is_alnum)))"

definition p_hostname :: regex where
  "p_hostname = Seq p_shortname (Star (Seq (lit ''.'') p_shortname))"

definition p_servername :: regex where
  "p_servername = p_hostname"

definition is_middle_char :: "char \<Rightarrow> bool" where
  "is_middle_char c \<longleftrightarrow> c \<noteq> CHR '' '' \<and> c \<noteq> NUL \<and> c \<noteq> CR \<and> c \<noteq> LF"

definition p_middle :: regex where
  "p_middle = Seq (Cls (\<lambda>c. is_middle_char c \<and> c \<noteq> CHR '':'')) (Star (Cls is_middle_char))"

definition p_crlf :: regex where
  "p_crlf = Alt (lit [CR, LF]) (lit [LF, CR])"

definition is_trailing_char :: "char \<Rightarrow> bool" where
  "is_trailing_char c \<longleftrightarrow> c \<noteq> NUL \<and> c \<noteq> CR \<and> c \<noteq> LF"

definition p_trailing :: regex where
  "p_trailing = Star (Cls is_trailing_char)"

subsection \<open>Rules\<close>

text \<open>The start conditions and the actions, one constructor per kind of action of the file.\<close>

datatype sc = INITIAL | GENERIC_INITIAL | GENERIC_PARAMS | PREFIX | PREFIX_OPT | PARAMS | PARAM | TRAILING

datatype action =
    Push_prefix | Test_event event | Test_unknown
  | Set_source | Set_user | Set_host | Pop_prefix
  | Push_param | Signal_extra | Signal
  | Push_trailing | Add_middle | Set_trailing
  | ECHO

text \<open>The default rule comes last in every start condition.\<close>

definition default_rule :: "regex \<times> action" where
  "default_rule = (Cls (\<lambda>c. True), ECHO)"

fun rules :: "sc \<Rightarrow> (regex \<times> action) list" where
  "rules INITIAL =
     [(lit '':'', Push_prefix),
      (lit_ci ''004'', Test_event Welcome),
      (lit_ci ''PING'', Test_event Ping),
      (lit_ci ''PRIVMSG'', Test_event Privmsg),
      (lit_ci ''NOTICE'', Test_event Notice),
      (lit_ci ''ERROR'', Test_event Error),
      (p_command, Test_unknown),
      default_rule]"
| "rules GENERIC_INITIAL = [(lit '':'', Push_prefix), (p_command, Test_unknown), default_rule]"
| "rules PREFIX = [(Alt p_nickname p_servername, Set_source), default_rule]"
| "rules PREFIX_OPT =
     [(lit ''!{user}'', Set_user), (lit (CHR ''@'' # ''{host}''), Set_host), (lit '' '', Pop_prefix), default_rule]"
| "rules GENERIC_PARAMS = [(lit '' '', Push_param), (p_crlf, Signal_extra), default_rule]"
| "rules PARAMS = [(lit '' '', Push_param), (p_crlf, Signal), default_rule]"
| "rules PARAM = [(lit '':'', Push_trailing), (p_middle, Add_middle), default_rule]"
| "rules TRAILING = [(p_trailing, Set_trailing), default_rule]"

definition alternatives :: "(regex \<times> action) list \<Rightarrow> regex" where
  "alternatives rs = foldr (\<lambda>(r, _). Alt r) rs Void"

subsection \<open>The scanner\<close>

text \<open>
  \<open>event_signal\<close> and \<open>extra_event_signal\<close> are not initialised by the code: \<open>None\<close> and \<open>False\<close>
  until an action has set them.
\<close>

record lexer =
  lx_start :: sc
  lx_stack :: "sc list"
  lx_rest :: string
  lx_msg :: cq_irc_message
  lx_command :: "string option"
  lx_event :: "event option"
  lx_extra :: bool
  lx_echo :: string
  lx_live :: nat
  lx_sent :: "(event \<times> string option \<times> cq_irc_message) list"

datatype flow = Continue lexer | Return int lexer

definition yy_push_state :: "sc \<Rightarrow> lexer \<Rightarrow> lexer" where
  "yy_push_state s l = l\<lparr>lx_start := s, lx_stack := lx_start l # lx_stack l\<rparr>"

definition yy_pop_state :: "lexer \<Rightarrow> lexer res" where
  "yy_pop_state l =
     (case lx_stack l of
        [] \<Rightarrow> Inl (Throw (FlexFatal ''start-condition stack underflow''))
      | s # ss \<Rightarrow> Inr (l\<lparr>lx_start := s, lx_stack := ss\<rparr>))"

definition yy_pop2 :: "lexer \<Rightarrow> lexer res" where
  "yy_pop2 l = ebind (yy_pop_state l) yy_pop_state"

text \<open>How many blocks \<open>destroy_message\<close> frees: those the message points at.\<close>

definition held :: "'a option \<Rightarrow> nat" where
  "held x = (case x of None \<Rightarrow> 0 | Some _ \<Rightarrow> 1)"

definition blocks :: "cq_irc_message \<Rightarrow> nat" where
  "blocks m = held (msg_host m) + held (msg_source m) + held (msg_user m) + length (msg_params m)
     + held (msg_trailing m)"

definition destroy_message :: "lexer \<Rightarrow> lexer" where
  "destroy_message l = l\<lparr>lx_live := lx_live l - blocks (lx_msg l)\<rparr>"

definition free_command :: "lexer \<Rightarrow> lexer" where
  "free_command l = l\<lparr>lx_live := lx_live l - held (lx_command l)\<rparr>"

definition with_msg :: "(cq_irc_message \<Rightarrow> cq_irc_message) \<Rightarrow> lexer \<Rightarrow> lexer" where
  "with_msg f l = l\<lparr>lx_msg := f (lx_msg l), lx_live := lx_live l + 1\<rparr>"

text \<open>\<open>strndup\<close> stops at a NUL.\<close>

definition IRC_EVENT_TEST :: "(event \<Rightarrow> bool) \<Rightarrow> event \<Rightarrow> lexer \<Rightarrow> flow" where
  "IRC_EVENT_TEST has e l =
     (if has e then Continue (l\<lparr>lx_event := Some e\<rparr>) else Return 1 (destroy_message l))"

definition IRC_EVENT_TEST_EXTRA :: "(event \<Rightarrow> bool) \<Rightarrow> string \<Rightarrow> lexer \<Rightarrow> flow" where
  "IRC_EVENT_TEST_EXTRA has extra l =
     (if has Unknown
      then Continue (l\<lparr>lx_extra := True, lx_command := Some (c_text extra), lx_live := lx_live l + 1\<rparr>)
      else Return 1 (destroy_message l))"

definition IRC_ADD_PARAM :: "string \<Rightarrow> lexer \<Rightarrow> lexer res" where
  "IRC_ADD_PARAM x l =
     (if length (msg_params (lx_msg l)) < MAX_PARAMS
      then Inr (with_msg (\<lambda>m. m\<lparr>msg_params := msg_params m @ [x]\<rparr>) l)
      else Inl (Undefined OutOfBounds))"

fun run_action :: "(event \<Rightarrow> bool) \<Rightarrow> action \<Rightarrow> string \<Rightarrow> lexer \<Rightarrow> flow res" where
  "run_action has Push_prefix yytext l = Inr (Continue (yy_push_state PREFIX l))"
| "run_action has (Test_event e) yytext l = Inr (IRC_EVENT_TEST has e (yy_push_state PARAMS l))"
| "run_action has Test_unknown yytext l =
     Inr (IRC_EVENT_TEST_EXTRA has yytext (yy_push_state GENERIC_PARAMS l))"
| "run_action has Set_source yytext l =
     Inr (Continue (with_msg (\<lambda>m. m\<lparr>msg_source := Some (c_text yytext)\<rparr>) (yy_push_state PREFIX_OPT l)))"
| "run_action has Set_user yytext l =
     Inr (Continue (with_msg (\<lambda>m. m\<lparr>msg_user := Some (c_text (tl yytext))\<rparr>) l))"
| "run_action has Set_host yytext l =
     Inr (Continue (with_msg (\<lambda>m. m\<lparr>msg_host := Some (c_text (tl yytext))\<rparr>) l))"
| "run_action has Pop_prefix yytext l = ebind (yy_pop2 l) (\<lambda>l. Inr (Continue l))"
| "run_action has Push_param yytext l = Inr (Continue (yy_push_state PARAM l))"
| "run_action has Signal_extra yytext l =
     (if lx_extra l
      then Inr (Return 0 (free_command (destroy_message
             (l\<lparr>lx_sent := lx_sent l @ [(Unknown, lx_command l, lx_msg l)]\<rparr>))))
      else Inl (Undefined Uninitialised))"
| "run_action has Signal yytext l =
     (case lx_event l of
        Some e \<Rightarrow> Inr (Return 0 (destroy_message (l\<lparr>lx_sent := lx_sent l @ [(e, None, lx_msg l)]\<rparr>)))
      | None \<Rightarrow> Inl (Undefined Uninitialised))"
| "run_action has Push_trailing yytext l = Inr (Continue (yy_push_state TRAILING l))"
| "run_action has Add_middle yytext l =
     ebind (yy_pop_state l) (\<lambda>l. ebind (IRC_ADD_PARAM (c_text yytext) l) (\<lambda>l. Inr (Continue l)))"
| "run_action has Set_trailing yytext l =
     ebind (yy_pop2 l) (\<lambda>l. Inr (Continue (with_msg (\<lambda>m. m\<lparr>msg_trailing := Some (c_text yytext)\<rparr>) l)))"
| "run_action has ECHO yytext l = Inr (Continue (l\<lparr>lx_echo := lx_echo l @ yytext\<rparr>))"

text \<open>One turn of the scanner; at the end of the text the \<open><<EOF>>\<close> rule.\<close>

definition lex_step :: "nat \<Rightarrow> (event \<Rightarrow> bool) \<Rightarrow> lexer \<Rightarrow> flow res" where
  "lex_step csize has l =
     (let rs = rules (lx_start l)
      in if lx_rest l = [] then Inr (Return (-2) (free_command (destroy_message l)))
         else if reads_beyond csize (alternatives rs) (lx_rest l) then Inl (Undefined OutOfBounds)
         else case best rs (lx_rest l) of
                None \<Rightarrow> Inl (Throw (FlexFatal ''flex scanner jammed''))
              | Some (n, act) \<Rightarrow> run_action has act (take n (lx_rest l)) (l\<lparr>lx_rest := drop n (lx_rest l)\<rparr>))"

lemma default_in_rules: "default_rule \<in> set (rules s)"
  by (cases s) simp_all

lemma best_rules_pos:
  assumes "best (rules s) t = Some (n, act)" and "t \<noteq> []"
  shows "0 < n \<and> n \<le> length t"
proof -
  have "longest (fst default_rule) t = Some 1"
    using assms(2) by (cases t) (simp_all add: default_rule_def)
  then have "1 \<le> n" using best_sound [OF assms(1)] default_in_rules [of s]
    by (metis prod.collapse)
  moreover have "n \<le> length t" using best_sound [OF assms(1)] longest_le by blast
  ultimately show ?thesis by simp
qed

lemma run_action_rest: "run_action has act yytext l = Inr (Continue l') \<Longrightarrow> lx_rest l' = lx_rest l"
  by (cases act) (auto simp: yy_push_state_def yy_pop_state_def yy_pop2_def with_msg_def IRC_ADD_PARAM_def
      IRC_EVENT_TEST_def IRC_EVENT_TEST_EXTRA_def ebind_Inr_iff split: if_splits list.splits option.splits)

lemma lex_step_progress:
  "lex_step csize has l = Inr (Continue l') \<Longrightarrow> length (lx_rest l') < length (lx_rest l)"
  by (auto simp: lex_step_def Let_def split: if_splits option.splits
      dest!: run_action_rest dest: best_rules_pos)

function lex_loop :: "nat \<Rightarrow> (event \<Rightarrow> bool) \<Rightarrow> lexer \<Rightarrow> (int \<times> lexer) res" where
  "lex_loop csize has l =
     ebind (lex_step csize has l) (\<lambda>f. case f of
       Continue l' \<Rightarrow> lex_loop csize has l'
     | Return r l' \<Rightarrow> Inr (r, l'))"
  by pat_completeness auto
termination
  by (relation "measure (\<lambda>(csize, has, l). length (lx_rest l))") (auto dest: lex_step_progress)

declare lex_loop.simps [simp del]

definition start_lexer :: "string \<Rightarrow> lexer" where
  "start_lexer text_in =
     \<lparr>lx_start = INITIAL, lx_stack = [], lx_rest = text_in, lx_msg = empty_message, lx_command = None,
      lx_event = None, lx_extra = False, lx_echo = [], lx_live = 0, lx_sent = []\<rparr>"

definition yylex :: "nat \<Rightarrow> (event \<Rightarrow> bool) \<Rightarrow> bool \<Rightarrow> string \<Rightarrow> (int \<times> lexer) res" where
  "yylex csize has use_generic text_in =
     lex_loop csize has
       (if use_generic then yy_push_state GENERIC_INITIAL (start_lexer text_in) else start_lexer text_in)"

subsection \<open>Which rule wins\<close>

lemma best_first:
  assumes "\<And>q b m. (q, b) \<in> set (xs @ (r, a) # ys) \<Longrightarrow> longest q s = Some m \<Longrightarrow> m \<le> n"
    and "longest r s = Some n" and "\<And>q b. (q, b) \<in> set xs \<Longrightarrow> longest q s \<noteq> Some n"
  shows "best (xs @ (r, a) # ys) s = Some (n, a)"
  using assms(1,3)
proof (induction xs)
  case Nil
  show ?case
  proof (cases "best ys s")
    case (Some mb)
    obtain m b where mb: "mb = (m, b)" by (cases mb)
    then obtain q where "(q, b) \<in> set ys" "longest q s = Some m" using best_sound [of ys s m b] Some by auto
    then have "m \<le> n" using Nil.prems(1) by auto
    then show ?thesis using Some mb assms(2) by simp
  qed (simp add: assms(2))
next
  case (Cons x xs)
  obtain q b where x: "x = (q, b)" by (cases x)
  have IH: "best (xs @ (r, a) # ys) s = Some (n, a)"
    using Cons.IH Cons.prems by (metis append_Cons list.set_intros(2))
  show ?case
  proof (cases "longest q s")
    case (Some m)
    have "m \<le> n" using Cons.prems(1) [of q b m] Some x by simp
    moreover have "m \<noteq> n" using Cons.prems(2) [of q b] Some x by simp
    ultimately show ?thesis using Some IH x by simp
  qed (use IH x in simp)
qed

lemma longest_no_start:
  assumes "\<And>u. matches r u \<Longrightarrow> \<exists>d us. u = d # us \<and> P d" and "\<not> P c"
  shows "longest r (c # t) = None"
proof -
  have "\<not> matches r (take n (c # t))" for n
    using assms(1) [of "take n (c # t)"] assms(2) by (cases n) auto
  then show ?thesis by (simp add: longest_None)
qed

lemma is_digit_Rep: "matches (Rep n (Cls is_digit_char)) u \<longleftrightarrow> length u = n \<and> (\<forall>c \<in> set u. is_digit_char c)"
proof (induction n arbitrary: u)
  case (Suc n)
  then show ?case by (cases u) (auto simp: matches_Seq_Cls)
qed (auto simp: matches_Empty_iff)

lemma matches_command:
  "matches p_command u \<longleftrightarrow>
     (u \<noteq> [] \<and> (\<forall>c \<in> set u. is_alpha c)) \<or> (length u = 3 \<and> (\<forall>c \<in> set u. is_digit_char c))"
proof -
  have "matches (Plus (Cls is_alpha)) u \<longleftrightarrow> u \<noteq> [] \<and> (\<forall>c \<in> set u. is_alpha c)"
    by (cases u) (auto simp: Plus_def matches_Seq_Cls matches_Star_Cls)
  then show ?thesis by (simp add: p_command_def is_digit_Rep del: Rep.simps)
qed

lemma command_alnum: "matches p_command u \<Longrightarrow> u \<noteq> [] \<and> (\<forall>c \<in> set u. is_alnum c)"
  by (auto simp: matches_command is_alnum_def)

lemma command_start: "matches p_command u \<Longrightarrow> \<exists>d us. u = d # us \<and> is_alnum d"
  using command_alnum [of u] by (cases u) auto

lemma matches_middle:
  "matches p_middle u \<longleftrightarrow> (\<exists>c s. u = c # s \<and> c \<noteq> CHR '':'' \<and> (\<forall>d \<in> set u. is_middle_char d))"
  by (auto simp: p_middle_def matches_Seq_Cls matches_Star_Cls)

definition is_name_char :: "char \<Rightarrow> bool" where
  "is_name_char c \<longleftrightarrow> is_alnum c \<or> is_special c \<or> c = CHR ''-'' \<or> c = CHR ''.''"

lemma nickname_chars: "matches p_nickname u \<Longrightarrow> \<forall>c \<in> set u. is_name_char c"
proof -
  assume u: "matches p_nickname u"
  let ?q = "Alt (Cls is_alnum) (Alt (Cls is_special) (lit ''-''))"
  have "Upto 8 (Star ?q) = Upto (Suc 7) (Star ?q)" by simp
  then obtain s t where st: "u = s @ t" "matches (Alt (Cls is_alpha) (Cls is_special)) s" "matches (Star ?q) t"
    using u unfolding p_nickname_def matches_Seq_iff by (simp only: matches_Upto_Star) blast
  have "matches ?q v \<Longrightarrow> set v \<subseteq> {c. is_name_char c}" for v
    by (auto simp: matches_lit is_name_char_def simp del: lit.simps)
  then have "set t \<subseteq> {c. is_name_char c}" using st(3) by (rule matches_Star_set)
  with st show ?thesis by (auto simp: is_name_char_def is_alnum_def)
qed

lemma servername_chars: "matches p_servername u \<Longrightarrow> \<forall>c \<in> set u. is_name_char c"
proof -
  have alnum: "matches (Cls is_alnum) v \<Longrightarrow> set v \<subseteq> {c. is_name_char c}" for v
    by (auto simp: is_name_char_def)
  have hyphen: "matches (Alt (Cls is_alnum) (lit ''-'')) v \<Longrightarrow> set v \<subseteq> {c. is_name_char c}" for v
    by (auto simp: is_name_char_def matches_lit simp del: lit.simps)
  have short: "set v \<subseteq> {c. is_name_char c}" if v: "matches p_shortname v" for v
  proof -
    obtain a b c where w: "v = a @ b @ c" "matches (Cls is_alnum) a"
      "matches (Star (Alt (Cls is_alnum) (lit ''-''))) b" "matches (Star (Cls is_alnum)) c"
      using v unfolding p_shortname_def by (elim matches_SeqE) simp
    have "set a \<subseteq> {c. is_name_char c}" using w(2) by (rule alnum)
    moreover have "set b \<subseteq> {c. is_name_char c}" using hyphen w(3) by (rule matches_Star_set)
    moreover have "set c \<subseteq> {c. is_name_char c}" using alnum w(4) by (rule matches_Star_set)
    ultimately show ?thesis unfolding w(1) by simp
  qed
  have dot: "set v \<subseteq> {c. is_name_char c}" if v: "matches (Seq (lit ''.'') p_shortname) v" for v
  proof -
    obtain a b where "v = a @ b" "a = ''.''" "matches p_shortname b"
      using v by (elim matches_SeqE) (simp only: matches_lit)
    with short [of b] show ?thesis by (simp add: is_name_char_def)
  qed
  assume "matches p_servername u"
  then obtain a b where u: "u = a @ b" "matches p_shortname a" "matches (Star (Seq (lit ''.'') p_shortname)) b"
    unfolding p_servername_def p_hostname_def by (elim matches_SeqE) simp
  have "set b \<subseteq> {c. is_name_char c}" using dot u(3) by (rule matches_Star_set)
  with short [OF u(2)] show ?thesis unfolding u(1) by auto
qed

lemma not_name_char [simp]:
  "\<not> is_name_char (CHR '' '')" "\<not> is_name_char (CHR ''!'')" "\<not> is_name_char (CHR ''@'')"
  by (simp_all add: is_name_char_def is_alnum_def is_alpha_def is_special_def is_digit_char_def code_def)

lemma not_alnum [simp]: "\<not> is_alnum (CHR '' '')" "\<not> is_alnum CR" "\<not> is_alnum (CHR '':'')"
  by (simp_all add: is_alnum_def is_alpha_def is_digit_char_def code_def)

lemma longest_default [simp]: "t \<noteq> [] \<Longrightarrow> longest (Cls (\<lambda>c. True)) t = Some 1"
  by (cases t) simp_all

text \<open>The action of the rules of \<open>INITIAL\<close> for a command word.\<close>

definition command_action :: "string \<Rightarrow> action" where
  "command_action w =
     (let is = (\<lambda>l. map lower w = map lower l)
      in if is ''004'' then Test_event Welcome else if is ''PING'' then Test_event Ping
         else if is ''PRIVMSG'' then Test_event Privmsg else if is ''NOTICE'' then Test_event Notice
         else if is ''ERROR'' then Test_event Error else Test_unknown)"

lemma lower_alnum: "is_alnum c \<Longrightarrow> is_alnum (lower c)"
  by (auto simp: is_alnum_def is_alpha_def is_digit_char_def lower_def code_chr)

lemma lower_delim [simp]: "lower (CHR '' '') = CHR '' ''" "lower CR = CR"
  by (simp_all add: lower_def code_def)

lemma longest_word:
  assumes "d = CHR '' '' \<or> d = CR" and "\<forall>c \<in> set l. is_alnum c" and "longest (lit_ci l) (w @ d # t) = Some m"
  shows "m \<le> length w \<and> (m = length w \<longrightarrow> map lower w = map lower l)"
proof -
  have m: "m = length l" "map lower (take (length l) (w @ d # t)) = map lower l"
    using assms(3) by (auto simp: longest_lit_ci split: if_splits)
  have "m \<le> length w"
  proof (rule ccontr)
    assume "\<not> m \<le> length w"
    then have "d \<in> set (take (length l) (w @ d # t))" using m(1) by (cases "length l - length w") auto
    then have "lower d \<in> lower ` set l" using m(2) by (metis imageI list.set_map)
    then have "is_alnum (lower d)" using assms(2) lower_alnum by auto
    then show False using assms(1) by auto
  qed
  with m show ?thesis by auto
qed

end
