(* ===== verification/Irc_Scan.thy ===== *)
theory Irc_Scan
  imports Irc_Lexer
begin

text \<open>
  What the scanner of src/irc-client.l does with a message: one lemma per start condition that says
  which rule wins and what its action leaves, then the round trip with the wire format, the stack
  discipline of the start conditions, the ownership of the \<open>strndup\<close> blocks, and the inputs on which
  the scanner misses what it means to do.
\<close>

subsection \<open>The winning rule in each start condition\<close>

lemma code_less_256 [simp]: "code c < 256"
  using range_nat_of_char by (auto simp: code_def)

lemma no_reads_beyond [simp]: "\<not> reads_beyond 256 r s"
  by (rule reads_within) simp

lemma longest_lit_ci_start: "lower c \<noteq> lower a \<Longrightarrow> longest (lit_ci (a # l)) (c # t) = None"
  by (simp add: longest_lit_ci del: lit_ci.simps)

lemma lower_colon:
  "lower (CHR '':'') \<noteq> lower (CHR ''0'')" "lower (CHR '':'') \<noteq> lower (CHR ''P'')"
  "lower (CHR '':'') \<noteq> lower (CHR ''N'')" "lower (CHR '':'') \<noteq> lower (CHR ''E'')"
  by (simp_all add: lower_def code_def chr_def char_of_def)

lemma best_colon:
  "s = INITIAL \<or> s = GENERIC_INITIAL \<Longrightarrow> best (rules s) (CHR '':'' # t) = Some (1, Push_prefix)"
proof -
  assume s: "s = INITIAL \<or> s = GENERIC_INITIAL"
  have "longest p_command (CHR '':'' # t) = None"
    using command_start by (rule longest_no_start) simp_all
  with s show ?thesis
    by (auto simp: default_rule_def longest_lit longest_lit_ci_start lower_colon simp del: lit.simps lit_ci.simps)
qed

lemma best_source:
  assumes "matches (Alt p_nickname p_servername) s" and "s \<noteq> []" and "\<not> is_name_char d"
  shows "best (rules PREFIX) (s @ d # t) = Some (length s, Set_source)"
proof -
  have "longest (Alt p_nickname p_servername) (s @ d # t) = Some (length s)"
    using assms(1) by (rule longest_delimited) (use assms(3) nickname_chars servername_chars in auto)
  then show ?thesis using assms(2) by (cases s) (simp_all add: default_rule_def)
qed

lemma best_echo:
  assumes "c \<noteq> CHR '' ''" and "t \<noteq> [] \<Longrightarrow> hd t \<noteq> CHR ''{''"
  shows "best (rules PREFIX_OPT) (c # t) = Some (1, ECHO)"
  using assms by (cases t) (auto simp: default_rule_def longest_lit simp del: lit.simps)

lemma best_blank:
  "best (rules PREFIX_OPT) (CHR '' '' # t) = Some (1, Pop_prefix)"
  "best (rules PARAMS) (CHR '' '' # t) = Some (1, Push_param)"
  "best (rules GENERIC_PARAMS) (CHR '' '' # t) = Some (1, Push_param)"
proof -
  have "longest p_crlf (CHR '' '' # t) = None"
    by (rule longest_no_start [where P = "\<lambda>c. c = CR \<or> c = LF"])
      (auto simp: p_crlf_def matches_lit simp del: lit.simps)
  then show "best (rules PREFIX_OPT) (CHR '' '' # t) = Some (1, Pop_prefix)"
    "best (rules PARAMS) (CHR '' '' # t) = Some (1, Push_param)"
    "best (rules GENERIC_PARAMS) (CHR '' '' # t) = Some (1, Push_param)"
    by (simp_all add: default_rule_def longest_lit del: lit.simps)
qed

lemma best_crlf:
  "best (rules PARAMS) (CR # LF # t) = Some (2, Signal)"
  "best (rules GENERIC_PARAMS) (CR # LF # t) = Some (2, Signal_extra)"
proof -
  have "longest p_crlf (CR # LF # t) = Some 2"
    by (simp add: p_crlf_def longest_Alt longest_lit numeral_2_eq_2 del: lit.simps)
  then show "best (rules PARAMS) (CR # LF # t) = Some (2, Signal)"
    "best (rules GENERIC_PARAMS) (CR # LF # t) = Some (2, Signal_extra)"
    by (simp_all add: default_rule_def longest_lit del: lit.simps)
qed

lemma best_middle:
  assumes "matches p_middle s" and "d = CHR '' '' \<or> d = CR"
  shows "best (rules PARAM) (s @ d # t) = Some (length s, Add_middle)"
proof -
  obtain c u where s: "s = c # u" "c \<noteq> CHR '':''" using assms(1) by (auto simp: matches_middle)
  have "longest p_middle (s @ d # t) = Some (length s)"
    using assms(1) by (rule longest_delimited) (use assms(2) in \<open>auto simp: matches_middle is_middle_char_def\<close>)
  then show ?thesis using s by (simp add: default_rule_def longest_lit del: lit.simps)
qed

lemma best_colon_param: "best (rules PARAM) (CHR '':'' # t) = Some (1, Push_trailing)"
proof -
  have "longest p_middle (CHR '':'' # t) = None"
    by (rule longest_no_start [where P = "\<lambda>c. c \<noteq> CHR '':''"]) (auto simp: matches_middle)
  then show ?thesis by (simp add: default_rule_def longest_lit del: lit.simps)
qed

lemma matches_trailing: "matches p_trailing s \<longleftrightarrow> (\<forall>c \<in> set s. is_trailing_char c)"
  by (simp add: p_trailing_def matches_Star_Cls)

lemma best_trailing:
  assumes "\<forall>c \<in> set s. is_trailing_char c" and "\<not> is_trailing_char d"
  shows "best (rules TRAILING) (s @ d # t) = (if s = [] then Some (1, ECHO) else Some (length s, Set_trailing))"
proof -
  have "longest p_trailing (s @ d # t) = Some (length s)"
    by (rule longest_delimited) (use assms in \<open>auto simp: matches_trailing\<close>)
  then show ?thesis by (cases s) (simp_all add: default_rule_def)
qed

lemma best_word_generic:
  assumes "matches p_command w" and "\<not> is_alnum d"
  shows "best (rules GENERIC_INITIAL) (w @ d # t) = Some (length w, Test_unknown)"
proof -
  obtain c u where w: "w = c # u" "is_alnum c" using command_start [OF assms(1)] by auto
  have "longest p_command (w @ d # t) = Some (length w)"
    using assms(1) by (rule longest_delimited) (use assms(2) command_alnum in blast)
  moreover have "c \<noteq> CHR '':''" using w(2) by auto
  ultimately show ?thesis using w by (simp add: default_rule_def longest_lit del: lit.simps)
qed

lemma best_word_Cons:
  assumes "best rs (w @ d # t) = Some (length w, b)" and "d = CHR '' '' \<or> d = CR" and "\<forall>c \<in> set l. is_alnum c"
  shows "best ((lit_ci l, a) # rs) (w @ d # t) =
           Some (length w, if map lower w = map lower l then a else b)"
proof (cases "map lower w = map lower l")
  case True
  then have "length l = length w" by (metis length_map)
  with True have "longest (lit_ci l) (w @ d # t) = Some (length w)" by (simp add: longest_lit_ci del: lit_ci.simps)
  with True assms(1) show ?thesis by simp
next
  case False
  then show ?thesis
    using assms(1) longest_word [OF assms(2,3), of w t]
    by (cases "longest (lit_ci l) (w @ d # t)") (force simp del: lit_ci.simps)+
qed

lemma alnum_words:
  "\<forall>c \<in> set ''004''. is_alnum c" "\<forall>c \<in> set ''PING''. is_alnum c" "\<forall>c \<in> set ''PRIVMSG''. is_alnum c"
  "\<forall>c \<in> set ''NOTICE''. is_alnum c" "\<forall>c \<in> set ''ERROR''. is_alnum c"
  by (simp_all add: is_alnum_def is_alpha_def is_digit_char_def code_def)

lemma best_word:
  assumes "matches p_command w" and "d = CHR '' '' \<or> d = CR"
  shows "best (rules INITIAL) (w @ d # t) = Some (length w, command_action w)"
proof -
  obtain c u where w: "w = c # u" "is_alnum c" using command_start [OF assms(1)] by auto
  have d: "\<not> is_alnum d" using assms(2) by auto
  have "longest p_command (w @ d # t) = Some (length w)"
    using assms(1) by (rule longest_delimited) (use d command_alnum in blast)
  then have "best [(p_command, Test_unknown), default_rule] (w @ d # t) = Some (length w, Test_unknown)"
    using w by (simp add: default_rule_def)
  then have "best (tl (rules INITIAL)) (w @ d # t) = Some (length w, command_action w)"
    unfolding rules.simps list.sel command_action_def Let_def
    by (intro best_word_Cons assms(2) alnum_words)
  moreover have "c \<noteq> CHR '':''" using w(2) by auto
  ultimately show ?thesis using w by (simp add: longest_lit del: lit.simps lit_ci.simps)
qed

definition opening_action :: "sc \<Rightarrow> string \<Rightarrow> action" where
  "opening_action s w = (if s = GENERIC_INITIAL then Test_unknown else command_action w)"

lemma best_opening:
  assumes "matches p_command w" and "d = CHR '' '' \<or> d = CR" and "s = INITIAL \<or> s = GENERIC_INITIAL"
  shows "best (rules s) (w @ d # t) = Some (length w, opening_action s w)"
  using assms best_word best_word_generic by (auto simp: opening_action_def simp del: rules.simps)

subsection \<open>One step and the loop\<close>

lemma lex_loop_step:
  assumes "lx_rest l = u @ t" and "u \<noteq> []" and "best (rules (lx_start l)) (u @ t) = Some (length u, act)"
    and "run_action has act u (l\<lparr>lx_rest := t\<rparr>) = Inr f"
  shows "lex_loop 256 has l = (case f of Continue l' \<Rightarrow> lex_loop 256 has l' | Return r l' \<Rightarrow> Inr (r, l'))"
  using assms by (subst lex_loop.simps) (simp add: lex_step_def Let_def)

lemma lex_loop_continue:
  assumes "lx_rest l = u @ t" and "u \<noteq> []" and "best (rules (lx_start l)) (u @ t) = Some (length u, act)"
    and "run_action has act u (l\<lparr>lx_rest := t\<rparr>) = Inr (Continue l')"
  shows "lex_loop 256 has l = lex_loop 256 has l'"
  using lex_loop_step [OF assms] by simp

lemma lex_loop_fail:
  assumes "lx_rest l = u @ t" and "u \<noteq> []" and "best (rules (lx_start l)) (u @ t) = Some (length u, act)"
    and "run_action has act u (l\<lparr>lx_rest := t\<rparr>) = Inl e"
  shows "lex_loop 256 has l = Inl e"
  using assms by (subst lex_loop.simps) (simp add: lex_step_def Let_def)

lemma lex_loop_eof:
  "lx_rest l = [] \<Longrightarrow> lex_loop csize has l = Inr (-2, free_command (destroy_message l))"
  by (subst lex_loop.simps) (simp add: lex_step_def)

text \<open>The parts of a message, each with the state it leaves.\<close>

lemma loop_source:
  assumes l: "lx_start l = s" "s = INITIAL \<or> s = GENERIC_INITIAL" "lx_rest l = CHR '':'' # src @ d # t"
    and src: "matches (Alt p_nickname p_servername) src" "src \<noteq> []" "\<not> is_name_char d"
  shows "lex_loop 256 has l =
    lex_loop 256 has (l\<lparr>lx_rest := d # t, lx_start := PREFIX_OPT, lx_stack := PREFIX # s # lx_stack l,
      lx_msg := (lx_msg l)\<lparr>msg_source := Some (c_text src)\<rparr>, lx_live := lx_live l + 1\<rparr>)"
proof -
  let ?m = "l\<lparr>lx_rest := src @ d # t, lx_start := PREFIX, lx_stack := s # lx_stack l\<rparr>"
  have "lex_loop 256 has l = lex_loop 256 has ?m"
    using l best_colon [of s "src @ d # t"]
    by (subst lex_loop_step [where u = "'':''" and act = Push_prefix]) (auto simp: yy_push_state_def)
  also have "\<dots> = lex_loop 256 has (l\<lparr>lx_rest := d # t, lx_start := PREFIX_OPT, lx_stack := PREFIX # s # lx_stack l,
      lx_msg := (lx_msg l)\<lparr>msg_source := Some (c_text src)\<rparr>, lx_live := lx_live l + 1\<rparr>)"
    using src best_source [OF src]
    by (subst lex_loop_step [where u = src and act = Set_source])
      (auto simp: yy_push_state_def with_msg_def simp del: rules.simps)
  finally show ?thesis .
qed

lemma loop_echo:
  assumes "lx_start l = PREFIX_OPT" and "lx_rest l = e @ CHR '' '' # t"
    and "CHR '' '' \<notin> set e" and "CHR ''{'' \<notin> set e"
  shows "lex_loop 256 has l = lex_loop 256 has (l\<lparr>lx_echo := lx_echo l @ e, lx_rest := CHR '' '' # t\<rparr>)"
  using assms
proof (induction e arbitrary: l)
  case Nil
  then show ?case by (cases l) simp
next
  case (Cons c e)
  have "hd (e @ CHR '' '' # t) \<noteq> CHR ''{''" using Cons.prems(4) by (cases e) auto
  then have "best (rules PREFIX_OPT) (c # e @ CHR '' '' # t) = Some (1, ECHO)"
    using Cons.prems(3) by (intro best_echo) auto
  then have "lex_loop 256 has l =
      lex_loop 256 has (l\<lparr>lx_rest := e @ CHR '' '' # t, lx_echo := lx_echo l @ [c]\<rparr>)"
    using Cons.prems by (subst lex_loop_step [where u = "[c]" and act = ECHO]) (auto simp del: rules.simps)
  with Cons.IH [of "l\<lparr>lx_rest := e @ CHR '' '' # t, lx_echo := lx_echo l @ [c]\<rparr>"] Cons.prems show ?case by simp
qed

lemma loop_prefix:
  assumes l: "lx_start l = s" "s = INITIAL \<or> s = GENERIC_INITIAL"
      "lx_rest l = CHR '':'' # src @ opt @ CHR '' '' # t"
    and src: "matches (Alt p_nickname p_servername) src" "src \<noteq> []"
    and opt: "opt = [] \<or> \<not> is_name_char (hd opt)" "CHR '' '' \<notin> set opt" "CHR ''{'' \<notin> set opt"
  shows "lex_loop 256 has l =
    lex_loop 256 has (l\<lparr>lx_rest := t, lx_start := s, lx_stack := lx_stack l,
      lx_msg := (lx_msg l)\<lparr>msg_source := Some (c_text src)\<rparr>, lx_live := lx_live l + 1, lx_echo := lx_echo l @ opt\<rparr>)"
proof -
  obtain d u where du: "opt @ CHR '' '' # t = d # u" "\<not> is_name_char d"
    using opt(1) by (cases opt) auto
  let ?m = "l\<lparr>lx_rest := d # u, lx_start := PREFIX_OPT, lx_stack := PREFIX # s # lx_stack l,
      lx_msg := (lx_msg l)\<lparr>msg_source := Some (c_text src)\<rparr>, lx_live := lx_live l + 1\<rparr>"
  have "lex_loop 256 has l = lex_loop 256 has ?m"
    using l du src by (intro loop_source) auto
  also have "\<dots> = lex_loop 256 has (?m\<lparr>lx_echo := lx_echo l @ opt, lx_rest := CHR '' '' # t\<rparr>)"
    using opt du(1) by (subst loop_echo [where e = opt and t = t]) simp_all
  also have "\<dots> = lex_loop 256 has (l\<lparr>lx_rest := t, lx_start := s, lx_stack := lx_stack l,
      lx_msg := (lx_msg l)\<lparr>msg_source := Some (c_text src)\<rparr>, lx_live := lx_live l + 1, lx_echo := lx_echo l @ opt\<rparr>)"
    by (rule lex_loop_continue [where u = "'' ''" and act = Pop_prefix and t = t])
      (simp_all add: best_blank yy_pop2_def yy_pop_state_def ebind_def l(1) del: rules.simps)
  finally show ?thesis .
qed

definition param_state :: "sc \<Rightarrow> bool" where
  "param_state s \<longleftrightarrow> s = PARAMS \<or> s = GENERIC_PARAMS"

lemma best_blank_param: "param_state s \<Longrightarrow> best (rules s) (CHR '' '' # t) = Some (1, Push_param)"
  using best_blank by (auto simp: param_state_def simp del: rules.simps)

lemma loop_middle:
  assumes l: "param_state (lx_start l)" "lx_rest l = CHR '' '' # p @ d # t"
    and p: "matches p_middle p" "d = CHR '' '' \<or> d = CR" "length (msg_params (lx_msg l)) < 14"
  shows "lex_loop 256 has l =
    lex_loop 256 has (l\<lparr>lx_rest := d # t, lx_msg := (lx_msg l)\<lparr>msg_params := msg_params (lx_msg l) @ [p]\<rparr>,
      lx_live := lx_live l + 1\<rparr>)"
proof -
  have nul: "c_text p = p" using p(1) by (intro c_text_id) (auto simp: matches_middle is_middle_char_def)
  have ne: "p \<noteq> []" using p(1) by (auto simp: matches_middle)
  let ?m = "l\<lparr>lx_rest := p @ d # t, lx_start := PARAM, lx_stack := lx_start l # lx_stack l\<rparr>"
  have "lex_loop 256 has l = lex_loop 256 has ?m"
    using l best_blank_param [OF l(1)]
    by (subst lex_loop_step [where u = "'' ''" and act = Push_param])
      (auto simp: yy_push_state_def simp del: rules.simps)
  also have "\<dots> = lex_loop 256 has (l\<lparr>lx_rest := d # t,
      lx_msg := (lx_msg l)\<lparr>msg_params := msg_params (lx_msg l) @ [p]\<rparr>, lx_live := lx_live l + 1\<rparr>)"
    using ne p(3) best_middle [OF p(1,2), of t]
    by (intro lex_loop_continue [where u = p and act = Add_middle and t = "d # t"])
      (simp_all add: yy_pop_state_def IRC_ADD_PARAM_def MAX_PARAMS_def with_msg_def nul ebind_def
        del: rules.simps)
  finally show ?thesis .
qed

definition middles_text :: "string list \<Rightarrow> string" where
  "middles_text ps = concat (map (\<lambda>p. CHR '' '' # p) ps)"

lemma middles_text_Cons: "middles_text (p # ps) = CHR '' '' # p @ middles_text ps"
  by (simp add: middles_text_def)

lemma loop_middles:
  assumes "param_state (lx_start l)" and "lx_rest l = middles_text ps @ d # t"
    and "\<forall>p \<in> set ps. matches p_middle p" and "d = CHR '' '' \<or> d = CR"
    and "length (msg_params (lx_msg l)) + length ps \<le> 14"
  shows "lex_loop 256 has l =
    lex_loop 256 has (l\<lparr>lx_rest := d # t, lx_msg := (lx_msg l)\<lparr>msg_params := msg_params (lx_msg l) @ ps\<rparr>,
      lx_live := lx_live l + length ps\<rparr>)"
  using assms
proof (induction ps arbitrary: l)
  case Nil
  then show ?case by (cases l) (simp add: middles_text_def)
next
  case (Cons p ps)
  obtain e u where e: "middles_text ps @ d # t = e # u" "e = CHR '' '' \<or> e = CR"
    using Cons.prems(4) by (cases ps) (auto simp: middles_text_def)
  let ?m = "l\<lparr>lx_rest := e # u, lx_msg := (lx_msg l)\<lparr>msg_params := msg_params (lx_msg l) @ [p]\<rparr>,
      lx_live := lx_live l + 1\<rparr>"
  have "lex_loop 256 has l = lex_loop 256 has ?m"
    using Cons.prems e by (intro loop_middle) (auto simp: middles_text_Cons)
  also have "\<dots> = lex_loop 256 has (?m\<lparr>lx_rest := d # t,
      lx_msg := (lx_msg ?m)\<lparr>msg_params := msg_params (lx_msg ?m) @ ps\<rparr>, lx_live := lx_live ?m + length ps\<rparr>)"
    using Cons.prems e(1) by (intro Cons.IH) auto
  finally show ?case by (cases l) simp
qed

lemma loop_trailing:
  assumes l: "param_state (lx_start l)" "lx_rest l = CHR '' '' # CHR '':'' # x @ CR # t"
    and x: "x \<noteq> []" "\<forall>c \<in> set x. is_trailing_char c"
  shows "lex_loop 256 has l =
    lex_loop 256 has (l\<lparr>lx_rest := CR # t, lx_msg := (lx_msg l)\<lparr>msg_trailing := Some x\<rparr>, lx_live := lx_live l + 1\<rparr>)"
proof -
  have nul: "c_text x = x" using x(2) by (intro c_text_id) (auto simp: is_trailing_char_def)
  let ?m = "l\<lparr>lx_rest := CHR '':'' # x @ CR # t, lx_start := PARAM, lx_stack := lx_start l # lx_stack l\<rparr>"
  let ?n = "l\<lparr>lx_rest := x @ CR # t, lx_start := TRAILING, lx_stack := PARAM # lx_start l # lx_stack l\<rparr>"
  have "lex_loop 256 has l = lex_loop 256 has ?m"
    using l best_blank_param [OF l(1)]
    by (subst lex_loop_step [where u = "'' ''" and act = Push_param])
      (auto simp: yy_push_state_def simp del: rules.simps)
  also have "\<dots> = lex_loop 256 has ?n"
    by (rule lex_loop_continue [where u = "'':''" and act = Push_trailing and t = "x @ CR # t"])
      (simp_all add: yy_push_state_def best_colon_param del: rules.simps)
  also have "\<dots> = lex_loop 256 has (l\<lparr>lx_rest := CR # t, lx_msg := (lx_msg l)\<lparr>msg_trailing := Some x\<rparr>,
      lx_live := lx_live l + 1\<rparr>)"
    using x best_trailing [OF x(2), of CR t]
    by (intro lex_loop_continue [where u = x and act = Set_trailing and t = "CR # t"])
      (simp_all add: is_trailing_char_def yy_pop2_def yy_pop_state_def with_msg_def nul ebind_def
        del: rules.simps)
  finally show ?thesis .
qed

subsection \<open>The round trip with the wire format\<close>

text \<open>
  A message as RFC 1459 writes it: an optional source with its \<open>!user@host\<close> part, the command, the
  middle parameters and the trailing one.
\<close>

record wire =
  w_source :: "string option"
  w_opt :: string
  w_command :: string
  w_middles :: "string list"
  w_trailing :: "string option"

definition wire_head :: "wire \<Rightarrow> string" where
  "wire_head w = (case w_source w of None \<Rightarrow> [] | Some s \<Rightarrow> CHR '':'' # s @ w_opt w @ '' '')"

definition wire_text :: "wire \<Rightarrow> string" where
  "wire_text w =
     wire_head w @ w_command w @ middles_text (w_middles w)
     @ (case w_trailing w of None \<Rightarrow> [] | Some x \<Rightarrow> '' :'' @ x) @ [CR, LF]"

definition head_ok :: "wire \<Rightarrow> bool" where
  "head_ok w \<longleftrightarrow>
     (case w_source w of
        None \<Rightarrow> w_opt w = []
      | Some s \<Rightarrow> matches (Alt p_nickname p_servername) s
          \<and> (w_opt w = [] \<or> \<not> is_name_char (hd (w_opt w))) \<and> CHR '' '' \<notin> set (w_opt w) \<and> CHR ''{'' \<notin> set (w_opt w))
     \<and> matches p_command (w_command w) \<and> list_all (matches p_middle) (w_middles w)"

definition wire_ok :: "wire \<Rightarrow> bool" where
  "wire_ok w \<longleftrightarrow> head_ok w \<and> length (w_middles w) \<le> MAX_PARAMS
     \<and> (case w_trailing w of None \<Rightarrow> True | Some x \<Rightarrow> x \<noteq> [] \<and> list_all is_trailing_char x)"

definition wire_message :: "wire \<Rightarrow> cq_irc_message" where
  "wire_message w = \<lparr>msg_host = None, msg_user = None, msg_source = w_source w, msg_params = w_middles w,
     msg_trailing = w_trailing w\<rparr>"

definition wire_event :: "bool \<Rightarrow> wire \<Rightarrow> event" where
  "wire_event use_generic w =
     (case if use_generic then Test_unknown else command_action (w_command w) of
        Test_event e \<Rightarrow> e | _ \<Rightarrow> Unknown)"

definition wire_delivery :: "bool \<Rightarrow> wire \<Rightarrow> event \<times> string option \<times> cq_irc_message" where
  "wire_delivery use_generic w =
     (let e = wire_event use_generic w
      in (e, if e = Unknown then Some (w_command w) else None, wire_message w))"

lemma name_no_nul: "matches (Alt p_nickname p_servername) s \<Longrightarrow> s \<noteq> [] \<and> c_text s = s"
proof -
  assume s: "matches (Alt p_nickname p_servername) s"
  have "\<forall>c \<in> set s. is_name_char c" using s nickname_chars servername_chars by auto
  moreover have "\<not> is_name_char NUL"
    by (simp add: is_name_char_def is_alnum_def is_alpha_def is_special_def is_digit_char_def code_def)
  moreover have "s \<noteq> []" using s
    by (auto simp: p_nickname_def p_servername_def p_hostname_def p_shortname_def matches_Seq_Cls
        elim!: matches_SeqE)
  ultimately show ?thesis by (auto intro: c_text_id)
qed

lemma command_no_nul: "matches p_command w \<Longrightarrow> w \<noteq> [] \<and> c_text w = w"
proof -
  assume w: "matches p_command w"
  moreover have "\<not> is_alnum NUL" by (simp add: is_alnum_def is_alpha_def is_digit_char_def code_def)
  ultimately show ?thesis using command_alnum [OF w] by (auto intro: c_text_id)
qed

lemma command_action_cases: "command_action w = Test_unknown \<or> (\<exists>e. command_action w = Test_event e \<and> e \<noteq> Unknown)"
  by (auto simp: command_action_def Let_def)

text \<open>The rest of a message after the command, from \<open>PARAMS\<close> or \<open>GENERIC_PARAMS\<close> to the line end.\<close>

lemma loop_tail:
  assumes l: "param_state (lx_start l)"
      "lx_rest l = middles_text ps @ (case tr of None \<Rightarrow> [] | Some x \<Rightarrow> '' :'' @ x) @ CR # LF # t"
      "msg_params (lx_msg l) = []" "msg_trailing (lx_msg l) = None"
    and ps: "list_all (matches p_middle) ps" "length ps \<le> MAX_PARAMS"
    and tr: "case tr of None \<Rightarrow> True | Some x \<Rightarrow> x \<noteq> [] \<and> list_all is_trailing_char x"
  shows "lex_loop 256 has l = lex_loop 256 has (l\<lparr>lx_rest := CR # LF # t,
    lx_msg := (lx_msg l)\<lparr>msg_params := ps, msg_trailing := tr\<rparr>, lx_live := lx_live l + length ps + held tr\<rparr>)"
proof (cases tr)
  case None
  have "lex_loop 256 has l = lex_loop 256 has (l\<lparr>lx_rest := CR # LF # t,
      lx_msg := (lx_msg l)\<lparr>msg_params := msg_params (lx_msg l) @ ps\<rparr>, lx_live := lx_live l + length ps\<rparr>)"
    using l ps None by (intro loop_middles) (auto simp: list_all_iff MAX_PARAMS_def)
  then show ?thesis using l None by (cases "lx_msg l") (simp add: held_def)
next
  case (Some x)
  let ?m = "l\<lparr>lx_rest := CHR '' '' # CHR '':'' # x @ CR # LF # t,
      lx_msg := (lx_msg l)\<lparr>msg_params := msg_params (lx_msg l) @ ps\<rparr>, lx_live := lx_live l + length ps\<rparr>"
  have "lex_loop 256 has l = lex_loop 256 has ?m"
    using l ps Some by (intro loop_middles) (auto simp: list_all_iff MAX_PARAMS_def)
  also have "\<dots> = lex_loop 256 has (?m\<lparr>lx_rest := CR # LF # t,
      lx_msg := (lx_msg ?m)\<lparr>msg_trailing := Some x\<rparr>, lx_live := lx_live ?m + 1\<rparr>)"
    using l(1) tr Some by (intro loop_trailing) (auto simp: list_all_iff)
  finally show ?thesis using l(3) Some by (simp add: held_def)
qed

lemma loop_start:
  assumes "head_ok w" and "s = INITIAL \<or> s = GENERIC_INITIAL" and "lx_start l = s"
    and "lx_rest l = wire_head w @ r" and "lx_msg l = empty_message" and "lx_echo l = []" and "lx_live l = 0"
  shows "lex_loop 256 has l = lex_loop 256 has (l\<lparr>lx_rest := r, lx_start := s, lx_stack := lx_stack l,
    lx_msg := empty_message\<lparr>msg_source := w_source w\<rparr>, lx_live := held (w_source w), lx_echo := w_opt w\<rparr>)"
proof (cases "w_source w")
  case None
  with assms show ?thesis
    by (cases l) (auto simp: wire_head_def head_ok_def empty_message_def held_def)
next
  case (Some src)
  then have "matches (Alt p_nickname p_servername) src" using assms(1) by (simp add: head_ok_def)
  note name_no_nul [OF this] this
  with assms Some show ?thesis
    by (subst loop_prefix [where src = src and opt = "w_opt w" and s = s and t = r])
      (simp_all add: wire_head_def head_ok_def held_def)
qed

lemma tail_delim:
  "\<exists>d u. middles_text ps @ (case tr of None \<Rightarrow> [] | Some x \<Rightarrow> '' :'' @ x) @ CR # LF # t = d # u
     \<and> (d = CHR '' '' \<or> d = CR)"
  by (cases ps; cases tr) (auto simp: middles_text_def)

lemma loop_word:
  assumes "matches p_command w" and "lx_start l = s" and "s = INITIAL \<or> s = GENERIC_INITIAL"
    and "lx_rest l = w @ d # t" and "d = CHR '' '' \<or> d = CR"
    and "run_action has (opening_action s w) w (l\<lparr>lx_rest := d # t\<rparr>) = Inr f"
  shows "lex_loop 256 has l = (case f of Continue l' \<Rightarrow> lex_loop 256 has l' | Return r l' \<Rightarrow> Inr (r, l'))"
  using assms command_no_nul [OF assms(1)]
  by (intro lex_loop_step [where u = w and t = "d # t" and act = "opening_action s w"])
    (simp_all add: best_opening)

lemma loop_signal:
  assumes "lx_start l = PARAMS" and "lx_rest l = CR # LF # t" and "lx_event l = Some e"
    and "lx_live l = blocks (lx_msg l)" and "lx_sent l = []"
  shows "\<exists>l'. lex_loop 256 has l = Inr (0, l') \<and> lx_sent l' = [(e, None, lx_msg l)] \<and> lx_live l' = 0
     \<and> lx_echo l' = lx_echo l \<and> lx_rest l' = t"
  using assms best_crlf(1) [of t]
  by (subst lex_loop_step [where u = "[CR, LF]" and t = t and act = Signal])
    (auto simp: destroy_message_def numeral_2_eq_2 simp del: rules.simps)

lemma loop_signal_extra:
  assumes "lx_start l = GENERIC_PARAMS" and "lx_rest l = CR # LF # t" and "lx_extra l"
    and "lx_live l = blocks (lx_msg l) + held (lx_command l)" and "lx_sent l = []"
  shows "\<exists>l'. lex_loop 256 has l = Inr (0, l') \<and> lx_sent l' = [(Unknown, lx_command l, lx_msg l)]
     \<and> lx_live l' = 0 \<and> lx_echo l' = lx_echo l \<and> lx_rest l' = t"
  using assms best_crlf(2) [of t]
  by (subst lex_loop_step [where u = "[CR, LF]" and t = t and act = Signal_extra])
    (auto simp: destroy_message_def free_command_def numeral_2_eq_2 simp del: rules.simps)

definition wire_tail :: "wire \<Rightarrow> string \<Rightarrow> string" where
  "wire_tail w t =
     middles_text (w_middles w) @ (case w_trailing w of None \<Rightarrow> [] | Some x \<Rightarrow> '' :'' @ x) @ CR # LF # t"

definition opened :: "wire \<Rightarrow> string \<Rightarrow> sc \<Rightarrow> lexer \<Rightarrow> lexer" where
  "opened w r s l = l\<lparr>lx_rest := r, lx_start := s, lx_stack := lx_stack l,
     lx_msg := empty_message\<lparr>msg_source := w_source w\<rparr>, lx_live := held (w_source w), lx_echo := w_opt w\<rparr>"

lemma loop_tail_wire:
  assumes "wire_ok w" and "param_state (lx_start m)" and "lx_rest m = wire_tail w t"
    and "lx_msg m = empty_message\<lparr>msg_source := w_source w\<rparr>"
  shows "lex_loop 256 has m = lex_loop 256 has (m\<lparr>lx_rest := CR # LF # t, lx_msg := wire_message w,
      lx_live := lx_live m + length (w_middles w) + held (w_trailing w)\<rparr>)"
  using assms
  by (subst loop_tail [where ps = "w_middles w" and tr = "w_trailing w" and t = t])
    (auto simp: wire_ok_def head_ok_def wire_tail_def empty_message_def wire_message_def simp del: append.simps)

lemma blocks_wire: "blocks (wire_message w) = held (w_source w) + length (w_middles w) + held (w_trailing w)"
  by (simp add: wire_message_def blocks_def held_def)

lemma deliver_unknown:
  assumes ok: "wire_ok w" and s: "s = INITIAL \<or> s = GENERIC_INITIAL" and act: "opening_action s (w_command w) = Test_unknown"
    and sent: "lx_sent l = []"
  shows "\<exists>l'. lex_loop 256 has (opened w (w_command w @ wire_tail w t) s l) = Inr (if has Unknown then 0 else 1, l')
     \<and> lx_sent l' = (if has Unknown then [(Unknown, Some (w_command w), wire_message w)] else [])
     \<and> lx_live l' = 0 \<and> lx_echo l' = w_opt w \<and> (has Unknown \<longrightarrow> lx_rest l' = t)"
proof -
  have cmd: "matches p_command (w_command w)" "c_text (w_command w) = w_command w"
    using ok command_no_nul by (auto simp: wire_ok_def head_ok_def)
  obtain d u where du: "wire_tail w t = d # u" "d = CHR '' '' \<or> d = CR"
    using tail_delim unfolding wire_tail_def by blast
  note word = loop_word [OF cmd(1), of "opened w (w_command w @ wire_tail w t) s l" s d u has]
  let ?m = "(yy_push_state GENERIC_PARAMS (opened w (wire_tail w t) s l))
    \<lparr>lx_extra := True, lx_command := Some (w_command w), lx_live := held (w_source w) + 1\<rparr>"
  show ?thesis
  proof (cases "has Unknown")
    case True
    have "lex_loop 256 has (opened w (w_command w @ wire_tail w t) s l) = lex_loop 256 has ?m"
      using s du True cmd act
      by (subst word [where f = "Continue ?m"]) (simp_all add: IRC_EVENT_TEST_EXTRA_def yy_push_state_def opened_def)
    also have "\<dots> = lex_loop 256 has (?m\<lparr>lx_rest := CR # LF # t, lx_msg := wire_message w,
        lx_live := lx_live ?m + length (w_middles w) + held (w_trailing w)\<rparr>)"
      using ok by (rule loop_tail_wire) (simp_all add: param_state_def yy_push_state_def opened_def)
    finally show ?thesis
      using loop_signal_extra [of "?m\<lparr>lx_rest := CR # LF # t, lx_msg := wire_message w,
        lx_live := lx_live ?m + length (w_middles w) + held (w_trailing w)\<rparr>" t has] True sent
      by (simp add: yy_push_state_def opened_def blocks_wire held_def)
  next
    case False
    with s du act sent show ?thesis
      by (subst word)
        (auto simp: IRC_EVENT_TEST_EXTRA_def yy_push_state_def destroy_message_def blocks_def empty_message_def
          held_def opened_def)
  qed
qed

lemma deliver_event:
  assumes ok: "wire_ok w" and act: "command_action (w_command w) = Test_event e" and sent: "lx_sent l = []"
  shows "\<exists>l'. lex_loop 256 has (opened w (w_command w @ wire_tail w t) INITIAL l) = Inr (if has e then 0 else 1, l')
     \<and> lx_sent l' = (if has e then [(e, None, wire_message w)] else [])
     \<and> lx_live l' = 0 \<and> lx_echo l' = w_opt w \<and> (has e \<longrightarrow> lx_rest l' = t)"
proof -
  have cmd: "matches p_command (w_command w)" using ok by (auto simp: wire_ok_def head_ok_def)
  obtain d u where du: "wire_tail w t = d # u" "d = CHR '' '' \<or> d = CR"
    using tail_delim unfolding wire_tail_def by blast
  note word = loop_word [OF cmd, of "opened w (w_command w @ wire_tail w t) INITIAL l" INITIAL d u has]
  let ?m = "(yy_push_state PARAMS (opened w (wire_tail w t) INITIAL l))\<lparr>lx_event := Some e\<rparr>"
  show ?thesis
  proof (cases "has e")
    case True
    have "lex_loop 256 has (opened w (w_command w @ wire_tail w t) INITIAL l) = lex_loop 256 has ?m"
      using du True act
      by (subst word [where f = "Continue ?m"])
        (simp_all add: IRC_EVENT_TEST_def yy_push_state_def opened_def opening_action_def)
    also have "\<dots> = lex_loop 256 has (?m\<lparr>lx_rest := CR # LF # t, lx_msg := wire_message w,
        lx_live := lx_live ?m + length (w_middles w) + held (w_trailing w)\<rparr>)"
      using ok by (rule loop_tail_wire) (simp_all add: param_state_def yy_push_state_def opened_def)
    finally show ?thesis
      using loop_signal [of "?m\<lparr>lx_rest := CR # LF # t, lx_msg := wire_message w,
        lx_live := lx_live ?m + length (w_middles w) + held (w_trailing w)\<rparr>" t e has] True sent
      by (simp add: yy_push_state_def opened_def blocks_wire)
  next
    case False
    with du act sent show ?thesis
      by (subst word)
        (auto simp: IRC_EVENT_TEST_def yy_push_state_def destroy_message_def blocks_def empty_message_def
          held_def opened_def opening_action_def)
  qed
qed

lemma loop_message:
  assumes ok: "wire_ok w" and g: "s = (if g then GENERIC_INITIAL else INITIAL)" and l: "lx_start l = s"
      "lx_rest l = wire_text w @ t" "lx_msg l = empty_message" "lx_echo l = []" "lx_live l = 0" "lx_sent l = []"
    and e: "e = wire_event g w"
  shows "\<exists>l'. lex_loop 256 has l = Inr (if has e then 0 else 1, l')
     \<and> lx_sent l' = (if has e then [wire_delivery g w] else [])
     \<and> lx_live l' = 0 \<and> lx_echo l' = w_opt w \<and> (has e \<longrightarrow> lx_rest l' = t)"
proof -
  have s: "s = INITIAL \<or> s = GENERIC_INITIAL" using g by simp
  have start: "lex_loop 256 has l = lex_loop 256 has (opened w (w_command w @ wire_tail w t) s l)"
    unfolding opened_def using ok s l by (intro loop_start) (simp_all add: wire_ok_def wire_text_def wire_tail_def)
  show ?thesis
  proof (cases "opening_action s (w_command w) = Test_unknown")
    case True
    then have e': "e = Unknown" using g e by (auto simp: wire_event_def opening_action_def split: if_splits)
    have d: "wire_delivery g w = (Unknown, Some (w_command w), wire_message w)"
      using e e' by (simp add: wire_delivery_def)
    show ?thesis unfolding start e' d by (rule deliver_unknown [OF ok s True l(6)])
  next
    case False
    then have s': "s = INITIAL" using s by (auto simp: opening_action_def)
    with False obtain e2 where ev: "command_action (w_command w) = Test_event e2" "e2 \<noteq> Unknown"
      using command_action_cases [of "w_command w"] by (auto simp: opening_action_def)
    have "\<not> g" using s' g by (cases g) simp_all
    then have e': "e = e2" using ev e by (simp add: wire_event_def)
    have d: "wire_delivery g w = (e2, None, wire_message w)"
      using ev e e' by (simp add: wire_delivery_def)
    show ?thesis unfolding start e' d unfolding s' by (rule deliver_event [OF ok ev(1) l(6)])
  qed
qed

lemma yylex_wire:
  assumes "wire_ok w" and "e = wire_event g w"
  shows "\<exists>l. yylex 256 has g (wire_text w @ t) = Inr (if has e then 0 else 1, l)
     \<and> lx_sent l = (if has e then [wire_delivery g w] else [])
     \<and> lx_live l = 0 \<and> lx_echo l = w_opt w \<and> (has e \<longrightarrow> lx_rest l = t)"
  unfolding yylex_def
  by (rule loop_message [OF assms(1) refl]) (simp_all add: yy_push_state_def start_lexer_def assms(2))


definition sample_wire :: wire where
  "sample_wire = \<lparr>w_source = Some ''bob'', w_opt = ''!~b@host'', w_command = ''privmsg'',
     w_middles = [''#chan'', ''x''], w_trailing = Some ''hello world''\<rparr>"

lemma sample_wire_ok: "wire_ok sample_wire"
proof -
  have "accepts (Alt p_nickname p_servername) ''bob'' \<and> accepts p_command ''privmsg''
      \<and> list_all (accepts p_middle) [''#chan'', ''x''] \<and> list_all is_trailing_char ''hello world''
      \<and> \<not> is_name_char (CHR ''!'')"
    by code_simp
  then show ?thesis
    by (simp add: sample_wire_def wire_ok_def head_ok_def accepts_matches MAX_PARAMS_def)
qed


subsection \<open>The stack discipline and the ownership of the blocks\<close>

text \<open>The start conditions that stand on the stack below the current one.\<close>

definition base_state :: "bool \<Rightarrow> sc list \<Rightarrow> bool" where
  "base_state g ss \<longleftrightarrow> ss = (if g then [GENERIC_INITIAL, INITIAL] else [INITIAL])"

fun stack_ok :: "bool \<Rightarrow> sc \<Rightarrow> sc list \<Rightarrow> bool" where
  "stack_ok g INITIAL ss = base_state g (INITIAL # ss)"
| "stack_ok g GENERIC_INITIAL ss = base_state g (GENERIC_INITIAL # ss)"
| "stack_ok g PREFIX ss = base_state g ss"
| "stack_ok g PREFIX_OPT ss = (\<exists>ts. ss = PREFIX # ts \<and> base_state g ts)"
| "stack_ok g PARAMS ss = base_state g ss"
| "stack_ok g GENERIC_PARAMS ss = base_state g ss"
| "stack_ok g PARAM ss = (\<exists>p ts. ss = p # ts \<and> param_state p \<and> base_state g ts)"
| "stack_ok g TRAILING ss = (\<exists>p ts. ss = PARAM # p # ts \<and> param_state p \<and> base_state g ts)"

text \<open>The command callback that the states after the command word rely on.\<close>

definition signal_ok :: "(event \<Rightarrow> bool) \<Rightarrow> sc \<Rightarrow> lexer \<Rightarrow> bool" where
  "signal_ok has p l \<longleftrightarrow>
     (p = PARAMS \<longrightarrow> (\<exists>e. lx_event l = Some e \<and> has e))
     \<and> (p = GENERIC_PARAMS \<longrightarrow> lx_extra l \<and> lx_command l \<noteq> None \<and> has Unknown)"

definition lex_inv :: "(event \<Rightarrow> bool) \<Rightarrow> bool \<Rightarrow> lexer \<Rightarrow> bool" where
  "lex_inv has g l \<longleftrightarrow>
     stack_ok g (lx_start l) (lx_stack l)
     \<and> (\<forall>p \<in> set (lx_start l # lx_stack l). signal_ok has p l)
     \<and> length (msg_params (lx_msg l)) \<le> MAX_PARAMS
     \<and> blocks (lx_msg l) + held (lx_command l) \<le> lx_live l \<and> lx_sent l = []"

definition delivery_ok :: "(event \<Rightarrow> bool) \<Rightarrow> event \<times> string option \<times> cq_irc_message \<Rightarrow> bool" where
  "delivery_ok has d = (case d of (e, c, m) \<Rightarrow>
     has e \<and> (c \<noteq> None \<longrightarrow> e = Unknown) \<and> length (msg_params m) \<le> MAX_PARAMS)"

definition lex_done :: "(event \<Rightarrow> bool) \<Rightarrow> int \<Rightarrow> lexer \<Rightarrow> bool" where
  "lex_done has r l \<longleftrightarrow>
     (r = 0 \<and> (\<exists>d. lx_sent l = [d] \<and> delivery_ok has d)) \<or> ((r = 1 \<or> r = -2) \<and> lx_sent l = [])"

definition flow_ok :: "(event \<Rightarrow> bool) \<Rightarrow> bool \<Rightarrow> flow res \<Rightarrow> bool" where
  "flow_ok has g r = (case r of
     Inl e \<Rightarrow> e = Undefined OutOfBounds
   | Inr (Continue l) \<Rightarrow> lex_inv has g l
   | Inr (Return c l) \<Rightarrow> lex_done has c l)"

definition action_ok :: "sc \<Rightarrow> action \<Rightarrow> bool" where
  "action_ok s act = (case act of
     Push_prefix \<Rightarrow> s = INITIAL \<or> s = GENERIC_INITIAL
   | Test_event e \<Rightarrow> (s = INITIAL \<or> s = GENERIC_INITIAL) \<and> e \<noteq> Unknown
   | Test_unknown \<Rightarrow> s = INITIAL \<or> s = GENERIC_INITIAL
   | Set_source \<Rightarrow> s = PREFIX
   | Set_user \<Rightarrow> s = PREFIX_OPT | Set_host \<Rightarrow> s = PREFIX_OPT | Pop_prefix \<Rightarrow> s = PREFIX_OPT
   | Push_param \<Rightarrow> param_state s
   | Signal_extra \<Rightarrow> s = GENERIC_PARAMS | Signal \<Rightarrow> s = PARAMS
   | Push_trailing \<Rightarrow> s = PARAM | Add_middle \<Rightarrow> s = PARAM | Set_trailing \<Rightarrow> s = TRAILING
   | ECHO \<Rightarrow> True)"

lemma rules_action_ok: "(r, act) \<in> set (rules s) \<Longrightarrow> action_ok s act"
  by (cases s) (auto simp: action_ok_def param_state_def default_rule_def simp del: lit.simps lit_ci.simps)

lemma base_signal [simp]: "base_state g ss \<Longrightarrow> p \<in> set ss \<Longrightarrow> signal_ok has p l"
  by (auto simp: base_state_def signal_ok_def split: if_splits)

lemma base_pop: "base_state g ss \<Longrightarrow> \<exists>p ts. ss = p # ts \<and> stack_ok g p ts"
  by (auto simp: base_state_def split: if_splits)

lemma opening_base: "s = INITIAL \<or> s = GENERIC_INITIAL \<Longrightarrow> stack_ok g s ss = base_state g (s # ss)"
  by auto

lemma signal_ok_cong:
  "lx_event l = lx_event l' \<Longrightarrow> lx_extra l = lx_extra l' \<Longrightarrow> lx_command l = lx_command l' \<Longrightarrow>
     signal_ok has p l = signal_ok has p l'"
  by (simp add: signal_ok_def)

lemma signal_ok_fields [simp]:
  "signal_ok has p (l\<lparr>lx_rest := t\<rparr>) = signal_ok has p l"
  "signal_ok has p (l\<lparr>lx_start := s\<rparr>) = signal_ok has p l"
  "signal_ok has p (l\<lparr>lx_stack := ss\<rparr>) = signal_ok has p l"
  "signal_ok has p (l\<lparr>lx_msg := m\<rparr>) = signal_ok has p l"
  "signal_ok has p (l\<lparr>lx_live := n\<rparr>) = signal_ok has p l"
  "signal_ok has p (l\<lparr>lx_echo := e\<rparr>) = signal_ok has p l"
  by (simp_all add: signal_ok_def)

lemma signal_ok_trivial [simp]:
  "signal_ok has PREFIX l" "signal_ok has PREFIX_OPT l" "signal_ok has PARAM l" "signal_ok has TRAILING l"
  "signal_ok has INITIAL l" "signal_ok has GENERIC_INITIAL l"
  by (simp_all add: signal_ok_def)

lemmas lexer_ops = yy_push_state_def yy_pop_state_def yy_pop2_def ebind_def with_msg_def IRC_ADD_PARAM_def
  IRC_EVENT_TEST_def IRC_EVENT_TEST_EXTRA_def destroy_message_def free_command_def

lemma held_simps [simp]: "held None = 0" "held (Some x) = 1"
  by (simp_all add: held_def)

lemma run_test_inv:
  assumes inv: "lex_inv has g l" and act: "action_ok (lx_start l) (Test_event e)"
  shows "flow_ok has g (run_action has (Test_event e) u (l\<lparr>lx_rest := t\<rparr>))"
proof -
  have b: "base_state g (lx_start l # lx_stack l)" using inv act by (auto simp: lex_inv_def action_ok_def)
  then have "\<forall>p \<in> set (lx_start l # lx_stack l). signal_ok has p k" for k by simp
  moreover have "signal_ok has PARAMS (k\<lparr>lx_event := Some e\<rparr>)" if "has e" for k using that by (simp add: signal_ok_def)
  ultimately show ?thesis using b inv
    by (simp add: flow_ok_def lex_inv_def lexer_ops lex_done_def)
qed

lemma run_unknown_inv:
  assumes inv: "lex_inv has g l" and act: "action_ok (lx_start l) Test_unknown"
  shows "flow_ok has g (run_action has Test_unknown u (l\<lparr>lx_rest := t\<rparr>))"
proof -
  have b: "base_state g (lx_start l # lx_stack l)" using inv act by (auto simp: lex_inv_def action_ok_def)
  then have "\<forall>p \<in> set (lx_start l # lx_stack l). signal_ok has p k" for k by simp
  moreover have "signal_ok has GENERIC_PARAMS (k\<lparr>lx_extra := True, lx_command := Some v, lx_live := n\<rparr>)"
    if "has Unknown" for k v n using that by (simp add: signal_ok_def)
  ultimately show ?thesis using b inv
    by (simp add: flow_ok_def lex_inv_def lexer_ops lex_done_def)
qed

lemma run_signal_inv:
  assumes inv: "lex_inv has g l" and act: "action_ok (lx_start l) act" "act = Signal_extra \<or> act = Signal"
  shows "flow_ok has g (run_action has act u (l\<lparr>lx_rest := t\<rparr>))"
proof -
  have sig: "signal_ok has (lx_start l) l" and len: "length (msg_params (lx_msg l)) \<le> MAX_PARAMS" and sent: "lx_sent l = []"
    using inv by (simp_all add: lex_inv_def)
  show ?thesis
  proof (cases "act = Signal")
    case True
    then obtain e where "lx_event l = Some e" "has e" using sig act by (auto simp: signal_ok_def action_ok_def)
    with True len sent show ?thesis by (simp add: flow_ok_def lexer_ops lex_done_def delivery_ok_def)
  next
    case False
    with act have a: "act = Signal_extra" by simp
    with sig act have "lx_extra l" "has Unknown" by (auto simp: signal_ok_def action_ok_def)
    with a len sent show ?thesis by (simp add: flow_ok_def lexer_ops lex_done_def delivery_ok_def)
  qed
qed

lemma run_action_inv:
  assumes inv: "lex_inv has g l" and act: "action_ok (lx_start l) act"
  shows "flow_ok has g (run_action has act u (l\<lparr>lx_rest := t\<rparr>))"
proof -
  note simps = flow_ok_def action_ok_def lex_inv_def lexer_ops opening_base
  show ?thesis
  proof (cases act)
    case Pop_prefix
    with inv act obtain ts where "lx_stack l = PREFIX # ts" "base_state g ts"
      by (auto simp: simps)
    with base_pop [of g ts] Pop_prefix inv show ?thesis by (auto simp: simps)
  next
    case (Test_event e)
    with assms show ?thesis using run_test_inv by blast
  next
    case Test_unknown
    with assms show ?thesis using run_unknown_inv by blast
  next
    case Signal_extra
    with assms show ?thesis using run_signal_inv by blast
  next
    case Signal
    with assms show ?thesis using run_signal_inv by blast
  qed (use inv act in \<open>auto simp: simps param_state_def blocks_def held_def MAX_PARAMS_def split: option.splits\<close>)
qed

lemma lex_step_inv: "lex_inv has g l \<Longrightarrow> flow_ok has g (lex_step 256 has l)"
proof -
  assume inv: "lex_inv has g l"
  show ?thesis
  proof (cases "lx_rest l = []")
    case True
    with inv show ?thesis
      by (simp add: lex_step_def flow_ok_def lex_done_def lex_inv_def destroy_message_def free_command_def)
  next
    case False
    have "longest (fst default_rule) (lx_rest l) = Some 1"
      using False by (cases "lx_rest l") (simp_all add: default_rule_def)
    then have "best (rules (lx_start l)) (lx_rest l) \<noteq> None"
      using default_in_rules [of "lx_start l"]
      by (simp add: best_None case_prod_beta) (rule bexI, rule exI)
    then obtain n act where b: "best (rules (lx_start l)) (lx_rest l) = Some (n, act)" by auto
    then have "action_ok (lx_start l) act" using best_sound [OF b] rules_action_ok by blast
    then show ?thesis using run_action_inv [OF inv] False b by (simp add: lex_step_def Let_def)
  qed
qed

definition lex_result_ok :: "(event \<Rightarrow> bool) \<Rightarrow> (int \<times> lexer) res \<Rightarrow> bool" where
  "lex_result_ok has r = (case r of Inl e \<Rightarrow> e = Undefined OutOfBounds | Inr (c, l) \<Rightarrow> lex_done has c l)"

lemma lex_loop_inv: "lex_inv has g l \<Longrightarrow> lex_result_ok has (lex_loop 256 has l)"
proof (induction "256 :: nat" has l rule: lex_loop.induct)
  case (1 has l)
  have step: "flow_ok has g (lex_step 256 has l)" using 1(2) by (rule lex_step_inv)
  show ?case
  proof (cases "lex_step 256 has l")
    case (Inl e)
    with step show ?thesis by (subst lex_loop.simps) (simp add: flow_ok_def lex_result_ok_def)
  next
    case (Inr f)
    with step 1(1) [of f] show ?thesis
      by (subst lex_loop.simps) (cases f; simp add: flow_ok_def lex_result_ok_def)
  qed
qed

lemma start_inv:
  "lex_inv has g (if g then yy_push_state GENERIC_INITIAL (start_lexer s) else start_lexer s)"
  by (simp add: lex_inv_def start_lexer_def yy_push_state_def base_state_def empty_message_def blocks_def
      MAX_PARAMS_def)

subsection \<open>Tables of fewer columns\<close>

text \<open>
  \<open>flex -f\<close>, with which src/SConscript builds the scanner, makes tables of 128 columns unless it is told otherwise. On characters
  inside the table a scanner does what one with 256 columns does.
\<close>

lemma lex_step_narrow:
  "lex_step csize has l = lex_step 256 has l
    \<or> lex_step csize has l = Inl (Undefined OutOfBounds) \<and> (\<exists>c \<in> set (lx_rest l). csize \<le> code c)"
  using reads_within [of "lx_rest l" csize "alternatives (rules (lx_start l))"]
  by (auto simp: lex_step_def Let_def not_le)

lemma lex_step_rest: "lex_step csize has l = Inr (Continue l') \<Longrightarrow> set (lx_rest l') \<subseteq> set (lx_rest l)"
  by (auto simp: lex_step_def Let_def split: if_splits option.splits dest!: run_action_rest in_set_dropD)

lemma lex_loop_narrow:
  "lex_loop csize has l = lex_loop 256 has l
    \<or> lex_loop csize has l = Inl (Undefined OutOfBounds) \<and> (\<exists>c \<in> set (lx_rest l). csize \<le> code c)"
proof (induction csize has l rule: lex_loop.induct)
  case (1 csize has l)
  note narrow = lex_step_narrow [of csize has l]
  show ?case
  proof (cases "lex_step csize has l = lex_step 256 has l")
    case False
    with narrow have "lex_step csize has l = Inl (Undefined OutOfBounds)" "\<exists>c \<in> set (lx_rest l). csize \<le> code c" by auto
    then show ?thesis by (subst lex_loop.simps) simp
  next
    case True
    show ?thesis
    proof (cases "lex_step csize has l")
      case (Inl e)
      then show ?thesis using True by (subst (1 2) lex_loop.simps) simp
    next
      case (Inr f)
      show ?thesis
      proof (cases f)
        case (Return r l')
        then show ?thesis using Inr True by (subst (1 2) lex_loop.simps) simp
      next
        case (Continue l')
        then show ?thesis using 1 [OF Inr Continue] lex_step_rest [of csize has l l'] Inr True
          by (subst (1 2 3) lex_loop.simps) auto
      qed
    qed
  qed
qed

lemma start_rest [simp]: "lx_rest (if g then yy_push_state GENERIC_INITIAL (start_lexer s) else start_lexer s) = s"
  by (simp add: start_lexer_def yy_push_state_def)

lemma yylex_narrow:
  "yylex csize has g s = yylex 256 has g s
    \<or> yylex csize has g s = Inl (Undefined OutOfBounds) \<and> (\<exists>c \<in> set s. csize \<le> code c)"
  unfolding yylex_def
  using lex_loop_narrow [of csize has "if g then yy_push_state GENERIC_INITIAL (start_lexer s) else start_lexer s"]
  unfolding start_rest .

lemma yylex_within: "\<forall>c \<in> set s. code c < csize \<Longrightarrow> yylex csize has g s = yylex 256 has g s"
  using yylex_narrow [of csize has g s] by (auto simp: not_le [symmetric])

lemma alternatives_rules: "\<exists>r rs'. alternatives (rules s) = Alt r rs'"
  by (cases s) (auto simp: alternatives_def simp del: lit.simps lit_ci.simps)

lemma yylex_outside:
  assumes "csize \<le> code c"
  shows "yylex csize has g (c # t) = Inl (Undefined OutOfBounds)"
  using assms unfolding yylex_def by (subst lex_loop.simps) (auto simp: lex_step_def Let_def start_lexer_def yy_push_state_def)

text \<open>A parameter is added for a space that has been read.\<close>

definition spaces_due :: "lexer \<Rightarrow> nat" where
  "spaces_due l = length (msg_params (lx_msg l)) + count_list (lx_rest l) (CHR '' '') + (if lx_start l = PARAM then 1 else 0)"

lemma count_drop: "count_list (drop n s) c \<le> count_list s c"
  by (metis append_take_drop_id count_list_append le_add2)

lemma rules_push_param: "(r, Push_param) \<in> set (rules s) \<Longrightarrow> r = lit '' ''"
  by (cases s) (auto simp: default_rule_def simp del: lit.simps lit_ci.simps)

lemma run_action_due:
  assumes inv: "lex_inv has g l" and act: "action_ok (lx_start l) act"
    and pushed: "act = Push_param \<Longrightarrow> Suc (count_list t (CHR '' '')) \<le> count_list (lx_rest l) (CHR '' '')"
    and rest: "count_list t (CHR '' '') \<le> count_list (lx_rest l) (CHR '' '')"
  shows "case run_action has act u (l\<lparr>lx_rest := t\<rparr>) of
      Inl e \<Rightarrow> MAX_PARAMS < spaces_due l
    | Inr (Continue l') \<Rightarrow> spaces_due l' \<le> spaces_due l
    | Inr (Return r l') \<Rightarrow> True"
proof -
  note simps = spaces_due_def action_ok_def lex_inv_def lexer_ops param_state_def
  have s: "signal_ok has (lx_start l) l" using inv by (simp add: lex_inv_def)
  show ?thesis
  proof (cases act)
    case Pop_prefix
    with inv act obtain ts where "lx_stack l = PREFIX # ts" "base_state g ts" by (auto simp: simps)
    then show ?thesis using Pop_prefix rest by (auto simp: simps base_state_def split: if_splits)
  next
    case Signal_extra
    then show ?thesis using s act by (auto simp: signal_ok_def action_ok_def lexer_ops)
  next
    case Signal
    then show ?thesis using s act by (auto simp: signal_ok_def action_ok_def lexer_ops)
  qed (use assms in \<open>auto simp: simps\<close>)
qed

lemma lex_step_due:
  assumes inv: "lex_inv has g l"
  shows "case lex_step 256 has l of
      Inl e \<Rightarrow> MAX_PARAMS < spaces_due l
    | Inr (Continue l') \<Rightarrow> spaces_due l' \<le> spaces_due l
    | Inr (Return r l') \<Rightarrow> True"
proof (cases "lx_rest l = []")
  case False
  have "longest (fst default_rule) (lx_rest l) = Some 1"
    using False by (cases "lx_rest l") (simp_all add: default_rule_def)
  then have "best (rules (lx_start l)) (lx_rest l) \<noteq> None"
    using default_in_rules [of "lx_start l"]
    by (simp add: best_None case_prod_beta) (rule bexI, rule exI)
  then obtain n act where b: "best (rules (lx_start l)) (lx_rest l) = Some (n, act)" by auto
  from best_sound [OF b] obtain r where r: "(r, act) \<in> set (rules (lx_start l))" "longest r (lx_rest l) = Some n" by auto
  have act: "action_ok (lx_start l) act" using r(1) rules_action_ok by blast
  have "act = Push_param \<Longrightarrow> take n (lx_rest l) = '' ''"
    using r rules_push_param longest_Some [OF r(2)] by (metis matches_lit)
  moreover have "count_list (lx_rest l) (CHR '' '') = count_list (take n (lx_rest l)) (CHR '' '') + count_list (drop n (lx_rest l)) (CHR '' '')"
    by (metis append_take_drop_id count_list_append)
  ultimately show ?thesis
    using run_action_due [OF inv act, of "drop n (lx_rest l)" "take n (lx_rest l)"] False b count_drop
    by (simp add: lex_step_def Let_def)
qed (simp add: lex_step_def)

lemma lex_loop_due: "lex_inv has g l \<Longrightarrow> lex_loop 256 has l = Inl e \<Longrightarrow> MAX_PARAMS < spaces_due l"
proof (induction "256 :: nat" has l rule: lex_loop.induct)
  case (1 has l)
  have due: "case lex_step 256 has l of Inl e \<Rightarrow> MAX_PARAMS < spaces_due l
    | Inr (Continue l') \<Rightarrow> spaces_due l' \<le> spaces_due l | Inr (Return r l') \<Rightarrow> True" using 1(2) by (rule lex_step_due)
  have step: "flow_ok has g (lex_step 256 has l)" using 1(2) by (rule lex_step_inv)
  show ?case
  proof (cases "lex_step 256 has l")
    case (Inl e)
    with due show ?thesis by simp
  next
    case (Inr f)
    with 1(3) obtain l' where l': "f = Continue l'" "lex_loop 256 has l' = Inl e"
      by (subst (asm) lex_loop.simps) (cases f; simp)
    with step Inr have "lex_inv has g l'" by (simp add: flow_ok_def)
    with 1(1) [OF Inr l'(1)] l'(2) due Inr l'(1) show ?thesis by simp
  qed
qed

lemma yylex_due: "yylex 256 has g s = Inl e \<Longrightarrow> MAX_PARAMS < count_list s (CHR '' '')"
  using lex_loop_due [OF start_inv, of has g s e]
  by (auto simp: yylex_def spaces_due_def start_lexer_def yy_push_state_def empty_message_def split: if_splits)

lemma yylex_result:
  "case yylex csize has g s of
     Inl e \<Rightarrow> e = Undefined OutOfBounds \<and> ((\<exists>c \<in> set s. csize \<le> code c) \<or> MAX_PARAMS < count_list s (CHR '' ''))
   | Inr (r, l) \<Rightarrow>
       (r = 0 \<and> (\<exists>e c m. lx_sent l = [(e, c, m)] \<and> has e \<and> (c = None \<or> e = Unknown)
          \<and> length (msg_params m) \<le> MAX_PARAMS))
       \<or> ((r = 1 \<or> r = -2) \<and> lx_sent l = [])"
proof (cases "yylex csize has g s = yylex 256 has g s")
  case True
  have "lex_result_ok has (yylex 256 has g s)" unfolding yylex_def by (rule lex_loop_inv [OF start_inv])
  then show ?thesis using yylex_due [of has g s] unfolding True
    by (auto simp: lex_result_ok_def lex_done_def delivery_ok_def split: sum.splits)
next
  case False
  then show ?thesis using yylex_narrow [of csize has g s] by auto
qed

text \<open>
  C13. For tables of any number of columns and every input the scanner ends, without popping an empty start-condition
  stack, jamming or calling an unset callback pointer: it returns 0 after invoking exactly one callback that the
  session has set, or 1 or -2 having invoked none; or it goes out of bounds, which happens only if the input has a character
  outside the table or more than 14 spaces. On characters inside the table it does what tables of 256 columns do; an
  input that starts with a character outside of it always makes it read outside. (\<open>flex -f\<close> gives 128 columns.)
\<close>

theorem yylex_safe:
  "(case yylex csize has g s of
     Inl e \<Rightarrow> e = Undefined OutOfBounds \<and> ((\<exists>c \<in> set s. csize \<le> code c) \<or> 14 < count_list s (CHR '' ''))
   | Inr (r, l) \<Rightarrow>
       (r = 0 \<and> (\<exists>e c m. lx_sent l = [(e, c, m)] \<and> has e \<and> (c = None \<or> e = Unknown)
          \<and> length (msg_params m) \<le> 14))
       \<or> ((r = 1 \<or> r = -2) \<and> lx_sent l = []))
   \<and> ((\<forall>c \<in> set s. code c < csize) \<longrightarrow> yylex csize has g s = yylex 256 has g s)
   \<and> (s \<noteq> [] \<and> csize \<le> code (hd s) \<longrightarrow> yylex csize has g s = Inl (Undefined OutOfBounds))"
  using yylex_result [where csize = csize and has = has and g = g and s = s, unfolded MAX_PARAMS_def] yylex_within [of s csize has g]
    yylex_outside [of csize "hd s" has g "tl s"] list.collapse [of s]
  by (intro conjI impI) simp_all

text \<open>With the tables of 128 columns: a message that is delivered or skipped, and one that makes the scanner read outside.\<close>

theorem yylex_safe_witness:
  "(\<exists>r l. yylex 128 (\<lambda>e. True) False ''PING :x'' = Inr (r, l))
    \<and> yylex 128 (\<lambda>e. True) False (chr 200 # ''PING'') = Inl (Undefined OutOfBounds)"
proof -
  note safe = yylex_safe [where csize = 128 and has = "\<lambda>e. True" and g = False]
  have "\<not> (\<exists>c \<in> set ''PING :x''. 128 \<le> code c)" "count_list ''PING :x'' (CHR '' '') = 1" by (simp_all add: code_def)
  then have "\<exists>r l. yylex 128 (\<lambda>e. True) False ''PING :x'' = Inr (r, l)"
    using safe [of "''PING :x''"] by (auto split: sum.splits)
  moreover have "128 \<le> code (chr 200)" by (simp add: code_chr)
  ultimately show ?thesis using safe [of "chr 200 # ''PING''"] by simp
qed

subsection \<open>Messages it does not deliver\<close>

lemma loop_empty_trailing:
  assumes "param_state (lx_start l)" and "lx_rest l = '' :'' @ [CR, LF]"
  shows "\<exists>l'. lex_loop 256 has l = Inr (-2, l') \<and> lx_sent l' = lx_sent l \<and> lx_echo l' = lx_echo l @ [CR, LF]"
proof -
  let ?m = "l\<lparr>lx_rest := CHR '':'' # [CR, LF], lx_start := PARAM, lx_stack := lx_start l # lx_stack l\<rparr>"
  let ?n = "l\<lparr>lx_rest := [CR, LF], lx_start := TRAILING, lx_stack := PARAM # lx_start l # lx_stack l\<rparr>"
  have no: "\<not> is_trailing_char CR" "\<not> is_trailing_char LF" by (simp_all add: is_trailing_char_def)
  have "lex_loop 256 has l = lex_loop 256 has ?m"
    using assms best_blank_param [OF assms(1)]
    by (intro lex_loop_continue [where u = "'' ''" and act = Push_param and t = "CHR '':'' # [CR, LF]"])
      (simp_all add: yy_push_state_def del: rules.simps)
  also have "\<dots> = lex_loop 256 has ?n"
    by (rule lex_loop_continue [where u = "'':''" and act = Push_trailing and t = "[CR, LF]"])
      (simp_all add: yy_push_state_def best_colon_param del: rules.simps)
  also have "\<dots> = lex_loop 256 has (?n\<lparr>lx_rest := [LF], lx_echo := lx_echo l @ [CR]\<rparr>)"
    using best_trailing [of "[]" CR "[LF]"] no
    by (intro lex_loop_continue [where u = "[CR]" and act = ECHO and t = "[LF]"])
      (simp_all del: rules.simps)
  also have "\<dots> = lex_loop 256 has (?n\<lparr>lx_rest := [], lx_echo := lx_echo l @ [CR, LF]\<rparr>)"
    using best_trailing [of "[]" LF "[]"] no
    by (intro lex_loop_continue [where u = "[LF]" and act = ECHO and t = "[]"])
      (simp_all del: rules.simps)
  finally show ?thesis by (simp add: lex_loop_eof destroy_message_def free_command_def)
qed

lemma loop_command:
  assumes w: "matches p_command (w_command w)" and s: "s = (if g then GENERIC_INITIAL else INITIAL)"
    and has: "has (wire_event g w)" and r: "r = d # u" "d = CHR '' '' \<or> d = CR"
  shows "\<exists>m. lex_loop 256 has (opened w (w_command w @ r) s l) = lex_loop 256 has m
    \<and> param_state (lx_start m) \<and> lx_rest m = r \<and> msg_params (lx_msg m) = [] \<and> lx_sent m = lx_sent l"
proof -
  have s': "s = INITIAL \<or> s = GENERIC_INITIAL" using s by simp
  note word = loop_word [OF w, of "opened w (w_command w @ r) s l" s d u has]
  show ?thesis
  proof (cases "opening_action s (w_command w)")
    case (Test_event e)
    then have "\<not> g" "has e" using s has by (auto simp: opening_action_def wire_event_def split: if_splits)
    let ?m = "(yy_push_state PARAMS (opened w r s l))\<lparr>lx_event := Some e\<rparr>"
    have "lex_loop 256 has (opened w (w_command w @ r) s l) = lex_loop 256 has ?m"
      using s' r Test_event \<open>has e\<close>
      by (subst word [where f = "Continue ?m"]) (simp_all add: IRC_EVENT_TEST_def yy_push_state_def opened_def)
    then show ?thesis
      by (intro exI [of _ ?m]) (simp add: param_state_def yy_push_state_def opened_def empty_message_def)
  next
    case Test_unknown
    then have "has Unknown" using s has by (auto simp: opening_action_def wire_event_def split: if_splits)
    let ?m = "(yy_push_state GENERIC_PARAMS (opened w r s l))
      \<lparr>lx_extra := True, lx_command := Some (c_text (w_command w)), lx_live := held (w_source w) + 1\<rparr>"
    have "lex_loop 256 has (opened w (w_command w @ r) s l) = lex_loop 256 has ?m"
      using s' r Test_unknown \<open>has Unknown\<close>
      by (subst word [where f = "Continue ?m"])
        (simp_all add: IRC_EVENT_TEST_EXTRA_def yy_push_state_def opened_def)
    then show ?thesis
      by (intro exI [of _ ?m]) (simp add: param_state_def yy_push_state_def opened_def empty_message_def)
  qed (use s command_action_cases [of "w_command w"] in \<open>auto simp: opening_action_def split: if_splits\<close>)
qed

lemma yylex_after_command:
  assumes ok: "head_ok w" and has: "has (wire_event g w)" and t: "t = wire_head w @ w_command w @ r"
    and r: "r = d # u" "d = CHR '' '' \<or> d = CR"
  shows "\<exists>m. yylex 256 has g t = lex_loop 256 has m \<and> param_state (lx_start m) \<and> lx_rest m = r
    \<and> msg_params (lx_msg m) = [] \<and> lx_sent m = []"
proof -
  let ?s = "if g then GENERIC_INITIAL else INITIAL"
  let ?l = "if g then yy_push_state GENERIC_INITIAL (start_lexer t) else start_lexer t"
  have w: "matches p_command (w_command w)" using ok by (simp add: head_ok_def)
  have "yylex 256 has g t = lex_loop 256 has (opened w (w_command w @ r) ?s ?l)"
    unfolding yylex_def opened_def using ok
    by (rule loop_start) (simp_all add: t yy_push_state_def start_lexer_def)
  moreover have "lx_sent ?l = []" by (simp add: yy_push_state_def start_lexer_def)
  ultimately show ?thesis using loop_command [where w = w and g = g and s = ?s and l = ?l and has = has, OF w refl has r] by auto
qed

lemma yylex_empty_trailing_ok:
  assumes "head_ok w" and "length (w_middles w) \<le> MAX_PARAMS" and "w_trailing w = Some []" and "has (wire_event g w)"
  shows "\<exists>l. yylex 256 has g (wire_text w) = Inr (-2, l) \<and> lx_sent l = []"
proof -
  obtain d u where r: "wire_tail w [] = d # u" "d = CHR '' '' \<or> d = CR"
    using tail_delim [of "w_middles w" "w_trailing w" "[]"] unfolding wire_tail_def by blast
  then obtain m where m: "yylex 256 has g (wire_text w) = lex_loop 256 has m" "param_state (lx_start m)"
    "lx_rest m = wire_tail w []" "msg_params (lx_msg m) = []" "lx_sent m = []"
    using yylex_after_command [where r = "wire_tail w []" and t = "wire_text w", OF assms(1) _ _ r] assms(4)
    by (auto simp: wire_text_def wire_tail_def)
  let ?n = "m\<lparr>lx_rest := '' :'' @ [CR, LF], lx_msg := (lx_msg m)\<lparr>msg_params := msg_params (lx_msg m) @ w_middles w\<rparr>,
      lx_live := lx_live m + length (w_middles w)\<rparr>"
  have "lex_loop 256 has m = lex_loop 256 has ?n"
    unfolding append.simps using m assms
    by (intro loop_middles) (auto simp: head_ok_def list_all_iff MAX_PARAMS_def wire_tail_def)
  then show ?thesis using loop_empty_trailing [of ?n has] m by auto
qed

text \<open>
  A message whose trailing parameter is empty (\<open>PRIVMSG #c :\<close>) is lost: the pattern of the trailing
  text matches nothing there, so the default rule wins and echoes the line end, and the end of the input
  is reported as "not enough input".
\<close>

theorem yylex_empty_trailing:
  assumes "head_ok w" and "length (w_middles w) \<le> MAX_PARAMS" and "w_trailing w = Some []" and "has (wire_event g w)"
  shows "\<exists>l. yylex 256 has g (wire_text w) = Inr (-2, l) \<and> lx_sent l = []"
  using assms by (rule yylex_empty_trailing_ok)

theorem yylex_empty_trailing_witness:
  "\<exists>l. yylex 256 (\<lambda>e. True) True (wire_text (sample_wire\<lparr>w_trailing := Some []\<rparr>)) = Inr (-2, l) \<and> lx_sent l = []"
  by (rule yylex_empty_trailing)
    (use sample_wire_ok in \<open>simp_all add: wire_ok_def head_ok_def sample_wire_def\<close>)

lemma loop_middle_overflow:
  assumes l: "param_state (lx_start l)" "lx_rest l = CHR '' '' # p @ d # t"
    and p: "matches p_middle p" "d = CHR '' '' \<or> d = CR" "14 \<le> length (msg_params (lx_msg l))"
  shows "lex_loop 256 has l = Inl (Undefined OutOfBounds)"
proof -
  have ne: "p \<noteq> []" using p(1) by (auto simp: matches_middle)
  let ?m = "l\<lparr>lx_rest := p @ d # t, lx_start := PARAM, lx_stack := lx_start l # lx_stack l\<rparr>"
  have "lex_loop 256 has l = lex_loop 256 has ?m"
    using l best_blank_param [OF l(1)]
    by (intro lex_loop_continue [where u = "'' ''" and act = Push_param and t = "p @ d # t"])
      (auto simp: yy_push_state_def simp del: rules.simps)
  also have "\<dots> = Inl (Undefined OutOfBounds)"
    using ne p(3) best_middle [OF p(1,2), of t]
    by (intro lex_loop_fail [where u = p and act = Add_middle and t = "d # t"])
      (simp_all add: yy_pop_state_def IRC_ADD_PARAM_def MAX_PARAMS_def ebind_def del: rules.simps)
  finally show ?thesis .
qed

lemma yylex_too_many_params_ok:
  assumes "head_ok w" and "MAX_PARAMS < length (w_middles w)" and "has (wire_event g w)"
  shows "yylex 256 has g (wire_text w) = Inl (Undefined OutOfBounds)"
proof -
  obtain d u where r: "wire_tail w [] = d # u" "d = CHR '' '' \<or> d = CR"
    using tail_delim [of "w_middles w" "w_trailing w" "[]"] unfolding wire_tail_def by blast
  then obtain m where m: "yylex 256 has g (wire_text w) = lex_loop 256 has m" "param_state (lx_start m)"
    "lx_rest m = wire_tail w []" "msg_params (lx_msg m) = []" "lx_sent m = []"
    using yylex_after_command [where r = "wire_tail w []" and t = "wire_text w", OF assms(1) _ _ r] assms(3)
    by (auto simp: wire_text_def wire_tail_def)
  obtain p ps where ps: "w_middles w = take 14 (w_middles w) @ p # ps"
    using assms(2) id_take_nth_drop [of 14 "w_middles w"] by (auto simp: MAX_PARAMS_def)
  define qs where "qs = take 14 (w_middles w)"
  have qs: "length qs = 14" "w_middles w = qs @ p # ps" using assms(2) ps by (simp_all add: qs_def MAX_PARAMS_def)
  obtain e v where e: "wire_tail (w\<lparr>w_middles := ps\<rparr>) [] = e # v" "e = CHR '' '' \<or> e = CR"
    using tail_delim [of ps "w_trailing w" "[]"] unfolding wire_tail_def by auto
  have rest: "wire_tail w [] = middles_text qs @ CHR '' '' # p @ e # v"
    using e(1) qs(2) by (simp add: wire_tail_def middles_text_def)
  let ?n = "m\<lparr>lx_rest := CHR '' '' # p @ e # v, lx_msg := (lx_msg m)\<lparr>msg_params := msg_params (lx_msg m) @ qs\<rparr>,
      lx_live := lx_live m + length qs\<rparr>"
  have "lex_loop 256 has m = lex_loop 256 has ?n"
    using m assms(1) qs rest by (intro loop_middles) (auto simp: head_ok_def list_all_iff)
  also have "\<dots> = Inl (Undefined OutOfBounds)"
    using m assms(1) qs e(2) by (intro loop_middle_overflow [where p = p and d = e and t = v]) (auto simp: head_ok_def)
  finally show ?thesis using m(1) by simp
qed

text \<open>
  A message with more than the 14 parameters that the array of the message holds makes the scanner
  write past the array: nothing compares the count with the bound.
\<close>

theorem yylex_too_many_params:
  assumes "head_ok w" and "MAX_PARAMS < length (w_middles w)" and "has (wire_event g w)"
  shows "yylex 256 has g (wire_text w) = Inl (Undefined OutOfBounds)"
  using assms by (rule yylex_too_many_params_ok)

theorem yylex_too_many_params_witness:
  "yylex 256 (\<lambda>e. True) False (wire_text (sample_wire\<lparr>w_middles := replicate 15 ''x''\<rparr>)) = Inl (Undefined OutOfBounds)"
  by (rule yylex_too_many_params)
    (use sample_wire_ok in \<open>simp_all add: wire_ok_def head_ok_def sample_wire_def MAX_PARAMS_def list_all_iff\<close>)

end
