(* ===== verification/Asio_Streambuf.thy ===== *)
theory Asio_Streambuf
  imports Prelude
begin

text \<open>
  \<open>basic_streambuf\<close> of src/asio/include/asio/basic_streambuf.hpp: one vector whose characters between the
  get pointer and the put pointer are the input sequence, and those up to the end of the put area the
  output sequence. The pointers of \<open>std::streambuf\<close> are kept as offsets into the vector; \<open>pbump\<close> and
  \<open>gbump\<close> take an \<open>int\<close>, so the conversion \<open>static_cast<int>(n)\<close> is written out. \<open>resize\<close> fills new
  elements with zeros and grows the capacity as the standard library of GCC does.

  The abstract view is a queue of characters, \<open>sb_input\<close>: \<open>prepare\<close> leaves it, \<open>commit\<close> appends what was
  written into the prepared region, \<open>consume\<close> drops characters from its front.
\<close>

subsection \<open>The vector and the pointers\<close>

record streambuf =
  sb_max :: nat
  sb_buffer :: string
  sb_capacity :: nat
  sb_gnext :: int
  sb_gend :: int
  sb_pnext :: int
  sb_pend :: int

definition buffer_delta :: nat where
  "buffer_delta = 128"

definition to_int :: "nat \<Rightarrow> int" where
  "to_int n = sint (of_nat n :: 32 word)"

lemma to_int_id: "n \<le> INT_MAX \<Longrightarrow> to_int n = int n"
  by (simp add: to_int_def signed_of_nat signed_take_bit_int_eq_self)

text \<open>\<open>std::vector::resize\<close>.\<close>

definition sb_resize :: "nat \<Rightarrow> streambuf \<Rightarrow> streambuf" where
  "sb_resize n b =
     (let size = length (sb_buffer b)
      in b\<lparr>sb_buffer := take n (sb_buffer b) @ replicate (n - size) NUL,
           sb_capacity := if n \<le> sb_capacity b then sb_capacity b else size + max size (n - size)\<rparr>)"

definition new_streambuf :: "nat \<Rightarrow> streambuf" where
  "new_streambuf maximum_size =
     (let pend = min maximum_size buffer_delta
      in \<lparr>sb_max = maximum_size, sb_buffer = replicate (max pend 1) NUL, sb_capacity = max pend 1,
          sb_gnext = 0, sb_gend = 0, sb_pnext = 0, sb_pend = int pend\<rparr>)"

definition sb_size :: "streambuf \<Rightarrow> nat" where
  "sb_size b = nat (sb_pnext b - sb_gnext b)"

definition max_size :: "streambuf \<Rightarrow> nat" where
  "max_size b = sb_max b"

text \<open>The input sequence \<open>data()\<close> points at, and the start and size of the output sequence.\<close>

definition sb_data :: "streambuf \<Rightarrow> nat \<times> nat" where
  "sb_data b = (nat (sb_gnext b), sb_size b)"

definition sb_input :: "streambuf \<Rightarrow> string" where
  "sb_input b = take (snd (sb_data b)) (drop (fst (sb_data b)) (sb_buffer b))"

definition reserve :: "nat \<Rightarrow> streambuf \<Rightarrow> streambuf res" where
  "reserve n b =
     (let gnext = nat (sb_gnext b); pnext = nat (sb_pnext b); pend = nat (sb_pend b)
      in if n \<le> pend - pnext then Inr b
         else
           let pnext' = (if gnext > 0 then pnext - gnext else pnext);
               moved = (if gnext > 0
                 then b\<lparr>sb_buffer := take pnext' (drop gnext (sb_buffer b)) @ drop pnext' (sb_buffer b)\<rparr> else b)
           in ebind
                (if n > pend - pnext'
                 then if n \<le> sb_max b \<and> pnext' \<le> sb_max b - n
                      then Inr (pnext' + n, sb_resize (max (pnext' + n) 1) moved)
                      else Inl (Throw (LengthError ''asio::streambuf too long''))
                 else Inr (pend, moved))
                (\<lambda>(pend, b). Inr (b\<lparr>sb_gnext := 0, sb_gend := int pnext', sb_pnext := int pnext', sb_pend := int pend\<rparr>)))"

definition prepare :: "nat \<Rightarrow> streambuf \<Rightarrow> (streambuf \<times> nat \<times> nat) res" where
  "prepare n b = ebind (reserve n b) (\<lambda>b. Inr (b, nat (sb_pnext b), n))"

definition pbump :: "int \<Rightarrow> streambuf \<Rightarrow> streambuf" where
  "pbump n b = b\<lparr>sb_pnext := sb_pnext b + n\<rparr>"

definition gbump :: "int \<Rightarrow> streambuf \<Rightarrow> streambuf" where
  "gbump n b = b\<lparr>sb_gnext := sb_gnext b + n\<rparr>"

definition commit :: "nat \<Rightarrow> streambuf \<Rightarrow> streambuf" where
  "commit n b =
     (let n = (if sb_pnext b + int n > sb_pend b then nat (sb_pend b - sb_pnext b) else n);
          b = pbump (to_int n) b
      in b\<lparr>sb_gend := sb_pnext b\<rparr>)"

definition consume :: "nat \<Rightarrow> streambuf \<Rightarrow> streambuf" where
  "consume n b =
     (let b = (if sb_gend b < sb_pnext b then b\<lparr>sb_gend := sb_pnext b\<rparr> else b);
          n = (if sb_gnext b + int n > sb_pnext b then nat (sb_pnext b - sb_gnext b) else n)
      in gbump (to_int n) b)"

definition underflow :: "streambuf \<Rightarrow> streambuf \<times> char option" where
  "underflow b =
     (if sb_gnext b < sb_pnext b
      then (b\<lparr>sb_gend := sb_pnext b\<rparr>, Some (sb_buffer b ! nat (sb_gnext b)))
      else (b, None))"

definition store_char :: "char \<Rightarrow> streambuf \<Rightarrow> streambuf" where
  "store_char c b = pbump 1 (b\<lparr>sb_buffer := (sb_buffer b)[nat (sb_pnext b) := c]\<rparr>)"

text \<open>\<open>overflow\<close>: the argument \<open>None\<close> is \<open>eof\<close>.\<close>

definition overflow :: "char option \<Rightarrow> streambuf \<Rightarrow> streambuf res" where
  "overflow c b =
     (case c of
        None \<Rightarrow> Inr b
      | Some c \<Rightarrow>
          ebind (if sb_pnext b = sb_pend b
                 then let buffer_size = sb_size b
                      in if buffer_size < sb_max b \<and> sb_max b - buffer_size < buffer_delta
                         then reserve (sb_max b - buffer_size) b
                         else reserve buffer_delta b
                 else Inr b)
            (\<lambda>b. Inr (store_char c b)))"

definition read_size_helper :: "streambuf \<Rightarrow> nat \<Rightarrow> nat" where
  "read_size_helper b maximum =
     min (max 512 (sb_capacity b - sb_size b)) (min maximum (max_size b - sb_size b))"

text \<open>What a stream that was given the prepared region does with it: it writes bytes at its start.\<close>

definition sb_write :: "nat \<Rightarrow> string \<Rightarrow> streambuf \<Rightarrow> streambuf" where
  "sb_write pos s b =
     b\<lparr>sb_buffer := take pos (sb_buffer b) @ s @ drop (pos + length s) (sb_buffer b)\<rparr>"

subsection \<open>The invariant, and the queue of characters\<close>

lemma nat_int_diff [simp]: "nat (int a - int b) = a - b"
  by linarith

definition sb_inv :: "streambuf \<Rightarrow> bool" where
  "sb_inv b \<longleftrightarrow>
     0 \<le> sb_gnext b \<and> sb_gnext b \<le> sb_gend b \<and> sb_gend b \<le> sb_pnext b \<and> sb_pnext b \<le> sb_pend b
     \<and> sb_pend b \<le> int (length (sb_buffer b)) \<and> sb_pend b \<le> int (sb_max b)
     \<and> length (sb_buffer b) \<le> sb_capacity b"

definition sb_room :: "streambuf \<Rightarrow> nat" where
  "sb_room b = nat (sb_pend b - sb_pnext b)"

lemma new_streambuf_ok: "sb_inv (new_streambuf m) \<and> sb_input (new_streambuf m) = [] \<and> sb_max (new_streambuf m) = m"
  by (simp add: new_streambuf_def sb_inv_def sb_input_def sb_data_def sb_size_def buffer_delta_def Let_def)

lemma sb_input_length: "sb_inv b \<Longrightarrow> length (sb_input b) = sb_size b"
  by (auto simp: sb_inv_def sb_input_def sb_data_def sb_size_def)

lemma sb_size_le: "sb_inv b \<Longrightarrow> sb_size b \<le> sb_max b"
  by (auto simp: sb_inv_def sb_size_def)

lemma sb_reserve_ok:
  assumes inv: "sb_inv b" and n: "sb_size b + n \<le> sb_max b"
  shows "\<exists>b'. reserve n b = Inr b' \<and> sb_inv b' \<and> sb_input b' = sb_input b \<and> sb_max b' = sb_max b \<and> n \<le> sb_room b'"
proof -
  define g p e where gpe: "g = nat (sb_gnext b)" "p = nat (sb_pnext b)" "e = nat (sb_pend b)"
  have le: "g \<le> p" "p \<le> e" "e \<le> length (sb_buffer b)" "e \<le> sb_max b" "length (sb_buffer b) \<le> sb_capacity b"
    using inv by (auto simp: sb_inv_def gpe)
  have size: "sb_size b = p - g" using inv by (auto simp: sb_size_def sb_inv_def gpe)
  have inp: "sb_input b = take (p - g) (drop g (sb_buffer b))"
    by (simp add: sb_input_def sb_data_def size gpe)
  have p': "(if 0 < g then p - g else p) = p - g" by simp
  define M where "M = (if g > 0 then b\<lparr>sb_buffer := take (p - g) (drop g (sb_buffer b)) @ drop (p - g) (sb_buffer b)\<rparr> else b)"
  have moved: "take (p - g) (sb_buffer M) = sb_input b" "length (sb_buffer M) = length (sb_buffer b)"
    "sb_max M = sb_max b" "sb_capacity M = sb_capacity b"
    using le by (auto simp: inp M_def)
  show ?thesis
  proof (cases "n \<le> e - p")
    case True
    then show ?thesis using inv by (auto simp: reserve_def Let_def gpe sb_room_def)
  next
    case False
    note fewer = this
    define fin where "fin q c = c\<lparr>sb_gnext := 0, sb_gend := int (p - g), sb_pnext := int (p - g), sb_pend := int q\<rparr>" for q and c :: streambuf
    show ?thesis
    proof (cases "n > e - (p - g)")
      case True
      have fits: "n \<le> sb_max b" "p - g \<le> sb_max b - n" using n size by auto
      have r: "reserve n b = Inr (fin (p - g + n) (sb_resize (max (p - g + n) 1) M))"
        using False True fits unfolding reserve_def Let_def gpe [symmetric] p' M_def [symmetric] by (simp add: fin_def)
      have "sb_inv (fin (p - g + n) (sb_resize (max (p - g + n) 1) M))"
        using fits moved le by (auto simp: sb_inv_def fin_def sb_resize_def Let_def max_def)
      moreover have "sb_input (fin (p - g + n) (sb_resize (max (p - g + n) 1) M)) = sb_input b"
        unfolding moved(1) [symmetric]
        using True moved(2-) le
        by (auto simp: sb_input_def sb_data_def sb_size_def fin_def sb_resize_def Let_def min_def)
      ultimately show ?thesis using r moved(3)
        by (auto simp: sb_room_def fin_def sb_resize_def Let_def)
    next
      case False
      have r: "reserve n b = Inr (fin e M)"
        using fewer False unfolding reserve_def Let_def gpe [symmetric] p' M_def [symmetric] by (simp add: fin_def)
      have "sb_inv (fin e M)" using moved le by (auto simp: sb_inv_def fin_def)
      moreover have "sb_input (fin e M) = sb_input b"
        using moved by (simp add: sb_input_def sb_data_def sb_size_def fin_def)
      moreover have "n \<le> sb_room (fin e M)" using False by (auto simp: sb_room_def fin_def)
      ultimately show ?thesis using r moved(3) by (auto simp: fin_def)
    qed
  qed
qed

lemma reserve_fails:
  assumes "sb_inv b" and "sb_max b < sb_size b + n"
  shows "reserve n b = Inl (Throw (LengthError ''asio::streambuf too long''))"
proof -
  define g p e where gpe: "g = nat (sb_gnext b)" "p = nat (sb_pnext b)" "e = nat (sb_pend b)"
  have le: "g \<le> p" "p \<le> e" "e \<le> sb_max b" and size: "sb_size b = p - g"
    using assms(1) by (auto simp: sb_inv_def sb_size_def gpe)
  then have no: "\<not> n \<le> e - p" "\<not> n \<le> e - (p - g)" "\<not> (n \<le> sb_max b \<and> p - g \<le> sb_max b - n)"
    using assms(2) by linarith+
  have "(if 0 < g then p - g else p) = p - g" by simp
  then show ?thesis unfolding reserve_def Let_def gpe [symmetric] using no by simp
qed

lemma write_input:
  assumes "sb_inv b" and "length s \<le> sb_room b"
  shows "sb_inv (sb_write (nat (sb_pnext b)) s b) \<and> sb_input (sb_write (nat (sb_pnext b)) s b) = sb_input b
    \<and> take (length s) (drop (nat (sb_pnext b)) (sb_buffer (sb_write (nat (sb_pnext b)) s b))) = s"
proof -
  define p where "p = nat (sb_pnext b)"
  have p: "sb_pnext b = int p" "p + length s \<le> length (sb_buffer b)" "nat (sb_gnext b) \<le> p"
    using assms by (auto simp: sb_inv_def sb_room_def p_def)
  have "take (p - nat (sb_gnext b)) (drop (nat (sb_gnext b)) (sb_buffer (sb_write p s b)))
      = take (p - nat (sb_gnext b)) (drop (nat (sb_gnext b)) (sb_buffer b))"
    using p by (simp add: sb_write_def drop_take min_def)
  then show ?thesis
    using assms p by (auto simp: sb_inv_def sb_input_def sb_data_def sb_size_def sb_write_def nat_diff_distrib)
qed

lemma commit_input:
  assumes "sb_inv b" and "n \<le> sb_room b" and "n \<le> INT_MAX"
  shows "sb_inv (commit n b) \<and> sb_max (commit n b) = sb_max b
    \<and> sb_input (commit n b) = sb_input b @ take n (drop (nat (sb_pnext b)) (sb_buffer b))"
proof -
  have c: "commit n b = b\<lparr>sb_pnext := sb_pnext b + int n, sb_gend := sb_pnext b + int n\<rparr>"
    using assms by (auto simp: commit_def pbump_def to_int_id sb_room_def sb_inv_def Let_def)
  define g p where gp: "g = nat (sb_gnext b)" "p = nat (sb_pnext b)"
  have le: "sb_gnext b = int g" "sb_pnext b = int p" "g \<le> p" "p + n \<le> length (sb_buffer b)"
    using assms by (auto simp: sb_inv_def sb_room_def gp)
  have "take (p + n - g) (drop g (sb_buffer b)) = take (p - g) (drop g (sb_buffer b)) @ take n (drop p (sb_buffer b))"
    using le(3) take_add [of "p - g" n "drop g (sb_buffer b)"] by simp
  then show ?thesis
    using assms le unfolding c
    by (auto simp: sb_inv_def sb_input_def sb_data_def sb_size_def sb_room_def nat_diff_distrib nat_add_distrib
        simp flip: of_nat_add)
qed

lemma consume_input:
  assumes inv: "sb_inv b" and n: "min n (sb_size b) \<le> INT_MAX"
  shows "sb_inv (consume n b) \<and> sb_max (consume n b) = sb_max b \<and> sb_input (consume n b) = drop n (sb_input b)"
proof -
  define k where "k = min n (sb_size b)"
  have k: "(if sb_gnext b + int n > sb_pnext b then nat (sb_pnext b - sb_gnext b) else n) = k"
    using inv by (auto simp: k_def sb_size_def sb_inv_def)
  have c: "consume n b = b\<lparr>sb_gend := sb_pnext b, sb_gnext := sb_gnext b + int k\<rparr>"
    using inv n k by (auto simp: consume_def gbump_def to_int_id k_def [symmetric] sb_inv_def Let_def)
  define g p where gp: "g = nat (sb_gnext b)" "p = nat (sb_pnext b)"
  have le: "sb_gnext b = int g" "sb_pnext b = int p" "g \<le> p" "p \<le> length (sb_buffer b)" "k \<le> p - g"
    using inv by (auto simp: sb_inv_def gp k_def sb_size_def)
  have "take (p - (g + k)) (drop (g + k) (sb_buffer b)) = drop k (take (p - g) (drop g (sb_buffer b)))"
    using le by (simp add: drop_take add.commute)
  moreover have "drop n (sb_input b) = drop k (sb_input b)"
    using sb_input_length [OF inv] by (auto simp: k_def min_def)
  moreover have "sb_inv (consume n b)" using inv le unfolding c by (auto simp: sb_inv_def)
  moreover have "sb_input b = take (p - g) (drop g (sb_buffer b))"
    by (simp add: sb_input_def sb_data_def sb_size_def le)
  moreover have "sb_input (consume n b) = take (p - (g + k)) (drop (g + k) (sb_buffer b))"
  proof -
    have "nat (int p - (int g + int k)) = p - (g + k)" "nat (int g + int k) = g + k" by linarith+
    then show ?thesis unfolding c by (simp add: sb_input_def sb_data_def sb_size_def le)
  qed
  ultimately show ?thesis unfolding c by simp
qed

lemma overflow_ok:
  assumes inv: "sb_inv b"
  shows "if sb_size b < sb_max b
    then \<exists>b'. overflow (Some c) b = Inr b' \<and> sb_inv b' \<and> sb_max b' = sb_max b \<and> sb_input b' = sb_input b @ [c]
    else sb_pnext b = sb_pend b \<longrightarrow> overflow (Some c) b = Inl (Throw (LengthError ''asio::streambuf too long''))"
proof -
  have store: "sb_inv (store_char c b') \<and> sb_max (store_char c b') = sb_max b' \<and> sb_input (store_char c b') = sb_input b' @ [c]"
    if "sb_inv b'" "1 \<le> sb_room b'" for b'
  proof -
    let ?p = "nat (sb_pnext b')"
    have p: "?p < length (sb_buffer b')" using that by (auto simp: sb_inv_def sb_room_def)
    then have "(sb_buffer b')[?p := c] = sb_buffer (sb_write ?p [c] b')"
      by (simp add: sb_write_def upd_conv_take_nth_drop)
    then have eq: "store_char c b' = (sb_write ?p [c] b')\<lparr>sb_pnext := sb_pnext b' + 1\<rparr>"
      by (simp add: store_char_def pbump_def sb_write_def)
    have w: "sb_inv (sb_write ?p [c] b') \<and> sb_input (sb_write ?p [c] b') = sb_input b'
        \<and> take 1 (drop ?p (sb_buffer (sb_write ?p [c] b'))) = [c]"
      using write_input [of b' "[c]"] that by simp
    have "sb_room (sb_write ?p [c] b') = sb_room b'" by (simp add: sb_room_def sb_write_def)
    then have "sb_inv (commit 1 (sb_write ?p [c] b')) \<and> sb_input (commit 1 (sb_write ?p [c] b')) = sb_input b' @ [c]"
      using commit_input [of "sb_write ?p [c] b'" 1] w that(2) by (simp add: sb_write_def)
    moreover have "commit 1 (sb_write ?p [c] b') = (store_char c b')\<lparr>sb_gend := sb_pnext b' + 1\<rparr>"
      using that(2) unfolding eq by (simp add: commit_def pbump_def to_int_id sb_room_def Let_def sb_write_def)
    ultimately show ?thesis
      using that by (auto simp: sb_inv_def sb_input_def sb_data_def sb_size_def eq sb_write_def)
  qed
  show ?thesis
  proof (cases "sb_size b < sb_max b")
    case True
    show ?thesis
    proof (cases "sb_pnext b = sb_pend b")
      case False
      then have "1 \<le> sb_room b" using inv by (auto simp: sb_inv_def sb_room_def)
      then show ?thesis using store [OF inv] True False by (simp add: overflow_def)
    next
      case full: True
      define n where "n = (if sb_max b - sb_size b < buffer_delta then sb_max b - sb_size b else buffer_delta)"
      have n: "1 \<le> n" "sb_size b + n \<le> sb_max b" using True by (auto simp: n_def buffer_delta_def)
      obtain b' where b': "reserve n b = Inr b'" "sb_inv b'" "sb_input b' = sb_input b" "sb_max b' = sb_max b" "n \<le> sb_room b'"
        using sb_reserve_ok [OF inv n(2)] by auto
      have "overflow (Some c) b = Inr (store_char c b')"
        using True full b'(1) by (auto simp: overflow_def n_def Let_def split: if_splits)
      then show ?thesis using True store [OF b'(2)] b' n by simp
    qed
  next
    case False
    then have "sb_max b < sb_size b + buffer_delta" by (simp add: buffer_delta_def)
    then show ?thesis using False reserve_fails [OF inv] by (simp add: overflow_def)
  qed
qed

lemma underflow_peek:
  assumes "sb_inv b"
  shows "snd (underflow b) = (case sb_input b of [] \<Rightarrow> None | c # _ \<Rightarrow> Some c)"
proof (cases "sb_gnext b < sb_pnext b")
  case True
  define g p where "g = nat (sb_gnext b)" "p = nat (sb_pnext b)"
  then have gp: "sb_gnext b = int g" "sb_pnext b = int p" "g < p" "p \<le> length (sb_buffer b)"
    using True assms by (auto simp: sb_inv_def)
  then have "sb_input b = sb_buffer b ! g # take (p - g - 1) (drop (Suc g) (sb_buffer b))"
    by (simp add: sb_input_def sb_data_def sb_size_def Cons_nth_drop_Suc [symmetric] take_Cons' )
  then show ?thesis using gp by (simp add: underflow_def)
qed (simp add: underflow_def sb_input_def sb_data_def sb_size_def)

subsection \<open>Refinement of a bounded queue\<close>

text \<open>
  A use of the buffer: \<open>Fill n s\<close> prepares \<open>n\<close> characters, lets a stream write \<open>s\<close> there and commits
  them, as the read operations do; \<open>Put\<close> is \<open>sputc\<close>.
\<close>

datatype sb_op = Fill nat string | Consume nat | Put char

definition fill_streambuf :: "nat \<Rightarrow> string \<Rightarrow> streambuf \<Rightarrow> streambuf res" where
  "fill_streambuf n s b = ebind (prepare n b) (\<lambda>(b, pos, _). Inr (commit (length s) (sb_write pos s b)))"

fun sb_step :: "sb_op \<Rightarrow> streambuf \<Rightarrow> streambuf res" where
  "sb_step (Fill n s) b = fill_streambuf n s b"
| "sb_step (Consume n) b = Inr (consume n b)"
| "sb_step (Put c) b = (if sb_pnext b < sb_pend b then Inr (store_char c b) else overflow (Some c) b)"

fun sb_run :: "sb_op list \<Rightarrow> streambuf \<Rightarrow> streambuf res" where
  "sb_run [] b = Inr b"
| "sb_run (x # xs) b = ebind (sb_step x b) (sb_run xs)"

definition bounded :: "nat \<Rightarrow> nat \<Rightarrow> string \<Rightarrow> string res" where
  "bounded m n q = (if n \<le> m then Inr q else Inl (Throw (LengthError ''asio::streambuf too long'')))"

fun queue_step :: "nat \<Rightarrow> sb_op \<Rightarrow> string \<Rightarrow> string res" where
  "queue_step m (Fill n s) q = bounded m (length q + n) (q @ s)"
| "queue_step m (Consume n) q = Inr (drop n q)"
| "queue_step m (Put c) q = bounded m (length q + 1) (q @ [c])"

fun queue_run :: "nat \<Rightarrow> sb_op list \<Rightarrow> string \<Rightarrow> string res" where
  "queue_run m [] q = Inr q"
| "queue_run m (x # xs) q = ebind (queue_step m x q) (queue_run m xs)"

fun op_ok :: "sb_op \<Rightarrow> bool" where
  "op_ok (Fill n s) = (length s \<le> n \<and> n \<le> INT_MAX)"
| "op_ok (Consume n) = (n \<le> INT_MAX)"
| "op_ok (Put c) = True"

definition simulates :: "nat \<Rightarrow> streambuf res \<Rightarrow> string res \<Rightarrow> bool" where
  "simulates m r q = (case r of
     Inl e \<Rightarrow> q = Inl e
   | Inr b \<Rightarrow> q = Inr (sb_input b) \<and> sb_inv b \<and> sb_max b = m)"

lemma fill_streambuf_ok:
  assumes inv: "sb_inv b" and s: "length s \<le> n" "n \<le> INT_MAX" and room: "sb_size b + n \<le> sb_max b"
  shows "\<exists>b'. fill_streambuf n s b = Inr b' \<and> sb_inv b' \<and> sb_max b' = sb_max b \<and> sb_input b' = sb_input b @ s"
proof -
  obtain b' where b': "reserve n b = Inr b'" "sb_inv b'" "sb_input b' = sb_input b" "sb_max b' = sb_max b" "n \<le> sb_room b'"
    using sb_reserve_ok [OF inv room] by auto
  let ?w = "sb_write (nat (sb_pnext b')) s b'"
  have w: "sb_inv ?w" "sb_input ?w = sb_input b'" "take (length s) (drop (nat (sb_pnext b')) (sb_buffer ?w)) = s"
    using write_input [OF b'(2), of s] s(1) b'(5) by auto
  have "sb_room ?w = sb_room b'" "sb_pnext ?w = sb_pnext b'" "sb_max ?w = sb_max b'"
    by (simp_all add: sb_room_def sb_write_def)
  then have "sb_inv (commit (length s) ?w) \<and> sb_max (commit (length s) ?w) = sb_max b
      \<and> sb_input (commit (length s) ?w) = sb_input b @ s"
    using commit_input [OF w(1), of "length s"] w s b'(3-5) by simp
  then show ?thesis using b'(1) by (simp add: fill_streambuf_def prepare_def)
qed

lemma sb_step_refines:
  assumes inv: "sb_inv b" and ok: "op_ok x"
  shows "simulates (sb_max b) (sb_step x b) (queue_step (sb_max b) x (sb_input b))"
proof (cases x)
  case (Fill n s)
  show ?thesis
  proof (cases "sb_size b + n \<le> sb_max b")
    case True
    with fill_streambuf_ok [OF inv, of s n] ok Fill inv show ?thesis
      by (auto simp: simulates_def bounded_def sb_input_length)
  next
    case False
    with reserve_fails [OF inv] Fill inv show ?thesis
      by (simp add: simulates_def bounded_def sb_input_length fill_streambuf_def prepare_def)
  qed
next
  case (Consume n)
  with consume_input [OF inv, of n] ok show ?thesis by (simp add: simulates_def)
next
  case (Put c)
  have less: "sb_pnext b < sb_pend b \<Longrightarrow> sb_size b < sb_max b" using inv by (auto simp: sb_inv_def sb_size_def)
  have eq: "sb_pnext b < sb_pend b \<Longrightarrow> overflow (Some c) b = Inr (store_char c b)" by (simp add: overflow_def)
  have "sb_pnext b < sb_pend b \<or> sb_pnext b = sb_pend b" using inv by (auto simp: sb_inv_def)
  then show ?thesis using overflow_ok [OF inv, of c] less eq Put sb_input_length [OF inv]
    by (auto simp: simulates_def bounded_def split: if_splits)
qed

lemma sb_run_refines:
  "sb_inv b \<Longrightarrow> list_all op_ok xs \<Longrightarrow> simulates (sb_max b) (sb_run xs b) (queue_run (sb_max b) xs (sb_input b))"
proof (induction xs arbitrary: b)
  case Nil
  then show ?case by (simp add: simulates_def)
next
  case (Cons x xs)
  have step: "simulates (sb_max b) (sb_step x b) (queue_step (sb_max b) x (sb_input b))"
    using Cons.prems by (intro sb_step_refines) simp_all
  show ?case
  proof (cases "sb_step x b")
    case (Inl e)
    with step show ?thesis by (simp add: simulates_def)
  next
    case (Inr b')
    with step have "sb_inv b'" "sb_max b' = sb_max b" "queue_step (sb_max b) x (sb_input b) = Inr (sb_input b')"
      by (simp_all add: simulates_def)
    with Cons.IH [of b'] Cons.prems Inr show ?thesis by simp
  qed
qed

text \<open>
  C35. A stream buffer is a bounded queue of characters: any sequence of filling, consuming and putting
  leaves exactly the input sequence the queue has, never more than the maximum size, with its first
  character in front, and throws \<open>length_error\<close> exactly when the queue would pass the maximum, whatever
  shifting and resizing of the vector happens in between.
\<close>

theorem streambuf_refines_queue:
  assumes "list_all op_ok ops"
  shows "case sb_run ops (new_streambuf m) of
      Inl e \<Rightarrow> queue_run m ops [] = Inl e
    | Inr b \<Rightarrow> queue_run m ops [] = Inr (sb_input b) \<and> sb_size b = length (sb_input b) \<and> sb_size b \<le> m
        \<and> snd (underflow b) = (case sb_input b of [] \<Rightarrow> None | c # _ \<Rightarrow> Some c)"
proof -
  have "simulates m (sb_run ops (new_streambuf m)) (queue_run m ops [])"
    using sb_run_refines [OF conjunct1 [OF new_streambuf_ok] assms, of m] new_streambuf_ok [of m] by simp
  then show ?thesis
    using sb_size_le by (auto simp: simulates_def sb_input_length underflow_peek split: sum.splits)
qed

theorem streambuf_refines_queue_witness:
  "case sb_run [Fill 100 ''PING :x'', Consume 5, Fill 200 ''yz'', Put (CHR ''!'')] (new_streambuf 300) of
      Inl e \<Rightarrow> False
    | Inr b \<Rightarrow> sb_input b = '':xyz!''"
proof -
  have "queue_run 300 [Fill 100 ''PING :x'', Consume 5, Fill 200 ''yz'', Put (CHR ''!'')] [] = Inr '':xyz!''"
    by (simp add: bounded_def)
  then show ?thesis
    using streambuf_refines_queue [of "[Fill 100 ''PING :x'', Consume 5, Fill 200 ''yz'', Put (CHR ''!'')]" 300]
    by (auto split: sum.splits)
qed

text \<open>The \<open>int\<close> argument of \<open>pbump\<close>: a commit of 2 GB or more moves the put pointer backwards.\<close>

lemma commit_truncates:
  "2147483648 \<le> sb_room b \<Longrightarrow> sb_pnext (commit 2147483648 b) = sb_pnext b - 2147483648"
  by (auto simp: commit_def pbump_def to_int_def sb_room_def Let_def)

end
