(* ===== verification/Asio_Buffer.thy ===== *)
theory Asio_Buffer
  imports Prelude
begin

text \<open>
  The buffers of src/asio/include/asio/buffer.hpp: a buffer is a pointer and a size and never owns
  the bytes, which are in a \<open>heap\<close> that several buffers may share; a buffer sequence is a list.
  \<open>mutable_buffer\<close> and \<open>const_buffer\<close> (and their one-element sequences) have the same members and
  the same operations, so one record stands for them. The overloads of \<open>buffer_copy\<close> are loops around
  \<open>memcpy\<close>, which is undefined on overlapping regions.

  \<open>addrs\<close> is the list of the addresses a buffer covers; what an operation on buffers does is stated as
  an equation between such lists. Sizes are \<open>nat\<close>: a sum of sizes of buffers in memory fits \<open>size_t\<close>.
\<close>

subsection \<open>Buffers\<close>

record buf =
  bptr :: nat
  bsize :: nat

type_synonym heap = "nat \<Rightarrow> char"

definition null_buf :: buf where
  "null_buf = \<lparr>bptr = 0, bsize = 0\<rparr>"

definition addrs :: "buf \<Rightarrow> nat list" where
  "addrs b = [bptr b..<bptr b + bsize b]"

definition seq_addrs :: "buf list \<Rightarrow> nat list" where
  "seq_addrs bs = concat (map addrs bs)"

definition buffer_plus :: "buf \<Rightarrow> nat \<Rightarrow> buf" where
  "buffer_plus b start =
     (if start > bsize b then null_buf else \<lparr>bptr = bptr b + start, bsize = bsize b - start\<rparr>)"

definition buffer_max :: "buf \<Rightarrow> nat \<Rightarrow> buf" where
  "buffer_max b max_size = \<lparr>bptr = bptr b, bsize = if bsize b < max_size then bsize b else max_size\<rparr>"

fun buffer_size_seq :: "buf list \<Rightarrow> nat" where
  "buffer_size_seq [] = 0"
| "buffer_size_seq (b # bs) = bsize b + buffer_size_seq bs"

lemma length_addrs [simp]: "length (addrs b) = bsize b"
  by (auto simp: addrs_def)

lemma seq_addrs_simps [simp]:
  "seq_addrs [] = []" "seq_addrs (b # bs) = addrs b @ seq_addrs bs" "seq_addrs (bs @ cs) = seq_addrs bs @ seq_addrs cs"
  by (simp_all add: seq_addrs_def)

lemma length_seq_addrs: "length (seq_addrs bs) = buffer_size_seq bs"
  by (induction bs) simp_all

lemma addrs_null [simp]: "addrs null_buf = []"
  by (simp add: addrs_def null_buf_def)

lemma addrs_empty_iff [simp]: "addrs b = [] \<longleftrightarrow> bsize b = 0"
  by (auto simp: addrs_def)

lemma addrs_plus: "addrs (buffer_plus b n) = drop n (addrs b)"
  by (auto simp: buffer_plus_def addrs_def null_buf_def)

lemma bsize_plus [simp]: "bsize (buffer_plus b n) = bsize b - n"
  by (simp add: buffer_plus_def null_buf_def)

lemma bsize_max [simp]: "bsize (buffer_max b n) = min (bsize b) n"
  by (simp add: buffer_max_def)

lemma addrs_max: "addrs (buffer_max b n) = take n (addrs b)"
  by (auto simp: buffer_max_def addrs_def take_upt)

lemma buffer_plus_0 [simp]: "buffer_plus b 0 = b"
  by (simp add: buffer_plus_def)

lemma distinct_addrs [simp]: "distinct (addrs b)"
  by (auto simp: addrs_def)

subsection \<open>Copying\<close>

definition memcpy :: "heap \<Rightarrow> nat \<Rightarrow> nat \<Rightarrow> nat \<Rightarrow> heap res" where
  "memcpy h dst src n =
     (if dst < src + n \<and> src < dst + n then Inl (Undefined OverlappingCopy)
      else Inr (\<lambda>a. if dst \<le> a \<and> a < dst + n then h (src + (a - dst)) else h a))"

definition buffer_copy :: "heap \<Rightarrow> buf \<Rightarrow> buf \<Rightarrow> (heap \<times> nat) res" where
  "buffer_copy h target source =
     (let n = if bsize target < bsize source then bsize target else bsize source
      in ebind (memcpy h (bptr target) (bptr source) n) (\<lambda>h. Inr (h, n)))"

definition buffer_copy_max :: "heap \<Rightarrow> buf \<Rightarrow> buf \<Rightarrow> nat \<Rightarrow> (heap \<times> nat) res" where
  "buffer_copy_max h target source max_bytes_to_copy = buffer_copy h (buffer_max target max_bytes_to_copy) source"

text \<open>The overloads with one buffer on one side.\<close>

fun buffer_copy_to :: "heap \<Rightarrow> buf \<Rightarrow> buf list \<Rightarrow> nat \<Rightarrow> (heap \<times> nat) res" where
  "buffer_copy_to h target_buffer [] acc = Inr (h, acc)"
| "buffer_copy_to h target_buffer (s # source) acc =
     (if bsize target_buffer = 0 then Inr (h, acc)
      else ebind (buffer_copy h target_buffer s) (\<lambda>(h, bytes_copied).
             buffer_copy_to h (buffer_plus target_buffer bytes_copied) source (acc + bytes_copied)))"

fun buffer_copy_from :: "heap \<Rightarrow> buf list \<Rightarrow> buf \<Rightarrow> nat \<Rightarrow> (heap \<times> nat) res" where
  "buffer_copy_from h [] source_buffer acc = Inr (h, acc)"
| "buffer_copy_from h (t # target) source_buffer acc =
     (if bsize source_buffer = 0 then Inr (h, acc)
      else ebind (buffer_copy h t source_buffer) (\<lambda>(h, bytes_copied).
             buffer_copy_from h target (buffer_plus source_buffer bytes_copied) (acc + bytes_copied)))"

text \<open>
  The two-iterator loop. \<open>left\<close> is \<open>max_bytes_to_copy - total_bytes_copied\<close> in the overload with a
  limit, \<open>None\<close> in the one without.
\<close>

definition copy_step :: "nat option \<Rightarrow> heap \<Rightarrow> buf \<Rightarrow> buf \<Rightarrow> (heap \<times> nat) res" where
  "copy_step left h t s = (case left of None \<Rightarrow> buffer_copy h t s | Some m \<Rightarrow> buffer_copy_max h t s m)"

lemma copy_step_bytes:
  "copy_step left h t s = Inr (h', n) \<Longrightarrow>
     n = (case left of None \<Rightarrow> min (bsize t) (bsize s) | Some m \<Rightarrow> min (min (bsize t) m) (bsize s))"
  by (auto simp: copy_step_def buffer_copy_def buffer_copy_max_def Let_def ebind_Inr_iff split: option.splits if_splits)

function copy_loop ::
  "nat option \<Rightarrow> heap \<Rightarrow> buf list \<Rightarrow> nat \<Rightarrow> buf list \<Rightarrow> nat \<Rightarrow> nat \<Rightarrow> (heap \<times> nat) res" where
  "copy_loop left h (t # ts) toff (s # ss) soff acc =
     (if left = Some 0 then Inr (h, acc)
      else let target_buffer = buffer_plus t toff; source_buffer = buffer_plus s soff
        in ebind (copy_step left h target_buffer source_buffer) (\<lambda>(h, n).
             copy_loop (map_option (\<lambda>m. m - n) left) h
               (if n = bsize target_buffer then ts else t # ts) (if n = bsize target_buffer then 0 else toff + n)
               (if n = bsize source_buffer then ss else s # ss) (if n = bsize source_buffer then 0 else soff + n)
               (acc + n)))"
| "copy_loop left h [] toff ss soff acc = Inr (h, acc)"
| "copy_loop left h ts toff [] soff acc = Inr (h, acc)"
  by pat_completeness auto
termination
  by (relation "measure (\<lambda>(left, h, ts, toff, ss, soff, acc).
        2 * (length ts + length ss) + (if left = Some 0 then 0 else 1))")
    (auto dest!: copy_step_bytes split: option.splits)

definition buffer_copy_seq :: "heap \<Rightarrow> buf list \<Rightarrow> buf list \<Rightarrow> (heap \<times> nat) res" where
  "buffer_copy_seq h target source = copy_loop None h target 0 source 0 0"

definition buffer_copy_seq_max :: "heap \<Rightarrow> buf list \<Rightarrow> buf list \<Rightarrow> nat \<Rightarrow> (heap \<times> nat) res" where
  "buffer_copy_seq_max h target source max_bytes_to_copy = copy_loop (Some max_bytes_to_copy) h target 0 source 0 0"

subsection \<open>What a copy does\<close>

text \<open>The heap after the bytes at \<open>ss\<close> have been written to \<open>ts\<close>, in order.\<close>

definition copied :: "heap \<Rightarrow> nat list \<Rightarrow> nat list \<Rightarrow> heap" where
  "copied h ts ss = (\<lambda>a. case map_of (zip ts ss) a of None \<Rightarrow> h a | Some s \<Rightarrow> h s)"

lemma copied_outside: "a \<notin> set ts \<Longrightarrow> copied h ts ss a = h a"
  by (auto simp: copied_def dest!: map_of_SomeD set_zip_leftD split: option.splits)

lemma copied_bytes:
  assumes "distinct ts" and "length ts = length ss"
  shows "map (copied h ts ss) ts = map h ss"
proof (rule nth_equalityI)
  fix i assume "i < length (map (copied h ts ss) ts)"
  then show "map (copied h ts ss) ts ! i = map h ss ! i"
    using assms by (simp add: copied_def map_of_zip_nth)
qed (use assms in simp)

lemma copied_append:
  assumes "distinct (ts1 @ ts2)" and "length ts1 = length ss1" and "set ts1 \<inter> set ss2 = {}"
  shows "copied (copied h ts1 ss1) ts2 ss2 = copied h (ts1 @ ts2) (ss1 @ ss2)"
proof
  fix a
  show "copied (copied h ts1 ss1) ts2 ss2 a = copied h (ts1 @ ts2) (ss1 @ ss2) a"
  proof (cases "map_of (zip ts2 ss2) a")
    case None
    then show ?thesis using assms(2)
      by (auto simp: copied_def map_add_def split: option.splits dest!: map_of_SomeD dest: set_zip_leftD)
  next
    case (Some s)
    then have "(a, s) \<in> set (zip ts2 ss2)" by (rule map_of_SomeD)
    then have a: "a \<in> set ts2" "s \<in> set ss2" by (auto dest: set_zip_leftD set_zip_rightD)
    then have "a \<notin> set ts1" "s \<notin> set ts1" using assms by auto
    then have "map_of (zip ts1 ss1) a = None"
      using assms(2) by (auto simp: map_of_eq_None_iff dest: set_zip_leftD)
    moreover have "copied h ts1 ss1 s = h s" using \<open>s \<notin> set ts1\<close> by (rule copied_outside)
    ultimately show ?thesis using Some assms(2)
      by (auto simp: copied_def map_add_def split: option.splits dest!: map_of_SomeD dest: set_zip_leftD)
  qed
qed

lemma memcpy_copied:
  assumes "set [dst..<dst + n] \<inter> set [src..<src + n] = {}"
  shows "memcpy h dst src n = Inr (copied h [dst..<dst + n] [src..<src + n])"
proof -
  have "\<not> (dst < src + n \<and> src < dst + n)"
  proof
    assume o: "dst < src + n \<and> src < dst + n"
    then have "max dst src \<in> set [dst..<dst + n] \<inter> set [src..<src + n]" by auto
    with assms show False by blast
  qed
  moreover have "(if dst \<le> a \<and> a < dst + n then h (src + (a - dst)) else h a)
      = copied h [dst..<dst + n] [src..<src + n] a" for a
  proof (cases "dst \<le> a \<and> a < dst + n")
    case True
    then have "map_of (zip [dst..<dst + n] [src..<src + n]) ([dst..<dst + n] ! (a - dst))
        = Some ([src..<src + n] ! (a - dst))"
      by (intro map_of_zip_nth) auto
    moreover have "[dst..<dst + n] ! (a - dst) = a" "[src..<src + n] ! (a - dst) = src + (a - dst)"
      using True by auto
    ultimately show ?thesis using True by (simp only: copied_def) simp
  next
    case False
    then have "a \<notin> set [dst..<dst + n]" by auto
    then show ?thesis unfolding if_not_P [OF False] by (rule copied_outside [symmetric])
  qed
  ultimately show ?thesis by (simp add: memcpy_def)
qed

lemma buffer_copy_copied:
  assumes "set (addrs t) \<inter> set (addrs s) = {}" and n: "n = min (bsize t) (bsize s)"
  shows "buffer_copy h t s = Inr (copied h (take n (addrs t)) (take n (addrs s)), n)"
proof -
  have eq: "take n (addrs t) = [bptr t..<bptr t + n]" "take n (addrs s) = [bptr s..<bptr s + n]"
    using n by (simp_all add: addrs_def take_upt)
  have "set (take n (addrs t)) \<inter> set (take n (addrs s)) = {}"
    using assms(1) set_take_subset by fastforce
  then have "memcpy h (bptr t) (bptr s) n = Inr (copied h (take n (addrs t)) (take n (addrs s)))"
    unfolding eq by (rule memcpy_copied)
  moreover have "(if bsize t < bsize s then bsize t else bsize s) = n" using n by auto
  ultimately show ?thesis by (simp add: buffer_copy_def)
qed

lemma copy_step_copied:
  assumes "set (addrs t) \<inter> set (addrs s) = {}"
    and n: "n = (case left of None \<Rightarrow> min (bsize t) (bsize s) | Some m \<Rightarrow> min m (min (bsize t) (bsize s)))"
  shows "copy_step left h t s = Inr (copied h (take n (addrs t)) (take n (addrs s)), n)"
proof (cases left)
  case None
  then show ?thesis using assms buffer_copy_copied [of t s n h] by (simp add: copy_step_def)
next
  case (Some m)
  have "set (addrs (buffer_max t m)) \<inter> set (addrs s) = {}"
    using assms(1) set_take_subset by (fastforce simp: addrs_max)
  then show ?thesis
    using buffer_copy_copied [of "buffer_max t m" s n h] Some n
    by (simp add: copy_step_def buffer_copy_max_def addrs_max min.commute min.left_commute)
qed

definition limit :: "nat option \<Rightarrow> nat \<Rightarrow> nat" where
  "limit left n = (case left of None \<Rightarrow> n | Some m \<Rightarrow> min m n)"

lemma limit_split:
  "n \<le> limit left k \<Longrightarrow> limit left k = n + limit (map_option (\<lambda>m. m - n) left) (k - n)"
  by (auto simp: limit_def split: option.splits)

lemma copy_loop_copied:
  assumes "toff \<le> (case ts of [] \<Rightarrow> 0 | t # _ \<Rightarrow> bsize t)" and "soff \<le> (case ss of [] \<Rightarrow> 0 | s # _ \<Rightarrow> bsize s)"
    and "T = drop toff (seq_addrs ts)" and "S = drop soff (seq_addrs ss)"
    and "distinct T" and "set T \<inter> set S = {}"
    and "k = limit left (min (length T) (length S))"
  shows "copy_loop left h ts toff ss soff acc = Inr (copied h (take k T) (take k S), acc + k)"
  using assms
proof (induction left h ts toff ss soff acc arbitrary: T S k rule: copy_loop.induct)
  case (1 left h t ts toff s ss soff acc)
  note IH = 1(1)
  show ?case
  proof (cases "left = Some 0")
    case True
    then have "k = 0" using 1(8) by (simp add: limit_def)
    with True show ?thesis by (simp add: copied_def)
  next
    case False
    let ?tb = "buffer_plus t toff" and ?sb = "buffer_plus s soff"
    define n where "n = limit left (min (bsize ?tb) (bsize ?sb))"
    have T: "T = addrs ?tb @ seq_addrs ts" and S: "S = addrs ?sb @ seq_addrs ss"
      using 1(2-5) by (simp_all add: addrs_plus)
    have nle: "n \<le> bsize ?tb" "n \<le> bsize ?sb" by (auto simp: n_def limit_def split: option.splits)
    have "set (addrs ?tb) \<inter> set (addrs ?sb) = {}" using 1(7) T S by auto
    then have step: "copy_step left h ?tb ?sb = Inr (copied h (take n (addrs ?tb)) (take n (addrs ?sb)), n)"
      by (rule copy_step_copied) (simp add: n_def limit_def split: option.splits)
    let ?ts = "if n = bsize ?tb then ts else t # ts" and ?toff = "if n = bsize ?tb then 0 else toff + n"
    let ?ss = "if n = bsize ?sb then ss else s # ss" and ?soff = "if n = bsize ?sb then 0 else soff + n"
    let ?left = "map_option (\<lambda>m. m - n) left"
    have T': "drop ?toff (seq_addrs ?ts) = drop n T" and S': "drop ?soff (seq_addrs ?ss) = drop n S"
      using nle 1(2,3) by (auto simp: T S addrs_plus add.commute)
    have takes: "take n (addrs ?tb) = take n T" "take n (addrs ?sb) = take n S"
      using nle by (auto simp: T S)
    have len: "n \<le> min (length T) (length S)" using nle by (simp add: T S)
    have nk: "n \<le> k" using nle 1(8) by (auto simp: n_def limit_def T S split: option.splits)
    define k1 where "k1 = limit ?left (min (length (drop n T)) (length (drop n S)))"
    have k: "k = n + k1"
      using nk 1(8) limit_split [of n left "min (length T) (length S)"] by (simp add: k1_def min_diff)
    have dis: "distinct (drop n T)" "set (drop n T) \<inter> set (drop n S) = {}"
      using 1(6,7) set_drop_subset by (auto dest!: in_set_dropD)
    have ok: "?toff \<le> (case ?ts of [] \<Rightarrow> 0 | t # _ \<Rightarrow> bsize t)" "?soff \<le> (case ?ss of [] \<Rightarrow> 0 | s # _ \<Rightarrow> bsize s)"
      using nle 1(2,3) by (auto split: list.splits)
    have loop: "copy_loop ?left (copied h (take n T) (take n S)) ?ts ?toff ?ss ?soff (acc + n)
        = Inr (copied (copied h (take n T) (take n S)) (take k1 (drop n T)) (take k1 (drop n S)), acc + n + k1)"
      using IH [OF False refl refl step [unfolded takes] refl ok T' [symmetric] S' [symmetric]] dis by (simp add: k1_def)
    have "set (take n T) \<inter> set (take k1 (drop n S)) = {}"
      using 1(7) by (auto dest!: in_set_takeD in_set_dropD)
    moreover have "distinct (take n T @ take k1 (drop n T))"
      using 1(6) by (simp only: take_add [symmetric] distinct_take)
    ultimately have "copied (copied h (take n T) (take n S)) (take k1 (drop n T)) (take k1 (drop n S))
        = copied h (take k T) (take k S)"
      using copied_append [of "take n T" "take k1 (drop n T)" "take n S" "take k1 (drop n S)" h] len
      by (simp add: k take_add)
    then show ?thesis
      using False loop step by (simp add: Let_def takes k add.assoc)
  qed
qed (simp_all add: limit_def copied_def split: option.splits)

text \<open>One step of the loops with one buffer on one side, and the loops.\<close>

lemma copied_take_split:
  assumes "distinct T" and "set T \<inter> set S = {}" and "n \<le> length T" and "n \<le> length S"
  shows "copied (copied h (take n T) (take n S)) (take m (drop n T)) (take m (drop n S))
           = copied h (take (n + m) T) (take (n + m) S)"
proof -
  have "set (take n T) \<inter> set (take m (drop n S)) = {}"
    using assms(2) by (auto dest!: in_set_takeD in_set_dropD)
  moreover have "distinct (take n T @ take m (drop n T))"
    using assms(1) by (simp only: take_add [symmetric] distinct_take)
  ultimately show ?thesis
    using copied_append [of "take n T" "take m (drop n T)" "take n S" "take m (drop n S)" h] assms(3,4)
    by (simp add: take_add)
qed

lemma buffer_copy_to_copied:
  assumes "set (addrs t) \<inter> set (seq_addrs ss) = {}" and "k = min (bsize t) (length (seq_addrs ss))"
  shows "buffer_copy_to h t ss acc = Inr (copied h (take k (addrs t)) (take k (seq_addrs ss)), acc + k)"
  using assms
proof (induction h t ss acc arbitrary: k rule: buffer_copy_to.induct)
  case (1 h t acc)
  then show ?case by (simp add: copied_def)
next
  case (2 h t s ss acc)
  show ?case
  proof (cases "bsize t = 0")
    case True
    with 2(3) show ?thesis by (simp add: copied_def)
  next
    case False
    define n where "n = min (bsize t) (bsize s)"
    define k1 where "k1 = min (bsize t - n) (length (seq_addrs ss))"
    have step: "buffer_copy h t s = Inr (copied h (take n (addrs t)) (take n (addrs s)), n)"
      by (rule buffer_copy_copied) (use 2(2) in \<open>auto simp: n_def\<close>)
    have "set (addrs (buffer_plus t n)) \<inter> set (seq_addrs ss) = {}"
      using 2(2) by (auto simp: addrs_plus dest!: in_set_dropD)
    then have loop: "buffer_copy_to (copied h (take n (addrs t)) (take n (addrs s))) (buffer_plus t n) ss (acc + n)
        = Inr (copied (copied h (take n (addrs t)) (take n (addrs s))) (take k1 (drop n (addrs t))) (take k1 (seq_addrs ss)), acc + n + k1)"
      using 2(1) [OF False step refl, of k1] by (simp add: addrs_plus k1_def)
    have k: "k = n + k1" using 2(3) by (auto simp: n_def k1_def length_seq_addrs)
    have "take k1 (seq_addrs ss) = take k1 (drop n (seq_addrs (s # ss)))"
      by (cases "bsize s \<le> bsize t") (auto simp: n_def k1_def)
    moreover have "take n (addrs s) = take n (seq_addrs (s # ss))" by (simp add: n_def)
    ultimately show ?thesis
      using False step loop copied_take_split [of "addrs t" "seq_addrs (s # ss)" n h k1] 2(2)
      by (simp add: k n_def add.assoc)
  qed
qed

lemma buffer_copy_from_copied:
  assumes "set (seq_addrs ts) \<inter> set (addrs s) = {}" and "distinct (seq_addrs ts)"
    and "k = min (length (seq_addrs ts)) (bsize s)"
  shows "buffer_copy_from h ts s acc = Inr (copied h (take k (seq_addrs ts)) (take k (addrs s)), acc + k)"
  using assms
proof (induction h ts s acc arbitrary: k rule: buffer_copy_from.induct)
  case (1 h s acc)
  then show ?case by (simp add: copied_def)
next
  case (2 h t ts s acc)
  show ?case
  proof (cases "bsize s = 0")
    case True
    with 2(4) show ?thesis by (simp add: copied_def)
  next
    case False
    define n where "n = min (bsize t) (bsize s)"
    define k1 where "k1 = min (length (seq_addrs ts)) (bsize s - n)"
    have step: "buffer_copy h t s = Inr (copied h (take n (addrs t)) (take n (addrs s)), n)"
      by (rule buffer_copy_copied) (use 2(2) in \<open>auto simp: n_def\<close>)
    have "set (seq_addrs ts) \<inter> set (addrs (buffer_plus s n)) = {}"
      using 2(2) by (auto simp: addrs_plus dest!: in_set_dropD)
    then have loop: "buffer_copy_from (copied h (take n (addrs t)) (take n (addrs s))) ts (buffer_plus s n) (acc + n)
        = Inr (copied (copied h (take n (addrs t)) (take n (addrs s))) (take k1 (seq_addrs ts)) (take k1 (drop n (addrs s))), acc + n + k1)"
      using 2(1) [OF False step refl, of k1] 2(3) by (simp add: addrs_plus k1_def)
    have k: "k = n + k1" using 2(4) by (auto simp: n_def k1_def length_seq_addrs)
    have "take k1 (seq_addrs ts) = take k1 (drop n (seq_addrs (t # ts)))"
      by (cases "bsize t \<le> bsize s") (auto simp: n_def k1_def)
    moreover have "take n (addrs t) = take n (seq_addrs (t # ts))" by (simp add: n_def)
    ultimately show ?thesis
      using False step loop copied_take_split [of "seq_addrs (t # ts)" "addrs s" n h k1] 2(2,3)
      by (simp add: k n_def add.assoc)
  qed
qed

lemma buffer_copy_seq_copied:
  assumes "distinct (seq_addrs ts)" and "set (seq_addrs ts) \<inter> set (seq_addrs ss) = {}"
    and "k = min (length (seq_addrs ts)) (length (seq_addrs ss))"
  shows "buffer_copy_seq h ts ss = Inr (copied h (take k (seq_addrs ts)) (take k (seq_addrs ss)), k)"
  unfolding buffer_copy_seq_def
  using copy_loop_copied [OF _ _ refl refl, of 0 ts 0 ss k None h 0] assms
  by (simp add: limit_def split: list.splits)

lemma buffer_copy_seq_max_copied:
  assumes "distinct (seq_addrs ts)" and "set (seq_addrs ts) \<inter> set (seq_addrs ss) = {}"
    and "k = min m (min (length (seq_addrs ts)) (length (seq_addrs ss)))"
  shows "buffer_copy_seq_max h ts ss m = Inr (copied h (take k (seq_addrs ts)) (take k (seq_addrs ss)), k)"
  unfolding buffer_copy_seq_max_def
  using copy_loop_copied [OF _ _ refl refl, of 0 ts 0 ss k "Some m" h 0] assms
  by (simp add: limit_def split: list.splits)

text \<open>
  \<open>buffer_copy\<close> between buffer sequences copies as many bytes as the limit, the target and the source
  allow, however the bytes are split into buffers: read in order, the target then holds the first bytes of
  the source, every other byte of the heap is as before, and the number of bytes is returned.
\<close>

theorem buffer_copy_bytes:
  assumes "distinct (seq_addrs target)" and "set (seq_addrs target) \<inter> set (seq_addrs source) = {}"
    and "n = min m (min (buffer_size_seq target) (buffer_size_seq source))"
  shows "\<exists>h'. buffer_copy_seq_max h target source m = Inr (h', n)
    \<and> map h' (take n (seq_addrs target)) = map h (take n (seq_addrs source))
    \<and> (\<forall>a. a \<notin> set (take n (seq_addrs target)) \<longrightarrow> h' a = h a)"
proof (intro exI conjI allI impI)
  have n: "n = min m (min (length (seq_addrs target)) (length (seq_addrs source)))"
    using assms(3) by (simp add: length_seq_addrs)
  show "buffer_copy_seq_max h target source m
      = Inr (copied h (take n (seq_addrs target)) (take n (seq_addrs source)), n)"
    using assms(1,2) n by (rule buffer_copy_seq_max_copied)
  show "map (copied h (take n (seq_addrs target)) (take n (seq_addrs source))) (take n (seq_addrs target))
      = map h (take n (seq_addrs source))"
    using assms(1) n by (intro copied_bytes) auto
qed (rule copied_outside)

theorem buffer_copy_bytes_witness:
  "\<exists>h'. buffer_copy_seq_max (\<lambda>a. if a < 5 then ''hello'' ! a else CHR ''.'')
        [\<lparr>bptr = 10, bsize = 2\<rparr>, \<lparr>bptr = 20, bsize = 0\<rparr>, \<lparr>bptr = 30, bsize = 9\<rparr>]
        [\<lparr>bptr = 0, bsize = 3\<rparr>, \<lparr>bptr = 3, bsize = 2\<rparr>] 4 = Inr (h', 4)
     \<and> map h' [10, 11, 30, 31, 32] = ''hell.''"
proof -
  let ?ts = "[\<lparr>bptr = 10, bsize = 2\<rparr>, \<lparr>bptr = 20, bsize = 0\<rparr>, \<lparr>bptr = 30, bsize = 9\<rparr>]"
  let ?ss = "[\<lparr>bptr = 0, bsize = 3\<rparr>, \<lparr>bptr = 3, bsize = 2\<rparr>]"
  let ?h = "\<lambda>a::nat. if a < 5 then ''hello'' ! a else CHR ''.''"
  have addrs: "seq_addrs ?ts = [10, 11, 30, 31, 32, 33, 34, 35, 36, 37, 38]" "seq_addrs ?ss = [0, 1, 2, 3, 4]"
    by (simp_all add: addrs_def upt_rec)
  obtain h' where "buffer_copy_seq_max ?h ?ts ?ss 4 = Inr (h', 4)"
    "map h' (take 4 (seq_addrs ?ts)) = map ?h (take 4 (seq_addrs ?ss))"
    "\<forall>a. a \<notin> set (take 4 (seq_addrs ?ts)) \<longrightarrow> h' a = ?h a"
    using buffer_copy_bytes [of ?ts ?ss 4 4 ?h] unfolding addrs by auto
  then show ?thesis unfolding addrs by (intro exI [of _ h']) simp
qed

text \<open>
  The overloads of \<open>buffer_copy\<close> for a single target or source buffer, which are separate loops in the
  code, have the result of the general overload on the one-element sequence.
\<close>

theorem buffer_copy_overloads_agree:
  assumes "distinct (seq_addrs ts)" and "set (addrs t @ seq_addrs ts) \<inter> set (addrs s @ seq_addrs ss) = {}"
  shows "buffer_copy_to h t ss 0 = buffer_copy_seq h [t] ss \<and> buffer_copy_from h ts s 0 = buffer_copy_seq h ts [s]"
proof
  have t: "set (seq_addrs [t]) \<inter> set (seq_addrs ss) = {}" and s: "set (seq_addrs ts) \<inter> set (seq_addrs [s]) = {}"
    using assms(2) by auto
  show "buffer_copy_to h t ss 0 = buffer_copy_seq h [t] ss"
    using t buffer_copy_to_copied [OF _ refl, of t ss h 0] buffer_copy_seq_copied [OF _ t refl, of h] by simp
  show "buffer_copy_from h ts s 0 = buffer_copy_seq h ts [s]"
    using s buffer_copy_from_copied [OF _ assms(1) refl, of s h 0] buffer_copy_seq_copied [OF assms(1) s refl, of h] by simp
qed

theorem buffer_copy_overloads_agree_witness:
  "buffer_copy_to (\<lambda>a. CHR ''x'') \<lparr>bptr = 0, bsize = 2\<rparr> [\<lparr>bptr = 4, bsize = 1\<rparr>] 0
     = buffer_copy_seq (\<lambda>a. CHR ''x'') [\<lparr>bptr = 0, bsize = 2\<rparr>] [\<lparr>bptr = 4, bsize = 1\<rparr>]"
  by (rule conjunct1 [OF buffer_copy_overloads_agree [where ts = "[]" and s = null_buf]]) (simp_all add: addrs_def null_buf_def)

end
