(* ===== verification/Asio_Socket.thy ===== *)
theory Asio_Socket
  imports Asio_Buffer
begin

text \<open>
  The synchronous socket operations \<open>sync_recv\<close>, \<open>sync_send\<close> and their non-blocking counterparts of
  src/asio/include/asio/detail/impl/socket_ops.ipp, with the adapter that hands at most 64 buffers to the
  system call (detail/buffer_sequence_adapter.hpp), and the two interfaces the composed operations of the
  library rely on: \<open>read_stream\<close> (SyncReadStream) and \<open>write_stream\<close> (SyncWriteStream).

  The operating system is the list of what its calls will answer: \<open>recvmsg\<close> delivers received bytes, fails
  with an error or reports the end of the stream; the second component of a failure is the answer of the
  \<open>poll\<close> that follows it when the socket would block. Every finite behaviour of the calls is such a list;
  when it is used up, the peer has closed the connection.
\<close>

subsection \<open>Interfaces\<close>

text \<open>
  \<open>read_some n s\<close> reads at most \<open>n\<close> bytes; \<open>incoming s\<close> are the bytes the peer sends. \<open>write_some bs s\<close>
  writes some of \<open>bs\<close>; \<open>sent s\<close> are the bytes that have left.
\<close>

locale read_stream =
  fixes read_some :: "nat \<Rightarrow> 's \<Rightarrow> string \<times> error_code \<times> 's"
    and incoming :: "'s \<Rightarrow> string"
  assumes read_length: "read_some n s = (d, ec, s') \<Longrightarrow> length d \<le> n"
    and read_error: "read_some n s = (d, Some e, s') \<Longrightarrow> d = []"
    and read_progress: "read_some n s = (d, None, s') \<Longrightarrow> 0 < n \<Longrightarrow> d \<noteq> []"
    and read_incoming: "read_some n s = (d, ec, s') \<Longrightarrow> incoming s = d @ incoming s'"

locale write_stream =
  fixes write_some :: "string \<Rightarrow> 's \<Rightarrow> nat \<times> error_code \<times> 's"
    and sent :: "'s \<Rightarrow> string"
  assumes write_length: "write_some bs s = (n, ec, s') \<Longrightarrow> n \<le> length bs"
    and write_error: "write_some bs s = (n, Some e, s') \<Longrightarrow> n = 0"
    and write_progress: "write_some bs s = (n, None, s') \<Longrightarrow> bs \<noteq> [] \<Longrightarrow> 0 < n"
    and write_sent: "write_some bs s = (n, ec, s') \<Longrightarrow> sent s' = sent s @ take n bs"

subsection \<open>Receiving\<close>

datatype recv_result = Got char string | Closed | RecvFails errc "errc option"

record recv_socket =
  rs_open :: bool
  rs_stream :: bool
  rs_non_blocking :: bool
  rs_os :: "recv_result list"

definition would_block :: "errc \<Rightarrow> bool" where
  "would_block e \<longleftrightarrow> e = WouldBlock \<or> e = TryAgain"

text \<open>The bytes of one \<open>recvmsg\<close> into buffers of \<open>n\<close> bytes; what does not fit stays in the kernel.\<close>

fun recv_bytes :: "nat \<Rightarrow> recv_result list \<Rightarrow> string \<times> recv_result list" where
  "recv_bytes n (Got c d # es) =
     (take n (c # d), case drop n (c # d) of [] \<Rightarrow> es | c' # d' \<Rightarrow> Got c' d' # es)"
| "recv_bytes n es = ([], es)"

fun sync_recv_loop :: "bool \<Rightarrow> bool \<Rightarrow> nat \<Rightarrow> recv_result list \<Rightarrow> string \<times> error_code \<times> recv_result list" where
  "sync_recv_loop stream non_blocking n [] = ([], if stream then Some Eof else None, [])"
| "sync_recv_loop stream non_blocking n (Closed # es) = ([], if stream then Some Eof else None, Closed # es)"
| "sync_recv_loop stream non_blocking n (Got c d # es) =
     (case recv_bytes n (Got c d # es) of (bytes, es') \<Rightarrow>
        if bytes \<noteq> [] then (bytes, None, es')
        else ([], if stream then Some Eof else None, es'))"
| "sync_recv_loop stream non_blocking n (RecvFails e poll # es) =
     (if non_blocking \<or> \<not> would_block e then ([], Some e, es)
      else case poll of
             Some e' \<Rightarrow> ([], Some e', es)
           | None \<Rightarrow> sync_recv_loop stream non_blocking n es)"

definition sync_recv :: "nat \<Rightarrow> recv_socket \<Rightarrow> string \<times> error_code \<times> recv_socket" where
  "sync_recv n s =
     (if \<not> rs_open s then ([], Some BadDescriptor, s)
      else if n = 0 \<and> rs_stream s then ([], None, s)
      else case sync_recv_loop (rs_stream s) (rs_non_blocking s) n (rs_os s) of
             (d, ec, os) \<Rightarrow> (d, ec, s\<lparr>rs_os := os\<rparr>))"

text \<open>
  \<open>non_blocking_recv\<close>, the reactor's attempt: \<open>None\<close> when the operation has to be run again once the
  descriptor is ready.
\<close>

fun non_blocking_recv ::
  "bool \<Rightarrow> nat \<Rightarrow> recv_result list \<Rightarrow> (string \<times> error_code) option \<times> recv_result list" where
  "non_blocking_recv stream n [] = (if stream then Some ([], Some Eof) else Some ([], None), [])"
| "non_blocking_recv stream n (Closed # es) = (if stream then Some ([], Some Eof) else Some ([], None), Closed # es)"
| "non_blocking_recv stream n (Got c d # es) =
     (case recv_bytes n (Got c d # es) of (bytes, es') \<Rightarrow>
        if stream \<and> bytes = [] then (Some ([], Some Eof), es') else (Some (bytes, None), es'))"
| "non_blocking_recv stream n (RecvFails e poll # es) =
     (if e = Interrupted then non_blocking_recv stream n es
      else if would_block e then (None, es)
      else (Some ([], Some e), es))"

fun os_incoming :: "recv_result list \<Rightarrow> string" where
  "os_incoming [] = []"
| "os_incoming (Closed # es) = []"
| "os_incoming (Got c d # es) = c # d @ os_incoming es"
| "os_incoming (RecvFails e poll # es) = os_incoming es"

definition socket_incoming :: "recv_socket \<Rightarrow> string" where
  "socket_incoming s = os_incoming (rs_os s)"

text \<open>A stream socket: the type of socket the client uses.\<close>

definition tcp_read_some :: "nat \<Rightarrow> recv_socket \<Rightarrow> string \<times> error_code \<times> recv_socket" where
  "tcp_read_some n s = sync_recv n (s\<lparr>rs_stream := True\<rparr>)"

lemma recv_bytes_incoming: "recv_bytes n es = (d, es') \<Longrightarrow> os_incoming es = d @ os_incoming es' \<and> length d \<le> n"
proof (induction n es rule: recv_bytes.induct)
  case (1 n c cs es)
  have "os_incoming (case drop n (c # cs) of [] \<Rightarrow> es | c' # d' \<Rightarrow> Got c' d' # es) = drop n (c # cs) @ os_incoming es"
    by (cases "drop n (c # cs)") simp_all
  moreover have "c # cs = take n (c # cs) @ drop n (c # cs)" by (rule append_take_drop_id [symmetric])
  ultimately show ?case using 1 by (metis append_assoc append_Cons length_take min.cobounded2 os_incoming.simps(3) prod.inject recv_bytes.simps(1))
qed auto

lemma sync_recv_loop_ok:
  "sync_recv_loop True nb n es = (d, ec, es') \<Longrightarrow> 0 < n \<Longrightarrow>
     length d \<le> n \<and> (ec \<noteq> None \<longrightarrow> d = []) \<and> (ec = None \<longrightarrow> d \<noteq> []) \<and> os_incoming es = d @ os_incoming es'"
proof (induction True nb n es rule: sync_recv_loop.induct)
  case (3 nb n c d' es)
  obtain b es2 where r: "recv_bytes n (Got c d' # es) = (b, es2)" by (cases "recv_bytes n (Got c d' # es)")
  then have "b \<noteq> []" using 3(2) by auto
  with 3(1) r recv_bytes_incoming [OF r] show ?case by auto
qed (auto split: if_splits option.splits)

interpretation tcp_in: read_stream tcp_read_some socket_incoming
proof
  fix n s d ec s'
  assume r: "tcp_read_some n s = (d, ec, s')"
  have *: "length d \<le> n \<and> socket_incoming s = d @ socket_incoming s'"
  proof (cases "rs_open s \<and> 0 < n")
    case True
    then show ?thesis using r sync_recv_loop_ok [of "rs_non_blocking s" n "rs_os s"]
      by (auto simp: tcp_read_some_def sync_recv_def socket_incoming_def split: prod.splits)
  next
    case False
    then show ?thesis using r
      by (auto simp: tcp_read_some_def sync_recv_def socket_incoming_def split: if_splits)
  qed
  then show "length d \<le> n" and "socket_incoming s = d @ socket_incoming s'" by simp_all
next
  fix n s d e s'
  assume r: "tcp_read_some n s = (d, Some e, s')"
  then show "d = []" using sync_recv_loop_ok [of "rs_non_blocking s" n "rs_os s"]
    by (auto simp: tcp_read_some_def sync_recv_def split: if_splits prod.splits)
next
  fix n s d s'
  assume "tcp_read_some n s = (d, None, s')" and "0 < n"
  then show "d \<noteq> []" using sync_recv_loop_ok [of "rs_non_blocking s" n "rs_os s"]
    by (auto simp: tcp_read_some_def sync_recv_def split: if_splits prod.splits)
qed

subsection \<open>Receiving asynchronously\<close>

text \<open>
  \<open>async_receive\<close> hands an operation to the reactor, whose \<open>do_perform\<close> is \<open>non_blocking_recv\<close>: an attempt
  that would block leaves the operation waiting for the next event of the descriptor, and the handler is called
  with the result of the attempt that finishes. That the attempts are made is shown with the reactor
  (\<open>Asio_Reactive\<close>); here they follow one another. The loop ends: an attempt uses up an answer.
\<close>

lemma non_blocking_recv_shorter: "non_blocking_recv stream n es = (None, es') \<Longrightarrow> length es' < length es"
  by (induction stream n es rule: non_blocking_recv.induct) (auto split: if_splits prod.splits)

function async_recv_loop :: "bool \<Rightarrow> nat \<Rightarrow> recv_result list \<Rightarrow> string \<times> error_code \<times> recv_result list" where
  "async_recv_loop stream n es =
     (case non_blocking_recv stream n es of
        (Some (d, ec), es') \<Rightarrow> (d, ec, es')
      | (None, es') \<Rightarrow> async_recv_loop stream n es')"
  by auto
termination
  by (relation "measure (\<lambda>(stream, n, es). length es)") (auto dest: non_blocking_recv_shorter sym)

declare async_recv_loop.simps [simp del]

text \<open>
  A socket that is not open has no flag \<open>stream_oriented\<close> any more, so that the operation is not skipped:
  \<open>set_internal_non_blocking\<close> fails.
\<close>

definition async_recv :: "nat \<Rightarrow> recv_socket \<Rightarrow> string \<times> error_code \<times> recv_socket" where
  "async_recv n s =
     (if \<not> rs_open s then ([], Some BadDescriptor, s)
      else if n = 0 \<and> rs_stream s then ([], None, s)
      else case async_recv_loop (rs_stream s) n (rs_os s) of (d, ec, os) \<Rightarrow> (d, ec, s\<lparr>rs_os := os\<rparr>))"

definition tcp_async_read_some :: "nat \<Rightarrow> recv_socket \<Rightarrow> string \<times> error_code \<times> recv_socket" where
  "tcp_async_read_some n s = async_recv n (s\<lparr>rs_stream := True\<rparr>)"

text \<open>
  What a blocking socket would see if no call were interrupted by a signal and every wait for the descriptor
  ended with it ready: the asynchronous operation gives what the synchronous one gives there.
\<close>

fun quiet :: "recv_result list \<Rightarrow> recv_result list" where
  "quiet [] = []"
| "quiet (RecvFails e poll # es) = (if e = Interrupted then quiet es else RecvFails e None # quiet es)"
| "quiet (x # es) = x # quiet es"

definition quiet_socket :: "recv_socket \<Rightarrow> recv_socket" where
  "quiet_socket s = s\<lparr>rs_non_blocking := False, rs_os := quiet (rs_os s)\<rparr>"

lemma os_incoming_quiet [simp]: "os_incoming (quiet es) = os_incoming es"
  by (induction es rule: quiet.induct) (auto split: recv_result.splits)

lemma recv_bytes_quiet:
  "recv_bytes n (Got c d # es) = (b, es') \<Longrightarrow> recv_bytes n (Got c d # quiet es) = (b, quiet es')"
  by (auto split: list.splits)

lemma non_blocking_recv_quiet:
  "(case non_blocking_recv stream n es of
      (Some (d, ec), es') \<Rightarrow> sync_recv_loop stream False n (quiet es) = (d, ec, quiet es')
    | (None, es') \<Rightarrow> sync_recv_loop stream False n (quiet es) = sync_recv_loop stream False n (quiet es'))"
proof (induction stream n es rule: non_blocking_recv.induct)
  case (3 stream n c d es)
  obtain b es' where b: "recv_bytes n (Got c d # es) = (b, es')" by fastforce
  show ?case using b recv_bytes_quiet [OF b] by (auto simp del: recv_bytes.simps)
qed (auto split: option.splits prod.splits)

lemma async_recv_loop_quiet:
  "async_recv_loop stream n es = (d, ec, es') \<Longrightarrow> sync_recv_loop stream False n (quiet es) = (d, ec, quiet es')"
proof (induction stream n es rule: async_recv_loop.induct)
  case (1 stream n es)
  show ?case
  proof (cases "non_blocking_recv stream n es")
    case (Pair r es1)
    with 1 non_blocking_recv_quiet [of stream n es] show ?thesis
      by (cases r) (auto simp: async_recv_loop.simps [of stream n es] split: prod.splits)
  qed
qed

text \<open>The documents of the asynchronous operations: they never fail with these errors.\<close>

definition wait_error :: "errc \<Rightarrow> bool" where
  "wait_error e \<longleftrightarrow> would_block e \<or> e = Interrupted"

lemma non_blocking_recv_error: "non_blocking_recv stream n es = (Some (d, Some e), es') \<Longrightarrow> \<not> wait_error e"
  by (induction stream n es rule: non_blocking_recv.induct)
    (auto simp: wait_error_def would_block_def split: if_splits prod.splits)

lemma async_recv_loop_error: "async_recv_loop stream n es = (d, Some e, es') \<Longrightarrow> \<not> wait_error e"
proof (induction stream n es rule: async_recv_loop.induct)
  case (1 stream n es)
  then show ?case
    by (auto simp: async_recv_loop.simps [of stream n es] split: prod.splits option.splits dest: non_blocking_recv_error)
qed

lemma tcp_async_read_some_quiet:
  "tcp_async_read_some n s = (d, ec, s') \<Longrightarrow> tcp_read_some n (quiet_socket s) = (d, ec, quiet_socket s')"
  by (cases s) (auto simp: tcp_async_read_some_def async_recv_def tcp_read_some_def sync_recv_def quiet_socket_def
      split: if_splits prod.splits dest: async_recv_loop_quiet)

lemma tcp_async_read_some_error: "tcp_async_read_some n s = (d, Some e, s') \<Longrightarrow> \<not> wait_error e"
  by (auto simp: tcp_async_read_some_def async_recv_def wait_error_def would_block_def
      split: if_splits prod.splits dest!: async_recv_loop_error)

lemma socket_incoming_quiet [simp]: "socket_incoming (quiet_socket s) = socket_incoming s"
  by (simp add: socket_incoming_def quiet_socket_def)

interpretation tcp_async_in: read_stream tcp_async_read_some socket_incoming
proof
  fix n s d ec s'
  assume "tcp_async_read_some n s = (d, ec, s')"
  note r = tcp_async_read_some_quiet [OF this]
  show "length d \<le> n" by (rule tcp_in.read_length [OF r])
  show "socket_incoming s = d @ socket_incoming s'" using tcp_in.read_incoming [OF r] by simp
next
  fix n s d e s'
  assume "tcp_async_read_some n s = (d, Some e, s')"
  from tcp_in.read_error [OF tcp_async_read_some_quiet [OF this]] show "d = []" .
next
  fix n s d s'
  assume "tcp_async_read_some n s = (d, None, s')" and "0 < n"
  from tcp_in.read_progress [OF tcp_async_read_some_quiet [OF this(1)] this(2)] show "d \<noteq> []" .
qed

subsection \<open>Sending\<close>

text \<open>\<open>Takes k\<close>: \<open>sendmsg\<close> accepts \<open>k + 1\<close> bytes, or all there are.\<close>

datatype send_result = Takes nat | SendFails errc "errc option"

record send_socket =
  ws_open :: bool
  ws_stream :: bool
  ws_non_blocking :: bool
  ws_os :: "send_result list"
  ws_sent :: string

text \<open>The adapter: the buffers beyond the first 64 are left for the next call.\<close>

definition max_iov_len :: nat where
  "max_iov_len = 1024"

definition max_buffers :: nat where
  "max_buffers = (if 64 < max_iov_len then 64 else max_iov_len)"

definition adapt_buffers :: "buf list \<Rightarrow> buf list" where
  "adapt_buffers bs = take max_buffers bs"

definition all_empty :: "buf list \<Rightarrow> bool" where
  "all_empty bs \<longleftrightarrow> buffer_size_seq (adapt_buffers bs) = 0"

fun first_buffer :: "buf list \<Rightarrow> buf" where
  "first_buffer [] = null_buf"
| "first_buffer (b # bs) = (if bsize b \<noteq> 0 then b else first_buffer bs)"

fun sync_send_loop ::
  "bool \<Rightarrow> string \<Rightarrow> send_result list \<Rightarrow> string \<Rightarrow> nat \<times> error_code \<times> send_result list \<times> string" where
  "sync_send_loop non_blocking bs [] out = (length bs, None, [], out @ bs)"
| "sync_send_loop non_blocking bs (Takes k # es) out =
     (let n = min (Suc k) (length bs) in (n, None, es, out @ take n bs))"
| "sync_send_loop non_blocking bs (SendFails e poll # es) out =
     (if non_blocking \<or> \<not> would_block e then (0, Some e, es, out)
      else case poll of
             Some e' \<Rightarrow> (0, Some e', es, out)
           | None \<Rightarrow> sync_send_loop non_blocking bs es out)"

definition sync_send :: "string \<Rightarrow> send_socket \<Rightarrow> nat \<times> error_code \<times> send_socket" where
  "sync_send bs s =
     (if \<not> ws_open s then (0, Some BadDescriptor, s)
      else if bs = [] \<and> ws_stream s then (0, None, s)
      else case sync_send_loop (ws_non_blocking s) bs (ws_os s) (ws_sent s) of
             (n, ec, os, out) \<Rightarrow> (n, ec, s\<lparr>ws_os := os, ws_sent := out\<rparr>))"

fun non_blocking_send ::
  "string \<Rightarrow> send_result list \<Rightarrow> string \<Rightarrow> (nat \<times> error_code) option \<times> send_result list \<times> string" where
  "non_blocking_send bs [] out = (Some (length bs, None), [], out @ bs)"
| "non_blocking_send bs (Takes k # es) out =
     (let n = min (Suc k) (length bs) in (Some (n, None), es, out @ take n bs))"
| "non_blocking_send bs (SendFails e poll # es) out =
     (if e = Interrupted then non_blocking_send bs es out
      else if would_block e then (None, es, out)
      else (Some (0, Some e), es, out))"

definition tcp_write_some :: "string \<Rightarrow> send_socket \<Rightarrow> nat \<times> error_code \<times> send_socket" where
  "tcp_write_some bs s = sync_send bs (s\<lparr>ws_stream := True\<rparr>)"

lemma sync_send_loop_ok:
  "sync_send_loop nb bs es out = (n, ec, es', out') \<Longrightarrow> bs \<noteq> [] \<Longrightarrow>
     n \<le> length bs \<and> (ec \<noteq> None \<longrightarrow> n = 0) \<and> (ec = None \<longrightarrow> 0 < n) \<and> out' = out @ take n bs"
  by (induction nb bs es out rule: sync_send_loop.induct) (auto simp: Let_def split: if_splits option.splits)

interpretation tcp_out: write_stream tcp_write_some ws_sent
proof
  fix bs n ec and s s' :: send_socket
  assume r: "tcp_write_some bs s = (n, ec, s')"
  have "n \<le> length bs \<and> ws_sent s' = ws_sent s @ take n bs"
  proof (cases "bs = []")
    case True
    with r show ?thesis by (auto simp: tcp_write_some_def sync_send_def split: if_splits)
  next
    case False
    with r sync_send_loop_ok [of "ws_non_blocking s" bs "ws_os s" "ws_sent s"] show ?thesis
      by (auto simp: tcp_write_some_def sync_send_def split: if_splits prod.splits)
  qed
  then show "n \<le> length bs" and "ws_sent s' = ws_sent s @ take n bs" by simp_all
next
  fix bs n e and s s' :: send_socket
  assume "tcp_write_some bs s = (n, Some e, s')"
  then show "n = 0" using sync_send_loop_ok [of "ws_non_blocking s" bs "ws_os s" "ws_sent s"]
    by (cases "bs = []") (auto simp: tcp_write_some_def sync_send_def split: if_splits prod.splits)
next
  fix bs n and s s' :: send_socket
  assume "tcp_write_some bs s = (n, None, s')" and "bs \<noteq> []"
  then show "0 < n" using sync_send_loop_ok [of "ws_non_blocking s" bs "ws_os s" "ws_sent s"]
    by (auto simp: tcp_write_some_def sync_send_def split: if_splits prod.splits)
qed

subsection \<open>Sending asynchronously\<close>

text \<open>The same for \<open>async_send\<close>, whose \<open>do_perform\<close> is \<open>non_blocking_send\<close>.\<close>

lemma non_blocking_send_shorter: "non_blocking_send bs es out = (None, es', out') \<Longrightarrow> length es' < length es"
  by (induction bs es out rule: non_blocking_send.induct) (auto simp: Let_def split: if_splits)

function async_send_loop ::
  "string \<Rightarrow> send_result list \<Rightarrow> string \<Rightarrow> nat \<times> error_code \<times> send_result list \<times> string" where
  "async_send_loop bs es out =
     (case non_blocking_send bs es out of
        (Some (n, ec), es', out') \<Rightarrow> (n, ec, es', out')
      | (None, es', out') \<Rightarrow> async_send_loop bs es' out')"
  by auto
termination
  by (relation "measure (\<lambda>(bs, es, out). length es)") (auto dest: non_blocking_send_shorter sym)

declare async_send_loop.simps [simp del]

definition async_send :: "string \<Rightarrow> send_socket \<Rightarrow> nat \<times> error_code \<times> send_socket" where
  "async_send bs s =
     (if \<not> ws_open s then (0, Some BadDescriptor, s)
      else if bs = [] \<and> ws_stream s then (0, None, s)
      else case async_send_loop bs (ws_os s) (ws_sent s) of
             (n, ec, os, out) \<Rightarrow> (n, ec, s\<lparr>ws_os := os, ws_sent := out\<rparr>))"

definition tcp_async_write_some :: "string \<Rightarrow> send_socket \<Rightarrow> nat \<times> error_code \<times> send_socket" where
  "tcp_async_write_some bs s = async_send bs (s\<lparr>ws_stream := True\<rparr>)"

fun quiet_sends :: "send_result list \<Rightarrow> send_result list" where
  "quiet_sends [] = []"
| "quiet_sends (SendFails e poll # es) = (if e = Interrupted then quiet_sends es else SendFails e None # quiet_sends es)"
| "quiet_sends (Takes k # es) = Takes k # quiet_sends es"

lemma non_blocking_send_quiet:
  "(case non_blocking_send bs es out of
      (Some (n, ec), es', out') \<Rightarrow> sync_send_loop False bs (quiet_sends es) out = (n, ec, quiet_sends es', out')
    | (None, es', out') \<Rightarrow>
        sync_send_loop False bs (quiet_sends es) out = sync_send_loop False bs (quiet_sends es') out')"
  by (induction bs es out rule: non_blocking_send.induct) (auto simp: Let_def split: option.splits prod.splits)

lemma async_send_loop_quiet:
  "async_send_loop bs es out = (n, ec, es', out') \<Longrightarrow>
     sync_send_loop False bs (quiet_sends es) out = (n, ec, quiet_sends es', out')"
proof (induction bs es out rule: async_send_loop.induct)
  case (1 bs es out)
  show ?case
  proof (cases "non_blocking_send bs es out")
    case (fields r es1 out1)
    with 1 non_blocking_send_quiet [of bs es out] show ?thesis
      by (cases r) (auto simp: async_send_loop.simps [of bs es out] split: prod.splits)
  qed
qed

lemma non_blocking_send_error: "non_blocking_send bs es out = (Some (n, Some e), es', out') \<Longrightarrow> \<not> wait_error e"
  by (induction bs es out rule: non_blocking_send.induct)
    (auto simp: wait_error_def would_block_def Let_def split: if_splits)

lemma async_send_loop_error: "async_send_loop bs es out = (n, Some e, es', out') \<Longrightarrow> \<not> wait_error e"
proof (induction bs es out rule: async_send_loop.induct)
  case (1 bs es out)
  then show ?case
    by (auto simp: async_send_loop.simps [of bs es out] split: prod.splits option.splits dest: non_blocking_send_error)
qed

lemma async_send_loop_ok:
  "async_send_loop bs es out = (n, ec, es', out') \<Longrightarrow> bs \<noteq> [] \<Longrightarrow>
     n \<le> length bs \<and> (ec \<noteq> None \<longrightarrow> n = 0) \<and> (ec = None \<longrightarrow> 0 < n) \<and> out' = out @ take n bs"
  by (drule async_send_loop_quiet) (rule sync_send_loop_ok)

lemma tcp_async_write_some_ok:
  assumes "tcp_async_write_some bs s = (n, ec, s')"
  shows "n \<le> length bs \<and> (ec \<noteq> None \<longrightarrow> n = 0) \<and> (ec = None \<longrightarrow> bs \<noteq> [] \<longrightarrow> 0 < n)
    \<and> ws_sent s' = ws_sent s @ take n bs"
proof (cases "bs = []")
  case True
  with assms show ?thesis by (auto simp: tcp_async_write_some_def async_send_def split: if_splits)
next
  case False
  with assms async_send_loop_ok [of bs "ws_os s" "ws_sent s"] show ?thesis
    by (auto simp: tcp_async_write_some_def async_send_def split: if_splits prod.splits)
qed

interpretation tcp_async_out: write_stream tcp_async_write_some ws_sent
  by standard (auto dest!: tcp_async_write_some_ok)

end
