(* ===== verification/Asio_Read_Until.thy ===== *)
theory Asio_Read_Until
  imports Asio_Streambuf Asio_Socket
begin

text \<open>
  The read operations of src/asio/include/asio/impl/read_until.hpp: \<open>partial_search\<close>, the synchronous
  \<open>read_until\<close> loops and the asynchronous operations behind \<open>async_read_until\<close>, for a character, a
  string, a regular expression (the search function of the Boost library is a parameter) and a match
  condition. The four differ only in the search, so each is the common loop with its own search; the
  offset a search returns is relative to where it started.

  The loops are \<open>partial_function\<close>s: that they end is a theorem, for every stream with the contract of
  \<open>read_stream\<close> and every search that can be resumed.
\<close>

subsection \<open>Searching\<close>

text \<open>The inner loop of \<open>partial_search\<close>; \<open>at_first\<close> says that no character has been compared yet.\<close>

datatype test_result = Full | Partial | Mismatch

fun test_match :: "bool \<Rightarrow> string \<Rightarrow> string \<Rightarrow> test_result" where
  "test_match at_first t [] = Full"
| "test_match at_first [] (d # ds) = (if at_first then Mismatch else Partial)"
| "test_match at_first (c # t) (d # ds) = (if c \<noteq> d then Mismatch else test_match False t ds)"

fun partial_search_from :: "nat \<Rightarrow> string \<Rightarrow> string \<Rightarrow> nat \<times> bool" where
  "partial_search_from i [] delim = (i, False)"
| "partial_search_from i (c # t) delim =
     (case test_match True (c # t) delim of
        Full \<Rightarrow> (i, True)
      | Partial \<Rightarrow> (i, False)
      | Mismatch \<Rightarrow> partial_search_from (Suc i) t delim)"

definition partial_search :: "string \<Rightarrow> string \<Rightarrow> nat \<times> bool" where
  "partial_search t delim = partial_search_from 0 t delim"

text \<open>
  The searches of the four operations: \<open>(n, True)\<close> is a match that ends at offset \<open>n\<close>, \<open>(n, False)\<close>
  says that the next search starts at offset \<open>n\<close>.
\<close>

type_synonym search = "string \<Rightarrow> nat \<times> bool"

fun find_char :: "char \<Rightarrow> search" where
  "find_char delim [] = (0, False)"
| "find_char delim (c # t) = (if c = delim then (1, True) else case find_char delim t of (n, f) \<Rightarrow> (Suc n, f))"

definition search_string :: "string \<Rightarrow> search" where
  "search_string delim t =
     (case partial_search t delim of
        (i, full) \<Rightarrow> if i \<noteq> length t \<and> full then (i + length delim, True) else (i, False))"

text \<open>\<open>regex_search\<close> with partial matches: whether the match is full, and where it starts and ends.\<close>

definition search_regex :: "(string \<Rightarrow> (bool \<times> nat \<times> nat) option) \<Rightarrow> search" where
  "search_regex regex t =
     (case regex t of
        Some (matched, i, j) \<Rightarrow> if matched then (j, True) else (i, False)
      | None \<Rightarrow> (length t, False))"

subsection \<open>The synchronous operations\<close>

partial_function (option) read_until_loop ::
  "search \<Rightarrow> (nat \<Rightarrow> 's \<Rightarrow> string \<times> error_code \<times> 's) \<Rightarrow> nat \<Rightarrow> streambuf \<Rightarrow> 's
     \<Rightarrow> (nat \<times> error_code \<times> streambuf \<times> 's) res option" where
  "read_until_loop match read_some search_position b s =
     (let r = match (drop search_position (sb_input b))
      in if snd r then Some (Inr (search_position + fst r, None, b, s))
         else if sb_size b = max_size b then Some (Inr (0, Some NotFound, b, s))
         else case prepare (read_size_helper b 65536) b of
                Inl e \<Rightarrow> Some (Inl e)
              | Inr (b, pos, n) \<Rightarrow>
                  (case read_some n s of
                     (d, ec, s) \<Rightarrow>
                       let b = commit (length d) (sb_write pos d b)
                       in if ec \<noteq> None then Some (Inr (0, ec, b, s))
                          else read_until_loop match read_some (search_position + fst r) b s))"

definition read_until_char where
  "read_until_char delim read_some b s = read_until_loop (find_char delim) read_some 0 b s"

definition read_until_string where
  "read_until_string delim read_some b s = read_until_loop (search_string delim) read_some 0 b s"

definition read_until_regex where
  "read_until_regex regex read_some b s = read_until_loop (search_regex regex) read_some 0 b s"

definition read_until_match where
  "read_until_match match_condition read_some b s = read_until_loop match_condition read_some 0 b s"

text \<open>The overloads without an error code throw it.\<close>

definition throw_error :: "string \<Rightarrow> (nat \<times> error_code \<times> 'b) res \<Rightarrow> (nat \<times> 'b) res" where
  "throw_error location r =
     ebind r (\<lambda>(n, ec, b). case ec of None \<Rightarrow> Inr (n, b) | Some e \<Rightarrow> Inl (Throw (AsioError e location)))"

definition read_until_char_throw where
  "read_until_char_throw delim read_some b s =
     map_option (throw_error ''read_until'') (read_until_char delim read_some b s)"

definition read_until_string_throw where
  "read_until_string_throw delim read_some b s =
     map_option (throw_error ''read_until'') (read_until_string delim read_some b s)"

definition read_until_regex_throw where
  "read_until_regex_throw regex read_some b s =
     map_option (throw_error ''read_until'') (read_until_regex regex read_some b s)"

definition read_until_match_throw where
  "read_until_match_throw match_condition read_some b s =
     map_option (throw_error ''read_until'') (read_until_match match_condition read_some b s)"

subsection \<open>The asynchronous operations\<close>

text \<open>
  The operation object is its search position; \<open>None\<close> is the value \<open>not_found\<close>. A call of \<open>operator()\<close>
  either starts a read of the stream into the prepared region or invokes the handler.
\<close>

datatype until_step =
    Start_read "nat option" streambuf nat nat
  | Complete error_code nat streambuf

definition until_search :: "search \<Rightarrow> nat option \<Rightarrow> streambuf \<Rightarrow> nat option \<times> nat" where
  "until_search match pos b =
     (let begin_pos = the pos; r = match (drop begin_pos (sb_input b))
      in if snd r then (Some (begin_pos + fst r), 0)
         else if sb_size b = max_size b then (None, 0)
         else (Some (begin_pos + fst r), read_size_helper b 65536))"

definition until_finish :: "error_code \<Rightarrow> nat option \<Rightarrow> streambuf \<Rightarrow> until_step" where
  "until_finish ec pos b =
     Complete (if pos = None then Some NotFound else ec)
       (if ec \<noteq> None \<or> pos = None then 0 else the pos) b"

definition until_continue :: "search \<Rightarrow> bool \<Rightarrow> error_code \<Rightarrow> nat option \<Rightarrow> streambuf \<Rightarrow> until_step res" where
  "until_continue match start ec pos b =
     (case until_search match pos b of
        (pos, bytes_to_read) \<Rightarrow>
          if \<not> start \<and> bytes_to_read = 0 then Inr (until_finish ec pos b)
          else ebind (prepare bytes_to_read b) (\<lambda>(b, at, n). Inr (Start_read pos b at n)))"

definition until_call ::
  "search \<Rightarrow> bool \<Rightarrow> error_code \<Rightarrow> nat \<Rightarrow> nat option \<Rightarrow> streambuf \<Rightarrow> until_step res" where
  "until_call match start ec bytes_transferred pos b =
     (if start then until_continue match True ec pos b
      else let b = commit bytes_transferred b
        in if ec \<noteq> None \<or> bytes_transferred = 0 then Inr (until_finish ec pos b)
           else until_continue match False ec pos b)"

text \<open>The operation together with a stream that completes its reads, up to the call of the handler.\<close>

type_synonym until_op = "bool \<Rightarrow> error_code \<Rightarrow> nat \<Rightarrow> nat option \<Rightarrow> streambuf \<Rightarrow> until_step res"

partial_function (option) until_run ::
  "until_op \<Rightarrow> (nat \<Rightarrow> 's \<Rightarrow> string \<times> error_code \<times> 's) \<Rightarrow> until_step res \<Rightarrow> 's
     \<Rightarrow> (nat \<times> error_code \<times> streambuf \<times> 's) res option" where
  "until_run call read_some step s =
     (case step of
        Inl e \<Rightarrow> Some (Inl e)
      | Inr st \<Rightarrow> (case st of
            Complete ec n b \<Rightarrow> Some (Inr (n, ec, b, s))
          | Start_read pos b at n \<Rightarrow>
              (case read_some n s of
                 (d, ec, s) \<Rightarrow> until_run call read_some (call False ec (length d) pos (sb_write at d b)) s)))"

definition async_read_until where
  "async_read_until call read_some b s = until_run call read_some (call True None 0 (Some 0) b) s"

text \<open>The four operation objects and the functions that start them.\<close>

definition until_call_char :: "char \<Rightarrow> until_op" where
  "until_call_char delim = until_call (find_char delim)"

definition until_call_string :: "string \<Rightarrow> until_op" where
  "until_call_string delim = until_call (search_string delim)"

definition until_call_regex :: "(string \<Rightarrow> (bool \<times> nat \<times> nat) option) \<Rightarrow> until_op" where
  "until_call_regex regex = until_call (search_regex regex)"

definition until_call_match :: "search \<Rightarrow> until_op" where
  "until_call_match match_condition = until_call match_condition"

definition async_read_until_char where
  "async_read_until_char delim = async_read_until (until_call_char delim)"

definition async_read_until_string where
  "async_read_until_string delim = async_read_until (until_call_string delim)"

definition async_read_until_regex where
  "async_read_until_regex regex = async_read_until (until_call_regex regex)"

definition async_read_until_match where
  "async_read_until_match match_condition = async_read_until (until_call_match match_condition)"

subsection \<open>What the searches find\<close>

definition occurs_at :: "string \<Rightarrow> string \<Rightarrow> nat \<Rightarrow> bool" where
  "occurs_at d t i \<longleftrightarrow> i + length d \<le> length t \<and> take (length d) (drop i t) = d"

definition is_prefix :: "string \<Rightarrow> string \<Rightarrow> bool" where
  "is_prefix u d \<longleftrightarrow> take (length u) d = u"

lemma test_full: "test_match f t d = Full \<longleftrightarrow> take (length d) t = d"
  by (induction f t d rule: test_match.induct) auto

lemma test_partial: "test_match f t d = Partial \<Longrightarrow> length t < length d \<and> is_prefix t d"
  by (induction f t d rule: test_match.induct) (auto simp: is_prefix_def split: if_splits)

lemma test_mismatch: "test_match f t d = Mismatch \<Longrightarrow> t \<noteq> [] \<or> \<not> f \<Longrightarrow>
    take (length d) (t @ u) \<noteq> d \<and> \<not> is_prefix t d"
  by (induction f t d rule: test_match.induct) (auto simp: is_prefix_def split: if_splits)

lemma partial_search_from_shift:
  "partial_search_from i t d = (case partial_search t d of (n, f) \<Rightarrow> (i + n, f))"
proof -
  have "partial_search_from (i + k) t d = (case partial_search_from k t d of (n, f) \<Rightarrow> (i + n, f))" for k
    by (induction t arbitrary: k) (auto split: test_result.splits simp flip: add_Suc_right)
  from this [of 0] show ?thesis by (simp add: partial_search_def)
qed

lemma partial_search_Cons:
  "partial_search (c # t) d =
     (case test_match True (c # t) d of
        Full \<Rightarrow> (0, True) | Partial \<Rightarrow> (0, False)
      | Mismatch \<Rightarrow> (case partial_search t d of (n, f) \<Rightarrow> (Suc n, f)))"
  using partial_search_from_shift [of "Suc 0" t d] by (simp add: partial_search_def split: test_result.splits)

lemma occurs_at_Suc [simp]: "occurs_at d (c # t) (Suc i) = occurs_at d t i"
  by (simp add: occurs_at_def)

lemma occurs_at_0: "occurs_at d t 0 \<longleftrightarrow> take (length d) t = d"
  by (auto simp: occurs_at_def dest: arg_cong [of _ _ length])

lemma partial_search_ok:
  assumes "d \<noteq> []"
  shows "case partial_search t d of (i, full) \<Rightarrow>
    if full then occurs_at d t i \<and> (\<forall>j<i. \<not> occurs_at d t j)
    else (\<forall>j. \<not> occurs_at d t j) \<and> i \<le> length t \<and> is_prefix (drop i t) d \<and> (\<forall>j<i. \<not> is_prefix (drop j t) d)
      \<and> (\<forall>u. \<forall>j<i. \<not> occurs_at d (t @ u) j)"
proof (induction t)
  case Nil
  then show ?case using assms by (simp add: partial_search_def occurs_at_def is_prefix_def)
next
  case (Cons c t)
  consider "test_match True (c # t) d = Full" | "test_match True (c # t) d = Partial" | "test_match True (c # t) d = Mismatch"
    by (cases "test_match True (c # t) d")
  then show ?case
  proof cases
    case 1
    then have "take (length d) (c # t) = d" by (simp only: test_full)
    with 1 show ?thesis by (simp add: partial_search_Cons occurs_at_0)
  next
    case 2
    then have "length (c # t) < length d \<and> is_prefix (c # t) d" by (rule test_partial)
    with 2 show ?thesis by (auto simp: partial_search_Cons occurs_at_def)
  next
    case 3
    obtain n f where nf: "partial_search t d = (n, f)" by (cases "partial_search t d")
    have mis: "\<not> occurs_at d (c # t @ u) 0" "\<not> is_prefix (c # t) d" for u
      using test_mismatch [OF 3, of u] by (simp_all add: occurs_at_0)
    have all: "(\<forall>j<Suc n. P j) \<longleftrightarrow> P 0 \<and> (\<forall>j<n. P (Suc j))" for P
      by (metis less_Suc_eq_0_disj)
    have "(\<forall>j. P j) \<longleftrightarrow> P 0 \<and> (\<forall>j. P (Suc j))" for P :: "nat \<Rightarrow> bool" by (metis nat.exhaust)
    then show ?thesis
      using Cons.IH nf 3 mis mis(1) [of "[]"]
      by (auto simp: partial_search_Cons all split: if_splits simp del: append_Cons simp: append_Cons)
  qed
qed

text \<open>
  \<open>partial_search\<close> finds the first occurrence of the delimiter; when there is none, it returns where
  the longest end of the data starts that the delimiter begins with, so a later search may start there.
\<close>

theorem partial_search_spec:
  assumes "d \<noteq> []" and "partial_search t d = (i, full)"
  shows "if full then occurs_at d t i \<and> (\<forall>j<i. \<not> occurs_at d t j)
    else (\<forall>j. \<not> occurs_at d t j) \<and> i \<le> length t \<and> is_prefix (drop i t) d \<and> (\<forall>j<i. \<not> is_prefix (drop j t) d)"
  using partial_search_ok [OF assms(1), of t] assms(2) by (auto split: if_splits)

theorem partial_search_spec_witness:
  "partial_search [CHR ''a'', CR, CHR ''b'', CR] [CR, LF] = (3, False) \<and> is_prefix [CR] [CR, LF]"
proof -
  have r: "partial_search [CHR ''a'', CR, CHR ''b'', CR] [CR, LF] = (3, False)" by code_simp
  show ?thesis using partial_search_spec [OF _ r] r by simp
qed

text \<open>The end of the first occurrence, and the contract of a search that can be resumed.\<close>

fun find_string :: "string \<Rightarrow> string \<Rightarrow> nat option" where
  "find_string d [] = (if d = [] then Some 0 else None)"
| "find_string d (c # t) = (if is_prefix d (c # t) then Some (length d) else map_option Suc (find_string d t))"

lemma find_string_Some: "occurs_at d t i \<Longrightarrow> \<forall>j<i. \<not> occurs_at d t j \<Longrightarrow> find_string d t = Some (i + length d)"
proof (induction t arbitrary: i)
  case Nil
  then show ?case by (auto simp: occurs_at_def)
next
  case (Cons c t)
  show ?case
  proof (cases i)
    case 0
    with Cons.prems show ?thesis by (simp add: occurs_at_0 is_prefix_def)
  next
    case (Suc k)
    then have "\<not> occurs_at d (c # t) 0" "\<forall>j<k. \<not> occurs_at d t j" using Cons.prems(2) by auto
    with Suc Cons.prems(1) Cons.IH [of k] show ?thesis by (simp add: occurs_at_0 is_prefix_def)
  qed
qed

lemma find_string_skip:
  "n \<le> length t \<Longrightarrow> \<forall>j<n. \<not> occurs_at d t j \<Longrightarrow> find_string d t = map_option ((+) n) (find_string d (drop n t))"
proof (induction n arbitrary: t)
  case 0
  then show ?case by (simp add: option.map_ident)
next
  case (Suc n)
  then obtain c t' where t: "t = c # t'" by (cases t) auto
  have "\<not> occurs_at d t 0" "\<forall>j<n. \<not> occurs_at d t' j" using Suc.prems(2) unfolding t by auto
  with Suc.IH [of t'] Suc.prems(1) show ?case
    unfolding t by (simp add: occurs_at_0 is_prefix_def option.map_comp comp_def)
qed

lemma find_string_None: "find_string d t = None \<longleftrightarrow> (\<forall>j. \<not> occurs_at d t j)"
proof (induction t)
  case Nil
  then show ?case by (auto simp: occurs_at_def)
next
  case (Cons c t)
  have "(\<forall>j. \<not> occurs_at d (c # t) j) \<longleftrightarrow> \<not> occurs_at d (c # t) 0 \<and> (\<forall>j. \<not> occurs_at d t j)"
    by (metis nat.exhaust occurs_at_Suc)
  with Cons show ?case by (auto simp: occurs_at_0 is_prefix_def)
qed

locale resumable_search =
  fixes match :: search and found :: "string \<Rightarrow> nat option"
  assumes match_found: "match t = (n, True) \<Longrightarrow> found t = Some n"
    and match_none: "match t = (n, False) \<Longrightarrow> found t = None \<and> n \<le> length t"
    and match_resume: "match t = (n, False) \<Longrightarrow> found (t @ u) = map_option ((+) n) (found (drop n t @ u))"

lemma search_string_found:
  assumes "d \<noteq> []"
  shows "resumable_search (search_string d) (find_string d)"
proof
  fix t n u
  obtain i f where r: "partial_search t d = (i, f)" by (cases "partial_search t d")
  note ok = partial_search_ok [OF assms, of t, unfolded r]
  {
    assume "search_string d t = (n, True)"
    with r have "f" "n = i + length d" by (auto simp: search_string_def split: if_splits)
    with ok show "find_string d t = Some n" by (simp add: find_string_Some)
  }
  assume "search_string d t = (n, False)"
  moreover have "f \<Longrightarrow> i \<noteq> length t" using ok assms by (auto simp: occurs_at_def)
  ultimately have n: "\<not> f" "n = i" using r by (auto simp: search_string_def split: if_splits)
  with ok show "find_string d t = None \<and> n \<le> length t" by (simp add: find_string_None)
  have "find_string d (t @ u) = map_option ((+) n) (find_string d (drop n (t @ u)))"
    using ok n by (intro find_string_skip) auto
  then show "find_string d (t @ u) = map_option ((+) n) (find_string d (drop n t @ u))"
    using ok n by simp
qed

interpretation crlf_search: resumable_search "search_string [CR, LF]" "find_string [CR, LF]"
  by (rule search_string_found) simp

lemma find_char_ok:
  "find_char c t = (n, f) \<Longrightarrow>
     (f \<longrightarrow> find_string [c] t = Some n) \<and> (\<not> f \<longrightarrow> c \<notin> set t \<and> n = length t)"
  by (induction t arbitrary: n f) (auto simp: is_prefix_def split: if_splits prod.splits)

lemma find_string_char_None: "find_string [c] t = None \<longleftrightarrow> c \<notin> set t"
  by (induction t) (auto simp: is_prefix_def)

interpretation char_search: resumable_search "find_char c" "find_string [c]" for c
proof
  fix t n u
  show "find_char c t = (n, True) \<Longrightarrow> find_string [c] t = Some n" by (simp add: find_char_ok)
  assume r: "find_char c t = (n, False)"
  then have n: "c \<notin> set t" "n = length t" using find_char_ok [OF r] by auto
  then show "find_string [c] t = None \<and> n \<le> length t" by (simp add: find_string_char_None)
  have "\<forall>j<n. \<not> occurs_at [c] (t @ u) j"
    using n by (auto simp: occurs_at_def take_Suc hd_drop_conv_nth nth_append)
  then have "find_string [c] (t @ u) = map_option ((+) n) (find_string [c] (drop n (t @ u)))"
    using n by (intro find_string_skip) auto
  then show "find_string [c] (t @ u) = map_option ((+) n) (find_string [c] (drop n t @ u))"
    using n by simp
qed

subsection \<open>The loops end and lose nothing\<close>

lemma read_size_positive:
  assumes "sb_inv b" and "sb_size b \<noteq> max_size b"
  shows "0 < read_size_helper b 65536 \<and> read_size_helper b 65536 \<le> 65536
    \<and> sb_size b + read_size_helper b 65536 \<le> sb_max b"
  using assms sb_size_le [OF assms(1)] by (auto simp: read_size_helper_def max_size_def)

definition until_ok ::
  "(string \<Rightarrow> nat option) \<Rightarrow> ('s \<Rightarrow> string) \<Rightarrow> streambuf \<Rightarrow> 's \<Rightarrow> nat \<times> error_code \<times> streambuf \<times> 's \<Rightarrow> bool" where
  "until_ok found incoming b s r = (case r of (n, ec, b', s') \<Rightarrow>
     sb_inv b' \<and> sb_max b' = sb_max b \<and> sb_input b' @ incoming s' = sb_input b @ incoming s
     \<and> (\<exists>d. sb_input b' = sb_input b @ d)
     \<and> (case ec of None \<Rightarrow> found (sb_input b') = Some n | Some e \<Rightarrow> n = 0 \<and> found (sb_input b') = None))"

text \<open>One round that has not found the end and reads from the stream.\<close>

lemma prepare_fill:
  assumes "fill_streambuf n d b = Inr b'"
  shows "\<exists>b1 pos. prepare n b = Inr (b1, pos, n) \<and> b' = commit (length d) (sb_write pos d b1)"
  using assms by (auto simp: fill_streambuf_def prepare_def ebind_Inr_iff)

lemma map_option_add [simp]:
  "map_option ((+) (0::nat)) x = x" "map_option ((+) m) (map_option ((+) n) y) = map_option ((+) (m + n)) (y :: nat option)"
  by (cases x; simp) (cases y; simp)

locale read_until_stream = read_stream + resumable_search
begin

definition searched :: "nat \<Rightarrow> string \<Rightarrow> bool" where
  "searched pos t \<longleftrightarrow> pos \<le> length t \<and> (\<forall>u. found (t @ u) = map_option ((+) pos) (found (drop pos t @ u)))"

lemma searched_0 [simp]: "searched 0 t"
  by (simp add: searched_def)

lemma searched_append: "searched pos t \<Longrightarrow> searched pos (t @ d)"
  by (simp add: searched_def)

lemma searched_next:
  assumes "searched pos t" and "match (drop pos t) = (n, False)"
  shows "searched (pos + n) t \<and> found t = None"
proof -
  have f: "found (t @ u) = map_option ((+) (pos + n)) (found (drop (pos + n) t @ u))" for u
    using assms match_resume [OF assms(2), of u] by (simp add: searched_def add.commute [of n])
  have n: "found (drop pos t) = None" "n \<le> length (drop pos t)" using match_none [OF assms(2)] by simp_all
  have "found t = map_option ((+) pos) (found (drop pos t))" using assms(1) by (simp add: searched_def) (metis append_Nil2)
  moreover have "pos + n \<le> length t" using n(2) assms(1) by (auto simp: searched_def)
  ultimately show ?thesis using f n(1) by (simp add: searched_def)
qed

lemma searched_found:
  assumes "searched pos t" and "match (drop pos t) = (n, True)"
  shows "found t = Some (pos + n)"
proof -
  have "found (t @ []) = map_option ((+) pos) (found (drop pos t @ []))" using assms(1) unfolding searched_def by blast
  then show ?thesis using match_found [OF assms(2)] by simp
qed

lemma fill_from_stream:
  assumes inv: "sb_inv b" and more: "sb_size b \<noteq> max_size b"
    and r: "read_some (read_size_helper b 65536) s = (d, ec, s')"
  shows "\<exists>b1 pos b'. prepare (read_size_helper b 65536) b = Inr (b1, pos, read_size_helper b 65536)
    \<and> b' = commit (length d) (sb_write pos d b1)
    \<and> sb_inv b' \<and> sb_max b' = sb_max b \<and> sb_input b' = sb_input b @ d \<and> (ec = None \<longrightarrow> d \<noteq> [])
    \<and> sb_input b' @ incoming s' = sb_input b @ incoming s"
proof -
  let ?n = "read_size_helper b 65536"
  have n: "0 < ?n" "?n \<le> INT_MAX" "sb_size b + ?n \<le> sb_max b" using read_size_positive [OF inv more] by auto
  obtain b' where b': "fill_streambuf ?n d b = Inr b'" "sb_inv b'" "sb_max b' = sb_max b" "sb_input b' = sb_input b @ d"
    using fill_streambuf_ok [OF inv read_length [OF r] n(2,3)] by auto
  obtain b1 pos where "prepare ?n b = Inr (b1, pos, ?n)" "b' = commit (length d) (sb_write pos d b1)"
    using prepare_fill [OF b'(1)] by blast
  moreover have "ec = None \<longrightarrow> d \<noteq> []" using read_progress r n(1) by blast
  ultimately show ?thesis using b' read_incoming [OF r] by auto
qed

lemma read_until_loop_ok:
  "sb_inv b \<Longrightarrow> searched pos (sb_input b) \<Longrightarrow>
     \<exists>r. read_until_loop match read_some pos b s = Some (Inr r) \<and> until_ok found incoming b s r"
proof (induction "sb_max b - sb_size b" arbitrary: b pos s rule: less_induct)
  case less
  obtain n f where m: "match (drop pos (sb_input b)) = (n, f)" by (cases "match (drop pos (sb_input b))")
  show ?case
  proof (cases "f \<or> sb_size b = max_size b")
    case True
    then show ?thesis
      using less.prems m searched_found [of pos "sb_input b" n] searched_next [of pos "sb_input b" n]
      by (subst read_until_loop.simps) (auto simp: until_ok_def Let_def)
  next
    case False
    then have m': "match (drop pos (sb_input b)) = (n, False)" and more: "sb_size b \<noteq> max_size b" using m by auto
    have next_pos: "searched (pos + n) (sb_input b)" "found (sb_input b) = None"
      using searched_next [OF less.prems(2) m'] by auto
    obtain d ec s' where r: "read_some (read_size_helper b 65536) s = (d, ec, s')" by (metis prod_cases3)
    obtain b1 p b' where b': "prepare (read_size_helper b 65536) b = Inr (b1, p, read_size_helper b 65536)"
      "b' = commit (length d) (sb_write p d b1)" "sb_inv b'" "sb_max b' = sb_max b" "sb_input b' = sb_input b @ d"
      "ec = None \<longrightarrow> d \<noteq> []" "sb_input b' @ incoming s' = sb_input b @ incoming s"
      using fill_from_stream [OF less.prems(1) more r] by blast
    show ?thesis
    proof (cases ec)
      case None
      have size: "sb_size b' = sb_size b + length d" "sb_size b' \<le> sb_max b'"
        using b'(3,5) less.prems(1) sb_input_length [of b] sb_input_length [of b'] sb_size_le [of b'] by simp_all
      have "sb_max b' - sb_size b' < sb_max b - sb_size b"
        using size b'(4,6) None by (cases d) auto
      moreover have "searched (pos + n) (sb_input b')" using searched_append [OF next_pos(1)] b'(5) by simp
      ultimately obtain q where "read_until_loop match read_some (pos + n) b' s' = Some (Inr q)" "until_ok found incoming b' s' q"
        using less.hyps b'(3) by blast
      then show ?thesis
        using m' more r b' None by (subst read_until_loop.simps) (auto simp: until_ok_def Let_def)
    next
      case (Some e)
      have "read_until_loop match read_some pos b s = Some (Inr (0, ec, b', s'))"
        using m' more r b'(1,2) Some by (subst read_until_loop.simps) (simp add: Let_def)
      moreover have "d = []" using read_error r Some by blast
      ultimately show ?thesis using b' next_pos Some by (auto simp: until_ok_def)
    qed
  qed
qed

end

context read_until_stream
begin

lemma until_run_loop:
  "sb_inv b \<Longrightarrow> searched pos (sb_input b) \<Longrightarrow>
     until_run (until_call match) read_some (until_continue match False None (Some pos) b) s = read_until_loop match read_some pos b s"
proof (induction "sb_max b - sb_size b" arbitrary: b pos s rule: less_induct)
  case less
  obtain n f where m: "match (drop pos (sb_input b)) = (n, f)" by (cases "match (drop pos (sb_input b))")
  show ?case
  proof (cases "f \<or> sb_size b = max_size b")
    case True
    then show ?thesis using m
      by (subst read_until_loop.simps, subst until_run.simps)
        (auto simp: until_continue_def until_search_def until_finish_def Let_def)
  next
    case False
    then have m': "match (drop pos (sb_input b)) = (n, False)" and more: "sb_size b \<noteq> max_size b" using m by auto
    have next_pos: "searched (pos + n) (sb_input b)" using searched_next [OF less.prems(2) m'] by auto
    have pos: "0 < read_size_helper b 65536" using read_size_positive [OF less.prems(1) more] by simp
    obtain d ec s' where r: "read_some (read_size_helper b 65536) s = (d, ec, s')" by (metis prod_cases3)
    obtain b1 p b' where b': "prepare (read_size_helper b 65536) b = Inr (b1, p, read_size_helper b 65536)"
      "b' = commit (length d) (sb_write p d b1)" "sb_inv b'" "sb_max b' = sb_max b" "sb_input b' = sb_input b @ d"
      "ec = None \<longrightarrow> d \<noteq> []"
      using fill_from_stream [OF less.prems(1) more r] by blast
    have start: "until_continue match False None (Some pos) b
        = Inr (Start_read (Some (pos + n)) b1 p (read_size_helper b 65536))"
      using m' more b'(1) pos by (simp add: until_continue_def until_search_def Let_def)
    have run: "until_run (until_call match) read_some (until_continue match False None (Some pos) b) s
        = until_run (until_call match) read_some (until_call match False ec (length d) (Some (pos + n)) (sb_write p d b1)) s'"
      unfolding start by (subst until_run.simps) (simp add: r)
    show ?thesis
    proof (cases ec)
      case None
      have size: "sb_size b' = sb_size b + length d" "sb_size b' \<le> sb_max b'"
        using b'(3,5) less.prems(1) sb_input_length [of b] sb_input_length [of b'] sb_size_le [of b'] by simp_all
      have "sb_max b' - sb_size b' < sb_max b - sb_size b" using size b'(4,6) None by (cases d) auto
      moreover have "searched (pos + n) (sb_input b')" using searched_append [OF next_pos] b'(5) by simp
      ultimately have "until_run (until_call match) read_some (until_continue match False None (Some (pos + n)) b') s'
          = read_until_loop match read_some (pos + n) b' s'"
        using less.hyps b'(3) by blast
      moreover have "until_call match False ec (length d) (Some (pos + n)) (sb_write p d b1)
          = until_continue match False None (Some (pos + n)) b'"
        using None b'(2,6) by (simp add: until_call_def Let_def)
      moreover have "read_until_loop match read_some pos b s = read_until_loop match read_some (pos + n) b' s'"
        using m' more r b'(1,2) None by (subst read_until_loop.simps) (simp add: Let_def)
      ultimately show ?thesis using run by simp
    next
      case (Some e)
      have "read_until_loop match read_some pos b s = Some (Inr (0, ec, b', s'))"
        using m' more r b'(1,2) Some by (subst read_until_loop.simps) (simp add: Let_def)
      moreover have "until_call match False ec (length d) (Some (pos + n)) (sb_write p d b1) = Inr (Complete ec 0 b')"
        using Some b'(2) by (simp add: until_call_def until_finish_def Let_def)
      ultimately show ?thesis using run by (subst (asm) (2) until_run.simps) simp
    qed
  qed
qed

lemma async_read_until_ok:
  assumes inv: "sb_inv b" and zero: "read_some 0 s = ([], None, s)"
  shows "\<exists>n ec b1 b2 s'. read_until_loop match read_some 0 b s = Some (Inr (n, ec, b1, s'))
    \<and> async_read_until (until_call match) read_some b s = Some (Inr (n, ec, b2, s')) \<and> sb_input b2 = sb_input b1
    \<and> sb_inv b2 \<and> sb_max b2 = sb_max b"
proof -
  obtain n f where m: "match (sb_input b) = (n, f)" by (cases "match (sb_input b)")
  show ?thesis
  proof (cases "f \<or> sb_size b = max_size b")
    case True
    define q where "q = (if f then Some n else None)"
    have p: "prepare 0 b = Inr (b, nat (sb_pnext b), 0)" by (simp add: prepare_def reserve_def Let_def)
    have w: "commit 0 (sb_write (nat (sb_pnext b)) [] b) = b\<lparr>sb_gend := sb_pnext b\<rparr>"
      using inv by (simp add: commit_def sb_write_def pbump_def to_int_def sb_inv_def Let_def)
    have "until_call match True None 0 (Some 0) b = Inr (Start_read q b (nat (sb_pnext b)) 0)"
      using True m p by (auto simp: until_call_def until_continue_def until_search_def q_def Let_def)
    then have "async_read_until (until_call match) read_some b s
        = until_run (until_call match) read_some (until_call match False None 0 q (sb_write (nat (sb_pnext b)) [] b)) s"
      unfolding async_read_until_def by (subst until_run.simps) (simp add: zero)
    also have "until_call match False None 0 q (sb_write (nat (sb_pnext b)) [] b)
        = Inr (Complete (if f then None else Some NotFound) (if f then n else 0) (b\<lparr>sb_gend := sb_pnext b\<rparr>))"
      using w by (simp add: until_call_def until_finish_def q_def Let_def)
    also have "until_run (until_call match) read_some \<dots> s
        = Some (Inr (if f then n else 0, if f then None else Some NotFound, b\<lparr>sb_gend := sb_pnext b\<rparr>, s))"
      by (subst until_run.simps) simp
    finally have "async_read_until (until_call match) read_some b s
        = Some (Inr (if f then n else 0, if f then None else Some NotFound, b\<lparr>sb_gend := sb_pnext b\<rparr>, s))" .
    moreover have "read_until_loop match read_some 0 b s
        = Some (Inr (if f then n else 0, if f then None else Some NotFound, b, s))"
      using True m by (subst read_until_loop.simps) (auto simp: Let_def)
    moreover have "sb_input (b\<lparr>sb_gend := sb_pnext b\<rparr>) = sb_input b"
      by (simp add: sb_input_def sb_data_def sb_size_def)
    moreover have "sb_inv (b\<lparr>sb_gend := sb_pnext b\<rparr>) \<and> sb_max (b\<lparr>sb_gend := sb_pnext b\<rparr>) = sb_max b"
      using inv by (simp add: sb_inv_def)
    ultimately show ?thesis by blast
  next
    case False
    then have "0 < read_size_helper b 65536" using read_size_positive [OF inv] by simp
    then have "until_call match True None 0 (Some 0) b = until_continue match False None (Some 0) b"
      using False m by (simp add: until_call_def until_continue_def until_search_def Let_def)
    then have eq: "async_read_until (until_call match) read_some b s = read_until_loop match read_some 0 b s"
      using until_run_loop [OF inv searched_0] by (simp add: async_read_until_def)
    obtain r where "read_until_loop match read_some 0 b s = Some (Inr r)" "until_ok found incoming b s r"
      using read_until_loop_ok [OF inv searched_0] by blast
    then show ?thesis using eq by (cases r) (auto simp: until_ok_def)
  qed
qed

text \<open>A stream that fails: the operation ends with an error after one read and leaves the input.\<close>

lemma async_read_until_fails:
  assumes inv: "sb_inv b" and fails: "\<And>n. read_some n s = ([], Some e, s)"
  shows "\<exists>ec b'. async_read_until (until_call match) read_some b s = Some (Inr (0, Some ec, b', s))
    \<and> sb_inv b' \<and> sb_input b' = sb_input b"
proof -
  obtain pos k where k: "until_search match (Some 0) b = (pos, k)" by (cases "until_search match (Some 0) b")
  have "k = 0 \<or> k = read_size_helper b 65536 \<and> sb_size b \<noteq> max_size b"
    using k by (auto simp: until_search_def Let_def split: if_splits)
  then obtain b1 at b' where b': "prepare k b = Inr (b1, at, k)" "b' = commit 0 (sb_write at [] b1)" "sb_inv b'" "sb_input b' = sb_input b"
  proof (elim disjE)
    assume "k = 0"
    then have p: "prepare k b = Inr (b, nat (sb_pnext b), k)" by (simp add: prepare_def reserve_def Let_def)
    have w: "commit 0 (sb_write (nat (sb_pnext b)) [] b) = b\<lparr>sb_gend := sb_pnext b\<rparr>"
      using inv by (simp add: commit_def sb_write_def pbump_def to_int_def sb_inv_def Let_def)
    have "sb_input (b\<lparr>sb_gend := sb_pnext b\<rparr>) = sb_input b" "sb_inv (b\<lparr>sb_gend := sb_pnext b\<rparr>)"
      using inv by (simp_all add: sb_input_def sb_data_def sb_size_def sb_inv_def)
    then show thesis using that [OF p w [symmetric]] by simp
  next
    assume "k = read_size_helper b 65536 \<and> sb_size b \<noteq> max_size b"
    then show thesis using that fill_from_stream [OF inv _ fails] by auto
  qed
  have "until_call match True None 0 (Some 0) b = Inr (Start_read pos b1 at k)"
    using k b'(1) by (simp add: until_call_def until_continue_def)
  then have "async_read_until (until_call match) read_some b s
      = until_run (until_call match) read_some (until_call match False (Some e) 0 pos (sb_write at [] b1)) s"
    unfolding async_read_until_def by (subst until_run.simps) (simp add: fails)
  also have "until_call match False (Some e) 0 pos (sb_write at [] b1)
      = Inr (Complete (if pos = None then Some NotFound else Some e) 0 b')"
    using b'(2) by (simp add: until_call_def until_finish_def Let_def)
  finally show ?thesis using b'(3,4) by (subst (asm) until_run.simps) auto
qed

end

text \<open>What every read of the stream keeps, the operation keeps.\<close>

lemma until_run_keeps:
  fixes Q :: "'s \<Rightarrow> bool"
  assumes keeps: "\<And>n s d ec s'. read_some n s = (d, ec, s') \<Longrightarrow> Q s \<Longrightarrow> Q s'"
    and r: "until_run call read_some step s = Some (Inr (n, ec, b, s'))" and s: "Q s"
  shows "Q s'"
proof -
  define P where "P = (\<lambda>(call :: until_op) rs (step :: until_step res) s (y :: (nat \<times> error_code \<times> streambuf \<times> 's) res).
     rs = read_some \<longrightarrow> Q s \<longrightarrow> (\<forall>n ec b s'. y = Inr (n, ec, b, s') \<longrightarrow> Q s'))"
  have "P call read_some step s (Inr (n, ec, b, s'))"
  proof (rule until_run.raw_induct [where P = P, OF _ r])
    fix run call rs step s y
    assume IH: "\<And>call rs step s y. run call rs step s = Some y \<Longrightarrow> P call rs step s y"
      and y: "(case step of Inl e \<Rightarrow> Some (Inl e)
        | Inr (Start_read pos b at n) \<Rightarrow>
            (case rs n s of (d, ec, s) \<Rightarrow> run call rs (call False ec (length d) pos (sb_write at d b)) s)
        | Inr (Complete ec n b) \<Rightarrow> Some (Inr (n, ec, b, s))) = Some y"
    show "P call rs step s y" unfolding P_def
    proof (intro impI allI)
      fix n ec b s'
      assume "rs = read_some" "Q s" "y = Inr (n, ec, b, s')"
      with y show "Q s'"
        by (auto split: sum.splits until_step.splits prod.splits dest!: IH dest: keeps simp: P_def)
    qed
  qed
  then show ?thesis using s by (simp add: P_def)
qed

text \<open>The two interfaces discharged for the TCP socket and the searches of the library.\<close>

interpretation tcp_line: read_until_stream tcp_read_some socket_incoming "search_string [CR, LF]" "find_string [CR, LF]"
  by unfold_locales

interpretation tcp_char: read_until_stream tcp_read_some socket_incoming "find_char c" "find_string [c]" for c
  by unfold_locales

lemma tcp_string_stream: "d \<noteq> [] \<Longrightarrow> read_until_stream tcp_read_some socket_incoming (search_string d) (find_string d)"
  by (intro read_until_stream.intro tcp_in.read_stream_axioms search_string_found)

text \<open>
  And for the asynchronous reads of the socket, which wait and retry where the synchronous one fails.
\<close>

interpretation tcp_async_line: read_until_stream tcp_async_read_some socket_incoming "search_string [CR, LF]" "find_string [CR, LF]"
  by unfold_locales

lemma tcp_async_string_stream:
  "d \<noteq> [] \<Longrightarrow> read_until_stream tcp_async_read_some socket_incoming (search_string d) (find_string d)"
  by (intro read_until_stream.intro tcp_async_in.read_stream_axioms search_string_found)

text \<open>The loop over two streams that answer alike, and the errors it can end with.\<close>

lemma read_until_loop_map:
  fixes f :: "'s \<Rightarrow> 't"
  assumes alike: "\<And>n s d ec s'. read_some n s = (d, ec, s') \<Longrightarrow> read_other n (f s) = (d, ec, f s')"
    and r: "read_until_loop match read_some pos b s = Some (Inr (n, ec, b', s'))"
  shows "read_until_loop match read_other pos b (f s) = Some (Inr (n, ec, b', f s'))"
proof -
  define P where "P = (\<lambda>(m :: search) rs pos b s (y :: (nat \<times> error_code \<times> streambuf \<times> 's) res).
     rs = read_some \<longrightarrow> (\<forall>n ec b' s'. y = Inr (n, ec, b', s') \<longrightarrow>
       read_until_loop m read_other pos b (f s) = Some (Inr (n, ec, b', f s'))))"
  have "P match read_some pos b s (Inr (n, ec, b', s'))"
  proof (rule read_until_loop.raw_induct [where P = P, OF _ r])
    fix loop m rs pos b s y
    assume IH: "\<And>m rs pos b s y. loop m rs pos b s = Some y \<Longrightarrow> P m rs pos b s y"
      and y: "(let r = m (drop pos (sb_input b))
        in if snd r then Some (Inr (pos + fst r, None, b, s))
           else if sb_size b = max_size b then Some (Inr (0, Some NotFound, b, s))
           else case prepare (read_size_helper b 65536) b of
                  Inl e \<Rightarrow> Some (Inl e)
                | Inr (b, at, n) \<Rightarrow>
                    (case rs n s of
                       (d, ec, s) \<Rightarrow>
                         let b = commit (length d) (sb_write at d b)
                         in if ec \<noteq> None then Some (Inr (0, ec, b, s))
                            else loop m rs (pos + fst r) b s)) = Some y"
    show "P m rs pos b s y" unfolding P_def
    proof (intro impI allI)
      fix n ec b' s'
      assume "rs = read_some" "y = Inr (n, ec, b', s')"
      with y show "read_until_loop m read_other pos b (f s) = Some (Inr (n, ec, b', f s'))"
        by (subst read_until_loop.simps)
          (auto simp: Let_def P_def split: if_splits sum.splits prod.splits dest!: IH dest: alike)
    qed
  qed
  then show ?thesis by (simp add: P_def)
qed

lemma read_until_loop_error:
  assumes fails: "\<And>n s d e s'. read_some n s = (d, Some e, s') \<Longrightarrow> R e" and "R NotFound"
    and r: "read_until_loop match read_some pos b s = Some (Inr (n, Some e, b', s'))"
  shows "R e"
proof -
  define P where "P = (\<lambda>(m :: search) rs (pos :: nat) (b :: streambuf) (s :: 'a) (y :: (nat \<times> error_code \<times> streambuf \<times> 'a) res).
     rs = read_some \<longrightarrow> (\<forall>n e b' s'. y = Inr (n, Some e, b', s') \<longrightarrow> R e))"
  have "P match read_some pos b s (Inr (n, Some e, b', s'))"
  proof (rule read_until_loop.raw_induct [where P = P, OF _ r])
    fix loop m rs pos b s y
    assume IH: "\<And>m rs pos b s y. loop m rs pos b s = Some y \<Longrightarrow> P m rs pos b s y"
      and y: "(let r = m (drop pos (sb_input b))
        in if snd r then Some (Inr (pos + fst r, None, b, s))
           else if sb_size b = max_size b then Some (Inr (0, Some NotFound, b, s))
           else case prepare (read_size_helper b 65536) b of
                  Inl e \<Rightarrow> Some (Inl e)
                | Inr (b, at, n) \<Rightarrow>
                    (case rs n s of
                       (d, ec, s) \<Rightarrow>
                         let b = commit (length d) (sb_write at d b)
                         in if ec \<noteq> None then Some (Inr (0, ec, b, s))
                            else loop m rs (pos + fst r) b s)) = Some y"
    show "P m rs pos b s y" unfolding P_def
    proof (intro impI allI)
      fix n e b' s'
      assume "rs = read_some" "y = Inr (n, Some e, b', s')"
      with y show "R e"
        by (auto simp: Let_def P_def \<open>R NotFound\<close> split: if_splits sum.splits prod.splits dest!: IH dest: fails)
    qed
  qed
  then show ?thesis by (simp add: P_def)
qed

lemma find_string_first:
  "find_string d t = Some n \<Longrightarrow> \<exists>i. n = i + length d \<and> occurs_at d t i \<and> (\<forall>j<i. \<not> occurs_at d t j)"
proof -
  assume n: "find_string d t = Some n"
  then have "\<exists>i. occurs_at d t i" using find_string_None [of d t] by auto
  then obtain i where i: "occurs_at d t i" "\<forall>j<i. \<not> occurs_at d t j"
    using exists_least_iff [of "occurs_at d t"] by blast
  then show ?thesis using n find_string_Some [OF i] by auto
qed

text \<open>
  C33. \<open>read_until\<close> with a delimiter on a TCP socket always returns, whatever the socket delivers: either
  with the offset just behind the first delimiter in the buffer, or with an error and no delimiter in the
  buffer; every byte the socket delivers is in the buffer or still to come, in order.
\<close>

theorem read_until_string_spec:
  assumes "d \<noteq> []" and "sb_inv b"
  shows "\<exists>n ec b' s'. read_until_string d tcp_read_some b s = Some (Inr (n, ec, b', s'))
    \<and> sb_input b' @ socket_incoming s' = sb_input b @ socket_incoming s
    \<and> (case ec of
         None \<Rightarrow> (\<exists>i. n = i + length d \<and> occurs_at d (sb_input b') i \<and> (\<forall>j<i. \<not> occurs_at d (sb_input b') j))
       | Some e \<Rightarrow> n = 0 \<and> (\<forall>j. \<not> occurs_at d (sb_input b') j))"
proof -
  note st = tcp_string_stream [OF assms(1)]
  obtain r where r: "read_until_loop (search_string d) tcp_read_some 0 b s = Some (Inr r)"
    "until_ok (find_string d) socket_incoming b s r"
    using read_until_stream.read_until_loop_ok [OF st assms(2) read_until_stream.searched_0 [OF st]] by blast
  obtain n ec b' s' where [simp]: "r = (n, ec, b', s')" by (metis prod_cases4)
  show ?thesis
    using r find_string_first [of d "sb_input b'" n] find_string_None [of d "sb_input b'"]
    by (intro exI [of _ n] exI [of _ ec] exI [of _ b'] exI [of _ s'])
      (auto simp: read_until_string_def until_ok_def split: option.splits)
qed

definition two_packets :: recv_socket where
  "two_packets = \<lparr>rs_open = True, rs_stream = True, rs_non_blocking = False,
     rs_os = [RecvFails WouldBlock None, Got (CHR ''a'') [CR], Got LF ''b'']\<rparr>"

theorem read_until_string_spec_witness:
  "\<exists>n ec b' s'. read_until_string [CR, LF] tcp_read_some (new_streambuf 512) two_packets = Some (Inr (n, ec, b', s'))
    \<and> sb_input b' @ socket_incoming s' = [CHR ''a'', CR, LF, CHR ''b'']"
proof -
  have "socket_incoming two_packets = [CHR ''a'', CR, LF, CHR ''b'']"
    by (simp add: socket_incoming_def two_packets_def)
  then show ?thesis
    using read_until_string_spec [of "[CR, LF]" "new_streambuf 512" two_packets] new_streambuf_ok [of 512] by auto
qed

text \<open>
  C34. \<open>async_read_until\<close> on a TCP socket, the operation that is suspended at every read and whose reads wait in
  the reactor while they would block and go on when a signal interrupts them, always calls its handler, and never
  with an error that asks the caller to try again, whatever the socket answers. Its result is the one \<open>read_until\<close>
  returns on a blocking socket with the same answers when no call is interrupted and no wait fails: the same number,
  the same error, the same input, and what the two leave to be read is the same.
\<close>

theorem async_read_until_equals_sync:
  assumes "d \<noteq> []" and "sb_inv b" and "rs_open s" and "rs_stream s"
  shows "\<exists>n ec b1 b2 s'. async_read_until_string d tcp_async_read_some b s = Some (Inr (n, ec, b2, s'))
    \<and> (\<forall>e. ec = Some e \<longrightarrow> e \<noteq> WouldBlock \<and> e \<noteq> TryAgain \<and> e \<noteq> Interrupted)
    \<and> read_until_string d tcp_read_some b (quiet_socket s) = Some (Inr (n, ec, b1, quiet_socket s'))
    \<and> sb_input b2 = sb_input b1"
proof -
  have "tcp_async_read_some 0 s = ([], None, s)"
    using assms(3,4) by (cases s) (simp add: tcp_async_read_some_def async_recv_def)
  then obtain n ec b1 b2 s' where loop: "read_until_loop (search_string d) tcp_async_read_some 0 b s = Some (Inr (n, ec, b1, s'))"
    and run: "async_read_until (until_call (search_string d)) tcp_async_read_some b s = Some (Inr (n, ec, b2, s'))"
    and input: "sb_input b2 = sb_input b1"
    using read_until_stream.async_read_until_ok [OF tcp_async_string_stream [OF assms(1)] assms(2)] by blast
  have "read_until_loop (search_string d) tcp_read_some 0 b (quiet_socket s) = Some (Inr (n, ec, b1, quiet_socket s'))"
    by (rule read_until_loop_map [where read_some = tcp_async_read_some and f = quiet_socket])
      (fact tcp_async_read_some_quiet loop)+
  moreover have "e \<noteq> WouldBlock \<and> e \<noteq> TryAgain \<and> e \<noteq> Interrupted" if "ec = Some e" for e
    using read_until_loop_error [of _ "\<lambda>e. \<not> wait_error e", OF tcp_async_read_some_error _ loop [unfolded that]]
    by (simp add: wait_error_def would_block_def)
  ultimately show ?thesis
    using run input by (auto simp: read_until_string_def async_read_until_string_def until_call_string_def)
qed

text \<open>The first read would block, the second is interrupted, and the third brings the end of the line.\<close>

definition interrupted_packets :: recv_socket where
  "interrupted_packets = \<lparr>rs_open = True, rs_stream = True, rs_non_blocking = True,
     rs_os = [Got (CHR ''a'') [CR], RecvFails WouldBlock (Some BadDescriptor), RecvFails Interrupted None, Got LF ''b'']\<rparr>"

theorem async_read_until_equals_sync_witness:
  "\<exists>n ec b1 b2 s'. async_read_until_string [CR, LF] tcp_async_read_some (new_streambuf 512) interrupted_packets
      = Some (Inr (n, ec, b2, s'))
    \<and> (\<forall>e. ec = Some e \<longrightarrow> e \<noteq> WouldBlock \<and> e \<noteq> TryAgain \<and> e \<noteq> Interrupted)
    \<and> read_until_string [CR, LF] tcp_read_some (new_streambuf 512) \<lparr>rs_open = True, rs_stream = True, rs_non_blocking = False,
         rs_os = [Got (CHR ''a'') [CR], RecvFails WouldBlock None, Got LF ''b'']\<rparr> = Some (Inr (n, ec, b1, quiet_socket s'))
    \<and> sb_input b2 = sb_input b1"
proof -
  have "quiet_socket interrupted_packets = \<lparr>rs_open = True, rs_stream = True, rs_non_blocking = False,
      rs_os = [Got (CHR ''a'') [CR], RecvFails WouldBlock None, Got LF ''b'']\<rparr>"
    by (simp add: quiet_socket_def interrupted_packets_def)
  then show ?thesis
    using async_read_until_equals_sync [of "[CR, LF]" "new_streambuf 512" interrupted_packets] new_streambuf_ok [of 512]
    by (simp add: interrupted_packets_def)
qed

end
