(* ===== verification/Asio_Transfer.thy ===== *)
theory Asio_Transfer
  imports Asio_Socket
begin

text \<open>
  The parts that the composed read and write operations of the library share: the completion conditions
  (completion_condition.hpp), the proxy \<open>consuming_buffers\<close> with its iterator
  (detail/consuming_buffers.hpp), the loop of the synchronous operations and the operation objects of the
  asynchronous ones. The source writes the loop and the objects twice, in impl/read.hpp and impl/write.hpp,
  around \<open>read_some\<close> and \<open>write_some\<close>; here they take the transfer as the parameter \<open>some\<close>, a function
  of the addresses that the first 64 buffers cover, and \<open>Asio_Write\<close> and \<open>Asio_Read\<close> instantiate it.
\<close>

subsection \<open>Completion conditions\<close>

type_synonym condition = "error_code \<Rightarrow> nat \<Rightarrow> nat"

definition default_max_transfer_size :: nat where
  "default_max_transfer_size = 65536"

definition adapt_completion_condition_result :: "bool \<Rightarrow> nat" where
  "adapt_completion_condition_result result = (if result then 0 else default_max_transfer_size)"

definition transfer_all :: condition where
  "transfer_all err n = (if err \<noteq> None then 0 else default_max_transfer_size)"

definition transfer_at_least :: "nat \<Rightarrow> condition" where
  "transfer_at_least minimum err bytes_transferred =
     (if err \<noteq> None \<or> bytes_transferred \<ge> minimum then 0 else default_max_transfer_size)"

definition transfer_exactly :: "nat \<Rightarrow> condition" where
  "transfer_exactly amount err bytes_transferred =
     (if err \<noteq> None \<or> bytes_transferred \<ge> amount then 0
      else if amount - bytes_transferred < default_max_transfer_size then amount - bytes_transferred
      else default_max_transfer_size)"

subsection \<open>consuming_buffers\<close>

record cbufs =
  cb_at_end :: bool
  cb_first :: buf
  cb_remainder :: "buf list"
  cb_max :: nat

definition size_max :: nat where
  "size_max = 2 ^ 64 - 1"

definition consuming_buffers :: "buf list \<Rightarrow> cbufs" where
  "consuming_buffers buffers =
     \<lparr>cb_at_end = (buffers = []), cb_first = (case buffers of [] \<Rightarrow> null_buf | b # _ \<Rightarrow> b),
      cb_remainder = tl buffers, cb_max = size_max\<rparr>"

text \<open>The iterator.\<close>

record cb_iterator =
  ci_at_end :: bool
  ci_first :: buf
  ci_remainder :: "buf list"
  ci_offset :: nat
  ci_max :: nat

definition cb_begin :: "cbufs \<Rightarrow> cb_iterator" where
  "cb_begin c =
     \<lparr>ci_at_end = (if cb_max c > 0 then cb_at_end c else True), ci_first = buffer_max (cb_first c) (cb_max c),
      ci_remainder = cb_remainder c, ci_offset = 0, ci_max = cb_max c\<rparr>"

definition ci_increment :: "cb_iterator \<Rightarrow> cb_iterator" where
  "ci_increment i =
     (if ci_at_end i then i
      else case ci_remainder i of
             [] \<Rightarrow> i\<lparr>ci_at_end := True\<rparr>
           | b # bs \<Rightarrow>
               if ci_offset i + bsize (ci_first i) \<ge> ci_max i then i\<lparr>ci_at_end := True\<rparr>
               else i\<lparr>ci_offset := ci_offset i + bsize (ci_first i),
                      ci_first := buffer_max b (ci_max i - (ci_offset i + bsize (ci_first i))),
                      ci_remainder := bs\<rparr>)"

text \<open>Equality with another iterator; only the comparison with the end iterator is used.\<close>

definition ci_equal :: "cb_iterator \<Rightarrow> cb_iterator \<Rightarrow> bool" where
  "ci_equal i j \<longleftrightarrow>
     (ci_at_end i \<and> ci_at_end j)
     \<or> (\<not> ci_at_end i \<and> \<not> ci_at_end j \<and> ci_first i = ci_first j \<and> ci_remainder i = ci_remainder j)"

definition cb_end :: cb_iterator where
  "cb_end = \<lparr>ci_at_end = True, ci_first = null_buf, ci_remainder = [], ci_offset = 0, ci_max = 0\<rparr>"

lemma ci_equal_end [simp]: "ci_equal i cb_end = ci_at_end i"
  by (simp add: ci_equal_def cb_end_def)

function ci_list :: "cb_iterator \<Rightarrow> buf list" where
  "ci_list i = (if ci_equal i cb_end then [] else ci_first i # ci_list (ci_increment i))"
  by pat_completeness auto
termination
  by (relation "measure (\<lambda>i. if ci_at_end i then 0 else Suc (length (ci_remainder i)))")
    (auto simp: ci_increment_def split: list.splits)

declare ci_list.simps [simp del]

definition cb_list :: "cbufs \<Rightarrow> buf list" where
  "cb_list c = ci_list (cb_begin c)"

definition cb_is_end :: "cbufs \<Rightarrow> bool" where
  "cb_is_end c \<longleftrightarrow> ci_equal (cb_begin c) cb_end"

definition cb_prepare :: "nat \<Rightarrow> cbufs \<Rightarrow> cbufs" where
  "cb_prepare max_size c = c\<lparr>cb_max := max_size\<rparr>"

definition cb_next :: "cbufs \<Rightarrow> cbufs" where
  "cb_next c =
     (case cb_remainder c of
        [] \<Rightarrow> c\<lparr>cb_at_end := True\<rparr>
      | b # bs \<Rightarrow> c\<lparr>cb_first := b, cb_remainder := bs\<rparr>)"

definition cb_measure :: "cbufs \<Rightarrow> nat" where
  "cb_measure c = (if cb_at_end c then 0 else Suc (length (cb_remainder c)))"

lemma cb_next_measure: "\<not> cb_at_end c \<Longrightarrow> cb_measure (cb_next c) < cb_measure c"
  by (auto simp: cb_measure_def cb_next_def split: list.splits)

function consume_full :: "nat \<Rightarrow> cbufs \<Rightarrow> cbufs" where
  "consume_full amount c =
     (if amount > 0 \<and> \<not> cb_at_end c
      then if bsize (cb_first c) \<le> amount then consume_full (amount - bsize (cb_first c)) (cb_next c)
           else c\<lparr>cb_first := buffer_plus (cb_first c) amount\<rparr>
      else c)"
  by pat_completeness auto
termination
  by (relation "measure (\<lambda>(amount, c). cb_measure c)") (auto simp: cb_next_measure)

function skip_empty :: "cbufs \<Rightarrow> cbufs" where
  "skip_empty c = (if \<not> cb_at_end c \<and> bsize (cb_first c) = 0 then skip_empty (cb_next c) else c)"
  by pat_completeness auto
termination
  by (relation "measure cb_measure") (auto simp: cb_next_measure)

declare consume_full.simps [simp del] skip_empty.simps [simp del]

definition cb_consume :: "nat \<Rightarrow> cbufs \<Rightarrow> cbufs" where
  "cb_consume amount c = skip_empty (consume_full amount c)"

subsection \<open>The synchronous loop\<close>

type_synonym 'w transfer = "nat list \<Rightarrow> 'w \<Rightarrow> nat \<times> error_code \<times> 'w"

definition transfer_some :: "'w transfer \<Rightarrow> buf list \<Rightarrow> 'w \<Rightarrow> nat \<times> error_code \<times> 'w" where
  "transfer_some some bufs w = some (seq_addrs (adapt_buffers bufs)) w"

partial_function (option) transfer_loop ::
  "'w transfer \<Rightarrow> condition \<Rightarrow> cbufs \<Rightarrow> nat \<Rightarrow> error_code \<Rightarrow> 'w \<Rightarrow> (nat \<times> error_code \<times> 'w) option" where
  "transfer_loop some cond tmp total_transferred ec w =
     (if cb_is_end tmp then Some (total_transferred, ec, w)
      else case transfer_some some (cb_list tmp) w of
        (bytes_transferred, ec, w) \<Rightarrow>
          transfer_loop some cond
            (cb_prepare (cond ec (total_transferred + bytes_transferred)) (cb_consume bytes_transferred tmp))
            (total_transferred + bytes_transferred) ec w)"

definition transfer_sync :: "'w transfer \<Rightarrow> condition \<Rightarrow> buf list \<Rightarrow> 'w \<Rightarrow> (nat \<times> error_code \<times> 'w) option" where
  "transfer_sync some cond buffers w =
     transfer_loop some cond (cb_prepare (cond None 0) (consuming_buffers buffers)) 0 None w"

subsection \<open>The operation objects\<close>

datatype 'o transfer_step = Start_transfer "buf list" 'o | Handler error_code nat

text \<open>The general object, the object for one buffer, and the object for an array of two buffers.\<close>

definition op_call ::
  "condition \<Rightarrow> bool \<Rightarrow> error_code \<Rightarrow> nat \<Rightarrow> cbufs \<times> nat \<Rightarrow> (cbufs \<times> nat) transfer_step" where
  "op_call cond start ec bytes_transferred st =
     (case st of (buffers, total_transferred) \<Rightarrow>
        if start
        then let buffers = cb_prepare (cond ec total_transferred) buffers
          in Start_transfer (cb_list buffers) (buffers, total_transferred)
        else let total_transferred = total_transferred + bytes_transferred;
                 buffers = cb_prepare (cond ec total_transferred) (cb_consume bytes_transferred buffers)
          in if (ec = None \<and> bytes_transferred = 0) \<or> cb_is_end buffers then Handler ec total_transferred
             else Start_transfer (cb_list buffers) (buffers, total_transferred))"

definition op1_start :: "nat \<Rightarrow> buf \<times> nat \<Rightarrow> (buf \<times> nat) transfer_step" where
  "op1_start n st =
     (case st of (buffer, total_transferred) \<Rightarrow>
        Start_transfer [buffer_max (buffer_plus buffer total_transferred) n] (buffer, total_transferred))"

definition op1_call ::
  "condition \<Rightarrow> bool \<Rightarrow> error_code \<Rightarrow> nat \<Rightarrow> buf \<times> nat \<Rightarrow> (buf \<times> nat) transfer_step" where
  "op1_call cond start ec bytes_transferred st =
     (case st of (buffer, total_transferred) \<Rightarrow>
        if start then op1_start (cond ec total_transferred) (buffer, total_transferred)
        else let total_transferred = total_transferred + bytes_transferred;
                 n = cond ec total_transferred
          in if (ec = None \<and> bytes_transferred = 0) \<or> n = 0 \<or> total_transferred = bsize buffer
             then Handler ec total_transferred
             else op1_start n (buffer, total_transferred))"

definition op2_start :: "nat \<Rightarrow> (buf \<times> buf) \<times> nat \<Rightarrow> ((buf \<times> buf) \<times> nat) transfer_step" where
  "op2_start n st =
     (case st of ((buffer0, buffer1), total_transferred) \<Rightarrow>
        let bufs0 = buffer_max (buffer_plus buffer0 total_transferred) n;
            bufs1 = buffer_max
              (buffer_plus buffer1 (if total_transferred < bsize buffer0 then 0 else total_transferred - bsize buffer0))
              (n - bsize bufs0)
        in Start_transfer [bufs0, bufs1] ((buffer0, buffer1), total_transferred))"

definition op2_call ::
  "condition \<Rightarrow> bool \<Rightarrow> error_code \<Rightarrow> nat \<Rightarrow> (buf \<times> buf) \<times> nat \<Rightarrow> ((buf \<times> buf) \<times> nat) transfer_step" where
  "op2_call cond start ec bytes_transferred st =
     (case st of ((buffer0, buffer1), total_transferred) \<Rightarrow>
        if start then op2_start (cond ec total_transferred) st
        else let total_transferred = total_transferred + bytes_transferred;
                 n = cond ec total_transferred
          in if (ec = None \<and> bytes_transferred = 0) \<or> n = 0 \<or> total_transferred = bsize buffer0 + bsize buffer1
             then Handler ec total_transferred
             else op2_start n ((buffer0, buffer1), total_transferred))"

text \<open>An object together with a stream that completes its transfers, up to the call of the handler.\<close>

partial_function (option) op_run ::
  "'w transfer \<Rightarrow> (bool \<Rightarrow> error_code \<Rightarrow> nat \<Rightarrow> 'o \<Rightarrow> 'o transfer_step) \<Rightarrow> 'o transfer_step \<Rightarrow> 'w
     \<Rightarrow> (nat \<times> error_code \<times> 'w) option" where
  "op_run some call step w =
     (case step of
        Handler ec n \<Rightarrow> Some (n, ec, w)
      | Start_transfer bufs st \<Rightarrow>
          (case transfer_some some bufs w of
             (n, ec, w) \<Rightarrow> op_run some call (call False ec n st) w))"

definition transfer_async :: "'w transfer \<Rightarrow> condition \<Rightarrow> buf list \<Rightarrow> 'w \<Rightarrow> (nat \<times> error_code \<times> 'w) option" where
  "transfer_async some cond buffers w =
     op_run some (op_call cond) (op_call cond True None 0 (consuming_buffers buffers, 0)) w"

definition transfer_async1 :: "'w transfer \<Rightarrow> condition \<Rightarrow> buf \<Rightarrow> 'w \<Rightarrow> (nat \<times> error_code \<times> 'w) option" where
  "transfer_async1 some cond buffer w = op_run some (op1_call cond) (op1_call cond True None 0 (buffer, 0)) w"

definition transfer_async2 :: "'w transfer \<Rightarrow> condition \<Rightarrow> buf \<times> buf \<Rightarrow> 'w \<Rightarrow> (nat \<times> error_code \<times> 'w) option" where
  "transfer_async2 some cond buffers w = op_run some (op2_call cond) (op2_call cond True None 0 (buffers, 0)) w"

subsection \<open>The addresses that remain\<close>

definition cb_addrs :: "cbufs \<Rightarrow> nat list" where
  "cb_addrs c = (if cb_at_end c then [] else addrs (cb_first c) @ seq_addrs (cb_remainder c))"

lemma ci_list_addrs:
  "\<not> ci_at_end i \<Longrightarrow> ci_first i = buffer_max b (ci_max i - ci_offset i) \<Longrightarrow> ci_offset i < ci_max i \<Longrightarrow>
     seq_addrs (ci_list i) = take (ci_max i - ci_offset i) (addrs b @ seq_addrs (ci_remainder i))"
proof (induction "length (ci_remainder i)" arbitrary: i b rule: less_induct)
  case less
  let ?m = "ci_max i - ci_offset i"
  have i: "ci_list i = ci_first i # ci_list (ci_increment i)"
    using less.prems(1) by (subst ci_list.simps) simp
  show ?case
  proof (cases "ci_remainder i")
    case Nil
    then have "ci_list (ci_increment i) = []"
      using less.prems(1) by (subst ci_list.simps) (simp add: ci_increment_def)
    with i Nil less.prems(2) show ?thesis by (simp add: addrs_max)
  next
    case (Cons c cs)
    show ?thesis
    proof (cases "?m \<le> bsize b")
      case True
      then have "ci_offset i + bsize (ci_first i) \<ge> ci_max i" using less.prems(2) by simp
      then have "ci_list (ci_increment i) = []"
        using less.prems(1) Cons by (subst ci_list.simps) (simp add: ci_increment_def)
      with i True less.prems(2) show ?thesis by (simp add: addrs_max)
    next
      case False
      then have f: "bsize (ci_first i) = bsize b" "\<not> ci_offset i + bsize b \<ge> ci_max i" using less.prems(2,3) by auto
      let ?j = "i\<lparr>ci_offset := ci_offset i + bsize b, ci_first := buffer_max c (ci_max i - (ci_offset i + bsize b)),
        ci_remainder := cs\<rparr>"
      have "ci_increment i = ?j" using less.prems(1) Cons f by (simp add: ci_increment_def)
      moreover have "seq_addrs (ci_list ?j) = take (?m - bsize b) (addrs c @ seq_addrs cs)"
        using less.hyps [of ?j c] less.prems(1) Cons f by simp
      ultimately show ?thesis using i False Cons less.prems(2) by (simp add: addrs_max)
    qed
  qed
qed

lemma cb_list_addrs: "seq_addrs (cb_list c) = take (cb_max c) (cb_addrs c)"
proof (cases "cb_max c = 0 \<or> cb_at_end c")
  case True
  then show ?thesis by (subst cb_list_def, subst ci_list.simps) (auto simp: cb_begin_def cb_addrs_def)
next
  case False
  then show ?thesis
    using ci_list_addrs [of "cb_begin c" "cb_first c"] by (simp add: cb_list_def cb_begin_def cb_addrs_def)
qed

lemma cb_is_end_iff [simp]: "cb_is_end c \<longleftrightarrow> cb_max c = 0 \<or> cb_at_end c"
  by (auto simp: cb_is_end_def cb_begin_def)

lemma cb_next_addrs:
  "\<not> cb_at_end c \<Longrightarrow> cb_addrs (cb_next c) = drop (bsize (cb_first c)) (cb_addrs c)"
  by (auto simp: cb_addrs_def cb_next_def split: list.splits)

lemma cb_next_max [simp]: "cb_max (cb_next c) = cb_max c"
  by (simp add: cb_next_def split: list.splits)

lemma consume_full_ok:
  "cb_addrs (consume_full n c) = drop n (cb_addrs c) \<and> cb_max (consume_full n c) = cb_max c
     \<and> cb_measure (consume_full n c) \<le> cb_measure c"
proof (induction n c rule: consume_full.induct)
  case (1 n c)
  show ?case
  proof (cases "0 < n \<and> \<not> cb_at_end c")
    case False
    then show ?thesis by (subst (1 2 3) consume_full.simps) (auto simp: cb_addrs_def)
  next
    case True
    show ?thesis
    proof (cases "bsize (cb_first c) \<le> n")
      case full: True
      then have "consume_full n c = consume_full (n - bsize (cb_first c)) (cb_next c)"
        using True by (subst consume_full.simps) simp
      then show ?thesis using 1 True full cb_next_addrs [of c] cb_next_measure [of c] by simp
    next
      case False
      then have "consume_full n c = c\<lparr>cb_first := buffer_plus (cb_first c) n\<rparr>"
        using True by (subst consume_full.simps) simp
      then show ?thesis using False True by (simp add: cb_addrs_def addrs_plus cb_measure_def)
    qed
  qed
qed

lemma skip_empty_ok:
  "cb_addrs (skip_empty c) = cb_addrs c \<and> cb_max (skip_empty c) = cb_max c \<and> cb_measure (skip_empty c) \<le> cb_measure c
     \<and> (cb_at_end (skip_empty c) \<longleftrightarrow> cb_addrs c = [])
     \<and> (\<not> cb_at_end c \<and> bsize (cb_first c) = 0 \<longrightarrow> cb_measure (skip_empty c) < cb_measure c)"
proof (induction c rule: skip_empty.induct)
  case (1 c)
  show ?case
  proof (cases "\<not> cb_at_end c \<and> bsize (cb_first c) = 0")
    case False
    then have "skip_empty c = c" by (subst skip_empty.simps) auto
    with False show ?thesis by (auto simp: cb_addrs_def)
  next
    case True
    then have "skip_empty c = skip_empty (cb_next c)" by (subst skip_empty.simps) simp
    then show ?thesis using 1 True cb_next_addrs [of c] cb_next_measure [of c] by auto
  qed
qed

lemma cb_consume_ok:
  "cb_addrs (cb_consume n c) = drop n (cb_addrs c)" "cb_max (cb_consume n c) = cb_max c"
  "cb_measure (cb_consume n c) \<le> cb_measure c"
  "cb_at_end (cb_consume n c) \<longleftrightarrow> cb_addrs (cb_consume n c) = []"
  using consume_full_ok [of n c] skip_empty_ok [of "consume_full n c"] by (auto simp: cb_consume_def)

lemma cb_consume_0:
  "\<not> cb_at_end c \<Longrightarrow> bsize (cb_first c) = 0 \<Longrightarrow> cb_measure (cb_consume 0 c) < cb_measure c"
proof -
  assume "\<not> cb_at_end c" "bsize (cb_first c) = 0"
  moreover have "consume_full 0 c = c" by (subst consume_full.simps) simp
  ultimately show ?thesis using skip_empty_ok [of c] by (simp add: cb_consume_def)
qed

lemma consuming_buffers_addrs: "cb_addrs (consuming_buffers bs) = seq_addrs bs"
  by (cases bs) (simp_all add: cb_addrs_def consuming_buffers_def)

lemma cb_prepare_simps [simp]:
  "cb_addrs (cb_prepare m c) = cb_addrs c" "cb_max (cb_prepare m c) = m" "cb_at_end (cb_prepare m c) = cb_at_end c"
  "cb_measure (cb_prepare m c) = cb_measure c" "cb_first (cb_prepare m c) = cb_first c"
  by (simp_all add: cb_prepare_def cb_addrs_def cb_measure_def)

text \<open>
  Iterating over a \<open>consuming_buffers\<close> from which \<open>n\<close> bytes have been consumed, with transfers limited
  to \<open>m\<close> bytes, yields buffers that cover exactly the bytes \<open>n, ..., n + m - 1\<close> of the sequence it was
  made from, however these are split into buffers.
\<close>

theorem consuming_buffers_range:
  "seq_addrs (cb_list (cb_prepare m (cb_consume n (consuming_buffers bs)))) = take m (drop n (seq_addrs bs))"
  by (simp add: cb_list_addrs cb_consume_ok consuming_buffers_addrs)

subsection \<open>Transfers\<close>

text \<open>
  What the composed operations rely on: a transfer moves a prefix of the bytes it is given, nothing on an
  error, and something if it was given anything. \<open>moved w as w'\<close> says that from \<open>w\<close> to \<open>w'\<close> exactly the
  bytes at \<open>as\<close> have been transferred, in this order.
\<close>

locale transfer_stream =
  fixes some :: "'w transfer" and moved :: "'w \<Rightarrow> nat list \<Rightarrow> 'w \<Rightarrow> bool"
  assumes some_ok: "some as w = (n, ec, w') \<Longrightarrow>
      n \<le> length as \<and> (ec \<noteq> None \<longrightarrow> n = 0) \<and> (ec = None \<and> as \<noteq> [] \<longrightarrow> 0 < n) \<and> moved w (take n as) w'"
    and moved_append: "moved w as w' \<Longrightarrow> moved w' bs w'' \<Longrightarrow> moved w (as @ bs) w''"
    and moved_nil: "moved w [] w"
begin

lemma transfer_some_ok:
  assumes "transfer_some some bufs w = (n, ec, w')"
  shows "n \<le> length (seq_addrs bufs) \<and> (ec \<noteq> None \<longrightarrow> n = 0) \<and> moved w (take n (seq_addrs bufs)) w'
    \<and> (ec = None \<and> n = 0 \<longrightarrow> seq_addrs (adapt_buffers bufs) = [])"
proof -
  let ?a = "seq_addrs (adapt_buffers bufs)"
  have "seq_addrs bufs = ?a @ seq_addrs (drop max_buffers bufs)"
    by (simp add: adapt_buffers_def flip: seq_addrs_simps(3))
  moreover have "n \<le> length ?a \<and> (ec \<noteq> None \<longrightarrow> n = 0) \<and> (ec = None \<and> ?a \<noteq> [] \<longrightarrow> 0 < n) \<and> moved w (take n ?a) w'"
    using assms some_ok by (simp add: transfer_some_def)
  ultimately show ?thesis by auto
qed

text \<open>The loop, for a condition that stops on an error and asks for something while it wants more.\<close>

lemma transfer_loop_ok:
  assumes stops: "\<And>e n. cond (Some e) n = 0"
  shows "cb_max c = cond None t \<Longrightarrow>
    \<exists>n ec w'. transfer_loop some cond c t None w = Some (t + n, ec, w') \<and> n \<le> length (cb_addrs c)
      \<and> moved w (take n (cb_addrs c)) w' \<and> (ec = None \<longrightarrow> n = length (cb_addrs c) \<or> cond None (t + n) = 0)
      \<and> ((\<forall>k. cond None k \<le> lim - k) \<and> t \<le> lim \<longrightarrow> t + n \<le> lim)"
proof (induction "length (cb_addrs c) + cb_measure c" arbitrary: c t w rule: less_induct)
  case less
  show ?case
  proof (cases "cb_is_end c")
    case True
    then have "transfer_loop some cond c t None w = Some (t + 0, None, w)" by (subst transfer_loop.simps) simp
    moreover have "cb_addrs c = [] \<or> cond None t = 0" using True less.prems by (auto simp: cb_addrs_def)
    ultimately show ?thesis using moved_nil by (intro exI [of _ 0] exI [of _ None] exI [of _ w]) auto
  next
    case False
    obtain n ec w' where r: "transfer_some some (cb_list c) w = (n, ec, w')" by (metis prod_cases3)
    note ok = transfer_some_ok [OF r, unfolded cb_list_addrs less.prems]
    define c' where "c' = cb_prepare (cond ec (t + n)) (cb_consume n c)"
    have loop: "transfer_loop some cond c t None w = transfer_loop some cond c' (t + n) ec w'"
      using False r by (subst transfer_loop.simps) (simp add: c'_def)
    have n: "n \<le> length (cb_addrs c)" "n \<le> cond None t" "moved w (take n (cb_addrs c)) w'" using ok by auto
    show ?thesis
    proof (cases ec)
      case (Some e)
      then have "transfer_loop some cond c t None w = Some (t + 0, ec, w')"
        unfolding loop using ok stops by (subst transfer_loop.simps) (simp add: c'_def)
      then show ?thesis using ok Some by (intro exI [of _ 0] exI [of _ ec] exI [of _ w']) auto
    next
      case None
      have c': "cb_addrs c' = drop n (cb_addrs c)" "cb_max c' = cond None (t + n)" "cb_measure c' \<le> cb_measure c"
        using None by (simp_all add: c'_def cb_consume_ok)
      have "length (cb_addrs c') + cb_measure c' < length (cb_addrs c) + cb_measure c"
      proof (cases "n = 0")
        case True
        then have "seq_addrs (adapt_buffers (cb_list c)) = []" using ok None by simp
        moreover have "cb_list c = buffer_max (cb_first c) (cb_max c) # ci_list (ci_increment (cb_begin c))"
          using False by (subst cb_list_def, subst ci_list.simps) (simp add: cb_begin_def)
        ultimately have "bsize (cb_first c) = 0"
          using False by (auto simp: adapt_buffers_def max_buffers_def max_iov_len_def min_def split: if_splits)
        then have "cb_measure (cb_consume n c) < cb_measure c" using cb_consume_0 False True by simp
        then show ?thesis using c' by (simp add: c'_def cb_consume_ok)
      next
        case False
        then show ?thesis using c' n(1) by simp
      qed
      then obtain m ec2 w2 where IH: "transfer_loop some cond c' (t + n) None w' = Some (t + n + m, ec2, w2)"
        "m \<le> length (cb_addrs c')" "moved w' (take m (cb_addrs c')) w2"
        "ec2 = None \<longrightarrow> m = length (cb_addrs c') \<or> cond None (t + n + m) = 0"
        "(\<forall>k. cond None k \<le> lim - k) \<and> t + n \<le> lim \<longrightarrow> t + n + m \<le> lim"
        using less.hyps [of c' "t + n" w'] c'(2) by blast
      have "moved w (take (n + m) (cb_addrs c)) w2"
        using moved_append [OF n(3) IH(3)] c'(1) by (simp add: take_add)
      moreover have "(\<forall>k. cond None k \<le> lim - k) \<and> t \<le> lim \<longrightarrow> t + n \<le> lim"
        using n(2) by (metis add_leD2 le_add_diff_inverse le_trans nat_add_left_cancel_le)
      ultimately show ?thesis
        using loop None IH c'(1) n(1)
        by (intro exI [of _ "n + m"] exI [of _ ec2] exI [of _ w2]) (auto simp: add.assoc)
    qed
  qed
qed

lemma transfer_sync_ok:
  assumes "\<And>e n. cond (Some e) n = 0"
  shows "\<exists>n ec w'. transfer_sync some cond bs w = Some (n, ec, w') \<and> n \<le> length (seq_addrs bs)
      \<and> moved w (take n (seq_addrs bs)) w' \<and> (ec = None \<longrightarrow> n = length (seq_addrs bs) \<or> cond None n = 0)
      \<and> ((\<forall>k. cond None k \<le> lim - k) \<longrightarrow> n \<le> lim)"
  using transfer_loop_ok [where cond = cond and c = "cb_prepare (cond None 0) (consuming_buffers bs)" and t = 0 and w = w and lim = lim, OF assms]
  by (simp add: transfer_sync_def consuming_buffers_addrs)

end

subsection \<open>The operation objects against the loop\<close>

lemma buffer_plus_plus: "m + n \<le> bsize b \<Longrightarrow> buffer_plus (buffer_plus b m) n = buffer_plus b (m + n)"
  by (simp add: buffer_plus_def)

lemma adapt_short: "length bs \<le> 64 \<Longrightarrow> adapt_buffers bs = bs"
  by (simp add: adapt_buffers_def max_buffers_def max_iov_len_def)

definition op2_bufs :: "buf \<times> buf \<Rightarrow> nat \<Rightarrow> nat \<Rightarrow> buf list" where
  "op2_bufs bb t n = (case op2_start n (bb, t) of Start_transfer bufs _ \<Rightarrow> bufs | Handler _ _ \<Rightarrow> [])"

lemma op2_start_bufs: "op2_start n (bb, t) = Start_transfer (op2_bufs bb t n) (bb, t)"
  by (cases bb) (simp add: op2_bufs_def op2_start_def Let_def)

lemma op2_bufs_addrs:
  "seq_addrs (adapt_buffers (op2_bufs (b0, b1) t n)) = take n (drop t (addrs b0 @ addrs b1))"
  by (cases "t < bsize b0")
    (auto simp: op2_bufs_def op2_start_def Let_def adapt_short addrs_max addrs_plus min_def)

text \<open>A list of at most two buffers gives an iteration of at most two.\<close>

lemma ci_list_length: "length (ci_list i) \<le> Suc (length (ci_remainder i))"
proof (induction "length (ci_remainder i)" arbitrary: i rule: less_induct)
  case less
  show ?case
  proof (cases "ci_at_end i \<or> ci_at_end (ci_increment i)")
    case True
    then have "ci_at_end i \<or> ci_list (ci_increment i) = []" by (auto simp: ci_list.simps [of "ci_increment i"])
    then show ?thesis by (subst ci_list.simps) auto
  next
    case False
    then have "length (ci_remainder (ci_increment i)) < length (ci_remainder i)"
      by (auto simp: ci_increment_def split: list.splits if_splits)
    with less.hyps [of "ci_increment i"] show ?thesis by (subst ci_list.simps) auto
  qed
qed

lemma consume_full_remainder: "length (cb_remainder (consume_full n c)) \<le> length (cb_remainder c)"
proof (induction n c rule: consume_full.induct)
  case (1 n c)
  have "length (cb_remainder (cb_next c)) \<le> length (cb_remainder c)"
    by (simp add: cb_next_def split: list.splits)
  with 1 show ?case by (subst consume_full.simps) (auto intro: le_trans)
qed

lemma skip_empty_remainder: "length (cb_remainder (skip_empty c)) \<le> length (cb_remainder c)"
proof (induction c rule: skip_empty.induct)
  case (1 c)
  have "length (cb_remainder (cb_next c)) \<le> length (cb_remainder c)"
    by (simp add: cb_next_def split: list.splits)
  with 1 show ?case by (subst skip_empty.simps) (auto intro: le_trans)
qed

lemma cb_consume_remainder: "length (cb_remainder (cb_consume n c)) \<le> length (cb_remainder c)"
  using skip_empty_remainder consume_full_remainder by (metis cb_consume_def le_trans)

lemma cb_list_two: "length (cb_remainder c) \<le> 1 \<Longrightarrow> adapt_buffers (cb_list c) = cb_list c"
  using ci_list_length [of "cb_begin c"] by (intro adapt_short) (simp add: cb_list_def cb_begin_def)

lemma op_run_handler: "op_run some call (Handler ec n) w = Some (n, ec, w)"
  by (subst op_run.simps) simp

context transfer_stream
begin

text \<open>The object for one buffer does what the loop does on the one-element sequence.\<close>

lemma op1_loop:
  assumes stops: "\<And>e n. cond (Some e) n = 0"
  shows "0 < cond None t \<Longrightarrow> t < bsize b \<or> (t = 0 \<and> bsize b = 0) \<Longrightarrow>
    op_run some (op1_call cond) (op1_start (cond None t) (b, t)) w
      = transfer_loop some cond
          \<lparr>cb_at_end = False, cb_first = buffer_plus b t, cb_remainder = [], cb_max = cond None t\<rparr> t None w"
proof (induction "bsize b - t" arbitrary: t w rule: less_induct)
  case less
  let ?m = "cond None t"
  let ?c = "\<lparr>cb_at_end = False, cb_first = buffer_plus b t, cb_remainder = [], cb_max = ?m\<rparr>"
  let ?bs = "[buffer_max (buffer_plus b t) ?m]"
  have list: "cb_list ?c = ?bs"
    using less.prems(1) by (subst cb_list_def, subst ci_list.simps, subst ci_list.simps) (simp add: cb_begin_def ci_increment_def)
  obtain n ec w' where r: "transfer_some some ?bs w = (n, ec, w')" by (metis prod_cases3)
  have n: "n \<le> bsize b - t" "n \<le> ?m" "ec \<noteq> None \<Longrightarrow> n = 0" "ec = None \<Longrightarrow> n = 0 \<Longrightarrow> bsize b - t = 0"
    using transfer_some_ok [OF r] less.prems(1) by (auto simp: addrs_max addrs_plus adapt_short min_def split: if_splits)
  have op: "op_run some (op1_call cond) (op1_start ?m (b, t)) w
      = op_run some (op1_call cond) (op1_call cond False ec n (b, t)) w'"
    by (subst op_run.simps) (simp add: op1_start_def r)
  have loop: "transfer_loop some cond ?c t None w
      = transfer_loop some cond (cb_prepare (cond ec (t + n)) (cb_consume n ?c)) (t + n) ec w'"
    using less.prems(1) r list by (subst transfer_loop.simps) simp
  have stop: "transfer_loop some cond (cb_prepare (cond ec (t + n)) (cb_consume n ?c)) (t + n) ec w' = Some (t + n, ec, w')"
    if "cond ec (t + n) = 0 \<or> t + n = bsize b"
  proof -
    have "cb_addrs ?c = drop t (addrs b)" by (simp add: cb_addrs_def addrs_plus)
    then have "cb_at_end (cb_consume n ?c) \<longleftrightarrow> bsize b \<le> t + n" by (auto simp: cb_consume_ok)
    with that show ?thesis by (subst transfer_loop.simps) auto
  qed
  show ?case
  proof (cases "cond ec (t + n) = 0 \<or> t + n = bsize b")
    case True
    then have "op1_call cond False ec n (b, t) = Handler ec (t + n)" by (auto simp: op1_call_def Let_def)
    then show ?thesis using op loop stop [OF True] by (simp add: op_run_handler)
  next
    case False
    then have ec: "ec = None" using stops by (cases ec) auto
    with False n less.prems(2) have "0 < n" "t + n < bsize b" by (cases n; auto)+
    moreover have "cb_consume n ?c = ?c\<lparr>cb_first := buffer_plus b (t + n)\<rparr>"
      using \<open>0 < n\<close> \<open>t + n < bsize b\<close>
      by (subst cb_consume_def, subst consume_full.simps, subst skip_empty.simps) (simp add: buffer_plus_plus)
    moreover have "op1_call cond False ec n (b, t) = op1_start (cond None (t + n)) (b, t + n)"
      using False ec \<open>0 < n\<close> by (simp add: op1_call_def Let_def)
    ultimately show ?thesis
      using op loop less.hyps [of "t + n" w'] False ec by (simp add: cb_prepare_def)
  qed
qed

lemma transfer_async1_ok:
  assumes "\<And>e n. cond (Some e) n = 0" and "0 < cond None 0"
  shows "transfer_async1 some cond b w = transfer_sync some cond [b] w"
  using op1_loop [of cond 0 b w, OF assms]
  by (simp add: transfer_async1_def op1_call_def transfer_sync_def consuming_buffers_def cb_prepare_def) arith

text \<open>The object for an array of two buffers does what the general object does on the two-element list.\<close>

lemma op2_op:
  assumes stops: "\<And>e n. cond (Some e) n = 0"
  shows "cb_addrs c = drop t (addrs b0 @ addrs b1) \<Longrightarrow> length (cb_remainder c) \<le> 1 \<Longrightarrow> cb_max c = m \<Longrightarrow>
      t \<le> bsize b0 + bsize b1 \<Longrightarrow>
    op_run some (op2_call cond) (op2_start m ((b0, b1), t)) w
      = op_run some (op_call cond) (Start_transfer (cb_list c) (c, t)) w"
proof (induction "bsize b0 + bsize b1 - t" arbitrary: t c m w rule: less_induct)
  case less
  have same: "transfer_some some (op2_bufs (b0, b1) t m) w = transfer_some some (cb_list c) w"
    using less.prems cb_list_two [of c] by (simp add: transfer_some_def op2_bufs_addrs cb_list_addrs)
  obtain n ec w' where r: "transfer_some some (cb_list c) w = (n, ec, w')" by (metis prod_cases3)
  have ok: "n \<le> length (seq_addrs (cb_list c)) \<and> (ec \<noteq> None \<longrightarrow> n = 0)"
    using transfer_some_ok [OF r] by blast
  then have n: "n \<le> bsize b0 + bsize b1 - t" "ec \<noteq> None \<Longrightarrow> n = 0"
    by (simp_all add: cb_list_addrs less.prems(1)) (auto simp: min_def split: if_splits)
  define c' where "c' = cb_prepare (cond ec (t + n)) (cb_consume n c)"
  have addrs': "cb_addrs (cb_consume n c) = drop (t + n) (addrs b0 @ addrs b1)"
    by (simp only: cb_consume_ok(1) less.prems(1) drop_drop add.commute)
  then have c': "cb_addrs c' = drop (t + n) (addrs b0 @ addrs b1)" by (simp add: c'_def)
  have max': "cb_max c' = cond ec (t + n)" by (simp add: c'_def)
  have rem': "length (cb_remainder c') \<le> 1"
    using less.prems(2) cb_consume_remainder [of n c] by (simp add: c'_def cb_prepare_def)
  have end': "cb_at_end c' \<longleftrightarrow> t + n = bsize b0 + bsize b1"
    using addrs' n(1) less.prems(4) by (simp add: c'_def cb_consume_ok(4)) arith
  have opc: "op_call cond False ec n (c, t) = (if (ec = None \<and> n = 0) \<or> cb_is_end c' then Handler ec (t + n)
      else Start_transfer (cb_list c') (c', t + n))"
    by (simp add: op_call_def Let_def c'_def)
  have op2: "op_run some (op2_call cond) (op2_start m ((b0, b1), t)) w
      = op_run some (op2_call cond) (op2_call cond False ec n ((b0, b1), t)) w'"
    by (subst op_run.simps) (simp add: op2_start_bufs same r)
  have op: "op_run some (op_call cond) (Start_transfer (cb_list c) (c, t)) w
      = op_run some (op_call cond) (op_call cond False ec n (c, t)) w'"
    by (subst op_run.simps) (simp add: r)
  show ?case
  proof (cases "(ec = None \<and> n = 0) \<or> cond ec (t + n) = 0 \<or> t + n = bsize b0 + bsize b1")
    case True
    then have "op2_call cond False ec n ((b0, b1), t) = Handler ec (t + n)" by (auto simp: op2_call_def Let_def)
    moreover have "op_call cond False ec n (c, t) = Handler ec (t + n)"
      unfolding opc using True max' end' by auto
    ultimately show ?thesis using op op2 by (simp add: op_run_handler)
  next
    case False
    then have ec: "ec = None" using stops by (cases ec) auto
    have "op2_call cond False ec n ((b0, b1), t) = op2_start (cond ec (t + n)) ((b0, b1), t + n)"
      using False by (auto simp: op2_call_def Let_def)
    moreover have "op_call cond False ec n (c, t) = Start_transfer (cb_list c') (c', t + n)"
      unfolding opc using False max' end' by auto
    moreover have "bsize b0 + bsize b1 - (t + n) < bsize b0 + bsize b1 - t" "t + n \<le> bsize b0 + bsize b1"
      using False ec n less.prems(4) by auto
    ultimately show ?thesis
      using op op2 less.hyps [of "t + n" c' "cond ec (t + n)" w'] c' max' rem' by simp
  qed
qed

lemma transfer_async2_ok:
  assumes "\<And>e n. cond (Some e) n = 0"
  shows "transfer_async2 some cond (b0, b1) w = transfer_async some cond [b0, b1] w"
  using op2_op [of cond "cb_prepare (cond None 0) (consuming_buffers [b0, b1])" 0 b0 b1 "cond None 0" w, OF assms]
  by (simp add: transfer_async2_def transfer_async_def op2_call_def op_call_def consuming_buffers_addrs Let_def)
    (simp add: consuming_buffers_def cb_prepare_def)

end

end
