(* ===== verification/Asio_Write.thy ===== *)
theory Asio_Write
  imports Asio_Transfer Asio_Streambuf
begin

text \<open>
  The composed write operations of src/asio/include/asio/impl/write.hpp: the overloads of \<open>write\<close> and
  \<open>async_write\<close> for a buffer sequence, for one buffer, for an array of two and for a stream buffer. The
  bytes are read from the heap when the stream takes them.
\<close>

definition write_transfer :: "(string \<Rightarrow> 's \<Rightarrow> nat \<times> error_code \<times> 's) \<Rightarrow> heap \<Rightarrow> 's transfer" where
  "write_transfer write_some h as s = write_some (map h as) s"

definition throw_ec :: "string \<Rightarrow> nat \<times> error_code \<times> 'w \<Rightarrow> (nat \<times> 'w) res" where
  "throw_ec location r =
     (case r of (n, ec, w) \<Rightarrow> case ec of None \<Rightarrow> Inr (n, w) | Some e \<Rightarrow> Inl (Throw (AsioError e location)))"

subsection \<open>Synchronous writes\<close>

definition write_cond where
  "write_cond write_some h buffers cond s = transfer_sync (write_transfer write_some h) cond buffers s"

definition write_all where
  "write_all write_some h buffers s = write_cond write_some h buffers transfer_all s"

definition write_all_throw where
  "write_all_throw write_some h buffers s = map_option (throw_ec ''write'') (write_all write_some h buffers s)"

definition write_cond_throw where
  "write_cond_throw write_some h buffers cond s =
     map_option (throw_ec ''write'') (write_cond write_some h buffers cond s)"

text \<open>The input sequence of a stream buffer as a heap and a buffer.\<close>

definition sb_heap :: "streambuf \<Rightarrow> heap" where
  "sb_heap b = (\<lambda>a. sb_buffer b ! a)"

definition sb_data_buf :: "streambuf \<Rightarrow> buf" where
  "sb_data_buf b = \<lparr>bptr = fst (sb_data b), bsize = snd (sb_data b)\<rparr>"

definition write_streambuf where
  "write_streambuf write_some b cond s =
     map_option (\<lambda>(n, ec, s). (n, ec, consume n b, s)) (write_cond write_some (sb_heap b) [sb_data_buf b] cond s)"

definition write_streambuf_all where
  "write_streambuf_all write_some b s = write_streambuf write_some b transfer_all s"

definition write_streambuf_all_throw where
  "write_streambuf_all_throw write_some b s =
     map_option (throw_ec ''write'') (write_streambuf write_some b transfer_all s)"

definition write_streambuf_throw where
  "write_streambuf_throw write_some b cond s =
     map_option (throw_ec ''write'') (write_streambuf write_some b cond s)"

subsection \<open>Asynchronous writes\<close>

definition async_write_cond where
  "async_write_cond write_some h buffers cond s = transfer_async (write_transfer write_some h) cond buffers s"

definition async_write where
  "async_write write_some h buffers s = async_write_cond write_some h buffers transfer_all s"

text \<open>\<open>write_op\<close> for \<open>mutable_buffers_1\<close> and for \<open>const_buffers_1\<close>; they have the same text.\<close>

definition async_write_mutable1 where
  "async_write_mutable1 write_some h buffer cond s = transfer_async1 (write_transfer write_some h) cond buffer s"

definition async_write_const1 where
  "async_write_const1 write_some h buffer cond s = transfer_async1 (write_transfer write_some h) cond buffer s"

text \<open>\<open>write_op\<close> for \<open>boost::array\<close> and for \<open>std::array\<close>.\<close>

definition async_write_boost2 where
  "async_write_boost2 write_some h buffers cond s = transfer_async2 (write_transfer write_some h) cond buffers s"

definition async_write_std2 where
  "async_write_std2 write_some h buffers cond s = transfer_async2 (write_transfer write_some h) cond buffers s"

definition async_write_streambuf where
  "async_write_streambuf write_some b cond s =
     map_option (\<lambda>(n, ec, s). (n, ec, consume n b, s))
       (async_write_const1 write_some (sb_heap b) (sb_data_buf b) cond s)"

definition async_write_streambuf_all where
  "async_write_streambuf_all write_some b s = async_write_streambuf write_some b transfer_all s"

subsection \<open>The interface discharged\<close>

text \<open>Every \<open>write_stream\<close> gives the transfers the composed operations need.\<close>

definition wrote :: "('s \<Rightarrow> string) \<Rightarrow> heap \<Rightarrow> 's \<Rightarrow> nat list \<Rightarrow> 's \<Rightarrow> bool" where
  "wrote sent h s as s' \<longleftrightarrow> sent s' = sent s @ map h as"

lemma write_stream_transfer:
  assumes "write_stream write_some sent"
  shows "transfer_stream (write_transfer write_some h) (wrote sent h)"
proof
  fix "as" s n ec s'
  assume "write_transfer write_some h as s = (n, ec, s')"
  then have r: "write_some (map h as) s = (n, ec, s')" by (simp add: write_transfer_def)
  show "n \<le> length as \<and> (ec \<noteq> None \<longrightarrow> n = 0) \<and> (ec = None \<and> as \<noteq> [] \<longrightarrow> 0 < n) \<and> wrote sent h s (take n as) s'"
    using write_stream.write_length [OF assms r] write_stream.write_sent [OF assms r]
      write_stream.write_error [OF assms, of "map h as" s n _ s'] write_stream.write_progress [OF assms, of "map h as" s n s'] r
    by (auto simp: wrote_def take_map)
qed (simp_all add: wrote_def)

interpretation tcp_write: transfer_stream "write_transfer tcp_write_some h" "wrote ws_sent h" for h
  by (rule write_stream_transfer) (rule tcp_out.write_stream_axioms)

lemma transfer_all_stops [simp]: "transfer_all (Some e) n = 0"
  by (simp add: transfer_all_def)

lemma transfer_all_positive [simp]: "0 < transfer_all None n"
  by (simp add: transfer_all_def default_max_transfer_size_def)

definition buffer_bytes :: "heap \<Rightarrow> buf list \<Rightarrow> string" where
  "buffer_bytes h bs = map h (seq_addrs bs)"

lemma write_cond_ok:
  assumes "\<And>e n. cond (Some e) n = 0"
  shows "\<exists>n ec s'. write_cond tcp_write_some h bs cond s = Some (n, ec, s') \<and> n \<le> length (buffer_bytes h bs)
    \<and> ws_sent s' = ws_sent s @ take n (buffer_bytes h bs)
    \<and> (ec = None \<longrightarrow> n = length (buffer_bytes h bs) \<or> cond None n = 0)"
  using tcp_write.transfer_sync_ok [where cond = cond and lim = 0 and h = h and bs = bs and w = s, OF assms]
  by (auto simp: write_cond_def wrote_def buffer_bytes_def take_map)

text \<open>
  C36. \<open>write\<close> on a TCP socket returns for every behaviour of the socket, and what has left the socket is a
  prefix of the bytes of the buffer sequence, all of them when no error is reported.
\<close>

theorem write_all_complete:
  "\<exists>n ec s'. write_all tcp_write_some h bs s = Some (n, ec, s') \<and> n \<le> length (buffer_bytes h bs)
    \<and> ws_sent s' = ws_sent s @ take n (buffer_bytes h bs)
    \<and> (ec = None \<longleftrightarrow> write_all_throw tcp_write_some h bs s = Some (Inr (length (buffer_bytes h bs), s')))"
proof -
  obtain n ec s' where r: "write_cond tcp_write_some h bs transfer_all s = Some (n, ec, s')" "n \<le> length (buffer_bytes h bs)"
    "ws_sent s' = ws_sent s @ take n (buffer_bytes h bs)" "ec = None \<longrightarrow> n = length (buffer_bytes h bs)"
    using write_cond_ok [of transfer_all h bs s] by (auto simp: transfer_all_def default_max_transfer_size_def)
  then show ?thesis by (auto simp: write_all_def write_all_throw_def throw_ec_def split: option.splits)
qed

text \<open>
  The three specialised asynchronous operations do what the general ones do: for one buffer the handler
  gets the result of \<open>write\<close>, and for an array of two buffers that of the general operation on the sequence
  of the two, with the same bytes sent.
\<close>

theorem async_write_specialisations:
  "async_write_mutable1 tcp_write_some h b transfer_all s = write_all tcp_write_some h [b] s
   \<and> async_write_const1 tcp_write_some h b transfer_all s = write_all tcp_write_some h [b] s
   \<and> async_write_boost2 tcp_write_some h (b, c) transfer_all s = async_write tcp_write_some h [b, c] s
   \<and> async_write_std2 tcp_write_some h (b, c) transfer_all s = async_write tcp_write_some h [b, c] s"
proof -
  note s = transfer_all_stops
  show ?thesis
    using tcp_write.transfer_async1_ok [of transfer_all h b s, OF s] tcp_write.transfer_async2_ok [of transfer_all h b c s, OF s]
    by (simp add: async_write_mutable1_def async_write_const1_def async_write_boost2_def async_write_std2_def
        async_write_def async_write_cond_def write_all_def write_cond_def)
qed

lemma write_streambuf_ok:
  assumes "sb_inv b" and "sb_size b \<le> INT_MAX" and "\<And>e n. cond (Some e) n = 0"
  shows "\<exists>n ec b' s'. write_streambuf tcp_write_some b cond s = Some (n, ec, b', s') \<and> sb_inv b'
    \<and> ws_sent s' @ sb_input b' = ws_sent s @ sb_input b \<and> (ec = None \<longrightarrow> sb_input b' = [] \<or> cond None n = 0)"
proof -
  have "buffer_bytes (sb_heap b) [sb_data_buf b] = sb_input b"
  proof (rule nth_equalityI)
    show "length (buffer_bytes (sb_heap b) [sb_data_buf b]) = length (sb_input b)"
      using sb_input_length [OF assms(1)] by (simp add: buffer_bytes_def sb_data_buf_def sb_data_def)
  next
    fix i assume "i < length (buffer_bytes (sb_heap b) [sb_data_buf b])"
    then have i: "i < sb_size b" by (simp add: buffer_bytes_def sb_data_buf_def sb_data_def)
    moreover have "nat (sb_gnext b) + sb_size b \<le> length (sb_buffer b)"
      using assms(1) by (auto simp: sb_inv_def sb_size_def)
    ultimately show "buffer_bytes (sb_heap b) [sb_data_buf b] ! i = sb_input b ! i"
      by (simp add: buffer_bytes_def sb_data_buf_def sb_heap_def addrs_def sb_input_def sb_data_def)
  qed
  then obtain n ec s' where r: "write_cond tcp_write_some (sb_heap b) [sb_data_buf b] cond s = Some (n, ec, s')"
    "n \<le> length (sb_input b)" "ws_sent s' = ws_sent s @ take n (sb_input b)"
    "ec = None \<longrightarrow> n = length (sb_input b) \<or> cond None n = 0"
    using write_cond_ok [of cond "sb_heap b" "[sb_data_buf b]" s, OF assms(3)] by auto
  moreover have "sb_inv (consume n b) \<and> sb_input (consume n b) = drop n (sb_input b)"
    using consume_input [OF assms(1), of n] assms(2) by auto
  ultimately show ?thesis by (auto simp: write_streambuf_def)
qed

subsection \<open>Where the asynchronous operation stops early\<close>

lemma ci_list_empties:
  "\<not> ci_at_end i \<Longrightarrow> ci_offset i < ci_max i \<Longrightarrow> bsize (ci_first i) = 0 \<Longrightarrow>
     list_all (\<lambda>b. bsize b = 0) (take k (ci_remainder i)) \<Longrightarrow> seq_addrs (take (Suc k) (ci_list i)) = []"
proof (induction k arbitrary: i)
  case 0
  then show ?case by (subst ci_list.simps) simp
next
  case (Suc k)
  show ?case
  proof (cases "ci_remainder i")
    case Nil
    then have "ci_list (ci_increment i) = []"
      using Suc.prems(1) by (subst ci_list.simps) (simp add: ci_increment_def)
    then show ?thesis using Suc.prems(3) by (subst ci_list.simps) simp
  next
    case (Cons b bs)
    let ?j = "i\<lparr>ci_first := buffer_max b (ci_max i - ci_offset i), ci_remainder := bs\<rparr>"
    have "ci_increment i = ?j" using Suc.prems(1-3) Cons by (cases i) (simp add: ci_increment_def)
    moreover have "seq_addrs (take (Suc k) (ci_list ?j)) = []"
      using Suc.IH [of ?j] Suc.prems Cons by simp
    ultimately show ?thesis using Suc.prems(1,3) by (subst ci_list.simps) simp
  qed
qed

lemma async_write_empties:
  assumes "bs \<noteq> []" and "list_all (\<lambda>b. bsize b = 0) (take 64 bs)" and "ws_open s" and "ws_stream s"
  shows "async_write tcp_write_some h bs s = Some (0, None, s)"
proof -
  obtain b cs where bs: "bs = b # cs" using assms(1) by (cases bs) auto
  let ?c = "cb_prepare (transfer_all None 0) (consuming_buffers bs)"
  have "seq_addrs (take (Suc 63) (ci_list (cb_begin ?c))) = []"
    by (rule ci_list_empties)
      (use assms(2) bs in \<open>simp_all add: cb_begin_def consuming_buffers_def cb_prepare_def\<close>)
  then have "seq_addrs (adapt_buffers (cb_list ?c)) = []"
    by (simp add: adapt_buffers_def max_buffers_def max_iov_len_def cb_list_def)
  then have "transfer_some (write_transfer tcp_write_some h) (cb_list ?c) s = (0, None, s)"
    using assms(3,4) by (cases s) (simp add: transfer_some_def write_transfer_def tcp_write_some_def sync_send_def)
  then show ?thesis
    unfolding async_write_def async_write_cond_def transfer_async_def
    by (simp add: op_call_def Let_def) (subst op_run.simps, simp add: op_run_handler op_call_def Let_def)
qed

text \<open>
  When the first 64 buffers of a sequence are empty, \<open>async_write\<close> reports success with nothing
  written, whatever follows: the adapter hands 64 buffers to the socket, and a transfer of 0 bytes without
  an error ends the operation.
\<close>

theorem async_write_stops_at_empty_buffers:
  assumes "bs \<noteq> []" and "list_all (\<lambda>b. bsize b = 0) (take 64 bs)" and "ws_open s" and "ws_stream s"
  shows "async_write tcp_write_some h bs s = Some (0, None, s)"
  using assms by (rule async_write_empties)

definition empties_then_data :: "buf list" where
  "empties_then_data = replicate 64 null_buf @ [\<lparr>bptr = 0, bsize = 5\<rparr>]"

text \<open>The synchronous \<open>write\<close> sends the five bytes behind the 64 empty buffers.\<close>

theorem async_write_stops_at_empty_buffers_witness:
  "let s = \<lparr>ws_open = True, ws_stream = True, ws_non_blocking = False, ws_os = [], ws_sent = []\<rparr>
   in async_write tcp_write_some (\<lambda>a. CHR ''x'') empties_then_data s = Some (0, None, s)
      \<and> length (buffer_bytes (\<lambda>a. CHR ''x'') empties_then_data) = 5"
proof -
  have "seq_addrs (replicate n null_buf) = []" for n by (induction n) simp_all
  then show ?thesis
    unfolding Let_def
    by (intro conjI async_write_stops_at_empty_buffers)
      (simp_all add: empties_then_data_def buffer_bytes_def list_all_iff null_buf_def)
qed

end
