(* ===== verification/Irc_Session.thy ===== *)
theory Irc_Session
  imports Fmt_Parser Irc_Scan Asio_Read_Until Asio_Write
begin

text \<open>
  The session of src/irc-client-internal.hpp and the operations that a client may call on it
  (src/irc-client.cpp, the \<open>extern "C"\<close> functions of src/irc-client.h): connect, disconnect, destroy, the
  asynchronous and the synchronous write, and the three commands that format a message and write it.

  One service with one session is modelled, run by one thread. Its state holds the queue of the
  \<open>io_service\<close> (the completions that wait for their handler, in the order in which they were posted), the
  operation the session waits for, the asynchronous writes that are under way, and the number of \<open>char\<close>
  arrays that are allocated. It also records what happened: the callbacks invoked, the output printed, and in
  \<open>cl_taken\<close> the lines \<open>thread_parse\<close> was given, with whether it could scan them. The two halves of the socket are those of \<open>Asio_Socket\<close>; what the operating
  system answers is part of them. A use of the session after \<open>cq_irc_session_destroy\<close> is undefined.
\<close>

subsection \<open>The state\<close>

text \<open>Which of the eight pointers are set.\<close>

record cq_irc_callbacks =
  signal_connect :: bool
  signal_welcome :: bool
  signal_ping :: bool
  signal_privmsg :: bool
  signal_notice :: bool
  signal_error :: bool
  signal_unknown :: bool
  signal_disconnect :: bool

fun has_callback :: "cq_irc_callbacks \<Rightarrow> event \<Rightarrow> bool" where
  "has_callback cb Welcome = signal_welcome cb"
| "has_callback cb Ping = signal_ping cb"
| "has_callback cb Privmsg = signal_privmsg cb"
| "has_callback cb Notice = signal_notice cb"
| "has_callback cb Error = signal_error cb"
| "has_callback cb Unknown = signal_unknown cb"

text \<open>An invocation of a callback, and a line the code prints.\<close>

datatype notification = Connected_to | Message event "string option" cq_irc_message | Disconnected

datatype printed =
    Failed_scanner | Failed_state | Missing_callback | Failed_parse | Echo string
  | Connection_closed | Read_failed errc | Connect_failed errc | Resolve_failed errc | Write_failed errc

text \<open>A completion in the queue: the handler it calls, with the arguments it passes.\<close>

datatype job =
    Resolved error_code
  | Connect_done error_code
  | Read_done error_code nat
  | Parse string
  | Wrote error_code nat

datatype pending = Resolving | Connecting | Reading

record write_op =
  wo_text :: string
  wo_bufs :: "buf list"
  wo_state :: "buf \<times> nat"

record client =
  cl_queue :: "job list"
  cl_stopped :: bool
  cl_alive :: bool
  cl_callbacks :: cq_irc_callbacks
  cl_generic :: bool
  cl_in :: recv_socket
  cl_out :: send_socket
  cl_shutdown :: error_code
  cl_input :: streambuf
  cl_pending :: "pending option"
  cl_writes :: "write_op list"
  cl_blocks :: nat
  cl_heard :: "notification list"
  cl_taken :: "(string \<times> bool) list"
  cl_printed :: "printed list"

definition with_session :: "client \<Rightarrow> 'a res \<Rightarrow> 'a res" where
  "with_session c r = (if cl_alive c then r else Inl (Undefined UseAfterFree))"

definition push :: "job \<Rightarrow> client \<Rightarrow> client" where
  "push j c = c\<lparr>cl_queue := cl_queue c @ [j]\<rparr>"

definition print :: "printed \<Rightarrow> client \<Rightarrow> client" where
  "print p c = c\<lparr>cl_printed := cl_printed c @ [p]\<rparr>"

subsection \<open>Connecting and closing\<close>

text \<open>The peer: what the calls on the socket will answer.\<close>

record peer =
  pe_in :: "recv_result list"
  pe_out :: "send_result list"
  pe_shutdown :: error_code

definition SIZE_MAX :: nat where
  "SIZE_MAX = 2 ^ 64 - 1"

definition session_connect :: "cq_irc_callbacks \<Rightarrow> peer \<Rightarrow> client" where
  "session_connect callbacks p =
     \<lparr>cl_queue = [], cl_stopped = False, cl_alive = True, cl_callbacks = callbacks, cl_generic = False,
      cl_in = \<lparr>rs_open = False, rs_stream = True, rs_non_blocking = False, rs_os = pe_in p\<rparr>,
      cl_out = \<lparr>ws_open = False, ws_stream = True, ws_non_blocking = False, ws_os = pe_out p, ws_sent = []\<rparr>,
      cl_shutdown = pe_shutdown p, cl_input = new_streambuf SIZE_MAX, cl_pending = Some Resolving,
      cl_writes = [], cl_blocks = 0, cl_heard = [], cl_taken = [], cl_printed = []\<rparr>"

text \<open>
  Closing the socket completes the operations that wait on it with \<open>operation_aborted\<close>: the read or the
  connect first, then the writes. The resolver is a member of its own.
\<close>

definition aborted_jobs :: "client \<Rightarrow> job list" where
  "aborted_jobs c =
     (case cl_pending c of
        Some Reading \<Rightarrow> [Read_done (Some OperationAborted) 0]
      | Some Connecting \<Rightarrow> [Connect_done (Some OperationAborted)]
      | _ \<Rightarrow> [])
     @ map (\<lambda>w. Wrote (Some OperationAborted) (snd (wo_state w))) (cl_writes c)"

definition socket_close :: "client \<Rightarrow> client" where
  "socket_close c =
     c\<lparr>cl_queue := cl_queue c @ aborted_jobs c, cl_in := (cl_in c)\<lparr>rs_open := False\<rparr>,
       cl_out := (cl_out c)\<lparr>ws_open := False\<rparr>,
       cl_pending := (if cl_pending c = Some Resolving then Some Resolving else None), cl_writes := []\<rparr>"

definition session_disconnect :: "client \<Rightarrow> client res" where
  "session_disconnect c =
     with_session c
       (if \<not> rs_open (cl_in c) then Inl (Throw (AsioError BadDescriptor ''shutdown''))
        else case cl_shutdown c of
               Some e \<Rightarrow> Inl (Throw (AsioError e ''shutdown''))
             | None \<Rightarrow> Inr (socket_close c))"

text \<open>\<open>delete session\<close>: the members go in the reverse order, the resolver before the socket.\<close>

definition cancel_resolve :: "client \<Rightarrow> client" where
  "cancel_resolve c =
     (if cl_pending c = Some Resolving then push (Resolved (Some OperationAborted)) (c\<lparr>cl_pending := None\<rparr>) else c)"

definition session_destroy :: "client \<Rightarrow> client res" where
  "session_destroy c = with_session c (Inr ((socket_close (cancel_resolve c))\<lparr>cl_alive := False\<rparr>))"

definition service_stop :: "client \<Rightarrow> client" where
  "service_stop c = c\<lparr>cl_stopped := True\<rparr>"

text \<open>Destroying the service drops what waits without calling the handlers.\<close>

definition service_destroy :: "client \<Rightarrow> client" where
  "service_destroy c = c\<lparr>cl_queue := [], cl_pending := None, cl_writes := []\<rparr>"

subsection \<open>Writing\<close>

text \<open>
  The copy both writes make: \<open>msg\<close> is the array of characters that may be read at the pointer. A negative
  \<open>len\<close> is a huge one for \<open>memcpy\<close>.
\<close>

definition frame :: "string \<Rightarrow> int \<Rightarrow> string res" where
  "frame msg len =
     (if len + 2 > int INT_MAX then Inl (Undefined SignedOverflow)
      else if len + 2 < 0 then Inl (Throw BadArrayLength)
      else if len < 0 \<or> len > int (length msg) then Inl (Undefined OutOfBounds)
      else Inr (take (nat len) msg @ [CR, LF]))"

definition text_buf :: "string \<Rightarrow> buf" where
  "text_buf t = \<lparr>bptr = 0, bsize = length t\<rparr>"

definition text_heap :: "string \<Rightarrow> heap" where
  "text_heap t = (\<lambda>a. t ! a)"

text \<open>\<open>on_write\<close>, and what a call of the write operation leads to.\<close>

definition on_write :: "error_code \<Rightarrow> nat \<Rightarrow> client \<Rightarrow> client" where
  "on_write error bytes_written c =
     (case error of None \<Rightarrow> c | Some e \<Rightarrow> print (Write_failed e) c)\<lparr>cl_blocks := cl_blocks c - 1\<rparr>"

fun place_write :: "string \<Rightarrow> (buf \<times> nat) transfer_step \<Rightarrow> client \<Rightarrow> client" where
  "place_write t (Start_transfer bufs st) c =
     c\<lparr>cl_writes := cl_writes c @ [\<lparr>wo_text = t, wo_bufs = bufs, wo_state = st\<rparr>]\<rparr>"
| "place_write t (Handler ec n) c = on_write ec n c"

definition session_write :: "string option \<Rightarrow> int \<Rightarrow> client \<Rightarrow> client res" where
  "session_write msg len c =
     (case msg of
        None \<Rightarrow> Inr c
      | Some m \<Rightarrow>
          if len = 0 then Inr c
          else ebind (frame m len) (\<lambda>t.
            with_session c (Inr (place_write t (op1_call transfer_all True None 0 (text_buf t, 0))
              (c\<lparr>cl_blocks := cl_blocks c + 1\<rparr>)))))"

text \<open>The array is allocated by \<open>new[]\<close> and released by \<open>delete\<close>.\<close>

definition session_write_sync :: "string option \<Rightarrow> int \<Rightarrow> client \<Rightarrow> client res option" where
  "session_write_sync msg len c =
     (case msg of
        None \<Rightarrow> Some (Inr c)
      | Some m \<Rightarrow>
          if len = 0 then Some (Inr c)
          else obind (Some (frame m len)) (\<lambda>t.
            obind (if cl_alive c then write_all_throw tcp_write_some (text_heap t) [text_buf t] (cl_out c)
                   else Some (Inl (Undefined UseAfterFree)))
              (\<lambda>(n, s). Some (Inl (Undefined MismatchedDelete)))))"

subsection \<open>Commands\<close>

text \<open>\<open>out.Format\<close>, then \<open>cq_irc_session_write\<close> of \<open>out.data()\<close> and \<open>out.size()\<close>, which becomes an \<open>int\<close>.\<close>

definition write_formatted :: "('d, 'l) fmt_env \<Rightarrow> string \<Rightarrow> ('d, 'l) ArgInfo list \<Rightarrow> client \<Rightarrow> client res option" where
  "write_formatted E format args c =
     obind (Format E format args new_writer) (\<lambda>out.
     obind (Some (writer_str out)) (\<lambda>t. Some (session_write (Some t) (to_int (writer_size out)) c)))"

definition session_pong :: "('d, 'l) fmt_env \<Rightarrow> string option \<Rightarrow> client \<Rightarrow> client res option" where
  "session_pong E ping c = write_formatted E ''PONG {0}'' [arg_c_str ping] c"

definition session_privmsg :: "('d, 'l) fmt_env \<Rightarrow> string option \<Rightarrow> string option \<Rightarrow> client \<Rightarrow> client res option" where
  "session_privmsg E channel message c =
     write_formatted E ''PRIVMSG {0} :{1}'' [arg_c_str channel, arg_c_str message] c"

definition session_quit :: "('d, 'l) fmt_env \<Rightarrow> string option \<Rightarrow> client \<Rightarrow> client res option" where
  "session_quit E message c =
     (case message of
        Some m \<Rightarrow> write_formatted E ''QUIT :{0}'' [arg_c_str message] c
      | None \<Rightarrow> write_formatted E ''QUIT'' [] c)"

datatype api_call =
    Write "string option" int
  | Write_sync "string option" int
  | Pong "string option"
  | Privmsg_to "string option" "string option"
  | Quit "string option"
  | Disconnect
  | Destroy
  | Stop

fun exec_call :: "('d, 'l) fmt_env \<Rightarrow> api_call \<Rightarrow> client \<Rightarrow> client res option" where
  "exec_call E (Write m n) c = Some (session_write m n c)"
| "exec_call E (Write_sync m n) c = session_write_sync m n c"
| "exec_call E (Pong p) c = session_pong E p c"
| "exec_call E (Privmsg_to ch m) c = session_privmsg E ch m c"
| "exec_call E (Quit m) c = session_quit E m c"
| "exec_call E Disconnect c = Some (session_disconnect c)"
| "exec_call E Destroy c = Some (session_destroy c)"
| "exec_call E Stop c = Some (Inr (service_stop c))"

fun exec_calls :: "('d, 'l) fmt_env \<Rightarrow> api_call list \<Rightarrow> client \<Rightarrow> client res option" where
  "exec_calls E [] c = Some (Inr c)"
| "exec_calls E (k # ks) c = obind (exec_call E k c) (exec_calls E ks)"

subsection \<open>What the commands write\<close>

lemma write_formatted_ok:
  assumes "\<forall>arg \<in> set args. is_plain arg" and "NUL \<notin> set fmt" and "length fmt \<le> 250"
  shows "write_formatted E fmt args c =
    (case format_text args 0 fmt of
       Inl e \<Rightarrow> Some (Inl e)
     | Inr t \<Rightarrow> Some (session_write (Some t) (to_int (length t)) c))"
proof -
  obtain r where r: "Format_loop E args 0 [] fmt new_writer = Some r"
    "appends new_writer (ebind (format_text args 0 fmt) (\<lambda>t. Inr ([] @ t))) r"
    using Format_loop_ok [OF assms(1) arr_ok_new_writer, of "[]" fmt E 0] assms(3) by (auto simp: new_writer_capacity)
  have F: "Format E fmt args new_writer = Some r" using r(1) assms(2) by (simp add: Format_def c_text_id)
  show ?thesis
  proof (cases "format_text args 0 fmt")
    case (Inl e)
    then show ?thesis using F r(2) by (simp add: write_formatted_def appends_def)
  next
    case (Inr t)
    then obtain w where w: "r = Inr w" "arr_ok w" "cells w = map Some t" using r(2) by (auto simp: appends_def)
    then have "writer_size w = length t" using length_cells [OF w(2)] by (simp add: writer_size_def)
    then show ?thesis using F w Inr by (simp add: write_formatted_def writer_str_def)
  qed
qed

lemma format_command:
  assumes "render ps = fmt" and "template_text args ps = r" and "length args \<le> 2 ^ 32"
    and "\<forall>k \<in> set (field_indices ps). k < length args"
  shows "format_text args 0 fmt = r"
  using format_text_render [OF assms(3), of 0 ps] assms by auto

lemma arg_layout_null: "arg_layout (arg_c_str None) new_FormatSpec = Inl (Throw (FormatError ''string pointer is null''))"
  by (simp add: arg_c_str_def new_FormatSpec_def)

lemma format_pong: "format_text [arg_c_str p] 0 ''PONG {0}'' =
    (case p of None \<Rightarrow> Inl (Throw (FormatError ''string pointer is null'')) | Some m \<Rightarrow> Inr (''PONG '' @ c_text m))"
  by (rule format_command [where ps = "[Lit ''PONG '', Field 0]"])
    (auto simp: dec_string_eval arg_layout_null arg_layout_c_str split: option.split)

lemma format_privmsg: "format_text [arg_c_str ch, arg_c_str m] 0 ''PRIVMSG {0} :{1}'' =
    (case (ch, m) of
       (Some t, Some u) \<Rightarrow> Inr (''PRIVMSG '' @ c_text t @ '' :'' @ c_text u)
     | _ \<Rightarrow> Inl (Throw (FormatError ''string pointer is null'')))"
  by (rule format_command [where ps = "[Lit ''PRIVMSG '', Field 0, Lit '' :'', Field 1]"])
    (auto simp: dec_string_eval arg_layout_null arg_layout_c_str split: option.split)

lemma format_quit: "format_text [arg_c_str (Some m)] 0 ''QUIT :{0}'' = Inr (''QUIT :'' @ c_text m)"
  by (rule format_command [where ps = "[Lit ''QUIT :'', Field 0]"])
    (auto simp: dec_string_eval arg_layout_c_str)

lemma format_quit_plain: "format_text [] 0 ''QUIT'' = Inr ''QUIT''"
  by (rule format_command [where ps = "[Lit ''QUIT'']"]) auto

definition with_write :: "string \<Rightarrow> client \<Rightarrow> client" where
  "with_write t c =
     c\<lparr>cl_writes := cl_writes c @ [\<lparr>wo_text = t, wo_bufs = [buffer_max (text_buf t) 65536], wo_state = (text_buf t, 0)\<rparr>],
       cl_blocks := cl_blocks c + 1\<rparr>"

lemma session_write_ok:
  assumes "cl_alive c" and "0 < len" and "len \<le> int (length m)" and "len + 2 \<le> int INT_MAX"
  shows "session_write (Some m) len c = Inr (with_write (take (nat len) m @ [CR, LF]) c)"
  using assms by (simp add: session_write_def frame_def with_session_def op1_call_def op1_start_def transfer_all_def
      default_max_transfer_size_def with_write_def)

lemma session_write_text:
  assumes "cl_alive c" and "t \<noteq> []" and "length t + 2 \<le> INT_MAX"
  shows "session_write (Some t) (to_int (length t)) c = Inr (with_write (t @ [CR, LF]) c)"
  using assms session_write_ok [of c "int (length t)" t] to_int_id [of "length t"] by simp

lemma plain_c_str [simp]: "is_plain (arg_c_str p)"
  by (simp add: arg_c_str_def)

lemma session_pong_eq: "session_pong E p c =
    (case p of None \<Rightarrow> Some (Inl (Throw (FormatError ''string pointer is null'')))
     | Some m \<Rightarrow> let t = ''PONG '' @ c_text m in Some (session_write (Some t) (to_int (length t)) c))"
  unfolding session_pong_def by (subst write_formatted_ok) (auto simp: format_pong Let_def simp del: format_text.simps split: option.split)

lemma session_privmsg_eq: "session_privmsg E ch m c =
    (case (ch, m) of
       (Some x, Some y) \<Rightarrow>
         let t = ''PRIVMSG '' @ c_text x @ '' :'' @ c_text y in Some (session_write (Some t) (to_int (length t)) c)
     | _ \<Rightarrow> Some (Inl (Throw (FormatError ''string pointer is null''))))"
  unfolding session_privmsg_def by (subst write_formatted_ok) (auto simp: format_privmsg Let_def simp del: format_text.simps split: option.split)

lemma session_quit_eq: "session_quit E m c =
    (let t = (case m of None \<Rightarrow> ''QUIT'' | Some x \<Rightarrow> ''QUIT :'' @ c_text x)
     in Some (session_write (Some t) (to_int (length t)) c))"
proof (cases m)
  case None
  then show ?thesis
    unfolding session_quit_def by (simp, subst write_formatted_ok) (simp_all add: format_quit_plain Let_def del: format_text.simps)
next
  case (Some x)
  then show ?thesis
    unfolding session_quit_def by (simp, subst write_formatted_ok) (simp_all add: format_quit Let_def del: format_text.simps)
qed

text \<open>
  The three commands start exactly one asynchronous write, of the command text with its arguments (up to
  their first NUL) and the line end, and change nothing else; a null argument of \<open>pong\<close> or \<open>privmsg\<close>
  throws \<open>FormatError\<close> out of the C function, while \<open>quit\<close> takes a null message.
\<close>

theorem session_commands:
  assumes "cl_alive c" and "length (c_text x) + length (c_text y) + 12 \<le> INT_MAX"
  shows "session_pong E (Some x) c = Some (Inr (with_write (''PONG '' @ c_text x @ [CR, LF]) c))
    \<and> session_privmsg E (Some x) (Some y) c
        = Some (Inr (with_write (''PRIVMSG '' @ c_text x @ '' :'' @ c_text y @ [CR, LF]) c))
    \<and> session_quit E (Some x) c = Some (Inr (with_write (''QUIT :'' @ c_text x @ [CR, LF]) c))
    \<and> session_quit E None c = Some (Inr (with_write (''QUIT'' @ [CR, LF]) c))
    \<and> session_pong E None c = Some (Inl (Throw (FormatError ''string pointer is null'')))
    \<and> session_privmsg E None m c = Some (Inl (Throw (FormatError ''string pointer is null'')))
    \<and> session_privmsg E m None c = Some (Inl (Throw (FormatError ''string pointer is null'')))"
proof -
  have w: "session_write (Some (k # t)) (to_int (length (k # t))) c = Inr (with_write ((k # t) @ [CR, LF]) c)"
    if "length t + 3 \<le> INT_MAX" for k t
    using session_write_text [OF assms(1), of "k # t"] that by simp
  have room: "length (''ONG '' @ c_text x) + 3 \<le> INT_MAX" "length (''RIVMSG '' @ c_text x @ '' :'' @ c_text y) + 3 \<le> INT_MAX"
    "length (''UIT :'' @ c_text x) + 3 \<le> INT_MAX" "length ''UIT'' + 3 \<le> INT_MAX"
    using assms(2) by simp_all
  show ?thesis
    using w [OF room(1)] w [OF room(2)] w [OF room(3)] w [OF room(4)]
    by (simp add: session_pong_eq session_privmsg_eq session_quit_eq Let_def split: option.split)
qed

definition all_callbacks :: cq_irc_callbacks where
  "all_callbacks = \<lparr>signal_connect = True, signal_welcome = True, signal_ping = True, signal_privmsg = True,
     signal_notice = True, signal_error = True, signal_unknown = True, signal_disconnect = True\<rparr>"

definition sample_client :: client where
  "sample_client = session_connect all_callbacks \<lparr>pe_in = [], pe_out = [], pe_shutdown = None\<rparr>"

lemma alive_client: "cl_alive sample_client"
  by (simp add: sample_client_def session_connect_def)

theorem session_commands_witness:
  "session_privmsg tenths_env (Some ''#chan'') (Some ''hi'') sample_client
     = Some (Inr (with_write (''PRIVMSG #chan :hi'' @ [CR, LF]) sample_client))"
  using session_commands [OF alive_client, of "''#chan''" "''hi''" tenths_env] by (simp add: c_text_def)

subsection \<open>What the scanner of another client makes of it\<close>

definition privmsg_wire :: "string \<Rightarrow> string \<Rightarrow> wire" where
  "privmsg_wire ch m =
     \<lparr>w_source = None, w_opt = [], w_command = ''PRIVMSG'', w_middles = [ch], w_trailing = Some m\<rparr>"

lemma privmsg_wire_ok:
  assumes "matches p_middle ch" and "m \<noteq> []" and "list_all is_trailing_char m"
  shows "wire_ok (privmsg_wire ch m) \<and> wire_event False (privmsg_wire ch m) = Privmsg
    \<and> wire_text (privmsg_wire ch m) = ''PRIVMSG '' @ ch @ '' :'' @ m @ [CR, LF]"
proof -
  have "accepts p_command ''PRIVMSG'' \<and> command_action ''PRIVMSG'' = Test_event Privmsg" by code_simp
  then show ?thesis using assms
    by (simp add: privmsg_wire_def wire_ok_def head_ok_def accepts_matches MAX_PARAMS_def wire_event_def
        wire_text_def wire_head_def middles_text_def)
qed



subsection \<open>The synchronous write\<close>

lemma text_bytes: "buffer_bytes (text_heap t) [text_buf t] = t"
  by (simp add: buffer_bytes_def addrs_def text_buf_def text_heap_def map_nth)

text \<open>
  \<open>cq_irc_session_write_sync\<close> never returns from a call that has something to write: it sends the text
  and the line end, a prefix of them if the socket fails, and then throws the error of the socket or releases
  with \<open>delete\<close> the array it allocated with \<open>new[]\<close>, which is undefined.
\<close>

theorem write_sync_never_returns:
  assumes "cl_alive c" and "0 < len" and "len \<le> int (length m)" and "len + 2 \<le> int INT_MAX"
  shows "\<exists>n ec s. session_write_sync (Some m) len c =
      Some (Inl (case ec of None \<Rightarrow> Undefined MismatchedDelete | Some e \<Rightarrow> Throw (AsioError e ''write'')))
    \<and> write_all tcp_write_some (text_heap (take (nat len) m @ [CR, LF])) [text_buf (take (nat len) m @ [CR, LF])] (cl_out c)
        = Some (n, ec, s)
    \<and> ws_sent s = ws_sent (cl_out c) @ take n (take (nat len) m @ [CR, LF])
    \<and> (n = nat len + 2 \<or> (\<exists>e. ec = Some e))"
proof -
  define t where "t = take (nat len) m @ [CR, LF]"
  have f: "frame m len = Inr t" using assms(2-4) by (simp add: frame_def t_def)
  have t: "length t = nat len + 2" using assms(2,3) by (simp add: t_def)
  obtain n ec s where r: "write_all tcp_write_some (text_heap t) [text_buf t] (cl_out c) = Some (n, ec, s)"
    "ws_sent s = ws_sent (cl_out c) @ take n t" "ec = None \<longrightarrow> n = length t"
    using write_cond_ok [of transfer_all "text_heap t" "[text_buf t]" "cl_out c"]
    by (auto simp: write_all_def text_bytes transfer_all_def default_max_transfer_size_def)
  have "session_write_sync (Some m) len c =
      Some (Inl (case ec of None \<Rightarrow> Undefined MismatchedDelete | Some e \<Rightarrow> Throw (AsioError e ''write'')))"
    using assms(1,2) f r(1) by (simp add: session_write_sync_def write_all_throw_def throw_ec_def split: option.split)
  then show ?thesis using r t unfolding t_def [symmetric]
    by (intro exI [of _ n] exI [of _ ec] exI [of _ s]) (cases ec, auto)
qed

theorem write_sync_never_returns_witness:
  "\<exists>e. session_write_sync (Some ''QUIT'') 4 sample_client = Some (Inl e)"
  using write_sync_never_returns [OF alive_client, of 4 "''QUIT''"] by auto

end
