(* ===== verification/Irc_Client.thy ===== *)
theory Irc_Client
  imports Irc_Session
begin

text \<open>
  The handlers of src/irc-client.cpp and the service that runs them: \<open>on_resolve\<close>, \<open>on_connect\<close>,
  \<open>on_read\<close>, \<open>thread_parse\<close> and the loop of \<open>cq_irc_service_attach\<close> as turns of one thread. A turn runs
  the first handler of the queue, completes the operation the session waits for, lets the socket take bytes
  of the oldest write, or is a call from the program's own loop. What a callback does is the list of calls
  it makes on its session, an argument of the turn; so is whether \<open>yylex_init_extra\<close> succeeds.

  A started \<open>async_read_until\<close> is completed in one turn by the operation of \<open>Asio_Read_Until\<close>: nothing else
  touches the input while it is pending.
\<close>

subsection \<open>Callbacks\<close>

definition notify :: "('d, 'l) fmt_env \<Rightarrow> api_call list \<Rightarrow> notification \<Rightarrow> client \<Rightarrow> client res option" where
  "notify E calls n c = exec_calls E calls (c\<lparr>cl_heard := cl_heard c @ [n]\<rparr>)"

text \<open>The session's pointers to the connection callbacks are called without a test.\<close>

definition call_disconnect :: "('d, 'l) fmt_env \<Rightarrow> api_call list \<Rightarrow> client \<Rightarrow> client res option" where
  "call_disconnect E calls c =
     obind (Some (with_session c (guard (signal_disconnect (cl_callbacks c)) (Undefined NullDeref))))
       (\<lambda>_. notify E calls Disconnected c)"

definition call_connect :: "('d, 'l) fmt_env \<Rightarrow> api_call list \<Rightarrow> client \<Rightarrow> client res option" where
  "call_connect E calls c =
     obind (Some (with_session c (guard (signal_connect (cl_callbacks c)) (Undefined NullDeref))))
       (\<lambda>_. notify E calls Connected_to c)"

subsection \<open>Parsing a line\<close>

text \<open>\<open>yy_scan_buffer\<close> takes a buffer that ends with two NULs, and scans what is before them.\<close>

definition yy_scan_buffer :: "string \<Rightarrow> string option" where
  "yy_scan_buffer buf =
     (if length buf < 2 \<or> buf ! (length buf - 2) \<noteq> NUL \<or> buf ! (length buf - 1) \<noteq> NUL then None
      else Some (take (length buf - 2) buf))"

fun deliver :: "('d, 'l) fmt_env \<Rightarrow> api_call list \<Rightarrow> (event \<times> string option \<times> cq_irc_message) list
    \<Rightarrow> client \<Rightarrow> client res option" where
  "deliver E calls [] c = Some (Inr c)"
| "deliver E calls ((e, cmd, m) # xs) c = obind (notify E calls (Message e cmd m) c) (deliver E calls xs)"

definition report_result :: "int \<Rightarrow> client \<Rightarrow> client" where
  "report_result result c =
     (if result > 0 then print Missing_callback c else if result < 0 then print Failed_parse c else c)"

definition thread_parse ::
  "nat \<Rightarrow> ('d, 'l) fmt_env \<Rightarrow> bool \<Rightarrow> api_call list \<Rightarrow> string \<Rightarrow> client \<Rightarrow> client res option" where
  "thread_parse csize E init_ok calls buf c =
     (if \<not> init_ok
      then Some (Inr (print Failed_scanner (c\<lparr>cl_taken := cl_taken c @ [(take (length buf - 2) buf, False)]\<rparr>)))
      else case yy_scan_buffer buf of
             None \<Rightarrow> Some (Inr (print Failed_state c))
           | Some t \<Rightarrow>
               obind (Some (with_session c (yylex csize (has_callback (cl_callbacks c)) (cl_generic c) t))) (\<lambda>(result, l).
               obind (deliver E calls (lx_sent l) (c\<lparr>cl_taken := cl_taken c @ [(t, True)]\<rparr>)) (\<lambda>c.
               let c' = report_result result (print (Echo (lx_echo l)) c)
               in Some (Inr (c'\<lparr>cl_blocks := cl_blocks c' - 1\<rparr>)))))"

subsection \<open>Reading\<close>

text \<open>
  \<open>new char[k]()\<close> and \<open>buffer_copy\<close> of the first \<open>n\<close> bytes of the input into it: the input and the new array
  in one memory.
\<close>

definition copy_line :: "streambuf \<Rightarrow> nat \<Rightarrow> nat \<Rightarrow> string res" where
  "copy_line b n k =
     (let base = length (sb_buffer b);
          h = (\<lambda>a. if a < base then sb_buffer b ! a else NUL);
          buf = \<lparr>bptr = base, bsize = k\<rparr>
      in ebind (buffer_copy_max h buf (sb_data_buf b) n) (\<lambda>(h, m). Inr (map h (addrs buf))))"

definition complete_read :: "client \<Rightarrow> client res option" where
  "complete_read c =
     obind (async_read_until_string [CR, LF] tcp_async_read_some (cl_input c) (cl_in c)) (\<lambda>(n, ec, b, s).
       Some (Inr (push (Read_done ec n) (c\<lparr>cl_input := b, cl_in := s, cl_pending := None\<rparr>))))"

text \<open>
  Starting the read: it completes at once if its first read of the socket asks for no bytes, if the socket is
  closed, or if the bytes are there already (\<open>at_once\<close>).
\<close>

definition asks_nothing :: "streambuf \<Rightarrow> bool" where
  "asks_nothing b \<longleftrightarrow> snd (until_search (search_string [CR, LF]) (Some 0) b) = 0"

definition start_read :: "bool \<Rightarrow> client \<Rightarrow> client res option" where
  "start_read at_once c =
     obind (Some (with_session c (Inr c))) (\<lambda>c.
       if at_once \<or> asks_nothing (cl_input c) \<or> \<not> rs_open (cl_in c) then complete_read c
       else Some (Inr (c\<lparr>cl_pending := Some Reading\<rparr>)))"

definition read_line :: "bool \<Rightarrow> nat \<Rightarrow> client \<Rightarrow> client res option" where
  "read_line at_once msg_size c =
     (let buf_size = to_int (msg_size + 2)
      in obind (Some (guard (buf_size \<ge> 0) (Throw BadArrayLength))) (\<lambda>_.
         obind (Some (with_session c (copy_line (cl_input c) msg_size (nat buf_size)))) (\<lambda>buf.
         obind (start_read at_once (c\<lparr>cl_input := consume msg_size (cl_input c), cl_blocks := cl_blocks c + 1\<rparr>)) (\<lambda>c.
         Some (Inr (push (Parse buf) c))))))"

definition on_read ::
  "('d, 'l) fmt_env \<Rightarrow> bool \<Rightarrow> api_call list \<Rightarrow> error_code \<Rightarrow> nat \<Rightarrow> client \<Rightarrow> client res option" where
  "on_read E at_once calls error msg_size c =
     (if error = Some Eof then call_disconnect E calls c
      else if error = Some OperationAborted then
        obind (Some (with_session c (Inr (rs_open (cl_in c))))) (\<lambda>is_open.
          if \<not> is_open
          then obind (call_disconnect E calls c) (\<lambda>c. Some (Inr (print Connection_closed c)))
          else read_line at_once msg_size c)
      else case error of
             Some e \<Rightarrow> Some (Inr (print (Read_failed e) c))
           | None \<Rightarrow> read_line at_once msg_size c)"

subsection \<open>Connecting\<close>

definition on_connect ::
  "('d, 'l) fmt_env \<Rightarrow> bool \<Rightarrow> api_call list \<Rightarrow> error_code \<Rightarrow> client \<Rightarrow> client res option" where
  "on_connect E at_once calls error c =
     (case error of
        Some e \<Rightarrow> Some (Inr (print (Connect_failed e) c))
      | None \<Rightarrow> obind (call_connect E calls c) (start_read at_once))"

definition on_resolve :: "error_code \<Rightarrow> client \<Rightarrow> client res" where
  "on_resolve error c =
     (case error of
        Some e \<Rightarrow> Inr (print (Resolve_failed e) c)
      | None \<Rightarrow> with_session c (Inr (c\<lparr>cl_pending := Some Connecting,
          cl_in := (cl_in c)\<lparr>rs_open := True\<rparr>, cl_out := (cl_out c)\<lparr>ws_open := True\<rparr>\<rparr>)))"

subsection \<open>The loop\<close>

fun run_job ::
  "nat \<Rightarrow> ('d, 'l) fmt_env \<Rightarrow> bool \<Rightarrow> bool \<Rightarrow> api_call list \<Rightarrow> job \<Rightarrow> client \<Rightarrow> client res option" where
  "run_job csize E init_ok at_once calls (Resolved ec) c = Some (on_resolve ec c)"
| "run_job csize E init_ok at_once calls (Connect_done ec) c = on_connect E at_once calls ec c"
| "run_job csize E init_ok at_once calls (Read_done ec n) c = on_read E at_once calls ec n c"
| "run_job csize E init_ok at_once calls (Parse buf) c = thread_parse csize E init_ok calls buf c"
| "run_job csize E init_ok at_once calls (Wrote ec n) c = Some (Inr (on_write ec n c))"

fun arrive :: "error_code \<Rightarrow> pending option \<Rightarrow> client \<Rightarrow> client res option" where
  "arrive ec None c = Some (Inr c)"
| "arrive ec (Some Resolving) c = Some (Inr (push (Resolved ec) (c\<lparr>cl_pending := None\<rparr>)))"
| "arrive ec (Some Connecting) c = Some (Inr (push (Connect_done ec) (c\<lparr>cl_pending := None\<rparr>)))"
| "arrive ec (Some Reading) c = complete_read c"

text \<open>The socket takes bytes of the oldest write, which then continues behind the others.\<close>

fun transmit :: "write_op list \<Rightarrow> client \<Rightarrow> client" where
  "transmit [] c = c"
| "transmit (w # ws) c =
     (case transfer_some (write_transfer tcp_async_write_some (text_heap (wo_text w))) (wo_bufs w) (cl_out c) of
        (n, ec, s) \<Rightarrow> place_write (wo_text w) (op1_call transfer_all False ec n (wo_state w))
                        (c\<lparr>cl_writes := ws, cl_out := s\<rparr>))"

datatype turn = Run bool bool "api_call list" | Arrive error_code | Transmit | Call api_call

fun enabled :: "turn \<Rightarrow> client \<Rightarrow> bool" where
  "enabled (Run init_ok at_once calls) c = (\<not> cl_stopped c \<and> cl_queue c \<noteq> [])"
| "enabled (Arrive ec) c = (\<not> cl_stopped c \<and> cl_pending c \<noteq> None)"
| "enabled Transmit c = (\<not> cl_stopped c \<and> cl_writes c \<noteq> [])"
| "enabled (Call k) c = True"

fun turn_calls :: "turn \<Rightarrow> api_call set" where
  "turn_calls (Run init_ok at_once calls) = set calls"
| "turn_calls (Call k) = {k}"
| "turn_calls _ = {}"

fun take_turn :: "nat \<Rightarrow> ('d, 'l) fmt_env \<Rightarrow> turn \<Rightarrow> client \<Rightarrow> client res option" where
  "take_turn csize E (Run init_ok at_once calls) c =
     (case cl_queue c of
        [] \<Rightarrow> Some (Inr c)
      | j # js \<Rightarrow> run_job csize E init_ok at_once calls j (c\<lparr>cl_queue := js\<rparr>))"
| "take_turn csize E (Arrive ec) c = arrive ec (cl_pending c) c"
| "take_turn csize E Transmit c = Some (Inr (transmit (cl_writes c) c))"
| "take_turn csize E (Call k) c = exec_call E k c"

text \<open>
  \<open>run\<close> returns when the service is stopped or has no work left; the session's \<open>work\<close> object keeps it
  running while the session exists. A stopped service stays stopped: nothing resets it.
\<close>

definition out_of_work :: "client \<Rightarrow> bool" where
  "out_of_work c \<longleftrightarrow> \<not> cl_alive c \<and> cl_queue c = [] \<and> cl_pending c = None \<and> cl_writes c = []"

fun service_attach :: "nat \<Rightarrow> ('d, 'l) fmt_env \<Rightarrow> turn list \<Rightarrow> client \<Rightarrow> client res option" where
  "service_attach csize E [] c = Some (Inr c)"
| "service_attach csize E (t # ts) c =
     (if cl_stopped c then Some (Inr c)
      else if out_of_work c then Some (Inr (service_stop c))
      else obind (take_turn csize E t c) (service_attach csize E ts))"

text \<open>\<open>poll\<close> runs the handlers that are ready and does not wait.\<close>

fun service_poll :: "nat \<Rightarrow> ('d, 'l) fmt_env \<Rightarrow> (bool \<times> bool \<times> api_call list) list \<Rightarrow> client \<Rightarrow> client res option" where
  "service_poll csize E [] c = Some (Inr c)"
| "service_poll csize E ((init_ok, at_once, calls) # ts) c =
     (if cl_stopped c then Some (Inr c)
      else if out_of_work c then Some (Inr (service_stop c))
      else if cl_queue c = [] then Some (Inr c)
      else obind (take_turn csize E (Run init_ok at_once calls) c) (service_poll csize E ts))"

inductive reachable :: "nat \<Rightarrow> ('d, 'l) fmt_env \<Rightarrow> api_call set \<Rightarrow> client \<Rightarrow> client \<Rightarrow> bool"
  for csize :: nat and E :: "('d, 'l) fmt_env" and A :: "api_call set" and c0 :: client where
  reach_start: "reachable csize E A c0 c0"
| reach_turn: "reachable csize E A c0 c \<Longrightarrow> enabled t c \<Longrightarrow> turn_calls t \<subseteq> A \<Longrightarrow>
     take_turn csize E t c = Some (Inr c') \<Longrightarrow> reachable csize E A c0 c'"

end
