(* ===== verification/Irc_Delivery.thy ===== *)
theory Irc_Delivery
  imports Irc_Client
begin

text \<open>
  What the client does with the bytes it receives. The reference is \<open>split_lines\<close>, which cuts a text behind
  every CRLF. An invariant of all reachable states relates the lines that have been scanned, those that wait
  in the queue, the input buffer and the bytes still to come to the text the peer sends, the callbacks to the
  results of the scanner on the scanned lines, and the allocated arrays to the handlers that will release them.
\<close>

subsection \<open>Lines\<close>

abbreviation CRLF :: string where
  "CRLF \<equiv> [CR, LF]"

definition is_line :: "string \<Rightarrow> bool" where
  "is_line l \<longleftrightarrow> find_string CRLF l = Some (length l)"

lemma find_CRLF:
  "find_string CRLF t = Some n \<longleftrightarrow> (\<exists>i. n = i + 2 \<and> occurs_at CRLF t i \<and> (\<forall>j<i. \<not> occurs_at CRLF t j))"
  using find_string_first [of CRLF t n] find_string_Some [of CRLF t] by auto

lemma occurs_take: "i + 2 \<le> n \<Longrightarrow> occurs_at CRLF (take n t) i \<longleftrightarrow> occurs_at CRLF t i"
  by (auto simp: occurs_at_def drop_take min_def)

lemma occurs_append: "i + 2 \<le> length t \<Longrightarrow> occurs_at CRLF (t @ r) i \<longleftrightarrow> occurs_at CRLF t i"
  by (auto simp: occurs_at_def)

lemma find_CRLF_le: "find_string CRLF t = Some n \<Longrightarrow> 2 \<le> n \<and> n \<le> length t"
  by (auto simp: find_CRLF occurs_at_def)

lemma is_line_take: "find_string CRLF t = Some n \<Longrightarrow> is_line (take n t)"
  using find_CRLF_le [of t n] by (auto simp: is_line_def find_CRLF occurs_take)

lemma find_line_append: "is_line l \<Longrightarrow> find_string CRLF (l @ r) = Some (length l)"
  by (auto simp: is_line_def find_CRLF occurs_append)

lemma is_line_nonempty: "is_line l \<Longrightarrow> l \<noteq> []"
  using find_CRLF_le [of l] by (auto simp: is_line_def)

function split_lines :: "string \<Rightarrow> string list" where
  "split_lines t =
     (case find_string CRLF t of None \<Rightarrow> [] | Some n \<Rightarrow> take n t # split_lines (drop n t))"
  by pat_completeness auto
termination
  by (relation "measure length") (auto dest: find_CRLF_le)

declare split_lines.simps [simp del]

lemma split_lines_line: "is_line l \<Longrightarrow> split_lines (l @ r) = l # split_lines r"
  by (subst split_lines.simps) (simp add: find_line_append)

lemma split_lines_concat:
  "\<forall>l \<in> set ls. l = [] \<or> is_line l \<Longrightarrow> split_lines (concat ls @ r) = filter (\<lambda>l. l \<noteq> []) ls @ split_lines r"
  by (induction ls) (auto simp: split_lines_line is_line_nonempty)

subsection \<open>The parts of a turn that read\<close>

lemma copy_line_ok:
  assumes "sb_inv b" and "n \<le> sb_size b" and "n \<le> k"
  shows "copy_line b n k = Inr (take n (sb_input b) @ replicate (k - n) NUL)"
proof -
  define base where "base = length (sb_buffer b)"
  define h :: heap where "h = (\<lambda>a. if a < base then sb_buffer b ! a else NUL)"
  let ?t = "\<lparr>bptr = base, bsize = k\<rparr>" and ?s = "sb_data_buf b"
  have s: "bptr ?s + bsize ?s \<le> base" "bsize ?s = sb_size b"
    using assms(1) by (auto simp: sb_data_buf_def sb_data_def sb_size_def sb_inv_def base_def)
  have inp: "map h (addrs ?s) = sb_input b"
  proof (rule nth_equalityI)
    show "length (map h (addrs ?s)) = length (sb_input b)" using s sb_input_length [OF assms(1)] by simp
    fix i assume "i < length (map h (addrs ?s))"
    then show "map h (addrs ?s) ! i = sb_input b ! i"
      using s assms(1) by (auto simp: addrs_def h_def base_def sb_input_def sb_data_def sb_data_buf_def nth_append
          sb_size_def sb_inv_def)
  qed
  have m: "min (bsize (buffer_max ?t n)) (bsize ?s) = n" using assms(2,3) s by simp
  have "set (addrs (buffer_max ?t n)) \<inter> set (addrs ?s) = {}"
    using s by (auto simp: addrs_def buffer_max_def)
  then have c: "buffer_copy h (buffer_max ?t n) ?s
      = Inr (copied h (take n (addrs ?t)) (take n (addrs ?s)), n)"
    using m buffer_copy_copied [of "buffer_max ?t n" ?s n h] by (simp add: addrs_max min_def)
  let ?h = "copied h (take n (addrs ?t)) (take n (addrs ?s))"
  have "map ?h (addrs ?t) = map ?h (take n (addrs ?t)) @ map ?h (drop n (addrs ?t))"
    by (simp flip: map_append)
  also have "map ?h (take n (addrs ?t)) = take n (sb_input b)"
    using assms(2,3) s by (subst copied_bytes) (simp_all flip: inp add: take_map)
  also have "map ?h (drop n (addrs ?t)) = replicate (k - n) NUL"
  proof (rule nth_equalityI)
    fix i assume "i < length (map ?h (drop n (addrs ?t)))"
    then have i: "i < k - n" "drop n (addrs ?t) ! i = base + n + i" by (simp_all add: addrs_def)
    moreover have "base + n + i \<notin> set (take n (addrs ?t))" using assms(3) by (simp add: addrs_def take_upt)
    ultimately show "map ?h (drop n (addrs ?t)) ! i = replicate (k - n) NUL ! i"
      by (simp add: copied_outside h_def)
  qed simp
  finally show ?thesis using c by (simp add: copy_line_def Let_def buffer_copy_max_def base_def h_def)
qed

lemma tcp_read_keeps: "tcp_async_read_some n s = (d, ec, s') \<Longrightarrow> rs_stream s \<and> rs_open s = o' \<Longrightarrow> rs_stream s' \<and> rs_open s' = o'"
  by (auto simp: tcp_async_read_some_def async_recv_def split: if_splits prod.splits)

lemma read_ok:
  assumes "sb_inv b" and "rs_stream s"
  shows "\<exists>n ec b' s'. async_read_until_string CRLF tcp_async_read_some b s = Some (Inr (n, ec, b', s'))
    \<and> sb_inv b' \<and> rs_stream s' \<and> rs_open s' = rs_open s
    \<and> sb_input b' @ socket_incoming s' = sb_input b @ socket_incoming s
    \<and> (case ec of None \<Rightarrow> find_string CRLF (sb_input b') = Some n | Some e \<Rightarrow> n = 0)"
proof (cases "rs_open s")
  case True
  then have zero: "tcp_async_read_some 0 s = ([], None, s)"
    using assms(2) by (cases s) (simp add: tcp_async_read_some_def async_recv_def)
  obtain n ec b1 b2 s' where r: "read_until_loop (search_string CRLF) tcp_async_read_some 0 b s = Some (Inr (n, ec, b1, s'))"
    "async_read_until (until_call (search_string CRLF)) tcp_async_read_some b s = Some (Inr (n, ec, b2, s'))"
    "sb_input b2 = sb_input b1" "sb_inv b2"
    using tcp_async_line.async_read_until_ok [OF assms(1) zero] by blast
  have "until_ok (find_string CRLF) socket_incoming b s (n, ec, b1, s')"
    using tcp_async_line.read_until_loop_ok [OF assms(1) tcp_async_line.searched_0, of s] r(1) by auto
  moreover have "rs_stream s' \<and> rs_open s' = rs_open s"
    by (rule until_run_keeps [where Q = "\<lambda>s'. rs_stream s' \<and> rs_open s' = rs_open s", OF _ r(2)[unfolded async_read_until_def]])
      (use assms(2) tcp_read_keeps in auto)
  ultimately show ?thesis using r
    by (auto simp: async_read_until_string_def until_call_string_def until_ok_def split: option.splits)
next
  case False
  then have "tcp_async_read_some n s = ([], Some BadDescriptor, s)" for n
    using assms(2) by (cases s) (simp add: tcp_async_read_some_def async_recv_def)
  then show ?thesis using tcp_async_line.async_read_until_fails [OF assms(1)] False assms(2)
    by (fastforce simp: async_read_until_string_def until_call_string_def)
qed

text \<open>What a read leaves in the state: one completion more, and the same text to come.\<close>

definition read_done :: "client \<Rightarrow> error_code \<Rightarrow> nat \<Rightarrow> streambuf \<Rightarrow> recv_socket \<Rightarrow> client" where
  "read_done c ec n b s =
     c\<lparr>cl_input := b, cl_in := s, cl_pending := None, cl_queue := cl_queue c @ [Read_done ec n]\<rparr>"

lemma complete_read_ok:
  assumes "sb_inv (cl_input c)" and "rs_stream (cl_in c)"
  shows "\<exists>ec n b s. complete_read c = Some (Inr (read_done c ec n b s)) \<and> sb_inv b \<and> rs_stream s
    \<and> rs_open s = rs_open (cl_in c)
    \<and> sb_input b @ socket_incoming s = sb_input (cl_input c) @ socket_incoming (cl_in c)
    \<and> (case ec of None \<Rightarrow> find_string CRLF (sb_input b) = Some n | Some e \<Rightarrow> n = 0)"
proof -
  obtain n ec b s where r: "async_read_until_string CRLF tcp_async_read_some (cl_input c) (cl_in c) = Some (Inr (n, ec, b, s))"
    "sb_inv b \<and> rs_stream s \<and> rs_open s = rs_open (cl_in c)
     \<and> sb_input b @ socket_incoming s = sb_input (cl_input c) @ socket_incoming (cl_in c)
     \<and> (case ec of None \<Rightarrow> find_string CRLF (sb_input b) = Some n | Some e \<Rightarrow> n = 0)"
    using read_ok [OF assms] by blast
  from r(1) have "complete_read c = Some (Inr (read_done c ec n b s))"
    by (simp add: complete_read_def read_done_def push_def)
  with r(2) show ?thesis by blast
qed

lemma start_read_cases:
  assumes "sb_inv (cl_input c)" and "rs_stream (cl_in c)" and "cl_alive c"
  shows "start_read at_once c = Some (Inr (c\<lparr>cl_pending := Some Reading\<rparr>))
    \<or> (\<exists>ec n b s. start_read at_once c = Some (Inr (read_done c ec n b s)) \<and> sb_inv b \<and> rs_stream s
        \<and> sb_input b @ socket_incoming s = sb_input (cl_input c) @ socket_incoming (cl_in c)
        \<and> (case ec of None \<Rightarrow> find_string CRLF (sb_input b) = Some n | Some e \<Rightarrow> n = 0))"
  using complete_read_ok [OF assms(1,2)] assms(3) by (auto simp: start_read_def with_session_def)

lemma read_line_ok:
  assumes "sb_inv (cl_input c)" and "n \<le> sb_size (cl_input c)" and "n + 2 \<le> INT_MAX" and "cl_alive c"
  shows "read_line at_once n c =
    obind (start_read at_once (c\<lparr>cl_input := consume n (cl_input c), cl_blocks := cl_blocks c + 1\<rparr>)) (\<lambda>c'.
      Some (Inr (push (Parse (take n (sb_input (cl_input c)) @ [NUL, NUL])) c')))"
proof -
  have k: "to_int (n + 2) = int (n + 2)" using assms(3) by (rule to_int_id)
  have "copy_line (cl_input c) n (nat (int (n + 2))) = Inr (take n (sb_input (cl_input c)) @ [NUL, NUL])"
    using copy_line_ok [OF assms(1,2), of "n + 2"] unfolding nat_int by (simp add: numeral_2_eq_2)
  then show ?thesis using assms(4) unfolding read_line_def k Let_def with_session_def by simp
qed

subsection \<open>The invariant\<close>

fun is_token :: "job \<Rightarrow> bool" where
  "is_token (Parse b) = False"
| "is_token (Wrote ec n) = False"
| "is_token _ = True"

fun owns_array :: "job \<Rightarrow> bool" where
  "owns_array (Parse b) = True"
| "owns_array (Wrote ec n) = True"
| "owns_array _ = False"

fun line_of :: "job \<Rightarrow> string list" where
  "line_of (Parse b) = [take (length b - 2) b]"
| "line_of _ = []"

lemma line_of_buf: "line_of (Parse (t @ [a, b])) = [t]"
  by simp

fun job_ok :: "streambuf \<Rightarrow> job \<Rightarrow> bool" where
  "job_ok b (Parse x) = (\<exists>t. x = t @ [NUL, NUL])"
| "job_ok b (Read_done ec n) = (case ec of None \<Rightarrow> find_string CRLF (sb_input b) = Some n | Some e \<Rightarrow> n = 0)"
| "job_ok b _ = True"

definition queued_lines :: "client \<Rightarrow> string list" where
  "queued_lines c = concat (map line_of (cl_queue c))"

text \<open>The operation the session waits for and the completions that will start the next one.\<close>

definition tokens :: "client \<Rightarrow> nat" where
  "tokens c = length (filter is_token (cl_queue c)) + (if cl_pending c = None then 0 else 1)"

text \<open>The arrays that a handler will release, and those lost because the scanner could not be set up for their line.\<close>

definition owned :: "client \<Rightarrow> nat" where
  "owned c = length (filter owns_array (cl_queue c)) + length (cl_writes c)"

definition lost :: "client \<Rightarrow> nat" where
  "lost c = length (filter (\<lambda>l. \<not> snd l) (cl_taken c))"

definition owed :: "client \<Rightarrow> nat" where
  "owed c = owned c + lost c"

fun message_of :: "notification \<Rightarrow> (event \<times> string option \<times> cq_irc_message) list" where
  "message_of (Message e cmd m) = [(e, cmd, m)]"
| "message_of _ = []"

definition messages :: "client \<Rightarrow> (event \<times> string option \<times> cq_irc_message) list" where
  "messages c = concat (map message_of (cl_heard c))"

definition deliveries :: "nat \<Rightarrow> client \<Rightarrow> string \<times> bool \<Rightarrow> (event \<times> string option \<times> cq_irc_message) list" where
  "deliveries csize c l =
     (if \<not> snd l then [] else case yylex csize (has_callback (cl_callbacks c)) (cl_generic c) (fst l) of Inl e \<Rightarrow> [] | Inr (r, l) \<Rightarrow> lx_sent l)"

text \<open>
  \<open>i\<close> counts a popped token, \<open>k\<close> arrays the running handler holds and \<open>ms\<close> the messages it has still to
  deliver; between two turns they are 0, 0 and empty.
\<close>

definition client_inv ::
  "nat \<Rightarrow> client \<Rightarrow> string \<Rightarrow> nat \<Rightarrow> nat \<Rightarrow> (event \<times> string option \<times> cq_irc_message) list \<Rightarrow> client \<Rightarrow> bool" where
  "client_inv csize c0 T i k ms c \<longleftrightarrow>
     cl_alive c \<and> cl_callbacks c = cl_callbacks c0 \<and> cl_generic c = cl_generic c0
     \<and> sb_inv (cl_input c) \<and> rs_stream (cl_in c)
     \<and> concat (map fst (cl_taken c) @ queued_lines c) @ sb_input (cl_input c) @ socket_incoming (cl_in c) = T
     \<and> (\<forall>l \<in> set (map fst (cl_taken c) @ queued_lines c). l = [] \<or> is_line l)
     \<and> (\<forall>j \<in> set (cl_queue c). job_ok (cl_input c) j)
     \<and> tokens c + i \<le> 1 \<and> cl_blocks c = owed c + k
     \<and> messages c @ ms = concat (map (deliveries csize c0) (cl_taken c))"

subsection \<open>What the program's calls change\<close>

definition calls_keep :: "client \<Rightarrow> client \<Rightarrow> bool" where
  "calls_keep c c' \<longleftrightarrow>
     cl_alive c' = cl_alive c \<and> cl_callbacks c' = cl_callbacks c \<and> cl_generic c' = cl_generic c
     \<and> cl_input c' = cl_input c \<and> rs_stream (cl_in c') = rs_stream (cl_in c) \<and> rs_os (cl_in c') = rs_os (cl_in c)
     \<and> cl_heard c' = cl_heard c \<and> cl_taken c' = cl_taken c
     \<and> (\<exists>js. cl_queue c' = cl_queue c @ js \<and> concat (map line_of js) = [] \<and> (\<forall>b. \<forall>j \<in> set js. job_ok b j))
     \<and> tokens c' = tokens c \<and> cl_blocks c' + owed c = cl_blocks c + owed c'"

lemma calls_keep_refl [simp]: "calls_keep c c"
  by (simp add: calls_keep_def)

lemma calls_keep_trans: "calls_keep c d \<Longrightarrow> calls_keep d e \<Longrightarrow> calls_keep c e"
  by (auto simp: calls_keep_def)

lemma calls_keep_inv: "client_inv csize c0 T i k ms c \<Longrightarrow> calls_keep c c' \<Longrightarrow> client_inv csize c0 T i k ms c'"
proof -
  assume i: "client_inv csize c0 T i k ms c" and s: "calls_keep c c'"
  have "queued_lines c' = queued_lines c" using s by (auto simp: calls_keep_def queued_lines_def)
  moreover have "\<forall>j \<in> set (cl_queue c'). job_ok (cl_input c') j"
    using i s by (auto simp: calls_keep_def client_inv_def)
  ultimately show ?thesis using i s by (simp add: client_inv_def calls_keep_def messages_def socket_incoming_def)
qed

text \<open>Outcomes: a call or handler returns with \<open>Q\<close>, or fails with \<open>P\<close>.\<close>

definition outcome :: "(failure \<Rightarrow> bool) \<Rightarrow> ('a \<Rightarrow> bool) \<Rightarrow> 'a res option \<Rightarrow> bool" where
  "outcome P Q r \<longleftrightarrow> (\<exists>x. r = Some x \<and> (case x of Inl e \<Rightarrow> P e | Inr c \<Rightarrow> Q c))"

lemma outcome_simps [simp]:
  "outcome P Q (Some (Inl e)) = P e" "outcome P Q (Some (Inr c)) = Q c"
  by (simp_all add: outcome_def)

lemma outcome_obind: "outcome P Q r \<Longrightarrow> (\<And>c. Q c \<Longrightarrow> outcome P Q' (f c)) \<Longrightarrow> outcome P Q' (obind r f)"
  by (cases "the r") (auto simp: outcome_def)

lemma outcome_mono: "outcome P Q r \<Longrightarrow> (\<And>c. Q c \<Longrightarrow> Q' c) \<Longrightarrow> outcome P Q' r"
  by (auto simp: outcome_def split: sum.splits)

text \<open>The failures a program brings about itself: an exception, a wrong length, the synchronous write.\<close>

definition tolerated :: "failure \<Rightarrow> bool" where
  "tolerated e \<longleftrightarrow> (\<exists>x. e = Throw x) \<or> e = Undefined OutOfBounds \<or> e = Undefined SignedOverflow \<or> e = Undefined MismatchedDelete"

lemma tolerated_simps [simp]:
  "tolerated (Throw x)" "tolerated (Undefined OutOfBounds)" "tolerated (Undefined SignedOverflow)"
  "tolerated (Undefined MismatchedDelete)"
  by (simp_all add: tolerated_def)

lemma session_write_keeps: "cl_alive c \<Longrightarrow> outcome tolerated (calls_keep c) (Some (session_write m n c))"
  by (auto simp: session_write_def frame_def with_session_def op1_call_def op1_start_def calls_keep_def tokens_def
      owed_def owned_def lost_def Let_def split: option.split)

lemma write_sync_keeps: "cl_alive c \<Longrightarrow> outcome tolerated (calls_keep c) (session_write_sync m n c)"
proof (cases m)
  case (Some t)
  assume alive: "cl_alive c"
  show ?thesis
  proof (cases "n = 0 \<or> (\<exists>e. frame t n = Inl e)")
    case True
    then show ?thesis using Some by (auto simp: session_write_sync_def frame_def split: if_splits)
  next
    case False
    then obtain x where x: "frame t n = Inr x" by (cases "frame t n") auto
    obtain k ec s where "write_all tcp_write_some (text_heap x) [text_buf x] (cl_out c) = Some (k, ec, s)"
      using write_cond_ok [of transfer_all "text_heap x" "[text_buf x]" "cl_out c"] by (auto simp: write_all_def)
    then show ?thesis using False Some x alive
      by (auto simp: session_write_sync_def write_all_throw_def throw_ec_def split: option.split)
  qed
qed (simp add: session_write_sync_def)

lemma socket_close_keeps: "cl_pending c \<noteq> Some Resolving \<Longrightarrow> calls_keep c (socket_close c)"
  by (cases "cl_pending c"; cases "the (cl_pending c)")
    (auto simp: socket_close_def aborted_jobs_def calls_keep_def tokens_def owed_def owned_def lost_def comp_def filter_map)

lemma exec_call_keeps:
  assumes "cl_alive c" and "k \<noteq> Destroy"
  shows "outcome tolerated (calls_keep c) (exec_call E k c)"
proof (cases k)
  case Disconnect
  then show ?thesis using assms(1)
    by (cases "cl_pending c"; cases "the (cl_pending c)")
      (auto simp: session_disconnect_def with_session_def socket_close_def aborted_jobs_def calls_keep_def tokens_def
        owed_def owned_def lost_def comp_def filter_map split: option.split)
qed (use assms session_write_keeps write_sync_keeps in \<open>auto simp: session_pong_eq session_privmsg_eq session_quit_eq
      service_stop_def calls_keep_def tokens_def owed_def owned_def lost_def Let_def split: option.split\<close>)

lemma exec_calls_keeps:
  "cl_alive c \<Longrightarrow> Destroy \<notin> set ks \<Longrightarrow> outcome tolerated (calls_keep c) (exec_calls E ks c)"
proof (induction ks arbitrary: c)
  case (Cons k ks)
  have "outcome tolerated (calls_keep c) (exec_call E k c)" using Cons.prems by (intro exec_call_keeps) auto
  then show ?case
    unfolding exec_calls.simps
  proof (rule outcome_obind)
    fix d assume d: "calls_keep c d"
    have "outcome tolerated (calls_keep d) (exec_calls E ks d)"
      using Cons.prems d by (intro Cons.IH) (simp_all add: calls_keep_def)
    then show "outcome tolerated (calls_keep c) (exec_calls E ks d)"
      using calls_keep_trans [OF d] by (rule outcome_mono)
  qed
qed simp

subsection \<open>What the handlers keep\<close>

lemma notify_inv:
  assumes "client_inv csize c0 T i k (message_of n @ ms) c" and "Destroy \<notin> set calls"
  shows "outcome tolerated (client_inv csize c0 T i k ms) (notify E calls n c)"
proof -
  let ?d = "c\<lparr>cl_heard := cl_heard c @ [n]\<rparr>"
  have d: "client_inv csize c0 T i k ms ?d"
    using assms(1) by (simp add: client_inv_def messages_def tokens_def owed_def owned_def lost_def queued_lines_def)
  then have "outcome tolerated (calls_keep ?d) (exec_calls E calls ?d)"
    using assms(2) by (intro exec_calls_keeps) (simp_all add: client_inv_def)
  then show ?thesis unfolding notify_def
    by (rule outcome_mono) (rule calls_keep_inv [OF d])
qed

lemma deliver_inv:
  "client_inv csize c0 T i k xs c \<Longrightarrow> Destroy \<notin> set calls
    \<Longrightarrow> outcome tolerated (client_inv csize c0 T i k []) (deliver E calls xs c)"
proof (induction xs arbitrary: c)
  case (Cons x xs)
  obtain e cmd m where x: "x = (e, cmd, m)" by (cases x)
  have "outcome tolerated (client_inv csize c0 T i k xs) (notify E calls (Message e cmd m) c)"
    using Cons.prems x by (intro notify_inv) simp_all
  then show ?case unfolding x deliver.simps
    by (rule outcome_obind) (use Cons in blast)
qed simp

lemma connection_callback_inv:
  assumes "client_inv csize c0 T i k [] c" and "Destroy \<notin> set calls"
  shows "signal_connect (cl_callbacks c) \<Longrightarrow> outcome tolerated (client_inv csize c0 T i k []) (call_connect E calls c)"
    and "signal_disconnect (cl_callbacks c) \<Longrightarrow> outcome tolerated (client_inv csize c0 T i k []) (call_disconnect E calls c)"
  using assms notify_inv [of csize c0 T i k Connected_to "[]" c] notify_inv [of csize c0 T i k Disconnected "[]" c]
  by (simp_all add: call_connect_def call_disconnect_def with_session_def client_inv_def)

lemma job_ok_free: "\<not> is_token j \<Longrightarrow> job_ok b j = job_ok b' j"
  by (cases j) simp_all

text \<open>The handlers that call a connection callback, when the program has left it null.\<close>

fun calls_null :: "client \<Rightarrow> job \<Rightarrow> bool" where
  "calls_null c (Connect_done ec) \<longleftrightarrow> ec = None \<and> \<not> signal_connect (cl_callbacks c)"
| "calls_null c (Read_done ec n) \<longleftrightarrow>
     (ec = Some Eof \<or> ec = Some OperationAborted \<and> \<not> rs_open (cl_in c)) \<and> \<not> signal_disconnect (cl_callbacks c)"
| "calls_null c _ \<longleftrightarrow> False"

fun runs_null :: "turn \<Rightarrow> client \<Rightarrow> bool" where
  "runs_null (Run init_ok at_once calls) c \<longleftrightarrow> (\<exists>j js. cl_queue c = j # js \<and> calls_null c j)"
| "runs_null _ c \<longleftrightarrow> False"

lemma runs_null_fails:
  "runs_null t c \<Longrightarrow> cl_alive c \<Longrightarrow> take_turn csize E t c = Some (Inl (Undefined NullDeref))"
proof -
  assume r: "runs_null t c" and alive: "cl_alive c"
  obtain init_ok at_once calls where t: "t = Run init_ok at_once calls" using r by (cases t) auto
  obtain j js where j: "cl_queue c = j # js" "calls_null c j" using r t by auto
  show ?thesis using j alive unfolding t
    by (cases j) (auto simp: on_connect_def on_read_def call_connect_def call_disconnect_def with_session_def guard_def
        split: option.splits)
qed

text \<open>The read that replaces the popped token.\<close>

lemma read_done_inv:
  assumes "client_inv csize c0 T 1 k ms c" and "sb_inv b" and "rs_stream s"
    and "sb_input b @ socket_incoming s = sb_input (cl_input c) @ socket_incoming (cl_in c)"
    and "case ec of None \<Rightarrow> find_string CRLF (sb_input b) = Some n | Some e \<Rightarrow> n = 0"
  shows "client_inv csize c0 T 0 k ms (read_done c ec n b s)"
proof -
  have free: "\<forall>j \<in> set (cl_queue c). \<not> is_token j" and p: "cl_pending c = None"
    using assms(1) by (auto simp: client_inv_def tokens_def filter_empty_conv split: if_splits)
  then have "\<forall>j \<in> set (cl_queue c). job_ok b j"
    using assms(1) job_ok_free [of _ b "cl_input c"] by (simp add: client_inv_def)
  then show ?thesis using assms p
    by (auto simp: client_inv_def read_done_def queued_lines_def tokens_def owed_def owned_def lost_def messages_def)
qed

lemma pending_inv:
  "client_inv csize c0 T 1 k ms c \<Longrightarrow> client_inv csize c0 T 0 k ms (c\<lparr>cl_pending := Some q\<rparr>)"
  by (auto simp: client_inv_def queued_lines_def tokens_def owed_def owned_def lost_def messages_def split: if_splits)

lemma start_read_inv:
  assumes "client_inv csize c0 T 1 k ms c"
  shows "outcome tolerated (client_inv csize c0 T 0 k ms) (start_read at_once c)"
proof -
  have "sb_inv (cl_input c)" "rs_stream (cl_in c)" "cl_alive c" using assms by (simp_all add: client_inv_def)
  from start_read_cases [OF this, of at_once] show ?thesis
    using pending_inv [OF assms] read_done_inv [OF assms] by auto
qed

lemma complete_read_inv:
  assumes "client_inv csize c0 T 0 k ms c" and "cl_pending c = Some Reading"
  shows "outcome tolerated (client_inv csize c0 T 0 k ms) (complete_read c)"
proof -
  have "client_inv csize c0 T 1 k ms (c\<lparr>cl_pending := None\<rparr>)"
    using assms by (auto simp: client_inv_def queued_lines_def tokens_def owed_def owned_def lost_def messages_def)
  note this' = read_done_inv [OF this]
  have "complete_read c = complete_read (c\<lparr>cl_pending := None\<rparr>)" by (simp add: complete_read_def)
  moreover have "sb_inv (cl_input c)" "rs_stream (cl_in c)" using assms by (simp_all add: client_inv_def)
  ultimately show ?thesis using complete_read_ok [of "c\<lparr>cl_pending := None\<rparr>"] this' by fastforce
qed

lemma pop_token_inv:
  assumes "client_inv csize c0 T 0 k ms c" and "cl_queue c = j # js" and "is_token j"
  shows "client_inv csize c0 T 1 k ms (c\<lparr>cl_queue := js\<rparr>)" and "job_ok (cl_input c) j"
  using assms by (cases j; simp add: client_inv_def queued_lines_def tokens_def owed_def owned_def lost_def messages_def)+

lemma on_write_inv:
  assumes "client_inv csize c0 T i (Suc k) ms c"
  shows "client_inv csize c0 T i k ms (on_write ec n c)"
  using assms by (cases ec) (simp_all add: on_write_def print_def client_inv_def queued_lines_def tokens_def owed_def owned_def lost_def messages_def)

lemma read_line_inv:
  assumes inv: "client_inv csize c0 T 1 0 [] c" and n: "n = 0 \<or> find_string CRLF (sb_input (cl_input c)) = Some n"
    and len: "length T + 2 \<le> INT_MAX"
  shows "outcome tolerated (client_inv csize c0 T 0 0 []) (read_line at_once n c)"
proof -
  let ?b = "consume n (cl_input c)" and ?l = "take n (sb_input (cl_input c))"
  let ?c = "c\<lparr>cl_input := ?b, cl_blocks := cl_blocks c + 1\<rparr>"
  have b: "sb_inv (cl_input c)" "rs_stream (cl_in c)" "cl_alive c" using inv by (simp_all add: client_inv_def)
  have free: "\<forall>j \<in> set (cl_queue c). \<not> is_token j" and p: "cl_pending c = None"
    using inv by (auto simp: client_inv_def tokens_def filter_empty_conv split: if_splits)
  have size: "n \<le> sb_size (cl_input c)" "n + 2 \<le> INT_MAX"
    using n find_CRLF_le [of "sb_input (cl_input c)" n] sb_input_length [OF b(1)] inv len
    by (auto simp: client_inv_def)
  have l: "?l = [] \<or> is_line ?l" using n is_line_take by auto
  have cons: "sb_inv ?b" "sb_input ?b = drop n (sb_input (cl_input c))"
    using consume_input [OF b(1), of n] size by auto
  have free_ok: "\<forall>j \<in> set (cl_queue c). job_ok b' j" for b'
    using inv free job_ok_free [of _ b' "cl_input c"] by (simp add: client_inv_def)
  have eq: "read_line at_once n c = obind (start_read at_once ?c) (\<lambda>c'. Some (Inr (push (Parse (?l @ [NUL, NUL])) c')))"
    using read_line_ok [OF b(1) size b(3)] .
  have td: "?l @ drop n (sb_input (cl_input c)) @ r = sb_input (cl_input c) @ r" for r
    by (metis append_assoc append_take_drop_id)
  note I = inv [unfolded client_inv_def tokens_def owed_def owned_def lost_def messages_def queued_lines_def]
  note D = client_inv_def push_def queued_lines_def tokens_def owed_def owned_def lost_def messages_def
  have "client_inv csize c0 T 0 0 [] (push (Parse (?l @ [NUL, NUL])) (?c\<lparr>cl_pending := Some Reading\<rparr>))"
    unfolding D using I p l cons(1) free_ok by (simp add: line_of_buf td cons(2) del: line_of.simps(1))
  moreover have "client_inv csize c0 T 0 0 [] (push (Parse (?l @ [NUL, NUL])) (read_done ?c ec m b' s))"
    if "sb_inv b'" "rs_stream s" "case ec of None \<Rightarrow> find_string CRLF (sb_input b') = Some m | Some e \<Rightarrow> m = 0"
      and e: "sb_input b' @ socket_incoming s = sb_input ?b @ socket_incoming (cl_in c)" for ec m b' s
    unfolding D read_done_def using I p l free_ok that(1-3) by (simp add: line_of_buf td e cons(2) del: line_of.simps(1))
  ultimately show ?thesis unfolding eq
    using start_read_cases [of ?c at_once] b(2,3) cons(1) by auto
qed

text \<open>A failing scanner has written past the parameters; a returning one has delivered what it recorded.\<close>

lemma yylex_fails: "yylex csize has g s = Inl e \<Longrightarrow> e = Undefined OutOfBounds"
  using yylex_result [where csize = csize and has = has and g = g and s = s] by simp

lemma yy_scan_buffer_line: "yy_scan_buffer (t @ [NUL, NUL]) = Some t"
  by (simp add: yy_scan_buffer_def nth_append)

lemma report_fields [simp]:
  "cl_queue (report_result r c) = cl_queue c" "cl_pending (report_result r c) = cl_pending c"
  "cl_writes (report_result r c) = cl_writes c" "cl_alive (report_result r c) = cl_alive c"
  "cl_callbacks (report_result r c) = cl_callbacks c" "cl_generic (report_result r c) = cl_generic c"
  "cl_input (report_result r c) = cl_input c" "cl_in (report_result r c) = cl_in c"
  "cl_taken (report_result r c) = cl_taken c" "cl_heard (report_result r c) = cl_heard c"
  "cl_blocks (report_result r c) = cl_blocks c"
  by (simp_all add: report_result_def print_def)

lemma thread_parse_inv:
  assumes inv: "client_inv csize c0 T 0 0 [] c" and q: "cl_queue c = Parse b # js" and calls: "Destroy \<notin> set calls"
  shows "outcome tolerated (client_inv csize c0 T 0 0 []) (thread_parse csize E init_ok calls b (c\<lparr>cl_queue := js\<rparr>))"
proof -
  obtain t where b: "b = t @ [NUL, NUL]" using inv q by (auto simp: client_inv_def)
  note D = client_inv_def queued_lines_def tokens_def owed_def owned_def lost_def messages_def
  note I = inv [unfolded D q b]
  show ?thesis
  proof (cases init_ok)
    case False
    have "client_inv csize c0 T 0 0 [] (print Failed_scanner (c\<lparr>cl_queue := js, cl_taken := cl_taken c @ [(t, False)]\<rparr>))"
      unfolding D using I by (simp add: print_def deliveries_def)
    then show ?thesis using False b by (simp add: thread_parse_def)
  next
    case True
    let ?y = "yylex csize (has_callback (cl_callbacks c)) (cl_generic c) t"
    show ?thesis
    proof (cases ?y)
      case (Inl e)
      then show ?thesis using True I yylex_fails [OF Inl]
        by (simp add: thread_parse_def b yy_scan_buffer_line with_session_def)
    next
      case (Inr rl)
      obtain r l where rl: "rl = (r, l)" by (cases rl)
      let ?d = "c\<lparr>cl_queue := js, cl_taken := cl_taken c @ [(t, True)]\<rparr>"
      have dl: "deliveries csize c0 (t, True) = lx_sent l" using Inr rl I by (simp add: deliveries_def)
      have "client_inv csize c0 T 0 1 (lx_sent l) ?d"
        unfolding D using I dl by simp
      from deliver_inv [OF this calls]
      have del: "outcome tolerated (client_inv csize c0 T 0 1 []) (deliver E calls (lx_sent l) ?d)" .
      have fin: "client_inv csize c0 T 0 0 [] (let c' = report_result r (print (Echo (lx_echo l)) d)
          in c'\<lparr>cl_blocks := cl_blocks c' - 1\<rparr>)" if "client_inv csize c0 T 0 1 [] d" for d
        using that unfolding D Let_def by (simp add: print_def)
      have "outcome tolerated (client_inv csize c0 T 0 0 [])
          (obind (deliver E calls (lx_sent l) ?d) (\<lambda>c. let c' = report_result r (print (Echo (lx_echo l)) c)
             in Some (Inr (c'\<lparr>cl_blocks := cl_blocks c' - 1\<rparr>))))"
        using del by (rule outcome_obind) (use fin in \<open>simp add: Let_def\<close>)
      then show ?thesis using True I Inr rl
        by (simp add: thread_parse_def b yy_scan_buffer_line with_session_def)
    qed
  qed
qed

lemma print_inv:
  "client_inv csize c0 T i k ms c \<Longrightarrow> client_inv csize c0 T i k ms (print p c)"
  by (simp add: print_def client_inv_def queued_lines_def tokens_def owed_def owned_def lost_def messages_def)

lemma less_tokens_inv: "client_inv csize c0 T 1 k ms c \<Longrightarrow> client_inv csize c0 T 0 k ms c"
  by (simp add: client_inv_def)

lemma on_read_inv:
  assumes inv: "client_inv csize c0 T 1 0 [] c" and ok: "job_ok (cl_input c) (Read_done ec n)"
    and cb: "\<not> calls_null c (Read_done ec n)"
    and len: "length T + 2 \<le> INT_MAX" and calls: "Destroy \<notin> set calls"
  shows "outcome tolerated (client_inv csize c0 T 0 0 []) (on_read E at_once calls ec n c)"
proof -
  have n: "n = 0 \<or> find_string CRLF (sb_input (cl_input c)) = Some n" using ok by (cases ec) auto
  have alive: "cl_alive c" using inv by (simp add: client_inv_def)
  have disc: "outcome tolerated (client_inv csize c0 T 0 0 []) (call_disconnect E calls c)"
    if "signal_disconnect (cl_callbacks c)"
    by (rule connection_callback_inv(2) [OF less_tokens_inv [OF inv] calls that])
  have "outcome tolerated (client_inv csize c0 T 0 0 [])
      (obind (call_disconnect E calls c) (\<lambda>c. Some (Inr (print Connection_closed c))))"
    if "signal_disconnect (cl_callbacks c)"
    using disc [OF that] by (rule outcome_obind) (simp add: print_inv)
  then show ?thesis
    using disc cb read_line_inv [OF inv n len] alive print_inv [OF less_tokens_inv [OF inv]]
    by (cases ec) (auto simp: on_read_def with_session_def)
qed

lemma on_connect_inv:
  assumes inv: "client_inv csize c0 T 1 0 [] c" and cb: "\<not> calls_null c (Connect_done ec)"
    and calls: "Destroy \<notin> set calls"
  shows "outcome tolerated (client_inv csize c0 T 0 0 []) (on_connect E at_once calls ec c)"
proof (cases ec)
  case None
  have "outcome tolerated (client_inv csize c0 T 1 0 []) (call_connect E calls c)"
    by (rule connection_callback_inv(1) [OF inv calls]) (use cb None in simp)
  then show ?thesis unfolding None on_connect_def option.simps
    by (rule outcome_obind) (rule start_read_inv)
qed (use print_inv [OF less_tokens_inv [OF inv]] in \<open>simp add: on_connect_def\<close>)

lemma on_resolve_inv:
  assumes inv: "client_inv csize c0 T 1 0 [] c"
  shows "outcome tolerated (client_inv csize c0 T 0 0 []) (Some (on_resolve ec c))"
proof (cases ec)
  case None
  then show ?thesis using inv
    by (auto simp: on_resolve_def with_session_def client_inv_def queued_lines_def tokens_def owed_def owned_def lost_def messages_def
        socket_incoming_def split: if_splits)
qed (use print_inv [OF less_tokens_inv [OF inv]] in \<open>simp add: on_resolve_def\<close>)

lemma transmit_inv:
  assumes "client_inv csize c0 T 0 0 [] c"
  shows "client_inv csize c0 T 0 0 [] (transmit (cl_writes c) c)"
proof (cases "cl_writes c")
  case (Cons w ws)
  obtain n ec s where r: "transfer_some (write_transfer tcp_async_write_some (text_heap (wo_text w))) (wo_bufs w) (cl_out c) = (n, ec, s)"
    by (metis prod_cases3)
  let ?d = "c\<lparr>cl_writes := ws, cl_out := s\<rparr>"
  have d: "client_inv csize c0 T 0 (Suc 0) [] ?d"
    using assms Cons by (simp add: client_inv_def queued_lines_def tokens_def owed_def owned_def lost_def messages_def)
  have "client_inv csize c0 T 0 0 [] (place_write (wo_text w) st ?d)" for st
  proof (cases st)
    case (Start_transfer bufs x)
    then show ?thesis using d by (simp add: client_inv_def queued_lines_def tokens_def owed_def owned_def lost_def messages_def)
  next
    case (Handler e m)
    then show ?thesis using on_write_inv [OF d] by simp
  qed
  then show ?thesis using Cons r by simp
qed (use assms in simp)

text \<open>The size of the arrays, \<open>msg_size + 2\<close> in an \<open>int\<close>, does not overflow.\<close>

definition short_text :: "peer \<Rightarrow> bool" where
  "short_text p \<longleftrightarrow> length (os_incoming (pe_in p)) + 2 \<le> INT_MAX"

lemma client_start_inv: "client_inv csize (session_connect cb p) (os_incoming (pe_in p)) 0 0 [] (session_connect cb p)"
  by (simp add: session_connect_def client_inv_def queued_lines_def tokens_def owed_def owned_def lost_def messages_def
      new_streambuf_ok socket_incoming_def)

lemma take_turn_inv:
  assumes inv: "client_inv csize (session_connect cb p) T 0 0 [] c" and good: "short_text p" "T = os_incoming (pe_in p)"
    and calls: "Destroy \<notin> turn_calls t" and null: "\<not> runs_null t c"
  shows "outcome tolerated (client_inv csize (session_connect cb p) T 0 0 []) (take_turn csize E t c)"
proof -
  let ?c0 = "session_connect cb p"
  have len: "length T + 2 \<le> INT_MAX"
    using good by (simp add: short_text_def)
  show ?thesis
  proof (cases t)
    case (Run init_ok at_once ks)
    have ks: "Destroy \<notin> set ks" using calls Run by simp
    show ?thesis
    proof (cases "cl_queue c")
      case (Cons j js)
      let ?d = "c\<lparr>cl_queue := js\<rparr>"
      note tok = pop_token_inv [OF inv Cons]
      have "\<not> calls_null c j" using null Run Cons by simp
      then have cb: "\<not> calls_null ?d j" by (cases j) simp_all
      have "outcome tolerated (client_inv csize ?c0 T 0 0 []) (run_job csize E init_ok at_once ks j ?d)"
      proof (cases j)
        case (Resolved ec)
        then show ?thesis using on_resolve_inv tok(1) by simp
      next
        case (Connect_done ec)
        then show ?thesis using on_connect_inv [OF _ _ ks, of csize ?c0 T ?d ec] cb tok(1) by simp
      next
        case (Read_done ec n)
        then show ?thesis using on_read_inv [of csize ?c0 T ?d ec n, OF _ _ _ len ks] cb tok by simp
      next
        case (Parse b)
        then show ?thesis using thread_parse_inv [OF inv _ ks, of b js] Cons by simp
      next
        case (Wrote ec n)
        have "client_inv csize ?c0 T 0 (Suc 0) [] ?d"
          using inv Cons Wrote by (simp add: client_inv_def queued_lines_def tokens_def owed_def owned_def lost_def messages_def)
        then show ?thesis using on_write_inv Wrote by simp
      qed
      then show ?thesis using Run Cons by simp
    qed (use Run inv in simp)
  next
    case (Arrive ec)
    show ?thesis
    proof (cases "cl_pending c")
      case (Some q)
      then show ?thesis using Arrive inv complete_read_inv [OF inv]
        by (cases q) (auto simp: push_def client_inv_def queued_lines_def tokens_def owed_def owned_def lost_def messages_def)
    qed (use Arrive inv in simp)
  next
    case Transmit
    then show ?thesis using transmit_inv [OF inv] by simp
  next
    case (Call k)
    have "outcome tolerated (calls_keep c) (exec_call E k c)"
      using calls Call inv by (intro exec_call_keeps) (auto simp: client_inv_def)
    then show ?thesis using Call calls_keep_inv [OF inv] by (auto intro: outcome_mono)
  qed
qed

lemma reachable_inv:
  assumes "reachable csize E A (session_connect cb p) c" and "short_text p" and "Destroy \<notin> A"
  shows "client_inv csize (session_connect cb p) (os_incoming (pe_in p)) 0 0 [] c"
  using assms
proof (induction rule: reachable.induct)
  case reach_start
  show ?case by (rule client_start_inv)
next
  case (reach_turn c t c')
  have inv: "client_inv csize (session_connect cb p) (os_incoming (pe_in p)) 0 0 [] c" using reach_turn by blast
  then have "\<not> runs_null t c" using runs_null_fails [of t c csize E] reach_turn.hyps by (auto simp: client_inv_def)
  then have "outcome tolerated (client_inv csize (session_connect cb p) (os_incoming (pe_in p)) 0 0 []) (take_turn csize E t c)"
    using reach_turn by (intro take_turn_inv [OF inv]) auto
  then show ?case using reach_turn.hyps by simp
qed

subsection \<open>Which lines a turn hands to the parser\<close>

fun parsed :: "bool \<Rightarrow> job \<Rightarrow> (string \<times> bool) list" where
  "parsed init_ok (Parse b) = [(take (length b - 2) b, init_ok)]"
| "parsed init_ok _ = []"

fun turn_parses :: "turn \<Rightarrow> client \<Rightarrow> (string \<times> bool) list" where
  "turn_parses (Run init_ok at_once calls) c = (case cl_queue c of [] \<Rightarrow> [] | j # js \<Rightarrow> parsed init_ok j)"
| "turn_parses _ c = []"

definition returns :: "('a \<Rightarrow> bool) \<Rightarrow> 'a res option \<Rightarrow> bool" where
  "returns Q r \<longleftrightarrow> (\<forall>x. r = Some (Inr x) \<longrightarrow> Q x)"

lemma returns_simps [simp]: "returns Q (Some (Inr x)) = Q x" "returns Q (Some (Inl e))" "returns Q None"
  by (simp_all add: returns_def)

lemma returns_obind: "returns Q r \<Longrightarrow> (\<And>x. Q x \<Longrightarrow> returns Q' (f x)) \<Longrightarrow> returns Q' (obind r f)"
  by (cases r; cases "the r") auto

lemma outcome_returns: "outcome P Q r \<Longrightarrow> returns Q r"
  by (auto simp: outcome_def returns_def)

lemma returns_mono: "returns Q r \<Longrightarrow> (\<And>x. Q x \<Longrightarrow> Q' x) \<Longrightarrow> returns Q' r"
  by (auto simp: returns_def)

definition takes_same :: "client \<Rightarrow> client \<Rightarrow> bool" where
  "takes_same c c' \<longleftrightarrow> cl_alive c' \<and> cl_taken c' = cl_taken c"

lemma takes_same_trans: "takes_same c x \<Longrightarrow> returns (takes_same x) r \<Longrightarrow> returns (takes_same c) r"
  by (auto simp: takes_same_def returns_def)

lemma notify_taken:
  assumes "cl_alive c" and "Destroy \<notin> set ks"
  shows "returns (takes_same c) (notify E ks n c)"
proof -
  let ?d = "c\<lparr>cl_heard := cl_heard c @ [n]\<rparr>"
  have "outcome tolerated (calls_keep ?d) (exec_calls E ks ?d)" using assms by (intro exec_calls_keeps) simp_all
  then show ?thesis unfolding notify_def
    by (rule outcome_returns [THEN returns_mono]) (use assms in \<open>simp add: calls_keep_def takes_same_def\<close>)
qed

lemma deliver_taken: "cl_alive c \<Longrightarrow> Destroy \<notin> set ks \<Longrightarrow> returns (takes_same c) (deliver E ks xs c)"
proof (induction xs arbitrary: c)
  case (Cons x xs)
  obtain e cmd m where x: "x = (e, cmd, m)" by (cases x)
  show ?case unfolding x deliver.simps
    by (rule returns_obind [OF notify_taken [OF Cons.prems]])
      (rule takes_same_trans, assumption, rule Cons.IH, use Cons.prems in \<open>simp_all add: takes_same_def\<close>)
qed (simp add: takes_same_def)

lemma connection_taken:
  assumes "cl_alive c" and "Destroy \<notin> set ks"
  shows "returns (takes_same c) (call_connect E ks c)" and "returns (takes_same c) (call_disconnect E ks c)"
  using notify_taken [OF assms] assms(1)
  by (auto simp: call_connect_def call_disconnect_def with_session_def guard_def)

lemma read_taken: "cl_alive c \<Longrightarrow> returns (takes_same c) (complete_read c)"
  unfolding complete_read_def
  by (rule returns_obind [where Q = "\<lambda>_. True"]) (auto simp: returns_def push_def takes_same_def)

lemma start_taken: "cl_alive c \<Longrightarrow> returns (takes_same c) (start_read at_once c)"
  using read_taken [of c] by (simp add: start_read_def with_session_def takes_same_def)

lemma read_line_taken: "cl_alive c \<Longrightarrow> returns (takes_same c) (read_line at_once n c)"
  unfolding read_line_def Let_def
  by (rule returns_obind [where Q = "\<lambda>_. True"], simp add: returns_def,
      rule returns_obind [where Q = "\<lambda>_. True"], simp add: returns_def,
      rule returns_obind [OF start_taken]) (auto simp: push_def takes_same_def)

lemma run_job_taken:
  assumes alive: "cl_alive c" and calls: "Destroy \<notin> set ks" and job: "job_ok i j"
  shows "returns (\<lambda>c'. cl_taken c' = cl_taken c @ parsed init_ok j) (run_job csize E init_ok at_once ks j c)"
proof (cases j)
  case (Connect_done ec)
  have "returns (takes_same c) (obind (call_connect E ks c) (start_read at_once))"
    by (rule returns_obind [OF connection_taken(1) [OF assms(1,2)]])
      (rule takes_same_trans, assumption, rule start_taken, simp add: takes_same_def)
  then show ?thesis unfolding Connect_done
    by (cases ec) (auto simp: on_connect_def print_def takes_same_def elim: returns_mono)
next
  case (Read_done ec n)
  note disc = connection_taken(2) [OF assms(1,2)]
  have "returns (takes_same c) (obind (call_disconnect E ks c) (\<lambda>c. Some (Inr (print Connection_closed c))))"
    by (rule returns_obind [OF disc]) (simp add: print_def takes_same_def)
  then have "returns (takes_same c) (on_read E at_once ks ec n c)"
    using disc read_line_taken [OF alive, of at_once n] alive
    by (cases ec) (auto simp: on_read_def with_session_def print_def takes_same_def)
  then show ?thesis unfolding Read_done by (auto simp: takes_same_def elim: returns_mono)
next
  case (Parse b)
  then obtain u where b: "b = u @ [NUL, NUL]" using job by auto
  have d: "returns (takes_same (c\<lparr>cl_taken := cl_taken c @ [(t, True)]\<rparr>))
      (deliver E ks xs (c\<lparr>cl_taken := cl_taken c @ [(t, True)]\<rparr>))" for t xs
    using assms by (intro deliver_taken) simp_all
  have "returns (\<lambda>c'. cl_taken c' = cl_taken c @ [(t, True)])
      (obind (deliver E ks xs (c\<lparr>cl_taken := cl_taken c @ [(t, True)]\<rparr>)) (\<lambda>c.
         let c' = report_result r (print (Echo e) c) in Some (Inr (c'\<lparr>cl_blocks := cl_blocks c' - 1\<rparr>))))" for t xs r e
    by (rule returns_obind [OF d]) (simp add: Let_def print_def takes_same_def)
  note del = this
  show ?thesis
  proof (cases "yylex csize (has_callback (cl_callbacks c)) (cl_generic c) u")
    case (Inr rl)
    then show ?thesis using alive del [of u] unfolding Parse b
      by (cases rl) (simp add: thread_parse_def yy_scan_buffer_line with_session_def print_def)
  qed (use alive in \<open>simp add: Parse b thread_parse_def yy_scan_buffer_line with_session_def print_def\<close>)
next
  case (Resolved ec)
  then show ?thesis using alive by (cases ec) (simp_all add: on_resolve_def print_def with_session_def)
next
  case (Wrote ec n)
  then show ?thesis by (cases ec) (simp_all add: on_write_def print_def)
qed

lemma transmit_taken: "cl_taken (transmit ws c) = cl_taken c"
proof (cases ws)
  case (Cons w ws')
  obtain n ec s where r: "transfer_some (write_transfer tcp_async_write_some (text_heap (wo_text w))) (wo_bufs w) (cl_out c) = (n, ec, s)"
    by (metis prod_cases3)
  have "cl_taken (place_write t st d) = cl_taken d" for t st d
    by (cases st) (simp_all add: on_write_def print_def split: option.split)
  with Cons r show ?thesis by simp
qed simp

lemma take_turn_taken:
  assumes "cl_alive c" and "Destroy \<notin> turn_calls t" and "\<forall>j \<in> set (cl_queue c). job_ok (cl_input c) j"
  shows "returns (\<lambda>c'. cl_taken c' = cl_taken c @ turn_parses t c) (take_turn csize E t c)"
proof (cases t)
  case (Run init_ok at_once ks)
  have "returns (\<lambda>c'. cl_taken c' = cl_taken c @ parsed init_ok j) (run_job csize E init_ok at_once ks j (c\<lparr>cl_queue := js\<rparr>))"
    if "cl_queue c = j # js" for j js
    using run_job_taken [of "c\<lparr>cl_queue := js\<rparr>" ks "cl_input c" j init_ok csize E at_once] assms Run that by simp
  then show ?thesis using Run by (cases "cl_queue c") simp_all
next
  case (Arrive ec)
  show ?thesis
  proof (cases "cl_pending c")
    case (Some q)
    then show ?thesis using Arrive read_taken [OF assms(1)]
      by (cases q) (auto simp: push_def takes_same_def elim: returns_mono)
  qed (simp add: Arrive)
next
  case Transmit
  then show ?thesis by (simp add: transmit_taken)
next
  case (Call k)
  have "outcome tolerated (calls_keep c) (exec_call E k c)" using assms Call by (intro exec_call_keeps) auto
  then have "returns (\<lambda>c'. cl_taken c' = cl_taken c) (exec_call E k c)"
    by (rule outcome_returns [THEN returns_mono]) (simp add: calls_keep_def)
  then show ?thesis using Call by simp
qed

subsection \<open>The lines and messages of every run\<close>

text \<open>
  C2. What a turn does in any state a session can reach whose program does not destroy it. A handler that calls a
  connection callback the program has left null dereferences it; this happens only if the program set no callback for
  connections, or none for disconnections. Every other turn returns. It leads to a state in which the session still exists,
  the lines handed to the parser have grown by the line of this turn, if it parses one, and the allocated
  arrays are those a handler will release and one for each line whose scanner could not be set up, which are lost; or it
  fails with an exception, with a length the program passed, with a line of more than 14 parameters or a character
  outside the scanner's tables, or with the synchronous write. It uses no freed session and no uninitialised signal.
\<close>

theorem client_safe:
  assumes "short_text p" and "Destroy \<notin> A" and "reachable csize E A (session_connect cb p) c" and "turn_calls t \<subseteq> A"
  shows "(runs_null t c \<longrightarrow> take_turn csize E t c = Some (Inl (Undefined NullDeref))
      \<and> (\<not> signal_connect cb \<or> \<not> signal_disconnect cb))
    \<and> (\<not> runs_null t c \<longrightarrow> (\<exists>r. take_turn csize E t c = Some r
      \<and> (case r of
           Inr c' \<Rightarrow> cl_alive c' \<and> cl_taken c' = cl_taken c @ turn_parses t c
             \<and> cl_blocks c' = owned c' + length (filter (\<lambda>l. \<not> snd l) (cl_taken c'))
         | Inl e \<Rightarrow> tolerated e)))"
proof -
  have inv: "client_inv csize (session_connect cb p) (os_incoming (pe_in p)) 0 0 [] c"
    by (rule reachable_inv [OF assms(3,1,2)])
  then have alive: "cl_alive c" and cb: "cl_callbacks c = cb" and jobs: "\<forall>j \<in> set (cl_queue c). job_ok (cl_input c) j"
    by (simp_all add: client_inv_def session_connect_def)
  have calls: "Destroy \<notin> turn_calls t" using assms(2,4) by blast
  have null: "\<not> signal_connect cb \<or> \<not> signal_disconnect cb" if "runs_null t c"
  proof -
    obtain j where "calls_null c j" using \<open>runs_null t c\<close> by (cases t) auto
    then show ?thesis using cb by (cases j) auto
  qed
  have turn: "outcome tolerated (client_inv csize (session_connect cb p) (os_incoming (pe_in p)) 0 0 []) (take_turn csize E t c)"
    if "\<not> runs_null t c"
    by (rule take_turn_inv [OF inv assms(1) refl calls that])
  note taken = take_turn_taken [OF alive calls jobs, of csize E]
  show ?thesis
  proof (intro conjI impI)
    assume n: "\<not> runs_null t c"
    obtain r where r: "take_turn csize E t c = Some r" using turn [OF n] by (auto simp: outcome_def)
    show "\<exists>r. take_turn csize E t c = Some r
      \<and> (case r of
           Inr c' \<Rightarrow> cl_alive c' \<and> cl_taken c' = cl_taken c @ turn_parses t c
             \<and> cl_blocks c' = owned c' + length (filter (\<lambda>l. \<not> snd l) (cl_taken c'))
         | Inl e \<Rightarrow> tolerated e)"
    proof (intro exI conjI, rule r)
      show "case r of
           Inr c' \<Rightarrow> cl_alive c' \<and> cl_taken c' = cl_taken c @ turn_parses t c
             \<and> cl_blocks c' = owned c' + length (filter (\<lambda>l. \<not> snd l) (cl_taken c'))
         | Inl e \<Rightarrow> tolerated e"
      proof (cases r)
        case (Inl e)
        then show ?thesis using turn [OF n] r by simp
      next
        case (Inr c')
        then have "client_inv csize (session_connect cb p) (os_incoming (pe_in p)) 0 0 [] c'" using turn [OF n] r by simp
        moreover have "cl_taken c' = cl_taken c @ turn_parses t c" using taken r Inr by simp
        ultimately show ?thesis using Inr by (simp add: client_inv_def owed_def lost_def)
      qed
    qed
  qed (use runs_null_fails [OF _ alive] null in auto)
qed

lemma client_lines_ok:
  assumes "short_text p" and "Destroy \<notin> A" and "reachable csize E A (session_connect cb p) c"
  shows "split_lines (os_incoming (pe_in p))
      = filter (\<lambda>l. l \<noteq> []) (map fst (cl_taken c) @ queued_lines c)
        @ split_lines (sb_input (cl_input c) @ socket_incoming (cl_in c))
    \<and> messages c = concat (map (deliveries csize (session_connect cb p)) (cl_taken c))"
proof -
  have inv: "client_inv csize (session_connect cb p) (os_incoming (pe_in p)) 0 0 [] c"
    by (rule reachable_inv [OF assms(3,1,2)])
  let ?ls = "map fst (cl_taken c) @ queued_lines c"
  have "split_lines (concat ?ls @ sb_input (cl_input c) @ socket_incoming (cl_in c))
      = filter (\<lambda>l. l \<noteq> []) ?ls @ split_lines (sb_input (cl_input c) @ socket_incoming (cl_in c))"
    using inv by (intro split_lines_concat) (simp add: client_inv_def)
  then show ?thesis using inv by (simp add: client_inv_def)
qed

text \<open>
  C3. In every such state the text the peer sends, cut into lines, is what the parser was given, what waits in
  the queue and what is still to come, in this order and without loss; the messages the callbacks have received
  are those the scanner finds in the lines it was given, in order.
\<close>

theorem client_lines:
  assumes "short_text p" and "Destroy \<notin> A" and "reachable csize E A (session_connect cb p) c"
  shows "split_lines (os_incoming (pe_in p))
      = filter (\<lambda>l. l \<noteq> []) (map fst (cl_taken c) @ queued_lines c)
        @ split_lines (sb_input (cl_input c) @ socket_incoming (cl_in c))
    \<and> messages c = concat (map (deliveries csize (session_connect cb p)) (cl_taken c))"
  using assms by (rule client_lines_ok)

subsection \<open>Two reads of a short packet\<close>

lemma read_size_512: "sb_inv b \<Longrightarrow> sb_input b = [] \<Longrightarrow> 512 \<le> sb_max b \<Longrightarrow> 512 \<le> read_size_helper b 65536"
  using sb_input_length [of b] by (auto simp: read_size_helper_def max_size_def)

lemma read_packet:
  assumes b: "sb_inv b" "sb_input b = []" "512 \<le> sb_max b" and s: "rs_open s" "rs_stream s" "rs_os s = Got x xs # es"
    and l: "length (x # xs) \<le> 512" "find_string CRLF (x # xs) = Some n"
  shows "\<exists>b'. async_read_until_string CRLF tcp_async_read_some b s = Some (Inr (n, None, b', s\<lparr>rs_os := es\<rparr>))
    \<and> sb_inv b' \<and> sb_input b' = x # xs \<and> sb_max b' = sb_max b"
proof -
  let ?k = "read_size_helper b 65536"
  have k: "length (x # xs) \<le> ?k" using read_size_512 [OF b] l(1) by simp
  have r: "tcp_async_read_some ?k s = (x # xs, None, s\<lparr>rs_os := es\<rparr>)"
    using s k by (cases s) (auto simp: tcp_async_read_some_def async_recv_def async_recv_loop.simps [of True _ "_ # _"])
  have more: "sb_size b \<noteq> max_size b" using b sb_input_length [OF b(1)] by (simp add: max_size_def)
  obtain b1 pos b' where b': "prepare ?k b = Inr (b1, pos, ?k)" "b' = commit (length (x # xs)) (sb_write pos (x # xs) b1)"
    "sb_inv b'" "sb_input b' = x # xs"
    using tcp_async_line.fill_from_stream [OF b(1) more r] b(2) by auto
  have m0: "search_string CRLF [] = (0, False)" by (simp add: search_string_def partial_search_def)
  obtain m where m: "search_string CRLF (x # xs) = (m, True)"
    using crlf_search.match_none [of "x # xs"] l(2) by (cases "search_string CRLF (x # xs)"; cases "snd (search_string CRLF (x # xs))") auto
  then have mn: "m = n" using crlf_search.match_found [OF m] l(2) by simp
  have loop: "read_until_loop (search_string CRLF) tcp_async_read_some 0 b s = Some (Inr (n, None, b', s\<lparr>rs_os := es\<rparr>))"
    using more r b' b(2) m0 m mn
    by (subst read_until_loop.simps, simp add: Let_def, subst read_until_loop.simps) (simp add: Let_def)
  have zero: "tcp_async_read_some 0 s = ([], None, s)" using s by (cases s) (simp add: tcp_async_read_some_def async_recv_def)
  show ?thesis using tcp_async_line.async_read_until_ok [OF b(1) zero] loop b'(4)
    by (auto simp: async_read_until_string_def until_call_string_def)
qed

lemma read_end:
  assumes b: "sb_inv b" "sb_input b = []" "512 \<le> sb_max b" and s: "rs_open s" "rs_stream s" "rs_os s = []"
  shows "\<exists>b'. async_read_until_string CRLF tcp_async_read_some b s = Some (Inr (0, Some Eof, b', s))
    \<and> sb_inv b' \<and> sb_input b' = [] \<and> sb_max b' = sb_max b"
proof -
  let ?k = "read_size_helper b 65536"
  have k: "0 < ?k" using read_size_512 [OF b] by simp
  have r: "tcp_async_read_some ?k s = ([], Some Eof, s)"
    using s k by (cases s) (auto simp: tcp_async_read_some_def async_recv_def async_recv_loop.simps [of True _ "[]"])
  have more: "sb_size b \<noteq> max_size b" using b sb_input_length [OF b(1)] by (simp add: max_size_def)
  obtain b1 pos b' where b': "prepare ?k b = Inr (b1, pos, ?k)" "b' = commit 0 (sb_write pos [] b1)"
    "sb_inv b'" "sb_input b' = []"
    using tcp_async_line.fill_from_stream [OF b(1) more r] b(2) by auto
  have m0: "search_string CRLF [] = (0, False)" by (simp add: search_string_def partial_search_def)
  have loop: "read_until_loop (search_string CRLF) tcp_async_read_some 0 b s = Some (Inr (0, Some Eof, b', s))"
    using more r b' b(2) m0 by (subst read_until_loop.simps) (simp add: Let_def)
  have zero: "tcp_async_read_some 0 s = ([], None, s)" using s by (cases s) (simp add: tcp_async_read_some_def async_recv_def)
  show ?thesis using tcp_async_line.async_read_until_ok [OF b(1) zero] loop b'(4)
    by (auto simp: async_read_until_string_def until_call_string_def)
qed

subsection \<open>A server that sends one line and closes the connection\<close>

definition one_line_peer :: "string \<Rightarrow> peer" where
  "one_line_peer l = \<lparr>pe_in = [Got (hd l) (tl l)], pe_out = [], pe_shutdown = None\<rparr>"

lemma reach_next:
  "reachable csize E A c0 c \<Longrightarrow> take_turn csize E t c = Some (Inr c') \<Longrightarrow> enabled t c \<Longrightarrow> turn_calls t \<subseteq> A
    \<Longrightarrow> reachable csize E A c0 c'"
  by (rule reach_turn)

lemma connecting_run:
  "\<exists>c. reachable csize E A (session_connect cb p) c \<and> enabled (Run a b ks) c
    \<and> c = (session_connect cb p)\<lparr>cl_pending := None, cl_queue := [Connect_done None],
        cl_in := (cl_in (session_connect cb p))\<lparr>rs_open := True\<rparr>, cl_out := (cl_out (session_connect cb p))\<lparr>ws_open := True\<rparr>\<rparr>"
proof -
  let ?c0 = "session_connect cb p"
  let ?o = "\<lambda>q js. ?c0\<lparr>cl_pending := q, cl_queue := js,
      cl_in := (cl_in ?c0)\<lparr>rs_open := True\<rparr>, cl_out := (cl_out ?c0)\<lparr>ws_open := True\<rparr>\<rparr>"
  have "reachable csize E A ?c0 (?c0\<lparr>cl_pending := None, cl_queue := [Resolved None]\<rparr>)"
    by (rule reach_next [OF reach_start, where t = "Arrive None"]) (simp_all add: session_connect_def push_def)
  then have "reachable csize E A ?c0 (?o (Some Connecting) [])"
    by (rule reach_next [where t = "Run True True []"]) (simp_all add: session_connect_def on_resolve_def with_session_def)
  then have "reachable csize E A ?c0 (?o None [Connect_done None])"
    by (rule reach_next [where t = "Arrive None"]) (simp_all add: session_connect_def push_def)
  then show ?thesis by (simp add: session_connect_def)
qed

lemma one_line_run:
  assumes l: "is_line l" "length l \<le> 512" and cb: "signal_connect cb"
  shows "\<exists>c. reachable csize E A (session_connect cb (one_line_peer l)) c
    \<and> cl_queue c = [Read_done (Some Eof) 0, Parse (l @ [NUL, NUL])] \<and> cl_pending c = None \<and> cl_writes c = []
    \<and> cl_alive c \<and> \<not> cl_stopped c \<and> cl_callbacks c = cb \<and> cl_taken c = [] \<and> cl_heard c = [Connected_to]"
proof -
  let ?c0 = "session_connect cb (one_line_peer l)"
  obtain x xs where x: "l = x # xs" using is_line_nonempty [OF l(1)] by (cases l) auto
  let ?s = "(cl_in ?c0)\<lparr>rs_open := True\<rparr>"
  let ?o = "?c0\<lparr>cl_pending := None, cl_queue := [Connect_done None], cl_in := ?s,
      cl_out := (cl_out ?c0)\<lparr>ws_open := True\<rparr>\<rparr>"
  have r0: "reachable csize E A ?c0 ?o"
    using connecting_run [of csize E A cb "one_line_peer l"] by blast
  have "sb_max (cl_input ?c0) = SIZE_MAX" "sb_inv (cl_input ?c0)" "sb_input (cl_input ?c0) = []"
    using new_streambuf_ok [of SIZE_MAX] by (simp_all add: session_connect_def)
  note b0 = this
  have max: "512 \<le> SIZE_MAX" by (simp add: SIZE_MAX_def)
  obtain b1 where b1: "async_read_until_string CRLF tcp_async_read_some (cl_input ?c0) ?s = Some (Inr (length l, None, b1, ?s\<lparr>rs_os := []\<rparr>))"
    "sb_inv b1" "sb_input b1 = l" "sb_max b1 = SIZE_MAX"
    using read_packet [OF b0(2,3), of ?s x xs "[]" "length l"] b0(1) max l x
    by (auto simp: session_connect_def one_line_peer_def is_line_def)
  let ?c1 = "?o\<lparr>cl_queue := [Read_done None (length l)], cl_heard := [Connected_to], cl_input := b1, cl_in := ?s\<lparr>rs_os := []\<rparr>\<rparr>"
  have "take_turn csize E (Run True True []) ?o = Some (Inr ?c1)"
    using b1(1) cb
    by (simp add: on_connect_def call_connect_def notify_def start_read_def complete_read_def push_def with_session_def
        session_connect_def guard_def)
  from reach_next [OF r0 this] have r1: "reachable csize E A ?c0 ?c1" by (simp add: session_connect_def)
  have sz: "length l \<le> sb_size b1" using sb_input_length [OF b1(2)] b1(3) by simp
  have cons: "sb_inv (consume (length l) b1)" "sb_input (consume (length l) b1) = []" "512 \<le> sb_max (consume (length l) b1)"
    using consume_input [OF b1(2), of "length l"] l(2) b1(3,4) max by auto
  obtain b2 where b2: "async_read_until_string CRLF tcp_async_read_some (consume (length l) b1) (?s\<lparr>rs_os := []\<rparr>)
      = Some (Inr (0, Some Eof, b2, ?s\<lparr>rs_os := []\<rparr>))"
    using read_end [OF cons, of "?s\<lparr>rs_os := []\<rparr>"] by (auto simp: session_connect_def)
  let ?d1 = "?c1\<lparr>cl_queue := []\<rparr>"
  have "read_line True (length l) ?d1 =
      Some (Inr (?d1\<lparr>cl_input := b2, cl_blocks := 1, cl_queue := [Read_done (Some Eof) 0, Parse (l @ [NUL, NUL])]\<rparr>))"
    using read_line_ok [of ?d1 "length l" True] b1 b2 sz l(2)
    by (simp add: start_read_def complete_read_def push_def with_session_def session_connect_def)
  then have "take_turn csize E (Run True True []) ?c1 =
      Some (Inr (?d1\<lparr>cl_input := b2, cl_blocks := 1, cl_queue := [Read_done (Some Eof) 0, Parse (l @ [NUL, NUL])]\<rparr>))"
    by (simp add: on_read_def)
  from reach_next [OF r1 this] show ?thesis
    by (intro exI [of _ "?d1\<lparr>cl_input := b2, cl_blocks := 1,
        cl_queue := [Read_done (Some Eof) 0, Parse (l @ [NUL, NUL])]\<rparr>"]) (simp add: session_connect_def)
qed

definition ping_line :: string where
  "ping_line = ''PING :x'' @ CRLF"

lemma ping_line_ok: "is_line ping_line" "length ping_line \<le> 512" "length ping_line + 2 \<le> INT_MAX"
  by (simp_all add: ping_line_def is_line_def is_prefix_def)

lemma short_ping: "short_text (one_line_peer ping_line)"
  using ping_line_ok by (simp add: short_text_def one_line_peer_def is_line_nonempty)

lemma ping_run:
  "\<exists>c. reachable csize E A (session_connect all_callbacks (one_line_peer ping_line)) c
    \<and> cl_queue c = [Read_done (Some Eof) 0, Parse (ping_line @ [NUL, NUL])] \<and> cl_taken c = []"
  using one_line_run [OF ping_line_ok(1,2), of all_callbacks csize E A] by (auto simp: all_callbacks_def)

text \<open>The end of the stream is handled by a program without a callback for it, and then by one that has it and quits.\<close>

theorem client_safe_witness:
  "(\<exists>c. cl_queue c = [Read_done (Some Eof) 0, Parse (ping_line @ [NUL, NUL])]
      \<and> take_turn 128 tenths_env (Run True True []) c = Some (Inl (Undefined NullDeref)))
    \<and> (\<exists>c r. cl_queue c = [Read_done (Some Eof) 0, Parse (ping_line @ [NUL, NUL])]
      \<and> take_turn 128 tenths_env (Run True True [Quit None]) c = Some r
      \<and> (case r of Inr c' \<Rightarrow> cl_alive c' \<and> cl_taken c' = [] \<and> cl_blocks c' = owned c' | Inl e \<Rightarrow> tolerated e))"
proof -
  let ?cb = "all_callbacks\<lparr>signal_disconnect := False\<rparr>"
  obtain c where c: "reachable 128 tenths_env {} (session_connect ?cb (one_line_peer ping_line)) c"
    "cl_queue c = [Read_done (Some Eof) 0, Parse (ping_line @ [NUL, NUL])]" "cl_callbacks c = ?cb"
    using one_line_run [OF ping_line_ok(1,2), of ?cb 128 tenths_env "{}"] by (auto simp: all_callbacks_def)
  have null: "take_turn 128 tenths_env (Run True True []) c = Some (Inl (Undefined NullDeref))"
    using client_safe [OF short_ping _ c(1), of "Run True True []"] c(2,3) by simp
  obtain d where d: "reachable 128 tenths_env {Quit None} (session_connect all_callbacks (one_line_peer ping_line)) d"
    "cl_queue d = [Read_done (Some Eof) 0, Parse (ping_line @ [NUL, NUL])]" "cl_callbacks d = all_callbacks" "cl_taken d = []"
    using one_line_run [OF ping_line_ok(1,2), of all_callbacks 128 tenths_env "{Quit None}"] by (auto simp: all_callbacks_def)
  have "signal_disconnect (cl_callbacks d)" using d(3) by (simp add: all_callbacks_def)
  then have "\<exists>r. take_turn 128 tenths_env (Run True True [Quit None]) d = Some r
      \<and> (case r of Inr c' \<Rightarrow> cl_alive c' \<and> cl_taken c' = [] \<and> cl_blocks c' = owned c' | Inl e \<Rightarrow> tolerated e)"
    using client_safe [OF short_ping _ d(1), of "Run True True [Quit None]"] d(2,4)
    by (auto split: sum.splits)
  then show ?thesis using null c(2) d(2) by blast
qed

theorem client_lines_witness:
  "\<exists>c. cl_queue c = [Read_done (Some Eof) 0, Parse (ping_line @ [NUL, NUL])]
    \<and> split_lines ping_line = ping_line # split_lines (sb_input (cl_input c) @ socket_incoming (cl_in c))
    \<and> messages c = []"
proof -
  obtain c where c: "reachable 256 tenths_env {} (session_connect all_callbacks (one_line_peer ping_line)) c"
    "cl_queue c = [Read_done (Some Eof) 0, Parse (ping_line @ [NUL, NUL])]" "cl_taken c = []"
    using ping_run by fastforce
  have "os_incoming (pe_in (one_line_peer ping_line)) = ping_line"
    using is_line_nonempty [OF ping_line_ok(1)] by (simp add: one_line_peer_def)
  then show ?thesis using client_lines [OF short_ping _ c(1)] c(2,3) is_line_nonempty [OF ping_line_ok(1)]
    by (intro exI [of _ c]) (simp add: queued_lines_def)
qed

text \<open>
  C6. A program that destroys its session when it hears of the disconnection, as tests/test1.c does, makes the
  client use the freed session: if the server sends any complete line and closes the connection, the end of
  the stream can be handled before the line is parsed, and the parser then reads the session's callbacks.
\<close>

theorem destroy_uses_freed_session:
  assumes "is_line l" and "length l \<le> 512" and "signal_connect cb" and "signal_disconnect cb"
  shows "\<exists>c. reachable csize E {Destroy} (session_connect cb (one_line_peer l)) c \<and> enabled (Run True True []) c
    \<and> cl_heard c = [Connected_to, Disconnected]
    \<and> take_turn csize E (Run True True []) c = Some (Inl (Undefined UseAfterFree))"
proof -
  obtain c where c: "reachable csize E {Destroy} (session_connect cb (one_line_peer l)) c"
    "cl_queue c = [Read_done (Some Eof) 0, Parse (l @ [NUL, NUL])]" "cl_pending c = None" "cl_writes c = []"
    "cl_alive c" "\<not> cl_stopped c" "cl_callbacks c = cb" "cl_heard c = [Connected_to]"
    using one_line_run [OF assms(1-3)] by blast
  let ?d = "(socket_close (c\<lparr>cl_queue := [Parse (l @ [NUL, NUL])], cl_heard := [Connected_to, Disconnected]\<rparr>))\<lparr>cl_alive := False\<rparr>"
  have "take_turn csize E (Run True True [Destroy]) c = Some (Inr ?d)"
    using c assms(4)
    by (simp add: on_read_def call_disconnect_def notify_def with_session_def guard_def session_destroy_def cancel_resolve_def)
  then have "reachable csize E {Destroy} (session_connect cb (one_line_peer l)) ?d"
    using c(2,6) by (intro reach_next [OF c(1), where t = "Run True True [Destroy]"]) simp_all
  moreover have "cl_queue ?d = [Parse (l @ [NUL, NUL])]" "\<not> cl_stopped ?d" "cl_heard ?d = [Connected_to, Disconnected]"
    using c(3,4,6) by (simp_all add: socket_close_def aborted_jobs_def)
  moreover have "take_turn csize E (Run True True []) ?d = Some (Inl (Undefined UseAfterFree))"
    using calculation(2) by (simp add: thread_parse_def yy_scan_buffer_line with_session_def del: append.simps)
  ultimately show ?thesis by (intro exI [of _ ?d]) simp
qed

theorem destroy_uses_freed_session_witness:
  "\<exists>c. reachable 256 tenths_env {Destroy} (session_connect all_callbacks (one_line_peer ping_line)) c
    \<and> take_turn 256 tenths_env (Run True True []) c = Some (Inl (Undefined UseAfterFree))"
  using destroy_uses_freed_session [OF ping_line_ok(1,2), of all_callbacks 256 tenths_env] by (auto simp: all_callbacks_def)

subsection \<open>From the server's messages to the callbacks\<close>

text \<open>A well-formed message without a CR before its end is one line.\<close>

definition one_line_wire :: "wire \<Rightarrow> bool" where
  "one_line_wire w \<longleftrightarrow> wire_ok w \<and> CR \<notin> set (w_opt w)"

lemma no_CR_line:
  assumes "CR \<notin> set t"
  shows "is_line (t @ CRLF)"
proof -
  have "\<not> occurs_at CRLF (t @ CRLF) j" if "j < length t" for j
  proof
    assume "occurs_at CRLF (t @ CRLF) j"
    then have "take (length CRLF) (drop j (t @ CRLF)) = CRLF" unfolding occurs_at_def by blast
    from arg_cong [OF this, of hd] have "(t @ CRLF) ! j = CR"
      using that by (simp add: hd_take hd_drop_conv_nth del: drop_append)
    then show False using that assms nth_mem [of j t] by (simp add: nth_append)
  qed
  moreover have "occurs_at CRLF (t @ CRLF) (length t)" by (simp add: occurs_at_def)
  ultimately show ?thesis unfolding is_line_def find_CRLF by (intro exI [of _ "length t"]) simp
qed

lemma wire_line:
  assumes "one_line_wire w"
  shows "is_line (wire_text w)"
proof -
  have w: "wire_ok w" "CR \<notin> set (w_opt w)" using assms by (simp_all add: one_line_wire_def)
  have no_name: "\<not> is_name_char CR" by code_simp
  have name: "CR \<notin> set s" if "matches (Alt p_nickname p_servername) s" for s
    using that nickname_chars servername_chars no_name by auto
  have "CR \<notin> set (wire_head w)"
    using w name by (auto simp: wire_ok_def head_ok_def wire_head_def split: option.splits)
  moreover have "CR \<notin> set (w_command w)"
    using w command_alnum [of "w_command w"] by (auto simp: wire_ok_def head_ok_def)
  moreover have "CR \<notin> set (middles_text (w_middles w))"
    using w by (auto simp: wire_ok_def head_ok_def middles_text_def list_all_iff matches_middle is_middle_char_def)
  moreover have "CR \<notin> set (case w_trailing w of None \<Rightarrow> [] | Some x \<Rightarrow> '' :'' @ x)"
    using w by (auto simp: wire_ok_def list_all_iff is_trailing_char_def split: option.splits)
  ultimately show ?thesis
    using no_CR_line [of "wire_head w @ w_command w @ middles_text (w_middles w)
      @ (case w_trailing w of None \<Rightarrow> [] | Some x \<Rightarrow> '' :'' @ x)"] by (simp add: wire_text_def)
qed

definition expected :: "cq_irc_callbacks \<Rightarrow> wire \<Rightarrow> (event \<times> string option \<times> cq_irc_message) list" where
  "expected cb w = (if has_callback cb (wire_event False w) then [wire_delivery False w] else [])"

lemma deliveries_wire:
  assumes "wire_ok w" and "\<not> cl_generic c" and "\<forall>x \<in> set (wire_text w). code x < csize"
  shows "deliveries csize c (wire_text w, True) = expected (cl_callbacks c) w"
  using yylex_wire [OF assms(1) refl, where g = False and has = "has_callback (cl_callbacks c)" and t = "[]"] assms(2)
    yylex_within [OF assms(3), of "has_callback (cl_callbacks c)" False]
  by (auto simp: deliveries_def expected_def)

lemma deliveries_nothing: "deliveries csize c ([], ok) = []"
  by (simp add: deliveries_def yylex_def lex_loop.simps lex_step_def start_lexer_def yy_push_state_def Let_def
      free_command_def destroy_message_def)

lemma deliveries_lines:
  "\<forall>x \<in> set xs. snd x \<Longrightarrow> concat (map (deliveries csize c) xs)
    = concat (map (\<lambda>t. deliveries csize c (t, True)) (filter (\<lambda>l. l \<noteq> []) (map fst xs)))"
proof (induction xs)
  case (Cons x xs)
  then show ?case by (cases x; cases "fst x") (simp_all add: deliveries_nothing)
qed simp

lemma client_delivers_ok:
  assumes "short_text p" and "Destroy \<notin> A" and "reachable csize E A (session_connect cb p) c"
    and T: "os_incoming (pe_in p) = concat (map wire_text ws) @ r" "find_string CRLF r = None"
    and ws: "\<forall>w \<in> set ws. one_line_wire w" and scanned: "\<forall>x \<in> set (cl_taken c). snd x"
    and table: "\<forall>w \<in> set ws. \<forall>x \<in> set (wire_text w). code x < csize"
  shows "\<exists>k \<le> length ws. messages c = concat (map (expected cb) (take k ws))
    \<and> (queued_lines c = [] \<and> split_lines (sb_input (cl_input c) @ socket_incoming (cl_in c)) = [] \<longrightarrow> k = length ws)"
proof -
  let ?c0 = "session_connect cb p"
  let ?f = "filter (\<lambda>l. l \<noteq> [])"
  have cl: "split_lines (os_incoming (pe_in p)) = ?f (map fst (cl_taken c) @ queued_lines c)
        @ split_lines (sb_input (cl_input c) @ socket_incoming (cl_in c))"
    and ms: "messages c = concat (map (deliveries csize ?c0) (cl_taken c))"
    using client_lines_ok [OF assms(1-3)] by simp_all
  have lines: "\<forall>l \<in> set (map wire_text ws). is_line l" using ws wire_line by simp
  have "split_lines r = []" using T(2) by (simp add: split_lines.simps [of r])
  then have "split_lines (os_incoming (pe_in p)) = map wire_text ws"
    using split_lines_concat [of "map wire_text ws" r] lines T(1) is_line_nonempty
    by (auto simp: filter_id_conv)
  with cl have eq: "map wire_text ws = ?f (map fst (cl_taken c)) @ ?f (queued_lines c)
        @ split_lines (sb_input (cl_input c) @ socket_incoming (cl_in c))" by simp
  define k where "k = length (?f (map fst (cl_taken c)))"
  have "take k (map wire_text ws) = ?f (map fst (cl_taken c))" unfolding eq k_def by simp
  then have taken: "?f (map fst (cl_taken c)) = map wire_text (take k ws)" by (simp add: take_map)
  have len: "length ws = k + length (?f (queued_lines c)) + length (split_lines (sb_input (cl_input c) @ socket_incoming (cl_in c)))"
    using arg_cong [OF eq, of length] by (simp add: k_def)
  have "deliveries csize ?c0 (wire_text w, True) = expected cb w" if "w \<in> set ws" for w
    using deliveries_wire [of w ?c0 csize] ws table that by (simp add: one_line_wire_def session_connect_def)
  then have "map (\<lambda>t. deliveries csize ?c0 (t, True)) (map wire_text (take k ws)) = map (expected cb) (take k ws)"
    by (auto dest: in_set_takeD)
  note del = arg_cong [OF this, where f = concat]
  have "messages c = concat (map (expected cb) (take k ws))"
    unfolding ms deliveries_lines [OF scanned] taken by (rule del)
  then show ?thesis using len by (intro exI [of _ k]) simp
qed

text \<open>
  C1. The server's messages reach the callbacks. When the server sends well-formed messages, then at every
  moment of every run whose program does not destroy the session the callbacks have received the messages of
  some initial part of what the server sent, each once, in order and with its contents, and nothing else; and
  of all of it once the queue holds no line and no line is left to read.
\<close>

theorem client_delivers:
  assumes "short_text p" and "Destroy \<notin> A" and "reachable csize E A (session_connect cb p) c"
    and "os_incoming (pe_in p) = concat (map wire_text ws) @ r" and "find_string CRLF r = None"
    and "\<forall>w \<in> set ws. one_line_wire w" and "\<forall>x \<in> set (cl_taken c). snd x"
    and "\<forall>w \<in> set ws. \<forall>x \<in> set (wire_text w). code x < csize"
  shows "\<exists>k \<le> length ws. messages c = concat (map (expected cb) (take k ws))
    \<and> (queued_lines c = [] \<and> split_lines (sb_input (cl_input c) @ socket_incoming (cl_in c)) = [] \<longrightarrow> k = length ws)"
  using assms by (rule client_delivers_ok)

definition ping_wire :: wire where
  "ping_wire = \<lparr>w_source = None, w_opt = [], w_command = ''PING'', w_middles = [], w_trailing = Some ''x''\<rparr>"

lemma ping_wire_ok: "one_line_wire ping_wire" "wire_text ping_wire = ping_line"
proof -
  have "accepts p_command ''PING'' \<and> list_all is_trailing_char ''x''" by code_simp
  then show "one_line_wire ping_wire"
    by (simp add: ping_wire_def one_line_wire_def wire_ok_def head_ok_def accepts_matches MAX_PARAMS_def)
qed (simp add: ping_wire_def wire_text_def wire_head_def middles_text_def ping_line_def)

theorem client_delivers_witness:
  "\<exists>c k. reachable 256 tenths_env {} (session_connect all_callbacks (one_line_peer (wire_text ping_wire))) c
    \<and> cl_queue c \<noteq> [] \<and> k \<le> 1 \<and> messages c = concat (map (expected all_callbacks) (take k [ping_wire]))"
proof -
  obtain c where c: "reachable 256 tenths_env {} (session_connect all_callbacks (one_line_peer ping_line)) c"
    "cl_queue c \<noteq> []" "cl_taken c = []"
    using ping_run by fastforce
  have "os_incoming (pe_in (one_line_peer ping_line)) = concat (map wire_text [ping_wire]) @ []"
    using is_line_nonempty [OF ping_line_ok(1)] by (simp add: one_line_peer_def ping_wire_ok)
  from client_delivers [OF short_ping _ c(1) this] ping_wire_ok c show ?thesis by fastforce
qed

end
