(* ===== verification/Irc_Writes.thy ===== *)
theory Irc_Writes
  imports Irc_Delivery
begin

text \<open>
  What the client's asynchronous writes put on the wire. Each is a composed operation that sends a text in
  one or more turns of the socket; the order of the texts is that of the calls when the socket takes each of
  them whole, and nothing keeps two of them apart when it does not: the strand of the session wraps only the
  handler that is called at the end.
\<close>

subsection \<open>One turn of a write\<close>

definition op_at :: "string \<Rightarrow> nat \<Rightarrow> write_op" where
  "op_at t k = \<lparr>wo_text = t, wo_bufs = [buffer_max (buffer_plus (text_buf t) k) 65536], wo_state = (text_buf t, k)\<rparr>"

lemma with_write_op: "with_write t c = c\<lparr>cl_writes := cl_writes c @ [op_at t 0], cl_blocks := cl_blocks c + 1\<rparr>"
  by (simp add: with_write_def op_at_def)

lemma op_bytes: "map (text_heap t) (addrs (buffer_max (buffer_plus (text_buf t) k) m)) = take m (drop k t)"
proof -
  have "map (text_heap t) (addrs (text_buf t)) = t" by (simp add: addrs_def text_buf_def text_heap_def map_nth)
  then show ?thesis by (simp add: addrs_max addrs_plus flip: take_map drop_map)
qed

lemma transmit_some:
  assumes k: "k < length t" and w: "tcp_async_write_some (take 65536 (drop k t)) (cl_out c) = (n, None, s)" and n: "0 < n"
  shows "transmit (op_at t k # ws) c =
    (let d = c\<lparr>cl_writes := ws, cl_out := s\<rparr>
     in if k + n = length t then on_write None (length t) d else d\<lparr>cl_writes := ws @ [op_at t (k + n)]\<rparr>)"
proof -
  have "transfer_some (write_transfer tcp_async_write_some (text_heap t)) (wo_bufs (op_at t k)) (cl_out c) = (n, None, s)"
    using w by (simp add: transfer_some_def op_at_def adapt_short write_transfer_def op_bytes)
  then show ?thesis using n
    by (simp add: Let_def op1_call_def op1_start_def transfer_all_def default_max_transfer_size_def op_at_def text_buf_def)
qed

lemma takes_all:
  assumes "ws_open s" and "ws_os s = []" and "t \<noteq> []" and "ws_stream s"
  shows "tcp_async_write_some t s = (length t, None, s\<lparr>ws_sent := ws_sent s @ t\<rparr>)"
  using assms by (cases s) (simp add: tcp_async_write_some_def async_send_def async_send_loop.simps [of t "[]"])

lemma takes_one:
  assumes "ws_open s" and "ws_os s = Takes 0 # es" and "t \<noteq> []" and "ws_stream s"
  shows "tcp_async_write_some t s = (1, None, s\<lparr>ws_os := es, ws_sent := ws_sent s @ [hd t]\<rparr>)"
  using assms by (cases s; cases t) (auto simp: tcp_async_write_some_def async_send_def async_send_loop.simps [of "_ # _" "Takes 0 # es"] Let_def)

lemma transmit_whole:
  assumes "ws_open (cl_out c)" and "ws_os (cl_out c) = []" and "ws_stream (cl_out c)" and "k < length t" and "length t \<le> 65536"
  shows "transmit (op_at t k # ws) c = on_write None (length t)
    (c\<lparr>cl_writes := ws, cl_out := (cl_out c)\<lparr>ws_sent := ws_sent (cl_out c) @ drop k t\<rparr>\<rparr>)"
proof -
  have "tcp_async_write_some (take 65536 (drop k t)) (cl_out c)
      = (length t - k, None, (cl_out c)\<lparr>ws_sent := ws_sent (cl_out c) @ drop k t\<rparr>)"
    using takes_all [OF assms(1,2) _ assms(3), of "drop k t"] assms(4,5) by simp
  from transmit_some [OF assms(4) this, of ws] assms(4) show ?thesis by (simp add: Let_def)
qed

subsection \<open>In order\<close>

definition send_all :: "client \<Rightarrow> client" where
  "send_all c = ((\<lambda>c. transmit (cl_writes c) c) ^^ length (cl_writes c)) c"

lemma send_all_ok:
  assumes "ws_open (cl_out c)" and "ws_os (cl_out c) = []" and "ws_stream (cl_out c)"
    and "cl_writes c = map (\<lambda>t. op_at t 0) ts" and "\<forall>t \<in> set ts. t \<noteq> [] \<and> length t \<le> 65536"
  shows "send_all c = c\<lparr>cl_writes := [], cl_out := (cl_out c)\<lparr>ws_sent := ws_sent (cl_out c) @ concat ts\<rparr>,
    cl_blocks := cl_blocks c - length ts\<rparr>"
  using assms
proof (induction ts arbitrary: c)
  case Nil
  then show ?case by (cases c) (simp add: send_all_def)
next
  case (Cons t ts)
  let ?d = "on_write None (length t) (c\<lparr>cl_writes := map (\<lambda>t. op_at t 0) ts,
      cl_out := (cl_out c)\<lparr>ws_sent := ws_sent (cl_out c) @ t\<rparr>\<rparr>)"
  have d: "transmit (cl_writes c) c = ?d"
    using transmit_whole [of c 0 t "map (\<lambda>t. op_at t 0) ts"] Cons.prems by simp
  have "length (cl_writes c) = Suc (length ts)" "length (cl_writes ?d) = length ts"
    using Cons.prems(4) by (simp_all add: on_write_def)
  then have "send_all c = send_all ?d"
    unfolding send_all_def by (simp only: funpow_Suc_right comp_apply d)
  also have "\<dots> = ?d\<lparr>cl_writes := [], cl_out := (cl_out ?d)\<lparr>ws_sent := ws_sent (cl_out ?d) @ concat ts\<rparr>,
      cl_blocks := cl_blocks ?d - length ts\<rparr>"
    using Cons.prems by (intro Cons.IH) (simp_all add: on_write_def)
  finally show ?case by (cases c) (simp add: on_write_def)
qed

text \<open>
  When the socket takes what it is given, the texts written with \<open>cq_irc_session_write\<close> leave in the
  order of the calls, each whole and followed by its line end, every array is released and no error is
  reported.
\<close>

theorem writes_in_order:
  assumes "ws_open (cl_out c)" and "ws_stream (cl_out c)" and "ws_os (cl_out c) = []" and "cl_alive c" and "cl_writes c = []"
    and "\<forall>m \<in> set ms. m \<noteq> [] \<and> length m \<le> 65534"
  shows "\<exists>c'. exec_calls E (map (\<lambda>m. Write (Some m) (int (length m))) ms) c = Some (Inr c')
    \<and> send_all c' = c\<lparr>cl_out := (cl_out c)\<lparr>ws_sent := ws_sent (cl_out c) @ concat (map (\<lambda>m. m @ [CR, LF]) ms)\<rparr>\<rparr>"
proof -
  have run: "exec_calls E (map (\<lambda>m. Write (Some m) (int (length m))) ms) d
      = Some (Inr (d\<lparr>cl_writes := cl_writes d @ map (\<lambda>m. op_at (m @ CRLF) 0) ms, cl_blocks := cl_blocks d + length ms\<rparr>))"
    if "cl_alive d" for d
    using assms(6) that
  proof (induction ms arbitrary: d)
    case Nil
    then show ?case by (cases d) simp
  next
    case (Cons m ms)
    have "session_write (Some m) (int (length m)) d = Inr (with_write (m @ CRLF) d)"
      using session_write_ok [of d "int (length m)" m] Cons.prems by simp
    moreover have "exec_calls E (map (\<lambda>m. Write (Some m) (int (length m))) ms) (with_write (m @ CRLF) d)
        = Some (Inr ((with_write (m @ CRLF) d)\<lparr>cl_writes := cl_writes (with_write (m @ CRLF) d) @ map (\<lambda>m. op_at (m @ CRLF) 0) ms,
            cl_blocks := cl_blocks (with_write (m @ CRLF) d) + length ms\<rparr>))"
      using Cons.prems by (intro Cons.IH) (simp_all add: with_write_op)
    ultimately show ?case by (simp add: with_write_op)
  qed
  let ?c = "c\<lparr>cl_writes := map (\<lambda>t. op_at t 0) (map (\<lambda>m. m @ CRLF) ms), cl_blocks := cl_blocks c + length ms\<rparr>"
  have "send_all ?c = ?c\<lparr>cl_writes := [], cl_out := (cl_out ?c)\<lparr>ws_sent := ws_sent (cl_out ?c) @ concat (map (\<lambda>m. m @ CRLF) ms)\<rparr>,
      cl_blocks := cl_blocks ?c - length (map (\<lambda>m. m @ CRLF) ms)\<rparr>"
    using assms by (intro send_all_ok) auto
  then have "send_all ?c = c\<lparr>cl_out := (cl_out c)\<lparr>ws_sent := ws_sent (cl_out c) @ concat (map (\<lambda>m. m @ CRLF) ms)\<rparr>\<rparr>"
    using assms(5) by (cases c) simp
  then show ?thesis using run [OF assms(4)] assms(5) by (simp add: comp_def)
qed

definition open_client :: "peer \<Rightarrow> client" where
  "open_client p = (let c = session_connect all_callbacks p in c\<lparr>cl_out := (cl_out c)\<lparr>ws_open := True\<rparr>\<rparr>)"

theorem writes_in_order_witness:
  "\<exists>c'. exec_calls tenths_env [Write (Some ''NICK a'') 6, Write (Some ''QUIT'') 4] (open_client (one_line_peer ping_line)) = Some (Inr c')
    \<and> ws_sent (cl_out (send_all c')) = ''NICK a'' @ [CR, LF] @ ''QUIT'' @ [CR, LF]"
proof -
  have "\<exists>c'. exec_calls tenths_env (map (\<lambda>m. Write (Some m) (int (length m))) [''NICK a'', ''QUIT'']) (open_client (one_line_peer ping_line)) = Some (Inr c')
    \<and> send_all c' = (open_client (one_line_peer ping_line))\<lparr>cl_out := (cl_out (open_client (one_line_peer ping_line)))
         \<lparr>ws_sent := ws_sent (cl_out (open_client (one_line_peer ping_line))) @ concat (map (\<lambda>m. m @ [CR, LF]) [''NICK a'', ''QUIT''])\<rparr>\<rparr>"
    by (rule writes_in_order) (auto simp: open_client_def session_connect_def one_line_peer_def Let_def)
  then show ?thesis by (auto simp: open_client_def session_connect_def Let_def)
qed

subsection \<open>Mixed up\<close>

lemma asks_something: "sb_inv b \<Longrightarrow> sb_input b = [] \<Longrightarrow> 512 \<le> sb_max b \<Longrightarrow> \<not> asks_nothing b"
  using read_size_512 [of b] sb_input_length [of b]
  by (auto simp: asks_nothing_def until_search_def Let_def search_string_def partial_search_def max_size_def)

text \<open>
  C7. Two writes can end up inside one another, although the comment on the session's strand says that it
  prevents concurrent write requests: if the program writes two texts when it is connected and the socket
  takes one byte of the first, the second text is sent before the rest of the first. No error is reported.
\<close>

theorem writes_interleave:
  assumes "signal_connect cb" and "pe_out p = [Takes 0]" and "a \<noteq> []" and "b \<noteq> []"
    and "length a \<le> 65534" and "length b \<le> 65534"
  shows "\<exists>c. reachable csize E {Write (Some a) (int (length a)), Write (Some b) (int (length b))} (session_connect cb p) c
    \<and> ws_sent (cl_out c) = hd a # b @ [CR, LF] @ tl a @ [CR, LF] \<and> cl_writes c = [] \<and> cl_printed c = [] \<and> cl_blocks c = 0"
proof -
  let ?c0 = "session_connect cb p"
  let ?A = "{Write (Some a) (int (length a)), Write (Some b) (int (length b))}"
  let ?o = "?c0\<lparr>cl_pending := None, cl_queue := [Connect_done None], cl_in := (cl_in ?c0)\<lparr>rs_open := True\<rparr>,
      cl_out := (cl_out ?c0)\<lparr>ws_open := True\<rparr>\<rparr>"
  let ?ks = "[Write (Some a) (int (length a)), Write (Some b) (int (length b))]"
  have r0: "reachable csize E ?A ?c0 ?o" using connecting_run [of csize E ?A cb p] by blast
  have ask: "\<not> asks_nothing (new_streambuf SIZE_MAX)"
    by (rule asks_something) (simp_all add: new_streambuf_ok SIZE_MAX_def)
  let ?d = "?o\<lparr>cl_pending := Some Reading, cl_queue := [], cl_heard := [Connected_to]\<rparr>"
  let ?c1 = "?d\<lparr>cl_writes := [op_at (a @ CRLF) 0, op_at (b @ CRLF) 0], cl_blocks := 2\<rparr>"
  have "take_turn csize E (Run True False ?ks) ?o = Some (Inr ?c1)"
    using assms ask session_write_ok [of _ "int (length a)" a] session_write_ok [of _ "int (length b)" b]
    by (simp add: on_connect_def call_connect_def notify_def start_read_def with_session_def session_connect_def
        guard_def with_write_op)
  from reach_next [OF r0 this] have r1: "reachable csize E ?A ?c0 ?c1" by (simp add: session_connect_def)
  let ?s = "(cl_out ?o)\<lparr>ws_os := [], ws_sent := [hd a]\<rparr>"
  let ?c2 = "?c1\<lparr>cl_writes := [op_at (b @ CRLF) 0, op_at (a @ CRLF) 1], cl_out := ?s\<rparr>"
  have w: "tcp_async_write_some (take 65536 (drop 0 (a @ CRLF))) (cl_out ?c1) = (1, None, ?s)"
    using takes_one [of "cl_out ?c1" "[]" "a @ CRLF"] assms(2,3,5) by (simp add: session_connect_def)
  have "transmit (cl_writes ?c1) ?c1 = ?c2"
    using transmit_some [OF _ w, of "[op_at (b @ CRLF) 0]"] assms(3) by (simp add: Let_def)
  with r1 have r2: "reachable csize E ?A ?c0 ?c2"
    by (intro reach_next [OF r1, where t = Transmit]) (simp_all add: session_connect_def)
  let ?c3 = "?c2\<lparr>cl_writes := [op_at (a @ CRLF) 1], cl_out := ?s\<lparr>ws_sent := hd a # b @ CRLF\<rparr>, cl_blocks := 1\<rparr>"
  have "transmit (cl_writes ?c2) ?c2 = ?c3"
    using transmit_whole [of ?c2 0 "b @ CRLF" "[op_at (a @ CRLF) 1]"] assms(6)
    by (simp add: on_write_def session_connect_def)
  with r2 have r3: "reachable csize E ?A ?c0 ?c3"
    by (intro reach_next [OF r2, where t = Transmit]) (simp_all add: session_connect_def)
  let ?c4 = "?c3\<lparr>cl_writes := [], cl_out := ?s\<lparr>ws_sent := (hd a # b @ CRLF) @ drop 1 (a @ CRLF)\<rparr>, cl_blocks := 0\<rparr>"
  have "transmit (cl_writes ?c3) ?c3 = ?c4"
    using transmit_whole [of ?c3 1 "a @ CRLF" "[]"] assms(3,5)
    by (simp add: on_write_def session_connect_def)
  with r3 have r4: "reachable csize E ?A ?c0 ?c4"
    by (intro reach_next [OF r3, where t = Transmit]) (simp_all add: session_connect_def)
  show ?thesis using assms(3) by (intro exI [of _ ?c4] conjI r4) (cases a; simp add: session_connect_def)+
qed

theorem writes_interleave_witness:
  "\<exists>c. reachable 256 tenths_env {Write (Some ''NICK a'') 6, Write (Some ''QUIT'') 4}
      (session_connect all_callbacks \<lparr>pe_in = [], pe_out = [Takes 0], pe_shutdown = None\<rparr>) c
    \<and> ws_sent (cl_out c) = ''NQUIT'' @ [CR, LF] @ ''ICK a'' @ [CR, LF]"
  using writes_interleave [of all_callbacks "\<lparr>pe_in = [], pe_out = [Takes 0], pe_shutdown = None\<rparr>" "''NICK a''" "''QUIT''" 256 tenths_env]
  by (auto simp: all_callbacks_def)

end
