(* ===== verification/Asio_Read.thy ===== *)
theory Asio_Read
  imports Asio_Transfer Asio_Streambuf
begin

text \<open>
  The composed read operations of src/asio/include/asio/impl/read.hpp: the overloads of \<open>read\<close> and
  \<open>async_read\<close> for a buffer sequence, for one buffer, for an array of two and for a stream buffer. A
  transfer stores the bytes it receives at the addresses of the buffers, in order.
\<close>

fun store_bytes :: "heap \<Rightarrow> nat list \<Rightarrow> string \<Rightarrow> heap" where
  "store_bytes h (a # as) (c # cs) = store_bytes (h(a := c)) as cs"
| "store_bytes h as cs = h"

definition read_transfer ::
  "(nat \<Rightarrow> 's \<Rightarrow> string \<times> error_code \<times> 's) \<Rightarrow> (heap \<times> 's) transfer" where
  "read_transfer read_some as w =
     (case w of (h, s) \<Rightarrow> case read_some (length as) s of
        (d, ec, s) \<Rightarrow> (length d, ec, (store_bytes h as d, s)))"

definition throw_read :: "nat \<times> error_code \<times> 'w \<Rightarrow> (nat \<times> 'w) res" where
  "throw_read r =
     (case r of (n, ec, w) \<Rightarrow> case ec of None \<Rightarrow> Inr (n, w) | Some e \<Rightarrow> Inl (Throw (AsioError e ''read'')))"

subsection \<open>Synchronous reads\<close>

definition read_cond where
  "read_cond read_some buffers cond w = transfer_sync (read_transfer read_some) cond buffers w"

definition read_all where
  "read_all read_some buffers w = read_cond read_some buffers transfer_all w"

definition read_all_throw where
  "read_all_throw read_some buffers w = map_option throw_read (read_all read_some buffers w)"

definition read_cond_throw where
  "read_cond_throw read_some buffers cond w = map_option throw_read (read_cond read_some buffers cond w)"

text \<open>Reading into a stream buffer.\<close>

partial_function (option) read_streambuf_loop ::
  "(nat \<Rightarrow> 's \<Rightarrow> string \<times> error_code \<times> 's) \<Rightarrow> condition \<Rightarrow> nat \<Rightarrow> error_code \<Rightarrow> streambuf \<Rightarrow> 's
     \<Rightarrow> (nat \<times> error_code \<times> streambuf \<times> 's) res option" where
  "read_streambuf_loop read_some cond total_transferred ec b s =
     (let bytes_available = read_size_helper b (cond ec total_transferred)
      in if bytes_available > 0
         then case prepare bytes_available b of
                Inl e \<Rightarrow> Some (Inl e)
              | Inr (b, pos, n) \<Rightarrow>
                  (case read_some n s of
                     (d, ec, s) \<Rightarrow>
                       read_streambuf_loop read_some cond (total_transferred + length d) ec
                         (commit (length d) (sb_write pos d b)) s)
         else Some (Inr (total_transferred, ec, b, s)))"

definition read_streambuf where
  "read_streambuf read_some b cond s = read_streambuf_loop read_some cond 0 None b s"

definition read_streambuf_all where
  "read_streambuf_all read_some b s = read_streambuf read_some b transfer_all s"

definition throw_streambuf ::
  "(nat \<times> error_code \<times> streambuf \<times> 's) res \<Rightarrow> (nat \<times> streambuf \<times> 's) res" where
  "throw_streambuf r = ebind r throw_read"

definition read_streambuf_all_throw where
  "read_streambuf_all_throw read_some b s = map_option throw_streambuf (read_streambuf read_some b transfer_all s)"

definition read_streambuf_throw where
  "read_streambuf_throw read_some b cond s = map_option throw_streambuf (read_streambuf read_some b cond s)"

subsection \<open>Asynchronous reads\<close>

text \<open>\<open>read_op\<close> and its specialisations for one buffer, \<open>boost::array\<close> and \<open>std::array\<close>.\<close>

definition read_op_call ::
  "condition \<Rightarrow> bool \<Rightarrow> error_code \<Rightarrow> nat \<Rightarrow> cbufs \<times> nat \<Rightarrow> (cbufs \<times> nat) transfer_step" where
  "read_op_call cond = op_call cond"

definition async_read_cond where
  "async_read_cond read_some buffers cond w =
     op_run (read_transfer read_some) (read_op_call cond)
       (read_op_call cond True None 0 (consuming_buffers buffers, 0)) w"

definition async_read where
  "async_read read_some buffers w = async_read_cond read_some buffers transfer_all w"

definition async_read1 where
  "async_read1 read_some buffer cond w = transfer_async1 (read_transfer read_some) cond buffer w"

definition async_read_boost2 where
  "async_read_boost2 read_some buffers cond w = transfer_async2 (read_transfer read_some) cond buffers w"

definition async_read_std2 where
  "async_read_std2 read_some buffers cond w = transfer_async2 (read_transfer read_some) cond buffers w"

text \<open>\<open>read_streambuf_op\<close>: a call either starts a read into the prepared region or invokes the handler.\<close>

datatype sb_read_step = Start_sb_read nat streambuf nat nat | Sb_handler error_code nat streambuf

definition sb_read_continue :: "nat \<Rightarrow> nat \<Rightarrow> streambuf \<Rightarrow> sb_read_step res" where
  "sb_read_continue bytes_available total_transferred b =
     ebind (prepare bytes_available b) (\<lambda>(b, at, n). Inr (Start_sb_read total_transferred b at n))"

definition sb_read_call ::
  "condition \<Rightarrow> bool \<Rightarrow> error_code \<Rightarrow> nat \<Rightarrow> nat \<Rightarrow> streambuf \<Rightarrow> sb_read_step res" where
  "sb_read_call cond start ec bytes_transferred total_transferred b =
     (if start then sb_read_continue (read_size_helper b (cond ec total_transferred)) total_transferred b
      else let total_transferred = total_transferred + bytes_transferred;
               b = commit bytes_transferred b;
               bytes_available = read_size_helper b (cond ec total_transferred)
        in if (ec = None \<and> bytes_transferred = 0) \<or> bytes_available = 0
           then Inr (Sb_handler ec total_transferred b)
           else sb_read_continue bytes_available total_transferred b)"

partial_function (option) sb_read_run ::
  "(nat \<Rightarrow> 's \<Rightarrow> string \<times> error_code \<times> 's) \<Rightarrow> condition \<Rightarrow> sb_read_step res \<Rightarrow> 's
     \<Rightarrow> (nat \<times> error_code \<times> streambuf \<times> 's) res option" where
  "sb_read_run read_some cond step s =
     (case step of
        Inl e \<Rightarrow> Some (Inl e)
      | Inr st \<Rightarrow> (case st of
            Sb_handler ec n b \<Rightarrow> Some (Inr (n, ec, b, s))
          | Start_sb_read t b at n \<Rightarrow>
              (case read_some n s of
                 (d, ec, s) \<Rightarrow>
                   sb_read_run read_some cond (sb_read_call cond False ec (length d) t (sb_write at d b)) s)))"

definition async_read_streambuf where
  "async_read_streambuf read_some b cond s = sb_read_run read_some cond (sb_read_call cond True None 0 0 b) s"

definition async_read_streambuf_all where
  "async_read_streambuf_all read_some b s = async_read_streambuf read_some b transfer_all s"

subsection \<open>The interface discharged\<close>

lemma store_bytes_append:
  "length as = length d \<Longrightarrow> store_bytes h (as @ bs) (d @ e) = store_bytes (store_bytes h as d) bs e"
  by (induction h as d rule: store_bytes.induct) simp_all

lemma store_bytes_take: "store_bytes h as d = store_bytes h (take (length d) as) d"
proof (induction h as d rule: store_bytes.induct)
  case (1 h a as c cs)
  then show ?case by (simp only: store_bytes.simps length_Cons take_Suc_Cons)
qed simp_all

definition received :: "('s \<Rightarrow> string) \<Rightarrow> heap \<times> 's \<Rightarrow> nat list \<Rightarrow> heap \<times> 's \<Rightarrow> bool" where
  "received incoming w as w' \<longleftrightarrow>
     (\<exists>d. length d = length as \<and> incoming (snd w) = d @ incoming (snd w') \<and> fst w' = store_bytes (fst w) as d)"

lemma read_stream_transfer:
  assumes "read_stream read_some incoming"
  shows "transfer_stream (read_transfer read_some) (received incoming)"
proof
  fix "as" w n ec w'
  assume t: "read_transfer read_some as w = (n, ec, w')"
  obtain h s where w: "w = (h, s)" by (cases w)
  obtain d ec' s' where r: "read_some (length as) s = (d, ec', s')" by (metis prod_cases3)
  have eq: "n = length d" "ec' = ec" "w' = (store_bytes h as d, s')" using t r by (auto simp: read_transfer_def w)
  have len: "length d \<le> length as" by (rule read_stream.read_length [OF assms r])
  have "received incoming w (take n as) w'"
    using read_stream.read_incoming [OF assms r] len store_bytes_take [of h "as" d]
    by (auto simp: received_def w eq)
  then show "n \<le> length as \<and> (ec \<noteq> None \<longrightarrow> n = 0) \<and> (ec = None \<and> as \<noteq> [] \<longrightarrow> 0 < n) \<and> received incoming w (take n as) w'"
    using len r read_stream.read_error [OF assms] read_stream.read_progress [OF assms] eq by (cases ec) auto
next
  fix w "as" w' bs w''
  assume "received incoming w as w'" and "received incoming w' bs w''"
  then obtain d e where "length d = length as" "incoming (snd w) = d @ incoming (snd w')" "fst w' = store_bytes (fst w) as d"
    "length e = length bs" "incoming (snd w') = e @ incoming (snd w'')" "fst w'' = store_bytes (fst w') bs e"
    by (auto simp: received_def)
  then show "received incoming w (as @ bs) w''"
    unfolding received_def by (intro exI [of _ "d @ e"]) (simp add: store_bytes_append)
qed (simp add: received_def)

interpretation tcp_read: transfer_stream "read_transfer tcp_read_some" "received socket_incoming"
  by (rule read_stream_transfer) (rule tcp_in.read_stream_axioms)

lemma transfer_exactly_stops [simp]: "transfer_exactly k (Some e) n = 0"
  by (simp add: transfer_exactly_def)

lemma transfer_exactly_limit: "transfer_exactly k None n \<le> k - n"
  by (auto simp: transfer_exactly_def)

lemma transfer_exactly_done: "transfer_exactly k None n = 0 \<longleftrightarrow> k \<le> n"
  by (auto simp: transfer_exactly_def default_max_transfer_size_def)

text \<open>
  \<open>read\<close> with \<open>transfer_exactly(k)\<close> on a TCP socket returns for every behaviour of the socket: the bytes
  it took from the socket, at most \<open>k\<close>, are stored in order at the first addresses of the buffer sequence,
  and without an error they are \<open>k\<close> or fill the sequence.
\<close>

theorem read_exactly:
  "\<exists>d ec h' s'. read_cond tcp_read_some bs (transfer_exactly k) (h, s) = Some (length d, ec, (h', s'))
    \<and> socket_incoming s = d @ socket_incoming s' \<and> h' = store_bytes h (take (length d) (seq_addrs bs)) d
    \<and> length d \<le> min k (length (seq_addrs bs)) \<and> (length d = min k (length (seq_addrs bs)) \<or> (\<exists>e. ec = Some e))"
proof -
  obtain n ec w' where r: "transfer_sync (read_transfer tcp_read_some) (transfer_exactly k) bs (h, s) = Some (n, ec, w')"
    "n \<le> length (seq_addrs bs)" "received socket_incoming (h, s) (take n (seq_addrs bs)) w'"
    "ec = None \<longrightarrow> n = length (seq_addrs bs) \<or> transfer_exactly k None n = 0" "n \<le> k"
    using tcp_read.transfer_sync_ok [where cond = "transfer_exactly k" and lim = k and bs = bs and w = "(h, s)"]
      transfer_exactly_limit by auto
  obtain d where d: "length d = n" "socket_incoming s = d @ socket_incoming (snd w')" "fst w' = store_bytes h (take n (seq_addrs bs)) d"
    using r(2,3) by (auto simp: received_def)
  obtain h' s' where w': "w' = (h', s')" by (cases w')
  show ?thesis
    using r d unfolding w'
    by (intro exI [of _ d] exI [of _ ec] exI [of _ h'] exI [of _ s'])
      (auto simp: read_cond_def transfer_exactly_done)
qed

subsection \<open>Reading into a stream buffer\<close>

lemma read_size_limits:
  assumes "sb_inv b"
  shows "read_size_helper b m \<le> m \<and> sb_size b + read_size_helper b m \<le> sb_max b
    \<and> (read_size_helper b m = 0 \<longleftrightarrow> m = 0 \<or> sb_size b = sb_max b)"
  using sb_size_le [OF assms] by (auto simp: read_size_helper_def max_size_def)

definition sb_read_ok ::
  "condition \<Rightarrow> ('s \<Rightarrow> string) \<Rightarrow> nat \<Rightarrow> streambuf \<Rightarrow> 's \<Rightarrow> nat \<times> error_code \<times> streambuf \<times> 's \<Rightarrow> bool" where
  "sb_read_ok cond incoming t b s r = (case r of (n, ec, b', s') \<Rightarrow>
     sb_inv b' \<and> sb_max b' = sb_max b
     \<and> (\<exists>d. n = t + length d \<and> sb_input b' = sb_input b @ d \<and> incoming s = d @ incoming s')
     \<and> (ec = None \<longrightarrow> cond None n = 0 \<or> sb_size b' = sb_max b'))"

context read_stream
begin

lemma sb_read_round:
  assumes inv: "sb_inv b" and m: "0 < read_size_helper b m" "m \<le> INT_MAX"
    and r: "read_some (read_size_helper b m) s = (d, ec, s')"
  shows "\<exists>b1 pos b'. prepare (read_size_helper b m) b = Inr (b1, pos, read_size_helper b m)
    \<and> b' = commit (length d) (sb_write pos d b1) \<and> sb_inv b' \<and> sb_max b' = sb_max b \<and> sb_input b' = sb_input b @ d
    \<and> sb_size b' = sb_size b + length d \<and> (ec = None \<longrightarrow> d \<noteq> []) \<and> incoming s = d @ incoming s'"
proof -
  let ?n = "read_size_helper b m"
  have n: "?n \<le> INT_MAX" "sb_size b + ?n \<le> sb_max b" using read_size_limits [OF inv, of m] m(2) by auto
  obtain b' where b': "fill_streambuf ?n d b = Inr b'" "sb_inv b'" "sb_max b' = sb_max b" "sb_input b' = sb_input b @ d"
    using fill_streambuf_ok [OF inv read_length [OF r] n] by auto
  obtain b1 pos where "prepare ?n b = Inr (b1, pos, ?n)" "b' = commit (length d) (sb_write pos d b1)"
    using b'(1) by (auto simp: fill_streambuf_def prepare_def ebind_Inr_iff)
  moreover have "sb_size b' = sb_size b + length d"
    using b'(2,4) sb_input_length [OF inv] sb_input_length [of b'] by simp
  moreover have "ec = None \<longrightarrow> d \<noteq> []" using read_progress r m(1) by blast
  ultimately show ?thesis using b' read_incoming [OF r] by auto
qed

lemma read_streambuf_loop_ok:
  assumes stops: "\<And>e n. cond (Some e) n = 0" and small: "\<And>n. cond None n \<le> INT_MAX"
  shows "sb_inv b \<Longrightarrow>
    \<exists>r. read_streambuf_loop read_some cond t None b s = Some (Inr r) \<and> sb_read_ok cond incoming t b s r"
proof (induction "sb_max b - sb_size b" arbitrary: t b s rule: less_induct)
  case less
  let ?n = "read_size_helper b (cond None t)"
  show ?case
  proof (cases "?n = 0")
    case True
    then have "read_streambuf_loop read_some cond t None b s = Some (Inr (t, None, b, s))"
      by (subst read_streambuf_loop.simps) simp
    then show ?thesis using True less.prems read_size_limits [OF less.prems, of "cond None t"] by (auto simp: sb_read_ok_def)
  next
    case False
    obtain d ec s' where r: "read_some ?n s = (d, ec, s')" by (metis prod_cases3)
    obtain b1 pos b' where b': "prepare ?n b = Inr (b1, pos, ?n)" "b' = commit (length d) (sb_write pos d b1)"
      "sb_inv b'" "sb_max b' = sb_max b" "sb_input b' = sb_input b @ d" "sb_size b' = sb_size b + length d"
      "ec = None \<longrightarrow> d \<noteq> []" "incoming s = d @ incoming s'"
      using sb_read_round [OF less.prems _ small r] False by blast
    have loop: "read_streambuf_loop read_some cond t None b s = read_streambuf_loop read_some cond (t + length d) ec b' s'"
      using False r b'(1,2) by (subst read_streambuf_loop.simps) simp
    show ?thesis
    proof (cases ec)
      case None
      have "sb_max b' - sb_size b' < sb_max b - sb_size b"
        using b'(4,6,7) None sb_size_le [OF b'(3)] by (cases d) auto
      then obtain q where "read_streambuf_loop read_some cond (t + length d) None b' s' = Some (Inr q)"
        "sb_read_ok cond incoming (t + length d) b' s' q"
        using less.hyps b'(3) by blast
      with loop None b' show ?thesis by (auto simp: sb_read_ok_def)
    next
      case (Some e)
      then have "d = []" using read_error r by blast
      have "read_streambuf_loop read_some cond (t + length d) ec b' s' = Some (Inr (t + length d, ec, b', s'))"
        using Some stops read_size_limits [OF b'(3), of 0] by (subst read_streambuf_loop.simps) simp
      with loop b' Some show ?thesis by (auto simp: sb_read_ok_def)
    qed
  qed
qed

text \<open>The operation object, once it has started a read of at least one byte, does what the loop does.\<close>

lemma sb_read_run_loop:
  assumes stops: "\<And>e n. cond (Some e) n = 0" and small: "\<And>n. cond None n \<le> INT_MAX"
  shows "sb_inv b \<Longrightarrow> 0 < read_size_helper b (cond None t) \<Longrightarrow>
    sb_read_run read_some cond (sb_read_continue (read_size_helper b (cond None t)) t b) s
      = read_streambuf_loop read_some cond t None b s"
proof (induction "sb_max b - sb_size b" arbitrary: t b s rule: less_induct)
  case less
  let ?n = "read_size_helper b (cond None t)"
  obtain d ec s' where r: "read_some ?n s = (d, ec, s')" by (metis prod_cases3)
  obtain b1 pos b' where b': "prepare ?n b = Inr (b1, pos, ?n)" "b' = commit (length d) (sb_write pos d b1)"
    "sb_inv b'" "sb_max b' = sb_max b" "sb_size b' = sb_size b + length d" "ec = None \<longrightarrow> d \<noteq> []"
    using sb_read_round [OF less.prems small r] by blast
  have loop: "read_streambuf_loop read_some cond t None b s = read_streambuf_loop read_some cond (t + length d) ec b' s'"
    using less.prems(2) r b'(1,2) by (subst read_streambuf_loop.simps) simp
  have run: "sb_read_run read_some cond (sb_read_continue ?n t b) s
      = sb_read_run read_some cond (sb_read_call cond False ec (length d) t (sb_write pos d b1)) s'"
    using b'(1) r by (subst sb_read_run.simps) (simp add: sb_read_continue_def)
  let ?n' = "read_size_helper b' (cond ec (t + length d))"
  show ?case
  proof (cases "?n' = 0")
    case True
    then have "sb_read_call cond False ec (length d) t (sb_write pos d b1) = Inr (Sb_handler ec (t + length d) b')"
      using b'(2) by (simp add: sb_read_call_def Let_def)
    moreover have "read_streambuf_loop read_some cond (t + length d) ec b' s' = Some (Inr (t + length d, ec, b', s'))"
      using True by (subst read_streambuf_loop.simps) simp
    moreover have "sb_read_run read_some cond (Inr (Sb_handler ec (t + length d) b')) s' = Some (Inr (t + length d, ec, b', s'))"
      by (subst sb_read_run.simps) simp
    ultimately show ?thesis using run loop by simp
  next
    case False
    then have ec: "ec = None" using stops read_size_limits [OF b'(3), of 0] by (cases ec) auto
    then have "sb_read_call cond False ec (length d) t (sb_write pos d b1) = sb_read_continue ?n' (t + length d) b'"
      using b'(2,6) False by (simp add: sb_read_call_def Let_def)
    moreover have "sb_max b' - sb_size b' < sb_max b - sb_size b"
      using b'(4-6) ec sb_size_le [OF b'(3)] by (cases d) auto
    ultimately show ?thesis using run loop less.hyps [of b' "t + length d" s'] b'(3) ec False by simp
  qed
qed

end

text \<open>
  \<open>read\<close> of at least \<open>k\<close> bytes into a stream buffer returns for every behaviour of a TCP socket; it
  appends exactly the bytes it took from the socket, and without an error they are at least \<open>k\<close> or the
  buffer is full. \<open>async_read\<close> calls its handler with the same result whenever there is room to start with.
\<close>

theorem read_streambuf_at_least:
  assumes "sb_inv b"
  shows "\<exists>d ec b' s'. read_streambuf tcp_read_some b (transfer_at_least k) s = Some (Inr (length d, ec, b', s'))
    \<and> sb_input b' = sb_input b @ d \<and> socket_incoming s = d @ socket_incoming s'
    \<and> (ec = None \<longrightarrow> k \<le> length d \<or> sb_size b' = sb_max b)
    \<and> (0 < k \<and> sb_size b < sb_max b \<longrightarrow>
         async_read_streambuf tcp_read_some b (transfer_at_least k) s = Some (Inr (length d, ec, b', s')))"
proof -
  have c: "transfer_at_least k (Some e) n = 0" "transfer_at_least k None n \<le> INT_MAX" for e n
    by (simp_all add: transfer_at_least_def default_max_transfer_size_def)
  obtain r where r: "read_streambuf_loop tcp_read_some (transfer_at_least k) 0 None b s = Some (Inr r)"
    "sb_read_ok (transfer_at_least k) socket_incoming 0 b s r"
    using tcp_in.read_streambuf_loop_ok [where cond = "transfer_at_least k", OF c assms] by blast
  obtain n ec b' s' where [simp]: "r = (n, ec, b', s')" by (metis prod_cases4)
  obtain d where "n = length d" "sb_input b' = sb_input b @ d" "socket_incoming s = d @ socket_incoming s'"
    "sb_max b' = sb_max b" "ec = None \<longrightarrow> transfer_at_least k None n = 0 \<or> sb_size b' = sb_max b'"
    using r(2) by (auto simp: sb_read_ok_def)
  moreover have "transfer_at_least k None n = 0 \<longleftrightarrow> k \<le> n"
    by (auto simp: transfer_at_least_def default_max_transfer_size_def)
  moreover have "async_read_streambuf tcp_read_some b (transfer_at_least k) s = Some (Inr r)"
    if "0 < k" "sb_size b < sb_max b"
  proof -
    have "0 < read_size_helper b (transfer_at_least k None 0)"
      using that read_size_limits [OF assms, of "transfer_at_least k None 0"]
      by (auto simp: transfer_at_least_def default_max_transfer_size_def)
    then show ?thesis using tcp_in.sb_read_run_loop [where cond = "transfer_at_least k" and b = b and t = 0 and s = s, OF c assms] r(1)
      by (simp add: async_read_streambuf_def sb_read_call_def)
  qed
  ultimately show ?thesis using r(1) by (auto simp: read_streambuf_def)
qed

theorem read_streambuf_at_least_witness:
  "\<exists>d ec b' s'. read_streambuf tcp_read_some (new_streambuf 4096) (transfer_at_least 7)
       \<lparr>rs_open = True, rs_stream = True, rs_non_blocking = False, rs_os = [Got (CHR ''a'') ''bc'']\<rparr>
     = Some (Inr (length d, ec, b', s')) \<and> sb_input b' = d \<and> ''abc'' = d @ socket_incoming s'"
  using read_streambuf_at_least [of "new_streambuf 4096" 7
      "\<lparr>rs_open = True, rs_stream = True, rs_non_blocking = False, rs_os = [Got (CHR ''a'') ''bc'']\<rparr>"]
    new_streambuf_ok [of 4096]
  by (auto simp: socket_incoming_def)

end
