(* ===== verification/Asio_Op_Queue.thy ===== *)
theory Asio_Op_Queue
  imports Prelude
begin

text \<open>
  The queue of operations of src/asio/include/asio/detail/op_queue.hpp, which the event loop, the strands and
  the timers share. It is intrusive: the link is a member of the operation, so that the state is the store of
  all links (\<open>next_\<close>) and, for each queue, the pointers to its first and last operation. The store is an
  argument of every operation, because a queue that is pushed on another shares its links with it.

  The contract is a locale, \<open>fifo\<close>, over the list of operations that a queue stands for; what it says of the
  operations that are in no queue concerned is the separation that an intrusive queue needs.
\<close>

subsection \<open>The operations\<close>

type_synonym 'a links = "'a \<Rightarrow> 'a option"

record 'a op_queue =
  oq_front :: "'a option"
  oq_back :: "'a option"

definition oq_new :: "'a op_queue" where
  "oq_new = \<lparr>oq_front = None, oq_back = None\<rparr>"

definition oq_empty :: "'a op_queue \<Rightarrow> bool" where
  "oq_empty q \<longleftrightarrow> oq_front q = None"

definition oq_pop :: "'a links \<Rightarrow> 'a op_queue \<Rightarrow> 'a links \<times> 'a op_queue" where
  "oq_pop nx q =
     (case oq_front q of
        None \<Rightarrow> (nx, q)
      | Some tmp \<Rightarrow> (nx(tmp := None),
          \<lparr>oq_front = nx tmp, oq_back = (if nx tmp = None then None else oq_back q)\<rparr>))"

definition oq_push :: "'a \<Rightarrow> 'a links \<Rightarrow> 'a op_queue \<Rightarrow> 'a links \<times> 'a op_queue" where
  "oq_push h nx q =
     (let nx = nx(h := None)
      in case oq_back q of
           Some b \<Rightarrow> (nx(b := Some h), q\<lparr>oq_back := Some h\<rparr>)
         | None \<Rightarrow> (nx, \<lparr>oq_front = Some h, oq_back = Some h\<rparr>))"

text \<open>Pushing a whole queue: the pushed queue is empty afterwards.\<close>

definition oq_push_all ::
  "'a links \<Rightarrow> 'a op_queue \<Rightarrow> 'a op_queue \<Rightarrow> 'a links \<times> 'a op_queue \<times> 'a op_queue" where
  "oq_push_all nx p q =
     (case oq_front q of
        None \<Rightarrow> (nx, p, q)
      | Some other_front \<Rightarrow>
          (case oq_back p of
             Some b \<Rightarrow> (nx(b := Some other_front), p\<lparr>oq_back := oq_back q\<rparr>, \<lparr>oq_front = None, oq_back = None\<rparr>)
           | None \<Rightarrow> (nx, \<lparr>oq_front = Some other_front, oq_back = oq_back q\<rparr>, \<lparr>oq_front = None, oq_back = None\<rparr>)))"

text \<open>The destructor destroys the operations from the front on; the result is their order.\<close>

partial_function (option) oq_destroy :: "'a links \<Rightarrow> 'a op_queue \<Rightarrow> 'a list \<Rightarrow> ('a links \<times> 'a list) option" where
  "oq_destroy nx q destroyed =
     (case oq_front q of
        None \<Rightarrow> Some (nx, destroyed)
      | Some x \<Rightarrow> (case oq_pop nx q of (nx, q) \<Rightarrow> oq_destroy nx q (destroyed @ [x])))"

subsection \<open>The contract\<close>

text \<open>
  \<open>holds s q xs\<close>: in the store \<open>s\<close> the queue \<open>q\<close> holds \<open>xs\<close>, first to last. The last law of each operation
  leaves alone the queues whose operations are not concerned.
\<close>

locale fifo =
  fixes holds :: "'s \<Rightarrow> 'q \<Rightarrow> 'a list \<Rightarrow> bool"
    and front :: "'q \<Rightarrow> 'a option"
    and pop :: "'s \<Rightarrow> 'q \<Rightarrow> 's \<times> 'q"
    and push :: "'a \<Rightarrow> 's \<Rightarrow> 'q \<Rightarrow> 's \<times> 'q"
    and push_all :: "'s \<Rightarrow> 'q \<Rightarrow> 'q \<Rightarrow> 's \<times> 'q \<times> 'q"
  assumes holds_distinct: "holds s q xs \<Longrightarrow> distinct xs"
    and front_hd: "holds s q xs \<Longrightarrow> front q = (case xs of [] \<Rightarrow> None | x # _ \<Rightarrow> Some x)"
    and pop_tl: "holds s q xs \<Longrightarrow> pop s q = (s', q') \<Longrightarrow> holds s' q' (tl xs)"
    and pop_frame: "holds s q xs \<Longrightarrow> pop s q = (s', q') \<Longrightarrow> holds s r ys \<Longrightarrow> set ys \<inter> set xs = {} \<Longrightarrow> holds s' r ys"
    and push_end: "holds s q xs \<Longrightarrow> h \<notin> set xs \<Longrightarrow> push h s q = (s', q') \<Longrightarrow> holds s' q' (xs @ [h])"
    and push_frame: "holds s q xs \<Longrightarrow> push h s q = (s', q') \<Longrightarrow> holds s r ys \<Longrightarrow> set ys \<inter> insert h (set xs) = {}
      \<Longrightarrow> holds s' r ys"
    and push_all_end: "holds s p xs \<Longrightarrow> holds s q ys \<Longrightarrow> set xs \<inter> set ys = {} \<Longrightarrow> push_all s p q = (s', p', q')
      \<Longrightarrow> holds s' p' (xs @ ys) \<and> holds s' q' []"
    and push_all_frame: "holds s p xs \<Longrightarrow> holds s q ys \<Longrightarrow> push_all s p q = (s', p', q') \<Longrightarrow> holds s r zs
      \<Longrightarrow> set zs \<inter> (set xs \<union> set ys) = {} \<Longrightarrow> holds s' r zs"

subsection \<open>The links of a queue\<close>

fun chain :: "'a links \<Rightarrow> 'a option \<Rightarrow> 'a list \<Rightarrow> bool" where
  "chain nx p [] \<longleftrightarrow> p = None"
| "chain nx p (x # xs) \<longleftrightarrow> p = Some x \<and> chain nx (nx x) xs"

definition oq_holds :: "'a links \<Rightarrow> 'a op_queue \<Rightarrow> 'a list \<Rightarrow> bool" where
  "oq_holds nx q xs \<longleftrightarrow> chain nx (oq_front q) xs \<and> distinct xs \<and> oq_back q = (if xs = [] then None else Some (last xs))"

lemma chain_update: "x \<notin> set xs \<Longrightarrow> chain (nx(x := y)) p xs = chain nx p xs"
  by (induction xs arbitrary: p) auto

lemma chain_append:
  "xs \<noteq> [] \<Longrightarrow> distinct xs \<Longrightarrow> set xs \<inter> set ys = {} \<Longrightarrow> chain nx p xs \<Longrightarrow> chain nx q ys
    \<Longrightarrow> chain (nx(last xs := q)) p (xs @ ys)"
proof (induction xs arbitrary: p)
  case (Cons x xs)
  show ?case
  proof (cases "xs = []")
    case True
    then show ?thesis using Cons.prems chain_update [of x ys nx q q] by (simp add: fun_upd_def)
  next
    case False
    then have "last xs \<noteq> x" using Cons.prems(2) by auto
    then show ?thesis using False Cons by simp
  qed
qed simp

lemma chain_last: "chain nx p xs \<Longrightarrow> xs \<noteq> [] \<Longrightarrow> nx (last xs) = None"
  by (induction xs arbitrary: p) auto

lemma oq_holds_update: "oq_holds nx q xs \<Longrightarrow> x \<notin> set xs \<Longrightarrow> oq_holds (nx(x := y)) q xs"
  by (simp add: oq_holds_def chain_update)

interpretation oq: fifo oq_holds oq_front oq_pop oq_push oq_push_all
proof
  fix nx q and xs :: "'a list"
  assume q: "oq_holds nx q xs"
  then show "distinct xs" by (simp add: oq_holds_def)
  from q show "oq_front q = (case xs of [] \<Rightarrow> None | x # _ \<Rightarrow> Some x)" by (cases xs) (simp_all add: oq_holds_def)
next
  fix nx q nx' q' and xs :: "'a list"
  assume q: "oq_holds nx q xs" and p: "oq_pop nx q = (nx', q')"
  then show "oq_holds nx' q' (tl xs)"
    by (cases xs; cases "tl xs") (auto simp: oq_holds_def oq_pop_def chain_update)
  fix r and ys :: "'a list"
  assume "oq_holds nx r ys" "set ys \<inter> set xs = {}"
  with q p show "oq_holds nx' r ys"
    by (cases xs) (auto simp: oq_holds_def oq_pop_def chain_update)
next
  fix nx q h nx' q' and xs :: "'a list"
  assume q: "oq_holds nx q xs" and p: "oq_push h nx q = (nx', q')"
  show "oq_holds nx' q' (xs @ [h])" if "h \<notin> set xs"
  proof (cases "xs = []")
    case True
    then show ?thesis using q p by (auto simp: oq_holds_def oq_push_def)
  next
    case False
    then have "chain ((nx(h := None))(last xs := Some h)) (oq_front q) (xs @ [h])"
      using q that by (intro chain_append) (auto simp: oq_holds_def chain_update)
    then show ?thesis using False q p that by (auto simp: oq_holds_def oq_push_def Let_def)
  qed
  fix r and ys :: "'a list"
  assume "oq_holds nx r ys" "set ys \<inter> insert h (set xs) = {}"
  then have "oq_holds (nx(h := None)) r ys" "xs \<noteq> [] \<Longrightarrow> last xs \<notin> set ys" by (auto intro!: oq_holds_update)
  with q p show "oq_holds nx' r ys"
    by (cases "xs = []") (auto simp: oq_holds_def oq_push_def Let_def chain_update)
next
  fix nx p q nx' p' q' and xs ys :: "'a list"
  assume h: "oq_holds nx p xs" "oq_holds nx q ys" and r: "oq_push_all nx p q = (nx', p', q')"
  show "oq_holds nx' p' (xs @ ys) \<and> oq_holds nx' q' []" if "set xs \<inter> set ys = {}"
  proof (cases "xs = [] \<or> ys = []")
    case True
    then show ?thesis using h r by (cases ys) (auto simp: oq_holds_def oq_push_all_def)
  next
    case False
    then have "chain (nx(last xs := oq_front q)) (oq_front p) (xs @ ys)"
      using h that by (intro chain_append) (auto simp: oq_holds_def)
    then show ?thesis using False h r that by (cases ys) (auto simp: oq_holds_def oq_push_all_def)
  qed
  fix s and zs :: "'a list"
  assume "oq_holds nx s zs" "set zs \<inter> (set xs \<union> set ys) = {}"
  moreover have "xs \<noteq> [] \<Longrightarrow> last xs \<notin> set zs" using calculation(2) by auto
  ultimately show "oq_holds nx' s zs" using h r
    by (cases "xs = []"; cases ys) (auto simp: oq_holds_def oq_push_all_def chain_update)
qed

subsection \<open>What the users rely on\<close>

context fifo
begin

lemma push_many:
  "holds s q xs \<Longrightarrow> distinct (xs @ hs) \<Longrightarrow> fold (\<lambda>h (s, q). push h s q) hs (s, q) = (s', q') \<Longrightarrow> holds s' q' (xs @ hs)"
proof (induction hs arbitrary: s q xs)
  case (Cons h hs)
  obtain s1 q1 where p: "push h s q = (s1, q1)" by (cases "push h s q")
  have "holds s1 q1 (xs @ [h])" using Cons.prems(1,2) p by (intro push_end) auto
  with Cons.IH [of s1 q1 "xs @ [h]"] Cons.prems(2,3) p show ?case by simp
qed simp

end

lemma oq_destroy_list: "oq_holds nx q xs \<Longrightarrow> \<exists>nx'. oq_destroy nx q acc = Some (nx', acc @ xs)"
proof (induction xs arbitrary: nx q acc)
  case Nil
  then have "oq_front q = None" using oq.front_hd by fastforce
  then show ?case by (subst oq_destroy.simps) simp
next
  case (Cons x xs)
  obtain nx1 q1 where p: "oq_pop nx q = (nx1, q1)" by (cases "oq_pop nx q")
  have "oq_front q = Some x" using oq.front_hd [OF Cons.prems] by simp
  moreover have "oq_holds nx1 q1 xs" using oq.pop_tl [OF Cons.prems p] by simp
  ultimately show ?case using Cons.IH [of nx1 q1 "acc @ [x]"] p by (subst oq_destroy.simps) simp
qed

text \<open>
  C27. An \<open>op_queue\<close> is a list of operations: pushing adds at the end, popping removes the first, pushing a
  whole queue appends it and leaves it empty, the destructor ends and destroys every operation in order, and
  the other queues that share the links keep their lists.
\<close>

theorem op_queue_refines_list:
  assumes "oq_holds nx p xs" and "oq_holds nx q ys" and "set xs \<inter> set ys = {}" and "h \<notin> set xs \<union> set ys"
  shows "(case oq_push h nx p of (nx', p') \<Rightarrow> oq_holds nx' p' (xs @ [h]) \<and> oq_holds nx' q ys)
    \<and> (case oq_pop nx p of (nx', p') \<Rightarrow> oq_holds nx' p' (tl xs) \<and> oq_holds nx' q ys)
    \<and> (case oq_push_all nx p q of (nx', p', q') \<Rightarrow> oq_holds nx' p' (xs @ ys) \<and> oq_holds nx' q' [])
    \<and> (\<exists>nx'. oq_destroy nx p [] = Some (nx', xs))
    \<and> oq_front p = (case xs of [] \<Rightarrow> None | x # _ \<Rightarrow> Some x) \<and> oq_empty p = (xs = [])"
proof -
  have d: "set ys \<inter> insert h (set xs) = {}" "set ys \<inter> set xs = {}" "h \<notin> set xs" using assms(3,4) by auto
  show ?thesis
    using oq.push_end [OF assms(1) d(3)] oq.push_frame [OF assms(1) _ assms(2) d(1)]
      oq.pop_tl [OF assms(1)] oq.pop_frame [OF assms(1) _ assms(2) d(2)]
      oq.push_all_end [OF assms(1-3)] oq_destroy_list [OF assms(1), of "[]"] oq.front_hd [OF assms(1)]
    by (cases xs) (auto simp: oq_empty_def split: prod.split)
qed

theorem op_queue_refines_list_witness:
  "case oq_push_all (\<lambda>x. if x = 1 then Some 2 else None) \<lparr>oq_front = Some (1::nat), oq_back = Some 2\<rparr> \<lparr>oq_front = Some 3, oq_back = Some 3\<rparr> of
     (nx, p, q) \<Rightarrow> oq_holds nx p [1, 2, 3] \<and> oq_holds nx q []"
  using op_queue_refines_list [of "\<lambda>x. if x = 1 then Some 2 else None" "\<lparr>oq_front = Some (1::nat), oq_back = Some 2\<rparr>" "[1, 2]"
      "\<lparr>oq_front = Some 3, oq_back = Some 3\<rparr>" "[3]" 4]
  by (simp add: oq_holds_def)

end
