(* ===== verification/Asio_Strand.thy ===== *)
theory Asio_Strand
  imports Prelude "HOL-Library.Sublist"
begin

text \<open>
  The strand of src/asio/include/asio/detail/impl/strand_service.ipp and .hpp: handlers that are given to one
  strand are never run at the same time, in any number of threads that run the \<open>io_service\<close>. The sections
  under the mutex of the strand are atomic functions; what a thread does between two of them (pushing on the
  ready queue, scheduling the strand, running handlers) are separate steps of its program counter, so that all
  interleavings of the threads are runs of the step relation. The queues are lists (\<open>Asio_Op_Queue\<close>).

  A handler may throw, which leaves the strand through the destructor of its exit object, and may call
  \<open>dispatch\<close> on the strand it runs in, which invokes the new handler at once.
\<close>

subsection \<open>The sections under the mutex\<close>

record 'h strand_impl =
  si_locked :: bool
  si_waiting :: "'h list"
  si_ready :: "'h list"

text \<open>\<open>True\<close>: the caller has acquired the strand and has to push the handler and schedule the strand.\<close>

definition do_post :: "'h \<Rightarrow> 'h strand_impl \<Rightarrow> 'h strand_impl \<times> bool" where
  "do_post op impl =
     (if si_locked impl then (impl\<lparr>si_waiting := si_waiting impl @ [op]\<rparr>, False)
      else (impl\<lparr>si_locked := True\<rparr>, True))"

datatype dispatch_result = Immediately | Enqueued | Must_schedule

definition do_dispatch :: "bool \<Rightarrow> 'h \<Rightarrow> 'h strand_impl \<Rightarrow> 'h strand_impl \<times> dispatch_result" where
  "do_dispatch can_dispatch op impl =
     (if can_dispatch \<and> \<not> si_locked impl then (impl\<lparr>si_locked := True\<rparr>, Immediately)
      else if si_locked impl then (impl\<lparr>si_waiting := si_waiting impl @ [op]\<rparr>, Enqueued)
      else (impl\<lparr>si_locked := True\<rparr>, Must_schedule))"

text \<open>The destructors of \<open>on_do_complete_exit\<close> and \<open>on_dispatch_exit\<close>: whether there are more handlers.\<close>

definition strand_exit :: "'h strand_impl \<Rightarrow> 'h strand_impl \<times> bool" where
  "strand_exit impl =
     (let ready = si_ready impl @ si_waiting impl
      in (impl\<lparr>si_ready := ready, si_waiting := [], si_locked := (ready \<noteq> [])\<rparr>, ready \<noteq> []))"

subsection \<open>Threads\<close>

text \<open>
  Where a thread is: outside the strand; between acquiring it and pushing, and between pushing and scheduling;
  in \<open>do_complete\<close> or in an immediate \<open>dispatch\<close>, with the handlers that are running, the innermost first; or
  between leaving it and scheduling it again. The flag is the argument \<open>is_continuation\<close> of the coming call of
  \<open>post_immediate_completion\<close>.
\<close>

datatype 'h strand_pc = Outside | Acquired bool 'h | Pushed bool | Inside "'h list" | Dispatched "'h list" | Released bool

text \<open>
  The strand is an operation in the common queue of the service (\<open>st_scheduled\<close>) or in the private queue of one of its
  threads; \<open>st_in\<close> are the threads that are in the service, and \<open>st_asleep\<close> those of them that wait, on the event or in
  the reactor, and look at the common queue only when they are woken.
\<close>

record 'h strand_state =
  st_impl :: "'h strand_impl"
  st_scheduled :: nat
  st_private :: "nat \<Rightarrow> nat"
  st_in :: "nat set"
  st_asleep :: "nat set"
  st_pc :: "nat \<Rightarrow> 'h strand_pc"
  st_accepted :: "'h list"
  st_started :: "'h list"

definition strand_start :: "'h strand_state" where
  "strand_start = \<lparr>st_impl = \<lparr>si_locked = False, si_waiting = [], si_ready = []\<rparr>, st_scheduled = 0,
     st_private = (\<lambda>t. 0), st_in = {}, st_asleep = {}, st_pc = (\<lambda>t. Outside), st_accepted = [], st_started = []\<rparr>"

text \<open>\<open>runs_handler\<close>: a handler of the strand is running in the thread.\<close>

fun runs_handler :: "'h strand_pc \<Rightarrow> bool" where
  "runs_handler (Inside hs) = (hs \<noteq> [])"
| "runs_handler (Dispatched hs) = (hs \<noteq> [])"
| "runs_handler _ = False"

definition strand_leave :: "bool \<Rightarrow> nat \<Rightarrow> 'h strand_state \<Rightarrow> 'h strand_state" where
  "strand_leave is_continuation t s =
     (case strand_exit (st_impl s) of
        (impl, again) \<Rightarrow> s\<lparr>st_impl := impl, st_pc := (st_pc s)(t := if again then Released is_continuation else Outside)\<rparr>)"

text \<open>
  \<open>post_immediate_completion\<close> of the service, for the strand: a continuation, or any operation when there is one thread
  only, goes to the private queue of the calling thread if that is in the service, without waking another; otherwise it
  goes to the common queue and wakes \<open>u\<close>, some thread that sleeps, if there is one.
\<close>

definition to_private :: "bool \<Rightarrow> bool \<Rightarrow> nat \<Rightarrow> 'h strand_state \<Rightarrow> bool" where
  "to_private one_thread is_continuation t s \<longleftrightarrow> (one_thread \<or> is_continuation) \<and> t \<in> st_in s"

definition wakes :: "nat option \<Rightarrow> 'h strand_state \<Rightarrow> bool" where
  "wakes u s \<longleftrightarrow> (case u of Some t \<Rightarrow> t \<in> st_asleep s | None \<Rightarrow> st_asleep s = {})"

definition post_strand :: "bool \<Rightarrow> bool \<Rightarrow> nat option \<Rightarrow> nat \<Rightarrow> 'h strand_state \<Rightarrow> 'h strand_state" where
  "post_strand one_thread is_continuation u t s =
     (if to_private one_thread is_continuation t s then s\<lparr>st_private := (st_private s)(t := st_private s t + 1)\<rparr>
      else s\<lparr>st_scheduled := st_scheduled s + 1, st_asleep := st_asleep s - set_option u\<rparr>)"

text \<open>The end of the handler that the service runs in the thread: its private queue is moved, and nobody is woken.\<close>

definition flush_private :: "nat \<Rightarrow> 'h strand_state \<Rightarrow> 'h strand_state" where
  "flush_private t s = s\<lparr>st_scheduled := st_scheduled s + st_private s t, st_private := (st_private s)(t := 0)\<rparr>"

text \<open>The steps of threads that already have something to do.\<close>

inductive strand_work :: "bool \<Rightarrow> 'h strand_state \<Rightarrow> 'h strand_state \<Rightarrow> bool" for one_thread :: bool where
  push_ready: "st_pc s t = Acquired c h \<Longrightarrow>
     strand_work one_thread s (s\<lparr>st_impl := (st_impl s)\<lparr>si_ready := si_ready (st_impl s) @ [h]\<rparr>, st_pc := (st_pc s)(t := Pushed c)\<rparr>)"
| schedule: "st_pc s t = Pushed c \<or> st_pc s t = Released c \<Longrightarrow> wakes u s \<Longrightarrow>
     strand_work one_thread s ((post_strand one_thread c u t s)\<lparr>st_pc := (st_pc s)(t := Outside)\<rparr>)"
| flush: "st_pc s t = Outside \<Longrightarrow> 0 < st_private s t \<Longrightarrow> strand_work one_thread s (flush_private t s)"
| enter: "t \<in> st_in s \<Longrightarrow> t \<notin> st_asleep s \<Longrightarrow> st_pc s t = Outside \<Longrightarrow> st_private s t = 0 \<Longrightarrow> st_scheduled s = Suc n \<Longrightarrow>
     strand_work one_thread s (s\<lparr>st_scheduled := n, st_pc := (st_pc s)(t := Inside [])\<rparr>)"
| run_ready: "st_pc s t = Inside [] \<Longrightarrow> si_ready (st_impl s) = h # hs \<Longrightarrow>
     strand_work one_thread s (s\<lparr>st_impl := (st_impl s)\<lparr>si_ready := hs\<rparr>, st_pc := (st_pc s)(t := Inside [h]),
       st_started := st_started s @ [h]\<rparr>)"
| return_inside: "st_pc s t = Inside (h # hs) \<Longrightarrow> strand_work one_thread s (s\<lparr>st_pc := (st_pc s)(t := Inside hs)\<rparr>)"
| return_dispatched: "st_pc s t = Dispatched (h # hs) \<Longrightarrow> strand_work one_thread s (s\<lparr>st_pc := (st_pc s)(t := Dispatched hs)\<rparr>)"
| leave_inside: "st_pc s t = Inside [] \<Longrightarrow> si_ready (st_impl s) = [] \<Longrightarrow> strand_work one_thread s (strand_leave True t s)"
| leave_dispatched: "st_pc s t = Dispatched [] \<Longrightarrow> strand_work one_thread s (strand_leave False t s)"
| throw_inside: "st_pc s t = Inside (h # hs) \<Longrightarrow> strand_work one_thread s (strand_leave True t s)"
| throw_dispatched: "st_pc s t = Dispatched (h # hs) \<Longrightarrow> strand_work one_thread s (strand_leave False t s)"

text \<open>
  The requests of the program: from a thread outside the strand that does not sleep, or from a handler that runs in it.
  \<open>can_dispatch\<close> holds in the threads of the service. A posted handler may be a continuation.
\<close>

inductive strand_request :: "'h strand_state \<Rightarrow> 'h strand_state \<Rightarrow> bool" where
  post_enqueue: "st_pc s t = Outside \<and> t \<notin> st_asleep s \<or> runs_handler (st_pc s t) \<Longrightarrow> do_post h (st_impl s) = (impl, False) \<Longrightarrow>
     strand_request s (s\<lparr>st_impl := impl, st_accepted := st_accepted s @ [h]\<rparr>)"
| post_acquire: "st_pc s t = Outside \<Longrightarrow> t \<notin> st_asleep s \<Longrightarrow> do_post h (st_impl s) = (impl, True) \<Longrightarrow>
     strand_request s (s\<lparr>st_impl := impl, st_pc := (st_pc s)(t := Acquired is_continuation h), st_accepted := st_accepted s @ [h]\<rparr>)"
| dispatch_nested: "st_pc s t = Inside (g # hs) \<Longrightarrow> strand_request s (s\<lparr>st_pc := (st_pc s)(t := Inside (h # g # hs))\<rparr>)"
| dispatch_nested': "st_pc s t = Dispatched (g # hs) \<Longrightarrow>
     strand_request s (s\<lparr>st_pc := (st_pc s)(t := Dispatched (h # g # hs))\<rparr>)"
| dispatch_now: "st_pc s t = Outside \<Longrightarrow> t \<notin> st_asleep s \<Longrightarrow> do_dispatch (t \<in> st_in s) h (st_impl s) = (impl, Immediately) \<Longrightarrow>
     strand_request s (s\<lparr>st_impl := impl, st_pc := (st_pc s)(t := Dispatched [h])\<rparr>)"
| dispatch_enqueue: "st_pc s t = Outside \<Longrightarrow> t \<notin> st_asleep s \<Longrightarrow> do_dispatch (t \<in> st_in s) h (st_impl s) = (impl, Enqueued) \<Longrightarrow>
     strand_request s (s\<lparr>st_impl := impl, st_accepted := st_accepted s @ [h]\<rparr>)"
| dispatch_acquire: "st_pc s t = Outside \<Longrightarrow> t \<notin> st_asleep s \<Longrightarrow> do_dispatch (t \<in> st_in s) h (st_impl s) = (impl, Must_schedule) \<Longrightarrow>
     strand_request s (s\<lparr>st_impl := impl, st_pc := (st_pc s)(t := Acquired False h), st_accepted := st_accepted s @ [h]\<rparr>)"

text \<open>
  What threads do with the service otherwise. One that looks at an empty queue may wait; it may be woken for anything
  else; threads come, and go between handlers: at any time if \<open>leaves\<close> (as \<open>run_one\<close> and \<open>poll\<close> do), and otherwise only
  while the strand is free, since \<open>run\<close> does not return before the work is done.
\<close>

inductive strand_service_step :: "nat set \<Rightarrow> bool \<Rightarrow> 'h strand_state \<Rightarrow> 'h strand_state \<Rightarrow> bool"
  for W :: "nat set" and leaves :: bool where
  come: "t \<in> W \<Longrightarrow> t \<notin> st_in s \<Longrightarrow> st_pc s t = Outside \<Longrightarrow> strand_service_step W leaves s (s\<lparr>st_in := insert t (st_in s)\<rparr>)"
| go: "t \<in> st_in s \<Longrightarrow> t \<notin> st_asleep s \<Longrightarrow> st_pc s t = Outside \<Longrightarrow> st_private s t = 0 \<Longrightarrow> leaves \<or> \<not> si_locked (st_impl s) \<Longrightarrow>
     strand_service_step W leaves s (s\<lparr>st_in := st_in s - {t}\<rparr>)"
| sleep: "t \<in> st_in s \<Longrightarrow> st_pc s t = Outside \<Longrightarrow> st_private s t = 0 \<Longrightarrow> st_scheduled s = 0 \<Longrightarrow>
     strand_service_step W leaves s (s\<lparr>st_asleep := insert t (st_asleep s)\<rparr>)"
| awaken: "strand_service_step W leaves s (s\<lparr>st_asleep := st_asleep s - {t}\<rparr>)"

inductive strand_reachable :: "nat set \<Rightarrow> bool \<Rightarrow> bool \<Rightarrow> 'h strand_state \<Rightarrow> bool"
  for W :: "nat set" and one_thread :: bool and leaves :: bool where
  strand_initial: "strand_reachable W one_thread leaves strand_start"
| strand_worked: "strand_reachable W one_thread leaves s \<Longrightarrow> strand_work one_thread s s' \<Longrightarrow> strand_reachable W one_thread leaves s'"
| strand_requested: "strand_reachable W one_thread leaves s \<Longrightarrow> strand_request s s' \<Longrightarrow> strand_reachable W one_thread leaves s'"
| strand_serviced: "strand_reachable W one_thread leaves s \<Longrightarrow> strand_service_step W leaves s s' \<Longrightarrow>
     strand_reachable W one_thread leaves s'"

subsection \<open>Who holds the strand\<close>

text \<open>
  The strand is free, or scheduled exactly once, in the common or in one private queue, or held by exactly one thread; in
  each case the accepted handlers are the started ones followed by those in the queues.
\<close>

fun held_ok :: "'h strand_pc \<Rightarrow> 'h list \<Rightarrow> 'h list \<Rightarrow> 'h list \<Rightarrow> bool" where
  "held_ok Outside ready waiting rest = False"
| "held_ok (Acquired c h) ready waiting rest = (ready = [] \<and> rest = h # waiting)"
| "held_ok (Inside hs) ready waiting rest = (rest = ready @ waiting)"
| "held_ok (Dispatched hs) ready waiting rest = (ready = [] \<and> rest = waiting)"
| "held_ok _ ready waiting rest = (ready \<noteq> [] \<and> rest = ready @ waiting)"

definition queued_once :: "'h strand_state \<Rightarrow> bool" where
  "queued_once s \<longleftrightarrow> st_scheduled s = 1 \<and> st_private s = (\<lambda>t. 0) \<or> st_scheduled s = 0 \<and> (\<exists>t. st_private s = (\<lambda>t. 0)(t := 1))"

definition not_queued :: "'h strand_state \<Rightarrow> bool" where
  "not_queued s \<longleftrightarrow> st_scheduled s = 0 \<and> st_private s = (\<lambda>t. 0)"

definition strand_inv :: "'h strand_state \<Rightarrow> bool" where
  "strand_inv s \<longleftrightarrow> (let impl = st_impl s in
     \<exists>rest. st_accepted s = st_started s @ rest
       \<and> (\<not> si_locked impl \<and> not_queued s \<and> (\<forall>t. st_pc s t = Outside)
             \<and> si_ready impl = [] \<and> si_waiting impl = [] \<and> rest = []
          \<or> si_locked impl \<and> queued_once s \<and> (\<forall>t. st_pc s t = Outside)
             \<and> si_ready impl \<noteq> [] \<and> rest = si_ready impl @ si_waiting impl
          \<or> si_locked impl \<and> not_queued s
             \<and> (\<exists>t. (\<forall>u. u \<noteq> t \<longrightarrow> st_pc s u = Outside) \<and> held_ok (st_pc s t) (si_ready impl) (si_waiting impl) rest)))"

lemma strand_inv_free:
  "\<not> si_locked (st_impl s) \<Longrightarrow> not_queued s \<Longrightarrow> (\<And>t. st_pc s t = Outside) \<Longrightarrow> si_ready (st_impl s) = []
    \<Longrightarrow> si_waiting (st_impl s) = [] \<Longrightarrow> st_accepted s = st_started s \<Longrightarrow> strand_inv s"
  by (simp add: strand_inv_def)

lemma strand_inv_scheduled:
  "si_locked (st_impl s) \<Longrightarrow> queued_once s \<Longrightarrow> (\<And>t. st_pc s t = Outside) \<Longrightarrow> si_ready (st_impl s) \<noteq> []
    \<Longrightarrow> st_accepted s = st_started s @ si_ready (st_impl s) @ si_waiting (st_impl s) \<Longrightarrow> strand_inv s"
  by (simp add: strand_inv_def)

lemma strand_inv_held:
  "si_locked (st_impl s) \<Longrightarrow> not_queued s \<Longrightarrow> (\<And>u. u \<noteq> t \<Longrightarrow> st_pc s u = Outside)
    \<Longrightarrow> st_accepted s = st_started s @ rest \<Longrightarrow> held_ok (st_pc s t) (si_ready (st_impl s)) (si_waiting (st_impl s)) rest
    \<Longrightarrow> strand_inv s"
  unfolding strand_inv_def Let_def by blast

lemma strand_inv_cases [consumes 1, case_names free scheduled held]:
  assumes "strand_inv s"
  obtains "\<not> si_locked (st_impl s)" "not_queued s" "\<And>t. st_pc s t = Outside" "si_ready (st_impl s) = []"
      "si_waiting (st_impl s) = []" "st_accepted s = st_started s"
  | "si_locked (st_impl s)" "queued_once s" "\<And>t. st_pc s t = Outside" "si_ready (st_impl s) \<noteq> []"
      "st_accepted s = st_started s @ si_ready (st_impl s) @ si_waiting (st_impl s)"
  | t rest where "si_locked (st_impl s)" "not_queued s" "\<And>u. u \<noteq> t \<Longrightarrow> st_pc s u = Outside"
      "st_accepted s = st_started s @ rest"
      "held_ok (st_pc s t) (si_ready (st_impl s)) (si_waiting (st_impl s)) rest"
  using assms unfolding strand_inv_def Let_def by (elim exE conjE disjE) auto

lemma queued_simps [simp]:
  "not_queued (s\<lparr>st_impl := i\<rparr>) = not_queued s" "not_queued (s\<lparr>st_pc := p\<rparr>) = not_queued s"
  "not_queued (s\<lparr>st_accepted := a\<rparr>) = not_queued s" "not_queued (s\<lparr>st_started := a\<rparr>) = not_queued s"
  "not_queued (s\<lparr>st_in := w\<rparr>) = not_queued s" "not_queued (s\<lparr>st_asleep := w\<rparr>) = not_queued s"
  "queued_once (s\<lparr>st_impl := i\<rparr>) = queued_once s" "queued_once (s\<lparr>st_pc := p\<rparr>) = queued_once s"
  "queued_once (s\<lparr>st_accepted := a\<rparr>) = queued_once s" "queued_once (s\<lparr>st_started := a\<rparr>) = queued_once s"
  "queued_once (s\<lparr>st_in := w\<rparr>) = queued_once s" "queued_once (s\<lparr>st_asleep := w\<rparr>) = queued_once s"
  by (simp_all add: not_queued_def queued_once_def)

lemma holder: "strand_inv s \<Longrightarrow> st_pc s t \<noteq> Outside \<Longrightarrow> si_locked (st_impl s) \<and> not_queued s
    \<and> (\<forall>u. u \<noteq> t \<longrightarrow> st_pc s u = Outside)
    \<and> (\<exists>rest. st_accepted s = st_started s @ rest \<and> held_ok (st_pc s t) (si_ready (st_impl s)) (si_waiting (st_impl s)) rest)"
  by (erule strand_inv_cases) (auto, metis+)

text \<open>Queueing and unqueueing the strand.\<close>

lemma post_strand_fields [simp]:
  "st_impl (post_strand one c u t s) = st_impl s" "st_pc (post_strand one c u t s) = st_pc s" "st_in (post_strand one c u t s) = st_in s"
  "st_accepted (post_strand one c u t s) = st_accepted s" "st_started (post_strand one c u t s) = st_started s"
  by (simp_all add: post_strand_def)

lemma flush_fields [simp]:
  "st_impl (flush_private t s) = st_impl s" "st_pc (flush_private t s) = st_pc s" "st_in (flush_private t s) = st_in s"
  "st_asleep (flush_private t s) = st_asleep s" "st_accepted (flush_private t s) = st_accepted s" "st_started (flush_private t s) = st_started s"
  by (simp_all add: flush_private_def)

lemma post_strand_queues: "not_queued s \<Longrightarrow> queued_once (post_strand one c u t s)"
  by (auto simp: not_queued_def queued_once_def post_strand_def)

lemma flush_queues:
  assumes "queued_once s" and "0 < st_private s t"
  shows "queued_once (flush_private t s) \<and> st_scheduled s = 0 \<and> st_scheduled (flush_private t s) = 1"
proof -
  obtain u where "st_scheduled s = 0" "st_private s = (\<lambda>t. 0)(u := 1)" using assms by (auto simp: queued_once_def)
  moreover from this have "u = t" using assms(2) by (simp split: if_splits)
  ultimately show ?thesis by (simp add: queued_once_def flush_private_def fun_eq_iff)
qed

lemma unqueued: "queued_once s \<Longrightarrow> st_scheduled s = Suc n \<Longrightarrow> not_queued (s\<lparr>st_scheduled := n\<rparr>)"
  by (auto simp: queued_once_def not_queued_def)

lemma scheduled_queued: "strand_inv s \<Longrightarrow> 0 < st_scheduled s \<or> 0 < st_private s t \<Longrightarrow> queued_once s \<and> (\<forall>u. st_pc s u = Outside)
    \<and> si_locked (st_impl s) \<and> si_ready (st_impl s) \<noteq> []
    \<and> st_accepted s = st_started s @ si_ready (st_impl s) @ si_waiting (st_impl s)"
  by (erule strand_inv_cases) (auto simp: not_queued_def)

lemma leave_inv:
  assumes inv: "strand_inv s" and pc: "(\<exists>hs. st_pc s t = Inside hs) \<or> (\<exists>hs. st_pc s t = Dispatched hs)"
  shows "strand_inv (strand_leave c t s)"
proof -
  have "st_pc s t \<noteq> Outside" using pc by auto
  from holder [OF inv this] obtain rest where h: "si_locked (st_impl s)" "not_queued s"
    "\<forall>u. u \<noteq> t \<longrightarrow> st_pc s u = Outside" "st_accepted s = st_started s @ rest"
    "held_ok (st_pc s t) (si_ready (st_impl s)) (si_waiting (st_impl s)) rest" by blast
  then have rest: "rest = si_ready (st_impl s) @ si_waiting (st_impl s)" using pc by auto
  show ?thesis
  proof (cases "rest = []")
    case True
    then show ?thesis using h rest
      by (intro strand_inv_free) (auto simp: strand_leave_def strand_exit_def)
  next
    case False
    then show ?thesis using h rest
      by (intro strand_inv_held [where t = t and rest = rest]) (auto simp: strand_leave_def strand_exit_def Let_def)
  qed
qed

lemma work_inv: "strand_work one s s' \<Longrightarrow> strand_inv s \<Longrightarrow> strand_inv s'"
proof (induction rule: strand_work.induct)
  case (push_ready s t c h)
  then show ?case using holder [of s t]
    by (intro strand_inv_held [where t = t and rest = "h # si_waiting (st_impl s)"]) auto
next
  case (schedule s t c u)
  then show ?case using holder [of s t] by (intro strand_inv_scheduled) (auto intro: post_strand_queues)
next
  case (flush s t)
  then have "queued_once s" using scheduled_queued [of s t] by blast
  then show ?case using flush scheduled_queued [of s t] flush_queues [of s t] by (intro strand_inv_scheduled) auto
next
  case (enter t s n)
  then have q: "queued_once s \<and> (\<forall>u. st_pc s u = Outside) \<and> si_locked (st_impl s)
    \<and> st_accepted s = st_started s @ si_ready (st_impl s) @ si_waiting (st_impl s)" using scheduled_queued [of s t] by auto
  moreover have "not_queued (s\<lparr>st_scheduled := n, st_pc := (st_pc s)(t := Inside [])\<rparr>)"
    using unqueued [of s n] q enter by simp
  ultimately show ?case
    by (intro strand_inv_held [where t = t and rest = "si_ready (st_impl s) @ si_waiting (st_impl s)"]) simp_all
next
  case (run_ready s t h hs)
  then show ?case using holder [of s t]
    by (intro strand_inv_held [where t = t and rest = "hs @ si_waiting (st_impl s)"]) auto
next
  case (return_inside s t h hs)
  then show ?case using holder [of s t]
    by (intro strand_inv_held [where t = t and rest = "si_ready (st_impl s) @ si_waiting (st_impl s)"]) auto
next
  case (return_dispatched s t h hs)
  then show ?case using holder [of s t]
    by (intro strand_inv_held [where t = t and rest = "si_waiting (st_impl s)"]) auto
qed (auto intro: leave_inv)

lemma held_ok_enqueue: "held_ok pc ready waiting rest \<Longrightarrow> held_ok pc ready (waiting @ [h]) (rest @ [h])"
  by (cases pc) auto

lemma enqueue_inv:
  assumes "strand_inv s" and l: "si_locked (st_impl s)"
  shows "strand_inv (s\<lparr>st_impl := (st_impl s)\<lparr>si_waiting := si_waiting (st_impl s) @ [h]\<rparr>, st_accepted := st_accepted s @ [h]\<rparr>)"
  using assms(1)
proof (cases rule: strand_inv_cases)
  case scheduled
  then show ?thesis using l by (intro strand_inv_scheduled) auto
next
  case (held u rest)
  then show ?thesis using l held_ok_enqueue [OF held(5), of h]
    by (intro strand_inv_held [where t = u and rest = "rest @ [h]"]) simp_all
qed (use l in simp)

lemma acquire_inv:
  assumes "strand_inv s" and l: "\<not> si_locked (st_impl s)"
  shows "strand_inv (s\<lparr>st_impl := (st_impl s)\<lparr>si_locked := True\<rparr>, st_pc := (st_pc s)(t := Acquired c h),
    st_accepted := st_accepted s @ [h]\<rparr>)"
    and "strand_inv (s\<lparr>st_impl := (st_impl s)\<lparr>si_locked := True\<rparr>, st_pc := (st_pc s)(t := Dispatched [h])\<rparr>)"
proof -
  from assms(1) have f: "not_queued s" "\<And>t. st_pc s t = Outside" "si_ready (st_impl s) = []"
      "si_waiting (st_impl s) = []" "st_accepted s = st_started s"
    using l by (cases rule: strand_inv_cases; simp)+
  then show "strand_inv (s\<lparr>st_impl := (st_impl s)\<lparr>si_locked := True\<rparr>, st_pc := (st_pc s)(t := Acquired c h),
    st_accepted := st_accepted s @ [h]\<rparr>)"
    by (intro strand_inv_held [where t = t and rest = "[h]"]) auto
  from f show "strand_inv (s\<lparr>st_impl := (st_impl s)\<lparr>si_locked := True\<rparr>, st_pc := (st_pc s)(t := Dispatched [h])\<rparr>)"
    by (intro strand_inv_held [where t = t and rest = "[]"]) auto
qed

lemma request_inv: "strand_request s s' \<Longrightarrow> strand_inv s \<Longrightarrow> strand_inv s'"
proof (induction rule: strand_request.induct)
  case (post_enqueue s t h impl)
  then show ?case using enqueue_inv by (auto simp: do_post_def split: if_splits)
next
  case (dispatch_enqueue s t h impl)
  then show ?case using enqueue_inv by (auto simp: do_dispatch_def split: if_splits)
next
  case (post_acquire s t h impl is_continuation)
  then show ?case using acquire_inv(1) by (auto simp: do_post_def split: if_splits)
next
  case (dispatch_acquire s t h impl)
  then show ?case using acquire_inv(1) by (auto simp: do_dispatch_def split: if_splits)
next
  case (dispatch_now s t h impl)
  then show ?case using acquire_inv(2) by (auto simp: do_dispatch_def split: if_splits)
next
  case (dispatch_nested s t g hs h)
  then show ?case using holder [of s t]
    by (intro strand_inv_held [where t = t and rest = "si_ready (st_impl s) @ si_waiting (st_impl s)"]) auto
next
  case (dispatch_nested' s t g hs h)
  then show ?case using holder [of s t]
    by (intro strand_inv_held [where t = t and rest = "si_waiting (st_impl s)"]) auto
qed

lemma strand_inv_service: "strand_inv s \<Longrightarrow> strand_inv (s\<lparr>st_in := w\<rparr>)" "strand_inv s \<Longrightarrow> strand_inv (s\<lparr>st_asleep := w\<rparr>)"
  by (simp_all add: strand_inv_def)

lemma service_inv: "strand_service_step W leaves s s' \<Longrightarrow> strand_inv s \<Longrightarrow> strand_inv s'"
  by (erule strand_service_step.cases) (auto intro: strand_inv_service)

lemma strand_reachable_inv: "strand_reachable W one leaves s \<Longrightarrow> strand_inv s"
proof (induction rule: strand_reachable.induct)
  case strand_initial
  show ?case by (rule strand_inv_free) (simp_all add: strand_start_def not_queued_def)
qed (auto intro: work_inv request_inv service_inv)

subsection \<open>Who comes for it\<close>

text \<open>
  While threads leave only a free strand: whenever it is in the common queue and some thread is in the service, one of them
  does not sleep; a private queue belongs to a thread of the service that does not sleep.
\<close>

definition coming :: "'h strand_state \<Rightarrow> bool" where
  "coming s \<longleftrightarrow> st_asleep s \<subseteq> st_in s \<and> (\<forall>t. st_pc s t \<noteq> Outside \<or> 0 < st_private s t \<longrightarrow> t \<notin> st_asleep s)
     \<and> (\<forall>t. 0 < st_private s t \<longrightarrow> t \<in> st_in s) \<and> (0 < st_scheduled s \<longrightarrow> st_in s = {} \<or> (\<exists>t \<in> st_in s. t \<notin> st_asleep s))"

lemma coming_same:
  "coming s \<Longrightarrow> st_asleep s' = st_asleep s \<Longrightarrow> st_in s' = st_in s \<Longrightarrow> st_private s' = st_private s \<Longrightarrow> st_scheduled s' \<le> st_scheduled s
    \<Longrightarrow> (\<And>t. st_pc s' t \<noteq> Outside \<Longrightarrow> t \<notin> st_asleep s) \<Longrightarrow> coming s'"
  by (auto simp: coming_def)

lemma coming_pc: "coming s \<Longrightarrow> st_pc s t \<noteq> Outside \<Longrightarrow> ((st_pc s)(t := p)) v \<noteq> Outside \<Longrightarrow> v \<notin> st_asleep s"
  by (auto simp: coming_def split: if_splits)

lemma post_coming:
  assumes c: "coming s" and t: "st_pc s t \<noteq> Outside" and w: "wakes u s"
  shows "coming ((post_strand one k u t s)\<lparr>st_pc := (st_pc s)(t := Outside)\<rparr>)"
proof (cases "to_private one k t s")
  case True
  then show ?thesis using c t by (auto simp: coming_def post_strand_def to_private_def)
next
  case False
  have "\<exists>v \<in> st_in s. v \<notin> st_asleep s - set_option u" if "st_in s \<noteq> {}"
    using c w that by (cases u) (auto simp: coming_def wakes_def)
  with False c show ?thesis by (auto simp: coming_def post_strand_def)
qed

lemma work_coming: "strand_work one s s' \<Longrightarrow> coming s \<Longrightarrow> coming s'"
proof (induction rule: strand_work.induct)
  case (push_ready s t c h)
  then show ?case using coming_pc [of s t] by (intro coming_same [OF push_ready(2)]) auto
next
  case (schedule s t c u)
  then show ?case by (intro post_coming) auto
next
  case (flush s t)
  then have "t \<in> st_in s" "t \<notin> st_asleep s" by (auto simp: coming_def)
  with flush show ?case by (auto simp: coming_def flush_private_def)
next
  case (enter t s n)
  then show ?case by (intro coming_same [OF enter(6)]) (auto simp: coming_def split: if_splits)
next
  case (run_ready s t h hs)
  then show ?case using coming_pc [of s t] by (intro coming_same [OF run_ready(3)]) auto
next
  case (return_inside s t h hs)
  then show ?case using coming_pc [of s t] by (intro coming_same [OF return_inside(2)]) auto
next
  case (return_dispatched s t h hs)
  then show ?case using coming_pc [of s t] by (intro coming_same [OF return_dispatched(2)]) auto
next
  case (leave_inside s t)
  then show ?case using coming_pc [of s t] by (intro coming_same [OF leave_inside(3)]) (auto simp: strand_leave_def strand_exit_def Let_def)
next
  case (leave_dispatched s t)
  then show ?case using coming_pc [of s t] by (intro coming_same [OF leave_dispatched(2)]) (auto simp: strand_leave_def strand_exit_def Let_def)
next
  case (throw_inside s t h hs)
  then show ?case using coming_pc [of s t] by (intro coming_same [OF throw_inside(2)]) (auto simp: strand_leave_def strand_exit_def Let_def)
next
  case (throw_dispatched s t h hs)
  then show ?case using coming_pc [of s t] by (intro coming_same [OF throw_dispatched(2)]) (auto simp: strand_leave_def strand_exit_def Let_def)
qed

lemma request_frame: "strand_request s s' \<Longrightarrow> st_asleep s' = st_asleep s \<and> st_in s' = st_in s \<and> st_private s' = st_private s
    \<and> st_scheduled s' = st_scheduled s \<and> (\<forall>v. st_pc s' v \<noteq> Outside \<longrightarrow> st_pc s v \<noteq> Outside \<or> v \<notin> st_asleep s)"
  by (induction rule: strand_request.induct) auto

lemma request_coming: "strand_request s s' \<Longrightarrow> coming s \<Longrightarrow> coming s'"
  using request_frame [of s s'] by (intro coming_same [of s s']) (auto simp: coming_def)

lemma service_coming:
  assumes "strand_service_step W False s s'" and "coming s" and inv: "strand_inv s"
  shows "coming s'"
  using assms(1)
proof cases
  case (go t)
  have "st_scheduled s = 0" using inv go by (auto simp: strand_inv_def not_queued_def Let_def)
  then show ?thesis using go assms(2) by (auto simp: coming_def)
qed (use assms(2) in \<open>auto simp: coming_def\<close>)

lemma strand_reachable_coming: "strand_reachable W one False s \<Longrightarrow> coming s"
proof (induction rule: strand_reachable.induct)
  case strand_initial
  show ?case by (simp add: coming_def strand_start_def)
next
  case (strand_serviced s s')
  then show ?case using service_coming strand_reachable_inv by blast
qed (auto intro: work_coming request_coming)

subsection \<open>Exclusion, order and progress\<close>

text \<open>
  A run to look at: thread 5 posts 7, which it pushes and schedules, thread 0 comes and starts it, thread 5 posts 8.
\<close>

lemma strand_busy:
  "\<exists>s :: nat strand_state. strand_reachable {0} False False s \<and> st_started s = [7] \<and> st_accepted s = [7, 8]
    \<and> st_pc s = (\<lambda>t. Outside)(0 := Inside [7]) \<and> si_ready (st_impl s) = [] \<and> st_in s = {0}"
  by (rule exI, rule conjI, rule strand_requested [OF strand_worked [OF strand_worked [OF strand_serviced [OF strand_worked
        [OF strand_worked [OF strand_requested [OF strand_initial
          strand_request.post_acquire [where t = 5 and h = 7 and is_continuation = False]]
          strand_work.push_ready [where t = 5 and h = 7]]
          strand_work.schedule [where t = 5 and u = None]]
          strand_service_step.come [where t = 0]]
          strand_work.enter [where t = 0 and n = 0]]
          strand_work.run_ready [where t = 0 and h = 7 and hs = "[]"]]
          strand_request.post_enqueue [where t = 5 and h = 8]])
    (auto simp: strand_start_def do_post_def fun_eq_iff wakes_def post_strand_def to_private_def)

text \<open>
  C22. At any moment of any interleaving at most one thread runs handlers of a strand, and then the strand is
  not scheduled in the service, neither in the common queue nor in that of a thread; it is never scheduled twice.
\<close>

theorem strand_exclusive:
  assumes "strand_reachable W one leaves s" and "runs_handler (st_pc s t)" and "runs_handler (st_pc s u)"
  shows "t = u \<and> st_scheduled s = 0 \<and> (\<forall>v. st_private s v = 0) \<and> si_locked (st_impl s)"
proof -
  have "st_pc s t \<noteq> Outside" "st_pc s u \<noteq> Outside" using assms(2,3) by auto
  then show ?thesis using holder [OF strand_reachable_inv [OF assms(1)]] unfolding not_queued_def by metis
qed

theorem strand_exclusive_witness:
  "\<exists>s :: nat strand_state. strand_reachable {0} False False s \<and> runs_handler (st_pc s 0) \<and> st_scheduled s = 0 \<and> si_locked (st_impl s)"
proof -
  obtain s :: "nat strand_state" where s: "strand_reachable {0} False False s" "st_pc s = (\<lambda>t. Outside)(0 := Inside [7])"
    using strand_busy by blast
  then have "runs_handler (st_pc s 0)" by simp
  with s(1) strand_exclusive [OF s(1) this this] show ?thesis by blast
qed

text \<open>
  C26. Handlers are started in the order in which the strand accepted them, and none is lost or duplicated:
  those accepted and not yet started are, in this order, the one that a thread is about to enqueue, the ready
  queue and the waiting queue; a strand that is not locked has started all.
\<close>

theorem strand_fifo:
  assumes "strand_reachable W one leaves s"
  shows "(\<exists>hand. st_accepted s = st_started s @ hand @ si_ready (st_impl s) @ si_waiting (st_impl s)
      \<and> (hand = [] \<or> (\<exists>t c h. hand = [h] \<and> st_pc s t = Acquired c h)))
    \<and> (si_locked (st_impl s) \<or> st_started s = st_accepted s)"
  using strand_reachable_inv [OF assms]
proof (cases rule: strand_inv_cases)
  case (held t rest)
  then show ?thesis by (cases "st_pc s t") auto
qed simp_all

theorem strand_fifo_witness:
  "\<exists>s :: nat strand_state. strand_reachable {0} False False s \<and> st_started s = [7] \<and> st_accepted s = [7, 8]
    \<and> si_waiting (st_impl s) = [8]"
proof -
  obtain s :: "nat strand_state" where s: "strand_reachable {0} False False s" "st_started s = [7]" "st_accepted s = [7, 8]"
      "st_pc s = (\<lambda>t. Outside)(0 := Inside [7])" "si_ready (st_impl s) = []"
    using strand_busy by blast
  with strand_fifo [OF s(1)] show ?thesis by (auto simp: fun_upd_def split: if_splits)
qed

text \<open>What the threads have left to do.\<close>

fun pc_weight :: "'h strand_pc \<Rightarrow> nat" where
  "pc_weight Outside = 0"
| "pc_weight (Acquired c h) = 15"
| "pc_weight (Inside hs) = 1 + 4 * length hs"
| "pc_weight (Dispatched hs) = 1 + 4 * length hs"
| "pc_weight _ = 4"

definition strand_todo :: "'h strand_state \<Rightarrow> nat" where
  "strand_todo s = 10 * length (si_ready (st_impl s)) + 20 * length (si_waiting (st_impl s)) + 2 * st_scheduled s
     + (\<Sum>t \<in> {t. st_private s t \<noteq> 0}. 3 * st_private s t) + (\<Sum>t \<in> {t. st_pc s t \<noteq> Outside}. pc_weight (st_pc s t))"

definition queue_todo :: "'h strand_state \<Rightarrow> nat" where
  "queue_todo s = 2 * st_scheduled s + (\<Sum>t \<in> {t. st_private s t \<noteq> 0}. 3 * st_private s t)"

lemma queue_todo_simps [simp]:
  "queue_todo (s\<lparr>st_impl := i\<rparr>) = queue_todo s" "queue_todo (s\<lparr>st_pc := p\<rparr>) = queue_todo s"
  "queue_todo (s\<lparr>st_started := a\<rparr>) = queue_todo s"
  by (simp_all add: queue_todo_def)

lemma queue_todo_none: "not_queued s \<Longrightarrow> queue_todo s = 0"
  by (simp add: queue_todo_def not_queued_def)

lemma queue_todo_one: "queued_once s \<Longrightarrow> queue_todo s = (if st_scheduled s = 0 then 3 else 2)"
  by (auto simp: queue_todo_def queued_once_def)

lemma todo_held:
  assumes "\<And>u. u \<noteq> t \<Longrightarrow> st_pc s u = Outside"
  shows "strand_todo s = 10 * length (si_ready (st_impl s)) + 20 * length (si_waiting (st_impl s)) + queue_todo s
    + pc_weight (st_pc s t)"
proof (cases "st_pc s t = Outside")
  case True
  then have none: "st_pc s u = Outside" for u using assms by (cases "u = t") auto
  have "{u. st_pc s u \<noteq> Outside} = {}" using none by simp
  then show ?thesis using True by (simp add: strand_todo_def queue_todo_def)
next
  case False
  then have "{u. st_pc s u \<noteq> Outside} = {t}" using assms by auto
  then show ?thesis by (simp add: strand_todo_def queue_todo_def)
qed

lemma leave_todo:
  assumes "\<forall>u. u \<noteq> t \<longrightarrow> st_pc s u = Outside" and "not_queued s"
    and "5 \<le> pc_weight (st_pc s t) \<or> si_ready (st_impl s) = [] \<and> 1 \<le> pc_weight (st_pc s t)"
  shows "strand_todo (strand_leave c t s) < strand_todo s"
proof -
  have "not_queued (strand_leave c t s)" using assms(2) by (simp add: strand_leave_def strand_exit_def Let_def)
  then show ?thesis
    using assms todo_held [of t s] todo_held [of t "strand_leave c t s"] queue_todo_none [of s] queue_todo_none [of "strand_leave c t s"]
    by (cases "si_waiting (st_impl s)") (auto simp: strand_leave_def strand_exit_def Let_def)
qed

lemma work_decreases:
  "strand_work one s s' \<Longrightarrow> strand_inv s \<Longrightarrow> st_accepted s' = st_accepted s \<and> strand_todo s' < strand_todo s"
proof (induction rule: strand_work.induct)
  case (push_ready s t c h)
  then show ?case using holder [of s t] by (auto simp: todo_held [where t = t])
next
  case (schedule s t c u)
  then have n: "not_queued s" "\<forall>u. u \<noteq> t \<longrightarrow> st_pc s u = Outside" using holder [of s t] by auto
  have "queue_todo (post_strand one c u t s) \<le> 3"
    using queue_todo_one [OF post_strand_queues [OF n(1)], of one c u t] by simp
  then show ?case using schedule n queue_todo_none [OF n(1)] by (auto simp: todo_held [where t = t])
next
  case (flush s t)
  then have q: "queued_once s" "\<forall>u. st_pc s u = Outside" using scheduled_queued [of s t] by auto
  note f = flush_queues [OF q(1) flush(2)]
  then have "queue_todo (flush_private t s) < queue_todo s" using queue_todo_one [OF q(1)] queue_todo_one [of "flush_private t s"] by simp
  then show ?case using q(2) by (simp add: todo_held [where t = t])
next
  case (enter t s n)
  then have q: "queued_once s" "\<forall>u. st_pc s u = Outside" using scheduled_queued [of s t] by auto
  have "queue_todo (s\<lparr>st_scheduled := n\<rparr>) = 0" using unqueued [OF q(1) enter(5)] by (rule queue_todo_none)
  moreover have "queue_todo s = 2" using queue_todo_one [OF q(1)] enter(5) by simp
  ultimately show ?case using q(2) by (simp add: todo_held [where t = t])
next
  case (run_ready s t h hs)
  then show ?case using holder [of s t] by (auto simp: todo_held [where t = t])
next
  case (return_inside s t h hs)
  then show ?case using holder [of s t] by (auto simp: todo_held [where t = t])
next
  case (return_dispatched s t h hs)
  then show ?case using holder [of s t] by (auto simp: todo_held [where t = t])
next
  case (leave_inside s t)
  then have "strand_todo (strand_leave True t s) < strand_todo s" using holder [of s t] by (intro leave_todo) auto
  then show ?case by (simp add: strand_leave_def strand_exit_def Let_def)
next
  case (leave_dispatched s t)
  then have "strand_todo (strand_leave False t s) < strand_todo s" using holder [of s t] by (intro leave_todo) auto
  then show ?case by (simp add: strand_leave_def strand_exit_def Let_def)
next
  case (throw_inside s t h hs)
  then have "strand_todo (strand_leave True t s) < strand_todo s" using holder [of s t] by (intro leave_todo) auto
  then show ?case by (simp add: strand_leave_def strand_exit_def Let_def)
next
  case (throw_dispatched s t h hs)
  then have "strand_todo (strand_leave False t s) < strand_todo s" using holder [of s t] by (intro leave_todo) auto
  then show ?case by (simp add: strand_leave_def strand_exit_def Let_def)
qed

lemma work_enabled:
  assumes "strand_inv s" and "coming s" and "st_in s \<noteq> {}" and "si_locked (st_impl s)"
  shows "\<exists>s'. strand_work one s s'"
  using assms(1)
proof (cases rule: strand_inv_cases)
  case scheduled
  show ?thesis
  proof (cases "st_scheduled s")
    case 0
    then obtain t where t: "st_private s t = 1" using scheduled(2) by (auto simp: queued_once_def)
    show ?thesis by (rule exI, rule strand_work.flush [of s t]) (use scheduled(3) t in simp_all)
  next
    case (Suc n)
    then obtain t where t: "t \<in> st_in s" "t \<notin> st_asleep s" using assms(2,3) by (auto simp: coming_def)
    have "st_private s t = 0" using scheduled(2) Suc by (auto simp: queued_once_def)
    then show ?thesis using strand_work.enter [OF t, of n one] scheduled(3) Suc by blast
  qed
next
  case (held t rest)
  have sched: "\<exists>s'. strand_work one s s'" if "st_pc s t = Pushed c \<or> st_pc s t = Released c" for c
  proof (cases "st_asleep s = {}")
    case True
    show ?thesis by (rule exI, rule strand_work.schedule [OF that, of None]) (simp add: True wakes_def)
  next
    case False
    then obtain u where u: "u \<in> st_asleep s" by blast
    show ?thesis by (rule exI, rule strand_work.schedule [OF that, of "Some u"]) (simp add: u wakes_def)
  qed
  show ?thesis
  proof (cases "st_pc s t")
    case (Inside hs)
    note pc = Inside
    show ?thesis
    proof (cases hs)
      case Nil
      show ?thesis
      proof (cases "si_ready (st_impl s)")
        case Nil
        show ?thesis by (rule exI, rule strand_work.leave_inside [of s t]) (use pc \<open>hs = []\<close> Nil in simp_all)
      next
        case (Cons h hs')
        show ?thesis by (rule exI, rule strand_work.run_ready [of s t h hs']) (use pc \<open>hs = []\<close> Cons in simp_all)
      qed
    next
      case (Cons h hs')
      show ?thesis by (rule exI, rule strand_work.return_inside [of s t h hs']) (use pc Cons in simp)
    qed
  next
    case (Dispatched hs)
    note pc = Dispatched
    show ?thesis
    proof (cases hs)
      case Nil
      show ?thesis by (rule exI, rule strand_work.leave_dispatched [of s t]) (use pc Nil in simp)
    next
      case (Cons h hs')
      show ?thesis by (rule exI, rule strand_work.return_dispatched [of s t h hs']) (use pc Cons in simp)
    qed
  next
    case (Acquired c h)
    show ?thesis by (rule exI, rule strand_work.push_ready [of s t c h]) (rule Acquired)
  next
    case (Pushed c)
    then show ?thesis by (intro sched [of c]) simp
  next
    case (Released c)
    then show ?thesis by (intro sched [of c]) simp
  qed (use held(5) in simp)
qed (use assms(4) in simp)

text \<open>
  C23. When threads stay in the service while the strand is not free, as those that call \<open>run\<close> do, and some thread is in
  it, then every accepted handler is started, although the strand goes through private queues that are moved without
  waking anybody: each step of the threads with the strand uses up some of what they have left to do and accepts nothing
  new, and one is possible, by a thread that does not sleep, until all accepted handlers have started, the
  strand is in no queue and every thread is outside of it.
\<close>

theorem strand_drains:
  assumes "strand_reachable W one False s" and "st_in s \<noteq> {}"
  shows "(\<forall>s'. strand_work one s s' \<longrightarrow> st_accepted s' = st_accepted s \<and> strand_todo s' < strand_todo s)
    \<and> ((\<exists>s'. strand_work one s s') \<or> st_started s = st_accepted s \<and> st_scheduled s = 0
        \<and> (\<forall>t. st_pc s t = Outside \<and> st_private s t = 0))
    \<and> (\<forall>t. st_pc s t \<noteq> Outside \<or> 0 < st_private s t \<longrightarrow> t \<notin> st_asleep s)"
proof (intro conjI allI)
  note inv = strand_reachable_inv [OF assms(1)]
  fix s' show "strand_work one s s' \<longrightarrow> st_accepted s' = st_accepted s \<and> strand_todo s' < strand_todo s"
    using work_decreases inv by blast
next
  note inv = strand_reachable_inv [OF assms(1)] and come = strand_reachable_coming [OF assms(1)]
  show "(\<exists>s'. strand_work one s s') \<or> st_started s = st_accepted s \<and> st_scheduled s = 0 \<and> (\<forall>t. st_pc s t = Outside \<and> st_private s t = 0)"
  proof (cases "si_locked (st_impl s)")
    case True
    then show ?thesis using work_enabled [OF inv come assms(2)] by blast
  next
    case False
    with inv show ?thesis by (cases rule: strand_inv_cases) (simp_all add: not_queued_def)
  qed
  show "st_pc s t \<noteq> Outside \<or> 0 < st_private s t \<longrightarrow> t \<notin> st_asleep s" for t using come by (simp add: coming_def)
qed

theorem strand_drains_witness:
  "\<exists>s :: nat strand_state. strand_reachable {0} False False s \<and> si_waiting (st_impl s) = [8] \<and> (\<exists>s'. strand_work False s s')"
proof -
  obtain s :: "nat strand_state" where s: "strand_reachable {0} False False s" "st_started s = [7]" "st_accepted s = [7, 8]"
      "st_pc s = (\<lambda>t. Outside)(0 := Inside [7])" "si_ready (st_impl s) = []" "st_in s = {0}"
    using strand_busy by blast
  have "si_waiting (st_impl s) = [8]" using strand_reachable_inv [OF s(1)] s(2-)
    by (cases rule: strand_inv_cases) (auto simp: fun_upd_def split: if_splits)
  with s strand_drains [OF s(1)] show ?thesis by auto
qed

subsection \<open>The service\<close>

text \<open>
  Strands share a fixed number of implementations, chosen by a hash of the address of the strand and a counter
  (\<open>ASIO_ENABLE_SEQUENTIAL_STRAND_ALLOCATION\<close> is not defined). \<open>num_implementations\<close> is 193 by default.
\<close>

definition num_implementations :: nat where
  "num_implementations = 193"

record 'h strand_service =
  ss_implementations :: "nat \<Rightarrow> 'h strand_impl option"
  ss_salt :: "64 word"

definition strand_index :: "64 word \<Rightarrow> 64 word \<Rightarrow> nat" where
  "strand_index salt address =
     (let index = address;
          index = index + drop_bit 3 address;
          index = xor index (salt + 0x9e3779b9 + push_bit 6 index + drop_bit 2 index)
      in unat (index mod of_nat num_implementations))"

definition construct :: "64 word \<Rightarrow> 'h strand_service \<Rightarrow> 'h strand_service \<times> nat" where
  "construct address service =
     (let index = strand_index (ss_salt service) address
      in (service\<lparr>ss_salt := ss_salt service + 1,
            ss_implementations := (case ss_implementations service index of
                None \<Rightarrow> (ss_implementations service)(index \<mapsto> \<lparr>si_locked = False, si_waiting = [], si_ready = []\<rparr>)
              | Some _ \<Rightarrow> ss_implementations service)\<rparr>, index))"

text \<open>\<open>shutdown_service\<close> moves the handlers of all implementations to a local queue, which destroys them.\<close>

fun shutdown_one :: "'h strand_service \<times> 'h list \<Rightarrow> nat \<Rightarrow> 'h strand_service \<times> 'h list" where
  "shutdown_one (service, ops) i =
     (case ss_implementations service i of
        Some impl \<Rightarrow>
          (service\<lparr>ss_implementations := (ss_implementations service)(i \<mapsto> impl\<lparr>si_waiting := [], si_ready := []\<rparr>)\<rparr>,
           ops @ si_waiting impl @ si_ready impl)
      | None \<Rightarrow> (service, ops))"

definition shutdown_service :: "'h strand_service \<Rightarrow> 'h strand_service \<times> 'h list" where
  "shutdown_service service = foldl shutdown_one (service, []) [0..<num_implementations]"

lemma strand_index_less: "strand_index salt address < num_implementations"
proof -
  have "unat (x mod 193 :: 64 word) < 193" for x :: "64 word"
    using word_mod_less_divisor [of "193 :: 64 word" x] by (simp add: word_less_nat_alt)
  then show ?thesis by (simp add: strand_index_def num_implementations_def Let_def)
qed

definition impl_handlers :: "'h strand_impl option \<Rightarrow> 'h list" where
  "impl_handlers i = (case i of Some impl \<Rightarrow> si_waiting impl @ si_ready impl | None \<Rightarrow> [])"

lemma shutdown_fold:
  "foldl shutdown_one (service, ops) [0..<n] = (service', ops') \<Longrightarrow>
     ops' = ops @ concat (map (\<lambda>i. impl_handlers (ss_implementations service i)) [0..<n])
     \<and> (\<forall>i. impl_handlers (ss_implementations service' i) = (if i < n then [] else impl_handlers (ss_implementations service i)))
     \<and> (\<forall>i. i < n \<or> ss_implementations service' i = ss_implementations service i)"
proof (induction n arbitrary: service' ops')
  case (Suc n)
  obtain s1 o1 where f: "foldl shutdown_one (service, ops) [0..<n] = (s1, o1)" by fastforce
  note IH = Suc.IH [OF f]
  have s1: "ss_implementations s1 n = ss_implementations service n" using IH by auto
  show ?case
  proof (cases "ss_implementations service n")
    case None
    then have e: "service' = s1" "ops' = o1" using Suc.prems s1 by (simp_all add: f)
    have "impl_handlers (ss_implementations service n) = []" by (simp add: None impl_handlers_def)
    then show ?thesis using IH unfolding e by (auto simp: less_Suc_eq)
  next
    case (Some impl)
    then have e: "service' = s1\<lparr>ss_implementations := (ss_implementations s1)(n \<mapsto> impl\<lparr>si_waiting := [], si_ready := []\<rparr>)\<rparr>"
      "ops' = o1 @ si_waiting impl @ si_ready impl" using Suc.prems s1 by (simp_all add: f)
    have h: "impl_handlers (ss_implementations service n) = si_waiting impl @ si_ready impl"
      "impl_handlers (Some (impl\<lparr>si_waiting := [], si_ready := []\<rparr>)) = []"
      by (simp_all add: Some impl_handlers_def)
    then show ?thesis using IH unfolding e by (auto simp: less_Suc_eq)
  qed
qed simp

lemma shutdown_destroys_all:
  "shutdown_service service = (service', ops) \<Longrightarrow>
     ops = concat (map (\<lambda>i. impl_handlers (ss_implementations service i)) [0..<num_implementations])
     \<and> (\<forall>i < num_implementations. impl_handlers (ss_implementations service' i) = [])"
  using shutdown_fold [of service "[]" num_implementations service' ops] by (auto simp: shutdown_service_def)

lemma construct_spec:
  "construct address service = (service', i) \<Longrightarrow> i < num_implementations \<and> ss_implementations service' i \<noteq> None
     \<and> (\<forall>j impl. ss_implementations service j = Some impl \<longrightarrow> ss_implementations service' j = Some impl)"
  by (auto simp: construct_def Let_def strand_index_less split: option.splits)

end
