(* ===== verification/Asio_Timer.thy ===== *)
theory Asio_Timer
  imports Asio_Op_Queue "HOL-Library.Multiset"
begin

text \<open>
  The queue of timers of src/asio/include/asio/detail/timer_queue.hpp: a binary heap of expiry times in a vector,
  whose entries and timers know one another (\<open>heap_index_\<close>, \<open>timer_\<close>), and a doubly linked list of all active
  timers. The per-timer data lives in the timer objects, so it is a store that every operation updates. Times are
  any linear order (\<open>Time_Traits::less_than\<close>); which of them never come is an argument. The operations that wait
  on a timer are a list (\<open>Asio_Op_Queue\<close>).
\<close>

subsection \<open>The data\<close>

definition SIZE_MAX :: nat where
  "SIZE_MAX = 18446744073709551615"

record 'h wait_op =
  wt_handler :: 'h
  wt_ec :: error_code

record ('t, 'h) per_timer_data =
  pt_ops :: "'h wait_op list"
  pt_index :: nat
  pt_next :: "'t option"
  pt_prev :: "'t option"

record ('tm, 't, 'h) timer_queue =
  tq_timers :: "'t option"
  tq_heap :: "('tm \<times> 't) list"
  tq_data :: "'t \<Rightarrow> ('t, 'h) per_timer_data"

text \<open>The constructor of the per-timer data leaves the index as it was.\<close>

definition new_timer :: "nat \<Rightarrow> ('t, 'h) per_timer_data" where
  "new_timer garbage = \<lparr>pt_ops = [], pt_index = garbage, pt_next = None, pt_prev = None\<rparr>"

definition new_queue :: "('t \<Rightarrow> nat) \<Rightarrow> ('tm, 't, 'h) timer_queue" where
  "new_queue garbage = \<lparr>tq_timers = None, tq_heap = [], tq_data = (\<lambda>t. new_timer (garbage t))\<rparr>"

definition set_index :: "'t \<Rightarrow> nat \<Rightarrow> ('t \<Rightarrow> ('t, 'h) per_timer_data) \<Rightarrow> 't \<Rightarrow> ('t, 'h) per_timer_data" where
  "set_index t i d = d(t := (d t)\<lparr>pt_index := i\<rparr>)"

definition set_next :: "'t \<Rightarrow> 't option \<Rightarrow> ('t \<Rightarrow> ('t, 'h) per_timer_data) \<Rightarrow> 't \<Rightarrow> ('t, 'h) per_timer_data" where
  "set_next t p d = d(t := (d t)\<lparr>pt_next := p\<rparr>)"

definition set_prev :: "'t \<Rightarrow> 't option \<Rightarrow> ('t \<Rightarrow> ('t, 'h) per_timer_data) \<Rightarrow> 't \<Rightarrow> ('t, 'h) per_timer_data" where
  "set_prev t p d = d(t := (d t)\<lparr>pt_prev := p\<rparr>)"

definition set_ops :: "'t \<Rightarrow> 'h wait_op list \<Rightarrow> ('t \<Rightarrow> ('t, 'h) per_timer_data) \<Rightarrow> 't \<Rightarrow> ('t, 'h) per_timer_data" where
  "set_ops t os d = d(t := (d t)\<lparr>pt_ops := os\<rparr>)"

lemmas set_defs = set_index_def set_next_def set_prev_def set_ops_def

subsection \<open>The heap\<close>

abbreviation heap_time :: "('tm, 't, 'h) timer_queue \<Rightarrow> nat \<Rightarrow> 'tm" where
  "heap_time q i \<equiv> fst (tq_heap q ! i)"

definition swap_heap :: "nat \<Rightarrow> nat \<Rightarrow> ('tm, 't, 'h) timer_queue \<Rightarrow> ('tm, 't, 'h) timer_queue" where
  "swap_heap index1 index2 q =
     (let tmp = tq_heap q ! index1;
          heap = ((tq_heap q)[index1 := tq_heap q ! index2])[index2 := tmp]
      in q\<lparr>tq_heap := heap,
           tq_data := set_index (snd (heap ! index2)) index2 (set_index (snd (heap ! index1)) index1 (tq_data q))\<rparr>)"

lemma length_swap_heap [simp]: "length (tq_heap (swap_heap i j q)) = length (tq_heap q)"
  by (simp add: swap_heap_def Let_def)

text \<open>
  The parent of index 0 is a large number in the code, which the guard \<open>index > 0\<close> keeps from being used.
\<close>

function up_heap :: "nat \<Rightarrow> ('tm :: linorder, 't, 'h) timer_queue \<Rightarrow> ('tm, 't, 'h) timer_queue" where
  "up_heap index q =
     (let parent = (index - 1) div 2
      in if 0 < index \<and> heap_time q index < heap_time q parent then up_heap parent (swap_heap index parent q) else q)"
  by auto
termination by (relation "measure fst") auto

function down_heap :: "nat \<Rightarrow> ('tm :: linorder, 't, 'h) timer_queue \<Rightarrow> ('tm, 't, 'h) timer_queue" where
  "down_heap index q =
     (let child = index * 2 + 1
      in if child < length (tq_heap q)
         then let min_child = (if child + 1 = length (tq_heap q) \<or> heap_time q child < heap_time q (child + 1)
                               then child else child + 1)
              in if heap_time q index < heap_time q min_child then q
                 else down_heap min_child (swap_heap index min_child q)
         else q)"
  by auto
termination by (relation "measure (\<lambda>(i, q). length (tq_heap q) - i)") auto

declare up_heap.simps [simp del] down_heap.simps [simp del]

definition remove_from_heap :: "'t \<Rightarrow> ('tm :: linorder, 't, 'h) timer_queue \<Rightarrow> ('tm, 't, 'h) timer_queue" where
  "remove_from_heap t q =
     (let index = pt_index (tq_data q t)
      in if tq_heap q \<noteq> [] \<and> index < length (tq_heap q)
         then if index = length (tq_heap q) - 1 then q\<lparr>tq_heap := butlast (tq_heap q)\<rparr>
              else let q = swap_heap index (length (tq_heap q) - 1) q;
                       q = q\<lparr>tq_heap := butlast (tq_heap q)\<rparr>;
                       parent = (index - 1) div 2
                   in if 0 < index \<and> heap_time q index < heap_time q parent then up_heap index q else down_heap index q
         else q)"

definition unlink :: "'t \<Rightarrow> ('tm, 't, 'h) timer_queue \<Rightarrow> ('tm, 't, 'h) timer_queue" where
  "unlink t q =
     (let d = tq_data q;
          timers = (if tq_timers q = Some t then pt_next (d t) else tq_timers q);
          d = (case pt_prev (d t) of Some p \<Rightarrow> set_next p (pt_next (d t)) d | None \<Rightarrow> d);
          d = (case pt_next (d t) of Some n \<Rightarrow> set_prev n (pt_prev (d t)) d | None \<Rightarrow> d)
      in q\<lparr>tq_timers := timers, tq_data := set_prev t None (set_next t None d)\<rparr>)"

definition remove_timer :: "'t \<Rightarrow> ('tm :: linorder, 't, 'h) timer_queue \<Rightarrow> ('tm, 't, 'h) timer_queue" where
  "remove_timer t q = unlink t (remove_from_heap t q)"

subsection \<open>The operations\<close>

definition active :: "'t \<Rightarrow> ('tm, 't, 'h) timer_queue \<Rightarrow> bool" where
  "active t q \<longleftrightarrow> pt_prev (tq_data q t) \<noteq> None \<or> tq_timers q = Some t"

definition link :: "'t \<Rightarrow> ('tm, 't, 'h) timer_queue \<Rightarrow> ('tm, 't, 'h) timer_queue" where
  "link t q =
     (let d = set_prev t None (set_next t (tq_timers q) (tq_data q));
          d = (case tq_timers q of Some u \<Rightarrow> set_prev u (Some t) d | None \<Rightarrow> d)
      in q\<lparr>tq_timers := Some t, tq_data := d\<rparr>)"

definition insert_heap :: "('tm \<Rightarrow> bool) \<Rightarrow> 'tm \<Rightarrow> 't \<Rightarrow> ('tm :: linorder, 't, 'h) timer_queue \<Rightarrow> ('tm, 't, 'h) timer_queue" where
  "insert_heap is_positive_infinity time t q =
     (if is_positive_infinity time then q\<lparr>tq_data := set_index t SIZE_MAX (tq_data q)\<rparr>
      else up_heap (length (tq_heap q))
             (q\<lparr>tq_data := set_index t (length (tq_heap q)) (tq_data q), tq_heap := tq_heap q @ [(time, t)]\<rparr>))"

definition enqueue_timer ::
  "('tm \<Rightarrow> bool) \<Rightarrow> 'tm \<Rightarrow> 't \<Rightarrow> 'h wait_op \<Rightarrow> ('tm :: linorder, 't, 'h) timer_queue \<Rightarrow> ('tm, 't, 'h) timer_queue \<times> bool" where
  "enqueue_timer is_positive_infinity time t op q =
     (let q = (if active t q then q else link t (insert_heap is_positive_infinity time t q));
          d = set_ops t (pt_ops (tq_data q t) @ [op]) (tq_data q)
      in (q\<lparr>tq_data := d\<rparr>, pt_index (d t) = 0 \<and> hd (pt_ops (d t)) = op))"

definition queue_empty :: "('tm, 't, 'h) timer_queue \<Rightarrow> bool" where
  "queue_empty q \<longleftrightarrow> tq_timers q = None"

partial_function (option) get_ready_loop ::
  "'tm :: linorder \<Rightarrow> 'h wait_op list \<Rightarrow> ('tm, 't, 'h) timer_queue \<Rightarrow> (('tm, 't, 'h) timer_queue \<times> 'h wait_op list) option" where
  "get_ready_loop now ops q =
     (if tq_heap q \<noteq> [] \<and> \<not> now < heap_time q 0
      then let timer = snd (tq_heap q ! 0);
               ops = ops @ pt_ops (tq_data q timer);
               q = q\<lparr>tq_data := set_ops timer [] (tq_data q)\<rparr>
           in get_ready_loop now ops (remove_timer timer q)
      else Some (q, ops))"

definition get_ready_timers ::
  "'tm :: linorder \<Rightarrow> 'h wait_op list \<Rightarrow> ('tm, 't, 'h) timer_queue \<Rightarrow> (('tm, 't, 'h) timer_queue \<times> 'h wait_op list) option" where
  "get_ready_timers now ops q = (if tq_heap q \<noteq> [] then get_ready_loop now ops q else Some (q, ops))"

partial_function (option) get_all_loop ::
  "'h wait_op list \<Rightarrow> ('tm, 't, 'h) timer_queue \<Rightarrow> (('tm, 't, 'h) timer_queue \<times> 'h wait_op list) option" where
  "get_all_loop ops q =
     (case tq_timers q of
        None \<Rightarrow> Some (q, ops)
      | Some timer \<Rightarrow>
          let q = q\<lparr>tq_timers := pt_next (tq_data q timer)\<rparr>;
              ops = ops @ pt_ops (tq_data q timer);
              q = q\<lparr>tq_data := set_prev timer None (set_next timer None (set_ops timer [] (tq_data q)))\<rparr>
          in get_all_loop ops q)"

definition get_all_timers ::
  "'h wait_op list \<Rightarrow> ('tm, 't, 'h) timer_queue \<Rightarrow> (('tm, 't, 'h) timer_queue \<times> 'h wait_op list) option" where
  "get_all_timers ops q =
     (case get_all_loop ops q of None \<Rightarrow> None | Some (q, ops) \<Rightarrow> Some (q\<lparr>tq_heap := []\<rparr>, ops))"

text \<open>The loop of \<open>cancel_timer\<close>: what stays in the queue of the timer, what is moved, and how many.\<close>

fun cancel_loop :: "nat \<Rightarrow> nat \<Rightarrow> 'h wait_op list \<Rightarrow> 'h wait_op list \<Rightarrow> 'h wait_op list \<times> 'h wait_op list \<times> nat" where
  "cancel_loop max_cancelled n [] ops = ([], ops, n)"
| "cancel_loop max_cancelled n (op # os) ops =
     (if n \<noteq> max_cancelled
      then cancel_loop max_cancelled (n + 1) os (ops @ [op\<lparr>wt_ec := Some OperationAborted\<rparr>])
      else (op # os, ops, n))"

definition cancel_timer ::
  "nat \<Rightarrow> 't \<Rightarrow> 'h wait_op list \<Rightarrow> ('tm :: linorder, 't, 'h) timer_queue \<Rightarrow> ('tm, 't, 'h) timer_queue \<times> 'h wait_op list \<times> nat" where
  "cancel_timer max_cancelled t ops q =
     (if active t q
      then case cancel_loop max_cancelled 0 (pt_ops (tq_data q t)) ops of
             (rest, ops, n) \<Rightarrow>
               let q = q\<lparr>tq_data := set_ops t rest (tq_data q)\<rparr>
               in (if rest = [] then remove_timer t q else q, ops, n)
      else (q, ops, 0))"

subsection \<open>What the heap operations leave alone\<close>

text \<open>
  The entries know their places, and moving entries changes nothing but the order of the heap and the indexes of
  the timers in it.
\<close>

definition index_ok :: "('tm, 't, 'h) timer_queue \<Rightarrow> bool" where
  "index_ok q \<longleftrightarrow> (\<forall>i < length (tq_heap q). pt_index (tq_data q (snd (tq_heap q ! i))) = i)"

definition reordered :: "('tm, 't, 'h) timer_queue \<Rightarrow> ('tm, 't, 'h) timer_queue \<Rightarrow> bool" where
  "reordered q q' \<longleftrightarrow> tq_timers q' = tq_timers q \<and> mset (tq_heap q') = mset (tq_heap q)
     \<and> (\<forall>t. pt_ops (tq_data q' t) = pt_ops (tq_data q t) \<and> pt_next (tq_data q' t) = pt_next (tq_data q t)
          \<and> pt_prev (tq_data q' t) = pt_prev (tq_data q t)
          \<and> (t \<in> snd ` set (tq_heap q) \<or> pt_index (tq_data q' t) = pt_index (tq_data q t)))"

lemma reordered_refl [simp]: "reordered q q"
  by (simp add: reordered_def)

lemma reordered_trans [trans]: "reordered p q \<Longrightarrow> reordered q r \<Longrightarrow> reordered p r"
proof -
  assume a: "reordered p q" "reordered q r"
  then have "set (tq_heap q) = set (tq_heap p)" by (metis reordered_def mset_eq_setD)
  with a show ?thesis unfolding reordered_def by (metis (no_types, lifting))
qed

lemma reordered_length: "reordered q q' \<Longrightarrow> length (tq_heap q') = length (tq_heap q)"
  unfolding reordered_def by (metis mset_eq_length)

lemma reordered_set: "reordered q q' \<Longrightarrow> set (tq_heap q') = set (tq_heap q)"
  unfolding reordered_def by (metis mset_eq_setD)

lemma index_ok_nth_inj: "index_ok q \<Longrightarrow> i < length (tq_heap q) \<Longrightarrow> j < length (tq_heap q) \<Longrightarrow>
    snd (tq_heap q ! i) = snd (tq_heap q ! j) \<Longrightarrow> i = j"
  unfolding index_ok_def by metis

lemma heap_time_swap:
  "i < length (tq_heap q) \<Longrightarrow> j < length (tq_heap q) \<Longrightarrow>
     tq_heap (swap_heap i j q) ! k = (if k = i then tq_heap q ! j else if k = j then tq_heap q ! i else tq_heap q ! k)"
  by (auto simp: swap_heap_def Let_def nth_list_update)

lemma swap_reordered:
  assumes "i < length (tq_heap q)" "j < length (tq_heap q)"
  shows "reordered q (swap_heap i j q)"
proof -
  have "mset (((tq_heap q)[i := tq_heap q ! j])[j := tq_heap q ! i]) = mset (tq_heap q)"
    using assms by (simp add: mset_swap)
  moreover have "snd (tq_heap q ! i) \<in> snd ` set (tq_heap q)" "snd (tq_heap q ! j) \<in> snd ` set (tq_heap q)"
    using assms by simp_all
  ultimately show ?thesis using assms
    by (auto simp: reordered_def swap_heap_def Let_def set_index_def nth_list_update)
qed

lemma swap_index_ok:
  assumes "index_ok q" "i < length (tq_heap q)" "j < length (tq_heap q)"
  shows "index_ok (swap_heap i j q)"
  unfolding index_ok_def
proof (intro allI impI)
  fix k assume k: "k < length (tq_heap (swap_heap i j q))"
  have inj: "\<And>a b. a < length (tq_heap q) \<Longrightarrow> b < length (tq_heap q) \<Longrightarrow> snd (tq_heap q ! a) = snd (tq_heap q ! b) \<Longrightarrow> a = b"
    using assms(1) by (rule index_ok_nth_inj)
  have d: "tq_data (swap_heap i j q)
      = set_index (snd (tq_heap q ! i)) j (set_index (snd (tq_heap q ! j)) i (tq_data q))"
    using assms(2,3) by (auto simp: swap_heap_def Let_def nth_list_update)
  have "pt_index (tq_data q (snd (tq_heap q ! k))) = k" using assms(1) k by (simp add: index_ok_def)
  then show "pt_index (tq_data (swap_heap i j q) (snd (tq_heap (swap_heap i j q) ! k))) = k"
    using assms(2,3) k inj unfolding d heap_time_swap [OF assms(2,3)] by (auto simp: set_index_def)
qed

lemma up_heap_reordered:
  "index < length (tq_heap q) \<Longrightarrow> index_ok q \<Longrightarrow> reordered q (up_heap index q) \<and> index_ok (up_heap index q)"
proof (induction index q rule: up_heap.induct)
  case (1 index q)
  show ?case
  proof (cases "0 < index \<and> heap_time q index < heap_time q ((index - 1) div 2)")
    case True
    have l: "(index - 1) div 2 < length (tq_heap q)" using 1(2) by simp
    have "reordered (swap_heap index ((index - 1) div 2) q) (up_heap index q) \<and> index_ok (up_heap index q)"
      using 1(1) [OF refl True] 1(2,3) l True by (subst (1 2) up_heap.simps) (simp add: swap_index_ok Let_def)
    with swap_reordered [OF 1(2) l] show ?thesis by (blast intro: reordered_trans)
  next
    case False
    then show ?thesis using 1(3) by (subst (1 2) up_heap.simps) auto
  qed
qed

lemma down_heap_reordered:
  "index < length (tq_heap q) \<Longrightarrow> index_ok q \<Longrightarrow> reordered q (down_heap index q) \<and> index_ok (down_heap index q)"
proof (induction index q rule: down_heap.induct)
  case (1 index q)
  define child where "child = index * 2 + 1"
  define m where "m = (if child + 1 = length (tq_heap q) \<or> heap_time q child < heap_time q (child + 1) then child else child + 1)"
  have eq: "down_heap index q = (if child < length (tq_heap q) \<and> \<not> heap_time q index < heap_time q m
      then down_heap m (swap_heap index m q) else q)"
    by (subst down_heap.simps) (simp add: child_def m_def Let_def)
  show ?case
  proof (cases "child < length (tq_heap q) \<and> \<not> heap_time q index < heap_time q m")
    case True
    then have l: "m < length (tq_heap q)" by (auto simp: m_def)
    have "reordered (swap_heap index m q) (down_heap m (swap_heap index m q)) \<and> index_ok (down_heap m (swap_heap index m q))"
      by (rule 1(1) [OF child_def _ m_def]) (use True l 1(2,3) in \<open>auto simp: swap_index_ok\<close>)
    with swap_reordered [OF 1(2) l] True show ?thesis unfolding eq by (auto intro: reordered_trans)
  next
    case False
    then show ?thesis using 1(3) unfolding eq by auto
  qed
qed

subsection \<open>The order of the heap\<close>

text \<open>
  Over the times of the entries, \<open>f\<close>, of which there are \<open>n\<close>. While an entry moves up, only it may be smaller
  than its parent; while it moves down, only it may be greater than its children; in both cases its children are
  not smaller than its parent.
\<close>

definition ordered_at :: "(nat \<Rightarrow> 'tm :: linorder) \<Rightarrow> nat \<Rightarrow> bool" where
  "ordered_at f i \<longleftrightarrow> i = 0 \<or> f ((i - 1) div 2) \<le> f i"

definition bridged :: "nat \<Rightarrow> (nat \<Rightarrow> 'tm :: linorder) \<Rightarrow> nat \<Rightarrow> bool" where
  "bridged n f k \<longleftrightarrow> (\<forall>i<n. 0 < i \<longrightarrow> 0 < k \<longrightarrow> (i - 1) div 2 = k \<longrightarrow> f ((k - 1) div 2) \<le> f i)"

definition heap_ordered :: "nat \<Rightarrow> (nat \<Rightarrow> 'tm :: linorder) \<Rightarrow> bool" where
  "heap_ordered n f \<longleftrightarrow> (\<forall>i<n. ordered_at f i)"

definition up_ordered :: "nat \<Rightarrow> (nat \<Rightarrow> 'tm :: linorder) \<Rightarrow> nat \<Rightarrow> bool" where
  "up_ordered n f k \<longleftrightarrow> (\<forall>i<n. i \<noteq> k \<longrightarrow> ordered_at f i) \<and> bridged n f k"

definition down_ordered :: "nat \<Rightarrow> (nat \<Rightarrow> 'tm :: linorder) \<Rightarrow> nat \<Rightarrow> bool" where
  "down_ordered n f k \<longleftrightarrow> (\<forall>i<n. i = 0 \<or> (i - 1) div 2 = k \<or> ordered_at f i) \<and> bridged n f k"

lemma parent_less: "0 < i \<Longrightarrow> (i - 1) div 2 < (i :: nat)"
  by simp

lemma parent_child: "0 < i \<Longrightarrow> (i - 1) div 2 = k \<longleftrightarrow> i = k * 2 + 1 \<or> i = k * 2 + (2 :: nat)"
  by auto

lemma up_step:
  assumes "up_ordered n f k" "0 < k" "k < n" "f k < f ((k - 1) div 2)" and p: "p = (k - 1) div 2"
  shows "up_ordered n (f(k := f p, p := f k)) p"
proof -
  have o: "\<And>i. i < n \<Longrightarrow> i \<noteq> k \<Longrightarrow> 0 < i \<Longrightarrow> f ((i - 1) div 2) \<le> f i"
    and b: "\<And>i. i < n \<Longrightarrow> 0 < i \<Longrightarrow> (i - 1) div 2 = k \<Longrightarrow> f p \<le> f i"
    using assms by (auto simp: up_ordered_def ordered_at_def bridged_def)
  have pk: "p < k" using assms(2) p by simp
  let ?g = "f(k := f p, p := f k)"
  have "?g ((i - 1) div 2) \<le> ?g i" if "i < n" "i \<noteq> p" "0 < i" for i
  proof -
    define j where "j = (i - 1) div 2"
    consider "i = k" | "i \<noteq> k" "j = k" | "i \<noteq> k" "j = p" | "i \<noteq> k" "j \<noteq> k" "j \<noteq> p"
      by blast
    then have "?g j \<le> ?g i"
    proof cases
      case 1
      then have "j = p" by (simp add: j_def p)
      then show ?thesis using 1 assms(4) pk p by simp
    next
      case 2
      then show ?thesis using b [of i] that pk by (simp add: j_def)
    next
      case 3
      then have "f p \<le> f i" using o [of i] that by (simp add: j_def)
      moreover have "f k \<le> f p" using assms(4) unfolding p by (rule less_imp_le)
      ultimately show ?thesis using 3 that order_trans [of "f k" "f p" "f i"] by simp
    next
      case 4
      moreover have "f j \<le> f i" using o [of i] that 4 unfolding j_def by blast
      ultimately show ?thesis using that by simp
    qed
    then show ?thesis by (simp only: j_def)
  qed
  moreover have "?g ((p - 1) div 2) \<le> ?g i" if "i < n" "0 < i" "0 < p" "(i - 1) div 2 = p" for i
  proof -
    have "f ((p - 1) div 2) \<le> f p" using o [of p] that pk assms(3) by simp
    moreover have "f p \<le> f i" if "i \<noteq> k" using o [of i] that \<open>i < n\<close> \<open>0 < i\<close> \<open>(i - 1) div 2 = p\<close> by simp
    moreover have "(p - 1) div 2 < p" using \<open>0 < p\<close> by simp
    moreover have "i \<noteq> p" using that by auto
    ultimately show ?thesis using pk by auto
  qed
  ultimately show ?thesis unfolding up_ordered_def ordered_at_def bridged_def by (metis neq0_conv)
qed

lemma up_done: "up_ordered n f k \<Longrightarrow> \<not> (0 < k \<and> f k < f ((k - 1) div 2)) \<Longrightarrow> heap_ordered n f"
  by (auto simp: up_ordered_def heap_ordered_def ordered_at_def not_less)

lemma down_step:
  assumes "down_ordered n f k" "m < n" "m = k * 2 + 1 \<or> m = k * 2 + 2" "f m \<le> f k"
    and least: "\<And>i. i < n \<Longrightarrow> i = k * 2 + 1 \<or> i = k * 2 + 2 \<Longrightarrow> f m \<le> f i"
  shows "down_ordered n (f(k := f m, m := f k)) m"
proof -
  have o: "\<And>i. i < n \<Longrightarrow> (i - 1) div 2 \<noteq> k \<Longrightarrow> 0 < i \<Longrightarrow> f ((i - 1) div 2) \<le> f i"
    and b: "\<And>i. i < n \<Longrightarrow> 0 < i \<Longrightarrow> 0 < k \<Longrightarrow> (i - 1) div 2 = k \<Longrightarrow> f ((k - 1) div 2) \<le> f i"
    using assms by (auto simp: down_ordered_def ordered_at_def bridged_def)
  have mk: "k < m" "0 < m" "(m - 1) div 2 = k" using assms(3) by auto
  let ?g = "f(k := f m, m := f k)"
  have "?g ((i - 1) div 2) \<le> ?g i" if i: "i < n" "(i - 1) div 2 \<noteq> m" "0 < i" for i
  proof (cases "(i - 1) div 2 = k")
    case True
    then have "f m \<le> f i" using least i parent_child [of i k] by blast
    then show ?thesis using True mk assms(4) i by auto
  next
    case False
    define j where "j = (i - 1) div 2"
    have "i \<noteq> m" using False mk by auto
    moreover have "j \<noteq> k" "j \<noteq> m" using False i by (simp_all add: j_def)
    moreover have "f j \<le> f m" if "i = k" using b [OF assms(2) mk(2) _ mk(3)] that i by (simp add: j_def)
    moreover have "f j \<le> f i" using o [OF i(1) False i(3)] by (simp add: j_def)
    ultimately have "?g j \<le> ?g i" by simp
    then show ?thesis by (simp only: j_def)
  qed
  moreover have "?g ((m - 1) div 2) \<le> ?g i" if i: "i < n" "0 < i" "(i - 1) div 2 = m" for i
  proof -
    have "(i - 1) div 2 \<noteq> k" using i(3) mk(1) by simp
    then have "f m \<le> f i" using o [OF i(1) _ i(2)] i(3) by simp
    moreover have "m < i" using parent_less [OF i(2)] i(3) by simp
    ultimately show ?thesis using mk by simp
  qed
  ultimately show ?thesis unfolding down_ordered_def ordered_at_def bridged_def by (metis neq0_conv)
qed

lemma down_done:
  "down_ordered n f k \<Longrightarrow> (\<And>i. i < n \<Longrightarrow> i = k * 2 + 1 \<or> i = k * 2 + 2 \<Longrightarrow> f k \<le> f i) \<Longrightarrow> heap_ordered n f"
proof -
  assume a: "down_ordered n f k" "\<And>i. i < n \<Longrightarrow> i = k * 2 + 1 \<or> i = k * 2 + 2 \<Longrightarrow> f k \<le> f i"
  have "ordered_at f i" if i: "i < n" for i
  proof (cases "0 < i \<and> (i - 1) div 2 = k")
    case True
    then have "f k \<le> f i" using a(2) i parent_child [of i k] by blast
    then show ?thesis using True by (simp add: ordered_at_def)
  next
    case False
    then show ?thesis using a(1) i by (auto simp: down_ordered_def ordered_at_def)
  qed
  then show ?thesis by (simp add: heap_ordered_def)
qed

lemma heap_root: "heap_ordered n f \<Longrightarrow> i < n \<Longrightarrow> f 0 \<le> f i"
proof (induction i rule: less_induct)
  case (less i)
  show ?case
  proof (cases "i = 0")
    case False
    then have "(i - 1) div 2 < i" by simp
    then have "f 0 \<le> f ((i - 1) div 2)" using less by force
    also have "\<dots> \<le> f i" using less.prems False by (auto simp: heap_ordered_def ordered_at_def)
    finally show ?thesis .
  qed simp
qed

subsection \<open>The heap operations keep the order\<close>

lemma heap_times_swap:
  "i < length (tq_heap q) \<Longrightarrow> j < length (tq_heap q) \<Longrightarrow> i \<noteq> j \<Longrightarrow>
     (\<lambda>k. heap_time (swap_heap i j q) k) = (\<lambda>k. heap_time q k)(i := heap_time q j, j := heap_time q i)"
  by (auto simp: fun_eq_iff heap_time_swap)

lemma up_heap_ordered:
  "index < length (tq_heap q) \<Longrightarrow> up_ordered (length (tq_heap q)) (heap_time q) index
    \<Longrightarrow> heap_ordered (length (tq_heap q)) (heap_time (up_heap index q))"
proof (induction index q rule: up_heap.induct)
  case (1 index q)
  define p where "p = (index - 1) div 2"
  show ?case
  proof (cases "0 < index \<and> heap_time q index < heap_time q p")
    case True
    have l: "p < length (tq_heap q)" "index \<noteq> p" using 1(2) True by (auto simp: p_def)
    have "up_ordered (length (tq_heap q)) (\<lambda>k. heap_time (swap_heap index p q) k) p"
      unfolding heap_times_swap [OF 1(2) l] using up_step [OF 1(3) _ 1(2)] True p_def by blast
    then have "heap_ordered (length (tq_heap q)) (heap_time (up_heap p (swap_heap index p q)))"
      using 1(1) [OF p_def True] l by simp
    then show ?thesis using True by (subst up_heap.simps) (simp add: p_def Let_def)
  next
    case False
    then have "up_heap index q = q" by (subst up_heap.simps) (auto simp: p_def Let_def)
    then show ?thesis using up_done [OF 1(3)] False unfolding p_def by simp
  qed
qed

lemma down_heap_ordered:
  "index < length (tq_heap q) \<Longrightarrow> down_ordered (length (tq_heap q)) (heap_time q) index
    \<Longrightarrow> heap_ordered (length (tq_heap q)) (heap_time (down_heap index q))"
proof (induction index q rule: down_heap.induct)
  case (1 index q)
  let ?n = "length (tq_heap q)"
  define child where "child = index * 2 + 1"
  define m where "m = (if child + 1 = ?n \<or> heap_time q child < heap_time q (child + 1) then child else child + 1)"
  have eq: "down_heap index q = (if child < ?n \<and> \<not> heap_time q index < heap_time q m
      then down_heap m (swap_heap index m q) else q)"
    by (subst down_heap.simps) (simp add: child_def m_def Let_def)
  have mc: "m = index * 2 + 1 \<or> m = index * 2 + 2" by (simp add: m_def child_def)
  have least: "heap_time q m \<le> heap_time q i" if "i < ?n" "i = index * 2 + 1 \<or> i = index * 2 + 2" for i
    using that by (auto simp: m_def child_def)
  show ?case
  proof (cases "child < ?n \<and> \<not> heap_time q index < heap_time q m")
    case True
    then have l: "m < ?n" "index \<noteq> m" by (auto simp: m_def child_def)
    have "down_ordered ?n (\<lambda>k. heap_time (swap_heap index m q) k) m"
      unfolding heap_times_swap [OF 1(2) l] by (rule down_step [OF 1(3) l(1) mc _ least]) (use True in \<open>simp_all add: not_less\<close>)
    then have "heap_ordered ?n (heap_time (down_heap m (swap_heap index m q)))"
      using 1(1) [OF child_def _ m_def] True l by simp
    then show ?thesis using True unfolding eq by simp
  next
    case False
    have "heap_time q index \<le> heap_time q i" if "i < ?n" "i = index * 2 + 1 \<or> i = index * 2 + 2" for i
    proof -
      have "heap_time q index < heap_time q m" using False that by (auto simp: child_def)
      with least [OF that] show ?thesis by (metis less_imp_le order_trans)
    qed
    then have "heap_ordered ?n (heap_time q)" by (rule down_done [OF 1(3)])
    then show ?thesis using False unfolding eq by auto
  qed
qed

text \<open>A new entry comes first exactly when it is earlier than the one that was first.\<close>

lemma up_heap_first:
  "index < length (tq_heap q) \<Longrightarrow> index_ok q \<Longrightarrow> up_ordered (length (tq_heap q)) (heap_time q) index \<Longrightarrow> 0 < index
    \<Longrightarrow> pt_index (tq_data (up_heap index q) (snd (tq_heap q ! index))) = 0 \<longleftrightarrow> heap_time q index < heap_time q 0"
proof (induction index q rule: up_heap.induct)
  case (1 index q)
  define p where "p = (index - 1) div 2"
  show ?case
  proof (cases "heap_time q index < heap_time q p")
    case True
    have l: "p < length (tq_heap q)" "index \<noteq> p" using 1(2,5) by (auto simp: p_def)
    let ?q = "swap_heap index p q"
    have up: "up_ordered (length (tq_heap q)) (\<lambda>k. heap_time ?q k) p"
      unfolding heap_times_swap [OF 1(2) l] using up_step [OF 1(4,5,2)] True p_def by blast
    have t: "tq_heap ?q ! p = tq_heap q ! index" using l 1(2) by (simp add: heap_time_swap)
    have ok: "index_ok ?q" using swap_index_ok [OF 1(3,2) l(1)] .
    have eq: "up_heap index q = up_heap p ?q" using True 1(5) by (subst up_heap.simps) (simp add: p_def Let_def)
    show ?thesis
    proof (cases "p = 0")
      case True
      have "up_heap 0 ?q = ?q" by (subst up_heap.simps) simp
      moreover have "pt_index (tq_data ?q (snd (tq_heap ?q ! 0))) = 0" using ok l True unfolding index_ok_def by simp
      ultimately show ?thesis using t True \<open>heap_time q index < heap_time q p\<close> unfolding eq by simp
    next
      case False
      then have "pt_index (tq_data (up_heap p ?q) (snd (tq_heap ?q ! p))) = 0 \<longleftrightarrow> heap_time ?q p < heap_time ?q 0"
        using 1(1) [OF p_def] True 1(5) l ok up by simp
      then show ?thesis using t False l 1(2,5) unfolding eq by (simp add: heap_time_swap)
    qed
  next
    case False
    have "up_heap index q = q" using False by (subst up_heap.simps) (simp add: p_def Let_def)
    moreover have "pt_index (tq_data q (snd (tq_heap q ! index))) = index" using 1(2,3) by (simp add: index_ok_def)
    moreover have "heap_ordered index (heap_time q)" using 1(2,4) by (auto simp: up_ordered_def heap_ordered_def)
    then have "heap_time q 0 \<le> heap_time q p" using heap_root 1(5) p_def by (metis parent_less)
    ultimately show ?thesis using 1(5) False by auto
  qed
qed

text \<open>Removing the entry in the middle: the last one takes its place and moves up or down from there.\<close>

lemma replace_ordered:
  assumes h: "heap_ordered (Suc n) f" and k: "k < n" and g: "\<And>i. i < n \<Longrightarrow> g i = (if i = k then f n else f i)"
  shows "0 < k \<Longrightarrow> g k < g ((k - 1) div 2) \<Longrightarrow> up_ordered n g k"
    and "\<not> (0 < k \<and> g k < g ((k - 1) div 2)) \<Longrightarrow> down_ordered n g k"
proof -
  have o: "g ((i - 1) div 2) \<le> g i" if "i < n" "0 < i" "i \<noteq> k" "(i - 1) div 2 \<noteq> k" for i
  proof -
    have "(i - 1) div 2 < n" using parent_less [OF that(2)] that(1) by simp
    then have "g ((i - 1) div 2) = f ((i - 1) div 2)" "g i = f i" using g that by simp_all
    moreover have "f ((i - 1) div 2) \<le> f i" using h that(1,2) unfolding heap_ordered_def ordered_at_def by (metis less_SucI neq0_conv)
    ultimately show ?thesis by simp
  qed
  have b: "g ((k - 1) div 2) \<le> g i" if "i < n" "0 < i" "0 < k" "(i - 1) div 2 = k" for i
  proof -
    have ik: "k < i" using parent_less [OF that(2)] that(4) by simp
    have pk: "(k - 1) div 2 < k" using parent_less [OF that(3)] .
    have "f ((k - 1) div 2) \<le> f k" "f k \<le> f i" using h that k unfolding heap_ordered_def ordered_at_def by (metis less_SucI neq0_conv)+
    moreover have "g ((k - 1) div 2) = f ((k - 1) div 2)" "g i = f i" using g [of i] g [of "(k - 1) div 2"] ik pk k that(1) by simp_all
    ultimately show ?thesis by (metis order_trans)
  qed
  then have br: "bridged n g k" unfolding bridged_def by blast
  show "up_ordered n g k" if "0 < k" "g k < g ((k - 1) div 2)"
    unfolding up_ordered_def ordered_at_def
  proof (intro conjI allI impI br)
    fix i assume i: "i < n" "i \<noteq> k"
    show "i = 0 \<or> g ((i - 1) div 2) \<le> g i"
    proof (cases "0 < i \<and> (i - 1) div 2 = k")
      case True
      then have "g ((k - 1) div 2) \<le> g i" using b [OF i(1) _ that(1)] by blast
      then show ?thesis using True that(2) by auto
    qed (use o i in auto)
  qed
  show "down_ordered n g k" if n: "\<not> (0 < k \<and> g k < g ((k - 1) div 2))"
    unfolding down_ordered_def ordered_at_def
  proof (intro conjI allI impI br)
    fix i assume i: "i < n"
    show "i = 0 \<or> (i - 1) div 2 = k \<or> i = 0 \<or> g ((i - 1) div 2) \<le> g i"
      using o [OF i] n by (metis not_le neq0_conv)
  qed
qed

subsection \<open>Removing from the heap\<close>

definition heap_inv :: "('tm :: linorder, 't, 'h) timer_queue \<Rightarrow> bool" where
  "heap_inv q \<longleftrightarrow> index_ok q \<and> heap_ordered (length (tq_heap q)) (heap_time q)"

definition kept :: "('tm, 't, 'h) timer_queue \<Rightarrow> ('tm, 't, 'h) timer_queue \<Rightarrow> bool" where
  "kept q q' \<longleftrightarrow> tq_timers q' = tq_timers q
     \<and> (\<forall>t. pt_ops (tq_data q' t) = pt_ops (tq_data q t) \<and> pt_next (tq_data q' t) = pt_next (tq_data q t)
          \<and> pt_prev (tq_data q' t) = pt_prev (tq_data q t)
          \<and> (t \<in> snd ` set (tq_heap q) \<or> pt_index (tq_data q' t) = pt_index (tq_data q t)))"

lemma reordered_kept: "reordered q q' \<Longrightarrow> kept q q'"
  by (simp add: reordered_def kept_def)

lemma kept_trans: "kept p q \<Longrightarrow> kept q r \<Longrightarrow> set (tq_heap q) \<subseteq> set (tq_heap p) \<Longrightarrow> kept p r"
  unfolding kept_def by (metis (no_types, lifting) image_mono subsetD)

lemma index_of_entry: "index_ok q \<Longrightarrow> (tm, t) \<in> set (tq_heap q) \<Longrightarrow>
    pt_index (tq_data q t) < length (tq_heap q) \<and> tq_heap q ! pt_index (tq_data q t) = (tm, t)"
  unfolding index_ok_def in_set_conv_nth by (metis snd_conv)

lemma entry_of_index: "index_ok q \<Longrightarrow> distinct (map snd (tq_heap q))"
  unfolding distinct_conv_nth using index_ok_nth_inj by fastforce

lemma butlast_kept: "kept q (q\<lparr>tq_heap := butlast (tq_heap q)\<rparr>)"
  by (simp add: kept_def)

lemma butlast_entry: "length xs = Suc n \<Longrightarrow> xs ! n = e \<Longrightarrow> mset xs = add_mset e (mset (butlast xs))"
  by (cases xs rule: rev_cases) (auto simp: nth_append)

lemma remove_from_heap_absent:
  "length (tq_heap q) \<le> pt_index (tq_data q t) \<Longrightarrow> remove_from_heap t q = q"
  by (simp add: remove_from_heap_def Let_def)

lemma remove_from_heap_present:
  assumes inv: "heap_inv q" and t: "(tm, t) \<in> set (tq_heap q)"
  shows "heap_inv (remove_from_heap t q) \<and> kept q (remove_from_heap t q)
    \<and> mset (tq_heap q) = add_mset (tm, t) (mset (tq_heap (remove_from_heap t q)))"
proof -
  define i where "i = pt_index (tq_data q t)"
  obtain n where n: "length (tq_heap q) = Suc n" using t by (cases "tq_heap q") auto
  have ok: "index_ok q" and ord: "heap_ordered (Suc n) (heap_time q)" using inv n by (simp_all add: heap_inv_def)
  have i: "i < Suc n" "tq_heap q ! i = (tm, t)" using index_of_entry [OF ok t] n by (simp_all add: i_def)
  show ?thesis
  proof (cases "i = n")
    case True
    have e: "remove_from_heap t q = q\<lparr>tq_heap := butlast (tq_heap q)\<rparr>"
      using True n t by (auto simp: remove_from_heap_def Let_def i_def)
    have "mset (tq_heap q) = add_mset (tm, t) (mset (butlast (tq_heap q)))"
      by (rule butlast_entry [OF n]) (use True i in simp)
    moreover have "heap_inv (q\<lparr>tq_heap := butlast (tq_heap q)\<rparr>)"
      using ok ord n by (simp add: heap_inv_def index_ok_def heap_ordered_def ordered_at_def nth_butlast)
    ultimately show ?thesis using butlast_kept [of q] by (simp add: e)
  next
    case False
    then have l: "i < n" using i by simp
    define q1 where "q1 = swap_heap i n q"
    define q2 where "q2 = q1\<lparr>tq_heap := butlast (tq_heap q1)\<rparr>"
    have n1: "length (tq_heap q1) = Suc n" by (simp add: q1_def n)
    have n2: "length (tq_heap q2) = n" by (simp add: q2_def n1)
    have re1: "reordered q q1" unfolding q1_def by (rule swap_reordered) (use n l in simp_all)
    have ok1: "index_ok q1" unfolding q1_def by (rule swap_index_ok [OF ok]) (use n l in simp_all)
    have ok2: "index_ok q2" using ok1 n1 by (simp add: index_ok_def q2_def nth_butlast)
    have "tq_heap q1 ! n = (tm, t)" using heap_time_swap [of i q n n] n l i by (simp add: q1_def)
    then have m2: "mset (tq_heap q) = add_mset (tm, t) (mset (tq_heap q2))"
      using butlast_entry [OF n1, of "(tm, t)"] re1 by (simp add: reordered_def q2_def)
    have t2: "heap_time q2 j = (if j = i then heap_time q n else heap_time q j)" if "j < n" for j
      using that l n n1 heap_time_swap [of i q n j] by (simp add: q2_def q1_def nth_butlast)
    note rep = replace_ordered [OF ord l t2]
    have e: "remove_from_heap t q =
        (if 0 < i \<and> heap_time q2 i < heap_time q2 ((i - 1) div 2) then up_heap i q2 else down_heap i q2)"
      using False n t i(1) by (auto simp: remove_from_heap_def Let_def i_def q1_def q2_def)
    have k2: "kept q q2" using kept_trans [OF reordered_kept [OF re1] butlast_kept] reordered_set [OF re1] by (simp add: q2_def)
    have "heap_inv (remove_from_heap t q) \<and> reordered q2 (remove_from_heap t q)"
    proof (cases "0 < i \<and> heap_time q2 i < heap_time q2 ((i - 1) div 2)")
      case True
      then have "heap_ordered n (heap_time (up_heap i q2))" using up_heap_ordered [of i q2] rep(1) l n2 by simp
      then show ?thesis using True up_heap_reordered [of i q2] ok2 l n2 reordered_length [of q2 "up_heap i q2"]
        unfolding e if_P [OF True] by (simp add: heap_inv_def)
    next
      case False
      then have "heap_ordered n (heap_time (down_heap i q2))" using down_heap_ordered [of i q2] rep(2) l n2 by simp
      then show ?thesis using False down_heap_reordered [of i q2] ok2 l n2 reordered_length [of q2 "down_heap i q2"]
        unfolding e if_not_P [OF False] by (simp add: heap_inv_def)
    qed
    moreover have "set (tq_heap q2) \<subseteq> set (tq_heap q)" using m2 by (metis set_mset_add_mset_insert set_mset_mset subset_insertI)
    ultimately show ?thesis using m2 kept_trans [OF k2 reordered_kept] by (simp add: reordered_def)
  qed
qed

subsection \<open>The list of active timers\<close>

fun fst_or :: "'a list \<Rightarrow> 'a option \<Rightarrow> 'a option" where
  "fst_or [] e = e"
| "fst_or (x # xs) e = Some x"

definition last_or :: "'a list \<Rightarrow> 'a option \<Rightarrow> 'a option" where
  "last_or xs p = (if xs = [] then p else Some (last xs))"

lemma last_or_simps [simp]: "last_or [] p = p" "last_or (x # xs) p = last_or xs (Some x)" "last_or (xs @ [x]) p = Some x"
  by (simp_all add: last_or_def)

lemma fst_or_in: "fst_or xs None = Some x \<Longrightarrow> x \<in> set xs"
  by (cases xs) auto

lemma last_or_in: "last_or xs None = Some x \<Longrightarrow> x \<in> set xs"
  by (auto simp: last_or_def split: if_splits)

text \<open>\<open>dseg d p h xs e\<close>: from the pointer \<open>h\<close> to the pointer \<open>e\<close> the links run through \<open>xs\<close>, and back to \<open>p\<close>.\<close>

fun dseg :: "('t \<Rightarrow> ('t, 'h) per_timer_data) \<Rightarrow> 't option \<Rightarrow> 't option \<Rightarrow> 't list \<Rightarrow> 't option \<Rightarrow> bool" where
  "dseg d p h [] e \<longleftrightarrow> h = e"
| "dseg d p h (x # xs) e \<longleftrightarrow> h = Some x \<and> pt_prev (d x) = p \<and> dseg d (Some x) (pt_next (d x)) xs e"

lemma dseg_head: "dseg d p h xs e \<Longrightarrow> h = fst_or xs e"
  by (cases xs) auto

lemma dseg_append: "dseg d p h (xs @ ys) e \<longleftrightarrow> dseg d p h xs (fst_or ys e) \<and> dseg d (last_or xs p) (fst_or ys e) ys e"
  by (induction xs arbitrary: p h) (auto dest: dseg_head)

lemma dseg_cong:
  "(\<And>x. x \<in> set xs \<Longrightarrow> pt_next (d' x) = pt_next (d x) \<and> pt_prev (d' x) = pt_prev (d x)) \<Longrightarrow> dseg d' p h xs e = dseg d p h xs e"
  by (induction xs arbitrary: p h) auto

definition linked :: "('tm, 't, 'h) timer_queue \<Rightarrow> 't list \<Rightarrow> bool" where
  "linked q L \<longleftrightarrow> dseg (tq_data q) None (tq_timers q) L None \<and> distinct L
     \<and> (\<forall>t. t \<in> set L \<or> pt_next (tq_data q t) = None \<and> pt_prev (tq_data q t) = None)"

lemma linked_at: "linked q (xs @ t # ys) \<Longrightarrow>
    pt_prev (tq_data q t) = last_or xs None \<and> pt_next (tq_data q t) = fst_or ys None \<and> (tq_timers q = Some t \<longleftrightarrow> xs = [])"
  by (cases xs) (auto simp: linked_def dseg_append dest: dseg_head)

lemma linked_active: "linked q L \<Longrightarrow> active t q \<longleftrightarrow> t \<in> set L"
proof
  assume l: "linked q L" and "active t q"
  then show "t \<in> set L"
    by (cases L) (auto simp: active_def linked_def)
next
  assume l: "linked q L" and "t \<in> set L"
  then obtain xs ys where "L = xs @ t # ys" by (meson split_list)
  with l linked_at [of q xs t ys] show "active t q" by (cases "xs = []") (auto simp: active_def last_or_def)
qed

lemma linked_cong: "tq_timers q' = tq_timers q \<Longrightarrow>
    (\<And>t. pt_next (tq_data q' t) = pt_next (tq_data q t) \<and> pt_prev (tq_data q' t) = pt_prev (tq_data q t))
    \<Longrightarrow> linked q' L = linked q L"
  using dseg_cong [of L "tq_data q'" "tq_data q" None "tq_timers q" None] by (simp add: linked_def)

lemma link_data:
  assumes "linked q L" "t \<notin> set L"
  shows "tq_data (link t q) u = (if u = t then (tq_data q t)\<lparr>pt_next := fst_or L None, pt_prev := None\<rparr>
    else if fst_or L None = Some u then (tq_data q u)\<lparr>pt_prev := Some t\<rparr> else tq_data q u)"
  using assms by (cases L) (auto simp: linked_def link_def Let_def set_defs)

lemma link_linked:
  assumes l: "linked q L" and t: "t \<notin> set L"
  shows "linked (link t q) (t # L)"
proof -
  note d = link_data [OF l t]
  have h: "tq_timers q = fst_or L None" using l dseg_head by (auto simp: linked_def)
  have "dseg (tq_data (link t q)) (Some t) (fst_or L None) L None"
  proof (cases L)
    case (Cons x xs)
    then have "x \<noteq> t" "t \<notin> set xs" "x \<notin> set xs" using l t by (auto simp: linked_def)
    moreover have "dseg (tq_data (link t q)) (Some x) p xs None = dseg (tq_data q) (Some x) p xs None" for p
      by (rule dseg_cong) (use calculation Cons in \<open>auto simp: d\<close>)
    ultimately show ?thesis using l Cons by (simp add: d linked_def)
  qed simp
  moreover have "u = t \<or> u \<in> set L \<or> pt_next (tq_data (link t q) u) = None \<and> pt_prev (tq_data (link t q) u) = None" for u
    using l fst_or_in [of L u] by (auto simp: d linked_def)
  ultimately show ?thesis using l t h d [of t] by (auto simp: linked_def link_def Let_def)
qed

lemma unlink_data:
  assumes "linked q (xs @ t # ys)"
  shows "tq_data (unlink t q) u = (if u = t then (tq_data q t)\<lparr>pt_next := None, pt_prev := None\<rparr>
    else if last_or xs None = Some u then (tq_data q u)\<lparr>pt_next := fst_or ys None\<rparr>
    else if fst_or ys None = Some u then (tq_data q u)\<lparr>pt_prev := last_or xs None\<rparr> else tq_data q u)"
proof -
  have "distinct (xs @ t # ys)" using assms by (simp add: linked_def)
  then have "last_or xs None \<noteq> Some t" "fst_or ys None \<noteq> Some t" "\<And>v. last_or xs None = Some v \<Longrightarrow> fst_or ys None \<noteq> Some v"
    using last_or_in fst_or_in by (auto dest!: last_or_in fst_or_in)
  with linked_at [OF assms] show ?thesis
    by (auto simp: unlink_def Let_def set_defs split: option.splits)
qed

lemma unlink_linked:
  assumes l: "linked q (xs @ t # ys)"
  shows "linked (unlink t q) (xs @ ys)"
proof -
  note d = unlink_data [OF l]
  let ?d = "tq_data (unlink t q)"
  have dist: "distinct (xs @ t # ys)" and seg: "dseg (tq_data q) None (tq_timers q) xs (Some t)"
      "dseg (tq_data q) (Some t) (fst_or ys None) ys None"
    using l dseg_head [of "tq_data q" "Some t"] by (auto simp: linked_def dseg_append)
  have "dseg ?d (last_or xs None) (fst_or ys None) ys None"
  proof (cases ys)
    case (Cons y ys')
    have "dseg ?d (Some y) p ys' None = dseg (tq_data q) (Some y) p ys' None" for p
      by (rule dseg_cong) (use dist Cons last_or_in [of xs] in \<open>auto simp: d\<close>)
    then show ?thesis using seg(2) dist Cons last_or_in [of xs y] by (auto simp: d)
  qed simp
  moreover have "dseg ?d None (tq_timers (unlink t q)) xs (fst_or ys None)"
  proof (cases xs rule: rev_cases)
    case Nil
    then show ?thesis using linked_at [OF l] by (simp add: unlink_def Let_def)
  next
    case (snoc xs' x)
    have "tq_timers (unlink t q) = tq_timers q" using linked_at [OF l] snoc by (simp add: unlink_def Let_def)
    moreover have "dseg ?d None p xs' (Some x) = dseg (tq_data q) None p xs' (Some x)" for p
      by (rule dseg_cong) (use dist snoc fst_or_in [of ys] in \<open>auto simp: d\<close>)
    moreover have "pt_prev (?d x) = pt_prev (tq_data q x)" "pt_next (?d x) = fst_or ys None"
      using dist snoc fst_or_in [of ys x] by (auto simp: d)
    ultimately show ?thesis using seg(1) snoc by (simp add: dseg_append)
  qed
  moreover have "u \<in> set (xs @ ys) \<or> pt_next (?d u) = None \<and> pt_prev (?d u) = None" for u
    using l last_or_in [of xs u] fst_or_in [of ys u] by (auto simp: d linked_def)
  ultimately show ?thesis using dist unfolding linked_def dseg_append by simp
qed

subsection \<open>The invariant\<close>

text \<open>
  A timer is in the list of active timers exactly when operations wait on it, except for \<open>E\<close>, timers that are
  just being emptied; the active timers without an entry in the heap never expire.
\<close>

definition tq_inv_except :: "'t set \<Rightarrow> ('tm :: linorder, 't, 'h) timer_queue \<Rightarrow> 't list \<Rightarrow> bool" where
  "tq_inv_except E q L \<longleftrightarrow> linked q L \<and> heap_inv q \<and> length (tq_heap q) \<le> SIZE_MAX \<and> snd ` set (tq_heap q) \<subseteq> set L
     \<and> (\<forall>t. pt_ops (tq_data q t) = [] \<longleftrightarrow> t \<notin> set L \<or> t \<in> E)
     \<and> (\<forall>t \<in> set L. t \<in> snd ` set (tq_heap q) \<or> pt_index (tq_data q t) = SIZE_MAX)"

definition tq_inv :: "('tm :: linorder, 't, 'h) timer_queue \<Rightarrow> bool" where
  "tq_inv q \<longleftrightarrow> (\<exists>L. tq_inv_except {} q L)"

text \<open>What the queue stands for: for each active timer its time, if it ever comes, and what waits on it.\<close>

definition expiry :: "('tm, 't, 'h) timer_queue \<Rightarrow> 't \<Rightarrow> 'tm option" where
  "expiry q = map_of (map prod.swap (tq_heap q))"

definition waits :: "('tm, 't, 'h) timer_queue \<Rightarrow> 't \<Rightarrow> ('tm option \<times> 'h wait_op list) option" where
  "waits q t = (if active t q then Some (expiry q t, pt_ops (tq_data q t)) else None)"

lemma expiry_iff: "index_ok q \<Longrightarrow> expiry q t = Some tm \<longleftrightarrow> (tm, t) \<in> set (tq_heap q)"
proof -
  assume "index_ok q"
  then have "distinct (map fst (map prod.swap (tq_heap q)))" using entry_of_index by (simp add: comp_def)
  then show ?thesis by (force simp: expiry_def map_of_eq_Some_iff image_iff)
qed

lemma expiry_eqI: "index_ok q \<Longrightarrow> index_ok q' \<Longrightarrow> (\<And>tm. (tm, u) \<in> set (tq_heap q') \<longleftrightarrow> (tm, t) \<in> set (tq_heap q))
    \<Longrightarrow> expiry q' u = expiry q t"
  by (metis expiry_iff option.exhaust)

lemma expiry_None: "expiry q t = None \<longleftrightarrow> t \<notin> snd ` set (tq_heap q)"
  by (force simp: expiry_def map_of_eq_None_iff)

lemma inv_active: "tq_inv_except E q L \<Longrightarrow> active t q \<longleftrightarrow> t \<in> set L"
  by (rule linked_active) (simp add: tq_inv_except_def)

lemma remove_from_heap_spec:
  assumes inv: "tq_inv_except E q L" and t: "t \<in> set L"
  defines "q' \<equiv> remove_from_heap t q"
  shows "heap_inv q' \<and> kept q q' \<and> length (tq_heap q') \<le> length (tq_heap q)
    \<and> set (tq_heap q') = {e \<in> set (tq_heap q). snd e \<noteq> t}"
proof (cases "t \<in> snd ` set (tq_heap q)")
  case True
  then obtain tm where e: "(tm, t) \<in> set (tq_heap q)" by auto
  have h: "heap_inv q" using inv by (simp add: tq_inv_except_def)
  note r = remove_from_heap_present [OF h e, folded q'_def]
  have m: "mset (tq_heap q) = add_mset (tm, t) (mset (tq_heap q'))" using r by blast
  have s: "set (tq_heap q) = insert (tm, t) (set (tq_heap q'))" using m by (metis set_mset_add_mset_insert set_mset_mset)
  have l: "length (tq_heap q) = Suc (length (tq_heap q'))" using m by (metis size_add_mset size_mset)
  have "mset (map snd (tq_heap q)) = add_mset t (mset (map snd (tq_heap q')))" using m by simp
  moreover have "distinct (map snd (tq_heap q))" using h by (intro entry_of_index) (simp add: heap_inv_def)
  ultimately have "distinct (t # map snd (tq_heap q'))" by (metis mset.simps(2) mset_eq_imp_distinct_iff)
  then have "t \<notin> snd ` set (tq_heap q')" by simp
  with r s l show ?thesis by force
next
  case False
  then have "pt_index (tq_data q t) = SIZE_MAX" "length (tq_heap q) \<le> SIZE_MAX" using inv t by (auto simp: tq_inv_except_def)
  then have "q' = q" unfolding q'_def by (intro remove_from_heap_absent) simp
  with False inv show ?thesis by (auto simp: tq_inv_except_def kept_def)
qed

lemma unlink_frame:
  assumes "linked q (xs @ t # ys)"
  shows "tq_heap (unlink t q) = tq_heap q" "pt_ops (tq_data (unlink t q) u) = pt_ops (tq_data q u)"
    "pt_index (tq_data (unlink t q) u) = pt_index (tq_data q u)"
  using unlink_data [OF assms, of u] by (simp_all add: unlink_def Let_def)

lemma remove_timer_spec:
  assumes inv: "tq_inv_except {t} q L" and t: "t \<in> set L"
  shows "tq_inv (remove_timer t q) \<and> waits (remove_timer t q) = (waits q)(t := None)"
    "length (tq_heap (remove_timer t q)) \<le> length (tq_heap q)"
    "set (tq_heap (remove_timer t q)) = {e \<in> set (tq_heap q). snd e \<noteq> t}"
proof -
  define q1 where "q1 = remove_from_heap t q"
  note r = remove_from_heap_spec [OF inv t, folded q1_def]
  obtain xs ys where L: "L = xs @ t # ys" using t by (meson split_list)
  have k: "tq_timers q1 = tq_timers q" "\<And>u. pt_ops (tq_data q1 u) = pt_ops (tq_data q u)"
    "\<And>u. pt_next (tq_data q1 u) = pt_next (tq_data q u) \<and> pt_prev (tq_data q1 u) = pt_prev (tq_data q u)"
    "\<And>u. u \<in> snd ` set (tq_heap q) \<or> pt_index (tq_data q1 u) = pt_index (tq_data q u)"
    using r by (simp_all add: kept_def)
  have l1: "linked q1 (xs @ t # ys)" using inv L linked_cong [OF k(1,3)] by (simp add: tq_inv_except_def)
  have l2: "linked (remove_timer t q) (xs @ ys)" using unlink_linked [OF l1] by (simp add: remove_timer_def q1_def)
  note f = unlink_frame [OF l1, folded q1_def]
  have rt: "remove_timer t q = unlink t q1" by (simp add: remove_timer_def q1_def)
  have h: "tq_heap (remove_timer t q) = tq_heap q1" by (simp add: rt f)
  have hi: "heap_inv (remove_timer t q)" using r f by (simp add: heap_inv_def index_ok_def rt)
  have tn: "t \<notin> set (xs @ ys)" using l1 by (simp add: linked_def)
  have i: "tq_inv_except {} (remove_timer t q) (xs @ ys)"
    unfolding tq_inv_except_def
  proof (intro conjI l2 hi allI ballI)
    show "length (tq_heap (remove_timer t q)) \<le> SIZE_MAX" using r inv by (simp add: h tq_inv_except_def)
    show "snd ` set (tq_heap (remove_timer t q)) \<subseteq> set (xs @ ys)" using r inv L by (auto simp: h tq_inv_except_def)
  next
    fix u
    show "(pt_ops (tq_data (remove_timer t q) u) = []) = (u \<notin> set (xs @ ys) \<or> u \<in> {})"
      using inv L tn by (simp add: rt f k(2) tq_inv_except_def) blast
  next
    fix u assume u: "u \<in> set (xs @ ys)"
    then have "u \<in> snd ` set (tq_heap q) \<or> pt_index (tq_data q u) = SIZE_MAX" "u \<noteq> t" using inv L tn by (auto simp: tq_inv_except_def)
    then show "u \<in> snd ` set (tq_heap (remove_timer t q)) \<or> pt_index (tq_data (remove_timer t q) u) = SIZE_MAX"
      using r k(4) [of u] f(3) [of u] by (auto simp: rt f(1) image_iff)
  qed
  have "waits (remove_timer t q) u = ((waits q)(t := None)) u" for u
  proof -
    have "expiry (remove_timer t q) u = expiry q u" if "u \<noteq> t"
      by (rule expiry_eqI) (use hi inv r that in \<open>auto simp: heap_inv_def tq_inv_except_def h\<close>)
    then show ?thesis using inv_active [OF i, of u] inv_active [OF inv, of u] tn L f(2) [of u] k(2) [of u]
      by (auto simp: waits_def rt)
  qed
  with i show "tq_inv (remove_timer t q) \<and> waits (remove_timer t q) = (waits q)(t := None)" unfolding tq_inv_def by blast
  show "length (tq_heap (remove_timer t q)) \<le> length (tq_heap q)"
    "set (tq_heap (remove_timer t q)) = {e \<in> set (tq_heap q). snd e \<noteq> t}" using r h by simp_all
qed

subsection \<open>Enqueueing\<close>

lemma set_ops_inv:
  fixes os :: "'h wait_op list"
  assumes inv: "tq_inv_except E q L" and t: "t \<in> set L"
  defines "q' \<equiv> q\<lparr>tq_data := set_ops t os (tq_data q)\<rparr>"
  shows "tq_inv_except (if os = [] then insert t E else E - {t}) q' L"
    and "waits q' = (waits q)(t \<mapsto> (expiry q t, os))"
proof -
  have d: "tq_data q' u = (if u = t then (tq_data q t)\<lparr>pt_ops := os\<rparr> else tq_data q u)" for u
    by (simp add: q'_def set_defs)
  have h: "tq_heap q' = tq_heap q" by (simp add: q'_def)
  have "linked q' L = linked q L" by (rule linked_cong) (simp_all add: d, simp add: q'_def)
  moreover have "pt_index (tq_data q' u) = pt_index (tq_data q u)" for u by (simp add: d)
  ultimately show "tq_inv_except (if os = [] then insert t E else E - {t}) q' L"
    using inv t by (auto simp: tq_inv_except_def heap_inv_def index_ok_def h d)
  have "active u q' = active u q" for u by (simp add: active_def d) (simp add: q'_def)
  moreover have "active t q" using inv_active [OF inv] t by simp
  ultimately show "waits q' = (waits q)(t \<mapsto> (expiry q t, os))"
    by (auto simp: fun_eq_iff waits_def d expiry_def h)
qed

text \<open>Putting a finite time at the end of the heap and moving it up.\<close>

lemma append_up:
  fixes time :: "'tm :: linorder"
  assumes inv: "heap_inv q" and t: "t \<notin> snd ` set (tq_heap q)"
  defines "q0 \<equiv> q\<lparr>tq_data := set_index t (length (tq_heap q)) (tq_data q), tq_heap := tq_heap q @ [(time, t)]\<rparr>"
  defines "q1 \<equiv> up_heap (length (tq_heap q)) q0"
  shows "heap_inv q1" "reordered q0 q1"
    "pt_index (tq_data q1 t) = 0 \<longleftrightarrow> (\<forall>e \<in> set (tq_heap q). time < fst e)"
proof -
  let ?n = "length (tq_heap q)"
  have ok0: "index_ok q0"
    using inv t by (auto simp: heap_inv_def index_ok_def q0_def set_index_def nth_append less_Suc_eq image_iff)
  have n0: "length (tq_heap q0) = Suc ?n" and t0: "tq_heap q0 ! ?n = (time, t)" by (simp_all add: q0_def)
  have ord: "heap_ordered ?n (heap_time q)" using inv by (simp add: heap_inv_def)
  have f: "heap_time q0 i = heap_time q i" if "i < ?n" for i using that by (simp add: q0_def nth_append)
  have up: "up_ordered (Suc ?n) (heap_time q0) ?n"
  proof -
    have "ordered_at (heap_time q0) i" if "i < ?n" for i
    proof -
      have "ordered_at (heap_time q) i" using ord that by (simp add: heap_ordered_def)
      moreover have "(i - 1) div 2 < ?n" using that by simp
      ultimately show ?thesis using f that by (simp add: ordered_at_def)
    qed
    moreover have "bridged (Suc ?n) (heap_time q0) ?n"
      unfolding bridged_def by (metis parent_less less_Suc_eq not_less_iff_gr_or_eq)
    ultimately show ?thesis by (auto simp: up_ordered_def less_Suc_eq)
  qed
  have r: "reordered q0 q1 \<and> index_ok q1" unfolding q1_def by (rule up_heap_reordered) (use n0 ok0 in simp_all)
  have "heap_ordered (Suc ?n) (heap_time q1)" using up_heap_ordered [of ?n q0] n0 up by (simp add: q1_def)
  with r n0 show "heap_inv q1" "reordered q0 q1" by (auto simp: heap_inv_def reordered_length)
  show "pt_index (tq_data q1 t) = 0 \<longleftrightarrow> (\<forall>e \<in> set (tq_heap q). time < fst e)"
  proof (cases "?n = 0")
    case True
    then have "q1 = q0" unfolding q1_def by (subst up_heap.simps) simp
    with True show ?thesis by (simp add: q0_def set_index_def)
  next
    case False
    then have "pt_index (tq_data q1 t) = 0 \<longleftrightarrow> time < heap_time q 0"
      using up_heap_first [of ?n q0] ok0 up n0 t0 f [of 0] by (simp add: q1_def)
    also have "\<dots> \<longleftrightarrow> (\<forall>i < ?n. time < heap_time q i)" using heap_root [OF ord] False by (metis less_le_trans neq0_conv)
    finally show ?thesis by (metis in_set_conv_nth)
  qed
qed

lemma insert_heap_spec:
  fixes time :: "'tm :: linorder" and is_inf :: "'tm \<Rightarrow> bool"
  assumes inv: "tq_inv_except {} q L" and t: "t \<notin> set L" and room: "length (tq_heap q) < SIZE_MAX"
  defines "q1 \<equiv> insert_heap is_inf time t q"
  shows "heap_inv q1 \<and> linked q1 L \<and> (\<forall>u. pt_ops (tq_data q1 u) = pt_ops (tq_data q u)) \<and> length (tq_heap q1) \<le> SIZE_MAX
    \<and> set (tq_heap q1) = (if is_inf time then set (tq_heap q) else insert (time, t) (set (tq_heap q)))
    \<and> (\<forall>u. u = t \<or> u \<in> snd ` set (tq_heap q) \<or> pt_index (tq_data q1 u) = pt_index (tq_data q u))
    \<and> (if is_inf time then pt_index (tq_data q1 t) = SIZE_MAX
       else pt_index (tq_data q1 t) = 0 \<longleftrightarrow> (\<forall>e \<in> set (tq_heap q). time < fst e))"
proof -
  have h: "heap_inv q" "linked q L" "snd ` set (tq_heap q) \<subseteq> set L" using inv by (simp_all add: tq_inv_except_def)
  have th: "t \<notin> snd ` set (tq_heap q)" using h(3) t by blast
  show ?thesis
  proof (cases "is_inf time")
    case True
    have "linked q1 L = linked q L" by (rule linked_cong) (simp_all add: q1_def insert_heap_def True set_index_def)
    moreover have "heap_inv q1" using h(1) th
      by (auto simp: heap_inv_def index_ok_def q1_def insert_heap_def True set_index_def image_iff)
    ultimately show ?thesis using h room by (simp add: q1_def insert_heap_def True set_index_def)
  next
    case False
    define q0 where "q0 = q\<lparr>tq_data := set_index t (length (tq_heap q)) (tq_data q), tq_heap := tq_heap q @ [(time, t)]\<rparr>"
    note a = append_up [OF h(1) th, of time, folded q0_def]
    have q1: "q1 = up_heap (length (tq_heap q)) q0" by (simp add: q1_def q0_def insert_heap_def False)
    have l0: "pt_next (tq_data q0 u) = pt_next (tq_data q u)" "pt_prev (tq_data q0 u) = pt_prev (tq_data q u)"
      "pt_ops (tq_data q0 u) = pt_ops (tq_data q u)" "u = t \<or> pt_index (tq_data q0 u) = pt_index (tq_data q u)" for u
      by (auto simp: q0_def set_index_def)
    have s0: "tq_timers q0 = tq_timers q" "set (tq_heap q0) = insert (time, t) (set (tq_heap q))"
      "length (tq_heap q0) = Suc (length (tq_heap q))" by (simp_all add: q0_def)
    have r: "reordered q0 q1" using a(2) by (simp add: q1)
    have "linked q1 L = linked q L" by (rule linked_cong) (use r l0 s0 in \<open>simp_all add: reordered_def\<close>)
    moreover have "u = t \<or> u \<in> snd ` set (tq_heap q) \<or> pt_index (tq_data q1 u) = pt_index (tq_data q u)" for u
      using r l0(4) [of u] s0(2) unfolding reordered_def by auto
    ultimately show ?thesis using a(1,3) r l0 s0 h room False reordered_set [OF r] reordered_length [OF r]
      by (simp add: q1 reordered_def)
  qed
qed

text \<open>What the operations do to the timers and what waits on them.\<close>

type_synonym ('tm, 't, 'h) waiting = "'t \<Rightarrow> ('tm option \<times> 'h wait_op list) option"

definition time_of :: "('tm, 't, 'h) waiting \<Rightarrow> 't \<Rightarrow> 'tm" where
  "time_of m t = the (fst (the (m t)))"

definition ops_of :: "('tm, 't, 'h) waiting \<Rightarrow> 't \<Rightarrow> 'h wait_op list" where
  "ops_of m t = snd (the (m t))"

definition spec_enqueue ::
  "('tm \<Rightarrow> bool) \<Rightarrow> 'tm \<Rightarrow> 't \<Rightarrow> 'h wait_op \<Rightarrow> ('tm, 't, 'h) waiting \<Rightarrow> ('tm, 't, 'h) waiting" where
  "spec_enqueue is_inf time t op m =
     m(t \<mapsto> (case m t of None \<Rightarrow> (if is_inf time then None else Some time, [op]) | Some (tm, os) \<Rightarrow> (tm, os @ [op])))"

definition spec_first :: "('tm :: linorder \<Rightarrow> bool) \<Rightarrow> 'tm \<Rightarrow> 't \<Rightarrow> ('tm, 't, 'h) waiting \<Rightarrow> bool" where
  "spec_first is_inf time t m \<longleftrightarrow> m t = None \<and> \<not> is_inf time \<and> (\<forall>u tm os. m u = Some (Some tm, os) \<longrightarrow> time < tm)"

lemma waits_None: "waits q t = None \<longleftrightarrow> \<not> active t q"
  by (simp add: waits_def)

lemma waits_finite:
  "tq_inv_except E q L \<Longrightarrow> (\<exists>os. waits q t = Some (Some tm, os)) \<longleftrightarrow> (tm, t) \<in> set (tq_heap q)"
proof -
  assume inv: "tq_inv_except E q L"
  then have "index_ok q" "snd ` set (tq_heap q) \<subseteq> set L" by (simp_all add: tq_inv_except_def heap_inv_def)
  then show ?thesis using inv_active [OF inv, of t] by (force simp: waits_def expiry_iff)
qed

lemma first_heap: "tq_inv_except E q L \<Longrightarrow>
    (\<forall>u tm os. waits q u = Some (Some tm, os) \<longrightarrow> time < tm) \<longleftrightarrow> (\<forall>e \<in> set (tq_heap q). time < fst e)"
  by (metis prod.collapse fst_conv waits_finite)

lemma link_frame:
  assumes "linked q L" "t \<notin> set L"
  shows "tq_heap (link t q) = tq_heap q" "pt_ops (tq_data (link t q) u) = pt_ops (tq_data q u)"
    "pt_index (tq_data (link t q) u) = pt_index (tq_data q u)"
  using link_data [OF assms, of u] by (simp_all add: link_def Let_def)

lemma new_timer_inv:
  fixes time :: "'tm :: linorder" and is_inf :: "'tm \<Rightarrow> bool"
  assumes inv: "tq_inv_except {} q L" and t: "t \<notin> set L" and room: "length (tq_heap q) < SIZE_MAX"
  defines "q2 \<equiv> link t (insert_heap is_inf time t q)"
  shows "tq_inv_except {t} q2 (t # L)" "waits q2 = (waits q)(t \<mapsto> (if is_inf time then None else Some time, []))"
    "pt_index (tq_data q2 t) = 0 \<longleftrightarrow> \<not> is_inf time \<and> (\<forall>e \<in> set (tq_heap q). time < fst e)"
proof -
  define q1 where "q1 = insert_heap is_inf time t q"
  note a = insert_heap_spec [OF inv t room, of is_inf time, folded q1_def]
  have l1: "linked q1 L" using a by blast
  note f = link_frame [OF l1 t]
  have q2: "q2 = link t q1" by (simp add: q2_def q1_def)
  have h: "heap_inv q2" using a f by (simp add: q2 heap_inv_def index_ok_def)
  show i2: "tq_inv_except {t} q2 (t # L)"
    unfolding tq_inv_except_def
  proof (intro conjI h allI ballI)
    show "linked q2 (t # L)" unfolding q2 by (rule link_linked [OF l1 t])
    show "length (tq_heap q2) \<le> SIZE_MAX" using a f by (simp add: q2)
    show "snd ` set (tq_heap q2) \<subseteq> set (t # L)" using a f inv by (auto simp: q2 tq_inv_except_def split: if_splits)
  next
    fix u show "(pt_ops (tq_data q2 u) = []) = (u \<notin> set (t # L) \<or> u \<in> {t})"
      using inv t a f(2) [of u] by (auto simp: q2 tq_inv_except_def)
  next
    fix u assume u: "u \<in> set (t # L)"
    show "u \<in> snd ` set (tq_heap q2) \<or> pt_index (tq_data q2 u) = SIZE_MAX"
    proof (cases "u = t")
      case True
      then show ?thesis using a f(1) f(3) [of t] by (auto simp: q2)
    next
      case False
      then have "u \<in> snd ` set (tq_heap q) \<or> pt_index (tq_data q u) = SIZE_MAX" using inv u by (auto simp: tq_inv_except_def)
      then show ?thesis using a f(1) f(3) [of u] False by (auto simp: q2 image_iff)
    qed
  qed
  have ok: "index_ok q" "index_ok q2" "t \<notin> snd ` set (tq_heap q)" using inv h t by (auto simp: tq_inv_except_def heap_inv_def)
  have s: "set (tq_heap q2) = (if is_inf time then set (tq_heap q) else insert (time, t) (set (tq_heap q)))" using a f by (simp add: q2)
  have e: "expiry q2 u = (if u = t then if is_inf time then None else Some time else expiry q u)" for u
  proof (cases "u = t")
    case True
    show ?thesis
    proof (cases "is_inf time")
      case True
      then show ?thesis using \<open>u = t\<close> ok(3) s by (simp add: expiry_None)
    next
      case False
      then show ?thesis using \<open>u = t\<close> expiry_iff [OF ok(2), of t time] s by simp
    qed
  next
    case False
    then have "expiry q2 u = expiry q u" by (intro expiry_eqI ok) (use s in auto)
    with False show ?thesis by simp
  qed
  have o: "pt_ops (tq_data q2 u) = pt_ops (tq_data q u)" for u using a f(2) [of u] by (simp add: q2)
  moreover have "pt_ops (tq_data q t) = []" using inv t by (simp add: tq_inv_except_def)
  ultimately show "waits q2 = (waits q)(t \<mapsto> (if is_inf time then None else Some time, []))"
    using inv_active [OF i2] inv_active [OF inv] by (auto simp: fun_eq_iff waits_def e)
  show "pt_index (tq_data q2 t) = 0 \<longleftrightarrow> \<not> is_inf time \<and> (\<forall>e \<in> set (tq_heap q). time < fst e)"
    using a f(3) [of t] by (cases "is_inf time") (simp_all add: q2 SIZE_MAX_def)
qed

lemma length_up_heap [simp]: "length (tq_heap (up_heap i q)) = length (tq_heap q)"
  by (induction i q rule: up_heap.induct) (subst up_heap.simps, simp add: Let_def)

lemma enqueue_timer_length:
  "enqueue_timer is_inf time t op q = (q', first) \<Longrightarrow> length (tq_heap q') \<le> Suc (length (tq_heap q))"
  by (auto simp: enqueue_timer_def insert_heap_def link_def Let_def split: if_splits)

lemma enqueue_timer_spec:
  assumes inv: "tq_inv q" and room: "length (tq_heap q) < SIZE_MAX" and e: "enqueue_timer is_inf time t op q = (q', first)"
  shows "tq_inv q' \<and> waits q' = spec_enqueue is_inf time t op (waits q)
    \<and> (op \<in> set (ops_of (waits q) t) \<and> waits q t \<noteq> None \<or> first = spec_first is_inf time t (waits q))"
proof -
  obtain L where L: "tq_inv_except {} q L" using inv by (auto simp: tq_inv_def)
  show ?thesis
  proof (cases "t \<in> set L")
    case True
    then have act: "active t q" using inv_active [OF L] by simp
    then have w: "waits q t = Some (expiry q t, pt_ops (tq_data q t))" by (simp add: waits_def)
    have ne: "pt_ops (tq_data q t) \<noteq> []" using L True by (simp add: tq_inv_except_def)
    note s = set_ops_inv [OF L True, of "pt_ops (tq_data q t) @ [op]"]
    have "op \<in> set (ops_of (waits q) t) \<or> hd (pt_ops (tq_data q t)) \<noteq> op" using w ne hd_in_set [OF ne] by (auto simp: ops_of_def)
    then show ?thesis using e s w act ne by (auto simp: enqueue_timer_def Let_def spec_enqueue_def spec_first_def tq_inv_def set_ops_def)
  next
    case False
    then have act: "\<not> active t q" using inv_active [OF L] by simp
    define q2 where "q2 = link t (insert_heap is_inf time t q)"
    note n = new_timer_inv [OF L False room, of is_inf time, folded q2_def]
    have t2: "t \<in> set (t # L)" by simp
    note s = set_ops_inv [OF n(1) t2, of "[op]"]
    have o: "pt_ops (tq_data q2 t) = []" using n(1) by (simp add: tq_inv_except_def)
    have "waits q2 t = Some (expiry q2 t, [])" using inv_active [OF n(1), of t] o by (simp add: waits_def)
    then have x: "expiry q2 t = (if is_inf time then None else Some time)" using n(2) by (simp split: if_splits)
    have q': "q' = q2\<lparr>tq_data := set_ops t [op] (tq_data q2)\<rparr>" "first \<longleftrightarrow> pt_index (tq_data q2 t) = 0"
      using e act o by (auto simp: enqueue_timer_def Let_def q2_def [symmetric] set_ops_def)
    have w: "waits q t = None" using act by (simp add: waits_None)
    have "tq_inv q'" using s(1) unfolding tq_inv_def q' by auto
    moreover have "waits q' = spec_enqueue is_inf time t op (waits q)"
      unfolding q' s(2) spec_enqueue_def by (simp add: w n(2) x)
    moreover have "first = spec_first is_inf time t (waits q)"
      unfolding q' spec_first_def n(3) by (simp only: w first_heap [OF L, of time] simp_thms)
    ultimately show ?thesis by blast
  qed
qed

subsection \<open>Expiry\<close>

definition due :: "'tm :: linorder \<Rightarrow> ('tm, 't, 'h) waiting \<Rightarrow> 't set" where
  "due now m = {t. \<exists>tm os. m t = Some (Some tm, os) \<and> tm \<le> now}"

text \<open>The timers that are due, in the order of their times.\<close>

definition due_list :: "'tm :: linorder \<Rightarrow> ('tm, 't, 'h) waiting \<Rightarrow> 't list \<Rightarrow> bool" where
  "due_list now m ts \<longleftrightarrow> distinct ts \<and> set ts = due now m \<and> sorted (map (time_of m) ts)"

lemma due_heap: "tq_inv_except E q L \<Longrightarrow> due now (waits q) = {t. \<exists>tm. (tm, t) \<in> set (tq_heap q) \<and> tm \<le> now}"
  unfolding due_def using waits_finite by fast

lemma heap_first: "heap_inv q \<Longrightarrow> e \<in> set (tq_heap q) \<Longrightarrow> heap_time q 0 \<le> fst e"
  unfolding heap_inv_def by (metis heap_root in_set_conv_nth)

lemma due_list_Cons:
  assumes ts: "due_list now (m(t := None)) ts" and t: "m t = Some (Some tm, os)" "tm \<le> now"
    and least: "\<And>u tm' os'. m u = Some (Some tm', os') \<Longrightarrow> tm \<le> tm'"
  shows "due_list now m (t # ts) \<and> map (ops_of (m(t := None))) ts = map (ops_of m) ts"
proof -
  have s: "set ts = due now m - {t}" using ts by (auto simp: due_list_def due_def)
  then have "u \<noteq> t" if "u \<in> set ts" for u using that by blast
  then have m: "map (time_of (m(t := None))) ts = map (time_of m) ts" "map (ops_of (m(t := None))) ts = map (ops_of m) ts"
    by (simp_all add: time_of_def ops_of_def)
  have "time_of m t \<le> time_of m u" if u: "u \<in> set ts" for u
  proof -
    obtain tm' os' where "m u = Some (Some tm', os')" using u s by (auto simp: due_def)
    with least [OF this] t show ?thesis by (simp add: time_of_def)
  qed
  then have "sorted (map (time_of m) (t # ts))" using ts m by (simp add: due_list_def)
  moreover have "t \<in> due now m" using t by (auto simp: due_def)
  then have "set (t # ts) = due now m" using s by auto
  moreover have "distinct (t # ts)" using ts s by (auto simp: due_list_def)
  ultimately show ?thesis using m by (simp add: due_list_def)
qed

lemma empty_timer_spec:
  assumes inv: "tq_inv q" and t: "active t q"
  defines "q' \<equiv> remove_timer t (q\<lparr>tq_data := set_ops t [] (tq_data q)\<rparr>)"
  shows "tq_inv q' \<and> waits q' = (waits q)(t := None) \<and> set (tq_heap q') = {e \<in> set (tq_heap q). snd e \<noteq> t}"
    "length (tq_heap q') \<le> length (tq_heap q)"
proof -
  obtain L where L: "tq_inv_except {} q L" using inv by (auto simp: tq_inv_def)
  have tL: "t \<in> set L" using inv_active [OF L] t by simp
  note s = set_ops_inv [OF L tL, of "[]"]
  have "tq_inv_except {t} (q\<lparr>tq_data := set_ops t [] (tq_data q)\<rparr>) L" using s(1) by simp
  note r = remove_timer_spec [OF this tL, folded q'_def]
  show "tq_inv q' \<and> waits q' = (waits q)(t := None) \<and> set (tq_heap q') = {e \<in> set (tq_heap q). snd e \<noteq> t}"
    "length (tq_heap q') \<le> length (tq_heap q)"
    using r s(2) by simp_all
qed

lemma get_ready_loop_spec:
  "tq_inv q \<Longrightarrow> \<exists>ts q'. get_ready_loop now ops q = Some (q', ops @ concat (map (ops_of (waits q)) ts))
     \<and> due_list now (waits q) ts \<and> tq_inv q' \<and> waits q' = waits q |` (- set ts) \<and> length (tq_heap q') \<le> length (tq_heap q)"
proof (induction "card (set (tq_heap q))" arbitrary: q ops rule: less_induct)
  case less
  obtain L where L: "tq_inv_except {} q L" using less(2) by (auto simp: tq_inv_def)
  then have hi: "heap_inv q" by (simp add: tq_inv_except_def)
  show ?case
  proof (cases "tq_heap q \<noteq> [] \<and> \<not> now < heap_time q 0")
    case True
    define t where "t = snd (tq_heap q ! 0)"
    have e: "(heap_time q 0, t) \<in> set (tq_heap q)" using True by (simp add: t_def)
    obtain os where w: "waits q t = Some (Some (heap_time q 0), os)" using waits_finite [OF L] e by blast
    then have act: "active t q" by (metis option.distinct(1) waits_None)
    then have os: "os = pt_ops (tq_data q t)" using w by (simp add: waits_def)
    define q1 where "q1 = remove_timer t (q\<lparr>tq_data := set_ops t [] (tq_data q)\<rparr>)"
    note s = empty_timer_spec [OF less(2) act, folded q1_def]
    have "(heap_time q 0, t) \<notin> set (tq_heap q1)" "set (tq_heap q1) \<subseteq> set (tq_heap q)" using s(1) by simp_all
    then have "set (tq_heap q1) \<subset> set (tq_heap q)" using e by blast
    then have "card (set (tq_heap q1)) < card (set (tq_heap q))" by (simp add: psubset_card_mono)
    from less(1) [OF this, of "ops @ os"] s obtain ts q' where ts: "get_ready_loop now (ops @ os) q1 =
        Some (q', (ops @ os) @ concat (map (ops_of (waits q1)) ts))"
      "due_list now (waits q1) ts" "tq_inv q'" "waits q' = waits q1 |` (- set ts)" "length (tq_heap q') \<le> length (tq_heap q1)" by blast
    have least: "heap_time q 0 \<le> tm'" if "waits q u = Some (Some tm', os')" for u tm' os'
      using waits_finite [OF L, of u tm'] that heap_first [OF hi] by force
    have d: "due_list now (waits q) (t # ts) \<and> map (ops_of (waits q1)) ts = map (ops_of (waits q)) ts"
      using due_list_Cons [of now "waits q" t ts "heap_time q 0" os] least w ts(2) s(1) True by (simp add: not_less)
    have "get_ready_loop now ops q = get_ready_loop now (ops @ os) q1"
      using True by (subst get_ready_loop.simps) (simp add: t_def [symmetric] q1_def os Let_def)
    moreover have "waits q' = waits q |` (- set (t # ts))" using ts(4) s(1) by (auto simp: restrict_map_def)
    moreover have "ops_of (waits q) t = os" using w by (simp add: ops_of_def)
    ultimately show ?thesis using ts d s(2) by (intro exI [where x = "t # ts"] exI [where x = q']) (simp add: order_trans)
  next
    case False
    have "due now (waits q) = {}"
    proof -
      have "\<not> tm \<le> now" if "(tm, u) \<in> set (tq_heap q)" for tm u
        using False heap_first [OF hi that] that by (cases "tq_heap q") auto
      then show ?thesis unfolding due_heap [OF L] by blast
    qed
    moreover have "get_ready_loop now ops q = Some (q, ops)" using False by (subst get_ready_loop.simps) auto
    ultimately show ?thesis using less(2) by (intro exI [where x = "[]"] exI [where x = q]) (simp add: due_list_def restrict_map_def)
  qed
qed

lemma get_ready_timers_spec:
  "tq_inv q \<Longrightarrow> \<exists>ts q'. get_ready_timers now ops q = Some (q', ops @ concat (map (ops_of (waits q)) ts))
     \<and> due_list now (waits q) ts \<and> tq_inv q' \<and> waits q' = waits q |` (- set ts) \<and> length (tq_heap q') \<le> length (tq_heap q)"
  using get_ready_loop_spec [of q now ops] by (cases "tq_heap q = []") (auto simp: get_ready_timers_def get_ready_loop.simps)

subsection \<open>Dequeueing everything and cancelling\<close>

lemma get_all_loop_spec:
  "dseg (tq_data q) p (tq_timers q) L None \<Longrightarrow> distinct L
    \<Longrightarrow> \<forall>t. t \<in> set L \<or> pt_next (tq_data q t) = None \<and> pt_prev (tq_data q t) = None \<and> pt_ops (tq_data q t) = []
    \<Longrightarrow> \<exists>q'. get_all_loop ops q = Some (q', ops @ concat (map (\<lambda>t. pt_ops (tq_data q t)) L)) \<and> tq_timers q' = None
      \<and> (\<forall>t. pt_next (tq_data q' t) = None \<and> pt_prev (tq_data q' t) = None \<and> pt_ops (tq_data q' t) = [])"
proof (induction L arbitrary: q ops p)
  case Nil
  then show ?case by (subst get_all_loop.simps) simp
next
  case (Cons x L)
  define q1 where "q1 = q\<lparr>tq_timers := pt_next (tq_data q x),
    tq_data := set_prev x None (set_next x None (set_ops x [] (tq_data q)))\<rparr>"
  have d: "tq_data q1 u = (if u = x then (tq_data q x)\<lparr>pt_ops := [], pt_next := None, pt_prev := None\<rparr> else tq_data q u)" for u
    by (simp add: q1_def set_defs)
  have "dseg (tq_data q1) (Some x) h L None = dseg (tq_data q) (Some x) h L None" for h
    by (rule dseg_cong) (use Cons.prems in \<open>auto simp: d\<close>)
  then have s: "dseg (tq_data q1) (Some x) (tq_timers q1) L None" using Cons.prems by (simp add: q1_def)
  have e: "get_all_loop ops q = get_all_loop (ops @ pt_ops (tq_data q x)) q1"
    using Cons.prems by (subst get_all_loop.simps) (simp add: q1_def Let_def)
  have m: "map (\<lambda>t. pt_ops (tq_data q1 t)) L = map (\<lambda>t. pt_ops (tq_data q t)) L" using Cons.prems by (auto simp: d)
  have clean: "\<forall>t. t \<in> set L \<or> pt_next (tq_data q1 t) = None \<and> pt_prev (tq_data q1 t) = None \<and> pt_ops (tq_data q1 t) = []"
    using Cons.prems by (auto simp: d)
  show ?case using Cons.IH [OF s _ clean, of "ops @ pt_ops (tq_data q x)"] Cons.prems(2) unfolding e m by simp
qed

lemma get_all_timers_spec:
  assumes "tq_inv q"
  shows "\<exists>ts q'. get_all_timers ops q = Some (q', ops @ concat (map (ops_of (waits q)) ts)) \<and> distinct ts
    \<and> set ts = dom (waits q) \<and> tq_inv q' \<and> waits q' = Map.empty \<and> tq_heap q' = []"
proof -
  obtain L where L: "tq_inv_except {} q L" using assms by (auto simp: tq_inv_def)
  have "t \<in> set L \<or> pt_next (tq_data q t) = None \<and> pt_prev (tq_data q t) = None \<and> pt_ops (tq_data q t) = []" for t
    using L by (auto simp: tq_inv_except_def linked_def)
  with get_all_loop_spec [of q None L ops] L obtain q' where q': "get_all_loop ops q = Some (q', ops @ concat (map (\<lambda>t. pt_ops (tq_data q t)) L))"
    "tq_timers q' = None" "\<And>t. pt_next (tq_data q' t) = None \<and> pt_prev (tq_data q' t) = None \<and> pt_ops (tq_data q' t) = []"
    by (auto simp: tq_inv_except_def linked_def)
  define q2 where "q2 = q'\<lparr>tq_heap := []\<rparr>"
  have "linked q2 []" "heap_inv q2" "tq_heap q2 = []" "\<And>t. pt_ops (tq_data q2 t) = []"
    using q'(2,3) by (simp_all add: linked_def heap_inv_def index_ok_def heap_ordered_def q2_def)
  then have "tq_inv_except {} q2 []" by (simp add: tq_inv_except_def)
  then have i2: "tq_inv q2" unfolding tq_inv_def by blast
  have w2: "waits q2 = Map.empty" using q'(2,3) by (simp add: fun_eq_iff waits_def active_def q2_def)
  have act: "\<And>t. active t q \<longleftrightarrow> t \<in> set L" using inv_active [OF L] .
  have m: "map (\<lambda>t. pt_ops (tq_data q t)) L = map (ops_of (waits q)) L" by (simp add: ops_of_def waits_def act)
  have "set L = dom (waits q)" by (auto simp: waits_def act split: if_splits)
  moreover have "distinct L" using L by (simp add: tq_inv_except_def linked_def)
  moreover have "get_all_timers ops q = Some (q2, ops @ concat (map (ops_of (waits q)) L))"
    unfolding get_all_timers_def q'(1) m by (simp add: q2_def)
  moreover have "tq_heap q2 = []" by (simp add: q2_def)
  ultimately show ?thesis using i2 w2 by blast
qed

definition aborted :: "'h wait_op \<Rightarrow> 'h wait_op" where
  "aborted op = op\<lparr>wt_ec := Some OperationAborted\<rparr>"

lemma cancel_loop_spec:
  "n \<le> max_cancelled \<Longrightarrow> k = min (max_cancelled - n) (length os) \<Longrightarrow>
     cancel_loop max_cancelled n os ops = (drop k os, ops @ map aborted (take k os), n + k)"
proof (induction os arbitrary: n ops k)
  case (Cons op os)
  show ?case
  proof (cases "n = max_cancelled")
    case False
    then have k: "k = Suc (min (max_cancelled - Suc n) (length os))" "Suc n \<le> max_cancelled" using Cons.prems by auto
    show ?thesis using False Cons.IH [OF k(2) refl] by (simp add: k(1) aborted_def)
  qed (use Cons.prems in simp)
qed simp

definition spec_cancel :: "nat \<Rightarrow> 't \<Rightarrow> ('tm, 't, 'h) waiting \<Rightarrow> ('tm, 't, 'h) waiting \<times> 'h wait_op list \<times> nat" where
  "spec_cancel max_cancelled t m =
     (case m t of
        None \<Rightarrow> (m, [], 0)
      | Some (tm, os) \<Rightarrow>
          let n = min max_cancelled (length os)
          in (m(t := if n = length os then None else Some (tm, drop n os)), map aborted (take n os), n))"

lemma cancel_timer_spec:
  assumes inv: "tq_inv q" and c: "cancel_timer max_cancelled t ops q = (q', ops', n)"
  shows "tq_inv q' \<and> (\<exists>out. ops' = ops @ out \<and> spec_cancel max_cancelled t (waits q) = (waits q', out, n))
    \<and> length (tq_heap q') \<le> length (tq_heap q)"
proof (cases "active t q")
  case True
  obtain L where L: "tq_inv_except {} q L" using inv by (auto simp: tq_inv_def)
  have tL: "t \<in> set L" using inv_active [OF L] True by simp
  let ?os = "pt_ops (tq_data q t)"
  have w: "waits q t = Some (expiry q t, ?os)" using True by (simp add: waits_def)
  define k where "k = min max_cancelled (length ?os)"
  have cl: "cancel_loop max_cancelled 0 ?os ops = (drop k ?os, ops @ map aborted (take k ?os), k)"
    using cancel_loop_spec [of 0 max_cancelled k ?os ops] by (simp add: k_def)
  have r: "ops' = ops @ map aborted (take k ?os)" "n = k" using c True cl by (auto simp: cancel_timer_def Let_def)
  have all: "drop k ?os = [] \<longleftrightarrow> k = length ?os" by (auto simp: k_def)
  show ?thesis
  proof (cases "drop k ?os = []")
    case d: True
    then have "q' = remove_timer t (q\<lparr>tq_data := set_ops t [] (tq_data q)\<rparr>)" using c True cl by (simp add: cancel_timer_def Let_def)
    with empty_timer_spec [OF inv True] r w d all show ?thesis by (simp add: spec_cancel_def Let_def k_def [symmetric])
  next
    case d: False
    then have q': "q' = q\<lparr>tq_data := set_ops t (drop k ?os) (tq_data q)\<rparr>" using c True cl by (auto simp: cancel_timer_def Let_def)
    have "tq_inv q'" using set_ops_inv(1) [OF L tL, of "drop k ?os"] d unfolding q' tq_inv_def by auto
    moreover have "length (tq_heap q') = length (tq_heap q)" by (simp add: q')
    ultimately show ?thesis using set_ops_inv(2) [OF L tL, of "drop k ?os", folded q'] r w d all
      by (simp add: spec_cancel_def Let_def k_def [symmetric])
  qed
next
  case False
  then have "waits q t = None" by (simp add: waits_None)
  then show ?thesis using c False inv by (simp add: cancel_timer_def spec_cancel_def)
qed

end
