(* ===== verification/Asio_Timers.thy ===== *)
theory Asio_Timers
  imports Asio_Timer
begin

text \<open>
  What the users of the timer queue rely on, as a locale that is interpreted on the queue of \<open>Asio_Timer\<close>, and what
  follows for whole runs; the waiting times of one queue (timer_queue.hpp) and the set of all timer queues of a
  reactor (src/asio/include/asio/detail/impl/timer_queue_set.ipp).
\<close>

subsection \<open>The handlers that wait\<close>

definition waiting_handlers :: "('tm, 't, 'h) waiting \<Rightarrow> 'h multiset" where
  "waiting_handlers m = (\<Sum>t \<in> dom m. mset (map wt_handler (ops_of m t)))"

lemma waiting_handlers_restrict:
  assumes "finite (dom m)" "distinct ts" "set ts \<subseteq> dom m"
  shows "waiting_handlers m = waiting_handlers (m |` (- set ts)) + mset (map wt_handler (concat (map (ops_of m) ts)))"
proof -
  let ?f = "\<lambda>t. mset (map wt_handler (ops_of m t))"
  have "waiting_handlers m = sum ?f (dom m - set ts) + sum ?f (set ts)"
    unfolding waiting_handlers_def by (rule sum.subset_diff [OF assms(3,1)])
  also have "sum ?f (set ts) = mset (map wt_handler (concat (map (ops_of m) ts)))"
    using assms(2) by (induction ts) auto
  also have "sum ?f (dom m - set ts) = waiting_handlers (m |` (- set ts))"
    unfolding waiting_handlers_def by (rule sum.cong) (auto simp: ops_of_def)
  finally show ?thesis .
qed

lemma waiting_handlers_remove:
  assumes "finite (dom m)" "m t = Some (tm, os)"
  shows "waiting_handlers m = waiting_handlers (m(t := None)) + mset (map wt_handler os)"
proof -
  have "m |` (- set [t]) = m(t := None)" by (auto simp: restrict_map_def)
  with waiting_handlers_restrict [of m "[t]"] assms show ?thesis by (auto simp: ops_of_def)
qed

lemma waiting_handlers_upd:
  assumes "finite (dom m)"
  shows "waiting_handlers (m(t \<mapsto> (tm, os))) = waiting_handlers (m(t := None)) + mset (map wt_handler os)"
  using waiting_handlers_remove [of "m(t \<mapsto> (tm, os))" t tm os] assms by simp

lemma waiting_handlers_enqueue:
  assumes "finite (dom m)"
  shows "waiting_handlers (spec_enqueue is_inf time t op m) = add_mset (wt_handler op) (waiting_handlers m)"
proof (cases "m t")
  case None
  then have "m(t := None) = m" by auto
  then show ?thesis using None waiting_handlers_upd [OF assms] by (simp add: spec_enqueue_def)
next
  case (Some w)
  obtain tm os where "w = (tm, os)" by fastforce
  then show ?thesis using Some waiting_handlers_upd [OF assms] waiting_handlers_remove [OF assms, of t tm os]
    by (simp add: spec_enqueue_def)
qed

lemma handlers_aborted [simp]: "image_mset wt_handler (image_mset aborted M) = image_mset wt_handler M"
  by (simp add: aborted_def multiset.map_comp comp_def)

lemma waiting_handlers_cancel:
  assumes "finite (dom m)" and c: "spec_cancel max_cancelled t m = (m', out, n)"
  shows "waiting_handlers m = waiting_handlers m' + mset (map wt_handler out)"
proof (cases "m t")
  case (Some w)
  obtain tm os where w: "w = (tm, os)" by fastforce
  have "mset (map wt_handler (drop n os)) + mset (map wt_handler (take n os)) = mset (map wt_handler os)"
    by (metis append_take_drop_id map_append mset_append union_commute)
  moreover have "drop n os = []" if "n = length os" using that by simp
  ultimately show ?thesis using c Some w waiting_handlers_remove [OF assms(1), of t tm os] waiting_handlers_upd [OF assms(1), of t tm "drop n os"]
    by (auto simp: spec_cancel_def Let_def ac_simps split: if_splits)
qed (use c in \<open>simp add: spec_cancel_def\<close>)

subsection \<open>The interface\<close>

datatype ('tm, 't, 'h) timer_call =
    Enqueue 'tm 't 'h
  | Ready 'tm
  | All
  | Cancel nat 't

fun enqueued :: "('tm, 't, 'h) timer_call list \<Rightarrow> 'h list" where
  "enqueued [] = []"
| "enqueued (Enqueue time t h # cs) = h # enqueued cs"
| "enqueued (c # cs) = enqueued cs"

text \<open>A run of calls on a queue that offers the four operations; the result has what they have handed out.\<close>

fun run_call ::
  "('tm \<Rightarrow> 't \<Rightarrow> 'h wait_op \<Rightarrow> 'q \<Rightarrow> 'q \<times> bool) \<Rightarrow> ('tm \<Rightarrow> 'h wait_op list \<Rightarrow> 'q \<Rightarrow> ('q \<times> 'h wait_op list) option)
    \<Rightarrow> ('h wait_op list \<Rightarrow> 'q \<Rightarrow> ('q \<times> 'h wait_op list) option)
    \<Rightarrow> (nat \<Rightarrow> 't \<Rightarrow> 'h wait_op list \<Rightarrow> 'q \<Rightarrow> 'q \<times> 'h wait_op list \<times> nat)
    \<Rightarrow> ('tm, 't, 'h) timer_call \<Rightarrow> 'q \<Rightarrow> 'h wait_op list \<Rightarrow> ('q \<times> 'h wait_op list) option" where
  "run_call enqueue ready everything cancel (Enqueue time t h) q out =
     Some (fst (enqueue time t \<lparr>wt_handler = h, wt_ec = None\<rparr> q), out)"
| "run_call enqueue ready everything cancel (Ready now) q out = ready now out q"
| "run_call enqueue ready everything cancel All q out = everything out q"
| "run_call enqueue ready everything cancel (Cancel max_cancelled t) q out =
     (case cancel max_cancelled t out q of (q, out, _) \<Rightarrow> Some (q, out))"

fun run_calls ::
  "('tm \<Rightarrow> 't \<Rightarrow> 'h wait_op \<Rightarrow> 'q \<Rightarrow> 'q \<times> bool) \<Rightarrow> ('tm \<Rightarrow> 'h wait_op list \<Rightarrow> 'q \<Rightarrow> ('q \<times> 'h wait_op list) option)
    \<Rightarrow> ('h wait_op list \<Rightarrow> 'q \<Rightarrow> ('q \<times> 'h wait_op list) option)
    \<Rightarrow> (nat \<Rightarrow> 't \<Rightarrow> 'h wait_op list \<Rightarrow> 'q \<Rightarrow> 'q \<times> 'h wait_op list \<times> nat)
    \<Rightarrow> ('tm, 't, 'h) timer_call list \<Rightarrow> 'q \<Rightarrow> 'h wait_op list \<Rightarrow> ('q \<times> 'h wait_op list) option" where
  "run_calls enqueue ready everything cancel [] q out = Some (q, out)"
| "run_calls enqueue ready everything cancel (c # cs) q out =
     (case run_call enqueue ready everything cancel c q out of
        None \<Rightarrow> None
      | Some (q, out) \<Rightarrow> run_calls enqueue ready everything cancel cs q out)"

text \<open>
  \<open>entries\<close> bounds the number of timers with an expiry time; it stays in the range of \<open>size_t\<close>. What the calls hand
  out is appended to the queue of operations they are given.
\<close>

locale timer_service =
  fixes inv :: "'q \<Rightarrow> bool"
    and view :: "'q \<Rightarrow> ('tm :: linorder, 't, 'h) waiting"
    and entries :: "'q \<Rightarrow> nat"
    and is_inf :: "'tm \<Rightarrow> bool"
    and enqueue :: "'tm \<Rightarrow> 't \<Rightarrow> 'h wait_op \<Rightarrow> 'q \<Rightarrow> 'q \<times> bool"
    and ready :: "'tm \<Rightarrow> 'h wait_op list \<Rightarrow> 'q \<Rightarrow> ('q \<times> 'h wait_op list) option"
    and everything :: "'h wait_op list \<Rightarrow> 'q \<Rightarrow> ('q \<times> 'h wait_op list) option"
    and cancel :: "nat \<Rightarrow> 't \<Rightarrow> 'h wait_op list \<Rightarrow> 'q \<Rightarrow> 'q \<times> 'h wait_op list \<times> nat"
  assumes finite_view: "inv q \<Longrightarrow> finite (dom (view q))"
    and enqueue_law: "inv q \<Longrightarrow> entries q < SIZE_MAX \<Longrightarrow> enqueue time t op q = (q', first) \<Longrightarrow>
      inv q' \<and> view q' = spec_enqueue is_inf time t op (view q) \<and> entries q' \<le> Suc (entries q)"
    and ready_law: "inv q \<Longrightarrow> \<exists>ts q'. ready now ops q = Some (q', ops @ concat (map (ops_of (view q)) ts))
      \<and> due_list now (view q) ts \<and> inv q' \<and> view q' = view q |` (- set ts) \<and> entries q' \<le> entries q"
    and everything_law: "inv q \<Longrightarrow> \<exists>ts q'. everything ops q = Some (q', ops @ concat (map (ops_of (view q)) ts))
      \<and> distinct ts \<and> set ts = dom (view q) \<and> inv q' \<and> view q' = Map.empty \<and> entries q' \<le> entries q"
    and cancel_law: "inv q \<Longrightarrow> cancel max_cancelled t ops q = (q', ops', n) \<Longrightarrow>
      inv q' \<and> (\<exists>out. ops' = ops @ out \<and> spec_cancel max_cancelled t (view q) = (view q', out, n)) \<and> entries q' \<le> entries q"
begin

abbreviation call :: "('tm, 't, 'h) timer_call \<Rightarrow> 'q \<Rightarrow> 'h wait_op list \<Rightarrow> ('q \<times> 'h wait_op list) option" where
  "call \<equiv> run_call enqueue ready everything cancel"

abbreviation calls :: "('tm, 't, 'h) timer_call list \<Rightarrow> 'q \<Rightarrow> 'h wait_op list \<Rightarrow> ('q \<times> 'h wait_op list) option" where
  "calls \<equiv> run_calls enqueue ready everything cancel"

lemma call_step:
  assumes inv: "inv q" and room: "entries q + length (enqueued [c]) \<le> SIZE_MAX"
  shows "\<exists>q' out'. call c q out = Some (q', out') \<and> inv q' \<and> entries q' \<le> entries q + length (enqueued [c])
    \<and> waiting_handlers (view q') + mset (map wt_handler out')
      = waiting_handlers (view q) + mset (map wt_handler out) + mset (enqueued [c])"
proof (cases c)
  case (Enqueue time t h)
  obtain q' first where e: "enqueue time t \<lparr>wt_handler = h, wt_ec = None\<rparr> q = (q', first)" by fastforce
  then show ?thesis using enqueue_law [OF inv _ e] room waiting_handlers_enqueue [OF finite_view [OF inv]] by (simp add: Enqueue)
next
  case (Ready now)
  from ready_law [OF inv, of now out] obtain ts q' where r: "ready now out q = Some (q', out @ concat (map (ops_of (view q)) ts))"
    "due_list now (view q) ts" "inv q'" "view q' = view q |` (- set ts)" "entries q' \<le> entries q" by blast
  then have "distinct ts" "set ts \<subseteq> dom (view q)" by (auto simp: due_list_def due_def)
  with r waiting_handlers_restrict [OF finite_view [OF inv] this] show ?thesis by (simp add: Ready)
next
  case All
  from everything_law [OF inv, of out] obtain ts q' where r: "everything out q = Some (q', out @ concat (map (ops_of (view q)) ts))"
    "distinct ts" "set ts = dom (view q)" "inv q'" "view q' = Map.empty" "entries q' \<le> entries q" by blast
  have "view q |` (- set ts) = Map.empty" using r(3) by (auto simp: restrict_map_def)
  then have "waiting_handlers (view q) = mset (map wt_handler (concat (map (ops_of (view q)) ts)))"
    using waiting_handlers_restrict [OF finite_view [OF inv] r(2)] r(3) by (simp add: waiting_handlers_def)
  with r(1,4,5,6) show ?thesis by (simp add: All waiting_handlers_def)
next
  case (Cancel max_cancelled t)
  obtain q' out' n where e: "cancel max_cancelled t out q = (q', out', n)" using prod_cases3 by blast
  from cancel_law [OF inv e] obtain o' where "out' = out @ o'" "spec_cancel max_cancelled t (view q) = (view q', o', n)"
    "inv q'" "entries q' \<le> entries q" by blast
  then show ?thesis using waiting_handlers_cancel [OF finite_view [OF inv], of max_cancelled t "view q'" o' n] e by (simp add: Cancel)
qed

lemma enqueued_Cons: "enqueued (c # cs) = enqueued [c] @ enqueued cs"
  by (cases c) simp_all

lemma calls_conserve:
  "inv q \<Longrightarrow> entries q + length (enqueued cs) \<le> SIZE_MAX \<Longrightarrow>
     \<exists>q' out'. calls cs q out = Some (q', out') \<and> inv q'
       \<and> waiting_handlers (view q') + mset (map wt_handler out')
         = waiting_handlers (view q) + mset (map wt_handler out) + mset (enqueued cs)"
proof (induction cs arbitrary: q out)
  case (Cons c cs)
  have r: "entries q + length (enqueued [c]) \<le> SIZE_MAX" using Cons.prems(2) unfolding enqueued_Cons [of c cs] by simp
  from call_step [OF Cons.prems(1) r, of out] obtain q1 out1 where c: "call c q out = Some (q1, out1)" "inv q1"
    "entries q1 \<le> entries q + length (enqueued [c])"
    "waiting_handlers (view q1) + mset (map wt_handler out1) = waiting_handlers (view q) + mset (map wt_handler out) + mset (enqueued [c])"
    by blast
  have "entries q1 + length (enqueued cs) \<le> SIZE_MAX" using c(3) Cons.prems(2) unfolding enqueued_Cons [of c cs] by simp
  from Cons.IH [OF c(2) this, of out1] obtain q' out' where r: "calls cs q1 out1 = Some (q', out')" "inv q'"
    "waiting_handlers (view q') + mset (map wt_handler out') = waiting_handlers (view q1) + mset (map wt_handler out1) + mset (enqueued cs)"
    by blast
  have "waiting_handlers (view q') + mset (map wt_handler out')
      = waiting_handlers (view q) + mset (map wt_handler out) + mset (enqueued (c # cs))"
    unfolding r(3) c(4) enqueued_Cons [of c cs] by simp
  with r(1,2) c(1) show ?case by simp
qed simp

end

lemma finite_waits: "tq_inv q \<Longrightarrow> finite (dom (waits q))"
proof -
  assume "tq_inv q"
  then obtain L where L: "tq_inv_except {} q L" by (auto simp: tq_inv_def)
  have act: "\<And>t. active t q \<longleftrightarrow> t \<in> set L" using inv_active [OF L] .
  have "dom (waits q) \<subseteq> set L" by (auto simp: waits_def act split: if_splits)
  then show ?thesis by (rule finite_subset) simp
qed

interpretation tq: timer_service tq_inv waits "\<lambda>q. length (tq_heap q)" is_inf "enqueue_timer is_inf"
    get_ready_timers get_all_timers cancel_timer for is_inf :: "'tm :: linorder \<Rightarrow> bool"
proof
  fix q :: "('tm, 't, 'h) timer_queue"
  show "tq_inv q \<Longrightarrow> finite (dom (waits q))" by (rule finite_waits)
next
  fix q q' :: "('tm, 't, 'h) timer_queue" and time t op first
  assume "tq_inv q" "length (tq_heap q) < SIZE_MAX" "enqueue_timer is_inf time t op q = (q', first)"
  then show "tq_inv q' \<and> waits q' = spec_enqueue is_inf time t op (waits q) \<and> length (tq_heap q') \<le> Suc (length (tq_heap q))"
    using enqueue_timer_spec [of q is_inf time t op q' first] enqueue_timer_length [of is_inf time t op q q' first] by simp
next
  fix q :: "('tm, 't, 'h) timer_queue" and now ops
  assume "tq_inv q"
  then show "\<exists>ts q'. get_ready_timers now ops q = Some (q', ops @ concat (map (ops_of (waits q)) ts))
      \<and> due_list now (waits q) ts \<and> tq_inv q' \<and> waits q' = waits q |` (- set ts) \<and> length (tq_heap q') \<le> length (tq_heap q)"
    by (rule get_ready_timers_spec)
next
  fix q :: "('tm, 't, 'h) timer_queue" and ops
  assume "tq_inv q"
  then show "\<exists>ts q'. get_all_timers ops q = Some (q', ops @ concat (map (ops_of (waits q)) ts))
      \<and> distinct ts \<and> set ts = dom (waits q) \<and> tq_inv q' \<and> waits q' = Map.empty \<and> length (tq_heap q') \<le> length (tq_heap q)"
    using get_all_timers_spec [of q ops] by fastforce
next
  fix q q' :: "('tm, 't, 'h) timer_queue" and max_cancelled t ops ops' n
  assume "tq_inv q" "cancel_timer max_cancelled t ops q = (q', ops', n)"
  then show "tq_inv q' \<and> (\<exists>out. ops' = ops @ out \<and> spec_cancel max_cancelled t (waits q) = (waits q', out, n))
      \<and> length (tq_heap q') \<le> length (tq_heap q)"
    by (rule cancel_timer_spec)
qed

lemma new_queue_inv: "tq_inv (new_queue g)" "waits (new_queue g) = Map.empty"
proof -
  have "tq_inv_except {} (new_queue g) []"
    by (simp add: tq_inv_except_def linked_def heap_inv_def index_ok_def heap_ordered_def new_queue_def new_timer_def)
  then show "tq_inv (new_queue g)" unfolding tq_inv_def by blast
  show "waits (new_queue g) = Map.empty"
    by (simp add: fun_eq_iff waits_def active_def new_queue_def new_timer_def)
qed

subsection \<open>The timer queue\<close>

text \<open>A queue in which one timer expires at 5, to look at.\<close>

lemma one_timer:
  "\<exists>q1 f1. enqueue_timer (\<lambda>x. False) (5 :: int) (1 :: nat) \<lparr>wt_handler = CHR ''h'', wt_ec = None\<rparr> (new_queue (\<lambda>t. 0)) = (q1, f1)
     \<and> tq_inv q1 \<and> length (tq_heap q1) < SIZE_MAX \<and> waits q1 = [1 \<mapsto> (Some 5, [\<lparr>wt_handler = CHR ''h'', wt_ec = None\<rparr>])]"
proof -
  let ?op = "\<lparr>wt_handler = CHR ''h'', wt_ec = None\<rparr>"
  let ?n = "new_queue (\<lambda>t. 0) :: (int, nat, char) timer_queue"
  obtain q1 f1 where 1: "enqueue_timer (\<lambda>x. False) 5 1 ?op ?n = (q1, f1)" by fastforce
  have n: "length (tq_heap ?n) = 0" by (simp add: new_queue_def)
  have "tq_inv q1" "waits q1 = spec_enqueue (\<lambda>x. False) 5 1 ?op Map.empty"
    using enqueue_timer_spec [OF new_queue_inv(1) _ 1] n by (simp_all add: new_queue_inv SIZE_MAX_def)
  moreover have "length (tq_heap q1) < SIZE_MAX" using enqueue_timer_length [OF 1] n by (simp add: SIZE_MAX_def)
  ultimately show ?thesis using 1 by (simp add: spec_enqueue_def)
qed

text \<open>
  Enqueueing keeps the invariant of the timer queue, adds the operation to those of the timer, and the time
  only when the timer was not active; the result is whether the timer is new and earlier than all others, which
  is when the reactor has to be woken. The operation must not be waiting already for that.
\<close>

theorem enqueue_timer_refines:
  assumes "tq_inv q" and "length (tq_heap q) < SIZE_MAX" and "waits q t = None \<or> op \<notin> set (ops_of (waits q) t)"
    and "enqueue_timer is_inf time t op q = (q', first)"
  shows "tq_inv q' \<and> waits q' = spec_enqueue is_inf time t op (waits q) \<and> first = spec_first is_inf time t (waits q)"
  using enqueue_timer_spec [OF assms(1,2,4)] assms(3) by (elim disjE conjE) simp_all

theorem enqueue_timer_refines_witness:
  "\<exists>q2 (f2 :: bool) q1. waits q1 = [1 :: nat \<mapsto> (Some (5 :: int), [\<lparr>wt_handler = CHR ''h'', wt_ec = None\<rparr>])]
     \<and> enqueue_timer (\<lambda>x. False) 3 2 \<lparr>wt_handler = CHR ''g'', wt_ec = None\<rparr> q1 = (q2, f2) \<and> tq_inv q2 \<and> f2"
proof -
  obtain q1 where q1: "tq_inv q1" "length (tq_heap q1) < SIZE_MAX"
    "waits q1 = [1 :: nat \<mapsto> (Some (5 :: int), [\<lparr>wt_handler = CHR ''h'', wt_ec = None\<rparr>])]" using one_timer by blast
  obtain q2 f2 where 2: "enqueue_timer (\<lambda>x. False) 3 2 \<lparr>wt_handler = CHR ''g'', wt_ec = None\<rparr> q1 = (q2, f2)" by fastforce
  have "tq_inv q2 \<and> f2 = spec_first (\<lambda>x. False) 3 2 (waits q1)"
    using enqueue_timer_refines [OF q1(1,2) _ 2] q1(3) by simp
  moreover have "spec_first (\<lambda>x. False) 3 2 (waits q1)" by (simp add: q1 spec_first_def)
  ultimately show ?thesis using q1(3) 2 by blast
qed

text \<open>
  C24. \<open>get_ready_timers\<close> always returns; it hands out the operations of exactly the timers that are not later
  than now, in the order of their times, each once, and leaves the other timers as they were.
\<close>

theorem get_ready_timers_due:
  assumes "tq_inv q"
  shows "\<exists>ts q'. get_ready_timers now ops q = Some (q', ops @ concat (map (ops_of (waits q)) ts)) \<and> distinct ts
    \<and> set ts = due now (waits q) \<and> sorted (map (time_of (waits q)) ts) \<and> tq_inv q' \<and> waits q' = waits q |` (- set ts)"
  using tq.ready_law [OF assms, of now ops] unfolding due_list_def by blast

theorem get_ready_timers_due_witness:
  "\<exists>q1 q2. waits q1 = [1 :: nat \<mapsto> (Some (5 :: int), [\<lparr>wt_handler = CHR ''h'', wt_ec = None\<rparr>])]
     \<and> get_ready_timers 6 [] q1 = Some (q2, [\<lparr>wt_handler = CHR ''h'', wt_ec = None\<rparr>]) \<and> waits q2 = Map.empty"
proof -
  obtain q1 where q1: "tq_inv q1" "waits q1 = [1 :: nat \<mapsto> (Some (5 :: int), [\<lparr>wt_handler = CHR ''h'', wt_ec = None\<rparr>])]"
    using one_timer by blast
  from get_ready_timers_due [OF q1(1), of 6 "[]"] obtain ts q2 where r:
    "get_ready_timers 6 [] q1 = Some (q2, concat (map (ops_of (waits q1)) ts))" "distinct ts" "set ts = due 6 (waits q1)"
    "waits q2 = waits q1 |` (- set ts)" by auto
  have d: "due 6 (waits q1) = {1}" by (auto simp: due_def q1 split: if_splits)
  have "card (set ts) = 1" by (simp add: r(3) d)
  then have "length ts = 1" using distinct_card [OF r(2)] by simp
  then have ts: "ts = [1]" using r(3) d by (cases ts) simp_all
  have "concat (map (ops_of (waits q1)) ts) = [\<lparr>wt_handler = CHR ''h'', wt_ec = None\<rparr>]" by (simp add: ts ops_of_def q1(2))
  moreover have "waits q2 = Map.empty" unfolding r(4) ts q1(2) by (simp add: restrict_map_def fun_eq_iff)
  ultimately show ?thesis using r(1) q1(2) by metis
qed

text \<open>
  Cancelling a timer moves the first of its operations, at most the given number, to the result with the
  error \<open>operation_aborted\<close>; the timer stays active exactly when operations remain.
\<close>

theorem cancel_timer_refines:
  assumes "tq_inv q" and "cancel_timer max_cancelled t ops q = (q', ops', n)"
  shows "tq_inv q' \<and> (\<exists>out. ops' = ops @ out \<and> spec_cancel max_cancelled t (waits q) = (waits q', out, n))"
  using tq.cancel_law [OF assms] by blast

theorem cancel_timer_refines_witness:
  "\<exists>q1 q2. waits q1 = [1 :: nat \<mapsto> (Some (5 :: int), [\<lparr>wt_handler = CHR ''h'', wt_ec = None\<rparr>])]
     \<and> cancel_timer 3 1 [] q1 = (q2, [\<lparr>wt_handler = CHR ''h'', wt_ec = Some OperationAborted\<rparr>], 1) \<and> waits q2 = Map.empty"
proof -
  obtain q1 where q1: "tq_inv q1" "waits q1 = [1 :: nat \<mapsto> (Some (5 :: int), [\<lparr>wt_handler = CHR ''h'', wt_ec = None\<rparr>])]"
    using one_timer by blast
  obtain q2 out n where c: "cancel_timer 3 1 [] q1 = (q2, out, n)" using prod_cases3 by blast
  have "spec_cancel 3 1 (waits q1) = (waits q2, out, n)" using cancel_timer_refines [OF q1(1) c] by simp
  then have "waits q2 = Map.empty" "out = [\<lparr>wt_handler = CHR ''h'', wt_ec = Some OperationAborted\<rparr>]" "n = 1"
    by (auto simp: spec_cancel_def q1 aborted_def Let_def)
  with c q1(2) show ?thesis by blast
qed

text \<open>
  C25. Whatever the order of calls, every handler that was given to the timers has been handed out once or is
  still waiting: none is lost, none is handed out twice.
\<close>

theorem timer_handlers_once:
  assumes "length (enqueued cs) \<le> SIZE_MAX"
  shows "\<exists>q out. run_calls (enqueue_timer is_inf) get_ready_timers get_all_timers cancel_timer cs (new_queue g) [] = Some (q, out)
    \<and> tq_inv q \<and> mset (enqueued cs) = waiting_handlers (waits q) + mset (map wt_handler out)"
proof -
  have "length (tq_heap (new_queue g)) + length (enqueued cs) \<le> SIZE_MAX" using assms by (simp add: new_queue_def)
  from tq.calls_conserve [OF new_queue_inv(1) this, of is_inf "[]"] show ?thesis
    by (simp add: new_queue_inv waiting_handlers_def) metis
qed

theorem timer_handlers_once_witness:
  "\<exists>q out. run_calls (enqueue_timer (\<lambda>x. False)) get_ready_timers get_all_timers cancel_timer
      [Enqueue (5 :: int) (1 :: nat) CHR ''a'', Enqueue 7 2 CHR ''b'', Ready 6, Cancel 1 2] (new_queue (\<lambda>t. 0)) [] = Some (q, out)
    \<and> {#CHR ''a'', CHR ''b''#} = waiting_handlers (waits q) + mset (map wt_handler out)"
proof -
  let ?cs = "[Enqueue (5 :: int) (1 :: nat) CHR ''a'', Enqueue 7 2 CHR ''b'', Ready 6, Cancel 1 2]"
  have "length (enqueued ?cs) \<le> SIZE_MAX" by (simp add: SIZE_MAX_def)
  note r = timer_handlers_once [OF this, of "\<lambda>x. False" "\<lambda>t. 0"]
  have "mset (enqueued ?cs) = {#CHR ''a'', CHR ''b''#}" by simp
  with r show ?thesis by metis
qed

end
