(* ===== verification/Asio_Timer_Set.thy ===== *)
theory Asio_Timer_Set
  imports Asio_Timers
begin

text \<open>
  How long a reactor may sleep until the next timer (timer_queue.hpp), and the set of the timer queues of a
  reactor (src/asio/include/asio/detail/impl/timer_queue_set.ipp), a list linked through the queues themselves; the
  links are a store as for \<open>Asio_Op_Queue\<close>. The time until an expiry is given by the clock: its ticks, and the
  whole milliseconds and microseconds in it.
\<close>

subsection \<open>Waiting times\<close>

record duration =
  du_ticks :: int
  du_msec :: int
  du_usec :: int

definition to_msec :: "duration \<Rightarrow> int \<Rightarrow> int" where
  "to_msec d max_duration =
     (if du_ticks d \<le> 0 then 0
      else let msec = du_msec d
           in if msec = 0 then 1 else if msec > max_duration then max_duration else msec)"

definition to_usec :: "duration \<Rightarrow> int \<Rightarrow> int" where
  "to_usec d max_duration =
     (if du_ticks d \<le> 0 then 0
      else let usec = du_usec d
           in if usec = 0 then 1 else if usec > max_duration then max_duration else usec)"

text \<open>\<open>until time\<close>: \<open>to_posix_duration(subtract(time, now()))\<close>.\<close>

definition wait_duration_msec :: "('tm \<Rightarrow> duration) \<Rightarrow> int \<Rightarrow> ('tm, 't, 'h) timer_queue \<Rightarrow> int" where
  "wait_duration_msec until max_duration q =
     (if tq_heap q = [] then max_duration else to_msec (until (fst (tq_heap q ! 0))) max_duration)"

definition wait_duration_usec :: "('tm \<Rightarrow> duration) \<Rightarrow> int \<Rightarrow> ('tm, 't, 'h) timer_queue \<Rightarrow> int" where
  "wait_duration_usec until max_duration q =
     (if tq_heap q = [] then max_duration else to_usec (until (fst (tq_heap q ! 0))) max_duration)"

subsection \<open>The set of queues\<close>

record 'q queue_set =
  qs_first :: "'q option"
  qs_next :: "'q links"

definition set_insert :: "'q \<Rightarrow> 'q queue_set \<Rightarrow> 'q queue_set" where
  "set_insert q s = s\<lparr>qs_next := (qs_next s)(q := qs_first s), qs_first := Some q\<rparr>"

partial_function (option) set_erase_loop :: "'q \<Rightarrow> 'q \<Rightarrow> 'q queue_set \<Rightarrow> 'q queue_set option" where
  "set_erase_loop q p s =
     (case qs_next s p of
        None \<Rightarrow> Some s
      | Some r \<Rightarrow>
          if r = q then Some (s\<lparr>qs_next := ((qs_next s)(p := qs_next s q))(q := None)\<rparr>)
          else set_erase_loop q r s)"

definition set_erase :: "'q \<Rightarrow> 'q queue_set \<Rightarrow> 'q queue_set option" where
  "set_erase q s =
     (case qs_first s of
        None \<Rightarrow> Some s
      | Some f \<Rightarrow>
          if q = f then Some (s\<lparr>qs_first := qs_next s q, qs_next := (qs_next s)(q := None)\<rparr>)
          else set_erase_loop q f s)"

type_synonym ('q, 'tm, 't, 'h) queues = "'q \<Rightarrow> ('tm, 't, 'h) timer_queue"

partial_function (option) all_empty_loop :: "('q, 'tm, 't, 'h) queues \<Rightarrow> 'q links \<Rightarrow> 'q option \<Rightarrow> bool option" where
  "all_empty_loop Q nx p =
     (case p of
        None \<Rightarrow> Some True
      | Some q \<Rightarrow> if \<not> queue_empty (Q q) then Some False else all_empty_loop Q nx (nx q))"

definition all_empty :: "('q, 'tm, 't, 'h) queues \<Rightarrow> 'q queue_set \<Rightarrow> bool option" where
  "all_empty Q s = all_empty_loop Q (qs_next s) (qs_first s)"

text \<open>The two loops over the waiting times differ only in the virtual function they call.\<close>

partial_function (option) set_wait_loop :: "(int \<Rightarrow> 'q \<Rightarrow> int) \<Rightarrow> 'q links \<Rightarrow> int \<Rightarrow> 'q option \<Rightarrow> int option" where
  "set_wait_loop wait nx min_duration p =
     (case p of
        None \<Rightarrow> Some min_duration
      | Some q \<Rightarrow> set_wait_loop wait nx (wait min_duration q) (nx q))"

definition set_wait_duration_msec ::
  "('q \<Rightarrow> 'tm \<Rightarrow> duration) \<Rightarrow> ('q, 'tm, 't, 'h) queues \<Rightarrow> int \<Rightarrow> 'q queue_set \<Rightarrow> int option" where
  "set_wait_duration_msec until Q max_duration s =
     set_wait_loop (\<lambda>m q. wait_duration_msec (until q) m (Q q)) (qs_next s) max_duration (qs_first s)"

definition set_wait_duration_usec ::
  "('q \<Rightarrow> 'tm \<Rightarrow> duration) \<Rightarrow> ('q, 'tm, 't, 'h) queues \<Rightarrow> int \<Rightarrow> 'q queue_set \<Rightarrow> int option" where
  "set_wait_duration_usec until Q max_duration s =
     set_wait_loop (\<lambda>m q. wait_duration_usec (until q) m (Q q)) (qs_next s) max_duration (qs_first s)"

text \<open>So do the two loops that dequeue operations; each queue has a clock of its own.\<close>

partial_function (option) set_dequeue_loop ::
  "('q \<Rightarrow> 'h wait_op list \<Rightarrow> ('tm, 't, 'h) timer_queue \<Rightarrow> (('tm, 't, 'h) timer_queue \<times> 'h wait_op list) option)
    \<Rightarrow> 'q links \<Rightarrow> ('q, 'tm, 't, 'h) queues \<Rightarrow> 'h wait_op list \<Rightarrow> 'q option
    \<Rightarrow> (('q, 'tm, 't, 'h) queues \<times> 'h wait_op list) option" where
  "set_dequeue_loop dequeue nx Q ops p =
     (case p of
        None \<Rightarrow> Some (Q, ops)
      | Some q \<Rightarrow>
          (case dequeue q ops (Q q) of
             None \<Rightarrow> None
           | Some (q', ops) \<Rightarrow> set_dequeue_loop dequeue nx (Q(q := q')) ops (nx q)))"

definition set_get_ready_timers ::
  "('q \<Rightarrow> 'tm :: linorder) \<Rightarrow> ('q, 'tm, 't, 'h) queues \<Rightarrow> 'h wait_op list \<Rightarrow> 'q queue_set
    \<Rightarrow> (('q, 'tm, 't, 'h) queues \<times> 'h wait_op list) option" where
  "set_get_ready_timers now Q ops s = set_dequeue_loop (\<lambda>q. get_ready_timers (now q)) (qs_next s) Q ops (qs_first s)"

definition set_get_all_timers ::
  "('q, 'tm, 't, 'h) queues \<Rightarrow> 'h wait_op list \<Rightarrow> 'q queue_set \<Rightarrow> (('q, 'tm, 't, 'h) queues \<times> 'h wait_op list) option" where
  "set_get_all_timers Q ops s = set_dequeue_loop (\<lambda>q. get_all_timers) (qs_next s) Q ops (qs_first s)"

subsection \<open>The members of the set\<close>

definition members :: "'q queue_set \<Rightarrow> 'q list \<Rightarrow> bool" where
  "members s qs \<longleftrightarrow> chain (qs_next s) (qs_first s) qs \<and> distinct qs"

lemma set_insert_members: "members s qs \<Longrightarrow> q \<notin> set qs \<Longrightarrow> members (set_insert q s) (q # qs)"
  by (simp add: members_def set_insert_def chain_update)

lemma set_erase_loop_spec:
  "chain (qs_next s) (qs_next s p) qs \<Longrightarrow> distinct (p # qs) \<Longrightarrow> q \<noteq> p \<Longrightarrow>
     \<exists>nx. set_erase_loop q p s = Some (s\<lparr>qs_next := nx\<rparr>) \<and> chain nx (nx p) (remove1 q qs)
       \<and> (\<forall>x. x = p \<or> x \<in> set qs \<or> nx x = qs_next s x)"
proof (induction qs arbitrary: p)
  case Nil
  then show ?case by (subst set_erase_loop.simps) (auto intro: exI [where x = "qs_next s"])
next
  case (Cons r qs)
  then have r: "qs_next s p = Some r" "chain (qs_next s) (qs_next s r) qs" by simp_all
  show ?case
  proof (cases "r = q")
    case True
    let ?nx = "((qs_next s)(p := qs_next s q))(q := None)"
    have "chain ?nx (qs_next s q) qs" using r Cons.prems True by (simp add: chain_update)
    then show ?thesis using r Cons.prems True by (subst set_erase_loop.simps) (auto intro!: exI [where x = ?nx])
  next
    case False
    then obtain nx where nx: "set_erase_loop q r s = Some (s\<lparr>qs_next := nx\<rparr>)" "chain nx (nx r) (remove1 q qs)"
      "\<forall>x. x = r \<or> x \<in> set qs \<or> nx x = qs_next s x" using Cons.IH [OF r(2)] Cons.prems by auto
    have "set_erase_loop q p s = set_erase_loop q r s" using r False by (subst set_erase_loop.simps) simp
    moreover have "nx p = Some r" using spec [OF nx(3), of p] Cons.prems(2) r(1) by auto
    then have "chain nx (nx p) (remove1 q (r # qs))" using nx(2) False by simp
    moreover have "\<forall>x. x = p \<or> x \<in> set (r # qs) \<or> nx x = qs_next s x" using nx(3) by auto
    ultimately show ?thesis using nx(1) by metis
  qed
qed

text \<open>
  A queue that is inserted becomes a member of the set, and erasing takes out exactly the given queue,
  whether it is a member or not, and returns for every list of members.
\<close>

theorem queue_set_refines:
  assumes "members s qs"
  shows "(\<exists>s'. set_erase q s = Some s' \<and> members s' (remove1 q qs)) \<and> (q \<in> set qs \<or> members (set_insert q s) (q # qs))"
proof (intro conjI)
  show "q \<in> set qs \<or> members (set_insert q s) (q # qs)" using set_insert_members [OF assms, of q] by blast
  show "\<exists>s'. set_erase q s = Some s' \<and> members s' (remove1 q qs)"
  proof (cases qs)
    case Nil
    then show ?thesis using assms by (simp add: set_erase_def members_def)
  next
    case (Cons f qs')
    then have c: "qs_first s = Some f" "chain (qs_next s) (qs_next s f) qs'" "distinct (f # qs')"
      using assms by (simp_all add: members_def)
    show ?thesis
    proof (cases "q = f")
      case True
      then show ?thesis using c Cons by (simp add: set_erase_def members_def chain_update)
    next
      case False
      obtain nx where nx: "set_erase_loop q f s = Some (s\<lparr>qs_next := nx\<rparr>)" "chain nx (nx f) (remove1 q qs')"
        using set_erase_loop_spec [OF c(2,3) False] by blast
      then show ?thesis using c False Cons by (auto simp: set_erase_def members_def)
    qed
  qed
qed

theorem queue_set_refines_witness:
  "\<exists>s'. set_erase 2 (set_insert 3 (set_insert (2 :: nat) (set_insert 1 \<lparr>qs_first = None, qs_next = \<lambda>q. None\<rparr>))) = Some s' \<and> members s' [3, 1]"
proof -
  let ?s = "set_insert 3 (set_insert (2 :: nat) (set_insert 1 \<lparr>qs_first = None, qs_next = \<lambda>q. None\<rparr>))"
  have "members ?s [3, 2, 1]" by (simp add: members_def set_insert_def)
  from queue_set_refines [OF this, of 2] show ?thesis by simp
qed

subsection \<open>All queues of the set\<close>

lemma all_empty_loop_spec: "chain nx p qs \<Longrightarrow> all_empty_loop Q nx p = Some (\<forall>q \<in> set qs. queue_empty (Q q))"
  by (induction qs arbitrary: p) (subst all_empty_loop.simps, simp)+

lemma all_empty_spec: "members s qs \<Longrightarrow> all_empty Q s = Some (\<forall>q \<in> set qs. queue_empty (Q q))"
  by (simp add: members_def all_empty_def all_empty_loop_spec)

lemma set_wait_loop_spec: "chain nx p qs \<Longrightarrow> set_wait_loop wait nx m p = Some (foldl wait m qs)"
  by (induction qs arbitrary: m p) (subst set_wait_loop.simps, simp)+

lemma set_wait_duration_msec_spec:
  "members s qs \<Longrightarrow> set_wait_duration_msec until Q m s = Some (foldl (\<lambda>m q. wait_duration_msec (until q) m (Q q)) m qs)"
  by (simp add: members_def set_wait_duration_msec_def set_wait_loop_spec)

text \<open>What the set hands out: \<open>ts q\<close> are the timers of the queue \<open>q\<close>, in the order in which they come.\<close>

definition handed_out :: "('q, 'tm, 't, 'h) queues \<Rightarrow> ('q \<Rightarrow> 't list) \<Rightarrow> 'q list \<Rightarrow> 'h wait_op list" where
  "handed_out Q ts qs = concat (map (\<lambda>q. concat (map (ops_of (waits (Q q))) (ts q))) qs)"

lemma handed_out_cong:
  "(\<And>q. q \<in> set qs \<Longrightarrow> Q q = Q' q \<and> ts q = ts' q) \<Longrightarrow> handed_out Q ts qs = handed_out Q' ts' qs"
  unfolding handed_out_def by (rule arg_cong [where f = concat]) simp

lemma set_dequeue_loop_spec:
  assumes law: "\<And>q x ops. tq_inv x \<Longrightarrow> \<exists>ts x'. dequeue q ops x = Some (x', ops @ concat (map (ops_of (waits x)) ts))
    \<and> tq_inv x' \<and> P q (waits x) ts (waits x')"
  shows "chain nx p qs \<Longrightarrow> distinct qs \<Longrightarrow> \<forall>q \<in> set qs. tq_inv (Q q) \<Longrightarrow>
     \<exists>ts Q'. set_dequeue_loop dequeue nx Q ops p = Some (Q', ops @ handed_out Q ts qs)
       \<and> (\<forall>q \<in> set qs. tq_inv (Q' q) \<and> P q (waits (Q q)) (ts q) (waits (Q' q))) \<and> (\<forall>q. q \<in> set qs \<or> Q' q = Q q)"
proof (induction qs arbitrary: Q ops p)
  case Nil
  then show ?case by (subst set_dequeue_loop.simps) (auto simp: handed_out_def)
next
  case (Cons q qs)
  then have p: "p = Some q" "chain nx (nx q) qs" "q \<notin> set qs" "distinct qs" "tq_inv (Q q)" by simp_all
  from law [OF p(5), of q ops] obtain t0 q' where
    r: "dequeue q ops (Q q) = Some (q', ops @ concat (map (ops_of (waits (Q q))) t0))" "tq_inv q'" "P q (waits (Q q)) t0 (waits q')"
    by blast
  define Q1 where "Q1 = Q(q := q')"
  define ops1 where "ops1 = ops @ concat (map (ops_of (waits (Q q))) t0)"
  have Q1: "Q1 q = q'" "\<And>x. x \<in> set qs \<Longrightarrow> Q1 x = Q x" using p(3) by (auto simp: Q1_def)
  have "\<forall>x \<in> set qs. tq_inv (Q1 x)" using Cons.prems Q1(2) by simp
  from Cons.IH [OF p(2,4) this, of ops1] obtain ts Q' where
    IH: "set_dequeue_loop dequeue nx Q1 ops1 (nx q) = Some (Q', ops1 @ handed_out Q1 ts qs)"
      "\<forall>x \<in> set qs. tq_inv (Q' x) \<and> P x (waits (Q1 x)) (ts x) (waits (Q' x))" "\<forall>x. x \<in> set qs \<or> Q' x = Q1 x" by blast
  define ts' where "ts' = ts(q := t0)"
  have ts': "ts' q = t0" "\<And>x. x \<in> set qs \<Longrightarrow> ts' x = ts x" using p(3) by (auto simp: ts'_def)
  have "handed_out Q1 ts qs = handed_out Q ts' qs" by (rule handed_out_cong) (use Q1(2) ts'(2) in simp)
  then have "ops1 @ handed_out Q1 ts qs = ops @ handed_out Q ts' (q # qs)" by (simp add: handed_out_def ops1_def ts'(1))
  moreover have "set_dequeue_loop dequeue nx Q ops p = set_dequeue_loop dequeue nx Q1 ops1 (nx q)"
    using p(1) r(1) by (subst set_dequeue_loop.simps) (simp add: Q1_def ops1_def)
  ultimately have "set_dequeue_loop dequeue nx Q ops p = Some (Q', ops @ handed_out Q ts' (q # qs))" using IH(1) by simp
  moreover have "Q' q = q'" using spec [OF IH(3), of q] p(3) Q1(1) by simp
  then have "\<forall>x \<in> set (q # qs). tq_inv (Q' x) \<and> P x (waits (Q x)) (ts' x) (waits (Q' x))" using IH(2) r(2,3) Q1(2) ts' by simp
  moreover have "x \<in> set (q # qs) \<or> Q' x = Q x" for x using spec [OF IH(3), of x] by (auto simp: Q1_def)
  ultimately show ?case by blast
qed

lemma set_get_all_spec:
  assumes "members s qs" and "\<forall>q \<in> set qs. tq_inv (Q q)"
  shows "\<exists>ts Q'. set_get_all_timers Q ops s = Some (Q', ops @ handed_out Q ts qs)
     \<and> (\<forall>q \<in> set qs. tq_inv (Q' q) \<and> distinct (ts q) \<and> set (ts q) = dom (waits (Q q)) \<and> waits (Q' q) = Map.empty)
     \<and> (\<forall>q. q \<in> set qs \<or> Q' q = Q q)"
  unfolding set_get_all_timers_def
  by (rule set_dequeue_loop_spec [where P = "\<lambda>q w ts w'. distinct ts \<and> set ts = dom w \<and> w' = Map.empty"])
    (use assms tq.everything_law in \<open>(fastforce simp: members_def)+\<close>)

lemma set_get_ready_spec:
  assumes "members s qs" and "\<forall>q \<in> set qs. tq_inv (Q q)"
  shows "\<exists>ts Q'. set_get_ready_timers now Q ops s = Some (Q', ops @ handed_out Q ts qs)
     \<and> (\<forall>q \<in> set qs. tq_inv (Q' q) \<and> due_list (now q) (waits (Q q)) (ts q) \<and> waits (Q' q) = waits (Q q) |` (- set (ts q)))
     \<and> (\<forall>q. q \<in> set qs \<or> Q' q = Q q)"
  unfolding set_get_ready_timers_def
  by (rule set_dequeue_loop_spec [where P = "\<lambda>q w ts w'. due_list (now q) w ts \<and> w' = w |` (- set ts)"])
    (use assms tq.ready_law in \<open>(fastforce simp: members_def)+\<close>)

lemma wait_step:
  fixes q :: "('tm, 't, 'h) timer_queue"
  assumes "0 \<le> m" "m \<le> max_duration" and sane: "\<And>t. 0 < du_ticks (until t) \<Longrightarrow> 0 \<le> du_msec (until t)"
  defines "m' \<equiv> wait_duration_msec until m q" and "w \<equiv> wait_duration_msec until max_duration q"
  shows "0 \<le> m' \<and> 0 \<le> w \<and> m' \<le> w \<and> (m' = m \<or> m' = w) \<and> (m' \<le> m \<or> m = 0 \<and> m' = 1)"
  using assms(1,2) sane [of "fst (tq_heap q ! 0)"]
  by (auto simp: m'_def w_def wait_duration_msec_def to_msec_def Let_def)

lemma wait_fold:
  fixes Q :: "('q, 'tm, 't, 'h) queues" and max_duration :: int
  assumes sane: "\<And>q t. 0 < du_ticks (until q t) \<Longrightarrow> 0 \<le> du_msec (until q t)"
  defines "w \<equiv> \<lambda>q. wait_duration_msec (until q) max_duration (Q q)"
  shows "0 \<le> m \<Longrightarrow> m \<le> max_duration \<Longrightarrow> 1 \<le> max_duration
    \<Longrightarrow> r = foldl (\<lambda>m q. wait_duration_msec (until q) m (Q q)) m qs
    \<Longrightarrow> (r = m \<or> (\<exists>q \<in> set qs. r = w q)) \<and> (\<forall>q \<in> set qs. r \<le> w q \<or> w q = 0 \<and> r = 1) \<and> (r \<le> m \<or> m = 0 \<and> r = 1)"
proof (induction qs arbitrary: m)
  case (Cons q qs)
  define m' where "m' = wait_duration_msec (until q) m (Q q)"
  have s: "0 \<le> m' \<and> 0 \<le> w q \<and> m' \<le> w q \<and> (m' = m \<or> m' = w q) \<and> (m' \<le> m \<or> m = 0 \<and> m' = 1)"
    unfolding m'_def w_def by (rule wait_step) (use Cons.prems sane in auto)
  have "m' \<le> max_duration" using s Cons.prems(1-3) by auto
  from Cons.IH [OF _ this Cons.prems(3)] s Cons.prems(4)
  have IH: "(r = m' \<or> (\<exists>q \<in> set qs. r = w q)) \<and> (\<forall>q \<in> set qs. r \<le> w q \<or> w q = 0 \<and> r = 1) \<and> (r \<le> m' \<or> m' = 0 \<and> r = 1)"
    by (simp add: m'_def)
  then have "r = m \<or> (\<exists>q \<in> set (q # qs). r = w q)" using s by auto
  moreover have "r \<le> w q \<or> w q = 0 \<and> r = 1" using IH s by linarith
  moreover have "r \<le> m \<or> m = 0 \<and> r = 1" using IH s Cons.prems(1) by linarith
  ultimately show ?case using IH by simp
qed simp

text \<open>
  C32. The waiting time of a set is that of one of its queues, or the given bound, and not greater than that of
  any queue, with one exception: it can be 1 although a queue has an expired timer and answers 0, because a later
  queue whose first timer comes in less than a millisecond answers 1 whatever bound it is given. The reactor then
  sleeps for a millisecond.
\<close>

theorem set_wait_least:
  assumes "members s qs" and "1 \<le> max_duration" and "\<And>q t. 0 < du_ticks (until q t) \<Longrightarrow> 0 \<le> du_msec (until q t)"
  shows "\<exists>r. set_wait_duration_msec until Q max_duration s = Some r
    \<and> (r = max_duration \<or> (\<exists>q \<in> set qs. r = wait_duration_msec (until q) max_duration (Q q)))
    \<and> (\<forall>q \<in> set qs. r \<le> wait_duration_msec (until q) max_duration (Q q)
         \<or> wait_duration_msec (until q) max_duration (Q q) = 0 \<and> r = 1)"
  using wait_fold [of until max_duration max_duration _ Q qs, OF assms(3) _ order_refl assms(2) refl] assms(2)
  by (simp add: set_wait_duration_msec_spec [OF assms(1)])

text \<open>The exception: a timer that has expired in the first queue, one that expires in half a millisecond in the second.\<close>

theorem set_wait_least_witness:
  "let s = \<lparr>qs_first = Some (0 :: nat), qs_next = (\<lambda>q. None)(0 := Some 1)\<rparr>;
       until = (\<lambda>(q :: nat) t :: int. \<lparr>du_ticks = t, du_msec = (if t < 1000 then 0 else 1), du_usec = t\<rparr>);
       Q = (\<lambda>q. \<lparr>tq_timers = Some (), tq_heap = [(if q = 0 then -3 else 500, ())], tq_data = (\<lambda>t. new_timer 0 :: (unit, unit) per_timer_data)\<rparr>)
   in (\<exists>r. set_wait_duration_msec until Q 300000 s = Some r \<and> (r \<le> wait_duration_msec (until 0) 300000 (Q 0) \<or> r = 1))
      \<and> set_wait_duration_msec until Q 300000 s = Some 1 \<and> wait_duration_msec (until 0) 300000 (Q 0) = 0"
proof -
  let ?s = "\<lparr>qs_first = Some (0 :: nat), qs_next = (\<lambda>q. None)(0 := Some 1)\<rparr>"
  let ?until = "\<lambda>(q :: nat) t :: int. \<lparr>du_ticks = t, du_msec = (if t < 1000 then 0 else 1), du_usec = t\<rparr>"
  let ?Q = "\<lambda>q :: nat. \<lparr>tq_timers = Some (), tq_heap = [(if q = 0 then -3 else 500 :: int, ())],
    tq_data = (\<lambda>t. new_timer 0 :: (unit, unit) per_timer_data)\<rparr>"
  have m: "members ?s [0, 1]" by (simp add: members_def)
  have "\<exists>r. set_wait_duration_msec ?until ?Q 300000 ?s = Some r
    \<and> (r = 300000 \<or> (\<exists>q \<in> set [0, 1]. r = wait_duration_msec (?until q) 300000 (?Q q)))
    \<and> (\<forall>q \<in> set [0, 1]. r \<le> wait_duration_msec (?until q) 300000 (?Q q)
         \<or> wait_duration_msec (?until q) 300000 (?Q q) = 0 \<and> r = 1)"
    by (rule set_wait_least [OF m]) simp_all
  moreover have "set_wait_duration_msec ?until ?Q 300000 ?s = Some 1"
    unfolding set_wait_duration_msec_spec [OF m] by (simp add: wait_duration_msec_def to_msec_def)
  moreover have "wait_duration_msec (?until 0) 300000 (?Q 0) = 0" by (simp add: wait_duration_msec_def to_msec_def)
  ultimately show ?thesis unfolding Let_def by auto
qed

text \<open>
  Both ways of dequeueing always return and visit every queue of the set once, in the order of the set: the
  due timers of each queue by its own clock, or all of its timers.
\<close>

theorem set_dequeue_all_queues:
  assumes "members s qs" and "\<forall>q \<in> set qs. tq_inv (Q q)"
  shows "(\<exists>ts Q'. set_get_ready_timers now Q ops s = Some (Q', ops @ handed_out Q ts qs)
     \<and> (\<forall>q \<in> set qs. tq_inv (Q' q) \<and> due_list (now q) (waits (Q q)) (ts q) \<and> waits (Q' q) = waits (Q q) |` (- set (ts q))))
   \<and> (\<exists>ts Q'. set_get_all_timers Q ops s = Some (Q', ops @ handed_out Q ts qs)
     \<and> (\<forall>q \<in> set qs. tq_inv (Q' q) \<and> distinct (ts q) \<and> set (ts q) = dom (waits (Q q)) \<and> waits (Q' q) = Map.empty))"
  using set_get_ready_spec [OF assms, of now ops] set_get_all_spec [OF assms, of ops] by blast

theorem set_dequeue_all_queues_witness:
  "\<exists>Q' (Q :: (nat, int, nat, char) queues). waits (Q 0) = [1 \<mapsto> (Some 5, [\<lparr>wt_handler = CHR ''h'', wt_ec = None\<rparr>])]
     \<and> set_get_all_timers Q [] \<lparr>qs_first = Some 0, qs_next = \<lambda>q. None\<rparr> = Some (Q', [\<lparr>wt_handler = CHR ''h'', wt_ec = None\<rparr>])
     \<and> waits (Q' 0) = Map.empty"
proof -
  obtain q1 where q1: "tq_inv q1" "waits q1 = [1 :: nat \<mapsto> (Some (5 :: int), [\<lparr>wt_handler = CHR ''h'', wt_ec = None\<rparr>])]"
    using one_timer by blast
  let ?s = "\<lparr>qs_first = Some (0 :: nat), qs_next = \<lambda>q. None\<rparr>"
  let ?Q = "(\<lambda>q. q1) :: (nat, int, nat, char) queues"
  have m: "members ?s [0]" by (simp add: members_def)
  have "\<forall>q \<in> set [0]. tq_inv (?Q q)" using q1(1) by simp
  from set_dequeue_all_queues [OF m this, of "\<lambda>q. 0" "[]"] obtain ts Q' where
    r: "set_get_all_timers ?Q [] ?s = Some (Q', handed_out ?Q ts [0])" "distinct (ts 0)" "set (ts 0) = {1}" "waits (Q' 0) = Map.empty"
    by (auto simp: q1(2))
  have "length (ts 0) = 1" using distinct_card [OF r(2)] by (simp add: r(3))
  then have "ts 0 = [1]" using r(3) by (cases "ts 0") simp_all
  then have "handed_out ?Q ts [0] = [\<lparr>wt_handler = CHR ''h'', wt_ec = None\<rparr>]" by (simp add: handed_out_def ops_of_def q1(2))
  with r q1(2) show ?thesis by (intro exI [where x = Q'] exI [where x = ?Q]) simp
qed

end
