(* ===== verification/Asio_Io_Service.thy ===== *)
theory Asio_Io_Service
  imports Prelude "HOL-Library.Multiset"
begin

text \<open>
  The event loop of src/asio/include/asio/detail/impl/task_io_service.ipp with its wakeup event
  (posix_event.hpp), for any finite number of threads that call \<open>run\<close>, \<open>run_one\<close>, \<open>poll\<close> and \<open>poll_one\<close>. The
  sections under the mutex are functions on the state; the threads interleave between them, as steps of a
  relation. The reactor is the task: what it does is complete operations it was given and return, and \<open>interrupt\<close>
  raises the event of its interrupter, which makes a wait for events return. Queues are lists (\<open>Asio_Op_Queue\<close>).

  A call of the loop from inside one of its handlers is not modelled, nor are the operations by which the reactor hands
  over a descriptor's events, which do not count as work: they are part of the task.
\<close>

subsection \<open>The state\<close>

datatype 'h item = Task | Op 'h

datatype run_mode = Run | Run_one | Poll | Poll_one

text \<open>
  Where a thread is: outside; at the head of its loop; in \<open>pthread_cond_wait\<close>, or unblocked there and waiting for
  the mutex; in the task, which may block or not; in a handler.
\<close>

datatype 'h thread_pc = Idle | Looping | Sleeping | Notified | In_task bool | In_handler 'h

record 'h thread_info =
  th_pc :: "'h thread_pc"
  th_mode :: run_mode
  th_queue :: "'h list"
  th_work :: nat

text \<open>
  \<open>ev_signalled\<close> and \<open>ev_waiters\<close> are the lowest bit and the rest of \<open>state_\<close> of the event. \<open>io_signal\<close>: the reactor's
  interrupter is reported by the next \<open>epoll_wait\<close>; \<open>io_interrupted\<close> is only the flag \<open>task_interrupted_\<close> of
  the loop. The last four components are not in the code: the operations with the reactor, the work objects of the program, the handlers accepted and started.
\<close>

record 'h io_state =
  io_queue :: "'h item list"
  io_work :: int
  io_stopped :: bool
  io_shutdown :: bool
  io_task :: bool
  io_interrupted :: bool
  io_signal :: bool
  ev_signalled :: bool
  ev_waiters :: nat
  io_threads :: "nat \<Rightarrow> 'h thread_info"
  io_pending :: "'h multiset"
  io_users :: nat
  io_accepted :: "'h multiset"
  io_started :: "'h multiset"

definition new_thread :: "'h thread_info" where
  "new_thread = \<lparr>th_pc = Idle, th_mode = Run, th_queue = [], th_work = 0\<rparr>"

definition new_io_service :: "'h io_state" where
  "new_io_service = \<lparr>io_queue = [], io_work = 0, io_stopped = False, io_shutdown = False, io_task = False,
     io_interrupted = True, io_signal = False, ev_signalled = False, ev_waiters = 0, io_threads = (\<lambda>t. new_thread),
     io_pending = {#}, io_users = 0, io_accepted = {#}, io_started = {#}\<rparr>"

abbreviation pc :: "'h io_state \<Rightarrow> nat \<Rightarrow> 'h thread_pc" where
  "pc s t \<equiv> th_pc (io_threads s t)"

definition on_thread :: "nat \<Rightarrow> ('h thread_info \<Rightarrow> 'h thread_info) \<Rightarrow> 'h io_state \<Rightarrow> 'h io_state" where
  "on_thread t f s = s\<lparr>io_threads := (io_threads s)(t := f (io_threads s t))\<rparr>"

definition set_pc :: "nat \<Rightarrow> 'h thread_pc \<Rightarrow> 'h io_state \<Rightarrow> 'h io_state" where
  "set_pc t p = on_thread t (\<lambda>th. th\<lparr>th_pc := p\<rparr>)"

subsection \<open>The event\<close>

text \<open>\<open>pthread_cond_signal\<close> unblocks one blocked thread, \<open>u\<close>, if there is any.\<close>

definition may_wake :: "nat option \<Rightarrow> 'h io_state \<Rightarrow> bool" where
  "may_wake u s \<longleftrightarrow> (case u of Some t \<Rightarrow> pc s t = Sleeping | None \<Rightarrow> \<forall>t. pc s t \<noteq> Sleeping)"

definition cond_signal :: "nat option \<Rightarrow> 'h io_state \<Rightarrow> 'h io_state" where
  "cond_signal u s = (case u of Some t \<Rightarrow> set_pc t Notified s | None \<Rightarrow> s)"

definition cond_broadcast :: "'h io_state \<Rightarrow> 'h io_state" where
  "cond_broadcast s = s\<lparr>io_threads := (\<lambda>t. if pc s t = Sleeping then (io_threads s t)\<lparr>th_pc := Notified\<rparr> else io_threads s t)\<rparr>"

definition signal_all :: "'h io_state \<Rightarrow> 'h io_state" where
  "signal_all s = cond_broadcast (s\<lparr>ev_signalled := True\<rparr>)"

definition unlock_and_signal_one :: "nat option \<Rightarrow> 'h io_state \<Rightarrow> 'h io_state" where
  "unlock_and_signal_one u s =
     (let s = s\<lparr>ev_signalled := True\<rparr> in if 0 < ev_waiters s then cond_signal u s else s)"

definition maybe_unlock_and_signal_one :: "nat option \<Rightarrow> 'h io_state \<Rightarrow> 'h io_state \<times> bool" where
  "maybe_unlock_and_signal_one u s =
     (let s = s\<lparr>ev_signalled := True\<rparr> in if 0 < ev_waiters s then (cond_signal u s, True) else (s, False))"

text \<open>\<open>clear\<close> followed by \<open>wait\<close>: the event is not signalled then, so that the thread blocks.\<close>

definition clear_and_wait :: "nat \<Rightarrow> 'h io_state \<Rightarrow> 'h io_state" where
  "clear_and_wait t s = set_pc t Sleeping (s\<lparr>ev_signalled := False, ev_waiters := ev_waiters s + 1\<rparr>)"

text \<open>The loop of \<open>wait\<close>, from the return of \<open>pthread_cond_wait\<close>.\<close>

definition wait_again :: "nat \<Rightarrow> 'h io_state \<Rightarrow> 'h io_state" where
  "wait_again t s =
     (if ev_signalled s then set_pc t Looping (s\<lparr>ev_waiters := ev_waiters s - 1\<rparr>) else set_pc t Sleeping s)"

subsection \<open>Waking and stopping\<close>

text \<open>\<open>epoll_reactor::interrupt\<close> re-arms the edge-triggered interrupter, which is always readable.\<close>

definition interrupt_reactor :: "'h io_state \<Rightarrow> 'h io_state" where
  "interrupt_reactor s = s\<lparr>io_signal := True\<rparr>"

definition interrupt_task :: "'h io_state \<Rightarrow> 'h io_state" where
  "interrupt_task s =
     (if \<not> io_interrupted s \<and> io_task s then interrupt_reactor (s\<lparr>io_interrupted := True\<rparr>) else s)"

definition wake_one_thread :: "nat option \<Rightarrow> 'h io_state \<Rightarrow> 'h io_state" where
  "wake_one_thread u s =
     (case maybe_unlock_and_signal_one u s of (s, woken) \<Rightarrow> if \<not> woken then interrupt_task s else s)"

definition stop_all_threads :: "'h io_state \<Rightarrow> 'h io_state" where
  "stop_all_threads s = interrupt_task (signal_all (s\<lparr>io_stopped := True\<rparr>))"

definition work_started :: "'h io_state \<Rightarrow> 'h io_state" where
  "work_started s = s\<lparr>io_work := io_work s + 1\<rparr>"

definition work_finished :: "'h io_state \<Rightarrow> 'h io_state" where
  "work_finished s =
     (let s = s\<lparr>io_work := io_work s - 1\<rparr> in if io_work s = 0 then stop_all_threads s else s)"

definition reset :: "'h io_state \<Rightarrow> 'h io_state" where
  "reset s = s\<lparr>io_stopped := False\<rparr>"

definition init_task :: "nat option \<Rightarrow> 'h io_state \<Rightarrow> 'h io_state" where
  "init_task u s =
     (if \<not> io_shutdown s \<and> \<not> io_task s
      then wake_one_thread u (s\<lparr>io_task := True, io_queue := io_queue s @ [Task]\<rparr>) else s)"

text \<open>\<open>shutdown_service\<close> destroys what is in the queue, and forgets the task.\<close>

definition shutdown_io_service :: "'h io_state \<Rightarrow> 'h io_state \<times> 'h list" where
  "shutdown_io_service s =
     (s\<lparr>io_shutdown := True, io_queue := [], io_task := False\<rparr>, List.map_filter (\<lambda>i. case i of Op h \<Rightarrow> Some h | Task \<Rightarrow> None) (io_queue s))"

subsection \<open>Requests\<close>

text \<open>\<open>thread_call_stack::contains\<close>: the caller is a thread that runs the loop.\<close>

definition contains :: "nat option \<Rightarrow> 'h io_state \<Rightarrow> bool" where
  "contains t s \<longleftrightarrow> (case t of Some t \<Rightarrow> pc s t \<noteq> Idle | None \<Rightarrow> False)"

definition push_private :: "nat \<Rightarrow> 'h list \<Rightarrow> 'h io_state \<Rightarrow> 'h io_state" where
  "push_private t hs = on_thread t (\<lambda>th. th\<lparr>th_queue := th_queue th @ hs\<rparr>)"

definition push_and_wake :: "nat option \<Rightarrow> 'h list \<Rightarrow> 'h io_state \<Rightarrow> 'h io_state" where
  "push_and_wake u hs s = wake_one_thread u (s\<lparr>io_queue := io_queue s @ map Op hs\<rparr>)"

definition post_immediate_completion ::
  "bool \<Rightarrow> bool \<Rightarrow> nat option \<Rightarrow> nat option \<Rightarrow> 'h \<Rightarrow> 'h io_state \<Rightarrow> 'h io_state" where
  "post_immediate_completion one_thread is_continuation t u h s =
     (if (one_thread \<or> is_continuation) \<and> contains t s
      then push_private (the t) [h] (on_thread (the t) (\<lambda>th. th\<lparr>th_work := th_work th + 1\<rparr>) s)
      else push_and_wake u [h] (work_started s))"

definition post_deferred_completion :: "bool \<Rightarrow> nat option \<Rightarrow> nat option \<Rightarrow> 'h \<Rightarrow> 'h io_state \<Rightarrow> 'h io_state" where
  "post_deferred_completion one_thread t u h s =
     (if one_thread \<and> contains t s then push_private (the t) [h] s else push_and_wake u [h] s)"

definition post_deferred_completions :: "bool \<Rightarrow> nat option \<Rightarrow> nat option \<Rightarrow> 'h list \<Rightarrow> 'h io_state \<Rightarrow> 'h io_state" where
  "post_deferred_completions one_thread t u hs s =
     (if hs = [] then s
      else if one_thread \<and> contains t s then push_private (the t) hs s else push_and_wake u hs s)"

text \<open>\<open>do_dispatch\<close>, for a caller that does not run the loop; in one that does, the handler is invoked at once.\<close>

definition do_dispatch_io :: "nat option \<Rightarrow> 'h \<Rightarrow> 'h io_state \<Rightarrow> 'h io_state" where
  "do_dispatch_io u h s = push_and_wake u [h] (work_started s)"

subsection \<open>The loop\<close>

text \<open>The entry of the four functions, and the return of a thread.\<close>

definition enter_loop :: "run_mode \<Rightarrow> nat \<Rightarrow> 'h io_state \<Rightarrow> 'h io_state" where
  "enter_loop m t s =
     (if io_work s = 0 then stop_all_threads s
      else on_thread t (\<lambda>th. \<lparr>th_pc = Looping, th_mode = m, th_queue = [], th_work = 0\<rparr>) s)"

text \<open>Taking the first handler: the rest of \<open>do_run_one\<close> and \<open>do_poll_one\<close> up to its invocation.\<close>

definition take_handler :: "bool \<Rightarrow> nat option \<Rightarrow> nat \<Rightarrow> 'h \<Rightarrow> 'h item list \<Rightarrow> 'h io_state \<Rightarrow> 'h io_state" where
  "take_handler one_thread u t h rest s =
     (let s = s\<lparr>io_queue := rest, io_started := add_mset h (io_started s)\<rparr>;
          s = (if rest \<noteq> [] \<and> \<not> one_thread then wake_one_thread u s else s)
      in set_pc t (In_handler h) s)"

definition do_run_one :: "bool \<Rightarrow> nat option \<Rightarrow> nat \<Rightarrow> 'h io_state \<Rightarrow> 'h io_state" where
  "do_run_one one_thread u t s =
     (if io_stopped s then set_pc t Idle s
      else case io_queue s of
             [] \<Rightarrow> clear_and_wait t s
           | Task # rest \<Rightarrow>
               let s = s\<lparr>io_queue := rest, io_interrupted := (rest \<noteq> [])\<rparr>;
                   s = (if rest \<noteq> [] \<and> \<not> one_thread then unlock_and_signal_one u s else s)
               in set_pc t (In_task (rest = [])) s
           | Op h # rest \<Rightarrow> take_handler one_thread u t h rest s)"

definition do_poll_one :: "bool \<Rightarrow> nat option \<Rightarrow> nat \<Rightarrow> 'h io_state \<Rightarrow> 'h io_state" where
  "do_poll_one one_thread u t s =
     (if io_stopped s then set_pc t Idle s
      else case io_queue s of
             [] \<Rightarrow> set_pc t Idle s
           | Task # rest \<Rightarrow> set_pc t (In_task False) (s\<lparr>io_queue := rest\<rparr>)
           | Op h # rest \<Rightarrow> take_handler one_thread u t h rest s)"

text \<open>
  \<open>epoll_wait\<close> reports the interrupter: the wait is over, and the event is used up.
\<close>

definition task_wakes :: "nat \<Rightarrow> 'h io_state \<Rightarrow> 'h io_state" where
  "task_wakes t s = set_pc t (In_task False) (s\<lparr>io_signal := False\<rparr>)"

definition task_cleanup :: "nat \<Rightarrow> 'h io_state \<Rightarrow> 'h io_state" where
  "task_cleanup t s =
     (let th = io_threads s t;
          s = (if 0 < th_work th then s\<lparr>io_work := io_work s + int (th_work th)\<rparr> else s)
      in on_thread t (\<lambda>th. th\<lparr>th_work := 0, th_queue := []\<rparr>)
           (s\<lparr>io_interrupted := True, io_queue := io_queue s @ map Op (th_queue th) @ [Task]\<rparr>))"

text \<open>The task returns: \<open>do_run_one\<close> goes on with its loop, \<open>do_poll_one\<close> looks at the queue once more.\<close>

definition task_return :: "bool \<Rightarrow> nat option \<Rightarrow> nat \<Rightarrow> 'h io_state \<Rightarrow> 'h io_state" where
  "task_return one_thread u t s =
     (let s = task_cleanup t s
      in if th_mode (io_threads s t) = Run \<or> th_mode (io_threads s t) = Run_one then set_pc t Looping s
         else case io_queue s of
                Op h # rest \<Rightarrow> take_handler one_thread u t h rest s
              | Task # _ \<Rightarrow> set_pc t Idle (fst (maybe_unlock_and_signal_one u s))
              | [] \<Rightarrow> set_pc t Idle s)"

definition work_cleanup :: "nat \<Rightarrow> 'h io_state \<Rightarrow> 'h io_state" where
  "work_cleanup t s =
     (let th = io_threads s t;
          s = (if 1 < th_work th then s\<lparr>io_work := io_work s + int (th_work th - 1)\<rparr>
               else if th_work th < 1 then work_finished s else s)
      in on_thread t (\<lambda>th. th\<lparr>th_work := 0, th_queue := []\<rparr>) (s\<lparr>io_queue := io_queue s @ map Op (th_queue th)\<rparr>))"

definition handler_return :: "nat \<Rightarrow> 'h io_state \<Rightarrow> 'h io_state" where
  "handler_return t s =
     set_pc t (if th_mode (io_threads s t) = Run \<or> th_mode (io_threads s t) = Poll then Looping else Idle) (work_cleanup t s)"

definition handler_throw :: "nat \<Rightarrow> 'h io_state \<Rightarrow> 'h io_state" where
  "handler_throw t s = set_pc t Idle (work_cleanup t s)"

subsection \<open>Runs\<close>

text \<open>How the program uses the service: its hint, the functions that its threads call, whether handlers throw.\<close>

record io_config =
  cf_one_thread :: bool
  cf_modes :: "run_mode set"
  cf_throws :: bool
  cf_threads :: "nat set"

text \<open>
  A request comes from a thread outside the loop or from a handler. The reactor interrupts itself when a
  timer is scheduled (\<open>timer_scheduled\<close>). A wait of the task may also end because a descriptor is ready, with the
  event of the interrupter still to be reported (\<open>task_returns\<close> in any state).
\<close>

definition caller :: "nat option \<Rightarrow> 'h io_state \<Rightarrow> bool" where
  "caller t s \<longleftrightarrow> (case t of Some t \<Rightarrow> \<exists>h. pc s t = In_handler h | None \<Rightarrow> True)"

definition accept :: "'h \<Rightarrow> 'h io_state \<Rightarrow> 'h io_state" where
  "accept h s = s\<lparr>io_accepted := add_mset h (io_accepted s)\<rparr>"

inductive io_step :: "io_config \<Rightarrow> 'h io_state \<Rightarrow> 'h io_state \<Rightarrow> bool" for cf :: io_config where
  enter: "t \<in> cf_threads cf \<Longrightarrow> pc s t = Idle \<Longrightarrow> m \<in> cf_modes cf \<Longrightarrow> io_step cf s (enter_loop m t s)"
| run_loop: "t \<in> cf_threads cf \<Longrightarrow> pc s t = Looping \<Longrightarrow> th_mode (io_threads s t) \<in> {Run, Run_one} \<Longrightarrow> may_wake u s \<Longrightarrow>
    io_step cf s (do_run_one (cf_one_thread cf) u t s)"
| poll_loop: "t \<in> cf_threads cf \<Longrightarrow> pc s t = Looping \<Longrightarrow> th_mode (io_threads s t) \<in> {Poll, Poll_one} \<Longrightarrow> may_wake u s \<Longrightarrow>
    io_step cf s (do_poll_one (cf_one_thread cf) u t s)"
| unblocked: "t \<in> cf_threads cf \<Longrightarrow> pc s t = Notified \<Longrightarrow> io_step cf s (wait_again t s)"
| spurious: "t \<in> cf_threads cf \<Longrightarrow> pc s t = Sleeping \<Longrightarrow> io_step cf s (set_pc t Notified s)"
| task_interrupted: "t \<in> cf_threads cf \<Longrightarrow> pc s t = In_task b \<Longrightarrow> io_signal s \<Longrightarrow> io_step cf s (task_wakes t s)"
| timer_scheduled: "io_step cf s (interrupt_reactor s)"
| task_completes: "t \<in> cf_threads cf \<Longrightarrow> pc s t = In_task b \<Longrightarrow> h \<in># io_pending s \<Longrightarrow>
    io_step cf s (push_private t [h] (s\<lparr>io_pending := io_pending s - {#h#}\<rparr>))"
| task_returns: "t \<in> cf_threads cf \<Longrightarrow> pc s t = In_task b \<Longrightarrow> may_wake u s \<Longrightarrow>
    io_step cf s (task_return (cf_one_thread cf) u t s)"
| handler_returns: "t \<in> cf_threads cf \<Longrightarrow> pc s t = In_handler h \<Longrightarrow> io_step cf s (handler_return t s)"
| handler_throws: "t \<in> cf_threads cf \<Longrightarrow> cf_throws cf \<Longrightarrow> pc s t = In_handler h \<Longrightarrow> io_step cf s (handler_throw t s)"
| post: "caller t s \<Longrightarrow> may_wake u s \<Longrightarrow>
    io_step cf s (accept h (post_immediate_completion (cf_one_thread cf) is_continuation t u h s))"
| dispatch: "may_wake u s \<Longrightarrow> io_step cf s (accept h (do_dispatch_io u h s))"
| started: "io_step cf s (accept h (work_started (s\<lparr>io_pending := add_mset h (io_pending s)\<rparr>)))"
| complete_one: "caller t s \<Longrightarrow> may_wake u s \<Longrightarrow> h \<in># io_pending s \<Longrightarrow>
    io_step cf s (post_deferred_completion (cf_one_thread cf) t u h (s\<lparr>io_pending := io_pending s - {#h#}\<rparr>))"
| complete_all: "caller t s \<Longrightarrow> may_wake u s \<Longrightarrow> mset hs \<subseteq># io_pending s \<Longrightarrow>
    io_step cf s (post_deferred_completions (cf_one_thread cf) t u hs (s\<lparr>io_pending := io_pending s - mset hs\<rparr>))"
| new_work: "io_step cf s (work_started (s\<lparr>io_users := io_users s + 1\<rparr>))"
| end_work: "0 < io_users s \<Longrightarrow> io_step cf s (work_finished (s\<lparr>io_users := io_users s - 1\<rparr>))"
| stopped_by: "io_step cf s (stop_all_threads s)"
| reset_by: "io_step cf s (reset s)"
| initialised: "may_wake u s \<Longrightarrow> io_step cf s (init_task u s)"

inductive io_reachable :: "io_config \<Rightarrow> 'h io_state \<Rightarrow> bool" for cf :: io_config where
  io_initial: "io_reachable cf new_io_service"
| io_stepped: "io_reachable cf s \<Longrightarrow> io_step cf s s' \<Longrightarrow> io_reachable cf s'"

subsection \<open>What waking leaves alone\<close>

text \<open>Waking changes the signal, the interruption and the place of threads that sleep.\<close>

definition same_counts :: "'h io_state \<Rightarrow> 'h io_state \<Rightarrow> bool" where
  "same_counts s s' \<longleftrightarrow> io_queue s' = io_queue s \<and> io_work s' = io_work s \<and> io_shutdown s' = io_shutdown s \<and> io_task s' = io_task s
     \<and> ev_waiters s' = ev_waiters s \<and> io_pending s' = io_pending s \<and> io_users s' = io_users s
     \<and> io_accepted s' = io_accepted s \<and> io_started s' = io_started s"

definition woken_thread :: "'h thread_info \<Rightarrow> 'h thread_info \<Rightarrow> bool" where
  "woken_thread th th' \<longleftrightarrow> th' = th \<or> th_pc th = Sleeping \<and> th' = th\<lparr>th_pc := Notified\<rparr>"

definition woken :: "'h io_state \<Rightarrow> 'h io_state \<Rightarrow> bool" where
  "woken s s' \<longleftrightarrow> same_counts s s' \<and> (\<forall>t. woken_thread (io_threads s t) (io_threads s' t))"

lemma same_counts_refl [simp]: "same_counts s s"
  by (simp add: same_counts_def)

lemma same_countsD:
  assumes "same_counts s s'"
  shows "io_queue s' = io_queue s" "io_work s' = io_work s" "io_shutdown s' = io_shutdown s" "io_task s' = io_task s"
    "ev_waiters s' = ev_waiters s" "io_pending s' = io_pending s" "io_users s' = io_users s"
    "io_accepted s' = io_accepted s" "io_started s' = io_started s"
  using assms by (simp_all add: same_counts_def)

lemma woken_refl [simp]: "woken s s"
  by (simp add: woken_def woken_thread_def)

lemma woken_trans: "woken s s' \<Longrightarrow> woken s' s'' \<Longrightarrow> woken s s''"
  unfolding woken_def same_counts_def woken_thread_def by (simp, metis thread_pc.distinct(23) thread_info.select_convs(1) thread_info.surjective thread_info.update_convs(1))

lemma woken_signal: "may_wake u s \<Longrightarrow> woken s (cond_signal u (s\<lparr>ev_signalled := b\<rparr>))"
  by (auto simp: woken_def same_counts_def woken_thread_def cond_signal_def set_pc_def on_thread_def may_wake_def split: option.splits)

lemma woken_unlock: "may_wake u s \<Longrightarrow> woken s (unlock_and_signal_one u s)"
  using woken_signal [of u s True] by (auto simp: unlock_and_signal_one_def Let_def woken_def same_counts_def woken_thread_def)

lemma woken_maybe: "may_wake u s \<Longrightarrow> woken s (fst (maybe_unlock_and_signal_one u s))"
  using woken_signal [of u s True] by (auto simp: maybe_unlock_and_signal_one_def Let_def woken_def same_counts_def woken_thread_def)

lemma woken_interrupt: "woken s s' \<Longrightarrow> woken s (interrupt_task s')"
  by (auto simp: interrupt_task_def interrupt_reactor_def woken_def same_counts_def)

lemma woken_wake: "may_wake u s \<Longrightarrow> woken s (wake_one_thread u s)"
  using woken_maybe [of u s] by (auto simp: wake_one_thread_def woken_interrupt split: prod.splits)

lemma woken_stop: "woken s (stop_all_threads s)"
  unfolding stop_all_threads_def
  by (rule woken_interrupt) (auto simp: signal_all_def cond_broadcast_def woken_def same_counts_def woken_thread_def)

lemma woken_pc: "woken s s' \<Longrightarrow> pc s t \<noteq> Sleeping \<Longrightarrow> io_threads s' t = io_threads s t"
  by (auto simp: woken_def woken_thread_def)

lemma may_wake_cong [simp]:
  "may_wake u (s\<lparr>io_queue := q\<rparr>) = may_wake u s" "may_wake u (s\<lparr>io_work := w\<rparr>) = may_wake u s"
  "may_wake u (s\<lparr>io_started := a\<rparr>) = may_wake u s" "may_wake u (s\<lparr>io_interrupted := b\<rparr>) = may_wake u s"
  "may_wake u (s\<lparr>io_pending := a\<rparr>) = may_wake u s" "may_wake u (s\<lparr>io_task := b\<rparr>) = may_wake u s"
  by (simp_all add: may_wake_def split: option.splits)

subsection \<open>Accounting\<close>

text \<open>
  The counter of outstanding work is the number of operations that are queued, running or with the reactor, and of
  work objects, up to what threads have not yet added to it for the operations in their private queues. The
  handlers accepted are those started, queued or with the reactor. The waiters are the threads that are blocked
  or have just been unblocked. The task is in the queue or run by a thread, once.
\<close>

definition ops :: "'h item list \<Rightarrow> 'h list" where
  "ops = List.map_filter (\<lambda>i. case i of Op h \<Rightarrow> Some h | Task \<Rightarrow> None)"

lemma ops_simps [simp]: "ops [] = []" "ops (Op h # q) = h # ops q" "ops (Task # q) = ops q" "ops (q @ r) = ops q @ ops r"
    "ops (map Op hs) = hs"
  by (induction hs) (simp_all add: ops_def List.map_filter_def)

definition tasks :: "'h item list \<Rightarrow> nat" where
  "tasks q = count_list q Task"

lemma tasks_simps [simp]: "tasks [] = 0" "tasks (Op h # q) = tasks q" "tasks (Task # q) = Suc (tasks q)"
    "tasks (q @ r) = tasks q + tasks r" "tasks (map Op hs) = 0"
  by (induction hs) (simp_all add: tasks_def)

definition th_balance :: "'h thread_info \<Rightarrow> int" where
  "th_balance th = int (length (th_queue th)) - int (th_work th) + (case th_pc th of In_handler h \<Rightarrow> 1 | _ \<Rightarrow> 0)"

definition th_waits :: "'h thread_info \<Rightarrow> nat" where
  "th_waits th = (if th_pc th = Sleeping \<or> th_pc th = Notified then 1 else 0)"

definition th_tasks :: "'h thread_info \<Rightarrow> nat" where
  "th_tasks th = (case th_pc th of In_task b \<Rightarrow> 1 | _ \<Rightarrow> 0)"

definition th_ok :: "'h thread_info \<Rightarrow> bool" where
  "th_ok th \<longleftrightarrow> th_work th \<le> length (th_queue th)
     \<and> (case th_pc th of In_handler h \<Rightarrow> True | In_task b \<Rightarrow> th_work th = 0 | _ \<Rightarrow> th_queue th = [])"

definition io_inv :: "nat set \<Rightarrow> 'h io_state \<Rightarrow> bool" where
  "io_inv T s \<longleftrightarrow> (\<forall>t. th_ok (io_threads s t) \<and> (t \<in> T \<or> pc s t = Idle))
     \<and> io_work s = int (length (ops (io_queue s))) + int (size (io_pending s)) + int (io_users s) + (\<Sum>t\<in>T. th_balance (io_threads s t))
     \<and> io_accepted s = io_started s + mset (ops (io_queue s)) + io_pending s + (\<Sum>t\<in>T. mset (th_queue (io_threads s t)))
     \<and> ev_waiters s = (\<Sum>t\<in>T. th_waits (io_threads s t))
     \<and> tasks (io_queue s) + (\<Sum>t\<in>T. th_tasks (io_threads s t)) = (if io_task s then 1 else 0)"

lemma woken_thread_counts: "woken_thread th th' \<Longrightarrow> th_balance th' = th_balance th \<and> th_queue th' = th_queue th
    \<and> th_waits th' = th_waits th \<and> th_tasks th' = th_tasks th \<and> (th_ok th \<longrightarrow> th_ok th') \<and> (th_pc th = Idle \<longrightarrow> th_pc th' = Idle)"
  by (auto simp: woken_thread_def th_balance_def th_waits_def th_tasks_def th_ok_def)

lemma sum_woken:
  assumes "\<And>u. u \<in> A \<Longrightarrow> woken_thread (f u) (g u)"
  shows "(\<Sum>u\<in>A. th_balance (g u)) = (\<Sum>u\<in>A. th_balance (f u))" "(\<Sum>u\<in>A. mset (th_queue (g u))) = (\<Sum>u\<in>A. mset (th_queue (f u)))"
    "(\<Sum>u\<in>A. th_waits (g u)) = (\<Sum>u\<in>A. th_waits (f u))" "(\<Sum>u\<in>A. th_tasks (g u)) = (\<Sum>u\<in>A. th_tasks (f u))"
  by (rule sum.cong, rule refl, drule assms, drule woken_thread_counts, simp)+

text \<open>A step of one thread, which may wake others.\<close>

lemma io_inv_step:
  assumes inv: "io_inv T s" and fin: "finite T"
    and t: "t \<in> T \<or> woken_thread (io_threads s t) (io_threads s' t)"
    and others: "\<And>u. u \<noteq> t \<Longrightarrow> woken_thread (io_threads s u) (io_threads s' u)"
    and ok: "th_ok (io_threads s' t)"
    and work: "io_work s' = io_work s + int (length (ops (io_queue s'))) - int (length (ops (io_queue s)))
      + int (size (io_pending s')) - int (size (io_pending s)) + int (io_users s') - int (io_users s)
      + th_balance (io_threads s' t) - th_balance (io_threads s t)"
    and acc: "io_accepted s' + (io_started s + mset (ops (io_queue s)) + io_pending s + mset (th_queue (io_threads s t)))
      = io_accepted s + (io_started s' + mset (ops (io_queue s')) + io_pending s' + mset (th_queue (io_threads s' t)))"
    and wait: "ev_waiters s' + th_waits (io_threads s t) = ev_waiters s + th_waits (io_threads s' t)"
    and task: "tasks (io_queue s') + th_tasks (io_threads s' t) + (if io_task s then 1 else 0)
      = tasks (io_queue s) + th_tasks (io_threads s t) + (if io_task s' then 1 else 0)"
  shows "io_inv T s'"
proof (cases "t \<in> T")
  case True
  note split = sum.remove [OF fin True]
  have "\<And>u. u \<in> T - {t} \<Longrightarrow> woken_thread (io_threads s u) (io_threads s' u)" using others by auto
  note rest' = sum_woken [of "T - {t}" "io_threads s" "io_threads s'", OF this]
  have "\<forall>u. th_ok (io_threads s' u) \<and> (u \<in> T \<or> pc s' u = Idle)"
  proof
    fix u show "th_ok (io_threads s' u) \<and> (u \<in> T \<or> pc s' u = Idle)"
      using ok True inv woken_thread_counts [OF others, of u] by (cases "u = t") (auto simp: io_inv_def)
  qed
  moreover have "io_accepted s' = io_started s' + mset (ops (io_queue s')) + io_pending s' + (\<Sum>t\<in>T. mset (th_queue (io_threads s' t)))"
  proof -
    let ?R = "\<Sum>u\<in>T - {t}. mset (th_queue (io_threads s u))" and ?A = "io_started s + mset (ops (io_queue s)) + io_pending s + mset (th_queue (io_threads s t))"
    have "io_accepted s = ?A + ?R" using inv unfolding io_inv_def split [of "\<lambda>u. mset (th_queue (io_threads s u))"] by (simp add: ac_simps)
    with acc have "io_accepted s' + ?A = io_started s' + mset (ops (io_queue s')) + io_pending s' + mset (th_queue (io_threads s' t)) + ?R + ?A"
      by (simp add: ac_simps)
    then show ?thesis using rest'(2) unfolding split [of "\<lambda>u. mset (th_queue (io_threads s' u))"] by (simp add: ac_simps)
  qed
  moreover have "io_work s' = int (length (ops (io_queue s'))) + int (size (io_pending s')) + int (io_users s')
      + (\<Sum>t\<in>T. th_balance (io_threads s' t))"
    using inv work rest'(1) split [of "\<lambda>u. th_balance (io_threads s u)"] split [of "\<lambda>u. th_balance (io_threads s' u)"]
    unfolding io_inv_def by linarith
  moreover have "ev_waiters s' = (\<Sum>t\<in>T. th_waits (io_threads s' t))"
    using inv wait rest'(3) split [of "\<lambda>u. th_waits (io_threads s u)"] split [of "\<lambda>u. th_waits (io_threads s' u)"]
    unfolding io_inv_def by linarith
  moreover have "tasks (io_queue s') + (\<Sum>t\<in>T. th_tasks (io_threads s' t)) = (if io_task s' then 1 else 0)"
    using inv task rest'(4) split [of "\<lambda>u. th_tasks (io_threads s u)"] split [of "\<lambda>u. th_tasks (io_threads s' u)"]
    unfolding io_inv_def by linarith
  ultimately show ?thesis unfolding io_inv_def by blast
next
  case False
  then have w: "woken_thread (io_threads s u) (io_threads s' u)" for u using t others by (cases "u = t") auto
  note rest' = sum_woken [of T "io_threads s" "io_threads s'", OF w]
  have "io_accepted s' + (io_started s + mset (ops (io_queue s)) + io_pending s)
      = io_accepted s + (io_started s' + mset (ops (io_queue s')) + io_pending s')"
    using acc woken_thread_counts [OF w [of t]] by (simp add: ac_simps)
  then have "io_accepted s' = io_started s' + mset (ops (io_queue s')) + io_pending s' + (\<Sum>t\<in>T. mset (th_queue (io_threads s t)))"
    using inv unfolding io_inv_def by (simp add: ac_simps)
  moreover have "\<forall>u. th_ok (io_threads s' u) \<and> (u \<in> T \<or> pc s' u = Idle)"
    using inv woken_thread_counts [OF w] unfolding io_inv_def by blast
  moreover have "io_work s' = int (length (ops (io_queue s'))) + int (size (io_pending s')) + int (io_users s')
      + (\<Sum>t\<in>T. th_balance (io_threads s' t))"
    using inv work rest'(1) woken_thread_counts [OF w [of t]] unfolding io_inv_def by linarith
  moreover have "ev_waiters s' = (\<Sum>t\<in>T. th_waits (io_threads s' t))"
    using inv wait rest'(3) woken_thread_counts [OF w [of t]] unfolding io_inv_def by linarith
  moreover have "tasks (io_queue s') + (\<Sum>t\<in>T. th_tasks (io_threads s' t)) = (if io_task s' then 1 else 0)"
    using inv task rest'(4) woken_thread_counts [OF w [of t]] unfolding io_inv_def by linarith
  ultimately show ?thesis using rest'(2) unfolding io_inv_def by simp
qed

lemma io_inv_woken: "io_inv T s \<Longrightarrow> finite T \<Longrightarrow> woken s s' \<Longrightarrow> io_inv T s'"
proof (rule io_inv_step [where t = 0])
  assume inv: "io_inv T s" and w: "woken s s'"
  note c = same_countsD [of s s'] woken_thread_counts [of "io_threads s 0" "io_threads s' 0"]
  have "woken_thread (io_threads s 0) (io_threads s' 0)" "same_counts s s'" using w by (simp_all add: woken_def)
  then show "io_work s' = io_work s + int (length (ops (io_queue s'))) - int (length (ops (io_queue s)))
      + int (size (io_pending s')) - int (size (io_pending s)) + int (io_users s') - int (io_users s)
      + th_balance (io_threads s' 0) - th_balance (io_threads s 0)"
    "io_accepted s' + (io_started s + mset (ops (io_queue s)) + io_pending s + mset (th_queue (io_threads s 0)))
      = io_accepted s + (io_started s' + mset (ops (io_queue s')) + io_pending s' + mset (th_queue (io_threads s' 0)))"
    "ev_waiters s' + th_waits (io_threads s 0) = ev_waiters s + th_waits (io_threads s' 0)"
    "tasks (io_queue s') + th_tasks (io_threads s' 0) + (if io_task s then 1 else 0)
      = tasks (io_queue s) + th_tasks (io_threads s 0) + (if io_task s' then 1 else 0)"
    "th_ok (io_threads s' 0)"
    using c inv by (simp_all add: io_inv_def)
qed (auto simp: woken_def)

lemma quiet_thread: "io_inv T s \<Longrightarrow> pc s t \<in> {Idle, Looping, Sleeping, Notified} \<Longrightarrow>
    th_queue (io_threads s t) = [] \<and> th_work (io_threads s t) = 0"
proof -
  assume "io_inv T s" "pc s t \<in> {Idle, Looping, Sleeping, Notified}"
  moreover from this have "th_ok (io_threads s t)" by (simp add: io_inv_def)
  ultimately show ?thesis by (auto simp: th_ok_def)
qed

text \<open>What the sections do to the counts and to their own thread.\<close>

lemma set_pc_simps [simp]:
  "io_queue (set_pc t p s) = io_queue s" "io_work (set_pc t p s) = io_work s" "io_task (set_pc t p s) = io_task s"
  "io_stopped (set_pc t p s) = io_stopped s" "io_interrupted (set_pc t p s) = io_interrupted s" "io_signal (set_pc t p s) = io_signal s"
  "ev_signalled (set_pc t p s) = ev_signalled s" "ev_waiters (set_pc t p s) = ev_waiters s"
  "io_pending (set_pc t p s) = io_pending s" "io_users (set_pc t p s) = io_users s"
  "io_accepted (set_pc t p s) = io_accepted s" "io_started (set_pc t p s) = io_started s"
  "io_threads (set_pc t p s) v = (if v = t then (io_threads s t)\<lparr>th_pc := p\<rparr> else io_threads s v)"
  by (simp_all add: set_pc_def on_thread_def)

lemma on_thread_simps [simp]:
  "io_queue (on_thread t f s) = io_queue s" "io_work (on_thread t f s) = io_work s" "io_task (on_thread t f s) = io_task s"
  "io_stopped (on_thread t f s) = io_stopped s" "io_interrupted (on_thread t f s) = io_interrupted s" "io_signal (on_thread t f s) = io_signal s"
  "ev_signalled (on_thread t f s) = ev_signalled s" "ev_waiters (on_thread t f s) = ev_waiters s"
  "io_pending (on_thread t f s) = io_pending s" "io_users (on_thread t f s) = io_users s"
  "io_accepted (on_thread t f s) = io_accepted s" "io_started (on_thread t f s) = io_started s"
  "io_threads (on_thread t f s) v = (if v = t then f (io_threads s t) else io_threads s v)"
  by (simp_all add: on_thread_def)

lemma woken_thread_refl [simp]: "woken_thread th th"
  by (simp add: woken_thread_def)

lemma take_handler_fields:
  fixes h :: 'h and rest :: "'h item list" and one_thread :: bool
  assumes "may_wake u s" "pc s t \<noteq> Sleeping"
  defines "s' \<equiv> take_handler one_thread u t h rest s"
  shows "io_queue s' = rest" "io_work s' = io_work s" "io_task s' = io_task s" "ev_waiters s' = ev_waiters s"
    "io_pending s' = io_pending s" "io_users s' = io_users s" "io_accepted s' = io_accepted s"
    "io_started s' = add_mset h (io_started s)" "io_threads s' t = (io_threads s t)\<lparr>th_pc := In_handler h\<rparr>"
    "\<And>v. v \<noteq> t \<Longrightarrow> woken_thread (io_threads s v) (io_threads s' v)"
proof -
  define s1 where "s1 = s\<lparr>io_queue := rest, io_started := add_mset h (io_started s)\<rparr>"
  define s2 where "s2 = (if rest \<noteq> [] \<and> \<not> one_thread then wake_one_thread u s1 else s1)"
  have w: "woken s1 s2" using assms(1) by (simp add: s2_def s1_def woken_wake)
  have s': "s' = set_pc t (In_handler h) s2" by (simp add: s'_def take_handler_def s1_def s2_def Let_def)
  note f = same_countsD [of s1 s2]
  show "io_queue s' = rest" "io_work s' = io_work s" "io_task s' = io_task s" "ev_waiters s' = ev_waiters s"
    "io_pending s' = io_pending s" "io_users s' = io_users s" "io_accepted s' = io_accepted s"
    "io_started s' = add_mset h (io_started s)"
    using w f by (simp_all add: s' woken_def) (simp_all add: s1_def)
  show "io_threads s' t = (io_threads s t)\<lparr>th_pc := In_handler h\<rparr>"
    using woken_pc [OF w, of t] assms(2) by (simp add: s') (simp add: s1_def)
  show "woken_thread (io_threads s v) (io_threads s' v)" if "v \<noteq> t" for v
    using w that by (simp add: s' woken_def) (simp add: s1_def)
qed

lemma take_handler_inv:
  assumes inv: "io_inv T s" "finite T" and t: "t \<in> T" "pc s t = Looping" "io_queue s = Op h # rest" "may_wake u s"
  shows "io_inv T (take_handler one_thread u t h rest s)"
proof -
  have q: "th_queue (io_threads s t) = []" "th_work (io_threads s t) = 0" using quiet_thread [OF inv(1), of t] t(2) by simp_all
  have "pc s t \<noteq> Sleeping" using t by simp
  note f = take_handler_fields [where one_thread = one_thread and h = h and rest = rest, OF t(4) this]
  show ?thesis
    by (rule io_inv_step [OF inv disjI1 [OF t(1)] f(10)]) (use q t in \<open>simp_all add: f th_ok_def th_balance_def th_waits_def th_tasks_def\<close>)
qed

lemma do_run_one_inv:
  assumes inv: "io_inv T s" "finite T" and t: "t \<in> T" "pc s t = Looping" "may_wake u s"
  shows "io_inv T (do_run_one one_thread u t s)"
proof -
  have q: "th_queue (io_threads s t) = []" "th_work (io_threads s t) = 0" using quiet_thread [OF inv(1), of t] t(2) by simp_all
  note c = th_ok_def th_balance_def th_waits_def th_tasks_def
  consider "io_stopped s" | "\<not> io_stopped s" "io_queue s = []" | rest where "\<not> io_stopped s" "io_queue s = Task # rest"
    | h rest where "\<not> io_stopped s" "io_queue s = Op h # rest"
    by (cases "io_queue s"; cases "hd (io_queue s)") auto
  then show ?thesis
  proof cases
    case 1
    then show ?thesis by (intro io_inv_step [OF inv disjI1 [OF t(1)]]) (use q t in \<open>simp_all add: do_run_one_def c\<close>)
  next
    case 2
    then show ?thesis by (intro io_inv_step [OF inv disjI1 [OF t(1)]]) (use q t in \<open>simp_all add: do_run_one_def clear_and_wait_def c\<close>)
  next
    case 3
    define s1 where "s1 = s\<lparr>io_queue := rest, io_interrupted := (rest \<noteq> [])\<rparr>"
    define s2 where "s2 = (if rest \<noteq> [] \<and> \<not> one_thread then unlock_and_signal_one u s1 else s1)"
    have w: "woken s1 s2" using t(3) by (simp add: s2_def s1_def woken_unlock)
    have e: "do_run_one one_thread u t s = set_pc t (In_task (rest = [])) s2" using 3 by (simp add: do_run_one_def s1_def s2_def Let_def)
    have "io_threads s2 t = io_threads s t" using woken_pc [OF w, of t] t(2) by (simp add: s1_def)
    moreover have "same_counts s1 s2" "\<And>v. woken_thread (io_threads s v) (io_threads s2 v)" using w by (simp_all add: woken_def s1_def)
    ultimately show ?thesis unfolding e
      by (intro io_inv_step [OF inv disjI1 [OF t(1)]]) (use q t 3 same_countsD [of s1 s2] in \<open>simp_all add: c s1_def\<close>)
  next
    case 4
    then show ?thesis using take_handler_inv [OF inv t(1,2) _ t(3)] by (simp add: do_run_one_def)
  qed
qed

lemma do_poll_one_inv:
  assumes inv: "io_inv T s" "finite T" and t: "t \<in> T" "pc s t = Looping" "may_wake u s"
  shows "io_inv T (do_poll_one one_thread u t s)"
proof -
  have q: "th_queue (io_threads s t) = []" "th_work (io_threads s t) = 0" using quiet_thread [OF inv(1), of t] t(2) by simp_all
  note c = th_ok_def th_balance_def th_waits_def th_tasks_def
  consider "io_stopped s \<or> io_queue s = []" | rest where "\<not> io_stopped s" "io_queue s = Task # rest"
    | h rest where "\<not> io_stopped s" "io_queue s = Op h # rest"
    by (cases "io_queue s"; cases "hd (io_queue s)") auto
  then show ?thesis
  proof cases
    case 1
    then have "do_poll_one one_thread u t s = set_pc t Idle s" by (auto simp: do_poll_one_def)
    then show ?thesis by (intro io_inv_step [OF inv disjI1 [OF t(1)]]) (use q t in \<open>simp_all add: c\<close>)
  next
    case 2
    then show ?thesis by (intro io_inv_step [OF inv disjI1 [OF t(1)]]) (use q t in \<open>simp_all add: do_poll_one_def c\<close>)
  next
    case 3
    then show ?thesis using take_handler_inv [OF inv t(1,2) _ t(3)] by (simp add: do_poll_one_def)
  qed
qed

lemmas thread_counts = th_ok_def th_balance_def th_waits_def th_tasks_def

lemma task_cleanup_fields [simp]:
  "io_queue (task_cleanup t s) = io_queue s @ map Op (th_queue (io_threads s t)) @ [Task]"
  "io_work (task_cleanup t s) = io_work s + int (th_work (io_threads s t))" "io_task (task_cleanup t s) = io_task s"
  "ev_waiters (task_cleanup t s) = ev_waiters s" "io_pending (task_cleanup t s) = io_pending s"
  "io_users (task_cleanup t s) = io_users s" "io_accepted (task_cleanup t s) = io_accepted s" "io_started (task_cleanup t s) = io_started s"
  "io_stopped (task_cleanup t s) = io_stopped s" "io_interrupted (task_cleanup t s)" "io_signal (task_cleanup t s) = io_signal s" "ev_signalled (task_cleanup t s) = ev_signalled s"
  "io_threads (task_cleanup t s) v = (if v = t then (io_threads s t)\<lparr>th_work := 0, th_queue := []\<rparr> else io_threads s v)"
  by (simp_all add: task_cleanup_def Let_def)

lemma may_wake_threads: "(\<And>v. pc s' v = pc s v) \<Longrightarrow> may_wake u s' = may_wake u s"
  by (simp add: may_wake_def split: option.splits)

lemma may_wake_cleanup: "may_wake u (task_cleanup t s) = may_wake u s"
  by (rule may_wake_threads) simp

lemma take_after_task_inv:
  assumes inv: "io_inv T s" "finite T" and t: "t \<in> T" "pc s t = In_task b" "may_wake u s"
    and q: "io_queue (task_cleanup t s) = Op h # rest"
  shows "io_inv T (take_handler one_thread u t h rest (task_cleanup t s))"
proof -
  define s1 where "s1 = task_cleanup t s"
  define s' where "s' = take_handler one_thread u t h rest s1"
  have mw: "may_wake u s1" "pc s1 t \<noteq> Sleeping" using t by (simp_all add: s1_def may_wake_cleanup)
  note f = take_handler_fields [where one_thread = one_thread and h = h and rest = rest, OF mw, folded s'_def]
  have q1: "length (ops (io_queue s1)) = Suc (length (ops rest))" "tasks (io_queue s1) = tasks rest"
    "mset (ops (io_queue s1)) = add_mset h (mset (ops rest))" using q by (simp_all add: s1_def del: task_cleanup_fields)
  have o: "woken_thread (io_threads s v) (io_threads s' v)" if "v \<noteq> t" for v
    using f(10) [OF that] that by (simp add: s1_def)
  have "io_inv T s'"
    by (rule io_inv_step [OF inv disjI1 [OF t(1)] o])
      (use q1 t(2) in \<open>simp_all add: f thread_counts, simp_all add: s1_def ac_simps\<close>)
  then show ?thesis by (simp add: s'_def s1_def)
qed

lemma idle_after_task_inv:
  assumes inv: "io_inv T s" "finite T" and t: "t \<in> T" "pc s t = In_task b"
    and w: "woken (task_cleanup t s) s2" and p: "p = Looping \<or> p = Idle"
  shows "io_inv T (set_pc t p s2)"
proof -
  have ok: "th_work (io_threads s t) \<le> length (th_queue (io_threads s t))" using inv(1) by (simp add: io_inv_def th_ok_def)
  have th: "io_threads s2 t = io_threads (task_cleanup t s) t" using woken_pc [OF w] t(2) by simp
  have o: "woken_thread (io_threads s v) (io_threads (set_pc t p s2) v)" if "v \<noteq> t" for v
    using w that unfolding woken_def by (metis task_cleanup_fields(13) set_pc_simps(13))
  have "same_counts (task_cleanup t s) s2" using w by (simp add: woken_def)
  note f = same_countsD [OF this]
  show ?thesis
    by (rule io_inv_step [OF inv disjI1 [OF t(1)] o]) (use t(2) th p ok in \<open>auto simp: thread_counts f\<close>)
qed

lemma task_return_inv:
  assumes inv: "io_inv T s" "finite T" and t: "t \<in> T" "pc s t = In_task b" "may_wake u s"
  shows "io_inv T (task_return one_thread u t s)"
proof -
  define s1 where "s1 = task_cleanup t s"
  have mw: "may_wake u s1" using t(3) by (simp add: s1_def may_wake_cleanup)
  note idle = idle_after_task_inv [OF inv t(1,2), folded s1_def]
  consider "th_mode (io_threads s1 t) = Run \<or> th_mode (io_threads s1 t) = Run_one"
    | rest where "\<not> (th_mode (io_threads s1 t) = Run \<or> th_mode (io_threads s1 t) = Run_one)" "io_queue s1 = Task # rest"
    | h rest where "\<not> (th_mode (io_threads s1 t) = Run \<or> th_mode (io_threads s1 t) = Run_one)" "io_queue s1 = Op h # rest"
    by (cases "io_queue s1"; cases "hd (io_queue s1)") (auto simp: s1_def)
  then show ?thesis
  proof cases
    case 1
    then show ?thesis using idle [of s1 Looping] by (simp add: task_return_def s1_def [symmetric] Let_def)
  next
    case 2
    then show ?thesis using idle [OF woken_maybe [OF mw]] by (simp add: task_return_def s1_def [symmetric] Let_def)
  next
    case 3
    then show ?thesis using take_after_task_inv [OF inv t, of h rest] by (simp add: task_return_def s1_def [symmetric] Let_def)
  qed
qed

lemma work_finished_woken: "woken (s\<lparr>io_work := io_work s - 1\<rparr>) (work_finished s)"
  unfolding work_finished_def Let_def using woken_stop woken_refl by (simp only: split: if_split) blast

lemma work_cleanup_fields:
  assumes "pc s t = In_handler h"
  shows "io_queue (work_cleanup t s) = io_queue s @ map Op (th_queue (io_threads s t))"
    "io_work (work_cleanup t s) = io_work s + int (th_work (io_threads s t)) - 1" "io_task (work_cleanup t s) = io_task s"
    "ev_waiters (work_cleanup t s) = ev_waiters s" "io_pending (work_cleanup t s) = io_pending s"
    "io_users (work_cleanup t s) = io_users s" "io_accepted (work_cleanup t s) = io_accepted s" "io_started (work_cleanup t s) = io_started s"
    "io_threads (work_cleanup t s) t = (io_threads s t)\<lparr>th_work := 0, th_queue := []\<rparr>"
    "\<And>v. v \<noteq> t \<Longrightarrow> woken_thread (io_threads s v) (io_threads (work_cleanup t s) v)"
proof -
  let ?s1 = "if 1 < th_work (io_threads s t) then s\<lparr>io_work := io_work s + int (th_work (io_threads s t) - 1)\<rparr>
    else if th_work (io_threads s t) < 1 then work_finished s else s"
  have w: "woken (s\<lparr>io_work := io_work s + int (th_work (io_threads s t)) - 1\<rparr>) ?s1"
    using work_finished_woken [of s] by (auto simp: of_nat_diff woken_def same_counts_def)
  note f = same_countsD [of "s\<lparr>io_work := io_work s + int (th_work (io_threads s t)) - 1\<rparr>" ?s1]
  have e: "work_cleanup t s = on_thread t (\<lambda>th. th\<lparr>th_work := 0, th_queue := []\<rparr>) (?s1\<lparr>io_queue := io_queue ?s1 @ map Op (th_queue (io_threads s t))\<rparr>)"
    by (simp only: work_cleanup_def Let_def)
  have sc: "same_counts (s\<lparr>io_work := io_work s + int (th_work (io_threads s t)) - 1\<rparr>) ?s1" using w by (simp only: woken_def)
  show "io_queue (work_cleanup t s) = io_queue s @ map Op (th_queue (io_threads s t))"
    "io_work (work_cleanup t s) = io_work s + int (th_work (io_threads s t)) - 1" "io_task (work_cleanup t s) = io_task s"
    "ev_waiters (work_cleanup t s) = ev_waiters s" "io_pending (work_cleanup t s) = io_pending s"
    "io_users (work_cleanup t s) = io_users s" "io_accepted (work_cleanup t s) = io_accepted s" "io_started (work_cleanup t s) = io_started s"
    using f [OF sc] by (simp_all add: e)
  have "io_threads ?s1 t = io_threads s t" using woken_pc [OF w, of t] assms by simp
  then show "io_threads (work_cleanup t s) t = (io_threads s t)\<lparr>th_work := 0, th_queue := []\<rparr>" by (simp add: e)
  show "woken_thread (io_threads s v) (io_threads (work_cleanup t s) v)" if "v \<noteq> t" for v
    using w that by (simp add: e woken_def)
qed

lemma leave_handler_inv:
  assumes inv: "io_inv T s" "finite T" and t: "t \<in> T" "pc s t = In_handler h" and p: "p = Looping \<or> p = Idle"
  shows "io_inv T (set_pc t p (work_cleanup t s))"
proof -
  note f = work_cleanup_fields [OF t(2)]
  have o: "woken_thread (io_threads s v) (io_threads (set_pc t p (work_cleanup t s)) v)" if "v \<noteq> t" for v
    using f(10) [OF that] that by simp
  show ?thesis
    by (rule io_inv_step [OF inv disjI1 [OF t(1)] o]) (use t(2) p in \<open>auto simp: f thread_counts\<close>)
qed

lemma enter_inv:
  assumes inv: "io_inv T s" "finite T" and t: "t \<in> T" "pc s t = Idle"
  shows "io_inv T (enter_loop m t s)"
proof (cases "io_work s = 0")
  case True
  then show ?thesis using io_inv_woken [OF inv woken_stop] by (simp add: enter_loop_def)
next
  case False
  have "th_queue (io_threads s t) = [] \<and> th_work (io_threads s t) = 0" using quiet_thread [OF inv(1)] t(2) by simp
  with False show ?thesis
    by (intro io_inv_step [OF inv disjI1 [OF t(1)]]) (use t in \<open>simp_all add: enter_loop_def thread_counts\<close>)
qed

lemma wait_again_inv:
  assumes inv: "io_inv T s" "finite T" and t: "t \<in> T" "pc s t = Notified"
  shows "io_inv T (wait_again t s)"
proof -
  have "th_queue (io_threads s t) = [] \<and> th_work (io_threads s t) = 0" using quiet_thread [OF inv(1)] t(2) by simp
  moreover have "0 < ev_waiters s"
  proof -
    have "th_waits (io_threads s t) \<le> (\<Sum>u\<in>T. th_waits (io_threads s u))" by (rule member_le_sum [OF t(1) _ inv(2)]) simp
    then show ?thesis using inv(1) t(2) by (simp add: io_inv_def th_waits_def)
  qed
  ultimately show ?thesis
    by (intro io_inv_step [OF inv disjI1 [OF t(1)]]) (use t in \<open>auto simp: wait_again_def thread_counts\<close>)
qed

lemma accept_woken: "woken (accept h s) (accept h s') = woken s s'"
  by (auto simp: accept_def woken_def same_counts_def)

lemma accept_wake: "accept h (wake_one_thread u s) = wake_one_thread u (accept h s)"
  by (simp add: accept_def wake_one_thread_def maybe_unlock_and_signal_one_def interrupt_task_def interrupt_reactor_def cond_signal_def set_pc_def
      on_thread_def Let_def split: option.splits)

text \<open>A request that goes to the common queue.\<close>

lemma push_and_wake_inv:
  assumes inv: "io_inv T (s\<lparr>io_queue := io_queue s @ map Op hs\<rparr>)" "finite T" and u: "may_wake u s"
  shows "io_inv T (push_and_wake u hs s)"
  unfolding push_and_wake_def by (rule io_inv_woken [OF inv woken_wake]) (simp add: u)

lemma io_inv_counts:
  assumes inv: "io_inv T s" and eq: "io_threads s' = io_threads s" "ev_waiters s' = ev_waiters s" "tasks (io_queue s') = tasks (io_queue s)" "io_task s' = io_task s"
    and work: "io_work s' = io_work s + int (length (ops (io_queue s'))) - int (length (ops (io_queue s)))
      + int (size (io_pending s')) - int (size (io_pending s)) + int (io_users s') - int (io_users s)"
    and acc: "io_accepted s' + (io_started s + mset (ops (io_queue s)) + io_pending s)
      = io_accepted s + (io_started s' + mset (ops (io_queue s')) + io_pending s')"
    and fin: "finite T"
  shows "io_inv T s'"
  by (rule io_inv_step [OF inv fin, where t = 0]) (use inv work acc in \<open>simp_all add: eq io_inv_def\<close>)

lemma push_private_inv:
  assumes inv: "io_inv T s" "finite T" and t: "t \<in> T" and p: "(\<exists>h. pc s t = In_handler h) \<or> (\<exists>b. pc s t = In_task b)"
    and hs: "mset hs \<subseteq># io_pending s"
  shows "io_inv T (push_private t hs (s\<lparr>io_pending := io_pending s - mset hs\<rparr>))"
proof -
  have "size (io_pending s - mset hs) = size (io_pending s) - length hs" "length hs \<le> size (io_pending s)"
    using hs size_mset_mono [OF hs] by (simp_all add: size_Diff_submset)
  moreover have "th_ok (io_threads s t)" using inv(1) by (simp add: io_inv_def)
  moreover have "mset hs + (io_pending s - mset hs) = io_pending s" using hs by simp
  ultimately show ?thesis
    by (intro io_inv_step [OF inv disjI1 [OF t]]) (use p in \<open>auto simp: push_private_def thread_counts of_nat_diff ac_simps\<close>)
qed

lemma caller_member: "io_inv T s \<Longrightarrow> caller (Some t) s \<Longrightarrow> t \<in> T \<and> (\<exists>h. pc s t = In_handler h)"
  by (auto simp: io_inv_def caller_def)

lemma post_inv:
  assumes inv: "io_inv T s" "finite T" and c: "caller t s" and u: "may_wake u s"
  shows "io_inv T (accept h (post_immediate_completion one_thread is_continuation t u h s))"
proof (cases "(one_thread \<or> is_continuation) \<and> contains t s")
  case True
  then obtain t0 where t0: "t = Some t0" by (cases t) (auto simp: contains_def)
  note m = caller_member [OF inv(1), of t0]
  have "th_work (io_threads s t0) \<le> length (th_queue (io_threads s t0))" using inv(1) by (simp add: io_inv_def th_ok_def)
  with True t0 c m show ?thesis
    by (intro io_inv_step [OF inv, where t = t0])
      (auto simp: post_immediate_completion_def push_private_def accept_def thread_counts)
next
  case False
  let ?s = "accept h (s\<lparr>io_work := io_work s + 1, io_queue := io_queue s @ [Op h]\<rparr>)"
  have "io_inv T ?s" by (rule io_inv_counts [OF inv(1)]) (use inv(2) in \<open>simp_all add: accept_def\<close>)
  moreover have "may_wake u ?s" using u by (simp add: accept_def may_wake_def split: option.splits)
  ultimately have "io_inv T (wake_one_thread u ?s)" using io_inv_woken [OF _ inv(2) woken_wake] by blast
  moreover have "accept h (post_immediate_completion one_thread is_continuation t u h s) = wake_one_thread u ?s"
    unfolding post_immediate_completion_def if_not_P [OF False] by (simp add: push_and_wake_def work_started_def accept_wake)
  ultimately show ?thesis by simp
qed

lemma complete_inv:
  assumes inv: "io_inv T s" "finite T" and c: "caller t s" and u: "may_wake u s" and hs: "mset hs \<subseteq># io_pending s"
  shows "io_inv T (if one_thread \<and> contains t s then push_private (the t) hs (s\<lparr>io_pending := io_pending s - mset hs\<rparr>)
    else push_and_wake u hs (s\<lparr>io_pending := io_pending s - mset hs\<rparr>))"
proof (cases "one_thread \<and> contains t s")
  case True
  then obtain t0 where t0: "t = Some t0" by (cases t) (auto simp: contains_def)
  with True push_private_inv [OF inv _ _ hs, of t0] caller_member [OF inv(1), of t0] c show ?thesis by auto
next
  case False
  have "size (io_pending s - mset hs) = size (io_pending s) - length hs" "length hs \<le> size (io_pending s)"
    using hs size_mset_mono [OF hs] by (simp_all add: size_Diff_submset)
  moreover have "mset hs + (io_pending s - mset hs) = io_pending s" using hs by simp
  ultimately have "io_inv T (s\<lparr>io_pending := io_pending s - mset hs, io_queue := io_queue s @ map Op hs\<rparr>)"
    by (intro io_inv_counts [OF inv(1)]) (use inv(2) in \<open>auto simp: of_nat_diff ac_simps\<close>)
  then have "io_inv T (push_and_wake u hs (s\<lparr>io_pending := io_pending s - mset hs\<rparr>))"
    by (intro push_and_wake_inv) (use inv(2) u in simp_all)
  then show ?thesis unfolding if_not_P [OF False] .
qed

lemma contains_pending [simp]: "contains t (s\<lparr>io_pending := a\<rparr>) = contains t s"
  by (simp add: contains_def split: option.splits)

lemma finish_inv:
  assumes inv: "io_inv T s" "finite T" and n: "0 < io_users s"
  shows "io_inv T (work_finished (s\<lparr>io_users := io_users s - 1\<rparr>))"
proof -
  let ?s = "s\<lparr>io_users := io_users s - 1\<rparr>"
  have "io_inv T (?s\<lparr>io_work := io_work s - 1\<rparr>)" by (rule io_inv_counts [OF inv(1)]) (use inv(2) n in \<open>auto simp: of_nat_diff\<close>)
  then show ?thesis using io_inv_woken [OF _ inv(2) work_finished_woken [of ?s]] by simp
qed

lemma init_inv:
  assumes inv: "io_inv T s" "finite T" and u: "may_wake u s"
  shows "io_inv T (init_task u s)"
proof (cases "\<not> io_shutdown s \<and> \<not> io_task s")
  case True
  let ?s = "s\<lparr>io_task := True, io_queue := io_queue s @ [Task]\<rparr>"
  have "io_inv T ?s" by (rule io_inv_step [OF inv, where t = 0]) (use inv(1) True in \<open>simp_all add: io_inv_def\<close>)
  moreover have "may_wake u ?s" using u by simp
  ultimately have "io_inv T (wake_one_thread u ?s)" using io_inv_woken [OF _ inv(2) woken_wake] by blast
  with True show ?thesis by (simp add: init_task_def)
qed (use inv in \<open>auto simp: init_task_def\<close>)

lemma io_step_inv:
  assumes step: "io_step cf s s'" and inv: "io_inv (cf_threads cf) s" and fin: "finite (cf_threads cf)"
  shows "io_inv (cf_threads cf) s'"
  using step
proof cases
  case (enter t m)
  then show ?thesis using enter_inv [OF inv fin] by simp
next
  case (run_loop t u)
  then show ?thesis using do_run_one_inv [OF inv fin] by simp
next
  case (poll_loop t u)
  then show ?thesis using do_poll_one_inv [OF inv fin] by simp
next
  case (unblocked t)
  then show ?thesis using wait_again_inv [OF inv fin] by simp
next
  case (spurious t)
  then show ?thesis using quiet_thread [OF inv, of t]
    by (intro io_inv_step [OF inv fin, where t = t]) (simp_all add: thread_counts)
next
  case (task_interrupted t b)
  have "th_ok (io_threads s t)" using inv by (simp add: io_inv_def)
  then show ?thesis using task_interrupted
    by (intro io_inv_step [OF inv fin, where t = t]) (auto simp: task_wakes_def thread_counts)
next
  case timer_scheduled
  then show ?thesis using io_inv_woken [OF inv fin, of s'] by (simp add: interrupt_reactor_def woken_def same_counts_def)
next
  case (task_completes t b h)
  then show ?thesis using push_private_inv [OF inv fin, of t "[h]"] by simp
next
  case (task_returns t b u)
  then show ?thesis using task_return_inv [OF inv fin] by simp
next
  case (handler_returns t h)
  then show ?thesis using leave_handler_inv [OF inv fin] by (simp add: handler_return_def)
next
  case (handler_throws t h)
  then show ?thesis using leave_handler_inv [OF inv fin] by (simp add: handler_throw_def)
next
  case (post t u h is_continuation)
  then show ?thesis using post_inv [OF inv fin] by simp
next
  case (dispatch u h)
  then have "io_inv (cf_threads cf) (accept h (post_immediate_completion False False None u h s))"
    by (intro post_inv [OF inv fin]) (simp_all add: caller_def)
  then show ?thesis using dispatch by (simp add: post_immediate_completion_def do_dispatch_io_def)
next
  case (started h)
  then show ?thesis by (auto intro!: io_inv_counts [OF inv] simp: fin accept_def work_started_def)
next
  case (complete_one t u h)
  then show ?thesis using complete_inv [OF inv fin, of t u "[h]" "cf_one_thread cf", unfolded mset.simps] by (simp add: post_deferred_completion_def)
next
  case (complete_all t u hs)
  then show ?thesis using complete_inv [OF inv fin, of t u hs] inv by (auto simp: post_deferred_completions_def)
next
  case new_work
  then show ?thesis by (auto intro!: io_inv_counts [OF inv] simp: fin work_started_def)
next
  case end_work
  then show ?thesis using finish_inv [OF inv fin] by simp
next
  case stopped_by
  then show ?thesis using io_inv_woken [OF inv fin woken_stop] by simp
next
  case reset_by
  then show ?thesis by (auto intro!: io_inv_counts [OF inv] simp: fin reset_def)
next
  case (initialised u)
  then show ?thesis using init_inv [OF inv fin] by simp
qed

lemma io_reachable_inv: "io_reachable cf s \<Longrightarrow> finite (cf_threads cf) \<Longrightarrow> io_inv (cf_threads cf) s"
proof (induction rule: io_reachable.induct)
  case io_initial
  then show ?case by (simp add: io_inv_def new_io_service_def new_thread_def thread_counts)
qed (rule io_step_inv)

subsection \<open>No lost wakeups\<close>

text \<open>
  A thread is awake when it will come to the queue by itself: not while it waits on the event, nor in a task that
  waits for events and whose interrupter will not be reported. The service is live when nobody runs it, or some thread is awake, or one has
  been unblocked and will find the event signalled.
\<close>

definition awake :: "'h io_state \<Rightarrow> nat \<Rightarrow> bool" where
  "awake s t \<longleftrightarrow> (case pc s t of Looping \<Rightarrow> True | In_handler h \<Rightarrow> True | In_task block \<Rightarrow> \<not> block \<or> io_signal s | _ \<Rightarrow> False)"

definition live :: "'h io_state \<Rightarrow> bool" where
  "live s \<longleftrightarrow> (\<forall>t. pc s t = Idle) \<or> (\<exists>t. awake s t) \<or> ev_signalled s \<and> (\<exists>t. pc s t = Notified)"

text \<open>Once the service is stopped no thread is left behind.\<close>

definition all_told :: "'h io_state \<Rightarrow> bool" where
  "all_told s \<longleftrightarrow> ev_signalled s \<and> (\<forall>t. pc s t \<noteq> Sleeping \<and> (\<forall>b. pc s t = In_task b \<longrightarrow> awake s t))"

text \<open>While the task waits and the loop believes it interrupted, the interrupter is still to be reported.\<close>

definition sig_ok :: "'h io_state \<Rightarrow> bool" where
  "sig_ok s \<longleftrightarrow> (\<forall>t. pc s t = In_task True \<longrightarrow> io_interrupted s \<longrightarrow> io_signal s)"

definition waiters_ok :: "'h io_state \<Rightarrow> bool" where
  "waiters_ok s \<longleftrightarrow> (0 < ev_waiters s \<longleftrightarrow> (\<exists>t. pc s t = Sleeping \<or> pc s t = Notified))
     \<and> (\<forall>t b. pc s t = In_task b \<longrightarrow> io_task s \<and> (\<forall>u c. pc s u = In_task c \<longrightarrow> u = t)) \<and> sig_ok s"

definition run_inv :: "'h io_state \<Rightarrow> bool" where
  "run_inv s \<longleftrightarrow> (\<forall>t. pc s t = Idle \<or> th_mode (io_threads s t) = Run) \<and> (io_queue s = [] \<or> live s) \<and> (\<not> io_stopped s \<or> all_told s)"

lemma awake_live: "awake s t \<Longrightarrow> live s"
  by (auto simp: live_def)

lemma all_told_live: "all_told s \<Longrightarrow> live s"
proof (cases "\<forall>t. pc s t = Idle")
  case False
  then obtain t where t: "pc s t \<noteq> Idle" by blast
  assume a: "all_told s"
  then have "pc s t \<noteq> Sleeping" "\<And>b. pc s t = In_task b \<Longrightarrow> awake s t" unfolding all_told_def by blast+
  moreover have "awake s t" if "pc s t = Looping \<or> (\<exists>h. pc s t = In_handler h)" using that by (auto simp: awake_def)
  ultimately have "awake s t \<or> pc s t = Notified" using t by (metis thread_pc.exhaust)
  with a show ?thesis by (auto simp: live_def all_told_def)
qed (simp add: live_def)

lemma io_inv_task:
  assumes inv: "io_inv T s" "finite T" and t: "pc s t = In_task b"
  shows "io_task s" "tasks (io_queue s) = 0" "\<And>u c. pc s u = In_task c \<Longrightarrow> u = t"
proof -
  have "t \<in> T" if "pc s t = In_task b" for t b
  proof -
    have "t \<in> T \<or> pc s t = Idle" using inv(1) unfolding io_inv_def by blast
    then show ?thesis using that by simp
  qed
  note T = this
  have sum: "tasks (io_queue s) + (\<Sum>t\<in>T. th_tasks (io_threads s t)) = (if io_task s then 1 else 0)"
    using inv(1) unfolding io_inv_def by blast
  have "th_tasks (io_threads s t) \<le> (\<Sum>u\<in>T. th_tasks (io_threads s u))"
    by (rule member_le_sum) (use inv(2) T [OF t] in simp_all)
  then show "io_task s" "tasks (io_queue s) = 0" using sum t by (auto simp: th_tasks_def split: if_splits)
  show "u = t" if u: "pc s u = In_task c" for u c
  proof (rule ccontr)
    assume ne: "u \<noteq> t"
    have "(\<Sum>v\<in>{t, u}. th_tasks (io_threads s v)) \<le> (\<Sum>v\<in>T. th_tasks (io_threads s v))"
      by (rule sum_mono2) (use inv(2) T [OF t] T [OF u] in auto)
    also have "\<dots> \<le> (if io_task s then 1 else 0)" using sum by linarith
    finally show False using ne t u by (simp add: th_tasks_def split: if_splits)
  qed
qed

lemma io_inv_waiters: "io_inv T s \<Longrightarrow> finite T \<Longrightarrow> sig_ok s \<Longrightarrow> waiters_ok s"
proof -
  assume inv: "io_inv T s" and fin: "finite T" and sig: "sig_ok s"
  have "\<forall>t. t \<in> T \<or> pc s t = Idle" using inv unfolding io_inv_def by blast
  then have out: "t \<in> T" if "pc s t \<noteq> Idle" for t using that by blast
  have w: "ev_waiters s = (\<Sum>t\<in>T. th_waits (io_threads s t))" using inv unfolding io_inv_def by blast
  have "0 < (\<Sum>t\<in>T. th_waits (io_threads s t)) \<longleftrightarrow> (\<exists>t\<in>T. 0 < th_waits (io_threads s t))"
    unfolding neq0_conv [symmetric] sum_eq_0_iff [OF fin] by simp
  also have "\<dots> \<longleftrightarrow> (\<exists>t\<in>T. pc s t = Sleeping \<or> pc s t = Notified)" by (simp add: th_waits_def)
  also have "\<dots> \<longleftrightarrow> (\<exists>t. pc s t = Sleeping \<or> pc s t = Notified)" using out by (metis thread_pc.distinct(3,5))
  finally have "0 < ev_waiters s \<longleftrightarrow> (\<exists>t. pc s t = Sleeping \<or> pc s t = Notified)" unfolding w .
  moreover note io_inv_task [OF inv fin]
  ultimately show ?thesis using sig unfolding waiters_ok_def by blast
qed

lemma cond_signal_threads: "may_wake u s \<Longrightarrow> \<exists>t. pc s t = Sleeping \<or> pc s t = Notified \<Longrightarrow> \<exists>t. pc (cond_signal u (s\<lparr>ev_signalled := b\<rparr>)) t = Notified"
  by (cases u) (auto simp: may_wake_def cond_signal_def)

lemma wake_live:
  assumes u: "may_wake u s" and ok: "waiters_ok s"
  shows "live (wake_one_thread u s)"
proof (cases "0 < ev_waiters s")
  case True
  then have "\<exists>t. pc s t = Sleeping \<or> pc s t = Notified" using ok by (auto simp: waiters_ok_def)
  then have "\<exists>t. pc (cond_signal u (s\<lparr>ev_signalled := True\<rparr>)) t = Notified" by (rule cond_signal_threads [OF u])
  moreover have "ev_signalled (cond_signal u (s\<lparr>ev_signalled := True\<rparr>))" by (simp add: cond_signal_def split: option.splits)
  ultimately show ?thesis using True by (auto simp: wake_one_thread_def maybe_unlock_and_signal_one_def Let_def live_def)
next
  case False
  then have none: "pc s t \<noteq> Sleeping \<and> pc s t \<noteq> Notified" for t using ok by (auto simp: waiters_ok_def)
  have e: "wake_one_thread u s = interrupt_task (s\<lparr>ev_signalled := True\<rparr>)"
    using False by (simp add: wake_one_thread_def maybe_unlock_and_signal_one_def Let_def)
  have th: "io_threads (wake_one_thread u s) = io_threads s" by (simp add: e interrupt_task_def interrupt_reactor_def)
  show ?thesis
  proof (cases "\<forall>t. pc s t = Idle")
    case False
    then obtain t where t: "pc s t \<noteq> Idle" by blast
    have "awake (wake_one_thread u s) t"
    proof (cases "pc s t")
      case (In_task b)
      then have "io_task s" "b \<Longrightarrow> io_interrupted s \<Longrightarrow> io_signal s" using ok by (auto simp: waiters_ok_def sig_ok_def)
      then have "b \<Longrightarrow> io_signal (wake_one_thread u s)" by (simp add: e interrupt_task_def interrupt_reactor_def)
      then show ?thesis using In_task by (auto simp: awake_def th)
    qed (use t none [of t] in \<open>simp_all add: awake_def th\<close>)
    then show ?thesis by (rule awake_live)
  qed (simp add: live_def th)
qed

lemma wake_told: "may_wake u s \<Longrightarrow> all_told s \<Longrightarrow> all_told (wake_one_thread u s)"
proof -
  assume u: "may_wake u s" and a: "all_told s"
  have pcs: "pc (wake_one_thread u s) t = pc s t" for t using woken_pc [OF woken_wake [OF u], of t] a by (simp add: all_told_def)
  have "ev_signalled (wake_one_thread u s)" "io_signal s \<longrightarrow> io_signal (wake_one_thread u s)"
    by (auto simp: wake_one_thread_def maybe_unlock_and_signal_one_def interrupt_task_def interrupt_reactor_def cond_signal_def Let_def split: option.splits)
  with a show ?thesis by (auto simp: all_told_def awake_def pcs split: thread_pc.splits)
qed

lemma wake_stopped [simp]: "io_stopped (wake_one_thread u s) = io_stopped s"
  by (simp add: wake_one_thread_def maybe_unlock_and_signal_one_def interrupt_task_def interrupt_reactor_def cond_signal_def Let_def split: option.splits)

lemma stop_told:
  assumes "waiters_ok s"
  shows "all_told (stop_all_threads s)"
proof -
  have p: "pc (stop_all_threads s) t = (if pc s t = Sleeping then Notified else pc s t)" for t
    by (simp add: stop_all_threads_def interrupt_task_def interrupt_reactor_def signal_all_def cond_broadcast_def)
  have i: "io_signal (stop_all_threads s) \<or> \<not> io_task s \<or> io_interrupted s \<and> \<not> io_signal s" "ev_signalled (stop_all_threads s)"
    by (auto simp: stop_all_threads_def interrupt_task_def interrupt_reactor_def signal_all_def cond_broadcast_def)
  have "b \<Longrightarrow> awake (stop_all_threads s) t" if "pc s t = In_task b" for t b
    using assms i(1) that by (auto simp: waiters_ok_def sig_ok_def awake_def p)
  then show ?thesis using i(2) by (auto simp: all_told_def awake_def p split: if_splits)
qed

lemma told_cong: "io_threads s' = io_threads s \<Longrightarrow> ev_signalled s' = ev_signalled s \<Longrightarrow> io_signal s' = io_signal s
    \<Longrightarrow> all_told s' = all_told s \<and> live s' = live s"
proof -
  assume a: "io_threads s' = io_threads s" "ev_signalled s' = ev_signalled s" "io_signal s' = io_signal s"
  then have "awake s' = awake s" by (simp add: fun_eq_iff awake_def split: thread_pc.split)
  with a show ?thesis by (simp add: all_told_def live_def)
qed

lemma mode_woken: "woken_thread th th' \<Longrightarrow> th_pc th = Idle \<or> th_mode th = Run \<Longrightarrow> th_pc th' = Idle \<or> th_mode th' = Run"
  by (auto simp: woken_thread_def)

lemma run_inv_same:
  "run_inv s \<Longrightarrow> io_threads s' = io_threads s \<Longrightarrow> ev_signalled s' = ev_signalled s \<Longrightarrow> io_signal s' = io_signal s
    \<Longrightarrow> io_stopped s' = io_stopped s \<Longrightarrow> io_queue s' = io_queue s \<Longrightarrow> run_inv s'"
  using told_cong [of s' s] by (simp add: run_inv_def)

lemma run_inv_stop: "run_inv s \<Longrightarrow> waiters_ok s \<Longrightarrow> run_inv (stop_all_threads s)"
proof -
  assume r: "run_inv s" and "waiters_ok s"
  then have "all_told (stop_all_threads s)" by (intro stop_told)
  moreover have "\<forall>t. pc (stop_all_threads s) t = Idle \<or> th_mode (io_threads (stop_all_threads s) t) = Run"
    using r woken_stop [of s] mode_woken unfolding run_inv_def woken_def by blast
  ultimately show ?thesis using all_told_live unfolding run_inv_def by blast
qed

lemma run_inv_finished: "run_inv s \<Longrightarrow> waiters_ok s \<Longrightarrow> run_inv (work_finished s)"
proof -
  assume r: "run_inv s" and w: "waiters_ok s"
  let ?s = "s\<lparr>io_work := io_work s - 1\<rparr>"
  have "run_inv ?s" "waiters_ok ?s" using run_inv_same [OF r, of ?s] w by (simp_all add: waiters_ok_def sig_ok_def)
  then show ?thesis using run_inv_stop [of ?s] by (cases "io_work ?s = 0") (simp_all only: work_finished_def Let_def if_True if_False simp_thms)
qed

text \<open>What is pushed on the common queue finds somebody.\<close>

lemma run_inv_push:
  assumes r: "run_inv s" and u: "may_wake u s" and w: "waiters_ok s'"
    and s': "io_threads s' = io_threads s" "ev_signalled s' = ev_signalled s" "io_signal s' = io_signal s" "io_stopped s' = io_stopped s"
  shows "run_inv (wake_one_thread u s')"
proof -
  have u': "may_wake u s'" using u may_wake_threads [of s' s u] by (simp add: s')
  have "\<forall>t. pc (wake_one_thread u s') t = Idle \<or> th_mode (io_threads (wake_one_thread u s') t) = Run"
    using r woken_wake [OF u'] mode_woken unfolding run_inv_def woken_def s' by blast
  moreover have "\<not> io_stopped (wake_one_thread u s') \<or> all_told (wake_one_thread u s')"
    using r told_cong [of s' s] wake_told [OF u'] s' by (auto simp: run_inv_def)
  ultimately show ?thesis using wake_live [OF u' w] unfolding run_inv_def by blast
qed

text \<open>A step that leaves its thread awake, and no other worse off.\<close>

lemma run_inv_awake:
  assumes r: "run_inv s" and modes: "\<forall>v. pc s' v = Idle \<or> th_mode (io_threads s' v) = Run" and a: "awake s' t"
    and told: "\<not> io_stopped s' \<or> all_told s'"
  shows "run_inv s'"
  using modes awake_live [OF a] told by (simp add: run_inv_def)

lemma told_set_pc: "all_told s \<Longrightarrow> p \<noteq> Sleeping \<Longrightarrow> (\<And>b. p = In_task b \<Longrightarrow> \<not> b \<or> io_signal s) \<Longrightarrow> all_told (set_pc t p s)"
  by (simp add: all_told_def awake_def)

lemma run_loop_run_inv:
  assumes r: "run_inv s" and t: "pc s t = Looping" and u: "may_wake u s"
  shows "run_inv (do_run_one one_thread u t s)"
proof -
  have modes: "\<forall>v. pc s v = Idle \<or> th_mode (io_threads s v) = Run" using r by (simp add: run_inv_def)
  then have m: "th_mode (io_threads s t) = Run" using t spec [OF modes, of t] by simp
  consider "io_stopped s" | "\<not> io_stopped s" "io_queue s = []" | rest where "\<not> io_stopped s" "io_queue s = Task # rest"
    | h rest where "\<not> io_stopped s" "io_queue s = Op h # rest"
    by (cases "io_queue s"; cases "hd (io_queue s)") auto
  then show ?thesis
  proof cases
    case 1
    then have "all_told (set_pc t Idle s)" using r by (intro told_set_pc) (simp_all add: run_inv_def)
    then show ?thesis using 1 modes all_told_live [of "set_pc t Idle s"] by (simp add: do_run_one_def run_inv_def)
  next
    case 2
    then show ?thesis using modes m by (simp add: do_run_one_def clear_and_wait_def run_inv_def)
  next
    case 3
    define s1 where "s1 = s\<lparr>io_queue := rest, io_interrupted := (rest \<noteq> [])\<rparr>"
    define s2 where "s2 = (if rest \<noteq> [] \<and> \<not> one_thread then unlock_and_signal_one u s1 else s1)"
    have w: "woken s1 s2" using u by (simp add: s2_def s1_def woken_unlock)
    have e: "do_run_one one_thread u t s = set_pc t (In_task (rest = [])) s2" using 3 by (simp add: do_run_one_def s1_def s2_def Let_def)
    have "io_threads s2 t = io_threads s t" using woken_pc [OF w, of t] t by (simp add: s1_def)
    moreover have th1: "io_threads s1 = io_threads s" by (simp add: s1_def)
    have "\<forall>v. pc s2 v = Idle \<or> th_mode (io_threads s2 v) = Run"
      using w modes mode_woken unfolding woken_def th1 by blast
    ultimately have modes': "\<forall>v. pc (set_pc t (In_task (rest = [])) s2) v = Idle \<or> th_mode (io_threads (set_pc t (In_task (rest = [])) s2) v) = Run"
      using m by simp
    have st: "\<not> io_stopped s2" using 3 by (simp add: s2_def s1_def unlock_and_signal_one_def cond_signal_def Let_def split: option.splits)
    have q: "io_queue s2 = rest" using w by (simp add: woken_def same_counts_def s1_def)
    show ?thesis
    proof (cases "rest = []")
      case True
      then show ?thesis using modes' st q unfolding e run_inv_def by simp
    next
      case False
      then have "awake (set_pc t (In_task (rest = [])) s2) t" by (simp add: awake_def)
      then show ?thesis unfolding e by (intro run_inv_awake [OF r modes']) (use st in simp_all)
    qed
  next
    case 4
    have e: "do_run_one one_thread u t s = take_handler one_thread u t h rest s" using 4 by (simp add: do_run_one_def)
    have "pc s t \<noteq> Sleeping" using t by simp
    note f = take_handler_fields [where one_thread = one_thread and h = h and rest = rest, OF u this]
    have "\<forall>v. pc (take_handler one_thread u t h rest s) v = Idle \<or> th_mode (io_threads (take_handler one_thread u t h rest s) v) = Run"
    proof
      fix v show "pc (take_handler one_thread u t h rest s) v = Idle \<or> th_mode (io_threads (take_handler one_thread u t h rest s) v) = Run"
        using f(9) mode_woken [OF f(10)] spec [OF modes, of v] m by (cases "v = t") simp_all
    qed
    moreover have "awake (take_handler one_thread u t h rest s) t" by (simp add: awake_def f)
    moreover have "\<not> io_stopped (take_handler one_thread u t h rest s)" using 4 by (simp add: take_handler_def Let_def)
    ultimately show ?thesis unfolding e by (intro run_inv_awake [OF r]) simp_all
  qed
qed

lemma told_same_pc: "(\<And>t. pc s' t = pc s t) \<Longrightarrow> ev_signalled s' = ev_signalled s \<Longrightarrow> io_signal s' = io_signal s
    \<Longrightarrow> all_told s' = all_told s \<and> live s' = live s"
proof -
  assume a: "\<And>t. pc s' t = pc s t" "ev_signalled s' = ev_signalled s" "io_signal s' = io_signal s"
  then have "awake s' = awake s" by (simp add: fun_eq_iff awake_def split: thread_pc.split)
  with a show ?thesis by (simp add: all_told_def live_def)
qed

lemma run_inv_same_pc:
  "run_inv s \<Longrightarrow> (\<And>t. pc s' t = pc s t \<and> th_mode (io_threads s' t) = th_mode (io_threads s t)) \<Longrightarrow> ev_signalled s' = ev_signalled s
    \<Longrightarrow> io_signal s' = io_signal s \<Longrightarrow> io_stopped s' = io_stopped s \<Longrightarrow> io_queue s' = io_queue s \<Longrightarrow> run_inv s'"
  using told_same_pc [of s' s] by (simp add: run_inv_def)

lemma wait_again_run_inv:
  assumes r: "run_inv s" and t: "pc s t = Notified"
  shows "run_inv (wait_again t s)"
proof -
  have modes: "\<forall>v. pc s v = Idle \<or> th_mode (io_threads s v) = Run" using r by (simp add: run_inv_def)
  then have m: "th_mode (io_threads s t) = Run" using t spec [OF modes, of t] by simp
  show ?thesis
  proof (cases "ev_signalled s")
    case True
    then have e: "wait_again t s = set_pc t Looping (s\<lparr>ev_waiters := ev_waiters s - 1\<rparr>)" by (simp add: wait_again_def)
    have "all_told s \<Longrightarrow> all_told (s\<lparr>ev_waiters := ev_waiters s - 1\<rparr>)" using told_cong [of "s\<lparr>ev_waiters := ev_waiters s - 1\<rparr>" s] by simp
    then have "\<not> io_stopped (wait_again t s) \<or> all_told (wait_again t s)"
      using r told_set_pc [of "s\<lparr>ev_waiters := ev_waiters s - 1\<rparr>" Looping t] by (auto simp: e run_inv_def)
    moreover have "awake (wait_again t s) t" by (simp add: e awake_def)
    ultimately show ?thesis using m modes by (intro run_inv_awake [OF r]) (simp_all add: e)
  next
    case False
    then have e: "wait_again t s = set_pc t Sleeping s" by (simp add: wait_again_def)
    have ns: "\<not> io_stopped s" using r False by (auto simp: run_inv_def all_told_def)
    have "io_queue s = [] \<or> live (set_pc t Sleeping s)"
    proof (cases "io_queue s = []")
      case False
      then obtain v where v: "awake s v" using r t \<open>\<not> ev_signalled s\<close> by (auto simp: run_inv_def live_def)
      then have "v \<noteq> t" using t by (auto simp: awake_def)
      with v have "awake (set_pc t Sleeping s) v" by (simp add: awake_def split: thread_pc.splits)
      then show ?thesis using awake_live by blast
    qed simp
    then show ?thesis using ns modes m by (simp add: e run_inv_def)
  qed
qed

lemma spurious_run_inv:
  assumes r: "run_inv s" and t: "pc s t = Sleeping"
  shows "run_inv (set_pc t Notified s)"
proof -
  have modes: "\<forall>v. pc s v = Idle \<or> th_mode (io_threads s v) = Run" using r by (simp add: run_inv_def)
  then have m: "th_mode (io_threads s t) = Run" using t spec [OF modes, of t] by simp
  have ns: "\<not> io_stopped s" using r t by (auto simp: run_inv_def all_told_def)
  have "live (set_pc t Notified s)" if "live s"
  proof -
    have "awake (set_pc t Notified s) v" if "awake s v" for v
      using that t by (cases "v = t") (simp_all add: awake_def split: thread_pc.splits)
    then show ?thesis using that t by (auto simp: live_def)
  qed
  then show ?thesis using r ns modes m by (auto simp: run_inv_def)
qed

lemma task_return_run_inv:
  assumes r: "run_inv s" and t: "pc s t = In_task b"
  shows "run_inv (task_return one_thread u t s)"
proof -
  have modes: "\<forall>v. pc s v = Idle \<or> th_mode (io_threads s v) = Run" using r by (simp add: run_inv_def)
  then have m: "th_mode (io_threads s t) = Run" using t spec [OF modes, of t] by simp
  have e: "task_return one_thread u t s = set_pc t Looping (task_cleanup t s)" using m by (simp add: task_return_def Let_def)
  have "all_told (task_cleanup t s)" if a: "all_told s"
  proof -
    have "awake (task_cleanup t s) v" if "pc s v = In_task c" for v c
      using a that unfolding all_told_def by (auto simp: awake_def)
    then show ?thesis using a by (auto simp: all_told_def)
  qed
  then have "\<not> io_stopped (task_return one_thread u t s) \<or> all_told (task_return one_thread u t s)"
    using r told_set_pc [of "task_cleanup t s" Looping t] by (auto simp: e run_inv_def)
  moreover have "awake (task_return one_thread u t s) t" by (simp add: e awake_def)
  ultimately show ?thesis using modes m by (intro run_inv_awake [OF r]) (simp_all add: e)
qed

lemma handler_return_run_inv:
  assumes r: "run_inv s" and t: "pc s t = In_handler h" and w: "waiters_ok s"
  shows "run_inv (handler_return t s)"
proof -
  have modes: "\<forall>v. pc s v = Idle \<or> th_mode (io_threads s v) = Run" using r by (simp add: run_inv_def)
  then have m: "th_mode (io_threads s t) = Run" using t spec [OF modes, of t] by simp
  let ?s1 = "if 1 < th_work (io_threads s t) then s\<lparr>io_work := io_work s + int (th_work (io_threads s t) - 1)\<rparr>
    else if th_work (io_threads s t) < 1 then work_finished s else s"
  have 1: "run_inv ?s1"
    using r run_inv_finished [OF r w] run_inv_same [OF r, of "s\<lparr>io_work := io_work s + int (th_work (io_threads s t) - 1)\<rparr>"] by auto
  have "work_cleanup t s = on_thread t (\<lambda>th. th\<lparr>th_work := 0, th_queue := []\<rparr>) (?s1\<lparr>io_queue := io_queue ?s1 @ map Op (th_queue (io_threads s t))\<rparr>)"
    by (simp only: work_cleanup_def Let_def)
  then have c: "pc (work_cleanup t s) v = pc ?s1 v" "th_mode (io_threads (work_cleanup t s) v) = th_mode (io_threads ?s1 v)"
    "io_signal (work_cleanup t s) = io_signal ?s1" "ev_signalled (work_cleanup t s) = ev_signalled ?s1"
    "io_stopped (work_cleanup t s) = io_stopped ?s1" for v
    by simp_all
  have e: "handler_return t s = set_pc t Looping (work_cleanup t s)" using m by (simp add: handler_return_def)
  have "\<not> io_stopped (work_cleanup t s) \<or> all_told (work_cleanup t s)"
    using 1 told_same_pc [of "work_cleanup t s" ?s1] unfolding run_inv_def c by blast
  then have "\<not> io_stopped (handler_return t s) \<or> all_told (handler_return t s)"
    using told_set_pc [of "work_cleanup t s" Looping t] by (auto simp: e)
  moreover have "\<forall>v. pc (work_cleanup t s) v = Idle \<or> th_mode (io_threads (work_cleanup t s) v) = Run"
    using 1 unfolding run_inv_def c by blast
  then have "\<forall>v. pc (handler_return t s) v = Idle \<or> th_mode (io_threads (handler_return t s) v) = Run"
    using m work_cleanup_fields(9) [OF t] by (simp add: e)
  moreover have "awake (handler_return t s) t" by (simp add: e awake_def)
  ultimately show ?thesis by (intro run_inv_awake [OF r])
qed

lemma interrupt_run_inv:
  assumes r: "run_inv s"
  shows "run_inv (interrupt_reactor s)"
proof -
  have f: "io_threads (interrupt_reactor s) = io_threads s" "ev_signalled (interrupt_reactor s) = ev_signalled s"
    "io_stopped (interrupt_reactor s) = io_stopped s" "io_queue (interrupt_reactor s) = io_queue s" "io_signal (interrupt_reactor s)"
    by (simp_all add: interrupt_reactor_def)
  have "awake (interrupt_reactor s) v" if "awake s v" for v using that by (simp add: awake_def f split: thread_pc.splits)
  then have "live s \<longrightarrow> live (interrupt_reactor s)" "all_told s \<longrightarrow> all_told (interrupt_reactor s)"
    unfolding live_def all_told_def f by blast+
  then show ?thesis using r by (auto simp: run_inv_def f)
qed

lemma push_run_inv:
  assumes r: "run_inv s" and u: "may_wake u s" and w: "waiters_ok s"
    and s': "io_threads s' = io_threads s" "ev_signalled s' = ev_signalled s" "io_signal s' = io_signal s" "io_stopped s' = io_stopped s"
      "ev_waiters s' = ev_waiters s" "io_task s' = io_task s" "io_interrupted s' = io_interrupted s"
  shows "run_inv (push_and_wake u hs s')"
  unfolding push_and_wake_def by (rule run_inv_push [OF r u]) (use w s' in \<open>simp_all add: waiters_ok_def sig_ok_def\<close>)

lemma accept_run_inv: "run_inv s \<Longrightarrow> run_inv (accept h s)"
  by (erule run_inv_same) (simp_all add: accept_def)

lemma run_step_inv:
  assumes step: "io_step cf s s'" and r: "run_inv s" and w: "waiters_ok s" and cf: "cf_modes cf \<subseteq> {Run}" "\<not> cf_throws cf"
  shows "run_inv s'"
  using step
proof cases
  case (enter t m)
  have m: "m = Run" using enter cf by blast
  show ?thesis
  proof (cases "io_work s = 0")
    case True
    then show ?thesis using run_inv_stop [OF r w] enter by (simp add: enter_loop_def)
  next
    case False
    then have e: "s' = on_thread t (\<lambda>th. \<lparr>th_pc = Looping, th_mode = Run, th_queue = [], th_work = 0\<rparr>) s" using enter m by (simp add: enter_loop_def)
    have "awake s' t" by (simp add: e awake_def)
    moreover have "\<not> io_stopped s' \<or> all_told s'" using r by (auto simp: e run_inv_def all_told_def awake_def split: thread_pc.splits)
    ultimately show ?thesis using r by (intro run_inv_awake [OF r]) (simp_all add: e run_inv_def)
  qed
next
  case (run_loop t u)
  then show ?thesis using run_loop_run_inv [OF r] by simp
next
  case (poll_loop t u)
  have "pc s t = Idle \<or> th_mode (io_threads s t) = Run" using r by (simp add: run_inv_def)
  then show ?thesis using poll_loop by simp
next
  case (unblocked t)
  then show ?thesis using wait_again_run_inv [OF r] by simp
next
  case (spurious t)
  then show ?thesis using spurious_run_inv [OF r] by simp
next
  case (task_interrupted t b)
  have m: "\<forall>v. pc s v = Idle \<or> th_mode (io_threads s v) = Run" using r by (simp add: run_inv_def)
  have alone: "u = t" if "pc s u = In_task c" for u c
    using w task_interrupted(3) that unfolding waiters_ok_def by blast
  have "all_told s'" if a: "all_told s"
    unfolding all_told_def
  proof (intro conjI allI)
    show "ev_signalled s'" using a task_interrupted by (simp add: all_told_def task_wakes_def)
    fix v
    show "pc s' v \<noteq> Sleeping" using a task_interrupted by (simp add: all_told_def task_wakes_def)
    show "pc s' v = In_task c \<longrightarrow> awake s' v" for c
      using alone [of v c] task_interrupted by (cases "v = t") (auto simp: task_wakes_def awake_def)
  qed
  then have "\<not> io_stopped s' \<or> all_told s'" using r task_interrupted by (simp add: run_inv_def task_wakes_def)
  moreover have "awake s' t" using task_interrupted by (simp add: task_wakes_def awake_def)
  moreover have "\<forall>v. pc s' v = Idle \<or> th_mode (io_threads s' v) = Run"
    using m spec [OF m, of t] task_interrupted by (simp add: task_wakes_def)
  ultimately show ?thesis by (intro run_inv_awake [OF r])
next
  case timer_scheduled
  then show ?thesis using interrupt_run_inv [OF r] by simp
next
  case (task_completes t b h)
  then show ?thesis by (simp add: push_private_def) (rule run_inv_same_pc [OF r], simp_all)
next
  case (task_returns t b u)
  then show ?thesis using task_return_run_inv [OF r] by simp
next
  case (handler_returns t h)
  then show ?thesis using handler_return_run_inv [OF r _ w] by simp
next
  case (handler_throws t h)
  then show ?thesis using cf by simp
next
  case (post t u h is_continuation)
  then show ?thesis using push_run_inv [OF r _ w, of u "work_started s" "[h]"]
    by (auto simp: post_immediate_completion_def push_private_def work_started_def intro!: accept_run_inv run_inv_same_pc [OF r])
next
  case (dispatch u h)
  then show ?thesis using push_run_inv [OF r _ w, of u "work_started s" "[h]"]
    by (auto simp: do_dispatch_io_def work_started_def intro!: accept_run_inv)
next
  case (started h)
  then show ?thesis by (auto simp: work_started_def intro!: accept_run_inv run_inv_same [OF r])
next
  case (complete_one t u h)
  then show ?thesis using push_run_inv [OF r _ w, of u "s\<lparr>io_pending := io_pending s - {#h#}\<rparr>" "[h]"]
    by (auto simp: post_deferred_completion_def push_private_def intro!: run_inv_same_pc [OF r])
next
  case (complete_all t u hs)
  then show ?thesis using push_run_inv [OF r _ w, of u "s\<lparr>io_pending := io_pending s - mset hs\<rparr>" hs]
    by (auto simp: post_deferred_completions_def push_private_def intro!: run_inv_same_pc [OF r])
next
  case new_work
  then show ?thesis by (auto simp: work_started_def intro!: run_inv_same [OF r])
next
  case end_work
  have "run_inv (s\<lparr>io_users := io_users s - 1\<rparr>)" by (rule run_inv_same [OF r]) simp_all
  then show ?thesis using run_inv_finished [of "s\<lparr>io_users := io_users s - 1\<rparr>"] w end_work by (simp add: waiters_ok_def sig_ok_def)
next
  case stopped_by
  then show ?thesis using run_inv_stop [OF r w] by simp
next
  case reset_by
  have "all_told (reset s) = all_told s \<and> live (reset s) = live s" by (rule told_cong) (simp_all add: reset_def)
  then show ?thesis using r reset_by by (simp add: run_inv_def) (simp add: reset_def)
next
  case (initialised u)
  show ?thesis
  proof (cases "\<not> io_shutdown s \<and> \<not> io_task s")
    case True
    have "run_inv (wake_one_thread u (s\<lparr>io_task := True, io_queue := io_queue s @ [Task]\<rparr>))"
      by (rule run_inv_push [OF r]) (use w initialised in \<open>simp_all add: waiters_ok_def sig_ok_def\<close>)
    then show ?thesis using True initialised by (simp add: init_task_def)
  next
    case False
    then have "init_task u s = s" by (auto simp: init_task_def)
    then show ?thesis using initialised r by simp
  qed
qed

subsection \<open>The interrupter\<close>

text \<open>What leaves the task waiting, and the interrupter raised wherever the flag has been set.\<close>

definition sig_keeps :: "'h io_state \<Rightarrow> 'h io_state \<Rightarrow> bool" where
  "sig_keeps s s' \<longleftrightarrow> (\<forall>t. pc s' t = In_task True \<longrightarrow> pc s t = In_task True)
     \<and> (io_interrupted s' \<longrightarrow> io_interrupted s \<or> io_signal s') \<and> (io_signal s \<longrightarrow> io_signal s')"

lemma sig_keeps_ok: "sig_keeps s s' \<Longrightarrow> sig_ok s \<Longrightarrow> sig_ok s'"
  by (auto simp: sig_keeps_def sig_ok_def)

lemma sig_keeps_trans: "sig_keeps s s' \<Longrightarrow> sig_keeps s' s'' \<Longrightarrow> sig_keeps s s''"
  by (auto simp: sig_keeps_def)

lemma sig_keeps_same:
  "(\<And>t. pc s' t = In_task True \<Longrightarrow> pc s t = In_task True) \<Longrightarrow> io_interrupted s' = io_interrupted s \<Longrightarrow> io_signal s' = io_signal s
    \<Longrightarrow> sig_keeps s s'"
  by (simp add: sig_keeps_def)

lemma sig_keeps_interrupt: "sig_keeps s s' \<Longrightarrow> sig_keeps s (interrupt_task s')"
  by (auto simp: sig_keeps_def interrupt_task_def interrupt_reactor_def)

lemma sig_keeps_signal: "sig_keeps s (cond_signal u (s\<lparr>ev_signalled := b\<rparr>))" "sig_keeps s (s\<lparr>ev_signalled := b\<rparr>)"
  by (auto simp: sig_keeps_def cond_signal_def split: option.splits)

lemma sig_keeps_maybe: "sig_keeps s (fst (maybe_unlock_and_signal_one u s))"
  by (simp add: maybe_unlock_and_signal_one_def Let_def sig_keeps_signal)

lemma sig_keeps_unlock: "sig_keeps s (unlock_and_signal_one u s)"
  by (simp add: unlock_and_signal_one_def Let_def sig_keeps_signal)

lemma sig_keeps_wake: "sig_keeps s (wake_one_thread u s)"
  using sig_keeps_maybe [of s u] by (auto simp: wake_one_thread_def sig_keeps_interrupt split: prod.splits)

lemma sig_keeps_stop: "sig_keeps s (stop_all_threads s)"
  unfolding stop_all_threads_def
  by (rule sig_keeps_interrupt) (auto simp: sig_keeps_def signal_all_def cond_broadcast_def)

lemma sig_keeps_finished: "sig_keeps s (work_finished s)"
proof -
  have 1: "sig_keeps s (s\<lparr>io_work := io_work s - 1\<rparr>)" by (simp add: sig_keeps_def)
  show ?thesis unfolding work_finished_def Let_def
    using 1 sig_keeps_trans [OF 1 sig_keeps_stop] by (simp only: split: if_split) blast
qed

lemma sig_keeps_push: "sig_keeps s (push_and_wake u hs s)"
  unfolding push_and_wake_def by (rule sig_keeps_trans [OF _ sig_keeps_wake]) (simp add: sig_keeps_def)

lemma sig_keeps_take: "sig_keeps s (take_handler one_thread u t h rest s)"
proof -
  define s1 where "s1 = s\<lparr>io_queue := rest, io_started := add_mset h (io_started s)\<rparr>"
  define s2 where "s2 = (if rest \<noteq> [] \<and> \<not> one_thread then wake_one_thread u s1 else s1)"
  have "sig_keeps s s1" by (simp add: s1_def sig_keeps_def)
  then have "sig_keeps s s2" using sig_keeps_trans [of s s1, OF _ sig_keeps_wake [of s1 u]] by (simp add: s2_def)
  moreover have "sig_keeps s2 (set_pc t (In_handler h) s2)" by (simp add: sig_keeps_def)
  ultimately show ?thesis
    using sig_keeps_trans [of s s2] by (simp add: take_handler_def Let_def flip: s1_def s2_def)
qed

lemma sig_keeps_cleanup: "sig_keeps s (set_pc t Idle (work_cleanup t s))" "sig_keeps s (set_pc t Looping (work_cleanup t s))"
proof -
  let ?s1 = "if 1 < th_work (io_threads s t) then s\<lparr>io_work := io_work s + int (th_work (io_threads s t) - 1)\<rparr>
    else if th_work (io_threads s t) < 1 then work_finished s else s"
  have 1: "sig_keeps s ?s1" using sig_keeps_finished [of s] by (auto simp: sig_keeps_def)
  have "work_cleanup t s = on_thread t (\<lambda>th. th\<lparr>th_work := 0, th_queue := []\<rparr>) (?s1\<lparr>io_queue := io_queue ?s1 @ map Op (th_queue (io_threads s t))\<rparr>)"
    by (simp only: work_cleanup_def Let_def)
  then have "sig_keeps ?s1 (set_pc t p (work_cleanup t s))" if "p \<noteq> In_task True" for p
    using that by (intro sig_keeps_same) (simp_all split: if_splits)
  from sig_keeps_trans [OF 1 this] show "sig_keeps s (set_pc t Idle (work_cleanup t s))" "sig_keeps s (set_pc t Looping (work_cleanup t s))"
    by simp_all
qed

text \<open>Where the flag is set or the event used up, no other thread is in the task.\<close>

lemma sig_ok_alone: "(\<And>v. pc s' v \<noteq> In_task True) \<Longrightarrow> sig_ok s'"
  by (simp add: sig_ok_def)

lemma run_one_sig:
  assumes inv: "io_inv T s" "finite T" and ok: "sig_ok s"
  shows "sig_ok (do_run_one one_thread u t s)"
proof -
  consider "io_stopped s" | "\<not> io_stopped s" "io_queue s = []" | rest where "\<not> io_stopped s" "io_queue s = Task # rest"
    | h rest where "\<not> io_stopped s" "io_queue s = Op h # rest"
    by (cases "io_queue s"; cases "hd (io_queue s)") auto
  then show ?thesis
  proof cases
    case 3
    define s1 where "s1 = s\<lparr>io_queue := rest, io_interrupted := (rest \<noteq> [])\<rparr>"
    define s2 where "s2 = (if rest \<noteq> [] \<and> \<not> one_thread then unlock_and_signal_one u s1 else s1)"
    have e: "do_run_one one_thread u t s = set_pc t (In_task (rest = [])) s2" using 3 by (simp add: do_run_one_def s1_def s2_def Let_def)
    have k: "sig_keeps s1 s2" by (auto simp: s2_def sig_keeps_unlock sig_keeps_same)
    have "pc s v \<noteq> In_task True" for v using io_inv_task(2) [OF inv, of v True] 3 by auto
    then have n: "pc s2 v \<noteq> In_task True" for v using k by (auto simp: sig_keeps_def s1_def)
    show ?thesis
    proof (cases "rest = []")
      case True
      then have "\<not> io_interrupted s2" by (simp add: s2_def s1_def)
      then show ?thesis by (simp add: e sig_ok_def)
    next
      case False
      then show ?thesis unfolding e by (intro sig_ok_alone) (use n in auto)
    qed
  next
    case 4
    then show ?thesis using sig_keeps_ok [OF sig_keeps_take ok] by (simp add: do_run_one_def)
  qed (use ok in \<open>auto simp: do_run_one_def clear_and_wait_def sig_ok_def\<close>)
qed

lemma poll_one_sig: "sig_ok s \<Longrightarrow> sig_ok (do_poll_one one_thread u t s)"
proof -
  assume ok: "sig_ok s"
  have "sig_ok (take_handler one_thread u t h rest s)" for h rest by (rule sig_keeps_ok [OF sig_keeps_take ok])
  moreover have "sig_ok (set_pc t Idle s)" "sig_ok (set_pc t (In_task False) (s\<lparr>io_queue := q\<rparr>))" for q
    using ok by (auto simp: sig_ok_def)
  ultimately show ?thesis by (auto simp: do_poll_one_def split: list.split item.split)
qed

lemma task_return_sig:
  assumes inv: "io_inv T s" "finite T" and t: "pc s t = In_task b"
  shows "sig_ok (task_return one_thread u t s)"
proof -
  define s1 where "s1 = task_cleanup t s"
  have other: "pc s1 v \<noteq> In_task True" if "v \<noteq> t" for v using io_inv_task(3) [OF inv t, of v True] that by (auto simp: s1_def)
  have keeps: "sig_ok (set_pc t p s2)" if k: "sig_keeps s1 s2" and p: "p \<noteq> In_task True" for s2 p
  proof (rule sig_ok_alone)
    fix v show "pc (set_pc t p s2) v \<noteq> In_task True" using k p other [of v] by (cases "v = t") (auto simp: sig_keeps_def)
  qed
  have take: "sig_ok (take_handler one_thread u t h rest s1)" for h rest
  proof (rule sig_ok_alone)
    fix v
    have "pc (take_handler one_thread u t h rest s1) t = In_handler h" by (simp add: take_handler_def Let_def)
    then show "pc (take_handler one_thread u t h rest s1) v \<noteq> In_task True"
      using sig_keeps_take [of s1 one_thread u t h rest] other [of v] by (cases "v = t") (auto simp: sig_keeps_def)
  qed
  show ?thesis
    using keeps [of s1] keeps [OF sig_keeps_maybe] take
    by (auto simp: task_return_def s1_def [symmetric] Let_def sig_keeps_same split: list.split item.split)
qed

lemma sig_step:
  assumes step: "io_step cf s s'" and inv: "io_inv (cf_threads cf) s" "finite (cf_threads cf)" and ok: "sig_ok s"
  shows "sig_ok s'"
  using step
proof cases
  case (enter t m)
  show ?thesis unfolding \<open>s' = _\<close> enter_loop_def
    using sig_keeps_ok [OF sig_keeps_stop ok] ok by (auto simp: sig_ok_def)
next
  case (run_loop t u)
  then show ?thesis using run_one_sig [OF inv ok] by simp
next
  case (poll_loop t u)
  then show ?thesis using poll_one_sig [OF ok] by simp
next
  case (unblocked t)
  then show ?thesis using ok by (auto simp: wait_again_def sig_ok_def)
next
  case (task_interrupted t b)
  have "pc s' v \<noteq> In_task True" for v
    using task_interrupted io_inv_task(3) [OF inv task_interrupted(3), of v True] by (auto simp: task_wakes_def)
  then show ?thesis by (rule sig_ok_alone)
next
  case (task_returns t b u)
  then show ?thesis using task_return_sig [OF inv] by simp
next
  case (handler_returns t h)
  then show ?thesis using sig_keeps_ok [OF _ ok] sig_keeps_cleanup [of s t] by (auto simp: handler_return_def)
next
  case (handler_throws t h)
  then show ?thesis using sig_keeps_ok [OF _ ok] sig_keeps_cleanup [of s t] by (auto simp: handler_throw_def)
next
  case (post t u h is_continuation)
  have "sig_ok (work_started s)" using ok by (simp add: work_started_def sig_ok_def)
  then have "sig_ok (push_and_wake u [h] (work_started s))" by (rule sig_keeps_ok [OF sig_keeps_push])
  then show ?thesis using post ok
    by (auto simp: post_immediate_completion_def push_private_def accept_def sig_ok_def)
next
  case (dispatch u h)
  have "sig_ok (work_started s)" using ok by (simp add: work_started_def sig_ok_def)
  then have "sig_ok (push_and_wake u [h] (work_started s))" by (rule sig_keeps_ok [OF sig_keeps_push])
  then show ?thesis using dispatch by (simp add: do_dispatch_io_def accept_def sig_ok_def)
next
  case (complete_one t u h)
  have "sig_ok (push_and_wake u [h] (s\<lparr>io_pending := io_pending s - {#h#}\<rparr>))"
    by (rule sig_keeps_ok [OF sig_keeps_push]) (use ok in \<open>simp add: sig_ok_def\<close>)
  then show ?thesis using complete_one ok by (auto simp: post_deferred_completion_def push_private_def sig_ok_def)
next
  case (complete_all t u hs)
  have "sig_ok (push_and_wake u hs (s\<lparr>io_pending := io_pending s - mset hs\<rparr>))"
    by (rule sig_keeps_ok [OF sig_keeps_push]) (use ok in \<open>simp add: sig_ok_def\<close>)
  then show ?thesis using complete_all ok by (auto simp: post_deferred_completions_def push_private_def sig_ok_def)
next
  case end_work
  have "sig_ok (work_finished (s\<lparr>io_users := io_users s - 1\<rparr>))"
    by (rule sig_keeps_ok [OF sig_keeps_finished]) (use ok in \<open>simp add: sig_ok_def\<close>)
  then show ?thesis using end_work by simp
next
  case stopped_by
  then show ?thesis using sig_keeps_ok [OF sig_keeps_stop ok] by simp
next
  case (initialised u)
  have "sig_ok (wake_one_thread u (s\<lparr>io_task := True, io_queue := io_queue s @ [Task]\<rparr>))"
    by (rule sig_keeps_ok [OF sig_keeps_wake]) (use ok in \<open>simp add: sig_ok_def\<close>)
  then show ?thesis using initialised ok by (simp add: init_task_def)
qed (use ok in \<open>auto simp: sig_ok_def interrupt_reactor_def push_private_def accept_def work_started_def reset_def\<close>)

lemma io_reachable_sig: "io_reachable cf s \<Longrightarrow> finite (cf_threads cf) \<Longrightarrow> sig_ok s"
proof (induction rule: io_reachable.induct)
  case io_initial
  then show ?case by (simp add: sig_ok_def new_io_service_def new_thread_def)
next
  case (io_stepped s s')
  then show ?case using sig_step io_reachable_inv by blast
qed

lemma io_reachable_run_inv:
  "io_reachable cf s \<Longrightarrow> finite (cf_threads cf) \<Longrightarrow> cf_modes cf \<subseteq> {Run} \<Longrightarrow> \<not> cf_throws cf \<Longrightarrow> run_inv s"
proof (induction rule: io_reachable.induct)
  case io_initial
  then show ?case by (simp add: run_inv_def new_io_service_def new_thread_def)
next
  case (io_stepped s s')
  then have "waiters_ok s" using io_inv_waiters io_reachable_inv io_reachable_sig by blast
  then show ?case using io_stepped run_step_inv by blast
qed

subsection \<open>The loop as a whole\<close>

text \<open>
  C15. When the counter of outstanding work is zero, which stops the service, everything that was accepted has been
  started and finished: nothing is queued, with the reactor, in a private queue or running, in any interleaving
  of any threads and ways of running.
\<close>

theorem io_work_zero:
  assumes "io_reachable cf s" and "finite (cf_threads cf)" and "io_work s = 0"
  shows "io_started s = io_accepted s \<and> ops (io_queue s) = [] \<and> io_pending s = {#} \<and> io_users s = 0
    \<and> (\<forall>t. (\<forall>h. pc s t \<noteq> In_handler h) \<and> th_queue (io_threads s t) = [])"
proof -
  let ?T = "cf_threads cf"
  note inv = io_reachable_inv [OF assms(1,2)]
  have ok: "th_ok (io_threads s t)" and out: "t \<in> ?T \<or> pc s t = Idle" for t using inv unfolding io_inv_def by blast+
  have nonneg: "0 \<le> th_balance (io_threads s t)" for t
    using ok [of t] by (auto simp: th_ok_def th_balance_def split: thread_pc.splits)
  have w: "io_work s = int (length (ops (io_queue s))) + int (size (io_pending s)) + int (io_users s) + (\<Sum>t\<in>?T. th_balance (io_threads s t))"
    using inv unfolding io_inv_def by blast
  have "0 \<le> (\<Sum>t\<in>?T. th_balance (io_threads s t))" by (rule sum_nonneg) (rule nonneg)
  then have "int (length (ops (io_queue s))) = 0 \<and> int (size (io_pending s)) = 0 \<and> int (io_users s) = 0
      \<and> (\<Sum>t\<in>?T. th_balance (io_threads s t)) = 0" using w assms(3) by linarith
  then have z: "ops (io_queue s) = []" "io_pending s = {#}" "io_users s = 0" "(\<Sum>t\<in>?T. th_balance (io_threads s t)) = 0"
    by simp_all
  have idle: "(\<forall>h. pc s t \<noteq> In_handler h) \<and> th_queue (io_threads s t) = []" for t
  proof (cases "t \<in> ?T")
    case True
    then have "th_balance (io_threads s t) = 0" using z(4) sum_nonneg_eq_0_iff [OF assms(2) nonneg] by simp
    then show ?thesis using ok [of t] by (cases "pc s t") (auto simp: th_ok_def th_balance_def)
  next
    case False
    then show ?thesis using out [of t] ok [of t] by (simp add: th_ok_def)
  qed
  have "io_accepted s = io_started s + mset (ops (io_queue s)) + io_pending s + (\<Sum>t\<in>?T. mset (th_queue (io_threads s t)))"
    using inv unfolding io_inv_def by blast
  then have "io_accepted s = io_started s" using z idle by simp
  then show ?thesis using z idle by simp
qed

lemmas run_defs = new_io_service_def new_thread_def work_started_def accept_def caller_def may_wake_def
  post_immediate_completion_def push_and_wake_def wake_one_thread_def maybe_unlock_and_signal_one_def interrupt_task_def interrupt_reactor_def
  enter_loop_def do_run_one_def take_handler_def clear_and_wait_def contains_def push_private_def handler_return_def
  work_cleanup_def Let_def

text \<open>
  C21. A thread that leaves the service after one handler (\<open>run_one\<close>, \<open>poll_one\<close>) wakes nobody for the continuations
  its handler posted: it puts its private queue behind the common one, and then the service is live exactly if it was
  without this thread, that is, if no other thread is in it, or another is awake, or has been unblocked and will find
  the event signalled. Otherwise the handlers stay in the queue while every thread in the service waits.
\<close>

theorem run_one_loses_wakeup:
  assumes "io_reachable cf s" and "finite (cf_threads cf)" and t: "pc s t = In_handler h"
    and m: "th_mode (io_threads s t) = Run_one \<or> th_mode (io_threads s t) = Poll_one" and c: "0 < th_work (io_threads s t)"
  shows "io_queue (handler_return t s) = io_queue s @ map Op (th_queue (io_threads s t)) \<and> th_queue (io_threads s t) \<noteq> []
    \<and> (\<forall>v. pc (handler_return t s) v = (if v = t then Idle else pc s v))
    \<and> (live (handler_return t s) \<longleftrightarrow>
         (\<forall>v. v \<noteq> t \<longrightarrow> pc s v = Idle) \<or> (\<exists>v. v \<noteq> t \<and> (awake s v \<or> pc s v = Notified \<and> ev_signalled s)))"
proof -
  have "th_ok (io_threads s t)" using io_reachable_inv [OF assms(1,2)] by (simp add: io_inv_def)
  then have q: "th_queue (io_threads s t) \<noteq> []" using c by (auto simp: th_ok_def)
  let ?s1 = "if 1 < th_work (io_threads s t) then s\<lparr>io_work := io_work s + int (th_work (io_threads s t) - 1)\<rparr> else s"
  have e: "handler_return t s = set_pc t Idle (on_thread t (\<lambda>th. th\<lparr>th_work := 0, th_queue := []\<rparr>)
      (?s1\<lparr>io_queue := io_queue s @ map Op (th_queue (io_threads s t))\<rparr>))"
    using m c by (auto simp: handler_return_def work_cleanup_def Let_def)
  have p: "pc (handler_return t s) v = (if v = t then Idle else pc s v)" for v by (simp add: e)
  have f: "io_signal (handler_return t s) = io_signal s" "ev_signalled (handler_return t s) = ev_signalled s" by (simp_all add: e)
  have "awake (handler_return t s) v \<longleftrightarrow> v \<noteq> t \<and> awake s v" for v
    by (cases "v = t") (simp_all add: awake_def p f split: thread_pc.split)
  then have "live (handler_return t s) \<longleftrightarrow>
      (\<forall>v. v \<noteq> t \<longrightarrow> pc s v = Idle) \<or> (\<exists>v. v \<noteq> t \<and> (awake s v \<or> pc s v = Notified \<and> ev_signalled s))"
    by (auto simp: live_def p f)
  moreover have "io_queue (handler_return t s) = io_queue s @ map Op (th_queue (io_threads s t))" by (simp add: e)
  ultimately show ?thesis using q p by blast
qed

text \<open>
  Thread 0 runs one handler, which posts a continuation, while thread 1, in \<open>run\<close>, sleeps on the event.
\<close>

lemma continuation_run:
  "\<exists>s :: nat io_state. io_reachable \<lparr>cf_one_thread = False, cf_modes = {Run, Run_one}, cf_throws = False, cf_threads = {0, 1}\<rparr> s
     \<and> io_queue s = [] \<and> pc s 0 = In_handler 1 \<and> th_mode (io_threads s 0) = Run_one \<and> th_work (io_threads s 0) = 1
     \<and> th_queue (io_threads s 0) = [2] \<and> pc s 1 = Sleeping \<and> (\<forall>t. t = 0 \<or> t = 1 \<or> pc s t = Idle)"
  by (rule exI, rule conjI, rule io_stepped [OF io_stepped [OF io_stepped [OF io_stepped [OF io_stepped [OF io_stepped
      [OF io_stepped [OF io_initial
        io_step.new_work]
        io_step.post [where t = None and u = None and h = 1 and is_continuation = False]]
        io_step.enter [where t = 0 and m = Run_one]]
        io_step.enter [where t = 1 and m = Run]]
        io_step.run_loop [where t = 0 and u = None]]
        io_step.run_loop [where t = 1 and u = None]]
        io_step.post [where t = "Some 0" and u = "Some 1" and h = 2 and is_continuation = True]])
    (auto simp: run_defs)

theorem run_one_loses_wakeup_witness:
  "\<exists>s :: nat io_state. io_queue (handler_return 0 s) = [Op 2] \<and> \<not> live (handler_return 0 s) \<and> pc (handler_return 0 s) 1 = Sleeping"
proof -
  obtain s :: "nat io_state" where s: "io_reachable \<lparr>cf_one_thread = False, cf_modes = {Run, Run_one}, cf_throws = False, cf_threads = {0, 1}\<rparr> s"
    "io_queue s = []" "pc s 0 = In_handler 1" "th_mode (io_threads s 0) = Run_one" "th_work (io_threads s 0) = 1"
    "th_queue (io_threads s 0) = [2]" "pc s 1 = Sleeping" "\<forall>t. t = 0 \<or> t = 1 \<or> pc s t = Idle"
    using continuation_run by blast
  have n: "\<not> awake s v \<and> pc s v \<noteq> Notified" if "v \<noteq> 0" for v
    using s(7) spec [OF s(8), of v] that by (auto simp: awake_def)
  have p: "pc s 1 \<noteq> Idle" using s(7) by simp
  note run_one_loses_wakeup [OF s(1) _ s(3)]
  then have r: "io_queue (handler_return 0 s) = [Op 2]" "pc (handler_return 0 s) 1 = Sleeping"
    "live (handler_return 0 s) \<longleftrightarrow> (\<forall>v. v \<noteq> 0 \<longrightarrow> pc s v = Idle) \<or> (\<exists>v. v \<noteq> 0 \<and> (awake s v \<or> pc s v = Notified \<and> ev_signalled s))"
    using s(2,4-7) by simp_all
  have "\<not> live (handler_return 0 s)" using r(3) n p by (metis zero_neq_one)
  then show ?thesis using r(1,2) by blast
qed

text \<open>
  C14. As long as threads only call \<open>run\<close> and handlers do not throw, no wakeup is lost: whenever something is queued
  or the service is stopped, and some thread is in the service, then one of them is awake (at the head of its
  loop, in a handler, or in a task that does not wait for events or whose interrupter will be reported to it) or
  has been unblocked from the event and will find it signalled.
\<close>

theorem no_lost_wakeup:
  assumes "io_reachable cf s" and "finite (cf_threads cf)" and "cf_modes cf \<subseteq> {Run}" and "\<not> cf_throws cf"
    and "io_queue s \<noteq> [] \<or> io_stopped s" and "pc s t \<noteq> Idle"
  shows "\<exists>v. awake s v \<or> pc s v = Notified \<and> ev_signalled s"
  using io_reachable_run_inv [OF assms(1-4)] assms(5,6) all_told_live [of s] by (auto simp: run_inv_def live_def)

text \<open>A sleeping thread for which a handler is posted, and one that has run a handler.\<close>

lemma posted_run:
  "\<exists>s :: nat io_state. io_reachable \<lparr>cf_one_thread = False, cf_modes = {Run}, cf_throws = False, cf_threads = {0}\<rparr> s
     \<and> io_queue s = [Op 1] \<and> pc s 0 = Notified \<and> (\<forall>t. t = 0 \<or> pc s t = Idle)"
  by (rule exI, rule conjI, rule io_stepped [OF io_stepped [OF io_stepped [OF io_stepped [OF io_initial
        io_step.new_work]
        io_step.enter [where t = 0 and m = Run]]
        io_step.run_loop [where t = 0 and u = None]]
        io_step.post [where t = None and u = "Some 0" and h = 1 and is_continuation = False]])
    (auto simp: run_defs cond_signal_def)

lemma finished_run:
  "\<exists>s :: nat io_state. io_reachable \<lparr>cf_one_thread = False, cf_modes = {Run}, cf_throws = False, cf_threads = {0}\<rparr> s
     \<and> io_work s = 0 \<and> io_accepted s = {#1#} \<and> pc s 0 = Looping"
  by (rule exI, rule conjI, rule io_stepped [OF io_stepped [OF io_stepped [OF io_stepped [OF io_initial
        io_step.post [where t = None and u = None and h = 1 and is_continuation = False]]
        io_step.enter [where t = 0 and m = Run]]
        io_step.run_loop [where t = 0 and u = None]]
        io_step.handler_returns [where t = 0 and h = 1]])
    (auto simp: run_defs work_finished_def stop_all_threads_def signal_all_def cond_broadcast_def)

theorem no_lost_wakeup_witness:
  "\<exists>s :: nat io_state. io_queue s = [Op 1] \<and> pc s 0 = Notified \<and> ev_signalled s"
proof -
  obtain s :: "nat io_state" where s: "io_reachable \<lparr>cf_one_thread = False, cf_modes = {Run}, cf_throws = False, cf_threads = {0}\<rparr> s"
    "io_queue s = [Op 1]" "pc s 0 = Notified" "\<forall>t. t = 0 \<or> pc s t = Idle" using posted_run by blast
  have "\<exists>v. awake s v \<or> pc s v = Notified \<and> ev_signalled s" by (rule no_lost_wakeup [OF s(1), of 0]) (simp_all add: s(2,3))
  moreover have "\<not> awake s v" for v using s(3) spec [OF s(4), of v] by (auto simp: awake_def)
  ultimately show ?thesis using s(2,3) by blast
qed

theorem io_work_zero_witness:
  "\<exists>s :: nat io_state. io_work s = 0 \<and> io_accepted s = {#1#} \<and> io_started s = {#1#} \<and> ops (io_queue s) = []"
proof -
  obtain s :: "nat io_state" where s: "io_reachable \<lparr>cf_one_thread = False, cf_modes = {Run}, cf_throws = False, cf_threads = {0}\<rparr> s"
    "io_work s = 0" "io_accepted s = {#1#}" using finished_run by blast
  from io_work_zero [OF s(1) _ s(2)] s show ?thesis by auto
qed

text \<open>Every accepted handler has been started once or is in exactly one place, and one thread at most runs the task.\<close>

lemma io_handlers_once:
  "io_reachable cf s \<Longrightarrow> finite (cf_threads cf) \<Longrightarrow> io_accepted s
     = io_started s + mset (ops (io_queue s)) + io_pending s + (\<Sum>t\<in>cf_threads cf. mset (th_queue (io_threads s t)))"
  using io_reachable_inv unfolding io_inv_def by blast

lemma task_exclusive:
  assumes "io_reachable cf s" "finite (cf_threads cf)" and t: "pc s t = In_task b" and u: "pc s u = In_task c"
  shows "t = u"
  using io_inv_task(3) [OF io_reachable_inv [OF assms(1,2)] assms(2) u t] .

end
