(* ===== verification/Asio_Descriptor.thy ===== *)
theory Asio_Descriptor
  imports Prelude "HOL-Library.Multiset"
begin

unbundle bit_operations_syntax

text \<open>
  The state the reactor keeps for a descriptor, and the operations under its mutex
  (src/asio/include/asio/detail/epoll_reactor.hpp, impl/epoll_reactor.ipp): three queues of waiting operations, started,
  performed when epoll reports an event, and cancelled. What they ask of the event loop is a list of calls; performing an
  operation and \<open>epoll_ctl\<close> are functions of a state of the kernel, which is an argument. Queues are lists
  (\<open>Asio_Op_Queue\<close>).

  The descriptor is registered edge-triggered: an event is reported once, when it comes up. What epoll(7) promises of
  that is the locale \<open>edge_triggered\<close>; the operations are then the steps of a relation, in any order and with
  any number of reports on their way.
\<close>

subsection \<open>Events and operations\<close>

definition EPOLLIN :: u32 where "EPOLLIN = 0x1"

definition EPOLLPRI :: u32 where "EPOLLPRI = 0x2"

definition EPOLLOUT :: u32 where "EPOLLOUT = 0x4"

definition EPOLLERR :: u32 where "EPOLLERR = 0x8"

definition EPOLLHUP :: u32 where "EPOLLHUP = 0x10"

definition EPOLLET :: u32 where "EPOLLET = 0x80000000"

lemmas epoll_bits = EPOLLIN_def EPOLLPRI_def EPOLLOUT_def EPOLLERR_def EPOLLHUP_def EPOLLET_def

text \<open>\<open>connect_op\<close> is \<open>write_op\<close>.\<close>

datatype op_type = Read_op | Write_op | Except_op

abbreviation Connect_op :: op_type where
  "Connect_op \<equiv> Write_op"

fun flag :: "op_type \<Rightarrow> u32" where
  "flag Read_op = EPOLLIN"
| "flag Write_op = EPOLLOUT"
| "flag Except_op = EPOLLPRI"

text \<open>\<open>ro_func\<close> stands for the function that performs the operation, with the members it uses, and for its handler.\<close>

record 'f reactor_op =
  ro_func :: 'f
  ro_ec :: error_code
  ro_bytes :: nat

definition new_reactor_op :: "'f \<Rightarrow> 'f reactor_op" where
  "new_reactor_op f = \<lparr>ro_func = f, ro_ec = None, ro_bytes = 0\<rparr>"

datatype ctl_command = Ctl_add | Ctl_mod | Ctl_del

text \<open>\<open>re_perform\<close>: whether the operation is finished; \<open>re_ctl command descriptor events data\<close>: the error, if any.\<close>

record ('p, 'f, 'k) reactor_env =
  re_perform :: "'f reactor_op \<Rightarrow> 'k \<Rightarrow> bool \<times> 'f reactor_op \<times> 'k"
  re_ctl :: "ctl_command \<Rightarrow> int \<Rightarrow> u32 \<Rightarrow> 'p \<Rightarrow> 'k \<Rightarrow> errc option \<times> 'k"

text \<open>What the reactor asks of the event loop; the flag says that the operation continues its caller.\<close>

datatype 'f io_call =
    Post_immediate "'f reactor_op" bool
  | Post_deferred "'f reactor_op list"
  | Work_started

record 'f descriptor_state =
  ds_descriptor :: int
  ds_events :: u32
  ds_queue :: "op_type \<Rightarrow> 'f reactor_op list"
  ds_shutdown :: bool

subsection \<open>Starting an operation\<close>

definition enqueue_op ::
  "op_type \<Rightarrow> 'f reactor_op \<Rightarrow> 'f descriptor_state \<Rightarrow> 'k \<Rightarrow> 'f descriptor_state \<times> 'k \<times> 'f io_call list" where
  "enqueue_op ty op d k = (d\<lparr>ds_queue := (ds_queue d)(ty := ds_queue d ty @ [op])\<rparr>, k, [Work_started])"

text \<open>The operation is tried at once, and waits when it cannot be finished.\<close>

definition start_speculative ::
  "('p, 'f, 'k) reactor_env \<Rightarrow> 'p \<Rightarrow> op_type \<Rightarrow> int \<Rightarrow> 'f reactor_op \<Rightarrow> bool \<Rightarrow> 'f descriptor_state \<Rightarrow> 'k
    \<Rightarrow> 'f descriptor_state \<times> 'k \<times> 'f io_call list" where
  "start_speculative env p ty fd op is_continuation d k =
     (case re_perform env op k of
        (True, op, k) \<Rightarrow> (d, k, [Post_immediate op is_continuation])
      | (False, op, k) \<Rightarrow>
          if ty = Write_op \<and> ds_events d AND EPOLLOUT = 0
          then (case re_ctl env Ctl_mod fd (ds_events d OR EPOLLOUT) p k of
                  (None, k) \<Rightarrow> enqueue_op ty op (d\<lparr>ds_events := ds_events d OR (ds_events d OR EPOLLOUT)\<rparr>) k
                | (Some e, k) \<Rightarrow> (d, k, [Post_immediate (op\<lparr>ro_ec := Some e\<rparr>) is_continuation]))
          else enqueue_op ty op d k)"

text \<open>The operation waits for the next event; the result of \<open>epoll_ctl\<close> is not looked at.\<close>

definition rearm :: "('p, 'f, 'k) reactor_env \<Rightarrow> 'p \<Rightarrow> op_type \<Rightarrow> int \<Rightarrow> 'f descriptor_state \<Rightarrow> 'k
    \<Rightarrow> errc option \<times> 'f descriptor_state \<times> 'k" where
  "rearm env p ty fd d k =
     (let d = (if ty = Write_op then d\<lparr>ds_events := ds_events d OR EPOLLOUT\<rparr> else d)
      in case re_ctl env Ctl_mod fd (ds_events d) p k of (result, k) \<Rightarrow> (result, d, k))"

definition speculates :: "op_type \<Rightarrow> bool \<Rightarrow> 'f descriptor_state \<Rightarrow> bool" where
  "speculates ty allow_speculative d \<longleftrightarrow> allow_speculative \<and> (ty \<noteq> Read_op \<or> ds_queue d Except_op = [])"

definition start_op_at ::
  "('p, 'f, 'k) reactor_env \<Rightarrow> 'p \<Rightarrow> op_type \<Rightarrow> int \<Rightarrow> 'f reactor_op \<Rightarrow> bool \<Rightarrow> bool \<Rightarrow> 'f descriptor_state \<Rightarrow> 'k
    \<Rightarrow> 'f descriptor_state \<times> 'k \<times> 'f io_call list" where
  "start_op_at env p ty fd op is_continuation allow_speculative d k =
     (if ds_shutdown d then (d, k, [Post_immediate op is_continuation])
      else if ds_queue d ty = []
      then if speculates ty allow_speculative d
           then start_speculative env p ty fd op is_continuation d k
           else (case rearm env p ty fd d k of (_, d, k) \<Rightarrow> enqueue_op ty op d k)
      else enqueue_op ty op d k)"

subsection \<open>Cancelling\<close>

fun cancel_queue :: "'f reactor_op list \<Rightarrow> 'f reactor_op list \<Rightarrow> 'f reactor_op list" where
  "cancel_queue [] ops = ops"
| "cancel_queue (op # q) ops = cancel_queue q (ops @ [op\<lparr>ro_ec := Some OperationAborted\<rparr>])"

fun cancel_queues :: "op_type list \<Rightarrow> 'f descriptor_state \<Rightarrow> 'f reactor_op list \<Rightarrow> 'f descriptor_state \<times> 'f reactor_op list" where
  "cancel_queues [] d ops = (d, ops)"
| "cancel_queues (i # is) d ops =
     cancel_queues is (d\<lparr>ds_queue := (ds_queue d)(i := [])\<rparr>) (cancel_queue (ds_queue d i) ops)"

definition cancel_ops_at :: "'f descriptor_state \<Rightarrow> 'f descriptor_state \<times> 'f io_call list" where
  "cancel_ops_at d =
     (case cancel_queues [Read_op, Write_op, Except_op] d [] of (d, ops) \<Rightarrow> (d, [Post_deferred ops]))"

text \<open>The part of \<open>deregister_descriptor\<close> under the mutex of the descriptor.\<close>

definition close_at :: "'f descriptor_state \<Rightarrow> 'f descriptor_state \<times> 'f reactor_op list" where
  "close_at d =
     (case cancel_queues [Read_op, Write_op, Except_op] d [] of
        (d, ops) \<Rightarrow> (d\<lparr>ds_descriptor := - 1, ds_shutdown := True\<rparr>, ops))"

subsection \<open>Performing\<close>

fun perform_queue ::
  "('p, 'f, 'k) reactor_env \<Rightarrow> 'f reactor_op list \<Rightarrow> 'f reactor_op list \<Rightarrow> 'k \<Rightarrow> 'f reactor_op list \<times> 'f reactor_op list \<times> 'k" where
  "perform_queue env [] ops k = ([], ops, k)"
| "perform_queue env (op # q) ops k =
     (case re_perform env op k of
        (True, op, k) \<Rightarrow> perform_queue env q (ops @ [op]) k
      | (False, op, k) \<Rightarrow> (op # q, ops, k))"

fun perform_queues ::
  "('p, 'f, 'k) reactor_env \<Rightarrow> u32 \<Rightarrow> op_type list \<Rightarrow> 'f reactor_op list \<Rightarrow> 'f descriptor_state \<Rightarrow> 'k
    \<Rightarrow> 'f reactor_op list \<times> 'f descriptor_state \<times> 'k" where
  "perform_queues env events [] ops d k = (ops, d, k)"
| "perform_queues env events (j # js) ops d k =
     (if events AND (flag j OR EPOLLERR OR EPOLLHUP) \<noteq> 0
      then (case perform_queue env (ds_queue d j) ops k of
              (q, ops, k) \<Rightarrow> perform_queues env events js ops (d\<lparr>ds_queue := (ds_queue d)(j := q)\<rparr>) k)
      else perform_queues env events js ops d k)"

text \<open>\<open>~perform_io_cleanup_on_block_exit\<close>\<close>

definition io_cleanup :: "'f reactor_op option \<Rightarrow> 'f reactor_op list \<Rightarrow> 'f io_call list" where
  "io_cleanup first_op ops =
     (if first_op \<noteq> None then if ops \<noteq> [] then [Post_deferred ops] else [] else [Work_started])"

text \<open>\<open>perform_io\<close> returns the operation that \<open>do_complete\<close> completes at once.\<close>

definition perform_io ::
  "('p, 'f, 'k) reactor_env \<Rightarrow> u32 \<Rightarrow> 'f descriptor_state \<Rightarrow> 'k
    \<Rightarrow> 'f reactor_op option \<times> 'f descriptor_state \<times> 'k \<times> 'f io_call list" where
  "perform_io env events d k =
     (case perform_queues env events [Except_op, Write_op, Read_op] [] d k of
        (ops, d, k) \<Rightarrow>
          let first_op = (case ops of [] \<Rightarrow> None | op # _ \<Rightarrow> Some op)
          in (first_op, d, k, io_cleanup first_op (tl ops)))"

text \<open>Without an owner, when the service is being destroyed, nothing is performed.\<close>

definition do_complete_descriptor ::
  "('p, 'f, 'k) reactor_env \<Rightarrow> bool \<Rightarrow> u32 \<Rightarrow> 'f descriptor_state \<Rightarrow> 'k
    \<Rightarrow> 'f reactor_op option \<times> 'f descriptor_state \<times> 'k \<times> 'f io_call list" where
  "do_complete_descriptor env owner bytes_transferred d k =
     (if owner then perform_io env bytes_transferred d k else (None, d, k, []))"

subsection \<open>Runs of the operations of a descriptor\<close>

text \<open>
  \<open>dm_flights\<close> are the events reported by \<open>epoll_wait\<close> whose \<open>do_complete\<close> has not run yet. \<open>dm_unarmed\<close>: an
  \<open>epoll_ctl\<close> whose result is not looked at has failed. \<open>dm_posted\<close> are the finished operations with the event loop,
  \<open>dm_done\<close> those whose handler has been called, \<open>dm_work\<close> their share in the count of outstanding work.
\<close>

record ('f, 'k) descriptor_run =
  dm_state :: "'f descriptor_state"
  dm_kernel :: 'k
  dm_flights :: "u32 multiset"
  dm_unarmed :: bool
  dm_started :: "'f multiset"
  dm_posted :: "'f reactor_op multiset"
  dm_done :: "'f reactor_op multiset"
  dm_work :: int

fun obey :: "'f io_call \<Rightarrow> ('f, 'k) descriptor_run \<Rightarrow> ('f, 'k) descriptor_run" where
  "obey (Post_immediate op c) m = m\<lparr>dm_posted := add_mset op (dm_posted m), dm_work := dm_work m + 1\<rparr>"
| "obey (Post_deferred ops) m = m\<lparr>dm_posted := mset ops + dm_posted m\<rparr>"
| "obey Work_started m = m\<lparr>dm_work := dm_work m + 1\<rparr>"

text \<open>After \<open>do_complete\<close> the event loop finishes one unit of work, whether or not an operation was completed.\<close>

definition after_complete :: "'f reactor_op option \<Rightarrow> ('f, 'k) descriptor_run \<Rightarrow> ('f, 'k) descriptor_run" where
  "after_complete first_op m =
     m\<lparr>dm_done := (case first_op of None \<Rightarrow> dm_done m | Some op \<Rightarrow> add_mset op (dm_done m)), dm_work := dm_work m - 1\<rparr>"

definition unchecked_failure ::
  "('p, 'f, 'k) reactor_env \<Rightarrow> 'p \<Rightarrow> op_type \<Rightarrow> int \<Rightarrow> bool \<Rightarrow> 'f descriptor_state \<Rightarrow> 'k \<Rightarrow> bool" where
  "unchecked_failure env p ty fd s d k \<longleftrightarrow>
     \<not> ds_shutdown d \<and> ds_queue d ty = [] \<and> \<not> speculates ty s d \<and> fst (rearm env p ty fd d k) \<noteq> None"

definition run_complete :: "('p, 'f, 'k) reactor_env \<Rightarrow> u32 \<Rightarrow> ('f, 'k) descriptor_run \<Rightarrow> ('f, 'k) descriptor_run" where
  "run_complete env events m =
     (case do_complete_descriptor env True events (dm_state m) (dm_kernel m) of
        (first_op, d, k, calls) \<Rightarrow> after_complete first_op (fold obey calls (m\<lparr>dm_state := d, dm_kernel := k\<rparr>)))"

definition run_start ::
  "('p, 'f, 'k) reactor_env \<Rightarrow> 'p \<Rightarrow> int \<Rightarrow> op_type \<Rightarrow> 'f \<Rightarrow> bool \<Rightarrow> bool \<Rightarrow> ('f, 'k) descriptor_run \<Rightarrow> ('f, 'k) descriptor_run" where
  "run_start env p fd ty f c s m =
     (case start_op_at env p ty fd (new_reactor_op f) c s (dm_state m) (dm_kernel m) of
        (d, k, calls) \<Rightarrow> fold obey calls
          (m\<lparr>dm_state := d, dm_kernel := k, dm_started := add_mset f (dm_started m),
             dm_unarmed := dm_unarmed m \<or> unchecked_failure env p ty fd s (dm_state m) (dm_kernel m)\<rparr>))"

definition run_cancel :: "('f, 'k) descriptor_run \<Rightarrow> ('f, 'k) descriptor_run" where
  "run_cancel m = (case cancel_ops_at (dm_state m) of (d, calls) \<Rightarrow> fold obey calls (m\<lparr>dm_state := d\<rparr>))"

definition run_close :: "('f, 'k) descriptor_run \<Rightarrow> ('f, 'k) descriptor_run" where
  "run_close m = (case close_at (dm_state m) of (d, ops) \<Rightarrow> obey (Post_deferred ops) (m\<lparr>dm_state := d\<rparr>))"

text \<open>
  The kernel goes on by itself (\<open>moves\<close>) and reports events (\<open>reports\<close>). A report may also be a stale one, meant for
  the descriptor that had this state before.
\<close>

inductive d_step ::
  "('p, 'f, 'k) reactor_env \<Rightarrow> 'p \<Rightarrow> int \<Rightarrow> ('f \<Rightarrow> op_type) \<Rightarrow> ('k \<Rightarrow> 'k \<Rightarrow> bool) \<Rightarrow> ('k \<Rightarrow> u32 \<Rightarrow> 'k \<Rightarrow> bool)
    \<Rightarrow> ('f, 'k) descriptor_run \<Rightarrow> ('f, 'k) descriptor_run \<Rightarrow> bool"
  for env p fd kind moves reports where
  kernel_moves: "moves (dm_kernel m) k \<Longrightarrow> d_step env p fd kind moves reports m (m\<lparr>dm_kernel := k\<rparr>)"
| starts: "d_step env p fd kind moves reports m (run_start env p fd (kind f) f c s m)"
| reported: "reports (dm_kernel m) events k \<Longrightarrow>
    d_step env p fd kind moves reports m (m\<lparr>dm_kernel := k, dm_flights := add_mset events (dm_flights m)\<rparr>)"
| performs: "events \<in># dm_flights m \<Longrightarrow>
    d_step env p fd kind moves reports m (run_complete env events (m\<lparr>dm_flights := dm_flights m - {#events#}\<rparr>))"
| performs_stale: "d_step env p fd kind moves reports m (run_complete env events m)"
| cancels: "d_step env p fd kind moves reports m (run_cancel m)"
| closes: "d_step env p fd kind moves reports m (run_close m)"
| completed: "op \<in># dm_posted m \<Longrightarrow>
    d_step env p fd kind moves reports m
      (m\<lparr>dm_posted := dm_posted m - {#op#}, dm_done := add_mset op (dm_done m), dm_work := dm_work m - 1\<rparr>)"

text \<open>The state after \<open>register_descriptor\<close>.\<close>

definition d_initial :: "int \<Rightarrow> u32 \<Rightarrow> 'k \<Rightarrow> ('f, 'k) descriptor_run" where
  "d_initial fd events k =
     \<lparr>dm_state = \<lparr>ds_descriptor = fd, ds_events = events, ds_queue = (\<lambda>_. []), ds_shutdown = False\<rparr>, dm_kernel = k,
      dm_flights = {#}, dm_unarmed = False, dm_started = {#}, dm_posted = {#}, dm_done = {#}, dm_work = 0\<rparr>"

inductive d_reachable ::
  "('p, 'f, 'k) reactor_env \<Rightarrow> 'p \<Rightarrow> int \<Rightarrow> ('f \<Rightarrow> op_type) \<Rightarrow> ('k \<Rightarrow> 'k \<Rightarrow> bool) \<Rightarrow> ('k \<Rightarrow> u32 \<Rightarrow> 'k \<Rightarrow> bool)
    \<Rightarrow> ('f, 'k) descriptor_run \<Rightarrow> ('f, 'k) descriptor_run \<Rightarrow> bool"
  for env p fd kind moves reports m0 where
  d_start: "d_reachable env p fd kind moves reports m0 m0"
| d_next: "d_reachable env p fd kind moves reports m0 m \<Longrightarrow> d_step env p fd kind moves reports m m' \<Longrightarrow>
    d_reachable env p fd kind moves reports m0 m'"

lemma obey_simps [simp]:
  "dm_state (fold obey cs m) = dm_state m"
  "dm_kernel (fold obey cs m) = dm_kernel m"
  "dm_flights (fold obey cs m) = dm_flights m"
  "dm_unarmed (fold obey cs m) = dm_unarmed m"
  "dm_started (fold obey cs m) = dm_started m"
proof (induction cs arbitrary: m)
  case (Cons c cs)
  { case 1 then show ?case using Cons(1) by (cases c) simp_all }
  { case 2 then show ?case using Cons(2) by (cases c) simp_all }
  { case 3 then show ?case using Cons(3) by (cases c) simp_all }
  { case 4 then show ?case using Cons(4) by (cases c) simp_all }
  { case 5 then show ?case using Cons(5) by (cases c) simp_all }
qed simp_all

subsection \<open>Every operation once\<close>

text \<open>Operations wait, are with the event loop, or are done; the first two are the outstanding work.\<close>

definition waiting_ops :: "'f descriptor_state \<Rightarrow> 'f reactor_op multiset" where
  "waiting_ops d = mset (ds_queue d Read_op) + mset (ds_queue d Write_op) + mset (ds_queue d Except_op)"

definition funcs :: "'f reactor_op multiset \<Rightarrow> 'f multiset" where
  "funcs M = image_mset ro_func M"

lemma funcs_simps [simp]:
  "funcs {#} = {#}" "funcs (add_mset op M) = add_mset (ro_func op) (funcs M)" "funcs (M + N) = funcs M + funcs N"
  by (simp_all add: funcs_def)

fun call_ops :: "'f io_call list \<Rightarrow> 'f reactor_op multiset" where
  "call_ops [] = {#}"
| "call_ops (Post_immediate op c # cs) = add_mset op (call_ops cs)"
| "call_ops (Post_deferred ops # cs) = mset ops + call_ops cs"
| "call_ops (Work_started # cs) = call_ops cs"

fun call_work :: "'f io_call list \<Rightarrow> int" where
  "call_work [] = 0"
| "call_work (Post_immediate op c # cs) = 1 + call_work cs"
| "call_work (Post_deferred ops # cs) = call_work cs"
| "call_work (Work_started # cs) = 1 + call_work cs"

lemma obey_counts:
  "dm_posted (fold obey cs m) = call_ops cs + dm_posted m \<and> dm_work (fold obey cs m) = call_work cs + dm_work m
    \<and> dm_done (fold obey cs m) = dm_done m"
  by (induction cs arbitrary: m rule: call_ops.induct) simp_all

definition keeps_func :: "('p, 'f, 'k) reactor_env \<Rightarrow> bool" where
  "keeps_func env \<longleftrightarrow> (\<forall>op k. ro_func (fst (snd (re_perform env op k))) = ro_func op)"

lemma keeps_funcD: "keeps_func env \<Longrightarrow> re_perform env op k = (b, op', k') \<Longrightarrow> ro_func op' = ro_func op"
  by (metis fst_conv keeps_func_def snd_conv)

lemma cancel_queue_append: "cancel_queue q ops = ops @ cancel_queue q []"
proof (induction q arbitrary: ops)
  case (Cons op q)
  then show ?case by (metis append_assoc append_Nil cancel_queue.simps(2))
qed simp

lemma cancel_queue_map: "cancel_queue q [] = map (\<lambda>op. op\<lparr>ro_ec := Some OperationAborted\<rparr>) q"
proof (induction q)
  case (Cons op q)
  then show ?case using cancel_queue_append [of q "[op\<lparr>ro_ec := Some OperationAborted\<rparr>]"] by simp
qed simp

lemma funcs_cancelled: "funcs (mset (cancel_queue q [])) = funcs (mset q)"
  by (induction q) (simp_all add: cancel_queue_map)

lemma cancel_all:
  "cancel_queues [Read_op, Write_op, Except_op] d [] =
     (d\<lparr>ds_queue := \<lambda>_. []\<rparr>, cancel_queue (ds_queue d Read_op) [] @ cancel_queue (ds_queue d Write_op) [] @ cancel_queue (ds_queue d Except_op) [])"
proof -
  have "((ds_queue d)(Read_op := [], Write_op := [], Except_op := [])) = (\<lambda>_. [])"
    by (rule ext) (metis (full_types) fun_upd_other fun_upd_same op_type.exhaust)
  then show ?thesis
    using cancel_queue_append [of "ds_queue d Write_op" "cancel_queue (ds_queue d Read_op) []"]
      cancel_queue_append [of "ds_queue d Except_op" "cancel_queue (ds_queue d Read_op) [] @ cancel_queue (ds_queue d Write_op) []"]
    by simp
qed

lemma size_funcs [simp]: "size (funcs M) = size M"
  by (simp add: funcs_def)

lemma waiting_update: "waiting_ops (d\<lparr>ds_queue := (ds_queue d)(ty := q)\<rparr>) + mset (ds_queue d ty) = waiting_ops d + mset q"
  by (cases ty) (simp_all add: waiting_ops_def ac_simps)

lemma waiting_cong [simp]:
  "waiting_ops (d\<lparr>ds_events := e\<rparr>) = waiting_ops d"
  "waiting_ops (d\<lparr>ds_descriptor := fd, ds_shutdown := b\<rparr>) = waiting_ops d"
  by (simp_all add: waiting_ops_def)

text \<open>What a call of an operation changes: nothing is lost, and the calls to the event loop account for the work.\<close>

definition accounts :: "'f multiset \<Rightarrow> 'f descriptor_state \<Rightarrow> 'f descriptor_state \<Rightarrow> 'f reactor_op multiset \<Rightarrow> int \<Rightarrow> bool" where
  "accounts new d d' out w \<longleftrightarrow>
     funcs (waiting_ops d') + funcs out = new + funcs (waiting_ops d) \<and> w = int (size new)"

lemma accounts_sizes: "accounts new d d' out w \<Longrightarrow> size (waiting_ops d') + size out = size new + size (waiting_ops d)"
  unfolding accounts_def by (metis size_funcs size_union)

lemma accounts_same [simp]: "accounts new d d out w \<longleftrightarrow> funcs out = new \<and> w = int (size new)"
  by (auto simp: accounts_def)

lemma enqueue_accounts:
  "enqueue_op ty op d k = (d', k', cs) \<Longrightarrow> accounts {#ro_func op#} d d' (call_ops cs) (call_work cs)"
  using waiting_update [of d ty "ds_queue d ty @ [op]"] by (auto simp: enqueue_op_def accounts_def)

lemma accounts_events: "accounts new (d\<lparr>ds_events := e\<rparr>) d' out w = accounts new d d' out w"
  by (simp add: accounts_def)

lemma start_speculative_accounts:
  assumes "keeps_func env" and s: "start_speculative env p ty fd op c d k = (d', k', cs)"
  shows "accounts {#ro_func op#} d d' (call_ops cs) (call_work cs)"
proof -
  obtain b op1 k1 where r: "re_perform env op k = (b, op1, k1)" by (metis prod_cases3)
  note f = keeps_funcD [OF assms(1) r]
  note e = enqueue_accounts [of ty op1 _ _ d' k' cs, unfolded f]
  let ?arm = "ty = Write_op \<and> ds_events d AND EPOLLOUT = 0"
  obtain r2 k2 where c: "re_ctl env Ctl_mod fd (ds_events d OR EPOLLOUT) p k1 = (r2, k2)" by (cases "re_ctl env Ctl_mod fd (ds_events d OR EPOLLOUT) p k1")
  consider b | "\<not> b" "\<not> ?arm" | "\<not> b" ?arm "r2 = None" | x where "\<not> b" ?arm "r2 = Some x" by blast
  then show ?thesis
  proof cases
    case 3
    then have "enqueue_op ty op1 (d\<lparr>ds_events := ds_events d OR (ds_events d OR EPOLLOUT)\<rparr>) k2 = (d', k', cs)"
      using s r c by (simp add: start_speculative_def)
    from e [OF this] show ?thesis by (simp add: accounts_events)
  qed (use s r c f e in \<open>auto simp: start_speculative_def\<close>)
qed

lemma start_accounts:
  assumes "keeps_func env" and "start_op_at env p ty fd op c s d k = (d', k', cs)"
  shows "accounts {#ro_func op#} d d' (call_ops cs) (call_work cs)"
proof -
  obtain r d1 k1 where r: "rearm env p ty fd d k = (r, d1, k1)" by (metis prod_cases3)
  then have d1: "accounts new d1 d' out w = accounts new d d' out w" for new out w
    by (auto simp: rearm_def accounts_events Let_def split: prod.splits if_splits)
  consider "ds_shutdown d" | "\<not> ds_shutdown d" "ds_queue d ty = []" "speculates ty s d"
    | "\<not> ds_shutdown d" "ds_queue d ty = []" "\<not> speculates ty s d" | "\<not> ds_shutdown d" "ds_queue d ty \<noteq> []" by blast
  then show ?thesis
  proof cases
    case 1
    then show ?thesis using assms(2) by (auto simp: start_op_at_def)
  next
    case 2
    then show ?thesis using assms(2) start_speculative_accounts [OF assms(1)] by (auto simp: start_op_at_def)
  next
    case 3
    then have "enqueue_op ty op d1 k1 = (d', k', cs)" using assms(2) r by (simp add: start_op_at_def)
    from enqueue_accounts [OF this] show ?thesis by (simp only: d1)
  next
    case 4
    then show ?thesis using assms(2) enqueue_accounts by (auto simp: start_op_at_def)
  qed
qed

text \<open>The operations performed are a prefix of the queue.\<close>

lemma perform_queue_order:
  assumes "keeps_func env" and "perform_queue env q ops k = (q', ops', k')"
  shows "\<exists>fs. map ro_func ops' = map ro_func ops @ fs \<and> map ro_func q = fs @ map ro_func q'"
  using assms(2)
proof (induction q arbitrary: ops k)
  case (Cons op q)
  obtain b op1 k1 where r: "re_perform env op k = (b, op1, k1)" by (metis prod_cases3)
  note f = keeps_funcD [OF assms(1) r]
  show ?case
  proof (cases b)
    case True
    then obtain fs where "map ro_func ops' = map ro_func (ops @ [op1]) @ fs" "map ro_func q = fs @ map ro_func q'"
      using Cons r by fastforce
    then show ?thesis using f by (intro exI [where x = "ro_func op # fs"]) simp
  next
    case False
    then show ?thesis using Cons.prems r f by auto
  qed
qed simp

lemma perform_queues_accounts:
  assumes "keeps_func env"
  shows "perform_queues env events js ops d k = (ops', d', k') \<Longrightarrow>
    funcs (waiting_ops d') + funcs (mset ops') = funcs (waiting_ops d) + funcs (mset ops)"
proof (induction js arbitrary: ops d k)
  case (Cons j js)
  obtain q ops1 k1 where r: "perform_queue env (ds_queue d j) ops k = (q, ops1, k1)" by (metis prod_cases3)
  obtain fs where fs: "map ro_func ops1 = map ro_func ops @ fs" "map ro_func (ds_queue d j) = fs @ map ro_func q"
    using perform_queue_order [OF assms r] by blast
  have m: "funcs (mset xs) = mset (map ro_func xs)" for xs :: "'b reactor_op list" by (simp add: funcs_def)
  have "funcs (waiting_ops (d\<lparr>ds_queue := (ds_queue d)(j := q)\<rparr>)) + funcs (mset (ds_queue d j)) = funcs (waiting_ops d) + funcs (mset q)"
    using arg_cong [OF waiting_update [of d j q], of funcs] by simp
  then have "funcs (waiting_ops (d\<lparr>ds_queue := (ds_queue d)(j := q)\<rparr>)) + funcs (mset ops1) = funcs (waiting_ops d) + funcs (mset ops)"
    by (simp add: m fs ac_simps)
  then show ?case using Cons.IH [of ops1 "d\<lparr>ds_queue := (ds_queue d)(j := q)\<rparr>" k1] Cons.IH [of ops d k] Cons.prems r
    by (auto split: if_splits)
qed simp

definition accounted :: "('f, 'k) descriptor_run \<Rightarrow> bool" where
  "accounted m \<longleftrightarrow>
     dm_started m = funcs (waiting_ops (dm_state m)) + funcs (dm_posted m) + funcs (dm_done m)
     \<and> dm_work m = int (size (waiting_ops (dm_state m)) + size (dm_posted m))"

lemma accounted_start:
  assumes "keeps_func env" and "accounted m"
  shows "accounted (run_start env p fd ty f c s m)"
proof -
  obtain d' k' cs where r: "start_op_at env p ty fd (new_reactor_op f) c s (dm_state m) (dm_kernel m) = (d', k', cs)"
    by (metis prod_cases3)
  have a: "accounts {#f#} (dm_state m) d' (call_ops cs) (call_work cs)"
    using start_accounts [OF assms(1) r] by (simp add: new_reactor_op_def)
  show ?thesis
    using a accounts_sizes [OF a] assms(2)
    by (simp add: accounted_def run_start_def r accounts_def obey_counts ac_simps)
qed

lemma accounted_complete:
  assumes "keeps_func env" and "accounted m"
  shows "accounted (run_complete env events m)"
proof -
  obtain ops d k where r: "perform_queues env events [Except_op, Write_op, Read_op] [] (dm_state m) (dm_kernel m) = (ops, d, k)"
    by (metis prod_cases3)
  have f: "funcs (waiting_ops d) + funcs (mset ops) = funcs (waiting_ops (dm_state m))"
    using perform_queues_accounts [OF assms(1) r] by simp
  have sz: "size (waiting_ops d) + length ops = size (waiting_ops (dm_state m))"
    using arg_cong [OF f, of size] by simp
  show ?thesis
  proof (cases ops)
    case Nil
    then show ?thesis using f sz assms(2)
      by (simp add: accounted_def run_complete_def do_complete_descriptor_def perform_io_def r io_cleanup_def Let_def after_complete_def
          del: perform_queues.simps)
  next
    case (Cons op rest)
    then show ?thesis using f [symmetric] sz [symmetric] assms(2)
      by (cases rest) (simp_all add: accounted_def run_complete_def do_complete_descriptor_def perform_io_def r io_cleanup_def
          Let_def after_complete_def ac_simps del: perform_queues.simps)
  qed
qed

lemma accounted_cancel:
  assumes "accounted m"
  shows "accounted (run_cancel m)" and "accounted (run_close m)"
proof -
  have w: "waiting_ops (d\<lparr>ds_queue := \<lambda>_. []\<rparr>) = {#}" for d :: "'a descriptor_state" by (simp add: waiting_ops_def)
  have e: "length (cancel_queue q []) = length q" for q :: "'a reactor_op list" by (simp add: cancel_queue_map)
  show "accounted (run_cancel m)" "accounted (run_close m)"
    using assms by (simp_all add: accounted_def run_cancel_def run_close_def cancel_ops_at_def close_at_def cancel_all w e
        funcs_cancelled del: cancel_queues.simps) (simp_all add: waiting_ops_def ac_simps)
qed

lemma accounted_step:
  assumes "keeps_func env" and "d_step env p fd kind moves reports m m'" and "accounted m"
  shows "accounted m'"
  using assms(2,3)
proof cases
  case (starts f c s)
  then show ?thesis using accounted_start [OF assms(1,3)] by simp
next
  case (performs events)
  have "accounted (m\<lparr>dm_flights := dm_flights m - {#events#}\<rparr>)" using assms(3) by (simp add: accounted_def)
  then show ?thesis using accounted_complete [OF assms(1)] performs by simp
next
  case (performs_stale events)
  then show ?thesis using accounted_complete [OF assms(1,3)] by simp
next
  case cancels
  then show ?thesis using accounted_cancel [OF assms(3)] by simp
next
  case closes
  then show ?thesis using accounted_cancel [OF assms(3)] by simp
next
  case (completed op)
  obtain P where "dm_posted m = add_mset op P" using multi_member_split [OF completed(2)] by blast
  then show ?thesis using completed(1) assms(3) by (simp add: accounted_def)
qed (simp_all add: accounted_def)

lemma initial_accounted: "accounted (d_initial fd events k)"
  by (simp add: accounted_def d_initial_def waiting_ops_def)

subsection \<open>No event is lost\<close>

text \<open>\<open>has events ty\<close>: the mask contains the event that operations of this type wait for.\<close>

definition has :: "u32 \<Rightarrow> op_type \<Rightarrow> bool" where
  "has events ty \<longleftrightarrow> events AND flag ty \<noteq> 0"

lemma has_or [simp]: "has (a OR b) ty \<longleftrightarrow> has a ty \<or> has b ty"
  by (simp add: has_def bit.conj_disj_distrib2 or_eq_0_iff)

lemma has_flag: "has EPOLLOUT Write_op" "has EPOLLOUT Read_op = False" "has EPOLLOUT Except_op = False"
  by (simp_all add: has_def epoll_bits)

lemma has_performs: "has events ty \<Longrightarrow> events AND (flag ty OR EPOLLERR OR EPOLLHUP) \<noteq> 0"
  by (auto simp: has_def bit.conj_disj_distrib or_eq_0_iff)

text \<open>
  What is relied on of the kernel. \<open>ready k\<close> are the conditions that hold for the descriptor, \<open>interest k\<close> the events
  epoll is asked for and \<open>due k\<close> those that it will report. A condition that comes up is due, and remains so until it
  is reported or ends; an operation that cannot be finished has met a moment when its condition did not hold;
  changing the interest looks at the conditions afresh.
\<close>

locale edge_triggered =
  fixes env :: "('p, 'f, 'k) reactor_env"
    and p :: 'p
    and fd :: int
    and kind :: "'f \<Rightarrow> op_type"
    and moves :: "'k \<Rightarrow> 'k \<Rightarrow> bool"
    and reports :: "'k \<Rightarrow> u32 \<Rightarrow> 'k \<Rightarrow> bool"
    and ready :: "'k \<Rightarrow> u32"
    and due :: "'k \<Rightarrow> u32"
    and interest :: "'k \<Rightarrow> u32"
  assumes moves_refl: "moves k k"
    and moves_trans: "moves k k1 \<Longrightarrow> moves k1 k2 \<Longrightarrow> moves k k2"
    and moves_interest: "moves k k1 \<Longrightarrow> interest k1 = interest k"
    and moves_rise: "moves k k1 \<Longrightarrow> has (interest k) ty \<Longrightarrow> has (ready k1) ty \<Longrightarrow> \<not> has (ready k) ty \<Longrightarrow> has (due k1) ty"
    and moves_due: "moves k k1 \<Longrightarrow> has (due k) ty \<Longrightarrow> has (ready k1) ty \<Longrightarrow> has (due k1) ty"
    and perform_moves: "re_perform env op k = (b, op1, k1) \<Longrightarrow> moves k k1"
    and perform_func: "re_perform env op k = (b, op1, k1) \<Longrightarrow> ro_func op1 = ro_func op"
    and perform_blocked: "re_perform env op k = (False, op1, k2) \<Longrightarrow>
      \<exists>k1. moves k k1 \<and> \<not> has (ready k1) (kind (ro_func op)) \<and> moves k1 k2"
    and ctl_armed: "re_ctl env Ctl_mod fd events p k = (None, k1) \<Longrightarrow>
      interest k1 = events \<and> (has events ty \<longrightarrow> has (ready k1) ty \<longrightarrow> has (due k1) ty)"
    and ctl_failed: "re_ctl env Ctl_mod fd events p k = (Some e, k1) \<Longrightarrow> moves k k1"
    and reports_interest: "reports k events k1 \<Longrightarrow> interest k1 = interest k"
    and reports_rise: "reports k events k1 \<Longrightarrow> has (interest k) ty \<Longrightarrow> has (ready k1) ty \<Longrightarrow> \<not> has (ready k) ty \<Longrightarrow>
      has events ty \<or> has (due k1) ty"
    and reports_due: "reports k events k1 \<Longrightarrow> has (due k) ty \<Longrightarrow> has (ready k1) ty \<Longrightarrow> has events ty \<or> has (due k1) ty"
begin

text \<open>If there is something to wait for, and it has come, then its event will arrive.\<close>

definition covered :: "u32 multiset \<Rightarrow> 'k \<Rightarrow> 'f descriptor_state \<Rightarrow> op_type \<Rightarrow> bool" where
  "covered F k d ty \<longleftrightarrow> ds_queue d ty = [] \<or>
     has (interest k) ty \<and> (has (ready k) ty \<longrightarrow> has (due k) ty \<or> (\<exists>events \<in># F. has events ty))"

definition typed :: "'f descriptor_state \<Rightarrow> bool" where
  "typed d \<longleftrightarrow> (\<forall>ty. \<forall>op \<in> set (ds_queue d ty). kind (ro_func op) = ty) \<and> has (ds_events d) Read_op \<and> has (ds_events d) Except_op"

definition d_inv :: "('f, 'k) descriptor_run \<Rightarrow> bool" where
  "d_inv m \<longleftrightarrow> typed (dm_state m) \<and> (\<not> dm_unarmed m \<longrightarrow> interest (dm_kernel m) = ds_events (dm_state m)
     \<and> (\<forall>ty. covered (dm_flights m) (dm_kernel m) (dm_state m) ty))"

lemma keeps: "keeps_func env"
  using perform_func by (auto simp: keeps_func_def) (metis prod.collapse)

lemma covered_moves: "moves k k1 \<Longrightarrow> covered F k d ty \<Longrightarrow> covered F k1 d ty"
  using moves_interest moves_rise moves_due by (auto simp: covered_def)

lemma covered_blocked: "\<not> has (ready k1) ty \<Longrightarrow> moves k1 k2 \<Longrightarrow> has (interest k1) ty \<Longrightarrow> covered F k2 d ty"
  using moves_interest moves_rise by (auto simp: covered_def)

lemma covered_queue: "ds_queue d1 ty = ds_queue d ty \<Longrightarrow> covered F k d1 ty = covered F k d ty"
  by (simp add: covered_def)

lemma covered_flights: "covered F k d ty \<Longrightarrow> F \<subseteq># G \<Longrightarrow> covered G k d ty"
  unfolding covered_def by (meson mset_subset_eqD)

lemma covered_empty: "ds_queue d ty = [] \<Longrightarrow> covered F k d ty"
  by (simp add: covered_def)

end

context edge_triggered
begin

lemma covered_armed:
  assumes "re_ctl env Ctl_mod fd events p k = (None, k1)" and "ds_queue d ty \<noteq> [] \<Longrightarrow> has events ty"
  shows "covered F k1 d ty"
  using ctl_armed [OF assms(1)] assms(2) by (auto simp: covered_def)

lemma typed_enqueue:
  "typed d \<Longrightarrow> kind (ro_func op) = ty \<Longrightarrow> enqueue_op ty op d k = (d', k', cs) \<Longrightarrow> typed d' \<and> ds_events d' = ds_events d \<and> k' = k"
  by (auto simp: enqueue_op_def typed_def split: if_splits)

lemma typed_events: "typed d \<Longrightarrow> typed (d\<lparr>ds_events := ds_events d OR e\<rparr>)"
  by (simp add: typed_def)

lemma enqueue_other: "enqueue_op ty op d k = (d', k', cs) \<Longrightarrow> t \<noteq> ty \<Longrightarrow> ds_queue d' t = ds_queue d t"
  by (auto simp: enqueue_op_def)

lemma speculative_inv:
  assumes typed: "typed d" and op: "kind (ro_func op) = ty"
    and s: "start_speculative env p ty fd op c d k = (d', k', cs)"
  shows "typed d'" and "interest k = ds_events d \<Longrightarrow> \<forall>t. covered F k d t \<Longrightarrow>
    interest k' = ds_events d' \<and> (\<forall>t. covered F k' d' t)"
proof -
  obtain b op1 k1 where r: "re_perform env op k = (b, op1, k1)" by (metis prod_cases3)
  have op1: "kind (ro_func op1) = ty" using perform_func [OF r] op by simp
  have k1: "moves k k1" by (rule perform_moves [OF r])
  obtain r2 k2 where c2: "re_ctl env Ctl_mod fd (ds_events d OR EPOLLOUT) p k1 = (r2, k2)"
    by (cases "re_ctl env Ctl_mod fd (ds_events d OR EPOLLOUT) p k1")
  let ?arm = "ty = Write_op \<and> ds_events d AND EPOLLOUT = 0"
  let ?d = "d\<lparr>ds_events := ds_events d OR (ds_events d OR EPOLLOUT)\<rparr>"
  consider (finished) b "d' = d" "k' = k1" | (waits) "\<not> b" "\<not> ?arm" "enqueue_op ty op1 d k1 = (d', k', cs)"
    | (arms) "\<not> b" ?arm "r2 = None" "enqueue_op ty op1 ?d k2 = (d', k', cs)"
    | (fails) e where "\<not> b" ?arm "r2 = Some e" "d' = d" "k' = k2"
    using s r c2 by (cases b; cases ?arm; cases r2) (auto simp: start_speculative_def)
  then have "typed d' \<and> (interest k = ds_events d \<longrightarrow> (\<forall>t. covered F k d t) \<longrightarrow>
    interest k' = ds_events d' \<and> (\<forall>t. covered F k' d' t))"
  proof cases
    case finished
    then show ?thesis using typed k1 moves_interest covered_moves by auto
  next
    case waits
    have d': "typed d'" "ds_events d' = ds_events d" "k' = k1" using typed_enqueue [OF typed op1 waits(3)] by simp_all
    obtain k0 where k0: "moves k k0" "\<not> has (ready k0) ty" "moves k0 k1"
      using perform_blocked [of op k op1 k1] r waits(1) op by auto
    have has: "has (ds_events d) ty" using waits(2) typed by (cases ty) (auto simp: typed_def has_def)
    have "covered F k1 d' t" if "interest k = ds_events d" "\<forall>t. covered F k d t" for t
    proof (cases "t = ty")
      case True
      then show ?thesis using covered_blocked [OF k0(2,3)] moves_interest [OF k0(1)] that(1) has by simp
    next
      case False
      then show ?thesis using covered_moves [OF k1] that(2) covered_queue enqueue_other [OF waits(3)] by metis
    qed
    then show ?thesis using d' moves_interest [OF k1] by simp
  next
    case arms
    have d: "typed ?d" by (rule typed_events [OF typed])
    have d': "typed d'" "ds_events d' = ds_events d OR EPOLLOUT" "k' = k2"
      using typed_enqueue [OF d op1 arms(4)] by simp_all
    have "covered F k2 d' t" if "\<forall>t. covered F k d t" "interest k = ds_events d" for t
    proof (rule covered_armed [OF c2 [unfolded arms(3)]])
      assume "ds_queue d' t \<noteq> []"
      then have "t = ty \<or> ds_queue d t \<noteq> []" using enqueue_other [OF arms(4)] by auto
      then show "has (ds_events d OR EPOLLOUT) t" using arms(2) that has_flag by (auto simp: covered_def)
    qed
    then show ?thesis using d' ctl_armed [OF c2 [unfolded arms(3)]] by simp
  next
    case fails
    then have "moves k k2" using moves_trans [OF k1 ctl_failed] c2 by blast
    then show ?thesis using fails typed moves_interest covered_moves by auto
  qed
  then show "typed d'" and "interest k = ds_events d \<Longrightarrow> \<forall>t. covered F k d t \<Longrightarrow>
    interest k' = ds_events d' \<and> (\<forall>t. covered F k' d' t)" by blast+
qed

lemma d_start_inv:
  assumes typed: "typed d" and op: "kind (ro_func op) = ty" and s: "start_op_at env p ty fd op c s d k = (d', k', cs)"
  shows "typed d'" and "\<not> unchecked_failure env p ty fd s d k \<Longrightarrow> interest k = ds_events d \<Longrightarrow> \<forall>t. covered F k d t \<Longrightarrow>
    interest k' = ds_events d' \<and> (\<forall>t. covered F k' d' t)"
proof -
  obtain r d1 k1 where r: "rearm env p ty fd d k = (r, d1, k1)" by (metis prod_cases3)
  consider (none) "d' = d" "k' = k"
    | (tries) "start_speculative env p ty fd op c d k = (d', k', cs)"
    | (arms) "\<not> ds_shutdown d" "ds_queue d ty = []" "\<not> speculates ty s d" "enqueue_op ty op d1 k1 = (d', k', cs)"
    | (queues) "ds_queue d ty \<noteq> []" "enqueue_op ty op d k = (d', k', cs)"
    using s r by (auto simp: start_op_at_def split: if_splits)
  then have "typed d' \<and> (\<not> unchecked_failure env p ty fd s d k \<longrightarrow> interest k = ds_events d \<longrightarrow> (\<forall>t. covered F k d t) \<longrightarrow>
    interest k' = ds_events d' \<and> (\<forall>t. covered F k' d' t))"
  proof cases
    case tries
    show ?thesis using speculative_inv [OF typed op tries] by blast
  next
    case arms
    have d1: "d1 = (if ty = Write_op then d\<lparr>ds_events := ds_events d OR EPOLLOUT\<rparr> else d)"
      and c: "re_ctl env Ctl_mod fd (ds_events d1) p k = (r, k1)"
      using r by (auto simp: rearm_def Let_def split: prod.splits if_splits)
    have "typed d1" using typed typed_events by (simp add: d1)
    then have d': "typed d'" "ds_events d' = ds_events d1" "k' = k1" using typed_enqueue [OF _ op arms(4)] by simp_all
    have "covered F k1 d' t" if "r = None" "\<forall>t. covered F k d t" "interest k = ds_events d" for t
    proof (rule covered_armed [OF c [unfolded that(1)]])
      assume "ds_queue d' t \<noteq> []"
      then have "t = ty \<or> ds_queue d t \<noteq> []" using enqueue_other [OF arms(4)] d1 by (auto split: if_splits)
      then show "has (ds_events d1) t" using that(2,3) has_flag typed
        by (cases t) (auto simp: covered_def d1 typed_def)
    qed
    moreover have "interest k1 = ds_events d1" if "r = None" using ctl_armed c that by blast
    ultimately show ?thesis using d' arms r by (simp add: unchecked_failure_def)
  next
    case queues
    have d': "typed d'" "ds_events d' = ds_events d" "k' = k" using typed_enqueue [OF typed op queues(2)] by simp_all
    then show ?thesis using queues(1) enqueue_other [OF queues(2)] by (simp add: covered_def) metis
  qed (use typed in simp)
  then show "typed d'" and "\<not> unchecked_failure env p ty fd s d k \<Longrightarrow> interest k = ds_events d \<Longrightarrow> \<forall>t. covered F k d t \<Longrightarrow>
    interest k' = ds_events d' \<and> (\<forall>t. covered F k' d' t)" by blast+
qed

end

context edge_triggered
begin

lemma perform_queue_inv:
  "perform_queue env q ops k = (q', ops', k') \<Longrightarrow> \<forall>op \<in> set q. kind (ro_func op) = ty \<Longrightarrow>
     moves k k' \<and> (\<forall>op \<in> set q'. kind (ro_func op) = ty)
     \<and> (q' = [] \<or> q \<noteq> [] \<and> (\<exists>k1. moves k k1 \<and> \<not> has (ready k1) ty \<and> moves k1 k'))"
proof (induction q arbitrary: ops k)
  case Nil
  then show ?case by (simp add: moves_refl)
next
  case (Cons op q)
  obtain b op1 k1 where r: "re_perform env op k = (b, op1, k1)" by (metis prod_cases3)
  show ?case
  proof (cases b)
    case True
    then have "moves k1 k' \<and> (\<forall>op \<in> set q'. kind (ro_func op) = ty)
     \<and> (q' = [] \<or> (\<exists>k2. moves k1 k2 \<and> \<not> has (ready k2) ty \<and> moves k2 k'))"
      using Cons r by auto
    then show ?thesis using moves_trans [OF perform_moves [OF r]] by (metis list.distinct(1))
  next
    case False
    then have q': "q' = op1 # q" "k' = k1" using Cons.prems r by simp_all
    obtain k2 where "moves k k2" "\<not> has (ready k2) ty" "moves k2 k1"
      using perform_blocked [of op k op1 k1] r False Cons.prems(2) by auto
    then show ?thesis using q' Cons.prems(2) perform_func [OF r] perform_moves [OF r] by auto
  qed
qed

lemma perform_queues_inv:
  "perform_queues env events js ops d k = (ops', d', k') \<Longrightarrow> typed d \<Longrightarrow>
     typed d' \<and> ds_events d' = ds_events d \<and> moves k k'
     \<and> ((\<forall>t. covered (add_mset events F) k d t) \<longrightarrow> (\<forall>t. t \<in> set js \<or> covered F k d t \<longrightarrow> covered F k' d' t))"
proof (induction js arbitrary: ops d k)
  case Nil
  then show ?case by (simp add: moves_refl)
next
  case (Cons j js)
  show ?case
  proof (cases "events AND (flag j OR EPOLLERR OR EPOLLHUP) = 0")
    case True
    then have "\<not> has events j" using has_performs by blast
    then have "covered (add_mset events F) k d j \<longrightarrow> covered F k d j" by (auto simp: covered_def)
    then show ?thesis using Cons.IH [of ops d k] Cons.prems True by auto
  next
    case False
    obtain q ops1 k1 where r: "perform_queue env (ds_queue d j) ops k = (q, ops1, k1)" by (metis prod_cases3)
    let ?d = "d\<lparr>ds_queue := (ds_queue d)(j := q)\<rparr>"
    have q: "moves k k1" "\<forall>op \<in> set q. kind (ro_func op) = j"
      "q = [] \<or> ds_queue d j \<noteq> [] \<and> (\<exists>k2. moves k k2 \<and> \<not> has (ready k2) j \<and> moves k2 k1)"
      using perform_queue_inv [OF r, of j] Cons.prems(2) by (auto simp: typed_def)
    have "typed ?d" using Cons.prems(2) q(2) by (auto simp: typed_def)
    then have ih: "typed d' \<and> ds_events d' = ds_events d \<and> moves k1 k'
     \<and> ((\<forall>t. covered (add_mset events F) k1 ?d t) \<longrightarrow> (\<forall>t. t \<in> set js \<or> covered F k1 ?d t \<longrightarrow> covered F k' d' t))"
      using Cons.IH [of ops1 ?d k1] Cons.prems(1) r False by simp
    have j: "covered G k1 ?d j" if "\<forall>t. covered (add_mset events F) k d t" for G
    proof (cases "q = []")
      case False
      then obtain k2 where k2: "ds_queue d j \<noteq> []" "moves k k2" "\<not> has (ready k2) j" "moves k2 k1" using q(3) by blast
      then have "has (interest k2) j" using that moves_interest [OF k2(2)] by (auto simp: covered_def)
      then show ?thesis by (rule covered_blocked [OF k2(3,4)])
    qed (simp add: covered_def)
    have other: "covered G k1 ?d t" if "covered G k d t" "t \<noteq> j" for G t
      using covered_moves [OF q(1) that(1)] that(2) by (simp add: covered_def)
    have all: "\<forall>t. covered (add_mset events F) k1 ?d t" if "\<forall>t. covered (add_mset events F) k d t"
      using j [OF that] other that by metis
    have "covered F k' d' t" if "\<forall>t. covered (add_mset events F) k d t" "t \<in> set (j # js) \<or> covered F k d t" for t
    proof (cases "t = j \<or> covered F k d t")
      case True
      then have "covered F k1 ?d t" using j [OF that(1)] other by blast
      then show ?thesis using ih all [OF that(1)] by blast
    next
      case False
      then show ?thesis using ih all [OF that(1)] that(2) by auto
    qed
    then show ?thesis using ih moves_trans [OF q(1)] by blast
  qed
qed

lemma d_complete_inv:
  assumes "d_inv (m\<lparr>dm_flights := add_mset events (dm_flights m)\<rparr>)"
  shows "d_inv (run_complete env events m)"
proof -
  obtain ops d k where r: "perform_queues env events [Except_op, Write_op, Read_op] [] (dm_state m) (dm_kernel m) = (ops, d, k)"
    by (metis prod_cases3)
  have "set [Except_op, Write_op, Read_op] = UNIV" by (auto intro: op_type.exhaust)
  then show ?thesis
    using perform_queues_inv [OF r, of "dm_flights m"] moves_interest [of "dm_kernel m" k] assms
    by (auto simp: d_inv_def run_complete_def do_complete_descriptor_def perform_io_def r after_complete_def Let_def
        simp del: perform_queues.simps)
qed

lemma d_inv_step: "d_step env p fd kind moves reports m m' \<Longrightarrow> d_inv m \<Longrightarrow> d_inv m'"
proof (induction rule: d_step.induct)
  case (kernel_moves m k)
  then show ?case using moves_interest covered_moves by (auto simp: d_inv_def)
next
  case (starts m f c s)
  obtain d' k' cs where r: "start_op_at env p (kind f) fd (new_reactor_op f) c s (dm_state m) (dm_kernel m) = (d', k', cs)"
    by (metis prod_cases3)
  have "kind (ro_func (new_reactor_op f)) = kind f" by (simp add: new_reactor_op_def)
  from d_start_inv [OF _ this r] starts show ?case by (auto simp: d_inv_def run_start_def r)
next
  case (reported m events k)
  have "covered (add_mset events F) k d t" if "covered F (dm_kernel m) d t" for F d t
    using that reports_interest [OF reported(1)] reports_rise [OF reported(1)] reports_due [OF reported(1)]
    by (auto simp: covered_def)
  then show ?case using reported reports_interest [OF reported(1)] by (auto simp: d_inv_def)
next
  case (performs events m)
  then show ?case by (intro d_complete_inv) simp
next
  case (performs_stale m events)
  have "d_inv (m\<lparr>dm_flights := add_mset events (dm_flights m)\<rparr>)"
    using performs_stale covered_flights [of "dm_flights m" _ _ _ "add_mset events (dm_flights m)"] by (auto simp: d_inv_def)
  then show ?case by (rule d_complete_inv)
next
  case (cancels m)
  then show ?case by (simp add: d_inv_def run_cancel_def cancel_ops_at_def cancel_all typed_def covered_def del: cancel_queues.simps)
next
  case (closes m)
  then show ?case by (simp add: d_inv_def run_close_def close_at_def cancel_all typed_def covered_def del: cancel_queues.simps)
next
  case (completed op m)
  then show ?case by (simp add: d_inv_def)
qed

lemma d_inv_initial:
  assumes "interest k = events" and "has events Read_op" and "has events Except_op"
  shows "d_inv (d_initial fd events k)"
  using assms by (simp add: d_inv_def d_initial_def typed_def covered_def)

lemma d_inv_reachable:
  "d_reachable env p fd kind moves reports m0 m \<Longrightarrow> d_inv m0 \<Longrightarrow> d_inv m"
  by (induction rule: d_reachable.induct) (auto intro: d_inv_step)

lemma event_coming:
  assumes "d_reachable env p fd kind moves reports (d_initial fd events k) m"
    and "interest k = events" and "has events Read_op" and "has events Except_op" and "\<not> dm_unarmed m"
    and "ds_queue (dm_state m) ty \<noteq> []" and "has (ready (dm_kernel m)) ty"
  shows "has (due (dm_kernel m)) ty \<or> (\<exists>e \<in># dm_flights m. has e ty)"
  using d_inv_reachable [OF assms(1) d_inv_initial [OF assms(2-4)]] assms(5-7) by (auto simp: d_inv_def covered_def)

end

context edge_triggered
begin

text \<open>An event makes every operation of its kind be tried, until the queue is empty or the condition was seen not to hold.\<close>

lemma perform_queues_tried:
  "perform_queues env events js ops d k = (ops', d', k') \<Longrightarrow> typed d \<Longrightarrow> distinct js \<Longrightarrow>
     moves k k' \<and> (\<forall>t. t \<notin> set js \<longrightarrow> ds_queue d' t = ds_queue d t)
     \<and> (\<forall>t \<in> set js. has events t \<longrightarrow> ds_queue d' t = [] \<or> (\<exists>k1. moves k k1 \<and> \<not> has (ready k1) t \<and> moves k1 k'))"
proof (induction js arbitrary: ops d k)
  case Nil
  then show ?case by (simp add: moves_refl)
next
  case (Cons j js)
  show ?case
  proof (cases "events AND (flag j OR EPOLLERR OR EPOLLHUP) = 0")
    case True
    then have "\<not> has events j" using has_performs by blast
    then show ?thesis using Cons.IH [of ops d k] Cons.prems True by auto
  next
    case False
    obtain q ops1 k1 where r: "perform_queue env (ds_queue d j) ops k = (q, ops1, k1)" by (metis prod_cases3)
    let ?d = "d\<lparr>ds_queue := (ds_queue d)(j := q)\<rparr>"
    have q: "moves k k1" "\<forall>op \<in> set q. kind (ro_func op) = j"
      "q = [] \<or> (\<exists>k2. moves k k2 \<and> \<not> has (ready k2) j \<and> moves k2 k1)"
      using perform_queue_inv [OF r, of j] Cons.prems(2) by (auto simp: typed_def)
    have "typed ?d" using Cons.prems(2) q(2) by (auto simp: typed_def)
    then have ih: "moves k1 k'" "\<forall>t. t \<notin> set js \<longrightarrow> ds_queue d' t = ds_queue ?d t"
      "\<forall>t \<in> set js. has events t \<longrightarrow> ds_queue d' t = [] \<or> (\<exists>k2. moves k1 k2 \<and> \<not> has (ready k2) t \<and> moves k2 k')"
      using Cons.IH [of ops1 ?d k1] Cons.prems(1,3) r False by simp_all
    have "ds_queue d' j = q" using Cons.prems(3) ih(2) by simp
    then have j: "ds_queue d' j = [] \<or> (\<exists>k2. moves k k2 \<and> \<not> has (ready k2) j \<and> moves k2 k')"
      using q(3) moves_trans [OF _ ih(1)] by blast
    have "ds_queue d' t = [] \<or> (\<exists>k2. moves k k2 \<and> \<not> has (ready k2) t \<and> moves k2 k')" if "t \<in> set js" "has events t" for t
      using bspec [OF ih(3) that(1)] that(2) moves_trans [OF q(1)] by blast
    then show ?thesis using j ih(2) moves_trans [OF q(1) ih(1)] by simp
  qed
qed

lemma complete_tries:
  assumes "typed (dm_state m)" and "has events ty"
  shows "ds_queue (dm_state (run_complete env events m)) ty = []
    \<or> (\<exists>k1. moves (dm_kernel m) k1 \<and> \<not> has (ready k1) ty \<and> moves k1 (dm_kernel (run_complete env events m)))"
proof -
  obtain ops d k where r: "perform_queues env events [Except_op, Write_op, Read_op] [] (dm_state m) (dm_kernel m) = (ops, d, k)"
    by (metis prod_cases3)
  have "distinct [Except_op, Write_op, Read_op]" by simp
  from perform_queues_tried [OF r assms(1) this]
  have "\<forall>t \<in> set [Except_op, Write_op, Read_op]. has events t \<longrightarrow>
    ds_queue d t = [] \<or> (\<exists>k1. moves (dm_kernel m) k1 \<and> \<not> has (ready k1) t \<and> moves k1 k)" by blast
  moreover have "ty \<in> set [Except_op, Write_op, Read_op]" by (cases ty) simp_all
  ultimately have "ds_queue d ty = [] \<or> (\<exists>k1. moves (dm_kernel m) k1 \<and> \<not> has (ready k1) ty \<and> moves k1 k)"
    using assms(2) by blast
  then show ?thesis
    by (simp add: run_complete_def do_complete_descriptor_def perform_io_def r after_complete_def Let_def del: perform_queues.simps)
qed

lemma reachable_typed:
  assumes "d_reachable env p fd kind moves reports (d_initial fd events k) m"
    and "interest k = events" and "has events Read_op" and "has events Except_op"
  shows "typed (dm_state m)"
  using d_inv_reachable [OF assms(1) d_inv_initial [OF assms(2-4)]] by (simp add: d_inv_def)

end

lemma accounted_reachable:
  "d_reachable env p fd kind moves reports m0 m \<Longrightarrow> keeps_func env \<Longrightarrow> accounted m0 \<Longrightarrow> accounted m"
  by (induction rule: d_reachable.induct) (auto intro: accounted_step)

end
