(* ===== verification/Asio_Object_Pool.thy ===== *)
theory Asio_Object_Pool
  imports Asio_Op_Queue
begin

text \<open>
  The pool of src/asio/include/asio/detail/object_pool.hpp, which keeps the descriptor states of the reactor: a
  doubly linked list of live objects and a singly linked list of free ones, linked through the objects (\<open>next_\<close>,
  \<open>prev_\<close>). Objects are never destroyed before the pool, and an allocated object is a freed one if there is any,
  with its members as they were left. The contract is a locale, \<open>recycling_pool\<close>, over the two lists.
\<close>

subsection \<open>The operations\<close>

record 'a pool =
  pl_next :: "'a links"
  pl_prev :: "'a links"
  pl_live :: "'a option"
  pl_free :: "'a option"

text \<open>The constructor does not touch the links, which belong to the objects.\<close>

definition new_pool :: "'a links \<Rightarrow> 'a links \<Rightarrow> 'a pool" where
  "new_pool nx pv = \<lparr>pl_next = nx, pl_prev = pv, pl_live = None, pl_free = None\<rparr>"

definition pool_first :: "'a pool \<Rightarrow> 'a option" where
  "pool_first s = pl_live s"

text \<open>The new object is put in front of the live list.\<close>

definition make_live :: "'a \<Rightarrow> 'a pool \<Rightarrow> 'a pool" where
  "make_live x s =
     (let s = s\<lparr>pl_next := (pl_next s)(x := pl_live s), pl_prev := (pl_prev s)(x := None)\<rparr>;
          s = (case pl_live s of Some l \<Rightarrow> s\<lparr>pl_prev := (pl_prev s)(l := Some x)\<rparr> | None \<Rightarrow> s)
      in s\<lparr>pl_live := Some x\<rparr>)"

text \<open>\<open>new_object\<close>: what \<open>new Object\<close> returns.\<close>

definition pool_alloc :: "'a \<Rightarrow> 'a pool \<Rightarrow> 'a \<times> 'a pool" where
  "pool_alloc new_object s =
     (case pl_free s of
        Some x \<Rightarrow> (x, make_live x (s\<lparr>pl_free := pl_next s x\<rparr>))
      | None \<Rightarrow> (new_object, make_live new_object s))"

definition pool_free :: "'a \<Rightarrow> 'a pool \<Rightarrow> 'a pool" where
  "pool_free x s =
     (let s = (if pl_live s = Some x then s\<lparr>pl_live := pl_next s x\<rparr> else s);
          s = (case pl_prev s x of Some p \<Rightarrow> s\<lparr>pl_next := (pl_next s)(p := pl_next s x)\<rparr> | None \<Rightarrow> s);
          s = (case pl_next s x of Some n \<Rightarrow> s\<lparr>pl_prev := (pl_prev s)(n := pl_prev s x)\<rparr> | None \<Rightarrow> s)
      in s\<lparr>pl_next := (pl_next s)(x := pl_free s), pl_prev := (pl_prev s)(x := None), pl_free := Some x\<rparr>)"

text \<open>The destructor; the result is the objects it destroys, in order.\<close>

partial_function (option) destroy_list :: "'a links \<Rightarrow> 'a list \<Rightarrow> 'a option \<Rightarrow> 'a list option" where
  "destroy_list nx destroyed list =
     (case list of None \<Rightarrow> Some destroyed | Some x \<Rightarrow> destroy_list nx (destroyed @ [x]) (nx x))"

definition pool_destroy :: "'a pool \<Rightarrow> 'a list option" where
  "pool_destroy s =
     (case destroy_list (pl_next s) [] (pl_live s) of
        None \<Rightarrow> None | Some live \<Rightarrow> destroy_list (pl_next s) live (pl_free s))"

subsection \<open>The contract\<close>

text \<open>\<open>holds s ls fs\<close>: \<open>ls\<close> are the live objects, the latest first, and \<open>fs\<close> the free ones, in the order of reuse.\<close>

locale recycling_pool =
  fixes holds :: "'s \<Rightarrow> 'a list \<Rightarrow> 'a list \<Rightarrow> bool"
    and first :: "'s \<Rightarrow> 'a option"
    and alloc :: "'a \<Rightarrow> 's \<Rightarrow> 'a \<times> 's"
    and free :: "'a \<Rightarrow> 's \<Rightarrow> 's"
  assumes holds_distinct: "holds s ls fs \<Longrightarrow> distinct (ls @ fs)"
    and first_hd: "holds s ls fs \<Longrightarrow> first s = (case ls of [] \<Rightarrow> None | x # _ \<Rightarrow> Some x)"
    and alloc_recycled: "holds s ls (x # fs) \<Longrightarrow> alloc n s = (y, s') \<Longrightarrow> y = x \<and> holds s' (x # ls) fs"
    and alloc_new: "holds s ls [] \<Longrightarrow> n \<notin> set ls \<Longrightarrow> alloc n s = (y, s') \<Longrightarrow> y = n \<and> holds s' (n # ls) []"
    and free_live: "holds s ls fs \<Longrightarrow> x \<in> set ls \<Longrightarrow> holds (free x s) (remove1 x ls) (x # fs)"

fun prevs :: "'a links \<Rightarrow> 'a option \<Rightarrow> 'a list \<Rightarrow> bool" where
  "prevs pv p [] \<longleftrightarrow> True"
| "prevs pv p (x # xs) \<longleftrightarrow> pv x = p \<and> prevs pv (Some x) xs"

definition pool_holds :: "'a pool \<Rightarrow> 'a list \<Rightarrow> 'a list \<Rightarrow> bool" where
  "pool_holds s ls fs \<longleftrightarrow> chain (pl_next s) (pl_live s) ls \<and> prevs (pl_prev s) None ls
     \<and> chain (pl_next s) (pl_free s) fs \<and> distinct (ls @ fs)"

lemma prevs_update: "x \<notin> set xs \<Longrightarrow> prevs (pv(x := y)) p xs = prevs pv p xs"
  by (induction xs arbitrary: p) auto

lemma prevs_append: "prevs pv p (xs @ ys) \<longleftrightarrow> prevs pv p xs \<and> prevs pv (if xs = [] then p else Some (last xs)) ys"
  by (induction xs arbitrary: p) auto

lemma chain_split: "chain nx p (xs @ x # ys) \<Longrightarrow> chain nx (nx x) ys \<and> (if xs = [] then p else nx (last xs)) = Some x"
  by (induction xs arbitrary: p) (auto split: if_splits)

lemma chain_relink:
  "chain nx p (xs @ x # ys) \<Longrightarrow> distinct (xs @ x # ys) \<Longrightarrow>
     (if xs = [] then chain nx (nx x) ys else chain (nx(last xs := nx x)) p (xs @ ys))"
proof (induction xs arbitrary: p)
  case (Cons u us)
  show ?case
  proof (cases "us = []")
    case True
    then show ?thesis using Cons.prems by (auto simp: chain_update)
  next
    case False
    then have "last us \<noteq> u" using Cons.prems(2) by auto
    then show ?thesis using False Cons by auto
  qed
qed simp

lemma make_live_holds:
  assumes "pool_holds s ls fs" and "x \<notin> set ls" and "x \<notin> set fs"
  shows "pool_holds (make_live x s) (x # ls) fs"
  using assms by (cases ls) (auto simp: pool_holds_def make_live_def Let_def chain_update prevs_update)

lemma pool_free_holds:
  assumes h: "pool_holds s (xs @ x # ys) fs"
  shows "pool_holds (pool_free x s) (xs @ ys) (x # fs)"
proof -
  let ?nx = "pl_next s" and ?pv = "pl_prev s"
  have d: "distinct (xs @ x # ys)" "x \<notin> set xs" "x \<notin> set ys" "set fs \<inter> set (xs @ x # ys) = {}" "distinct fs"
    using h by (auto simp: pool_holds_def)
  have c: "chain ?nx (pl_live s) (xs @ x # ys)" "chain ?nx (pl_free s) fs" using h by (simp_all add: pool_holds_def)
  have p: "prevs ?pv None xs" "?pv x = (if xs = [] then None else Some (last xs))" "prevs ?pv (Some x) ys"
    using h by (auto simp: pool_holds_def prevs_append)
  have live: "pl_live s = Some x \<longleftrightarrow> xs = []" using c(1) d(2) by (cases xs) auto
  have ys: "?nx x = (case ys of [] \<Rightarrow> None | y # _ \<Rightarrow> Some y)" using chain_split [OF c(1)] by (cases ys) auto
  have "set xs \<inter> (insert x (set ys) \<union> set fs) = {}" using d by auto
  then have lst: "last xs \<notin> set ys" "last xs \<noteq> x" "last xs \<notin> set fs" if "xs \<noteq> []"
    using last_in_set [OF that] by blast+
  have relinked: "chain (if xs = [] then ?nx else ?nx(last xs := ?nx x)) (if xs = [] then ?nx x else pl_live s) (xs @ ys)"
    using chain_relink [OF c(1) d(1)] by (auto split: if_splits)
  have prevs: "prevs (case ys of [] \<Rightarrow> ?pv | y # _ \<Rightarrow> ?pv(y := ?pv x)) None (xs @ ys)"
    using p d by (cases ys) (auto simp: prevs_append prevs_update)
  have frees: "chain (if xs = [] then ?nx else ?nx(last xs := ?nx x)) (pl_free s) fs"
    using c(2) lst(3) by (simp add: chain_update)
  have out: "pool_free x s = s\<lparr>pl_next := (if xs = [] then ?nx else ?nx(last xs := ?nx x))(x := pl_free s),
      pl_prev := (case ys of [] \<Rightarrow> ?pv | y # _ \<Rightarrow> ?pv(y := ?pv x))(x := None),
      pl_live := (if xs = [] then ?nx x else pl_live s), pl_free := Some x\<rparr>"
    using live ys p(2) lst(2) by (cases "xs = []"; cases ys) (simp_all add: pool_free_def Let_def)
  have "x \<notin> set (xs @ ys)" "x \<notin> set fs" using d by auto
  moreover have "distinct ((xs @ ys) @ x # fs)" using d by auto
  ultimately show ?thesis using relinked prevs frees
    by (simp add: out pool_holds_def chain_update prevs_update)
qed

interpretation op: recycling_pool pool_holds pool_first pool_alloc pool_free
proof
  fix s :: "'a pool" and ls fs n y s'
  assume h: "pool_holds s ls fs"
  then show "distinct (ls @ fs)" by (simp add: pool_holds_def)
  from h show "pool_first s = (case ls of [] \<Rightarrow> None | x # _ \<Rightarrow> Some x)"
    by (cases ls) (simp_all add: pool_holds_def pool_first_def)
  fix x
  assume "x \<in> set ls"
  then obtain xs ys where ls: "ls = xs @ x # ys" by (auto simp: in_set_conv_decomp)
  then have "x \<notin> set xs" using h by (auto simp: pool_holds_def)
  then show "pool_holds (pool_free x s) (remove1 x ls) (x # fs)"
    using pool_free_holds h ls by (auto simp: remove1_append)
next
  fix s :: "'a pool" and ls fs n y s' x
  assume h: "pool_holds s ls (x # fs)" and a: "pool_alloc n s = (y, s')"
  have "pool_holds (s\<lparr>pl_free := pl_next s x\<rparr>) ls fs" using h by (simp add: pool_holds_def)
  then have "pool_holds (make_live x (s\<lparr>pl_free := pl_next s x\<rparr>)) (x # ls) fs"
    using h by (intro make_live_holds) (auto simp: pool_holds_def)
  then show "y = x \<and> pool_holds s' (x # ls) fs" using h a by (auto simp: pool_holds_def pool_alloc_def)
next
  fix s :: "'a pool" and ls n y s'
  assume h: "pool_holds s ls []" and n: "n \<notin> set ls" and a: "pool_alloc n s = (y, s')"
  have "pl_free s = None" using h by (simp add: pool_holds_def)
  then show "y = n \<and> pool_holds s' (n # ls) []" using make_live_holds [OF h n] a by (auto simp: pool_alloc_def)
qed

subsection \<open>What the reactor relies on\<close>

context recycling_pool
begin

lemma alloc_holds:
  assumes "holds s ls fs" and "n \<notin> set (ls @ fs)" and "alloc n s = (x, s')"
  shows "x \<notin> set ls \<and> (x = n \<or> x \<in> set fs) \<and> holds s' (x # ls) (remove1 x fs)"
proof (cases fs)
  case Nil
  with alloc_new [of s ls n x s'] assms show ?thesis by simp
next
  case (Cons y ys)
  with alloc_recycled [of s ls y ys n x s'] holds_distinct [OF assms(1)] assms show ?thesis by auto
qed

lemma recycle:
  assumes "holds s ls fs" and "x \<in> set ls" and "alloc n (free x s) = (y, s')"
  shows "y = x \<and> holds s' (x # remove1 x ls) fs"
  using alloc_recycled [OF free_live [OF assms(1,2)] assms(3)] .

end

lemma destroy_list_chain: "chain nx p xs \<Longrightarrow> destroy_list nx acc p = Some (acc @ xs)"
proof (induction xs arbitrary: p acc)
  case Nil
  then show ?case by (subst destroy_list.simps) simp
next
  case (Cons x xs)
  then show ?case by (subst destroy_list.simps) simp
qed

lemma pool_destroy_all: "pool_holds s ls fs \<Longrightarrow> pool_destroy s = Some (ls @ fs)"
  using destroy_list_chain [of "pl_next s" "pl_live s" ls "[]"] destroy_list_chain [of "pl_next s" "pl_free s" fs ls]
  by (simp add: pool_holds_def pool_destroy_def)

text \<open>
  C37. The pool is a list of live objects and a list of free ones: an allocated object is the one freed last, or a new
  one when none is free, and is put in front; freeing takes exactly that object out of the live list, wherever it
  stands, and makes it the next to be reused; the destructor ends and destroys every object once.
\<close>

theorem object_pool_refines:
  assumes "pool_holds s ls fs" and "n \<notin> set (ls @ fs)" and "x \<in> set ls"
  shows "(case pool_alloc n s of (y, s') \<Rightarrow> y = (case fs of [] \<Rightarrow> n | f # _ \<Rightarrow> f) \<and> pool_holds s' (y # ls) (tl fs))
    \<and> pool_holds (pool_free x s) (remove1 x ls) (x # fs)
    \<and> pool_first s = Some (hd ls)
    \<and> (\<exists>ds. pool_destroy s = Some ds \<and> distinct ds \<and> set ds = set ls \<union> set fs)"
proof -
  have "case pool_alloc n s of (y, s') \<Rightarrow> y = (case fs of [] \<Rightarrow> n | f # _ \<Rightarrow> f) \<and> pool_holds s' (y # ls) (tl fs)"
  proof (cases fs)
    case Nil
    then show ?thesis using op.alloc_new [of s ls n] assms(1,2) by (auto split: prod.split)
  next
    case (Cons f fs')
    then show ?thesis using op.alloc_recycled [of s ls f fs' n] assms(1) by (auto split: prod.split)
  qed
  moreover have "pool_first s = Some (hd ls)" using op.first_hd [OF assms(1)] assms(3) by (cases ls) simp_all
  ultimately show ?thesis
    using op.free_live [OF assms(1,3)] pool_destroy_all [OF assms(1)] op.holds_distinct [OF assms(1)] by auto
qed

theorem object_pool_refines_witness:
  "pool_holds (pool_free 2 (make_live 1 (make_live 2 (make_live (3 :: nat) (new_pool (\<lambda>_. None) (\<lambda>_. None)))))) [1, 3] [2]"
proof -
  have "pool_holds (new_pool (\<lambda>_. None) (\<lambda>_. None)) [] ([] :: nat list)" by (simp add: new_pool_def pool_holds_def)
  then have "pool_holds (make_live 1 (make_live 2 (make_live (3 :: nat) (new_pool (\<lambda>_. None) (\<lambda>_. None))))) [1, 2, 3] []"
    by (intro make_live_holds) simp_all
  from object_pool_refines [OF this, of 4 2] show ?thesis by simp
qed

end
