(* ===== verification/Asio_Reactor.thy ===== *)
theory Asio_Reactor
  imports Asio_Descriptor Asio_Object_Pool Asio_Timer_Set
begin

text \<open>
  The reactor for epoll (src/asio/include/asio/detail/epoll_reactor.hpp, impl/epoll_reactor.hpp and .ipp): the pool
  of descriptor states (\<open>Asio_Object_Pool\<close>) with the operations of \<open>Asio_Descriptor\<close> on them, and the timer queues
  (\<open>Asio_Timer_Set\<close>). A descriptor state is a pointer into a store; the pointers a socket holds may be null
  (\<open>None\<close>). What is asked of the event loop is returned as a list of calls.

  The descriptors of epoll and of the timer are created when the reactor is constructed; \<open>fork_service\<close>, which creates
  them again, is left out.
\<close>

subsection \<open>The state\<close>

datatype 'p event_data = Interrupter | Timer_descriptor | Descriptor_data 'p

record ('p, 'f, 'q, 'tm, 't, 'h) reactor =
  rx_interrupter :: int
  rx_timer_fd :: int
  rx_shutdown :: bool
  rx_pool :: "'p pool"
  rx_states :: "'p \<Rightarrow> 'f descriptor_state"
  rx_timer_set :: "'q queue_set"
  rx_timers :: "('q, 'tm, 't, 'h) queues"

type_synonym ('p, 'f, 'k) epoll_env = "('p event_data, 'f, 'k) reactor_env"

record itimerspec =
  it_sec :: int
  it_nsec :: int

text \<open>What a state contains before its members are set: the queues are constructed, the rest is not.\<close>

definition raw_state :: "'f descriptor_state \<Rightarrow> 'f descriptor_state" where
  "raw_state garbage = garbage\<lparr>ds_queue := \<lambda>_. []\<rparr>"

text \<open>
  The constructor adds the interrupter and the timer, if there is one, to epoll; \<open>wake\<close> is the function that makes the
  interrupter readable. The links and the states are what the memory contains.
\<close>

definition new_reactor ::
  "('p, 'f, 'k) epoll_env \<Rightarrow> ('k \<Rightarrow> 'k) \<Rightarrow> int \<Rightarrow> int \<Rightarrow> 'p links \<Rightarrow> 'p links \<Rightarrow> ('p \<Rightarrow> 'f descriptor_state) \<Rightarrow> 'q links
    \<Rightarrow> ('q, 'tm, 't, 'h) queues \<Rightarrow> 'k \<Rightarrow> ('p, 'f, 'q, 'tm, 't, 'h) reactor \<times> 'k" where
  "new_reactor env wake interrupter timer_fd nxp pvp garbage nx timers k =
     (let k = snd (re_ctl env Ctl_add interrupter (EPOLLIN OR EPOLLERR OR EPOLLET) Interrupter k);
          k = wake k;
          k = (if timer_fd \<noteq> - 1 then snd (re_ctl env Ctl_add timer_fd (EPOLLIN OR EPOLLERR) Timer_descriptor k) else k)
      in (\<lparr>rx_interrupter = interrupter, rx_timer_fd = timer_fd, rx_shutdown = False,
           rx_pool = new_pool nxp pvp, rx_states = (\<lambda>p. raw_state (garbage p)),
           rx_timer_set = \<lparr>qs_first = None, qs_next = nx\<rparr>, rx_timers = timers\<rparr>, k))"

text \<open>Changing the registration of the interrupter, which stays readable, makes \<open>epoll_wait\<close> return.\<close>

definition interrupt :: "('p, 'f, 'k) epoll_env \<Rightarrow> ('p, 'f, 'q, 'tm, 't, 'h) reactor \<Rightarrow> 'k \<Rightarrow> 'k" where
  "interrupt env st k = snd (re_ctl env Ctl_mod (rx_interrupter st) (EPOLLIN OR EPOLLERR OR EPOLLET) Interrupter k)"

definition on_state ::
  "'p \<Rightarrow> ('f descriptor_state \<Rightarrow> 'f descriptor_state) \<Rightarrow> ('p, 'f, 'q, 'tm, 't, 'h) reactor \<Rightarrow> ('p, 'f, 'q, 'tm, 't, 'h) reactor" where
  "on_state p f st = st\<lparr>rx_states := (rx_states st)(p := f (rx_states st p))\<rparr>"

subsection \<open>Descriptors\<close>

definition allocate_descriptor_state ::
  "'p \<Rightarrow> ('p, 'f, 'q, 'tm, 't, 'h) reactor \<Rightarrow> 'p \<times> ('p, 'f, 'q, 'tm, 't, 'h) reactor" where
  "allocate_descriptor_state new_object st =
     (case pool_alloc new_object (rx_pool st) of (p, pool) \<Rightarrow> (p, st\<lparr>rx_pool := pool\<rparr>))"

definition free_descriptor_state :: "'p \<Rightarrow> ('p, 'f, 'q, 'tm, 't, 'h) reactor \<Rightarrow> ('p, 'f, 'q, 'tm, 't, 'h) reactor" where
  "free_descriptor_state p st = st\<lparr>rx_pool := pool_free p (rx_pool st)\<rparr>"

definition descriptor_events :: u32 where
  "descriptor_events = EPOLLIN OR EPOLLERR OR EPOLLHUP OR EPOLLPRI OR EPOLLET"

text \<open>The result is the error, the pointer for the socket, the reactor and the kernel.\<close>

definition register_descriptor ::
  "('p, 'f, 'k) epoll_env \<Rightarrow> 'p \<Rightarrow> int \<Rightarrow> ('p, 'f, 'q, 'tm, 't, 'h) reactor \<Rightarrow> 'k
    \<Rightarrow> errc option \<times> 'p option \<times> ('p, 'f, 'q, 'tm, 't, 'h) reactor \<times> 'k" where
  "register_descriptor env new_object descriptor st k =
     (case allocate_descriptor_state new_object st of
        (p, st) \<Rightarrow>
          let st = on_state p (\<lambda>d. d\<lparr>ds_descriptor := descriptor, ds_shutdown := False\<rparr>) st;
              st = on_state p (\<lambda>d. d\<lparr>ds_events := descriptor_events\<rparr>) st
          in case re_ctl env Ctl_add descriptor descriptor_events (Descriptor_data p) k of
               (result, k) \<Rightarrow> (result, Some p, st, k))"

definition register_internal_descriptor ::
  "('p, 'f, 'k) epoll_env \<Rightarrow> 'p \<Rightarrow> op_type \<Rightarrow> int \<Rightarrow> 'f reactor_op \<Rightarrow> ('p, 'f, 'q, 'tm, 't, 'h) reactor \<Rightarrow> 'k
    \<Rightarrow> errc option \<times> 'p option \<times> ('p, 'f, 'q, 'tm, 't, 'h) reactor \<times> 'k" where
  "register_internal_descriptor env new_object ty descriptor op st k =
     (case allocate_descriptor_state new_object st of
        (p, st) \<Rightarrow>
          let st = on_state p (\<lambda>d. d\<lparr>ds_descriptor := descriptor, ds_shutdown := False,
                                     ds_queue := (ds_queue d)(ty := ds_queue d ty @ [op])\<rparr>) st;
              st = on_state p (\<lambda>d. d\<lparr>ds_events := descriptor_events\<rparr>) st
          in case re_ctl env Ctl_add descriptor descriptor_events (Descriptor_data p) k of
               (result, k) \<Rightarrow> (result, Some p, st, k))"

text \<open>The target and the source afterwards.\<close>

definition move_descriptor :: "'p option \<Rightarrow> 'p option \<Rightarrow> 'p option \<times> 'p option" where
  "move_descriptor target source = (source, None)"

definition start_op ::
  "('p, 'f, 'k) epoll_env \<Rightarrow> op_type \<Rightarrow> int \<Rightarrow> 'p option \<Rightarrow> 'f reactor_op \<Rightarrow> bool \<Rightarrow> bool \<Rightarrow> ('p, 'f, 'q, 'tm, 't, 'h) reactor \<Rightarrow> 'k
    \<Rightarrow> ('p, 'f, 'q, 'tm, 't, 'h) reactor \<times> 'k \<times> 'f io_call list" where
  "start_op env ty descriptor descriptor_data op is_continuation allow_speculative st k =
     (case descriptor_data of
        None \<Rightarrow> (st, k, [Post_immediate (op\<lparr>ro_ec := Some BadDescriptor\<rparr>) is_continuation])
      | Some p \<Rightarrow>
          (case start_op_at env (Descriptor_data p) ty descriptor op is_continuation allow_speculative (rx_states st p) k of
             (d, k, calls) \<Rightarrow> (on_state p (\<lambda>_. d) st, k, calls)))"

definition cancel_ops ::
  "'p option \<Rightarrow> ('p, 'f, 'q, 'tm, 't, 'h) reactor \<Rightarrow> ('p, 'f, 'q, 'tm, 't, 'h) reactor \<times> 'f io_call list" where
  "cancel_ops descriptor_data st =
     (case descriptor_data of
        None \<Rightarrow> (st, [])
      | Some p \<Rightarrow> (case cancel_ops_at (rx_states st p) of (d, calls) \<Rightarrow> (on_state p (\<lambda>_. d) st, calls)))"

definition deregister_descriptor ::
  "('p, 'f, 'k) epoll_env \<Rightarrow> int \<Rightarrow> 'p option \<Rightarrow> bool \<Rightarrow> ('p, 'f, 'q, 'tm, 't, 'h) reactor \<Rightarrow> 'k
    \<Rightarrow> 'p option \<times> ('p, 'f, 'q, 'tm, 't, 'h) reactor \<times> 'k \<times> 'f io_call list" where
  "deregister_descriptor env descriptor descriptor_data closing st k =
     (case descriptor_data of
        None \<Rightarrow> (None, st, k, [])
      | Some p \<Rightarrow>
          if \<not> ds_shutdown (rx_states st p)
          then let k = (if closing then k else snd (re_ctl env Ctl_del descriptor 0 (Descriptor_data p) k))
               in case close_at (rx_states st p) of
                    (d, ops) \<Rightarrow> (None, free_descriptor_state p (on_state p (\<lambda>_. d) st), k, [Post_deferred ops])
          else (Some p, st, k, []))"

text \<open>The operations of an internal descriptor are destroyed with the local queue.\<close>

definition deregister_internal_descriptor ::
  "('p, 'f, 'k) epoll_env \<Rightarrow> int \<Rightarrow> 'p option \<Rightarrow> ('p, 'f, 'q, 'tm, 't, 'h) reactor \<Rightarrow> 'k
    \<Rightarrow> 'p option \<times> ('p, 'f, 'q, 'tm, 't, 'h) reactor \<times> 'k \<times> 'f reactor_op list" where
  "deregister_internal_descriptor env descriptor descriptor_data st k =
     (case descriptor_data of
        None \<Rightarrow> (None, st, k, [])
      | Some p \<Rightarrow>
          if \<not> ds_shutdown (rx_states st p)
          then let k = snd (re_ctl env Ctl_del descriptor 0 (Descriptor_data p) k);
                   d = rx_states st p;
                   ops = ds_queue d Read_op @ ds_queue d Write_op @ ds_queue d Except_op;
                   d = d\<lparr>ds_queue := \<lambda>_. [], ds_descriptor := - 1, ds_shutdown := True\<rparr>
               in (None, free_descriptor_state p (on_state p (\<lambda>_. d) st), k, ops)
          else (Some p, st, k, []))"

text \<open>\<open>descriptor_state::do_complete\<close> on a state of the store; the first operation is completed by the caller.\<close>

definition complete_descriptor ::
  "('p, 'f, 'k) epoll_env \<Rightarrow> 'p \<Rightarrow> u32 \<Rightarrow> ('p, 'f, 'q, 'tm, 't, 'h) reactor \<Rightarrow> 'k
    \<Rightarrow> 'f reactor_op option \<times> ('p, 'f, 'q, 'tm, 't, 'h) reactor \<times> 'k \<times> 'f io_call list" where
  "complete_descriptor env p events st k =
     (case do_complete_descriptor env True events (rx_states st p) k of
        (first_op, d, k, calls) \<Rightarrow> (first_op, on_state p (\<lambda>_. d) st, k, calls))"

subsection \<open>Timers\<close>

definition do_add_timer_queue :: "'q \<Rightarrow> ('p, 'f, 'q, 'tm, 't, 'h) reactor \<Rightarrow> ('p, 'f, 'q, 'tm, 't, 'h) reactor" where
  "do_add_timer_queue q st = st\<lparr>rx_timer_set := set_insert q (rx_timer_set st)\<rparr>"

definition do_remove_timer_queue :: "'q \<Rightarrow> ('p, 'f, 'q, 'tm, 't, 'h) reactor \<Rightarrow> ('p, 'f, 'q, 'tm, 't, 'h) reactor option" where
  "do_remove_timer_queue q st =
     map_option (\<lambda>s. st\<lparr>rx_timer_set := s\<rparr>) (set_erase q (rx_timer_set st))"

definition get_timeout :: "('q \<Rightarrow> 'tm \<Rightarrow> duration) \<Rightarrow> ('p, 'f, 'q, 'tm, 't, 'h) reactor \<Rightarrow> int option" where
  "get_timeout until st = set_wait_duration_msec until (rx_timers st) (5 * 60 * 1000) (rx_timer_set st)"

text \<open>For the timer descriptor; the second component is the flag \<open>TFD_TIMER_ABSTIME\<close>. The duration is not negative.\<close>

definition get_timeout_spec ::
  "('q \<Rightarrow> 'tm \<Rightarrow> duration) \<Rightarrow> ('p, 'f, 'q, 'tm, 't, 'h) reactor \<Rightarrow> (itimerspec \<times> bool) option" where
  "get_timeout_spec until st =
     (case set_wait_duration_usec until (rx_timers st) (5 * 60 * 1000 * 1000) (rx_timer_set st) of
        None \<Rightarrow> None
      | Some usec \<Rightarrow>
          Some (\<lparr>it_sec = usec div 1000000, it_nsec = (if usec \<noteq> 0 then (usec mod 1000000) * 1000 else 1)\<rparr>, usec = 0))"

text \<open>\<open>settime\<close> is \<open>timerfd_settime\<close> on the descriptor of the timer.\<close>

definition update_timeout ::
  "('p, 'f, 'k) epoll_env \<Rightarrow> (itimerspec \<Rightarrow> bool \<Rightarrow> 'k \<Rightarrow> 'k) \<Rightarrow> ('q \<Rightarrow> 'tm \<Rightarrow> duration)
    \<Rightarrow> ('p, 'f, 'q, 'tm, 't, 'h) reactor \<Rightarrow> 'k \<Rightarrow> 'k option" where
  "update_timeout env settime until st k =
     (if rx_timer_fd st \<noteq> - 1
      then map_option (\<lambda>(ts, flags). settime ts flags k) (get_timeout_spec until st)
      else Some (interrupt env st k))"

text \<open>What the timers ask of the event loop.\<close>

datatype 'h timer_io =
    Timer_immediate "'h wait_op"
  | Timers_deferred "'h wait_op list"
  | Timer_work_started

definition schedule_timer ::
  "('p, 'f, 'k) epoll_env \<Rightarrow> (itimerspec \<Rightarrow> bool \<Rightarrow> 'k \<Rightarrow> 'k) \<Rightarrow> ('q \<Rightarrow> 'tm \<Rightarrow> duration) \<Rightarrow> ('tm \<Rightarrow> bool)
    \<Rightarrow> 'q \<Rightarrow> 'tm \<Rightarrow> 't \<Rightarrow> 'h wait_op \<Rightarrow> ('p, 'f, 'q, 'tm :: linorder, 't, 'h) reactor \<Rightarrow> 'k
    \<Rightarrow> (('p, 'f, 'q, 'tm, 't, 'h) reactor \<times> 'k \<times> 'h timer_io list) option" where
  "schedule_timer env settime until is_positive_infinity q time t op st k =
     (if rx_shutdown st then Some (st, k, [Timer_immediate op])
      else case enqueue_timer is_positive_infinity time t op (rx_timers st q) of
             (q', earliest) \<Rightarrow>
               let st = st\<lparr>rx_timers := (rx_timers st)(q := q')\<rparr>
               in if earliest
                  then map_option (\<lambda>k. (st, k, [Timer_work_started])) (update_timeout env settime until st k)
                  else Some (st, k, [Timer_work_started]))"

definition cancel_timer_op ::
  "nat \<Rightarrow> 'q \<Rightarrow> 't \<Rightarrow> ('p, 'f, 'q, 'tm :: linorder, 't, 'h) reactor
    \<Rightarrow> ('p, 'f, 'q, 'tm, 't, 'h) reactor \<times> nat \<times> 'h timer_io list" where
  "cancel_timer_op max_cancelled q t st =
     (case cancel_timer max_cancelled t [] (rx_timers st q) of
        (q', ops, n) \<Rightarrow> (st\<lparr>rx_timers := (rx_timers st)(q := q')\<rparr>, n, [Timers_deferred ops]))"

subsection \<open>The task\<close>

datatype ('p, 'h) task_op = Perform 'p u32 | Timer_op "'h wait_op"

text \<open>The loop over the events of \<open>epoll_wait\<close>: whether the timers have to be looked at, and the operations.\<close>

fun dispatch_events :: "bool \<Rightarrow> ('p event_data \<times> u32) list \<Rightarrow> bool \<Rightarrow> ('p, 'h) task_op list \<Rightarrow> bool \<times> ('p, 'h) task_op list" where
  "dispatch_events timerfd [] check_timers ops = (check_timers, ops)"
| "dispatch_events timerfd ((ptr, events) # es) check_timers ops =
     (case ptr of
        Interrupter \<Rightarrow> dispatch_events timerfd es (if \<not> timerfd then True else check_timers) ops
      | Timer_descriptor \<Rightarrow> dispatch_events timerfd es True ops
      | Descriptor_data p \<Rightarrow> dispatch_events timerfd es check_timers (ops @ [Perform p events]))"

definition wait_timeout :: "('q \<Rightarrow> 'tm \<Rightarrow> duration) \<Rightarrow> bool \<Rightarrow> ('p, 'f, 'q, 'tm, 't, 'h) reactor \<Rightarrow> int option" where
  "wait_timeout until block st =
     (if rx_timer_fd st \<noteq> - 1 then Some (if block then - 1 else 0)
      else if block then get_timeout until st else Some 0)"

text \<open>
  \<open>epoll_wait\<close> is given by \<open>wait\<close>, the clocks by \<open>until\<close> and \<open>now\<close>. An operation of a descriptor carries the
  events reported for it (\<open>set_ready_events\<close>).
\<close>

definition reactor_run ::
  "(itimerspec \<Rightarrow> bool \<Rightarrow> 'k \<Rightarrow> 'k) \<Rightarrow> (int \<Rightarrow> 'k \<Rightarrow> ('p event_data \<times> u32) list \<times> 'k)
    \<Rightarrow> ('q \<Rightarrow> 'tm \<Rightarrow> duration) \<Rightarrow> ('q \<Rightarrow> 'tm :: linorder) \<Rightarrow> bool \<Rightarrow> ('p, 'f, 'q, 'tm, 't, 'h) reactor \<Rightarrow> 'k
    \<Rightarrow> (('p, 'h) task_op list \<times> ('p, 'f, 'q, 'tm, 't, 'h) reactor \<times> 'k) option" where
  "reactor_run settime wait until now block st k =
     (case wait_timeout until block st of
        None \<Rightarrow> None
      | Some timeout \<Rightarrow>
          (case wait timeout k of
             (events, k) \<Rightarrow>
               (case dispatch_events (rx_timer_fd st \<noteq> - 1) events (rx_timer_fd st = - 1) [] of
                  (check_timers, ops) \<Rightarrow>
                    if \<not> check_timers then Some (ops, st, k)
                    else case set_get_ready_timers now (rx_timers st) [] (rx_timer_set st) of
                           None \<Rightarrow> None
                         | Some (Q, timer_ops) \<Rightarrow>
                             let st = st\<lparr>rx_timers := Q\<rparr>; ops = ops @ map Timer_op timer_ops
                             in if rx_timer_fd st \<noteq> - 1
                                then map_option (\<lambda>(ts, flags). (ops, st, settime ts flags k)) (get_timeout_spec until st)
                                else Some (ops, st, k))))"

subsection \<open>Shutting down\<close>

partial_function (option) shutdown_loop ::
  "'f reactor_op list \<Rightarrow> ('p, 'f, 'q, 'tm, 't, 'h) reactor \<Rightarrow> ('f reactor_op list \<times> ('p, 'f, 'q, 'tm, 't, 'h) reactor) option" where
  "shutdown_loop ops st =
     (case pool_first (rx_pool st) of
        None \<Rightarrow> Some (ops, st)
      | Some p \<Rightarrow>
          let d = rx_states st p;
              ops = ((ops @ ds_queue d Read_op) @ ds_queue d Write_op) @ ds_queue d Except_op;
              st = on_state p (\<lambda>d. d\<lparr>ds_queue := \<lambda>_. [], ds_shutdown := True\<rparr>) st
          in shutdown_loop ops (st\<lparr>rx_pool := pool_free p (rx_pool st)\<rparr>))"

text \<open>The operations of the descriptors and of the timers that are abandoned.\<close>

definition shutdown_reactor ::
  "('p, 'f, 'q, 'tm, 't, 'h) reactor
    \<Rightarrow> ('f reactor_op list \<times> 'h wait_op list \<times> ('p, 'f, 'q, 'tm, 't, 'h) reactor) option" where
  "shutdown_reactor st =
     (case shutdown_loop [] (st\<lparr>rx_shutdown := True\<rparr>) of
        None \<Rightarrow> None
      | Some (ops, st) \<Rightarrow>
          (case set_get_all_timers (rx_timers st) [] (rx_timer_set st) of
             None \<Rightarrow> None
           | Some (Q, timer_ops) \<Rightarrow> Some (ops, timer_ops, st\<lparr>rx_timers := Q\<rparr>)))"

subsection \<open>States are reused clean\<close>

text \<open>
  \<open>live\<close> and \<open>free\<close> are the states of the pool. What is not live has no operations, and what is free refuses new ones,
  so that a report that arrives late finds nothing to perform.
\<close>

definition states_ok :: "('p, 'f, 'q, 'tm, 't, 'h) reactor \<Rightarrow> 'p list \<Rightarrow> 'p list \<Rightarrow> bool" where
  "states_ok st live free \<longleftrightarrow> pool_holds (rx_pool st) live free
     \<and> (\<forall>p. p \<notin> set live \<longrightarrow> ds_queue (rx_states st p) = (\<lambda>_. []))
     \<and> (\<forall>p \<in> set free. ds_shutdown (rx_states st p)) \<and> (\<forall>p \<in> set live. \<not> ds_shutdown (rx_states st p))"

text \<open>
  The calls the program and the event loop make, in any order. A pointer that is used is null or was returned by a
  registration; it may belong to a descriptor that has been deregistered meanwhile.
\<close>

inductive rx_step ::
  "('p, 'f, 'k) epoll_env \<Rightarrow> ('p, 'f, 'q, 'tm, 't, 'h) reactor \<times> 'k \<Rightarrow> ('p, 'f, 'q, 'tm, 't, 'h) reactor \<times> 'k \<Rightarrow> bool"
  for env where
  rx_others: "rx_step env (st, k) (st\<lparr>rx_timers := T, rx_timer_set := S\<rparr>, k')"
| rx_register: "pool_holds (rx_pool st) live free \<Longrightarrow> n \<notin> set live \<Longrightarrow> n \<notin> set free \<Longrightarrow>
    register_descriptor env n fd st k = (ec, ptr, st', k') \<Longrightarrow> rx_step env (st, k) (st', k')"
| rx_register_internal: "pool_holds (rx_pool st) live free \<Longrightarrow> n \<notin> set live \<Longrightarrow> n \<notin> set free \<Longrightarrow>
    register_internal_descriptor env n ty fd op st k = (ec, ptr, st', k') \<Longrightarrow> rx_step env (st, k) (st', k')"
| rx_start: "pool_holds (rx_pool st) live free \<Longrightarrow> p \<in> set live \<or> p \<in> set free \<Longrightarrow>
    start_op env ty fd (Some p) op c s st k = (st', k', calls) \<Longrightarrow> rx_step env (st, k) (st', k')"
| rx_cancel: "cancel_ops ptr st = (st', calls) \<Longrightarrow> rx_step env (st, k) (st', k)"
| rx_deregister: "pool_holds (rx_pool st) live free \<Longrightarrow> p \<in> set live \<or> p \<in> set free \<Longrightarrow>
    deregister_descriptor env fd (Some p) closing st k = (ptr, st', k', calls) \<Longrightarrow> rx_step env (st, k) (st', k')"
| rx_deregister_internal: "pool_holds (rx_pool st) live free \<Longrightarrow> p \<in> set live \<or> p \<in> set free \<Longrightarrow>
    deregister_internal_descriptor env fd (Some p) st k = (ptr, st', k', ops) \<Longrightarrow> rx_step env (st, k) (st', k')"
| rx_complete: "complete_descriptor env p events st k = (first_op, st', k', calls) \<Longrightarrow> rx_step env (st, k) (st', k')"
| rx_shut: "shutdown_reactor st = Some (ops, timer_ops, st') \<Longrightarrow> rx_step env (st, k) (st', k)"

inductive rx_reachable ::
  "('p, 'f, 'k) epoll_env \<Rightarrow> ('p, 'f, 'q, 'tm, 't, 'h) reactor \<times> 'k \<Rightarrow> ('p, 'f, 'q, 'tm, 't, 'h) reactor \<times> 'k \<Rightarrow> bool"
  for env s0 where
  rx_initial: "rx_reachable env s0 s0"
| rx_next: "rx_reachable env s0 s \<Longrightarrow> rx_step env s s' \<Longrightarrow> rx_reachable env s0 s'"

lemma chain_unique: "chain nx p xs \<Longrightarrow> chain nx p ys \<Longrightarrow> xs = ys"
proof (induction xs arbitrary: p ys)
  case Nil
  then show ?case by (cases ys) simp_all
next
  case (Cons x xs)
  then show ?case by (cases ys) auto
qed

lemma pool_unique: "pool_holds s ls fs \<Longrightarrow> pool_holds s ls' fs' \<Longrightarrow> ls = ls' \<and> fs = fs'"
  by (auto simp: pool_holds_def dest: chain_unique)

lemma on_state_simps [simp]:
  "rx_pool (on_state p f st) = rx_pool st"
  "rx_states (on_state p f st) = (rx_states st)(p := f (rx_states st p))"
  "rx_timers (on_state p f st) = rx_timers st"
  "rx_timer_set (on_state p f st) = rx_timer_set st"
  by (simp_all add: on_state_def)

lemma states_cong:
  "rx_pool st' = rx_pool st \<Longrightarrow> rx_states st' = rx_states st \<Longrightarrow> states_ok st' live free = states_ok st live free"
  by (simp add: states_ok_def)

lemma states_distinct: "states_ok st live free \<Longrightarrow> distinct (live @ free)"
  using op.holds_distinct by (auto simp: states_ok_def)

lemma states_pool: "states_ok st live free \<Longrightarrow> pool_holds (rx_pool st) live' free' \<Longrightarrow> live' = live \<and> free' = free"
  unfolding states_ok_def by (metis pool_unique)

text \<open>A state may change in place when it stays open or closed, and gets no operations unless it is live.\<close>

lemma states_update:
  assumes "states_ok st live free" and "ds_shutdown d = ds_shutdown (rx_states st p)"
    and "p \<notin> set live \<Longrightarrow> ds_queue d = (\<lambda>_. [])"
  shows "states_ok (on_state p (\<lambda>_. d) st) live free"
  using assms by (auto simp: states_ok_def)

lemma start_shutdown: "start_op_at env q ty fd op c s d k = (d', k', calls) \<Longrightarrow>
    ds_shutdown d' = ds_shutdown d \<and> (ds_shutdown d \<longrightarrow> d' = d)"
  by (auto simp: start_op_at_def start_speculative_def enqueue_op_def rearm_def Let_def
      split: if_splits prod.splits bool.splits option.splits)

lemma start_ok:
  assumes "states_ok st live free" and "p \<in> set live \<or> p \<in> set free"
    and "start_op env ty fd (Some p) op c s st k = (st', k', calls)"
  shows "states_ok st' live free"
proof -
  obtain d k1 cs where r: "start_op_at env (Descriptor_data p) ty fd op c s (rx_states st p) k = (d, k1, cs)"
    by (metis prod_cases3)
  have "states_ok (on_state p (\<lambda>_. d) st) live free"
  proof (rule states_update [OF assms(1)])
    show "ds_shutdown d = ds_shutdown (rx_states st p)" using start_shutdown [OF r] by simp
    assume "p \<notin> set live"
    then show "ds_queue d = (\<lambda>_. [])" using start_shutdown [OF r] assms(1,2) by (auto simp: states_ok_def)
  qed
  then show ?thesis using assms(3) r by (auto simp: start_op_def)
qed

lemma cancel_ok: "states_ok st live free \<Longrightarrow> cancel_ops ptr st = (st', calls) \<Longrightarrow> states_ok st' live free"
  by (cases ptr) (auto simp: cancel_ops_def cancel_ops_at_def cancel_all simp del: cancel_queues.simps intro!: states_update)

lemma perform_queues_idle: "ds_queue d = (\<lambda>_. []) \<Longrightarrow> perform_queues env events js ops d k = (ops, d, k)"
proof (induction js)
  case (Cons j js)
  have d: "d\<lparr>ds_queue := \<lambda>_. []\<rparr> = d" using Cons.prems by (cases d) simp
  show ?case using Cons by (simp add: fun_upd_idem d)
qed simp

lemma perform_queues_shutdown: "perform_queues env events js ops d k = (ops', d', k') \<Longrightarrow> ds_shutdown d' = ds_shutdown d"
proof (induction js arbitrary: ops d k)
  case (Cons j js)
  obtain q ops1 k1 where r: "perform_queue env (ds_queue d j) ops k = (q, ops1, k1)" by (metis prod_cases3)
  show ?case
    using Cons.IH [of ops1 "d\<lparr>ds_queue := (ds_queue d)(j := q)\<rparr>" k1] Cons.IH [of ops d k] Cons.prems r
    by (auto split: if_splits)
qed simp

lemma complete_idle: "ds_queue (rx_states st p) = (\<lambda>_. []) \<Longrightarrow>
    complete_descriptor env p events st k = (None, on_state p (\<lambda>d. d) st, k, [Work_started])"
  by (simp add: complete_descriptor_def do_complete_descriptor_def perform_io_def perform_queues_idle io_cleanup_def Let_def
      on_state_def del: perform_queues.simps)

lemma complete_ok:
  assumes "states_ok st live free" and "complete_descriptor env p events st k = (first_op, st', k', calls)"
  shows "states_ok st' live free"
proof -
  obtain ops d k1 where r: "perform_queues env events [Except_op, Write_op, Read_op] [] (rx_states st p) k = (ops, d, k1)"
    by (metis prod_cases3)
  have "st' = on_state p (\<lambda>_. d) st"
    using assms(2) r by (auto simp: complete_descriptor_def do_complete_descriptor_def perform_io_def Let_def simp del: perform_queues.simps)
  moreover have "states_ok (on_state p (\<lambda>_. d) st) live free"
  proof (rule states_update [OF assms(1) perform_queues_shutdown [OF r]])
    assume "p \<notin> set live"
    then have idle: "ds_queue (rx_states st p) = (\<lambda>_. [])" using assms(1) by (simp add: states_ok_def)
    then show "ds_queue d = (\<lambda>_. [])" using r [unfolded perform_queues_idle [OF idle]] by simp
  qed
  ultimately show ?thesis by simp
qed

text \<open>A state is taken from the free list, or new, and is live then; a live state that is closed goes back.\<close>

lemma take_ok:
  assumes ok: "states_ok st live free" and n: "n \<notin> set (live @ free)" and a: "allocate_descriptor_state n st = (p, st1)"
    and d: "\<not> ds_shutdown d"
  shows "p \<notin> set live \<and> ds_queue (rx_states st p) = (\<lambda>_. []) \<and> rx_states st1 = rx_states st
    \<and> states_ok (on_state p (\<lambda>_. d) st1) (p # live) (remove1 p free)"
proof -
  obtain pool where pool: "pool_alloc n (rx_pool st) = (p, pool)" "st1 = st\<lparr>rx_pool := pool\<rparr>"
    using a by (auto simp: allocate_descriptor_state_def split: prod.splits)
  have h: "pool_holds (rx_pool st) live free" using ok by (simp add: states_ok_def)
  have p: "p \<notin> set live" "pool_holds pool (p # live) (remove1 p free)"
    using op.alloc_holds [OF h n pool(1)] by simp_all
  have "x \<in> set free" if "x \<in> set (remove1 p free)" for x using that by (meson notin_set_remove1)
  then have "states_ok (on_state p (\<lambda>_. d) st1) (p # live) (remove1 p free)"
    using ok p d pool(2) states_distinct [OF ok] by (auto simp: states_ok_def)
  then show ?thesis using p(1) ok pool(2) by (simp add: states_ok_def)
qed

lemma give_ok:
  assumes ok: "states_ok st live free" and p: "p \<in> set live" and d: "ds_shutdown d" "ds_queue d = (\<lambda>_. [])"
  shows "states_ok (free_descriptor_state p (on_state p (\<lambda>_. d) st)) (remove1 p live) (p # free)"
proof -
  have h: "pool_holds (rx_pool st) live free" using ok by (simp add: states_ok_def)
  have l: "set (remove1 p live) = set live - {p}" using states_distinct [OF ok] by (simp add: set_remove1_eq)
  have "p \<notin> set free" using states_distinct [OF ok] p by auto
  then show ?thesis using op.free_live [OF h p] ok d by (simp add: states_ok_def free_descriptor_state_def l)
qed

definition queued_ops :: "'f descriptor_state \<Rightarrow> 'f reactor_op list" where
  "queued_ops d = ds_queue d Read_op @ ds_queue d Write_op @ ds_queue d Except_op"

lemma shutdown_loop_spec:
  "states_ok st live free \<Longrightarrow> \<exists>st'. shutdown_loop ops st = Some (ops @ concat (map (\<lambda>p. queued_ops (rx_states st p)) live), st')
     \<and> states_ok st' [] (rev live @ free) \<and> rx_timers st' = rx_timers st \<and> rx_timer_set st' = rx_timer_set st
     \<and> rx_shutdown st' = rx_shutdown st"
proof (induction live arbitrary: st free ops)
  case Nil
  then have "pool_first (rx_pool st) = None" using op.first_hd by (fastforce simp: states_ok_def)
  then show ?case using Nil by (subst shutdown_loop.simps) simp
next
  case (Cons p live)
  have first: "pool_first (rx_pool st) = Some p" using op.first_hd [of "rx_pool st" "p # live" free] Cons.prems by (simp add: states_ok_def)
  define d where "d = (rx_states st p)\<lparr>ds_queue := \<lambda>_. [], ds_shutdown := True\<rparr>"
  define st1 where "st1 = free_descriptor_state p (on_state p (\<lambda>_. d) st)"
  have "states_ok st1 live (p # free)"
    using give_ok [OF Cons.prems, of p d] by (simp add: st1_def d_def)
  from Cons.IH [OF this, of "ops @ queued_ops (rx_states st p)"] obtain st' where
    ih: "shutdown_loop (ops @ queued_ops (rx_states st p)) st1 =
        Some ((ops @ queued_ops (rx_states st p)) @ concat (map (\<lambda>p. queued_ops (rx_states st1 p)) live), st')"
      "states_ok st' [] (rev live @ p # free)" "rx_timers st' = rx_timers st1" "rx_timer_set st' = rx_timer_set st1"
      "rx_shutdown st' = rx_shutdown st1" by blast
  have "p \<notin> set live" using states_distinct [OF Cons.prems] by simp
  then have "map (\<lambda>p. queued_ops (rx_states st1 p)) live = map (\<lambda>p. queued_ops (rx_states st p)) live"
    by (auto simp: st1_def free_descriptor_state_def)
  note rest = ih(1) [unfolded this]
  have "shutdown_loop ops st = shutdown_loop (ops @ queued_ops (rx_states st p)) st1"
    by (subst shutdown_loop.simps) (simp add: first Let_def st1_def d_def free_descriptor_state_def on_state_def queued_ops_def)
  then show ?case using rest ih(2-5) by (simp add: st1_def free_descriptor_state_def on_state_def)
qed

lemma rx_step_ok:
  assumes "rx_step env s s'" and "states_ok (fst s) live free"
  shows "\<exists>live free. states_ok (fst s') live free"
  using assms
proof (induction rule: rx_step.induct)
  case (rx_others st k S T k')
  then have "states_ok (st\<lparr>rx_timers := T, rx_timer_set := S\<rparr>) live free" by (simp add: states_ok_def)
  then show ?case by auto
next
  case (rx_register st live' free' n fd k ec ptr st' k')
  then have n: "n \<notin> set (live @ free)" using states_pool [of st live free live' free'] by simp
  obtain p st1 where a: "allocate_descriptor_state n st = (p, st1)" by fastforce
  let ?d = "(rx_states st1 p)\<lparr>ds_descriptor := fd, ds_shutdown := False, ds_events := descriptor_events\<rparr>"
  have "st' = on_state p (\<lambda>_. ?d) st1"
    using rx_register.hyps(4) a by (auto simp: register_descriptor_def on_state_def Let_def split: prod.splits)
  moreover have "states_ok (on_state p (\<lambda>_. ?d) st1) (p # live) (remove1 p free)"
    by (rule take_ok [OF _ n a, THEN conjunct2, THEN conjunct2, THEN conjunct2]) (use rx_register.prems in simp_all)
  ultimately show ?case unfolding fst_conv by blast
next
  case (rx_register_internal st live' free' n ty fd op k ec ptr st' k')
  then have n: "n \<notin> set (live @ free)" using states_pool [of st live free live' free'] by simp
  obtain p st1 where a: "allocate_descriptor_state n st = (p, st1)" by fastforce
  let ?d = "(rx_states st1 p)\<lparr>ds_descriptor := fd, ds_shutdown := False,
    ds_queue := (ds_queue (rx_states st1 p))(ty := ds_queue (rx_states st1 p) ty @ [op]), ds_events := descriptor_events\<rparr>"
  have "st' = on_state p (\<lambda>_. ?d) st1"
    using rx_register_internal.hyps(4) a by (auto simp: register_internal_descriptor_def on_state_def Let_def split: prod.splits)
  moreover have "states_ok (on_state p (\<lambda>_. ?d) st1) (p # live) (remove1 p free)"
    by (rule take_ok [OF _ n a, THEN conjunct2, THEN conjunct2, THEN conjunct2]) (use rx_register_internal.prems in simp_all)
  ultimately show ?case unfolding fst_conv by blast
next
  case (rx_start st live' free' p ty fd op c s k st' k' calls)
  have ok: "states_ok st live free" using rx_start.prems by simp
  then have "p \<in> set live \<or> p \<in> set free" using states_pool rx_start.hyps(1,2) by blast
  from start_ok [OF ok this rx_start.hyps(3)] show ?case by auto
next
  case (rx_cancel ptr st st' calls k)
  then show ?case using cancel_ok by fastforce
next
  case (rx_deregister st live' free' p fd closing k ptr st' k' calls)
  show ?case
  proof (cases "p \<in> set live")
    case True
    obtain d ops where c: "close_at (rx_states st p) = (d, ops)" by fastforce
    then have "ds_shutdown d" "ds_queue d = (\<lambda>_. [])" by (auto simp: close_at_def cancel_all simp del: cancel_queues.simps)
    from give_ok [OF _ True this, of st free] show ?thesis
      using rx_deregister c by (auto simp: deregister_descriptor_def Let_def split: if_splits)
  next
    case False
    then have "p \<in> set free" using rx_deregister.hyps(1,2) rx_deregister.prems states_pool [of st live free live' free'] by simp
    then show ?thesis using rx_deregister by (auto simp: deregister_descriptor_def states_ok_def)
  qed
next
  case (rx_deregister_internal st live' free' p fd k ptr st' k' ops)
  show ?case
  proof (cases "p \<in> set live")
    case True
    from give_ok [OF _ True, of st free "(rx_states st p)\<lparr>ds_queue := \<lambda>_. [], ds_descriptor := - 1, ds_shutdown := True\<rparr>"] show ?thesis
      using rx_deregister_internal by (auto simp: deregister_internal_descriptor_def Let_def split: if_splits)
  next
    case False
    then have "p \<in> set free" using rx_deregister_internal.hyps(1,2) rx_deregister_internal.prems states_pool [of st live free live' free'] by simp
    then show ?thesis using rx_deregister_internal by (auto simp: deregister_internal_descriptor_def states_ok_def)
  qed
next
  case (rx_complete p events st k first_op st' k' calls)
  then show ?case using complete_ok by fastforce
next
  case (rx_shut st ops timer_ops st' k)
  have "states_ok (st\<lparr>rx_shutdown := True\<rparr>) live free" using rx_shut.prems by (simp add: states_ok_def)
  from shutdown_loop_spec [OF this, of "[]"] obtain ops1 st1 where
    r: "shutdown_loop [] (st\<lparr>rx_shutdown := True\<rparr>) = Some (ops1, st1)" "states_ok st1 [] (rev live @ free)" by auto
  obtain Q where "st' = st1\<lparr>rx_timers := Q\<rparr>"
    using rx_shut.hyps r(1) by (auto simp: shutdown_reactor_def split: option.splits)
  then have "states_ok st' [] (rev live @ free)" using r(2) by (simp add: states_ok_def)
  then show ?case by auto
qed

lemma initial_ok: "states_ok (fst (new_reactor env wake i t nx pv g qnx Q k)) [] []"
  by (simp add: states_ok_def new_reactor_def Let_def new_pool_def pool_holds_def raw_state_def)

lemma reachable_ok: "rx_reachable env s0 s \<Longrightarrow> \<exists>live free. states_ok (fst s0) live free \<Longrightarrow> \<exists>live free. states_ok (fst s) live free"
  by (induction rule: rx_reachable.induct) (auto dest: rx_step_ok)

lemma on_state_same [simp]: "on_state p (\<lambda>d. d) st = st"
  by (simp add: on_state_def)

lemma register_result:
  assumes ok: "states_ok st live free" and n: "n \<notin> set (live @ free)"
  shows "\<exists>ec p st' k'. register_descriptor env n fd st k = (ec, Some p, st', k') \<and> p \<notin> set live
    \<and> ds_queue (rx_states st' p) = (\<lambda>_. []) \<and> \<not> ds_shutdown (rx_states st' p) \<and> ds_descriptor (rx_states st' p) = fd
    \<and> (\<forall>q \<in> set live. rx_states st' q = rx_states st q)"
proof -
  obtain p st1 where a: "allocate_descriptor_state n st = (p, st1)" by fastforce
  have t: "p \<notin> set live" "ds_queue (rx_states st p) = (\<lambda>_. [])" "rx_states st1 = rx_states st"
    using take_ok [OF ok n a, of "\<lparr>ds_descriptor = 0, ds_events = 0, ds_queue = \<lambda>_. [], ds_shutdown = False\<rparr>"] by simp_all
  obtain ec k' where "re_ctl env Ctl_add fd descriptor_events (Descriptor_data p) k = (ec, k')" by fastforce
  with a t show ?thesis by (auto simp: register_descriptor_def Let_def)
qed

lemma closed_idle:
  assumes ok: "states_ok st live free" and p: "p \<in> set free"
  shows "complete_descriptor env p events st k = (None, st, k, [Work_started])"
    and "start_op env ty fd (Some p) op c s st k = (st, k, [Post_immediate op c])"
    and "deregister_descriptor env fd (Some p) closing st k = (Some p, st, k, [])"
proof -
  have "p \<notin> set live" using states_distinct [OF ok] p by auto
  then have q: "ds_queue (rx_states st p) = (\<lambda>_. [])" and s: "ds_shutdown (rx_states st p)" using ok p by (simp_all add: states_ok_def)
  show "complete_descriptor env p events st k = (None, st, k, [Work_started])" using complete_idle [OF q] by simp
  show "start_op env ty fd (Some p) op c s st k = (st, k, [Post_immediate op c])"
    using s by (simp add: start_op_def start_op_at_def on_state_def)
  show "deregister_descriptor env fd (Some p) closing st k = (Some p, st, k, [])"
    using s by (simp add: deregister_descriptor_def)
qed

text \<open>
  C29. The states of the descriptors are reused safely: in every run of the reactor a registration returns a state that
  no open descriptor uses, without operations and open, and leaves the others alone, and a state that has been
  given back refuses operations, has none that a late event could perform, and is not given back twice.
\<close>

theorem reactor_states_reused:
  assumes "rx_reachable env (new_reactor env wake i t nx pv garbage qnx Q k0) (st, k)"
  shows "\<exists>live free. pool_holds (rx_pool st) live free
    \<and> (\<forall>n fd. n \<notin> set (live @ free) \<longrightarrow> (\<exists>ec p st' k'. register_descriptor env n fd st k = (ec, Some p, st', k')
         \<and> p \<notin> set live \<and> ds_queue (rx_states st' p) = (\<lambda>_. []) \<and> \<not> ds_shutdown (rx_states st' p)
         \<and> ds_descriptor (rx_states st' p) = fd \<and> (\<forall>q \<in> set live. rx_states st' q = rx_states st q)))
    \<and> (\<forall>p \<in> set free. \<forall>events ty fd op c s closing.
         complete_descriptor env p events st k = (None, st, k, [Work_started])
         \<and> start_op env ty fd (Some p) op c s st k = (st, k, [Post_immediate op c])
         \<and> deregister_descriptor env fd (Some p) closing st k = (Some p, st, k, []))"
proof -
  obtain live free where ok: "states_ok st live free" using reachable_ok [OF assms] initial_ok by fastforce
  then have "pool_holds (rx_pool st) live free" by (simp add: states_ok_def)
  moreover note register_result [OF ok]
  moreover note closed_idle [OF ok]
  ultimately show ?thesis by (intro exI [where x = live] exI [where x = free] conjI allI ballI impI)
qed

text \<open>An environment in which nothing is ready and every call of epoll succeeds.\<close>

definition idle_env :: "('p, 'f, 'k) reactor_env" where
  "idle_env = \<lparr>re_perform = \<lambda>op k. (False, op, k), re_ctl = \<lambda>c fd e p k. (None, k)\<rparr>"

text \<open>A descriptor that has been registered and deregistered again: its state is reused, and empty although it had an operation.\<close>

theorem reactor_states_reused_witness:
  "\<exists>st :: (nat, char, nat, int, nat, char) reactor. pool_holds (rx_pool st) [] [1]
    \<and> complete_descriptor idle_env 1 EPOLLIN st () = (None, st, (), [Work_started])"
proof -
  let ?g = "\<lambda>p :: nat. \<lparr>ds_descriptor = 7, ds_events = 0, ds_queue = (\<lambda>_. []), ds_shutdown = True\<rparr> :: char descriptor_state"
  let ?Q = "(\<lambda>q. new_queue (\<lambda>_. 0)) :: (nat, int, nat, char) queues"
  define s0 where "s0 = new_reactor idle_env id 3 4 (\<lambda>_. None) (\<lambda>_. None) ?g (\<lambda>_. None) ?Q ()"
  have ok0: "states_ok (fst s0) [] []" by (simp add: s0_def initial_ok)
  obtain ec p st1 where r1: "register_descriptor idle_env 1 9 (fst s0) () = (ec, Some p, st1, ())"
    using register_result [OF ok0, of 1 idle_env 9 "()"] by auto
  have s1: "rx_step idle_env s0 (st1, ())" using rx_register [of "fst s0" "[]" "[]" 1 idle_env 9 "()"] r1 ok0
    by (cases s0) (simp add: states_ok_def)
  have alloc: "allocate_descriptor_state 1 (fst s0) = (1, (fst s0)\<lparr>rx_pool := make_live 1 (rx_pool (fst s0))\<rparr>)"
    using ok0 by (simp add: allocate_descriptor_state_def pool_alloc_def states_ok_def pool_holds_def)
  then have p: "p = 1" using r1 by (auto simp: register_descriptor_def Let_def split: prod.splits)
  have st1: "pool_holds (rx_pool st1) [1] []" "\<not> ds_shutdown (rx_states st1 1)"
    using r1 alloc make_live_holds [of "rx_pool (fst s0)" "[]" "[]" 1] ok0
    by (auto simp: register_descriptor_def Let_def states_ok_def on_state_def split: prod.splits)
  obtain st2 k2 cs2 where r2: "start_op idle_env Read_op 9 (Some 1) (new_reactor_op (CHR ''r'')) False True st1 () = (st2, k2, cs2)"
    by (metis prod_cases3)
  have s2: "rx_step idle_env (st1, ()) (st2, k2)" using rx_start [OF st1(1) _ r2] by simp
  have st2: "pool_holds (rx_pool st2) [1] []" "\<not> ds_shutdown (rx_states st2 1)"
    using r2 st1 by (auto simp: start_op_def dest: start_shutdown split: prod.splits)
  obtain ptr3 st3 k3 cs3 where r3: "deregister_descriptor idle_env 9 (Some 1) True st2 k2 = (ptr3, st3, k3, cs3)"
    by (metis prod_cases4)
  have s3: "rx_step idle_env (st2, k2) (st3, k3)" using rx_deregister [OF st2(1) _ r3] by simp
  have st3: "pool_holds (rx_pool st3) [] [1]"
    using r3 st2 op.free_live [OF st2(1), of 1] by (auto simp: deregister_descriptor_def free_descriptor_state_def split: prod.splits)
  have reach: "rx_reachable idle_env s0 (st3, ())"
    using rx_next [OF rx_next [OF rx_next [OF rx_initial s1] s2] s3] by simp
  from reactor_states_reused [OF reach [unfolded s0_def]] obtain live free where
    h: "pool_holds (rx_pool st3) live free" and "\<forall>p \<in> set free. complete_descriptor idle_env p EPOLLIN st3 () = (None, st3, (), [Work_started])"
    by (elim exE conjE) (erule that, simp)
  moreover have "free = [1]" using pool_unique [OF h st3] by simp
  ultimately show ?thesis using st3 by auto
qed

subsection \<open>Shutting down\<close>

text \<open>
  Shutting down returns, and abandons exactly the operations that wait, each once: those of the open descriptors, by
  descriptor and queue, and those of all timers. No descriptor is open afterwards and no timer set.
\<close>

theorem shutdown_abandons:
  assumes "rx_reachable env (new_reactor env wake i t nx pv garbage qnx Q0 k0) (st, k)"
    and "members (rx_timer_set st) qs" and "\<forall>q \<in> set qs. tq_inv (rx_timers st q)"
  shows "\<exists>live free ts st'. pool_holds (rx_pool st) live free
    \<and> shutdown_reactor st = Some (concat (map (\<lambda>p. queued_ops (rx_states st p)) live), handed_out (rx_timers st) ts qs, st')
    \<and> rx_shutdown st' \<and> pool_holds (rx_pool st') [] (rev live @ free) \<and> (\<forall>p. ds_queue (rx_states st' p) = (\<lambda>_. []))
    \<and> (\<forall>q \<in> set qs. set (ts q) = dom (waits (rx_timers st q)) \<and> distinct (ts q) \<and> waits (rx_timers st' q) = Map.empty)"
proof -
  obtain live free where ok: "states_ok st live free" using reachable_ok [OF assms(1)] initial_ok by fastforce
  then have "states_ok (st\<lparr>rx_shutdown := True\<rparr>) live free" by (simp add: states_ok_def)
  from shutdown_loop_spec [OF this, of "[]"] obtain st1 where
    l: "shutdown_loop [] (st\<lparr>rx_shutdown := True\<rparr>) = Some (concat (map (\<lambda>p. queued_ops (rx_states st p)) live), st1)"
      "states_ok st1 [] (rev live @ free)" "rx_timers st1 = rx_timers st" "rx_timer_set st1 = rx_timer_set st" "rx_shutdown st1"
    by auto
  obtain ts Q' where t: "set_get_all_timers (rx_timers st) [] (rx_timer_set st) = Some (Q', handed_out (rx_timers st) ts qs)"
    "\<forall>q \<in> set qs. tq_inv (Q' q) \<and> distinct (ts q) \<and> set (ts q) = dom (waits (rx_timers st q)) \<and> waits (Q' q) = Map.empty"
    using set_get_all_spec [OF assms(2,3), of "[]"] by auto
  have "shutdown_reactor st = Some (concat (map (\<lambda>p. queued_ops (rx_states st p)) live), handed_out (rx_timers st) ts qs,
      st1\<lparr>rx_timers := Q'\<rparr>)"
    by (simp add: shutdown_reactor_def l t(1))
  then show ?thesis using l(2,5) t(2) ok
    by (intro exI [where x = live] exI [where x = free] exI [where x = ts] exI [where x = "st1\<lparr>rx_timers := Q'\<rparr>"])
      (auto simp: states_ok_def)
qed

subsection \<open>How long the reactor sleeps\<close>

text \<open>Waiting in microseconds is waiting in milliseconds by another clock.\<close>

definition usec_clock :: "('q \<Rightarrow> 'tm \<Rightarrow> duration) \<Rightarrow> 'q \<Rightarrow> 'tm \<Rightarrow> duration" where
  "usec_clock until q t = (until q t)\<lparr>du_msec := du_usec (until q t)\<rparr>"

lemma wait_usec: "wait_duration_usec (until q) m x = wait_duration_msec (usec_clock until q) m x"
  by (simp add: wait_duration_usec_def wait_duration_msec_def to_usec_def to_msec_def usec_clock_def)

lemma set_wait_usec: "set_wait_duration_usec until Q m s = set_wait_duration_msec (usec_clock until) Q m s"
  by (simp add: set_wait_duration_usec_def set_wait_duration_msec_def wait_usec)

lemma usec_fold:
  assumes "members (rx_timer_set st) qs" and "\<And>q t. 0 < du_ticks (until q t) \<Longrightarrow> 0 \<le> du_usec (until q t)"
  defines "w \<equiv> \<lambda>q. wait_duration_usec (until q) 300000000 (rx_timers st q)"
  shows "\<exists>r. set_wait_duration_usec until (rx_timers st) 300000000 (rx_timer_set st) = Some r \<and> 0 \<le> r \<and> r \<le> 300000000
    \<and> (r = 300000000 \<or> (\<exists>q \<in> set qs. r = w q)) \<and> (\<forall>q \<in> set qs. r \<le> w q \<or> w q = 0 \<and> r = 1)"
proof -
  let ?r = "foldl (\<lambda>m q. wait_duration_msec (usec_clock until q) m (rx_timers st q)) 300000000 qs"
  have w: "w q = wait_duration_msec (usec_clock until q) 300000000 (rx_timers st q)" for q by (simp add: w_def wait_usec)
  have f: "(?r = 300000000 \<or> (\<exists>q \<in> set qs. ?r = w q)) \<and> (\<forall>q \<in> set qs. ?r \<le> w q \<or> w q = 0 \<and> ?r = 1) \<and> (?r \<le> 300000000 \<or> (300000000 :: int) = 0 \<and> ?r = 1)"
    unfolding w by (rule wait_fold) (use assms(2) in \<open>simp_all add: usec_clock_def\<close>)
  have "0 \<le> w q" for q using assms(2) by (auto simp: w_def wait_duration_usec_def to_usec_def Let_def)
  then have "0 \<le> ?r" using f by auto
  then show ?thesis using f by (simp add: set_wait_usec set_wait_duration_msec_spec [OF assms(1)])
qed

text \<open>
  The timer descriptor is never disarmed by the reactor: the time given to it is valid and not zero. It is at most
  five minutes and not later than the first timer of any queue, except that it is a microsecond when a queue has an
  expired timer; an absolute time, which lies in the past, is given only when a timer has expired.
\<close>

theorem get_timeout_spec_bounds:
  assumes "members (rx_timer_set st) qs" and "\<And>q t. 0 < du_ticks (until q t) \<Longrightarrow> 0 \<le> du_usec (until q t)"
  shows "\<exists>ts absolute. get_timeout_spec until st = Some (ts, absolute)
    \<and> 0 \<le> it_sec ts \<and> it_sec ts \<le> 300 \<and> 0 \<le> it_nsec ts \<and> it_nsec ts < 1000000000 \<and> (it_sec ts \<noteq> 0 \<or> it_nsec ts \<noteq> 0)
    \<and> (absolute \<longrightarrow> (\<exists>q \<in> set qs. wait_duration_usec (until q) 300000000 (rx_timers st q) = 0))
    \<and> (\<forall>q \<in> set qs. let usec = wait_duration_usec (until q) 300000000 (rx_timers st q) in
         absolute \<or> it_sec ts * 1000000000 + it_nsec ts \<le> usec * 1000 \<or> usec = 0 \<and> it_sec ts = 0 \<and> it_nsec ts = 1000)"
proof -
  obtain r where r: "set_wait_duration_usec until (rx_timers st) 300000000 (rx_timer_set st) = Some r" "0 \<le> r" "r \<le> 300000000"
      "r = 300000000 \<or> (\<exists>q \<in> set qs. r = wait_duration_usec (until q) 300000000 (rx_timers st q))"
      "\<forall>q \<in> set qs. r \<le> wait_duration_usec (until q) 300000000 (rx_timers st q)
         \<or> wait_duration_usec (until q) 300000000 (rx_timers st q) = 0 \<and> r = 1"
    using usec_fold [where until = until, OF assms] by blast
  let ?ts = "\<lparr>it_sec = r div 1000000, it_nsec = (if r \<noteq> 0 then (r mod 1000000) * 1000 else 1)\<rparr>"
  have g: "get_timeout_spec until st = Some (?ts, r = 0)" by (simp add: get_timeout_spec_def r(1))
  have total: "r \<noteq> 0 \<Longrightarrow> it_sec ?ts * 1000000000 + it_nsec ?ts = r * 1000" by simp presburger
  have m: "0 \<le> r mod 1000000" "r mod 1000000 < 1000000" by simp_all
  have bounds: "0 \<le> it_sec ?ts \<and> it_sec ?ts \<le> 300 \<and> 0 \<le> it_nsec ?ts \<and> it_nsec ?ts < 1000000000 \<and> (it_sec ?ts \<noteq> 0 \<or> it_nsec ?ts \<noteq> 0)"
    using r(2,3) m total by (cases "r = 0") auto
  have "let usec = wait_duration_usec (until q) 300000000 (rx_timers st q) in
      r = 0 \<or> it_sec ?ts * 1000000000 + it_nsec ?ts \<le> usec * 1000 \<or> usec = 0 \<and> it_sec ?ts = 0 \<and> it_nsec ?ts = 1000"
    if q: "q \<in> set qs" for q
    using bspec [OF r(5) q] total by (auto simp: Let_def)
  then show ?thesis using g bounds r(4) by auto
qed

theorem get_timeout_spec_bounds_witness:
  "\<exists>absolute ts. get_timeout_spec (\<lambda>q t. \<lparr>du_ticks = t, du_msec = t div 1000, du_usec = t\<rparr>)
      \<lparr>rx_interrupter = 3, rx_timer_fd = 4, rx_shutdown = False, rx_pool = new_pool (\<lambda>_. None) (\<lambda>_. None) :: nat pool,
       rx_states = (\<lambda>_. \<lparr>ds_descriptor = 0, ds_events = 0, ds_queue = (\<lambda>_. []), ds_shutdown = True\<rparr> :: char descriptor_state),
       rx_timer_set = \<lparr>qs_first = Some (0 :: nat), qs_next = \<lambda>_. None\<rparr>,
       rx_timers = (\<lambda>q. \<lparr>tq_timers = Some (), tq_heap = [(2500000 :: int, ())],
         tq_data = (\<lambda>t. new_timer 0 :: (unit, unit) per_timer_data)\<rparr>)\<rparr> = Some (ts, absolute)
    \<and> it_nsec ts < 1000000000 \<and> \<not> absolute"
proof -
  let ?until = "\<lambda>(q :: nat) t. \<lparr>du_ticks = t, du_msec = t div 1000, du_usec = t\<rparr>"
  let ?st = "\<lparr>rx_interrupter = 3, rx_timer_fd = 4, rx_shutdown = False, rx_pool = new_pool (\<lambda>_. None) (\<lambda>_. None) :: nat pool,
       rx_states = (\<lambda>_. \<lparr>ds_descriptor = 0, ds_events = 0, ds_queue = (\<lambda>_. []), ds_shutdown = True\<rparr> :: char descriptor_state),
       rx_timer_set = \<lparr>qs_first = Some (0 :: nat), qs_next = \<lambda>_. None\<rparr>,
       rx_timers = (\<lambda>q. \<lparr>tq_timers = Some (), tq_heap = [(2500000 :: int, ())],
         tq_data = (\<lambda>t. new_timer 0 :: (unit, unit) per_timer_data)\<rparr>)\<rparr>"
  have "members (rx_timer_set ?st) [0]" by (simp add: members_def)
  from get_timeout_spec_bounds [where until = ?until, OF this] show ?thesis
    by (auto simp: wait_duration_usec_def to_usec_def)
qed

end
