(* ===== verification/Asio_Reactive.thy ===== *)
theory Asio_Reactive
  imports Asio_Descriptor Asio_Socket
begin

text \<open>
  The operations a socket leaves with the reactor: receiving, sending, connecting and waiting
  (src/asio/include/asio/detail/reactive_socket_recv_op.hpp, reactive_socket_send_op.hpp,
  reactive_socket_connect_op.hpp, reactive_null_buffers_op.hpp, and what they use of impl/socket_ops.ipp). The kernel is, as in
  \<open>Asio_Socket\<close>, the list of what its calls will answer; an answer that a call would block stands for the time
  until the condition holds. On this kernel the operations meet the contract \<open>edge_triggered\<close> of the reactor.
\<close>

subsection \<open>Receiving and sending\<close>

text \<open>The error with which an attempt blocks: the first that is no interruption.\<close>

fun recv_blocked :: "recv_result list \<Rightarrow> error_code" where
  "recv_blocked (RecvFails e poll # es) = (if e = Interrupted then recv_blocked es else Some e)"
| "recv_blocked es = None"

fun send_blocked :: "send_result list \<Rightarrow> error_code" where
  "send_blocked (SendFails e poll # es) = (if e = Interrupted then send_blocked es else Some e)"
| "send_blocked es = None"

text \<open>The end of the stream leaves \<open>bytes_transferred_\<close> as it was.\<close>

definition recv_do_perform ::
  "bool \<Rightarrow> nat \<Rightarrow> 'f reactor_op \<Rightarrow> recv_result list \<Rightarrow> bool \<times> 'f reactor_op \<times> string \<times> recv_result list" where
  "recv_do_perform stream n op es =
     (case non_blocking_recv stream n es of
        (None, es') \<Rightarrow> (False, op\<lparr>ro_ec := recv_blocked es\<rparr>, [], es')
      | (Some (d, None), es') \<Rightarrow> (True, op\<lparr>ro_ec := None, ro_bytes := length d\<rparr>, d, es')
      | (Some (d, Some e), es') \<Rightarrow>
          (True, op\<lparr>ro_ec := Some e, ro_bytes := (if e = Eof then ro_bytes op else 0)\<rparr>, [], es'))"

definition send_do_perform ::
  "string \<Rightarrow> 'f reactor_op \<Rightarrow> send_result list \<Rightarrow> string \<Rightarrow> bool \<times> 'f reactor_op \<times> send_result list \<times> string" where
  "send_do_perform bs op es out =
     (case non_blocking_send bs es out of
        (None, es', out') \<Rightarrow> (False, op\<lparr>ro_ec := send_blocked es\<rparr>, es', out')
      | (Some (n, ec), es', out') \<Rightarrow> (True, op\<lparr>ro_ec := ec, ro_bytes := n\<rparr>, es', out'))"

subsection \<open>Connecting\<close>

text \<open>What \<open>poll\<close> returns, and what \<open>getsockopt\<close> says then: a failure, or the value of \<open>SO_ERROR\<close>.\<close>

datatype connect_answer = Connect_answer int "errc + error_code"

fun non_blocking_connect :: "connect_answer \<Rightarrow> error_code \<Rightarrow> bool \<times> error_code" where
  "non_blocking_connect (Connect_answer ready sockopt) ec =
     (if ready = 0 then (False, ec)
      else case sockopt of Inl e \<Rightarrow> (True, Some e) | Inr connect_error \<Rightarrow> (True, connect_error))"

text \<open>When the list is used up the connection is established.\<close>

fun connect_do_perform :: "'f reactor_op \<Rightarrow> connect_answer list \<Rightarrow> bool \<times> 'f reactor_op \<times> connect_answer list" where
  "connect_do_perform op [] = (True, op\<lparr>ro_ec := None\<rparr>, [])"
| "connect_do_perform op (a # as) =
     (case non_blocking_connect a (ro_ec op) of (finished, ec) \<Rightarrow> (finished, op\<lparr>ro_ec := ec\<rparr>, as))"

text \<open>Connecting and waiting at once (\<open>sync_connect\<close>); \<open>started\<close> is the result of \<open>socket_ops::connect\<close>, \<open>waited\<close> of \<open>poll\<close>.\<close>

definition sync_connect :: "error_code \<Rightarrow> error_code \<Rightarrow> errc + error_code \<Rightarrow> error_code" where
  "sync_connect started waited sockopt =
     (if started \<noteq> Some InProgress \<and> started \<noteq> Some WouldBlock then started
      else case waited of
             Some e \<Rightarrow> Some e
           | None \<Rightarrow> (case sockopt of Inl e \<Rightarrow> Some e | Inr connect_error \<Rightarrow> connect_error))"

text \<open>\<open>socket_ops::connect\<close> on what the system call answers.\<close>

definition NO_BUFFER_SPACE :: errc where
  "NO_BUFFER_SPACE = SysError 105"

definition connect_call :: "int \<Rightarrow> error_code \<Rightarrow> error_code" where
  "connect_call s answer =
     (if s = - 1 then Some BadDescriptor
      else case answer of None \<Rightarrow> None | Some e \<Rightarrow> Some (if e = TryAgain then NO_BUFFER_SPACE else e))"

subsection \<open>The operations\<close>

text \<open>
  Receiving: whether the socket is a stream, whether the data is out of band, the size of the buffers. Waiting
  (\<open>null_buffers\<close>): the kind of event. The last argument is the handler.
\<close>

datatype 'h socket_func =
    Recv_func bool bool nat 'h
  | Send_func string 'h
  | Connect_func 'h
  | Null_func op_type 'h

fun func_type :: "'h socket_func \<Rightarrow> op_type" where
  "func_type (Recv_func stream oob n h) = (if oob then Except_op else Read_op)"
| "func_type (Send_func bs h) = Write_op"
| "func_type (Connect_func h) = Connect_op"
| "func_type (Null_func ty h) = ty"

record 'h socket_kernel =
  sk_in :: "recv_result list"
  sk_oob :: "recv_result list"
  sk_out :: "send_result list"
  sk_connect :: "connect_answer list"
  sk_sent :: string
  sk_stored :: "('h \<times> string) list"
  sk_interest :: u32
  sk_due :: u32

fun recv_ready :: "recv_result list \<Rightarrow> bool" where
  "recv_ready (RecvFails e poll # es) \<longleftrightarrow> \<not> would_block e"
| "recv_ready es \<longleftrightarrow> True"

fun send_ready :: "send_result list \<Rightarrow> bool" where
  "send_ready (SendFails e poll # es) \<longleftrightarrow> \<not> would_block e"
| "send_ready es \<longleftrightarrow> True"

fun connecting :: "connect_answer list \<Rightarrow> bool" where
  "connecting (Connect_answer ready sockopt # as) \<longleftrightarrow> ready = 0"
| "connecting [] \<longleftrightarrow> False"

fun is_ready :: "'h socket_kernel \<Rightarrow> op_type \<Rightarrow> bool" where
  "is_ready k Read_op \<longleftrightarrow> recv_ready (sk_in k)"
| "is_ready k Write_op \<longleftrightarrow> \<not> connecting (sk_connect k) \<and> send_ready (sk_out k)"
| "is_ready k Except_op \<longleftrightarrow> recv_ready (sk_oob k)"

text \<open>After an attempt that blocked the condition may come up; that is noted for the next report.\<close>

definition note_ready :: "op_type \<Rightarrow> 'h socket_kernel \<Rightarrow> 'h socket_kernel" where
  "note_ready ty k = (if is_ready k ty then k\<lparr>sk_due := sk_due k OR flag ty\<rparr> else k)"

text \<open>
  \<open>reactor_op::perform\<close> calls the function of the operation. A send on a socket that is still connecting
  would block.
\<close>

definition store_received :: "'h \<Rightarrow> string \<Rightarrow> 'h socket_kernel \<Rightarrow> 'h socket_kernel" where
  "store_received h d k = (if d = [] then k else k\<lparr>sk_stored := sk_stored k @ [(h, d)]\<rparr>)"

definition socket_perform ::
  "'h socket_func reactor_op \<Rightarrow> 'h socket_kernel \<Rightarrow> bool \<times> 'h socket_func reactor_op \<times> 'h socket_kernel" where
  "socket_perform op k =
     (case ro_func op of
        Recv_func stream oob n h \<Rightarrow>
          (case recv_do_perform stream n op (if oob then sk_oob k else sk_in k) of
             (finished, op', d, es) \<Rightarrow>
               let k = store_received h d (if oob then k\<lparr>sk_oob := es\<rparr> else k\<lparr>sk_in := es\<rparr>)
               in (finished, op', if finished then k else note_ready (func_type (ro_func op)) k))
      | Send_func bs h \<Rightarrow>
          if connecting (sk_connect k) then (False, op\<lparr>ro_ec := Some WouldBlock\<rparr>, k)
          else (case send_do_perform bs op (sk_out k) (sk_sent k) of
                  (finished, op', es, out) \<Rightarrow>
                    let k = k\<lparr>sk_out := es, sk_sent := out\<rparr>
                    in (finished, op', if finished then k else note_ready Write_op k))
      | Connect_func h \<Rightarrow>
          (case connect_do_perform op (sk_connect k) of
             (finished, op', as) \<Rightarrow>
               let k = k\<lparr>sk_connect := as\<rparr> in (finished, op', if finished then k else note_ready Connect_op k))
      | Null_func ty h \<Rightarrow> (True, op, k))"

text \<open>Changing the registration makes all events of the new one due, if their conditions hold.\<close>

definition socket_ctl :: "ctl_command \<Rightarrow> int \<Rightarrow> u32 \<Rightarrow> 'p \<Rightarrow> 'h socket_kernel \<Rightarrow> errc option \<times> 'h socket_kernel" where
  "socket_ctl c fd events ptr k =
     (None, if c = Ctl_del then k\<lparr>sk_interest := 0, sk_due := 0\<rparr> else k\<lparr>sk_interest := events, sk_due := events\<rparr>)"

definition socket_env :: "('p, 'h socket_func, 'h socket_kernel) reactor_env" where
  "socket_env = \<lparr>re_perform = socket_perform, re_ctl = socket_ctl\<rparr>"

definition ready_mask :: "'h socket_kernel \<Rightarrow> u32" where
  "ready_mask k = (if is_ready k Read_op then EPOLLIN else 0) OR (if is_ready k Write_op then EPOLLOUT else 0)
     OR (if is_ready k Except_op then EPOLLPRI else 0)"

text \<open>The kernel may do anything by itself that respects the edge-triggered reports.\<close>

definition socket_moves :: "'h socket_kernel \<Rightarrow> 'h socket_kernel \<Rightarrow> bool" where
  "socket_moves k k' \<longleftrightarrow> sk_interest k' = sk_interest k \<and> (\<forall>ty. has (sk_due k) ty \<longrightarrow> has (sk_due k') ty)
     \<and> (\<forall>ty. has (sk_interest k) ty \<and> is_ready k' ty \<and> \<not> is_ready k ty \<longrightarrow> has (sk_due k') ty)"

definition socket_reports :: "'h socket_kernel \<Rightarrow> u32 \<Rightarrow> 'h socket_kernel \<Rightarrow> bool" where
  "socket_reports k events k' \<longleftrightarrow> sk_interest k' = sk_interest k \<and>
     (\<forall>ty. is_ready k' ty \<longrightarrow> (has (sk_interest k) ty \<and> \<not> is_ready k ty \<or> has (sk_due k) ty) \<longrightarrow>
        has events ty \<or> has (sk_due k') ty)"

lemma has_ready_mask [simp]: "has (ready_mask k) ty \<longleftrightarrow> is_ready k ty"
  by (cases ty) (simp_all add: ready_mask_def has_def epoll_bits)

lemma has_note [simp]: "has (flag ty) ty"
  by (cases ty) (simp_all add: has_def epoll_bits)

lemma has_events [simp]:
  "has EPOLLIN ty \<longleftrightarrow> ty = Read_op" "has EPOLLOUT ty \<longleftrightarrow> ty = Write_op" "has EPOLLPRI ty \<longleftrightarrow> ty = Except_op"
  by (cases ty; simp add: has_def epoll_bits)+

lemma note_fields [simp]:
  "sk_in (note_ready t k) = sk_in k" "sk_oob (note_ready t k) = sk_oob k"
  "sk_out (note_ready t k) = sk_out k" "sk_connect (note_ready t k) = sk_connect k"
  by (simp_all add: note_ready_def)

lemma note_simps [simp]:
  "is_ready (note_ready t k) ty = is_ready k ty"
  "sk_interest (note_ready t k) = sk_interest k"
  "has (sk_due (note_ready t k)) ty \<longleftrightarrow> has (sk_due k) ty \<or> is_ready k t \<and> has (flag t) ty"
  by (cases ty; simp add: note_ready_def)+

lemma store_simps [simp]:
  "is_ready (store_received h d k) ty = is_ready k ty"
  "sk_interest (store_received h d k) = sk_interest k"
  "sk_due (store_received h d k) = sk_due k"
  by (cases ty; simp add: store_received_def)+

subsection \<open>Attempts that block\<close>

lemma recv_blocks: "non_blocking_recv stream n es = (None, es') \<Longrightarrow> \<exists>e poll. would_block e \<and> (\<exists>us. es = us @ RecvFails e poll # es')"
proof (induction stream n es rule: non_blocking_recv.induct)
  case (4 stream n e poll es)
  show ?case
  proof (cases "e = Interrupted")
    case True
    then obtain e' poll' us where "would_block e'" "es = us @ RecvFails e' poll' # es'" using 4 by auto
    then show ?thesis by (metis append_Cons)
  next
    case False
    then show ?thesis using 4 by (metis append_Nil non_blocking_recv.simps(4) option.distinct(1) prod.inject)
  qed
qed (auto split: if_splits prod.splits)

lemma send_blocks: "non_blocking_send bs es out = (None, es', out') \<Longrightarrow>
    out' = out \<and> (\<exists>e poll. would_block e \<and> (\<exists>us. es = us @ SendFails e poll # es'))"
proof (induction bs es out rule: non_blocking_send.induct)
  case (3 bs e poll es out)
  show ?case
  proof (cases "e = Interrupted")
    case True
    then obtain e' poll' us where "out' = out" "would_block e'" "es = us @ SendFails e' poll' # es'" using 3 by auto
    then show ?thesis by (metis append_Cons)
  next
    case False
    then show ?thesis using 3 by (metis append_Nil non_blocking_send.simps(3) option.distinct(1) prod.inject)
  qed
qed (auto simp: Let_def)

lemma recv_unready: "\<not> recv_ready es \<Longrightarrow> non_blocking_recv stream n es = (None, tl es)"
  by (cases es rule: recv_ready.cases) (auto simp: would_block_def)

lemma send_unready: "\<not> send_ready es \<Longrightarrow> non_blocking_send bs es out = (None, tl es, out)"
  by (cases es rule: send_ready.cases) (auto simp: would_block_def)

lemma socket_perform_func: "socket_perform op k = (b, op', k') \<Longrightarrow> ro_func op' = ro_func op"
proof -
  assume p: "socket_perform op k = (b, op', k')"
  have r: "recv_do_perform s n op es = (b', op'', d, es') \<Longrightarrow> ro_func op'' = ro_func op" for s n es b' op'' d es'
    by (auto simp: recv_do_perform_def split: option.splits prod.splits)
  have s: "send_do_perform bs op es out = (b', op'', es', out') \<Longrightarrow> ro_func op'' = ro_func op" for bs es out b' op'' es' out'
    by (auto simp: send_do_perform_def split: option.splits prod.splits)
  have c: "connect_do_perform op as = (b', op'', as') \<Longrightarrow> ro_func op'' = ro_func op" for as b' op'' as'
    by (cases as) (auto split: prod.splits)
  from p show ?thesis
    by (cases "ro_func op") (auto simp: socket_perform_def Let_def split: prod.splits if_splits dest: r s c)
qed

text \<open>How an attempt changes the kernel: \<open>k1\<close> is the moment when it blocks.\<close>

definition blocked_at :: "op_type \<Rightarrow> 'h socket_kernel \<Rightarrow> 'h socket_kernel \<Rightarrow> 'h socket_kernel \<Rightarrow> bool" where
  "blocked_at ty k k1 k2 \<longleftrightarrow> \<not> is_ready k1 ty \<and> (\<forall>t. t \<noteq> ty \<longrightarrow> is_ready k1 t = is_ready k t \<and> is_ready k2 t = is_ready k t)
     \<and> sk_interest k1 = sk_interest k \<and> sk_interest k2 = sk_interest k \<and> sk_due k1 = sk_due k
     \<and> (\<forall>t. has (sk_due k) t \<longrightarrow> has (sk_due k2) t) \<and> (is_ready k2 ty \<longrightarrow> has (sk_due k2) ty)"

lemma blocked_moves:
  assumes "blocked_at ty k k1 k2"
  shows "socket_moves k k1" and "socket_moves k1 k2" and "socket_moves k k2"
proof -
  have b: "\<not> is_ready k1 ty" "\<And>t. t \<noteq> ty \<Longrightarrow> is_ready k1 t = is_ready k t \<and> is_ready k2 t = is_ready k t"
    "sk_interest k1 = sk_interest k" "sk_interest k2 = sk_interest k" "sk_due k1 = sk_due k"
    "\<And>t. has (sk_due k) t \<Longrightarrow> has (sk_due k2) t" "is_ready k2 ty \<Longrightarrow> has (sk_due k2) ty"
    using assms by (auto simp: blocked_at_def)
  show "socket_moves k k1" using b(1-5) by (simp add: socket_moves_def) metis
  show "socket_moves k1 k2" using b by (simp add: socket_moves_def) metis
  show "socket_moves k k2" using b by (simp add: socket_moves_def) metis
qed

lemma all_types: "(\<forall>t. P t) \<longleftrightarrow> P Read_op \<and> P Write_op \<and> P Except_op"
  by (metis op_type.exhaust)

lemma recv_blocked_at:
  assumes "non_blocking_recv stream n (sk_in k) = (None, es)"
  shows "\<exists>k1. blocked_at Read_op k k1 (note_ready Read_op (k\<lparr>sk_in := es\<rparr>))"
proof -
  obtain e where "would_block e" using recv_blocks [OF assms] by blast
  then have "blocked_at Read_op k (k\<lparr>sk_in := RecvFails e None # es\<rparr>) (note_ready Read_op (k\<lparr>sk_in := es\<rparr>))"
    by (simp add: blocked_at_def all_types)
  then show ?thesis by blast
qed

lemma oob_blocked_at:
  assumes "non_blocking_recv stream n (sk_oob k) = (None, es)"
  shows "\<exists>k1. blocked_at Except_op k k1 (note_ready Except_op (k\<lparr>sk_oob := es\<rparr>))"
proof -
  obtain e where "would_block e" using recv_blocks [OF assms] by blast
  then have "blocked_at Except_op k (k\<lparr>sk_oob := RecvFails e None # es\<rparr>) (note_ready Except_op (k\<lparr>sk_oob := es\<rparr>))"
    by (simp add: blocked_at_def all_types)
  then show ?thesis by blast
qed

lemma send_blocked_at:
  assumes "non_blocking_send bs (sk_out k) (sk_sent k) = (None, es, out)" and "\<not> connecting (sk_connect k)"
  shows "\<exists>k1. blocked_at Write_op k k1 (note_ready Write_op (k\<lparr>sk_out := es, sk_sent := out\<rparr>))"
proof -
  obtain e where "would_block e" using send_blocks [OF assms(1)] by blast
  then have "blocked_at Write_op k (k\<lparr>sk_out := SendFails e None # es\<rparr>) (note_ready Write_op (k\<lparr>sk_out := es, sk_sent := out\<rparr>))"
    by (simp add: blocked_at_def all_types)
  then show ?thesis by blast
qed

lemma connect_blocked_at:
  assumes "connecting (sk_connect k)"
  shows "blocked_at Write_op k k (note_ready Write_op (k\<lparr>sk_connect := as\<rparr>))"
  using assms by (simp add: blocked_at_def all_types)

text \<open>An attempt that is finished met a condition that held.\<close>

definition finished_at :: "op_type \<Rightarrow> 'h socket_kernel \<Rightarrow> 'h socket_kernel \<Rightarrow> bool" where
  "finished_at ty k k2 \<longleftrightarrow> (is_ready k ty \<or> \<not> is_ready k2 ty) \<and> (\<forall>t. t \<noteq> ty \<longrightarrow> is_ready k2 t = is_ready k t)
     \<and> sk_interest k2 = sk_interest k \<and> sk_due k2 = sk_due k"

lemma finished_moves: "finished_at ty k k2 \<Longrightarrow> socket_moves k k2"
  unfolding finished_at_def socket_moves_def by metis

lemma socket_perform_cases:
  assumes "socket_perform op k = (b, op', k')"
  shows "if b then \<exists>ty. finished_at ty k k' else \<exists>k1. blocked_at (func_type (ro_func op)) k k1 k'"
proof (cases "ro_func op")
  case (Recv_func stream oob n h)
  let ?es = "if oob then sk_oob k else sk_in k"
  obtain r es where nb: "non_blocking_recv stream n ?es = (r, es)" by fastforce
  show ?thesis
  proof (cases r)
    case None
    with nb assms Recv_func show ?thesis
      using recv_blocked_at [of stream n k es] oob_blocked_at [of stream n k es]
      by (auto simp: socket_perform_def recv_do_perform_def store_received_def Let_def split: if_splits)
  next
    case (Some a)
    obtain op1 d where p: "recv_do_perform stream n op ?es = (True, op1, d, es)"
      using nb Some by (cases a; cases "snd a") (auto simp: recv_do_perform_def)
    have "recv_ready ?es" using nb Some recv_unready [of ?es stream n] by (cases "recv_ready ?es") simp_all
    then have "finished_at (func_type (ro_func op)) k (store_received h d (if oob then k\<lparr>sk_oob := es\<rparr> else k\<lparr>sk_in := es\<rparr>))"
      using Recv_func by (simp add: finished_at_def all_types split: if_splits)
    then show ?thesis using assms Recv_func p by (auto simp: socket_perform_def Let_def)
  qed
next
  case (Send_func bs h)
  show ?thesis
  proof (cases "connecting (sk_connect k)")
    case True
    then have "blocked_at Write_op k k k" by (simp add: blocked_at_def)
    then show ?thesis using True assms Send_func by (auto simp: socket_perform_def)
  next
    case False
    obtain r es out where nb: "non_blocking_send bs (sk_out k) (sk_sent k) = (r, es, out)" by (metis prod_cases3)
    show ?thesis
    proof (cases r)
      case None
      with nb assms Send_func False show ?thesis using send_blocked_at [of bs k es out] False
        by (auto simp: socket_perform_def send_do_perform_def Let_def split: if_splits)
    next
      case (Some a)
      have "send_ready (sk_out k)" using nb Some send_unready [of "sk_out k" bs "sk_sent k"] by auto
      then have "finished_at Write_op k (k\<lparr>sk_out := es, sk_sent := out\<rparr>)" using False by (simp add: finished_at_def all_types)
      then show ?thesis using assms Send_func nb Some False
        by (cases a) (auto simp: socket_perform_def send_do_perform_def Let_def)
    qed
  qed
next
  case (Connect_func h)
  show ?thesis
  proof (cases "connecting (sk_connect k)")
    case True
    then obtain sockopt as where as: "sk_connect k = Connect_answer 0 sockopt # as" by (cases "sk_connect k" rule: connecting.cases) auto
    then show ?thesis using True assms Connect_func connect_blocked_at [OF True, of as] by (auto simp: socket_perform_def Let_def)
  next
    case False
    then have "\<exists>op1 as. connect_do_perform op (sk_connect k) = (True, op1, as)"
      by (cases "sk_connect k" rule: connecting.cases) (auto split: sum.split)
    then obtain op1 as where p: "connect_do_perform op (sk_connect k) = (True, op1, as)" by blast
    have "finished_at Write_op k (k\<lparr>sk_connect := as\<rparr>)" using False by (auto simp: finished_at_def all_types)
    then show ?thesis using assms Connect_func p by (auto simp: socket_perform_def Let_def)
  qed
next
  case (Null_func ty h)
  then show ?thesis using assms by (auto simp: socket_perform_def finished_at_def)
qed

interpretation sock: edge_triggered socket_env p fd func_type socket_moves socket_reports ready_mask sk_due sk_interest
proof
  fix op :: "'h socket_func reactor_op" and k :: "'h socket_kernel" and b op1 k1
  assume p: "re_perform socket_env op k = (b, op1, k1)"
  then have p': "socket_perform op k = (b, op1, k1)" by (simp add: socket_env_def)
  show "socket_moves k k1" using socket_perform_cases [OF p'] finished_moves blocked_moves by (auto split: if_splits)
  show "ro_func op1 = ro_func op" by (rule socket_perform_func [OF p'])
next
  fix op :: "'h socket_func reactor_op" and k :: "'h socket_kernel" and op1 k2
  assume "re_perform socket_env op k = (False, op1, k2)"
  then have "socket_perform op k = (False, op1, k2)" by (simp add: socket_env_def)
  then obtain k1 where k1: "blocked_at (func_type (ro_func op)) k k1 k2" using socket_perform_cases by fastforce
  then have "\<not> is_ready k1 (func_type (ro_func op))" by (simp add: blocked_at_def)
  then show "\<exists>k1. socket_moves k k1 \<and> \<not> has (ready_mask k1) (func_type (ro_func op)) \<and> socket_moves k1 k2"
    using blocked_moves [OF k1] by auto
qed (auto simp: socket_moves_def socket_reports_def socket_env_def socket_ctl_def)

subsection \<open>What the reactor guarantees\<close>

text \<open>
  C16. No event is lost. Whatever the program and the kernel do, in any order: when an operation waits and its condition
  holds, an event for it is due or already reported and still to be handled; and handling the event tries all
  operations of its kind, until none is left or the condition was seen not to hold after the event. The one
  exception is a descriptor for which an \<open>epoll_ctl\<close> failed whose result \<open>start_op\<close> does not look at.
\<close>

theorem no_lost_event:
  assumes "edge_triggered env p fd kind moves reports ready due interest"
    and "d_reachable env p fd kind moves reports (d_initial fd registered k) m"
    and "interest k = registered" and "has registered Read_op" and "has registered Except_op"
  shows "(\<not> dm_unarmed m \<longrightarrow> ds_queue (dm_state m) ty \<noteq> [] \<longrightarrow> has (ready (dm_kernel m)) ty \<longrightarrow>
      has (due (dm_kernel m)) ty \<or> (\<exists>e \<in># dm_flights m. has e ty))
    \<and> (\<forall>e. has e ty \<longrightarrow> ds_queue (dm_state (run_complete env e m)) ty = []
      \<or> (\<exists>k1. moves (dm_kernel m) k1 \<and> \<not> has (ready k1) ty \<and> moves k1 (dm_kernel (run_complete env e m))))"
proof -
  note typed = edge_triggered.reachable_typed [OF assms]
  show ?thesis
    using edge_triggered.event_coming [OF assms] edge_triggered.complete_tries [OF assms(1) typed] by blast
qed

text \<open>A receive is started while there is no data, which then arrives: the event is due.\<close>

theorem no_lost_event_witness:
  "has (sk_due (dm_kernel (run_start (socket_env :: (nat, nat socket_func, nat socket_kernel) reactor_env) 1 5 Read_op (Recv_func True False 9 0) False True
      (d_initial 5 (EPOLLIN OR EPOLLPRI) \<lparr>sk_in = [RecvFails WouldBlock None, Got CHR ''h'' ''i''], sk_oob = [RecvFails WouldBlock None],
        sk_out = [], sk_connect = [], sk_sent = [], sk_stored = [], sk_interest = EPOLLIN OR EPOLLPRI, sk_due = 0\<rparr>)))) Read_op"
proof -
  let ?env = "socket_env :: (nat, nat socket_func, nat socket_kernel) reactor_env"
  let ?k = "\<lparr>sk_in = [RecvFails WouldBlock None, Got CHR ''h'' ''i''], sk_oob = [RecvFails WouldBlock None],
        sk_out = [], sk_connect = [], sk_sent = [], sk_stored = [], sk_interest = EPOLLIN OR EPOLLPRI, sk_due = 0\<rparr>"
  let ?ini = "d_initial 5 (EPOLLIN OR EPOLLPRI) ?k"
  let ?m = "run_start ?env 1 5 (func_type (Recv_func True False 9 (0 :: nat))) (Recv_func True False 9 0) False True ?ini"
  have r: "d_reachable ?env 1 5 func_type socket_moves socket_reports ?ini ?m"
    by (rule d_next [OF d_start starts])
  note defs = run_start_def start_op_at_def d_initial_def speculates_def start_speculative_def socket_env_def socket_perform_def
    recv_do_perform_def new_reactor_op_def would_block_def store_received_def note_ready_def enqueue_op_def unchecked_failure_def Let_def
  have "\<not> dm_unarmed ?m" and "ds_queue (dm_state ?m) Read_op \<noteq> []" and "has (ready_mask (dm_kernel ?m)) Read_op"
    and "dm_flights ?m = {#}" and "has (EPOLLIN OR EPOLLPRI) Read_op" and "has (EPOLLIN OR EPOLLPRI) Except_op"
    and "sk_interest (dm_kernel ?ini) = EPOLLIN OR EPOLLPRI"
    by (simp_all add: defs)
  then have "has (sk_due (dm_kernel ?m)) Read_op"
    using no_lost_event [OF sock.edge_triggered_axioms r, of Read_op] by (simp add: d_initial_def)
  then show ?thesis by simp
qed

text \<open>
  C20. Every operation that is started waits in its queue, is finished and handed to the event loop, or has had its
  handler called, exactly one of these; the count of outstanding work is the number of those whose handler is still to be
  called, whatever events arrive; and an event completes the operations of a queue in the order they were started.
\<close>

theorem reactor_ops_accounted:
  assumes "keeps_func env" and "d_reachable env p fd kind moves reports (d_initial fd registered k) m"
  shows "dm_started m = image_mset ro_func (waiting_ops (dm_state m) + dm_posted m + dm_done m)
    \<and> dm_work m = int (size (waiting_ops (dm_state m)) + size (dm_posted m))
    \<and> (\<forall>ty ops k q' ops' k'. perform_queue env (ds_queue (dm_state m) ty) ops k = (q', ops', k') \<longrightarrow>
         (\<exists>fs. map ro_func ops' = map ro_func ops @ fs \<and> map ro_func (ds_queue (dm_state m) ty) = fs @ map ro_func q'))"
proof -
  have "accounted m" by (rule accounted_reachable [OF assms(2,1) initial_accounted])
  then show ?thesis using perform_queue_order [OF assms(1)] by (auto simp: accounted_def funcs_def)
qed

definition quiet_kernel :: "nat socket_kernel" where
  "quiet_kernel = \<lparr>sk_in = [], sk_oob = [], sk_out = [], sk_connect = [], sk_sent = [], sk_stored = [],
     sk_interest = EPOLLIN OR EPOLLPRI, sk_due = 0\<rparr>"

theorem reactor_ops_accounted_witness:
  "dm_work (run_cancel (run_start (socket_env :: (nat, nat socket_func, nat socket_kernel) reactor_env) 1 5 Except_op (Recv_func True True 1 7) False False
     (d_initial 5 (EPOLLIN OR EPOLLPRI) quiet_kernel))) =
   int (size (waiting_ops (dm_state (run_cancel (run_start (socket_env :: (nat, nat socket_func, nat socket_kernel) reactor_env) 1 5 Except_op
     (Recv_func True True 1 7) False False (d_initial 5 (EPOLLIN OR EPOLLPRI) quiet_kernel)))))
   + size (dm_posted (run_cancel (run_start (socket_env :: (nat, nat socket_func, nat socket_kernel) reactor_env) 1 5 Except_op (Recv_func True True 1 7) False False
     (d_initial 5 (EPOLLIN OR EPOLLPRI) quiet_kernel)))))"
proof -
  let ?env = "socket_env :: (nat, nat socket_func, nat socket_kernel) reactor_env"
  have "d_reachable ?env 1 5 func_type socket_moves socket_reports (d_initial 5 (EPOLLIN OR EPOLLPRI) quiet_kernel)
      (run_cancel (run_start ?env 1 5 (func_type (Recv_func True True 1 (7 :: nat))) (Recv_func True True 1 7) False False (d_initial 5 (EPOLLIN OR EPOLLPRI) quiet_kernel)))"
    by (rule d_next [OF d_next [OF d_start starts] cancels])
  from reactor_ops_accounted [OF sock.keeps this] show ?thesis by simp
qed

subsection \<open>Asynchronous and synchronous\<close>

text \<open>The attempts of an operation, one for each event, until it is finished.\<close>

lemma recv_perform_shorter: "recv_do_perform stream n op es = (False, op', d, es') \<Longrightarrow> length es' < length es"
  by (auto simp: recv_do_perform_def split: option.splits prod.splits dest: non_blocking_recv_shorter)

lemma send_perform_shorter: "send_do_perform bs op es out = (False, op', es', out') \<Longrightarrow> length es' < length es"
  by (auto simp: send_do_perform_def split: option.splits prod.splits dest: non_blocking_send_shorter)

function recv_attempts :: "bool \<Rightarrow> nat \<Rightarrow> 'f reactor_op \<Rightarrow> recv_result list \<Rightarrow> 'f reactor_op \<times> string \<times> recv_result list" where
  "recv_attempts stream n op es =
     (case recv_do_perform stream n op es of
        (True, op', d, es') \<Rightarrow> (op', d, es')
      | (False, op', d, es') \<Rightarrow> recv_attempts stream n op' es')"
  by auto
termination
  by (relation "measure (\<lambda>(stream, n, op, es). length es)") (auto dest: recv_perform_shorter sym)

function send_attempts :: "string \<Rightarrow> 'f reactor_op \<Rightarrow> send_result list \<Rightarrow> string \<Rightarrow> 'f reactor_op \<times> send_result list \<times> string" where
  "send_attempts bs op es out =
     (case send_do_perform bs op es out of
        (True, op', es', out') \<Rightarrow> (op', es', out')
      | (False, op', es', out') \<Rightarrow> send_attempts bs op' es' out')"
  by auto
termination
  by (relation "measure (\<lambda>(bs, op, es, out). length es)") (auto dest: send_perform_shorter sym)

declare recv_attempts.simps [simp del] send_attempts.simps [simp del]

fun connect_attempts :: "'f reactor_op \<Rightarrow> connect_answer list \<Rightarrow> 'f reactor_op \<times> connect_answer list" where
  "connect_attempts op [] = (op\<lparr>ro_ec := None\<rparr>, [])"
| "connect_attempts op (a # as) =
     (case connect_do_perform op (a # as) of
        (True, op', as') \<Rightarrow> (op', as')
      | (False, op', as') \<Rightarrow> connect_attempts op' as)"

text \<open>\<open>start_connect_op\<close>: only a connection that is in progress waits in the reactor.\<close>

definition connect_operation :: "error_code \<Rightarrow> 'f reactor_op \<Rightarrow> connect_answer list \<Rightarrow> 'f reactor_op \<times> connect_answer list" where
  "connect_operation started op as =
     (if started = Some InProgress \<or> started = Some WouldBlock then connect_attempts (op\<lparr>ro_ec := None\<rparr>) as
      else (op\<lparr>ro_ec := started\<rparr>, as))"

lemma non_blocking_recv_fails: "non_blocking_recv stream n es = (Some (d, Some e), es') \<Longrightarrow> d = []"
  by (induction stream n es rule: non_blocking_recv.induct) (auto split: if_splits prod.splits)

lemma recv_attempts_loop:
  "recv_attempts stream n op es = (op', d, es') \<Longrightarrow> ro_bytes op = 0 \<Longrightarrow>
     async_recv_loop stream n es = (d, ro_ec op', es') \<and> ro_bytes op' = length d"
proof (induction stream n op es rule: recv_attempts.induct)
  case (1 stream n op es)
  show ?case
  proof (cases "non_blocking_recv stream n es")
    case (Pair r es1)
    show ?thesis
    proof (cases r)
      case None
      then have "recv_do_perform stream n op es = (False, op\<lparr>ro_ec := recv_blocked es\<rparr>, [], es1)"
        using Pair by (simp add: recv_do_perform_def)
      then show ?thesis
        using 1(1) [of False] 1(2,3) Pair None
        by (simp add: recv_attempts.simps [of stream n op es] async_recv_loop.simps [of stream n es])
    next
      case (Some q)
      then show ?thesis using 1(2,3) Pair non_blocking_recv_fails [of stream n es]
        by (cases q; cases "snd q")
          (auto simp: recv_attempts.simps [of stream n op es] async_recv_loop.simps [of stream n es] recv_do_perform_def)
    qed
  qed
qed

lemma send_attempts_loop:
  "send_attempts bs op es out = (op', es', out') \<Longrightarrow>
     async_send_loop bs es out = (ro_bytes op', ro_ec op', es', out')"
proof (induction bs op es out rule: send_attempts.induct)
  case (1 bs op es out)
  show ?case
  proof (cases "non_blocking_send bs es out")
    case (fields r es1 out1)
    show ?thesis
    proof (cases r)
      case None
      then have "send_do_perform bs op es out = (False, op\<lparr>ro_ec := send_blocked es\<rparr>, es1, out1)"
        using fields by (simp add: send_do_perform_def)
      then show ?thesis
        using 1(1) [of False] 1(2) fields None
        by (simp add: send_attempts.simps [of bs op es] async_send_loop.simps [of bs es])
    next
      case (Some q)
      then show ?thesis using 1(2) fields
        by (cases q) (auto simp: send_attempts.simps [of bs op es] async_send_loop.simps [of bs es] send_do_perform_def)
    qed
  qed
qed

lemma connect_attempts_last:
  assumes "\<forall>a \<in> set as. connecting [a]" and "ready \<noteq> 0"
  shows "connect_attempts op (as @ [Connect_answer ready sockopt]) =
    (op\<lparr>ro_ec := (case sockopt of Inl e \<Rightarrow> Some e | Inr ec \<Rightarrow> ec)\<rparr>, [])"
  using assms(1)
proof (induction as arbitrary: op)
  case Nil
  then show ?case using assms(2) by (auto split: sum.splits)
next
  case (Cons a as)
  then obtain so where "a = Connect_answer 0 so" by (cases a) auto
  then show ?case using Cons by simp
qed

text \<open>
  C30. The operations that wait in the reactor, whatever the system answers to them, finish with what the
  synchronous calls give on a blocking socket when the answers are the same but no call is interrupted by a signal and
  every wait for the descriptor ends with it ready: a receive stores the same bytes, a send takes the same, both end with
  the same error and leave the same answers. They are the reads and writes the composed operations run on. An
  asynchronous connect ends with the error that \<open>sync_connect\<close> reports once the descriptor is reported. A receive that
  is interrupted is the difference: the synchronous one fails, the asynchronous one goes on.
\<close>

theorem async_operations_equal_sync:
  assumes "ready \<noteq> 0" and "\<forall>a \<in> set as. connecting [a]"
  shows "(case recv_attempts stream n (new_reactor_op f) es of (op, d, es') \<Rightarrow>
        sync_recv_loop stream False n (quiet es) = (d, ro_ec op, quiet es') \<and> ro_bytes op = length d
        \<and> async_recv_loop stream n es = (d, ro_ec op, es'))
    \<and> (case send_attempts bs (new_reactor_op f) fs out of (op, fs', out') \<Rightarrow>
        sync_send_loop False bs (quiet_sends fs) out = (ro_bytes op, ro_ec op, quiet_sends fs', out')
        \<and> async_send_loop bs fs out = (ro_bytes op, ro_ec op, fs', out'))
    \<and> ro_ec (fst (connect_operation started (new_reactor_op f) (as @ [Connect_answer ready sockopt]))) = sync_connect started None sockopt
    \<and> recv_attempts stream n (new_reactor_op f) (RecvFails Interrupted poll # es) = recv_attempts stream n (new_reactor_op f) es
    \<and> sync_recv_loop stream False n (RecvFails Interrupted poll # es) = ([], Some Interrupted, es)"
proof (intro conjI)
  have zero: "ro_bytes (new_reactor_op f) = 0" by (simp add: new_reactor_op_def)
  show "case recv_attempts stream n (new_reactor_op f) es of (op, d, es') \<Rightarrow>
        sync_recv_loop stream False n (quiet es) = (d, ro_ec op, quiet es') \<and> ro_bytes op = length d
        \<and> async_recv_loop stream n es = (d, ro_ec op, es')"
    using zero by (auto dest!: recv_attempts_loop dest: async_recv_loop_quiet split: prod.split)
  show "case send_attempts bs (new_reactor_op f) fs out of (op, fs', out') \<Rightarrow>
        sync_send_loop False bs (quiet_sends fs) out = (ro_bytes op, ro_ec op, quiet_sends fs', out')
        \<and> async_send_loop bs fs out = (ro_bytes op, ro_ec op, fs', out')"
    by (auto dest!: send_attempts_loop dest: async_send_loop_quiet split: prod.split)
  show "ro_ec (fst (connect_operation started (new_reactor_op f) (as @ [Connect_answer ready sockopt]))) = sync_connect started None sockopt"
    using connect_attempts_last [OF assms(2,1), where op = "new_reactor_op f\<lparr>ro_ec := None\<rparr>" and sockopt = sockopt]
    by (auto simp: connect_operation_def sync_connect_def split: sum.splits)
  have "recv_do_perform stream n (new_reactor_op f) (RecvFails Interrupted poll # es) = recv_do_perform stream n (new_reactor_op f) es"
    by (simp add: recv_do_perform_def split: option.split prod.split)
  then show "recv_attempts stream n (new_reactor_op f) (RecvFails Interrupted poll # es) = recv_attempts stream n (new_reactor_op f) es"
    by (subst (1 2) recv_attempts.simps) simp
qed (simp add: would_block_def)

text \<open>A receive that has to wait and is then interrupted, and a connection that is refused after a while.\<close>

theorem async_operations_equal_sync_witness:
  "(case recv_attempts True 1 (new_reactor_op ()) [RecvFails WouldBlock (Some BadDescriptor), RecvFails Interrupted None, Got CHR ''h'' ''i''] of
      (op, d, es') \<Rightarrow> ([], d, ro_ec op, quiet es') = ([], sync_recv_loop True False 1 [RecvFails WouldBlock None, Got CHR ''h'' ''i'']))
    \<and> ro_ec (fst (connect_operation (Some InProgress) (new_reactor_op ()) [Connect_answer 0 (Inr None), Connect_answer 1 (Inr (Some (SysError 111)))]))
      = Some (SysError 111)"
proof -
  let ?es = "[RecvFails WouldBlock (Some BadDescriptor), RecvFails Interrupted None, Got CHR ''h'' ''i'']"
  have "quiet ?es = [RecvFails WouldBlock None, Got CHR ''h'' ''i'']" by simp
  then show ?thesis
    using async_operations_equal_sync [where ready = 1 and as = "[Connect_answer 0 (Inr None)]" and stream = True and n = 1
        and f = "()" and es = ?es and started = "Some InProgress" and sockopt = "Inr (Some (SysError 111))"]
    by (auto simp: sync_connect_def simp del: sync_recv_loop.simps split: prod.splits)
qed

end
