(* ===== verification/Asio_Socket_Service.thy ===== *)
theory Asio_Socket_Service
  imports Asio_Reactor Asio_Reactive
begin

text \<open>
  The sockets of the service: src/asio/include/asio/detail/impl/reactive_socket_service_base.ipp and .hpp, with the
  modes and the closing of a descriptor of detail/impl/socket_ops.ipp. A socket is a descriptor, its state bits and the pointer to
  its state in the reactor (\<open>Asio_Reactor\<close>); the system calls are an argument.
\<close>

subsection \<open>Sockets and system calls\<close>

definition user_set_non_blocking :: u8 where "user_set_non_blocking = 1"

definition internal_non_blocking :: u8 where "internal_non_blocking = 2"

definition non_blocking :: u8 where "non_blocking = user_set_non_blocking OR internal_non_blocking"

definition user_set_linger :: u8 where "user_set_linger = 8"

definition stream_oriented :: u8 where "stream_oriented = 16"

definition datagram_oriented :: u8 where "datagram_oriented = 32"

definition possible_dup :: u8 where "possible_dup = 64"

lemmas state_bits = user_set_non_blocking_def internal_non_blocking_def non_blocking_def user_set_linger_def
  stream_oriented_def datagram_oriented_def possible_dup_def

definition invalid_socket :: int where
  "invalid_socket = - 1"

record 'p socket_impl =
  si_socket :: int
  si_state :: u8
  si_data :: "'p option"

text \<open>
  \<open>socket\<close>, \<open>close\<close>, \<open>setsockopt\<close> to switch lingering off, \<open>ioctl\<close> with \<open>FIONBIO\<close>, and \<open>connect\<close>. A call
  that fails returns its error.
\<close>

record ('a, 'k) socket_sys =
  sy_socket :: "int \<Rightarrow> int \<Rightarrow> int \<Rightarrow> 'k \<Rightarrow> (errc + int) \<times> 'k"
  sy_close :: "int \<Rightarrow> 'k \<Rightarrow> error_code \<times> 'k"
  sy_linger_off :: "int \<Rightarrow> 'k \<Rightarrow> 'k"
  sy_nonblock :: "int \<Rightarrow> bool \<Rightarrow> 'k \<Rightarrow> error_code \<times> 'k"
  sy_connect :: "int \<Rightarrow> 'a \<Rightarrow> 'k \<Rightarrow> error_code \<times> 'k"

subsection \<open>The modes of a descriptor\<close>

definition INVALID_ARGUMENT :: errc where
  "INVALID_ARGUMENT = SysError 22"

text \<open>The result, the error and the state bits.\<close>

definition set_user_non_blocking ::
  "('a, 'k) socket_sys \<Rightarrow> int \<Rightarrow> u8 \<Rightarrow> bool \<Rightarrow> 'k \<Rightarrow> bool \<times> error_code \<times> u8 \<times> 'k" where
  "set_user_non_blocking sys s state value k =
     (if s = invalid_socket then (False, Some BadDescriptor, state, k)
      else case sy_nonblock sys s value k of
             (None, k) \<Rightarrow> (True, None,
                if value then state OR user_set_non_blocking
                else state AND NOT (user_set_non_blocking OR internal_non_blocking), k)
           | (Some e, k) \<Rightarrow> (False, Some e, state, k))"

definition set_internal_non_blocking ::
  "('a, 'k) socket_sys \<Rightarrow> int \<Rightarrow> u8 \<Rightarrow> bool \<Rightarrow> 'k \<Rightarrow> bool \<times> error_code \<times> u8 \<times> 'k" where
  "set_internal_non_blocking sys s state value k =
     (if s = invalid_socket then (False, Some BadDescriptor, state, k)
      else if \<not> value \<and> state AND user_set_non_blocking \<noteq> 0 then (False, Some INVALID_ARGUMENT, state, k)
      else case sy_nonblock sys s value k of
             (None, k) \<Rightarrow> (True, None, if value then state OR internal_non_blocking else state AND NOT internal_non_blocking, k)
           | (Some e, k) \<Rightarrow> (False, Some e, state, k))"

text \<open>\<open>socket_ops::close\<close>; a close that would block is repeated in blocking mode.\<close>

definition socket_ops_close ::
  "('a, 'k) socket_sys \<Rightarrow> int \<Rightarrow> u8 \<Rightarrow> bool \<Rightarrow> 'k \<Rightarrow> error_code \<times> u8 \<times> 'k" where
  "socket_ops_close sys s state destruction k =
     (if s = invalid_socket then (None, state, k)
      else
        let k = (if destruction \<and> state AND user_set_linger \<noteq> 0 then sy_linger_off sys s k else k)
        in case sy_close sys s k of
             (None, k) \<Rightarrow> (None, state, k)
           | (Some e, k) \<Rightarrow>
               if would_block e
               then (case sy_nonblock sys s False k of
                       (_, k) \<Rightarrow> (case sy_close sys s k of (result, k) \<Rightarrow> (result, state AND NOT non_blocking, k)))
               else (Some e, state, k))"

text \<open>\<open>socket_ops::connect\<close> on the system call.\<close>

definition socket_ops_connect :: "('a, 'k) socket_sys \<Rightarrow> int \<Rightarrow> 'a \<Rightarrow> 'k \<Rightarrow> error_code \<times> 'k" where
  "socket_ops_connect sys s addr k =
     (if s = invalid_socket then (Some BadDescriptor, k)
      else case sy_connect sys s addr k of (answer, k) \<Rightarrow> (connect_call s answer, k))"

subsection \<open>Opening and closing\<close>

text \<open>The constructor leaves the pointer as it is.\<close>

definition construct :: "'p socket_impl \<Rightarrow> 'p socket_impl" where
  "construct impl = impl\<lparr>si_socket := invalid_socket, si_state := 0\<rparr>"

definition is_open :: "'p socket_impl \<Rightarrow> bool" where
  "is_open impl \<longleftrightarrow> si_socket impl \<noteq> invalid_socket"

definition base_move_construct :: "'p socket_impl \<Rightarrow> 'p socket_impl \<Rightarrow> 'p socket_impl \<times> 'p socket_impl" where
  "base_move_construct impl other =
     (case move_descriptor (si_data impl) (si_data other) of
        (data, other_data) \<Rightarrow>
          (\<lparr>si_socket = si_socket other, si_state = si_state other, si_data = data\<rparr>,
           \<lparr>si_socket = invalid_socket, si_state = 0, si_data = other_data\<rparr>))"

definition destroy ::
  "('p, 'f, 'k) epoll_env \<Rightarrow> ('a, 'k) socket_sys \<Rightarrow> 'p socket_impl \<Rightarrow> ('p, 'f, 'q, 'tm, 't, 'h) reactor \<Rightarrow> 'k
    \<Rightarrow> 'p socket_impl \<times> ('p, 'f, 'q, 'tm, 't, 'h) reactor \<times> 'k \<times> 'f io_call list" where
  "destroy env sys impl st k =
     (if si_socket impl \<noteq> invalid_socket
      then (case deregister_descriptor env (si_socket impl) (si_data impl) (si_state impl AND possible_dup = 0) st k of
              (data, st, k, calls) \<Rightarrow>
                (case socket_ops_close sys (si_socket impl) (si_state impl) True k of
                   (_, state, k) \<Rightarrow> (impl\<lparr>si_state := state, si_data := data\<rparr>, st, k, calls)))
      else (impl, st, k, []))"

definition service_close ::
  "('p, 'f, 'k) epoll_env \<Rightarrow> ('a, 'k) socket_sys \<Rightarrow> 'p socket_impl \<Rightarrow> ('p, 'f, 'q, 'tm, 't, 'h) reactor \<Rightarrow> 'k
    \<Rightarrow> error_code \<times> 'p socket_impl \<times> ('p, 'f, 'q, 'tm, 't, 'h) reactor \<times> 'k \<times> 'f io_call list" where
  "service_close env sys impl st k =
     (case (if is_open impl
            then deregister_descriptor env (si_socket impl) (si_data impl) (si_state impl AND possible_dup = 0) st k
            else (si_data impl, st, k, [])) of
        (data, st, k, calls) \<Rightarrow>
          (case socket_ops_close sys (si_socket impl) (si_state impl) False k of
             (ec, state, k) \<Rightarrow> (ec, construct (impl\<lparr>si_state := state, si_data := data\<rparr>), st, k, calls)))"

definition base_move_assign ::
  "('p, 'f, 'k) epoll_env \<Rightarrow> ('a, 'k) socket_sys \<Rightarrow> 'p socket_impl \<Rightarrow> 'p socket_impl
    \<Rightarrow> ('p, 'f, 'q, 'tm, 't, 'h) reactor \<Rightarrow> 'k
    \<Rightarrow> 'p socket_impl \<times> 'p socket_impl \<times> ('p, 'f, 'q, 'tm, 't, 'h) reactor \<times> 'k \<times> 'f io_call list" where
  "base_move_assign env sys impl other st k =
     (case destroy env sys impl st k of
        (impl, st, k, calls) \<Rightarrow>
          (case move_descriptor (si_data impl) (si_data other) of
             (data, other_data) \<Rightarrow>
               (\<lparr>si_socket = si_socket other, si_state = si_state other, si_data = data\<rparr>,
                \<lparr>si_socket = invalid_socket, si_state = 0, si_data = other_data\<rparr>, st, k, calls)))"

definition service_cancel ::
  "'p socket_impl \<Rightarrow> ('p, 'f, 'q, 'tm, 't, 'h) reactor
    \<Rightarrow> error_code \<times> ('p, 'f, 'q, 'tm, 't, 'h) reactor \<times> 'f io_call list" where
  "service_cancel impl st =
     (if \<not> is_open impl then (Some BadDescriptor, st, [])
      else case cancel_ops (si_data impl) st of (st, calls) \<Rightarrow> (None, st, calls))"

definition SOCK_STREAM :: int where
  "SOCK_STREAM = 1"

definition SOCK_DGRAM :: int where
  "SOCK_DGRAM = 2"

definition type_state :: "int \<Rightarrow> u8" where
  "type_state ty = (if ty = SOCK_STREAM then stream_oriented else if ty = SOCK_DGRAM then datagram_oriented else 0)"

text \<open>When the reactor cannot register the descriptor, the holder closes it.\<close>

definition do_open ::
  "('p, 'f, 'k) epoll_env \<Rightarrow> ('a, 'k) socket_sys \<Rightarrow> 'p \<Rightarrow> int \<Rightarrow> int \<Rightarrow> int \<Rightarrow> 'p socket_impl
    \<Rightarrow> ('p, 'f, 'q, 'tm, 't, 'h) reactor \<Rightarrow> 'k
    \<Rightarrow> error_code \<times> 'p socket_impl \<times> ('p, 'f, 'q, 'tm, 't, 'h) reactor \<times> 'k" where
  "do_open env sys new_object af ty protocol impl st k =
     (if is_open impl then (Some AlreadyOpen, impl, st, k)
      else case sy_socket sys af ty protocol k of
             (Inl e, k) \<Rightarrow> (Some e, impl, st, k)
           | (Inr sock, k) \<Rightarrow>
               (case register_descriptor env new_object sock st k of
                  (Some err, data, st, k) \<Rightarrow>
                    (case socket_ops_close sys sock 0 True k of (_, _, k) \<Rightarrow> (Some err, impl\<lparr>si_data := data\<rparr>, st, k))
                | (None, data, st, k) \<Rightarrow> (None, \<lparr>si_socket = sock, si_state = type_state ty, si_data = data\<rparr>, st, k)))"

definition do_assign ::
  "('p, 'f, 'k) epoll_env \<Rightarrow> 'p \<Rightarrow> int \<Rightarrow> int \<Rightarrow> 'p socket_impl \<Rightarrow> ('p, 'f, 'q, 'tm, 't, 'h) reactor \<Rightarrow> 'k
    \<Rightarrow> error_code \<times> 'p socket_impl \<times> ('p, 'f, 'q, 'tm, 't, 'h) reactor \<times> 'k" where
  "do_assign env new_object ty native_socket impl st k =
     (if is_open impl then (Some AlreadyOpen, impl, st, k)
      else case register_descriptor env new_object native_socket st k of
             (Some err, data, st, k) \<Rightarrow> (Some err, impl\<lparr>si_data := data\<rparr>, st, k)
           | (None, data, st, k) \<Rightarrow>
               (None, \<lparr>si_socket = native_socket, si_state = type_state ty OR possible_dup, si_data = data\<rparr>, st, k))"

text \<open>\<open>non_blocking(mode)\<close> and \<open>native_non_blocking(mode)\<close>\<close>

definition set_non_blocking ::
  "('a, 'k) socket_sys \<Rightarrow> bool \<Rightarrow> 'p socket_impl \<Rightarrow> 'k \<Rightarrow> error_code \<times> 'p socket_impl \<times> 'k" where
  "set_non_blocking sys mode impl k =
     (case set_user_non_blocking sys (si_socket impl) (si_state impl) mode k of
        (_, ec, state, k) \<Rightarrow> (ec, impl\<lparr>si_state := state\<rparr>, k))"

definition set_native_non_blocking ::
  "('a, 'k) socket_sys \<Rightarrow> bool \<Rightarrow> 'p socket_impl \<Rightarrow> 'k \<Rightarrow> error_code \<times> 'p socket_impl \<times> 'k" where
  "set_native_non_blocking sys mode impl k =
     (case set_internal_non_blocking sys (si_socket impl) (si_state impl) mode k of
        (_, ec, state, k) \<Rightarrow> (ec, impl\<lparr>si_state := state\<rparr>, k))"

definition get_non_blocking :: "'p socket_impl \<Rightarrow> bool" where
  "get_non_blocking impl \<longleftrightarrow> si_state impl AND user_set_non_blocking \<noteq> 0"

definition get_native_non_blocking :: "'p socket_impl \<Rightarrow> bool" where
  "get_native_non_blocking impl \<longleftrightarrow> si_state impl AND internal_non_blocking \<noteq> 0"

subsection \<open>Starting operations\<close>

text \<open>
  The test with which every operation begins: whether the descriptor is in non-blocking mode now, the operation and the
  socket.
\<close>

definition ensure_non_blocking ::
  "('a, 'k) socket_sys \<Rightarrow> 'p socket_impl \<Rightarrow> 'f reactor_op \<Rightarrow> 'k \<Rightarrow> bool \<times> 'f reactor_op \<times> 'p socket_impl \<times> 'k" where
  "ensure_non_blocking sys impl op k =
     (if si_state impl AND non_blocking \<noteq> 0 then (True, op, impl, k)
      else case set_internal_non_blocking sys (si_socket impl) (si_state impl) True k of
             (result, ec, state, k) \<Rightarrow> (result, op\<lparr>ro_ec := ec\<rparr>, impl\<lparr>si_state := state\<rparr>, k))"

definition service_start_op ::
  "('p, 'f, 'k) epoll_env \<Rightarrow> ('a, 'k) socket_sys \<Rightarrow> 'p socket_impl \<Rightarrow> op_type \<Rightarrow> 'f reactor_op \<Rightarrow> bool \<Rightarrow> bool \<Rightarrow> bool
    \<Rightarrow> ('p, 'f, 'q, 'tm, 't, 'h) reactor \<Rightarrow> 'k
    \<Rightarrow> 'p socket_impl \<times> ('p, 'f, 'q, 'tm, 't, 'h) reactor \<times> 'k \<times> 'f io_call list" where
  "service_start_op env sys impl ty op is_continuation is_non_blocking noop st k =
     (if noop then (impl, st, k, [Post_immediate op is_continuation])
      else case ensure_non_blocking sys impl op k of
             (True, op, impl, k) \<Rightarrow>
               (case start_op env ty (si_socket impl) (si_data impl) op is_continuation is_non_blocking st k of
                  (st, k, calls) \<Rightarrow> (impl, st, k, calls))
           | (False, op, impl, k) \<Rightarrow> (impl, st, k, [Post_immediate op is_continuation]))"

text \<open>
  The constant and \<open>is_continuation\<close> are passed as the source has them: to the parameters \<open>is_continuation\<close> and
  \<open>is_non_blocking\<close> of \<open>start_op\<close>.
\<close>

definition start_accept_op ::
  "('p, 'f, 'k) epoll_env \<Rightarrow> ('a, 'k) socket_sys \<Rightarrow> 'p socket_impl \<Rightarrow> 'f reactor_op \<Rightarrow> bool \<Rightarrow> bool
    \<Rightarrow> ('p, 'f, 'q, 'tm, 't, 'h) reactor \<Rightarrow> 'k
    \<Rightarrow> 'p socket_impl \<times> ('p, 'f, 'q, 'tm, 't, 'h) reactor \<times> 'k \<times> 'f io_call list" where
  "start_accept_op env sys impl op is_continuation peer_is_open st k =
     (if \<not> peer_is_open then service_start_op env sys impl Read_op op True is_continuation False st k
      else (impl, st, k, [Post_immediate (op\<lparr>ro_ec := Some AlreadyOpen\<rparr>) is_continuation]))"

definition start_connect_op ::
  "('p, 'f, 'k) epoll_env \<Rightarrow> ('a, 'k) socket_sys \<Rightarrow> 'p socket_impl \<Rightarrow> 'f reactor_op \<Rightarrow> bool \<Rightarrow> 'a
    \<Rightarrow> ('p, 'f, 'q, 'tm, 't, 'h) reactor \<Rightarrow> 'k
    \<Rightarrow> 'p socket_impl \<times> ('p, 'f, 'q, 'tm, 't, 'h) reactor \<times> 'k \<times> 'f io_call list" where
  "start_connect_op env sys impl op is_continuation addr st k =
     (case ensure_non_blocking sys impl op k of
        (True, op, impl, k) \<Rightarrow>
          (case socket_ops_connect sys (si_socket impl) addr k of
             (None, k) \<Rightarrow> (impl, st, k, [Post_immediate (op\<lparr>ro_ec := None\<rparr>) is_continuation])
           | (Some e, k) \<Rightarrow>
               if e = InProgress \<or> e = WouldBlock
               then (case start_op env Connect_op (si_socket impl) (si_data impl) (op\<lparr>ro_ec := None\<rparr>) is_continuation False st k of
                       (st, k, calls) \<Rightarrow> (impl, st, k, calls))
               else (impl, st, k, [Post_immediate (op\<lparr>ro_ec := Some e\<rparr>) is_continuation]))
      | (False, op, impl, k) \<Rightarrow> (impl, st, k, [Post_immediate op is_continuation]))"

text \<open>
  The operations of a stream socket. The buffers are given by the bytes they hold or by their size, as the adapter passes
  them on; \<open>all_empty\<close> is that there are none.
\<close>

definition async_send ::
  "('p, 'h socket_func, 'k) epoll_env \<Rightarrow> ('a, 'k) socket_sys \<Rightarrow> 'p socket_impl \<Rightarrow> string \<Rightarrow> 'h \<Rightarrow> bool
    \<Rightarrow> ('p, 'h socket_func, 'q, 'tm, 't, 'w) reactor \<Rightarrow> 'k
    \<Rightarrow> 'p socket_impl \<times> ('p, 'h socket_func, 'q, 'tm, 't, 'w) reactor \<times> 'k \<times> 'h socket_func io_call list" where
  "async_send env sys impl bs h is_continuation st k =
     service_start_op env sys impl Write_op (new_reactor_op (Send_func bs h)) is_continuation True
       (si_state impl AND stream_oriented \<noteq> 0 \<and> bs = []) st k"

definition async_send_null ::
  "('p, 'h socket_func, 'k) epoll_env \<Rightarrow> ('a, 'k) socket_sys \<Rightarrow> 'p socket_impl \<Rightarrow> 'h \<Rightarrow> bool
    \<Rightarrow> ('p, 'h socket_func, 'q, 'tm, 't, 'w) reactor \<Rightarrow> 'k
    \<Rightarrow> 'p socket_impl \<times> ('p, 'h socket_func, 'q, 'tm, 't, 'w) reactor \<times> 'k \<times> 'h socket_func io_call list" where
  "async_send_null env sys impl h is_continuation st k =
     service_start_op env sys impl Write_op (new_reactor_op (Null_func Write_op h)) is_continuation False False st k"

definition async_receive ::
  "('p, 'h socket_func, 'k) epoll_env \<Rightarrow> ('a, 'k) socket_sys \<Rightarrow> 'p socket_impl \<Rightarrow> nat \<Rightarrow> bool \<Rightarrow> 'h \<Rightarrow> bool
    \<Rightarrow> ('p, 'h socket_func, 'q, 'tm, 't, 'w) reactor \<Rightarrow> 'k
    \<Rightarrow> 'p socket_impl \<times> ('p, 'h socket_func, 'q, 'tm, 't, 'w) reactor \<times> 'k \<times> 'h socket_func io_call list" where
  "async_receive env sys impl n out_of_band h is_continuation st k =
     service_start_op env sys impl (if out_of_band then Except_op else Read_op)
       (new_reactor_op (Recv_func (si_state impl AND stream_oriented \<noteq> 0) out_of_band n h)) is_continuation
       (\<not> out_of_band) (si_state impl AND stream_oriented \<noteq> 0 \<and> n = 0) st k"

definition async_receive_null ::
  "('p, 'h socket_func, 'k) epoll_env \<Rightarrow> ('a, 'k) socket_sys \<Rightarrow> 'p socket_impl \<Rightarrow> bool \<Rightarrow> 'h \<Rightarrow> bool
    \<Rightarrow> ('p, 'h socket_func, 'q, 'tm, 't, 'w) reactor \<Rightarrow> 'k
    \<Rightarrow> 'p socket_impl \<times> ('p, 'h socket_func, 'q, 'tm, 't, 'w) reactor \<times> 'k \<times> 'h socket_func io_call list" where
  "async_receive_null env sys impl out_of_band h is_continuation st k =
     (let ty = (if out_of_band then Except_op else Read_op)
      in service_start_op env sys impl ty (new_reactor_op (Null_func ty h)) is_continuation False False st k)"

definition service_async_connect ::
  "('p, 'h socket_func, 'k) epoll_env \<Rightarrow> ('a, 'k) socket_sys \<Rightarrow> 'p socket_impl \<Rightarrow> 'a \<Rightarrow> 'h \<Rightarrow> bool
    \<Rightarrow> ('p, 'h socket_func, 'q, 'tm, 't, 'w) reactor \<Rightarrow> 'k
    \<Rightarrow> 'p socket_impl \<times> ('p, 'h socket_func, 'q, 'tm, 't, 'w) reactor \<times> 'k \<times> 'h socket_func io_call list" where
  "service_async_connect env sys impl peer_endpoint h is_continuation st k =
     start_connect_op env sys impl (new_reactor_op (Connect_func h)) is_continuation peer_endpoint st k"

end
