(* ===== verification/Asio_Sockets.thy ===== *)
theory Asio_Sockets
  imports Asio_Socket_Service
begin

text \<open>
  Any number of sockets (\<open>Asio_Socket_Service\<close>) over one reactor: the calls of the program and of the event loop are the steps of a
  relation. What the program does with one socket never reaches the operations of another, and no operation is left
  with the reactor on a descriptor in blocking mode unless the program switches the mode itself.
\<close>

subsection \<open>Runs\<close>

text \<open>
  What the system calls do to the modes of the descriptors, \<open>nb\<close>: \<open>ioctl\<close> sets that of its descriptor, a new and a closed
  descriptor may have any, the other calls leave them alone.
\<close>

definition keeps_modes :: "('p, 'f, 'k) epoll_env \<Rightarrow> ('a, 'k) socket_sys \<Rightarrow> (int \<Rightarrow> 'k \<Rightarrow> bool) \<Rightarrow> bool" where
  "keeps_modes env sys nb \<longleftrightarrow>
     (\<forall>c fd ev d k x. nb x (snd (re_ctl env c fd ev d k)) = nb x k)
     \<and> (\<forall>op k x. nb x (snd (snd (re_perform env op k))) = nb x k)
     \<and> (\<forall>fd v k x. nb x (snd (sy_nonblock sys fd v k)) =
          (if x = fd \<and> fst (sy_nonblock sys fd v k) = None then v else nb x k))
     \<and> (\<forall>fd k x. x \<noteq> fd \<longrightarrow> nb x (snd (sy_close sys fd k)) = nb x k)
     \<and> (\<forall>fd k x. nb x (sy_linger_off sys fd k) = nb x k)
     \<and> (\<forall>fd a k x. nb x (snd (sy_connect sys fd a k)) = nb x k)
     \<and> (\<forall>af ty pr k x. fst (sy_socket sys af ty pr k) \<noteq> Inr x \<longrightarrow> nb x (snd (sy_socket sys af ty pr k)) = nb x k)"

type_synonym ('s, 'p, 'f, 'q, 'tm, 't, 'h, 'k) sockets =
  "('s \<Rightarrow> 'p socket_impl) \<times> ('p, 'f, 'q, 'tm, 't, 'h) reactor \<times> 'k"

text \<open>
  The sockets are those the program has, in any order of calls. A descriptor that is new is not that of an open
  socket. With \<open>clears\<close> the program may switch the mode of a socket back to blocking.
\<close>

inductive sv_step ::
  "('p, 'f, 'k) epoll_env \<Rightarrow> ('a, 'k) socket_sys \<Rightarrow> (int \<Rightarrow> 'k \<Rightarrow> bool) \<Rightarrow> bool
    \<Rightarrow> ('s, 'p, 'f, 'q, 'tm, 't, 'h, 'k) sockets \<Rightarrow> ('s, 'p, 'f, 'q, 'tm, 't, 'h, 'k) sockets \<Rightarrow> bool"
  for env sys nb clears where
  sv_kernel: "\<forall>x. nb x k' = nb x k \<Longrightarrow>
    sv_step env sys nb clears (I, st, k) (I, st\<lparr>rx_timers := T, rx_timer_set := S\<rparr>, k')"
| sv_open: "pool_holds (rx_pool st) live free \<Longrightarrow> n \<notin> set (live @ free) \<Longrightarrow>
    \<forall>sock k1. sy_socket sys af ty pr k = (Inr sock, k1) \<longrightarrow> sock \<noteq> invalid_socket \<and> (\<forall>t. si_socket (I t) \<noteq> sock) \<Longrightarrow>
    do_open env sys n af ty pr (I s) st k = (ec, i, st', k') \<Longrightarrow> sv_step env sys nb clears (I, st, k) (I(s := i), st', k')"
| sv_assign: "pool_holds (rx_pool st) live free \<Longrightarrow> n \<notin> set (live @ free) \<Longrightarrow>
    sock \<noteq> invalid_socket \<Longrightarrow> \<forall>t. si_socket (I t) \<noteq> sock \<Longrightarrow>
    do_assign env n ty sock (I s) st k = (ec, i, st', k') \<Longrightarrow> sv_step env sys nb clears (I, st, k) (I(s := i), st', k')"
| sv_close: "service_close env sys (I s) st k = (ec, i, st', k', calls) \<Longrightarrow>
    sv_step env sys nb clears (I, st, k) (I(s := i), st', k')"
| sv_destroy: "destroy env sys (I s) st k = (i, st', k', calls) \<Longrightarrow>
    sv_step env sys nb clears (I, st, k) (I(s := construct i), st', k')"
| sv_move_construct: "s \<noteq> t \<Longrightarrow> \<not> is_open (I s) \<Longrightarrow> base_move_construct (I s) (I t) = (i, j) \<Longrightarrow>
    sv_step env sys nb clears (I, st, k) (I(s := i, t := j), st, k)"
| sv_move_assign: "s \<noteq> t \<Longrightarrow> base_move_assign env sys (I s) (I t) st k = (i, j, st', k', calls) \<Longrightarrow>
    sv_step env sys nb clears (I, st, k) (I(s := i, t := j), st', k')"
| sv_cancel: "service_cancel (I s) st = (ec, st', calls) \<Longrightarrow> sv_step env sys nb clears (I, st, k) (I, st', k)"
| sv_start: "service_start_op env sys (I s) ty op c nbk noop st k = (i, st', k', calls) \<Longrightarrow>
    sv_step env sys nb clears (I, st, k) (I(s := i), st', k')"
| sv_accept: "start_accept_op env sys (I s) op c peer_open st k = (i, st', k', calls) \<Longrightarrow>
    sv_step env sys nb clears (I, st, k) (I(s := i), st', k')"
| sv_connect: "start_connect_op env sys (I s) op c addr st k = (i, st', k', calls) \<Longrightarrow>
    sv_step env sys nb clears (I, st, k) (I(s := i), st', k')"
| sv_complete: "complete_descriptor env p events st k = (first_op, st', k', calls) \<Longrightarrow>
    sv_step env sys nb clears (I, st, k) (I, st', k')"
| sv_mode: "mode \<or> clears \<Longrightarrow> set_non_blocking sys mode (I s) k = (ec, i, k') \<Longrightarrow>
    sv_step env sys nb clears (I, st, k) (I(s := i), st, k')"
| sv_native: "mode \<or> clears \<Longrightarrow> set_native_non_blocking sys mode (I s) k = (ec, i, k') \<Longrightarrow>
    sv_step env sys nb clears (I, st, k) (I(s := i), st, k')"

inductive sv_reachable ::
  "('p, 'f, 'k) epoll_env \<Rightarrow> ('a, 'k) socket_sys \<Rightarrow> (int \<Rightarrow> 'k \<Rightarrow> bool) \<Rightarrow> bool
    \<Rightarrow> ('s, 'p, 'f, 'q, 'tm, 't, 'h, 'k) sockets \<Rightarrow> ('s, 'p, 'f, 'q, 'tm, 't, 'h, 'k) sockets \<Rightarrow> bool"
  for env sys nb clears s0 where
  sv_initial: "sv_reachable env sys nb clears s0 s0"
| sv_next: "sv_reachable env sys nb clears s0 s \<Longrightarrow> sv_step env sys nb clears s s' \<Longrightarrow> sv_reachable env sys nb clears s0 s'"

subsection \<open>Every open socket has a state of its own\<close>

definition waiting_in :: "('p, 'f, 'q, 'tm, 't, 'h) reactor \<Rightarrow> 'p \<Rightarrow> bool" where
  "waiting_in st p \<longleftrightarrow> ds_queue (rx_states st p) \<noteq> (\<lambda>_. [])"

definition socket_ok ::
  "(int \<Rightarrow> 'k \<Rightarrow> bool) \<Rightarrow> bool \<Rightarrow> ('p, 'f, 'q, 'tm, 't, 'h) reactor \<Rightarrow> 'p list \<Rightarrow> 'k \<Rightarrow> 'p socket_impl \<Rightarrow> bool" where
  "socket_ok nb clears st live k i \<longleftrightarrow>
     (if is_open i
      then \<exists>p. si_data i = Some p \<and> p \<in> set live \<and> ds_descriptor (rx_states st p) = si_socket i
        \<and> (si_state i AND non_blocking \<noteq> 0 \<longrightarrow> nb (si_socket i) k)
        \<and> (\<not> clears \<and> waiting_in st p \<longrightarrow> si_state i AND non_blocking \<noteq> 0)
      else si_state i = 0)"

definition apart :: "'p socket_impl \<Rightarrow> 'p socket_impl \<Rightarrow> bool" where
  "apart i j \<longleftrightarrow> (is_open i \<and> is_open j \<longrightarrow> si_data i \<noteq> si_data j \<and> si_socket i \<noteq> si_socket j)"

definition sv_ok ::
  "(int \<Rightarrow> 'k \<Rightarrow> bool) \<Rightarrow> bool \<Rightarrow> ('s, 'p, 'f, 'q, 'tm, 't, 'h, 'k) sockets \<Rightarrow> 'p list \<Rightarrow> 'p list \<Rightarrow> bool" where
  "sv_ok nb clears c live free \<longleftrightarrow>
     (case c of (I, st, k) \<Rightarrow> states_ok st live free
        \<and> (\<forall>s. socket_ok nb clears st live k (I s)) \<and> (\<forall>s t. s \<noteq> t \<longrightarrow> apart (I s) (I t)))"

lemma apart_sym: "apart i j = apart j i"
  by (auto simp: apart_def)

lemma not_open_apart [simp]: "\<not> is_open i \<Longrightarrow> apart i j" "\<not> is_open i \<Longrightarrow> apart j i"
  by (simp_all add: apart_def)

text \<open>Another socket than the one that changed, \<open>i\<close>, keeps its state and its mode.\<close>

lemma other_ok:
  assumes "socket_ok nb clears st live k j" and "apart i j"
    and "\<And>p. p \<in> set live \<Longrightarrow> is_open i \<and> si_data i = Some p \<or> p \<in> set live' \<and> rx_states st' p = rx_states st p"
    and "\<And>x. is_open i \<and> x = si_socket i \<or> x = sock \<or> nb x k' = nb x k"
    and "is_open j \<Longrightarrow> si_socket j \<noteq> sock"
  shows "socket_ok nb clears st' live' k' j"
proof (cases "is_open j")
  case True
  then obtain p where p: "si_data j = Some p" "p \<in> set live" "ds_descriptor (rx_states st p) = si_socket j"
      "si_state j AND non_blocking \<noteq> 0 \<longrightarrow> nb (si_socket j) k" "\<not> clears \<and> waiting_in st p \<longrightarrow> si_state j AND non_blocking \<noteq> 0"
    using assms(1) by (auto simp: socket_ok_def)
  have "p \<in> set live' \<and> rx_states st' p = rx_states st p" "nb (si_socket j) k' = nb (si_socket j) k"
    using assms(2,5) assms(3) [OF p(2)] assms(4) [of "si_socket j"] p(1) True by (auto simp: apart_def)
  then show ?thesis using True p by (simp add: socket_ok_def waiting_in_def)
qed (use assms(1) in \<open>simp add: socket_ok_def\<close>)

lemma sv_update:
  assumes "sv_ok nb clears (I, st, k) live free" and "states_ok st' live' free'"
    and "\<And>p. p \<in> set live \<Longrightarrow> is_open (I s) \<and> si_data (I s) = Some p \<or> p \<in> set live' \<and> rx_states st' p = rx_states st p"
    and "\<And>x. is_open (I s) \<and> x = si_socket (I s) \<or> x = sock \<or> nb x k' = nb x k"
    and "\<And>t. is_open (I t) \<Longrightarrow> t \<noteq> s \<Longrightarrow> si_socket (I t) \<noteq> sock"
    and "socket_ok nb clears st' live' k' i" and "\<And>t. t \<noteq> s \<Longrightarrow> apart i (I t)"
  shows "sv_ok nb clears (I(s := i), st', k') live' free'"
proof -
  have "socket_ok nb clears st' live' k' (I t)" if "t \<noteq> s" for t
    using assms(1) that by (intro other_ok [OF _ _ assms(3,4) assms(5)]) (auto simp: sv_ok_def)
  then show ?thesis using assms(1,2,6,7) by (auto simp: sv_ok_def apart_sym)
qed


subsection \<open>What the calls keep\<close>

lemma keeps_modesD:
  assumes "keeps_modes env sys nb"
  shows "re_ctl env c fd ev d k = (r, k') \<Longrightarrow> nb x k' = nb x k"
    and "re_perform env op k = (b, op', k') \<Longrightarrow> nb x k' = nb x k"
    and "sy_nonblock sys fd v k = (e, k') \<Longrightarrow> nb x k' = (if x = fd \<and> e = None then v else nb x k)"
    and "sy_close sys fd k = (e, k') \<Longrightarrow> x \<noteq> fd \<Longrightarrow> nb x k' = nb x k"
    and "nb x (sy_linger_off sys fd k) = nb x k"
    and "sy_connect sys fd a k = (e, k') \<Longrightarrow> nb x k' = nb x k"
    and "sy_socket sys af ty pr k = (z, k') \<Longrightarrow> z \<noteq> Inr x \<Longrightarrow> nb x k' = nb x k"
  using assms unfolding keeps_modes_def by (metis fst_conv snd_conv)+

lemma start_frame:
  assumes "keeps_modes env sys nb" and "start_op_at env q ty fd op c s d k = (d', k', calls)"
  shows "ds_descriptor d' = ds_descriptor d \<and> nb x k' = nb x k"
  using assms(2)
  by (auto simp: start_op_at_def start_speculative_def enqueue_op_def rearm_def Let_def
      dest!: keeps_modesD(1,2) [OF assms(1), where x = x] split: if_splits prod.splits bool.splits option.splits)

lemma perform_queue_frame:
  "keeps_modes env sys nb \<Longrightarrow> perform_queue env q ops k = (q', ops', k') \<Longrightarrow> nb x k' = nb x k"
proof (induction q arbitrary: ops k)
  case (Cons op q)
  obtain b op1 k1 where r: "re_perform env op k = (b, op1, k1)" by (metis prod_cases3)
  then show ?case using Cons keeps_modesD(2) [OF Cons.prems(1) r, of x] by (cases b) auto
qed simp

lemma perform_frame:
  "keeps_modes env sys nb \<Longrightarrow> perform_queues env events js ops d k = (ops', d', k') \<Longrightarrow>
     ds_descriptor d' = ds_descriptor d \<and> nb x k' = nb x k"
proof (induction js arbitrary: ops d k)
  case (Cons j js)
  obtain q ops1 k1 where r: "perform_queue env (ds_queue d j) ops k = (q, ops1, k1)" by (metis prod_cases3)
  show ?case
    using Cons.IH [of ops1 "d\<lparr>ds_queue := (ds_queue d)(j := q)\<rparr>" k1] Cons.IH [of ops d k] Cons.prems r
      perform_queue_frame [OF Cons.prems(1) r, of x] by (auto split: if_splits)
qed simp

text \<open>Deregistering the state of an open socket, and closing its descriptor.\<close>

definition aborted :: "'f reactor_op list \<Rightarrow> 'f reactor_op list" where
  "aborted = map (\<lambda>op. op\<lparr>ro_ec := Some OperationAborted\<rparr>)"

lemma deregister_live:
  assumes ok: "states_ok st live free" and p: "p \<in> set live" and m: "keeps_modes env sys nb"
  shows "\<exists>st' k'. deregister_descriptor env fd (Some p) closing st k = (None, st', k', [Post_deferred (aborted (queued_ops (rx_states st p)))])
    \<and> states_ok st' (remove1 p live) (p # free) \<and> (\<forall>x. x \<noteq> p \<longrightarrow> rx_states st' x = rx_states st x)
    \<and> (\<forall>x. nb x k' = nb x k)"
proof -
  obtain d ops where c: "close_at (rx_states st p) = (d, ops)" by fastforce
  then have d: "ds_shutdown d" "ds_queue d = (\<lambda>_. [])" "ops = aborted (queued_ops (rx_states st p))"
    by (auto simp: close_at_def cancel_all cancel_queue_map aborted_def queued_ops_def simp del: cancel_queues.simps)
  let ?st = "free_descriptor_state p (on_state p (\<lambda>_. d) st)"
  let ?k = "if closing then k else snd (re_ctl env Ctl_del fd 0 (Descriptor_data p) k)"
  have "\<not> ds_shutdown (rx_states st p)" using ok p by (simp add: states_ok_def)
  then have "deregister_descriptor env fd (Some p) closing st k = (None, ?st, ?k, [Post_deferred ops])"
    using c by (simp add: deregister_descriptor_def)
  moreover have "nb x ?k = nb x k" for x using m by (simp add: keeps_modes_def)
  moreover have "states_ok ?st (remove1 p live) (p # free)" by (rule give_ok [OF ok p d(1,2)])
  ultimately show ?thesis using d(3) by (auto simp: free_descriptor_state_def)
qed

lemma close_frame:
  assumes "keeps_modes env sys nb" and "socket_ops_close sys s state destruction k = (ec, state', k')" and "x \<noteq> s"
  shows "nb x k' = nb x k"
proof -
  note m = keeps_modesD [OF assms(1)]
  obtain e1 k1 where 1: "sy_close sys s (if destruction \<and> state AND user_set_linger \<noteq> 0 then sy_linger_off sys s k else k) = (e1, k1)"
    by fastforce
  obtain e2 k2 where 2: "sy_nonblock sys s False k1 = (e2, k2)" by fastforce
  obtain e3 k3 where 3: "sy_close sys s k2 = (e3, k3)" by fastforce
  have "nb x k1 = nb x k" "nb x k2 = nb x k1" "nb x k3 = nb x k2"
    using m(4) [OF 1 assms(3)] m(5) m(3) [OF 2, of x] m(4) [OF 3 assms(3)] assms(3) by (auto split: if_splits)
  then show ?thesis using assms(2) 1 2 3 by (auto simp: socket_ops_close_def Let_def split: if_splits option.splits)
qed

lemma close_closed [simp]: "socket_ops_close sys invalid_socket state destruction k = (None, state, k)"
  by (simp add: socket_ops_close_def)


subsection \<open>Operations on one socket\<close>

lemma mode_bits:
  "(x OR user_set_non_blocking) AND non_blocking \<noteq> 0" "(x OR internal_non_blocking) AND non_blocking \<noteq> 0"
  "(x AND NOT (user_set_non_blocking OR internal_non_blocking)) AND non_blocking = 0"
  "x AND user_set_non_blocking = 0 \<Longrightarrow> (x AND NOT internal_non_blocking) AND non_blocking = 0"
proof -
  have b: "bit ((x OR user_set_non_blocking) AND non_blocking) 0" "bit ((x OR internal_non_blocking) AND non_blocking) 1"
    by (simp_all add: state_bits bit_simps)
  show "(x OR user_set_non_blocking) AND non_blocking \<noteq> 0" "(x OR internal_non_blocking) AND non_blocking \<noteq> 0"
    using b by (metis bit_0_eq bot_apply bot_bool_def)+
  show "(x AND NOT (user_set_non_blocking OR internal_non_blocking)) AND non_blocking = 0"
    by (rule bit_eqI) (auto simp: non_blocking_def bit_simps)
  assume "x AND user_set_non_blocking = 0"
  then show "(x AND NOT internal_non_blocking) AND non_blocking = 0"
    by (simp add: non_blocking_def bit.conj_disj_distrib and.assoc) (metis and.left_commute bit.conj_zero_right)
qed

lemma type_bits [simp]: "type_state ty AND non_blocking = 0" "(type_state ty OR possible_dup) AND non_blocking = 0"
  by (simp_all add: type_state_def state_bits)

definition mode_of :: "'p socket_impl \<Rightarrow> bool" where
  "mode_of i \<longleftrightarrow> si_state i AND non_blocking \<noteq> 0"

lemma socket_okI:
  "is_open i \<Longrightarrow> si_data i = Some p \<Longrightarrow> p \<in> set live \<Longrightarrow> ds_descriptor (rx_states st p) = si_socket i \<Longrightarrow>
     (mode_of i \<Longrightarrow> nb (si_socket i) k) \<Longrightarrow> (\<not> clears \<Longrightarrow> waiting_in st p \<Longrightarrow> mode_of i) \<Longrightarrow> socket_ok nb clears st live k i"
  by (auto simp: socket_ok_def mode_of_def)

lemma socket_okE:
  assumes "socket_ok nb clears st live k i"
  obtains "\<not> is_open i" "si_state i = 0"
  | p where "is_open i" "si_data i = Some p" "p \<in> set live" "ds_descriptor (rx_states st p) = si_socket i"
      "mode_of i \<Longrightarrow> nb (si_socket i) k" "\<not> clears \<Longrightarrow> waiting_in st p \<Longrightarrow> mode_of i"
  using assms by (auto simp: socket_ok_def mode_of_def split: if_splits)

lemma socket_ok_modes: "(\<And>x. nb x k' = nb x k) \<Longrightarrow> socket_ok nb clears st live k' i = socket_ok nb clears st live k i"
  by (simp add: socket_ok_def)

lemma ensure_ok:
  assumes m: "keeps_modes env sys nb" and i: "socket_ok nb clears st live k i" and e: "ensure_non_blocking sys i op k = (b, op', i', k')"
  shows "si_socket i' = si_socket i \<and> si_data i' = si_data i \<and> socket_ok nb clears st live k' i'
    \<and> (\<forall>x. x \<noteq> si_socket i \<longrightarrow> nb x k' = nb x k) \<and> (b \<longrightarrow> is_open i \<and> mode_of i')"
  using i
proof (cases rule: socket_okE)
  case 1
  then show ?thesis using e i by (auto simp: ensure_non_blocking_def set_internal_non_blocking_def is_open_def socket_ok_def)
next
  case (2 p)
  show ?thesis
  proof (cases "mode_of i")
    case True
    then show ?thesis using e i 2(1) by (simp add: ensure_non_blocking_def mode_of_def)
  next
    case False
    obtain ec k1 where r: "sy_nonblock sys (si_socket i) True k = (ec, k1)" by fastforce
    note nb = keeps_modesD(3) [OF m r]
    have i': "i' = (if ec = None then i\<lparr>si_state := si_state i OR internal_non_blocking\<rparr> else i)" "k' = k1" "b = (ec = None)"
      using False e r 2(1)
      by (auto simp: ensure_non_blocking_def set_internal_non_blocking_def is_open_def mode_of_def split: option.splits)
    have "ec = None \<Longrightarrow> mode_of i'" using i'(1) by (simp add: mode_of_def mode_bits)
    moreover have "socket_ok nb clears st live k1 i'"
      using 2 i'(1) nb False calculation by (intro socket_okI [of _ p]) (auto simp: is_open_def)
    ultimately show ?thesis using 2(1) i' nb by auto
  qed
qed

lemma start_op_ok:
  assumes m: "keeps_modes env sys nb" and ok: "states_ok st live free" and i: "socket_ok nb clears st live k i"
    and o: "is_open i" "mode_of i" and r: "start_op env ty (si_socket i) (si_data i) op c s st k = (st', k', calls)"
  shows "states_ok st' live free \<and> socket_ok nb clears st' live k' i
    \<and> (\<forall>x. si_data i \<noteq> Some x \<longrightarrow> rx_states st' x = rx_states st x) \<and> (\<forall>x. nb x k' = nb x k)"
proof -
  obtain p where p: "si_data i = Some p" "p \<in> set live" "ds_descriptor (rx_states st p) = si_socket i" "nb (si_socket i) k"
    using i o by (auto elim: socket_okE)
  obtain d k1 cs where s: "start_op_at env (Descriptor_data p) ty (si_socket i) op c s (rx_states st p) k = (d, k1, cs)"
    by (metis prod_cases3)
  have st': "st' = on_state p (\<lambda>_. d) st" "k' = k1" using r s p(1) by (simp_all add: start_op_def)
  have d: "ds_descriptor d = ds_descriptor (rx_states st p)" and k1: "\<And>x. nb x k1 = nb x k" using start_frame [OF m s] by simp_all
  have "states_ok st' live free" using start_ok [OF ok _ r [unfolded p(1)]] p(2) by simp
  moreover have "socket_ok nb clears st' live k' i" using o p st' d k1 by (intro socket_okI [OF o(1) p(1,2)]) simp_all
  ultimately show ?thesis using st' p(1) k1 by simp
qed

lemma sv_local:
  assumes ok: "sv_ok nb clears (I, st, k) live free" and st': "states_ok st' live free"
    and i: "si_socket i = si_socket (I s)" "si_data i = si_data (I s)" "socket_ok nb clears st' live k' i"
    and f: "\<forall>x. \<not> (is_open (I s) \<and> si_data (I s) = Some x) \<longrightarrow> rx_states st' x = rx_states st x"
    and nb: "\<forall>x. x \<noteq> si_socket (I s) \<longrightarrow> nb x k' = nb x k"
  shows "sv_ok nb clears (I(s := i), st', k') live free"
proof (rule sv_update [OF ok st', of s "si_socket (I s)"])
  fix t
  assume t: "t \<noteq> s"
  have "apart (I s) (I t)" using ok t by (simp add: sv_ok_def)
  then show "apart i (I t)" using i(1,2) by (simp add: apart_def is_open_def)
  show "si_socket (I t) \<noteq> si_socket (I s)" if "is_open (I t)" using \<open>apart (I s) (I t)\<close> that by (auto simp: apart_def is_open_def)
qed (use i f nb in auto)

lemma service_start_ok:
  assumes m: "keeps_modes env sys nb" and ok: "sv_ok nb clears (I, st, k) live free"
    and r: "service_start_op env sys (I s) ty op c nbk noop st k = (i, st', k', calls)"
  shows "sv_ok nb clears (I(s := i), st', k') live free"
proof (cases noop)
  case True
  then have "i = I s" "st' = st" "k' = k" using r by (simp_all add: service_start_op_def)
  then show ?thesis using ok by (simp add: fun_upd_idem)
next
  case False
  obtain b op1 i1 k1 where e: "ensure_non_blocking sys (I s) op k = (b, op1, i1, k1)" by (metis prod_cases4)
  have s: "states_ok st live free" "socket_ok nb clears st live k (I s)" using ok by (simp_all add: sv_ok_def)
  note en = ensure_ok [OF m s(2) e]
  show ?thesis
  proof (cases b)
    case True
    obtain st2 k2 cs where o: "start_op env ty (si_socket i1) (si_data i1) op1 c nbk st k1 = (st2, k2, cs)" by (metis prod_cases3)
    have oo: "is_open i1" "mode_of i1" using en True by (simp_all add: is_open_def)
    have "i = i1" "st' = st2" "k' = k2" using r e o False True by (simp_all add: service_start_op_def)
    then show ?thesis using start_op_ok [OF m s(1) _ oo o] en oo
      by (intro sv_local [OF ok]) (auto simp: is_open_def)
  next
    case b: False
    have "i = i1" "st' = st" "k' = k1" using r e False b by (simp_all add: service_start_op_def)
    then show ?thesis using en s by (intro sv_local [OF ok]) auto
  qed
qed


lemma accept_ok:
  assumes "keeps_modes env sys nb" and "sv_ok nb clears (I, st, k) live free"
    and "start_accept_op env sys (I s) op c peer_open st k = (i, st', k', calls)"
  shows "sv_ok nb clears (I(s := i), st', k') live free"
  using assms service_start_ok [OF assms(1,2)] by (cases peer_open) (auto simp: start_accept_op_def fun_upd_idem)

lemma connect_ok:
  assumes m: "keeps_modes env sys nb" and ok: "sv_ok nb clears (I, st, k) live free"
    and r: "start_connect_op env sys (I s) op c addr st k = (i, st', k', calls)"
  shows "sv_ok nb clears (I(s := i), st', k') live free"
proof -
  obtain b op1 i1 k1 where e: "ensure_non_blocking sys (I s) op k = (b, op1, i1, k1)" by (metis prod_cases4)
  have s: "states_ok st live free" "socket_ok nb clears st live k (I s)" using ok by (simp_all add: sv_ok_def)
  note en = ensure_ok [OF m s(2) e]
  show ?thesis
  proof (cases b)
    case True
    then have oo: "is_open i1" "mode_of i1" using en by (simp_all add: is_open_def)
    obtain a k2 where a: "sy_connect sys (si_socket i1) addr k1 = (a, k2)" by fastforce
    have nb: "nb x k2 = nb x k1" for x by (rule keeps_modesD(6) [OF m a])
    have i1: "socket_ok nb clears st live k2 i1" using en socket_ok_modes [of nb k2 k1] nb by blast
    have q: "socket_ops_connect sys (si_socket i1) addr k1 = (connect_call (si_socket i1) a, k2)"
      using a oo(1) by (simp add: socket_ops_connect_def is_open_def)
    obtain st2 k3 cs where o: "start_op env Connect_op (si_socket i1) (si_data i1) (op1\<lparr>ro_ec := None\<rparr>) c False st k2 = (st2, k3, cs)"
      by (metis prod_cases3)
    note so = start_op_ok [OF m s(1) i1 oo o]
    have "i = i1 \<and> (st' = st \<and> k' = k2 \<or> st' = st2 \<and> k' = k3)"
      using r e q o True by (auto simp: start_connect_op_def split: option.splits if_splits)
    then show ?thesis
    proof (elim conjE disjE)
      assume "i = i1" "st' = st" "k' = k2"
      then show ?thesis using en nb s i1 by (intro sv_local [OF ok]) auto
    next
      assume "i = i1" "st' = st2" "k' = k3"
      then show ?thesis using en nb so oo by (intro sv_local [OF ok]) (auto simp: is_open_def)
    qed
  next
    case False
    have "i = i1" "st' = st" "k' = k1" using r e False by (simp_all add: start_connect_op_def)
    then show ?thesis using en s by (intro sv_local [OF ok]) auto
  qed
qed

lemma service_cancel_ok:
  assumes ok: "sv_ok nb clears (I, st, k) live free" and r: "service_cancel (I s) st = (ec, st', calls)"
  shows "sv_ok nb clears (I, st', k) live free"
proof -
  have s: "states_ok st live free" "socket_ok nb clears st live k (I s)" using ok by (simp_all add: sv_ok_def)
  from s(2) show ?thesis
  proof (cases rule: socket_okE)
    case 1
    then show ?thesis using ok r by (simp add: service_cancel_def)
  next
    case (2 p)
    obtain calls' where c: "cancel_ops (Some p) st = (st', calls')" using r 2 by (auto simp: service_cancel_def split: prod.splits)
    then have st': "rx_states st' = (rx_states st)(p := (rx_states st p)\<lparr>ds_queue := \<lambda>_. []\<rparr>)"
      by (auto simp: cancel_ops_def cancel_ops_at_def cancel_all simp del: cancel_queues.simps)
    have "socket_ok nb clears st' live k (I s)" using 2 st' by (intro socket_okI [of _ p]) (simp_all add: waiting_in_def)
    then have "sv_ok nb clears (I(s := I s), st', k) live free"
      using 2 st' cancel_ok [OF s(1) c] by (intro sv_local [OF ok]) auto
    then show ?thesis by simp
  qed
qed

lemma complete_sv_ok:
  assumes m: "keeps_modes env sys nb" and ok: "sv_ok nb clears (I, st, k) live free"
    and r: "complete_descriptor env p events st k = (first_op, st', k', calls)"
  shows "sv_ok nb clears (I, st', k') live free"
proof -
  obtain ops d k1 where q: "perform_queues env events [Except_op, Write_op, Read_op] [] (rx_states st p) k = (ops, d, k1)"
    by (metis prod_cases3)
  have st': "st' = on_state p (\<lambda>_. d) st" "k' = k1"
    using r q by (auto simp: complete_descriptor_def do_complete_descriptor_def perform_io_def Let_def simp del: perform_queues.simps)
  have d: "ds_descriptor d = ds_descriptor (rx_states st p)" and nb: "\<And>x. nb x k' = nb x k"
    using perform_frame [OF m q] st'(2) by simp_all
  have w: "waiting_in st' x \<Longrightarrow> waiting_in st x" for x
    using q st' perform_queues_idle [of "rx_states st p" env events "[Except_op, Write_op, Read_op]" "[]" k]
    by (cases "x = p") (auto simp: waiting_in_def simp del: perform_queues.simps)
  have "socket_ok nb clears st' live k' (I t)" for t
  proof -
    have "socket_ok nb clears st live k (I t)" using ok by (simp add: sv_ok_def)
    then show ?thesis using nb st' d w by (cases rule: socket_okE) (auto simp: socket_ok_def mode_of_def)
  qed
  moreover have "states_ok st' live free" using ok r complete_ok by (fastforce simp: sv_ok_def)
  ultimately show ?thesis using ok by (simp add: sv_ok_def)
qed

text \<open>Switching the mode.\<close>

lemma mode_change_ok:
  assumes ok: "sv_ok nb clears (I, st, k) live free" and c: "mode \<or> clears"
    and i: "i = (I s)\<lparr>si_state := state\<rparr>" and nb: "\<forall>x. x \<noteq> si_socket (I s) \<longrightarrow> nb x k' = nb x k"
    and same: "(\<forall>x. nb x k' = nb x k) \<and> state = si_state (I s)
      \<or> is_open (I s) \<and> nb (si_socket (I s)) k' = mode \<and> (state AND non_blocking \<noteq> 0 \<longleftrightarrow> mode)"
  shows "sv_ok nb clears (I(s := i), st, k') live free"
proof -
  have s: "states_ok st live free" "socket_ok nb clears st live k (I s)" using ok by (simp_all add: sv_ok_def)
  from s(2) have "socket_ok nb clears st live k' i"
  proof (cases rule: socket_okE)
    case 1
    then show ?thesis using i same by (auto simp: socket_ok_def is_open_def)
  next
    case (2 p)
    then show ?thesis using i same c by (intro socket_okI [of _ p]) (auto simp: is_open_def mode_of_def)
  qed
  then show ?thesis using i s(1) nb by (intro sv_local [OF ok]) auto
qed

lemma set_mode_ok:
  assumes m: "keeps_modes env sys nb" and ok: "sv_ok nb clears (I, st, k) live free" and c: "mode \<or> clears"
  shows "set_non_blocking sys mode (I s) k = (ec, i, k') \<Longrightarrow> sv_ok nb clears (I(s := i), st, k') live free"
    and "set_native_non_blocking sys mode (I s) k = (ec, i, k') \<Longrightarrow> sv_ok nb clears (I(s := i), st, k') live free"
proof -
  obtain e k1 where r: "sy_nonblock sys (si_socket (I s)) mode k = (e, k1)" by fastforce
  note nb = keeps_modesD(3) [OF m r]
  { assume a: "set_non_blocking sys mode (I s) k = (ec, i, k')"
    obtain b ec1 state k2 where u: "set_user_non_blocking sys (si_socket (I s)) (si_state (I s)) mode k = (b, ec1, state, k2)"
      by (metis prod_cases4)
    have "i = (I s)\<lparr>si_state := state\<rparr>" "k' = k2" using a u by (simp_all add: set_non_blocking_def)
    then show "sv_ok nb clears (I(s := i), st, k') live free"
      using u r nb by (intro mode_change_ok [OF ok c])
        (auto simp: set_user_non_blocking_def is_open_def mode_bits simp del: bit.de_Morgan_disj split: if_splits option.splits) }
  { assume a: "set_native_non_blocking sys mode (I s) k = (ec, i, k')"
    obtain b ec1 state k2 where u: "set_internal_non_blocking sys (si_socket (I s)) (si_state (I s)) mode k = (b, ec1, state, k2)"
      by (metis prod_cases4)
    have "i = (I s)\<lparr>si_state := state\<rparr>" "k' = k2" using a u by (simp_all add: set_native_non_blocking_def)
    then show "sv_ok nb clears (I(s := i), st, k') live free"
      using u r nb by (intro mode_change_ok [OF ok c])
        (auto simp: set_internal_non_blocking_def is_open_def mode_bits simp del: bit.de_Morgan_disj split: if_splits option.splits) }
qed


subsection \<open>Opening, closing and moving\<close>

lemma register_ok:
  assumes ok: "states_ok st live free" and n: "n \<notin> set (live @ free)" and m: "keeps_modes env sys nb"
    and r: "register_descriptor env n fd st k = (ec, ptr, st', k')"
  shows "\<exists>p. ptr = Some p \<and> p \<notin> set live \<and> states_ok st' (p # live) (remove1 p free)
    \<and> \<not> waiting_in st' p \<and> ds_descriptor (rx_states st' p) = fd
    \<and> (\<forall>x \<in> set live. rx_states st' x = rx_states st x) \<and> (\<forall>x. nb x k' = nb x k)"
proof -
  obtain p st1 where a: "allocate_descriptor_state n st = (p, st1)" by fastforce
  let ?d = "(rx_states st1 p)\<lparr>ds_descriptor := fd, ds_shutdown := False, ds_events := descriptor_events\<rparr>"
  note t = take_ok [OF ok n a, of ?d]
  obtain ec1 k1 where c: "re_ctl env Ctl_add fd descriptor_events (Descriptor_data p) k = (ec1, k1)" by fastforce
  have "ptr = Some p" "st' = on_state p (\<lambda>_. ?d) st1" "k' = k1"
    using r a c by (auto simp: register_descriptor_def on_state_def Let_def)
  then show ?thesis using t keeps_modesD(1) [OF m c] by (auto simp: waiting_in_def)
qed

text \<open>A socket that stays closed, and one that is opened.\<close>

lemma new_closed_ok:
  assumes ok: "sv_ok nb clears (I, st, k) live free" and s: "\<not> is_open (I s)" and i: "i = (I s)\<lparr>si_data := data\<rparr>"
    and st': "states_ok st' (p # live) free'" "\<forall>x \<in> set live. rx_states st' x = rx_states st x"
    and nb: "\<forall>x. x \<noteq> sock \<longrightarrow> nb x k' = nb x k" and sock: "\<forall>t. si_socket (I t) \<noteq> sock"
  shows "sv_ok nb clears (I(s := i), st', k') (p # live) free'"
proof (rule sv_update [OF ok st'(1), of s sock])
  have "si_state (I s) = 0" using ok s by (auto simp: sv_ok_def socket_ok_def split: if_splits)
  then show "socket_ok nb clears st' (p # live) k' i" using i s by (simp add: socket_ok_def is_open_def)
  show "apart i (I t)" for t using i s by (simp add: apart_def is_open_def)
qed (use st'(2) nb sock in auto)

lemma new_open_ok:
  assumes ok: "sv_ok nb clears (I, st, k) live free"
    and s: "\<not> is_open (I s)" and i: "i = \<lparr>si_socket = sock, si_state = state, si_data = Some p\<rparr>" "state AND non_blocking = 0"
    and st': "states_ok st' (p # live) free'" "p \<notin> set live" "\<not> waiting_in st' p" "ds_descriptor (rx_states st' p) = sock"
      "\<forall>x \<in> set live. rx_states st' x = rx_states st x"
    and nb: "\<forall>x. x \<noteq> sock \<longrightarrow> nb x k' = nb x k" and sock: "sock \<noteq> invalid_socket" "\<forall>t. si_socket (I t) \<noteq> sock"
  shows "sv_ok nb clears (I(s := i), st', k') (p # live) free'"
proof (rule sv_update [OF ok st'(1), of s sock])
  show "socket_ok nb clears st' (p # live) k' i"
    using i st' sock by (intro socket_okI [of _ p]) (simp_all add: is_open_def mode_of_def)
  show "apart i (I t)" if "t \<noteq> s" for t
  proof -
    have "socket_ok nb clears st live k (I t)" using ok by (simp add: sv_ok_def)
    then show ?thesis using i st'(2) sock by (cases rule: socket_okE) (auto simp: apart_def)
  qed
qed (use st'(5) nb sock in auto)

lemma do_open_ok:
  assumes m: "keeps_modes env sys nb" and ok: "sv_ok nb clears (I, st, k) live free" and n: "n \<notin> set (live @ free)"
    and fresh: "\<forall>sock k1. sy_socket sys af ty pr k = (Inr sock, k1) \<longrightarrow> sock \<noteq> invalid_socket \<and> (\<forall>t. si_socket (I t) \<noteq> sock)"
    and r: "do_open env sys n af ty pr (I s) st k = (ec, i, st', k')"
  shows "\<exists>live free. sv_ok nb clears (I(s := i), st', k') live free"
proof (cases "is_open (I s)")
  case True
  then show ?thesis using r ok by (auto simp: do_open_def fun_upd_idem)
next
  case closed: False
  have st: "states_ok st live free" using ok by (simp add: sv_ok_def)
  obtain z k1 where z: "sy_socket sys af ty pr k = (z, k1)" by fastforce
  show ?thesis
  proof (cases z)
    case (Inl e)
    then have i: "i = I s" "st' = st" "k' = k1" using r z closed by (simp_all add: do_open_def)
    have "nb x k1 = nb x k" for x using keeps_modesD(7) [OF m z] Inl by simp
    then have "sv_ok nb clears (I, st, k1) live free" using ok by (simp add: sv_ok_def socket_ok_modes [of nb k1 k])
    then show ?thesis using i by (auto simp: fun_upd_idem)
  next
    case (Inr sock)
    then have f: "sock \<noteq> invalid_socket" "\<forall>t. si_socket (I t) \<noteq> sock" using fresh z by blast+
    have nb1: "x \<noteq> sock \<Longrightarrow> nb x k1 = nb x k" for x using keeps_modesD(7) [OF m z] Inr by simp
    obtain err data st2 k2 where g: "register_descriptor env n sock st k1 = (err, data, st2, k2)" by (metis prod_cases4)
    from register_ok [OF st n m g] obtain p where
      p: "data = Some p" "p \<notin> set live" "states_ok st2 (p # live) (remove1 p free)" "\<not> waiting_in st2 p"
        "ds_descriptor (rx_states st2 p) = sock" "\<forall>x \<in> set live. rx_states st2 x = rx_states st x" "\<forall>x. nb x k2 = nb x k1" by blast
    show ?thesis
    proof (cases err)
      case None
      then have "i = \<lparr>si_socket = sock, si_state = type_state ty, si_data = Some p\<rparr>" "st' = st2" "k' = k2"
        using r z Inr g p(1) closed by (simp_all add: do_open_def)
      then show ?thesis using new_open_ok [OF ok closed _ _ p(3,2,4,5,6) _ f, of i "type_state ty" k2] nb1 p(7) by auto
    next
      case (Some e)
      obtain ec3 state3 k3 where c: "socket_ops_close sys sock 0 True k2 = (ec3, state3, k3)" by (metis prod_cases3)
      have "i = (I s)\<lparr>si_data := data\<rparr>" "st' = st2" "k' = k3"
        using r z Inr g Some c closed by (simp_all add: do_open_def)
      then show ?thesis
        using new_closed_ok [OF ok closed _ p(3,6), of i data sock k3] close_frame [OF m c] nb1 p(7) f(2) by auto
    qed
  qed
qed

lemma do_assign_ok:
  assumes m: "keeps_modes env sys nb" and ok: "sv_ok nb clears (I, st, k) live free" and n: "n \<notin> set (live @ free)"
    and f: "sock \<noteq> invalid_socket" "\<forall>t. si_socket (I t) \<noteq> sock"
    and r: "do_assign env n ty sock (I s) st k = (ec, i, st', k')"
  shows "\<exists>live free. sv_ok nb clears (I(s := i), st', k') live free"
proof (cases "is_open (I s)")
  case True
  then show ?thesis using r ok by (auto simp: do_assign_def fun_upd_idem)
next
  case closed: False
  have st: "states_ok st live free" using ok by (simp add: sv_ok_def)
  obtain err data st2 k2 where g: "register_descriptor env n sock st k = (err, data, st2, k2)" by (metis prod_cases4)
  from register_ok [OF st n m g] obtain p where
    p: "data = Some p" "p \<notin> set live" "states_ok st2 (p # live) (remove1 p free)" "\<not> waiting_in st2 p"
      "ds_descriptor (rx_states st2 p) = sock" "\<forall>x \<in> set live. rx_states st2 x = rx_states st x" "\<forall>x. nb x k2 = nb x k" by blast
  show ?thesis
  proof (cases err)
    case None
    then have "i = \<lparr>si_socket = sock, si_state = type_state ty OR possible_dup, si_data = Some p\<rparr>" "st' = st2" "k' = k2"
      using r g p(1) closed by (simp_all add: do_assign_def)
    then show ?thesis using new_open_ok [OF ok closed _ _ p(3,2,4,5,6) _ f, of i "type_state ty OR possible_dup" k2] p(7) by auto
  next
    case (Some e)
    have "i = (I s)\<lparr>si_data := data\<rparr>" "st' = st2" "k' = k2" using r g Some closed by (simp_all add: do_assign_def)
    then show ?thesis using new_closed_ok [OF ok closed _ p(3,6), of i data sock k2] p(7) f(2) by auto
  qed
qed


text \<open>What closing a socket does: its operations are aborted, its state is given back, the rest stays.\<close>

definition closes_to ::
  "(int \<Rightarrow> 'k \<Rightarrow> bool) \<Rightarrow> 'p socket_impl \<Rightarrow> ('p, 'f, 'q, 'tm, 't, 'h) reactor \<Rightarrow> 'p list \<Rightarrow> 'p list \<Rightarrow> 'k
    \<Rightarrow> ('p, 'f, 'q, 'tm, 't, 'h) reactor \<Rightarrow> 'k \<Rightarrow> 'f io_call list \<Rightarrow> bool" where
  "closes_to nb i st live free k st' k' calls \<longleftrightarrow>
     (\<exists>p. si_data i = Some p \<and> p \<in> set live \<and> states_ok st' (remove1 p live) (p # free)
        \<and> calls = [Post_deferred (aborted (queued_ops (rx_states st p)))]
        \<and> (\<forall>x. x \<noteq> p \<longrightarrow> rx_states st' x = rx_states st x) \<and> (\<forall>x. x \<noteq> si_socket i \<longrightarrow> nb x k' = nb x k))"

lemma close_open:
  assumes m: "keeps_modes env sys nb" and ok: "sv_ok nb clears (I, st, k) live free" and s: "is_open (I s)"
  shows "service_close env sys (I s) st k = (ec, i, st', k', calls) \<Longrightarrow> \<not> is_open i \<and> si_state i = 0 \<and> closes_to nb (I s) st live free k st' k' calls"
    and "destroy env sys (I s) st k = (j, st', k', calls) \<Longrightarrow> closes_to nb (I s) st live free k st' k' calls"
proof -
  have ss: "states_ok st live free" "socket_ok nb clears st live k (I s)" using ok by (simp_all add: sv_ok_def)
  then obtain p where p: "si_data (I s) = Some p" "p \<in> set live" using s by (auto elim: socket_okE)
  obtain st1 k1 where d: "deregister_descriptor env (si_socket (I s)) (Some p) (si_state (I s) AND possible_dup = 0) st k =
      (None, st1, k1, [Post_deferred (aborted (queued_ops (rx_states st p)))])"
    "states_ok st1 (remove1 p live) (p # free)" "\<forall>x. x \<noteq> p \<longrightarrow> rx_states st1 x = rx_states st x" "\<forall>x. nb x k1 = nb x k"
    using deregister_live [OF ss(1) p(2) m] by blast
  have c: "\<exists>ec2 state2 k2. socket_ops_close sys (si_socket (I s)) (si_state (I s)) destruction k1 = (ec2, state2, k2)
      \<and> closes_to nb (I s) st live free k st1 k2 [Post_deferred (aborted (queued_ops (rx_states st p)))]" for destruction
  proof -
    obtain ec2 state2 k2 where c: "socket_ops_close sys (si_socket (I s)) (si_state (I s)) destruction k1 = (ec2, state2, k2)"
      by (metis prod_cases3)
    then show ?thesis using p d close_frame [OF m c] by (simp add: closes_to_def)
  qed
  show "service_close env sys (I s) st k = (ec, i, st', k', calls) \<Longrightarrow> \<not> is_open i \<and> si_state i = 0 \<and> closes_to nb (I s) st live free k st' k' calls"
    using p(1) d(1) c [of False] s by (fastforce simp: service_close_def construct_def is_open_def split: prod.splits)
  show "destroy env sys (I s) st k = (j, st', k', calls) \<Longrightarrow> closes_to nb (I s) st live free k st' k' calls"
    using p(1) d(1) c [of True] s by (fastforce simp: destroy_def is_open_def split: prod.splits)
qed

lemma closes_ok:
  assumes ok: "sv_ok nb clears (I, st, k) live free" and s: "is_open (I s)" and c: "closes_to nb (I s) st live free k st' k' calls"
    and i: "\<not> is_open i" "si_state i = 0"
  shows "\<exists>live free. sv_ok nb clears (I(s := i), st', k') live free"
proof -
  obtain p where p: "si_data (I s) = Some p" "p \<in> set live" "states_ok st' (remove1 p live) (p # free)"
      "\<forall>x. x \<noteq> p \<longrightarrow> rx_states st' x = rx_states st x" "\<forall>x. x \<noteq> si_socket (I s) \<longrightarrow> nb x k' = nb x k"
    using c by (auto simp: closes_to_def)
  have "sv_ok nb clears (I(s := i), st', k') (remove1 p live) (p # free)"
  proof (rule sv_update [OF ok p(3), of s invalid_socket])
    show "is_open (I s) \<and> si_data (I s) = Some x \<or> x \<in> set (remove1 p live) \<and> rx_states st' x = rx_states st x"
      if "x \<in> set live" for x using p(1,4) s that by (cases "x = p") (simp_all add: in_set_remove1)
  qed (use i s p(5) in \<open>auto simp: socket_ok_def is_open_def\<close>)
  then show ?thesis by blast
qed

lemma construct_simps [simp]: "\<not> is_open (construct i)" "si_state (construct i) = 0"
  by (simp_all add: construct_def is_open_def)

lemma close_ok:
  assumes m: "keeps_modes env sys nb" and ok: "sv_ok nb clears (I, st, k) live free"
    and r: "service_close env sys (I s) st k = (ec, i, st', k', calls)"
  shows "\<exists>live free. sv_ok nb clears (I(s := i), st', k') live free"
proof (cases "is_open (I s)")
  case True
  then show ?thesis using close_open(1) [OF m ok True r] closes_ok [OF ok True] by blast
next
  case False
  then have "i = construct (I s)" "st' = st" "k' = k" using r by (auto simp: service_close_def is_open_def construct_def)
  moreover have "construct (I s) = I s"
    using ok False by (cases "I s") (auto simp: sv_ok_def construct_def is_open_def socket_ok_def dest: spec [where x = s])
  ultimately show ?thesis using ok by (auto simp: fun_upd_idem)
qed

lemma destroy_ok:
  assumes m: "keeps_modes env sys nb" and ok: "sv_ok nb clears (I, st, k) live free"
    and r: "destroy env sys (I s) st k = (j, st', k', calls)" and i: "\<not> is_open i" "si_state i = 0"
  shows "\<exists>live free. sv_ok nb clears (I(s := i), st', k') live free"
proof (cases "is_open (I s)")
  case True
  then show ?thesis using close_open(2) [OF m ok True r] closes_ok [OF ok True _ i] by blast
next
  case False
  then have "st' = st" "k' = k" using r by (simp_all add: destroy_def is_open_def)
  moreover have "sv_ok nb clears (I(s := i), st, k) live free"
    using ok i by (intro sv_update [OF ok, of _ _ _ _ invalid_socket]) (auto simp: sv_ok_def socket_ok_def is_open_def)
  ultimately show ?thesis by blast
qed

text \<open>The descriptor and the state go over from one socket to another that is closed.\<close>

lemma moved_ok:
  assumes ok: "sv_ok nb clears (I, st, k) live free" and st: "s \<noteq> t" "\<not> is_open (I s)"
    and i: "i = I t" and j: "\<not> is_open j" "si_state j = 0"
  shows "sv_ok nb clears (I(s := i, t := j), st, k) live free"
  using assms by (auto simp: sv_ok_def apart_sym socket_ok_def)

lemma move_ok:
  assumes m: "keeps_modes env sys nb" and ok: "sv_ok nb clears (I, st, k) live free" and st: "s \<noteq> t"
  shows "\<not> is_open (I s) \<Longrightarrow> base_move_construct (I s) (I t) = (i, j) \<Longrightarrow> sv_ok nb clears (I(s := i, t := j), st, k) live free"
    and "base_move_assign env sys (I s) (I t) st k = (i, j, st', k', calls) \<Longrightarrow>
      \<exists>live free. sv_ok nb clears (I(s := i, t := j), st', k') live free"
proof -
  show "\<not> is_open (I s) \<Longrightarrow> base_move_construct (I s) (I t) = (i, j) \<Longrightarrow> sv_ok nb clears (I(s := i, t := j), st, k) live free"
    by (intro moved_ok [OF ok st]) (auto simp: base_move_construct_def move_descriptor_def is_open_def)
  assume a: "base_move_assign env sys (I s) (I t) st k = (i, j, st', k', calls)"
  obtain i0 st1 k1 cs where d: "destroy env sys (I s) st k = (i0, st1, k1, cs)" by (metis prod_cases4)
  obtain l f where ok1: "sv_ok nb clears (I(s := construct (I s)), st1, k1) l f"
    using destroy_ok [OF m ok d, of "construct (I s)"] by auto
  have ij: "i = I t" "\<not> is_open j" "si_state j = 0" "st' = st1" "k' = k1"
    using a d by (auto simp: base_move_assign_def move_descriptor_def is_open_def)
  have "sv_ok nb clears ((I(s := construct (I s)))(s := i, t := j), st1, k1) l f"
    using st ij by (intro moved_ok [OF ok1 st]) auto
  then show "\<exists>live free. sv_ok nb clears (I(s := i, t := j), st', k') live free" using ij by auto
qed

lemma sv_step_ok:
  assumes m: "keeps_modes env sys nb" and "sv_step env sys nb clears c c'" and "sv_ok nb clears c live free"
  shows "\<exists>live free. sv_ok nb clears c' live free"
  using assms(2,3)
proof (induction rule: sv_step.induct)
  case (sv_kernel k' k I st S T)
  have "socket_ok nb clears (st\<lparr>rx_timers := T, rx_timer_set := S\<rparr>) live k' (I s) = socket_ok nb clears st live k (I s)" for s
    using sv_kernel.hyps by (simp add: socket_ok_def waiting_in_def)
  then have "sv_ok nb clears (I, st\<lparr>rx_timers := T, rx_timer_set := S\<rparr>, k') live free"
    using sv_kernel.prems by (simp add: sv_ok_def states_ok_def)
  then show ?case by blast
next
  case (sv_open st live' free' n af ty pr k I s ec i st' k')
  have "n \<notin> set (live @ free)" using sv_open.hyps(1,2) sv_open.prems states_pool by (fastforce simp: sv_ok_def)
  then show ?case using do_open_ok [OF m sv_open.prems _ sv_open.hyps(3,4)] by simp
next
  case (sv_assign st live' free' n sock I ty s k ec i st' k')
  have "n \<notin> set (live @ free)" using sv_assign.hyps(1,2) sv_assign.prems states_pool by (fastforce simp: sv_ok_def)
  then show ?case using do_assign_ok [OF m sv_assign.prems _ sv_assign.hyps(3,4,5)] by simp
next
  case (sv_destroy I s st k i st' k' calls)
  then show ?case using destroy_ok [OF m sv_destroy.prems sv_destroy.hyps] by simp
qed (blast intro: close_ok [OF m] move_ok [OF m] service_cancel_ok service_start_ok [OF m] accept_ok [OF m] connect_ok [OF m]
    complete_sv_ok [OF m] set_mode_ok [OF m])+

lemma sv_reachable_ok:
  assumes "keeps_modes env sys nb" and "sv_reachable env sys nb clears c0 c" and "sv_ok nb clears c0 live free"
  shows "\<exists>live free. sv_ok nb clears c live free"
  using assms(2)
proof (induction rule: sv_reachable.induct)
  case sv_initial
  then show ?case using assms(3) by blast
next
  case (sv_next c c')
  then show ?case using sv_step_ok [OF assms(1)] by blast
qed


subsection \<open>What the service promises\<close>

text \<open>A program begins with sockets that are constructed and a reactor that is.\<close>

definition new_sockets ::
  "('p, 'f, 'k) epoll_env \<Rightarrow> ('k \<Rightarrow> 'k) \<Rightarrow> int \<Rightarrow> int \<Rightarrow> 'p links \<Rightarrow> 'p links \<Rightarrow> ('p \<Rightarrow> 'f descriptor_state) \<Rightarrow> 'q links
    \<Rightarrow> ('q, 'tm, 't, 'h) queues \<Rightarrow> ('s \<Rightarrow> 'p socket_impl) \<Rightarrow> 'k \<Rightarrow> ('s, 'p, 'f, 'q, 'tm, 't, 'h, 'k) sockets" where
  "new_sockets env wake interrupter timer_fd nxp pvp garbage nx timers G k =
     (case new_reactor env wake interrupter timer_fd nxp pvp garbage nx timers k of (st, k) \<Rightarrow> (\<lambda>s. construct (G s), st, k))"

lemma new_sockets_ok: "sv_ok nb clears (new_sockets env wake i t nxp pvp g nx Q G k) [] []"
  using initial_ok [of env wake i t nxp pvp g nx Q k]
  by (cases "new_reactor env wake i t nxp pvp g nx Q k") (simp add: new_sockets_def sv_ok_def socket_ok_def)

lemma reachable_sv_ok:
  assumes "keeps_modes env sys nb" and "sv_reachable env sys nb clears (new_sockets env wake i t nxp pvp g nx Q G k0) c"
  shows "\<exists>live free. sv_ok nb clears c live free"
  using sv_reachable_ok [OF assms new_sockets_ok] .

text \<open>
  C19. In every run, each open socket has a live state of the reactor that is registered for its descriptor, and no other
  open socket has the same state or the same descriptor; a closed socket has no mode set.
\<close>

theorem sockets_own_states:
  assumes "keeps_modes env sys nb"
    and "sv_reachable env sys nb clears (new_sockets env wake i t nxp pvp g nx Q G k0) (I, st, k)"
  shows "\<exists>live free. pool_holds (rx_pool st) live free
    \<and> (\<forall>s. if is_open (I s)
           then (\<exists>p \<in> set live. si_data (I s) = Some p \<and> ds_descriptor (rx_states st p) = si_socket (I s) \<and> \<not> ds_shutdown (rx_states st p))
             \<and> (\<forall>t. t \<noteq> s \<and> is_open (I t) \<longrightarrow> si_data (I t) \<noteq> si_data (I s) \<and> si_socket (I t) \<noteq> si_socket (I s))
           else si_state (I s) = 0)"
proof -
  obtain live free where ok: "sv_ok nb clears (I, st, k) live free" using reachable_sv_ok [OF assms] by blast
  then have st: "states_ok st live free" by (simp add: sv_ok_def)
  have "if is_open (I s)
      then (\<exists>p \<in> set live. si_data (I s) = Some p \<and> ds_descriptor (rx_states st p) = si_socket (I s) \<and> \<not> ds_shutdown (rx_states st p))
        \<and> (\<forall>t. t \<noteq> s \<and> is_open (I t) \<longrightarrow> si_data (I t) \<noteq> si_data (I s) \<and> si_socket (I t) \<noteq> si_socket (I s))
      else si_state (I s) = 0" for s
  proof -
    have "socket_ok nb clears st live k (I s)" and a: "\<forall>t. t \<noteq> s \<longrightarrow> apart (I t) (I s)" using ok by (simp_all add: sv_ok_def)
    then show ?thesis using st by (cases rule: socket_okE) (auto simp: apart_def states_ok_def)
  qed
  moreover have "pool_holds (rx_pool st) live free" using st by (simp add: states_ok_def)
  ultimately show ?thesis by blast
qed

text \<open>
  C17. Closing an open socket ends exactly its own operations, in the order reading, writing, out-of-band, each with
  \<open>operation_aborted\<close>; the operations of every other open socket stay where they are. The state goes back to the pool, and whatever the
  program starts on the closed socket afterwards ends at once with \<open>bad_descriptor\<close>, without touching the reactor.
\<close>

theorem close_aborts_own_operations:
  assumes "keeps_modes env sys nb"
    and "sv_reachable env sys nb clears (new_sockets env wake i t nxp pvp g nx Q G k0) (I, st, k)"
    and "is_open (I s)"
  shows "\<exists>p ec i' st' k'. si_data (I s) = Some p
    \<and> service_close env sys (I s) st k = (ec, i', st', k', [Post_deferred (aborted (queued_ops (rx_states st p)))])
    \<and> \<not> is_open i' \<and> (\<exists>live free. pool_holds (rx_pool st') live (p # free) \<and> p \<notin> set live)
    \<and> (\<forall>t q. t \<noteq> s \<longrightarrow> is_open (I t) \<longrightarrow> si_data (I t) = Some q \<longrightarrow> rx_states st' q = rx_states st q)
    \<and> (\<forall>ty op c nbk st2 k2. service_start_op env sys i' ty op c nbk False st2 k2
         = (i', st2, k2, [Post_immediate (op\<lparr>ro_ec := Some BadDescriptor\<rparr>) c]))"
proof -
  obtain live free where ok: "sv_ok nb clears (I, st, k) live free" using reachable_sv_ok [OF assms(1,2)] by blast
  obtain ec i' st' k' calls where r: "service_close env sys (I s) st k = (ec, i', st', k', calls)" by (metis prod_cases5)
  have i': "\<not> is_open i'" "si_state i' = 0" and c: "closes_to nb (I s) st live free k st' k' calls"
    using close_open(1) [OF assms(1) ok assms(3) r] by simp_all
  obtain p where p: "si_data (I s) = Some p" "states_ok st' (remove1 p live) (p # free)"
      "calls = [Post_deferred (aborted (queued_ops (rx_states st p)))]" "\<forall>x. x \<noteq> p \<longrightarrow> rx_states st' x = rx_states st x"
    using c by (auto simp: closes_to_def)
  have "rx_states st' q = rx_states st q" if "t \<noteq> s" "is_open (I t)" "si_data (I t) = Some q" for t q
  proof -
    have "apart (I t) (I s)" using ok that(1) by (simp add: sv_ok_def)
    then have "q \<noteq> p" using p(1) that assms(3) by (auto simp: apart_def)
    then show ?thesis using p(4) by simp
  qed
  moreover have "service_start_op env sys i' ty op c nbk False st2 k2
      = (i', st2, k2, [Post_immediate (op\<lparr>ro_ec := Some BadDescriptor\<rparr>) c])" for ty op c nbk st2 k2
    using i' by (simp add: service_start_op_def ensure_non_blocking_def set_internal_non_blocking_def is_open_def)
  moreover have "pool_holds (rx_pool st') (remove1 p live) (p # free) \<and> p \<notin> set (remove1 p live)"
    using p(2) states_distinct [OF p(2)] by (simp add: states_ok_def)
  ultimately show ?thesis using r p(1,3) i'(1) by blast
qed

text \<open>
  C18. As long as the program does not switch a socket to blocking mode itself, every operation that waits in the reactor waits on
  a descriptor in non-blocking mode, so that performing it never blocks the thread that runs the event loop.
\<close>

theorem waiting_operations_non_blocking:
  assumes "keeps_modes env sys nb"
    and "sv_reachable env sys nb False (new_sockets env wake i t nxp pvp g nx Q G k0) (I, st, k)"
    and "is_open (I s)" and "si_data (I s) = Some p" and "ds_queue (rx_states st p) ty \<noteq> []"
  shows "nb (si_socket (I s)) k"
proof -
  obtain live free where "sv_ok nb False (I, st, k) live free" using reachable_sv_ok [OF assms(1,2)] by blast
  then have "socket_ok nb False st live k (I s)" by (simp add: sv_ok_def)
  moreover have "waiting_in st p" using assms(5) by (auto simp: waiting_in_def)
  ultimately show ?thesis using assms(3,4) by (cases rule: socket_okE) simp_all
qed

text \<open>
  Switching to blocking mode leaves the operations that wait where they are, on a descriptor that blocks now. And the flag that
  reports the mode of the descriptor does not see what \<open>non_blocking(true)\<close> has done.
\<close>

lemma blocking_mode_with_waiting_operations:
  assumes "keeps_modes env sys nb" and "set_non_blocking sys mode (I s) k = (None, i, k')"
  shows "nb (si_socket (I s)) k' = mode \<and> si_data i = si_data (I s) \<and> (get_non_blocking i \<longleftrightarrow> mode)
    \<and> (si_state (I s) = 0 \<longrightarrow> \<not> get_native_non_blocking i)"
proof -
  obtain e k1 where r: "sy_nonblock sys (si_socket (I s)) mode k = (e, k1)" by fastforce
  have bits: "(x OR user_set_non_blocking) AND user_set_non_blocking \<noteq> 0"
      "(x AND NOT (user_set_non_blocking OR internal_non_blocking)) AND user_set_non_blocking = 0" for x :: u8
    by (metis and.right_idem and_eq_not_not_or or.commute state_bits(1) word_ao_absorbs(3) zero_neq_one) (rule bit_eqI, auto simp: bit_simps)
  show ?thesis using assms(2) r keeps_modesD(3) [OF assms(1) r] bits
    by (auto simp: set_non_blocking_def set_user_non_blocking_def get_non_blocking_def get_native_non_blocking_def
        state_bits split: if_splits option.splits)
qed


subsection \<open>A run\<close>

text \<open>A kernel that gives out descriptors from 5 on; a socket is opened and an operation waits on it.\<close>

definition counting_sys :: "(unit, (int \<Rightarrow> bool) \<times> int) socket_sys" where
  "counting_sys =
     \<lparr>sy_socket = (\<lambda>af ty pr (m, n). (Inr n, (m, n + 1))), sy_close = (\<lambda>fd k. (None, k)), sy_linger_off = (\<lambda>fd k. k),
      sy_nonblock = (\<lambda>fd v (m, n). (None, (m(fd := v), n))), sy_connect = (\<lambda>fd a k. (None, k))\<rparr>"

definition counting_mode :: "int \<Rightarrow> (int \<Rightarrow> bool) \<times> int \<Rightarrow> bool" where
  "counting_mode fd k = fst k fd"

lemma counting_modes: "keeps_modes idle_env counting_sys counting_mode"
  by (auto simp: keeps_modes_def idle_env_def counting_sys_def counting_mode_def)

type_synonym example = "(nat, nat, char, nat, int, nat, char, (int \<Rightarrow> bool) \<times> int) sockets"

definition example_start :: example where
  "example_start = new_sockets idle_env id 3 4 (\<lambda>_. None) (\<lambda>_. None)
     (\<lambda>_. \<lparr>ds_descriptor = 7, ds_events = 0, ds_queue = (\<lambda>_. []), ds_shutdown = True\<rparr>) (\<lambda>_. None)
     (\<lambda>q. new_queue (\<lambda>_. 0)) (\<lambda>s. \<lparr>si_socket = 0, si_state = 0, si_data = None\<rparr>) (\<lambda>_. False, 5)"

definition example_run :: example where
  "example_run =
     (case example_start of (I, st, k) \<Rightarrow>
        (case do_open idle_env counting_sys 1 2 SOCK_STREAM 0 (I 0) st k of
           (_, i, st, k) \<Rightarrow>
             (case service_start_op idle_env counting_sys i Read_op (new_reactor_op (CHR ''r'')) False True False st k of
                (i, st, k, _) \<Rightarrow> (I(0 := i), st, k))))"

lemma example_reachable: "sv_reachable idle_env counting_sys counting_mode False example_start example_run"
proof -
  obtain I st k where c0: "example_start = (I, st, k)" by (metis prod_cases3)
  have "sv_ok counting_mode False example_start [] []" unfolding example_start_def by (rule new_sockets_ok)
  then have st: "states_ok st [] []" by (simp add: c0 sv_ok_def)
  have I: "\<And>t. si_socket (I t) = invalid_socket" and k: "snd k = 5"
    using c0 by (auto simp: example_start_def new_sockets_def construct_def new_reactor_def idle_env_def Let_def)
  obtain ec i st1 k1 where 1: "do_open idle_env counting_sys 1 2 SOCK_STREAM 0 (I 0) st k = (ec, i, st1, k1)" by (metis prod_cases4)
  obtain i2 st2 k2 cs where 2: "service_start_op idle_env counting_sys i Read_op (new_reactor_op (CHR ''r'')) False True False st1 k1 = (i2, st2, k2, cs)"
    by (metis prod_cases4)
  have "pool_holds (rx_pool st) [] []" using st by (simp add: states_ok_def)
  then have s1: "sv_step idle_env counting_sys counting_mode False (I, st, k) (I(0 := i), st1, k1)"
    using k 1 by (intro sv_open [where s = 0 and I = I]) (assumption, simp, auto simp: I counting_sys_def invalid_socket_def split: prod.splits)
  have s2: "sv_step idle_env counting_sys counting_mode False (I(0 := i), st1, k1) ((I(0 := i))(0 := i2), st2, k2)"
    by (rule sv_start) (use 2 in simp)
  have "sv_reachable idle_env counting_sys counting_mode False (I, st, k) ((I(0 := i))(0 := i2), st2, k2)"
    using sv_next [OF sv_next [OF sv_initial s1] s2] .
  moreover have "example_run = ((I(0 := i))(0 := i2), st2, k2)" unfolding example_run_def c0 using 1 2 by simp
  ultimately show ?thesis unfolding c0 by simp
qed

lemma example_state:
  "\<exists>I st k. example_run = (I, st, k) \<and> is_open (I 0) \<and> si_socket (I 0) = 5 \<and> si_data (I 0) = Some 1
     \<and> ds_queue (rx_states st 1) Read_op = [new_reactor_op (CHR ''r'')] \<and> ds_queue (rx_states st 1) Write_op = []
     \<and> ds_queue (rx_states st 1) Except_op = []"
  by (simp add: example_run_def example_start_def new_sockets_def new_reactor_def construct_def do_open_def is_open_def
      counting_sys_def register_descriptor_def allocate_descriptor_state_def pool_alloc_def new_pool_def make_live_def
      service_start_op_def ensure_non_blocking_def set_internal_non_blocking_def invalid_socket_def start_op_def start_op_at_def
      start_speculative_def speculates_def idle_env_def enqueue_op_def on_state_def Let_def type_state_def SOCK_STREAM_def
      raw_state_def state_bits new_reactor_op_def)


theorem sockets_own_states_witness:
  "\<exists>I st k live free. example_run = (I, st, k) \<and> is_open (I 0) \<and> pool_holds (rx_pool st) live free
    \<and> 1 \<in> set live \<and> ds_descriptor (rx_states st 1) = 5"
proof -
  obtain I st k where e: "example_run = (I, st, k)" "is_open (I 0)" "si_socket (I 0) = 5" "si_data (I 0) = Some 1"
    using example_state by blast
  from sockets_own_states [OF counting_modes example_reachable [unfolded e(1) example_start_def]] obtain live free where
    "pool_holds (rx_pool st) live free" "\<exists>p \<in> set live. si_data (I 0) = Some p \<and> ds_descriptor (rx_states st p) = si_socket (I 0)"
    using e(2) by metis
  moreover from this(2) have "1 \<in> set live" "ds_descriptor (rx_states st 1) = 5" using e(3,4) by simp_all
  ultimately show ?thesis using e(1,2) by blast
qed

theorem close_aborts_own_operations_witness:
  "\<exists>I st k ec i' st' k'. example_run = (I, st, k)
    \<and> service_close idle_env counting_sys (I 0) st k
      = (ec, i', st', k', [Post_deferred [(new_reactor_op (CHR ''r''))\<lparr>ro_ec := Some OperationAborted\<rparr>]])"
proof -
  obtain I st k where e: "example_run = (I, st, k)" "is_open (I 0)" "si_data (I 0) = Some 1"
      "queued_ops (rx_states st 1) = [new_reactor_op (CHR ''r'')]"
    using example_state by (auto simp: queued_ops_def)
  from close_aborts_own_operations [OF counting_modes example_reachable [unfolded e(1) example_start_def] e(2)]
  obtain p ec i' st' k' where "si_data (I 0) = Some p"
      "service_close idle_env counting_sys (I 0) st k = (ec, i', st', k', [Post_deferred (aborted (queued_ops (rx_states st p)))])"
    by (elim exE conjE) (erule (1) that)
  then have "service_close idle_env counting_sys (I 0) st k =
      (ec, i', st', k', [Post_deferred [(new_reactor_op (CHR ''r''))\<lparr>ro_ec := Some OperationAborted\<rparr>]])"
    using e(3,4) by (simp add: aborted_def)
  then show ?thesis using e(1) by blast
qed

theorem waiting_operations_non_blocking_witness:
  "\<exists>I st k. example_run = (I, st, k) \<and> ds_queue (rx_states st 1) Read_op \<noteq> [] \<and> counting_mode 5 k"
proof -
  obtain I st k where e: "example_run = (I, st, k)" "is_open (I 0)" "si_socket (I 0) = 5" "si_data (I 0) = Some 1"
      "ds_queue (rx_states st 1) Read_op \<noteq> []"
    using example_state by (metis list.distinct(1))
  from waiting_operations_non_blocking [OF counting_modes example_reachable [unfolded e(1) example_start_def] e(2,4,5)]
  have "counting_mode 5 k" using e(3) by simp
  then show ?thesis using e(1,5) by blast
qed

end
