(* ===== verification/Asio_Connect.thy ===== *)
theory Asio_Connect
  imports Prelude
begin

text \<open>
  Connecting to the first endpoint of a sequence that accepts: \<open>connect\<close> and \<open>async_connect\<close> of
  src/asio/include/asio/impl/connect.hpp, on the connect operations of src/asio/include/asio/basic_socket.hpp, and the
  iterator over the results of a resolver (src/asio/include/asio/ip/basic_resolver_iterator.hpp), which is what
  the client gives to \<open>async_connect\<close>. What the system answers for an endpoint is an argument.

  The composed operations know iterators only by three operations; what they rely on is the locale
  \<open>forward_iterator\<close>, which is interpreted on the resolver's iterator.
\<close>

subsection \<open>The iterator of a resolver\<close>

text \<open>An entry of the list \<open>getaddrinfo\<close> returns.\<close>

datatype family = Inet | Inet6 | Other_family

record addrinfo =
  ai_family :: family
  ai_addr :: string
  ai_canonname :: "string option"

record resolver_entry =
  re_endpoint :: string
  re_host_name :: string
  re_service_name :: string

text \<open>The vector of entries is shared; its identity is the first component, by which iterators are compared.\<close>

record resolver_iterator =
  ri_values :: "(nat \<times> resolver_entry list) option"
  ri_index :: nat

definition end_iterator :: resolver_iterator where
  "end_iterator = \<lparr>ri_values = None, ri_index = 0\<rparr>"

fun collect_entries :: "string \<Rightarrow> string \<Rightarrow> addrinfo list \<Rightarrow> resolver_entry list \<Rightarrow> resolver_entry list" where
  "collect_entries host service [] entries = entries"
| "collect_entries host service (a # as) entries =
     collect_entries host service as
       (if ai_family a = Inet \<or> ai_family a = Inet6
        then entries @ [\<lparr>re_endpoint = ai_addr a, re_host_name = host, re_service_name = service\<rparr>] else entries)"

text \<open>\<open>new_vector\<close> is the identity of the vector that is created.\<close>

definition create_iterator :: "nat \<Rightarrow> addrinfo list \<Rightarrow> string \<Rightarrow> string \<Rightarrow> resolver_iterator" where
  "create_iterator new_vector address_info host_name service_name =
     (case address_info of
        [] \<Rightarrow> end_iterator
      | a # _ \<Rightarrow>
          let actual_host_name = (case ai_canonname a of Some n \<Rightarrow> n | None \<Rightarrow> host_name)
          in end_iterator\<lparr>ri_values := Some (new_vector, collect_entries actual_host_name service_name address_info [])\<rparr>)"

definition create_from_endpoints :: "nat \<Rightarrow> string list \<Rightarrow> string \<Rightarrow> string \<Rightarrow> resolver_iterator" where
  "create_from_endpoints new_vector endpoints host_name service_name =
     (if endpoints = [] then end_iterator
      else end_iterator\<lparr>ri_values := Some (new_vector,
             map (\<lambda>e. \<lparr>re_endpoint = e, re_host_name = host_name, re_service_name = service_name\<rparr>) endpoints)\<rparr>)"

definition iterator_increment :: "resolver_iterator \<Rightarrow> resolver_iterator res" where
  "iterator_increment i =
     (case ri_values i of
        None \<Rightarrow> Inl (Undefined NullDeref)
      | Some (v, entries) \<Rightarrow>
          if ri_index i + 1 = length entries then Inr \<lparr>ri_values = None, ri_index = 0\<rparr>
          else Inr (i\<lparr>ri_index := ri_index i + 1\<rparr>))"

definition iterator_equal :: "resolver_iterator \<Rightarrow> resolver_iterator \<Rightarrow> bool" where
  "iterator_equal a b \<longleftrightarrow>
     (if ri_values a = None \<and> ri_values b = None then True
      else if map_option fst (ri_values a) \<noteq> map_option fst (ri_values b) then False
      else ri_index a = ri_index b)"

definition iterator_dereference :: "resolver_iterator \<Rightarrow> resolver_entry res" where
  "iterator_dereference i =
     (case ri_values i of
        None \<Rightarrow> Inl (Undefined NullDeref)
      | Some (v, entries) \<Rightarrow> if ri_index i < length entries then Inr (entries ! ri_index i) else Inl (Undefined OutOfBounds))"

subsection \<open>Iterators and sockets\<close>

text \<open>The operations of an iterator: \<open>operator++\<close>, \<open>operator*\<close> and \<open>operator==\<close>.\<close>

record ('i, 'e) iterator_ops =
  io_next :: "'i \<Rightarrow> 'i res"
  io_deref :: "'i \<Rightarrow> 'e res"
  io_equal :: "'i \<Rightarrow> 'i \<Rightarrow> bool"

definition resolver_ops :: "(resolver_iterator, resolver_entry) iterator_ops" where
  "resolver_ops = \<lparr>io_next = iterator_increment, io_deref = iterator_dereference, io_equal = iterator_equal\<rparr>"

text \<open>What opening a socket for an endpoint and connecting it end with.\<close>

record 'e net =
  nt_open :: "'e \<Rightarrow> error_code"
  nt_connect :: "'e \<Rightarrow> error_code"

record 'e conn_socket =
  cs_open :: bool
  cs_peer :: "'e option"

definition socket_close_conn :: "'e conn_socket \<Rightarrow> 'e conn_socket" where
  "socket_close_conn s = \<lparr>cs_open = False, cs_peer = None\<rparr>"

text \<open>The system call, and \<open>basic_socket::connect\<close>, which opens the socket first.\<close>

definition service_connect :: "'e net \<Rightarrow> 'e \<Rightarrow> 'e conn_socket \<Rightarrow> error_code \<times> 'e conn_socket" where
  "service_connect net e s =
     (case nt_connect net e of None \<Rightarrow> (None, s\<lparr>cs_peer := Some e\<rparr>) | Some ec \<Rightarrow> (Some ec, s))"

definition basic_socket_connect :: "'e net \<Rightarrow> 'e \<Rightarrow> 'e conn_socket \<Rightarrow> error_code \<times> 'e conn_socket" where
  "basic_socket_connect net e s =
     (if \<not> cs_open s
      then case nt_open net e of
             Some ec \<Rightarrow> (Some ec, s)
           | None \<Rightarrow> service_connect net e (s\<lparr>cs_open := True\<rparr>)
      else service_connect net e s)"

text \<open>
  \<open>basic_socket::async_connect\<close>, up to the call of its handler: a failure to open is posted to the handler, and so
  is the result of the connection. The program may close the socket meanwhile, which aborts the operation.
\<close>

definition basic_socket_async_connect :: "'e net \<Rightarrow> ('e \<Rightarrow> bool) \<Rightarrow> 'e \<Rightarrow> 'e conn_socket \<Rightarrow> error_code \<times> 'e conn_socket" where
  "basic_socket_async_connect net closes e s =
     (case basic_socket_connect net e s of
        (ec, s) \<Rightarrow> if closes e then (if cs_open s then Some OperationAborted else ec, socket_close_conn s) else (ec, s))"

subsection \<open>The synchronous operation\<close>

definition NOT_FOUND :: error_code where
  "NOT_FOUND = Some NotFound"

text \<open>
  The loop; the result is the iterator, the error and the socket. The condition may return any iterator, so that the
  loop need not end.
\<close>

partial_function (option) connect_loop ::
  "('i, 'e) iterator_ops \<Rightarrow> 'e net \<Rightarrow> (error_code \<Rightarrow> 'i \<Rightarrow> 'i) \<Rightarrow> 'i \<Rightarrow> 'i \<Rightarrow> error_code \<Rightarrow> 'e conn_socket
    \<Rightarrow> ('i \<times> error_code \<times> 'e conn_socket) res option" where
  "connect_loop I net connect_condition fin iter ec s =
     (if io_equal I iter fin then Some (Inr (fin, if ec = None then NOT_FOUND else ec, s))
      else
        let iter = connect_condition ec iter
        in if io_equal I iter fin
           then (case io_next I iter of Inl f \<Rightarrow> Some (Inl f) | Inr iter \<Rightarrow> connect_loop I net connect_condition fin iter ec s)
           else (case io_deref I iter of
                   Inl f \<Rightarrow> Some (Inl f)
                 | Inr e \<Rightarrow>
                     (case basic_socket_connect net e (socket_close_conn s) of
                        (None, s) \<Rightarrow> Some (Inr (iter, None, s))
                      | (Some ec, s) \<Rightarrow>
                          (case io_next I iter of
                             Inl f \<Rightarrow> Some (Inl f)
                           | Inr iter \<Rightarrow> connect_loop I net connect_condition fin iter (Some ec) s))))"

definition connect_ec ::
  "('i, 'e) iterator_ops \<Rightarrow> 'e net \<Rightarrow> (error_code \<Rightarrow> 'i \<Rightarrow> 'i) \<Rightarrow> 'i \<Rightarrow> 'i \<Rightarrow> 'e conn_socket
    \<Rightarrow> ('i \<times> error_code \<times> 'e conn_socket) res option" where
  "connect_ec I net connect_condition begin fin s = connect_loop I net connect_condition fin begin None s"

definition default_connect_condition :: "error_code \<Rightarrow> 'i \<Rightarrow> 'i" where
  "default_connect_condition ec nxt = nxt"

text \<open>The overloads without an error code throw it.\<close>

definition connect_throwing ::
  "('i, 'e) iterator_ops \<Rightarrow> 'e net \<Rightarrow> (error_code \<Rightarrow> 'i \<Rightarrow> 'i) \<Rightarrow> 'i \<Rightarrow> 'i \<Rightarrow> 'e conn_socket
    \<Rightarrow> ('i \<times> 'e conn_socket) res option" where
  "connect_throwing I net connect_condition begin fin s =
     obind (connect_ec I net connect_condition begin fin s) (\<lambda>(result, ec, s).
       case ec of Some e \<Rightarrow> Some (Inl (Throw (AsioError e ''connect''))) | None \<Rightarrow> Some (Inr (result, s)))"

definition connect_range ::
  "('i, 'e) iterator_ops \<Rightarrow> 'e net \<Rightarrow> 'i \<Rightarrow> 'i \<Rightarrow> 'e conn_socket \<Rightarrow> ('i \<times> error_code \<times> 'e conn_socket) res option" where
  "connect_range I net begin fin s = connect_ec I net default_connect_condition begin fin s"

subsection \<open>The asynchronous operation\<close>

text \<open>
  What \<open>connect_op::operator()\<close> does: it waits for a connection attempt, posts itself with an error, or calls the
  handler. \<open>check_condition\<close> is not called with the end.
\<close>

datatype ('i, 'e) connect_action =
    Attempts 'i 'e "'e conn_socket"
  | Posts 'i error_code
  | Calls_handler error_code 'i

definition check_condition ::
  "('i, 'e) iterator_ops \<Rightarrow> (error_code \<Rightarrow> 'i \<Rightarrow> 'i) \<Rightarrow> error_code \<Rightarrow> 'i \<Rightarrow> 'i \<Rightarrow> 'i" where
  "check_condition I connect_condition ec iter fin =
     (if \<not> io_equal I iter fin then connect_condition ec iter else iter)"

text \<open>From the label \<open>default\<close>: the operation is called with the result of an attempt, or by its own post.\<close>

definition connect_op_default ::
  "('i, 'e) iterator_ops \<Rightarrow> 'i \<Rightarrow> error_code \<Rightarrow> 'i \<Rightarrow> 'e conn_socket \<Rightarrow> (('i, 'e) connect_action + 'i) res" where
  "connect_op_default I fin ec iter s =
     (if io_equal I iter fin then Inr (Inl (Calls_handler ec iter))
      else if \<not> cs_open s then Inr (Inl (Calls_handler (Some OperationAborted) iter))
      else if ec = None then Inr (Inl (Calls_handler ec iter))
      else ebind (io_next I iter) (\<lambda>iter. Inr (Inr iter)))"

text \<open>From the head of the loop; at the end of the sequence control falls into \<open>default\<close> unless the operation starts.\<close>

definition connect_op_attempt ::
  "('i, 'e) iterator_ops \<Rightarrow> (error_code \<Rightarrow> 'i \<Rightarrow> 'i) \<Rightarrow> 'i \<Rightarrow> bool \<Rightarrow> error_code \<Rightarrow> 'i \<Rightarrow> 'e conn_socket
    \<Rightarrow> ('i, 'e) connect_action res" where
  "connect_op_attempt I connect_condition fin start ec iter s =
     (let iter = check_condition I connect_condition ec iter fin
      in if \<not> io_equal I iter fin
         then ebind (io_deref I iter) (\<lambda>e. Inr (Attempts iter e (socket_close_conn s)))
         else if start then Inr (Posts iter NOT_FOUND)
         else Inr (Calls_handler ec iter))"

definition connect_op_call ::
  "('i, 'e) iterator_ops \<Rightarrow> (error_code \<Rightarrow> 'i \<Rightarrow> 'i) \<Rightarrow> 'i \<Rightarrow> bool \<Rightarrow> error_code \<Rightarrow> 'i \<Rightarrow> 'e conn_socket
    \<Rightarrow> ('i, 'e) connect_action res" where
  "connect_op_call I connect_condition fin start ec iter s =
     (if start then connect_op_attempt I connect_condition fin True ec iter s
      else ebind (connect_op_default I fin ec iter s) (\<lambda>r.
        case r of Inl action \<Rightarrow> Inr action | Inr iter \<Rightarrow> connect_op_attempt I connect_condition fin False ec iter s))"

text \<open>The operation with the calls that follow from its actions, until it calls its handler.\<close>

partial_function (option) async_connect_run ::
  "('i, 'e) iterator_ops \<Rightarrow> 'e net \<Rightarrow> ('e \<Rightarrow> bool) \<Rightarrow> (error_code \<Rightarrow> 'i \<Rightarrow> 'i) \<Rightarrow> 'i \<Rightarrow> bool \<Rightarrow> error_code \<Rightarrow> 'i \<Rightarrow> 'e conn_socket
    \<Rightarrow> ('i \<times> error_code \<times> 'e conn_socket) res option" where
  "async_connect_run I net closes connect_condition fin start ec iter s =
     (case connect_op_call I connect_condition fin start ec iter s of
        Inl f \<Rightarrow> Some (Inl f)
      | Inr (Calls_handler ec iter) \<Rightarrow> Some (Inr (iter, ec, s))
      | Inr (Posts iter ec) \<Rightarrow> async_connect_run I net closes connect_condition fin False ec iter s
      | Inr (Attempts iter e s) \<Rightarrow>
          (case basic_socket_async_connect net closes e s of
             (ec, s) \<Rightarrow> async_connect_run I net closes connect_condition fin False ec iter s))"

definition async_connect_ec ::
  "('i, 'e) iterator_ops \<Rightarrow> 'e net \<Rightarrow> ('e \<Rightarrow> bool) \<Rightarrow> (error_code \<Rightarrow> 'i \<Rightarrow> 'i) \<Rightarrow> 'i \<Rightarrow> 'i \<Rightarrow> 'e conn_socket
    \<Rightarrow> ('i \<times> error_code \<times> 'e conn_socket) res option" where
  "async_connect_ec I net closes connect_condition begin fin s = async_connect_run I net closes connect_condition fin True None begin s"

definition async_connect_range ::
  "('i, 'e) iterator_ops \<Rightarrow> 'e net \<Rightarrow> ('e \<Rightarrow> bool) \<Rightarrow> 'i \<Rightarrow> 'i \<Rightarrow> 'e conn_socket
    \<Rightarrow> ('i \<times> error_code \<times> 'e conn_socket) res option" where
  "async_connect_range I net closes begin fin s = async_connect_ec I net closes default_connect_condition begin fin s"

subsection \<open>What the operations rely on\<close>

text \<open>\<open>at i es\<close>: \<open>es\<close> are the elements from \<open>i\<close> to the end of the sequence.\<close>

locale forward_iterator =
  fixes I :: "('i, 'e) iterator_ops"
    and fin :: 'i
    and at :: "'i \<Rightarrow> 'e list \<Rightarrow> bool"
  assumes at_fin: "at fin []"
    and at_end: "at i es \<Longrightarrow> io_equal I i fin \<longleftrightarrow> es = []"
    and at_deref: "at i (e # es) \<Longrightarrow> io_deref I i = Inr e"
    and at_next: "at i (e # es) \<Longrightarrow> \<exists>j. io_next I i = Inr j \<and> at j es"

definition error_of :: "'e net \<Rightarrow> 'e \<Rightarrow> error_code" where
  "error_of net e = (case nt_open net e of Some ec \<Rightarrow> Some ec | None \<Rightarrow> nt_connect net e)"

text \<open>The endpoints from the first that accepts.\<close>

fun remaining :: "'e net \<Rightarrow> 'e list \<Rightarrow> 'e list" where
  "remaining net [] = []"
| "remaining net (e # es) = (if error_of net e = None then e # es else remaining net es)"

text \<open>The end of a sequence of attempts: connected to the first endpoint that accepts, or the last error.\<close>

definition connect_result :: "'e net \<Rightarrow> 'e list \<Rightarrow> error_code \<Rightarrow> 'e conn_socket \<Rightarrow> bool" where
  "connect_result net es ec s \<longleftrightarrow>
     (case remaining net es of
        [] \<Rightarrow> ec = (if es = [] then NOT_FOUND else error_of net (last es)) \<and> (es \<noteq> [] \<longrightarrow> cs_peer s = None)
      | e # _ \<Rightarrow> ec = None \<and> s = \<lparr>cs_open = True, cs_peer = Some e\<rparr>)"

lemma attempt_result: "basic_socket_connect net e (socket_close_conn s) =
    (error_of net e, \<lparr>cs_open = (nt_open net e = None), cs_peer = (if error_of net e = None then Some e else None)\<rparr>)"
  by (auto simp: basic_socket_connect_def socket_close_conn_def service_connect_def error_of_def split: option.splits)

context forward_iterator
begin

lemma connect_loop_spec:
  "at i es \<Longrightarrow> ec \<noteq> None \<and> cs_peer s = None \<or> ec = None \<and> es \<noteq> [] \<Longrightarrow>
     \<exists>j ec' s'. connect_loop I net default_connect_condition fin i ec s = Some (Inr (j, ec', s'))
       \<and> at j (remaining net es)
       \<and> (case remaining net es of
            [] \<Rightarrow> ec' = (if es = [] then ec else error_of net (last es)) \<and> cs_peer s' = None
          | e # _ \<Rightarrow> ec' = None \<and> s' = \<lparr>cs_open = True, cs_peer = Some e\<rparr>)"
proof (induction es arbitrary: i ec s)
  case Nil
  then show ?case using at_end [OF Nil(1)] at_fin by (subst connect_loop.simps) auto
next
  case (Cons e es)
  obtain j where j: "io_next I i = Inr j" "at j es" using at_next [OF Cons.prems(1)] by blast
  let ?s = "\<lparr>cs_open = (nt_open net e = None), cs_peer = (if error_of net e = None then Some e else None)\<rparr>"
  have step: "connect_loop I net default_connect_condition fin i ec s =
    (case error_of net e of None \<Rightarrow> Some (Inr (i, None, ?s))
     | Some ec \<Rightarrow> connect_loop I net default_connect_condition fin j (Some ec) ?s)"
    using at_end [OF Cons.prems(1)] at_deref [OF Cons.prems(1)] j(1)
    by (subst connect_loop.simps) (auto simp: default_connect_condition_def attempt_result Let_def split: option.splits)
  show ?case
  proof (cases "error_of net e")
    case None
    then have "nt_open net e = None" by (simp add: error_of_def split: option.splits)
    then show ?thesis using None step Cons.prems(1) by simp
  next
    case (Some ec1)
    then have "at j es" "Some ec1 \<noteq> None \<and> cs_peer ?s = None \<or> Some ec1 = None \<and> es \<noteq> []" using j(2) by simp_all
    from Cons.IH [OF this] obtain j' ec' s' where
      r: "connect_loop I net default_connect_condition fin j (Some ec1) ?s = Some (Inr (j', ec', s'))" "at j' (remaining net es)"
        "case remaining net es of [] \<Rightarrow> ec' = (if es = [] then Some ec1 else error_of net (last es)) \<and> cs_peer s' = None
         | e # _ \<Rightarrow> ec' = None \<and> s' = \<lparr>cs_open = True, cs_peer = Some e\<rparr>" by blast
    show ?thesis using Some step r
      by (intro exI [where x = j'] exI [where x = ec'] exI [where x = s']) (cases "remaining net es"; simp)
  qed
qed

lemma connect_range_spec:
  assumes "at i es"
  shows "\<exists>j ec s'. connect_range I net i fin s = Some (Inr (j, ec, s'))
    \<and> at j (remaining net es) \<and> connect_result net es ec s'"
proof (cases "es = []")
  case True
  then show ?thesis using assms at_end [OF assms] at_fin
    by (simp add: connect_range_def connect_ec_def connect_loop.simps connect_result_def)
next
  case False
  then have "None \<noteq> (None :: error_code) \<and> cs_peer s = None \<or> (None :: error_code) = None \<and> es \<noteq> []" by simp
  from connect_loop_spec [OF assms this, of net] obtain j ec' s' where
    r: "connect_loop I net default_connect_condition fin i None s = Some (Inr (j, ec', s'))"
      "at j (remaining net es)"
      "case remaining net es of
            [] \<Rightarrow> ec' = (if es = [] then None else error_of net (last es)) \<and> cs_peer s' = None
          | e # _ \<Rightarrow> ec' = None \<and> s' = \<lparr>cs_open = True, cs_peer = Some e\<rparr>" by blast
  have "connect_result net es ec' s'"
    using r(3) False unfolding connect_result_def by (cases "remaining net es") simp_all
  then show ?thesis using r(1,2) by (simp add: connect_range_def connect_ec_def)
qed

text \<open>A resumed operation that has to go on tries the next endpoint.\<close>

lemma async_resume:
  assumes "at i (e # es)" and "ec \<noteq> None" and "cs_open s"
  shows "\<exists>j. at j es \<and> async_connect_run I net closes default_connect_condition fin False ec i s =
    (case es of [] \<Rightarrow> Some (Inr (j, ec, s))
     | e' # _ \<Rightarrow> (case basic_socket_async_connect net closes e' (socket_close_conn s) of
                   (ec, s) \<Rightarrow> async_connect_run I net closes default_connect_condition fin False ec j s))"
proof -
  obtain j where j: "io_next I i = Inr j" "at j es" using at_next [OF assms(1)] by blast
  have i: "\<not> io_equal I i fin" using at_end [OF assms(1)] by simp
  obtain x where x: "ec = Some x" using assms(2) by blast
  show ?thesis
  proof (cases es)
    case Nil
    then show ?thesis using j i x assms(3) at_end [OF j(2)]
      by (intro exI [where x = j], subst async_connect_run.simps)
        (simp add: connect_op_call_def connect_op_default_def connect_op_attempt_def check_condition_def Let_def)
  next
    case (Cons e' es')
    then have d: "io_deref I j = Inr e'" "\<not> io_equal I j fin" using at_deref j(2) at_end [OF j(2)] by auto
    then show ?thesis using j i x assms(3) Cons
      by (intro exI [where x = j], subst async_connect_run.simps)
        (simp add: connect_op_call_def connect_op_default_def connect_op_attempt_def check_condition_def default_connect_condition_def Let_def)
  qed
qed

lemma async_stops:
  assumes "at i (e # es)"
  shows "cs_open s \<Longrightarrow> async_connect_run I net closes default_connect_condition fin False None i s = Some (Inr (i, None, s))"
    and "\<not> cs_open s \<Longrightarrow> async_connect_run I net closes default_connect_condition fin False ec i s = Some (Inr (i, Some OperationAborted, s))"
  using at_end [OF assms] by (subst async_connect_run.simps, simp add: connect_op_call_def connect_op_default_def)+

definition after_attempt :: "'e net \<Rightarrow> ('e \<Rightarrow> bool) \<Rightarrow> 'i \<Rightarrow> 'e \<Rightarrow> 'e conn_socket \<Rightarrow> ('i \<times> error_code \<times> 'e conn_socket) res option" where
  "after_attempt net closes i e s =
     (case basic_socket_async_connect net closes e (socket_close_conn s) of
        (ec, s) \<Rightarrow> async_connect_run I net closes default_connect_condition fin False ec i s)"

lemma after_any: "after_attempt net closes i e s = after_attempt net closes i e t"
  by (simp add: after_attempt_def socket_close_conn_def)

text \<open>While every socket can be opened the operation goes through the endpoints like the synchronous one.\<close>

lemma async_attempts:
  "at i (e # es) \<Longrightarrow> \<forall>u \<in> set us. nt_open net u = None \<and> nt_connect net u \<noteq> None \<and> \<not> closes u \<Longrightarrow> e # es = us @ vs \<Longrightarrow>
     \<exists>j. at j vs \<and> after_attempt net closes i e s =
       (case vs of [] \<Rightarrow> Some (Inr (j, error_of net (last (e # es)), \<lparr>cs_open = True, cs_peer = None\<rparr>))
        | v # _ \<Rightarrow> after_attempt net closes j v s)"
proof (induction us arbitrary: i e es)
  case Nil
  then show ?case by (metis append_Nil list.simps(5))
next
  case (Cons u us)
  then have u: "u = e" "es = us @ vs" "nt_open net e = None" "nt_connect net e \<noteq> None" "\<not> closes e" by auto
  then have r: "basic_socket_async_connect net closes e (socket_close_conn t) = (error_of net e, \<lparr>cs_open = True, cs_peer = None\<rparr>)" for t
    by (auto simp: basic_socket_async_connect_def attempt_result error_of_def)
  have ec: "error_of net e \<noteq> None" using u by (simp add: error_of_def)
  have a: "after_attempt net closes i e s =
    async_connect_run I net closes default_connect_condition fin False (error_of net e) i \<lparr>cs_open = True, cs_peer = None\<rparr>"
    by (simp add: after_attempt_def r)
  obtain j where j: "at j es"
    "async_connect_run I net closes default_connect_condition fin False (error_of net e) i \<lparr>cs_open = True, cs_peer = None\<rparr> =
    (case es of [] \<Rightarrow> Some (Inr (j, error_of net e, \<lparr>cs_open = True, cs_peer = None\<rparr>))
     | e' # _ \<Rightarrow> after_attempt net closes j e' \<lparr>cs_open = True, cs_peer = None\<rparr>)"
    using async_resume [OF Cons.prems(1) ec, of "\<lparr>cs_open = True, cs_peer = None\<rparr>" net closes]
    unfolding after_attempt_def by auto
  note j = j(1) trans [OF a j(2)]
  note any = after_any [of net closes _ _ "\<lparr>cs_open = True, cs_peer = None\<rparr>" s]
  show ?case
  proof (cases es)
    case Nil
    then show ?thesis using j u(2) by (intro exI [where x = j]) simp
  next
    case (Cons e' es')
    then have "at j (e' # es')" "e' # es' = us @ vs" using j(1) u(2) by simp_all
    from Cons.IH [OF this(1) _ this(2)] Cons.prems(2) obtain j' where
      "at j' vs" "after_attempt net closes j e' s = (case vs of
        [] \<Rightarrow> Some (Inr (j', error_of net (last (e' # es')), \<lparr>cs_open = True, cs_peer = None\<rparr>))
      | v # _ \<Rightarrow> after_attempt net closes j' v s)" by auto
    then show ?thesis using Cons j(2) any [of j e'] by (intro exI [where x = j']) (simp split: list.splits)
  qed
qed

lemma async_start: "at i (e # es) \<Longrightarrow> async_connect_range I net closes i fin s = after_attempt net closes i e s"
  using at_end [of i "e # es"] at_deref [of i e es]
  by (simp add: async_connect_range_def async_connect_ec_def after_attempt_def, subst async_connect_run.simps)
    (simp add: connect_op_call_def connect_op_attempt_def check_condition_def default_connect_condition_def Let_def)

lemma async_empty: "at i [] \<Longrightarrow> async_connect_range I net closes i fin s = Some (Inr (i, NOT_FOUND, s))"
  using at_end [of i "[]"]
  by (simp add: async_connect_range_def async_connect_ec_def async_connect_run.simps connect_op_call_def connect_op_attempt_def
      connect_op_default_def check_condition_def Let_def)

end

lemma remaining_split: "\<exists>us. es = us @ remaining net es \<and> (\<forall>u \<in> set us. error_of net u \<noteq> None)"
proof (induction es)
  case (Cons e es)
  then obtain us where "es = us @ remaining net es" "\<forall>u \<in> set us. error_of net u \<noteq> None" by blast
  then show ?case
  proof (cases "error_of net e = None")
    case False
    then have "e # es = (e # us) @ remaining net (e # es)" "\<forall>u \<in> set (e # us). error_of net u \<noteq> None"
      using \<open>es = us @ remaining net es\<close> \<open>\<forall>u \<in> set us. error_of net u \<noteq> None\<close> by simp_all
    then show ?thesis by blast
  qed simp
qed simp

lemma remaining_head: "remaining net es = v # vs \<Longrightarrow> error_of net v = None"
  by (induction es) (auto split: if_splits)

lemma remaining_append: "\<forall>u \<in> set us. error_of net u \<noteq> None \<Longrightarrow> remaining net (us @ vs) = remaining net vs"
  by (induction us) auto

context forward_iterator
begin

lemma async_connect_spec:
  assumes i: "at i es" and ok: "\<forall>e \<in> set es. nt_open net e = None \<and> \<not> closes e" and ec: "connect_result net es ec s'"
  shows "\<exists>j t. async_connect_range I net closes i fin s = Some (Inr (j, ec, t))
    \<and> at j (remaining net es) \<and> connect_result net es ec t"
proof (cases es)
  case Nil
  then show ?thesis using i ec by (intro exI [where x = i] exI [where x = s]) (simp add: async_empty connect_result_def)
next
  case es: (Cons e es')
  obtain us vs where us: "es = us @ vs" "vs = remaining net es" "\<forall>u \<in> set us. error_of net u \<noteq> None"
    using remaining_split by blast
  have fails: "\<forall>u \<in> set us. nt_open net u = None \<and> nt_connect net u \<noteq> None \<and> \<not> closes u"
    using us(1,3) ok by (auto simp: error_of_def)
  have i': "at i (e # es')" "e # es' = us @ vs" using i us(1) es by simp_all
  from async_attempts [OF i'(1) fails i'(2), of s] obtain j where
    j: "at j vs" "after_attempt net closes i e s = (case vs of
        [] \<Rightarrow> Some (Inr (j, error_of net (last (e # es')), \<lparr>cs_open = True, cs_peer = None\<rparr>))
      | v # _ \<Rightarrow> after_attempt net closes j v s)" by blast
  note start = async_start [OF i'(1), of net closes s]
  show ?thesis
  proof (cases vs)
    case Nil
    then show ?thesis using j ec start us(2) es by (auto simp: connect_result_def)
  next
    case (Cons v ws)
    then have v: "nt_open net v = None" "\<not> closes v" using ok us(1) by simp_all
    have ev: "error_of net v = None" using remaining_head Cons us(2) by metis
    let ?t = "\<lparr>cs_open = True, cs_peer = Some v\<rparr>"
    have "basic_socket_async_connect net closes v (socket_close_conn s) = (None, ?t)"
      using v ev by (simp add: basic_socket_async_connect_def attempt_result)
    then have "after_attempt net closes j v s = Some (Inr (j, None, ?t))"
      using async_stops(1) [OF j(1) [unfolded Cons], of ?t] by (simp add: after_attempt_def)
    then show ?thesis using j ec Cons start us(2) es by (auto simp: connect_result_def split: list.splits)
  qed
qed

lemma async_open_fails:
  assumes i: "at i (us @ e # vs)" and us: "\<forall>u \<in> set us. nt_open net u = None \<and> nt_connect net u \<noteq> None \<and> \<not> closes u"
    and e: "nt_open net e \<noteq> None"
  shows "\<exists>j. at j (e # vs) \<and>
    async_connect_range I net closes i fin s = Some (Inr (j, Some OperationAborted, \<lparr>cs_open = False, cs_peer = None\<rparr>))"
proof -
  obtain x xs where x: "us @ e # vs = x # xs" by (cases us) auto
  from async_attempts [OF i [unfolded x] us x [symmetric], of s] obtain j where
    j: "at j (e # vs)" "after_attempt net closes i x s = after_attempt net closes j e s" by auto
  obtain ec where "basic_socket_async_connect net closes e (socket_close_conn s) = (ec, \<lparr>cs_open = False, cs_peer = None\<rparr>)"
    using e by (auto simp: basic_socket_async_connect_def basic_socket_connect_def socket_close_conn_def)
  then have "after_attempt net closes j e s = Some (Inr (j, Some OperationAborted, \<lparr>cs_open = False, cs_peer = None\<rparr>))"
    using async_stops(2) [OF j(1), of "\<lparr>cs_open = False, cs_peer = None\<rparr>"] by (simp add: after_attempt_def)
  then show ?thesis using j async_start [OF i [unfolded x]] by auto
qed

end

subsection \<open>The iterator of the resolver\<close>

definition resolver_at :: "resolver_iterator \<Rightarrow> resolver_entry list \<Rightarrow> bool" where
  "resolver_at i es \<longleftrightarrow>
     (case ri_values i of None \<Rightarrow> es = [] | Some (v, entries) \<Rightarrow> ri_index i < length entries \<and> es = drop (ri_index i) entries)"

interpretation resolver: forward_iterator resolver_ops end_iterator resolver_at
proof
  fix i :: resolver_iterator and e es
  assume at: "resolver_at i (e # es)"
  then obtain v entries where v: "ri_values i = Some (v, entries)" "ri_index i < length entries" "drop (ri_index i) entries = e # es"
    by (auto simp: resolver_at_def split: option.splits)
  then show "io_deref resolver_ops i = Inr e"
    by (simp add: resolver_ops_def iterator_dereference_def) (metis Cons_nth_drop_Suc list.inject)
  have es: "es = drop (Suc (ri_index i)) entries" using v(2,3) by (metis Cons_nth_drop_Suc list.inject)
  show "\<exists>j. io_next resolver_ops i = Inr j \<and> resolver_at j es"
    using v es by (auto simp: resolver_ops_def iterator_increment_def resolver_at_def)
qed (auto simp: resolver_at_def resolver_ops_def iterator_equal_def end_iterator_def split: option.splits)

lemma collect_entries_map:
  "collect_entries host service as entries = entries @ map (\<lambda>a. \<lparr>re_endpoint = ai_addr a, re_host_name = host, re_service_name = service\<rparr>)
     (filter (\<lambda>a. ai_family a = Inet \<or> ai_family a = Inet6) as)"
  by (induction as arbitrary: entries) simp_all

text \<open>
  The iterator over the results of \<open>getaddrinfo\<close> passes the internet addresses in their order. When the list has entries
  but none of them is an internet address, the iterator is not the end, and dereferencing it reads outside the vector.
\<close>

theorem create_iterator_entries:
  "let is_inet = (\<lambda>a. ai_family a = Inet \<or> ai_family a = Inet6);
       host = (case as of a # _ \<Rightarrow> (case ai_canonname a of Some n \<Rightarrow> n | None \<Rightarrow> host_name) | [] \<Rightarrow> host_name)
   in (if as = [] \<or> (\<exists>a \<in> set as. is_inet a)
       then resolver_at (create_iterator v as host_name service_name)
              (map (\<lambda>a. \<lparr>re_endpoint = ai_addr a, re_host_name = host, re_service_name = service_name\<rparr>) (filter is_inet as))
       else \<not> iterator_equal (create_iterator v as host_name service_name) end_iterator
         \<and> iterator_dereference (create_iterator v as host_name service_name) = Inl (Undefined OutOfBounds))"
proof (cases as)
  case Nil
  then show ?thesis by (simp add: create_iterator_def resolver_at_def end_iterator_def)
next
  case (Cons a as')
  show ?thesis
    unfolding Let_def create_iterator_def Cons list.case
    by (auto simp: resolver_at_def end_iterator_def iterator_equal_def iterator_dereference_def collect_entries_map filter_empty_conv)
qed


lemma resolver_at_create:
  "resolver_at (create_from_endpoints v es host service)
     (map (\<lambda>e. \<lparr>re_endpoint = e, re_host_name = host, re_service_name = service\<rparr>) es)"
  by (simp add: create_from_endpoints_def resolver_at_def end_iterator_def)

subsection \<open>What connecting promises\<close>

text \<open>
  C28. Over the results of a resolver, \<open>connect\<close> ends: it leaves the socket connected to the first endpoint that can be opened
  and connected, without an error and with the iterator at that endpoint, or, if there is none, it returns the end with the error of the
  last endpoint, or \<open>not_found\<close> for no endpoint at all. \<open>async_connect\<close> gives its handler the same result when every
  endpoint can be opened and the program does not close the socket meanwhile.
\<close>

theorem connect_finds_first:
  assumes i: "resolver_at i es"
  shows "\<exists>j ec s'. connect_range resolver_ops net i end_iterator s = Some (Inr (j, ec, s'))
      \<and> resolver_at j (remaining net es) \<and> connect_result net es ec s'
      \<and> ((\<forall>e \<in> set es. nt_open net e = None \<and> \<not> closes e) \<longrightarrow>
          (\<exists>j' t'. async_connect_range resolver_ops net closes i end_iterator t = Some (Inr (j', ec, t'))
            \<and> resolver_at j' (remaining net es) \<and> connect_result net es ec t'))"
  using resolver.connect_range_spec [OF i, of net s] resolver.async_connect_spec [OF i, of net closes _ _ t] by metis

definition two_entries :: "resolver_entry list" where
  "two_entries = map (\<lambda>e. \<lparr>re_endpoint = e, re_host_name = ''h'', re_service_name = ''6667''\<rparr>) [''v6'', ''v4'']"

definition refuses :: "(string \<Rightarrow> error_code) \<Rightarrow> (string \<Rightarrow> error_code) \<Rightarrow> resolver_entry net" where
  "refuses opens connects = \<lparr>nt_open = (\<lambda>e. opens (re_endpoint e)), nt_connect = (\<lambda>e. connects (re_endpoint e))\<rparr>"

lemma two_entries_at: "resolver_at (create_from_endpoints 0 [''v6'', ''v4''] ''h'' ''6667'') two_entries"
  unfolding two_entries_def by (rule resolver_at_create)

theorem connect_finds_first_witness:
  "\<exists>j s'. connect_range resolver_ops (refuses (\<lambda>e. None) (\<lambda>e. if e = ''v6'' then Some (SysError 111) else None))
       (create_from_endpoints 0 [''v6'', ''v4''] ''h'' ''6667'') end_iterator \<lparr>cs_open = False, cs_peer = None\<rparr>
     = Some (Inr (j, None, s')) \<and> resolver_at j [two_entries ! 1] \<and> cs_peer s' = Some (two_entries ! 1)"
proof -
  let ?net = "refuses (\<lambda>e. None) (\<lambda>e. if e = ''v6'' then Some (SysError 111) else None)"
  have r: "remaining ?net two_entries = [two_entries ! 1]" by (simp add: two_entries_def refuses_def error_of_def)
  then have "connect_result ?net two_entries ec s \<Longrightarrow> ec = None \<and> cs_peer s = Some (two_entries ! 1)" for ec s
    by (simp add: connect_result_def)
  then show ?thesis
    using connect_finds_first [OF two_entries_at, of ?net "\<lparr>cs_open = False, cs_peer = None\<rparr>" "\<lambda>e. False" "\<lparr>cs_open = False, cs_peer = None\<rparr>"]
    unfolding r by blast
qed

text \<open>
  C31. When the socket cannot be opened for an endpoint, the two operations differ: \<open>async_connect\<close> ends there with
  \<open>operation_aborted\<close> and never tries the endpoints behind it, while \<open>connect\<close> goes on to them.
\<close>

theorem async_connect_stops_at_open_failure:
  assumes i: "resolver_at i (us @ e # vs)"
    and us: "\<forall>u \<in> set us. nt_open net u = None \<and> nt_connect net u \<noteq> None \<and> \<not> closes u"
    and e: "nt_open net e \<noteq> None"
  shows "(\<exists>j. resolver_at j (e # vs) \<and> async_connect_range resolver_ops net closes i end_iterator s
            = Some (Inr (j, Some OperationAborted, \<lparr>cs_open = False, cs_peer = None\<rparr>)))
    \<and> (\<exists>j ec s'. connect_range resolver_ops net i end_iterator s = Some (Inr (j, ec, s'))
            \<and> resolver_at j (remaining net vs) \<and> connect_result net (e # vs) ec s')"
proof -
  have "\<forall>u \<in> set (us @ [e]). error_of net u \<noteq> None" using us e by (auto simp: error_of_def split: option.splits)
  then have r: "remaining net (us @ e # vs) = remaining net vs" "remaining net (e # vs) = remaining net vs"
    using remaining_append [of "us @ [e]" net vs] remaining_append [of "[e]" net vs] by simp_all
  have "connect_result net (us @ e # vs) ec t \<Longrightarrow> connect_result net (e # vs) ec t" for ec t
    unfolding connect_result_def r by (cases vs) (auto split: list.splits if_splits)
  then show ?thesis
    using resolver.async_open_fails [OF i us e, of s] resolver.connect_range_spec [OF i, of net s] r(1) by metis
qed

theorem async_connect_stops_at_open_failure_witness:
  "let net = refuses (\<lambda>e. if e = ''v6'' then Some (SysError 97) else None) (\<lambda>e. None);
       i = create_from_endpoints 0 [''v6'', ''v4''] ''h'' ''6667''; s = \<lparr>cs_open = False, cs_peer = None\<rparr>
   in (\<exists>j t. async_connect_range resolver_ops net (\<lambda>e. False) i end_iterator s = Some (Inr (j, Some OperationAborted, t)))
    \<and> (\<exists>j t. connect_range resolver_ops net i end_iterator s = Some (Inr (j, None, t)) \<and> cs_peer t = Some (two_entries ! 1))"
proof -
  let ?net = "refuses (\<lambda>e. if e = ''v6'' then Some (SysError 97) else None) (\<lambda>e. None)"
  have "resolver_at (create_from_endpoints 0 [''v6'', ''v4''] ''h'' ''6667'') ([] @ two_entries ! 0 # [two_entries ! 1])"
    using two_entries_at by (simp add: two_entries_def)
  from async_connect_stops_at_open_failure [OF this, of ?net "\<lambda>e. False" "\<lparr>cs_open = False, cs_peer = None\<rparr>"]
  show ?thesis by (auto simp: Let_def two_entries_def refuses_def connect_result_def error_of_def)
qed

text \<open>
  A condition may skip an endpoint by returning an iterator behind it, and then the end when none is left. The synchronous loop
  increments whatever the condition returned: at the end of a resolver's sequence that is an increment past the end. The
  asynchronous operation reports \<open>not_found\<close>.
\<close>

lemma connect_condition_overruns:
  assumes "resolver_at i (e # es)"
  shows "connect_ec resolver_ops net (\<lambda>ec nxt. end_iterator) i end_iterator s = Some (Inl (Undefined NullDeref))"
    and "async_connect_ec resolver_ops net closes (\<lambda>ec nxt. end_iterator) i end_iterator s = Some (Inr (end_iterator, NOT_FOUND, s))"
proof -
  note r = resolver.at_end [OF assms] resolver.at_end [OF resolver.at_fin]
  show "connect_ec resolver_ops net (\<lambda>ec nxt. end_iterator) i end_iterator s = Some (Inl (Undefined NullDeref))"
    using r by (simp add: connect_ec_def connect_loop.simps resolver_ops_def iterator_increment_def end_iterator_def Let_def)
  show "async_connect_ec resolver_ops net closes (\<lambda>ec nxt. end_iterator) i end_iterator s = Some (Inr (end_iterator, NOT_FOUND, s))"
    using r by (simp add: async_connect_ec_def connect_op_call_def connect_op_attempt_def connect_op_default_def check_condition_def Let_def
        async_connect_run.simps [where start = True] async_connect_run.simps [where start = False])
qed

end
