(* ===== verification/Asio_Chrono.thy ===== *)
theory Asio_Chrono
  imports Asio_Timer_Set "HOL-Library.Signed_Division"
begin

text \<open>
  The clock behind the timers: src/asio/include/asio/detail/chrono_time_traits.hpp for a clock that counts in an
  \<open>int64_t\<close>. Times and durations are integers; every operation that would leave the range of \<open>int64_t\<close> is a failure,
  so that the theorems say that none does. \<open>chrono_until\<close> gives the durations on which the waiting times of
  \<open>Asio_Timer_Set\<close> are computed.
\<close>

subsection \<open>Adding and subtracting\<close>

definition i64_max :: int where
  "i64_max = 9223372036854775807"

definition i64_min :: int where
  "i64_min = - 9223372036854775808"

definition i64 :: "int \<Rightarrow> int res" where
  "i64 x = (if i64_min \<le> x \<and> x \<le> i64_max then Inr x else Inl (Undefined SignedOverflow))"

text \<open>Times are counted from the epoch, 0.\<close>

definition time_add :: "int \<Rightarrow> int \<Rightarrow> int res" where
  "time_add t d =
     (if t \<ge> 0
      then ebind (i64 (i64_max - t)) (\<lambda>room. if room < d then Inr i64_max else i64 (t + d))
      else ebind (i64 (t - i64_min)) (\<lambda>room. ebind (i64 (- room)) (\<lambda>room. if room > d then Inr i64_min else i64 (t + d))))"

definition time_subtract :: "int \<Rightarrow> int \<Rightarrow> int res" where
  "time_subtract t1 t2 =
     (if t1 \<ge> 0
      then if t2 \<ge> 0 then i64 (t1 - t2)
        else if t2 = i64_min then Inr i64_max
        else ebind (i64 (i64_max - t1)) (\<lambda>room. ebind (i64 (0 - t2)) (\<lambda>d.
          if room < d then Inr i64_max else i64 (t1 - t2)))
      else if t2 < 0 then i64 (t1 - t2)
        else if t1 = i64_min then Inr i64_min
        else ebind (i64 (i64_max - t2)) (\<lambda>room. ebind (i64 (0 - t1)) (\<lambda>d.
          if room < d then Inr i64_min else ebind (i64 (t2 - t1)) (\<lambda>r. i64 (- r)))))"

definition time_less_than :: "int \<Rightarrow> int \<Rightarrow> bool" where
  "time_less_than t1 t2 \<longleftrightarrow> t1 < t2"

subsection \<open>Durations in other units\<close>

fun template_gcd :: "nat \<Rightarrow> nat \<Rightarrow> nat" where
  "template_gcd v1 v2 = (if v2 = 0 then v1 else template_gcd v2 (v1 mod v2))"

declare template_gcd.simps [simp del]

text \<open>
  \<open>duration_cast<to_num, to_den>\<close> for a clock with a period of \<open>num / den\<close> seconds; the constants are computed at compile time.
\<close>

definition duration_cast :: "nat \<Rightarrow> nat \<Rightarrow> nat \<Rightarrow> nat \<Rightarrow> int \<Rightarrow> int res" where
  "duration_cast period_num period_den to_num to_den ticks =
     (let num1 = period_num div template_gcd period_num to_num;
          num2 = to_num div template_gcd period_num to_num;
          den1 = period_den div template_gcd period_den to_den;
          den2 = to_den div template_gcd period_den to_den;
          num = num1 * den2;
          den = num2 * den1
      in if num = 1 \<and> den = 1 then Inr ticks
         else if num \<noteq> 1 \<and> den = 1 then i64 (ticks * int num)
         else if num = 1 \<and> period_den \<noteq> 1 then Inr (ticks sdiv int den)
         else ebind (i64 (ticks * int num)) (\<lambda>x. Inr (x sdiv int den)))"

definition total_seconds :: "nat \<Rightarrow> nat \<Rightarrow> int \<Rightarrow> int res" where
  "total_seconds period_num period_den ticks = duration_cast period_num period_den 1 1 ticks"

definition total_milliseconds :: "nat \<Rightarrow> nat \<Rightarrow> int \<Rightarrow> int res" where
  "total_milliseconds period_num period_den ticks = duration_cast period_num period_den 1 1000 ticks"

definition total_microseconds :: "nat \<Rightarrow> nat \<Rightarrow> int \<Rightarrow> int res" where
  "total_microseconds period_num period_den ticks = duration_cast period_num period_den 1 1000000 ticks"

text \<open>
  \<open>to_posix_duration(subtract(time, now))\<close>; the wait traits of the library return the duration as it is.
\<close>

definition to_posix_duration :: "nat \<Rightarrow> nat \<Rightarrow> int \<Rightarrow> duration res" where
  "to_posix_duration period_num period_den d =
     ebind (total_milliseconds period_num period_den d) (\<lambda>msec.
       ebind (total_microseconds period_num period_den d) (\<lambda>usec. Inr \<lparr>du_ticks = d, du_msec = msec, du_usec = usec\<rparr>))"

definition chrono_until :: "nat \<Rightarrow> nat \<Rightarrow> int \<Rightarrow> int \<Rightarrow> duration res" where
  "chrono_until period_num period_den now time = ebind (time_subtract time now) (to_posix_duration period_num period_den)"

subsection \<open>What they compute\<close>

definition in_range :: "int \<Rightarrow> bool" where
  "in_range x \<longleftrightarrow> i64_min \<le> x \<and> x \<le> i64_max"

definition saturate :: "int \<Rightarrow> int" where
  "saturate x = max i64_min (min i64_max x)"

lemma i64_ranges [simp]:
  "in_range x \<Longrightarrow> i64 x = Inr x" "\<not> in_range x \<Longrightarrow> i64 x = Inl (Undefined SignedOverflow)"
  by (auto simp: i64_def in_range_def)

lemma i64_cases: "i64 x = (if in_range x then Inr x else Inl (Undefined SignedOverflow))"
  by simp

lemmas i64_bounds = in_range_def i64_max_def i64_min_def

lemma saturate_in_range: "in_range x \<Longrightarrow> saturate x = x"
  by (simp add: saturate_def in_range_def)

lemma time_add_saturates: "in_range t \<Longrightarrow> in_range d \<Longrightarrow> time_add t d = Inr (saturate (t + d))"
  by (auto simp: time_add_def saturate_def i64_cases i64_bounds)

lemma time_subtract_saturates: "in_range t1 \<Longrightarrow> in_range t2 \<Longrightarrow> time_subtract t1 t2 = Inr (saturate (t1 - t2))"
proof (cases "0 \<le> t1"; cases "0 \<le> t2")
  assume a: "in_range t1" "in_range t2" "0 \<le> t1" "0 \<le> t2"
  then have "in_range (t1 - t2)" by (simp add: i64_bounds)
  with a show ?thesis by (simp add: time_subtract_def saturate_in_range)
next
  assume a: "in_range t1" "in_range t2" "0 \<le> t1" "\<not> 0 \<le> t2"
  then have "in_range (i64_max - t1)" "t2 \<noteq> i64_min \<Longrightarrow> in_range (0 - t2)"
      "\<not> i64_max - t1 < 0 - t2 \<Longrightarrow> in_range (t1 - t2)" "i64_max - t1 < 0 - t2 \<Longrightarrow> saturate (t1 - t2) = i64_max"
      "t2 = i64_min \<Longrightarrow> saturate (t1 - t2) = i64_max"
    by (simp_all add: i64_bounds saturate_def)
  with a show ?thesis by (simp add: time_subtract_def saturate_in_range)
next
  assume a: "in_range t1" "in_range t2" "\<not> 0 \<le> t1" "0 \<le> t2"
  then have "in_range (i64_max - t2)" "t1 \<noteq> i64_min \<Longrightarrow> in_range (0 - t1)"
      "\<not> i64_max - t2 < 0 - t1 \<Longrightarrow> in_range (t2 - t1)" "\<not> i64_max - t2 < 0 - t1 \<Longrightarrow> in_range (t1 - t2)"
      "i64_max - t2 < 0 - t1 \<Longrightarrow> saturate (t1 - t2) = i64_min" "t1 = i64_min \<Longrightarrow> saturate (t1 - t2) = i64_min"
    by (simp_all add: i64_bounds saturate_def)
  with a show ?thesis by (simp add: time_subtract_def saturate_in_range)
next
  assume a: "in_range t1" "in_range t2" "\<not> 0 \<le> t1" "\<not> 0 \<le> t2"
  then have "in_range (t1 - t2)" by (simp add: i64_bounds)
  with a show ?thesis by (simp add: time_subtract_def saturate_in_range)
qed

lemma template_gcd_gcd: "template_gcd a b = gcd a b"
proof (induction a b rule: template_gcd.induct)
  case (1 a b)
  show ?case by (subst template_gcd.simps) (metis 1 gcd_red_nat gcd_0_nat)
qed

lemma sdiv_cancel:
  assumes "0 < (c :: int)" and "0 < b"
  shows "(a * c) sdiv (b * c) = a sdiv b"
proof (cases "0 \<le> a")
  case True
  then show ?thesis using assms by (simp add: signed_divide_int_def sgn_mult abs_mult)
next
  case False
  have "- (a * c) div (b * c) = - a div b" using assms by (metis div_mult_mult2 less_irrefl mult_minus_left)
  then show ?thesis using False assms by (simp add: signed_divide_int_def sgn_mult abs_mult)
qed


text \<open>Converting a duration truncates its exact value, unless the product with the numerator leaves the range.\<close>

lemma duration_cast_exact:
  assumes pos: "0 < pn" "0 < pd" "0 < tn" "0 < td" and r: "in_range (ticks * int (pn div gcd pn tn * (td div gcd pd td)))"
  shows "duration_cast pn pd tn td ticks = Inr ((ticks * int (pn * td)) sdiv int (pd * tn))"
proof -
  define num where "num = pn div gcd pn tn * (td div gcd pd td)"
  define den where "den = tn div gcd pn tn * (pd div gcd pd td)"
  define m where "m = gcd pn tn * gcd pd td"
  have parts: "pn = pn div gcd pn tn * gcd pn tn" "td = td div gcd pd td * gcd pd td"
      "pd = pd div gcd pd td * gcd pd td" "tn = tn div gcd pn tn * gcd pn tn" by simp_all
  have "pn * td = num * m" unfolding num_def m_def by (subst parts(1), subst parts(2)) (simp only: ac_simps)
  moreover have "pd * tn = den * m" unfolding den_def m_def by (subst parts(3), subst parts(4)) (simp only: ac_simps)
  moreover have "0 < m" using pos by (simp add: m_def)
  ultimately have m: "pn * td = num * m" "pd * tn = den * m" "0 < m" by simp_all
  have den: "0 < den" using m(2) pos by (metis nat_0_less_mult_iff)
  have "(ticks * int (pn * td)) sdiv int (pd * tn) = (ticks * int num) sdiv int den"
    using sdiv_cancel [of "int m" "int den" "ticks * int num"] m(3) den by (simp add: m(1,2) mult.assoc)
  moreover have "duration_cast pn pd tn td ticks = Inr ((ticks * int num) sdiv int den)"
  proof -
    have "duration_cast pn pd tn td ticks =
        (if num = 1 \<and> den = 1 then Inr ticks
         else if num \<noteq> 1 \<and> den = 1 then i64 (ticks * int num)
         else if num = 1 \<and> pd \<noteq> 1 then Inr (ticks sdiv int den)
         else ebind (i64 (ticks * int num)) (\<lambda>x. Inr (x sdiv int den)))"
      by (simp only: duration_cast_def template_gcd_gcd Let_def num_def den_def)
    then show ?thesis using r [folded num_def] by auto
  qed
  ultimately show ?thesis by simp
qed

subsection \<open>The timers of a clock that counts nanoseconds\<close>

lemma sdiv_positive: "0 < d \<Longrightarrow> 0 < n \<Longrightarrow> d sdiv n = d div (n :: int)"
  by (simp add: signed_divide_int_def)

lemma nanoseconds:
  assumes "in_range d"
  shows "to_posix_duration 1 1000000000 d = Inr \<lparr>du_ticks = d, du_msec = d sdiv 1000000, du_usec = d sdiv 1000\<rparr>"
proof -
  have "total_milliseconds 1 1000000000 d = Inr ((d * 1000) sdiv (1000000 * 1000))"
    using duration_cast_exact [of 1 1000000000 1 1000 d] assms by (simp add: total_milliseconds_def)
  moreover have "total_microseconds 1 1000000000 d = Inr ((d * 1000000) sdiv (1000 * 1000000))"
    using duration_cast_exact [of 1 1000000000 1 1000000 d] assms by (simp add: total_microseconds_def)
  ultimately show ?thesis
    using sdiv_cancel [of 1000 1000000 d] sdiv_cancel [of 1000000 1000 d] by (simp add: to_posix_duration_def)
qed

lemma saturate_range: "in_range (saturate x)"
  by (simp add: saturate_def i64_bounds)

lemma nanoseconds_until:
  "in_range t \<Longrightarrow> in_range now \<Longrightarrow> chrono_until 1 1000000000 now t = Inr (let d = saturate (t - now) in
     \<lparr>du_ticks = d, du_msec = d sdiv 1000000, du_usec = d sdiv 1000\<rparr>)"
  by (simp add: chrono_until_def time_subtract_saturates nanoseconds [simplified] saturate_range Let_def)

text \<open>The time that is waited for a timer, in milliseconds and in microseconds.\<close>

definition wait_for :: "int \<Rightarrow> int \<Rightarrow> int \<Rightarrow> int" where
  "wait_for unit_ns max_duration d = (if d \<le> 0 then 0 else if d < unit_ns then 1 else min max_duration (d div unit_ns))"

lemma wait_for_saturate:
  assumes "m < 9223372036854" and "0 < d"
  shows "min m (saturate d div 1000000) = min m (d div 1000000)" and "min m (saturate d div 1000) = min m (d div 1000)"
    and "0 < saturate d" and "saturate d < 1000000 \<longleftrightarrow> d < 1000000" and "saturate d < 1000 \<longleftrightarrow> d < 1000"
proof -
  have s: "saturate d = (if d \<le> i64_max then d else i64_max)" using assms(2) by (simp add: saturate_def i64_bounds)
  have "i64_max < d \<Longrightarrow> i64_max div 1000000 \<le> d div 1000000 \<and> i64_max div 1000 \<le> d div 1000"
    by (simp add: zdiv_mono1)
  moreover have "m < i64_max div 1000000" "m < i64_max div 1000" using assms(1) by (simp_all add: i64_max_def)
  ultimately show "min m (saturate d div 1000000) = min m (d div 1000000)" and "min m (saturate d div 1000) = min m (d div 1000)"
    using s by auto
  show "0 < saturate d" and "saturate d < 1000000 \<longleftrightarrow> d < 1000000" and "saturate d < 1000 \<longleftrightarrow> d < 1000"
    using s assms(2) by (simp_all add: i64_max_def)
qed

lemma wait_units:
  fixes t now m :: int
  assumes "in_range t" and "in_range now" and "1 \<le> m" and "m < 9223372036854" and "chrono_until 1 1000000000 now t = Inr d"
  shows "to_msec d m = wait_for 1000000 m (t - now)" and "to_usec d m = wait_for 1000 m (t - now)"
proof -
  have d: "d = (let d = saturate (t - now) in \<lparr>du_ticks = d, du_msec = d sdiv 1000000, du_usec = d sdiv 1000\<rparr>)"
    using nanoseconds_until [OF assms(1,2)] assms(5) by simp
  show "to_msec d m = wait_for 1000000 m (t - now)"
  proof (cases "0 < t - now")
    case True
    note w = wait_for_saturate [OF assms(4) True]
    have z: "saturate (t - now) div 1000000 = 0 \<longleftrightarrow> t - now < 1000000" using w(3,4) by (simp add: zdiv_eq_0_iff)
    show ?thesis using True w(1,3) z assms(3) by (auto simp: d to_msec_def wait_for_def Let_def sdiv_positive min_def split: if_splits)
  next
    case False
    then have "saturate (t - now) \<le> 0" by (simp add: saturate_def i64_bounds)
    then show ?thesis using False by (simp add: d to_msec_def wait_for_def Let_def)
  qed
  show "to_usec d m = wait_for 1000 m (t - now)"
  proof (cases "0 < t - now")
    case True
    note w = wait_for_saturate [OF assms(4) True]
    have z: "saturate (t - now) div 1000 = 0 \<longleftrightarrow> t - now < 1000" using w(3,5) by (simp add: zdiv_eq_0_iff)
    show ?thesis using True w(2,3) z assms(3) by (auto simp: d to_usec_def wait_for_def Let_def sdiv_positive min_def split: if_splits)
  next
    case False
    then have "saturate (t - now) \<le> 0" by (simp add: saturate_def i64_bounds)
    then show ?thesis using False by (simp add: d to_usec_def wait_for_def Let_def)
  qed
qed

subsection \<open>Any clock\<close>

text \<open>
  The product with the numerator of the reduced factor, which is computed first; \<open>reduced\<close> is that numerator for a
  period of \<open>pn / pd\<close> seconds and units of \<open>1 / td\<close> seconds.
\<close>

definition reduced :: "nat \<Rightarrow> nat \<Rightarrow> nat \<Rightarrow> int" where
  "reduced pn pd td = int (pn * (td div gcd pd td))"

lemma duration_cast_unit:
  assumes pos: "0 < pn" "0 < pd" "0 < td" and d: "in_range d"
  shows "duration_cast pn pd 1 td d =
    (if in_range (d * reduced pn pd td) then Inr ((d * int (pn * td)) sdiv int pd) else Inl (Undefined SignedOverflow))"
proof (cases "in_range (d * reduced pn pd td)")
  case True
  then have r: "in_range (d * int (pn div gcd pn 1 * (td div gcd pd td)))" by (simp add: reduced_def)
  show ?thesis using True duration_cast_exact [OF pos(1,2) _ pos(3) r] by simp
next
  case False
  define n where "n = pn div gcd pn 1 * (td div gcd pd td)"
  define e where "e = 1 div gcd pn 1 * (pd div gcd pd td)"
  have n: "int n = reduced pn pd td" by (simp add: n_def reduced_def)
  have "reduced pn pd td \<noteq> 1" using False d by auto
  then have "n \<noteq> 1" by (metis n of_nat_1)
  moreover have "duration_cast pn pd 1 td d =
      (if n = 1 \<and> e = 1 then Inr d else if n \<noteq> 1 \<and> e = 1 then i64 (d * int n)
       else if n = 1 \<and> pd \<noteq> 1 then Inr (d sdiv int e) else ebind (i64 (d * int n)) (\<lambda>x. Inr (x sdiv int e)))"
    by (simp only: duration_cast_def template_gcd_gcd Let_def n_def e_def)
  ultimately have "duration_cast pn pd 1 td d = (if e = 1 then i64 (d * reduced pn pd td)
      else ebind (i64 (d * reduced pn pd td)) (\<lambda>x. Inr (x sdiv int e)))"
    by (simp add: n)
  then show ?thesis using False by simp
qed

lemma chrono_until_any:
  assumes pos: "0 < pn" "0 < pd" and t: "in_range t" "in_range now"
  shows "chrono_until pn pd now t = (let d = saturate (t - now) in
    if in_range (d * reduced pn pd 1000) \<and> in_range (d * reduced pn pd 1000000)
    then Inr \<lparr>du_ticks = d, du_msec = (d * int (pn * 1000)) sdiv int pd, du_usec = (d * int (pn * 1000000)) sdiv int pd\<rparr>
    else Inl (Undefined SignedOverflow))"
proof -
  note c = duration_cast_unit [OF pos _ saturate_range [of "t - now"]]
  show ?thesis
    using c [of 1000] c [of 1000000]
    by (simp add: chrono_until_def time_subtract_saturates [OF t] to_posix_duration_def total_milliseconds_def
        total_microseconds_def Let_def)
qed

text \<open>
  C40. Times of a clock that counts in \<open>int64_t\<close>. Adding a duration to a time and subtracting two times never overflows
  and gives the exact result, cut off at the ends of the range. Converting what is left until a time to milliseconds and
  microseconds gives the exact value truncated, for every period of the clock, unless the product with the numerator of
  the reduced factor leaves the range, which is a signed overflow in the code: with a clock that counts seconds, the
  greatest time seen from the epoch is such a case. With a clock that counts nanoseconds there is no overflow, and a queue whose first timer is at
  \<open>t\<close> waits 0 if the timer has expired, 1 if less than a unit is left, and otherwise the whole units left, at most the bound.
\<close>

theorem chrono_timers_saturate:
  assumes "in_range t" and "in_range now" and "in_range d" and "0 < pn" and "0 < pd"
    and "1 \<le> m" and "m < 9223372036854" and "tq_heap q = (t, x) # rest"
  shows "time_add t d = Inr (saturate (t + d)) \<and> time_subtract t now = Inr (saturate (t - now))
    \<and> chrono_until pn pd now t = (let d = saturate (t - now) in
         if in_range (d * reduced pn pd 1000) \<and> in_range (d * reduced pn pd 1000000)
         then Inr \<lparr>du_ticks = d, du_msec = (d * int (pn * 1000)) sdiv int pd, du_usec = (d * int (pn * 1000000)) sdiv int pd\<rparr>
         else Inl (Undefined SignedOverflow))
    \<and> chrono_until 1 1 0 i64_max = Inl (Undefined SignedOverflow)
    \<and> (\<exists>until. (\<forall>t'. in_range t' \<longrightarrow> chrono_until 1 1000000000 now t' = Inr (until t'))
         \<and> wait_duration_msec until m q = wait_for 1000000 m (t - now)
         \<and> wait_duration_usec until m q = wait_for 1000 m (t - now))"
proof -
  define until where "until t' = (let d = saturate (t' - now) in \<lparr>du_ticks = d, du_msec = d sdiv 1000000, du_usec = d sdiv 1000\<rparr>)" for t'
  have u: "in_range t' \<Longrightarrow> chrono_until 1 1000000000 now t' = Inr (until t')" for t'
    using nanoseconds_until assms(2) by (simp add: until_def)
  have "wait_duration_msec until m q = wait_for 1000000 m (t - now)" "wait_duration_usec until m q = wait_for 1000 m (t - now)"
    using wait_units [OF assms(1,2,6,7) u [OF assms(1)]] assms(8) by (simp_all add: wait_duration_msec_def wait_duration_usec_def)
  moreover have "chrono_until 1 1 0 i64_max = Inl (Undefined SignedOverflow)"
    using chrono_until_any [of 1 1 i64_max 0] by (simp add: reduced_def saturate_def i64_bounds Let_def)
  ultimately show ?thesis
    using u time_add_saturates [OF assms(1,3)] time_subtract_saturates [OF assms(1,2)] chrono_until_any [OF assms(4,5,1,2)] by blast
qed

text \<open>The greatest time, looked at from the least, with the bound of the reactor; a clock that counts milliseconds.\<close>

theorem chrono_timers_saturate_witness:
  "time_add i64_max 5 = Inr i64_max \<and> time_subtract i64_max i64_min = Inr i64_max
    \<and> chrono_until 1 1000 i64_min i64_max = Inl (Undefined SignedOverflow)
    \<and> (\<exists>until. (\<forall>t'. in_range t' \<longrightarrow> chrono_until 1 1000000000 i64_min t' = Inr (until t'))
         \<and> wait_duration_msec until 300000 \<lparr>tq_timers = Some (), tq_heap = [(i64_max, ())],
              tq_data = (\<lambda>t. new_timer 0 :: (unit, unit) per_timer_data)\<rparr> = 300000)"
proof -
  let ?q = "\<lparr>tq_timers = Some (), tq_heap = [(i64_max, ())], tq_data = (\<lambda>t. new_timer 0 :: (unit, unit) per_timer_data)\<rparr>"
  have "in_range i64_max" "in_range i64_min" "in_range 5" by (simp_all add: i64_bounds)
  note r = chrono_timers_saturate [OF this, of 1 1000 300000 ?q "()" "[]"]
  have "saturate (i64_max - i64_min) = i64_max" "\<not> in_range (i64_max * reduced 1 1000 1000000)"
    by (simp_all add: saturate_def reduced_def i64_bounds)
  with r show ?thesis by (simp add: saturate_def wait_for_def i64_bounds) metis
qed

end
