(* ===== verification/Asio_Ssl_Verify.thy ===== *)
theory Asio_Ssl_Verify
  imports Prelude
begin

text \<open>
  The check of a server's certificate against its host name: src/asio/include/asio/ssl/rfc2818_verification.hpp and
  ssl/impl/rfc2818_verification.ipp. A certificate is given by the entries that OpenSSL returns for it; the parsers of
  addresses (\<open>inet_pton\<close>) are arguments. \<open>tolower\<close> is that of the C locale.
\<close>

subsection \<open>Patterns\<close>

definition tolower :: "char \<Rightarrow> char" where
  "tolower c = (if 65 \<le> code c \<and> code c \<le> 90 then chr (code c + 32) else c)"

text \<open>\<open>match_star\<close> is the loop at a star and what follows it; the host is the text up to its terminator.\<close>

function match_pattern :: "string \<Rightarrow> string \<Rightarrow> bool" and match_star :: "string \<Rightarrow> string \<Rightarrow> bool" where
  "match_pattern p h =
     (case p of
        [] \<Rightarrow> h = []
      | c # p' \<Rightarrow>
          (case h of
             [] \<Rightarrow> False
           | x # h' \<Rightarrow>
               if c = CHR ''*'' then match_star p' h
               else if tolower c = tolower x then match_pattern p' h'
               else False))"
| "match_star p h =
     (case h of
        [] \<Rightarrow> match_pattern p h
      | x # h' \<Rightarrow>
          if x \<noteq> CHR ''.'' then (if match_pattern p h then True else match_star p h')
          else match_pattern p h)"
  by pat_completeness auto

termination
  by (relation "measures [\<lambda>x. case x of Inl (p, h) \<Rightarrow> length p | Inr (p, h) \<Rightarrow> length p,
      \<lambda>x. case x of Inl _ \<Rightarrow> 0 | Inr (p, h) \<Rightarrow> Suc (length h)]") auto

declare match_pattern.simps [simp del] match_star.simps [simp del]

subsection \<open>Certificates\<close>

text \<open>
  A string of a certificate: whether it has the type that is asked for, and its data, if there is any.
\<close>

record asn1_string =
  as_type_ok :: bool
  as_data :: "string option"

datatype general_name = GEN_DNS asn1_string | GEN_IPADD asn1_string | GEN_other

datatype address = Address_v4 string | Address_v6 string

record certificate_context =
  cx_error_depth :: nat
  cx_alt_names :: "general_name list"
  cx_common_names :: "asn1_string option list"

definition address_from_string :: "(string \<Rightarrow> string option) \<Rightarrow> (string \<Rightarrow> string option) \<Rightarrow> string \<Rightarrow> address option" where
  "address_from_string v6_from_string v4_from_string str =
     (case v6_from_string str of
        Some bytes \<Rightarrow> Some (Address_v6 bytes)
      | None \<Rightarrow> (case v4_from_string str of Some bytes \<Rightarrow> Some (Address_v4 bytes) | None \<Rightarrow> None))"

text \<open>One alternate name: whether the loop returns true at it.\<close>

definition alt_name_matches :: "address option \<Rightarrow> string \<Rightarrow> general_name \<Rightarrow> bool" where
  "alt_name_matches address host gen =
     (case gen of
        GEN_DNS domain \<Rightarrow>
          address = None \<and>
          (case as_data domain of Some d \<Rightarrow> as_type_ok domain \<and> d \<noteq> [] \<and> match_pattern d host | None \<Rightarrow> False)
      | GEN_IPADD ip_address \<Rightarrow>
          (case (address, as_data ip_address) of
             (Some (Address_v4 bytes), Some d) \<Rightarrow> as_type_ok ip_address \<and> length d = 4 \<and> bytes = d
           | (Some (Address_v6 bytes), Some d) \<Rightarrow> as_type_ok ip_address \<and> length d = 16 \<and> bytes = d
           | _ \<Rightarrow> False)
      | GEN_other \<Rightarrow> False)"

fun alt_names_match :: "address option \<Rightarrow> string \<Rightarrow> general_name list \<Rightarrow> bool" where
  "alt_names_match address host [] = False"
| "alt_names_match address host (gen # gens) =
     (if alt_name_matches address host gen then True else alt_names_match address host gens)"

text \<open>The last common name is the most specific.\<close>

fun last_common_name :: "asn1_string option list \<Rightarrow> asn1_string option \<Rightarrow> asn1_string option" where
  "last_common_name [] common_name = common_name"
| "last_common_name (entry # entries) common_name = last_common_name entries entry"

definition rfc2818_verification ::
  "(string \<Rightarrow> string option) \<Rightarrow> (string \<Rightarrow> string option) \<Rightarrow> string \<Rightarrow> bool \<Rightarrow> certificate_context \<Rightarrow> bool" where
  "rfc2818_verification v6_from_string v4_from_string host preverified ctx =
     (if \<not> preverified then False
      else if cx_error_depth ctx > 0 then True
      else
        let host = c_text host;
            address = address_from_string v6_from_string v4_from_string host
        in if alt_names_match address host (cx_alt_names ctx) then True
           else case last_common_name (cx_common_names ctx) None of
                  None \<Rightarrow> False
                | Some common_name \<Rightarrow>
                    (case as_data common_name of Some d \<Rightarrow> d \<noteq> [] \<and> match_pattern d host | None \<Rightarrow> False))"

subsection \<open>What a pattern matches\<close>

text \<open>A star stands for any characters of one label, at the end of the host for none.\<close>

fun pattern_matches :: "string \<Rightarrow> string \<Rightarrow> bool" where
  "pattern_matches [] h \<longleftrightarrow> h = []"
| "pattern_matches (c # p) h \<longleftrightarrow>
     (if c = CHR ''*'' then h \<noteq> [] \<and> (\<exists>n \<le> length (takeWhile (\<lambda>x. x \<noteq> CHR ''.'') h). pattern_matches p (drop n h))
      else h \<noteq> [] \<and> tolower c = tolower (hd h) \<and> pattern_matches p (tl h))"

lemma ex_le_Suc: "(\<exists>n \<le> Suc m. P n) \<longleftrightarrow> P 0 \<or> (\<exists>n \<le> m. P (Suc n))"
  by (metis Suc_le_mono not0_implies_Suc zero_le)

lemma match_star_spec:
  "(\<And>h. match_pattern p h = pattern_matches p h) \<Longrightarrow>
     match_star p h \<longleftrightarrow> (\<exists>n \<le> length (takeWhile (\<lambda>x. x \<noteq> CHR ''.'') h). pattern_matches p (drop n h))"
proof (induction h)
  case (Cons x h)
  then show ?case by (subst match_star.simps) (simp add: ex_le_Suc)
qed (simp add: match_star.simps)

lemma match_pattern_spec: "match_pattern p h = pattern_matches p h"
proof (induction p arbitrary: h)
  case (Cons c p)
  show ?case
    by (subst match_pattern.simps) (auto simp: Cons.IH match_star_spec [OF Cons.IH] neq_Nil_conv split: list.splits)
qed (simp add: match_pattern.simps)

lemma tolower_kept: "code d < 65 \<Longrightarrow> tolower c = d \<longleftrightarrow> c = d"
  by (auto simp: tolower_def code_chr)

lemma tolower_fixed [simp]: "tolower c = CHR ''.'' \<longleftrightarrow> c = CHR ''.''" "tolower c = NUL \<longleftrightarrow> c = NUL"
    "tolower (CHR ''.'') = CHR ''.''" "tolower NUL = NUL"
  by (simp_all add: tolower_kept code_def)

lemma label_dots: "n \<le> length (takeWhile (\<lambda>x. x \<noteq> CHR ''.'') h) \<Longrightarrow> count_list (drop n h) (CHR ''.'') = count_list h (CHR ''.'')"
proof (induction h arbitrary: n)
  case (Cons x h)
  then show ?case by (cases n) (auto split: if_splits)
qed simp

lemma pattern_dots: "pattern_matches p h \<Longrightarrow> count_list p (CHR ''.'') = count_list h (CHR ''.'')"
proof (induction p arbitrary: h)
  case (Cons c p)
  show ?case
  proof (cases "c = CHR ''*''")
    case True
    then obtain n where "n \<le> length (takeWhile (\<lambda>x. x \<noteq> CHR ''.'') h)" "pattern_matches p (drop n h)" using Cons.prems by auto
    then show ?thesis using Cons.IH label_dots True by fastforce
  next
    case False
    then obtain x h' where h: "h = x # h'" "tolower c = tolower x" "pattern_matches p h'" using Cons.prems by (cases h) auto
    then have "c = CHR ''.'' \<longleftrightarrow> x = CHR ''.''" by (metis tolower_fixed(1))
    then show ?thesis using Cons.IH [OF h(3)] h(1) by simp
  qed
qed simp

lemma pattern_nul: "pattern_matches p h \<Longrightarrow> NUL \<notin> set h \<Longrightarrow> NUL \<notin> set p"
proof (induction p arbitrary: h)
  case (Cons c p)
  show ?case
  proof (cases "c = CHR ''*''")
    case True
    then obtain n where "pattern_matches p (drop n h)" using Cons.prems by auto
    then show ?thesis using Cons.IH [of "drop n h"] Cons.prems(2) in_set_dropD [of NUL n h] True by auto
  next
    case False
    then obtain x h' where h: "h = x # h'" "tolower c = tolower x" "pattern_matches p h'" using Cons.prems by (cases h) auto
    then have "c \<noteq> NUL" using Cons.prems(2) by (metis list.set_intros(1) tolower_fixed(2))
    then show ?thesis using Cons.IH [OF h(3)] Cons.prems(2) h(1) by simp
  qed
qed simp

lemma pattern_plain: "CHR ''*'' \<notin> set p \<Longrightarrow> pattern_matches p h \<longleftrightarrow> map tolower p = map tolower h"
proof (induction p arbitrary: h)
  case (Cons c p)
  then show ?case by (cases h) auto
qed simp

text \<open>An alternate name that stands for the host.\<close>

definition vouches :: "address option \<Rightarrow> string \<Rightarrow> general_name \<Rightarrow> bool" where
  "vouches address host gen \<longleftrightarrow>
     (\<exists>d. gen = GEN_DNS \<lparr>as_type_ok = True, as_data = Some d\<rparr> \<and> d \<noteq> [] \<and> address = None \<and> pattern_matches d host)
     \<or> (\<exists>d. gen = GEN_IPADD \<lparr>as_type_ok = True, as_data = Some d\<rparr>
          \<and> (length d = 4 \<and> address = Some (Address_v4 d) \<or> length d = 16 \<and> address = Some (Address_v6 d)))"

lemma alt_name_vouches: "alt_name_matches address host gen \<longleftrightarrow> vouches address host gen"
proof -
  have e: "s = \<lparr>as_type_ok = True, as_data = Some d\<rparr> \<longleftrightarrow> as_type_ok s \<and> as_data s = Some d" for s :: asn1_string and d
    by (cases s) auto
  show ?thesis
    by (cases gen; cases address) (auto simp: alt_name_matches_def vouches_def e match_pattern_spec split: option.splits address.splits)
qed

lemma alt_names_any: "alt_names_match address host gens \<longleftrightarrow> (\<exists>gen \<in> set gens. vouches address host gen)"
  by (induction gens) (auto simp: alt_name_vouches)

lemma last_common: "last_common_name entries e = (if entries = [] then e else last entries)"
  by (induction entries arbitrary: e) auto

text \<open>
  C38. A certificate is accepted for a host exactly when it has passed OpenSSL's verification and is not the last of its
  chain, or has an alternate name that stands for the host, or its last common name does. A pattern never
  reaches over a label of the host: it has as many dots; a terminator inside a pattern of the certificate never matches; without a
  star the pattern is the host up to the case of letters.
\<close>

theorem certificate_accepted:
  fixes host :: string
  defines "h \<equiv> c_text host"
  shows "(rfc2818_verification v6 v4 host preverified ctx \<longleftrightarrow>
      preverified \<and> (0 < cx_error_depth ctx
        \<or> (\<exists>gen \<in> set (cx_alt_names ctx). vouches (address_from_string v6 v4 h) h gen)
        \<or> (\<exists>name d. cx_common_names ctx \<noteq> [] \<and> last (cx_common_names ctx) = Some name
             \<and> as_data name = Some d \<and> d \<noteq> [] \<and> pattern_matches d h)))
    \<and> (\<forall>p. pattern_matches p h \<longrightarrow> count_list p (CHR ''.'') = count_list h (CHR ''.'') \<and> NUL \<notin> set p
        \<and> (CHR ''*'' \<notin> set p \<longrightarrow> map tolower p = map tolower h))"
proof -
  have "NUL \<notin> set h" by (simp add: h_def c_text_def) (metis set_takeWhileD)
  then have "\<forall>p. pattern_matches p h \<longrightarrow> count_list p (CHR ''.'') = count_list h (CHR ''.'') \<and> NUL \<notin> set p
        \<and> (CHR ''*'' \<notin> set p \<longrightarrow> map tolower p = map tolower h)"
    using pattern_dots pattern_nul pattern_plain by blast
  moreover have "rfc2818_verification v6 v4 host preverified ctx \<longleftrightarrow>
      preverified \<and> (0 < cx_error_depth ctx
        \<or> (\<exists>gen \<in> set (cx_alt_names ctx). vouches (address_from_string v6 v4 h) h gen)
        \<or> (\<exists>name d. cx_common_names ctx \<noteq> [] \<and> last (cx_common_names ctx) = Some name
             \<and> as_data name = Some d \<and> d \<noteq> [] \<and> pattern_matches d h))"
    by (auto simp: rfc2818_verification_def h_def [symmetric] Let_def alt_names_any last_common match_pattern_spec split: option.splits)
  ultimately show ?thesis by blast
qed

text \<open>
  A certificate whose alternate name is another host, but whose common name is a pattern for the host, is accepted; the
  pattern does not reach a host with one more label.
\<close>

theorem certificate_accepted_witness:
  "let ctx = \<lparr>cx_error_depth = 0, cx_alt_names = [GEN_DNS \<lparr>as_type_ok = True, as_data = Some ''other.org''\<rparr>],
         cx_common_names = [Some \<lparr>as_type_ok = True, as_data = Some ''*.Example.com''\<rparr>]\<rparr>
   in rfc2818_verification (\<lambda>_. None) (\<lambda>_. None) ''irc.example.com'' True ctx
    \<and> \<not> pattern_matches ''*.Example.com'' ''a.irc.example.com''"
proof -
  have e: "tolower (CHR ''E'') = CHR ''e''" "tolower (CHR ''e'') = CHR ''e''"
    by (simp_all add: tolower_def code_def chr_def char_of_def bit_numeral_rec bit_Suc_0_iff)
  have "pattern_matches ''.Example.com'' (drop 3 ''irc.example.com'')" by (simp add: e)
  then have m: "pattern_matches ''*.Example.com'' ''irc.example.com''"
    by (subst pattern_matches.simps) (simp, rule exI [of _ 3], simp)
  have c: "c_text ''irc.example.com'' = ''irc.example.com''" "c_text ''a.irc.example.com'' = ''a.irc.example.com''"
    by (simp_all add: c_text_def)
  let ?ctx = "\<lparr>cx_error_depth = 0, cx_alt_names = [GEN_DNS \<lparr>as_type_ok = True, as_data = Some ''other.org''\<rparr>],
      cx_common_names = [Some \<lparr>as_type_ok = True, as_data = Some ''*.Example.com''\<rparr>]\<rparr>"
  have "rfc2818_verification (\<lambda>_. None) (\<lambda>_. None) ''irc.example.com'' True ?ctx"
    using certificate_accepted [of "\<lambda>_. None" "\<lambda>_. None" "''irc.example.com''" True ?ctx] m
    unfolding c by (simp del: pattern_matches.simps)
  moreover have "\<not> pattern_matches ''*.Example.com'' ''a.irc.example.com''"
    using certificate_accepted [of "\<lambda>_. None" "\<lambda>_. None" "''a.irc.example.com''" True ?ctx]
    unfolding c by (auto simp del: pattern_matches.simps)
  ultimately show ?thesis by (simp only: Let_def simp_thms)
qed

end
