(* ===== verification/Asio_Service_Registry.thy ===== *)
theory Asio_Service_Registry
  imports Prelude
begin

text \<open>
  The services of an \<open>io_service\<close>: src/asio/include/asio/detail/impl/service_registry.ipp and .hpp. Any number of threads
  look up, add and test services; the sections under the mutex are single steps. A service is created with the
  mutex released, and its constructor may call the registry again: each thread has a stack of services it is constructing.
  The theorem is that all this behaves as a map from kinds of services to services, that only grows.
\<close>

subsection \<open>Keys and services\<close>

record key =
  key_type_info :: "nat option"
  key_id :: "nat option"

text \<open>
  A kind of services has the type of its id: \<open>io_service::id\<close>, compared by its address, or \<open>service_id<Service>\<close>, by the type.
\<close>

datatype kind = With_id nat | With_type nat

fun init_key :: "kind \<Rightarrow> key" where
  "init_key (With_id i) = \<lparr>key_type_info = None, key_id = Some i\<rparr>"
| "init_key (With_type t) = \<lparr>key_type_info = Some t, key_id = None\<rparr>"

definition keys_match :: "key \<Rightarrow> key \<Rightarrow> bool" where
  "keys_match key1 key2 =
     (if key_id key1 \<noteq> None \<and> key_id key2 \<noteq> None \<and> key_id key1 = key_id key2 then True
      else if key_type_info key1 \<noteq> None \<and> key_type_info key2 \<noteq> None \<and> key_type_info key1 = key_type_info key2 then True
      else False)"

record service =
  sv_object :: nat
  sv_key :: key

text \<open>\<open>first_service_\<close> and the links \<open>next_\<close>, which are set once, are the list of the services, the newest first.\<close>

fun find_service :: "key \<Rightarrow> service list \<Rightarrow> service option" where
  "find_service k [] = None"
| "find_service k (service # services) = (if keys_match (sv_key service) k then Some service else find_service k services)"

subsection \<open>The registry\<close>

datatype outcome = Used kind nat | Added kind nat | Already_exists kind | Invalid_owner | Has kind bool | Factory_threw kind

record registry =
  rg_services :: "service list"
  rg_objects :: nat
  rg_constructing :: "nat \<Rightarrow> kind list"
  rg_discarded :: "nat list"
  rg_outcomes :: "outcome list"

definition service_registry :: "kind \<Rightarrow> registry" where
  "service_registry first =
     \<lparr>rg_services = [\<lparr>sv_object = 0, sv_key = init_key first\<rparr>], rg_objects = 1, rg_constructing = (\<lambda>_. []),
      rg_discarded = [], rg_outcomes = []\<rparr>"

definition outcome :: "outcome \<Rightarrow> registry \<Rightarrow> registry" where
  "outcome x r = r\<lparr>rg_outcomes := rg_outcomes r @ [x]\<rparr>"

text \<open>\<open>do_use_service\<close>: up to the call of the factory, and from its return.\<close>

definition use_service_lookup :: "nat \<Rightarrow> kind \<Rightarrow> registry \<Rightarrow> registry" where
  "use_service_lookup thread k r =
     (case find_service (init_key k) (rg_services r) of
        Some service \<Rightarrow> outcome (Used k (sv_object service)) r
      | None \<Rightarrow> r\<lparr>rg_constructing := (rg_constructing r)(thread := k # rg_constructing r thread)\<rparr>)"

definition use_service_insert :: "kind \<Rightarrow> registry \<Rightarrow> registry" where
  "use_service_insert k r =
     (let new_service = rg_objects r; r = r\<lparr>rg_objects := Suc new_service\<rparr>
      in case find_service (init_key k) (rg_services r) of
           Some service \<Rightarrow> outcome (Used k (sv_object service)) (r\<lparr>rg_discarded := new_service # rg_discarded r\<rparr>)
         | None \<Rightarrow> outcome (Used k new_service)
             (r\<lparr>rg_services := \<lparr>sv_object = new_service, sv_key = init_key k\<rparr> # rg_services r\<rparr>))"

text \<open>The program adds a service that it has created for this or for another \<open>io_service\<close>.\<close>

definition do_add_service :: "bool \<Rightarrow> kind \<Rightarrow> registry \<Rightarrow> registry" where
  "do_add_service owner k r =
     (let new_service = rg_objects r; r = r\<lparr>rg_objects := Suc new_service\<rparr>
      in if \<not> owner then outcome Invalid_owner r
         else if find_service (init_key k) (rg_services r) \<noteq> None then outcome (Already_exists k) r
         else outcome (Added k new_service)
           (r\<lparr>rg_services := \<lparr>sv_object = new_service, sv_key = init_key k\<rparr> # rg_services r\<rparr>))"

definition do_has_service :: "kind \<Rightarrow> registry \<Rightarrow> registry" where
  "do_has_service k r = outcome (Has k (find_service (init_key k) (rg_services r) \<noteq> None)) r"

text \<open>
  What the threads do, in any order: the calls, and the end of the innermost construction of a thread, by a return or an exception.
\<close>

datatype action = Use nat kind | Constructed nat | Construction_throws nat | Add bool kind | Test kind

definition pop_constructing :: "nat \<Rightarrow> registry \<Rightarrow> registry" where
  "pop_constructing thread r = r\<lparr>rg_constructing := (rg_constructing r)(thread := tl (rg_constructing r thread))\<rparr>"

fun registry_step :: "registry \<Rightarrow> action \<Rightarrow> registry" where
  "registry_step r (Use thread k) = use_service_lookup thread k r"
| "registry_step r (Constructed thread) =
     (case rg_constructing r thread of [] \<Rightarrow> r | k # _ \<Rightarrow> use_service_insert k (pop_constructing thread r))"
| "registry_step r (Construction_throws thread) =
     (case rg_constructing r thread of [] \<Rightarrow> r | k # _ \<Rightarrow> outcome (Factory_threw k) (pop_constructing thread r))"
| "registry_step r (Add owner k) = do_add_service owner k r"
| "registry_step r (Test k) = do_has_service k r"

definition registry_run :: "kind \<Rightarrow> action list \<Rightarrow> registry" where
  "registry_run first actions = foldl registry_step (service_registry first) actions"

subsection \<open>Destruction and fork\<close>

datatype service_call = Shutdown_service nat | Destroy nat | Fork_service nat

fun shutdown_loop :: "service list \<Rightarrow> service_call list" where
  "shutdown_loop [] = []"
| "shutdown_loop (service # services) = Shutdown_service (sv_object service) # shutdown_loop services"

fun destroy_loop :: "service list \<Rightarrow> service_call list" where
  "destroy_loop [] = []"
| "destroy_loop (service # services) = Destroy (sv_object service) # destroy_loop services"

definition registry_destructor :: "registry \<Rightarrow> service_call list" where
  "registry_destructor r = shutdown_loop (rg_services r) @ destroy_loop (rg_services r)"

text \<open>The calls of \<open>notify_fork\<close>, on the copy that it makes under the lock.\<close>

definition notify_fork :: "bool \<Rightarrow> registry \<Rightarrow> service_call list" where
  "notify_fork prepare r =
     (let services = rg_services r; num_services = length services
      in if prepare then map (\<lambda>i. Fork_service (sv_object (services ! i))) [0..<num_services]
         else map (\<lambda>i. Fork_service (sv_object (services ! (i - 1)))) (rev [1..<Suc num_services]))"


subsection \<open>A map that only grows\<close>

text \<open>The outcomes, as calls on a map, one after the other.\<close>

fun map_step :: "(kind \<rightharpoonup> nat) \<Rightarrow> outcome \<Rightarrow> (kind \<rightharpoonup> nat) option" where
  "map_step m (Used k v) = (case m k of Some v' \<Rightarrow> if v' = v then Some m else None | None \<Rightarrow> Some (m(k \<mapsto> v)))"
| "map_step m (Added k v) = (if m k = None then Some (m(k \<mapsto> v)) else None)"
| "map_step m (Already_exists k) = (if m k = None then None else Some m)"
| "map_step m Invalid_owner = Some m"
| "map_step m (Has k b) = (if b \<longleftrightarrow> m k \<noteq> None then Some m else None)"
| "map_step m (Factory_threw k) = Some m"

fun replay :: "(kind \<rightharpoonup> nat) \<Rightarrow> outcome list \<Rightarrow> (kind \<rightharpoonup> nat) option" where
  "replay m [] = Some m"
| "replay m (x # xs) = Option.bind (map_step m x) (\<lambda>m. replay m xs)"

definition services_map :: "service list \<Rightarrow> kind \<Rightarrow> nat option" where
  "services_map services k = map_option sv_object (find_service (init_key k) services)"

definition registry_inv :: "kind \<Rightarrow> registry \<Rightarrow> bool" where
  "registry_inv first r \<longleftrightarrow>
     replay [first \<mapsto> 0] (rg_outcomes r) = Some (services_map (rg_services r))
     \<and> (\<forall>sv \<in> set (rg_services r). \<exists>k. sv_key sv = init_key k \<and> services_map (rg_services r) k = Some (sv_object sv))
     \<and> distinct (map sv_object (rg_services r) @ rg_discarded r)
     \<and> (\<forall>v \<in> set (map sv_object (rg_services r) @ rg_discarded r). v < rg_objects r)"

lemma keys_match_kinds [simp]: "keys_match (init_key a) (init_key b) \<longleftrightarrow> a = b"
  by (cases a; cases b) (auto simp: keys_match_def)

lemma replay_append: "replay m (xs @ ys) = Option.bind (replay m xs) (\<lambda>m. replay m ys)"
  by (induction xs arbitrary: m) (auto simp: Option.bind_assoc)

lemma services_map_Cons [simp]:
  "services_map (\<lparr>sv_object = v, sv_key = init_key k\<rparr> # services) = (services_map services)(k \<mapsto> v)"
  by (auto simp: services_map_def)

lemma find_services_map:
  "find_service (init_key k) services = None \<longleftrightarrow> services_map services k = None"
  "find_service (init_key k) services = Some sv \<Longrightarrow> services_map services k = Some (sv_object sv)"
  by (auto simp: services_map_def)

lemma registry_inv_outcome:
  "registry_inv first r \<Longrightarrow> map_step (services_map (rg_services r)) x = Some (services_map (rg_services r))
    \<Longrightarrow> registry_inv first (outcome x r)"
  by (simp add: registry_inv_def outcome_def replay_append)

text \<open>A service that has been created and is discarded, left with the program, or registered.\<close>

lemma registry_inv_created:
  assumes "registry_inv first r"
  shows "registry_inv first (r\<lparr>rg_objects := Suc (rg_objects r)\<rparr>)"
    and "registry_inv first (r\<lparr>rg_objects := Suc (rg_objects r), rg_discarded := rg_objects r # rg_discarded r\<rparr>)"
  using assms by (auto simp: registry_inv_def intro: less_SucI)

lemma registry_inv_register:
  assumes "registry_inv first r" and none: "services_map (rg_services r) k = None"
    and "map_step (services_map (rg_services r)) x = Some ((services_map (rg_services r))(k \<mapsto> rg_objects r))"
  shows "registry_inv first (outcome x (r\<lparr>rg_objects := Suc (rg_objects r),
    rg_services := \<lparr>sv_object = rg_objects r, sv_key = init_key k\<rparr> # rg_services r\<rparr>))"
proof -
  let ?services = "\<lparr>sv_object = rg_objects r, sv_key = init_key k\<rparr> # rg_services r"
  note inv = assms(1) [unfolded registry_inv_def]
  have "\<exists>k'. sv_key sv = init_key k' \<and> services_map ?services k' = Some (sv_object sv)" if sv: "sv \<in> set ?services" for sv
  proof (cases "sv \<in> set (rg_services r)")
    case True
    with inv obtain k' where k': "sv_key sv = init_key k'" "services_map (rg_services r) k' = Some (sv_object sv)" by blast
    with none have "k' \<noteq> k" by auto
    with k' show ?thesis by auto
  next
    case False
    with sv show ?thesis by auto
  qed
  moreover have "replay [first \<mapsto> 0] (rg_outcomes r @ [x]) = Some (services_map ?services)"
    using inv assms(3) by (simp add: replay_append)
  moreover have "distinct (map sv_object ?services @ rg_discarded r)" using inv by auto
  moreover have "\<forall>v \<in> set (map sv_object ?services @ rg_discarded r). v < Suc (rg_objects r)"
    using inv by (auto intro: less_SucI)
  ultimately show ?thesis by (simp add: registry_inv_def outcome_def)
qed

lemma registry_inv_constructing [simp]: "registry_inv first (rg_constructing_update f r) = registry_inv first r"
  by (simp add: registry_inv_def)

lemma use_service_insert_inv: "registry_inv first r \<Longrightarrow> registry_inv first (use_service_insert k r)"
  using registry_inv_created [of first r] registry_inv_register [of first r k "Used k (rg_objects r)"]
  by (auto simp: use_service_insert_def Let_def find_services_map intro!: registry_inv_outcome split: option.split)

lemma do_add_service_inv: "registry_inv first r \<Longrightarrow> registry_inv first (do_add_service owner k r)"
  using registry_inv_created [of first r] registry_inv_register [of first r k "Added k (rg_objects r)"]
  by (auto simp: do_add_service_def Let_def find_services_map intro!: registry_inv_outcome)

lemma registry_step_inv: "registry_inv first r \<Longrightarrow> registry_inv first (registry_step r a)"
proof (cases a)
  case (Constructed thread)
  then show "registry_inv first r \<Longrightarrow> ?thesis"
    by (auto simp: pop_constructing_def intro!: use_service_insert_inv split: list.split)
qed (auto simp: use_service_lookup_def do_has_service_def pop_constructing_def find_services_map
    intro!: registry_inv_outcome do_add_service_inv split: option.split list.split)

lemma registry_run_inv: "registry_inv first (registry_run first actions)"
proof -
  have "registry_inv first r \<Longrightarrow> registry_inv first (foldl registry_step r actions)" for r
    by (induction actions arbitrary: r) (simp_all add: registry_step_inv)
  moreover have "registry_inv first (service_registry first)"
    by (auto simp: registry_inv_def service_registry_def services_map_def)
  ultimately show ?thesis by (simp add: registry_run_def)
qed

text \<open>Services are only added, in front.\<close>

lemma registry_step_grows: "\<exists>new. rg_services (registry_step r a) = new @ rg_services r"
  by (cases a) (auto simp: use_service_lookup_def use_service_insert_def do_add_service_def do_has_service_def outcome_def
      pop_constructing_def Let_def split: option.split list.split)

lemma registry_run_grows: "\<exists>new. rg_services (registry_run first (actions @ later)) = new @ rg_services (registry_run first actions)"
proof -
  have "\<exists>new. rg_services (foldl registry_step r later) = new @ rg_services r" for r
  proof (induction later arbitrary: r)
    case (Cons a later)
    then show ?case using registry_step_grows [of r a] by (metis append.assoc foldl_Cons)
  qed simp
  then show ?thesis by (simp add: registry_run_def)
qed

lemma service_loops:
  "shutdown_loop services = map Shutdown_service (map sv_object services)"
  "destroy_loop services = map Destroy (map sv_object services)"
  by (induction services) simp_all

lemma fork_calls: "map (\<lambda>i. Fork_service (sv_object (f i))) xs = map Fork_service (map sv_object (map f xs))"
  by (induction xs) simp_all

lemma backwards: "map (\<lambda>i. xs ! (i - 1)) (rev [1..<Suc (length xs)]) = rev xs"
proof -
  have "map (\<lambda>i. xs ! (i - 1)) [1..<Suc (length xs)] = xs" by (rule nth_equalityI) (simp_all del: upt_Suc)
  then show ?thesis by (metis rev_map)
qed

lemma notify_fork_order:
  "notify_fork prepare r = map Fork_service (map sv_object (if prepare then rg_services r else rev (rg_services r)))"
proof (cases prepare)
  case True
  have "notify_fork True r = map (\<lambda>i. Fork_service (sv_object (rg_services r ! i))) [0..<length (rg_services r)]"
    by (simp add: notify_fork_def Let_def)
  then show ?thesis using True unfolding fork_calls map_nth by simp
next
  case False
  have "notify_fork False r = map (\<lambda>i. Fork_service (sv_object (rg_services r ! (i - 1)))) (rev [1..<Suc (length (rg_services r))])"
    by (simp only: notify_fork_def Let_def if_False)
  then show ?thesis using False unfolding fork_calls backwards by simp
qed

text \<open>
  C39. For every number of threads, in every order of their steps and with any nesting of constructions, what the calls on the
  registry answer is what a map from kinds to services answers that starts with the service of the event loop and only
  grows: \<open>use_service\<close> always gives the one service of its kind. Every service is found under its own kind, so that there is
  one for a kind; a service that lost a race is not registered. The destructor shuts all services down before it
  destroys any, each once, the newest first; \<open>fork_prepare\<close> goes in this order, the other fork events in that of the registration.
\<close>

theorem registry_is_map:
  "let r = registry_run first actions; objects = map sv_object (rg_services r)
   in replay [first \<mapsto> 0] (rg_outcomes r) = Some (services_map (rg_services r))
    \<and> (\<forall>sv \<in> set (rg_services r). \<exists>k. sv_key sv = init_key k \<and> services_map (rg_services r) k = Some (sv_object sv))
    \<and> distinct (objects @ rg_discarded r)
    \<and> (\<exists>new. rg_services (registry_run first (actions @ later)) = new @ rg_services r)
    \<and> registry_destructor r = map Shutdown_service objects @ map Destroy objects
    \<and> notify_fork True r = map Fork_service objects \<and> notify_fork False r = map Fork_service (rev objects)"
  using registry_run_inv [of first actions] registry_run_grows [of first actions later]
  by (simp add: Let_def registry_inv_def registry_destructor_def service_loops notify_fork_order rev_map)

text \<open>
  Two threads create the same service at once, one of them with another service in its constructor: the second result is
  discarded.
\<close>

theorem registry_is_map_witness:
  "let k = With_type 7; k' = With_id 3;
       r = registry_run (With_id 0) [Use 1 k, Use 2 k, Use 2 k', Constructed 2, Constructed 2, Constructed 1, Test k', Add True k]
   in rg_outcomes r = [Used k' 1, Used k 2, Used k 2, Has k' True, Already_exists k] \<and> rg_discarded r = [3]
    \<and> registry_destructor r = map Shutdown_service [2, 1, 0] @ map Destroy [2, 1, 0]"
proof -
  let ?k = "With_type 7" and ?k' = "With_id 3"
  let ?r = "registry_run (With_id 0) [Use 1 ?k, Use 2 ?k, Use 2 ?k', Constructed 2, Constructed 2, Constructed 1, Test ?k', Add True ?k]"
  have run: "map sv_object (rg_services ?r) = [2, 1, 0] \<and> rg_discarded ?r = [3]
      \<and> rg_outcomes ?r = [Used ?k' 1, Used ?k 2, Used ?k 2, Has ?k' True, Already_exists ?k]"
    by code_simp
  have "registry_destructor ?r = map Shutdown_service (map sv_object (rg_services ?r)) @ map Destroy (map sv_object (rg_services ?r))"
    using registry_is_map [of "With_id 0" "[Use 1 ?k, Use 2 ?k, Use 2 ?k', Constructed 2, Constructed 2, Constructed 1, Test ?k', Add True ?k]" "[]"]
    unfolding Let_def by (elim conjE)
  with run show ?thesis unfolding Let_def by (simp only: simp_thms)
qed

end
