(* ===== verification/Spec2Isabelle.thy ===== *)
theory Spec2Isabelle
  imports Fmt_Formatter Fmt_Field Irc_Writes Asio_Read Asio_Op_Queue Asio_Strand Asio_Timer_Set
    Asio_Io_Service Asio_Sockets Asio_Connect Asio_Chrono Asio_Ssl_Verify Asio_Service_Registry
begin

text \<open>
  A verification development for cqIRC, an IRC client library in C++ (src/irc-client.cpp, .h, -internal.hpp)
  with a flex scanner for the messages (src/irc-client.l), a copy of the fmt library (src/format.h, format.cc)
  and a copy of the Asio library (src/asio).

  \<^bold>\<open>The program.\<close> A session resolves a host, connects a socket and reads lines: \<open>on_read\<close> is called with
  the size of a line by \<open>async_read_until\<close>, copies the line out of the input stream buffer, starts the next
  read and posts \<open>thread_parse\<close>, which runs the scanner; the scanner calls the callback of the command. The
  program writes lines with \<open>async_write\<close>, some of them formatted by fmt.

  \<^bold>\<open>Theories and code.\<close>
  \<^item> \<open>Prelude\<close>: errors as values (\<open>res\<close> for a result or a failure: an exception, an assertion or undefined
    behaviour), C strings, memory cells, decimal notation.
  \<^item> fmt: \<open>Fmt_Array\<close> (\<open>internal::Array\<close>), \<open>Fmt_Digits\<close> (\<open>CountDigits\<close>, \<open>FormatInt\<close>, \<open>FormatDec\<close>), \<open>Fmt_Spec\<close>
    (specifiers and string references), \<open>Fmt_Writer\<close> (\<open>BasicWriter\<close>: padding, integers, strings), \<open>Fmt_Double\<close>
    (floating point around \<open>snprintf\<close>), \<open>Fmt_Parser\<close> (\<open>FormatParser\<close>), \<open>Fmt_Field\<close> (a grammar and a meaning of replacement
    fields without the parser's functions, and the proof that the parser reads it), \<open>Fmt_Formatter\<close> (formatters, sinks and
    system errors).
  \<^item> the scanner: \<open>Flex_Regex\<close> (patterns, their languages, longest match and first rule), \<open>Irc_Lexer\<close> (all
    rules and actions of irc-client.l), \<open>Irc_Scan\<close> (what a run does).
  \<^item> Asio: \<open>Asio_Buffer\<close> (buffer.hpp), \<open>Asio_Streambuf\<close> (basic_streambuf.hpp), \<open>Asio_Socket\<close> (the send and receive
    loops of socket_ops.ipp, and the asynchronous operations as the attempts that the reactor makes), \<open>Asio_Transfer\<close> (completion conditions, \<open>consuming_buffers\<close>, the composed loop and
    its operation objects), \<open>Asio_Read\<close>, \<open>Asio_Write\<close> and \<open>Asio_Read_Until\<close> (impl/read.hpp, write.hpp, read_until.hpp), \<open>Asio_Op_Queue\<close>
    (op_queue.hpp), \<open>Asio_Io_Service\<close> (the event loop, task_io_service.ipp, with posix_event.hpp and
    the interrupter of the reactor), \<open>Asio_Strand\<close>
    (strand_service.ipp and .hpp; a strand is scheduled in the common queue or in the private one of a thread), \<open>Asio_Timer\<close> and \<open>Asio_Timers\<close> (timer_queue.hpp: the operations, then their
    contract), \<open>Asio_Timer_Set\<close> (waiting times, timer_queue_set.ipp).
    The reactor: \<open>Asio_Object_Pool\<close> (object_pool.hpp), \<open>Asio_Descriptor\<close> (the state of a descriptor in epoll_reactor.ipp: its queues
    of operations), \<open>Asio_Reactor\<close> (the whole of epoll_reactor.ipp on a store of such states), \<open>Asio_Reactive\<close> (what receiving, sending
    and connecting do when the reactor performs them, reactive_socket_recv_op.hpp and others). Sockets: \<open>Asio_Socket_Service\<close>
    (reactive_socket_service_base.ipp), \<open>Asio_Sockets\<close> (any number of them over one reactor), \<open>Asio_Connect\<close> (impl/connect.hpp and
    the iterator of ip/basic_resolver_iterator.hpp). Around them: \<open>Asio_Chrono\<close> (chrono_time_traits.hpp), \<open>Asio_Service_Registry\<close>
    (service_registry.ipp), \<open>Asio_Ssl_Verify\<close> (the check of a certificate's host in ssl/impl/rfc2818_verification.ipp).
  \<^item> the client: \<open>Irc_Session\<close> (state and calls), \<open>Irc_Client\<close> (handlers and event loop), \<open>Irc_Delivery\<close> (what is
    received), \<open>Irc_Writes\<close> (what is sent).

  \<^bold>\<open>Interfaces.\<close> \<open>read_stream\<close> and \<open>write_stream\<close> say what the composed operations rely on, and are interpreted
  on the TCP socket, on its synchronous and its asynchronous operations; \<open>transfer_stream\<close> is the common contract of reads and writes; \<open>resumable_search\<close> and
  \<open>read_until_stream\<close> are those of \<open>read_until\<close>, interpreted for a string and a character delimiter; \<open>fifo\<close> is the
  contract of the operation queue over the lists it stands for, \<open>timer_service\<close> that of a timer queue over the map
  from timers to times and operations, \<open>recycling_pool\<close> that of the pool over the lists of live and free objects; \<open>edge_triggered\<close>
  is what the reactor relies on (epoll(7): an event is reported once, when it comes up or the registration is changed) and is
  interpreted on the operations of a socket; \<open>forward_iterator\<close> is what \<open>connect\<close> relies on, interpreted on the resolver's.

  \<^bold>\<open>What is shown.\<close> fmt: the format-string interpreter and the writer append exactly the text a specification
  gives, or throw exactly its error; the digits are right at every width; the buffer operations are safe
  except where stated. The scanner: a well-formed message is delivered once with its parts, and on every input
  the scanner ends, with one delivery, none or out of bounds. Asio: the stream buffer is a bounded queue; transfers move a prefix of the bytes and all
  of them unless an error is reported; the asynchronous operations, which wait
  while the socket would block and retry when they are interrupted, give what the synchronous ones give on the same answers; the
  searches of \<open>read_until\<close> find the first delimiter; the intrusive queue of operations is
  a list; the event loop, for any finite number of threads, starts each handler once, stops by itself only when
  no work is left, and loses no wakeup as long as threads call \<open>run\<close> and handlers do not throw (with \<open>run_one\<close> it
  can); a strand runs one handler at a time, in order, and all of them while threads stay in the service; the timers hand out what is due in the
  order of time, and every handler once; the reactor loses no event, accounts for every operation and reuses its states safely;
  sockets never reach each other's operations, closing one aborts its own, and no operation waits on a descriptor that blocks
  unless the program wants it; connecting finds the first endpoint that accepts;
  the arithmetic of times saturates (converting them overflows with coarse clocks only); the registry of services is a map that only grows; a certificate is accepted exactly for
  the names that stand for the host. The client: the messages of the server reach the callbacks
  in order, each once; a program that does not destroy its session causes no use of freed memory, and calls a null pointer
  only through the two connection callbacks, which the code does not test; what can go
  wrong otherwise is shown on concrete runs.

  \<^bold>\<open>Bounds and termination.\<close> Loops that may not end are partial functions into an option type, and the theorems
  that they return are part of the statements; all other functions terminate by a measure. Machine integers
  are words, or naturals and integers with the conversions written out (\<open>to_int\<close> for \<open>size_t\<close> to \<open>int\<close>). The
  theorems on the client assume that the peer sends fewer than 2^31 - 2 bytes, the range of the \<open>int\<close> in
  \<open>on_read\<close>. The tables of the scanner have any number of columns: the build uses
  \<open>flex -f\<close>, which makes 128, and a character outside of them is read out of bounds. Timers are fewer than
  2^64 (\<open>SIZE_MAX\<close>), as their indexes are of type \<open>size_t\<close>. The theorems on several threads are for any finite set
  of threads; progress is stated with a measure (\<open>strand_todo\<close>) or as the existence of a thread that goes on.

  \<^bold>\<open>Parameters.\<close> Code outside the repository is an argument: the digits of a floating-point conversion, \<open>strerror\<close>,
  the results of system calls, a regular-expression search, the success of \<open>yylex_init_extra\<close>. The matcher that
  flex generates is given by flex's documented rule.

  \<^bold>\<open>Not modelled.\<close> Wide-character instances and Windows code of fmt; of Asio the parts that wrap system calls,
  OpenSSL or Windows (the other reactors, name resolution, address conversion, TLS streams, socket options, accepting, datagrams, descriptors,
  serial ports, completion ports), and the loop when it is called from
  one of its own handlers, \<open>fork_service\<close> of the reactor; the client
  with several threads in its service; the sample program under tests. The client includes Boost's Asio, of which the
  copy in the repository is the stand-alone release.
\<close>

end
